(* ===== verification/Prelude.thy ===== *)
theory Prelude
  imports Main "HOL-Library.Word"
begin

text \<open>
  Prelude of the development: the machine types the driver uses, the memory and
  index operations its components share (\<open>memcpy\<close> into an array, circular index
  arithmetic), the reachable states of a step relation with the rule that lifts an
  invariant to them, and the interface of a bounded FIFO that the two ring buffers
  of the driver implement.
\<close>

unbundle bit_operations_syntax

type_synonym u8 = "8 word"
type_synonym u16 = "16 word"
type_synonym u32 = "32 word"
type_synonym u64 = "64 word"

named_theorems circ_simps \<open>circular index arithmetic\<close>
named_theorems mem_simps \<open>reading an array after a block copy\<close>

section \<open>Circular index arithmetic\<close>

lemma mod_wrap:
  fixes r i cap :: nat
  assumes "r < cap" "i \<le> cap"
  shows "(r + i) mod cap = (if r + i < cap then r + i else r + i - cap)"
  using assms by (auto simp: mod_if le_mod_geq)

lemma mod_window_inj:
  fixes a i j cap :: nat
  assumes "(a + i) mod cap = (a + j) mod cap" "i < cap" "j < cap"
  shows "i = j"
proof -
  have "int cap dvd (int (a + i) - int (a + j))"
    using assms(1) by (metis mod_eq_dvd_iff zmod_int)
  then have "int cap dvd (int i - int j)" by simp
  with assms(2,3) show ?thesis
    using zdvd_imp_le [of "int cap" "int i - int j"] zdvd_imp_le [of "int cap" "int j - int i"]
      dvd_diff_commute [of "int cap" "int i" "int j"]
    by (cases "i = j"; cases "i < j"; force)
qed

section \<open>Words\<close>

lemma unat_pow2:
  assumes "k < LENGTH('a)"
  shows "unat (2 ^ k :: 'a::len word) = 2 ^ k"
proof -
  have "(2 ^ k :: 'a word) = of_nat (2 ^ k)" by simp
  then have "unat (2 ^ k :: 'a word) = 2 ^ k mod 2 ^ LENGTH('a)" by (metis unat_of_nat)
  with assms show ?thesis by simp
qed

lemma length_filter_update:
  assumes "i < length xs"
  shows "length (filter Q (xs[i := x])) + (if Q (xs ! i) then 1 else 0) =
    length (filter Q xs) + (if Q x then 1 else 0)"
proof -
  have "length (filter Q xs) = length (filter Q (take i xs @ xs ! i # drop (Suc i) xs))"
    using id_take_nth_drop [OF assms] by simp
  then show ?thesis by (simp add: upd_conv_take_nth_drop [OF assms])
qed

lemma unat_and_mask: "unat (w AND mask k :: 'a::len word) = unat w mod 2 ^ k"
proof -
  have "unat (w AND mask k) = take_bit k (unat w)"
    by (simp add: take_bit_eq_mask [symmetric] unsigned_take_bit_eq)
  then show ?thesis by (simp add: take_bit_eq_mod)
qed

lemma unat_plus_of_nat_mod:
  assumes "m dvd 2 ^ LENGTH('a)"
  shows "unat (w + of_nat i :: 'a::len word) mod m = (unat w + i) mod m"
  using assms by (simp add: unat_word_ariths unat_of_nat mod_mod_cancel mod_simps)

section \<open>Block copies\<close>

text \<open>\<open>std::memcpy(&dst[i], src, n)\<close> for a block that lies inside the array.\<close>

definition memcpy_at :: "'a list \<Rightarrow> nat \<Rightarrow> 'a list \<Rightarrow> 'a list" where
  "memcpy_at dst i src = take i dst @ src @ drop (i + length src) dst"

lemma length_memcpy_at [simp, mem_simps]:
  "i + length src \<le> length dst \<Longrightarrow> length (memcpy_at dst i src) = length dst"
  by (simp add: memcpy_at_def)

lemma nth_memcpy_at [mem_simps]:
  assumes "i + length src \<le> length dst" "k < length dst"
  shows "memcpy_at dst i src ! k =
    (if i \<le> k \<and> k < i + length src then src ! (k - i) else dst ! k)"
  using assms by (auto simp: memcpy_at_def nth_append min_def)

lemma memcpy_at_Nil [simp]: "memcpy_at dst i [] = dst"
  by (simp add: memcpy_at_def)

section \<open>Step relations and their invariants\<close>

inductive reach :: "('s \<Rightarrow> bool) \<Rightarrow> ('s \<Rightarrow> 's \<Rightarrow> bool) \<Rightarrow> 's \<Rightarrow> bool"
  for start :: "'s \<Rightarrow> bool" and step :: "'s \<Rightarrow> 's \<Rightarrow> bool" where
  reach_start: "start s \<Longrightarrow> reach start step s"
| reach_step: "reach start step s \<Longrightarrow> step s t \<Longrightarrow> reach start step t"

text \<open>
  The contract of an inductive invariant. Every concurrent component interprets it on
  its own step relation; \<open>reach_inv\<close> is then the safety argument.
\<close>

locale invariant_system =
  fixes start :: "'s \<Rightarrow> bool" and step :: "'s \<Rightarrow> 's \<Rightarrow> bool" and inv :: "'s \<Rightarrow> bool"
  assumes inv_start: "start s \<Longrightarrow> inv s"
    and inv_step: "inv s \<Longrightarrow> step s t \<Longrightarrow> inv t"
begin

lemma reach_inv: "reach start step s \<Longrightarrow> inv s"
  by (induction rule: reach.induct) (auto intro: inv_start inv_step)

lemma rtranclp_inv: "step\<^sup>*\<^sup>* s t \<Longrightarrow> inv s \<Longrightarrow> inv t"
  by (induction rule: rtranclp_induct) (auto intro: inv_step)

lemma reach_rtranclp: "step\<^sup>*\<^sup>* s t \<Longrightarrow> reach start step s \<Longrightarrow> reach start step t"
  by (induction rule: rtranclp_induct) (auto intro: reach_step)

end

section \<open>The interface of a bounded FIFO\<close>

datatype 'a fifo_op = Put 'a | Take

datatype 'a fifo_res = Accepted | Rejected | Got 'a | Empty

locale bounded_fifo =
  fixes ok :: "'q \<Rightarrow> bool"
    and contents :: "'q \<Rightarrow> 'a list"
    and room :: "'q \<Rightarrow> nat"
    and put :: "'a \<Rightarrow> 'q \<Rightarrow> bool \<times> 'q"
    and get :: "'q \<Rightarrow> 'a option \<times> 'q"
  assumes put_room: "ok q \<Longrightarrow> length (contents q) < room q \<Longrightarrow> put x q = (b, q') \<Longrightarrow>
      b \<and> ok q' \<and> contents q' = contents q @ [x] \<and> room q' = room q"
    and put_full: "ok q \<Longrightarrow> length (contents q) = room q \<Longrightarrow> put x q = (False, q)"
    and bounded: "ok q \<Longrightarrow> length (contents q) \<le> room q"
    and get_some: "ok q \<Longrightarrow> contents q = x # xs \<Longrightarrow> get q = (v, q') \<Longrightarrow>
      v = Some x \<and> ok q' \<and> contents q' = xs \<and> room q' = room q"
    and get_none: "ok q \<Longrightarrow> contents q = [] \<Longrightarrow> get q = (None, q)"
begin

text \<open>A run of operations, with the result of each.\<close>

fun run :: "'a fifo_op list \<Rightarrow> 'q \<Rightarrow> 'a fifo_res list \<times> 'q" where
  "run [] q = ([], q)"
| "run (Put x # ops) q =
     (let (b, q1) = put x q; (rs, q2) = run ops q1
      in ((if b then Accepted else Rejected) # rs, q2))"
| "run (Take # ops) q =
     (let (v, q1) = get q; (rs, q2) = run ops q1
      in ((case v of None \<Rightarrow> Empty | Some x \<Rightarrow> Got x) # rs, q2))"

end

text \<open>What went in and what came out of a run, read off its results.\<close>

fun accepted :: "'a fifo_op list \<Rightarrow> 'a fifo_res list \<Rightarrow> 'a list" where
  "accepted (Put x # ops) (Accepted # rs) = x # accepted ops rs"
| "accepted (_ # ops) (_ # rs) = accepted ops rs"
| "accepted _ _ = []"

fun delivered :: "'a fifo_res list \<Rightarrow> 'a list" where
  "delivered [] = []"
| "delivered (Got x # rs) = x # delivered rs"
| "delivered (_ # rs) = delivered rs"

context bounded_fifo begin

lemma put_cases:
  assumes "ok q" "put x q = (b, q')"
  shows "ok q'" "room q' = room q" "contents q' = (if b then contents q @ [x] else contents q)"
    "b \<longleftrightarrow> length (contents q) < room q"
  using put_room [OF assms(1) _ assms(2)] put_full [OF assms(1), of x] bounded [OF assms(1)]
    assms by (cases "length (contents q) < room q"; force)+

lemma get_cases:
  assumes "ok q" "get q = (v, q')"
  shows "ok q'" "room q' = room q"
    "contents q = (case v of None \<Rightarrow> [] | Some x \<Rightarrow> [x]) @ contents q'"
    "v = None \<longleftrightarrow> contents q = []"
  using get_some [OF assms(1) _ assms(2)] get_none [OF assms(1)] assms
  by (cases "contents q"; force)+

text \<open>
  The FIFO law of every run: what was inside, followed by what was accepted, is what was
  delivered, followed by what is still inside; nothing is lost, duplicated or reordered.
\<close>

lemma run_fifo:
  assumes "ok q" "run ops q = (rs, q')"
  shows "contents q @ accepted ops rs = delivered rs @ contents q' \<and> ok q' \<and> room q' = room q"
  using assms
proof (induction ops q arbitrary: rs q' rule: run.induct)
  case (1 q)
  then show ?case by simp
next
  case (2 x ops q)
  obtain b q1 where p: "put x q = (b, q1)" by fastforce
  obtain rs2 where r: "run ops q1 = (rs2, q')" and rs: "rs = (if b then Accepted else Rejected) # rs2"
    using "2.prems"(2) p by (auto split: prod.splits)
  note pc = put_cases [OF "2.prems"(1) p]
  from "2.IH" [OF p [symmetric] refl pc(1) r] pc rs show ?case by auto
next
  case (3 ops q)
  obtain v q1 where p: "get q = (v, q1)" by fastforce
  obtain rs2 where r: "run ops q1 = (rs2, q')"
    and rs: "rs = (case v of None \<Rightarrow> Empty | Some x \<Rightarrow> Got x) # rs2"
    using "3.prems"(2) p by (auto split: prod.splits)
  note pc = get_cases [OF "3.prems"(1) p]
  from "3.IH" [OF p [symmetric] refl pc(1) r] pc rs show ?case
    by (cases v) auto
qed

lemma run_length: "run ops q = (rs, q') \<Longrightarrow> length rs = length ops"
  by (induction ops q arbitrary: rs q' rule: run.induct) (auto split: prod.splits)

end

section \<open>The interface of a reordering packet buffer\<close>

text \<open>
  The two jitter buffers of the driver store packets by sequence number in a circular
  array. What the receiver relies on: a packet whose slot is free is stored, a stored
  packet is handed out once by its number, and asking for a number whose slot is free
  changes nothing. A packet is its number, its bytes and its presentation time.
\<close>

type_synonym packet = "u32 \<times> u8 list \<times> u64"

locale reorder_buffer =
  fixes ok :: "'b \<Rightarrow> bool"
    and stored :: "'b \<Rightarrow> u32 \<Rightarrow> (u8 list \<times> u64) option"
    and slots :: "'b \<Rightarrow> nat"
    and add :: "packet \<Rightarrow> 'b \<Rightarrow> bool \<times> 'b"
    and fetch :: "u32 \<Rightarrow> 'b \<Rightarrow> (u8 list \<times> u64) option \<times> 'b"
  assumes slots_dvd: "ok b \<Longrightarrow> slots b dvd 2 ^ 32"
    and add_free: "ok b \<Longrightarrow> length d \<le> 1500 \<Longrightarrow>
      (\<And>s'. stored b s' \<noteq> None \<Longrightarrow> unat s' mod slots b \<noteq> unat s mod slots b) \<Longrightarrow>
      \<exists>b'. add (s, d, t) b = (True, b') \<and> ok b' \<and> slots b' = slots b \<and>
        stored b' = (stored b)(s \<mapsto> (d, t))"
    and fetch_hit: "ok b \<Longrightarrow> stored b s = Some (d, t) \<Longrightarrow> length d \<le> 1500 \<Longrightarrow>
      \<exists>b'. fetch s b = (Some (d, t), b') \<and> ok b' \<and> slots b' = slots b \<and>
        stored b' = (stored b)(s := None)"
    and fetch_free: "ok b \<Longrightarrow>
      (\<And>s'. stored b s' \<noteq> None \<Longrightarrow> unat s' mod slots b \<noteq> unat s mod slots b) \<Longrightarrow>
      fetch s b = (None, b)"
begin

fun add_all :: "packet list \<Rightarrow> 'b \<Rightarrow> 'b" where
  "add_all [] b = b"
| "add_all (p # ps) b = add_all ps (snd (add p b))"

fun fetch_from :: "nat \<Rightarrow> u32 \<Rightarrow> 'b \<Rightarrow> (u8 list \<times> u64) option list \<times> 'b" where
  "fetch_from 0 s b = ([], b)"
| "fetch_from (Suc n) s b =
     (let (r, b1) = fetch s b; (rs, b2) = fetch_from n (s + 1) b1 in (r # rs, b2))"

end

definition packet_map :: "packet list \<Rightarrow> u32 \<Rightarrow> (u8 list \<times> u64) option" where
  "packet_map ps = map_of ps"

text \<open>The \<open>n\<close> sequence numbers from \<open>base\<close> on, with wrap-around.\<close>

definition seq_window :: "'a::len word \<Rightarrow> nat \<Rightarrow> 'a word set" where
  "seq_window base n = (\<lambda>i. base + of_nat i) ` {..<n}"

lemma seq_window_Suc: "seq_window base (Suc n) = insert base (seq_window (base + 1) n)"
  by (simp add: seq_window_def lessThan_Suc_eq_insert_0 image_image algebra_simps)

lemma seq_window_inj:
  fixes base :: "'a::len word"
  assumes "s \<in> seq_window base n" "s' \<in> seq_window base n" "n \<le> m" "m dvd 2 ^ LENGTH('a)"
    and "unat s mod m = unat s' mod m"
  shows "s = s'"
proof -
  obtain i j where ij: "s = base + of_nat i" "i < n" "s' = base + of_nat j" "j < n"
    using assms(1,2) by (auto simp: seq_window_def)
  have "(unat base + i) mod m = (unat base + j) mod m"
    using assms(5) unat_plus_of_nat_mod [OF assms(4), of base] ij by simp
  then have "i = j" using mod_window_inj ij assms(3) by (metis less_le_trans)
  with ij show ?thesis by simp
qed

lemma seq_window_residues:
  fixes base :: u32
  assumes "s \<in> seq_window base n" "s' \<in> seq_window base n" "n \<le> m" "m dvd 2 ^ 32"
    and "unat s mod m = unat s' mod m"
  shows "s = s'"
  by (rule seq_window_inj [OF assms(1-3) _ assms(5)]) (use assms(4) in simp)

context reorder_buffer begin

lemma add_all_stored:
  assumes "ok b" "n \<le> slots b" "dom (stored b) \<subseteq> seq_window base n"
    and "distinct (map fst ps)" "fst ` set ps \<subseteq> seq_window base n - dom (stored b)"
    and "\<forall>(s, d, t) \<in> set ps. length d \<le> 1500"
  shows "ok (add_all ps b) \<and> slots (add_all ps b) = slots b \<and>
    stored (add_all ps b) = stored b ++ packet_map ps"
  using assms
proof (induction ps arbitrary: b)
  case Nil
  then show ?case by (simp add: packet_map_def)
next
  case (Cons p ps)
  obtain s d t where p: "p = (s, d, t)" by (cases p)
  have s: "s \<in> seq_window base n" "stored b s = None" "s \<notin> fst ` set ps"
    using Cons.prems p by auto
  have free: "unat s' mod slots b \<noteq> unat s mod slots b" if "stored b s' \<noteq> None" for s'
    using seq_window_residues [of s' base n s "slots b"] that s Cons.prems slots_dvd by blast
  obtain b' where b': "add (s, d, t) b = (True, b')" "ok b'" "slots b' = slots b"
    "stored b' = (stored b)(s \<mapsto> (d, t))"
    using add_free [OF Cons.prems(1) _ free, of d t] Cons.prems(6) p by fastforce
  have d': "dom (stored b') = insert s (dom (stored b))" by (simp add: b'(4))
  have "ok (add_all ps b') \<and> slots (add_all ps b') = slots b' \<and>
      stored (add_all ps b') = stored b' ++ packet_map ps"
  proof (rule Cons.IH [OF b'(2)])
    show "n \<le> slots b'" using b'(3) Cons.prems(2) by simp
    show "dom (stored b') \<subseteq> seq_window base n" using d' s(1) Cons.prems(3) by simp
    show "distinct (map fst ps)" using Cons.prems(4) by simp
    show "fst ` set ps \<subseteq> seq_window base n - dom (stored b')"
      using Cons.prems(5) s(3) unfolding d' by auto
    show "\<forall>(s, d, t) \<in> set ps. length d \<le> 1500" using Cons.prems(6) by simp
  qed
  moreover have "map_of ps s = None" using s(3) by (simp add: map_of_eq_None_iff)
  then have "(stored b)(s \<mapsto> (d, t)) ++ packet_map ps = stored b ++ packet_map (p # ps)"
    by (simp add: packet_map_def p map_add_def fun_eq_iff split: option.split)
  ultimately show ?case using b' p by simp
qed

lemma fetch_from_stored:
  assumes "ok b" "n \<le> slots b" "dom (stored b) \<subseteq> seq_window base n"
    and "\<forall>s d t. stored b s = Some (d, t) \<longrightarrow> length d \<le> 1500"
  shows "fst (fetch_from n base b) = map (\<lambda>i. stored b (base + of_nat i)) [0..<n]"
  using assms
proof (induction n arbitrary: base b)
  case 0
  then show ?case by simp
next
  case (Suc n)
  note w = seq_window_Suc [of base n]
  have "\<exists>b'. fetch base b = (stored b base, b') \<and> ok b' \<and> slots b' = slots b \<and>
      stored b' = (stored b)(base := None)"
  proof (cases "stored b base")
    case (Some v)
    obtain d t where v: "v = (d, t)" by (cases v)
    have "length d \<le> 1500" using Suc.prems(4) Some [unfolded v] by blast
    from fetch_hit [OF Suc.prems(1) Some [unfolded v] this] show ?thesis by (simp only: Some v)
  next
    case None
    have base: "base \<in> seq_window base (Suc n)" by (simp add: w)
    have "unat s' mod slots b \<noteq> unat base mod slots b" if s': "stored b s' \<noteq> None" for s'
    proof
      assume r: "unat s' mod slots b = unat base mod slots b"
      have "s' \<in> seq_window base (Suc n)" using s' Suc.prems(3) by (auto simp: domIff)
      from seq_window_residues [OF this base Suc.prems(2) slots_dvd [OF Suc.prems(1)] r] s' None
      show False by simp
    qed
    then have "fetch base b = (None, b)" by (rule fetch_free [OF Suc.prems(1)])
    with None Suc.prems(1) show ?thesis by (simp add: fun_upd_idem)
  qed
  then obtain b' where b': "fetch base b = (stored b base, b')" "ok b'" "slots b' = slots b"
    "stored b' = (stored b)(base := None)" by (elim exE conjE) (rule that)
  have nb: "base + of_nat (Suc i) \<noteq> base" if "i < n" for i
  proof
    assume eq: "base + of_nat (Suc i) = base"
    have "unat base mod slots b = (unat base + Suc i) mod slots b"
      using unat_plus_of_nat_mod [of "slots b" base "Suc i"] slots_dvd [OF Suc.prems(1)]
      unfolding eq by simp
    then show False
      using mod_window_inj [of "unat base" 0 "slots b" "Suc i"] that Suc.prems(2) by simp
  qed
  have dom': "dom (stored b') \<subseteq> seq_window (base + 1) n"
  proof
    fix s assume "s \<in> dom (stored b')"
    then have "s \<noteq> base" "s \<in> dom (stored b)" by (simp_all add: b'(4) split: if_splits)
    then show "s \<in> seq_window (base + 1) n" using Suc.prems(3) unfolding w by blast
  qed
  have IH: "fst (fetch_from n (base + 1) b') = map (\<lambda>i. stored b' (base + 1 + of_nat i)) [0..<n]"
  proof (rule Suc.IH [OF b'(2) _ dom'])
    show "n \<le> slots b'" using b'(3) Suc.prems(2) by simp
    show "\<forall>s d t. stored b' s = Some (d, t) \<longrightarrow> length d \<le> 1500"
      using Suc.prems(4) unfolding b'(4) by simp
  qed
  have "stored b' (base + 1 + of_nat i) = stored b (base + of_nat (Suc i))" if "i < n" for i
  proof -
    have e: "base + 1 + of_nat i = base + of_nat (Suc i)" by (simp add: add.assoc)
    show ?thesis unfolding e b'(4) using nb [OF that] by (rule fun_upd_other)
  qed
  then have "fst (fetch_from n (base + 1) b') = map (\<lambda>i. stored b (base + of_nat (Suc i))) [0..<n]"
    unfolding IH by (intro map_cong) auto
  also have "\<dots> = map (\<lambda>i. stored b (base + of_nat i)) (map Suc [0..<n])" by simp
  finally have "stored b base # fst (fetch_from n (base + 1) b') =
      map (\<lambda>i. stored b (base + of_nat i)) [0..<Suc n]"
    unfolding map_Suc_upt by (simp add: upt_conv_Cons del: upt_Suc)
  then show ?case by (simp add: b'(1) case_prod_beta Let_def del: upt_Suc)
qed

text \<open>
  Reordering: packets of one window, added in any order of arrival, are fetched in the order
  of their sequence numbers, each exactly as it was added, and a missing number is reported
  as missing.
\<close>

lemma reorder:
  assumes "ok b" "\<And>s. stored b s = None" "n \<le> slots b"
    and "distinct (map fst ps)" "fst ` set ps \<subseteq> seq_window base n"
    and "\<forall>(s, d, t) \<in> set ps. length d \<le> 1500"
  shows "fst (fetch_from n base (add_all ps b)) =
    map (\<lambda>i. packet_map ps (base + of_nat i)) [0..<n]"
proof -
  have e: "stored b = Map.empty" using assms(2) by auto
  have a: "ok (add_all ps b) \<and> slots (add_all ps b) = slots b \<and>
      stored (add_all ps b) = packet_map ps"
    using add_all_stored [of b n base ps] assms e by simp
  have len: "\<forall>s d t. packet_map ps s = Some (d, t) \<longrightarrow> length d \<le> 1500"
    using assms(6) by (auto simp: packet_map_def dest: map_of_SomeD)
  have "dom (packet_map ps) \<subseteq> seq_window base n"
    using assms(5) by (simp add: packet_map_def dom_map_of_conv_image_fst)
  with fetch_from_stored [of "add_all ps b" n base] a len assms(3) show ?thesis by simp
qed

end

end
