(* ===== verification/Ring_Buffer.thy ===== *)
theory Ring_Buffer
  imports Prelude
begin

text \<open>
  \<open>Shared/RingBuffer.hpp\<close> (class \<open>SPSCRingBuffer\<close>) and
  \<open>NetworkEngine/RTP/LockFreeRingBuffer.h\<close> (class \<open>LockFreeRingBuffer\<close>), as the
  operations run when no other thread interferes; Ring_Concurrent has the interleaved
  steps of a producer and a consumer. The element type stays a type variable.
  Indices are \<open>nat\<close>: every intermediate value of the index arithmetic is below twice
  the capacity, so the \<open>size_t\<close> computation does not wrap for any buffer that can be
  allocated.
\<close>

section \<open>SPSCRingBuffer\<close>

record 'a spsc =
  rb_buffer :: "'a list"
  rb_capacity :: nat      \<comment> \<open>\<open>capacity_\<close>: usable elements plus the sentinel\<close>
  rb_writeIndex :: nat
  rb_readIndex :: nat

text \<open>\<open>std::vector<T>(capacity + 1)\<close> fills the storage with the default element \<open>d\<close>.\<close>

definition spsc_new :: "'a \<Rightarrow> nat \<Rightarrow> 'a spsc" where
  "spsc_new d capacity = \<lparr>rb_buffer = replicate (capacity + 1) d, rb_capacity = capacity + 1,
     rb_writeIndex = 0, rb_readIndex = 0\<rparr>"

definition getAvailableRead :: "nat \<Rightarrow> nat \<Rightarrow> nat \<Rightarrow> nat" where
  "getAvailableRead capacity readIdx writeIdx =
     (if writeIdx \<ge> readIdx then writeIdx - readIdx else capacity - readIdx + writeIdx)"

definition getAvailableWrite :: "nat \<Rightarrow> nat \<Rightarrow> nat \<Rightarrow> nat" where
  "getAvailableWrite capacity writeIdx readIdx =
     (if readIdx > writeIdx then readIdx - writeIdx - 1 else capacity - writeIdx + readIdx - 1)"

text \<open>\<open>write(data, count)\<close>: \<open>data\<close> is the block of \<open>count\<close> elements.\<close>

definition spsc_write :: "'a list \<Rightarrow> 'a spsc \<Rightarrow> nat \<times> 'a spsc" where
  "spsc_write data s =
     (let writeIdx = rb_writeIndex s;
          readIdx = rb_readIndex s;
          available = getAvailableWrite (rb_capacity s) writeIdx readIdx;
          toWrite = min (length data) available
      in if toWrite = 0 then (0, s)
         else
           let firstChunk = min toWrite (rb_capacity s - writeIdx);
               buf1 = memcpy_at (rb_buffer s) writeIdx (take firstChunk data);
               buf2 = (if firstChunk < toWrite
                       then memcpy_at buf1 0 (take (toWrite - firstChunk) (drop firstChunk data))
                       else buf1)
           in (toWrite, s\<lparr>rb_buffer := buf2,
                          rb_writeIndex := (writeIdx + toWrite) mod rb_capacity s\<rparr>))"

text \<open>\<open>read(data, count)\<close>: the elements copied out (as many as it returns) and the new state.\<close>

definition spsc_read :: "nat \<Rightarrow> 'a spsc \<Rightarrow> 'a list \<times> 'a spsc" where
  "spsc_read count s =
     (let readIdx = rb_readIndex s;
          writeIdx = rb_writeIndex s;
          available = getAvailableRead (rb_capacity s) readIdx writeIdx;
          toRead = min count available
      in if toRead = 0 then ([], s)
         else
           let firstChunk = min toRead (rb_capacity s - readIdx);
               out1 = take firstChunk (drop readIdx (rb_buffer s));
               out2 = (if firstChunk < toRead
                       then out1 @ take (toRead - firstChunk) (rb_buffer s)
                       else out1)
           in (out2, s\<lparr>rb_readIndex := (readIdx + toRead) mod rb_capacity s\<rparr>))"

definition spsc_available :: "'a spsc \<Rightarrow> nat" where
  "spsc_available s = getAvailableRead (rb_capacity s) (rb_readIndex s) (rb_writeIndex s)"

definition spsc_availableWrite :: "'a spsc \<Rightarrow> nat" where
  "spsc_availableWrite s = getAvailableWrite (rb_capacity s) (rb_writeIndex s) (rb_readIndex s)"

definition spsc_reset :: "'a spsc \<Rightarrow> 'a spsc" where
  "spsc_reset s = s\<lparr>rb_writeIndex := 0, rb_readIndex := 0\<rparr>"

definition spsc_capacity :: "'a spsc \<Rightarrow> nat" where
  "spsc_capacity s = rb_capacity s - 1"

definition spsc_isEmpty :: "'a spsc \<Rightarrow> bool" where
  "spsc_isEmpty s \<longleftrightarrow> spsc_available s = 0"

definition spsc_isFull :: "'a spsc \<Rightarrow> bool" where
  "spsc_isFull s \<longleftrightarrow> spsc_availableWrite s = 0"

subsection \<open>Well-formed buffers and their contents\<close>

definition spsc_wf :: "'a spsc \<Rightarrow> bool" where
  "spsc_wf s \<longleftrightarrow> length (rb_buffer s) = rb_capacity s \<and>
     rb_writeIndex s < rb_capacity s \<and> rb_readIndex s < rb_capacity s"

text \<open>A window of \<open>n\<close> cells of a circular array from index \<open>r\<close>.\<close>

definition window :: "'a list \<Rightarrow> nat \<Rightarrow> nat \<Rightarrow> 'a list" where
  "window buf r n = map (\<lambda>i. buf ! ((r + i) mod length buf)) [0..<n]"

definition spsc_contents :: "'a spsc \<Rightarrow> 'a list" where
  "spsc_contents s = window (rb_buffer s) (rb_readIndex s) (spsc_available s)"

lemma length_window [simp]: "length (window buf r n) = n"
  by (simp add: window_def)

lemma nth_window [simp]: "i < n \<Longrightarrow> window buf r n ! i = buf ! ((r + i) mod length buf)"
  by (simp add: window_def)

lemma window_0 [simp]: "window buf r 0 = []"
  by (simp add: window_def)

lemma window_eq_Nil [simp]: "window buf r n = [] \<longleftrightarrow> n = 0"
  by (simp add: window_def)

lemma window_Suc: "window buf r (Suc n) = window buf r n @ [buf ! ((r + n) mod length buf)]"
  by (simp add: window_def)

lemma take_window: "n \<le> m \<Longrightarrow> take n (window buf r m) = window buf r n"
  by (simp add: window_def take_map)

lemma drop_window:
  "drop n (window buf r m) = window buf ((r + n) mod length buf) (m - n)"
  by (rule nth_equalityI) (auto simp: mod_simps add.assoc)

lemma length_spsc_contents [simp]: "length (spsc_contents s) = spsc_available s"
  by (simp add: spsc_contents_def)

lemma spsc_new_wf: "spsc_wf (spsc_new d capacity)"
  by (simp add: spsc_new_def spsc_wf_def)

lemma spsc_new_contents: "spsc_contents (spsc_new d capacity) = []"
  by (simp add: spsc_contents_def spsc_new_def spsc_available_def getAvailableRead_def)

text \<open>Free and occupied cells add up to the usable capacity.\<close>

lemma spsc_free:
  "spsc_wf s \<Longrightarrow> spsc_availableWrite s + spsc_available s = spsc_capacity s"
  by (auto simp: spsc_wf_def spsc_availableWrite_def spsc_available_def spsc_capacity_def
      getAvailableRead_def getAvailableWrite_def)

lemma spsc_available_le: "spsc_wf s \<Longrightarrow> spsc_available s \<le> spsc_capacity s"
  using spsc_free [of s] by simp

lemma spsc_capacity_lt: "spsc_wf s \<Longrightarrow> spsc_capacity s < rb_capacity s"
  by (simp add: spsc_wf_def spsc_capacity_def)

text \<open>The write index is the read index moved on by the number of occupied cells.\<close>

lemma spsc_writeIndex_eq:
  "spsc_wf s \<Longrightarrow> rb_writeIndex s = (rb_readIndex s + spsc_available s) mod rb_capacity s"
  by (auto simp: spsc_wf_def spsc_available_def getAvailableRead_def)

lemma getAvailableRead_shift:
  assumes "r < cap" "n < cap"
  shows "getAvailableRead cap r ((r + n) mod cap) = n"
  using assms by (auto simp: getAvailableRead_def mod_wrap)

subsection \<open>Writing\<close>

text \<open>The two chunks are one copy into a circular window.\<close>

definition circ_copy :: "'a list \<Rightarrow> nat \<Rightarrow> 'a list \<Rightarrow> 'a list" where
  "circ_copy buf w xs =
     (let c = min (length xs) (length buf - w)
      in memcpy_at (memcpy_at buf w (take c xs)) 0 (drop c xs))"

lemma circ_copy_length [simp]:
  "w < length buf \<Longrightarrow> length xs \<le> length buf \<Longrightarrow> length (circ_copy buf w xs) = length buf"
  by (auto simp: circ_copy_def Let_def min_def)

lemma circ_copy_new:
  assumes "w < length buf" "length xs \<le> length buf" "i < length xs"
  shows "circ_copy buf w xs ! ((w + i) mod length buf) = xs ! i"
  using assms by (auto simp: circ_copy_def Let_def nth_memcpy_at mod_wrap min_def)

lemma circ_copy_old:
  assumes "w < length buf" "length xs \<le> length buf" "length xs \<le> i" "i < length buf"
  shows "circ_copy buf w xs ! ((w + i) mod length buf) = buf ! ((w + i) mod length buf)"
  using assms by (auto simp: circ_copy_def Let_def nth_memcpy_at mod_wrap min_def)

lemma spsc_write_eq:
  assumes "spsc_wf s"
  shows "spsc_write data s =
    (let n = min (length data) (spsc_availableWrite s)
     in (n, s\<lparr>rb_buffer := circ_copy (rb_buffer s) (rb_writeIndex s) (take n data),
              rb_writeIndex := (rb_writeIndex s + n) mod rb_capacity s\<rparr>))"
proof -
  have "spsc_availableWrite s < rb_capacity s"
    using spsc_free [OF assms] spsc_capacity_lt [OF assms] by simp
  with assms show ?thesis
    by (auto simp: spsc_write_def spsc_availableWrite_def [symmetric] Let_def circ_copy_def
        spsc_wf_def min_def drop_take)
qed

text \<open>The window behind the read index gains exactly the block that was copied.\<close>

lemma window_circ_copy:
  assumes "r < length buf" "n + length xs \<le> length buf"
  shows "window (circ_copy buf ((r + n) mod length buf) xs) r (n + length xs) =
    window buf r n @ xs"
proof (rule nth_equalityI)
  let ?w = "(r + n) mod length buf"
  have w: "?w < length buf" and len: "length xs \<le> length buf"
    using assms by (cases buf; simp)+
  fix i assume i: "i < length (window (circ_copy buf ?w xs) r (n + length xs))"
  show "window (circ_copy buf ?w xs) r (n + length xs) ! i = (window buf r n @ xs) ! i"
  proof (cases "i < n")
    case True
    define k where "k = length buf - n + i"
    have "(?w + k) mod length buf = (r + n + k) mod length buf"
      by (simp add: mod_simps)
    also have "r + n + k = r + i + length buf"
      using True assms by (simp add: k_def)
    finally have "(?w + k) mod length buf = (r + i) mod length buf"
      by simp
    moreover have "length xs \<le> k" "k < length buf"
      using True assms by (auto simp: k_def)
    ultimately show ?thesis
      using True w len circ_copy_old [OF w len, of k] by (simp add: nth_append)
  next
    case False
    then have "r + n + (i - n) = r + i" by simp
    then have "(?w + (i - n)) mod length buf = (r + i) mod length buf"
      by (metis mod_add_left_eq)
    with False i w len show ?thesis
      using circ_copy_new [OF w len, of "i - n"] by (simp add: nth_append)
  qed
qed simp

lemma spsc_write_step:
  assumes wf: "spsc_wf s" and w: "spsc_write data s = (n, s')"
  shows "n = min (length data) (spsc_capacity s - spsc_available s)"
    and "spsc_wf s'"
    and "spsc_capacity s' = spsc_capacity s"
    and "spsc_contents s' = spsc_contents s @ take n data"
proof -
  have n: "n = min (length data) (spsc_availableWrite s)"
    and s': "s' = s\<lparr>rb_buffer := circ_copy (rb_buffer s) (rb_writeIndex s) (take n data),
       rb_writeIndex := (rb_writeIndex s + n) mod rb_capacity s\<rparr>"
    using w by (auto simp: spsc_write_eq [OF wf] Let_def)
  show "n = min (length data) (spsc_capacity s - spsc_available s)"
    using n spsc_free [OF wf] by simp
  have len: "length (rb_buffer s) = rb_capacity s" and r: "rb_readIndex s < rb_capacity s"
    using wf by (auto simp: spsc_wf_def)
  have fit: "spsc_available s + n < rb_capacity s"
    using n spsc_free [OF wf] spsc_capacity_lt [OF wf] by simp
  show wf': "spsc_wf s'"
    using wf fit by (auto simp: s' spsc_wf_def)
  show "spsc_capacity s' = spsc_capacity s" by (simp add: s' spsc_capacity_def)
  have w': "rb_writeIndex s' = (rb_readIndex s + (spsc_available s + n)) mod rb_capacity s"
    by (simp add: s' spsc_writeIndex_eq [OF wf] mod_simps add.assoc)
  have "spsc_available s' = spsc_available s + n"
    unfolding spsc_available_def [of s'] w' using fit r by (simp add: s' getAvailableRead_shift)
  moreover have "length (take n data) = n" using n by simp
  ultimately show "spsc_contents s' = spsc_contents s @ take n data"
    using window_circ_copy [of "rb_readIndex s" "rb_buffer s" "spsc_available s" "take n data"]
      fit r len by (simp add: spsc_contents_def s' spsc_writeIndex_eq [OF wf])
qed

subsection \<open>Reading\<close>

lemma two_chunks_window:
  assumes "r < length buf" "n \<le> length buf" "c = min n (length buf - r)"
  shows "take c (drop r buf) @ take (n - c) buf = window buf r n"
proof (rule nth_equalityI)
  show "length (take c (drop r buf) @ take (n - c) buf) = length (window buf r n)"
    using assms by (auto simp: min_def)
  fix i assume "i < length (take c (drop r buf) @ take (n - c) buf)"
  then have i: "i < n" using assms by (simp add: min_def split: if_splits)
  show "(take c (drop r buf) @ take (n - c) buf) ! i = window buf r n ! i"
  proof (cases "r + i < length buf")
    case True
    then have "i < c" using i assms by auto
    with True i assms show ?thesis by (simp add: nth_append)
  next
    case False
    then have "n > length buf - r" "c = length buf - r" using i assms by auto
    moreover from this False have "\<not> i < c" by simp
    ultimately show ?thesis using False i assms by (simp add: nth_append mod_wrap ac_simps)
  qed
qed

lemma spsc_read_eq:
  assumes "spsc_wf s"
  shows "spsc_read count s =
    (let n = min count (spsc_available s)
     in (take n (spsc_contents s),
         s\<lparr>rb_readIndex := (rb_readIndex s + n) mod rb_capacity s\<rparr>))"
proof -
  let ?b = "rb_buffer s" and ?r = "rb_readIndex s"
  let ?n = "min count (spsc_available s)"
  let ?c = "min ?n (rb_capacity s - ?r)"
  have lt: "spsc_available s < rb_capacity s"
    using spsc_available_le [OF assms] spsc_capacity_lt [OF assms] by simp
  have "take ?c (drop ?r ?b) @ take (?n - ?c) ?b = window ?b ?r ?n"
    using assms lt by (intro two_chunks_window) (auto simp: spsc_wf_def)
  moreover have "take ?n (spsc_contents s) = window ?b ?r ?n"
    by (simp add: spsc_contents_def take_window)
  moreover have "?r < rb_capacity s" using assms by (simp add: spsc_wf_def)
  ultimately show ?thesis
    by (auto simp: spsc_read_def spsc_available_def [symmetric] Let_def)
qed

lemma spsc_read_step:
  assumes wf: "spsc_wf s" and rd: "spsc_read count s = (xs, s')"
  shows "xs = take count (spsc_contents s)"
    and "spsc_wf s'"
    and "spsc_capacity s' = spsc_capacity s"
    and "spsc_contents s' = drop count (spsc_contents s)"
proof -
  let ?n = "min count (spsc_available s)"
  have xs: "xs = take ?n (spsc_contents s)"
    and s': "s' = s\<lparr>rb_readIndex := (rb_readIndex s + ?n) mod rb_capacity s\<rparr>"
    using rd by (auto simp: spsc_read_eq [OF wf] Let_def)
  show "xs = take count (spsc_contents s)" by (simp add: xs min_def)
  have len: "length (rb_buffer s) = rb_capacity s" and r: "rb_readIndex s < rb_capacity s"
    using wf by (auto simp: spsc_wf_def)
  show wf': "spsc_wf s'" using wf by (auto simp: s' spsc_wf_def)
  show "spsc_capacity s' = spsc_capacity s" by (simp add: s' spsc_capacity_def)
  have lt: "spsc_available s < rb_capacity s"
    using spsc_available_le [OF wf] spsc_capacity_lt [OF wf] by simp
  define m where "m = spsc_available s - ?n"
  have "rb_writeIndex s = (rb_readIndex s + (?n + m)) mod rb_capacity s"
    using spsc_writeIndex_eq [OF wf] by (simp add: m_def)
  then have "rb_writeIndex s' = (rb_readIndex s' + m) mod rb_capacity s'"
    by (simp add: s' mod_simps add.assoc)
  then have "spsc_available s' = m"
    using wf' lt getAvailableRead_shift [of "rb_readIndex s'" "rb_capacity s'" m]
    unfolding spsc_available_def [of s'] by (simp add: m_def spsc_wf_def s')
  then have "spsc_contents s' = drop ?n (spsc_contents s)"
    by (simp add: spsc_contents_def drop_window s' m_def len)
  then show "spsc_contents s' = drop count (spsc_contents s)"
    by (cases "count \<le> spsc_available s") (auto simp: min_def)
qed

lemma spsc_reset_contents: "spsc_wf s \<Longrightarrow> spsc_wf (spsc_reset s) \<and> spsc_contents (spsc_reset s) = []"
  by (auto simp: spsc_wf_def spsc_reset_def spsc_contents_def spsc_available_def getAvailableRead_def)

section \<open>SPSCRingBuffer as a bounded FIFO\<close>

text \<open>One element at a time, as the interface of the prelude asks for.\<close>

definition spsc_put :: "'a \<Rightarrow> 'a spsc \<Rightarrow> bool \<times> 'a spsc" where
  "spsc_put x s = (let (n, s') = spsc_write [x] s in (n = 1, s'))"

definition spsc_get :: "'a spsc \<Rightarrow> 'a option \<times> 'a spsc" where
  "spsc_get s = (let (xs, s') = spsc_read 1 s in (case xs of [] \<Rightarrow> None | x # _ \<Rightarrow> Some x, s'))"

lemma spsc_put_step:
  assumes wf: "spsc_wf s" and p: "spsc_put x s = (b, s')"
  shows "b \<longleftrightarrow> spsc_available s < spsc_capacity s"
    and "spsc_wf s'" and "spsc_capacity s' = spsc_capacity s"
    and "spsc_contents s' = spsc_contents s @ (if b then [x] else [])"
proof -
  obtain n where w: "spsc_write [x] s = (n, s')" and b: "b = (n = 1)"
    using p by (auto simp: spsc_put_def split: prod.splits)
  note st = spsc_write_step [OF wf w]
  have n: "n = (if spsc_available s < spsc_capacity s then 1 else 0)"
    using st(1) by (auto simp: min_def)
  show "b \<longleftrightarrow> spsc_available s < spsc_capacity s" by (simp add: b n)
  show "spsc_wf s'" by (rule st(2))
  show "spsc_capacity s' = spsc_capacity s" by (rule st(3))
  show "spsc_contents s' = spsc_contents s @ (if b then [x] else [])"
    unfolding st(4) by (simp add: b n)
qed

lemma spsc_put_full: "spsc_wf s \<Longrightarrow> spsc_available s = spsc_capacity s \<Longrightarrow> spsc_put x s = (False, s)"
  using spsc_free [of s]
  by (simp add: spsc_put_def spsc_write_def spsc_availableWrite_def [symmetric])

lemma spsc_get_step:
  assumes wf: "spsc_wf s" and g: "spsc_get s = (v, s')" and c: "spsc_contents s = x # xs"
  shows "v = Some x \<and> spsc_wf s' \<and> spsc_contents s' = xs \<and> spsc_capacity s' = spsc_capacity s"
proof -
  obtain ys where r: "spsc_read 1 s = (ys, s')" and v: "v = (case ys of [] \<Rightarrow> None | y # _ \<Rightarrow> Some y)"
    using g by (auto simp: spsc_get_def split: prod.splits)
  note st = spsc_read_step [OF wf r]
  have "ys = [x]" using st(1) c by simp
  with v st(2,3,4) c show ?thesis by simp
qed

lemma spsc_get_empty: "spsc_wf s \<Longrightarrow> spsc_contents s = [] \<Longrightarrow> spsc_get s = (None, s)"
  using length_spsc_contents [of s]
  by (simp add: spsc_get_def spsc_read_def spsc_available_def [symmetric] del: length_spsc_contents)

interpretation spsc_fifo: bounded_fifo spsc_wf spsc_contents spsc_capacity spsc_put spsc_get
proof (unfold_locales, goal_cases)
  case (1 q x b q')
  then show ?case using spsc_put_step [OF 1(1,3)] by simp
next
  case (2 q x)
  then show ?case by (simp add: spsc_put_full)
next
  case (3 q)
  then show ?case by (simp add: spsc_available_le)
next
  case (4 q x xs v q')
  show ?case by (rule spsc_get_step [OF 4(1,3,2)])
next
  case (5 q)
  then show ?case by (rule spsc_get_empty)
qed

section \<open>LockFreeRingBuffer\<close>

text \<open>
  The template parameter \<open>Capacity\<close> is the length of the storage; the class asserts
  that it is a power of two, and reduces indices with \<open>& MASK\<close>.
\<close>

record 'a lfrb =
  lf_buffer :: "'a list"
  lf_head :: nat      \<comment> \<open>producer index\<close>
  lf_tail :: nat      \<comment> \<open>consumer index\<close>

definition lf_new :: "'a \<Rightarrow> nat \<Rightarrow> 'a lfrb" where
  "lf_new d Capacity = \<lparr>lf_buffer = replicate Capacity d, lf_head = 0, lf_tail = 0\<rparr>"

definition lf_MASK :: "'a lfrb \<Rightarrow> nat" where
  "lf_MASK s = length (lf_buffer s) - 1"

definition lf_tryPush :: "'a \<Rightarrow> 'a lfrb \<Rightarrow> bool \<times> 'a lfrb" where
  "lf_tryPush item s =
     (let currentHead = lf_head s;
          nextHead = (currentHead + 1) AND lf_MASK s
      in if nextHead = lf_tail s then (False, s)
         else (True, s\<lparr>lf_buffer := (lf_buffer s)[currentHead := item], lf_head := nextHead\<rparr>))"

definition lf_tryPop :: "'a lfrb \<Rightarrow> 'a option \<times> 'a lfrb" where
  "lf_tryPop s =
     (let currentTail = lf_tail s
      in if currentTail = lf_head s then (None, s)
         else (Some (lf_buffer s ! currentTail),
               s\<lparr>lf_tail := (currentTail + 1) AND lf_MASK s\<rparr>))"

definition lf_isEmpty :: "'a lfrb \<Rightarrow> bool" where
  "lf_isEmpty s \<longleftrightarrow> lf_tail s = lf_head s"

definition lf_isFull :: "'a lfrb \<Rightarrow> bool" where
  "lf_isFull s \<longleftrightarrow> (lf_head s + 1) AND lf_MASK s = lf_tail s"

definition lf_size :: "'a lfrb \<Rightarrow> nat" where
  "lf_size s = (let head = lf_head s; tail = lf_tail s
     in if head \<ge> tail then head - tail else length (lf_buffer s) - tail + head)"

definition lf_wf :: "'a lfrb \<Rightarrow> bool" where
  "lf_wf s \<longleftrightarrow> (\<exists>k. length (lf_buffer s) = 2 ^ k) \<and>
     lf_head s < length (lf_buffer s) \<and> lf_tail s < length (lf_buffer s)"

definition lf_contents :: "'a lfrb \<Rightarrow> 'a list" where
  "lf_contents s = window (lf_buffer s) (lf_tail s) (lf_size s)"

definition lf_room :: "'a lfrb \<Rightarrow> nat" where
  "lf_room s = length (lf_buffer s) - 1"

lemma and_pow2_minus_1:
  assumes "n = 2 ^ k"
  shows "m AND (n - 1) = m mod (n::nat)"
  using assms by (simp add: take_bit_eq_mod [symmetric] take_bit_eq_mask mask_eq_exp_minus_1)

lemma and_pow2_minus_Suc [simp]: "m AND (2 ^ k - Suc 0) = m mod (2 ^ k :: nat)"
  using and_pow2_minus_1 [of "2 ^ k" k m] by simp

lemma lf_mask: "lf_wf s \<Longrightarrow> m AND lf_MASK s = m mod length (lf_buffer s)"
  by (auto simp: lf_wf_def lf_MASK_def)

lemma lf_size_is_read: "lf_size s = getAvailableRead (length (lf_buffer s)) (lf_tail s) (lf_head s)"
  by (simp add: lf_size_def getAvailableRead_def Let_def)

lemma lf_size_lt: "lf_wf s \<Longrightarrow> lf_size s < length (lf_buffer s)"
  by (auto simp: lf_wf_def lf_size_def Let_def)

lemma lf_head_eq: "lf_wf s \<Longrightarrow> lf_head s = (lf_tail s + lf_size s) mod length (lf_buffer s)"
  by (auto simp: lf_wf_def lf_size_def Let_def)

lemma lf_full_iff: "lf_wf s \<Longrightarrow> lf_isFull s \<longleftrightarrow> lf_size s = lf_room s"
  by (auto simp: lf_isFull_def lf_mask lf_room_def lf_wf_def lf_size_def Let_def mod_Suc)

lemma lf_push_step:
  assumes wf: "lf_wf s" and p: "lf_tryPush x s = (b, s')"
  shows "b \<longleftrightarrow> lf_size s < lf_room s"
    and "lf_wf s' \<and> lf_room s' = lf_room s"
    and "lf_contents s' = lf_contents s @ (if b then [x] else [])"
    and "\<not> b \<Longrightarrow> s' = s"
proof -
  let ?cap = "length (lf_buffer s)"
  show b: "b \<longleftrightarrow> lf_size s < lf_room s"
    using p lf_full_iff [OF wf] lf_size_lt [OF wf]
    by (auto simp: lf_tryPush_def lf_isFull_def Let_def lf_room_def split: if_splits)
  show "\<not> b \<Longrightarrow> s' = s" using p by (auto simp: lf_tryPush_def Let_def split: if_splits)
  show wr: "lf_wf s' \<and> lf_room s' = lf_room s"
    using p wf by (auto simp: lf_tryPush_def Let_def lf_room_def lf_wf_def lf_MASK_def split: if_splits)
  show "lf_contents s' = lf_contents s @ (if b then [x] else [])"
  proof (cases b)
    case False
    then show ?thesis using p by (auto simp: lf_tryPush_def Let_def split: if_splits)
  next
    case True
    have t: "lf_tail s < ?cap" and h: "lf_head s < ?cap" using wf by (auto simp: lf_wf_def)
    have s': "s' = s\<lparr>lf_buffer := (lf_buffer s)[lf_head s := x],
        lf_head := (lf_head s + 1) mod ?cap\<rparr>"
      using True p by (auto simp: lf_tryPush_def Let_def lf_mask [OF wf] split: if_splits)
    have fit: "lf_size s + 1 < ?cap" using True b by (simp add: lf_room_def)
    have "lf_head s' = (lf_tail s + (lf_size s + 1)) mod ?cap"
      by (simp add: s' lf_head_eq [OF wf] mod_simps)
    then have sz: "lf_size s' = Suc (lf_size s)"
      using fit t getAvailableRead_shift [of "lf_tail s" ?cap "lf_size s + 1"]
      by (simp add: lf_size_is_read s')
    have old: "i < lf_size s \<Longrightarrow> (lf_tail s + i) mod ?cap \<noteq> lf_head s" for i
      using mod_window_inj [of "lf_tail s" i ?cap "lf_size s"] fit lf_head_eq [OF wf] by auto
    have "window ((lf_buffer s)[lf_head s := x]) (lf_tail s) (lf_size s) =
        window (lf_buffer s) (lf_tail s) (lf_size s)"
      using old by (intro nth_equalityI) (simp_all add: nth_list_update_neq [OF not_sym])
    then show ?thesis
      using True h lf_head_eq [OF wf]
      by (simp add: lf_contents_def sz) (simp add: s' window_Suc)
  qed
qed

lemma lf_pop_step:
  assumes wf: "lf_wf s" and p: "lf_tryPop s = (v, s')" and c: "lf_contents s = x # xs"
  shows "v = Some x \<and> lf_wf s' \<and> lf_contents s' = xs \<and> lf_room s' = lf_room s"
proof -
  let ?cap = "length (lf_buffer s)"
  have t: "lf_tail s < ?cap" using wf by (auto simp: lf_wf_def)
  have pos: "0 < lf_size s" using c by (cases "lf_size s") (auto simp: lf_contents_def)
  then have ne: "lf_tail s \<noteq> lf_head s" by (auto simp: lf_size_def)
  have x: "lf_buffer s ! lf_tail s = x"
    using arg_cong [OF c, of "\<lambda>l. l ! 0"] pos t by (simp add: lf_contents_def)
  have s': "s' = s\<lparr>lf_tail := (lf_tail s + 1) mod ?cap\<rparr>" and v: "v = Some x"
    using p ne x by (auto simp: lf_tryPop_def Let_def lf_mask [OF wf])
  have wf': "lf_wf s'" using wf t by (auto simp: s' lf_wf_def)
  define m where "m = lf_size s - 1"
  have "lf_head s = (lf_tail s + (1 + m)) mod ?cap"
    using lf_head_eq [OF wf] pos by (simp add: m_def)
  then have "lf_head s' = (lf_tail s' + m) mod length (lf_buffer s')"
    by (simp add: s' mod_simps)
  then have sz: "lf_size s' = m"
    using wf' lf_size_lt [OF wf] getAvailableRead_shift [of "lf_tail s'" "length (lf_buffer s')" m]
    by (simp add: lf_size_is_read lf_wf_def m_def s')
  have "lf_contents s' = drop 1 (lf_contents s)"
    by (simp add: lf_contents_def drop_window sz m_def) (simp add: s')
  with c v wf' show ?thesis by (simp add: lf_room_def s')
qed

lemma lf_pop_empty: "lf_wf s \<Longrightarrow> lf_contents s = [] \<Longrightarrow> lf_tryPop s = (None, s)"
  using arg_cong [of "lf_contents s" "[]" length]
  by (simp add: lf_tryPop_def lf_contents_def lf_size_def lf_wf_def Let_def split: if_splits)

interpretation lf_fifo: bounded_fifo lf_wf lf_contents lf_room lf_tryPush lf_tryPop
proof (unfold_locales, goal_cases)
  case (1 q x b q')
  then show ?case using lf_push_step [OF 1(1,3)] by (simp add: lf_contents_def)
next
  case (2 q x)
  obtain b q' where p: "lf_tryPush x q = (b, q')" by fastforce
  with lf_push_step [OF 2(1) p] 2(2) show ?case by (simp add: lf_contents_def)
next
  case (3 q)
  then show ?case using lf_size_lt [of q] by (simp add: lf_contents_def lf_room_def)
next
  case (4 q x xs v q')
  show ?case by (rule lf_pop_step [OF 4(1,3,2)])
next
  case (5 q)
  then show ?case by (rule lf_pop_empty)
qed

section \<open>Properties\<close>

text \<open>
  C38. \<open>write\<close> refines appending to a bounded queue: it takes as many elements as there is
  room for, in order, after everything already queued, and says how many it took; the
  two-chunk copy across the end of the storage disturbs nothing that is still queued.
\<close>

theorem spsc_write_refines:
  assumes "spsc_wf s" "spsc_write data s = (n, s')"
  shows "n = min (length data) (spsc_capacity s - length (spsc_contents s)) \<and>
    spsc_contents s' = spsc_contents s @ take n data \<and>
    spsc_wf s' \<and> spsc_capacity s' = spsc_capacity s"
  using spsc_write_step [OF assms] by simp

theorem spsc_write_refines_witness:
  "let s = \<lparr>rb_buffer = [0, 0, 8, 9], rb_capacity = 4, rb_writeIndex = 3, rb_readIndex = 2\<rparr>;
       s' = \<lparr>rb_buffer = [6, 0, 8, 5], rb_capacity = 4, rb_writeIndex = 1, rb_readIndex = 2\<rparr>
   in spsc_write [5, 6, 7] s = (2, s') \<and> spsc_contents s' = spsc_contents s @ [5, 6 :: nat]"
proof -
  let ?s = "\<lparr>rb_buffer = [0, 0, 8, 9::nat], rb_capacity = 4, rb_writeIndex = 3, rb_readIndex = 2\<rparr>"
  let ?s' = "\<lparr>rb_buffer = [6, 0, 8, 5::nat], rb_capacity = 4, rb_writeIndex = 1, rb_readIndex = 2\<rparr>"
  have w: "spsc_write [5, 6, 7] ?s = (2, ?s')"
    by (simp add: spsc_write_def getAvailableWrite_def memcpy_at_def Let_def)
  with spsc_write_refines [OF _ w] show ?thesis by (simp add: spsc_wf_def)
qed

text \<open>
  \<open>read\<close> refines removing from the front of the queue: it returns the oldest elements,
  as many as were asked for and are there, and leaves exactly the others.
\<close>

theorem spsc_read_refines:
  assumes "spsc_wf s" "spsc_read count s = (xs, s')"
  shows "xs = take count (spsc_contents s) \<and> spsc_contents s' = drop count (spsc_contents s) \<and>
    spsc_wf s' \<and> spsc_capacity s' = spsc_capacity s"
  using spsc_read_step [OF assms] by simp

theorem spsc_read_refines_witness:
  "let s = \<lparr>rb_buffer = [6, 0, 8, 5], rb_capacity = 4, rb_writeIndex = 1, rb_readIndex = 2\<rparr>
   in fst (spsc_read 2 s) = [8, 5 :: nat] \<and> spsc_contents (snd (spsc_read 2 s)) = [6]"
proof -
  let ?s = "\<lparr>rb_buffer = [6, 0, 8, 5::nat], rb_capacity = 4, rb_writeIndex = 1, rb_readIndex = 2\<rparr>"
  have r: "spsc_read 2 ?s = ([8, 5], ?s\<lparr>rb_readIndex := 0\<rparr>)"
    by (simp add: spsc_read_def getAvailableRead_def Let_def)
  have c: "spsc_contents ?s = [8, 5, 6]"
    by code_simp
  have "spsc_wf ?s" by (simp add: spsc_wf_def)
  from spsc_read_refines [OF this r] show ?thesis unfolding r c Let_def by simp
qed

text \<open>
  Any sequence of \<open>tryPush\<close> and \<open>tryPop\<close> on a fresh \<open>LockFreeRingBuffer\<close> of
  power-of-two capacity is FIFO: the accepted items come out in order, the rest is still
  inside, and at most \<open>Capacity - 1\<close> items are ever inside.
\<close>

theorem lf_ring_fifo:
  assumes "lf_fifo.run ops (lf_new d (2 ^ k)) = (rs, q)"
  shows "accepted ops rs = delivered rs @ lf_contents q \<and> length (lf_contents q) \<le> 2 ^ k - 1"
proof -
  have wf: "lf_wf (lf_new d (2 ^ k))" by (auto simp: lf_wf_def lf_new_def)
  have "lf_contents (lf_new d (2 ^ k)) = []"
    by (simp add: lf_contents_def lf_size_def lf_new_def)
  with lf_fifo.run_fifo [OF wf assms] lf_fifo.bounded [of q] show ?thesis
    by (simp add: lf_room_def [of "lf_new d (2 ^ k)"]) (simp add: lf_new_def)
qed

theorem lf_ring_fifo_witness:
  "let (rs, q) = lf_fifo.run [Put 1, Put 2, Take, Put 3, Take] (lf_new 0 (2 ^ 1))
   in rs = [Accepted, Rejected, Got 1, Accepted, Got (3::nat)] \<and> lf_contents q = []"
proof -
  let ?ops = "[Put 1, Put 2, Take, Put 3, Take] :: nat fifo_op list"
  let ?rs = "[Accepted, Rejected, Got 1, Accepted, Got 3]"
  have r: "lf_fifo.run ?ops (lf_new 0 (2 ^ 1)) = (?rs, \<lparr>lf_buffer = [1, 3], lf_head = 0, lf_tail = 0\<rparr>)"
    by (simp add: lf_new_def lf_tryPush_def lf_tryPop_def lf_MASK_def eval_nat_numeral)
  from lf_ring_fifo [OF r] show ?thesis unfolding r by simp
qed

end
