(* ===== verification/Ring_Concurrent.thy ===== *)
theory Ring_Concurrent
  imports Ring_Buffer
begin

text \<open>
  \<open>SPSCRingBuffer\<close> with its producer and its consumer interleaved. Each load of an index,
  each element of a \<open>memcpy\<close> and each store of an index is one step; the two threads
  take steps in any order. The two ghost fields collect the elements whose write index
  has been published (\<open>sent\<close>) and the elements that \<open>read\<close> has returned (\<open>got\<close>).
  The interleaving is sequentially consistent. That is what the acquire and release
  orders of the code give as long as no cell is accessed by both threads at once, which
  is what the data-race theorem below shows.
\<close>

section \<open>Program counters of the two threads\<close>

datatype 'a producer =
    P_Idle
  | P_Start "'a list"                \<comment> \<open>\<open>write\<close> called\<close>
  | P_LoadedW "'a list" nat          \<comment> \<open>own index loaded\<close>
  | P_Copy "'a list" nat nat         \<comment> \<open>block to write, write index, elements copied\<close>

datatype 'a consumer =
    C_Idle
  | C_Start nat                      \<comment> \<open>\<open>read\<close> called\<close>
  | C_LoadedR nat nat                \<comment> \<open>own index loaded\<close>
  | C_Copy nat nat "'a list"         \<comment> \<open>read index, elements to read, elements copied\<close>

record 'a spsc_sys =
  ring :: "'a spsc"
  ppc :: "'a producer"
  cpc :: "'a consumer"
  sent :: "'a list"
  got :: "'a list"

text \<open>The cell of element \<open>k\<close> of a copy that starts at \<open>w\<close>: the second chunk starts at 0.\<close>

definition chunk_cell :: "nat \<Rightarrow> nat \<Rightarrow> nat \<Rightarrow> nat" where
  "chunk_cell cap w k = (if k < cap - w then w + k else k - (cap - w))"

section \<open>Steps\<close>

inductive producer_step :: "'a spsc_sys \<Rightarrow> 'a spsc_sys \<Rightarrow> bool" where
  p_call: "ppc s = P_Idle \<Longrightarrow> producer_step s (s\<lparr>ppc := P_Start data\<rparr>)"
| p_load_own: "ppc s = P_Start data \<Longrightarrow>
    producer_step s (s\<lparr>ppc := P_LoadedW data (rb_writeIndex (ring s))\<rparr>)"
| p_full: "ppc s = P_LoadedW data w \<Longrightarrow>
    min (length data) (getAvailableWrite (rb_capacity (ring s)) w (rb_readIndex (ring s))) = 0 \<Longrightarrow>
    producer_step s (s\<lparr>ppc := P_Idle\<rparr>)"
| p_begin: "ppc s = P_LoadedW data w \<Longrightarrow>
    n = min (length data) (getAvailableWrite (rb_capacity (ring s)) w (rb_readIndex (ring s))) \<Longrightarrow>
    n \<noteq> 0 \<Longrightarrow> producer_step s (s\<lparr>ppc := P_Copy (take n data) w 0\<rparr>)"
| p_copy: "ppc s = P_Copy d w k \<Longrightarrow> k < length d \<Longrightarrow>
    producer_step s (s\<lparr>ring := (ring s)\<lparr>rb_buffer :=
        (rb_buffer (ring s))[chunk_cell (rb_capacity (ring s)) w k := d ! k]\<rparr>,
      ppc := P_Copy d w (Suc k)\<rparr>)"
| p_publish: "ppc s = P_Copy d w k \<Longrightarrow> k = length d \<Longrightarrow>
    producer_step s (s\<lparr>ring := (ring s)\<lparr>rb_writeIndex := (w + length d) mod rb_capacity (ring s)\<rparr>,
      ppc := P_Idle, sent := sent s @ d\<rparr>)"

inductive consumer_step :: "'a spsc_sys \<Rightarrow> 'a spsc_sys \<Rightarrow> bool" where
  c_call: "cpc s = C_Idle \<Longrightarrow> consumer_step s (s\<lparr>cpc := C_Start count\<rparr>)"
| c_load_own: "cpc s = C_Start count \<Longrightarrow>
    consumer_step s (s\<lparr>cpc := C_LoadedR count (rb_readIndex (ring s))\<rparr>)"
| c_empty: "cpc s = C_LoadedR count r \<Longrightarrow>
    min count (getAvailableRead (rb_capacity (ring s)) r (rb_writeIndex (ring s))) = 0 \<Longrightarrow>
    consumer_step s (s\<lparr>cpc := C_Idle\<rparr>)"
| c_begin: "cpc s = C_LoadedR count r \<Longrightarrow>
    n = min count (getAvailableRead (rb_capacity (ring s)) r (rb_writeIndex (ring s))) \<Longrightarrow>
    n \<noteq> 0 \<Longrightarrow> consumer_step s (s\<lparr>cpc := C_Copy r n []\<rparr>)"
| c_copy: "cpc s = C_Copy r n out \<Longrightarrow> length out < n \<Longrightarrow>
    consumer_step s (s\<lparr>cpc := C_Copy r n
      (out @ [rb_buffer (ring s) ! chunk_cell (rb_capacity (ring s)) r (length out)])\<rparr>)"
| c_publish: "cpc s = C_Copy r n out \<Longrightarrow> length out = n \<Longrightarrow>
    consumer_step s (s\<lparr>ring := (ring s)\<lparr>rb_readIndex := (r + n) mod rb_capacity (ring s)\<rparr>,
      cpc := C_Idle, got := got s @ out\<rparr>)"

definition spsc_step :: "'a spsc_sys \<Rightarrow> 'a spsc_sys \<Rightarrow> bool" where
  "spsc_step s t \<longleftrightarrow> producer_step s t \<or> consumer_step s t"

definition spsc_init :: "'a spsc_sys \<Rightarrow> bool" where
  "spsc_init s \<longleftrightarrow> (\<exists>d capacity. s = \<lparr>ring = spsc_new d capacity, ppc = P_Idle, cpc = C_Idle,
     sent = [], got = []\<rparr>)"

section \<open>The invariant\<close>

text \<open>
  With \<open>W = length sent\<close> and \<open>R = length got\<close> as running totals, the indices are these
  totals modulo the capacity, and the cells of positions \<open>R..W-1\<close> hold the sent
  elements. A thread that has loaded the other's index works with an older total, which
  the other thread can only have moved on since.
\<close>

definition ring_inv :: "'a spsc_sys \<Rightarrow> bool" where
  "ring_inv s \<longleftrightarrow>
     (let cap = rb_capacity (ring s); W = length (sent s); R = length (got s)
      in 0 < cap \<and> length (rb_buffer (ring s)) = cap \<and>
         rb_writeIndex (ring s) = W mod cap \<and> rb_readIndex (ring s) = R mod cap \<and>
         got s = take R (sent s) \<and> R \<le> W \<and> W - R < cap \<and>
         (\<forall>i. R \<le> i \<and> i < W \<longrightarrow> rb_buffer (ring s) ! (i mod cap) = sent s ! i))"

definition producer_inv :: "'a spsc_sys \<Rightarrow> bool" where
  "producer_inv s \<longleftrightarrow>
     (let cap = rb_capacity (ring s); W = length (sent s); R = length (got s)
      in case ppc s of
           P_LoadedW data w \<Rightarrow> w = W mod cap
         | P_Copy d w k \<Rightarrow> w = W mod cap \<and> k \<le> length d \<and> W + length d - R < cap \<and>
             (\<forall>j<k. rb_buffer (ring s) ! ((W + j) mod cap) = d ! j)
         | _ \<Rightarrow> True)"

definition consumer_inv :: "'a spsc_sys \<Rightarrow> bool" where
  "consumer_inv s \<longleftrightarrow>
     (let cap = rb_capacity (ring s); W = length (sent s); R = length (got s)
      in case cpc s of
           C_LoadedR count r \<Rightarrow> r = R mod cap
         | C_Copy r n out \<Rightarrow> r = R mod cap \<and> length out \<le> n \<and> R + n \<le> W \<and>
             out = take (length out) (drop R (sent s))
         | _ \<Rightarrow> True)"

definition sys_inv :: "'a spsc_sys \<Rightarrow> bool" where
  "sys_inv s \<longleftrightarrow> ring_inv s \<and> producer_inv s \<and> consumer_inv s"

lemmas sys_inv_defs = sys_inv_def ring_inv_def producer_inv_def consumer_inv_def Let_def

lemma chunk_cell_mod:
  assumes "k < cap" "0 < cap"
  shows "chunk_cell cap (T mod cap) k = (T + k) mod cap"
proof -
  have "chunk_cell cap (T mod cap) k = (T mod cap + k) mod cap"
    using assms mod_wrap [of "T mod cap" cap k] by (auto simp: chunk_cell_def)
  then show ?thesis by (simp add: mod_simps)
qed

lemma totals_mod_neq:
  fixes i j cap :: nat
  assumes "i < j" "j - i < cap"
  shows "i mod cap \<noteq> j mod cap"
  using mod_window_inj [of i 0 cap "j - i"] assms by force

text \<open>What the index comparison of the code says about the totals.\<close>

lemma getAvailableRead_totals:
  assumes "R \<le> W" "W - R < cap"
  shows "getAvailableRead cap (R mod cap) (W mod cap) = W - R"
proof -
  have "W mod cap = (R mod cap + (W - R)) mod cap"
    using assms by (metis le_add_diff_inverse mod_add_left_eq)
  then show ?thesis using assms getAvailableRead_shift [of "R mod cap" cap "W - R"] by simp
qed

lemma getAvailable_sum:
  "w < cap \<Longrightarrow> r < cap \<Longrightarrow> getAvailableWrite cap w r + getAvailableRead cap r w = cap - 1"
  by (auto simp: getAvailableRead_def getAvailableWrite_def)

lemma getAvailableWrite_totals:
  assumes "R \<le> W" "W - R < cap"
  shows "getAvailableWrite cap (W mod cap) (R mod cap) = cap - 1 - (W - R)"
proof -
  have "0 < cap" using assms by simp
  then show ?thesis
    using getAvailable_sum [of "W mod cap" cap "R mod cap"] getAvailableRead_totals [OF assms]
    by simp
qed

section \<open>Every step keeps the invariant\<close>

lemma sys_inv_start: "spsc_init s \<Longrightarrow> sys_inv s"
  by (auto simp: spsc_init_def spsc_new_def sys_inv_defs)

text \<open>Steps that change a program counter only.\<close>

lemma sys_inv_prod:
  assumes "sys_inv s" "producer_inv (s\<lparr>ppc := p\<rparr>)"
  shows "sys_inv (s\<lparr>ppc := p\<rparr>)"
  using assms by (simp add: sys_inv_def ring_inv_def consumer_inv_def Let_def split: consumer.splits)

lemma sys_inv_cons:
  assumes "sys_inv s" "consumer_inv (s\<lparr>cpc := c\<rparr>)"
  shows "sys_inv (s\<lparr>cpc := c\<rparr>)"
  using assms by (simp add: sys_inv_def ring_inv_def producer_inv_def Let_def split: producer.splits)

lemma ring_inv_totals:
  assumes "sys_inv s"
  shows "rb_writeIndex (ring s) = length (sent s) mod rb_capacity (ring s)"
    and "rb_readIndex (ring s) = length (got s) mod rb_capacity (ring s)"
    and "length (got s) \<le> length (sent s)"
    and "length (sent s) - length (got s) < rb_capacity (ring s)"
    and "length (rb_buffer (ring s)) = rb_capacity (ring s)"
  using assms by (auto simp: sys_inv_defs)

lemma p_begin_inv:
  assumes inv: "sys_inv s" and p: "ppc s = P_LoadedW data w"
    and n: "n = min (length data) (getAvailableWrite (rb_capacity (ring s)) w (rb_readIndex (ring s)))"
  shows "sys_inv (s\<lparr>ppc := P_Copy (take n data) w 0\<rparr>)"
proof (rule sys_inv_prod [OF inv])
  note t = ring_inv_totals [OF inv]
  have w: "w = length (sent s) mod rb_capacity (ring s)"
    using inv p by (simp add: sys_inv_defs)
  have "n \<le> rb_capacity (ring s) - 1 - (length (sent s) - length (got s))"
    using n getAvailableWrite_totals [OF t(3,4)] w t(2) by simp
  then have "length (sent s) + n - length (got s) < rb_capacity (ring s)"
    using t(3,4) by simp
  then show "producer_inv (s\<lparr>ppc := P_Copy (take n data) w 0\<rparr>)"
    using w n by (simp add: producer_inv_def Let_def)
qed

lemma p_copy_inv:
  assumes inv: "sys_inv s" and p: "ppc s = P_Copy d w k" and k: "k < length d"
  shows "sys_inv (s\<lparr>ring := (ring s)\<lparr>rb_buffer :=
        (rb_buffer (ring s))[chunk_cell (rb_capacity (ring s)) w k := d ! k]\<rparr>,
      ppc := P_Copy d w (Suc k)\<rparr>)" (is "sys_inv ?t")
proof -
  let ?cap = "rb_capacity (ring s)" and ?W = "length (sent s)" and ?R = "length (got s)"
  note t = ring_inv_totals [OF inv]
  have w: "w = ?W mod ?cap" and fit: "?W + length d - ?R < ?cap"
    and copied: "\<forall>j<k. rb_buffer (ring s) ! ((?W + j) mod ?cap) = d ! j"
    using inv p by (auto simp: sys_inv_defs)
  have cell: "chunk_cell ?cap w k = (?W + k) mod ?cap"
    unfolding w using k fit t(3) by (intro chunk_cell_mod) auto
  have old: "i mod ?cap \<noteq> (?W + k) mod ?cap" if "?R \<le> i" "i < ?W + k" for i
    using that k fit by (intro totals_mod_neq) auto
  have "ring_inv ?t"
    using inv old by (simp add: sys_inv_defs cell nth_list_update_neq [OF not_sym])
  moreover have "rb_buffer (ring ?t) ! ((?W + j) mod ?cap) = d ! j" if "j < Suc k" for j
  proof (cases "j = k")
    case True
    have "(?W + k) mod ?cap < ?cap" using fit by (intro mod_less_divisor) simp
    with True t(5) show ?thesis by (simp add: cell)
  next
    case False
    then have "(?W + j) mod ?cap \<noteq> (?W + k) mod ?cap" using old [of "?W + j"] that t(3) by simp
    with False that copied show ?thesis
      by (simp add: cell nth_list_update_neq [OF not_sym])
  qed
  then have "producer_inv ?t"
    using w k fit by (simp add: producer_inv_def Let_def)
  moreover have "consumer_inv ?t" using inv by (simp add: sys_inv_defs split: consumer.splits)
  ultimately show ?thesis by (simp add: sys_inv_def)
qed

lemma p_publish_inv:
  assumes inv: "sys_inv s" and p: "ppc s = P_Copy d w k" and k: "k = length d"
  shows "sys_inv (s\<lparr>ring := (ring s)\<lparr>rb_writeIndex := (w + length d) mod rb_capacity (ring s)\<rparr>,
      ppc := P_Idle, sent := sent s @ d\<rparr>)" (is "sys_inv ?t")
proof -
  let ?cap = "rb_capacity (ring s)" and ?W = "length (sent s)" and ?R = "length (got s)"
  note t = ring_inv_totals [OF inv]
  have w: "w = ?W mod ?cap" and fit: "?W + length d - ?R < ?cap"
    and copied: "\<forall>j<k. rb_buffer (ring s) ! ((?W + j) mod ?cap) = d ! j"
    using inv p by (auto simp: sys_inv_defs)
  have held: "\<forall>i. ?R \<le> i \<and> i < ?W \<longrightarrow> rb_buffer (ring s) ! (i mod ?cap) = sent s ! i"
    and got: "got s = take ?R (sent s)" and pos: "0 < ?cap"
    using inv by (auto simp: sys_inv_defs)
  have "rb_buffer (ring s) ! (i mod ?cap) = (sent s @ d) ! i" if "?R \<le> i" "i < ?W + length d" for i
    using that held copied k by (cases "i < ?W") (auto simp: nth_append dest: spec [of _ "i - ?W"])
  then have "ring_inv ?t"
    using t fit got pos by (simp add: ring_inv_def Let_def w mod_simps)
  moreover have "consumer_inv ?t"
    using inv by (auto simp: sys_inv_defs split: consumer.splits)
  moreover have "producer_inv ?t" by (simp add: producer_inv_def Let_def)
  ultimately show ?thesis by (simp add: sys_inv_def)
qed

lemma producer_step_inv: "producer_step s t \<Longrightarrow> sys_inv s \<Longrightarrow> sys_inv t"
proof (induction rule: producer_step.induct)
  case (p_begin s data w n)
  then show ?case by (intro p_begin_inv)
next
  case (p_copy s d w k)
  then show ?case by (intro p_copy_inv)
next
  case (p_publish s d w k)
  then show ?case by (intro p_publish_inv)
qed (intro sys_inv_prod; simp add: sys_inv_defs)+

lemma c_begin_inv:
  assumes inv: "sys_inv s" and c: "cpc s = C_LoadedR count r"
    and n: "n = min count (getAvailableRead (rb_capacity (ring s)) r (rb_writeIndex (ring s)))"
  shows "sys_inv (s\<lparr>cpc := C_Copy r n []\<rparr>)"
proof (rule sys_inv_cons [OF inv])
  note t = ring_inv_totals [OF inv]
  have r: "r = length (got s) mod rb_capacity (ring s)"
    using inv c by (simp add: sys_inv_defs)
  have "n \<le> length (sent s) - length (got s)"
    using n getAvailableRead_totals [OF t(3,4)] r t(1) by simp
  then show "consumer_inv (s\<lparr>cpc := C_Copy r n []\<rparr>)"
    using r t(3) by (simp add: consumer_inv_def Let_def)
qed

lemma c_copy_inv:
  assumes inv: "sys_inv s" and c: "cpc s = C_Copy r n out" and len: "length out < n"
  shows "sys_inv (s\<lparr>cpc := C_Copy r n
      (out @ [rb_buffer (ring s) ! chunk_cell (rb_capacity (ring s)) r (length out)])\<rparr>)"
proof (rule sys_inv_cons [OF inv])
  let ?cap = "rb_capacity (ring s)" and ?W = "length (sent s)" and ?R = "length (got s)"
  note t = ring_inv_totals [OF inv]
  have r: "r = ?R mod ?cap" and n: "?R + n \<le> ?W"
    and out: "out = take (length out) (drop ?R (sent s))"
    using inv c by (simp_all add: sys_inv_defs)
  have "chunk_cell ?cap r (length out) = (?R + length out) mod ?cap"
    unfolding r using len n t(4) by (intro chunk_cell_mod) auto
  moreover have "rb_buffer (ring s) ! ((?R + length out) mod ?cap) = sent s ! (?R + length out)"
    using inv len n by (simp add: sys_inv_defs)
  moreover have "take (Suc (length out)) (drop ?R (sent s)) = out @ [sent s ! (?R + length out)]"
    using len n out by (simp add: take_Suc_conv_app_nth)
  ultimately show "consumer_inv (s\<lparr>cpc := C_Copy r n
      (out @ [rb_buffer (ring s) ! chunk_cell ?cap r (length out)])\<rparr>)"
    using r n len by (simp add: consumer_inv_def Let_def)
qed

lemma c_publish_inv:
  assumes inv: "sys_inv s" and c: "cpc s = C_Copy r n out" and len: "length out = n"
  shows "sys_inv (s\<lparr>ring := (ring s)\<lparr>rb_readIndex := (r + n) mod rb_capacity (ring s)\<rparr>,
      cpc := C_Idle, got := got s @ out\<rparr>)" (is "sys_inv ?t")
proof -
  let ?cap = "rb_capacity (ring s)" and ?W = "length (sent s)" and ?R = "length (got s)"
  note t = ring_inv_totals [OF inv]
  have r: "r = ?R mod ?cap" and n: "?R + n \<le> ?W" and out: "out = take n (drop ?R (sent s))"
    using inv c len by (auto simp: sys_inv_defs)
  have "got s = take ?R (sent s)" using inv by (simp add: sys_inv_defs)
  then have "got s @ out = take (?R + n) (sent s)" using out by (metis take_add)
  moreover have "?W - (?R + n) < ?cap" using t(4) by simp
  ultimately have "ring_inv ?t"
    using inv n len r by (simp add: sys_inv_defs mod_simps)
  moreover have "producer_inv ?t"
    using inv len by (auto simp: sys_inv_defs split: producer.splits)
  moreover have "consumer_inv ?t" by (simp add: consumer_inv_def Let_def)
  ultimately show ?thesis by (simp add: sys_inv_def)
qed

lemma consumer_step_inv: "consumer_step s t \<Longrightarrow> sys_inv s \<Longrightarrow> sys_inv t"
proof (induction rule: consumer_step.induct)
  case (c_begin s count r n)
  then show ?case by (intro c_begin_inv)
next
  case (c_copy s r n out)
  then show ?case by (intro c_copy_inv)
next
  case (c_publish s r n out)
  then show ?case by (intro c_publish_inv)
qed (intro sys_inv_cons; simp add: sys_inv_defs)+

interpretation spsc_conc: invariant_system spsc_init spsc_step sys_inv
  by unfold_locales
    (auto simp: spsc_step_def intro: sys_inv_start producer_step_inv consumer_step_inv)

section \<open>Safety of the interleaved buffer\<close>

text \<open>
  C8. Whatever the interleaving of the producer's and the consumer's steps, what the
  consumer has read is a prefix of what the producer has written: no element is lost,
  duplicated, reordered or torn, and the elements still in the buffer are the rest, at
  most the usable capacity of them.
\<close>

theorem spsc_interleaved_fifo:
  assumes "reach spsc_init spsc_step s"
  shows "sent s = got s @ spsc_contents (ring s) \<and>
    length (spsc_contents (ring s)) \<le> spsc_capacity (ring s)"
proof -
  let ?cap = "rb_capacity (ring s)" and ?W = "length (sent s)" and ?R = "length (got s)"
  have inv: "sys_inv s" by (rule spsc_conc.reach_inv [OF assms])
  note t = ring_inv_totals [OF inv]
  have av: "spsc_available (ring s) = ?W - ?R"
    using t getAvailableRead_totals [OF t(3,4)] by (simp add: spsc_available_def)
  have "spsc_contents (ring s) = drop ?R (sent s)"
  proof (rule nth_equalityI)
    fix i assume "i < length (spsc_contents (ring s))"
    then have i: "i < ?W - ?R" by (simp add: av)
    then have "rb_buffer (ring s) ! ((?R + i) mod ?cap) = sent s ! (?R + i)"
      using inv by (simp add: sys_inv_defs)
    with i show "spsc_contents (ring s) ! i = drop ?R (sent s) ! i"
      by (simp add: spsc_contents_def av t mod_simps)
  qed (simp add: av)
  moreover have "got s = take ?R (sent s)" using inv by (simp add: sys_inv_defs)
  ultimately have "sent s = got s @ spsc_contents (ring s)"
    by (metis append_take_drop_id)
  moreover have "spsc_available (ring s) \<le> spsc_capacity (ring s)"
    using av t(4) by (simp add: spsc_capacity_def)
  ultimately show ?thesis by simp
qed

text \<open>A concrete interleaving: one element published, a second write and a read under way.\<close>

lemma reach_producer:
  "reach spsc_init spsc_step s \<Longrightarrow> producer_step s t \<Longrightarrow> t = t' \<Longrightarrow> reach spsc_init spsc_step t'"
  by (auto simp: spsc_step_def intro: reach_step)

lemma reach_consumer:
  "reach spsc_init spsc_step s \<Longrightarrow> consumer_step s t \<Longrightarrow> t = t' \<Longrightarrow> reach spsc_init spsc_step t'"
  by (auto simp: spsc_step_def intro: reach_step)

definition example_sys :: "nat \<Rightarrow> nat list \<Rightarrow> nat producer \<Rightarrow> nat consumer \<Rightarrow> nat list \<Rightarrow> nat spsc_sys" where
  "example_sys w buf p c xs = \<lparr>ring = \<lparr>rb_buffer = buf, rb_capacity = 3, rb_writeIndex = w,
     rb_readIndex = 0\<rparr>, ppc = p, cpc = c, sent = xs, got = []\<rparr>"

lemmas example_simps = example_sys_def getAvailableWrite_def getAvailableRead_def chunk_cell_def

lemma example_sys_reach:
  "reach spsc_init spsc_step (example_sys 1 [7, 0, 0] (P_Copy [8] 1 0) (C_Copy 0 1 []) [7])"
proof -
  let ?r = "reach spsc_init spsc_step" and ?b = "[0, 0, 0::nat]"
  have "?r (example_sys 0 ?b P_Idle C_Idle [])"
    by (rule reach_start) (force simp: spsc_init_def spsc_new_def example_sys_def eval_nat_numeral)
  then have "?r (example_sys 0 ?b (P_Start [7]) C_Idle [])"
    by (rule reach_producer [OF _ p_call [of _ "[7]"]]) (simp_all add: example_simps)
  then have "?r (example_sys 0 ?b (P_LoadedW [7] 0) C_Idle [])"
    by (rule reach_producer [OF _ p_load_own [of _ "[7]"]]) (simp_all add: example_simps)
  then have "?r (example_sys 0 ?b (P_Copy [7] 0 0) C_Idle [])"
    by (rule reach_producer [OF _ p_begin [of _ "[7]" 0 1]]) (simp_all add: example_simps)
  then have "?r (example_sys 0 [7, 0, 0] (P_Copy [7] 0 1) C_Idle [])"
    by (rule reach_producer [OF _ p_copy [of _ "[7]" 0 0]]) (simp_all add: example_simps)
  then have "?r (example_sys 1 [7, 0, 0] P_Idle C_Idle [7])"
    by (rule reach_producer [OF _ p_publish [of _ "[7]" 0 1]]) (simp_all add: example_simps)
  then have "?r (example_sys 1 [7, 0, 0] (P_Start [8]) C_Idle [7])"
    by (rule reach_producer [OF _ p_call [of _ "[8]"]]) (simp_all add: example_simps)
  then have "?r (example_sys 1 [7, 0, 0] (P_LoadedW [8] 1) C_Idle [7])"
    by (rule reach_producer [OF _ p_load_own [of _ "[8]"]]) (simp_all add: example_simps)
  then have "?r (example_sys 1 [7, 0, 0] (P_Copy [8] 1 0) C_Idle [7])"
    by (rule reach_producer [OF _ p_begin [of _ "[8]" 1 1]]) (simp_all add: example_simps)
  then have "?r (example_sys 1 [7, 0, 0] (P_Copy [8] 1 0) (C_Start 1) [7])"
    by (rule reach_consumer [OF _ c_call [of _ 1]]) (simp_all add: example_simps)
  then have "?r (example_sys 1 [7, 0, 0] (P_Copy [8] 1 0) (C_LoadedR 1 0) [7])"
    by (rule reach_consumer [OF _ c_load_own [of _ 1]]) (simp_all add: example_simps)
  then show ?thesis
    by (rule reach_consumer [OF _ c_begin [of _ 1 0 1]]) (simp_all add: example_simps)
qed

theorem spsc_interleaved_fifo_witness:
  "let s = example_sys 1 [7, 0, 0] (P_Copy [8] 1 0) (C_Copy 0 1 []) [7]
   in sent s = got s @ spsc_contents (ring s) \<and> spsc_contents (ring s) = [7]"
  using spsc_interleaved_fifo [OF example_sys_reach] by (simp add: example_sys_def)

text \<open>
  C21. The two threads never work on the same cell: in every reachable state, a cell the
  producer has still to write or has already written of its unpublished block is none of
  the cells the consumer is reading. The unsynchronised \<open>memcpy\<close>s are free of data races.
\<close>

theorem spsc_no_data_race:
  assumes "reach spsc_init spsc_step s"
    and "ppc s = P_Copy d w k" "j < length d"
    and "cpc s = C_Copy r n out" "i < n"
  shows "chunk_cell (rb_capacity (ring s)) w j \<noteq> chunk_cell (rb_capacity (ring s)) r i"
proof -
  let ?cap = "rb_capacity (ring s)" and ?W = "length (sent s)" and ?R = "length (got s)"
  have inv: "sys_inv s" by (rule spsc_conc.reach_inv [OF assms(1)])
  have p: "w = ?W mod ?cap" "?W + length d - ?R < ?cap" and c: "r = ?R mod ?cap" "?R + n \<le> ?W"
    using inv assms(2,4) by (auto simp: sys_inv_defs)
  have "chunk_cell ?cap w j = (?W + j) mod ?cap" "chunk_cell ?cap r i = (?R + i) mod ?cap"
    unfolding p(1) c(1) using p(2) c(2) assms(3,5) by (auto intro!: chunk_cell_mod)
  moreover have "(?R + i) mod ?cap \<noteq> (?W + j) mod ?cap"
    using p(2) c(2) assms(3,5) by (intro totals_mod_neq) auto
  ultimately show ?thesis by simp
qed

theorem spsc_no_data_race_witness: "chunk_cell 3 1 0 \<noteq> chunk_cell 3 0 0"
  using spsc_no_data_race [OF example_sys_reach, of "[8]" 1 0 0 0 1 "[]" 0]
  by (simp add: example_sys_def)

section \<open>The atomic operations are runs of these steps\<close>

text \<open>
  A producer that runs alone from its call to its return takes the system through the
  state change of \<open>spsc_write\<close>: the detailed steps and the sequential definition are
  two descriptions of the same code.
\<close>

lemma copy_run:
  assumes "ppc s = P_Copy d w k" "k + m = length d"
  shows "producer_step\<^sup>*\<^sup>* s (s\<lparr>ring := (ring s)\<lparr>rb_buffer := fold (\<lambda>j b.
      b[chunk_cell (rb_capacity (ring s)) w j := d ! j]) [k..<k + m] (rb_buffer (ring s))\<rparr>,
      ppc := P_Copy d w (k + m)\<rparr>)"
  using assms
proof (induction m arbitrary: s k)
  case 0
  have "s = s\<lparr>ring := (ring s)\<lparr>rb_buffer := rb_buffer (ring s)\<rparr>, ppc := P_Copy d w k\<rparr>"
    using 0 by simp
  then show ?case by simp
next
  case (Suc m)
  let ?t = "s\<lparr>ring := (ring s)\<lparr>rb_buffer :=
        (rb_buffer (ring s))[chunk_cell (rb_capacity (ring s)) w k := d ! k]\<rparr>,
      ppc := P_Copy d w (Suc k)\<rparr>"
  have "producer_step s ?t" using Suc.prems by (intro p_copy) auto
  moreover have "producer_step\<^sup>*\<^sup>* ?t (?t\<lparr>ring := (ring ?t)\<lparr>rb_buffer := fold (\<lambda>j b.
      b[chunk_cell (rb_capacity (ring ?t)) w j := d ! j]) [Suc k..<Suc k + m] (rb_buffer (ring ?t))\<rparr>,
      ppc := P_Copy d w (Suc k + m)\<rparr>)"
    using Suc.prems by (intro Suc.IH) auto
  ultimately show ?case
    by (simp add: upt_conv_Cons converse_rtranclp_into_rtranclp del: upt_Suc)
qed

lemma fold_copy:
  assumes "w < length buf" "m \<le> length d" "length d \<le> length buf"
  shows "length (fold (\<lambda>j b. b[chunk_cell (length buf) w j := d ! j]) [0..<m] buf) = length buf \<and>
    (\<forall>i<length buf. fold (\<lambda>j b. b[chunk_cell (length buf) w j := d ! j]) [0..<m] buf !
        ((w + i) mod length buf) = (if i < m then d ! i else buf ! ((w + i) mod length buf)))"
  using assms(2)
proof (induction m)
  case 0
  show ?case by simp
next
  case (Suc m)
  let ?F = "fold (\<lambda>j b. b[chunk_cell (length buf) w j := d ! j]) [0..<m] buf"
  have m: "m < length buf" using Suc.prems assms(3) by simp
  have cell: "chunk_cell (length buf) w m = (w + m) mod length buf"
    using chunk_cell_mod [of m "length buf" w] m assms(1) by (cases "buf = []") auto
  have "0 < length buf" using assms(1) by linarith
  then have lt: "(w + i) mod length buf < length buf" for i by (rule mod_less_divisor)
  have inj: "(w + m) mod length buf = (w + i) mod length buf \<longleftrightarrow> i = m" if "i < length buf" for i
    using mod_window_inj [of w i "length buf" m] that m by auto
  have F: "length ?F = length buf"
    "\<And>i. i < length buf \<Longrightarrow> ?F ! ((w + i) mod length buf) =
      (if i < m then d ! i else buf ! ((w + i) mod length buf))"
    using Suc by auto
  have "?F[(w + m) mod length buf := d ! m] ! ((w + i) mod length buf) =
      (if i < Suc m then d ! i else buf ! ((w + i) mod length buf))" if "i < length buf" for i
    using F that lt [of i] inj [OF that] by (cases "i = m") (auto simp: nth_list_update_neq)
  then show ?case using F by (simp add: cell)
qed

lemma fold_copy_circ:
  assumes "w < length buf" "length d \<le> length buf"
  shows "fold (\<lambda>j b. b[chunk_cell (length buf) w j := d ! j]) [0..<length d] buf = circ_copy buf w d"
    (is "?F = _")
proof (rule nth_equalityI)
  note F = fold_copy [OF assms(1) order_refl assms(2)]
  show "length ?F = length (circ_copy buf w d)" using F assms by simp
  fix x assume "x < length ?F"
  then have x: "x < length buf" using F by simp
  define i where "i = (if w \<le> x then x - w else x + length buf - w)"
  have i: "i < length buf" "(w + i) mod length buf = x"
    using x assms(1) by (auto simp: i_def)
  show "?F ! x = circ_copy buf w d ! x"
    using F i circ_copy_new [OF assms, of i] circ_copy_old [OF assms, of i] by (cases "i < length d") auto
qed

text \<open>
  Run alone, the producer's steps from the call of \<open>write\<close> to its return change the
  buffer exactly as the sequential \<open>spsc_write\<close> does, and publish exactly the elements
  that it reports as written.
\<close>

theorem spsc_write_is_run:
  assumes "ppc s = P_Idle" "spsc_wf (ring s)" "spsc_write data (ring s) = (n, r')"
  shows "producer_step\<^sup>*\<^sup>* s (s\<lparr>ring := r', sent := sent s @ take n data\<rparr>)"
proof -
  let ?w = "rb_writeIndex (ring s)" and ?cap = "rb_capacity (ring s)"
  let ?d = "take n data"
  have n: "n = min (length data) (spsc_availableWrite (ring s))"
    and r': "r' = (ring s)\<lparr>rb_buffer := circ_copy (rb_buffer (ring s)) ?w ?d,
       rb_writeIndex := (?w + n) mod ?cap\<rparr>"
    using assms(3) by (auto simp: spsc_write_eq [OF assms(2)] Let_def)
  have lens: "length (rb_buffer (ring s)) = ?cap" "?w < ?cap" "length ?d = n" "n \<le> ?cap"
    using assms(2) n spsc_free [OF assms(2)] spsc_capacity_lt [OF assms(2)]
    by (auto simp: spsc_wf_def)
  let ?s1 = "s\<lparr>ppc := P_LoadedW data ?w\<rparr>"
  have "producer_step s (s\<lparr>ppc := P_Start data\<rparr>)" using assms(1) by (rule p_call)
  moreover have "producer_step (s\<lparr>ppc := P_Start data\<rparr>) ?s1"
    using p_load_own [of "s\<lparr>ppc := P_Start data\<rparr>" data] by simp
  ultimately have s1: "producer_step\<^sup>*\<^sup>* s ?s1" by simp
  have avail: "n = min (length data) (getAvailableWrite ?cap ?w (rb_readIndex (ring s)))"
    using n by (simp add: spsc_availableWrite_def)
  show ?thesis
  proof (cases "n = 0")
    case True
    then have "spsc_write data (ring s) = (0, ring s)"
      using avail by (auto simp: spsc_write_def Let_def)
    then have "r' = ring s" using assms(3) by simp
    moreover have "producer_step ?s1 (?s1\<lparr>ppc := P_Idle\<rparr>)"
      using True avail by (intro p_full) auto
    ultimately show ?thesis using s1 True assms(1) by (simp add: rtranclp.rtrancl_into_rtrancl)
  next
    case False
    let ?s2 = "s\<lparr>ppc := P_Copy ?d ?w 0\<rparr>"
    let ?s3 = "s\<lparr>ring := (ring s)\<lparr>rb_buffer := circ_copy (rb_buffer (ring s)) ?w ?d\<rparr>,
      ppc := P_Copy ?d ?w n\<rparr>"
    have "producer_step ?s1 ?s2"
      using p_begin [of ?s1 data ?w n] False avail by simp
    moreover have "producer_step\<^sup>*\<^sup>* ?s2 ?s3"
      using copy_run [of ?s2 ?d ?w 0 n] fold_copy_circ [of ?w "rb_buffer (ring s)" ?d] lens by simp
    moreover have "s\<lparr>ring := r', ppc := P_Idle, sent := sent s @ ?d\<rparr> =
        s\<lparr>ring := r', sent := sent s @ ?d\<rparr>"
      using assms(1) by (cases s) simp
    then have "producer_step ?s3 (s\<lparr>ring := r', sent := sent s @ ?d\<rparr>)"
      using p_publish [of ?s3 ?d ?w n] lens by (simp add: r')
    ultimately show ?thesis using s1 by (meson rtranclp.rtrancl_into_rtrancl rtranclp_trans)
  qed
qed

theorem spsc_write_is_run_witness:
  "producer_step\<^sup>*\<^sup>* (example_sys 0 [0, 0, 0] P_Idle C_Idle [])
     (example_sys 2 [5, 6, 0] P_Idle C_Idle [5, 6])"
proof -
  let ?s = "example_sys 0 [0, 0, 0] P_Idle C_Idle []"
  let ?r = "\<lparr>rb_buffer = [5, 6, 0], rb_capacity = 3, rb_writeIndex = 2, rb_readIndex = 0\<rparr>"
  have "spsc_write [5, 6, 9] (ring ?s) = (2, ?r)"
    by (simp add: example_simps spsc_write_def memcpy_at_def Let_def)
  then have "producer_step\<^sup>*\<^sup>* ?s (?s\<lparr>ring := ?r, sent := sent ?s @ take 2 [5, 6, 9]\<rparr>)"
    by (intro spsc_write_is_run) (simp_all add: example_sys_def spsc_wf_def)
  then show ?thesis by (simp add: example_sys_def)
qed

end
