(* ===== verification/Jitter_Buffer.thy ===== *)
theory Jitter_Buffer
  imports Prelude
begin

text \<open>
  \<open>NetworkEngine/RTP/LockFreeCircularJitterBuffer.h/.cpp\<close>: the slot array between the
  network thread and the consumer thread of a receiver, indexed by the low bits of the
  sequence number. Here every operation runs to its end before the next; Jitter_Concurrent
  has the interleaved slot protocol. Times of arrival are an argument (\<open>now\<close>), and the
  member \<open>packetPool_\<close>, which no operation of the class touches, is modelled in
  Packet_Pool.
\<close>

section \<open>Rounding up to a power of two\<close>

definition nextPowerOf2 :: "u64 \<Rightarrow> u64" where
  "nextPowerOf2 v =
     (if v = 0 then 1
      else if v AND (v - 1) = 0 then v
      else
        let v1 = v - 1;
            v2 = v1 OR drop_bit 1 v1;
            v3 = v2 OR drop_bit 2 v2;
            v4 = v3 OR drop_bit 4 v3;
            v5 = v4 OR drop_bit 8 v4;
            v6 = v5 OR drop_bit 16 v5;
            v7 = v6 OR drop_bit 32 v6
        in v7 + 1)"

text \<open>\<open>smeared n v w\<close>: bit \<open>i\<close> of \<open>w\<close> tells whether \<open>v\<close> has a bit in \<open>i..i+n-1\<close>.\<close>

definition smeared :: "nat \<Rightarrow> u64 \<Rightarrow> u64 \<Rightarrow> bool" where
  "smeared n v w \<longleftrightarrow> (\<forall>i. bit w i \<longleftrightarrow> (\<exists>d<n. bit v (i + d)))"

lemma smeared_1: "smeared 1 v v"
  by (simp add: smeared_def)

lemma smeared_double:
  assumes "smeared n v w"
  shows "smeared (2 * n) v (w OR drop_bit n w)"
proof -
  have "(\<exists>d<2 * n. bit v (i + d)) \<longleftrightarrow> (\<exists>d<n. bit v (i + d)) \<or> (\<exists>d<n. bit v (i + n + d))"
    (is "?l \<longleftrightarrow> ?a \<or> ?b") for i
  proof
    assume ?l
    then obtain d where d: "d < 2 * n" "bit v (i + d)" by blast
    show "?a \<or> ?b"
    proof (cases "d < n")
      case True
      with d show ?thesis by blast
    next
      case False
      with d have "d - n < n" "bit v (i + n + (d - n))" by simp_all
      then show ?thesis by blast
    qed
  next
    assume "?a \<or> ?b"
    then show ?l
    proof
      assume ?a
      then obtain d where "d < n" "bit v (i + d)" by blast
      then have "d < 2 * n \<and> bit v (i + d)" by simp
      then show ?l by blast
    next
      assume ?b
      then obtain d where "d < n" "bit v (i + n + d)" by blast
      then have "n + d < 2 * n \<and> bit v (i + (n + d))" by (simp add: add.assoc)
      then show ?l by blast
    qed
  qed
  with assms show ?thesis
    by (simp add: smeared_def bit_or_iff bit_drop_bit_eq ac_simps)
qed

lemma highest_bit:
  fixes n :: nat
  assumes "0 < n"
  obtains m where "2 ^ m \<le> n" "n < 2 ^ Suc m"
proof -
  define m where "m = (LEAST k. n < 2 ^ Suc k)"
  have ex: "n < 2 ^ Suc n" by (metis less_exp less_trans lessI)
  then have up: "n < 2 ^ Suc m" unfolding m_def by (rule LeastI)
  have "2 ^ m \<le> n"
  proof (cases m)
    case 0
    with assms show ?thesis by simp
  next
    case (Suc k)
    then have "\<not> n < 2 ^ Suc k" using not_less_Least [of k "\<lambda>k. n < 2 ^ Suc k"] m_def by simp
    with Suc show ?thesis by simp
  qed
  then show thesis using up by (rule that)
qed

lemma highest_bit_bits:
  fixes v :: u64
  assumes "2 ^ m \<le> unat v" "unat v < 2 ^ Suc m"
  shows "bit v m" and "\<And>i. bit v i \<Longrightarrow> i \<le> m" and "m < 64"
proof -
  have "unat v div 2 ^ m = 1"
    using assms by (simp add: div_nat_eqI)
  then have "bit (unat v) m" by (simp add: bit_iff_odd)
  then show "bit v m" by (simp add: bit_unsigned_iff)
  then show "m < 64" using bit_imp_le_length [of v m] by simp
  show "i \<le> m" if "bit v i" for i
  proof (rule ccontr)
    assume "\<not> i \<le> m"
    then have "unat v < 2 ^ i" using assms(2) by (meson less_le_trans not_less_eq_eq one_le_numeral
          power_increasing)
    then have "\<not> bit (unat v) i" by (simp add: bit_iff_odd)
    with that show False by (simp add: bit_unsigned_iff)
  qed
qed


lemma smeared_64_mask:
  fixes v w :: u64
  assumes "smeared 64 v w" "2 ^ m \<le> unat v" "unat v < 2 ^ Suc m"
  shows "w = mask (Suc m)"
proof (rule bit_word_eqI)
  note hb = highest_bit_bits [OF assms(2,3)]
  fix i assume i: "i < LENGTH(64)"
  have "(\<exists>d<64. bit v (i + d)) \<longleftrightarrow> i \<le> m"
  proof
    assume "\<exists>d<64. bit v (i + d)"
    then show "i \<le> m" using hb(2) by (meson le_add1 le_trans)
  next
    assume "i \<le> m"
    then have "m - i < 64 \<and> bit v (i + (m - i))" using hb(1,3) by simp
    then show "\<exists>d<64. bit v (i + d)" by blast
  qed
  with assms(1) i show "bit w i \<longleftrightarrow> bit (mask (Suc m) :: u64) i"
    by (simp add: smeared_def bit_mask_iff less_Suc_eq_le)
qed

lemma pow2_test:
  fixes v :: u64
  assumes "v \<noteq> 0"
  shows "v AND (v - 1) = 0 \<longleftrightarrow> (\<exists>k<64. v = 2 ^ k)"
proof
  assume z: "v AND (v - 1) = 0"
  have "0 < unat v" using assms by (simp add: unat_gt_0)
  then obtain m where m: "2 ^ m \<le> unat v" "unat v < 2 ^ Suc m" by (rule highest_bit)
  note hb = highest_bit_bits [OF m]
  have "unat v = 2 ^ m"
  proof (rule ccontr)
    assume "unat v \<noteq> 2 ^ m"
    then have "2 ^ m \<le> unat (v - 1)" "unat (v - 1) < 2 ^ Suc m"
      using m assms by (simp_all add: unat_minus_one)
    then have "bit (v - 1) m" by (rule highest_bit_bits(1))
    with hb(1) have "bit (v AND (v - 1)) m" by (simp add: bit_and_iff)
    with z show False by simp
  qed
  then have "v = 2 ^ m" using hb(3) using unat_pow2 [of m, where 'a = 64] by (simp add: word_unat_eq_iff)
  with hb(3) show "\<exists>k<64. v = 2 ^ k" by blast
next
  assume "\<exists>k<64. v = 2 ^ k"
  then obtain k where k: "k < 64" "v = 2 ^ k" by blast
  have "v AND mask k = 0"
    using k by (intro bit_word_eqI) (auto simp: bit_and_iff bit_mask_iff bit_exp_iff)
  with k show "v AND (v - 1) = 0" by (simp add: mask_eq_exp_minus_1)
qed

lemma nextPowerOf2_pow2:
  assumes "0 < v" "v \<le> 2 ^ 63"
  shows "\<exists>k\<le>63. nextPowerOf2 v = 2 ^ k \<and> unat v \<le> 2 ^ k \<and> 2 ^ k < 2 * unat v"
proof (cases "v AND (v - 1) = 0")
  case True
  with assms(1) have "nextPowerOf2 v = v" by (auto simp: nextPowerOf2_def)
  moreover obtain k where "k < 64" "v = 2 ^ k" using True assms(1) pow2_test [of v] by auto
  ultimately show ?thesis by (intro exI [of _ k]) (auto simp: unat_pow2)
next
  case False
  let ?v = "v - 1"
  have v: "v \<noteq> 0" "v \<noteq> 1" using False by auto
  have uv: "unat ?v = unat v - 1" using v by (simp add: unat_minus_one)
  have le: "unat v \<le> 2 ^ 63" using assms(2) by (simp add: word_le_nat_alt)
  have "0 < unat ?v" using v by (simp add: unat_gt_0)
  then obtain m where m: "2 ^ m \<le> unat ?v" "unat ?v < 2 ^ Suc m" by (rule highest_bit)
  have "2 ^ m < (2 :: nat) ^ 63" using m(1) uv le v by (simp add: unat_gt_0)
  then have m63: "Suc m \<le> 63" using power_less_imp_less_exp [of "2::nat" m 63] by simp
  have "nextPowerOf2 v = mask (Suc m) + 1"
  proof -
    have s: "smeared 64 ?v w" if "w = (let v2 = ?v OR drop_bit 1 ?v; v3 = v2 OR drop_bit 2 v2;
        v4 = v3 OR drop_bit 4 v3; v5 = v4 OR drop_bit 8 v4; v6 = v5 OR drop_bit 16 v5
        in v6 OR drop_bit 32 v6)" for w
      using smeared_double [OF smeared_double [OF smeared_double [OF smeared_double
        [OF smeared_double [OF smeared_double [OF smeared_1 [of ?v]]]]]]]
      unfolding that Let_def by simp
    show ?thesis
      using smeared_64_mask [OF s [OF refl] m] False v by (simp add: nextPowerOf2_def Let_def)
  qed
  then have "nextPowerOf2 v = 2 ^ Suc m" by (simp add: mask_eq_exp_minus_1)
  moreover have "unat v \<le> 2 ^ Suc m" "2 ^ Suc m < 2 * unat v" using m uv v by auto
  ultimately show ?thesis using m63 by blast
qed

section \<open>State\<close>

datatype slot_state = EMPTY | WRITING | READY | READING

record slot =
  sl_data :: "u8 list"               \<comment> \<open>\<open>uint8_t data[1500]\<close>\<close>
  sl_length :: nat
  sl_sequenceNumber :: u32
  sl_presentationTime :: u64
  sl_arrivalTime :: u64
  sl_state :: slot_state

record jitter_buffer =
  jb_bufferSize :: nat
  jb_sequenceMask :: u32
  jb_buffer :: "slot list"
  jb_expectedSequenceNumber :: u32
  jb_totalPackets :: u64
  jb_droppedPackets :: u64
  jb_validPackets :: u64

definition DEFAULT_BUFFER_SIZE :: u64 where "DEFAULT_BUFFER_SIZE = 256"
definition MIN_BUFFER_SIZE :: u64 where "MIN_BUFFER_SIZE = 32"
definition MAX_BUFFER_SIZE :: u64 where "MAX_BUFFER_SIZE = 4096"

definition empty_slot :: slot where
  "empty_slot = \<lparr>sl_data = replicate 1500 0, sl_length = 0, sl_sequenceNumber = 0,
     sl_presentationTime = 0, sl_arrivalTime = 0, sl_state = EMPTY\<rparr>"

text \<open>The constructor: clamp the depth (\<open>std::clamp\<close>), then round up.\<close>

definition buffer_size_of :: "u64 \<Rightarrow> u64" where
  "buffer_size_of depth =
     nextPowerOf2 (if depth < MIN_BUFFER_SIZE then MIN_BUFFER_SIZE
                   else if MAX_BUFFER_SIZE < depth then MAX_BUFFER_SIZE else depth)"

definition jb_new :: "u64 \<Rightarrow> jitter_buffer" where
  "jb_new depth =
     (let size = buffer_size_of depth
      in \<lparr>jb_bufferSize = unat size, jb_sequenceMask = ucast (size - 1),
          jb_buffer = replicate (unat size) empty_slot, jb_expectedSequenceNumber = 0,
          jb_totalPackets = 0, jb_droppedPackets = 0, jb_validPackets = 0\<rparr>)"

section \<open>Operations\<close>

definition getIndex :: "jitter_buffer \<Rightarrow> u32 \<Rightarrow> nat" where
  "getIndex jb sequenceNumber = unat (sequenceNumber AND jb_sequenceMask jb)"

definition jb_set_slot :: "nat \<Rightarrow> slot \<Rightarrow> jitter_buffer \<Rightarrow> jitter_buffer" where
  "jb_set_slot i sl jb = jb\<lparr>jb_buffer := (jb_buffer jb)[i := sl]\<rparr>"

text \<open>\<open>addPacket(packetData, packetLength, sequenceNumber, presentationTime)\<close>.\<close>

definition addPacket :: "u64 \<Rightarrow> u8 list \<Rightarrow> u32 \<Rightarrow> u64 \<Rightarrow> jitter_buffer \<Rightarrow> bool \<times> jitter_buffer" where
  "addPacket now packetData sequenceNumber presentationTime jb =
     (let index = getIndex jb sequenceNumber;
          sl = jb_buffer jb ! index
      in if sl_state sl \<noteq> EMPTY
         then (False, jb\<lparr>jb_droppedPackets := jb_droppedPackets jb + 1\<rparr>)
         else
           let copySize = min (length packetData) (length (sl_data sl));
               sl' = sl\<lparr>sl_data := memcpy_at (sl_data sl) 0 (take copySize packetData),
                        sl_length := copySize,
                        sl_sequenceNumber := sequenceNumber,
                        sl_presentationTime := presentationTime,
                        sl_arrivalTime := now,
                        sl_state := READY\<rparr>
           in (True, (jb_set_slot index sl' jb)
                 \<lparr>jb_totalPackets := jb_totalPackets jb + 1,
                  jb_validPackets := jb_validPackets jb + 1\<rparr>))"

text \<open>
  The reference outputs \<open>outputBuffer\<close>, \<open>outputLength\<close> and \<open>presentationTime\<close> are written
  exactly when the call returns true: the result is the bytes and the time, or nothing.
\<close>

definition getPacketBySequence ::
    "nat \<Rightarrow> u32 \<Rightarrow> jitter_buffer \<Rightarrow> (u8 list \<times> u64) option \<times> jitter_buffer" where
  "getPacketBySequence bufferSize sequenceNumber jb =
     (let index = getIndex jb sequenceNumber;
          sl = jb_buffer jb ! index;
          released = (jb_set_slot index (sl\<lparr>sl_state := EMPTY\<rparr>) jb)
             \<lparr>jb_validPackets := jb_validPackets jb - 1\<rparr>
      in if sl_state sl \<noteq> READY then (None, jb)
         else if sl_sequenceNumber sl \<noteq> sequenceNumber then (None, released)
         else if sl_length sl > bufferSize then (None, released)
         else (Some (take (sl_length sl) (sl_data sl), sl_presentationTime sl), released))"

definition getNextPacket ::
    "nat \<Rightarrow> u32 \<Rightarrow> jitter_buffer \<Rightarrow> (u8 list \<times> u64) option \<times> jitter_buffer" where
  "getNextPacket bufferSize expectedSequenceNumber jb =
     (let index = getIndex jb expectedSequenceNumber;
          sl = jb_buffer jb ! index;
          released = (jb_set_slot index (sl\<lparr>sl_state := EMPTY\<rparr>) jb)
             \<lparr>jb_validPackets := jb_validPackets jb - 1\<rparr>
      in if sl_state sl \<noteq> READY then (None, jb)
         else if sl_sequenceNumber sl \<noteq> expectedSequenceNumber then (None, released)
         else if sl_length sl > bufferSize then (None, released)
         else (Some (take (sl_length sl) (sl_data sl), sl_presentationTime sl),
               released\<lparr>jb_expectedSequenceNumber := expectedSequenceNumber + 1\<rparr>))"

definition getBufferedPacketCount :: "jitter_buffer \<Rightarrow> u64" where
  "getBufferedPacketCount jb = jb_validPackets jb"

definition jb_reset :: "jitter_buffer \<Rightarrow> jitter_buffer" where
  "jb_reset jb = jb\<lparr>jb_buffer := map (\<lambda>sl. sl\<lparr>sl_state := EMPTY\<rparr>) (jb_buffer jb),
     jb_totalPackets := 0, jb_droppedPackets := 0, jb_validPackets := 0,
     jb_expectedSequenceNumber := 0\<rparr>"

section \<open>Well-formed quiescent states\<close>

text \<open>
  Between operations of one thread every slot is EMPTY or READY. A READY slot holds a packet
  whose number belongs to the slot, and the counter \<open>validPackets_\<close> is the number of READY
  slots.
\<close>

definition slot_ok :: "nat \<Rightarrow> nat \<Rightarrow> slot \<Rightarrow> bool" where
  "slot_ok sz i sl \<longleftrightarrow> length (sl_data sl) = 1500 \<and> sl_length sl \<le> 1500 \<and>
     (sl_state sl = EMPTY \<or> sl_state sl = READY \<and> unat (sl_sequenceNumber sl) mod sz = i)"

definition ready_count :: "jitter_buffer \<Rightarrow> nat" where
  "ready_count jb = length (filter (\<lambda>sl. sl_state sl = READY) (jb_buffer jb))"

definition jb_wf :: "jitter_buffer \<Rightarrow> bool" where
  "jb_wf jb \<longleftrightarrow> (\<exists>k. 5 \<le> k \<and> k \<le> 12 \<and> jb_bufferSize jb = 2 ^ k \<and> jb_sequenceMask jb = mask k) \<and>
     length (jb_buffer jb) = jb_bufferSize jb \<and>
     (\<forall>i < jb_bufferSize jb. slot_ok (jb_bufferSize jb) i (jb_buffer jb ! i)) \<and>
     jb_validPackets jb = of_nat (ready_count jb)"

text \<open>The abstract view: which packet is stored under a sequence number.\<close>

definition jb_stored :: "jitter_buffer \<Rightarrow> u32 \<Rightarrow> (u8 list \<times> u64) option" where
  "jb_stored jb s =
     (let sl = jb_buffer jb ! getIndex jb s
      in if sl_state sl = READY \<and> sl_sequenceNumber sl = s
         then Some (take (sl_length sl) (sl_data sl), sl_presentationTime sl) else None)"

lemma getIndex_mod:
  assumes "jb_wf jb"
  shows "getIndex jb s = unat s mod jb_bufferSize jb"
  using assms by (auto simp: jb_wf_def getIndex_def unat_and_mask)

lemma jb_size_pos: "jb_wf jb \<Longrightarrow> 0 < jb_bufferSize jb"
  by (auto simp: jb_wf_def)

lemma getIndex_less:
  assumes "jb_wf jb"
  shows "getIndex jb s < jb_bufferSize jb" "getIndex jb s < length (jb_buffer jb)"
  using getIndex_mod [OF assms] jb_size_pos [OF assms] assms by (simp_all add: jb_wf_def)

lemma slot_ok_at: "jb_wf jb \<Longrightarrow> slot_ok (jb_bufferSize jb) (getIndex jb s) (jb_buffer jb ! getIndex jb s)"
  using getIndex_less(1) by (auto simp: jb_wf_def)

lemma slot_ready_or_empty:
  "jb_wf jb \<Longrightarrow> sl_state (jb_buffer jb ! getIndex jb s) = READY \<or>
     sl_state (jb_buffer jb ! getIndex jb s) = EMPTY"
  using slot_ok_at [of jb s] by (auto simp: slot_ok_def)

lemma ready_count_le: "jb_wf jb \<Longrightarrow> ready_count jb \<le> jb_bufferSize jb"
  by (auto simp: ready_count_def jb_wf_def intro: order_trans [OF length_filter_le])

lemma jb_size_le: "jb_wf jb \<Longrightarrow> jb_bufferSize jb \<le> 4096"
  unfolding jb_wf_def using power_increasing [of _ 12 "2::nat"] by fastforce

lemma jb_size_dvd: "jb_wf jb \<Longrightarrow> jb_bufferSize jb dvd 2 ^ 32"
  unfolding jb_wf_def using le_imp_power_dvd [of _ 32 "2::nat"] by fastforce

lemma ready_count_set:
  assumes "i < length (jb_buffer jb)"
  shows "ready_count (jb_set_slot i sl jb) + (if sl_state (jb_buffer jb ! i) = READY then 1 else 0)
    = ready_count jb + (if sl_state sl = READY then 1 else 0)"
  using length_filter_update [OF assms, of "\<lambda>sl. sl_state sl = READY" sl]
  by (simp add: ready_count_def jb_set_slot_def)

text \<open>One slot changes and the counter follows: the shape of every state change below.\<close>

lemma jb_wf_set_slot:
  assumes "jb_wf jb" "slot_ok (jb_bufferSize jb) (getIndex jb s) sl"
    and "jb_bufferSize jb' = jb_bufferSize jb" "jb_sequenceMask jb' = jb_sequenceMask jb"
    and "jb_buffer jb' = (jb_buffer jb)[getIndex jb s := sl]"
    and "jb_validPackets jb' + (if sl_state (jb_buffer jb ! getIndex jb s) = READY then 1 else 0) =
      jb_validPackets jb + (if sl_state sl = READY then 1 else 0)"
  shows "jb_wf jb'"
proof -
  have c: "ready_count jb' = ready_count (jb_set_slot (getIndex jb s) sl jb)"
    using assms(5) by (simp add: ready_count_def jb_set_slot_def)
  have v: "jb_validPackets jb = of_nat (ready_count jb)" using assms(1) by (simp add: jb_wf_def)
  have "of_nat (ready_count jb' + (if sl_state (jb_buffer jb ! getIndex jb s) = READY then 1 else 0))
      = (of_nat (ready_count jb + (if sl_state sl = READY then 1 else 0)) :: u64)"
    using ready_count_set [OF getIndex_less(2) [OF assms(1)], of s sl] c by presburger
  then have "jb_validPackets jb' + (if sl_state (jb_buffer jb ! getIndex jb s) = READY then 1 else 0)
      = of_nat (ready_count jb') + (if sl_state (jb_buffer jb ! getIndex jb s) = READY then 1 else 0)"
    using assms(6) unfolding v by (simp split: if_splits)
  then have "jb_validPackets jb' = of_nat (ready_count jb')" by (rule add_right_imp_eq)
  then show ?thesis
    using assms(1-5) getIndex_less(2) [OF assms(1), of s] by (auto simp: jb_wf_def nth_list_update)
qed

lemma jb_stored_set_slot:
  assumes "jb_wf jb" "slot_ok (jb_bufferSize jb) (getIndex jb s) sl"
    and "jb_sequenceMask jb' = jb_sequenceMask jb"
    and "jb_buffer jb' = (jb_buffer jb)[getIndex jb s := sl]"
  shows "jb_stored jb' s' = (if getIndex jb s' = getIndex jb s
    then if sl_state sl = READY \<and> sl_sequenceNumber sl = s'
      then Some (take (sl_length sl) (sl_data sl), sl_presentationTime sl) else None
    else jb_stored jb s')"
proof -
  have "getIndex jb' s' = getIndex jb s'" using assms(3) by (simp add: getIndex_def)
  then show ?thesis
    using getIndex_less(2) [OF assms(1), of s] assms(4) by (simp add: jb_stored_def Let_def)
qed

lemma jb_stored_empty:
  "jb_wf jb \<Longrightarrow> (\<And>s'. jb_stored jb s' \<noteq> None \<Longrightarrow> unat s' mod jb_bufferSize jb \<noteq> unat s mod jb_bufferSize jb)
     \<Longrightarrow> sl_state (jb_buffer jb ! getIndex jb s) = EMPTY"
proof (rule ccontr)
  let ?sl = "jb_buffer jb ! getIndex jb s"
  assume wf: "jb_wf jb" and free: "\<And>s'. jb_stored jb s' \<noteq> None \<Longrightarrow>
      unat s' mod jb_bufferSize jb \<noteq> unat s mod jb_bufferSize jb"
    and "sl_state ?sl \<noteq> EMPTY"
  then have r: "sl_state ?sl = READY" "unat (sl_sequenceNumber ?sl) mod jb_bufferSize jb = getIndex jb s"
    using slot_ok_at [OF wf, of s] by (auto simp: slot_ok_def)
  then have "jb_stored jb (sl_sequenceNumber ?sl) \<noteq> None"
    by (simp add: jb_stored_def Let_def getIndex_mod [OF wf])
  from free [OF this] r(2) show False by (simp add: getIndex_mod [OF wf])
qed

section \<open>The constructor\<close>

lemma buffer_size_of_pow2:
  "\<exists>k. 5 \<le> k \<and> k \<le> 12 \<and> buffer_size_of depth = 2 ^ k \<and>
    (32 \<le> depth \<longrightarrow> depth \<le> 4096 \<longrightarrow> unat depth \<le> 2 ^ k \<and> 2 ^ k < 2 * unat depth)"
proof -
  define d where "d = (if depth < 32 then 32 else if 4096 < depth then 4096 else depth)"
  have d: "32 \<le> d" "d \<le> 4096" by (auto simp: d_def)
  then have u: "32 \<le> unat d" "unat d \<le> 4096" by (simp_all add: word_le_nat_alt)
  have "0 < d" "d \<le> 2 ^ 63" using u by (simp_all add: word_less_nat_alt word_le_nat_alt)
  then obtain k where k: "nextPowerOf2 d = 2 ^ k" "unat d \<le> 2 ^ k" "2 ^ k < 2 * unat d"
    using nextPowerOf2_pow2 [of d] by blast
  have "(2::nat) ^ 4 < 2 ^ k" using k(2) u by simp
  then have 5: "5 \<le> k" using power_less_imp_less_exp [of "2::nat" 4 k] by simp
  have "(2::nat) ^ k < 2 ^ 13" using k(3) u by simp
  then have 12: "k \<le> 12" using power_less_imp_less_exp [of "2::nat" k 13] by simp
  have "buffer_size_of depth = nextPowerOf2 d"
    by (simp add: buffer_size_of_def d_def MIN_BUFFER_SIZE_def MAX_BUFFER_SIZE_def)
  moreover have "d = depth" if "32 \<le> depth" "depth \<le> 4096" using that by (auto simp: d_def)
  ultimately show ?thesis using k 5 12 by auto
qed

lemma jb_wf_new: "jb_wf (jb_new depth)"
proof -
  obtain k where k: "5 \<le> k" "k \<le> 12" "buffer_size_of depth = 2 ^ k"
    using buffer_size_of_pow2 by blast
  have u: "unat (2 ^ k :: u64) = 2 ^ k" using k(2) by (simp add: unat_pow2)
  have "(ucast (2 ^ k - 1 :: u64) :: u32) = mask k"
    using k(2) by (intro bit_word_eqI) (simp add: bit_ucast_iff bit_mask_iff mask_eq_exp_minus_1 [symmetric])
  then show ?thesis
    using k u by (auto simp: jb_wf_def jb_new_def Let_def slot_ok_def empty_slot_def ready_count_def)
qed

section \<open>Inserting a packet\<close>

lemma addPacket_refused:
  assumes "sl_state (jb_buffer jb ! getIndex jb s) \<noteq> EMPTY"
  shows "addPacket now d s t jb = (False, jb\<lparr>jb_droppedPackets := jb_droppedPackets jb + 1\<rparr>)"
  using assms by (simp add: addPacket_def Let_def)

lemma addPacket_stored:
  assumes "jb_wf jb" "sl_state (jb_buffer jb ! getIndex jb s) = EMPTY"
  obtains jb' where "addPacket now d s t jb = (True, jb')" "jb_wf jb'"
    "jb_bufferSize jb' = jb_bufferSize jb" "jb_stored jb' = (jb_stored jb)(s \<mapsto> (take 1500 d, t))"
    "jb_totalPackets jb' = jb_totalPackets jb + 1" "jb_validPackets jb' = jb_validPackets jb + 1"
    "jb_droppedPackets jb' = jb_droppedPackets jb"
proof -
  let ?i = "getIndex jb s" let ?sl = "jb_buffer jb ! getIndex jb s"
  note sok = slot_ok_at [OF assms(1), of s]
  define sl where "sl = ?sl\<lparr>sl_data := memcpy_at (sl_data ?sl) 0 (take (min (length d) 1500) d),
    sl_length := min (length d) 1500, sl_sequenceNumber := s, sl_presentationTime := t,
    sl_arrivalTime := now, sl_state := READY\<rparr>"
  define jb' where "jb' = (jb_set_slot ?i sl jb)\<lparr>jb_totalPackets := jb_totalPackets jb + 1,
    jb_validPackets := jb_validPackets jb + 1\<rparr>"
  have sok': "slot_ok (jb_bufferSize jb) ?i sl"
    using sok getIndex_mod [OF assms(1), of s] by (simp add: slot_ok_def sl_def)
  have add: "addPacket now d s t jb = (True, jb')"
    using sok assms(2) by (simp add: addPacket_def Let_def jb'_def sl_def slot_ok_def)
  have "jb_wf jb'"
    by (rule jb_wf_set_slot [OF assms(1) sok']) (simp_all add: jb'_def jb_set_slot_def assms(2) sl_def)
  moreover have "take (sl_length sl) (sl_data sl) = take 1500 d"
    using sok by (simp add: sl_def memcpy_at_def slot_ok_def min_def)
  then have "jb_stored jb' s' = ((jb_stored jb)(s \<mapsto> (take 1500 d, t))) s'" for s'
    using jb_stored_set_slot [OF assms(1) sok', of jb' s'] assms(2)
    by (auto simp: jb'_def jb_set_slot_def sl_def jb_stored_def Let_def)
  then have "jb_stored jb' = (jb_stored jb)(s \<mapsto> (take 1500 d, t))" ..
  ultimately show thesis by (intro that [OF add]) (simp_all add: jb'_def jb_set_slot_def)
qed

section \<open>Fetching a packet\<close>

text \<open>Both fetch operations release the slot in the same way.\<close>

definition jb_release :: "nat \<Rightarrow> jitter_buffer \<Rightarrow> jitter_buffer" where
  "jb_release i jb = (jb_set_slot i ((jb_buffer jb ! i)\<lparr>sl_state := EMPTY\<rparr>) jb)
     \<lparr>jb_validPackets := jb_validPackets jb - 1\<rparr>"

lemma jb_release_wf:
  assumes "jb_wf jb" "sl_state (jb_buffer jb ! getIndex jb s) = READY"
  shows "jb_wf (jb_release (getIndex jb s) jb)"
    and "jb_wf (jb_release (getIndex jb s) jb\<lparr>jb_expectedSequenceNumber := e\<rparr>)"
proof -
  have sok': "slot_ok (jb_bufferSize jb) (getIndex jb s)
      ((jb_buffer jb ! getIndex jb s)\<lparr>sl_state := EMPTY\<rparr>)"
    using slot_ok_at [OF assms(1), of s] by (simp add: slot_ok_def)
  show "jb_wf (jb_release (getIndex jb s) jb)"
    by (rule jb_wf_set_slot [OF assms(1) sok']) (simp_all add: jb_release_def jb_set_slot_def assms(2))
  then show "jb_wf (jb_release (getIndex jb s) jb\<lparr>jb_expectedSequenceNumber := e\<rparr>)"
    by (simp add: jb_wf_def ready_count_def)
qed

lemma jb_release_stored:
  assumes "jb_wf jb" "sl_state (jb_buffer jb ! getIndex jb s) = READY"
  shows "jb_stored (jb_release (getIndex jb s) jb) =
    (jb_stored jb)(sl_sequenceNumber (jb_buffer jb ! getIndex jb s) := None)"
proof
  fix s'
  let ?sl = "jb_buffer jb ! getIndex jb s"
  have sok: "slot_ok (jb_bufferSize jb) (getIndex jb s) ?sl" by (rule slot_ok_at [OF assms(1)])
  then have sok': "slot_ok (jb_bufferSize jb) (getIndex jb s) (?sl\<lparr>sl_state := EMPTY\<rparr>)"
    by (simp add: slot_ok_def)
  have q: "getIndex jb (sl_sequenceNumber ?sl) = getIndex jb s"
    using sok assms(2) getIndex_mod [OF assms(1)] by (simp add: slot_ok_def)
  show "jb_stored (jb_release (getIndex jb s) jb) s' =
      ((jb_stored jb)(sl_sequenceNumber ?sl := None)) s'"
    using jb_stored_set_slot [OF assms(1) sok', of "jb_release (getIndex jb s) jb" s'] q
    by (auto simp: jb_release_def jb_set_slot_def jb_stored_def Let_def)
qed

lemma jb_stored_record [simp]:
  "jb_stored (jb\<lparr>jb_expectedSequenceNumber := e\<rparr>) = jb_stored jb"
  "jb_stored (jb\<lparr>jb_droppedPackets := n\<rparr>) = jb_stored jb"
  by (simp_all add: fun_eq_iff jb_stored_def getIndex_def Let_def)

lemma fetch_cases:
  "sl_state (jb_buffer jb ! getIndex jb s) \<noteq> READY \<Longrightarrow> getPacketBySequence n s jb = (None, jb)"
  "sl_state (jb_buffer jb ! getIndex jb s) \<noteq> READY \<Longrightarrow> getNextPacket n s jb = (None, jb)"
  "sl_state (jb_buffer jb ! getIndex jb s) = READY \<Longrightarrow> jb_stored jb s = None \<Longrightarrow>
     getPacketBySequence n s jb = (None, jb_release (getIndex jb s) jb)"
  "sl_state (jb_buffer jb ! getIndex jb s) = READY \<Longrightarrow> jb_stored jb s = None \<Longrightarrow>
     getNextPacket n s jb = (None, jb_release (getIndex jb s) jb)"
  by (simp_all add: getPacketBySequence_def getNextPacket_def jb_release_def jb_stored_def Let_def
      split: if_splits)

lemma fetch_stored:
  assumes "jb_wf jb" "jb_stored jb s = Some (d, t)"
  shows "getPacketBySequence n s jb =
      (if length d \<le> n then Some (d, t) else None, jb_release (getIndex jb s) jb)"
    and "getNextPacket n s jb = (if length d \<le> n
      then (Some (d, t), jb_release (getIndex jb s) jb\<lparr>jb_expectedSequenceNumber := s + 1\<rparr>)
      else (None, jb_release (getIndex jb s) jb))"
    and "sl_state (jb_buffer jb ! getIndex jb s) = READY"
    and "sl_sequenceNumber (jb_buffer jb ! getIndex jb s) = s" and "length d \<le> 1500"
  using assms slot_ok_at [OF assms(1), of s]
  by (auto simp: getPacketBySequence_def getNextPacket_def jb_release_def jb_stored_def Let_def
      slot_ok_def min_def split: if_splits)

section \<open>The buffer implements the reordering interface\<close>

interpretation jb_reorder: reorder_buffer jb_wf jb_stored jb_bufferSize
  "\<lambda>(s, d, t). addPacket now d s t" "getNextPacket 1500" for now
proof (unfold_locales, goal_cases)
  case (1 b)
  then show ?case by (rule jb_size_dvd)
next
  case (2 b d s t)
  have e: "sl_state (jb_buffer b ! getIndex b s) = EMPTY"
    by (rule jb_stored_empty [OF 2(1)]) (use 2(3) in blast)
  show ?case
    by (rule addPacket_stored [OF 2(1) e, of now d t]) (use 2(2) in auto)
next
  case (3 b s d t)
  note f = fetch_stored [OF 3(1,2)]
  show ?case
    using f(2) [of 1500] 3(3) jb_release_wf(2) [OF 3(1) f(3)] jb_release_stored [OF 3(1) f(3)] f(4)
    by (simp add: jb_release_def jb_set_slot_def)
next
  case (4 b s)
  have "sl_state (jb_buffer b ! getIndex b s) = EMPTY"
    by (rule jb_stored_empty [OF 4(1)]) (use 4(2) in blast)
  then show ?case by (simp add: fetch_cases(2))
qed

text \<open>A batch of arrivals, and a consumer asking for consecutive numbers.\<close>

fun jb_add_all :: "u64 \<Rightarrow> packet list \<Rightarrow> jitter_buffer \<Rightarrow> jitter_buffer" where
  "jb_add_all now [] jb = jb"
| "jb_add_all now ((s, d, t) # ps) jb = jb_add_all now ps (snd (addPacket now d s t jb))"

fun jb_fetch_from :: "nat \<Rightarrow> u32 \<Rightarrow> jitter_buffer \<Rightarrow> (u8 list \<times> u64) option list \<times> jitter_buffer" where
  "jb_fetch_from 0 s jb = ([], jb)"
| "jb_fetch_from (Suc n) s jb =
     (let (r, jb1) = getNextPacket 1500 s jb; (rs, jb2) = jb_fetch_from n (s + 1) jb1
      in (r # rs, jb2))"

lemma jb_add_all_eq: "jb_reorder.add_all now ps jb = jb_add_all now ps jb"
  by (induction now ps jb rule: jb_add_all.induct) simp_all

lemma jb_fetch_from_eq: "jb_reorder.fetch_from n s jb = jb_fetch_from n s jb"
  by (induction n s jb rule: jb_fetch_from.induct) (simp_all split: prod.splits)

lemma jb_new_stored: "jb_stored (jb_new depth) s = None"
  using getIndex_less(2) [OF jb_wf_new, of depth s]
  by (simp add: jb_stored_def jb_new_def empty_slot_def Let_def)

section \<open>Runs of operations\<close>

datatype jb_op = AddOp u64 "u8 list" u32 u64 | NextOp nat u32 | BySeqOp nat u32 | ResetOp

fun jb_apply :: "jb_op \<Rightarrow> jitter_buffer \<Rightarrow> jitter_buffer" where
  "jb_apply (AddOp now d s t) jb = snd (addPacket now d s t jb)"
| "jb_apply (NextOp n s) jb = snd (getNextPacket n s jb)"
| "jb_apply (BySeqOp n s) jb = snd (getPacketBySequence n s jb)"
| "jb_apply ResetOp jb = jb_reset jb"

definition jb_run :: "jb_op list \<Rightarrow> jitter_buffer \<Rightarrow> jitter_buffer" where
  "jb_run ops jb = foldl (\<lambda>b op. jb_apply op b) jb ops"

lemma jb_fetch_wf:
  assumes "jb_wf jb"
  shows "jb_wf (snd (getNextPacket n s jb))" "jb_wf (snd (getPacketBySequence n s jb))"
    "jb_bufferSize (snd (getNextPacket n s jb)) = jb_bufferSize jb"
    "jb_bufferSize (snd (getPacketBySequence n s jb)) = jb_bufferSize jb"
proof -
  let ?st = "sl_state (jb_buffer jb ! getIndex jb s)"
  consider (empty) "?st \<noteq> READY" | (other) "?st = READY" "jb_stored jb s = None"
    | (hit) d t where "?st = READY" "jb_stored jb s = Some (d, t)"
    by (cases "jb_stored jb s") auto
  then have "jb_wf (snd (getNextPacket n s jb)) \<and> jb_wf (snd (getPacketBySequence n s jb)) \<and>
    jb_bufferSize (snd (getNextPacket n s jb)) = jb_bufferSize jb \<and>
    jb_bufferSize (snd (getPacketBySequence n s jb)) = jb_bufferSize jb"
  proof cases
    case empty
    then show ?thesis using assms by (simp add: fetch_cases)
  next
    case other
    then show ?thesis
      using jb_release_wf(1) [OF assms other(1)]
      by (simp add: fetch_cases jb_release_def jb_set_slot_def)
  next
    case hit
    have sz: "jb_bufferSize (jb_release i jb) = jb_bufferSize jb" for i
      by (simp add: jb_release_def jb_set_slot_def)
    show ?thesis
      using fetch_stored(1,2) [OF assms hit(2), of n] jb_release_wf [OF assms hit(1)] sz
      by (simp split: if_splits)
  qed
  then show "jb_wf (snd (getNextPacket n s jb))" "jb_wf (snd (getPacketBySequence n s jb))"
    "jb_bufferSize (snd (getNextPacket n s jb)) = jb_bufferSize jb"
    "jb_bufferSize (snd (getPacketBySequence n s jb)) = jb_bufferSize jb" by simp_all
qed

lemma jb_reset_wf:
  assumes "jb_wf jb"
  shows "jb_wf (jb_reset jb)" "jb_bufferSize (jb_reset jb) = jb_bufferSize jb"
proof -
  have "filter (\<lambda>sl. sl_state sl = READY) (map (\<lambda>sl. sl\<lparr>sl_state := EMPTY\<rparr>) xs) = []"
    for xs :: "slot list"
    by (simp add: filter_empty_conv)
  with assms show "jb_wf (jb_reset jb)" "jb_bufferSize (jb_reset jb) = jb_bufferSize jb"
    by (auto simp: jb_wf_def jb_reset_def ready_count_def slot_ok_def)
qed

lemma jb_add_wf:
  assumes "jb_wf jb"
  shows "jb_wf (snd (addPacket now d s t jb))"
    "jb_bufferSize (snd (addPacket now d s t jb)) = jb_bufferSize jb"
proof -
  have "jb_wf (snd (addPacket now d s t jb)) \<and>
    jb_bufferSize (snd (addPacket now d s t jb)) = jb_bufferSize jb"
  proof (cases "sl_state (jb_buffer jb ! getIndex jb s) = EMPTY")
    case True
    show ?thesis by (rule addPacket_stored [OF assms True, of now d t]) simp
  next
    case False
    have "jb_wf (jb\<lparr>jb_droppedPackets := x\<rparr>)" for x
      using assms by (simp add: jb_wf_def ready_count_def)
    then show ?thesis by (simp add: addPacket_refused [OF False])
  qed
  then show "jb_wf (snd (addPacket now d s t jb))"
    "jb_bufferSize (snd (addPacket now d s t jb)) = jb_bufferSize jb" by simp_all
qed

lemma jb_apply_wf:
  assumes "jb_wf jb"
  shows "jb_wf (jb_apply op jb)" "jb_bufferSize (jb_apply op jb) = jb_bufferSize jb"
  using assms by (cases op; simp add: jb_fetch_wf jb_reset_wf jb_add_wf)+

lemma jb_run_wf:
  "jb_wf jb \<Longrightarrow> jb_wf (jb_run ops jb) \<and> jb_bufferSize (jb_run ops jb) = jb_bufferSize jb"
  by (induction ops arbitrary: jb) (simp_all add: jb_run_def jb_apply_wf)

section \<open>Properties\<close>

text \<open>
  C7. Reordering in the receiver's buffer. Packets whose sequence numbers lie in one window
  of at most the buffer's size (counted with 32-bit wrap-around), added in any order of
  arrival to an empty buffer, are handed out by getNextPacket in the order of their numbers,
  byte for byte and with their presentation times; a number that never arrived is reported
  as missing and disturbs none of the others.
\<close>

theorem jb_reorders:
  assumes "jb_wf jb" "\<And>s. jb_stored jb s = None" "n \<le> jb_bufferSize jb"
    and "distinct (map fst ps)" "fst ` set ps \<subseteq> seq_window base n"
    and "\<forall>(s, d, t) \<in> set ps. length d \<le> 1500"
  shows "fst (jb_fetch_from n base (jb_add_all now ps jb)) =
    map (\<lambda>i. packet_map ps (base + of_nat i)) [0..<n]"
  using jb_reorder.reorder [OF assms] unfolding jb_add_all_eq jb_fetch_from_eq .

lemma jb_reorders_witness:
  "fst (jb_fetch_from 4 0xFFFFFFFE (jb_add_all 99
     [(1, [8], 40), (0xFFFFFFFE, [5, 6], 10), (0, [7], 30)] (jb_new 32))) =
   [Some ([5, 6], 10), None, Some ([7], 30), Some ([8], 40)]"
proof -
  let ?ps = "[(1, [8], 40), (0xFFFFFFFE, [5, 6], 10), (0, [7], 30)] :: packet list"
  obtain k where "5 \<le> k" "jb_bufferSize (jb_new 32) = 2 ^ k"
    using jb_wf_new [of 32] by (auto simp: jb_wf_def)
  then have "4 \<le> jb_bufferSize (jb_new 32)"
    using power_increasing [of 2 k "2::nat"] by simp
  moreover have "fst ` set ?ps \<subseteq> seq_window 0xFFFFFFFE 4"
    by (simp add: seq_window_def lessThan_nat_numeral lessThan_Suc)
  ultimately have "fst (jb_fetch_from 4 0xFFFFFFFE (jb_add_all 99 ?ps (jb_new 32))) =
      map (\<lambda>i. packet_map ?ps (0xFFFFFFFE + of_nat i)) [0..<4]"
    by (intro jb_reorders jb_wf_new jb_new_stored) simp_all
  also have "\<dots> = [Some ([5, 6], 10), None, Some ([7], 30), Some ([8], 40)]"
    by (simp add: packet_map_def upt_conv_Cons)
  finally show ?thesis .
qed

text \<open>
  C23. Whatever depth is asked for, the constructor allocates a power of two between 32 and
  4096 slots, at least the depth and less than twice it for depths in the supported range,
  and all of them are free; every later sequence of operations keeps the size, the slot
  invariant and the counter: getBufferedPacketCount is the number of stored packets, never
  more than the size.
\<close>

theorem jb_run_invariant:
  "jb_wf (jb_run ops (jb_new depth)) \<and>
   (\<exists>k. 5 \<le> k \<and> k \<le> 12 \<and> jb_bufferSize (jb_run ops (jb_new depth)) = 2 ^ k \<and>
      (32 \<le> depth \<and> depth \<le> 4096 \<longrightarrow> unat depth \<le> 2 ^ k \<and> 2 ^ k < 2 * unat depth)) \<and>
   unat (getBufferedPacketCount (jb_run ops (jb_new depth))) = ready_count (jb_run ops (jb_new depth)) \<and>
   ready_count (jb_run ops (jb_new depth)) \<le> jb_bufferSize (jb_run ops (jb_new depth))"
proof -
  let ?b = "jb_run ops (jb_new depth)"
  have wf: "jb_wf ?b" and sz: "jb_bufferSize ?b = jb_bufferSize (jb_new depth)"
    using jb_run_wf [OF jb_wf_new] by auto
  obtain k where k: "5 \<le> k" "k \<le> 12" "buffer_size_of depth = 2 ^ k"
    "32 \<le> depth \<longrightarrow> depth \<le> 4096 \<longrightarrow> unat depth \<le> 2 ^ k \<and> 2 ^ k < 2 * unat depth"
    using buffer_size_of_pow2 [of depth] by blast
  have "jb_bufferSize ?b = 2 ^ k" using k(2,3) sz by (simp add: jb_new_def Let_def unat_pow2)
  moreover have le: "ready_count ?b \<le> jb_bufferSize ?b" by (rule ready_count_le [OF wf])
  moreover have "unat (getBufferedPacketCount ?b) = ready_count ?b"
    using wf le jb_size_le [OF wf] by (simp add: getBufferedPacketCount_def jb_wf_def unat_of_nat)
  ultimately show ?thesis using wf k by auto
qed

lemma jb_run_invariant_witness:
  "\<exists>k \<le> 12. jb_bufferSize (jb_run [AddOp 0 [1, 2] 7 9, AddOp 0 [3] 7 9, NextOp 1500 7] (jb_new 300)) = 2 ^ k
     \<and> 300 \<le> (2::nat) ^ k \<and> (2::nat) ^ k < 600"
proof -
  have "(32::u64) \<le> 300 \<and> (300::u64) \<le> 4096" by simp
  with jb_run_invariant [of "[AddOp 0 [1, 2] 7 9, AddOp 0 [3] 7 9, NextOp 1500 7]" 300]
  obtain k where "k \<le> 12" "unat (300::u64) \<le> 2 ^ k" "2 ^ k < 2 * unat (300::u64)"
    "jb_bufferSize (jb_run [AddOp 0 [1, 2] 7 9, AddOp 0 [3] 7 9, NextOp 1500 7] (jb_new 300)) = 2 ^ k"
    by blast
  then show ?thesis by (intro exI [of _ k]) simp
qed

text \<open>
  addPacket on a well-formed buffer, on both of its branches: when the slot of the
  number is taken, by this or any other packet, the packet is refused, only the drop counter
  changes and nothing stored is lost; otherwise exactly this packet is added to what is
  stored (cut to 1500 bytes) and the two packet counters go up by one.
\<close>

theorem jb_add_refines:
  assumes "jb_wf jb"
  shows "if \<exists>s'. jb_stored jb s' \<noteq> None \<and> unat s' mod jb_bufferSize jb = unat s mod jb_bufferSize jb
    then addPacket now d s t jb = (False, jb\<lparr>jb_droppedPackets := jb_droppedPackets jb + 1\<rparr>)
    else \<exists>jb'. addPacket now d s t jb = (True, jb') \<and> jb_wf jb' \<and>
      jb_stored jb' = (jb_stored jb)(s \<mapsto> (take 1500 d, t)) \<and>
      jb_totalPackets jb' = jb_totalPackets jb + 1 \<and>
      jb_validPackets jb' = jb_validPackets jb + 1 \<and>
      jb_droppedPackets jb' = jb_droppedPackets jb"
proof (cases "sl_state (jb_buffer jb ! getIndex jb s) = EMPTY")
  case True
  have "jb_stored jb s' = None" if "unat s' mod jb_bufferSize jb = unat s mod jb_bufferSize jb" for s'
    using that True by (simp add: jb_stored_def Let_def getIndex_mod [OF assms])
  moreover have "\<exists>jb'. addPacket now d s t jb = (True, jb') \<and> jb_wf jb' \<and>
      jb_stored jb' = (jb_stored jb)(s \<mapsto> (take 1500 d, t)) \<and>
      jb_totalPackets jb' = jb_totalPackets jb + 1 \<and>
      jb_validPackets jb' = jb_validPackets jb + 1 \<and> jb_droppedPackets jb' = jb_droppedPackets jb"
    by (rule addPacket_stored [OF assms True, of now d t]) simp
  ultimately show ?thesis by auto
next
  case False
  have "\<exists>s'. jb_stored jb s' \<noteq> None \<and> unat s' mod jb_bufferSize jb = unat s mod jb_bufferSize jb"
    using jb_stored_empty [OF assms, of s] False by blast
  then show ?thesis using addPacket_refused [OF False] by simp
qed

lemma jb_add_refines_witness:
  "\<exists>jb'. addPacket 99 [1, 2, 3] 7 40 (jb_new 32) = (True, jb') \<and>
     jb_stored jb' = [7 \<mapsto> ([1, 2, 3], 40)]"
proof -
  have "jb_stored (jb_new 32) = Map.empty" by (simp add: fun_eq_iff jb_new_stored)
  with jb_add_refines [OF jb_wf_new [of 32], where s = 7 and now = 99 and d = "[1, 2, 3]" and t = 40]
  show ?thesis by auto
qed

text \<open>
  Fetching by number on a well-formed buffer, on every branch of both fetch operations:
  a stored packet that fits the caller's buffer is returned once and removed; one that does
  not fit is removed and not returned; asking for a number whose slot is free changes
  nothing; and asking for a number whose slot holds another packet returns nothing and
  destroys that packet. getNextPacket also records the number that follows a delivery.
\<close>

theorem jb_fetch_refines:
  assumes "jb_wf jb"
  shows "case jb_stored jb s of
      Some (d, t) \<Rightarrow>
        (\<exists>jb'. getPacketBySequence n s jb = (if length d \<le> n then Some (d, t) else None, jb') \<and>
           getNextPacket n s jb = (if length d \<le> n
             then (Some (d, t), jb'\<lparr>jb_expectedSequenceNumber := s + 1\<rparr>) else (None, jb')) \<and>
           jb_wf jb' \<and> jb_stored jb' = (jb_stored jb)(s := None) \<and>
           jb_validPackets jb' = jb_validPackets jb - 1)
    | None \<Rightarrow>
        if \<exists>s'. jb_stored jb s' \<noteq> None \<and> unat s' mod jb_bufferSize jb = unat s mod jb_bufferSize jb
        then \<exists>jb' s'. getPacketBySequence n s jb = (None, jb') \<and> getNextPacket n s jb = (None, jb') \<and>
           jb_wf jb' \<and> s' \<noteq> s \<and> jb_stored jb s' \<noteq> None \<and>
           jb_stored jb' = (jb_stored jb)(s' := None) \<and>
           jb_validPackets jb' = jb_validPackets jb - 1
        else getPacketBySequence n s jb = (None, jb) \<and> getNextPacket n s jb = (None, jb)"
proof -
  let ?sl = "jb_buffer jb ! getIndex jb s"
  have v: "jb_validPackets (jb_release i jb) = jb_validPackets jb - 1" for i
    by (simp add: jb_release_def)
  show ?thesis
  proof (cases "jb_stored jb s")
    case (Some p)
    obtain d t where p: "p = (d, t)" by (cases p)
    note f = fetch_stored [OF assms Some [unfolded p]]
    show ?thesis
      using f(1,2,4) jb_release_wf(1) [OF assms f(3)] jb_release_stored [OF assms f(3)] v Some p
      by auto
  next
    case None
    show ?thesis
    proof (cases "sl_state ?sl = READY")
      case True
      let ?s' = "sl_sequenceNumber ?sl"
      have q: "unat ?s' mod jb_bufferSize jb = unat s mod jb_bufferSize jb"
        using slot_ok_at [OF assms, of s] True getIndex_mod [OF assms] by (simp add: slot_ok_def)
      have s': "jb_stored jb ?s' \<noteq> None"
        using q True by (simp add: jb_stored_def Let_def getIndex_mod [OF assms])
      then have "?s' \<noteq> s" using None by metis
      then have "\<exists>jb' s'. getPacketBySequence n s jb = (None, jb') \<and> getNextPacket n s jb = (None, jb') \<and>
           jb_wf jb' \<and> s' \<noteq> s \<and> jb_stored jb s' \<noteq> None \<and>
           jb_stored jb' = (jb_stored jb)(s' := None) \<and> jb_validPackets jb' = jb_validPackets jb - 1"
        using fetch_cases(3,4) [OF True None] jb_release_wf(1) [OF assms True]
          jb_release_stored [OF assms True] v s' by blast
      moreover have "\<exists>s'. jb_stored jb s' \<noteq> None \<and> unat s' mod jb_bufferSize jb = unat s mod jb_bufferSize jb"
        using q s' by blast
      ultimately show ?thesis using None by simp
    next
      case False
      have "jb_stored jb s' = None" if "unat s' mod jb_bufferSize jb = unat s mod jb_bufferSize jb" for s'
        using that False by (simp add: jb_stored_def Let_def getIndex_mod [OF assms])
      with fetch_cases(1,2) [OF False] None show ?thesis by auto
    qed
  qed
qed

lemma jb_fetch_refines_witness:
  "\<exists>jb'. addPacket 99 [1, 2, 3] 39 40 (jb_new 32) = (True, jb') \<and>
     fst (getNextPacket 1500 39 jb') = Some ([1, 2, 3], 40) \<and>
     fst (getNextPacket 2 39 jb') = None"
proof -
  have e: "sl_state (jb_buffer (jb_new 32) ! getIndex (jb_new 32) 39) = EMPTY"
    by (rule jb_stored_empty [OF jb_wf_new]) (simp add: jb_new_stored)
  obtain jb' where b: "addPacket 99 [1, 2, 3] 39 40 (jb_new 32) = (True, jb')" "jb_wf jb'"
      "jb_stored jb' = (jb_stored (jb_new 32))(39 \<mapsto> (take 1500 [1, 2, 3], 40))"
    by (rule addPacket_stored [OF jb_wf_new e, of 99 "[1, 2, 3]" 40]) (rule that; assumption)
  then have s: "jb_stored jb' 39 = Some ([1, 2, 3], 40)" by simp
  show ?thesis
    using jb_fetch_refines [OF b(2), of 39 1500] jb_fetch_refines [OF b(2), of 39 2] b(1) s by auto
qed

end
