(* ===== verification/Circular_Jitter_Buffer.thy ===== *)
theory Circular_Jitter_Buffer
  imports Prelude
begin

text \<open>
  \<open>NetworkEngine/RTP/CircularJitterBuffer.h/.cpp\<close>: the earlier jitter buffer, a fixed array
  of 256 slots each behind a spin lock. An operation holds the lock of its slot from before
  its first access to after its last, so it is one step here; the lock words themselves carry
  no data. A new packet replaces whatever its slot holds, unlike in Jitter_Buffer.
\<close>

section \<open>State and operations\<close>

record cslot =
  cs_data :: "u8 list"
  cs_length :: nat
  cs_sequenceNumber :: u32
  cs_presentationTime :: u64
  cs_arrivalTime :: u64
  cs_valid :: bool

record circular_buffer =
  cb_buffer :: "cslot list"
  cb_expectedSequenceNumber :: u32
  cb_totalPackets :: u64
  cb_droppedPackets :: u64
  cb_validPackets :: u64

definition BUFFER_SIZE :: nat where "BUFFER_SIZE = 256"

definition cb_getIndex :: "u32 \<Rightarrow> nat" where
  "cb_getIndex sequenceNumber = unat (sequenceNumber mod of_nat BUFFER_SIZE)"

definition cb_new :: circular_buffer where
  "cb_new = \<lparr>cb_buffer = replicate BUFFER_SIZE \<lparr>cs_data = replicate 1500 0, cs_length = 0,
       cs_sequenceNumber = 0, cs_presentationTime = 0, cs_arrivalTime = 0, cs_valid = False\<rparr>,
     cb_expectedSequenceNumber = 0, cb_totalPackets = 0, cb_droppedPackets = 0,
     cb_validPackets = 0\<rparr>"

definition cb_addPacket :: "u64 \<Rightarrow> u8 list \<Rightarrow> u32 \<Rightarrow> u64 \<Rightarrow> circular_buffer \<Rightarrow> bool \<times> circular_buffer" where
  "cb_addPacket now packetData sequenceNumber presentationTime cb =
     (let index = cb_getIndex sequenceNumber;
          sl = cb_buffer cb ! index;
          copySize = min (length packetData) (length (cs_data sl));
          sl' = sl\<lparr>cs_data := memcpy_at (cs_data sl) 0 (take copySize packetData),
                   cs_length := copySize,
                   cs_sequenceNumber := sequenceNumber,
                   cs_presentationTime := presentationTime,
                   cs_arrivalTime := now,
                   cs_valid := True\<rparr>
      in (True, cb\<lparr>cb_buffer := (cb_buffer cb)[index := sl'],
                   cb_totalPackets := cb_totalPackets cb + 1,
                   cb_validPackets := cb_validPackets cb + 1\<rparr>))"

definition cb_invalidate :: "nat \<Rightarrow> circular_buffer \<Rightarrow> circular_buffer" where
  "cb_invalidate i cb = cb\<lparr>cb_buffer := (cb_buffer cb)[i := (cb_buffer cb ! i)\<lparr>cs_valid := False\<rparr>]\<rparr>"

definition cb_getNextPacket ::
    "nat \<Rightarrow> u32 \<Rightarrow> circular_buffer \<Rightarrow> (u8 list \<times> u64) option \<times> circular_buffer" where
  "cb_getNextPacket bufferSize expectedSequenceNumber cb =
     (let index = cb_getIndex expectedSequenceNumber;
          sl = cb_buffer cb ! index
      in if cs_valid sl \<and> cs_sequenceNumber sl = expectedSequenceNumber
         then if cs_length sl \<le> bufferSize
              then (Some (take (cs_length sl) (cs_data sl), cs_presentationTime sl),
                    (cb_invalidate index cb)
                      \<lparr>cb_expectedSequenceNumber := expectedSequenceNumber + 1,
                       cb_validPackets := cb_validPackets cb - 1\<rparr>)
              else (None, cb_invalidate index cb)
         else (None, cb))"

definition cb_getPacketBySequence ::
    "nat \<Rightarrow> u32 \<Rightarrow> circular_buffer \<Rightarrow> (u8 list \<times> u64) option \<times> circular_buffer" where
  "cb_getPacketBySequence bufferSize sequenceNumber cb =
     (let index = cb_getIndex sequenceNumber;
          sl = cb_buffer cb ! index
      in if cs_valid sl \<and> cs_sequenceNumber sl = sequenceNumber
         then if cs_length sl \<le> bufferSize
              then (Some (take (cs_length sl) (cs_data sl), cs_presentationTime sl),
                    (cb_invalidate index cb)\<lparr>cb_validPackets := cb_validPackets cb - 1\<rparr>)
              else (None, cb_invalidate index cb)
         else (None, cb))"

definition cb_getBufferedPacketCount :: "circular_buffer \<Rightarrow> u64" where
  "cb_getBufferedPacketCount cb = cb_validPackets cb"

definition cb_reset :: "circular_buffer \<Rightarrow> circular_buffer" where
  "cb_reset cb = cb\<lparr>cb_buffer := map (\<lambda>sl. sl\<lparr>cs_valid := False\<rparr>) (cb_buffer cb),
     cb_totalPackets := 0, cb_droppedPackets := 0, cb_validPackets := 0,
     cb_expectedSequenceNumber := 0\<rparr>"

section \<open>Invariant and abstract view\<close>

definition cslot_ok :: "nat \<Rightarrow> cslot \<Rightarrow> bool" where
  "cslot_ok i sl \<longleftrightarrow> length (cs_data sl) = 1500 \<and> cs_length sl \<le> 1500 \<and>
     (cs_valid sl \<longrightarrow> cb_getIndex (cs_sequenceNumber sl) = i)"

definition cb_wf :: "circular_buffer \<Rightarrow> bool" where
  "cb_wf cb \<longleftrightarrow> length (cb_buffer cb) = BUFFER_SIZE \<and>
     (\<forall>i < BUFFER_SIZE. cslot_ok i (cb_buffer cb ! i))"

definition cb_stored :: "circular_buffer \<Rightarrow> u32 \<Rightarrow> (u8 list \<times> u64) option" where
  "cb_stored cb s =
     (let sl = cb_buffer cb ! cb_getIndex s
      in if cs_valid sl \<and> cs_sequenceNumber sl = s
         then Some (take (cs_length sl) (cs_data sl), cs_presentationTime sl) else None)"

lemma cb_getIndex_mod: "cb_getIndex s = unat s mod 256"
  by (simp add: cb_getIndex_def BUFFER_SIZE_def unat_mod)

lemma cb_getIndex_less [simp]: "cb_getIndex s < BUFFER_SIZE"
  by (simp add: cb_getIndex_mod BUFFER_SIZE_def)

lemma cslot_ok_at: "cb_wf cb \<Longrightarrow> cslot_ok (cb_getIndex s) (cb_buffer cb ! cb_getIndex s)"
  by (simp add: cb_wf_def)

lemma cb_wf_update:
  assumes "cb_wf cb" "cslot_ok (cb_getIndex s) sl"
    and "cb_buffer cb' = (cb_buffer cb)[cb_getIndex s := sl]"
  shows "cb_wf cb'"
  using assms by (auto simp: cb_wf_def nth_list_update)

lemma cb_stored_update:
  assumes "cb_wf cb" "cb_buffer cb' = (cb_buffer cb)[cb_getIndex s := sl]"
  shows "cb_stored cb' s' = (if cb_getIndex s' = cb_getIndex s
    then if cs_valid sl \<and> cs_sequenceNumber sl = s'
      then Some (take (cs_length sl) (cs_data sl), cs_presentationTime sl) else None
    else cb_stored cb s')"
proof -
  have "cb_getIndex s < length (cb_buffer cb)" using assms(1) by (simp add: cb_wf_def)
  with assms(2) show ?thesis by (simp add: cb_stored_def Let_def)
qed

lemma cb_wf_new: "cb_wf cb_new"
  by (simp add: cb_wf_def cb_new_def cslot_ok_def)

lemma cb_new_stored: "cb_stored cb_new s = None"
  by (simp add: cb_stored_def cb_new_def Let_def)

text \<open>Adding replaces whatever the slot held by exactly this packet.\<close>

lemma cb_addPacket_stored:
  assumes "cb_wf cb"
  obtains cb' where "cb_addPacket now d s t cb = (True, cb')" "cb_wf cb'"
    "cb_stored cb' = (\<lambda>s'. if cb_getIndex s' = cb_getIndex s
       then if s' = s then Some (take 1500 d, t) else None else cb_stored cb s')"
    "cb_validPackets cb' = cb_validPackets cb + 1"
proof -
  let ?sl = "cb_buffer cb ! cb_getIndex s"
  note sok = cslot_ok_at [OF assms, of s]
  define sl where "sl = ?sl\<lparr>cs_data := memcpy_at (cs_data ?sl) 0 (take (min (length d) 1500) d),
    cs_length := min (length d) 1500, cs_sequenceNumber := s, cs_presentationTime := t,
    cs_arrivalTime := now, cs_valid := True\<rparr>"
  define cb' where "cb' = cb\<lparr>cb_buffer := (cb_buffer cb)[cb_getIndex s := sl],
    cb_totalPackets := cb_totalPackets cb + 1, cb_validPackets := cb_validPackets cb + 1\<rparr>"
  have upd: "cb_buffer cb' = (cb_buffer cb)[cb_getIndex s := sl]" by (simp add: cb'_def)
  have "cb_addPacket now d s t cb = (True, cb')"
    using sok by (simp add: cb_addPacket_def Let_def cb'_def sl_def cslot_ok_def)
  moreover have "cb_wf cb'"
    by (rule cb_wf_update [OF assms _ upd]) (use sok in \<open>simp add: cslot_ok_def sl_def\<close>)
  moreover have "take (cs_length sl) (cs_data sl) = take 1500 d"
    using sok by (simp add: sl_def memcpy_at_def cslot_ok_def min_def)
  then have "cb_stored cb' s' = (if cb_getIndex s' = cb_getIndex s
       then if s' = s then Some (take 1500 d, t) else None else cb_stored cb s')" for s'
    using cb_stored_update [OF assms upd, of s'] by (simp add: sl_def)
  then have "cb_stored cb' = (\<lambda>s'. if cb_getIndex s' = cb_getIndex s
       then if s' = s then Some (take 1500 d, t) else None else cb_stored cb s')" ..
  moreover have "cb_validPackets cb' = cb_validPackets cb + 1" by (simp add: cb'_def)
  ultimately show thesis by (rule that)
qed

lemma cb_invalidate_wf:
  assumes "cb_wf cb" "cb_buffer cb' = cb_buffer (cb_invalidate (cb_getIndex s) cb)"
  shows "cb_wf cb'"
proof (rule cb_wf_update [OF assms(1)])
  show "cslot_ok (cb_getIndex s) ((cb_buffer cb ! cb_getIndex s)\<lparr>cs_valid := False\<rparr>)"
    using cslot_ok_at [OF assms(1), of s] by (simp add: cslot_ok_def)
  show "cb_buffer cb' = (cb_buffer cb)[cb_getIndex s := (cb_buffer cb ! cb_getIndex s)\<lparr>cs_valid := False\<rparr>]"
    using assms(2) by (simp add: cb_invalidate_def)
qed

lemma cb_invalidate_stored:
  assumes "cb_wf cb" "cs_valid (cb_buffer cb ! cb_getIndex s)"
    and "cs_sequenceNumber (cb_buffer cb ! cb_getIndex s) = s"
    and "cb_buffer cb' = cb_buffer (cb_invalidate (cb_getIndex s) cb)"
  shows "cb_stored cb' = (cb_stored cb)(s := None)"
proof
  fix s'
  have "cb_buffer cb' = (cb_buffer cb)[cb_getIndex s := (cb_buffer cb ! cb_getIndex s)\<lparr>cs_valid := False\<rparr>]"
    using assms(4) by (simp add: cb_invalidate_def)
  from cb_stored_update [OF assms(1) this, of s']
  have u: "cb_stored cb' s' = (if cb_getIndex s' = cb_getIndex s then None else cb_stored cb s')"
    by simp
  have "cb_stored cb s' = None" if "cb_getIndex s' = cb_getIndex s" "s' \<noteq> s"
    unfolding cb_stored_def that(1) Let_def using assms(3) that(2) by simp
  with u show "cb_stored cb' s' = ((cb_stored cb)(s := None)) s'" by auto
qed

lemma cb_stored_SomeD:
  assumes "cb_wf cb" "cb_stored cb s = Some (d, t)"
  shows "cs_valid (cb_buffer cb ! cb_getIndex s)"
    "cs_sequenceNumber (cb_buffer cb ! cb_getIndex s) = s"
    "cs_length (cb_buffer cb ! cb_getIndex s) = length d"
    "take (length d) (cs_data (cb_buffer cb ! cb_getIndex s)) = d"
    "cs_presentationTime (cb_buffer cb ! cb_getIndex s) = t"
  using assms cslot_ok_at [OF assms(1), of s]
  by (auto simp: cb_stored_def Let_def cslot_ok_def min_def split: if_splits)

lemma cb_stored_NoneD:
  "cb_stored cb s = None \<Longrightarrow> \<not> (cs_valid (cb_buffer cb ! cb_getIndex s) \<and>
     cs_sequenceNumber (cb_buffer cb ! cb_getIndex s) = s)"
  by (auto simp: cb_stored_def Let_def split: if_splits)

lemma cb_fetch_miss:
  assumes "cb_stored cb s = None"
  shows "cb_getNextPacket n s cb = (None, cb)" "cb_getPacketBySequence n s cb = (None, cb)"
  unfolding cb_getNextPacket_def cb_getPacketBySequence_def Let_def
  by (rule if_not_P [OF cb_stored_NoneD [OF assms]])+

section \<open>The buffer implements the reordering interface\<close>

interpretation cb_reorder: reorder_buffer cb_wf cb_stored "\<lambda>_. BUFFER_SIZE"
  "\<lambda>(s, d, t). cb_addPacket now d s t" "cb_getNextPacket 1500" for now
proof (unfold_locales, goal_cases)
  case (1 b)
  then show ?case by (simp add: BUFFER_SIZE_def)
next
  case (2 b d s t)
  obtain b' where b': "cb_addPacket now d s t b = (True, b')" "cb_wf b'"
    "cb_stored b' = (\<lambda>s'. if cb_getIndex s' = cb_getIndex s
       then if s' = s then Some (take 1500 d, t) else None else cb_stored b s')"
    by (rule cb_addPacket_stored [OF 2(1)])
  have "cb_stored b s' = None" if "cb_getIndex s' = cb_getIndex s" for s'
    using 2(3) [of s'] that by (cases "cb_stored b s'") (simp_all add: cb_getIndex_mod BUFFER_SIZE_def)
  then have "cb_stored b' = (cb_stored b)(s \<mapsto> (d, t))"
    using b'(3) 2(2) by (auto simp: fun_eq_iff)
  with b'(1,2) show ?case by auto
next
  case (3 b s d t)
  note f = cb_stored_SomeD [OF 3(1,2)]
  show ?case
    using f 3(3) cb_invalidate_wf [OF 3(1)] cb_invalidate_stored [OF 3(1) f(1,2)]
    by (simp add: cb_getNextPacket_def Let_def)
next
  case (4 b s)
  have "cb_stored b s = None" using 4(2) [of s] by (cases "cb_stored b s") simp_all
  then show ?case by (rule cb_fetch_miss(1))
qed

fun cb_add_all :: "u64 \<Rightarrow> packet list \<Rightarrow> circular_buffer \<Rightarrow> circular_buffer" where
  "cb_add_all now [] cb = cb"
| "cb_add_all now ((s, d, t) # ps) cb = cb_add_all now ps (snd (cb_addPacket now d s t cb))"

fun cb_fetch_from :: "nat \<Rightarrow> u32 \<Rightarrow> circular_buffer \<Rightarrow> (u8 list \<times> u64) option list \<times> circular_buffer" where
  "cb_fetch_from 0 s cb = ([], cb)"
| "cb_fetch_from (Suc n) s cb =
     (let (r, cb1) = cb_getNextPacket 1500 s cb; (rs, cb2) = cb_fetch_from n (s + 1) cb1
      in (r # rs, cb2))"

lemma cb_add_all_eq: "cb_reorder.add_all now ps cb = cb_add_all now ps cb"
  by (induction now ps cb rule: cb_add_all.induct) simp_all

lemma cb_fetch_from_eq: "cb_reorder.fetch_from n s cb = cb_fetch_from n s cb"
  by (induction n s cb rule: cb_fetch_from.induct) (simp_all split: prod.splits)

section \<open>The packet counter\<close>

definition valid_count :: "circular_buffer \<Rightarrow> nat" where
  "valid_count cb = length (filter cs_valid (cb_buffer cb))"

lemma valid_count_update:
  assumes "cb_wf cb" "cb_buffer cb' = (cb_buffer cb)[cb_getIndex s := sl]"
  shows "valid_count cb' + (if cs_valid (cb_buffer cb ! cb_getIndex s) then 1 else 0) =
    valid_count cb + (if cs_valid sl then 1 else 0)"
  using length_filter_update [of "cb_getIndex s" "cb_buffer cb" cs_valid sl] assms
  by (simp add: valid_count_def cb_wf_def)

lemma cb_add_counts:
  assumes "cb_wf cb"
  shows "let cb' = snd (cb_addPacket now d s t cb) in
      cb_getBufferedPacketCount cb' = cb_getBufferedPacketCount cb + 1 \<and>
      valid_count cb' = (if cs_valid (cb_buffer cb ! cb_getIndex s)
        then valid_count cb else valid_count cb + 1)"
proof -
  define cb1 where "cb1 = snd (cb_addPacket now d s t cb)"
  have "\<exists>sl. cs_valid sl \<and> cb_buffer cb1 = (cb_buffer cb)[cb_getIndex s := sl]"
    unfolding cb1_def cb_addPacket_def Let_def by (intro exI conjI) (simp_all del: length_memcpy_at)
  then obtain sl where sl: "cs_valid sl" "cb_buffer cb1 = (cb_buffer cb)[cb_getIndex s := sl]"
    by blast
  have c1: "cb_validPackets cb1 = cb_validPackets cb + 1"
    by (simp add: cb1_def cb_addPacket_def Let_def)
  show ?thesis
    using valid_count_update [OF assms sl(2)] sl(1) c1
    unfolding cb1_def [symmetric] by (simp add: cb_getBufferedPacketCount_def Let_def split: if_splits)
qed

lemma cb_fetch_counts:
  assumes "cb_wf cb"
  shows "let (r, cb') = cb_getNextPacket n s cb in
      valid_count cb' = (if cb_stored cb s = None then valid_count cb else valid_count cb - 1) \<and>
      cb_getBufferedPacketCount cb' = (if r = None then cb_getBufferedPacketCount cb
        else cb_getBufferedPacketCount cb - 1)"
proof (cases "cb_stored cb s")
  case None
  with cb_fetch_miss(1) [OF None, of n] show ?thesis by simp
next
  case (Some p)
  let ?i = "cb_getIndex s"
  obtain d' t' where "cb_stored cb s = Some (d', t')" using Some by (cases p) auto
  note f = cb_stored_SomeD [OF assms this]
  have "valid_count cb' = valid_count cb - 1" if "cb_buffer cb' = cb_buffer (cb_invalidate ?i cb)" for cb'
    using valid_count_update [OF assms, of cb' s "(cb_buffer cb ! ?i)\<lparr>cs_valid := False\<rparr>"] that f(1)
    by (simp add: cb_invalidate_def)
  moreover have "cb_validPackets (cb_invalidate ?i cb) = cb_validPackets cb"
    by (simp add: cb_invalidate_def)
  ultimately show ?thesis
    using f Some by (simp add: cb_getNextPacket_def Let_def cb_getBufferedPacketCount_def)
qed

section \<open>Properties\<close>

text \<open>
  The spin-locked buffer implements the same reordering interface as the lock-free one:
  packets of one window of at most 256 numbers, added in any order to an empty buffer, are
  handed out in sequence order and a missing number is reported as missing.
\<close>

theorem cb_reorders:
  assumes "cb_wf cb" "\<And>s. cb_stored cb s = None" "n \<le> BUFFER_SIZE"
    and "distinct (map fst ps)" "fst ` set ps \<subseteq> seq_window base n"
    and "\<forall>(s, d, t) \<in> set ps. length d \<le> 1500"
  shows "fst (cb_fetch_from n base (cb_add_all now ps cb)) =
    map (\<lambda>i. packet_map ps (base + of_nat i)) [0..<n]"
  using cb_reorder.reorder [OF assms] unfolding cb_add_all_eq cb_fetch_from_eq .

lemma cb_reorders_witness:
  "fst (cb_fetch_from 3 7 (cb_add_all 99 [(9, [8], 40), (7, [5, 6], 10)] cb_new)) =
   [Some ([5, 6], 10), None, Some ([8], 40)]"
proof -
  let ?ps = "[(9, [8], 40), (7, [5, 6], 10)] :: packet list"
  have "fst ` set ?ps \<subseteq> seq_window 7 3"
    by (simp add: seq_window_def lessThan_nat_numeral lessThan_Suc)
  then have "fst (cb_fetch_from 3 7 (cb_add_all 99 ?ps cb_new)) =
      map (\<lambda>i. packet_map ?ps (7 + of_nat i)) [0..<3]"
    by (intro cb_reorders cb_wf_new cb_new_stored) (simp_all add: BUFFER_SIZE_def)
  then show ?thesis by (simp add: packet_map_def upt_conv_Cons)
qed

text \<open>
  The packet counter of the spin-locked buffer does not count packets: replacing a packet
  that is still stored adds one to the counter although the number of stored packets stays
  the same, and discarding a packet that is too large for the caller removes one packet
  without touching the counter. Elsewhere counter and number of stored packets move together.
\<close>

theorem cb_counter_drift:
  assumes "cb_wf cb"
  shows "(let cb' = snd (cb_addPacket now d s t cb) in
      cb_getBufferedPacketCount cb' = cb_getBufferedPacketCount cb + 1 \<and>
      valid_count cb' = (if cs_valid (cb_buffer cb ! cb_getIndex s)
        then valid_count cb else valid_count cb + 1)) \<and>
    (let (r, cb') = cb_getNextPacket n s cb in
      valid_count cb' = (if cb_stored cb s = None then valid_count cb else valid_count cb - 1) \<and>
      cb_getBufferedPacketCount cb' = (if r = None then cb_getBufferedPacketCount cb
        else cb_getBufferedPacketCount cb - 1))"
  using cb_add_counts [OF assms] cb_fetch_counts [OF assms] by blast

lemma cb_counter_drift_witness:
  "let cb1 = snd (cb_addPacket 0 [1] 5 9 cb_new); cb2 = snd (cb_addPacket 0 [2] 261 9 cb_new)
   in cb_getBufferedPacketCount cb1 = 1 \<and> valid_count cb1 = 1 \<and> valid_count cb2 = 1"
proof -
  have "valid_count cb_new = 0" by (simp add: valid_count_def cb_new_def filter_empty_conv)
  moreover have "cb_getBufferedPacketCount cb_new = 0"
    by (simp add: cb_getBufferedPacketCount_def cb_new_def)
  moreover have "\<not> cs_valid (cb_buffer cb_new ! cb_getIndex s)" for s
    by (simp add: cb_new_def)
  ultimately show ?thesis
    using cb_counter_drift [OF cb_wf_new, of 0 "[1]" 5 9]
      cb_counter_drift [OF cb_wf_new, of 0 "[2]" 261 9] by (simp add: Let_def)
qed

end
