(* ===== verification/Packet_Pool.thy ===== *)
theory Packet_Pool
  imports Prelude
begin

text \<open>
  \<open>NetworkEngine/RTP/LockFreePacketPool.h/.cpp\<close>: a fixed block of packets with a free list
  kept as a stack of nodes behind a tagged head. Node \<open>i\<close> belongs to packet \<open>i\<close>
  (\<open>nodePool_[i].index = i\<close> from construction on), so a node pointer is an index and
  \<open>nullptr\<close> is None. Operations run to their end here: the compare-and-swap loop of each
  then succeeds in its first round. Pool_Concurrent has the same operations interleaved.
\<close>

section \<open>State and operations\<close>

record pooled_packet =
  pk_data :: "u8 list"
  pk_length :: nat
  pk_sequenceNumber :: u32
  pk_presentationTime :: u64
  pk_arrivalTime :: u64

record pool =
  pl_memory :: "pooled_packet list"
  pl_totalCount :: nat
  pl_head :: "nat option"
  pl_tag :: u64
  pl_availableCount :: u64
  pl_inUse :: "bool list"
  pl_next :: "nat option list"

definition MAX_PACKET_SIZE :: nat where "MAX_PACKET_SIZE = 2048"

definition new_packet :: pooled_packet where
  "new_packet = \<lparr>pk_data = replicate MAX_PACKET_SIZE 0, pk_length = 0, pk_sequenceNumber = 0,
     pk_presentationTime = 0, pk_arrivalTime = 0\<rparr>"

definition pool_push :: "nat \<Rightarrow> pool \<Rightarrow> pool" where
  "pool_push i pl = pl\<lparr>pl_next := (pl_next pl)[i := pl_head pl], pl_head := Some i,
     pl_tag := pl_tag pl + 1\<rparr>"

definition pool_new :: "nat \<Rightarrow> pool" where
  "pool_new poolSize =
     (let pl = \<lparr>pl_memory = replicate poolSize new_packet, pl_totalCount = poolSize,
                pl_head = None, pl_tag = 0, pl_availableCount = 0,
                pl_inUse = replicate poolSize False, pl_next = replicate poolSize None\<rparr>
      in (foldl (\<lambda>pl i. pool_push i pl) pl [0..<poolSize])
           \<lparr>pl_availableCount := of_nat poolSize\<rparr>)"

definition pool_acquire :: "pool \<Rightarrow> nat option \<times> pool" where
  "pool_acquire pl =
     (case pl_head pl of
        None \<Rightarrow> (None, pl)
      | Some i \<Rightarrow> (Some i, pl\<lparr>pl_head := pl_next pl ! i, pl_tag := pl_tag pl + 1,
          pl_inUse := (pl_inUse pl)[i := True],
          pl_availableCount := pl_availableCount pl - 1\<rparr>))"

definition pool_release :: "nat option \<Rightarrow> pool \<Rightarrow> pool" where
  "pool_release packet pl =
     (case packet of
        None \<Rightarrow> pl
      | Some index \<Rightarrow>
          if index \<ge> pl_totalCount pl then pl
          else if \<not> pl_inUse pl ! index then pl
          else
            let pl1 = pl\<lparr>pl_inUse := (pl_inUse pl)[index := False],
                  pl_memory := (pl_memory pl)[index := (pl_memory pl ! index)
                    \<lparr>pk_length := 0, pk_sequenceNumber := 0, pk_presentationTime := 0,
                     pk_arrivalTime := 0\<rparr>]\<rparr>;
                pl2 = pool_push index pl1
            in pl2\<lparr>pl_availableCount := pl_availableCount pl2 + 1\<rparr>)"

definition pool_getAvailableCount :: "pool \<Rightarrow> u64" where
  "pool_getAvailableCount pl = pl_availableCount pl"

definition pool_getTotalCount :: "pool \<Rightarrow> nat" where
  "pool_getTotalCount pl = pl_totalCount pl"

section \<open>The free list\<close>

fun chain :: "nat option list \<Rightarrow> nat option \<Rightarrow> nat list \<Rightarrow> bool" where
  "chain nx h [] \<longleftrightarrow> h = None"
| "chain nx h (i # is) \<longleftrightarrow> h = Some i \<and> chain nx (nx ! i) is"

lemma chain_update: "i \<notin> set is \<Longrightarrow> chain (nx[i := x]) h is = chain nx h is"
  by (induction nx h "is" rule: chain.induct) simp_all

text \<open>
  \<open>pool_ok free pl\<close>: \<open>free\<close> is the free list, each packet is in it or in use and never both,
  and the counter is its length.
\<close>

definition pool_ok :: "nat list \<Rightarrow> pool \<Rightarrow> bool" where
  "pool_ok free pl \<longleftrightarrow> chain (pl_next pl) (pl_head pl) free \<and> distinct free \<and>
     length (pl_next pl) = pl_totalCount pl \<and> length (pl_inUse pl) = pl_totalCount pl \<and>
     length (pl_memory pl) = pl_totalCount pl \<and>
     set free = {i. i < pl_totalCount pl \<and> \<not> pl_inUse pl ! i} \<and>
     pl_availableCount pl = of_nat (length free)"

definition pool_wf :: "pool \<Rightarrow> bool" where
  "pool_wf pl \<longleftrightarrow> (\<exists>free. pool_ok free pl)"

definition in_use :: "pool \<Rightarrow> nat set" where
  "in_use pl = {i. i < pl_totalCount pl \<and> pl_inUse pl ! i}"

lemma chain_push:
  assumes "chain (pl_next pl) (pl_head pl) free" "i \<notin> set free" "i < length (pl_next pl)"
  shows "chain (pl_next (pool_push i pl)) (pl_head (pool_push i pl)) (i # free)"
  using assms by (simp add: pool_push_def chain_update)

lemma pool_push_fields [simp]:
  "pl_memory (pool_push i pl) = pl_memory pl" "pl_totalCount (pool_push i pl) = pl_totalCount pl"
  "pl_inUse (pool_push i pl) = pl_inUse pl" "length (pl_next (pool_push i pl)) = length (pl_next pl)"
  "pl_availableCount (pool_push i pl) = pl_availableCount pl"
  by (simp_all add: pool_push_def)

lemma pool_build:
  assumes "length (pl_next pl) = n" "k \<le> n" "pl_head pl = None"
  shows "let pl' = foldl (\<lambda>pl i. pool_push i pl) pl [0..<k] in
    chain (pl_next pl') (pl_head pl') (rev [0..<k]) \<and> length (pl_next pl') = n \<and>
    pl_memory pl' = pl_memory pl \<and> pl_totalCount pl' = pl_totalCount pl \<and>
    pl_inUse pl' = pl_inUse pl"
  using assms
proof (induction k)
  case 0
  then show ?case by simp
next
  case (Suc k)
  then show ?case using chain_push [of _ "rev [0..<k]" k] by (simp add: Let_def)
qed

lemma pool_ok_new: "pool_ok (rev [0..<n]) (pool_new n)"
proof -
  let ?pl = "\<lparr>pl_memory = replicate n new_packet, pl_totalCount = n, pl_head = None, pl_tag = 0,
    pl_availableCount = 0, pl_inUse = replicate n False, pl_next = replicate n None\<rparr> :: pool"
  show ?thesis
    using pool_build [of ?pl n n] by (auto simp: pool_ok_def pool_new_def Let_def)
qed

lemma pool_new_wf: "pool_wf (pool_new n)"
  unfolding pool_wf_def by (rule exI) (rule pool_ok_new)

lemma pool_new_total: "pl_totalCount (pool_new n) = n"
  using pool_build [of "\<lparr>pl_memory = replicate n new_packet, pl_totalCount = n, pl_head = None,
    pl_tag = 0, pl_availableCount = 0, pl_inUse = replicate n False, pl_next = replicate n None\<rparr>" n n]
  by (simp add: pool_new_def Let_def)

lemma pool_new_in_use: "in_use (pool_new n) = {}"
proof -
  have "set (rev [0..<n]) = {i. i < pl_totalCount (pool_new n) \<and> \<not> pl_inUse (pool_new n) ! i}"
    using pool_ok_new [of n] unfolding pool_ok_def by (elim conjE)
  then have "{..<n} = {i. i < n \<and> \<not> pl_inUse (pool_new n) ! i}"
    unfolding pool_new_total by (simp add: lessThan_atLeast0)
  then have "\<not> pl_inUse (pool_new n) ! i" if "i < n" for i using that by blast
  then show ?thesis unfolding in_use_def pool_new_total by blast
qed

lemma pool_ok_acquire:
  assumes "pool_ok free pl"
  shows "case free of
      [] \<Rightarrow> pool_acquire pl = (None, pl)
    | i # rest \<Rightarrow> fst (pool_acquire pl) = Some i \<and> i < pl_totalCount pl \<and> i \<notin> in_use pl \<and>
        pool_ok rest (snd (pool_acquire pl)) \<and>
        in_use (snd (pool_acquire pl)) = insert i (in_use pl) \<and>
        pl_totalCount (snd (pool_acquire pl)) = pl_totalCount pl"
proof (cases free)
  case Nil
  with assms show ?thesis by (simp add: pool_ok_def pool_acquire_def)
next
  case (Cons i rest)
  define pl' where "pl' = pl\<lparr>pl_head := pl_next pl ! i, pl_tag := pl_tag pl + 1,
    pl_inUse := (pl_inUse pl)[i := True], pl_availableCount := pl_availableCount pl - 1\<rparr>"
  have h: "pl_head pl = Some i" and c: "chain (pl_next pl) (pl_next pl ! i) rest"
    and d: "distinct rest" "i \<notin> set rest"
    and av: "pl_availableCount pl = of_nat (length rest) + 1"
    using assms Cons by (simp_all add: pool_ok_def)
  have s: "insert i (set rest) = {j. j < pl_totalCount pl \<and> \<not> pl_inUse pl ! j}"
    and l: "length (pl_inUse pl) = pl_totalCount pl" "length (pl_next pl) = pl_totalCount pl"
      "length (pl_memory pl) = pl_totalCount pl"
    using assms Cons by (simp_all add: pool_ok_def)
  have a: "pool_acquire pl = (Some i, pl')" using h by (simp add: pool_acquire_def pl'_def)
  have i: "i < pl_totalCount pl" "\<not> pl_inUse pl ! i" using s by auto
  have r: "set rest = {j. j < pl_totalCount pl \<and> \<not> (pl_inUse pl)[i := True] ! j}"
  proof (rule set_eqI)
    fix j
    have "j \<in> insert i (set rest) \<longleftrightarrow> j < pl_totalCount pl \<and> \<not> pl_inUse pl ! j" unfolding s by simp
    then show "j \<in> set rest \<longleftrightarrow> j \<in> {j. j < pl_totalCount pl \<and> \<not> (pl_inUse pl)[i := True] ! j}"
      using d(2) i l(1) by (cases "j = i") simp_all
  qed
  have u: "in_use pl' = insert i (in_use pl)"
    using i l(1) by (auto simp: in_use_def pl'_def nth_list_update)
  have "pool_ok rest pl'"
    unfolding pool_ok_def using c d r l av by (simp add: pl'_def)
  moreover have "pl_totalCount pl' = pl_totalCount pl" by (simp add: pl'_def)
  moreover have "i \<notin> in_use pl" using i by (simp add: in_use_def)
  ultimately show ?thesis using Cons i(1) u by (simp add: a)
qed

lemma pool_ok_release:
  assumes "pool_ok free pl" "i \<in> in_use pl"
  shows "pool_ok (i # free) (pool_release (Some i) pl)"
    "in_use (pool_release (Some i) pl) = in_use pl - {i}"
    "pl_totalCount (pool_release (Some i) pl) = pl_totalCount pl"
    "pk_length (pl_memory (pool_release (Some i) pl) ! i) = 0"
proof -
  define pl1 where "pl1 = pl\<lparr>pl_inUse := (pl_inUse pl)[i := False],
    pl_memory := (pl_memory pl)[i := (pl_memory pl ! i)\<lparr>pk_length := 0, pk_sequenceNumber := 0,
      pk_presentationTime := 0, pk_arrivalTime := 0\<rparr>]\<rparr>"
  have i: "i < pl_totalCount pl" "pl_inUse pl ! i" using assms(2) by (auto simp: in_use_def)
  have r: "pool_release (Some i) pl =
      (pool_push i pl1)\<lparr>pl_availableCount := pl_availableCount (pool_push i pl1) + 1\<rparr>"
    using i by (simp add: pool_release_def pl1_def Let_def)
  have l: "length (pl_inUse pl) = pl_totalCount pl" "length (pl_next pl) = pl_totalCount pl"
    "length (pl_memory pl) = pl_totalCount pl"
    using assms(1) by (simp_all add: pool_ok_def)
  have nf: "i \<notin> set free" using assms(1) i by (auto simp: pool_ok_def)
  have ch: "chain (pl_next (pool_push i pl1)) (pl_head (pool_push i pl1)) (i # free)"
    by (rule chain_push) (use assms(1) nf i l in \<open>simp_all add: pl1_def pool_ok_def\<close>)
  have "set (i # free) = {j. j < pl_totalCount pl \<and> \<not> (pl_inUse pl)[i := False] ! j}"
    using assms(1) i l by (auto simp: pool_ok_def nth_list_update)
  then show "pool_ok (i # free) (pool_release (Some i) pl)"
    using assms(1) ch nf l unfolding r by (simp add: pool_ok_def pl1_def add.commute)
  show "in_use (pool_release (Some i) pl) = in_use pl - {i}"
    unfolding r using i l by (auto simp: in_use_def pl1_def nth_list_update)
  show "pl_totalCount (pool_release (Some i) pl) = pl_totalCount pl"
    unfolding r by (simp add: pl1_def)
  show "pk_length (pl_memory (pool_release (Some i) pl) ! i) = 0"
    unfolding r using i l by (simp add: pl1_def)
qed

lemma pool_release_noop:
  assumes "case packet of None \<Rightarrow> True | Some i \<Rightarrow> i \<notin> in_use pl"
  shows "pool_release packet pl = pl"
  using assms by (auto simp: pool_release_def in_use_def split: option.splits)

section \<open>Runs\<close>

datatype pool_op = AcquireOp | ReleaseOp "nat option"

fun pool_run :: "pool_op list \<Rightarrow> pool \<Rightarrow> nat option list \<times> pool" where
  "pool_run [] pl = ([], pl)"
| "pool_run (AcquireOp # ops) pl =
     (let (r, pl1) = pool_acquire pl; (rs, pl2) = pool_run ops pl1 in (r # rs, pl2))"
| "pool_run (ReleaseOp p # ops) pl = pool_run ops (pool_release p pl)"

lemma pool_wf_acquire:
  assumes "pool_wf pl"
  shows "pool_wf (snd (pool_acquire pl)) \<and> pl_totalCount (snd (pool_acquire pl)) = pl_totalCount pl"
proof -
  obtain free where f: "pool_ok free pl" using assms by (auto simp: pool_wf_def)
  with pool_ok_acquire [OF f] show ?thesis by (cases free) (auto simp: pool_wf_def)
qed

lemma pool_wf_release:
  assumes "pool_wf pl"
  shows "pool_wf (pool_release p pl) \<and> pl_totalCount (pool_release p pl) = pl_totalCount pl"
proof -
  obtain free where f: "pool_ok free pl" using assms by (auto simp: pool_wf_def)
  show ?thesis
  proof (cases "case p of None \<Rightarrow> True | Some i \<Rightarrow> i \<notin> in_use pl")
    case True
    with pool_release_noop [OF True] assms show ?thesis by simp
  next
    case False
    then obtain i where "p = Some i" "i \<in> in_use pl" by (auto split: option.splits)
    with pool_ok_release [OF f] show ?thesis by (auto simp: pool_wf_def)
  qed
qed

lemma pool_run_wf:
  "pool_wf pl \<Longrightarrow> pool_wf (snd (pool_run ops pl)) \<and>
     pl_totalCount (snd (pool_run ops pl)) = pl_totalCount pl"
proof (induction ops pl rule: pool_run.induct)
  case (1 pl)
  then show ?case by simp
next
  case (2 ops pl)
  obtain r pl1 where a: "pool_acquire pl = (r, pl1)" by fastforce
  with pool_wf_acquire [OF "2.prems"] "2.IH" [OF a [symmetric] refl] show ?case
    by (simp add: case_prod_beta Let_def)
next
  case (3 p ops pl)
  with pool_wf_release [OF "3.prems", of p] show ?case by simp
qed

section \<open>Properties\<close>

text \<open>
  Whatever sequence of acquisitions and releases is made, double releases, null pointers
  and pointers outside the pool included: every packet is either in use or on the free list,
  the free list is intact and without duplicates, and getAvailableCount is the number of
  packets that are not in use. Nothing leaks and nothing is handed out twice.
\<close>

theorem pool_run_conserves:
  "\<exists>free. pool_ok free (snd (pool_run ops (pool_new n))) \<and>
     set free \<union> in_use (snd (pool_run ops (pool_new n))) = {..<n} \<and>
     set free \<inter> in_use (snd (pool_run ops (pool_new n))) = {} \<and>
     pool_getAvailableCount (snd (pool_run ops (pool_new n))) =
       of_nat (n - card (in_use (snd (pool_run ops (pool_new n)))))"
proof -
  let ?pl = "snd (pool_run ops (pool_new n))"
  have wf: "pool_wf ?pl" and tot: "pl_totalCount ?pl = n"
    using pool_run_wf [OF pool_new_wf [of n], of ops] by (simp_all add: pool_new_total)
  obtain free where f: "pool_ok free ?pl" using wf by (auto simp: pool_wf_def)
  have u: "set free \<union> in_use ?pl = {..<n}" and i: "set free \<inter> in_use ?pl = {}"
    using f tot by (auto simp: pool_ok_def in_use_def)
  have fin: "finite (in_use ?pl)" by (simp add: in_use_def)
  have "length free + card (in_use ?pl) = n"
    using card_Un_disjoint [OF _ fin i] distinct_card [of free] f u by (simp add: pool_ok_def)
  then have "length free = n - card (in_use ?pl)" by simp
  then have "pool_getAvailableCount ?pl = of_nat (n - card (in_use ?pl))"
    using f by (simp add: pool_ok_def pool_getAvailableCount_def)
  with f u i show ?thesis by blast
qed

text \<open>
  acquire returns null exactly when every packet is in use, changing nothing; otherwise it
  returns a packet of the pool that was not in use, and exactly this packet becomes in use.
\<close>

theorem pool_acquire_fresh:
  assumes "pool_wf pl" "pool_acquire pl = (r, pl')"
  shows "case r of
      None \<Rightarrow> in_use pl = {..<pl_totalCount pl} \<and> pl' = pl
    | Some i \<Rightarrow> i < pl_totalCount pl \<and> i \<notin> in_use pl \<and> in_use pl' = insert i (in_use pl) \<and>
        pool_wf pl'"
proof -
  obtain free where f: "pool_ok free pl" using assms(1) by (auto simp: pool_wf_def)
  show ?thesis
  proof (cases free)
    case Nil
    have "in_use pl = {..<pl_totalCount pl}" using f Nil by (auto simp: pool_ok_def in_use_def)
    with pool_ok_acquire [OF f] Nil assms(2) show ?thesis by simp
  next
    case (Cons i rest)
    with pool_ok_acquire [OF f] assms(2) show ?thesis by (auto simp: pool_wf_def)
  qed
qed

lemma pool_acquire_fresh_witness:
  "fst (pool_acquire (pool_new 3)) = Some 2 \<and> in_use (snd (pool_acquire (pool_new 3))) = {2}"
proof -
  note wf = pool_new_wf [of 3]
  have "rev [0..<3] = [2, 1, 0]" by code_simp
  then have f: "fst (pool_acquire (pool_new 3)) = Some 2"
    using pool_ok_acquire [OF pool_ok_new [of 3]] by simp
  then have a: "pool_acquire (pool_new 3) = (Some 2, snd (pool_acquire (pool_new 3)))"
    by (metis prod.collapse)
  with pool_acquire_fresh [OF wf a] f show ?thesis by (simp add: pool_new_in_use)
qed

text \<open>
  Releasing a packet that is in use returns it to the pool with its length cleared, and it
  is the next one acquire hands out; releasing anything else (null, outside the pool, or a
  packet already free) changes nothing at all.
\<close>

theorem pool_release_effect:
  assumes "pool_wf pl"
  shows "case packet of None \<Rightarrow> pool_release packet pl = pl
    | Some i \<Rightarrow> if i \<in> in_use pl
        then in_use (pool_release packet pl) = in_use pl - {i} \<and>
          pk_length (pl_memory (pool_release packet pl) ! i) = 0 \<and>
          fst (pool_acquire (pool_release packet pl)) = Some i
        else pool_release packet pl = pl"
proof -
  obtain free where f: "pool_ok free pl" using assms by (auto simp: pool_wf_def)
  show ?thesis
  proof (cases packet)
    case None
    then show ?thesis by (simp add: pool_release_def)
  next
    case (Some i)
    show ?thesis
    proof (cases "i \<in> in_use pl")
      case True
      note r = pool_ok_release [OF f True]
      show ?thesis using r(2,4) pool_ok_acquire [OF r(1)] Some True by simp
    next
      case False
      with pool_release_noop [where packet = packet and pl = pl] Some show ?thesis by simp
    qed
  qed
qed

lemma pool_release_effect_witness:
  "pool_release (Some 1) (pool_new 2) = pool_new 2"
proof -
  note wf = pool_new_wf [of 2]
  from pool_release_effect [OF wf, of "Some 1"] show ?thesis by (simp add: pool_new_in_use)
qed

end
