(* ===== verification/Pool_Concurrent.thy ===== *)
theory Pool_Concurrent
  imports Packet_Pool "HOL-Library.Multiset"
begin

text \<open>
  \<open>acquire\<close> and \<open>release\<close> of \<open>NetworkEngine/RTP/LockFreePacketPool.cpp\<close> as the steps between which other threads can run: one
  for each load, store and compare-and-swap of shared memory. Any number of threads call both. Steps are sequentially
  consistent; an exchange may fail spuriously.
\<close>

section \<open>Steps\<close>

text \<open>
  Where a thread is. In acquire: it has loaded head and tag, read the successor, taken the node, set its flag. In release: it has
  cleared the flag, reset the packet, loaded head and tag, stored the successor, pushed the node.
\<close>

datatype pool_pc = T_Idle | T_Loaded "nat option" u64 | T_Next nat u64 "nat option" | T_Won nat | T_Marked
  | T_Cleared nat | T_Reset nat | T_Seen nat "nat option" u64 | T_Linked nat "nat option" u64 | T_Pushed

inductive thread_step :: "pool \<Rightarrow> pool_pc \<Rightarrow> pool \<Rightarrow> pool_pc \<Rightarrow> bool" where
  t_load: "thread_step p T_Idle p (T_Loaded (pl_head p) (pl_tag p))"
| t_empty: "thread_step p (T_Loaded None t) p T_Idle"
| t_next: "thread_step p (T_Loaded (Some n) t) p (T_Next n t (pl_next p ! n))"
| t_take: "pl_head p = Some n \<Longrightarrow> pl_tag p = t \<Longrightarrow>
    thread_step p (T_Next n t h) (p\<lparr>pl_head := h, pl_tag := t + 1\<rparr>) (T_Won n)"
| t_retry: "thread_step p (T_Next n t h) p (T_Loaded (pl_head p) (pl_tag p))"
| t_mark: "thread_step p (T_Won n) (p\<lparr>pl_inUse := (pl_inUse p)[n := True]\<rparr>) T_Marked"
| t_sub: "thread_step p T_Marked (p\<lparr>pl_availableCount := pl_availableCount p - 1\<rparr>) T_Idle"
| t_clear: "i < pl_totalCount p \<Longrightarrow> pl_inUse p ! i \<Longrightarrow>
    thread_step p T_Idle (p\<lparr>pl_inUse := (pl_inUse p)[i := False]\<rparr>) (T_Cleared i)"
| t_reset: "thread_step p (T_Cleared i)
    (p\<lparr>pl_memory := (pl_memory p)[i := (pl_memory p ! i)
      \<lparr>pk_length := 0, pk_sequenceNumber := 0, pk_presentationTime := 0, pk_arrivalTime := 0\<rparr>]\<rparr>) (T_Reset i)"
| t_see: "thread_step p (T_Reset i) p (T_Seen i (pl_head p) (pl_tag p))"
| t_link: "thread_step p (T_Seen i h t) (p\<lparr>pl_next := (pl_next p)[i := h]\<rparr>) (T_Linked i h t)"
| t_push: "pl_head p = h \<Longrightarrow> pl_tag p = t \<Longrightarrow>
    thread_step p (T_Linked i h t) (p\<lparr>pl_head := Some i, pl_tag := t + 1\<rparr>) T_Pushed"
| t_again: "thread_step p (T_Linked i h t) p (T_Seen i (pl_head p) (pl_tag p))"
| t_add: "thread_step p T_Pushed (p\<lparr>pl_availableCount := pl_availableCount p + 1\<rparr>) T_Idle"

text \<open>The threads, and how often the head has changed, which the code does not store.\<close>

record pool_threads =
  pt_pool :: pool
  pt_threads :: "pool_pc list"
  pt_changes :: nat

inductive threads_step :: "pool_threads \<Rightarrow> pool_threads \<Rightarrow> bool" where
  threads_step: "thread_step (pt_pool s) (pt_threads s ! k) p pc \<Longrightarrow> k < length (pt_threads s) \<Longrightarrow>
    threads_step s \<lparr>pt_pool = p, pt_threads = (pt_threads s)[k := pc],
      pt_changes = pt_changes s + (if pl_tag p = pl_tag (pt_pool s) then 0 else 1)\<rparr>"

definition threads_start :: "pool_threads \<Rightarrow> bool" where
  "threads_start s \<longleftrightarrow> (\<exists>n m. s = \<lparr>pt_pool = pool_new n, pt_threads = replicate m T_Idle, pt_changes = n\<rparr>)"

inductive_cases threads_stepE: "threads_step s t"

section \<open>An operation that no other thread interrupts\<close>

text \<open>The functions of Packet_Pool are these steps run one after the other.\<close>

abbreviation alone :: "pool \<times> pool_pc \<Rightarrow> pool \<times> pool_pc \<Rightarrow> bool" where
  "alone \<equiv> (\<lambda>(p, pc) (q, qc). thread_step p pc q qc)\<^sup>*\<^sup>*"

lemma alone_step: "thread_step p pc q qc \<Longrightarrow> alone (q, qc) r \<Longrightarrow> alone (p, pc) r"
  by (rule converse_rtranclp_into_rtranclp [of _ "(p, pc)" "(q, qc)"]) simp_all

lemma acquire_alone: "alone (p, T_Idle) (snd (pool_acquire p), T_Idle)"
proof (cases "pl_head p")
  case None
  show ?thesis
    by (rule alone_step, rule t_load) (use None in \<open>auto simp: pool_acquire_def intro: alone_step t_empty\<close>)
next
  case (Some n)
  show ?thesis
    by (rule alone_step, rule t_load, unfold Some, rule alone_step, rule t_next,
        rule alone_step, rule t_take [OF Some refl], rule alone_step, rule t_mark, rule alone_step, rule t_sub)
       (simp add: pool_acquire_def Some)
qed

lemma release_alone:
  assumes "i < pl_totalCount p" "pl_inUse p ! i"
  shows "alone (p, T_Idle) (pool_release (Some i) p, T_Idle)"
  by (rule alone_step, rule t_clear, rule assms(1), rule assms(2), rule alone_step, rule t_reset, rule alone_step, rule t_see,
      rule alone_step, rule t_link, rule alone_step, rule t_push, simp, simp, rule alone_step, rule t_add)
     (use assms in \<open>simp add: pool_release_def pool_push_def\<close>)

section \<open>The invariant\<close>

text \<open>
  The packet only this thread has, as a multiset; what the thread still has to subtract from the counter; what it has read
  of the head while the tag is the one it read.
\<close>

fun own :: "pool_pc \<Rightarrow> nat multiset" where
  "own (T_Won n) = {#n#}" | "own (T_Cleared i) = {#i#}" | "own (T_Reset i) = {#i#}" | "own (T_Seen i h t) = {#i#}"
| "own (T_Linked i h t) = {#i#}" | "own _ = {#}"

fun due :: "pool_pc \<Rightarrow> u64" where
  "due (T_Won n) = 1" | "due T_Marked = 1" | "due (T_Cleared i) = 0" | "due T_Pushed = - 1" | "due _ = 0"

fun read_ok :: "pool \<Rightarrow> pool_pc \<Rightarrow> bool" where
  "read_ok p (T_Loaded h t) \<longleftrightarrow> unat t \<le> unat (pl_tag p) \<and> (t = pl_tag p \<longrightarrow> pl_head p = h)"
| "read_ok p (T_Next n t h) \<longleftrightarrow> unat t \<le> unat (pl_tag p) \<and> (t = pl_tag p \<longrightarrow> pl_head p = Some n \<and> pl_next p ! n = h)"
| "read_ok p (T_Linked i h t) \<longleftrightarrow> pl_next p ! i = h"
| "read_ok p _ \<longleftrightarrow> True"

definition unused :: "pool \<Rightarrow> nat multiset" where
  "unused p = mset_set {i. i < pl_totalCount p \<and> \<not> pl_inUse p ! i}"

definition shared_ok :: "nat list \<Rightarrow> pool \<Rightarrow> pool_pc list \<Rightarrow> bool" where
  "shared_ok free p pcs \<longleftrightarrow> chain (pl_next p) (pl_head p) free \<and>
     length (pl_next p) = pl_totalCount p \<and> length (pl_inUse p) = pl_totalCount p \<and>
     length (pl_memory p) = pl_totalCount p \<and>
     mset free + (\<Sum>pc\<leftarrow>pcs. own pc) = unused p \<and>
     pl_availableCount p = of_nat (length free) + (\<Sum>pc\<leftarrow>pcs. due pc) \<and>
     (\<forall>pc \<in> set pcs. read_ok p pc)"

definition threads_inv :: "pool_threads \<Rightarrow> bool" where
  "threads_inv s \<longleftrightarrow> pt_changes s < 2 ^ 64 \<longrightarrow>
     unat (pl_tag (pt_pool s)) = pt_changes s \<and> (\<exists>free. shared_ok free (pt_pool s) (pt_threads s))"

lemma sum_update:
  fixes f :: "'a \<Rightarrow> 'b::comm_monoid_add"
  shows "k < length xs \<Longrightarrow> (\<Sum>x\<leftarrow>xs[k := y]. f x) + f (xs ! k) = (\<Sum>x\<leftarrow>xs. f x) + f y"
  by (induction xs arbitrary: k) (auto simp: ac_simps split: nat.splits)

lemma own_sub: "k < length pcs \<Longrightarrow> own (pcs ! k) \<subseteq># (\<Sum>pc\<leftarrow>pcs. own pc)"
  using sum_update [of k pcs own T_Idle] by (simp add: mset_subset_eq_exists_conv add.commute) (metis add.commute)

lemma unused_count: "count (unused p) i = (if i < pl_totalCount p \<and> \<not> pl_inUse p ! i then 1 else 0)"
  by (simp add: unused_def)

lemma one_place: "(a :: nat) + (s + k) = (if u then 1 else 0) \<Longrightarrow> 1 \<le> k \<Longrightarrow> u \<and> a = 0 \<and> s = 0"
  by (cases u) auto

text \<open>A packet of one thread is not in use, not in the free list and of no other thread.\<close>

lemma own_apart:
  assumes "shared_ok free p pcs" "k < length pcs" "i \<in># own (pcs ! k)"
  shows "i < pl_totalCount p" "\<not> pl_inUse p ! i" "i \<notin> set free" "l < length pcs \<Longrightarrow> l \<noteq> k \<Longrightarrow> i \<notin># own (pcs ! l)"
proof -
  let ?S = "\<lambda>pcs. count (\<Sum>pc\<leftarrow>pcs. own pc) i"
  let ?u = "i < pl_totalCount p \<and> \<not> pl_inUse p ! i"
  have "count (mset free) i + (?S (pcs[k := T_Idle]) + count (own (pcs ! k)) i) = (if ?u then 1 else 0)"
    using assms(1) unused_count [of p i] sum_update [OF assms(2), of own T_Idle]
    by (metis add.right_neutral count_union own.simps(6) shared_ok_def)
  moreover have pos: "1 \<le> count (own (pcs ! k)) i" using assms(3) by (simp add: Suc_le_eq)
  ultimately have u: "?u \<and> count (mset free) i = 0 \<and> ?S (pcs[k := T_Idle]) = 0" by (rule one_place)
  then show "i < pl_totalCount p" "\<not> pl_inUse p ! i" "i \<notin> set free" by (simp_all add: count_mset_0_iff)
  assume "l < length pcs" "l \<noteq> k"
  then have "count (own (pcs ! l)) i \<le> ?S (pcs[k := T_Idle])"
    using mset_subset_eq_count [OF own_sub [of l "pcs[k := T_Idle]"], of i] by simp
  then show "i \<notin># own (pcs ! l)" using u by (simp add: not_in_iff)
qed

lemma free_distinct: "shared_ok free p pcs \<Longrightarrow> distinct free"
proof -
  assume "shared_ok free p pcs"
  then have s: "mset free \<subseteq># unused p" by (metis mset_subset_eq_add_left shared_ok_def)
  have "count (mset free) i \<le> 1" for i
    using order_trans [OF mset_subset_eq_count [OF s, of i]] by (simp add: unused_count del: count_mset_0_iff)
  then have "count (mset free) i = (if i \<in> set free then 1 else 0)" for i
    by (metis One_nat_def count_greater_zero_iff count_mset_0_iff le_antisym less_eq_Suc_le set_mset_mset)
  then show ?thesis by (simp add: distinct_count_atmost_1)
qed

section \<open>Every step keeps the invariant\<close>

lemma due_balance:
  fixes a :: "'a::ab_group_add"
  assumes "a' + F + d = a + F' + e" "a = F + D" "D' + d = D + e"
  shows "a' = F' + D'"
proof -
  have "a' + (F + d) = F' + (D + e) + F" using assms(1,2) by (simp add: ac_simps)
  also have "\<dots> = F' + D' + (F + d)" by (simp add: ac_simps flip: assms(3))
  finally show ?thesis by simp
qed

lemma shared_ok_update:
  assumes ok: "shared_ok free p pcs" and k: "k < length pcs"
    and "chain (pl_next p') (pl_head p') free'" "length (pl_next p') = pl_totalCount p'"
      "length (pl_inUse p') = pl_totalCount p'" "length (pl_memory p') = pl_totalCount p'"
    and bag: "mset free' + own pc + unused p = unused p' + mset free + own (pcs ! k)"
    and avail: "pl_availableCount p' + of_nat (length free) + due (pcs ! k) = pl_availableCount p + of_nat (length free') + due pc"
    and "read_ok p' pc" and others: "\<And>l. l < length pcs \<Longrightarrow> l \<noteq> k \<Longrightarrow> read_ok p' (pcs ! l)"
  shows "shared_ok free' p' (pcs[k := pc])"
proof -
  let ?S = "\<lambda>pcs. \<Sum>pc\<leftarrow>pcs. own pc" and ?D = "\<lambda>pcs. \<Sum>pc\<leftarrow>pcs. due pc"
  have b: "mset free + ?S pcs = unused p" and a: "pl_availableCount p = of_nat (length free) + ?D pcs"
    using ok by (simp_all add: shared_ok_def)
  have "mset free' + ?S (pcs[k := pc]) + (own (pcs ! k) + mset free) = mset free' + own pc + (mset free + ?S pcs)"
    using sum_update [OF k, of own pc] by (simp add: ac_simps)
  also have "\<dots> = unused p' + (own (pcs ! k) + mset free)" using bag b by (simp add: ac_simps)
  finally have "mset free' + ?S (pcs[k := pc]) = unused p'" by simp
  moreover have "pl_availableCount p' = of_nat (length free') + ?D (pcs[k := pc])"
    by (rule due_balance [OF avail a sum_update [OF k]])
  moreover have "\<forall>x \<in> set (pcs[k := pc]). read_ok p' x"
    using assms(9) others k by (auto simp: in_set_conv_nth nth_list_update)
  ultimately show ?thesis using assms(3-6) by (simp add: shared_ok_def)
qed

text \<open>What the other threads have read stays true: the tag tells them of every change of the head.\<close>

lemma read_ok_same: "read_ok p pc \<Longrightarrow> pl_tag p' = pl_tag p \<Longrightarrow> pl_head p' = pl_head p \<Longrightarrow> pl_next p' = pl_next p \<Longrightarrow> read_ok p' pc"
  by (cases pc) simp_all

lemma read_ok_tagged:
  assumes "read_ok p pc" "unat (pl_tag p') = Suc (unat (pl_tag p))" "pl_next p' = pl_next p"
  shows "read_ok p' pc"
proof -
  have "unat t \<le> unat (pl_tag p) \<Longrightarrow> t \<noteq> pl_tag p'" for t using assms(2) by auto
  then show ?thesis using assms by (cases pc) auto
qed

lemma read_ok_linked:
  "read_ok p pc \<Longrightarrow> pl_head p \<noteq> Some i \<Longrightarrow> i \<notin># own pc \<Longrightarrow> read_ok (p\<lparr>pl_next := (pl_next p)[i := h]\<rparr>) pc"
  by (cases pc) auto

lemma unused_marked:
  assumes "n < pl_totalCount p" "\<not> pl_inUse p ! n" "length (pl_inUse p) = pl_totalCount p"
  shows "unused p = unused (p\<lparr>pl_inUse := (pl_inUse p)[n := True]\<rparr>) + {#n#}"
  by (rule multiset_eqI) (use assms in \<open>auto simp: unused_count nth_list_update\<close>)

lemma unused_cleared:
  assumes "i < pl_totalCount p" "pl_inUse p ! i" "length (pl_inUse p) = pl_totalCount p"
  shows "unused (p\<lparr>pl_inUse := (pl_inUse p)[i := False]\<rparr>) = unused p + {#i#}"
  by (rule multiset_eqI) (use assms in \<open>auto simp: unused_count nth_list_update\<close>)

lemma unused_same: "pl_totalCount p' = pl_totalCount p \<Longrightarrow> pl_inUse p' = pl_inUse p \<Longrightarrow> unused p' = unused p"
  by (simp add: unused_def)

lemma shared_ok_read: "shared_ok free p pcs \<Longrightarrow> l < length pcs \<Longrightarrow> read_ok p (pcs ! l)"
  by (simp add: shared_ok_def)

text \<open>A step that leaves head, tag, links and flags alone.\<close>

lemma shared_ok_quiet:
  assumes "shared_ok free p pcs" "k < length pcs" "own pc = own (pcs ! k)" "read_ok p pc"
    "pl_tag p' = pl_tag p" "pl_head p' = pl_head p" "pl_next p' = pl_next p" "pl_inUse p' = pl_inUse p"
    "pl_totalCount p' = pl_totalCount p" "length (pl_memory p') = length (pl_memory p)"
    "pl_availableCount p' + due (pcs ! k) = pl_availableCount p + due pc"
  shows "shared_ok free p' (pcs[k := pc])"
  using assms(3-) read_ok_same [OF _ assms(5-7)] shared_ok_read [OF assms(1)]
  by (intro shared_ok_update [OF assms(1,2)])
     (use assms(1) in \<open>simp_all add: shared_ok_def unused_same [OF assms(9,8)] algebra_simps\<close>)

lemma next_tag: "unat t + 1 < 2 ^ 64 \<Longrightarrow> unat (t + 1 :: u64) = Suc (unat t)"
  by (simp add: unat_word_ariths)

lemma shared_ok_step:
  assumes step: "thread_step p (pcs ! k) p' pc" and k: "k < length pcs" and ok: "shared_ok free p pcs"
    and tag: "pl_tag p' \<noteq> pl_tag p \<Longrightarrow> unat (pl_tag p) + 1 < 2 ^ 64"
  shows "\<exists>free'. shared_ok free' p' (pcs[k := pc])"
proof -
  note quiet = shared_ok_quiet [OF ok k] and upd = shared_ok_update [OF ok k] and read = shared_ok_read [OF ok]
  have len: "length (pl_next p) = pl_totalCount p" "length (pl_inUse p) = pl_totalCount p" "length (pl_memory p) = pl_totalCount p"
    and ch: "chain (pl_next p) (pl_head p) free" using ok by (simp_all add: shared_ok_def)
  note apart = own_apart [OF ok k]
  from step show ?thesis
  proof (cases rule: thread_step.cases)
    case (t_next n t)
    then have "read_ok p pc" using read [OF k] by simp
    with t_next show ?thesis by (intro exI [of _ free] quiet) simp_all
  next
    case (t_take n t h)
    then have h: "h = pl_next p ! n" using read [OF k] by simp
    obtain rest where f: "free = n # rest" "chain (pl_next p) h rest" using ch t_take h by (cases free) auto
    have t: "unat (pl_tag p') = Suc (unat (pl_tag p))" using t_take tag next_tag by simp
    have "read_ok p' (pcs ! l)" if "l < length pcs" for l
      by (rule read_ok_tagged [OF read [OF that] t]) (simp add: t_take)
    then show ?thesis using t_take f len by (intro exI [of _ rest] upd) (simp_all add: unused_def)
  next
    case (t_mark n)
    then have n: "n < pl_totalCount p" "\<not> pl_inUse p ! n" using apart [of n] by simp_all
    have "read_ok p' (pcs ! l)" if "l < length pcs" for l
      by (rule read_ok_same [OF read [OF that]]) (simp_all add: t_mark)
    then show ?thesis using t_mark len ch unused_marked [OF n len(2)]
      by (intro exI [of _ free] upd) simp_all
  next
    case (t_clear i)
    have "read_ok p' (pcs ! l)" if "l < length pcs" for l
      by (rule read_ok_same [OF read [OF that]]) (simp_all add: t_clear)
    then show ?thesis using t_clear len ch unused_cleared [of i p]
      by (intro exI [of _ free] upd) simp_all
  next
    case (t_link i h t)
    then have i: "i < pl_totalCount p" "i \<notin> set free" using apart [of i] by simp_all
    then have "pl_head p \<noteq> Some i" using ch by (cases free) auto
    then have "read_ok p' (pcs ! l)" if "l < length pcs" "l \<noteq> k" for l
      using read_ok_linked [OF read [OF that(1)]] apart(4) [of i l] that t_link by simp
    then show ?thesis using t_link len ch i
      by (intro exI [of _ free] upd) (simp_all add: chain_update unused_def)
  next
    case (t_push h t i)
    then have i: "pl_next p ! i = h" using read [OF k] by simp
    have t: "unat (pl_tag p') = Suc (unat (pl_tag p))" using t_push tag next_tag by simp
    have "read_ok p' (pcs ! l)" if "l < length pcs" for l
      by (rule read_ok_tagged [OF read [OF that] t]) (simp add: t_push)
    then show ?thesis using t_push len ch i by (intro exI [of _ "i # free"] upd) (simp_all add: unused_def)
  qed (intro exI [of _ free] quiet; simp)+
qed

lemma threads_inv_step:
  assumes "threads_inv s" "threads_step s t"
  shows "threads_inv t"
proof -
  from assms(2) obtain k p pc where st: "thread_step (pt_pool s) (pt_threads s ! k) p pc" "k < length (pt_threads s)"
    and t: "t = \<lparr>pt_pool = p, pt_threads = (pt_threads s)[k := pc],
      pt_changes = pt_changes s + (if pl_tag p = pl_tag (pt_pool s) then 0 else 1)\<rparr>" by (cases rule: threads_stepE)
  show ?thesis
    unfolding threads_inv_def
  proof
    let ?q = "pt_pool s"
    assume less: "pt_changes t < 2 ^ 64"
    then have "pt_changes s < 2 ^ 64" by (auto simp: t split: if_splits)
    with assms(1) obtain free where tag: "unat (pl_tag ?q) = pt_changes s" and ok: "shared_ok free ?q (pt_threads s)"
      by (auto simp: threads_inv_def)
    have small: "pl_tag p \<noteq> pl_tag ?q \<Longrightarrow> unat (pl_tag ?q) + 1 < 2 ^ 64" using less tag by (simp add: t)
    moreover have "pl_tag p = pl_tag ?q \<or> pl_tag p = pl_tag ?q + 1" using st(1) by (cases rule: thread_step.cases) simp_all
    then have "unat (pl_tag p) = pt_changes t" using tag next_tag small by (auto simp: t)
    ultimately show "unat (pl_tag (pt_pool t)) = pt_changes t \<and> (\<exists>free. shared_ok free (pt_pool t) (pt_threads t))"
      using shared_ok_step [OF st ok] by (simp add: t)
  qed
qed

lemma pool_new_tag: "pl_tag (pool_new n) = of_nat n"
proof -
  have "pl_tag (foldl (\<lambda>pl i. pool_push i pl) pl xs) = pl_tag pl + of_nat (length xs)" for pl xs
    by (induction xs arbitrary: pl) (simp_all add: pool_push_def)
  then show ?thesis by (simp add: pool_new_def Let_def)
qed

lemma threads_inv_start: "threads_start s \<Longrightarrow> threads_inv s"
proof -
  assume "threads_start s"
  then obtain n m where s: "s = \<lparr>pt_pool = pool_new n, pt_threads = replicate m T_Idle, pt_changes = n\<rparr>"
    by (auto simp: threads_start_def)
  have ok: "pool_ok (rev [0..<n]) (pool_new n)" by (rule pool_ok_new)
  then have "mset (rev [0..<n]) = unused (pool_new n)"
    unfolding unused_def pool_ok_def by (metis mset_set_set)
  moreover have "(\<Sum>pc\<leftarrow>replicate m T_Idle. own pc) = {#}" "(\<Sum>pc\<leftarrow>replicate m T_Idle. due pc) = 0"
    by (induction m) simp_all
  ultimately have "shared_ok (rev [0..<n]) (pool_new n) (replicate m T_Idle)"
    using ok by (auto simp: shared_ok_def pool_ok_def)
  then show ?thesis by (auto simp: threads_inv_def s pool_new_tag unat_of_nat)
qed

interpretation pool_conc: invariant_system threads_start threads_step threads_inv
  by unfold_locales (rule threads_inv_start threads_inv_step; assumption)+

section \<open>What clients see\<close>

lemma idle_pool_ok:
  assumes "shared_ok free p pcs" "set pcs \<subseteq> {T_Idle}"
  shows "pool_ok free p"
proof -
  have "(\<Sum>pc\<leftarrow>pcs. own pc) = {#}" "(\<Sum>pc\<leftarrow>pcs. due pc) = 0" using assms(2) by (induction pcs) auto
  then have "mset free = unused p" "pl_availableCount p = of_nat (length free)" using assms(1) by (simp_all add: shared_ok_def)
  moreover from this(1) have "set free = {i. i < pl_totalCount p \<and> \<not> pl_inUse p ! i}"
    by (simp add: unused_def flip: set_mset_mset)
  ultimately show ?thesis using assms(1) free_distinct [OF assms(1)] by (simp add: pool_ok_def shared_ok_def)
qed

text \<open>
  C22. Whatever number of threads acquire and release, in any interleaving and with any pointer released at any time, as long as the
  head has changed fewer than \<open>2 ^ 64\<close> times: the packet that acquire takes is in the block, not in use, not in the free list
  and taken by no other thread; and whenever no operation is under way each packet is either free or in use and the counter is exact.
\<close>

theorem pool_threads_conserve:
  assumes "reach threads_start threads_step s" "pt_changes s < 2 ^ 64"
  shows "\<exists>free. chain (pl_next (pt_pool s)) (pl_head (pt_pool s)) free \<and> distinct free \<and>
    (\<forall>k i. k < length (pt_threads s) \<longrightarrow> pt_threads s ! k = T_Won i \<longrightarrow>
       i < pl_totalCount (pt_pool s) \<and> \<not> pl_inUse (pt_pool s) ! i \<and> i \<notin> set free \<and>
       (\<forall>l < length (pt_threads s). l \<noteq> k \<longrightarrow> pt_threads s ! l \<noteq> T_Won i)) \<and>
    (set (pt_threads s) \<subseteq> {T_Idle} \<longrightarrow> pool_ok free (pt_pool s))"
proof -
  have "threads_inv s" using assms(1) by (rule pool_conc.reach_inv)
  then obtain free where ok: "shared_ok free (pt_pool s) (pt_threads s)" using assms(2) by (auto simp: threads_inv_def)
  have "i < pl_totalCount (pt_pool s) \<and> \<not> pl_inUse (pt_pool s) ! i \<and> i \<notin> set free \<and>
      (\<forall>l < length (pt_threads s). l \<noteq> k \<longrightarrow> pt_threads s ! l \<noteq> T_Won i)"
    if k: "k < length (pt_threads s)" "pt_threads s ! k = T_Won i" for k i
    using own_apart [OF ok k(1), of i] k by fastforce
  then show ?thesis using ok free_distinct [OF ok] idle_pool_ok [OF ok] by (intro exI [of _ free]) (auto simp: shared_ok_def)
qed

lemma pool_threads_conserve_witness:
  "\<exists>p free. thread_step p (T_Next 1 2 (Some 0)) (p\<lparr>pl_head := Some 0, pl_tag := 3\<rparr>) (T_Won 1) \<and>
     chain (pl_next p) (Some 0) free \<and> 1 \<notin> set free \<and> \<not> pl_inUse p ! 1"
proof -
  let ?p = "pool_new 2"
  let ?q = "?p\<lparr>pl_head := Some 0, pl_tag := 3\<rparr>"
  let ?s = "\<lambda>pc. \<lparr>pt_pool = ?p, pt_threads = [pc, T_Idle], pt_changes = 2\<rparr>"
  have new: "pl_head ?p = Some 1" "pl_tag ?p = 2" "pl_next ?p ! 1 = Some 0" "pl_next ?p ! Suc 0 = Some 0"
    by (simp_all add: pool_new_def pool_push_def upt_rec numeral_2_eq_2 Let_def)
  have "reach threads_start threads_step (?s T_Idle)"
    by (rule reach_start) (auto simp: threads_start_def numeral_2_eq_2 intro!: exI [of _ 2])
  from reach_step [OF this threads_step [of "?s T_Idle" 0 ?p "T_Loaded (Some 1) 2"]] t_load [of ?p]
  have "reach threads_start threads_step (?s (T_Loaded (Some 1) 2))" by (simp add: new)
  from reach_step [OF this threads_step [of _ 0 ?p "T_Next 1 2 (Some 0)"]] t_next [of ?p 1 2]
  have r: "reach threads_start threads_step (?s (T_Next 1 2 (Some 0)))" by (simp add: new)
  have take: "thread_step ?p (T_Next 1 2 (Some 0)) ?q (T_Won 1)" using t_take [of ?p 1 2 "Some 0"] by (simp add: new)
  from reach_step [OF r threads_step [of _ 0 ?q "T_Won 1"]] take
  have "reach threads_start threads_step \<lparr>pt_pool = ?q, pt_threads = [T_Won 1, T_Idle], pt_changes = 3\<rparr>"
    by (simp add: new)
  from pool_threads_conserve [OF this] take show ?thesis by fastforce
qed

end
