(* ===== verification/Packet_Pool_Variants.thy ===== *)
theory Packet_Pool_Variants
  imports Packet_Pool
begin

text \<open>
  The two packet pools that the receiver does not use. \<open>NetworkEngine/RTP/RTPPacketPool.h/.cpp\<close> keeps free packets on
  a \<open>std::stack\<close> under a mutex, so each operation is one function. \<open>NetworkEngine/RTP/SimplifiedLockFreePacketPool.h/.cpp\<close>
  is the free list of Packet_Pool without the tag: its operations are steps, one for each access to shared memory, and any
  number of threads acquire while one releases. A pointer into the block of packets is the index of the packet, \<open>nullptr\<close> is
  None. \<open>nodeInUse_\<close> is never read and is left out.
\<close>

section \<open>The pool under a mutex\<close>

record locked_packet = pooled_packet + lp_inUse :: bool

record locked_pool =
  lp_available :: "nat list"
  lp_memory :: "locked_packet list"
  lp_totalCount :: nat

definition lp_packet :: locked_packet where
  "lp_packet = pooled_packet.extend new_packet \<lparr>lp_inUse = False\<rparr>"

definition lp_new :: "nat \<Rightarrow> locked_pool" where
  "lp_new poolSize =
     \<lparr>lp_available = foldl (\<lambda>stack i. i # stack) [] [0..<poolSize],
      lp_memory = replicate poolSize lp_packet, lp_totalCount = poolSize\<rparr>"

definition lp_acquire :: "locked_pool \<Rightarrow> nat option \<times> locked_pool" where
  "lp_acquire p =
     (case lp_available p of
        [] \<Rightarrow> (None, p)
      | i # rest \<Rightarrow> (Some i, p\<lparr>lp_available := rest,
          lp_memory := (lp_memory p)[i := (lp_memory p ! i)\<lparr>lp_inUse := True, pk_length := 0\<rparr>]\<rparr>))"

definition lp_release :: "nat option \<Rightarrow> locked_pool \<Rightarrow> locked_pool" where
  "lp_release packet p =
     (case packet of
        None \<Rightarrow> p
      | Some i \<Rightarrow> p\<lparr>lp_memory := (lp_memory p)[i := (lp_memory p ! i)\<lparr>lp_inUse := False\<rparr>],
          lp_available := i # lp_available p\<rparr>)"

definition lp_getAvailableCount :: "locked_pool \<Rightarrow> nat" where
  "lp_getAvailableCount p = length (lp_available p)"

definition lp_getTotalCount :: "locked_pool \<Rightarrow> nat" where
  "lp_getTotalCount p = lp_totalCount p"

text \<open>
  What a client does that releases only what is in use. The pool keeps its packets apart for it; the code
  does not check the condition.
\<close>

definition lp_used :: "locked_pool \<Rightarrow> nat \<Rightarrow> bool" where
  "lp_used p i \<longleftrightarrow> i < lp_totalCount p \<and> lp_inUse (lp_memory p ! i)"

inductive lp_step :: "locked_pool \<Rightarrow> locked_pool \<Rightarrow> bool" where
  lp_take: "lp_step p (snd (lp_acquire p))"
| lp_give: "lp_used p i \<Longrightarrow> lp_step p (lp_release (Some i) p)"

definition lp_start :: "locked_pool \<Rightarrow> bool" where "lp_start p \<longleftrightarrow> (\<exists>n. p = lp_new n)"

definition lp_inv :: "locked_pool \<Rightarrow> bool" where
  "lp_inv p \<longleftrightarrow> distinct (lp_available p) \<and> length (lp_memory p) = lp_totalCount p \<and>
     set (lp_available p) = {i. i < lp_totalCount p \<and> \<not> lp_used p i}"

lemma foldl_stack: "foldl (\<lambda>stack i. i # stack) acc xs = rev xs @ acc"
  by (induction xs arbitrary: acc) simp_all

lemma lp_inv_new: "lp_inv (lp_new n)"
  by (auto simp: lp_inv_def lp_new_def foldl_stack lp_used_def lp_packet_def pooled_packet.defs)

lemma lp_inv_acquire:
  assumes "lp_inv p"
  shows "lp_inv (snd (lp_acquire p))"
proof (cases "lp_available p")
  case Nil
  then show ?thesis using assms by (simp add: lp_acquire_def)
next
  case (Cons i rest)
  then have i: "i \<notin> set rest" "distinct rest" "length (lp_memory p) = lp_totalCount p"
    and m: "\<And>k. (k = i \<or> k \<in> set rest) = (k < lp_totalCount p \<and> \<not> lp_used p k)"
    using assms by (auto simp: lp_inv_def)
  have "(k \<in> set rest) = (k < lp_totalCount p \<and> \<not> lp_used (snd (lp_acquire p)) k)" for k
    using m [of k] m [of i] i Cons by (cases "k = i") (simp_all add: lp_acquire_def lp_used_def)
  then show ?thesis using Cons i by (auto simp: lp_inv_def lp_acquire_def)
qed

lemma lp_inv_release:
  assumes "lp_inv p" "lp_used p i"
  shows "lp_inv (lp_release (Some i) p)"
proof -
  have i: "i < lp_totalCount p" "i \<notin> set (lp_available p)" "lp_inUse (lp_memory p ! i)"
    using assms by (auto simp: lp_inv_def lp_used_def)
  have "(k = i \<or> k \<in> set (lp_available p)) =
      (k < lp_totalCount p \<and> \<not> lp_used (lp_release (Some i) p) k)" for k
    using assms i by (auto simp: lp_inv_def lp_release_def lp_used_def nth_list_update)
  then show ?thesis using assms i by (auto simp: lp_inv_def lp_release_def)
qed

interpretation locked_pool_sys: invariant_system lp_start lp_step lp_inv
proof
  show "lp_start p \<Longrightarrow> lp_inv p" for p by (auto simp: lp_start_def lp_inv_new)
  show "lp_inv p \<Longrightarrow> lp_step p t \<Longrightarrow> lp_inv t" for p t
    by (erule lp_step.cases) (simp_all add: lp_inv_acquire lp_inv_release)
qed

text \<open>
  As long as packets are released only while in use, acquire returns a packet that is not in use, and
  nullptr only when all are.
\<close>

theorem locked_pool_fresh:
  assumes "reach lp_start lp_step p"
  shows "case fst (lp_acquire p) of
      Some i \<Rightarrow> i < lp_totalCount p \<and> \<not> lp_used p i \<and> lp_used (snd (lp_acquire p)) i
    | None \<Rightarrow> \<forall>i < lp_totalCount p. lp_used p i"
proof -
  have inv: "lp_inv p" using assms by (rule locked_pool_sys.reach_inv)
  show ?thesis
  proof (cases "lp_available p")
    case Nil
    then show ?thesis using inv by (auto simp: lp_inv_def lp_acquire_def)
  next
    case (Cons i rest)
    then have "i < lp_totalCount p \<and> \<not> lp_used p i" using inv by (auto simp: lp_inv_def)
    then show ?thesis using Cons inv by (simp add: lp_acquire_def lp_used_def lp_inv_def)
  qed
qed

lemma locked_pool_fresh_witness:
  "fst (lp_acquire (lp_new 2)) = Some 1 \<and> \<not> lp_used (lp_new 2) 1"
proof -
  have "reach lp_start lp_step (lp_new 2)" by (rule reach_start) (auto simp: lp_start_def)
  moreover have "fst (lp_acquire (lp_new 2)) = Some 1" by (simp add: lp_acquire_def lp_new_def foldl_stack upt_rec)
  ultimately show ?thesis using locked_pool_fresh [of "lp_new 2"] by simp
qed

text \<open>
  A packet that is released twice is handed out twice: release marks the packet free and pushes it without
  looking at the mark.
\<close>

theorem locked_pool_double_release:
  "let q = lp_release (Some i) (lp_release (Some i) p) in
     fst (lp_acquire q) = Some i \<and> fst (lp_acquire (snd (lp_acquire q))) = Some i \<and>
     lp_getAvailableCount q = lp_getAvailableCount p + 2"
  by (simp add: lp_release_def lp_acquire_def lp_getAvailableCount_def)

section \<open>The lock-free pool without tags\<close>

record simple_pool =
  sp_memory :: "pooled_packet list"
  sp_totalCount :: nat
  sp_head :: "nat option"
  sp_inUse :: "bool list"
  sp_next :: "nat option list"

definition simple_new :: "nat \<Rightarrow> simple_pool" where
  "simple_new poolSize =
     foldl (\<lambda>p i. p\<lparr>sp_next := (sp_next p)[i := sp_head p], sp_head := Some i\<rparr>)
       \<lparr>sp_memory = replicate poolSize new_packet, sp_totalCount = poolSize, sp_head = None,
        sp_inUse = replicate poolSize False, sp_next = replicate poolSize None\<rparr> [0..<poolSize]"

definition sp_getAvailableCount :: "simple_pool \<Rightarrow> nat" where
  "sp_getAvailableCount p = sp_totalCount p - sp_totalCount p"

text \<open>
  Where a thread is in \<open>acquire\<close>: it holds the head it loaded, then also the successor it read, then the node it took. A
  failing exchange loads the head anew; it may fail spuriously.
\<close>

datatype acquire_pc = A_Idle | A_Loaded "nat option" | A_Next nat "nat option" | A_Won nat

inductive acquire_step :: "simple_pool \<Rightarrow> acquire_pc \<Rightarrow> simple_pool \<Rightarrow> acquire_pc \<Rightarrow> bool" where
  a_load: "acquire_step p A_Idle p (A_Loaded (sp_head p))"
| a_empty: "acquire_step p (A_Loaded None) p A_Idle"
| a_next: "acquire_step p (A_Loaded (Some n)) p (A_Next n (sp_next p ! n))"
| a_take: "sp_head p = Some n \<Longrightarrow> acquire_step p (A_Next n h) (p\<lparr>sp_head := h\<rparr>) (A_Won n)"
| a_retry: "acquire_step p (A_Next n h) p (A_Loaded (sp_head p))"
| a_mark: "acquire_step p (A_Won n) (p\<lparr>sp_inUse := (sp_inUse p)[n := True]\<rparr>) A_Idle"

text \<open>
  Where the thread is in \<open>release\<close>: it has seen the flag of the packet set, reset the packet, cleared the flag, loaded the
  head and stored it as the successor. A packet outside the block, or whose flag is not set, changes nothing.
\<close>

datatype release_pc = R_Idle | R_Checked nat | R_Reset nat | R_Cleared nat | R_Loaded nat "nat option" | R_Linked nat "nat option"

definition reset_packet :: "pooled_packet \<Rightarrow> pooled_packet" where
  "reset_packet k = k\<lparr>pk_length := 0, pk_sequenceNumber := 0, pk_presentationTime := 0, pk_arrivalTime := 0\<rparr>"

inductive release_step :: "simple_pool \<Rightarrow> release_pc \<Rightarrow> simple_pool \<Rightarrow> release_pc \<Rightarrow> bool" where
  r_check: "i < sp_totalCount p \<Longrightarrow> sp_inUse p ! i \<Longrightarrow> release_step p R_Idle p (R_Checked i)"
| r_reset: "release_step p (R_Checked i) (p\<lparr>sp_memory := (sp_memory p)[i := reset_packet (sp_memory p ! i)]\<rparr>) (R_Reset i)"
| r_clear: "release_step p (R_Reset i) (p\<lparr>sp_inUse := (sp_inUse p)[i := False]\<rparr>) (R_Cleared i)"
| r_load: "release_step p (R_Cleared i) p (R_Loaded i (sp_head p))"
| r_link: "release_step p (R_Loaded i h) (p\<lparr>sp_next := (sp_next p)[i := h]\<rparr>) (R_Linked i h)"
| r_push: "sp_head p = h \<Longrightarrow> release_step p (R_Linked i h) (p\<lparr>sp_head := Some i\<rparr>) R_Idle"
| r_retry: "release_step p (R_Linked i h) p (R_Loaded i (sp_head p))"

record pool_sys =
  sy_pool :: simple_pool
  sy_acquirers :: "acquire_pc list"
  sy_releaser :: release_pc

inductive pool_step :: "pool_sys \<Rightarrow> pool_sys \<Rightarrow> bool" where
  acquirer_step: "acquire_step (sy_pool s) (sy_acquirers s ! k) p pc \<Longrightarrow> k < length (sy_acquirers s) \<Longrightarrow>
     pool_step s (s\<lparr>sy_pool := p, sy_acquirers := (sy_acquirers s)[k := pc]\<rparr>)"
| releaser_step: "release_step (sy_pool s) (sy_releaser s) p pc \<Longrightarrow>
     pool_step s (s\<lparr>sy_pool := p, sy_releaser := pc\<rparr>)"

inductive_cases acquire_stepE: "acquire_step p pc p' pc'"
inductive_cases release_stepE: "release_step p pc p' pc'"
inductive_cases pool_stepE: "pool_step s t"

text \<open>The system with a number of acquiring threads.\<close>

definition pool_start :: "nat \<Rightarrow> pool_sys \<Rightarrow> bool" where
  "pool_start threads s \<longleftrightarrow>
     (\<exists>n. s = \<lparr>sy_pool = simple_new n, sy_acquirers = replicate threads A_Idle, sy_releaser = R_Idle\<rparr>)"

section \<open>One acquiring thread\<close>

text \<open>
  The packet a thread has taken but not yet marked, and the one it has unmarked but not yet pushed. Each packet is in the free
  list, in one of these two places, or in use.
\<close>

fun taken :: "acquire_pc \<Rightarrow> nat set" where
  "taken (A_Won n) = {n}" | "taken _ = {}"

fun returning :: "release_pc \<Rightarrow> nat set" where
  "returning (R_Cleared i) = {i}" | "returning (R_Loaded i h) = {i}" | "returning (R_Linked i h) = {i}"
| "returning _ = {}"

fun acquire_ok :: "simple_pool \<Rightarrow> nat set \<Rightarrow> acquire_pc \<Rightarrow> bool" where
  "acquire_ok p free (A_Loaded h) \<longleftrightarrow> (case h of None \<Rightarrow> True | Some n \<Rightarrow> n \<in> free)"
| "acquire_ok p free (A_Next n h) \<longleftrightarrow> n \<in> free \<and> sp_next p ! n = h"
| "acquire_ok p free _ \<longleftrightarrow> True"

fun release_ok :: "simple_pool \<Rightarrow> release_pc \<Rightarrow> bool" where
  "release_ok p (R_Checked i) \<longleftrightarrow> i < sp_totalCount p \<and> sp_inUse p ! i"
| "release_ok p (R_Reset i) \<longleftrightarrow> i < sp_totalCount p \<and> sp_inUse p ! i"
| "release_ok p (R_Linked i h) \<longleftrightarrow> sp_next p ! i = h"
| "release_ok p _ \<longleftrightarrow> True"

definition sp_parts :: "nat list \<Rightarrow> simple_pool \<Rightarrow> acquire_pc \<Rightarrow> release_pc \<Rightarrow> bool" where
  "sp_parts free p a r \<longleftrightarrow> chain (sp_next p) (sp_head p) free \<and> distinct free \<and>
     length (sp_next p) = sp_totalCount p \<and> length (sp_inUse p) = sp_totalCount p \<and>
     length (sp_memory p) = sp_totalCount p \<and>
     (\<forall>i. i \<in> set free \<or> i \<in> taken a \<or> i \<in> returning r \<longleftrightarrow> i < sp_totalCount p \<and> \<not> sp_inUse p ! i) \<and>
     set free \<inter> taken a = {} \<and> set free \<inter> returning r = {} \<and> taken a \<inter> returning r = {} \<and>
     acquire_ok p (set free) a \<and> release_ok p r"

definition sp_inv :: "pool_sys \<Rightarrow> bool" where
  "sp_inv s \<longleftrightarrow> length (sy_acquirers s) = 1 \<and> (\<exists>free. sp_parts free (sy_pool s) (sy_acquirers s ! 0) (sy_releaser s))"

lemma simple_new_parts:
  "k \<le> n \<Longrightarrow> let p = foldl (\<lambda>p i. p\<lparr>sp_next := (sp_next p)[i := sp_head p], sp_head := Some i\<rparr>)
       \<lparr>sp_memory = replicate n new_packet, sp_totalCount = n, sp_head = None,
        sp_inUse = replicate n False, sp_next = replicate n None\<rparr> [0..<k]
   in chain (sp_next p) (sp_head p) (rev [0..<k]) \<and> length (sp_next p) = n \<and> sp_inUse p = replicate n False \<and>
      sp_totalCount p = n \<and> length (sp_memory p) = n"
  by (induction k) (auto simp: Let_def chain_update)

lemma sp_start_inv: "pool_start 1 s \<Longrightarrow> sp_inv s"
  using simple_new_parts [OF order_refl]
  by (auto simp: pool_start_def sp_inv_def sp_parts_def simple_new_def Let_def intro!: exI [of _ "rev [0..<n]" for n])

lemma chain_head: "chain nx (Some n) free \<Longrightarrow> n \<in> set free \<and> free = n # tl free \<and> chain nx (nx ! n) (tl free)"
  by (cases free) auto

lemma nth_update_eq: "xs[i := x] ! j = (if i = j \<and> j < length xs then x else xs ! j)"
  by (cases "i = j") (auto simp: list_update_beyond)

lemma release_ok_head [simp]: "release_ok (p\<lparr>sp_head := h\<rparr>) r = release_ok p r"
  by (cases r) simp_all

lemma acquire_ok_other [simp]:
  "acquire_ok (p\<lparr>sp_memory := m\<rparr>) F a = acquire_ok p F a" "acquire_ok (p\<lparr>sp_inUse := u\<rparr>) F a = acquire_ok p F a"
  "acquire_ok (p\<lparr>sp_head := h\<rparr>) F a = acquire_ok p F a"
  by (cases a; simp)+

lemma acquire_ok_link: "i \<notin> F \<Longrightarrow> acquire_ok (p\<lparr>sp_next := (sp_next p)[i := h]\<rparr>) F a = acquire_ok p F a"
  by (cases a) (auto simp: nth_update_eq)

lemma release_ok_mark: "release_ok p r \<Longrightarrow> release_ok (p\<lparr>sp_inUse := (sp_inUse p)[n := True]\<rparr>) r"
  by (cases r) (auto simp: nth_update_eq)

lemma acquire_ok_mono: "acquire_ok p F a \<Longrightarrow> F \<subseteq> G \<Longrightarrow> acquire_ok p G a"
  by (cases a) (auto split: option.splits)

lemma sp_parts_acquire:
  assumes "acquire_step p a p' a'" "sp_parts free p a r"
  shows "\<exists>free'. sp_parts free' p' a' r"
  using assms
proof (cases rule: acquire_step.cases)
  case a_load
  then have "acquire_ok p (set free) (A_Loaded (sp_head p))"
    using assms(2) by (cases "sp_head p") (auto simp: sp_parts_def dest: chain_head)
  then show ?thesis using assms(2) a_load by (auto simp: sp_parts_def)
next
  case a_empty
  then show ?thesis using assms(2) by (auto simp: sp_parts_def)
next
  case (a_next n)
  then show ?thesis using assms(2) by (auto simp: sp_parts_def)
next
  case (a_take n h)
  with assms(2) obtain rest where free: "free = n # rest" "chain (sp_next p) h rest" "n \<notin> set rest"
    by (cases free) (auto simp: sp_parts_def)
  moreover have "i \<in> set rest \<or> i \<in> taken a' \<or> i \<in> returning r \<longleftrightarrow> i \<in> set free \<or> i \<in> taken a \<or> i \<in> returning r" for i
    using a_take free(1) by auto
  ultimately have "sp_parts rest p' a' r" using assms(2) a_take by (simp add: sp_parts_def)
  then show ?thesis ..
next
  case (a_retry n h)
  then have "acquire_ok p (set free) (A_Loaded (sp_head p))"
    using assms(2) by (cases "sp_head p") (auto simp: sp_parts_def dest: chain_head)
  then show ?thesis using assms(2) a_retry by (auto simp: sp_parts_def)
next
  case (a_mark n)
  then have "n \<notin> set free" "n \<notin> returning r" "n < sp_totalCount p" using assms(2) by (auto simp: sp_parts_def)
  then have "sp_parts free p' a' r"
    using assms(2) a_mark by (simp add: sp_parts_def nth_list_update release_ok_mark) blast
  then show ?thesis ..
qed

lemma sp_parts_release:
  assumes "release_step p r p' r'" "sp_parts free p a r"
  shows "\<exists>free'. sp_parts free' p' a r'"
  using assms
proof (cases rule: release_step.cases)
  case (r_check i)
  then show ?thesis using assms(2) by (auto simp: sp_parts_def)
next
  case (r_reset i)
  then have "sp_parts free p' a r'" using assms(2) by (simp add: sp_parts_def)
  then show ?thesis ..
next
  case (r_clear i)
  then have u: "i < sp_totalCount p" "sp_inUse p ! i" using assms(2) by (simp_all add: sp_parts_def)
  then have "i \<notin> set free" "i \<notin> taken a" using assms(2) by (auto simp: sp_parts_def)
  then have "sp_parts free p' a r'"
    using assms(2) r_clear u by (auto simp: sp_parts_def nth_list_update)
  then show ?thesis ..
next
  case (r_load i)
  then show ?thesis using assms(2) by (auto simp: sp_parts_def)
next
  case (r_link i h)
  then have "i \<notin> set free" "i < sp_totalCount p" using assms(2) by (auto simp: sp_parts_def)
  then have "sp_parts free p' a r'"
    using assms(2) r_link by (simp add: sp_parts_def chain_update acquire_ok_link)
  then show ?thesis ..
next
  case (r_push h i)
  then have "i \<notin> set free" "i \<notin> taken a" using assms(2) by (auto simp: sp_parts_def)
  moreover have "acquire_ok p (insert i (set free)) a"
    using assms(2) acquire_ok_mono [of p "set free" a] by (auto simp: sp_parts_def)
  ultimately have "sp_parts (i # free) p' a r'"
    using assms(2) r_push by (simp add: sp_parts_def) blast
  then show ?thesis ..
next
  case (r_retry i h)
  then show ?thesis using assms(2) by (auto simp: sp_parts_def)
qed

interpretation single_acquirer: invariant_system "pool_start 1" pool_step sp_inv
proof
  show "pool_start 1 s \<Longrightarrow> sp_inv s" for s by (rule sp_start_inv)
  show "sp_inv s \<Longrightarrow> pool_step s t \<Longrightarrow> sp_inv t" for s t
    by (erule pool_stepE)
       (auto simp: sp_inv_def dest: sp_parts_acquire sp_parts_release)
qed

text \<open>
  With one acquiring and one releasing thread, in any interleaving, the packet that acquire takes is not in use and
  has left the free list; the free list never loses or repeats a packet.
\<close>

theorem single_acquirer_fresh:
  assumes "reach (pool_start 1) pool_step s"
  shows "\<exists>free. chain (sp_next (sy_pool s)) (sp_head (sy_pool s)) free \<and> distinct free \<and>
    (\<forall>i \<in> set free. i < sp_totalCount (sy_pool s) \<and> \<not> sp_inUse (sy_pool s) ! i) \<and>
    (\<forall>i. sy_acquirers s = [A_Won i] \<longrightarrow>
       i < sp_totalCount (sy_pool s) \<and> \<not> sp_inUse (sy_pool s) ! i \<and> i \<notin> set free)"
proof -
  have "sp_inv s" using assms by (rule single_acquirer.reach_inv)
  then obtain free where f: "sp_parts free (sy_pool s) (sy_acquirers s ! 0) (sy_releaser s)"
    by (auto simp: sp_inv_def)
  then have u: "set free \<union> taken (sy_acquirers s ! 0) \<subseteq> {i. i < sp_totalCount (sy_pool s) \<and> \<not> sp_inUse (sy_pool s) ! i}"
    and d: "set free \<inter> taken (sy_acquirers s ! 0) = {}" by (auto simp: sp_parts_def)
  have "i < sp_totalCount (sy_pool s) \<and> \<not> sp_inUse (sy_pool s) ! i \<and> i \<notin> set free" if "sy_acquirers s = [A_Won i]" for i
    using u d that by auto
  then show ?thesis using f u by (intro exI [of _ free]) (auto simp: sp_parts_def)
qed

section \<open>Two acquiring threads\<close>

text \<open>An operation that no other thread interrupts.\<close>

abbreviation sp_taken :: "nat \<Rightarrow> simple_pool \<Rightarrow> simple_pool" where
  "sp_taken n p \<equiv> p\<lparr>sp_head := sp_next p ! n, sp_inUse := (sp_inUse p)[n := True]\<rparr>"

definition sp_returned :: "nat \<Rightarrow> simple_pool \<Rightarrow> simple_pool" where
  "sp_returned i p = p\<lparr>sp_memory := (sp_memory p)[i := reset_packet (sp_memory p ! i)],
     sp_inUse := (sp_inUse p)[i := False], sp_next := (sp_next p)[i := sp_head p], sp_head := Some i\<rparr>"

lemma acquirer_steps:
  "pool_step\<^sup>*\<^sup>* s t \<Longrightarrow> acquire_step (sy_pool t) (sy_acquirers t ! k) p pc \<Longrightarrow> k < length (sy_acquirers t) \<Longrightarrow>
     pool_step\<^sup>*\<^sup>* s (t\<lparr>sy_pool := p, sy_acquirers := (sy_acquirers t)[k := pc]\<rparr>)"
  by (rule rtranclp.rtrancl_into_rtrancl) (auto intro: acquirer_step)

lemma releaser_steps:
  "pool_step\<^sup>*\<^sup>* s t \<Longrightarrow> release_step (sy_pool t) (sy_releaser t) p pc \<Longrightarrow>
     pool_step\<^sup>*\<^sup>* s (t\<lparr>sy_pool := p, sy_releaser := pc\<rparr>)"
  by (rule rtranclp.rtrancl_into_rtrancl) (auto intro: releaser_step)

lemma reach_steps: "step\<^sup>*\<^sup>* s t \<Longrightarrow> reach start step s \<Longrightarrow> reach start step t"
  by (induction rule: rtranclp_induct) (auto intro: reach_step)

lemma acquire_prefix:
  assumes "k < length as" "as ! k = A_Idle" "sp_head p = Some n"
  shows "pool_step\<^sup>*\<^sup>* \<lparr>sy_pool = p, sy_acquirers = as, sy_releaser = r\<rparr>
    \<lparr>sy_pool = p, sy_acquirers = as[k := A_Next n (sp_next p ! n)], sy_releaser = r\<rparr>"
proof -
  let ?s = "\<lparr>sy_pool = p, sy_acquirers = as, sy_releaser = r\<rparr>"
  have "pool_step\<^sup>*\<^sup>* ?s (?s\<lparr>sy_pool := p, sy_acquirers := as[k := A_Loaded (Some n)]\<rparr>)"
    using acquirer_steps [of ?s ?s k p "A_Loaded (Some n)"] a_load [of p] assms by simp
  from acquirer_steps [OF this, of k p "A_Next n (sp_next p ! n)"] a_next [of p n] show ?thesis using assms by simp
qed

lemma acquire_won:
  assumes "k < length as" "as ! k = A_Next n h" "sp_head p = Some n"
  shows "pool_step\<^sup>*\<^sup>* \<lparr>sy_pool = p, sy_acquirers = as, sy_releaser = r\<rparr>
    \<lparr>sy_pool = p\<lparr>sp_head := h\<rparr>, sy_acquirers = as[k := A_Won n], sy_releaser = r\<rparr>"
  using acquirer_steps [of "\<lparr>sy_pool = p, sy_acquirers = as, sy_releaser = r\<rparr>" _ k "p\<lparr>sp_head := h\<rparr>" "A_Won n",
      OF rtranclp.rtrancl_refl] a_take [of p n h] assms by simp

lemma acquire_marked:
  assumes "k < length as" "as ! k = A_Won n"
  shows "pool_step\<^sup>*\<^sup>* \<lparr>sy_pool = p, sy_acquirers = as, sy_releaser = r\<rparr>
    \<lparr>sy_pool = p\<lparr>sp_inUse := (sp_inUse p)[n := True]\<rparr>, sy_acquirers = as[k := A_Idle], sy_releaser = r\<rparr>"
  using acquirer_steps [of "\<lparr>sy_pool = p, sy_acquirers = as, sy_releaser = r\<rparr>" _ k _ A_Idle,
      OF rtranclp.rtrancl_refl] a_mark [of p n] assms by simp

lemma acquire_runs:
  assumes "k < length as" "as ! k = A_Idle" "sp_head p = Some n"
  shows "pool_step\<^sup>*\<^sup>* \<lparr>sy_pool = p, sy_acquirers = as, sy_releaser = r\<rparr>
    \<lparr>sy_pool = sp_taken n p, sy_acquirers = as, sy_releaser = r\<rparr>"
proof -
  from assms have idle: "as[k := A_Idle] = as" by (simp add: list_update_same_conv)
  note acquire_prefix [OF assms, of r]
  also have "pool_step\<^sup>*\<^sup>* \<lparr>sy_pool = p, sy_acquirers = as[k := A_Next n (sp_next p ! n)], sy_releaser = r\<rparr>
      \<lparr>sy_pool = p\<lparr>sp_head := sp_next p ! n\<rparr>, sy_acquirers = as[k := A_Won n], sy_releaser = r\<rparr>"
    using acquire_won [of k "as[k := A_Next n (sp_next p ! n)]" n "sp_next p ! n" p r] assms by simp
  also have "pool_step\<^sup>*\<^sup>* \<lparr>sy_pool = p\<lparr>sp_head := sp_next p ! n\<rparr>, sy_acquirers = as[k := A_Won n], sy_releaser = r\<rparr>
      \<lparr>sy_pool = sp_taken n p, sy_acquirers = as, sy_releaser = r\<rparr>"
    using acquire_marked [of k "as[k := A_Won n]" n "p\<lparr>sp_head := sp_next p ! n\<rparr>" r] assms idle by simp
  finally show ?thesis .
qed

lemma release_runs:
  assumes "i < sp_totalCount p" "sp_inUse p ! i"
  shows "pool_step\<^sup>*\<^sup>* \<lparr>sy_pool = p, sy_acquirers = as, sy_releaser = R_Idle\<rparr>
    \<lparr>sy_pool = sp_returned i p, sy_acquirers = as, sy_releaser = R_Idle\<rparr>"
proof -
  let ?s = "\<lparr>sy_pool = p, sy_acquirers = as, sy_releaser = R_Idle\<rparr>"
  let ?p1 = "p\<lparr>sp_memory := (sp_memory p)[i := reset_packet (sp_memory p ! i)]\<rparr>"
  let ?p2 = "?p1\<lparr>sp_inUse := (sp_inUse p)[i := False]\<rparr>"
  let ?p3 = "?p2\<lparr>sp_next := (sp_next p)[i := sp_head p]\<rparr>"
  have "pool_step\<^sup>*\<^sup>* ?s (?s\<lparr>sy_pool := p, sy_releaser := R_Checked i\<rparr>)"
    using releaser_steps [of ?s ?s p "R_Checked i"] r_check [of i p] assms by simp
  from releaser_steps [OF this, of ?p1 "R_Reset i"] r_reset [of p i]
  have "pool_step\<^sup>*\<^sup>* ?s (?s\<lparr>sy_pool := ?p1, sy_releaser := R_Reset i\<rparr>)" by simp
  from releaser_steps [OF this, of ?p2 "R_Cleared i"] r_clear [of ?p1 i]
  have "pool_step\<^sup>*\<^sup>* ?s (?s\<lparr>sy_pool := ?p2, sy_releaser := R_Cleared i\<rparr>)" by simp
  from releaser_steps [OF this, of ?p2 "R_Loaded i (sp_head p)"] r_load [of ?p2 i]
  have "pool_step\<^sup>*\<^sup>* ?s (?s\<lparr>sy_pool := ?p2, sy_releaser := R_Loaded i (sp_head p)\<rparr>)" by simp
  from releaser_steps [OF this, of ?p3 "R_Linked i (sp_head p)"] r_link [of ?p2 i "sp_head p"]
  have "pool_step\<^sup>*\<^sup>* ?s (?s\<lparr>sy_pool := ?p3, sy_releaser := R_Linked i (sp_head p)\<rparr>)" by simp
  from releaser_steps [OF this, of "?p3\<lparr>sp_head := Some i\<rparr>" R_Idle] r_push [of ?p3 "sp_head p" i]
  show ?thesis by (simp add: sp_returned_def)
qed

text \<open>
  Two acquiring threads: the first has read head and successor when the second takes both packets and gives the first one
  back. The exchange of the first thread then succeeds and makes a packet the head that is in use, so it is handed out
  again (the ABA problem, which the tag of the pool in use excludes).
\<close>

theorem two_acquirers_share_packet:
  "\<exists>s. reach (pool_start 2) pool_step s \<and> sy_acquirers s ! 0 = A_Won 0 \<and> sp_inUse (sy_pool s) ! 0"
proof -
  let ?mem = "\<lambda>a. [new_packet, a]"
  let ?pool = "\<lambda>m h u0 u1 n0 n1. \<lparr>sp_memory = [new_packet, m], sp_totalCount = 2, sp_head = h, sp_inUse = [u0, u1], sp_next = [n0, n1]\<rparr>"
  let ?m = "reset_packet new_packet"
  let ?A = "A_Next 1 (Some 0)"
  have new: "simple_new 2 = ?pool new_packet (Some 1) False False None (Some 0)"
    by (simp add: simple_new_def upt_rec numeral_2_eq_2)
  note acquire_prefix [of 0 "[A_Idle, A_Idle]" "?pool new_packet (Some 1) False False None (Some 0)" 1 R_Idle, simplified]
  also note acquire_runs [of 1 "[?A, A_Idle]" "?pool new_packet (Some 1) False False None (Some 0)" 1 R_Idle, simplified]
  also note acquire_runs [of 1 "[?A, A_Idle]" "?pool new_packet (Some 0) False True None (Some 0)" 0 R_Idle, simplified]
  also note release_runs [of 1 "?pool new_packet None True True None (Some 0)" "[?A, A_Idle]", simplified sp_returned_def, simplified]
  also note acquire_won [of 0 "[?A, A_Idle]" 1 "Some 0" "?pool ?m (Some 1) True False None None" R_Idle, simplified]
  also note acquire_marked [of 0 "[A_Won 1, A_Idle]" 1 "?pool ?m (Some 0) True False None None" R_Idle, simplified]
  also note acquire_prefix [of 0 "[A_Idle, A_Idle]" "?pool ?m (Some 0) True True None None" 0 R_Idle, simplified]
  also note acquire_won [of 0 "[A_Next 0 None, A_Idle]" 0 None "?pool ?m (Some 0) True True None None" R_Idle, simplified]
  finally have run: "pool_step\<^sup>*\<^sup>*
      \<lparr>sy_pool = simple_new 2, sy_acquirers = [A_Idle, A_Idle], sy_releaser = R_Idle\<rparr>
      \<lparr>sy_pool = ?pool ?m None True True None None, sy_acquirers = [A_Won 0, A_Idle], sy_releaser = R_Idle\<rparr>"
    by (simp add: new)
  have "pool_start 2 \<lparr>sy_pool = simple_new 2, sy_acquirers = [A_Idle, A_Idle], sy_releaser = R_Idle\<rparr>"
    by (auto simp: pool_start_def numeral_2_eq_2)
  from reach_steps [OF run reach_start [of "pool_start 2", OF this]] show ?thesis by force
qed

end
