(* ===== verification/Text_Lib.thy ===== *)
theory Text_Lib
  imports Prelude
begin

text \<open>
  Strings as the C++ standard library handles them: character classes, decimal printing
  (\<open>std::to_string\<close> and stream output of integers), decimal and hexadecimal parsing
  (\<open>std::stoi\<close>, \<open>std::stoul\<close>), splitting at a separator (\<open>std::getline\<close>) and the ordered
  map \<open>std::map\<close> as a sorted association list.
\<close>

named_theorems text_simps \<open>reading back what was printed\<close>

section \<open>Characters and digits\<close>

definition digit_char :: "nat \<Rightarrow> char" where
  "digit_char d = ''0123456789abcdef'' ! d"

definition digit_value :: "char \<Rightarrow> nat option" where
  "digit_value c =
     (let n = (of_char c :: nat) in
      if 48 \<le> n \<and> n \<le> 57 then Some (n - 48)
      else if 97 \<le> n \<and> n \<le> 102 then Some (n - 87)
      else if 65 \<le> n \<and> n \<le> 70 then Some (n - 55)
      else None)"

definition is_digit :: "char \<Rightarrow> bool" where
  "is_digit c \<longleftrightarrow> (let n = (of_char c :: nat) in 48 \<le> n \<and> n \<le> 57)"

definition is_xdigit :: "char \<Rightarrow> bool" where
  "is_xdigit c \<longleftrightarrow> digit_value c \<noteq> None"

text \<open>\<open>isspace\<close> in the C locale: blank, tab, newline, vertical tab, form feed, return.\<close>

definition is_space :: "char \<Rightarrow> bool" where
  "is_space c \<longleftrightarrow> (let n = (of_char c :: nat) in n = 32 \<or> 9 \<le> n \<and> n \<le> 13)"

lemma digit_chars_check:
  "list_all (\<lambda>d. digit_value (digit_char d) = Some d \<and> is_xdigit (digit_char d) \<and>
     \<not> is_space (digit_char d) \<and> digit_char d \<noteq> CHR ''-'' \<and> digit_char d \<noteq> CHR ''+'' \<and>
     digit_char d \<noteq> CHR ''.'' \<and> digit_char d \<noteq> CHR ''x'' \<and> digit_char d \<noteq> CHR ''X'') [0..<16]"
  "list_all (\<lambda>d. is_digit (digit_char d) \<and> of_char (digit_char d) = d + 48) [0..<10]"
  by code_simp+

lemma digit_char_simps [text_simps]:
  assumes "d < 16"
  shows "digit_value (digit_char d) = Some d" "is_xdigit (digit_char d)" "\<not> is_space (digit_char d)"
    "digit_char d \<noteq> CHR ''-''" "digit_char d \<noteq> CHR ''+''" "digit_char d \<noteq> CHR ''.''"
    "digit_char d \<noteq> CHR ''x''" "digit_char d \<noteq> CHR ''X''"
  using digit_chars_check(1) assms unfolding list_all_iff by auto

lemma is_digit_char [text_simps]: "d < 10 \<Longrightarrow> is_digit (digit_char d)"
  and of_digit_char: "d < 10 \<Longrightarrow> of_char (digit_char d) = d + 48"
  using digit_chars_check(2) unfolding list_all_iff by auto

lemma is_digit_value:
  assumes "is_digit c"
  shows "\<exists>d < 10. digit_value c = Some d \<and> c = digit_char d"
proof -
  define d where "d = (of_char c :: nat) - 48"
  have d: "d < 10" "(of_char c :: nat) = d + 48"
    using assms by (auto simp: is_digit_def Let_def d_def)
  have "(of_char c :: nat) = of_char (digit_char d)"
    unfolding of_digit_char [OF d(1)] by (rule d(2))
  then have c: "c = digit_char d" unfolding of_char_eq_iff .
  moreover have "digit_value (digit_char d) = Some d" using d(1) by (intro digit_char_simps(1)) simp
  ultimately show ?thesis using d(1) by blast
qed

section \<open>Decimal numbers\<close>

fun show_nat :: "nat \<Rightarrow> string" where
  "show_nat n = (if n < 10 then [digit_char n] else show_nat (n div 10) @ [digit_char (n mod 10)])"

declare show_nat.simps [simp del]

definition show_int :: "int \<Rightarrow> string" where
  "show_int i = (if i < 0 then CHR ''-'' # show_nat (nat (- i)) else show_nat (nat i))"

definition digits_nat :: "nat \<Rightarrow> string \<Rightarrow> nat" where
  "digits_nat base s = foldl (\<lambda>n c. base * n + (case digit_value c of Some d \<Rightarrow> d | None \<Rightarrow> 0)) 0 s"

lemma digits_nat_snoc:
  "digits_nat b (s @ [c]) = b * digits_nat b s + (case digit_value c of Some d \<Rightarrow> d | None \<Rightarrow> 0)"
  by (simp add: digits_nat_def)

lemma show_nat_digits [text_simps]: "\<forall>c \<in> set (show_nat n). is_digit c"
  by (induction n rule: show_nat.induct) (subst show_nat.simps, auto simp: is_digit_char)

lemma show_nat_not_Nil [simp]: "show_nat n \<noteq> []"
  by (subst show_nat.simps) simp

lemma digits_show_nat [text_simps]: "digits_nat 10 (show_nat n) = n"
proof (induction n rule: show_nat.induct)
  case (1 n)
  show ?case
  proof (cases "n < 10")
    case True
    then show ?thesis
      by (subst show_nat.simps) (simp add: digits_nat_def digit_char_simps)
  next
    case False
    then have "digits_nat 10 (show_nat n) = 10 * digits_nat 10 (show_nat (n div 10)) + n mod 10"
      by (subst show_nat.simps) (simp add: digits_nat_snoc digit_char_simps)
    with "1.IH" [OF False] show ?thesis by simp
  qed
qed

lemma length_show_nat_le: "n < 10 ^ k \<Longrightarrow> 0 < k \<Longrightarrow> length (show_nat n) \<le> k"
proof (induction n arbitrary: k rule: show_nat.induct)
  case (1 n)
  show ?case
  proof (cases "n < 10")
    case True
    then show ?thesis using "1.prems" by (subst show_nat.simps) simp
  next
    case False
    then obtain j where k: "k = Suc j" "0 < j" using "1.prems" by (cases k; cases "k - 1") auto
    have "n div 10 < 10 ^ j" using "1.prems" k by (simp add: less_mult_imp_div_less mult.commute)
    from "1.IH" [OF False this k(2)] show ?thesis
      using False k by (subst show_nat.simps) simp
  qed
qed

text \<open>
  \<open>std::stoi\<close>: leading white space, an optional sign, decimal digits; anything after them is
  ignored. \<open>None\<close> is \<open>std::invalid_argument\<close> (no digits) or \<open>std::out_of_range\<close>.
\<close>

definition stoi :: "string \<Rightarrow> int option" where
  "stoi s =
     (let t = dropWhile is_space s;
          neg = (case t of c # _ \<Rightarrow> c = CHR ''-'' | [] \<Rightarrow> False);
          u = (case t of c # r \<Rightarrow> if c = CHR ''-'' \<or> c = CHR ''+'' then r else t | [] \<Rightarrow> []);
          ds = takeWhile is_digit u;
          v = (if neg then - int (digits_nat 10 ds) else int (digits_nat 10 ds))
      in if ds = [] then None
         else if v < - (2 ^ 31) \<or> 2 ^ 31 \<le> v then None else Some v)"

lemma is_digit_not_special:
  assumes "is_digit c"
  shows "\<not> is_space c" "c \<noteq> CHR ''-''" "c \<noteq> CHR ''+''" "c \<noteq> CHR ''.''"
  using is_digit_value [OF assms] digit_char_simps by fastforce+

lemma stoi_digits:
  assumes "\<forall>c \<in> set s. is_digit c" "s \<noteq> []" "digits_nat 10 s < 2 ^ 31"
  shows "stoi s = Some (int (digits_nat 10 s))"
proof -
  obtain c r where s: "s = c # r" using assms(2) by (cases s) auto
  then have c: "is_digit c" using assms(1) by simp
  have "takeWhile is_digit s = s" using assms(1) by simp
  then show ?thesis
    using assms(3) s is_digit_not_special [OF c] by (simp add: stoi_def Let_def)
qed

lemma stoi_show_nat [text_simps]: "n < 2 ^ 31 \<Longrightarrow> stoi (show_nat n) = Some (int n)"
  using stoi_digits [of "show_nat n"] show_nat_digits [of n] by (simp add: digits_show_nat)

text \<open>
  \<open>std::stoul(s, nullptr, 16)\<close> on strings without a minus sign: white space, an optional
  plus, an optional \<open>0x\<close> in front of a digit, hexadecimal digits.
\<close>

definition stoul16 :: "string \<Rightarrow> nat option" where
  "stoul16 s =
     (let t = dropWhile is_space s;
          u = (case t of c # r \<Rightarrow> if c = CHR ''+'' then r else t | [] \<Rightarrow> []);
          v = (case u of z # x # d # r \<Rightarrow>
                 if z = CHR ''0'' \<and> (x = CHR ''x'' \<or> x = CHR ''X'') \<and> is_xdigit d then d # r else u
               | _ \<Rightarrow> u);
          ds = takeWhile is_xdigit v
      in if ds = [] then None else Some (digits_nat 16 ds))"

lemma stoul16_two_digits [text_simps]:
  assumes "a < 16" "b < 16"
  shows "stoul16 [digit_char a, digit_char b] = Some (16 * a + b)"
  using digit_char_simps [OF assms(1)] digit_char_simps [OF assms(2)]
  by (simp add: stoul16_def Let_def digits_nat_def)

section \<open>Splitting at a separator\<close>

fun split_on :: "char \<Rightarrow> string \<Rightarrow> string list" where
  "split_on c [] = [[]]"
| "split_on c (x # xs) =
     (if x = c then [] # split_on c xs
      else case split_on c xs of [] \<Rightarrow> [[x]] | w # ws \<Rightarrow> (x # w) # ws)"

fun join_with :: "char \<Rightarrow> string list \<Rightarrow> string" where
  "join_with c [] = []"
| "join_with c [w] = w"
| "join_with c (w # v # ws) = w @ c # join_with c (v # ws)"

lemma split_on_not_Nil [simp]: "split_on c s \<noteq> []"
  by (induction s) (auto split: list.splits)

lemma split_on_no_sep: "c \<notin> set w \<Longrightarrow> split_on c w = [w]"
  by (induction w) auto

lemma split_on_append: "c \<notin> set w \<Longrightarrow> split_on c (w @ c # s) = w # split_on c s"
  by (induction w) auto

lemma split_join [text_simps]:
  "ws \<noteq> [] \<Longrightarrow> \<forall>w \<in> set ws. c \<notin> set w \<Longrightarrow> split_on c (join_with c ws) = ws"
  by (induction c ws rule: join_with.induct) (auto simp: split_on_no_sep split_on_append)

lemma join_split [text_simps]: "join_with c (split_on c s) = s"
proof (induction s)
  case Nil
  then show ?case by simp
next
  case (Cons x xs)
  obtain w ws where s: "split_on c xs = w # ws" by (cases "split_on c xs") auto
  with Cons show ?case by (cases ws) auto
qed

lemma split_on_sep_free: "w \<in> set (split_on c s) \<Longrightarrow> c \<notin> set w"
proof (induction s arbitrary: w)
  case Nil
  then show ?case by simp
next
  case (Cons x xs)
  obtain v vs where s: "split_on c xs = v # vs" by (cases "split_on c xs") auto
  have "c \<notin> set v" using Cons.IH [of v] s by simp
  moreover have "c \<notin> set u" if "u \<in> set vs" for u using Cons.IH [of u] s that by simp
  ultimately show ?case using Cons.prems s by (auto split: if_splits)
qed

text \<open>\<open>s.find(w) != npos\<close>.\<close>

fun occurs_in :: "string \<Rightarrow> string \<Rightarrow> bool" where
  "occurs_in w [] \<longleftrightarrow> w = []"
| "occurs_in w (c # cs) \<longleftrightarrow> take (length w) (c # cs) = w \<or> occurs_in w cs"

lemma occurs_in_append: "occurs_in w (a @ w @ b)"
proof (induction a)
  case Nil
  have "take (length w) (w @ b) = w" by simp
  then show ?case by (cases "w @ b") auto
qed simp

section \<open>Ordered maps\<close>

text \<open>\<open>std::map\<close>: an association list sorted by key; iteration is in list order.\<close>

fun smap_put :: "'k::linorder \<Rightarrow> 'v \<Rightarrow> ('k \<times> 'v) list \<Rightarrow> ('k \<times> 'v) list" where
  "smap_put k v [] = [(k, v)]"
| "smap_put k v ((k', v') # xs) =
     (if k = k' then (k, v) # xs
      else if k < k' then (k, v) # (k', v') # xs
      else (k', v') # smap_put k v xs)"

definition smap_del :: "'k::linorder \<Rightarrow> ('k \<times> 'v) list \<Rightarrow> ('k \<times> 'v) list" where
  "smap_del k xs = filter (\<lambda>(k', _). k' \<noteq> k) xs"

definition smap_ok :: "('k::linorder \<times> 'v) list \<Rightarrow> bool" where
  "smap_ok xs \<longleftrightarrow> sorted (map fst xs) \<and> distinct (map fst xs)"

lemma smap_put_keys: "set (map fst (smap_put k v xs)) = insert k (set (map fst xs))"
  by (induction k v xs rule: smap_put.induct) auto

lemma smap_ok_put: "smap_ok xs \<Longrightarrow> smap_ok (smap_put k v xs)"
proof (induction k v xs rule: smap_put.induct)
  case (1 k v)
  then show ?case by (simp add: smap_ok_def)
next
  case (2 k v k' v' xs)
  have IH: "smap_ok xs \<Longrightarrow> smap_ok (smap_put k v xs)" if "k \<noteq> k'" "\<not> k < k'"
    using "2.IH" that by blast
  show ?case
    using "2.prems" IH smap_put_keys [of k v xs]
    by (auto simp: smap_ok_def)
qed

lemma map_of_smap_put: "map_of (smap_put k v xs) = (map_of xs)(k \<mapsto> v)" if "smap_ok xs"
  using that
proof (induction k v xs rule: smap_put.induct)
  case (1 k v)
  then show ?case by (simp add: fun_eq_iff)
next
  case (2 k v k' v' xs)
  then have "smap_ok xs" by (simp add: smap_ok_def)
  with "2.IH" show ?case by (auto simp: fun_eq_iff)
qed

lemma smap_ok_del: "smap_ok xs \<Longrightarrow> smap_ok (smap_del k xs)"
  by (induction xs) (auto simp: smap_ok_def smap_del_def)

lemma map_of_smap_del: "map_of (smap_del k xs) = (map_of xs)(k := None)"
  by (induction xs) (auto simp: smap_del_def fun_eq_iff)

lemma smap_put_last: "\<forall>k' \<in> fst ` set xs. k' < k \<Longrightarrow> smap_put k v xs = xs @ [(k, v)]"
  by (induction k v xs rule: smap_put.induct) (auto dest: less_not_sym)

end
