(* ===== verification/Core_Types.thy ===== *)
theory Core_Types
  imports Text_Lib "HOL-Library.List_Lexorder"
begin

text \<open>
  \<open>Shared/Types.h\<close> and \<open>Shared/Types.cpp\<close>: stream identifiers with their textual form and
  order, audio encodings and sample rates, stream statistics, network addresses and the
  validity checks of the configuration records. A floating point percentage
  (\<open>getPacketLossPercent\<close>), the clock readings and \<open>formatBytes\<close> are not modelled.
\<close>

section \<open>Stream identifiers\<close>

datatype stream_id = StreamID (uuid: "u8 list")

definition uuid_ok :: "stream_id \<Rightarrow> bool" where
  "uuid_ok i \<longleftrightarrow> length (uuid i) = 16"

definition null_id :: stream_id where
  "null_id = StreamID (replicate 16 0)"

definition isNull :: "stream_id \<Rightarrow> bool" where
  "isNull i \<longleftrightarrow> list_all (\<lambda>b. b = 0) (uuid i)"

text \<open>\<open>operator<\<close> compares the byte arrays lexicographically.\<close>

definition stream_id_less :: "stream_id \<Rightarrow> stream_id \<Rightarrow> bool" where
  "stream_id_less a b \<longleftrightarrow> uuid a < uuid b"

instantiation stream_id :: linorder
begin

definition less_eq_stream_id :: "stream_id \<Rightarrow> stream_id \<Rightarrow> bool" where
  "less_eq_stream_id a b \<longleftrightarrow> uuid a \<le> uuid b"

definition less_stream_id :: "stream_id \<Rightarrow> stream_id \<Rightarrow> bool" where
  "less_stream_id = stream_id_less"

instance
  by standard (auto simp: less_eq_stream_id_def less_stream_id_def stream_id_less_def stream_id.expand)

end

lemma isNull_iff: "uuid_ok i \<Longrightarrow> isNull i \<longleftrightarrow> i = null_id"
  by (cases i) (auto simp: isNull_def null_id_def uuid_ok_def list_all_iff
      dest: replicate_length_same [of _ 0])

text \<open>
  Parsing: the dashes are removed wherever they stand; anything but 32 remaining characters
  gives the null identifier. \<open>None\<close> is the exception of \<open>std::stoul\<close>.
\<close>

fun parse_bytes :: "nat \<Rightarrow> string \<Rightarrow> u8 list option" where
  "parse_bytes 0 s = Some []"
| "parse_bytes (Suc n) s =
     (case stoul16 (take 2 s) of
        None \<Rightarrow> None
      | Some v \<Rightarrow> (case parse_bytes n (drop 2 s) of
          None \<Rightarrow> None
        | Some bs \<Rightarrow> Some (of_nat v # bs)))"

definition parse_stream_id :: "string \<Rightarrow> stream_id option" where
  "parse_stream_id s =
     (let cleaned = filter (\<lambda>c. c \<noteq> CHR ''-'') s
      in if length cleaned \<noteq> 32 then Some null_id
         else map_option StreamID (parse_bytes 16 cleaned))"

text \<open>Printing: two hexadecimal digits per byte, dashes before bytes 4, 6, 8 and 10.\<close>

definition hex_byte :: "u8 \<Rightarrow> string" where
  "hex_byte b = [digit_char (unat b div 16), digit_char (unat b mod 16)]"

definition stream_id_toString :: "stream_id \<Rightarrow> string" where
  "stream_id_toString i =
     concat (map (\<lambda>k. (if k = 4 \<or> k = 6 \<or> k = 8 \<or> k = 10 then ''-'' else '''') @ hex_byte (uuid i ! k))
       [0..<16])"

lemma unat_u8_div: "unat (b :: u8) div 16 < 16" "unat (b :: u8) mod 16 < 16"
  using unsigned_less [of b, where 'a = nat] by auto

lemma filter_hex_byte: "filter (\<lambda>c. c \<noteq> CHR ''-'') (hex_byte b) = hex_byte b"
  by (simp add: hex_byte_def digit_char_simps unat_u8_div)

lemma cleaned_toString:
  "filter (\<lambda>c. c \<noteq> CHR ''-'') (stream_id_toString i) =
     concat (map (\<lambda>k. hex_byte (uuid i ! k)) [0..<16])"
proof -
  have "filter (\<lambda>c. c \<noteq> CHR ''-'') ((if P then ''-'' else '''') @ hex_byte b) = hex_byte b" for P b
    by (simp add: filter_hex_byte)
  then show ?thesis unfolding stream_id_toString_def filter_concat map_map comp_def by (simp only:)
qed

lemma parse_hex_bytes: "parse_bytes (length bs) (concat (map hex_byte bs)) = Some bs"
proof (induction bs)
  case Nil
  then show ?case by simp
next
  case (Cons b bs)
  have v: "(of_nat (16 * (unat b div 16) + unat b mod 16) :: u8) = b"
    unfolding mult_div_mod_eq by simp
  have s: "stoul16 (hex_byte b) = Some (16 * (unat b div 16) + unat b mod 16)"
    unfolding hex_byte_def by (rule stoul16_two_digits [OF unat_u8_div])
  have "length (hex_byte b) = 2" by (simp add: hex_byte_def)
  then have "take 2 (concat (map hex_byte (b # bs))) = hex_byte b"
    "drop 2 (concat (map hex_byte (b # bs))) = concat (map hex_byte bs)" by simp_all
  with Cons s v show ?case by simp
qed

lemma length_concat_hex: "length (concat (map hex_byte bs)) = 2 * length bs"
  by (induction bs) (simp_all add: hex_byte_def)

lemma parse_toString:
  assumes "uuid_ok i"
  shows "parse_stream_id (stream_id_toString i) = Some i"
proof -
  have l: "length (uuid i) = 16" using assms by (simp add: uuid_ok_def)
  then have "map (\<lambda>k. hex_byte (uuid i ! k)) [0..<16] = map hex_byte (uuid i)"
    by (simp add: list_eq_iff_nth_eq)
  then have c: "filter (\<lambda>c. c \<noteq> CHR ''-'') (stream_id_toString i) = concat (map hex_byte (uuid i))"
    unfolding cleaned_toString by simp
  have "parse_bytes 16 (concat (map hex_byte (uuid i))) = Some (uuid i)"
    using parse_hex_bytes [of "uuid i"] l by simp
  then show ?thesis unfolding parse_stream_id_def Let_def c by (simp add: length_concat_hex l)
qed

text \<open>\<open>generate()\<close> on the 16 bytes its random generator delivers: the version and variant bits.\<close>

definition generate_stream_id :: "u8 list \<Rightarrow> stream_id" where
  "generate_stream_id r =
     (let u = r[6 := (r ! 6 AND 0x0F) OR 0x40]
      in StreamID (u[8 := (u ! 8 AND 0x3F) OR 0x80]))"

lemma generate_not_null:
  assumes "length r = 16"
  shows "uuid_ok (generate_stream_id r)" "\<not> isNull (generate_stream_id r)"
proof -
  show "uuid_ok (generate_stream_id r)" using assms by (simp add: uuid_ok_def generate_stream_id_def Let_def)
  have "bit ((r ! 6 AND 0x0F) OR (0x40 :: u8)) 6" by (simp add: bit_simps)
  then have "(r ! 6 AND 0x0F) OR (0x40 :: u8) \<noteq> 0" by force
  moreover have "uuid (generate_stream_id r) ! 6 = (r ! 6 AND 0x0F) OR 0x40"
    using assms by (simp add: generate_stream_id_def Let_def)
  moreover have "uuid (generate_stream_id r) ! 6 \<in> set (uuid (generate_stream_id r))"
    using assms by (intro nth_mem) (simp add: generate_stream_id_def Let_def)
  ultimately show "\<not> isNull (generate_stream_id r)" by (force simp: isNull_def list_all_iff)
qed

section \<open>Audio formats\<close>

datatype audio_encoding = L16 | L24 | DoP | UnknownEncoding

datatype sample_rate =
  SR_44100 | SR_48000 | SR_88200 | SR_96000 | SR_176400 | SR_192000 | SR_352800 | SR_384000

fun sampleRateToHz :: "sample_rate \<Rightarrow> u32" where
  "sampleRateToHz SR_44100 = 44100"
| "sampleRateToHz SR_48000 = 48000"
| "sampleRateToHz SR_88200 = 88200"
| "sampleRateToHz SR_96000 = 96000"
| "sampleRateToHz SR_176400 = 176400"
| "sampleRateToHz SR_192000 = 192000"
| "sampleRateToHz SR_352800 = 352800"
| "sampleRateToHz SR_384000 = 384000"

definition hzToSampleRate :: "u32 \<Rightarrow> sample_rate" where
  "hzToSampleRate hz =
     (if hz = 44100 then SR_44100 else if hz = 48000 then SR_48000
      else if hz = 88200 then SR_88200 else if hz = 96000 then SR_96000
      else if hz = 176400 then SR_176400 else if hz = 192000 then SR_192000
      else if hz = 352800 then SR_352800 else if hz = 384000 then SR_384000
      else SR_48000)"

section \<open>Statistics\<close>

record stats =
  st_packetsReceived :: u64
  st_packetsLost :: u64
  st_malformedPackets :: u64
  st_outOfOrderPackets :: u64
  st_underruns :: u64
  st_overruns :: u64
  st_lastPacketTimeNs :: u64    \<comment> \<open>\<open>int64_t\<close>\<close>
  st_jitterNs :: u64            \<comment> \<open>\<open>int64_t\<close>\<close>
  st_latencyNs :: u64           \<comment> \<open>\<open>int64_t\<close>\<close>
  st_bytesReceived :: u64
  st_bytesSent :: u64

definition stats_zero :: stats where
  "stats_zero = \<lparr>st_packetsReceived = 0, st_packetsLost = 0, st_malformedPackets = 0,
     st_outOfOrderPackets = 0, st_underruns = 0, st_overruns = 0, st_lastPacketTimeNs = 0,
     st_jitterNs = 0, st_latencyNs = 0, st_bytesReceived = 0, st_bytesSent = 0\<rparr>"

definition stats_reset :: "stats \<Rightarrow> stats" where
  "stats_reset s = s\<lparr>st_packetsReceived := 0, st_packetsLost := 0, st_malformedPackets := 0,
     st_outOfOrderPackets := 0, st_underruns := 0, st_overruns := 0, st_jitterNs := 0,
     st_latencyNs := 0, st_bytesReceived := 0, st_bytesSent := 0, st_lastPacketTimeNs := 0\<rparr>"

lemma stats_reset_zero: "stats_reset s = stats_zero"
  by (simp add: stats_reset_def stats_zero_def)

section \<open>Network addresses\<close>

text \<open>
  \<open>isValidIPv4\<close> matches four groups of one to three digits separated by dots against the whole
  string and then bounds each group; a dot is not a digit, so splitting at the dots finds the
  groups of the regular expression.
\<close>

definition ipv4_group :: "string \<Rightarrow> bool" where
  "ipv4_group g \<longleftrightarrow> 1 \<le> length g \<and> length g \<le> 3 \<and> list_all is_digit g"

definition isValidIPv4 :: "string \<Rightarrow> bool" where
  "isValidIPv4 ip =
     (let gs = split_on CHR ''.'' ip
      in length gs = 4 \<and> list_all ipv4_group gs \<and>
         list_all (\<lambda>g. case stoi g of None \<Rightarrow> False | Some v \<Rightarrow> 0 \<le> v \<and> v \<le> 255) gs)"

text \<open>\<open>ip.substr(0, ip.find('.'))\<close>; a valid address has a dot.\<close>

definition first_octet :: "string \<Rightarrow> int option" where
  "first_octet ip = stoi (takeWhile (\<lambda>c. c \<noteq> CHR ''.'') ip)"

definition isMulticastIP :: "string \<Rightarrow> bool" where
  "isMulticastIP ip =
     (if \<not> isValidIPv4 ip then False
      else if CHR ''.'' \<notin> set ip then False
      else case first_octet ip of None \<Rightarrow> False | Some o1 \<Rightarrow> 224 \<le> o1 \<and> o1 \<le> 239)"

definition isAES67MulticastIP :: "string \<Rightarrow> bool" where
  "isAES67MulticastIP ip =
     (if \<not> isValidIPv4 ip then False
      else if CHR ''.'' \<notin> set ip then False
      else case first_octet ip of None \<Rightarrow> False | Some o1 \<Rightarrow> o1 = 239)"

record network_address =
  na_ip :: string
  na_port :: u16
  na_ttl :: u8

definition na_isValid :: "network_address \<Rightarrow> bool" where
  "na_isValid a \<longleftrightarrow> na_ip a \<noteq> [] \<and> na_port a > 0"

definition na_isMulticast :: "network_address \<Rightarrow> bool" where
  "na_isMulticast a = isMulticastIP (na_ip a)"

definition na_isAES67Multicast :: "network_address \<Rightarrow> bool" where
  "na_isAES67Multicast a = isAES67MulticastIP (na_ip a)"

definition na_toString :: "network_address \<Rightarrow> string" where
  "na_toString a = na_ip a @ '':'' @ show_nat (unat (na_port a))"

text \<open>Dotted decimal notation, and what the checks say about it.\<close>

definition dotted :: "nat list \<Rightarrow> string" where
  "dotted os = join_with CHR ''.'' (map show_nat os)"

lemma show_octet:
  assumes "n \<le> 255"
  shows "ipv4_group (show_nat n)" "stoi (show_nat n) = Some (int n)" "CHR ''.'' \<notin> set (show_nat n)"
proof -
  have "length (show_nat n) \<le> 3" using length_show_nat_le [of n 3] assms by simp
  moreover have "show_nat n \<noteq> []" by simp
  then have "1 \<le> length (show_nat n)" by (cases "show_nat n") simp_all
  ultimately show "ipv4_group (show_nat n)"
    by (simp add: ipv4_group_def list_all_iff show_nat_digits)
  show "stoi (show_nat n) = Some (int n)" using assms by (simp add: stoi_show_nat)
  show "CHR ''.'' \<notin> set (show_nat n)"
  proof
    assume "CHR ''.'' \<in> set (show_nat n)"
    then have "is_digit CHR ''.''" using show_nat_digits by blast
    then show False using is_digit_not_special(4) by blast
  qed
qed

lemma split_dotted:
  assumes "os \<noteq> []" "list_all (\<lambda>n. n \<le> 255) os"
  shows "split_on CHR ''.'' (dotted os) = map show_nat os"
  unfolding dotted_def
  by (rule split_join) (use assms show_octet(3) in \<open>auto simp: list_all_iff\<close>)

lemma isValidIPv4_dotted:
  assumes "length os = 4" "list_all (\<lambda>n. n \<le> 255) os"
  shows "isValidIPv4 (dotted os)"
proof -
  have "os \<noteq> []" using assms(1) by auto
  with split_dotted [OF this assms(2)] assms show ?thesis
    by (auto simp: isValidIPv4_def Let_def list_all_iff show_octet)
qed

lemma first_octet_dotted:
  assumes "list_all (\<lambda>n. n \<le> 255) (a # b # os)"
  shows "first_octet (dotted (a # b # os)) = Some (int a)" "CHR ''.'' \<in> set (dotted (a # b # os))"
proof -
  have nd: "\<forall>c \<in> set (show_nat a). c \<noteq> CHR ''.''" using show_octet(3) [of a] assms by auto
  have d: "dotted (a # b # os) = show_nat a @ CHR ''.'' # join_with CHR ''.'' (map show_nat (b # os))"
    by (simp add: dotted_def)
  have "takeWhile (\<lambda>c. c \<noteq> CHR ''.'') (dotted (a # b # os)) = show_nat a"
    unfolding d using nd by (subst takeWhile_append2) auto
  with show_octet(2) [of a] assms show "first_octet (dotted (a # b # os)) = Some (int a)"
    by (simp add: first_octet_def)
  show "CHR ''.'' \<in> set (dotted (a # b # os))" unfolding d by simp
qed

section \<open>Configuration records\<close>

record ptp_config =
  pc_domain :: int
  pc_masterMAC :: string
  pc_enabled :: bool

definition ptp_config_isValid :: "ptp_config \<Rightarrow> bool" where
  "ptp_config_isValid c \<longleftrightarrow> 0 \<le> pc_domain c \<and> pc_domain c \<le> 127"

record stream_info =
  si_id :: stream_id
  si_name :: string
  si_description :: string
  si_source :: network_address
  si_multicast :: network_address
  si_encoding :: audio_encoding
  si_sampleRate :: u32
  si_numChannels :: u16
  si_payloadType :: u8
  si_ptime :: u32
  si_framecount :: u32
  si_jitterBufferDepth :: nat
  si_ptp :: ptp_config
  si_stats :: stats
  si_isActive :: bool
  si_isConnected :: bool

definition stream_info_isValid :: "stream_info \<Rightarrow> bool" where
  "stream_info_isValid i \<longleftrightarrow> \<not> isNull (si_id i) \<and> si_name i \<noteq> [] \<and> na_isValid (si_multicast i) \<and>
     si_encoding i \<noteq> UnknownEncoding \<and> si_sampleRate i > 0 \<and> si_numChannels i > 0"

definition kMaxChannels :: nat where "kMaxChannels = 128"
definition kMaxStreams :: nat where "kMaxStreams = 64"

text \<open>Error codes are numbered in the order of their declaration.\<close>

datatype error_code =
  Success
| NetworkSocketError | NetworkBindError | NetworkMulticastJoinError | NetworkSendError
| NetworkReceiveError
| SDPParseError | SDPInvalidFormat | SDPMissingField | SDPInvalidValue
| MappingOverlap | MappingOutOfRange | MappingNoChannelsAvailable | MappingInvalidStream
| StreamNotFound | StreamAlreadyExists | StreamSampleRateMismatch | StreamInvalidConfiguration
| PTPNotAvailable | PTPNotLocked | PTPDomainInvalid
| AudioDeviceNotFound | AudioFormatNotSupported | AudioBufferOverrun | AudioBufferUnderrun
| InvalidParameter | OutOfMemory | FileNotFound | FileReadError | FileWriteError
| NotImplemented | InternalError

definition error_codes :: "error_code list" where
  "error_codes = [Success, NetworkSocketError, NetworkBindError, NetworkMulticastJoinError,
     NetworkSendError, NetworkReceiveError, SDPParseError, SDPInvalidFormat, SDPMissingField,
     SDPInvalidValue, MappingOverlap, MappingOutOfRange, MappingNoChannelsAvailable,
     MappingInvalidStream, StreamNotFound, StreamAlreadyExists, StreamSampleRateMismatch,
     StreamInvalidConfiguration, PTPNotAvailable, PTPNotLocked, PTPDomainInvalid,
     AudioDeviceNotFound, AudioFormatNotSupported, AudioBufferOverrun, AudioBufferUnderrun,
     InvalidParameter, OutOfMemory, FileNotFound, FileReadError, FileWriteError,
     NotImplemented, InternalError]"

record error_info =
  er_code :: error_code
  er_message :: string
  er_context :: string

definition error_isSuccess :: "error_info \<Rightarrow> bool" where
  "error_isSuccess e \<longleftrightarrow> er_code e = Success"

definition error_number :: "error_code \<Rightarrow> nat" where
  "error_number c = length (takeWhile (\<lambda>c'. c' \<noteq> c) error_codes)"

definition error_toString :: "error_info \<Rightarrow> string" where
  "error_toString e = ''Error '' @ show_nat (error_number (er_code e)) @ '': '' @ er_message e @
     (if er_context e \<noteq> [] then '' ('' @ er_context e @ '')'' else '''')"

section \<open>Durations\<close>

text \<open>
  \<open>formatDuration\<close> on a non-negative number of milliseconds, as every caller passes it;
  \<open>duration_cast\<close> truncates.
\<close>

definition formatDuration :: "nat \<Rightarrow> string" where
  "formatDuration ms =
     (let hours = ms div 3600000;
          ms1 = ms - hours * 3600000;
          minutes = ms1 div 60000;
          ms2 = ms1 - minutes * 60000;
          seconds = ms2 div 1000
      in (if hours > 0 then show_nat hours @ ''h '' else '''') @
         (if minutes > 0 \<or> hours > 0 then show_nat minutes @ ''m '' else '''') @
         show_nat seconds @ ''s'')"

section \<open>Properties\<close>

text \<open>
  Every stream identifier survives being printed and parsed again; the printed form has 36
  characters, and an identifier made by generate is never null, whatever random bytes it drew,
  and parses back as well.
\<close>

theorem stream_id_roundtrip:
  assumes "uuid_ok i" "length r = 16"
  shows "parse_stream_id (stream_id_toString i) = Some i \<and>
    length (stream_id_toString i) = 36 \<and>
    \<not> isNull (generate_stream_id r) \<and>
    parse_stream_id (stream_id_toString (generate_stream_id r)) = Some (generate_stream_id r)"
proof -
  have "length (stream_id_toString i) = 36"
    by (simp add: stream_id_toString_def hex_byte_def length_concat upt_rec sum_list_addf)
  with assms parse_toString generate_not_null show ?thesis by blast
qed

lemma stream_id_roundtrip_witness:
  "parse_stream_id (stream_id_toString (generate_stream_id (replicate 16 255))) =
     Some (generate_stream_id (replicate 16 255))"
  using stream_id_roundtrip [of null_id "replicate 16 255"] by (simp add: uuid_ok_def null_id_def)

text \<open>
  Address classification. A dotted quad of octets is a valid IPv4 address; it is
  classified as multicast exactly when the first octet is in 224..239, and as AES67 multicast
  exactly when it is 239. An octet above 255 makes the address invalid.
\<close>

theorem ipv4_classification:
  assumes "a \<le> 255" "b \<le> 255" "c \<le> 255" "d \<le> 255" "255 < e" "e < 1000"
  shows "isValidIPv4 (dotted [a, b, c, d]) \<and>
    (isMulticastIP (dotted [a, b, c, d]) \<longleftrightarrow> 224 \<le> a \<and> a \<le> 239) \<and>
    (isAES67MulticastIP (dotted [a, b, c, d]) \<longleftrightarrow> a = 239) \<and>
    \<not> isValidIPv4 (dotted [e, b, c, d])"
proof -
  have v: "isValidIPv4 (dotted [a, b, c, d])" using isValidIPv4_dotted assms by simp
  note f = first_octet_dotted [of a b "[c, d]"]
  have "CHR ''.'' \<notin> set (show_nat e)"
    using show_nat_digits [of e] is_digit_not_special(4) by blast
  then have "split_on CHR ''.'' (dotted [e, b, c, d]) = [show_nat e, show_nat b, show_nat c, show_nat d]"
    using split_join [of "[show_nat e, show_nat b, show_nat c, show_nat d]" "CHR ''.''"]
      show_octet(3) assms by (auto simp: dotted_def)
  moreover have "stoi (show_nat e) = Some (int e)" using assms by (simp add: stoi_show_nat)
  ultimately have "\<not> isValidIPv4 (dotted [e, b, c, d])"
    using assms by (simp add: isValidIPv4_def Let_def)
  with v f assms show ?thesis by (simp add: isMulticastIP_def isAES67MulticastIP_def)
qed

lemma ipv4_classification_witness:
  "isAES67MulticastIP (dotted [239, 69, 1, 2]) \<and> \<not> isValidIPv4 (dotted [256, 69, 1, 2])"
  using ipv4_classification [of 239 69 1 2 256] by simp

lemma hz_roundtrip: "hzToSampleRate (sampleRateToHz sr) = sr"
  by (cases sr) (simp_all add: hzToSampleRate_def)

end
