(* ===== verification/Channel_Mapper.thy ===== *)
theory Channel_Mapper
  imports Core_Types
begin

text \<open>
  \<open>NetworkEngine/StreamChannelMapper.h/.cpp\<close>: which stream owns which of the 128 device
  channels. The state is the map of mappings and the array of channel owners; every public
  operation holds the mutex for its whole body, so it is one function. Reading the owner array
  past its end, which the code does not check, is the value None.
\<close>

section \<open>Mappings\<close>

record channel_mapping =
  cm_streamID :: stream_id
  cm_streamName :: string
  cm_streamChannelCount :: u16
  cm_streamChannelOffset :: u16
  cm_deviceChannelStart :: u16
  cm_deviceChannelCount :: u16
  cm_channelMap :: "int list"

definition kMaxDeviceChannels :: nat where "kMaxDeviceChannels = 128"

definition cm_start :: "channel_mapping \<Rightarrow> nat" where "cm_start m = unat (cm_deviceChannelStart m)"
definition cm_count :: "channel_mapping \<Rightarrow> nat" where "cm_count m = unat (cm_deviceChannelCount m)"

definition getValidationError :: "channel_mapping \<Rightarrow> string" where
  "getValidationError m =
     (if isNull (cm_streamID m) then ''Stream ID is null''
      else if cm_streamChannelCount m = 0 then ''Stream channel count must be non-zero''
      else if cm_deviceChannelCount m = 0 then ''Device channel count must be non-zero''
      else if cm_start m \<ge> kMaxDeviceChannels then ''Device channel start out of range (0-127)''
      else if cm_start m + cm_count m > kMaxDeviceChannels
        then ''Device channel range exceeds maximum (128 channels)''
      else if cm_channelMap m \<noteq> [] \<and> length (cm_channelMap m) \<noteq> unat (cm_streamChannelCount m)
        then ''Custom channel map size doesn't match stream channel count''
      else '''')"

definition cm_isValid :: "channel_mapping \<Rightarrow> bool" where
  "cm_isValid m \<longleftrightarrow> getValidationError m = ''''"

definition containsDeviceChannel :: "channel_mapping \<Rightarrow> int \<Rightarrow> bool" where
  "containsDeviceChannel m deviceCh =
     (if cm_channelMap m = [] then int (cm_start m) \<le> deviceCh \<and> deviceCh < int (cm_start m + cm_count m)
      else deviceCh \<in> set (cm_channelMap m))"

definition getDeviceChannelEnd :: "channel_mapping \<Rightarrow> u16" where
  "getDeviceChannelEnd m = cm_deviceChannelStart m + cm_deviceChannelCount m"

section \<open>The mapper\<close>

record mapper =
  mp_mappings :: "(stream_id \<times> channel_mapping) list"
  mp_owners :: "stream_id list"

definition mapper_new :: mapper where
  "mapper_new = \<lparr>mp_mappings = [], mp_owners = replicate kMaxDeviceChannels null_id\<rparr>"

text \<open>\<open>deviceChannelOwners_[ch]\<close> without a bounds check: None is the read past the end.\<close>

definition owner_at :: "mapper \<Rightarrow> nat \<Rightarrow> stream_id option" where
  "owner_at mp ch = (if ch < length (mp_owners mp) then Some (mp_owners mp ! ch) else None)"

fun overlap_scan :: "mapper \<Rightarrow> stream_id \<Rightarrow> nat list \<Rightarrow> bool option" where
  "overlap_scan mp ex [] = Some False"
| "overlap_scan mp ex (ch # chs) =
     (case owner_at mp ch of
        None \<Rightarrow> None
      | Some ow \<Rightarrow> if \<not> isNull ow \<and> ow \<noteq> ex then Some True else overlap_scan mp ex chs)"

definition isOverlapWithStream :: "channel_mapping \<Rightarrow> stream_id \<Rightarrow> mapper \<Rightarrow> bool option" where
  "isOverlapWithStream m ex mp = overlap_scan mp ex [cm_start m ..< cm_start m + cm_count m]"

definition updateDeviceChannelOwners :: "channel_mapping \<Rightarrow> mapper \<Rightarrow> mapper" where
  "updateDeviceChannelOwners m mp =
     (if cm_channelMap m = []
      then mp\<lparr>mp_owners := foldl (\<lambda>ow ch. ow[ch := cm_streamID m]) (mp_owners mp)
             [cm_start m ..< cm_start m + cm_count m]\<rparr>
      else mp\<lparr>mp_owners := foldl (\<lambda>ow ch. if 0 \<le> ch \<and> ch < int kMaxDeviceChannels
             then ow[nat ch := cm_streamID m] else ow) (mp_owners mp) (cm_channelMap m)\<rparr>)"

definition clearDeviceChannelOwners :: "stream_id \<Rightarrow> mapper \<Rightarrow> mapper" where
  "clearDeviceChannelOwners i mp =
     mp\<lparr>mp_owners := map (\<lambda>ow. if ow = i then null_id else ow) (mp_owners mp)\<rparr>"

definition validateMapping :: "channel_mapping \<Rightarrow> bool \<times> string" where
  "validateMapping m = (let err = getValidationError m in (err = '''', err))"

definition addMapping :: "channel_mapping \<Rightarrow> mapper \<Rightarrow> bool \<times> mapper" where
  "addMapping m mp =
     (if \<not> fst (validateMapping m) then (False, mp)
      else if isOverlapWithStream m null_id mp \<noteq> Some False then (False, mp)
      else (True, updateDeviceChannelOwners m
              (mp\<lparr>mp_mappings := smap_put (cm_streamID m) m (mp_mappings mp)\<rparr>)))"

definition removeMapping :: "stream_id \<Rightarrow> mapper \<Rightarrow> bool \<times> mapper" where
  "removeMapping i mp =
     (case map_of (mp_mappings mp) i of
        None \<Rightarrow> (False, mp)
      | Some _ \<Rightarrow> (True, (clearDeviceChannelOwners i mp)\<lparr>mp_mappings := smap_del i (mp_mappings mp)\<rparr>))"

definition updateMapping :: "channel_mapping \<Rightarrow> mapper \<Rightarrow> bool \<times> mapper" where
  "updateMapping m mp =
     (if \<not> fst (validateMapping m) then (False, mp)
      else if isOverlapWithStream m (cm_streamID m) mp \<noteq> Some False then (False, mp)
      else let mp1 = clearDeviceChannelOwners (cm_streamID m) mp
           in (True, updateDeviceChannelOwners m
                (mp1\<lparr>mp_mappings := smap_put (cm_streamID m) m (mp_mappings mp1)\<rparr>)))"

definition getMapping :: "stream_id \<Rightarrow> mapper \<Rightarrow> channel_mapping option" where
  "getMapping i mp = map_of (mp_mappings mp) i"

definition getAllMappings :: "mapper \<Rightarrow> channel_mapping list" where
  "getAllMappings mp = map snd (mp_mappings mp)"

definition clearAll :: "mapper \<Rightarrow> mapper" where
  "clearAll mp = mp\<lparr>mp_mappings := [], mp_owners := map (\<lambda>_. null_id) (mp_owners mp)\<rparr>"

text \<open>
  \<open>findContiguousBlock\<close>: one pass with the start of the current free run (\<open>-1\<close> for none) and
  its length.
\<close>

fun block_scan :: "int \<Rightarrow> int \<Rightarrow> int \<Rightarrow> nat \<Rightarrow> stream_id list \<Rightarrow> int option" where
  "block_scan numChannels blockStart consecutiveCount i [] = None"
| "block_scan numChannels blockStart consecutiveCount i (ow # ows) =
     (if isNull ow
      then let bs = (if blockStart = -1 then int i else blockStart); cc = consecutiveCount + 1
           in if cc \<ge> numChannels then Some bs else block_scan numChannels bs cc (Suc i) ows
      else block_scan numChannels (-1) 0 (Suc i) ows)"

definition findContiguousBlock :: "nat \<Rightarrow> mapper \<Rightarrow> int option" where
  "findContiguousBlock numChannels mp = block_scan (int numChannels) (-1) 0 0 (mp_owners mp)"

definition createDefaultMapping :: "stream_id \<Rightarrow> string \<Rightarrow> u16 \<Rightarrow> mapper \<Rightarrow> channel_mapping option" where
  "createDefaultMapping i name numChannels mp =
     (case findContiguousBlock (unat numChannels) mp of
        None \<Rightarrow> None
      | Some blockStart \<Rightarrow> Some \<lparr>cm_streamID = i, cm_streamName = name,
          cm_streamChannelCount = numChannels, cm_streamChannelOffset = 0,
          cm_deviceChannelStart = of_int blockStart, cm_deviceChannelCount = numChannels,
          cm_channelMap = []\<rparr>)"

definition hasOverlap :: "channel_mapping \<Rightarrow> mapper \<Rightarrow> bool option" where
  "hasOverlap m mp = isOverlapWithStream m (cm_streamID m) mp"

fun overlapping_scan :: "mapper \<Rightarrow> stream_id \<Rightarrow> nat list \<Rightarrow> stream_id list \<Rightarrow> stream_id list option" where
  "overlapping_scan mp i [] acc = Some acc"
| "overlapping_scan mp i (ch # chs) acc =
     (case owner_at mp ch of
        None \<Rightarrow> None
      | Some ow \<Rightarrow> overlapping_scan mp i chs
          (if \<not> isNull ow \<and> ow \<noteq> i \<and> ow \<notin> set acc then acc @ [ow] else acc))"

definition getOverlappingStreams :: "channel_mapping \<Rightarrow> mapper \<Rightarrow> stream_id list option" where
  "getOverlappingStreams m mp =
     overlapping_scan mp (cm_streamID m) [cm_start m ..< cm_start m + cm_count m] []"

definition getStreamForDeviceChannel :: "int \<Rightarrow> mapper \<Rightarrow> stream_id option" where
  "getStreamForDeviceChannel deviceCh mp =
     (if deviceCh < 0 \<or> int kMaxDeviceChannels \<le> deviceCh then None
      else let ow = mp_owners mp ! nat deviceCh in if isNull ow then None else Some ow)"

definition getUnassignedDeviceChannels :: "mapper \<Rightarrow> int list" where
  "getUnassignedDeviceChannels mp =
     map int (filter (\<lambda>i. isNull (mp_owners mp ! i)) [0..<kMaxDeviceChannels])"

definition getAvailableChannelCount :: "mapper \<Rightarrow> nat" where
  "getAvailableChannelCount mp = length (getUnassignedDeviceChannels mp)"

definition getUsedChannelCount :: "mapper \<Rightarrow> nat" where
  "getUsedChannelCount mp = kMaxDeviceChannels - getAvailableChannelCount mp"

definition isChannelAssigned :: "int \<Rightarrow> mapper \<Rightarrow> bool" where
  "isChannelAssigned deviceCh mp =
     (if deviceCh < 0 \<or> int kMaxDeviceChannels \<le> deviceCh then False
      else \<not> isNull (mp_owners mp ! nat deviceCh))"

definition isRangeValid :: "u16 \<Rightarrow> u16 \<Rightarrow> bool" where
  "isRangeValid start cnt \<longleftrightarrow> unat start < kMaxDeviceChannels \<and> unat start + unat cnt \<le> kMaxDeviceChannels"

definition quote :: string where "quote = [CHR 0x22]"
definition newline :: string where "newline = [CHR 0x0A]"

definition mapping_toJSON :: "channel_mapping \<Rightarrow> string" where
  "mapping_toJSON m =
     ''    {'' @ newline @
     ''      '' @ quote @ ''streamID'' @ quote @ '': '' @ quote @ stream_id_toString (cm_streamID m) @
       quote @ '','' @ newline @
     ''      '' @ quote @ ''streamName'' @ quote @ '': '' @ quote @ cm_streamName m @ quote @ '','' @ newline @
     ''      '' @ quote @ ''streamChannelCount'' @ quote @ '': '' @
       show_nat (unat (cm_streamChannelCount m)) @ '','' @ newline @
     ''      '' @ quote @ ''streamChannelOffset'' @ quote @ '': '' @
       show_nat (unat (cm_streamChannelOffset m)) @ '','' @ newline @
     ''      '' @ quote @ ''deviceChannelStart'' @ quote @ '': '' @
       show_nat (unat (cm_deviceChannelStart m)) @ '','' @ newline @
     ''      '' @ quote @ ''deviceChannelCount'' @ quote @ '': '' @
       show_nat (unat (cm_deviceChannelCount m)) @ newline @
     ''    }''"

fun mappings_toJSON :: "channel_mapping list \<Rightarrow> string" where
  "mappings_toJSON [] = []"
| "mappings_toJSON [m] = mapping_toJSON m"
| "mappings_toJSON (m # m' # ms) = mapping_toJSON m @ '','' @ newline @ mappings_toJSON (m' # ms)"

definition mapper_toJSON :: "mapper \<Rightarrow> string" where
  "mapper_toJSON mp =
     ''{'' @ newline @ ''  '' @ quote @ ''mappings'' @ quote @ '': ['' @ newline @
     mappings_toJSON (getAllMappings mp) @ newline @ ''  ]'' @ newline @ ''}''"

text \<open>
  \<open>fromJSON\<close> does not look at its argument. Files: \<open>save\<close> returns the text it writes when the
  file opens, \<open>load\<close> gets the text of the file, None when it does not open.
\<close>

definition mapper_fromJSON :: "string \<Rightarrow> mapper \<Rightarrow> bool \<times> mapper" where
  "mapper_fromJSON json mp = (True, clearAll mp)"

definition mapper_save :: "bool \<Rightarrow> mapper \<Rightarrow> bool \<times> string" where
  "mapper_save opens mp = (if opens then (True, mapper_toJSON mp) else (False, ''''))"

definition mapper_load :: "string option \<Rightarrow> mapper \<Rightarrow> bool \<times> mapper" where
  "mapper_load file mp = (case file of None \<Rightarrow> (False, mp) | Some json \<Rightarrow> mapper_fromJSON json mp)"

section \<open>The channel array under assignment and clearing\<close>

lemma foldl_assign_range:
  assumes "b \<le> length ow"
  shows "length (foldl (\<lambda>ow ch. ow[ch := x]) ow [a..<b]) = length ow \<and>
    (\<forall>ch < length ow. foldl (\<lambda>ow ch. ow[ch := x]) ow [a..<b] ! ch =
       (if a \<le> ch \<and> ch < b then x else ow ! ch))"
  using assms
proof (induction b)
  case 0
  then show ?case by simp
next
  case (Suc b)
  then show ?case by (cases "a \<le> b") (auto simp: nth_list_update)
qed

lemma overlap_scan_False:
  "overlap_scan mp ex chs = Some False \<longleftrightarrow>
     (\<forall>ch \<in> set chs. ch < length (mp_owners mp) \<and>
        (isNull (mp_owners mp ! ch) \<or> mp_owners mp ! ch = ex))"
  by (induction chs) (auto simp: owner_at_def split: option.splits if_splits)

lemma overlap_scan_defined:
  "(\<forall>ch \<in> set chs. ch < length (mp_owners mp)) \<Longrightarrow> overlap_scan mp ex chs \<noteq> None"
  by (induction chs) (auto simp: owner_at_def)

lemma isOverlap_False:
  "isOverlapWithStream m ex mp = Some False \<longleftrightarrow>
     (\<forall>ch. cm_start m \<le> ch \<and> ch < cm_start m + cm_count m \<longrightarrow> ch < length (mp_owners mp) \<and>
        (isNull (mp_owners mp ! ch) \<or> mp_owners mp ! ch = ex))"
  by (auto simp: isOverlapWithStream_def overlap_scan_False)

lemma cm_isValid_iff:
  "cm_isValid m \<longleftrightarrow> \<not> isNull (cm_streamID m) \<and> cm_streamChannelCount m \<noteq> 0 \<and>
     0 < cm_count m \<and> cm_start m + cm_count m \<le> 128 \<and>
     (cm_channelMap m \<noteq> [] \<longrightarrow> length (cm_channelMap m) = unat (cm_streamChannelCount m))"
proof -
  have "cm_deviceChannelCount m = 0 \<longleftrightarrow> cm_count m = 0"
    using unat_gt_0 [of "cm_deviceChannelCount m"] by (auto simp: cm_count_def)
  then show ?thesis
    by (simp add: cm_isValid_def getValidationError_def kMaxDeviceChannels_def)
qed

lemma validate_iff: "fst (validateMapping m) \<longleftrightarrow> cm_isValid m"
  by (simp add: validateMapping_def Let_def cm_isValid_def)

lemma null_id_isNull [simp]: "isNull null_id"
  by (simp add: isNull_def null_id_def list_all_iff)

section \<open>The owner array agrees with the mappings\<close>

definition owner_spec :: "stream_id list \<Rightarrow> (stream_id \<Rightarrow> channel_mapping option) \<Rightarrow> bool" where
  "owner_spec ow M \<longleftrightarrow> length ow = 128 \<and>
     (\<forall>ch < 128. \<forall>i. \<not> isNull i \<longrightarrow>
        (ow ! ch = i \<longleftrightarrow> (\<exists>m. M i = Some m \<and> containsDeviceChannel m (int ch))))"

definition mapper_wf :: "mapper \<Rightarrow> bool" where
  "mapper_wf mp \<longleftrightarrow> smap_ok (mp_mappings mp) \<and>
     (\<forall>(i, m) \<in> set (mp_mappings mp). cm_streamID m = i \<and> cm_isValid m \<and> cm_channelMap m = []) \<and>
     owner_spec (mp_owners mp) (map_of (mp_mappings mp))"

lemma owner_spec_clear:
  assumes "owner_spec ow M"
  shows "owner_spec (map (\<lambda>o'. if o' = i then null_id else o') ow) (M(i := None))"
  using assms by (auto simp: owner_spec_def)

lemma owner_spec_assign:
  assumes "owner_spec (mp_owners mp) M" "M (cm_streamID m) = None" "cm_isValid m" "cm_channelMap m = []"
    and free: "\<And>ch. cm_start m \<le> ch \<Longrightarrow> ch < cm_start m + cm_count m \<Longrightarrow> isNull (mp_owners mp ! ch)"
  shows "owner_spec (mp_owners (updateDeviceChannelOwners m mp)) (M(cm_streamID m \<mapsto> m))"
proof -
  let ?i = "cm_streamID m" let ?ow = "mp_owners mp"
  let ?in = "\<lambda>ch. cm_start m \<le> ch \<and> ch < cm_start m + cm_count m"
  have l: "length ?ow = 128" using assms(1) by (simp add: owner_spec_def)
  have v: "\<not> isNull ?i" "cm_start m + cm_count m \<le> length ?ow"
    using assms(3) l by (simp_all add: cm_isValid_iff)
  have new: "mp_owners (updateDeviceChannelOwners m mp) =
      foldl (\<lambda>ow ch. ow[ch := ?i]) ?ow [cm_start m ..< cm_start m + cm_count m]"
    using assms(4) by (simp add: updateDeviceChannelOwners_def)
  note f = foldl_assign_range [OF v(2), of ?i "cm_start m"]
  have c: "containsDeviceChannel m (int ch) \<longleftrightarrow> ?in ch" for ch
    using assms(4) by (simp add: containsDeviceChannel_def) linarith
  have "mp_owners (updateDeviceChannelOwners m mp) ! ch = j \<longleftrightarrow>
      (\<exists>m'. (M(?i \<mapsto> m)) j = Some m' \<and> containsDeviceChannel m' (int ch))"
    if ch: "ch < 128" and j: "\<not> isNull j" for ch j
  proof -
    have o': "mp_owners (updateDeviceChannelOwners m mp) ! ch = (if ?in ch then ?i else ?ow ! ch)"
      unfolding new using f ch l by simp
    have old: "?ow ! ch = j \<longleftrightarrow> (\<exists>m'. M j = Some m' \<and> containsDeviceChannel m' (int ch))"
      using assms(1) ch j by (simp add: owner_spec_def)
    show ?thesis
    proof (cases "?in ch")
      case True
      then have "isNull (?ow ! ch)" using free by blast
      with j have "?ow ! ch \<noteq> j" by metis
      with old have "\<not> (\<exists>m'. M j = Some m' \<and> containsDeviceChannel m' (int ch))" by simp
      with True c o' show ?thesis by (cases "j = ?i") auto
    next
      case False
      show ?thesis
      proof (cases "j = ?i")
        case True
        have "?ow ! ch \<noteq> ?i" using old assms(2) True by simp
        with True False c o' show ?thesis by simp
      next
        case False
        have "mp_owners (updateDeviceChannelOwners m mp) ! ch = ?ow ! ch"
          using o' \<open>\<not> ?in ch\<close> by (rule trans [OF _ if_not_P])
        with False old show ?thesis by simp
      qed
    qed
  qed
  with f l new show ?thesis by (simp add: owner_spec_def)
qed

lemma updateOwners_mappings [simp]:
  "mp_mappings (updateDeviceChannelOwners m mp) = mp_mappings mp"
  by (simp add: updateDeviceChannelOwners_def)

lemma clearOwners_mappings [simp]:
  "mp_mappings (clearDeviceChannelOwners i mp) = mp_mappings mp"
  by (simp add: clearDeviceChannelOwners_def)

lemma updateOwners_mappings_upd:
  "mp_owners (updateDeviceChannelOwners m (mp\<lparr>mp_mappings := x\<rparr>)) =
     mp_owners (updateDeviceChannelOwners m mp)"
  by (simp add: updateDeviceChannelOwners_def)

lemma smap_put_set:
  "smap_ok xs \<Longrightarrow> (i, m) \<in> set (smap_put k v xs) \<Longrightarrow> (i, m) = (k, v) \<or> (i, m) \<in> set xs"
  by (induction k v xs rule: smap_put.induct) (auto simp: smap_ok_def split: if_splits)

lemma mapper_wf_assign:
  assumes wf: "smap_ok (mp_mappings mp)"
      "\<forall>(i, m) \<in> set (mp_mappings mp). cm_streamID m = i \<and> cm_isValid m \<and> cm_channelMap m = []"
      "owner_spec (mp_owners mp) M" "M(cm_streamID m \<mapsto> m) = (map_of (mp_mappings mp))(cm_streamID m \<mapsto> m)"
    and "M (cm_streamID m) = None" "cm_isValid m" "cm_channelMap m = []"
    and free: "\<And>ch. cm_start m \<le> ch \<Longrightarrow> ch < cm_start m + cm_count m \<Longrightarrow> isNull (mp_owners mp ! ch)"
  shows "mapper_wf (updateDeviceChannelOwners m
    (mp\<lparr>mp_mappings := smap_put (cm_streamID m) m (mp_mappings mp)\<rparr>))"
proof -
  have "owner_spec (mp_owners (updateDeviceChannelOwners m mp)) (M(cm_streamID m \<mapsto> m))"
    by (rule owner_spec_assign [OF wf(3) assms(5-7) free])
  moreover have "\<forall>(i, m') \<in> set (smap_put (cm_streamID m) m (mp_mappings mp)).
      cm_streamID m' = i \<and> cm_isValid m' \<and> cm_channelMap m' = []"
    using wf(2) assms(6,7) smap_put_set [OF wf(1)] by fastforce
  ultimately show ?thesis
    using wf(1,4) by (simp add: mapper_wf_def updateOwners_mappings_upd smap_ok_put map_of_smap_put)
qed

lemma mapper_wf_new: "mapper_wf mapper_new"
  by (auto simp: mapper_wf_def mapper_new_def smap_ok_def owner_spec_def kMaxDeviceChannels_def)

lemma mapper_wf_clearAll: "length (mp_owners mp) = 128 \<Longrightarrow> mapper_wf (clearAll mp)"
  by (auto simp: mapper_wf_def clearAll_def smap_ok_def owner_spec_def)

lemma mapper_wf_length: "mapper_wf mp \<Longrightarrow> length (mp_owners mp) = 128"
  by (simp add: mapper_wf_def owner_spec_def)

lemma addMapping_wf:
  assumes "mapper_wf mp" "cm_channelMap m = []" "getMapping (cm_streamID m) mp = None"
  shows "mapper_wf (snd (addMapping m mp))"
proof (cases "cm_isValid m \<and> isOverlapWithStream m null_id mp = Some False")
  case True
  have "mapper_wf (updateDeviceChannelOwners m
      (mp\<lparr>mp_mappings := smap_put (cm_streamID m) m (mp_mappings mp)\<rparr>))"
  proof (rule mapper_wf_assign)
    show "isNull (mp_owners mp ! ch)" if "cm_start m \<le> ch" "ch < cm_start m + cm_count m" for ch
      using True that unfolding isOverlap_False by (metis null_id_isNull)
    show "owner_spec (mp_owners mp) (map_of (mp_mappings mp))"
      using assms(1) by (simp add: mapper_wf_def)
  qed (use assms True in \<open>simp_all add: mapper_wf_def getMapping_def\<close>)
  with True show ?thesis by (simp add: addMapping_def validate_iff)
next
  case False
  with assms(1) show ?thesis by (auto simp: addMapping_def validate_iff)
qed

lemma updateMapping_wf:
  assumes "mapper_wf mp" "cm_channelMap m = []"
  shows "mapper_wf (snd (updateMapping m mp))"
proof (cases "cm_isValid m \<and> isOverlapWithStream m (cm_streamID m) mp = Some False")
  case True
  let ?i = "cm_streamID m" let ?mp1 = "clearDeviceChannelOwners ?i mp"
  have o1: "mp_owners ?mp1 = map (\<lambda>o'. if o' = ?i then null_id else o') (mp_owners mp)"
    by (simp add: clearDeviceChannelOwners_def)
  have "mapper_wf (updateDeviceChannelOwners m
      (?mp1\<lparr>mp_mappings := smap_put ?i m (mp_mappings ?mp1)\<rparr>))"
  proof (rule mapper_wf_assign)
    show "owner_spec (mp_owners ?mp1) ((map_of (mp_mappings mp))(?i := None))"
      unfolding o1 by (rule owner_spec_clear) (use assms in \<open>simp add: mapper_wf_def\<close>)
    show "isNull (mp_owners ?mp1 ! ch)" if "cm_start m \<le> ch" "ch < cm_start m + cm_count m" for ch
      using True that unfolding isOverlap_False o1 by auto
  qed (use assms True in \<open>simp_all add: mapper_wf_def\<close>)
  with True show ?thesis by (simp add: updateMapping_def validate_iff Let_def)
next
  case False
  with assms(1) show ?thesis by (auto simp: updateMapping_def validate_iff)
qed

lemma removeMapping_wf:
  assumes "mapper_wf mp"
  shows "mapper_wf (snd (removeMapping i mp))"
proof (cases "map_of (mp_mappings mp) i")
  case None
  with assms show ?thesis by (simp add: removeMapping_def)
next
  case (Some m)
  have "owner_spec (map (\<lambda>o'. if o' = i then null_id else o') (mp_owners mp))
      ((map_of (mp_mappings mp))(i := None))"
    by (rule owner_spec_clear) (use assms in \<open>simp add: mapper_wf_def\<close>)
  moreover have "set (smap_del i (mp_mappings mp)) \<subseteq> set (mp_mappings mp)"
    by (auto simp: smap_del_def)
  ultimately show ?thesis
    using assms Some
    by (auto simp: mapper_wf_def removeMapping_def clearDeviceChannelOwners_def smap_ok_del
        map_of_smap_del)
qed

section \<open>Free blocks\<close>

definition free_block :: "stream_id list \<Rightarrow> nat \<Rightarrow> nat \<Rightarrow> bool" where
  "free_block ow n s \<longleftrightarrow> s + n \<le> length ow \<and> (\<forall>k \<in> {s..<s + n}. isNull (ow ! k))"

lemma block_scan_correct:
  assumes "i + length ows = length ow" "drop i ow = ows" "c \<le> i" "c < n"
    and "\<forall>k \<in> {i - c..<i}. isNull (ow ! k)" "\<forall>s < i - c. \<not> free_block ow n s"
  shows "case block_scan (int n) (if c = 0 then -1 else int (i - c)) (int c) i ows of
      Some b \<Rightarrow> \<exists>s. b = int s \<and> free_block ow n s \<and> (\<forall>s' < s. \<not> free_block ow n s')
    | None \<Rightarrow> \<forall>s. \<not> free_block ow n s"
  using assms
proof (induction ows arbitrary: i c)
  case Nil
  have "\<not> free_block ow n s" for s
  proof
    assume f: "free_block ow n s"
    then have "i - c \<le> s" using Nil.prems(6) by (meson not_le)
    moreover have "s + n \<le> i" using f Nil.prems(1) by (simp add: free_block_def)
    ultimately show False using Nil.prems(4) by linarith
  qed
  then show ?case by simp
next
  case (Cons x ows)
  have x: "ow ! i = x" "i < length ow" and d: "drop (Suc i) ow = ows"
    using Cons.prems(1,2) by (simp_all add: nth_via_drop) (metis drop_Suc list.sel(3) tl_drop)
  show ?case
  proof (cases "isNull x")
    case True
    have fr: "\<forall>k \<in> {Suc i - Suc c..<Suc i}. isNull (ow ! k)"
      using Cons.prems(5) True x(1) by (auto simp: less_Suc_eq)
    show ?thesis
    proof (cases "Suc c < n")
      case True
      have "block_scan (int n) (if c = 0 then -1 else int (i - c)) (int c) i (x # ows) =
          block_scan (int n) (if Suc c = 0 then -1 else int (Suc i - Suc c)) (int (Suc c)) (Suc i) ows"
        using True \<open>isNull x\<close> by (cases "c = 0") (simp_all add: Let_def add.commute)
      with Cons.IH [of "Suc i" "Suc c"] Cons.prems d fr True show ?thesis by simp
    next
      case False
      then have n: "n = Suc c" using Cons.prems(4) by simp
      have "free_block ow n (i - c)"
        using fr x(2) Cons.prems(3) n by (auto simp: free_block_def)
      moreover have "block_scan (int n) (if c = 0 then -1 else int (i - c)) (int c) i (x # ows) =
          Some (int (i - c))"
        using True n by (auto simp: Let_def)
      ultimately show ?thesis using Cons.prems(6) by (simp only: option.case) blast
    qed
  next
    case False
    have "\<not> free_block ow n s" if "s < Suc i" for s
    proof
      assume f: "free_block ow n s"
      then have "i - c \<le> s" using Cons.prems(6) by (meson not_le)
      then have "i \<in> {s..<s + n}" using that Cons.prems(3,4) by auto
      with f False x(1) show False unfolding free_block_def by blast
    qed
    with Cons.IH [of "Suc i" 0] Cons.prems d False show ?thesis by simp
  qed
qed

lemma findContiguousBlock_correct:
  assumes "0 < n"
  shows "case findContiguousBlock n mp of
      Some b \<Rightarrow> \<exists>s. b = int s \<and> free_block (mp_owners mp) n s \<and>
        (\<forall>s' < s. \<not> free_block (mp_owners mp) n s')
    | None \<Rightarrow> \<forall>s. \<not> free_block (mp_owners mp) n s"
  using block_scan_correct [of 0 "mp_owners mp" "mp_owners mp" 0 n] assms
  by (simp add: findContiguousBlock_def)

section \<open>Histories of a mapper\<close>

text \<open>
  The operations in the way the stream manager uses them: a new stream gets a fresh identifier
  and a sequential mapping. Refused calls are steps too.
\<close>

inductive mapper_step :: "mapper \<Rightarrow> mapper \<Rightarrow> bool" where
  step_add: "cm_channelMap m = [] \<Longrightarrow> getMapping (cm_streamID m) mp = None \<Longrightarrow>
     mapper_step mp (snd (addMapping m mp))"
| step_update: "cm_channelMap m = [] \<Longrightarrow> mapper_step mp (snd (updateMapping m mp))"
| step_remove: "mapper_step mp (snd (removeMapping i mp))"
| step_clear: "mapper_step mp (clearAll mp)"
| step_load: "mapper_step mp (snd (mapper_load file mp))"

inductive_cases mapper_stepE: "mapper_step mp mp'"

definition mapper_start :: "mapper \<Rightarrow> bool" where
  "mapper_start mp \<longleftrightarrow> mp = mapper_new"

interpretation mapper_sys: invariant_system mapper_start mapper_step mapper_wf
proof (unfold_locales, goal_cases)
  case (1 mp)
  then show ?case by (simp add: mapper_start_def mapper_wf_new)
next
  case (2 mp mp')
  have cl: "mapper_wf (clearAll mp)"
    by (rule mapper_wf_clearAll) (rule mapper_wf_length [OF 2(1)])
  from 2(2) show ?case
  proof (cases rule: mapper_step.cases)
    case (step_add m)
    show ?thesis unfolding step_add(1) by (rule addMapping_wf [OF 2(1) step_add(2,3)])
  next
    case (step_update m)
    show ?thesis unfolding step_update(1) by (rule updateMapping_wf [OF 2(1) step_update(2)])
  next
    case (step_remove i)
    show ?thesis unfolding step_remove by (rule removeMapping_wf [OF 2(1)])
  next
    case step_clear
    show ?thesis unfolding step_clear by (rule cl)
  next
    case (step_load f)
    show ?thesis unfolding step_load
      using cl 2(1) by (cases f) (simp_all add: mapper_load_def mapper_fromJSON_def)
  qed
qed

lemma mapper_wf_owner:
  assumes "mapper_wf mp" "0 \<le> ch" "ch < 128"
  shows "getStreamForDeviceChannel ch mp = Some i \<longleftrightarrow>
    (\<exists>m. getMapping i mp = Some m \<and> containsDeviceChannel m ch)"
proof -
  have os: "owner_spec (mp_owners mp) (map_of (mp_mappings mp))"
    using assms(1) by (simp add: mapper_wf_def)
  have ch: "nat ch < 128" "int (nat ch) = ch" using assms(2,3) by auto
  have spec: "mp_owners mp ! nat ch = i \<longleftrightarrow>
      (\<exists>m. map_of (mp_mappings mp) i = Some m \<and> containsDeviceChannel m ch)" if "\<not> isNull i"
    using os [unfolded owner_spec_def, THEN conjunct2, rule_format, OF ch(1) that] unfolding ch(2) .
  have "\<not> isNull i" if "getMapping i mp = Some m" for m
  proof -
    have "(i, m) \<in> set (mp_mappings mp)" using that by (simp add: getMapping_def map_of_SomeD)
    with assms(1) show ?thesis by (auto simp: mapper_wf_def cm_isValid_iff)
  qed
  then have n: "(\<exists>m. getMapping i mp = Some m \<and> containsDeviceChannel m ch) \<Longrightarrow> \<not> isNull i" by blast
  have "getStreamForDeviceChannel ch mp = Some i \<longleftrightarrow> \<not> isNull i \<and> mp_owners mp ! nat ch = i"
    using assms(2,3) by (auto simp: getStreamForDeviceChannel_def kMaxDeviceChannels_def Let_def)
  with spec n show ?thesis unfolding getMapping_def by blast
qed

section \<open>Counting channels\<close>

lemma used_count:
  assumes "length (mp_owners mp) = 128"
  shows "getUsedChannelCount mp = card {ch. ch < 128 \<and> \<not> isNull (mp_owners mp ! ch)}"
proof -
  have "getAvailableChannelCount mp = card {ch. ch < 128 \<and> isNull (mp_owners mp ! ch)}"
    by (simp add: getAvailableChannelCount_def getUnassignedDeviceChannels_def kMaxDeviceChannels_def
        distinct_length_filter Collect_conj_eq Int_commute lessThan_def atLeast0LessThan)
  moreover have "{ch. ch < 128 \<and> isNull (mp_owners mp ! ch)} \<union>
      {ch. ch < 128 \<and> \<not> isNull (mp_owners mp ! ch)} = {..<128}" by auto
  then have "card {ch. ch < 128 \<and> isNull (mp_owners mp ! ch)} +
      card {ch. ch < 128 \<and> \<not> isNull (mp_owners mp ! ch)} = 128"
    by (subst card_Un_disjoint [symmetric]) auto
  ultimately show ?thesis by (simp add: getUsedChannelCount_def kMaxDeviceChannels_def)
qed

lemma used_count_sum:
  assumes "mapper_wf mp"
  shows "getUsedChannelCount mp = sum_list (map cm_count (getAllMappings mp))"
proof -
  let ?ms = "mp_mappings mp"
  let ?chs = "\<lambda>p. {cm_start (snd p) ..< cm_start (snd p) + cm_count (snd p)}"
  have ok: "\<forall>(i, m) \<in> set ?ms. cm_streamID m = i \<and> cm_isValid m \<and> cm_channelMap m = []"
    and sm: "smap_ok ?ms" using assms by (simp_all add: mapper_wf_def)
  have m: "map_of ?ms (fst p) = Some (snd p)" if "p \<in> set ?ms" for p
    using sm that by (cases p) (simp add: smap_ok_def)
  have c: "ch \<in> ?chs p \<longleftrightarrow> ch < 128 \<and> mp_owners mp ! ch = fst p" if "p \<in> set ?ms" for p ch
  proof -
    have p: "cm_isValid (snd p)" "cm_streamID (snd p) = fst p" "cm_channelMap (snd p) = []"
      using ok that by auto
    then have "\<not> isNull (fst p)" "cm_start (snd p) + cm_count (snd p) \<le> 128"
      by (auto simp: cm_isValid_iff)
    moreover have "containsDeviceChannel (snd p) (int ch) \<longleftrightarrow> ch \<in> ?chs p"
      using p(3) by (auto simp: containsDeviceChannel_def)
    moreover have "ch < 128 \<Longrightarrow> \<not> isNull (fst p) \<Longrightarrow> mp_owners mp ! ch = fst p \<longleftrightarrow>
        containsDeviceChannel (snd p) (int ch)"
      using assms m [OF that] by (simp add: mapper_wf_def owner_spec_def)
    ultimately show ?thesis by auto
  qed
  have u: "{ch. ch < 128 \<and> \<not> isNull (mp_owners mp ! ch)} = (\<Union>p \<in> set ?ms. ?chs p)"
  proof (rule set_eqI)
    fix ch
    have "(\<exists>p \<in> set ?ms. ch \<in> ?chs p)" if "ch < 128" "\<not> isNull (mp_owners mp ! ch)"
    proof -
      have "mp_owners mp ! ch = mp_owners mp ! ch \<longleftrightarrow> (\<exists>m. map_of ?ms (mp_owners mp ! ch) = Some m \<and>
          containsDeviceChannel m (int ch))"
        using assms that unfolding mapper_wf_def owner_spec_def by blast
      then obtain m where "map_of ?ms (mp_owners mp ! ch) = Some m" by blast
      then have "(mp_owners mp ! ch, m) \<in> set ?ms" by (rule map_of_SomeD)
      with c [OF this, of ch] that show ?thesis by (metis fst_conv)
    qed
    moreover have "\<not> isNull (mp_owners mp ! ch)" if "p \<in> set ?ms" "ch \<in> ?chs p" for p
      using c [OF that(1), of ch] that ok by (auto simp: cm_isValid_iff)
    ultimately show "ch \<in> {ch. ch < 128 \<and> \<not> isNull (mp_owners mp ! ch)} \<longleftrightarrow> ch \<in> (\<Union>p \<in> set ?ms. ?chs p)"
      using c by blast
  qed
  have inj: "fst p = fst q \<Longrightarrow> p = q" if "p \<in> set ?ms" "q \<in> set ?ms" for p q
    using m [OF that(1)] m [OF that(2)] by (simp add: prod_eq_iff)
  have "card (\<Union>p \<in> set ?ms. ?chs p) = (\<Sum>p \<in> set ?ms. card (?chs p))"
    by (rule card_UN_disjoint) (use c inj in \<open>fastforce+\<close>)
  also have "\<dots> = (\<Sum>p \<in> set ?ms. cm_count (snd p))" by simp
  also have "\<dots> = sum_list (map (\<lambda>p. cm_count (snd p)) ?ms)"
  proof (rule sum_list_distinct_conv_sum_set [symmetric])
    show "distinct ?ms" using sm by (simp add: smap_ok_def distinct_map)
  qed
  finally show ?thesis
    using used_count [OF mapper_wf_length [OF assms]] u by (simp add: getAllMappings_def comp_def)
qed

section \<open>Properties\<close>

text \<open>
  C4. No channel has two owners. In every state the mapper can reach through additions with
  fresh identifiers, updates, removals and clearing, with sequential mappings, the channel
  table and the mappings say the same: getStreamForDeviceChannel names a stream exactly when
  that stream's mapping contains the channel, so two different mappings never share a device
  channel, and the number of used channels is the sum of the mapped channel counts.
\<close>

theorem mapper_no_overlap:
  assumes "reach mapper_start mapper_step mp"
  shows "(\<forall>ch. 0 \<le> ch \<and> ch < 128 \<longrightarrow> (\<forall>i. getStreamForDeviceChannel ch mp = Some i \<longleftrightarrow>
        (\<exists>m. getMapping i mp = Some m \<and> containsDeviceChannel m ch))) \<and>
    (\<forall>i j m m' ch. getMapping i mp = Some m \<and> getMapping j mp = Some m' \<and>
        containsDeviceChannel m ch \<and> containsDeviceChannel m' ch \<longrightarrow> i = j) \<and>
    getUsedChannelCount mp = sum_list (map cm_count (getAllMappings mp))"
proof -
  have wf: "mapper_wf mp" using assms by (rule mapper_sys.reach_inv)
  have rng: "0 \<le> ch \<and> ch < 128" if "getMapping i mp = Some m" "containsDeviceChannel m ch" for i m ch
  proof -
    have "(i, m) \<in> set (mp_mappings mp)" using that(1) by (simp add: getMapping_def map_of_SomeD)
    then have "cm_isValid m" "cm_channelMap m = []" using wf by (auto simp: mapper_wf_def)
    with that(2) show ?thesis by (auto simp: containsDeviceChannel_def cm_isValid_iff)
  qed
  have "i = j" if "getMapping i mp = Some m" "getMapping j mp = Some m'"
    "containsDeviceChannel m ch" "containsDeviceChannel m' ch" for i j m m' ch
    using mapper_wf_owner [OF wf] rng [OF that(1,3)] that by (metis option.inject)
  with mapper_wf_owner [OF wf] used_count_sum [OF wf] show ?thesis by blast
qed

definition example_mapping :: "u8 \<Rightarrow> u16 \<Rightarrow> u16 \<Rightarrow> int list \<Rightarrow> channel_mapping" where
  "example_mapping i start cnt cmap = \<lparr>cm_streamID = StreamID (i # replicate 15 0), cm_streamName = ''s'',
     cm_streamChannelCount = cnt, cm_streamChannelOffset = 0, cm_deviceChannelStart = start,
     cm_deviceChannelCount = cnt, cm_channelMap = cmap\<rparr>"

lemma mapper_no_overlap_witness:
  "getUsedChannelCount (snd (addMapping (example_mapping 2 8 6 [])
     (snd (addMapping (example_mapping 1 0 8 []) mapper_new)))) = 14"
proof -
  let ?m1 = "snd (addMapping (example_mapping 1 0 8 []) mapper_new)"
  let ?m2 = "snd (addMapping (example_mapping 2 8 6 []) ?m1)"
  have "getMapping (cm_streamID (example_mapping 1 0 8 [])) mapper_new = None"
    by (simp add: getMapping_def mapper_new_def)
  then have s1: "mapper_step mapper_new ?m1" by (intro step_add) (simp_all add: example_mapping_def)
  have "getMapping (cm_streamID (example_mapping 2 8 6 [])) ?m1 = None" by code_simp
  then have s2: "mapper_step ?m1 ?m2" by (intro step_add) (simp_all add: example_mapping_def)
  have "reach mapper_start mapper_step mapper_new" by (simp add: reach_start mapper_start_def)
  from reach_step [OF reach_step [OF this s1] s2] have r: "reach mapper_start mapper_step ?m2" .
  have "sum_list (map cm_count (getAllMappings ?m2)) = 14" by code_simp
  with mapper_no_overlap [OF r] show ?thesis by simp
qed

text \<open>
  findContiguousBlock returns the lowest start of a run of that many free channels, and
  nothing exactly when there is no such run.
\<close>

theorem findContiguousBlock_lowest:
  assumes "0 < n" "mapper_wf mp"
  shows "(findContiguousBlock n mp = Some b \<longleftrightarrow>
      (\<exists>s. b = int s \<and> free_block (mp_owners mp) n s \<and> (\<forall>s' < s. \<not> free_block (mp_owners mp) n s'))) \<and>
    (findContiguousBlock n mp = None \<longleftrightarrow> \<not> (\<exists>s. free_block (mp_owners mp) n s))"
proof (cases "findContiguousBlock n mp")
  case None
  with findContiguousBlock_correct [OF assms(1), of mp] show ?thesis by auto
next
  case (Some a)
  then obtain s where s: "a = int s" "free_block (mp_owners mp) n s"
    "\<forall>s' < s. \<not> free_block (mp_owners mp) n s'"
    using findContiguousBlock_correct [OF assms(1), of mp] by auto
  have "s' = s" if "free_block (mp_owners mp) n s'" "\<forall>s'' < s'. \<not> free_block (mp_owners mp) n s''" for s'
    using that s(2,3) by (meson linorder_neqE_nat)
  then have "Some a = Some b \<longleftrightarrow>
      (\<exists>s. b = int s \<and> free_block (mp_owners mp) n s \<and> (\<forall>s' < s. \<not> free_block (mp_owners mp) n s'))"
    using s by (metis option.inject)
  moreover have "Some a \<noteq> None" "\<exists>s. free_block (mp_owners mp) n s" using s(2) by blast+
  ultimately show ?thesis unfolding Some by simp
qed

lemma findContiguousBlock_lowest_witness:
  "findContiguousBlock 4 mapper_new = Some 0"
proof -
  have "free_block (mp_owners mapper_new) 4 0"
    by (auto simp: free_block_def mapper_new_def kMaxDeviceChannels_def)
  then have "\<exists>s. (0::int) = int s \<and> free_block (mp_owners mapper_new) 4 s \<and>
      (\<forall>s' < s. \<not> free_block (mp_owners mapper_new) 4 s')" by (intro exI [of _ 0]) simp
  with findContiguousBlock_lowest [of 4 mapper_new 0] show ?thesis by (simp add: mapper_wf_new)
qed

text \<open>
  Auto-assignment is sound: a mapping that createDefaultMapping proposes for a new stream
  is accepted by addMapping, gives the stream exactly the lowest free block of that many
  channels, and takes no channel from any other stream; when it proposes none, no run of that
  many free channels exists.
\<close>

theorem default_mapping_accepted:
  assumes "mapper_wf mp" "0 < n" "\<not> isNull i" "getMapping i mp = None"
  shows "case createDefaultMapping i name n mp of
      None \<Rightarrow> \<forall>s. \<not> free_block (mp_owners mp) (unat n) s
    | Some m \<Rightarrow> fst (addMapping m mp) \<and> getMapping i (snd (addMapping m mp)) = Some m \<and>
        cm_count m = unat n \<and> free_block (mp_owners mp) (unat n) (cm_start m) \<and>
        (\<forall>ch. 0 \<le> ch \<and> ch < 128 \<longrightarrow> getStreamForDeviceChannel ch (snd (addMapping m mp)) =
           (if containsDeviceChannel m ch then Some i else getStreamForDeviceChannel ch mp))"
proof -
  have n: "0 < unat n" using assms(2) by (simp add: unat_gt_0)
  show ?thesis
  proof (cases "findContiguousBlock (unat n) mp")
    case None
    with findContiguousBlock_correct [OF n, of mp] show ?thesis
      by (simp add: createDefaultMapping_def)
  next
    case (Some b)
    then obtain s where s: "b = int s" "free_block (mp_owners mp) (unat n) s"
      using findContiguousBlock_correct [OF n, of mp] by auto
    define m where "m = \<lparr>cm_streamID = i, cm_streamName = name, cm_streamChannelCount = n,
      cm_streamChannelOffset = 0, cm_deviceChannelStart = of_int b, cm_deviceChannelCount = n,
      cm_channelMap = []\<rparr>"
    have l: "length (mp_owners mp) = 128" using assms(1) by (rule mapper_wf_length)
    have sn: "s + unat n \<le> 128" using s(2) l by (simp add: free_block_def)
    have m: "cm_start m = s" "cm_count m = unat n" "cm_streamID m = i" "cm_channelMap m = []"
      using sn s(1) n by (simp_all add: m_def cm_start_def cm_count_def unat_of_nat)
    have valid: "cm_isValid m" using assms(2,3) m sn n by (auto simp: cm_isValid_iff m_def)
    have ov: "isOverlapWithStream m null_id mp = Some False"
      using s(2) sn l m by (auto simp: isOverlap_False free_block_def)
    define mp' where "mp' = updateDeviceChannelOwners m
      (mp\<lparr>mp_mappings := smap_put (cm_streamID m) m (mp_mappings mp)\<rparr>)"
    have a: "addMapping m mp = (True, mp')" using valid ov by (simp add: addMapping_def validate_iff mp'_def)
    have g: "getMapping j mp' = ((\<lambda>j. getMapping j mp)(i \<mapsto> m)) j" for j
      using assms(1) m(3) by (simp add: mp'_def getMapping_def map_of_smap_put mapper_wf_def)
    have wf': "mapper_wf mp'"
      using addMapping_wf [OF assms(1), of m] a m(3,4) assms(4) by simp
    have "getStreamForDeviceChannel ch mp' =
        (if containsDeviceChannel m ch then Some i else getStreamForDeviceChannel ch mp)"
      if "0 \<le> ch" "ch < 128" for ch
    proof (cases "containsDeviceChannel m ch")
      case True
      with mapper_wf_owner [OF wf' that, of i] g [of i] show ?thesis by simp
    next
      case False
      have "getStreamForDeviceChannel ch mp' = Some j \<longleftrightarrow> getStreamForDeviceChannel ch mp = Some j" for j
        using mapper_wf_owner [OF wf' that, of j] mapper_wf_owner [OF assms(1) that, of j] g [of j]
          False assms(4) by (cases "j = i") auto
      then have "getStreamForDeviceChannel ch mp' = getStreamForDeviceChannel ch mp"
        by (metis not_Some_eq)
      with False show ?thesis by simp
    qed
    moreover have "createDefaultMapping i name n mp = Some m"
      by (simp add: createDefaultMapping_def m_def Some)
    ultimately show ?thesis using s m a g [of i] by simp
  qed
qed

lemma default_mapping_accepted_witness:
  "fst (addMapping (example_mapping 1 0 2 []) mapper_new)"
proof -
  have "createDefaultMapping (StreamID (1 # replicate 15 0)) ''s'' 2 mapper_new =
      Some (example_mapping 1 0 2 [])" by code_simp
  with default_mapping_accepted [OF mapper_wf_new, of 2 "StreamID (1 # replicate 15 0)" "''s''"]
  show ?thesis by (simp add: isNull_def getMapping_def mapper_new_def)
qed

text \<open>
  Adding an identifier a second time breaks the agreement. When a mapped stream is added
  again at channels that are all free, addMapping succeeds and replaces the mapping, but the
  channels of the old mapping stay assigned to the stream although its mapping no longer
  contains them.
\<close>

theorem readd_leaves_stale_owners:
  assumes "mapper_wf mp" "getMapping (cm_streamID m) mp = Some old" "cm_isValid m" "cm_channelMap m = []"
    and "free_block (mp_owners mp) (cm_count m) (cm_start m)"
    and "containsDeviceChannel old ch" "0 \<le> ch" "ch < 128"
  shows "fst (addMapping m mp) \<and> getMapping (cm_streamID m) (snd (addMapping m mp)) = Some m \<and>
    getStreamForDeviceChannel ch (snd (addMapping m mp)) = Some (cm_streamID m) \<and>
    \<not> containsDeviceChannel m ch"
proof -
  let ?i = "cm_streamID m"
  have l: "length (mp_owners mp) = 128" using assms(1) by (rule mapper_wf_length)
  have ov: "isOverlapWithStream m null_id mp = Some False"
    using assms(5) l by (auto simp: isOverlap_False free_block_def)
  define mp' where "mp' = updateDeviceChannelOwners m (mp\<lparr>mp_mappings := smap_put ?i m (mp_mappings mp)\<rparr>)"
  have a: "addMapping m mp = (True, mp')" using assms(3) ov by (simp add: addMapping_def validate_iff mp'_def)
  have own: "getStreamForDeviceChannel ch mp = Some ?i"
    using mapper_wf_owner [OF assms(1,7,8)] assms(2,6) by blast
  then have o1: "mp_owners mp ! nat ch = ?i" "\<not> isNull ?i"
    using assms(7,8) by (auto simp: getStreamForDeviceChannel_def kMaxDeviceChannels_def Let_def split: if_splits)
  have nc: "\<not> (cm_start m \<le> nat ch \<and> nat ch < cm_start m + cm_count m)"
  proof
    assume "cm_start m \<le> nat ch \<and> nat ch < cm_start m + cm_count m"
    then have "nat ch \<in> {cm_start m..<cm_start m + cm_count m}" by simp
    with assms(5) have "isNull (mp_owners mp ! nat ch)" unfolding free_block_def by blast
    with o1 show False by simp
  qed
  have le: "cm_start m + cm_count m \<le> length (mp_owners mp)" using assms(5) by (simp add: free_block_def)
  have "mp_owners mp' ! nat ch = ?i"
    using foldl_assign_range [OF le, of ?i "cm_start m"] o1(1) assms(4,7,8) l
    by (simp add: mp'_def updateDeviceChannelOwners_def nat_less_iff)
  then have "getStreamForDeviceChannel ch mp' = Some ?i"
    using o1(2) assms(7,8) by (simp add: getStreamForDeviceChannel_def kMaxDeviceChannels_def)
  moreover have "getMapping ?i mp' = Some m"
    using assms(1) by (simp add: mp'_def getMapping_def map_of_smap_put mapper_wf_def)
  moreover have "\<not> containsDeviceChannel m ch"
    using nc assms(4,7) by (auto simp: containsDeviceChannel_def)
  ultimately show ?thesis by (simp add: a)
qed

lemma readd_leaves_stale_owners_witness:
  "getStreamForDeviceChannel 1 (snd (addMapping (example_mapping 1 4 2 [])
     (snd (addMapping (example_mapping 1 0 2 []) mapper_new)))) = Some (StreamID (1 # replicate 15 0)) \<and>
   \<not> containsDeviceChannel (example_mapping 1 4 2 []) 1"
proof -
  let ?mp = "snd (addMapping (example_mapping 1 0 2 []) mapper_new)"
  let ?m = "example_mapping 1 4 2 []"
  have wf: "mapper_wf ?mp"
    by (rule addMapping_wf [OF mapper_wf_new]) (simp_all add: example_mapping_def getMapping_def mapper_new_def)
  have g: "getMapping (cm_streamID ?m) ?mp = Some (example_mapping 1 0 2 [])" by code_simp
  have v: "cm_isValid ?m" "cm_channelMap ?m = []" by code_simp+
  have f: "free_block (mp_owners ?mp) (cm_count ?m) (cm_start ?m)" by code_simp
  have c: "containsDeviceChannel (example_mapping 1 0 2 []) 1" by code_simp
  from readd_leaves_stale_owners [OF wf g v f c] show ?thesis by (simp add: example_mapping_def)
qed

text \<open>
  A custom channel map bypasses the overlap check. addMapping checks the channels from
  deviceChannelStart on, but assigns the channels listed in the map: a mapping whose range is
  free and whose map lists a channel of another stream is accepted and takes that channel,
  while the other stream's mapping still contains it.
\<close>

theorem custom_map_steals:
  assumes "mapper_wf mp" "getMapping j mp = Some m'" "containsDeviceChannel m' ch"
    and "cm_isValid m" "cm_streamID m \<noteq> j" "ch \<in> set (cm_channelMap m)" "0 \<le> ch" "ch < 128"
    and "free_block (mp_owners mp) (cm_count m) (cm_start m)"
  shows "fst (addMapping m mp) \<and> getStreamForDeviceChannel ch mp = Some j \<and>
    getStreamForDeviceChannel ch (snd (addMapping m mp)) = Some (cm_streamID m) \<and>
    getMapping j (snd (addMapping m mp)) = Some m'"
proof -
  let ?i = "cm_streamID m"
  have l: "length (mp_owners mp) = 128" using assms(1) by (rule mapper_wf_length)
  have ov: "isOverlapWithStream m null_id mp = Some False"
    using assms(9) l by (auto simp: isOverlap_False free_block_def)
  define mp' where "mp' = updateDeviceChannelOwners m (mp\<lparr>mp_mappings := smap_put ?i m (mp_mappings mp)\<rparr>)"
  have a: "addMapping m mp = (True, mp')" using assms(4) ov by (simp add: addMapping_def validate_iff mp'_def)
  let ?put = "\<lambda>ow ch. if 0 \<le> ch \<and> ch < int kMaxDeviceChannels then ow[nat ch := ?i] else ow"
  have keep: "foldl ?put ow chs ! nat ch = ?i" if "ow ! nat ch = ?i" "length ow = 128" for ow chs
    using that
  proof (induction chs arbitrary: ow)
    case Nil
    then show ?case by simp
  next
    case (Cons c chs)
    have "?put ow c ! nat ch = ?i" "length (?put ow c) = 128"
      using Cons.prems by (auto simp: nth_list_update kMaxDeviceChannels_def)
    from Cons.IH [OF this] show ?case by simp
  qed
  have put: "ch \<in> set chs \<Longrightarrow> length ow = 128 \<Longrightarrow> foldl ?put ow chs ! nat ch = ?i" for ow chs
  proof (induction chs arbitrary: ow)
    case Nil
    then show ?case by simp
  next
    case (Cons c chs)
    show ?case
    proof (cases "c = ch")
      case True
      have "?put ow c ! nat ch = ?i" "length (?put ow c) = 128"
        using True assms(7,8) Cons.prems(2) by (simp_all add: kMaxDeviceChannels_def nat_less_iff)
      then show ?thesis using keep by simp
    next
      case False
      with Cons show ?thesis by simp
    qed
  qed
  have "mp_owners mp' ! nat ch = ?i"
    using put [OF assms(6) l] assms(6) by (auto simp: mp'_def updateDeviceChannelOwners_def)
  moreover have "\<not> isNull ?i" using assms(4) by (simp add: cm_isValid_iff)
  ultimately have "getStreamForDeviceChannel ch mp' = Some ?i"
    using assms(7,8) by (simp add: getStreamForDeviceChannel_def kMaxDeviceChannels_def)
  moreover have "getMapping j mp' = Some m'"
    using assms(1,2,5) by (simp add: mp'_def getMapping_def map_of_smap_put mapper_wf_def)
  moreover have "getStreamForDeviceChannel ch mp = Some j"
    using mapper_wf_owner [OF assms(1,7,8)] assms(2,3) by blast
  ultimately show ?thesis by (simp add: a)
qed

lemma custom_map_steals_witness:
  "getStreamForDeviceChannel 0 (snd (addMapping (example_mapping 2 8 2 [0, 1])
     (snd (addMapping (example_mapping 1 0 2 []) mapper_new)))) = Some (StreamID (2 # replicate 15 0))"
proof -
  let ?mp = "snd (addMapping (example_mapping 1 0 2 []) mapper_new)"
  let ?m = "example_mapping 2 8 2 [0, 1]"
  have wf: "mapper_wf ?mp"
    by (rule addMapping_wf [OF mapper_wf_new]) (simp_all add: example_mapping_def getMapping_def mapper_new_def)
  have g: "getMapping (StreamID (1 # replicate 15 0)) ?mp = Some (example_mapping 1 0 2 [])" by code_simp
  have c: "containsDeviceChannel (example_mapping 1 0 2 []) 0" by code_simp
  have v: "cm_isValid ?m" "cm_streamID ?m \<noteq> StreamID (1 # replicate 15 0)" "0 \<in> set (cm_channelMap ?m)"
    by code_simp+
  have f: "free_block (mp_owners ?mp) (cm_count ?m) (cm_start ?m)" by code_simp
  from custom_map_steals [OF wf g c v _ _ f] show ?thesis by (simp add: example_mapping_def)
qed

end
