(* ===== verification/Audio_Codec.thy ===== *)
theory Audio_Codec
  imports Prelude Complex_Main
begin

text \<open>
  The sample codecs \<open>L16Codec\<close> and \<open>L24Codec\<close> of \<open>NetworkEngine/RTP/SimpleRTP.cpp\<close>, on the
  IEEE single precision values the code computes with: NaN, the infinities and the finite
  values as rationals, with multiplication rounded to the nearest value of 24 significant
  bits, ties to even. The sign of zero is not kept; no codec looks at it.
\<close>

section \<open>Single precision\<close>

datatype f32 = NaN | PInf | NInf | Fin rat

text \<open>\<open>binade x\<close> is the exponent \<open>e\<close> with \<open>2^e \<le> |x| < 2^(e+1)\<close>, for positive \<open>|x|\<close>.\<close>

definition pow2 :: "int \<Rightarrow> rat" where
  "pow2 e = (if 0 \<le> e then 2 ^ nat e else 1 / 2 ^ nat (- e))"

fun bit_length :: "nat \<Rightarrow> nat" where
  "bit_length n = (if n = 0 then 0 else Suc (bit_length (n div 2)))"

declare bit_length.simps [simp del]

definition binade :: "rat \<Rightarrow> int" where
  "binade x =
     (let (p, q) = quotient_of \<bar>x\<bar>;
          e = int (bit_length (nat p)) - int (bit_length (nat q))
      in if \<bar>x\<bar> < pow2 e then e - 1 else e)"

text \<open>The spacing of the representable values around \<open>x\<close>, down to the subnormal range.\<close>

definition quantum :: "rat \<Rightarrow> rat" where
  "quantum x = pow2 (max (binade x - 23) (- 149))"

definition round_half_even :: "rat \<Rightarrow> int" where
  "round_half_even x =
     (let f = \<lfloor>x\<rfloor>; r = x - of_int f
      in if r < 1 / 2 then f else if 1 / 2 < r then f + 1
         else if even f then f else f + 1)"

definition round_rat :: "rat \<Rightarrow> rat" where
  "round_rat x = (if x = 0 then 0 else of_int (round_half_even (x / quantum x)) * quantum x)"

definition f32_max :: rat where "f32_max = (2 - 1 / 2 ^ 23) * 2 ^ 127"

definition f32_round :: "rat \<Rightarrow> f32" where
  "f32_round x =
     (let r = round_rat x in if f32_max < r then PInf else if r < - f32_max then NInf else Fin r)"

text \<open>Rounding to double precision, for values that do not overflow it.\<close>

definition f64_round :: "rat \<Rightarrow> rat" where
  "f64_round x =
     (let q = pow2 (max (binade x - 52) (- 1074))
      in if x = 0 then 0 else of_int (round_half_even (x / q)) * q)"

fun f32_neg :: "f32 \<Rightarrow> f32" where
  "f32_neg NaN = NaN"
| "f32_neg PInf = NInf"
| "f32_neg NInf = PInf"
| "f32_neg (Fin x) = Fin (- x)"

text \<open>\<open>a < b\<close>; a comparison with NaN is false.\<close>

fun f32_less :: "f32 \<Rightarrow> f32 \<Rightarrow> bool" where
  "f32_less NaN _ = False"
| "f32_less _ NaN = False"
| "f32_less PInf _ = False"
| "f32_less NInf b = (b \<noteq> NInf)"
| "f32_less (Fin x) PInf = True"
| "f32_less (Fin x) NInf = False"
| "f32_less (Fin x) (Fin y) = (x < y)"

text \<open>\<open>std::min(a, b)\<close> is \<open>b < a ? b : a\<close> and \<open>std::max(a, b)\<close> is \<open>a < b ? b : a\<close>.\<close>

definition f32_min :: "f32 \<Rightarrow> f32 \<Rightarrow> f32" where
  "f32_min a b = (if f32_less b a then b else a)"

definition f32_max2 :: "f32 \<Rightarrow> f32 \<Rightarrow> f32" where
  "f32_max2 a b = (if f32_less a b then b else a)"

text \<open>The product of finite values; the codecs multiply nothing else.\<close>

fun f32_mult :: "f32 \<Rightarrow> f32 \<Rightarrow> f32" where
  "f32_mult (Fin x) (Fin y) = f32_round (x * y)"
| "f32_mult a b = NaN"

text \<open>Conversion to an integer drops the fraction; of NaN and infinities it is undefined.\<close>

fun f32_trunc :: "f32 \<Rightarrow> int option" where
  "f32_trunc (Fin x) = Some (if 0 \<le> x then \<lfloor>x\<rfloor> else \<lceil>x\<rceil>)"
| "f32_trunc _ = None"

section \<open>Powers of two and rounding\<close>

lemma pow2_pos [simp]: "0 < pow2 e" by (simp add: pow2_def)

lemma pow2_nz [simp]: "pow2 e \<noteq> 0" "\<bar>pow2 e\<bar> = pow2 e"
  using pow2_pos [of e] by (simp_all add: less_imp_neq [THEN not_sym] abs_of_pos del: pow2_pos)

lemma pow2_0 [simp]: "pow2 0 = 1" by (simp add: pow2_def)

lemma pow2_Suc: "pow2 (e + 1) = 2 * pow2 e"
proof (cases "0 \<le> e")
  case True
  then have "nat (e + 1) = Suc (nat e)" by simp
  with True show ?thesis by (simp add: pow2_def)
next
  case False
  show ?thesis
  proof (cases "e = -1")
    case True
    then show ?thesis by (simp add: pow2_def)
  next
    case False
    with \<open>\<not> 0 \<le> e\<close> have "nat (- e) = Suc (nat (- (e + 1)))" "\<not> 0 \<le> e + 1" by simp_all
    with \<open>\<not> 0 \<le> e\<close> show ?thesis by (simp add: pow2_def)
  qed
qed

lemma pow2_add_nat: "pow2 (e + int n) = pow2 e * 2 ^ n"
proof (induction n)
  case 0
  then show ?case by simp
next
  case (Suc n)
  have "e + int (Suc n) = (e + int n) + 1" by simp
  then have "pow2 (e + int (Suc n)) = 2 * pow2 (e + int n)" using pow2_Suc [of "e + int n"] by (simp only:)
  with Suc show ?case by simp
qed

lemma pow2_mono: "a \<le> b \<Longrightarrow> pow2 a \<le> pow2 b"
proof -
  assume "a \<le> b"
  then have "pow2 b = pow2 a * 2 ^ nat (b - a)" using pow2_add_nat [of a "nat (b - a)"] by simp
  moreover have "pow2 a * 1 \<le> pow2 a * 2 ^ nat (b - a)" by (intro mult_left_mono) (simp_all add: less_imp_le)
  ultimately show ?thesis by simp
qed

lemma pow2_nat: "pow2 (int n) = 2 ^ n"
  by (simp add: pow2_def)

lemma pow2_less_iff: "pow2 a < pow2 b \<longleftrightarrow> a < b"
proof
  assume l: "pow2 a < pow2 b"
  show "a < b"
  proof (rule ccontr)
    assume "\<not> a < b"
    then have "pow2 b \<le> pow2 a" by (intro pow2_mono) simp
    with l show False by simp
  qed
next
  assume "a < b"
  then have "pow2 (a + 1) \<le> pow2 b" by (intro pow2_mono) simp
  then show "pow2 a < pow2 b" using pow2_pos [of a] unfolding pow2_Suc by linarith
qed

lemma bit_length_bounds: "0 < n \<Longrightarrow> 2 ^ (bit_length n - 1) \<le> n \<and> n < 2 ^ bit_length n \<and> 0 < bit_length n"
proof (induction n rule: bit_length.induct)
  case (1 n)
  have b: "bit_length n = Suc (bit_length (n div 2))"
    using 1 by (subst bit_length.simps) simp
  show ?case
  proof (cases "n div 2 = 0")
    case True
    then have "n = 1" using 1 by simp
    with b show ?thesis by (simp add: bit_length.simps [of 0])
  next
    case False
    then have IH: "2 ^ (bit_length (n div 2) - 1) \<le> n div 2" "n div 2 < 2 ^ bit_length (n div 2)"
      "0 < bit_length (n div 2)" using 1 by simp_all
    obtain k where k: "bit_length (n div 2) = Suc k" using IH(3) by (cases "bit_length (n div 2)") auto
    show ?thesis using IH b unfolding k by simp linarith
  qed
qed

lemma binade_bounds:
  assumes "x \<noteq> 0"
  shows "pow2 (binade x) \<le> \<bar>x\<bar>" "\<bar>x\<bar> < pow2 (binade x + 1)"
proof -
  obtain p q where pq: "quotient_of \<bar>x\<bar> = (p, q)" by fastforce
  have q: "0 < q" and x: "\<bar>x\<bar> = of_int p / of_int q"
    using pq by (simp_all add: quotient_of_denom_pos quotient_of_div)
  have "0 < \<bar>x\<bar>" using assms by simp
  then have p: "0 < p" using q unfolding x by (simp add: zero_less_divide_iff)
  define a b where "a = bit_length (nat p)" and "b = bit_length (nat q)"
  have a: "2 ^ (a - 1) \<le> nat p" "nat p < 2 ^ a" "0 < a"
    and b: "2 ^ (b - 1) \<le> nat q" "nat q < 2 ^ b" "0 < b"
    using bit_length_bounds [of "nat p"] bit_length_bounds [of "nat q"] p q
    by (simp_all add: a_def b_def)
  have pr: "(of_int p :: rat) = of_nat (nat p)" "(of_int q :: rat) = of_nat (nat q)"
    using p q by simp_all
  have "(of_nat (2 ^ (a - 1)) :: rat) \<le> of_nat (nat p)" "(of_nat (nat p) :: rat) < of_nat (2 ^ a)"
    "(of_nat (2 ^ (b - 1)) :: rat) \<le> of_nat (nat q)" "(of_nat (nat q) :: rat) < of_nat (2 ^ b)"
    using a b by (simp_all only: of_nat_le_iff of_nat_less_iff)
  then have bounds: "(2 ^ (a - 1) :: rat) \<le> of_int p" "(of_int p :: rat) < 2 ^ a"
    "(2 ^ (b - 1) :: rat) \<le> of_int q" "(of_int q :: rat) < 2 ^ b"
    unfolding pr by simp_all
  define e where "e = int a - int b"
  have ea: "pow2 e * 2 ^ b = 2 ^ a"
    using pow2_add_nat [of e b] pow2_nat [of a] by (simp add: e_def)
  have up: "\<bar>x\<bar> < pow2 (e + 1)"
  proof -
    have "pow2 (e + 1) * 2 ^ (b - 1) = 2 ^ a"
      using ea b(3) pow2_Suc [of e] by (cases b) simp_all
    then have "of_int p < pow2 (e + 1) * 2 ^ (b - 1)" using bounds(2) by simp
    also have "\<dots> \<le> pow2 (e + 1) * of_int q"
      using bounds(3) by (intro mult_left_mono) (simp_all add: less_imp_le)
    finally show ?thesis unfolding x using q by (simp add: pos_divide_less_eq)
  qed
  have lo: "pow2 (e - 1) \<le> \<bar>x\<bar>"
  proof -
    have "pow2 e = 2 * pow2 (e - 1)" using pow2_Suc [of "e - 1"] by simp
    then have "pow2 (e - 1) * 2 ^ b = 2 ^ (a - 1)" using ea a(3) by (cases a) simp_all
    then have "pow2 (e - 1) * of_int q \<le> 2 ^ (a - 1)"
      using bounds(4) mult_left_mono [of "of_int q" "2 ^ b" "pow2 (e - 1)"] by (simp add: less_imp_le)
    with bounds(1) have "pow2 (e - 1) * of_int q \<le> of_int p" by linarith
    then show ?thesis unfolding x using q by (simp add: pos_le_divide_eq)
  qed
  have "binade x = (if \<bar>x\<bar> < pow2 e then e - 1 else e)"
    by (simp add: binade_def pq Let_def e_def a_def b_def)
  with up lo show "pow2 (binade x) \<le> \<bar>x\<bar>" "\<bar>x\<bar> < pow2 (binade x + 1)" by (auto split: if_splits)
qed

lemma binade_le:
  assumes "x \<noteq> 0" "\<bar>x\<bar> < pow2 (e + 1)"
  shows "binade x \<le> e"
proof -
  have "pow2 (binade x) < pow2 (e + 1)" using binade_bounds(1) [OF assms(1)] assms(2) by linarith
  then show ?thesis by (simp add: pow2_less_iff)
qed

lemma round_half_even_bounds:
  "x \<le> of_int n \<Longrightarrow> round_half_even x \<le> n" "of_int n \<le> x \<Longrightarrow> n \<le> round_half_even x"
proof -
  have f: "of_int \<lfloor>x\<rfloor> \<le> x" "x < of_int \<lfloor>x\<rfloor> + 1" using floor_correct [of x] by simp_all
  show "round_half_even x \<le> n" if "x \<le> of_int n"
  proof (cases "x = of_int \<lfloor>x\<rfloor>")
    case True
    then have "round_half_even x = \<lfloor>x\<rfloor>" by (simp add: round_half_even_def Let_def)
    moreover have "\<lfloor>x\<rfloor> \<le> n" using that True by linarith
    ultimately show ?thesis by simp
  next
    case False
    then have "of_int \<lfloor>x\<rfloor> < (of_int n :: rat)" using f that by linarith
    then have "\<lfloor>x\<rfloor> + 1 \<le> n" by simp
    then show ?thesis by (auto simp: round_half_even_def Let_def)
  qed
  show "n \<le> round_half_even x" if "of_int n \<le> x"
  proof -
    have "n \<le> \<lfloor>x\<rfloor>" using that by (simp add: le_floor_iff)
    then show ?thesis by (auto simp: round_half_even_def Let_def)
  qed
qed

text \<open>Values on the grid around \<open>x\<close> bound its rounding.\<close>

lemma round_rat_sandwich:
  assumes "x \<noteq> 0"
  shows "x \<le> of_int n * quantum x \<Longrightarrow> round_rat x \<le> of_int n * quantum x"
    and "of_int n * quantum x \<le> x \<Longrightarrow> of_int n * quantum x \<le> round_rat x"
proof -
  have q: "0 < quantum x" by (simp add: quantum_def)
  show "round_rat x \<le> of_int n * quantum x" if "x \<le> of_int n * quantum x"
  proof -
    have "x / quantum x \<le> of_int n" using that q by (simp add: pos_divide_le_eq)
    then have "round_half_even (x / quantum x) \<le> n" by (rule round_half_even_bounds(1))
    with q assms show ?thesis by (simp add: round_rat_def)
  qed
  show "of_int n * quantum x \<le> round_rat x" if "of_int n * quantum x \<le> x"
  proof -
    have "of_int n \<le> x / quantum x" using that q by (simp add: pos_le_divide_eq)
    then have "n \<le> round_half_even (x / quantum x)" by (rule round_half_even_bounds(2))
    with q assms show ?thesis by (simp add: round_rat_def)
  qed
qed

lemma on_grid:
  assumes "x \<noteq> 0" "\<bar>x\<bar> < pow2 (e + 1)" "e - 23 \<le> g" "- 149 \<le> g"
  shows "\<exists>k. of_int m * pow2 g = of_int k * quantum x"
proof -
  define h where "h = max (binade x - 23) (- 149)"
  have "h \<le> g" using binade_le [OF assms(1,2)] assms(3,4) by (simp add: h_def)
  then have "pow2 g = pow2 h * 2 ^ nat (g - h)" using pow2_add_nat [of h "nat (g - h)"] by simp
  then have "of_int m * pow2 g = of_int (m * 2 ^ nat (g - h)) * quantum x"
    by (simp add: quantum_def h_def)
  then show ?thesis by blast
qed

lemma round_rat_le:
  assumes "x \<noteq> 0" "\<bar>x\<bar> < pow2 (e + 1)" "e - 23 \<le> g" "- 149 \<le> g"
  shows "x \<le> of_int m * pow2 g \<Longrightarrow> round_rat x \<le> of_int m * pow2 g"
    and "of_int m * pow2 g \<le> x \<Longrightarrow> of_int m * pow2 g \<le> round_rat x"
  using on_grid [OF assms, of m] round_rat_sandwich [OF assms(1)] by metis+

section \<open>Exact values\<close>

lemma round_rat_exact:
  assumes "\<bar>m\<bar> < 2 ^ 24" "- 149 \<le> g"
  shows "round_rat (of_int m * pow2 g) = of_int m * pow2 g"
proof (cases "m = 0")
  case True
  then show ?thesis by (simp add: round_rat_def)
next
  case False
  let ?x = "of_int m * pow2 g"
  have nz: "?x \<noteq> 0" using False by simp
  have "\<bar>of_int m :: rat\<bar> < 2 ^ 24" using assms(1) by (metis of_int_abs of_int_less_iff of_int_numeral of_int_power)
  then have "\<bar>?x\<bar> < 2 ^ 24 * pow2 g" by (simp add: abs_mult)
  moreover have "pow2 ((g + 23) + 1) = 2 ^ 24 * pow2 g" using pow2_add_nat [of g 24] by (simp add: mult.commute add.assoc)
  ultimately have b: "\<bar>?x\<bar> < pow2 ((g + 23) + 1)" by (simp only:)
  have "round_rat ?x \<le> ?x" "?x \<le> round_rat ?x"
    using round_rat_le [OF nz b, of g m] assms(2) by simp_all
  then show ?thesis by simp
qed

lemma f32_max_large: "2 ^ 30 \<le> f32_max"
  by (simp add: f32_max_def)

lemma f32_round_Fin: "\<bar>round_rat x\<bar> \<le> 2 ^ 30 \<Longrightarrow> f32_round x = Fin (round_rat x)"
  using f32_max_large unfolding f32_round_def Let_def abs_le_iff by auto

lemma f32_round_exact:
  assumes "\<bar>m\<bar> < 2 ^ 24" "- 149 \<le> g" "g \<le> 0"
  shows "f32_round (of_int m * pow2 g) = Fin (of_int m * pow2 g)"
proof -
  have "\<bar>of_int m :: rat\<bar> \<le> 2 ^ 24" using assms(1)
    by (metis less_imp_le of_int_abs of_int_less_iff of_int_numeral of_int_power)
  moreover have "pow2 g \<le> 1" using pow2_mono [OF assms(3)] by simp
  ultimately have "\<bar>of_int m\<bar> * pow2 g \<le> 2 ^ 24 * 1" by (intro mult_mono) (simp_all add: less_imp_le)
  then have "\<bar>of_int m * pow2 g\<bar> \<le> 2 ^ 30" by (simp add: abs_mult)
  with round_rat_exact [OF assms(1,2)] show ?thesis by (subst f32_round_Fin) simp_all
qed

section \<open>The codecs\<close>

definition clamp_sample :: "f32 \<Rightarrow> f32" where
  "clamp_sample s = f32_max2 (Fin (-1)) (f32_min (Fin 1) s)"

text \<open>\<open>pcm / scale\<close> with \<open>pcm\<close> converted to float first.\<close>

fun f32_div :: "f32 \<Rightarrow> f32 \<Rightarrow> f32" where
  "f32_div (Fin x) (Fin y) = f32_round (x / y)"
| "f32_div a b = NaN"

definition f32_of_int :: "int \<Rightarrow> f32" where
  "f32_of_int i = f32_round (of_int i)"

definition sample_to_int :: "f32 \<Rightarrow> rat \<Rightarrow> int" where
  "sample_to_int s scale =
     (case f32_trunc (f32_mult (clamp_sample s) (Fin scale)) of Some i \<Rightarrow> i | None \<Rightarrow> 0)"

definition l16_bytes :: "u16 \<Rightarrow> u8 list" where
  "l16_bytes pcm = [ucast (signed_drop_bit 8 pcm), ucast pcm]"

definition l16_encode :: "f32 list \<Rightarrow> u8 list" where
  "l16_encode samples = concat (map (\<lambda>s. l16_bytes (of_int (sample_to_int s 32767))) samples)"

definition l16_sample :: "u8 \<Rightarrow> u8 \<Rightarrow> f32" where
  "l16_sample b0 b1 =
     (let raw = push_bit 8 (ucast b0) OR ucast b1 :: u16
      in f32_div (f32_of_int (sint raw)) (Fin 32768))"

fun l16_decode :: "u8 list \<Rightarrow> f32 list" where
  "l16_decode (b0 # b1 # rest) = l16_sample b0 b1 # l16_decode rest"
| "l16_decode _ = []"

definition l24_bytes :: "u32 \<Rightarrow> u8 list" where
  "l24_bytes pcm = [ucast (signed_drop_bit 16 pcm), ucast (signed_drop_bit 8 pcm), ucast pcm]"

definition l24_encode :: "f32 list \<Rightarrow> u8 list" where
  "l24_encode samples = concat (map (\<lambda>s. l24_bytes (of_int (sample_to_int s 8388607))) samples)"

definition l24_sample :: "u8 \<Rightarrow> u8 \<Rightarrow> u8 \<Rightarrow> f32" where
  "l24_sample b0 b1 b2 =
     (let raw = push_bit 16 (ucast b0) OR push_bit 8 (ucast b1) OR ucast b2 :: u32;
          pcm = (if raw AND 0x800000 \<noteq> 0 then raw OR 0xFF000000 else raw)
      in f32_div (f32_of_int (sint pcm)) (Fin 8388608))"

fun l24_decode :: "u8 list \<Rightarrow> f32 list" where
  "l24_decode (b0 # b1 # b2 # rest) = l24_sample b0 b1 b2 # l24_decode rest"
| "l24_decode _ = []"

section \<open>Decoding is exact\<close>

lemma pcm_value:
  assumes "\<bar>i\<bar> \<le> 2 ^ 23" "n \<le> 23"
  shows "f32_div (f32_of_int i) (Fin (2 ^ n)) = Fin (of_int i / 2 ^ n)"
proof -
  have i: "\<bar>i\<bar> < 2 ^ 24" using assms(1) by simp
  have "f32_of_int i = Fin (of_int i)"
    using f32_round_exact [OF i, of 0] by (simp add: f32_of_int_def)
  moreover have p: "pow2 (- int n) = 1 / 2 ^ n"
    by (cases "n = 0") (simp_all add: pow2_def)
  have "f32_round (of_int i * pow2 (- int n)) = Fin (of_int i * pow2 (- int n))"
    by (rule f32_round_exact [OF i]) (use assms(2) in simp_all)
  ultimately show ?thesis by (simp add: p)
qed

lemma l16_raw: "push_bit 8 (ucast (ucast (signed_drop_bit 8 w) :: u8)) OR ucast (ucast w :: u8) = (w :: u16)"
  by (rule bit_word_eqI)
    (auto simp: bit_push_bit_iff bit_or_iff bit_ucast_iff bit_signed_drop_bit_iff)

lemma l16_sample_bytes:
  "l16_sample (ucast (signed_drop_bit 8 w)) (ucast w) = Fin (of_int (sint (w :: u16)) / 32768)"
proof -
  have "sint w \<ge> - (2 ^ 15)" "sint w < 2 ^ 15"
    using sint_greater_eq [of w] sint_less [of w] by simp_all
  then have "\<bar>sint w\<bar> \<le> 2 ^ 23" by simp
  from pcm_value [OF this, of 15] show ?thesis by (simp add: l16_sample_def l16_raw)
qed

lemma l16_decode_bytes:
  "l16_decode (concat (map l16_bytes ws)) = map (\<lambda>w. Fin (of_int (sint w) / 32768)) ws"
  by (induction ws) (simp_all add: l16_bytes_def l16_sample_bytes)

text \<open>A 24-bit value kept in 32 bits survives its three bytes.\<close>

lemma l24_raw:
  fixes w :: u32
  assumes "\<And>k. 23 \<le> k \<Longrightarrow> k < 32 \<Longrightarrow> bit w k = bit w 23"
  shows "(let raw = push_bit 16 (ucast (ucast (signed_drop_bit 16 w) :: u8)) OR
      push_bit 8 (ucast (ucast (signed_drop_bit 8 w) :: u8)) OR ucast (ucast w :: u8) :: u32
    in if raw AND 0x800000 \<noteq> 0 then raw OR 0xFF000000 else raw) = w"
proof -
  define raw :: u32 where "raw = push_bit 16 (ucast (ucast (signed_drop_bit 16 w) :: u8)) OR
      push_bit 8 (ucast (ucast (signed_drop_bit 8 w) :: u8)) OR ucast (ucast w :: u8)"
  have raw: "bit raw k \<longleftrightarrow> k < 24 \<and> bit w k" for k
  proof -
    consider "k < 8" | "8 \<le> k" "k < 16" | "16 \<le> k" "k < 24" | "24 \<le> k" by linarith
    then show ?thesis
      by cases (auto simp: raw_def bit_push_bit_iff bit_or_iff bit_ucast_iff bit_signed_drop_bit_iff)
  qed
  have p23: "(0x800000 :: u32) = push_bit 23 1" by simp
  have "raw AND 0x800000 \<noteq> 0 \<longleftrightarrow> bit raw 23"
    unfolding p23 by (auto simp: bit_iff_and_push_bit_not_eq_0)
  then have s: "raw AND 0x800000 \<noteq> 0 \<longleftrightarrow> bit w 23" by (simp add: raw)
  have m: "(0xFF000000 :: u32) = push_bit 24 (mask 8)" by (simp add: mask_eq_exp_minus_1)
  have "(if raw AND 0x800000 \<noteq> 0 then raw OR 0xFF000000 else raw) = w"
  proof (rule bit_word_eqI)
    fix k assume k: "k < LENGTH(32)"
    show "bit (if raw AND 0x800000 \<noteq> 0 then raw OR 0xFF000000 else raw) k = bit w k"
    proof (cases "k < 24")
      case True
      then show ?thesis unfolding m by (simp add: bit_or_iff bit_push_bit_iff raw)
    next
      case False
      then have "k - 24 < 8" using k by simp
      with assms [of k] k s False show ?thesis
        unfolding m by (simp add: bit_or_iff bit_push_bit_iff raw bit_mask_iff)
    qed
  qed
  then show ?thesis unfolding raw_def Let_def .
qed

lemma of_int_24:
  assumes "- (2 ^ 23) \<le> i" "i < 2 ^ 23"
  shows "sint (of_int i :: u32) = i"
    and "\<And>k. 23 \<le> k \<Longrightarrow> k < 32 \<Longrightarrow> bit (of_int i :: u32) k = bit (of_int i :: u32) 23"
proof -
  have "sint (of_int i :: u32) = signed_take_bit (LENGTH(32) - 1) i" by (rule sint_sbintrunc')
  also have "\<dots> = i" by (rule signed_take_bit_int_eq_self) (use assms in simp_all)
  finally show "sint (of_int i :: u32) = i" .
  have s: "signed_take_bit 23 i = i" by (rule signed_take_bit_int_eq_self) (use assms in simp_all)
  have b: "bit i k = bit i 23" if "23 \<le> k" for k
  proof -
    have "bit (signed_take_bit 23 i) k = bit i (min 23 k)" by (simp add: bit_signed_take_bit_iff)
    then show ?thesis unfolding s min_absorb1 [OF that] .
  qed
  show "bit (of_int i :: u32) k = bit (of_int i :: u32) 23" if "23 \<le> k" "k < 32" for k
    using b [OF that(1)] that(2) by (simp add: bit_of_int_iff)
qed

lemma l24_sample_bytes:
  assumes "- (2 ^ 23) \<le> i" "i < 2 ^ 23"
  shows "l24_sample (ucast (signed_drop_bit 16 (of_int i :: u32)))
    (ucast (signed_drop_bit 8 (of_int i :: u32))) (ucast (of_int i :: u32)) =
    Fin (of_int i / 8388608)"
proof -
  have "\<bar>i\<bar> \<le> 2 ^ 23" using assms by simp
  from pcm_value [OF this, of 23] show ?thesis
    using l24_raw [OF of_int_24(2) [OF assms]] of_int_24(1) [OF assms]
    by (simp add: l24_sample_def Let_def)
qed

lemma l24_decode_bytes:
  assumes "\<forall>i \<in> set is. - (2 ^ 23) \<le> i \<and> i < 2 ^ 23"
  shows "l24_decode (concat (map (\<lambda>i. l24_bytes (of_int i)) is)) =
    map (\<lambda>i. Fin (of_int i / 8388608)) is"
  using assms by (induction "is") (simp_all add: l24_bytes_def l24_sample_bytes)

section \<open>Encoding\<close>

lemma clamp_cases:
  "clamp_sample s = Fin (case s of NaN \<Rightarrow> 1 | PInf \<Rightarrow> 1 | NInf \<Rightarrow> -1 | Fin x \<Rightarrow> max (-1) (min 1 x))"
  by (cases s) (auto simp: clamp_sample_def f32_max2_def f32_min_def max_def min_def)

lemma trunc_between:
  fixes r :: rat
  shows "of_int n \<le> r \<Longrightarrow> r < of_int n + 1 \<Longrightarrow> 0 \<le> n \<Longrightarrow> f32_trunc (Fin r) = Some n"
    and "of_int n - 1 < r \<Longrightarrow> r \<le> of_int n \<Longrightarrow> n \<le> 0 \<Longrightarrow> f32_trunc (Fin r) = Some n"
proof -
  show "f32_trunc (Fin r) = Some n" if "of_int n \<le> r" "r < of_int n + 1" "0 \<le> n"
  proof -
    have "\<lfloor>r\<rfloor> = n" using that by (intro floor_unique) simp_all
    moreover have "(0::rat) \<le> of_int n" using that(3) by simp
    then have "0 \<le> r" using that(1) by linarith
    ultimately show ?thesis by simp
  qed
  show "f32_trunc (Fin r) = Some n" if "of_int n - 1 < r" "r \<le> of_int n" "n \<le> 0"
  proof (cases "r = 0")
    case True
    then have "(0::rat) \<le> of_int n" using that(2) by simp
    then have "n = 0" using that(3) by simp
    with True show ?thesis by simp
  next
    case False
    have "(of_int n :: rat) \<le> 0" using that(3) by simp
    then have "\<not> 0 \<le> r" using that(2) False by linarith
    moreover have "\<lceil>r\<rceil> = n" using that by (intro ceiling_unique) simp_all
    ultimately show ?thesis by simp
  qed
qed

text \<open>
  Scaling back by \<open>2^N - 1\<close> instead of \<open>2^N\<close>: the rounded product stays in the unit interval
  below the original value, whatever the rounding does.
\<close>

lemma rescale_bounds:
  fixes p :: int
  assumes "0 < p" "p \<le> 2 ^ N" "1 \<le> N" "N \<le> 23"
  defines "y \<equiv> of_int p / 2 ^ N * (2 ^ N - 1) :: rat"
  shows "of_int p - 1 \<le> round_rat y \<and> round_rat y < of_int p"
    and "- of_int p < round_rat (- y) \<and> round_rat (- y) \<le> - (of_int p - 1)"
proof -
  define e where "e = binade (of_int p)"
  have p0: "(of_int p :: rat) \<noteq> 0" "(0::rat) < of_int p" using assms(1) by simp_all
  have e: "pow2 e \<le> of_int p" "of_int p < pow2 (e + 1)"
    using binade_bounds [OF p0(1)] p0(2) by (simp_all add: e_def)
  have N2: "(2::rat) \<le> 2 ^ N" using power_increasing [of 1 N "2::rat"] assms(3) by simp
  have "(of_int p :: rat) \<le> 2 ^ N" using assms(2) by (metis of_int_le_iff of_int_numeral of_int_power)
  then have "pow2 e < pow2 (int N + 1)" using e(1) pow2_Suc [of "int N"] pow2_nat [of N] N2 by linarith
  then have eN: "e \<le> int N" by (simp add: pow2_less_iff)
  have e0: "0 \<le> e"
  proof (rule ccontr)
    assume "\<not> 0 \<le> e"
    then have "pow2 (e + 1) \<le> pow2 0" by (intro pow2_mono) simp
    moreover have "(1::rat) \<le> of_int p" using assms(1) by simp
    ultimately show False using e(2) by simp
  qed
  define g where "g = e - 23"
  have g: "g \<le> 0" "-149 \<le> g" "e - 23 \<le> g" using eN assms(4) e0 by (simp_all add: g_def)
  have y: "y = of_int p - of_int p / 2 ^ N" using N2 by (simp add: y_def field_simps)
  have gap: "pow2 g \<le> of_int p / 2 ^ N"
  proof -
    have "pow2 g \<le> pow2 (e - int N)" using assms(4) by (intro pow2_mono) (simp add: g_def)
    moreover have "pow2 (e - int N) * 2 ^ N = pow2 e" using pow2_add_nat [of "e - int N" N] by simp
    then have "pow2 (e - int N) \<le> of_int p / 2 ^ N" using e(1) by (simp add: pos_le_divide_eq)
    ultimately show ?thesis by linarith
  qed
  have gap1: "of_int p / 2 ^ N \<le> (1::rat)"
    using \<open>(of_int p :: rat) \<le> 2 ^ N\<close> by (simp add: divide_le_eq_1)
  have y0: "0 < y" using p0 N2 by (simp add: y_def)
  have yb: "\<bar>y\<bar> < pow2 (e + 1)" "\<bar>- y\<bar> < pow2 (e + 1)"
    using e(2) gap y0 pow2_pos [of g] unfolding y by linarith+
  have hi: "of_int p - pow2 g = of_int (p * 2 ^ nat (- g) - 1) * pow2 g"
  proof -
    have "pow2 g * 2 ^ nat (- g) = 1" using pow2_add_nat [of g "nat (- g)"] g(1) by simp
    then have "of_int p * (2 ^ nat (- g) * pow2 g) = of_int p" by (simp add: mult.commute)
    then show ?thesis by (simp add: left_diff_distrib mult.assoc)
  qed
  note up = round_rat_le(1) [OF _ yb(1) g(3,2), of "p * 2 ^ nat (- g) - 1"]
  note lo = round_rat_le(2) [OF _ yb(1), of 0 "p - 1"]
  note up' = round_rat_le(1) [OF _ yb(2), of 0 "- (p - 1)"]
  note lo' = round_rat_le(2) [OF _ yb(2) g(3,2), of "- (p * 2 ^ nat (- g) - 1)"]
  have "round_rat y \<le> of_int p - pow2 g" using up y0 gap unfolding hi [symmetric] by (simp add: y)
  moreover have "of_int p - 1 \<le> round_rat y" using lo y0 gap1 g(1) by (simp add: y g_def)
  ultimately show "of_int p - 1 \<le> round_rat y \<and> round_rat y < of_int p"
    using pow2_pos [of g] by linarith
  have "- (of_int p - pow2 g) \<le> round_rat (- y)"
    using lo' y0 gap unfolding of_int_minus mult_minus_left hi [symmetric] by (simp add: y)
  moreover have "round_rat (- y) \<le> - (of_int p - 1)" using up' y0 gap1 g(1) by (simp add: y g_def)
  ultimately show "- of_int p < round_rat (- y) \<and> round_rat (- y) \<le> - (of_int p - 1)"
    using pow2_pos [of g] by linarith
qed

lemma sample_to_int_exact:
  assumes "\<bar>p\<bar> \<le> 2 ^ N" "1 \<le> N" "N \<le> 23"
  shows "sample_to_int (Fin (of_int p / 2 ^ N)) (2 ^ N - 1) = p - sgn p"
proof -
  define x :: rat where "x = of_int p / 2 ^ N"
  have "\<bar>of_int p :: rat\<bar> \<le> 2 ^ N" using assms(1)
    by (metis of_int_abs of_int_le_iff of_int_numeral of_int_power)
  then have "\<bar>x\<bar> \<le> 1" unfolding x_def abs_divide by (simp add: divide_le_eq_1)
  then have c: "clamp_sample (Fin x) = Fin x" by (auto simp: clamp_cases)
  have N30: "(2::int) ^ N \<le> 2 ^ 23" using assms(3) by (intro power_increasing) simp_all
  have ev: "sample_to_int (Fin x) (2 ^ N - 1) = n"
    if "f32_trunc (Fin (round_rat (x * (2 ^ N - 1)))) = Some n"
       "\<bar>round_rat (x * (2 ^ N - 1))\<bar> \<le> of_int \<bar>p\<bar>" for n
  proof -
    have "(of_int \<bar>p\<bar> :: rat) \<le> of_int (2 ^ 23)" using assms(1) N30 by (simp only: of_int_le_iff)
    then have "\<bar>round_rat (x * (2 ^ N - 1))\<bar> \<le> 2 ^ 30" using that(2) by simp
    from f32_round_Fin [OF this] that(1) c show ?thesis by (simp add: sample_to_int_def)
  qed
  consider "p = 0" | "0 < p" | "0 < - p" by linarith
  then show ?thesis
  proof cases
    case 1
    with ev [of 0] show ?thesis by (simp add: x_def round_rat_def)
  next
    case 2
    have "p \<le> 2 ^ N" using assms(1) by simp
    note b = rescale_bounds(1) [OF 2 this assms(2,3)]
    have "f32_trunc (Fin (round_rat (x * (2 ^ N - 1)))) = Some (p - 1)"
      by (rule trunc_between(1)) (use b 2 in \<open>simp_all add: x_def\<close>)
    moreover have "\<bar>round_rat (x * (2 ^ N - 1))\<bar> \<le> of_int \<bar>p\<bar>"
    proof -
      have "(1::rat) \<le> of_int p" using 2 by simp
      with b 2 show ?thesis unfolding x_def by (simp add: abs_le_iff)
    qed
    ultimately show ?thesis using ev 2 by (simp add: x_def)
  next
    case 3
    have "- p \<le> 2 ^ N" using assms(1) by simp
    note b = rescale_bounds(2) [OF 3 this assms(2,3)]
    have e: "- (of_int (- p) / 2 ^ N * (2 ^ N - 1)) = x * (2 ^ N - 1)" by (simp add: x_def)
    note b = b [unfolded e]
    have "f32_trunc (Fin (round_rat (x * (2 ^ N - 1)))) = Some (p + 1)"
      by (rule trunc_between(2)) (use b 3 in simp_all)
    moreover have "\<bar>round_rat (x * (2 ^ N - 1))\<bar> \<le> of_int \<bar>p\<bar>"
    proof -
      have "p \<le> - 1" using 3 by simp
      then have "(of_int p :: rat) \<le> of_int (- 1)" by (simp only: of_int_le_iff)
      with b 3 show ?thesis by (simp add: abs_le_iff)
    qed
    ultimately show ?thesis using ev 3 by (simp add: x_def)
  qed
qed

lemma round_between_ints:
  assumes "\<bar>y\<bar> < 2 ^ 24"
  shows "of_int \<lfloor>y\<rfloor> \<le> round_rat y" "round_rat y \<le> of_int \<lceil>y\<rceil>"
proof -
  have b: "\<bar>y\<bar> < pow2 (23 + 1)" using assms by (simp add: pow2_def)
  have "of_int \<lfloor>y\<rfloor> \<le> round_rat y \<and> round_rat y \<le> of_int \<lceil>y\<rceil>"
  proof (cases "y = 0")
    case True
    then show ?thesis by (simp add: round_rat_def)
  next
    case False
    from round_rat_le [OF False b, of 0] show ?thesis by simp
  qed
  then show "of_int \<lfloor>y\<rfloor> \<le> round_rat y" "round_rat y \<le> of_int \<lceil>y\<rceil>" by simp_all
qed

lemma sample_to_int_close:
  assumes "\<bar>x\<bar> \<le> 1" "0 < S" "S < 2 ^ 24"
  shows "\<bar>of_int (sample_to_int (Fin x) (of_int S)) - x * of_int S\<bar> \<le> 1"
    and "\<bar>sample_to_int (Fin x) (of_int S)\<bar> \<le> S"
proof -
  define y :: rat where "y = x * of_int S"
  have S: "(0::rat) < of_int S" "(of_int S :: rat) < 2 ^ 24"
    using assms(2,3) by (simp, metis of_int_less_iff of_int_numeral of_int_power)
  have "\<bar>y\<bar> \<le> 1 * of_int S" unfolding y_def abs_mult using assms(1) S(1) by (intro mult_mono) simp_all
  then have yS: "\<bar>y\<bar> \<le> of_int S" by simp
  then have y24: "\<bar>y\<bar> < 2 ^ 24" using S(2) by linarith
  note r = round_between_ints [OF y24]
  have fl: "- S \<le> \<lfloor>y\<rfloor>" "\<lceil>y\<rceil> \<le> S" using yS by (simp_all add: le_floor_iff ceiling_le_iff abs_le_iff)
  define t where "t = (if 0 \<le> round_rat y then \<lfloor>round_rat y\<rfloor> else \<lceil>round_rat y\<rceil>)"
  have t: "\<lfloor>y\<rfloor> \<le> t" "t \<le> \<lceil>y\<rceil>"
  proof -
    have l: "\<lfloor>y\<rfloor> \<le> \<lfloor>round_rat y\<rfloor>" using r(1) by (simp only: le_floor_iff)
    have u: "\<lceil>round_rat y\<rceil> \<le> \<lceil>y\<rceil>" using r(2) by (simp only: ceiling_le_iff)
    show "\<lfloor>y\<rfloor> \<le> t" "t \<le> \<lceil>y\<rceil>"
      using l u order_trans [OF l floor_le_ceiling] order_trans [OF floor_le_ceiling u]
      by (simp_all add: t_def)
  qed
  have "\<bar>round_rat y\<bar> \<le> 2 ^ 30"
  proof -
    have "(- of_int S :: rat) \<le> of_int \<lfloor>y\<rfloor>" "(of_int \<lceil>y\<rceil> :: rat) \<le> of_int S"
      using fl by (metis of_int_le_iff of_int_minus, metis of_int_le_iff)
    with r S show ?thesis by (simp add: abs_le_iff)
  qed
  moreover have "clamp_sample (Fin x) = Fin x" using assms(1) by (auto simp: clamp_cases)
  ultimately have s: "sample_to_int (Fin x) (of_int S) = t"
    using f32_round_Fin [of y] by (simp add: sample_to_int_def t_def y_def)
  have "(of_int \<lfloor>y\<rfloor> :: rat) \<le> of_int t" "(of_int t :: rat) \<le> of_int \<lceil>y\<rceil>" using t by simp_all
  moreover have "y - 1 < of_int \<lfloor>y\<rfloor>" "of_int \<lceil>y\<rceil> < y + 1"
    using floor_correct [of y] ceiling_correct [of y] by linarith+
  ultimately show "\<bar>of_int (sample_to_int (Fin x) (of_int S)) - x * of_int S\<bar> \<le> 1"
    unfolding s y_def [symmetric] by (simp add: abs_le_iff)
  show "\<bar>sample_to_int (Fin x) (of_int S)\<bar> \<le> S" unfolding s using t fl by simp
qed

lemma sample_to_int_clamp:
  "sample_to_int s c = sample_to_int (clamp_sample s) c"
  by (cases s) (simp_all add: sample_to_int_def clamp_cases)

section \<open>Properties\<close>

text \<open>
  C27. What one hop through the driver does to samples. Decoding is exact: every L16 or L24
  sample becomes its value over 2^15 or 2^23. Encoding what was decoded does not give the
  sample back: the decoder divides by 2^N and the encoder multiplies by 2^N - 1 and drops the
  fraction, so every non-zero sample moves one step towards zero, for every sample value, and
  only zero survives.
\<close>

theorem codec_hop:
  assumes "\<forall>i \<in> set is. - (2 ^ 23) \<le> i \<and> i < 2 ^ 23"
  shows "l16_decode (concat (map l16_bytes ws)) = map (\<lambda>w. Fin (of_int (sint w) / 2 ^ 15)) ws \<and>
    l24_decode (concat (map (\<lambda>i. l24_bytes (of_int i)) is)) = map (\<lambda>i. Fin (of_int i / 2 ^ 23)) is \<and>
    l16_encode (l16_decode (concat (map l16_bytes ws))) =
      concat (map (\<lambda>w. l16_bytes (of_int (sint w - sgn (sint w)))) ws) \<and>
    l24_encode (l24_decode (concat (map (\<lambda>i. l24_bytes (of_int i)) is))) =
      concat (map (\<lambda>i. l24_bytes (of_int (i - sgn i))) is)"
proof -
  have d16: "l16_decode (concat (map l16_bytes ws)) = map (\<lambda>w. Fin (of_int (sint w) / 2 ^ 15)) ws"
    by (simp add: l16_decode_bytes)
  have d24: "l24_decode (concat (map (\<lambda>i. l24_bytes (of_int i)) is)) = map (\<lambda>i. Fin (of_int i / 2 ^ 23)) is"
    using l24_decode_bytes [OF assms] by simp
  have e16: "sample_to_int (Fin (of_int (sint (w :: u16)) / 2 ^ 15)) 32767 = sint w - sgn (sint w)" for w
  proof -
    have "\<bar>sint w\<bar> \<le> 2 ^ 15" using sint_greater_eq [of w] sint_less [of w] by simp
    from sample_to_int_exact [OF this] show ?thesis by simp
  qed
  have e24: "sample_to_int (Fin (of_int i / 2 ^ 23)) 8388607 = i - sgn i" if "i \<in> set is" for i
  proof -
    have "- (2 ^ 23) \<le> i \<and> i < 2 ^ 23" using assms that by blast
    then have "\<bar>i\<bar> \<le> 2 ^ 23" by (simp add: abs_if)
    from sample_to_int_exact [OF this] show ?thesis by simp
  qed
  have "l16_encode (l16_decode (concat (map l16_bytes ws))) =
      concat (map (\<lambda>w. l16_bytes (of_int (sint w - sgn (sint w)))) ws)"
    unfolding d16 l16_encode_def map_map comp_def e16 ..
  moreover have "l24_encode (l24_decode (concat (map (\<lambda>i. l24_bytes (of_int i)) is))) =
      concat (map (\<lambda>i. l24_bytes (of_int (i - sgn i))) is)"
    unfolding d24 l24_encode_def map_map comp_def
    by (rule arg_cong [where f = concat]) (rule map_cong [OF refl], simp only: e24)
  ultimately show ?thesis using d16 d24 by blast
qed

lemma codec_hop_witness:
  "l24_encode (l24_decode (concat (map (\<lambda>i. l24_bytes (of_int i)) [1, -8388608, 77]))) =
   concat (map (\<lambda>i. l24_bytes (of_int i)) [0, -8388607, 76])"
proof -
  let ?is = "[1, -8388608, 77] :: int list"
  have "l24_encode (l24_decode (concat (map (\<lambda>i. l24_bytes (of_int i)) ?is))) =
      concat (map (\<lambda>i. l24_bytes (of_int (i - sgn i))) ?is)"
    by (rule codec_hop [of ?is "[]", THEN conjunct2, THEN conjunct2, THEN conjunct2]) simp
  also have "\<dots> = concat (map (\<lambda>i. l24_bytes (of_int i)) [0, -8388607, 76])" by simp
  finally show ?thesis .
qed

text \<open>
  Encoding never overflows and never faults: for every float, NaN and the infinities
  included, the integer is within the symmetric full scale range (NaN encodes as positive full
  scale), and inside the nominal range it is within one step of the scaled sample.
\<close>

theorem encode_range:
  assumes "S = 32767 \<or> S = 8388607"
  shows "\<bar>sample_to_int s (of_int S)\<bar> \<le> S \<and> sample_to_int NaN (of_int S) = S \<and>
    (\<forall>x. s = Fin x \<and> \<bar>x\<bar> \<le> 1 \<longrightarrow> \<bar>of_int (sample_to_int s (of_int S)) - x * of_int S\<bar> \<le> 1)"
proof -
  have S: "0 < S" "S < 2 ^ 24" using assms by auto
  obtain c where c: "clamp_sample s = Fin c" "\<bar>c\<bar> \<le> 1"
    by (cases s) (auto simp: clamp_cases abs_le_iff)
  have "\<bar>sample_to_int s (of_int S)\<bar> \<le> S"
    unfolding sample_to_int_clamp [of s] c(1) by (rule sample_to_int_close(2) [OF c(2) S])
  moreover have "sample_to_int NaN (of_int S) = S"
  proof -
    have "round_rat (of_int S) = of_int S"
      using round_rat_exact [of S 0] S by simp
    moreover have "(of_int S :: rat) \<le> 2 ^ 30" using assms by auto
    moreover have "(0::rat) \<le> of_int S" using S by simp
    ultimately show ?thesis
      using f32_round_Fin [of "of_int S"] by (simp add: sample_to_int_def clamp_cases)
  qed
  ultimately show ?thesis using sample_to_int_close(1) [OF _ S] by blast
qed

lemma encode_range_witness:
  "\<bar>sample_to_int PInf 32767\<bar> \<le> 32767 \<and> sample_to_int NaN 32767 = 32767"
  using encode_range [of 32767 PInf] by simp

end
