(* ===== verification/Rtp_Packet.thy ===== *)
theory Rtp_Packet
  imports Prelude
begin

text \<open>
  The RTP header and the UDP multicast socket of \<open>NetworkEngine/RTP/SimpleRTP.h/.cpp\<close>. The
  header is the packed bit-field struct of a little-endian machine; the socket is the state
  machine over the results of the system calls, which are arguments. The kernel's view, the
  open descriptors and the multicast memberships, is kept beside it so that leaks are visible.
\<close>

section \<open>The header\<close>

record rtp_header =
  rh_cc :: "4 word"
  rh_extension :: "1 word"
  rh_padding :: "1 word"
  rh_version :: "2 word"
  rh_payloadType :: "7 word"
  rh_marker :: "1 word"
  rh_sequenceNumber :: u16
  rh_timestamp :: u32
  rh_ssrc :: u32

definition htons :: "u16 \<Rightarrow> u16" where
  "htons w = push_bit 8 w OR drop_bit 8 w"

definition htonl :: "u32 \<Rightarrow> u32" where
  "htonl w = push_bit 24 w OR push_bit 8 (w AND 0xFF00) OR (drop_bit 8 w AND 0xFF00) OR drop_bit 24 w"

definition toNetworkOrder :: "rtp_header \<Rightarrow> rtp_header" where
  "toNetworkOrder h = h\<lparr>rh_sequenceNumber := htons (rh_sequenceNumber h),
     rh_timestamp := htonl (rh_timestamp h), rh_ssrc := htonl (rh_ssrc h)\<rparr>"

definition toHostOrder :: "rtp_header \<Rightarrow> rtp_header" where
  "toHostOrder h = h\<lparr>rh_sequenceNumber := htons (rh_sequenceNumber h),
     rh_timestamp := htonl (rh_timestamp h), rh_ssrc := htonl (rh_ssrc h)\<rparr>"

definition le16 :: "u16 \<Rightarrow> u8 list" where
  "le16 w = [ucast w, ucast (drop_bit 8 w)]"

definition le32 :: "u32 \<Rightarrow> u8 list" where
  "le32 w = [ucast w, ucast (drop_bit 8 w), ucast (drop_bit 16 w), ucast (drop_bit 24 w)]"

text \<open>The memory image of the packed struct, and the struct read from memory.\<close>

definition header_memory :: "rtp_header \<Rightarrow> u8 list" where
  "header_memory h =
     [push_bit 6 (ucast (rh_version h)) OR push_bit 5 (ucast (rh_padding h)) OR
        push_bit 4 (ucast (rh_extension h)) OR ucast (rh_cc h),
      push_bit 7 (ucast (rh_marker h)) OR ucast (rh_payloadType h)] @
     le16 (rh_sequenceNumber h) @ le32 (rh_timestamp h) @ le32 (rh_ssrc h)"

definition of_le16 :: "u8 \<Rightarrow> u8 \<Rightarrow> u16" where
  "of_le16 a b = ucast a OR push_bit 8 (ucast b)"

definition of_le32 :: "u8 \<Rightarrow> u8 \<Rightarrow> u8 \<Rightarrow> u8 \<Rightarrow> u32" where
  "of_le32 a b c d = ucast a OR push_bit 8 (ucast b) OR push_bit 16 (ucast c) OR push_bit 24 (ucast d)"

definition header_of_memory :: "u8 list \<Rightarrow> rtp_header" where
  "header_of_memory m =
     \<lparr>rh_cc = ucast (m ! 0), rh_extension = ucast (drop_bit 4 (m ! 0)),
      rh_padding = ucast (drop_bit 5 (m ! 0)), rh_version = ucast (drop_bit 6 (m ! 0)),
      rh_payloadType = ucast (m ! 1), rh_marker = ucast (drop_bit 7 (m ! 1)),
      rh_sequenceNumber = of_le16 (m ! 2) (m ! 3),
      rh_timestamp = of_le32 (m ! 4) (m ! 5) (m ! 6) (m ! 7),
      rh_ssrc = of_le32 (m ! 8) (m ! 9) (m ! 10) (m ! 11)\<rparr>"

definition PT_AES67_L16 :: "7 word" where "PT_AES67_L16 = 96"
definition PT_AES67_L24 :: "7 word" where "PT_AES67_L24 = 97"

record rtp_packet =
  rp_header :: rtp_header
  rp_payload :: "u8 list"

definition rtp_packet_new :: rtp_packet where
  "rtp_packet_new = \<lparr>rp_header = \<lparr>rh_cc = 0, rh_extension = 0, rh_padding = 0, rh_version = 2,
     rh_payloadType = PT_AES67_L16, rh_marker = 0, rh_sequenceNumber = 0, rh_timestamp = 0,
     rh_ssrc = 0\<rparr>, rp_payload = []\<rparr>"

section \<open>The socket\<close>

record rtp_socket =
  sk_fd :: int
  sk_multicast :: "(string \<times> u16) option"
  sk_isReceiver :: bool
  sk_boundInterface :: "string option"

text \<open>The kernel: open descriptors and, per descriptor, the group and interface joined.\<close>

record kernel =
  kn_fds :: "int set"
  kn_members :: "(int \<times> string \<times> string option) set"

text \<open>Results of the system calls of one opening.\<close>

record open_results =
  or_socket :: int
  or_reuseaddr :: bool
  or_reuseport :: bool
  or_bind :: bool
  or_multicast_ttl :: bool
  or_multicast_if :: bool
  or_add_membership :: bool

definition socket_new :: rtp_socket where
  "socket_new = \<lparr>sk_fd = -1, sk_multicast = None, sk_isReceiver = False, sk_boundInterface = None\<rparr>"

definition kn_open :: "int \<Rightarrow> kernel \<Rightarrow> kernel" where
  "kn_open fd k = (if fd < 0 then k else k\<lparr>kn_fds := insert fd (kn_fds k)\<rparr>)"

definition kn_close :: "int \<Rightarrow> kernel \<Rightarrow> kernel" where
  "kn_close fd k = k\<lparr>kn_fds := kn_fds k - {fd}, kn_members := {m \<in> kn_members k. fst m \<noteq> fd}\<rparr>"

definition openReceiver ::
    "open_results \<Rightarrow> string \<Rightarrow> u16 \<Rightarrow> string option \<Rightarrow> rtp_socket \<times> kernel \<Rightarrow> bool \<times> rtp_socket \<times> kernel" where
  "openReceiver r multicastIP port interfaceIP st =
     (let (s, k) = st; fd = or_socket r; k1 = kn_open fd k; s1 = s\<lparr>sk_fd := fd\<rparr>;
          fail = (\<lambda>s'. (False, s'\<lparr>sk_fd := -1\<rparr>, kn_close fd k1))
      in if fd < 0 then (False, s1, k1)
         else if \<not> or_reuseaddr r then fail s1
         else if \<not> or_reuseport r then fail s1
         else if \<not> or_bind r then fail s1
         else let s2 = s1\<lparr>sk_boundInterface := interfaceIP\<rparr>
              in if interfaceIP \<noteq> None \<and> \<not> or_multicast_if r then fail s2
                 else if \<not> or_add_membership r then fail s2
                 else (True, s2\<lparr>sk_isReceiver := True, sk_multicast := Some (multicastIP, port)\<rparr>,
                       k1\<lparr>kn_members := insert (fd, multicastIP, interfaceIP) (kn_members k1)\<rparr>))"

definition openTransmitter ::
    "open_results \<Rightarrow> string \<Rightarrow> u16 \<Rightarrow> string option \<Rightarrow> rtp_socket \<times> kernel \<Rightarrow> bool \<times> rtp_socket \<times> kernel" where
  "openTransmitter r multicastIP port interfaceIP st =
     (let (s, k) = st; fd = or_socket r; k1 = kn_open fd k; s1 = s\<lparr>sk_fd := fd\<rparr>;
          fail = (False, s1\<lparr>sk_fd := -1\<rparr>, kn_close fd k1)
      in if fd < 0 then (False, s1, k1)
         else if \<not> or_multicast_ttl r then fail
         else if interfaceIP \<noteq> None \<and> \<not> or_multicast_if r then fail
         else (True, s1\<lparr>sk_isReceiver := False, sk_multicast := Some (multicastIP, port)\<rparr>, k1))"

text \<open>Leaving the group is attempted first; its failure is ignored.\<close>

definition socket_close :: "rtp_socket \<times> kernel \<Rightarrow> rtp_socket \<times> kernel" where
  "socket_close st =
     (let (s, k) = st
      in if sk_fd s \<ge> 0
         then let k1 = (if sk_isReceiver s then k\<lparr>kn_members := kn_members k -
                      {(sk_fd s, fst (the (sk_multicast s)), sk_boundInterface s)}\<rparr> else k)
              in (s\<lparr>sk_fd := -1\<rparr>, kn_close (sk_fd s) k1)
         else (s, k))"

definition isOpen :: "rtp_socket \<Rightarrow> bool" where
  "isOpen s \<longleftrightarrow> sk_fd s \<ge> 0"

text \<open>\<open>isValid\<close>: \<open>getsockopt(SO_ERROR)\<close> as None (the call failed) or the pending error.\<close>

definition socket_isValid :: "int option \<Rightarrow> rtp_socket \<Rightarrow> bool" where
  "socket_isValid so_error s =
     (if sk_fd s < 0 then False else case so_error of None \<Rightarrow> False | Some e \<Rightarrow> e = 0)"

text \<open>\<open>send\<close>: None is the result \<open>-1\<close>; otherwise the datagram handed to \<open>sendmsg\<close>.\<close>

definition socket_send :: "rtp_packet \<Rightarrow> rtp_socket \<Rightarrow> u8 list option" where
  "socket_send p s =
     (if sk_fd s < 0 \<or> sk_isReceiver s then None
      else Some (header_memory (toNetworkOrder (rp_header p)) @ rp_payload p))"

datatype recv_result = Datagram "u8 list" | WouldBlock | RecvError

text \<open>
  \<open>receive\<close>: the return value and, when it is positive, the packet. A datagram longer than the
  buffer is cut by \<open>recvfrom\<close>.
\<close>

definition socket_receive :: "recv_result \<Rightarrow> nat \<Rightarrow> rtp_socket \<Rightarrow> int \<times> rtp_packet option" where
  "socket_receive r bufferSize s =
     (if sk_fd s < 0 \<or> \<not> sk_isReceiver s then (-1, None)
      else case r of
        WouldBlock \<Rightarrow> (0, None)
      | RecvError \<Rightarrow> (-1, None)
      | Datagram d \<Rightarrow>
          let buffer = take bufferSize d
          in if length buffer < 12 then (-1, None)
             else (int (length buffer),
                   Some \<lparr>rp_header = toHostOrder (header_of_memory (take 12 buffer)),
                         rp_payload = drop 12 buffer\<rparr>))"

section \<open>Byte order\<close>

lemma bit_htons: "k < 16 \<Longrightarrow> bit (htons w) k \<longleftrightarrow> (if k < 8 then bit w (k + 8) else bit w (k - 8))"
  by (auto simp: htons_def bit_or_iff bit_push_bit_iff bit_drop_bit_eq add.commute
      dest: bit_imp_le_length)

lemma htons_htons: "htons (htons w) = w"
proof (rule bit_word_eqI)
  fix k assume k: "k < LENGTH(16)"
  consider "k < 8" | "8 \<le> k" by linarith
  then show "bit (htons (htons w)) k = bit w k"
    using k by cases (auto simp: bit_htons add.commute dest!: le_Suc_ex)
qed

lemma mask_byte1: "(0xFF00 :: u32) = push_bit 8 (mask 8)"
  by (simp add: mask_eq_exp_minus_1)

lemma bit_htonl:
  assumes "k < 32"
  shows "bit (htonl w) k \<longleftrightarrow> (if k < 8 then bit w (k + 24) else if k < 16 then bit w (k + 8)
    else if k < 24 then bit w (k - 8) else bit w (k - 24))"
proof -
  consider "k < 8" | "8 \<le> k" "k < 16" | "16 \<le> k" "k < 24" | "24 \<le> k" by linarith
  then show ?thesis
    using assms
    by cases (auto simp: htonl_def mask_byte1 bit_or_iff bit_and_iff bit_push_bit_iff bit_drop_bit_eq
        bit_mask_iff add.commute dest: bit_imp_le_length)
qed

lemma htonl_htonl: "htonl (htonl w) = w"
proof (rule bit_word_eqI)
  fix k assume k: "k < LENGTH(32)"
  consider "k < 8" | "8 \<le> k" "k < 16" | "16 \<le> k" "k < 24" | "24 \<le> k" by linarith
  then show "bit (htonl (htonl w)) k = bit w k"
    using k by cases (auto simp: bit_htonl add.commute dest!: le_Suc_ex)
qed

lemma network_host: "toHostOrder (toNetworkOrder h) = h"
  by (simp add: toHostOrder_def toNetworkOrder_def htons_htons htonl_htonl)

lemma of_le16_le16: "of_le16 (ucast w) (ucast (drop_bit 8 w)) = (w :: u16)"
  by (rule bit_word_eqI) (auto simp: of_le16_def bit_or_iff bit_push_bit_iff bit_ucast_iff bit_drop_bit_eq)

lemma of_le32_le32:
  "of_le32 (ucast w) (ucast (drop_bit 8 w)) (ucast (drop_bit 16 w)) (ucast (drop_bit 24 w)) = (w :: u32)"
proof (rule bit_word_eqI)
  fix k assume k: "k < LENGTH(32)"
  consider "k < 8" | "8 \<le> k" "k < 16" | "16 \<le> k" "k < 24" | "24 \<le> k" by linarith
  then show "bit (of_le32 (ucast w) (ucast (drop_bit 8 w)) (ucast (drop_bit 16 w))
      (ucast (drop_bit 24 w))) k = bit w k"
    using k by cases (auto simp: of_le32_def bit_or_iff bit_push_bit_iff bit_ucast_iff bit_drop_bit_eq)
qed

lemma length_header_memory [simp]: "length (header_memory h) = 12"
  by (simp add: header_memory_def le16_def le32_def)

lemma byte0_fields:
  fixes v :: "2 word" and p e :: "1 word" and c :: "4 word"
  defines "b \<equiv> push_bit 6 (ucast v) OR push_bit 5 (ucast p) OR push_bit 4 (ucast e) OR ucast c :: u8"
  shows "ucast b = c" "ucast (drop_bit 4 b) = e" "ucast (drop_bit 5 b) = p" "ucast (drop_bit 6 b) = v"
  by (rule bit_word_eqI; auto simp: b_def bit_or_iff bit_push_bit_iff bit_ucast_iff bit_drop_bit_eq
      less_Suc_eq numeral_2_eq_2 dest: bit_imp_le_length)+

lemma byte1_fields:
  fixes m :: "1 word" and t :: "7 word"
  defines "b \<equiv> push_bit 7 (ucast m) OR ucast t :: u8"
  shows "ucast b = t" "ucast (drop_bit 7 b) = m"
  by (rule bit_word_eqI; auto simp: b_def bit_or_iff bit_push_bit_iff bit_ucast_iff bit_drop_bit_eq
      dest: bit_imp_le_length)+

lemma header_of_bytes:
  "header_of_memory [b0, b1, b2, b3, b4, b5, b6, b7, b8, b9, b10, b11] =
     \<lparr>rh_cc = ucast b0, rh_extension = ucast (drop_bit 4 b0), rh_padding = ucast (drop_bit 5 b0),
      rh_version = ucast (drop_bit 6 b0), rh_payloadType = ucast b1, rh_marker = ucast (drop_bit 7 b1),
      rh_sequenceNumber = of_le16 b2 b3, rh_timestamp = of_le32 b4 b5 b6 b7,
      rh_ssrc = of_le32 b8 b9 b10 b11\<rparr>"
  by (simp add: header_of_memory_def)

lemma header_roundtrip: "header_of_memory (header_memory h) = h"
  unfolding header_memory_def le16_def le32_def append_Cons append_Nil header_of_bytes
    byte0_fields byte1_fields of_le16_le16 of_le32_le32
  by simp

lemma network_bytes:
  "le16 (htons w) = [ucast (drop_bit 8 w), ucast w]"
  "le32 (htonl v) = [ucast (drop_bit 24 v), ucast (drop_bit 16 v), ucast (drop_bit 8 v), ucast v]"
  by (simp_all add: le16_def le32_def)
    (intro conjI bit_word_eqI; simp add: bit_ucast_iff bit_drop_bit_eq bit_htons bit_htonl add.commute)+

section \<open>Properties\<close>

text \<open>
  A packet sent by a transmitter socket and received by a receiver socket with a large
  enough buffer is the same packet: every header field, bit fields included, and every payload
  byte. On the wire the sequence number and the timestamps are big-endian, as RFC 3550 has it.
\<close>

theorem rtp_wire_roundtrip:
  assumes "sk_fd tx \<ge> 0" "\<not> sk_isReceiver tx" "sk_fd rx \<ge> 0" "sk_isReceiver rx"
    and "12 + length (rp_payload p) \<le> n"
  shows "\<exists>d. socket_send p tx = Some d \<and>
    socket_receive (Datagram d) n rx = (int (12 + length (rp_payload p)), Some p) \<and>
    take 2 (drop 2 d) = [ucast (drop_bit 8 (rh_sequenceNumber (rp_header p))),
      ucast (rh_sequenceNumber (rp_header p))] \<and>
    take 4 (drop 4 d) = [ucast (drop_bit 24 (rh_timestamp (rp_header p))),
      ucast (drop_bit 16 (rh_timestamp (rp_header p))),
      ucast (drop_bit 8 (rh_timestamp (rp_header p))), ucast (rh_timestamp (rp_header p))] \<and>
    drop 12 d = rp_payload p"
proof -
  let ?m = "header_memory (toNetworkOrder (rp_header p))"
  let ?d = "?m @ rp_payload p"
  have s: "socket_send p tx = Some ?d" using assms(1,2) by (simp add: socket_send_def)
  have "socket_receive (Datagram ?d) n rx = (int (12 + length (rp_payload p)), Some p)"
    using assms(3-5) by (simp add: socket_receive_def Let_def header_roundtrip network_host)
  moreover have "take 2 (drop 2 ?m) = le16 (htons (rh_sequenceNumber (rp_header p)))"
    "take 4 (drop 4 ?m) = le32 (htonl (rh_timestamp (rp_header p)))"
    by (simp_all add: header_memory_def toNetworkOrder_def le16_def le32_def)
  ultimately show ?thesis using s by (simp add: network_bytes)
qed

definition example_packet :: rtp_packet where
  "example_packet = \<lparr>rp_header = (rp_header rtp_packet_new)\<lparr>rh_sequenceNumber := 0x1234,
     rh_timestamp := 0xDEADBEEF, rh_ssrc := 7, rh_marker := 1\<rparr>, rp_payload = [1, 2, 3]\<rparr>"

lemma rtp_wire_roundtrip_witness:
  "\<exists>d. socket_send example_packet (socket_new\<lparr>sk_fd := 5\<rparr>) = Some d \<and>
     socket_receive (Datagram d) 9000 (socket_new\<lparr>sk_fd := 6, sk_isReceiver := True\<rparr>) =
       (15, Some example_packet)"
  using rtp_wire_roundtrip [of "socket_new\<lparr>sk_fd := 5\<rparr>"
      "socket_new\<lparr>sk_fd := 6, sk_isReceiver := True\<rparr>" example_packet 9000]
  by (auto simp: socket_new_def example_packet_def)

lemma socket_open_effect:
  assumes "or_socket r \<notin> kn_fds k" "\<forall>m \<in> kn_members k. fst m \<in> kn_fds k" "or_socket r \<ge> -1"
  shows "(let (b, s', k') = openReceiver r ip port iface (s, k) in
      if b then isOpen s' \<and> sk_isReceiver s' \<and> kn_fds k' = insert (or_socket r) (kn_fds k) \<and>
          (or_socket r, ip, iface) \<in> kn_members k' \<and>
          \<not> isOpen (fst (socket_close (s', k'))) \<and> snd (socket_close (s', k')) = k
      else \<not> isOpen s' \<and> k' = k) \<and>
    (let (b, s', k') = openTransmitter r ip port iface (s, k) in
      if b then isOpen s' \<and> \<not> sk_isReceiver s' \<and> kn_fds k' = insert (or_socket r) (kn_fds k) \<and>
          \<not> isOpen (fst (socket_close (s', k'))) \<and> snd (socket_close (s', k')) = k
      else \<not> isOpen s' \<and> k' = k)"
proof -
  let ?fd = "or_socket r"
  have m: "{m \<in> kn_members k. fst m \<noteq> ?fd} = kn_members k" using assms(1,2) by auto
  have c: "kn_close ?fd (kn_open ?fd k) = k" if "0 \<le> ?fd"
    using that assms(1) m by (simp add: kn_close_def kn_open_def)
  have c': "kn_close ?fd ((kn_open ?fd k)\<lparr>kn_members := insert (?fd, ip, iface) (kn_members k) -
      {(?fd, ip, iface)}\<rparr>) = k" if "0 \<le> ?fd"
  proof -
    have "{x \<in> kn_members k. x \<noteq> (?fd, ip, iface) \<and> fst x \<noteq> ?fd} = kn_members k"
      by (rule trans [OF _ m]) auto
    with that assms(1) show ?thesis by (auto simp: kn_close_def kn_open_def)
  qed
  have mem: "kn_members (kn_open ?fd k) = kn_members k" by (simp add: kn_open_def)
  show ?thesis
    using assms(3) c c'
    by (cases "0 \<le> ?fd") (auto simp: openReceiver_def openTransmitter_def Let_def isOpen_def
        socket_close_def kn_open_def mem)
qed

text \<open>
  Opening does not leak: an open that fails, at whichever system call, leaves the socket
  closed and the kernel's descriptors and memberships exactly as they were; after one that
  succeeds the descriptor is open, and closing the socket restores the kernel's state. The
  descriptor is a new one, as socket() guarantees.
\<close>

theorem socket_no_leak:
  assumes "or_socket r \<notin> kn_fds k" "\<forall>m \<in> kn_members k. fst m \<in> kn_fds k" "or_socket r \<ge> -1"
  shows "(let (b, s', k') = openReceiver r ip port iface (s, k) in
      if b then isOpen s' \<and> sk_isReceiver s' \<and> kn_fds k' = insert (or_socket r) (kn_fds k) \<and>
          (or_socket r, ip, iface) \<in> kn_members k' \<and>
          \<not> isOpen (fst (socket_close (s', k'))) \<and> snd (socket_close (s', k')) = k
      else \<not> isOpen s' \<and> k' = k) \<and>
    (let (b, s', k') = openTransmitter r ip port iface (s, k) in
      if b then isOpen s' \<and> \<not> sk_isReceiver s' \<and> kn_fds k' = insert (or_socket r) (kn_fds k) \<and>
          \<not> isOpen (fst (socket_close (s', k'))) \<and> snd (socket_close (s', k')) = k
      else \<not> isOpen s' \<and> k' = k)"
  using assms by (rule socket_open_effect)

lemma socket_no_leak_witness:
  "let k = \<lparr>kn_fds = {0, 1, 2}, kn_members = {}\<rparr>;
       r = \<lparr>or_socket = 3, or_reuseaddr = True, or_reuseport = True, or_bind = False,
            or_multicast_ttl = True, or_multicast_if = True, or_add_membership = True\<rparr>
   in snd (snd (openReceiver r ''239.1.1.1'' 5004 None (socket_new, k))) = k"
  using socket_no_leak [of "\<lparr>or_socket = 3, or_reuseaddr = True, or_reuseport = True, or_bind = False,
      or_multicast_ttl = True, or_multicast_if = True, or_add_membership = True\<rparr>"
      "\<lparr>kn_fds = {0, 1, 2}, kn_members = {}\<rparr>" "''239.1.1.1''" 5004 None socket_new]
  by (auto simp: openReceiver_def Let_def)

end
