(* ===== verification/Sdp_Session.thy ===== *)
theory Sdp_Session
  imports Core_Types "HOL-Library.Char_ord"
begin

text \<open>
  \<open>Driver/SDPParser.h/.cpp\<close>: the session description of a stream, its validation, the parser
  and the generator. Text is split and trimmed with the operations of Text_Lib. A parse has
  three outcomes: a session, a refusal (\<open>std::nullopt\<close>) or an exception that leaves the parser
  (\<open>std::stoi\<close> outside any try block).
\<close>

section \<open>The session\<close>

record sdp_session =
  sd_sessionName :: string
  sd_sessionInfo :: string
  sd_sessionID :: u64
  sd_sessionVersion :: u64
  sd_originUsername :: string
  sd_originAddress :: string
  sd_originAddressType :: string
  sd_originNetworkType :: string
  sd_connectionAddress :: string
  sd_connectionType :: string
  sd_connectionNetwork :: string
  sd_ttl :: u8
  sd_timeStart :: u64
  sd_timeStop :: u64
  sd_mediaType :: string
  sd_port :: u16
  sd_transport :: string
  sd_payloadType :: u8
  sd_encoding :: string
  sd_sampleRate :: u32
  sd_numChannels :: u16
  sd_ptime :: u32
  sd_framecount :: u32
  sd_sourceAddress :: string
  sd_ptpDomain :: int
  sd_ptpMasterMAC :: string
  sd_mediaClockType :: string
  sd_direction :: string
  sd_customAttributes :: "(string \<times> string) list"

definition sdp_default :: sdp_session where
  "sdp_default = \<lparr>sd_sessionName = '''', sd_sessionInfo = '''', sd_sessionID = 0,
     sd_sessionVersion = 0, sd_originUsername = ''-'', sd_originAddress = '''',
     sd_originAddressType = ''IN'', sd_originNetworkType = ''IP4'', sd_connectionAddress = '''',
     sd_connectionType = ''IN'', sd_connectionNetwork = ''IP4'', sd_ttl = 32, sd_timeStart = 0,
     sd_timeStop = 0, sd_mediaType = ''audio'', sd_port = 5004, sd_transport = ''RTP/AVP'',
     sd_payloadType = 96, sd_encoding = ''L24'', sd_sampleRate = 48000, sd_numChannels = 2,
     sd_ptime = 1, sd_framecount = 48, sd_sourceAddress = '''', sd_ptpDomain = 0,
     sd_ptpMasterMAC = '''', sd_mediaClockType = ''direct=0'', sd_direction = ''recvonly'',
     sd_customAttributes = []\<rparr>"

definition sdp_validationErrors :: "sdp_session \<Rightarrow> string list" where
  "sdp_validationErrors s =
     (if sd_sessionName s = [] then [''Session name (s=) is required''] else []) @
     (if sd_connectionAddress s = [] then [''Connection address (c=) is required''] else []) @
     (if sd_port s = 0 then [''Port must be non-zero''] else []) @
     (if sd_encoding s \<noteq> ''L16'' \<and> sd_encoding s \<noteq> ''L24'' \<and> sd_encoding s \<noteq> ''AM824''
      then [''Invalid encoding: '' @ sd_encoding s] else []) @
     (if sd_sampleRate s = 0 then [''Sample rate must be non-zero''] else []) @
     (if sd_numChannels s = 0 then [''Channel count must be non-zero''] else [])"

definition sdp_isValid :: "sdp_session \<Rightarrow> bool" where
  "sdp_isValid s \<longleftrightarrow> sdp_validationErrors s = []"

definition sdp_validate :: "sdp_session \<Rightarrow> bool \<times> string list" where
  "sdp_validate s = (let es = sdp_validationErrors s in (es = [], es))"

lemma sdp_isValid_iff:
  "sdp_isValid s \<longleftrightarrow> sd_sessionName s \<noteq> [] \<and> sd_connectionAddress s \<noteq> [] \<and> sd_port s \<noteq> 0 \<and>
     sd_encoding s \<in> {''L16'', ''L24'', ''AM824''} \<and> sd_sampleRate s \<noteq> 0 \<and> sd_numChannels s \<noteq> 0"
  by (auto simp: sdp_isValid_def sdp_validationErrors_def)

end
