(* ===== verification/Sdp_Parser.thy ===== *)
theory Sdp_Parser
  imports Sdp_Session "HOL-Library.List_Lexorder"
begin

text \<open>
  \<open>Driver/SDPParser.cpp\<close>: the parser and the generator of session descriptions. A parse has
  three outcomes: a session, a refusal (\<open>std::nullopt\<close>), or an exception that leaves the parser,
  since the \<open>std::stoi\<close> of the PTP domain stands outside any try block. The clock read by the
  generator and the content of a file are arguments.
\<close>

datatype 'a outcome = Parsed 'a | Refused | Thrown

section \<open>Text utilities\<close>

definition trim :: "string \<Rightarrow> string" where
  "trim s = rev (dropWhile is_space (rev (dropWhile is_space s)))"

text \<open>A loop of \<open>std::getline\<close>: an empty last part is not delivered.\<close>

definition getline_all :: "char \<Rightarrow> string \<Rightarrow> string list" where
  "getline_all c s = (let ws = split_on c s in if last ws = [] then butlast ws else ws)"

definition drop_cr :: "string \<Rightarrow> string" where
  "drop_cr line = (if line \<noteq> [] \<and> last line = CHR 0x0D then butlast line else line)"

definition splitLines :: "string \<Rightarrow> string list" where
  "splitLines text = map drop_cr (getline_all CHR 0x0A text)"

definition splitString :: "string \<Rightarrow> char \<Rightarrow> string list" where
  "splitString s c = map trim (getline_all c s)"

definition startsWith :: "string \<Rightarrow> string \<Rightarrow> bool" where
  "startsWith s prefix \<longleftrightarrow> length s \<ge> length prefix \<and> take (length prefix) s = prefix"

text \<open>\<open>std::stoull\<close>, and \<open>std::stoul\<close> where \<open>long\<close> has 64 bits: a minus sign negates modulo \<open>2^64\<close>.\<close>

definition stoull :: "string \<Rightarrow> u64 option" where
  "stoull s =
     (let t = dropWhile is_space s;
          neg = (case t of c # _ \<Rightarrow> c = CHR ''-'' | [] \<Rightarrow> False);
          u = (case t of c # r \<Rightarrow> if c = CHR ''-'' \<or> c = CHR ''+'' then r else t | [] \<Rightarrow> []);
          ds = takeWhile is_digit u;
          v = digits_nat 10 ds
      in if ds = [] then None
         else if 2 ^ 64 \<le> v then None
         else Some (if neg then - of_nat v else of_nat v))"

text \<open>The regular expression asks for four groups of one to three digits between dots.\<close>

definition sdp_isValidIPv4 :: "string \<Rightarrow> bool" where
  "sdp_isValidIPv4 ip =
     (let ws = split_on CHR ''.'' ip
      in length ws = 4 \<and> (\<forall>w \<in> set ws. 1 \<le> length w \<and> length w \<le> 3 \<and> (\<forall>c \<in> set w. is_digit c)) \<and>
         (\<forall>w \<in> set ws. digits_nat 10 w \<le> 255))"

definition isValidPort :: "u16 \<Rightarrow> bool" where
  "isValidPort p \<longleftrightarrow> p > 0"

definition isValidSampleRate :: "u32 \<Rightarrow> bool" where
  "isValidSampleRate r \<longleftrightarrow> r \<in> set [44100, 48000, 88200, 96000, 176400, 192000, 352800, 384000]"

definition isValidEncoding :: "string \<Rightarrow> bool" where
  "isValidEncoding e \<longleftrightarrow> e \<in> set [''L16'', ''L24'', ''AM824'']"



section \<open>Lines\<close>

definition parseOriginLine :: "string \<Rightarrow> sdp_session \<Rightarrow> sdp_session outcome" where
  "parseOriginLine line s =
     (let parts = splitString line CHR '' ''
      in if length parts < 6 then Refused
         else case stoull (parts ! 1) of None \<Rightarrow> Refused
         | Some i \<Rightarrow> (case stoull (parts ! 2) of None \<Rightarrow> Refused
           | Some v \<Rightarrow> Parsed (s\<lparr>sd_originUsername := parts ! 0, sd_sessionID := i, sd_sessionVersion := v,
               sd_originNetworkType := parts ! 3, sd_originAddressType := parts ! 4,
               sd_originAddress := parts ! 5\<rparr>)))"

definition parseConnectionLine :: "string \<Rightarrow> sdp_session \<Rightarrow> sdp_session outcome" where
  "parseConnectionLine line s =
     (let parts = splitString line CHR '' ''
      in if length parts < 3 then Refused
         else
           let s1 = s\<lparr>sd_connectionType := parts ! 0, sd_connectionNetwork := parts ! 1\<rparr>;
               addrPart = parts ! 2
           in if CHR ''/'' \<in> set addrPart
              then Parsed (s1\<lparr>sd_connectionAddress := takeWhile (\<lambda>c. c \<noteq> CHR ''/'') addrPart,
                     sd_ttl := (case stoi (tl (dropWhile (\<lambda>c. c \<noteq> CHR ''/'') addrPart)) of
                                  Some t \<Rightarrow> of_int t | None \<Rightarrow> 32)\<rparr>)
              else Parsed (s1\<lparr>sd_connectionAddress := addrPart\<rparr>))"

definition parseTimingLine :: "string \<Rightarrow> sdp_session \<Rightarrow> sdp_session outcome" where
  "parseTimingLine line s =
     (let parts = splitString line CHR '' ''
      in if length parts < 2 then Refused
         else case stoull (parts ! 0) of None \<Rightarrow> Refused
         | Some a \<Rightarrow> (case stoull (parts ! 1) of None \<Rightarrow> Refused
           | Some b \<Rightarrow> Parsed (s\<lparr>sd_timeStart := a, sd_timeStop := b\<rparr>)))"

definition parseMediaLine :: "string \<Rightarrow> sdp_session \<Rightarrow> sdp_session outcome" where
  "parseMediaLine line s =
     (let parts = splitString line CHR '' ''
      in if length parts < 4 then Refused
         else case stoi (parts ! 1) of None \<Rightarrow> Refused
         | Some p \<Rightarrow> (case stoi (parts ! 3) of None \<Rightarrow> Refused
           | Some t \<Rightarrow> Parsed (s\<lparr>sd_mediaType := parts ! 0, sd_port := of_int p,
               sd_transport := parts ! 2, sd_payloadType := of_int t\<rparr>)))"

section \<open>Attributes\<close>

definition parseRTPMapAttribute :: "string \<Rightarrow> sdp_session \<Rightarrow> sdp_session outcome" where
  "parseRTPMapAttribute v s =
     (let parts = splitString v CHR '' ''
      in if length parts < 2 then Refused
         else
           let formatParts = splitString (parts ! 1) CHR ''/''
           in if length formatParts < 2 then Refused
              else case stoull (formatParts ! 1) of None \<Rightarrow> Refused
              | Some r \<Rightarrow>
                  let s1 = s\<lparr>sd_encoding := formatParts ! 0, sd_sampleRate := ucast r\<rparr>
                  in if length formatParts \<ge> 3
                     then (case stoi (formatParts ! 2) of None \<Rightarrow> Refused
                           | Some n \<Rightarrow> Parsed (s1\<lparr>sd_numChannels := of_int n\<rparr>))
                     else Parsed s1)"

definition parsePTimeAttribute :: "string \<Rightarrow> sdp_session \<Rightarrow> sdp_session outcome" where
  "parsePTimeAttribute v s =
     (case stoull v of None \<Rightarrow> Refused | Some n \<Rightarrow> Parsed (s\<lparr>sd_ptime := ucast n\<rparr>))"

definition parseFrameCountAttribute :: "string \<Rightarrow> sdp_session \<Rightarrow> sdp_session outcome" where
  "parseFrameCountAttribute v s =
     (case stoull v of None \<Rightarrow> Refused | Some n \<Rightarrow> Parsed (s\<lparr>sd_framecount := ucast n\<rparr>))"

definition parseSourceFilterAttribute :: "string \<Rightarrow> sdp_session \<Rightarrow> sdp_session outcome" where
  "parseSourceFilterAttribute v s =
     (let parts = splitString (trim v) CHR '' ''
      in if length parts \<ge> 5 then Parsed (s\<lparr>sd_sourceAddress := parts ! 4\<rparr>) else Refused)"

text \<open>
  The search for \<open>ptp=IEEE1588-2008:([0-9A-Fa-f\-:]+):domain-nmbr=(\d+)\<close>: the first position at
  which the pattern matches; there the first group is the longest prefix of characters of the
  class after which the rest of the pattern still matches.
\<close>

definition mac_char :: "char \<Rightarrow> bool" where
  "mac_char c \<longleftrightarrow> is_xdigit c \<or> c = CHR ''-'' \<or> c = CHR '':''"

definition domain_digits :: "string \<Rightarrow> string" where
  "domain_digits s = (if startsWith s '':domain-nmbr='' then takeWhile is_digit (drop 13 s) else [])"

fun mac_backtrack :: "nat \<Rightarrow> string \<Rightarrow> (string \<times> string) option" where
  "mac_backtrack 0 s = None"
| "mac_backtrack (Suc k) s =
     (if domain_digits (drop (Suc k) s) \<noteq> [] then Some (take (Suc k) s, domain_digits (drop (Suc k) s))
      else mac_backtrack k s)"

definition ptp_match_at :: "string \<Rightarrow> (string \<times> string) option" where
  "ptp_match_at s =
     (if startsWith s ''ptp=IEEE1588-2008:''
      then let r = drop 18 s in mac_backtrack (length (takeWhile mac_char r)) r
      else None)"

fun ptp_search :: "string \<Rightarrow> (string \<times> string) option" where
  "ptp_search [] = ptp_match_at []"
| "ptp_search (c # s) = (case ptp_match_at (c # s) of Some m \<Rightarrow> Some m | None \<Rightarrow> ptp_search s)"

definition parsePTPRefClockAttribute :: "string \<Rightarrow> sdp_session \<Rightarrow> sdp_session outcome" where
  "parsePTPRefClockAttribute v s =
     (case ptp_search v of None \<Rightarrow> Refused
      | Some (mac, domain) \<Rightarrow> (case stoi domain of None \<Rightarrow> Thrown
          | Some d \<Rightarrow> Parsed (s\<lparr>sd_ptpMasterMAC := mac, sd_ptpDomain := d\<rparr>)))"

definition parseMediaClockAttribute :: "string \<Rightarrow> sdp_session \<Rightarrow> sdp_session outcome" where
  "parseMediaClockAttribute v s = Parsed (s\<lparr>sd_mediaClockType := v\<rparr>)"

definition split_attribute :: "string \<Rightarrow> string \<times> string" where
  "split_attribute line =
     (if CHR '':'' \<in> set line
      then (takeWhile (\<lambda>c. c \<noteq> CHR '':'') line, tl (dropWhile (\<lambda>c. c \<noteq> CHR '':'') line))
      else (line, []))"

definition directions :: "string list" where
  "directions = [''recvonly'', ''sendonly'', ''sendrecv'', ''inactive'']"

definition parseAttributeLine :: "string \<Rightarrow> sdp_session \<Rightarrow> sdp_session outcome" where
  "parseAttributeLine line s =
     (let (attribute, v) = split_attribute line
      in if attribute = ''rtpmap'' then parseRTPMapAttribute v s
         else if attribute = ''ptime'' then parsePTimeAttribute v s
         else if attribute = ''framecount'' then parseFrameCountAttribute v s
         else if attribute = ''source-filter'' then parseSourceFilterAttribute v s
         else if attribute = ''ts-refclk'' then parsePTPRefClockAttribute v s
         else if attribute = ''mediaclk'' then parseMediaClockAttribute v s
         else if attribute \<in> set directions then Parsed (s\<lparr>sd_direction := attribute\<rparr>)
         else Parsed (s\<lparr>sd_customAttributes := smap_put attribute v (sd_customAttributes s)\<rparr>))"

section \<open>A whole description\<close>

definition parseLine :: "string \<Rightarrow> sdp_session \<Rightarrow> sdp_session outcome" where
  "parseLine line s =
     (case line of
        t # e # v \<Rightarrow>
          if t = CHR ''#'' \<or> e \<noteq> CHR ''='' then Parsed s
          else if t = CHR ''o'' then parseOriginLine v s
          else if t = CHR ''s'' then Parsed (s\<lparr>sd_sessionName := trim v\<rparr>)
          else if t = CHR ''i'' then Parsed (s\<lparr>sd_sessionInfo := trim v\<rparr>)
          else if t = CHR ''c'' then parseConnectionLine v s
          else if t = CHR ''t'' then parseTimingLine v s
          else if t = CHR ''m'' then parseMediaLine v s
          else if t = CHR ''a'' then parseAttributeLine v s
          else Parsed s
      | _ \<Rightarrow> Parsed s)"

fun parseLines :: "string list \<Rightarrow> sdp_session \<Rightarrow> sdp_session outcome" where
  "parseLines [] s = Parsed s"
| "parseLines (l # ls) s =
     (case parseLine l s of Parsed s' \<Rightarrow> parseLines ls s' | Refused \<Rightarrow> Refused | Thrown \<Rightarrow> Thrown)"

definition parseString :: "string \<Rightarrow> sdp_session outcome" where
  "parseString text =
     (case parseLines (splitLines text) sdp_default of
        Parsed s \<Rightarrow> if sdp_isValid s then Parsed s else Refused
      | Refused \<Rightarrow> Refused | Thrown \<Rightarrow> Thrown)"

definition parseFile :: "string option \<Rightarrow> sdp_session outcome" where
  "parseFile content = (case content of None \<Rightarrow> Refused | Some text \<Rightarrow> parseString text)"

section \<open>Generation\<close>

definition nl :: string where "nl = [CHR 0x0A]"

definition generateOriginLine :: "u64 \<Rightarrow> sdp_session \<Rightarrow> string" where
  "generateOriginLine now s =
     ''o='' @ sd_originUsername s @
     '' '' @ show_nat (unat (if sd_sessionID s = 0 then now else sd_sessionID s)) @
     '' '' @ show_nat (unat (sd_sessionVersion s)) @
     '' '' @ sd_originNetworkType s @ '' '' @ sd_originAddressType s @ '' '' @ sd_originAddress s"

definition generateConnectionLine :: "sdp_session \<Rightarrow> string" where
  "generateConnectionLine s =
     ''c='' @ sd_connectionType s @ '' '' @ sd_connectionNetwork s @ '' '' @ sd_connectionAddress s @
     (if sd_ttl s \<noteq> 0 then ''/'' @ show_nat (unat (sd_ttl s)) else [])"

definition generateMediaLine :: "sdp_session \<Rightarrow> string" where
  "generateMediaLine s =
     ''m='' @ sd_mediaType s @ '' '' @ show_nat (unat (sd_port s)) @ '' '' @ sd_transport s @
     '' '' @ show_nat (unat (sd_payloadType s))"

definition generateAttributes :: "sdp_session \<Rightarrow> string list" where
  "generateAttributes s =
     [''a=rtpmap:'' @ show_nat (unat (sd_payloadType s)) @ '' '' @ sd_encoding s @
        ''/'' @ show_nat (unat (sd_sampleRate s)) @ ''/'' @ show_nat (unat (sd_numChannels s)),
      ''a=ptime:'' @ show_nat (unat (sd_ptime s)),
      ''a=framecount:'' @ show_nat (unat (sd_framecount s)),
      ''a='' @ sd_direction s] @
     (if sd_sourceAddress s \<noteq> []
      then [''a=source-filter: incl IN IP4 '' @ sd_connectionAddress s @ '' '' @ sd_sourceAddress s] else []) @
     (if sd_ptpDomain s \<ge> 0 \<and> sd_ptpMasterMAC s \<noteq> []
      then [''a=ts-refclk:ptp=IEEE1588-2008:'' @ sd_ptpMasterMAC s @ '':domain-nmbr='' @ show_int (sd_ptpDomain s)]
      else []) @
     (if sd_mediaClockType s \<noteq> [] then [''a=mediaclk:'' @ sd_mediaClockType s] else []) @
     map (\<lambda>(k, v). if v = [] then ''a='' @ k else ''a='' @ k @ '':'' @ v) (sd_customAttributes s)"

definition generate_lines :: "u64 \<Rightarrow> sdp_session \<Rightarrow> string list" where
  "generate_lines now s =
     [''v=0'', generateOriginLine now s, ''s='' @ sd_sessionName s] @
     (if sd_sessionInfo s \<noteq> [] then [''i='' @ sd_sessionInfo s] else []) @
     [generateConnectionLine s,
      ''t='' @ show_nat (unat (sd_timeStart s)) @ '' '' @ show_nat (unat (sd_timeStop s)),
      generateMediaLine s] @
     generateAttributes s"

definition generate :: "u64 \<Rightarrow> sdp_session \<Rightarrow> string" where
  "generate now s = concat (map (\<lambda>l. l @ nl) (generate_lines now s))"

text \<open>\<open>writeFile\<close>: the new content of the file, if it could be opened.\<close>

definition writeFile :: "bool \<Rightarrow> u64 \<Rightarrow> sdp_session \<Rightarrow> string option" where
  "writeFile opens now s = (if opens then Some (generate now s) else None)"

section \<open>Sessions from parameters and stream descriptions\<close>

definition createDefaultTxSession ::
    "u64 \<Rightarrow> string \<Rightarrow> string \<Rightarrow> string \<Rightarrow> u16 \<Rightarrow> u16 \<Rightarrow> u32 \<Rightarrow> string \<Rightarrow> sdp_session" where
  "createDefaultTxSession now name sourceIP multicastIP port numChannels sampleRate encoding =
     sdp_default\<lparr>sd_sessionName := name, sd_sessionInfo := ''AES67 Stream'', sd_sessionID := now,
       sd_sessionVersion := 0, sd_originUsername := ''-'', sd_originAddress := sourceIP,
       sd_originAddressType := ''IP4'', sd_originNetworkType := ''IN'',
       sd_connectionAddress := multicastIP, sd_connectionType := ''IN'', sd_connectionNetwork := ''IP4'',
       sd_ttl := 32, sd_timeStart := 0, sd_timeStop := 0, sd_mediaType := ''audio'', sd_port := port,
       sd_transport := ''RTP/AVP'', sd_payloadType := 96, sd_encoding := encoding,
       sd_sampleRate := sampleRate, sd_numChannels := numChannels, sd_ptime := 1,
       sd_framecount := sampleRate div 1000, sd_sourceAddress := sourceIP, sd_direction := ''sendonly'',
       sd_ptpDomain := 0, sd_mediaClockType := ''direct=0''\<rparr>"

text \<open>The identifier is generated from random bytes; what a fresh \<open>StreamInfo\<close> holds is an argument.\<close>

definition toStreamInfo :: "u8 list \<Rightarrow> stream_info \<Rightarrow> sdp_session \<Rightarrow> stream_info" where
  "toStreamInfo random fresh s =
     fresh\<lparr>si_id := generate_stream_id random, si_name := sd_sessionName s,
       si_description := sd_sessionInfo s,
       si_source := (si_source fresh)\<lparr>na_ip := sd_sourceAddress s, na_port := 0\<rparr>,
       si_multicast := \<lparr>na_ip = sd_connectionAddress s, na_port = sd_port s, na_ttl = sd_ttl s\<rparr>,
       si_encoding := (if sd_encoding s = ''L16'' then L16 else if sd_encoding s = ''L24'' then L24
         else UnknownEncoding),
       si_sampleRate := sd_sampleRate s, si_numChannels := sd_numChannels s,
       si_payloadType := sd_payloadType s, si_ptime := sd_ptime s, si_framecount := sd_framecount s,
       si_ptp := \<lparr>pc_domain = sd_ptpDomain s, pc_masterMAC = sd_ptpMasterMAC s,
         pc_enabled = (sd_ptpDomain s \<ge> 0)\<rparr>\<rparr>"

definition fromStreamInfo :: "u64 \<Rightarrow> stream_info \<Rightarrow> sdp_session" where
  "fromStreamInfo now i =
     sdp_default\<lparr>sd_sessionName := si_name i, sd_sessionInfo := si_description i, sd_sessionID := now,
       sd_originAddress := na_ip (si_source i), sd_connectionAddress := na_ip (si_multicast i),
       sd_port := na_port (si_multicast i), sd_ttl := na_ttl (si_multicast i),
       sd_encoding := (case si_encoding i of L16 \<Rightarrow> ''L16'' | L24 \<Rightarrow> ''L24'' | _ \<Rightarrow> ''L24''),
       sd_sampleRate := si_sampleRate i, sd_numChannels := si_numChannels i,
       sd_payloadType := si_payloadType i, sd_ptime := si_ptime i, sd_framecount := si_framecount i,
       sd_sourceAddress := na_ip (si_source i), sd_ptpDomain := pc_domain (si_ptp i),
       sd_ptpMasterMAC := pc_masterMAC (si_ptp i)\<rparr>"

end
