(* ===== verification/Sdp_Roundtrip.thy ===== *)
theory Sdp_Roundtrip
  imports Sdp_Parser
begin

text \<open>
  What \<open>Driver/SDPParser.cpp\<close> does with the text it writes: every generated line and attribute is
  read back to the fields it was written from, hence so is the text of every printable session
  and of every stream description published as one; and which outcomes a parse can have.
\<close>

section \<open>Reading back tokens\<close>

definition token :: "string \<Rightarrow> bool" where
  "token w \<longleftrightarrow> w \<noteq> [] \<and> (\<forall>c \<in> set w. \<not> is_space c)"

lemma dropWhile_none: "(\<And>x. x \<in> set xs \<Longrightarrow> \<not> P x) \<Longrightarrow> dropWhile P xs = xs"
  by (cases xs) auto

lemma trim_token [text_simps]: "token w \<Longrightarrow> trim w = w"
proof -
  assume w: "token w"
  then have "dropWhile is_space w = w" "dropWhile is_space (rev w) = rev w"
    by (auto simp: token_def intro!: dropWhile_none)
  then show ?thesis by (simp add: trim_def)
qed

lemma token_show_nat [text_simps, simp]: "token (show_nat n)"
  using show_nat_digits is_digit_not_special(1) by (force simp: token_def)

lemma show_nat_chars:
  assumes "c \<in> set (show_nat n)"
  shows "is_digit c"
  using show_nat_digits assms by blast

lemma stoull_show_nat [text_simps]:
  assumes "n < 2 ^ 64"
  shows "stoull (show_nat n) = Some (of_nat n)"
proof -
  obtain c r where s: "show_nat n = c # r" by (cases "show_nat n") auto
  then have c: "is_digit c" using show_nat_digits [of n] by simp
  have "takeWhile is_digit (show_nat n) = show_nat n" using show_nat_digits [of n] by simp
  then show ?thesis
    using assms s is_digit_not_special [OF c] digits_show_nat [of n] by (simp add: stoull_def Let_def)
qed

lemma stoull_unat [text_simps]:
  fixes w :: "'a::len word"
  assumes "LENGTH('a) \<le> 64"
  shows "stoull (show_nat (unat w)) = Some (ucast w)"
proof -
  have "unat w < 2 ^ LENGTH('a)" by (rule unsigned_less)
  also have "\<dots> \<le> (2 :: nat) ^ 64" using assms by (intro power_increasing) simp_all
  finally have "stoull (show_nat (unat w)) = Some (of_nat (unat w))" by (rule stoull_show_nat)
  then show ?thesis by simp
qed

lemma stoi_unat [text_simps]:
  fixes w :: "'a::len word"
  assumes "LENGTH('a) \<le> 31"
  shows "stoi (show_nat (unat w)) = Some (uint w)"
proof -
  have "unat w < 2 ^ LENGTH('a)" by (rule unsigned_less)
  also have "\<dots> \<le> (2 :: nat) ^ 31" using assms by (intro power_increasing) simp_all
  finally show ?thesis by (simp add: stoi_show_nat)
qed

lemma getline_join:
  assumes "ws \<noteq> []" "\<forall>w \<in> set ws. c \<notin> set w" "last ws \<noteq> []"
  shows "getline_all c (join_with c ws) = ws"
  using split_join [OF assms(1,2)] assms(3) by (simp add: getline_all_def)

lemma splitString_join [text_simps]:
  assumes "ws \<noteq> []" "\<forall>w \<in> set ws. token w \<and> c \<notin> set w"
  shows "splitString (join_with c ws) c = ws"
proof -
  have "last ws \<in> set ws" using assms(1) by simp
  then have "last ws \<noteq> []" using assms(2) unfolding token_def by blast
  moreover have "map trim ws = ws" using assms(2) by (simp add: map_idI trim_token)
  ultimately show ?thesis using getline_join [OF assms(1), of c] assms(2) by (simp add: splitString_def)
qed

lemma token_no_blank: "token w \<Longrightarrow> CHR '' '' \<notin> set w"
  by (auto simp: token_def is_space_def)

lemma splitString_tokens [text_simps]:
  "ws \<noteq> [] \<Longrightarrow> \<forall>w \<in> set ws. token w \<Longrightarrow> splitString (join_with CHR '' '' ws) CHR '' '' = ws"
  using token_no_blank by (intro splitString_join) auto

lemma split_on_lines:
  "\<forall>l \<in> set ls. c \<notin> set l \<Longrightarrow> split_on c (concat (map (\<lambda>l. l @ [c]) ls)) = ls @ [[]]"
  by (induction ls) (simp_all add: split_on_append)

lemma splitLines_text:
  assumes "\<forall>l \<in> set ls. CHR 0x0A \<notin> set l \<and> (l = [] \<or> last l \<noteq> CHR 0x0D)"
  shows "splitLines (concat (map (\<lambda>l. l @ nl) ls)) = ls"
proof -
  have "getline_all CHR 0x0A (concat (map (\<lambda>l. l @ nl) ls)) = ls"
    using split_on_lines [of ls "CHR 0x0A"] assms by (simp add: getline_all_def nl_def)
  moreover have "map drop_cr ls = ls" using assms by (intro map_idI) (auto simp: drop_cr_def)
  ultimately show ?thesis by (simp add: splitLines_def)
qed

lemma parseLines_append:
  "parseLines ls s = Parsed s' \<Longrightarrow> parseLines (ls @ ks) s = parseLines ks s'"
  by (induction ls s rule: parseLines.induct) (auto split: outcome.splits)

lemma parseLines_Cons: "parseLine l s = Parsed s' \<Longrightarrow> parseLines (l # ls) s = parseLines ls s'"
  by simp

lemma takeWhile_sep: "c \<notin> set k \<Longrightarrow> takeWhile (\<lambda>x. x \<noteq> c) (k @ c # v) = k"
  and dropWhile_sep: "c \<notin> set k \<Longrightarrow> dropWhile (\<lambda>x. x \<noteq> c) (k @ c # v) = c # v"
  by (induction k) auto

section \<open>Reading back the lines\<close>

lemma parse_origin:
  assumes "token u" "token nt" "token at" "token ad"
  shows "parseLine (''o='' @ u @ '' '' @ show_nat (unat (i :: u64)) @ '' '' @ show_nat (unat (v :: u64)) @
      '' '' @ nt @ '' '' @ at @ '' '' @ ad) s =
    Parsed (s\<lparr>sd_originUsername := u, sd_sessionID := i, sd_sessionVersion := v,
      sd_originNetworkType := nt, sd_originAddressType := at, sd_originAddress := ad\<rparr>)"
proof -
  have "splitString (u @ '' '' @ show_nat (unat i) @ '' '' @ show_nat (unat v) @ '' '' @ nt @ '' '' @ at @ '' '' @ ad) CHR '' '' =
      [u, show_nat (unat i), show_nat (unat v), nt, at, ad]"
    using splitString_tokens [of "[u, show_nat (unat i), show_nat (unat v), nt, at, ad]"] assms by simp
  then show ?thesis by (simp add: parseLine_def parseOriginLine_def Let_def stoull_unat)
qed

lemma parse_connection:
  assumes "token a" "token b" "token ad" "CHR ''/'' \<notin> set ad" "t \<noteq> 0"
  shows "parseLine (''c='' @ a @ '' '' @ b @ '' '' @ ad @ ''/'' @ show_nat (unat (t :: u8))) s =
    Parsed (s\<lparr>sd_connectionType := a, sd_connectionNetwork := b, sd_connectionAddress := ad, sd_ttl := t\<rparr>)"
proof -
  let ?p = "ad @ ''/'' @ show_nat (unat t)"
  have "token ?p" using assms(3) token_show_nat [of "unat t"] by (auto simp: token_def is_space_def)
  then have "splitString (a @ '' '' @ b @ '' '' @ ?p) CHR '' '' = [a, b, ?p]"
    using splitString_tokens [of "[a, b, ?p]"] assms(1,2) by simp
  moreover have "takeWhile (\<lambda>c. c \<noteq> CHR ''/'') ?p = ad" "dropWhile (\<lambda>c. c \<noteq> CHR ''/'') ?p = CHR ''/'' # show_nat (unat t)"
    using takeWhile_sep [OF assms(4)] dropWhile_sep [OF assms(4)] by simp_all
  ultimately show ?thesis by (simp add: parseLine_def parseConnectionLine_def Let_def stoi_unat)
qed

lemma parse_timing:
  "parseLine (''t='' @ show_nat (unat (a :: u64)) @ '' '' @ show_nat (unat (b :: u64))) s =
    Parsed (s\<lparr>sd_timeStart := a, sd_timeStop := b\<rparr>)"
  using splitString_tokens [of "[show_nat (unat a), show_nat (unat b)]"]
  by (simp add: parseLine_def parseTimingLine_def Let_def stoull_unat)

lemma parse_media:
  assumes "token m" "token tr"
  shows "parseLine (''m='' @ m @ '' '' @ show_nat (unat (p :: u16)) @ '' '' @ tr @ '' '' @ show_nat (unat (t :: u8))) s =
    Parsed (s\<lparr>sd_mediaType := m, sd_port := p, sd_transport := tr, sd_payloadType := t\<rparr>)"
  using splitString_tokens [of "[m, show_nat (unat p), tr, show_nat (unat t)]"] assms
  by (simp add: parseLine_def parseMediaLine_def Let_def stoi_unat)

section \<open>Reading back the attributes\<close>

lemma parseLine_a: "parseLine (''a='' @ l) s = parseAttributeLine l s"
  by (simp add: parseLine_def)

lemma split_attr: "CHR '':'' \<notin> set k \<Longrightarrow> split_attribute (k @ '':'' @ v) = (k, v)"
  by (simp add: split_attribute_def takeWhile_sep dropWhile_sep)

lemma split_attr_plain: "CHR '':'' \<notin> set k \<Longrightarrow> split_attribute k = (k, [])"
  by (simp add: split_attribute_def)

lemma parse_rtpmap:
  assumes "token enc" "CHR ''/'' \<notin> set enc"
  shows "parseLine (''a=rtpmap:'' @ show_nat (unat (pt :: u8)) @ '' '' @ enc @ ''/'' @ show_nat (unat (sr :: u32)) @
      ''/'' @ show_nat (unat (n :: u16))) s =
    Parsed (s\<lparr>sd_encoding := enc, sd_sampleRate := sr, sd_numChannels := n\<rparr>)"
proof -
  let ?f = "enc @ ''/'' @ show_nat (unat sr) @ ''/'' @ show_nat (unat n)"
  let ?v = "show_nat (unat pt) @ '' '' @ ?f"
  have slash: "CHR ''/'' \<notin> set (show_nat k)" for k
    using show_nat_chars [of "CHR ''/''" k] by (auto simp: is_digit_def)
  have "token ?f" using assms(1) token_show_nat [of "unat sr"] token_show_nat [of "unat n"]
    by (auto simp: token_def is_space_def)
  then have "splitString ?v CHR '' '' = [show_nat (unat pt), ?f]"
    using splitString_tokens [of "[show_nat (unat pt), ?f]"] by simp
  moreover have "splitString ?f CHR ''/'' = [enc, show_nat (unat sr), show_nat (unat n)]"
    using splitString_join [of "[enc, show_nat (unat sr), show_nat (unat n)]" "CHR ''/''"] assms slash by simp
  moreover have "ucast (ucast sr :: u64) = sr" by (rule bit_word_eqI) (auto simp: bit_ucast_iff)
  ultimately have "parseRTPMapAttribute ?v s =
      Parsed (s\<lparr>sd_encoding := enc, sd_sampleRate := sr, sd_numChannels := n\<rparr>)"
    by (simp add: parseRTPMapAttribute_def Let_def stoull_unat stoi_unat)
  then show ?thesis
    using split_attr [of "''rtpmap''" ?v] parseLine_a [of "''rtpmap:'' @ ?v" s]
    by (simp add: parseAttributeLine_def)
qed

lemma ucast_back: "ucast (ucast (w :: u32) :: u64) = w"
  by (rule bit_word_eqI) (auto simp: bit_ucast_iff)

lemma parse_ptime: "parseLine (''a=ptime:'' @ show_nat (unat (n :: u32))) s = Parsed (s\<lparr>sd_ptime := n\<rparr>)"
  using split_attr [of "''ptime''" "show_nat (unat n)"] parseLine_a [of "''ptime:'' @ show_nat (unat n)" s]
  by (simp add: parseAttributeLine_def parsePTimeAttribute_def stoull_unat ucast_back)

lemma parse_framecount:
  "parseLine (''a=framecount:'' @ show_nat (unat (n :: u32))) s = Parsed (s\<lparr>sd_framecount := n\<rparr>)"
  using split_attr [of "''framecount''" "show_nat (unat n)"] parseLine_a [of "''framecount:'' @ show_nat (unat n)" s]
  by (simp add: parseAttributeLine_def parseFrameCountAttribute_def stoull_unat ucast_back)

lemma parse_direction:
  assumes "d \<in> set directions"
  shows "parseLine (''a='' @ d) s = Parsed (s\<lparr>sd_direction := d\<rparr>)"
proof -
  have "CHR '':'' \<notin> set d" "d \<notin> set [''rtpmap'', ''ptime'', ''framecount'', ''source-filter'', ''ts-refclk'', ''mediaclk'']"
    using assms by (auto simp: directions_def)
  then show ?thesis using assms parseLine_a [of d s] by (simp add: parseAttributeLine_def split_attr_plain)
qed

lemma trim_blank: "trim (CHR '' '' # w) = trim w"
  by (simp add: trim_def is_space_def)

lemma trim_ends: "w \<noteq> [] \<Longrightarrow> \<not> is_space (hd w) \<Longrightarrow> \<not> is_space (last w) \<Longrightarrow> trim w = w"
proof -
  assume w: "w \<noteq> []" "\<not> is_space (hd w)" "\<not> is_space (last w)"
  have "dropWhile is_space w = w" using w by (cases w) simp_all
  moreover have "dropWhile is_space (rev w) = rev w" using w by (cases w rule: rev_cases) simp_all
  ultimately show "trim w = w" by (simp add: trim_def)
qed

lemma parse_source_filter:
  assumes "token ad" "token src"
  shows "parseLine (''a=source-filter: incl IN IP4 '' @ ad @ '' '' @ src) s = Parsed (s\<lparr>sd_sourceAddress := src\<rparr>)"
proof -
  let ?w = "''incl IN IP4 '' @ ad @ '' '' @ src"
  have "last ?w = last src" "src \<noteq> []" using assms(2) by (simp_all add: token_def)
  then have "\<not> is_space (last ?w)" using assms(2) by (simp add: token_def)
  moreover have "\<not> is_space (hd ?w)" by (simp add: is_space_def)
  ultimately have "trim ?w = ?w" by (intro trim_ends) simp_all
  then have tr: "trim ('' '' @ ?w) = ?w" by (simp add: trim_blank)
  have tok: "token ''incl'' \<and> token ''IN'' \<and> token ''IP4''" by (simp add: token_def is_space_def)
  have "splitString ?w CHR '' '' = [''incl'', ''IN'', ''IP4'', ad, src]"
    using splitString_tokens [of "[''incl'', ''IN'', ''IP4'', ad, src]"] tok assms by simp
  then have "parseSourceFilterAttribute ('' '' @ ?w) s = Parsed (s\<lparr>sd_sourceAddress := src\<rparr>)"
    unfolding parseSourceFilterAttribute_def tr by simp
  then show ?thesis
    using split_attr [of "''source-filter''" "'' '' @ ?w"] parseLine_a [of "''source-filter:'' @ '' '' @ ?w" s]
    by (simp add: parseAttributeLine_def)
qed

lemma parse_mediaclk: "parseLine (''a=mediaclk:'' @ v) s = Parsed (s\<lparr>sd_mediaClockType := v\<rparr>)"
  using split_attr [of "''mediaclk''" v] parseLine_a [of "''mediaclk:'' @ v" s]
  by (simp add: parseAttributeLine_def parseMediaClockAttribute_def)

lemma domain_digits_colon:
  assumes "take 13 s \<noteq> '':domain-nmbr=''"
  shows "domain_digits s = []"
proof -
  have "length '':domain-nmbr='' = 13" by simp
  with assms show ?thesis unfolding domain_digits_def startsWith_def by (simp only: if_False simp_thms)
qed

lemma ptp_match_generated:
  assumes "mac \<noteq> []" "\<forall>c \<in> set mac. mac_char c" "\<forall>c \<in> set ds. is_digit c" "ds \<noteq> []"
  shows "ptp_match_at (''ptp=IEEE1588-2008:'' @ mac @ '':domain-nmbr='' @ ds) = Some (mac, ds)"
proof -
  let ?r = "mac @ '':domain-nmbr='' @ ds"
  have cls: "mac_char CHR '':''" "mac_char CHR ''d''" "\<not> mac_char CHR ''o''"
    by (simp_all add: mac_char_def is_xdigit_def digit_value_def)
  have run: "takeWhile mac_char ?r = mac @ '':d''" using assms(2) cls by (simp add: takeWhile_append2)
  have len: "length (takeWhile mac_char ?r) = Suc (Suc (length mac))" unfolding run by simp
  obtain k where k: "length mac = Suc k" using assms(1) by (cases mac) auto
  have d2: "domain_digits (drop (Suc (Suc (length mac))) ?r) = []"
    by (rule domain_digits_colon) simp
  have d1: "domain_digits (drop (Suc (length mac)) ?r) = []"
    by (rule domain_digits_colon) simp
  have d0: "domain_digits (drop (length mac) ?r) = ds"
    using assms(3) by (simp add: domain_digits_def startsWith_def)
  have "mac_backtrack (Suc (Suc (length mac))) ?r = Some (take (length mac) ?r, ds)"
    unfolding mac_backtrack.simps d2 d1 unfolding k mac_backtrack.simps unfolding k [symmetric] d0
    using assms(4) by simp
  then show ?thesis
    unfolding ptp_match_at_def by (simp add: startsWith_def Let_def len [simplified])
qed

lemma parse_refclk:
  assumes "mac \<noteq> []" "\<forall>c \<in> set mac. mac_char c" "0 \<le> d" "d < 2 ^ 31"
  shows "parseLine (''a=ts-refclk:ptp=IEEE1588-2008:'' @ mac @ '':domain-nmbr='' @ show_int d) s =
    Parsed (s\<lparr>sd_ptpMasterMAC := mac, sd_ptpDomain := d\<rparr>)"
proof -
  let ?v = "''ptp=IEEE1588-2008:'' @ mac @ '':domain-nmbr='' @ show_int d"
  have sd: "show_int d = show_nat (nat d)" using assms(3) by (simp add: show_int_def)
  have m: "ptp_match_at ?v = Some (mac, show_int d)"
    using ptp_match_generated [OF assms(1,2), of "show_int d"] show_nat_digits [of "nat d"] by (simp add: sd)
  obtain c r where cr: "?v = c # r" by simp
  have search: "ptp_search ?v = Some (mac, show_int d)" using m unfolding cr by simp
  have stoi_d: "stoi (show_int d) = Some d" using assms(3,4) stoi_show_nat [of "nat d"] by (simp add: sd)
  have "parsePTPRefClockAttribute ?v s = Parsed (s\<lparr>sd_ptpMasterMAC := mac, sd_ptpDomain := d\<rparr>)"
    unfolding parsePTPRefClockAttribute_def search by (simp add: stoi_d)
  then show ?thesis
    using split_attr [of "''ts-refclk''" ?v] parseLine_a [of "''ts-refclk:'' @ ?v" s]
    by (simp add: parseAttributeLine_def)
qed

definition reserved :: "string list" where
  "reserved = [''rtpmap'', ''ptime'', ''framecount'', ''source-filter'', ''ts-refclk'', ''mediaclk''] @ directions"

definition custom_line :: "string \<times> string \<Rightarrow> string" where
  "custom_line = (\<lambda>(k, v). if v = [] then ''a='' @ k else ''a='' @ k @ '':'' @ v)"

lemma parse_custom:
  assumes "CHR '':'' \<notin> set k" "k \<notin> set reserved"
  shows "parseLine (custom_line (k, v)) s =
    Parsed (s\<lparr>sd_customAttributes := smap_put k v (sd_customAttributes s)\<rparr>)"
proof -
  have "parseAttributeLine (if v = [] then k else k @ '':'' @ v) s =
      Parsed (s\<lparr>sd_customAttributes := smap_put k v (sd_customAttributes s)\<rparr>)"
    using assms split_attr [OF assms(1), of v] split_attr_plain [OF assms(1)]
    by (simp add: parseAttributeLine_def reserved_def)
  then show ?thesis
    using parseLine_a [of "if v = [] then k else k @ '':'' @ v" s] by (simp add: custom_line_def split: if_splits)
qed

lemma parse_customs:
  assumes "\<forall>(k, v) \<in> set kvs. CHR '':'' \<notin> set k \<and> k \<notin> set reserved" "smap_ok (sd_customAttributes s @ kvs)"
  shows "parseLines (map custom_line kvs) s =
    Parsed (s\<lparr>sd_customAttributes := sd_customAttributes s @ kvs\<rparr>)"
  using assms
proof (induction kvs arbitrary: s)
  case Nil
  then show ?case by simp
next
  case (Cons kv kvs)
  obtain k v where kv: "kv = (k, v)" by (cases kv)
  have "\<forall>k' \<in> fst ` set (sd_customAttributes s). k' < k"
    using Cons.prems(2) by (auto simp: smap_ok_def sorted_append kv less_le)
  then have put: "smap_put k v (sd_customAttributes s) = sd_customAttributes s @ [(k, v)]" by (rule smap_put_last)
  let ?s1 = "s\<lparr>sd_customAttributes := sd_customAttributes s @ [(k, v)]\<rparr>"
  have "parseLine (custom_line kv) s = Parsed ?s1"
    using parse_custom [of k v s] Cons.prems(1) put by (simp add: kv)
  moreover have "parseLines (map custom_line kvs) ?s1 =
      Parsed (?s1\<lparr>sd_customAttributes := sd_customAttributes ?s1 @ kvs\<rparr>)"
    using Cons.prems by (intro Cons.IH) (simp_all add: kv)
  ultimately show ?case by (simp add: kv)
qed

section \<open>Round trip\<close>

definition line_ok :: "string \<Rightarrow> bool" where
  "line_ok l \<longleftrightarrow> CHR 0x0A \<notin> set l \<and> (l = [] \<or> last l \<noteq> CHR 0x0D)"

lemma line_ok_append: "CHR 0x0A \<notin> set a \<Longrightarrow> line_ok b \<Longrightarrow> b \<noteq> [] \<Longrightarrow> line_ok (a @ b)"
  by (auto simp: line_ok_def)

lemma token_line_ok: "token w \<Longrightarrow> line_ok w \<and> CHR 0x0A \<notin> set w \<and> w \<noteq> []"
proof -
  assume w: "token w"
  have sp: "is_space CHR 0x0A" "is_space CHR 0x0D" by (simp_all add: is_space_def)
  have "w \<noteq> []" using w by (simp add: token_def)
  then have "last w \<in> set w" by simp
  with w have "\<not> is_space (last w)" by (simp add: token_def)
  then have "last w \<noteq> CHR 0x0D" using sp(2) by metis
  moreover have "CHR 0x0A \<notin> set w" using w sp(1) unfolding token_def by blast
  ultimately show ?thesis using \<open>w \<noteq> []\<close> by (simp add: line_ok_def)
qed

text \<open>
  The sessions whose text form determines them: single words where the syntax has single words,
  and the few values the generator leaves out.
\<close>

definition sdp_printable :: "sdp_session \<Rightarrow> bool" where
  "sdp_printable s \<longleftrightarrow> sdp_isValid s \<and>
     (\<forall>w \<in> {sd_originUsername s, sd_originNetworkType s, sd_originAddressType s, sd_originAddress s,
        sd_connectionType s, sd_connectionNetwork s, sd_connectionAddress s, sd_mediaType s, sd_transport s}. token w) \<and>
     CHR ''/'' \<notin> set (sd_connectionAddress s) \<and> sd_ttl s \<noteq> 0 \<and>
     trim (sd_sessionName s) = sd_sessionName s \<and> line_ok (sd_sessionName s) \<and>
     trim (sd_sessionInfo s) = sd_sessionInfo s \<and> line_ok (sd_sessionInfo s) \<and>
     (sd_sourceAddress s = [] \<or> token (sd_sourceAddress s)) \<and>
     (if sd_ptpMasterMAC s = [] then sd_ptpDomain s = 0
      else (\<forall>c \<in> set (sd_ptpMasterMAC s). mac_char c) \<and> 0 \<le> sd_ptpDomain s \<and> sd_ptpDomain s < 2 ^ 31) \<and>
     sd_mediaClockType s \<noteq> [] \<and> line_ok (sd_mediaClockType s) \<and> sd_direction s \<in> set directions \<and>
     smap_ok (sd_customAttributes s) \<and>
     (\<forall>(k, v) \<in> set (sd_customAttributes s). CHR '':'' \<notin> set k \<and> k \<notin> set reserved \<and> CHR 0x0A \<notin> set k \<and>
        line_ok v \<and> (v = [] \<longrightarrow> line_ok k))"

lemma sdp_printableD:
  assumes "sdp_printable s"
  shows sdp_tok: "token (sd_originUsername s)" "token (sd_originNetworkType s)" "token (sd_originAddressType s)"
      "token (sd_originAddress s)" "token (sd_connectionType s)" "token (sd_connectionNetwork s)"
      "token (sd_connectionAddress s)" "token (sd_mediaType s)" "token (sd_transport s)"
    and sdp_conn: "CHR ''/'' \<notin> set (sd_connectionAddress s)" "sd_ttl s \<noteq> 0"
    and sdp_names: "trim (sd_sessionName s) = sd_sessionName s" "line_ok (sd_sessionName s)"
      "trim (sd_sessionInfo s) = sd_sessionInfo s" "line_ok (sd_sessionInfo s)" "sd_sessionName s \<noteq> []"
    and sdp_src: "sd_sourceAddress s = [] \<or> token (sd_sourceAddress s)"
    and sdp_ptp0: "sd_ptpMasterMAC s = [] \<Longrightarrow> sd_ptpDomain s = 0"
    and sdp_ptp: "sd_ptpMasterMAC s \<noteq> [] \<Longrightarrow> 0 \<le> sd_ptpDomain s \<and> sd_ptpDomain s < 2 ^ 31"
      "\<forall>c \<in> set (sd_ptpMasterMAC s). mac_char c"
    and sdp_clk: "sd_mediaClockType s \<noteq> []" "line_ok (sd_mediaClockType s)"
    and sdp_dir: "sd_direction s \<in> set directions"
    and sdp_custom: "smap_ok (sd_customAttributes s)"
      "\<And>k v. (k, v) \<in> set (sd_customAttributes s) \<Longrightarrow> CHR '':'' \<notin> set k \<and> k \<notin> set reserved \<and>
         CHR 0x0A \<notin> set k \<and> line_ok v \<and> (v = [] \<longrightarrow> line_ok k)"
    and sdp_enc: "sd_encoding s \<in> {''L16'', ''L24'', ''AM824''}"
    and sdp_valid: "sdp_isValid s"
  using assms unfolding sdp_printable_def sdp_isValid_iff by (simp_all split: if_splits) blast+

lemma sdp_encoding_token:
  assumes "sdp_printable s"
  shows "token (sd_encoding s)" "CHR ''/'' \<notin> set (sd_encoding s)"
proof -
  have "token e \<and> CHR ''/'' \<notin> set e" if "e \<in> {''L16'', ''L24'', ''AM824''}" for e
    using that by (auto simp: token_def is_space_def)
  then show "token (sd_encoding s)" "CHR ''/'' \<notin> set (sd_encoding s)" using sdp_enc [OF assms] by blast+
qed

lemma custom_lines: "map (\<lambda>(k, v). if v = [] then ''a='' @ k else ''a='' @ k @ '':'' @ v) kvs = map custom_line kvs"
  by (simp add: custom_line_def)

lemma custom_line_ok:
  assumes "CHR 0x0A \<notin> set k" "line_ok v" "v = [] \<Longrightarrow> line_ok k"
  shows "line_ok (custom_line (k, v))"
  using assms by (cases "v = []"; cases "k = []") (auto simp: custom_line_def line_ok_def)

lemma generate_lines_ok:
  assumes p: "sdp_printable s"
  shows "\<forall>l \<in> set (generate_lines now s). line_ok l"
proof -
  have nl: "CHR 0x0A \<notin> set (show_nat k)" "line_ok (show_nat k)" for k
    using token_line_ok [OF token_show_nat] by simp_all
  note tk = sdp_tok [OF p, THEN token_line_ok] sdp_encoding_token(1) [OF p, THEN token_line_ok]
  have "CHR 0x0A \<notin> set d \<and> line_ok d \<and> d \<noteq> []" if "d \<in> set directions" for d
    using that by (auto simp: directions_def line_ok_def)
  then have dir: "line_ok (sd_direction s)" "sd_direction s \<noteq> []" using sdp_dir [OF p] by blast+
  have "\<not> mac_char CHR 0x0A" by (simp add: mac_char_def is_xdigit_def digit_value_def)
  then have mac: "CHR 0x0A \<notin> set (sd_ptpMasterMAC s)" using sdp_ptp(2) [OF p] by blast
  have attrs: "\<forall>l \<in> set (generateAttributes s). line_ok l"
  proof -
    have 1: "line_ok (''a=rtpmap:'' @ show_nat (unat (sd_payloadType s)) @ '' '' @ sd_encoding s @
        ''/'' @ show_nat (unat (sd_sampleRate s)) @ ''/'' @ show_nat (unat (sd_numChannels s)))"
      by (intro line_ok_append) (use nl tk in simp_all)
    have 2: "line_ok (''a=ptime:'' @ show_nat (unat (sd_ptime s)))"
      "line_ok (''a=framecount:'' @ show_nat (unat (sd_framecount s)))" "line_ok (''a='' @ sd_direction s)"
      by (intro line_ok_append; use nl dir in simp)+
    have 3: "line_ok (''a=source-filter: incl IN IP4 '' @ sd_connectionAddress s @ '' '' @ sd_sourceAddress s)"
      if "sd_sourceAddress s \<noteq> []"
    proof -
      have "token (sd_sourceAddress s)" using sdp_src [OF p] that by simp
      from token_line_ok [OF this] show ?thesis by (intro line_ok_append) (use tk in simp_all)
    qed
    have 4: "line_ok (''a=ts-refclk:ptp=IEEE1588-2008:'' @ sd_ptpMasterMAC s @ '':domain-nmbr='' @ show_int (sd_ptpDomain s))"
      if "sd_ptpMasterMAC s \<noteq> []"
    proof -
      have "show_int (sd_ptpDomain s) = show_nat (nat (sd_ptpDomain s))"
        using sdp_ptp(1) [OF p that] by (simp add: show_int_def)
      then show ?thesis by (intro line_ok_append) (use nl mac in simp_all)
    qed
    have 5: "line_ok (''a=mediaclk:'' @ sd_mediaClockType s)"
      by (intro line_ok_append) (use sdp_clk [OF p] in simp_all)
    have 6: "\<forall>l \<in> set (map custom_line (sd_customAttributes s)). line_ok l"
      using sdp_custom(2) [OF p] custom_line_ok by fastforce
    show ?thesis
      unfolding generateAttributes_def custom_lines using 1 2 3 4 5 6 by (simp only: set_append list.set Un_iff insert_iff empty_iff) auto
  qed
  have orig: "line_ok (generateOriginLine now s)"
    unfolding generateOriginLine_def by (intro line_ok_append) (use tk nl in simp_all)
  have conn: "line_ok (generateConnectionLine s)"
  proof -
    have "line_ok (''/'' @ show_nat (unat (sd_ttl s)))" by (intro line_ok_append) (use nl in simp_all)
    then show ?thesis
      unfolding generateConnectionLine_def by (intro line_ok_append) (use tk sdp_conn [OF p] in simp_all)
  qed
  have media: "line_ok (generateMediaLine s)"
    unfolding generateMediaLine_def by (intro line_ok_append) (use tk nl in simp_all)
  have rest: "line_ok ''v=0''" "line_ok (''s='' @ sd_sessionName s)"
    "sd_sessionInfo s \<noteq> [] \<Longrightarrow> line_ok (''i='' @ sd_sessionInfo s)"
    "line_ok (''t='' @ show_nat (unat (sd_timeStart s)) @ '' '' @ show_nat (unat (sd_timeStop s)))"
    using sdp_names [OF p] nl by (auto intro!: line_ok_append simp: line_ok_def)
  show ?thesis unfolding generate_lines_def using orig conn media attrs rest by auto
qed

text \<open>The parser state after the lines of a session, attribute group by attribute group.\<close>

lemma parse_generated_head:
  assumes p: "sdp_printable s"
  shows "parseLines ([''v=0'', generateOriginLine now s, ''s='' @ sd_sessionName s] @
      (if sd_sessionInfo s \<noteq> [] then [''i='' @ sd_sessionInfo s] else []) @
      [generateConnectionLine s,
       ''t='' @ show_nat (unat (sd_timeStart s)) @ '' '' @ show_nat (unat (sd_timeStop s)),
       generateMediaLine s]) sdp_default =
    Parsed (sdp_default\<lparr>sd_sessionName := sd_sessionName s, sd_sessionInfo := sd_sessionInfo s,
      sd_sessionID := (if sd_sessionID s = 0 then now else sd_sessionID s),
      sd_sessionVersion := sd_sessionVersion s, sd_originUsername := sd_originUsername s,
      sd_originAddress := sd_originAddress s, sd_originAddressType := sd_originAddressType s,
      sd_originNetworkType := sd_originNetworkType s, sd_connectionAddress := sd_connectionAddress s,
      sd_connectionType := sd_connectionType s, sd_connectionNetwork := sd_connectionNetwork s,
      sd_ttl := sd_ttl s, sd_timeStart := sd_timeStart s, sd_timeStop := sd_timeStop s,
      sd_mediaType := sd_mediaType s, sd_port := sd_port s, sd_transport := sd_transport s,
      sd_payloadType := sd_payloadType s\<rparr>)"
proof -
  note t = sdp_tok [OF p] and c = sdp_conn [OF p] and n = sdp_names [OF p]
  have v: "parseLine ''v=0'' x = Parsed x" for x by (simp add: parseLine_def)
  have o: "parseLine (generateOriginLine now s) x = Parsed (x\<lparr>sd_originUsername := sd_originUsername s,
      sd_sessionID := (if sd_sessionID s = 0 then now else sd_sessionID s),
      sd_sessionVersion := sd_sessionVersion s, sd_originNetworkType := sd_originNetworkType s,
      sd_originAddressType := sd_originAddressType s, sd_originAddress := sd_originAddress s\<rparr>)" for x
    unfolding generateOriginLine_def using parse_origin [OF t(1-4)] by blast
  have nm: "parseLine (''s='' @ sd_sessionName s) x = Parsed (x\<lparr>sd_sessionName := sd_sessionName s\<rparr>)" for x
    using n by (simp add: parseLine_def)
  have info: "parseLine (''i='' @ sd_sessionInfo s) x = Parsed (x\<lparr>sd_sessionInfo := sd_sessionInfo s\<rparr>)" for x
    using n by (simp add: parseLine_def)
  have i0: "sd_sessionInfo sdp_default = []" by (simp add: sdp_default_def)
  have cn: "parseLine (generateConnectionLine s) x = Parsed (x\<lparr>sd_connectionType := sd_connectionType s,
      sd_connectionNetwork := sd_connectionNetwork s, sd_connectionAddress := sd_connectionAddress s,
      sd_ttl := sd_ttl s\<rparr>)" for x
    using parse_connection [OF t(5,6,7) c, of x] c(2) by (simp add: generateConnectionLine_def)
  have m: "parseLine (generateMediaLine s) x = Parsed (x\<lparr>sd_mediaType := sd_mediaType s, sd_port := sd_port s,
      sd_transport := sd_transport s, sd_payloadType := sd_payloadType s\<rparr>)" for x
    unfolding generateMediaLine_def using parse_media [OF t(8,9)] by blast
  show ?thesis
  proof (cases "sd_sessionInfo s = []")
    case True
    then show ?thesis
      by (simp only: append.simps parseLines.simps outcome.case v o nm [unfolded append.simps] cn m parse_timing [unfolded append.simps] if_True if_False simp_thms)
        (simp add: sdp_default_def)
  next
    case False
    then show ?thesis
      by (simp only: append.simps parseLines.simps outcome.case v o nm [unfolded append.simps] info [unfolded append.simps] cn m parse_timing [unfolded append.simps] if_True if_False simp_thms)
        (simp add: sdp_default_def)
  qed
qed

lemma parse_generated_attributes:
  assumes p: "sdp_printable s" and x: "sd_customAttributes x = []" "sd_sourceAddress x = []"
    "sd_ptpMasterMAC x = []" "sd_ptpDomain x = 0"
  shows "parseLines (generateAttributes s) x = Parsed (x\<lparr>sd_encoding := sd_encoding s,
      sd_sampleRate := sd_sampleRate s, sd_numChannels := sd_numChannels s, sd_ptime := sd_ptime s,
      sd_framecount := sd_framecount s, sd_sourceAddress := sd_sourceAddress s, sd_ptpDomain := sd_ptpDomain s,
      sd_ptpMasterMAC := sd_ptpMasterMAC s, sd_mediaClockType := sd_mediaClockType s,
      sd_direction := sd_direction s, sd_customAttributes := sd_customAttributes s\<rparr>)"
proof -
  let ?fixed = "[''a=rtpmap:'' @ show_nat (unat (sd_payloadType s)) @ '' '' @ sd_encoding s @
        ''/'' @ show_nat (unat (sd_sampleRate s)) @ ''/'' @ show_nat (unat (sd_numChannels s)),
      ''a=ptime:'' @ show_nat (unat (sd_ptime s)),
      ''a=framecount:'' @ show_nat (unat (sd_framecount s)),
      ''a='' @ sd_direction s]"
  let ?src = "if sd_sourceAddress s \<noteq> []
      then [''a=source-filter: incl IN IP4 '' @ sd_connectionAddress s @ '' '' @ sd_sourceAddress s] else []"
  let ?ptp = "if sd_ptpDomain s \<ge> 0 \<and> sd_ptpMasterMAC s \<noteq> []
      then [''a=ts-refclk:ptp=IEEE1588-2008:'' @ sd_ptpMasterMAC s @ '':domain-nmbr='' @ show_int (sd_ptpDomain s)]
      else []"
  define x1 where "x1 = x\<lparr>sd_encoding := sd_encoding s, sd_sampleRate := sd_sampleRate s,
    sd_numChannels := sd_numChannels s, sd_ptime := sd_ptime s, sd_framecount := sd_framecount s,
    sd_direction := sd_direction s\<rparr>"
  define x2 where "x2 = x1\<lparr>sd_sourceAddress := sd_sourceAddress s\<rparr>"
  define x3 where "x3 = x2\<lparr>sd_ptpMasterMAC := sd_ptpMasterMAC s, sd_ptpDomain := sd_ptpDomain s\<rparr>"
  have 1: "parseLines ?fixed x = Parsed x1"
    by (simp only: parseLines.simps outcome.case parse_rtpmap [OF sdp_encoding_token [OF p]] parse_ptime
        parse_framecount parse_direction [OF sdp_dir [OF p]] x1_def)
  have 2: "parseLines ?src x1 = Parsed x2"
  proof (cases "sd_sourceAddress s = []")
    case True
    then have "x2 = x1" using x by (simp add: x2_def x1_def)
    with True show ?thesis by simp
  next
    case False
    then have "token (sd_sourceAddress s)" using sdp_src [OF p] by simp
    from parse_source_filter [OF sdp_tok(7) [OF p] this, of x1] False show ?thesis by (simp add: x2_def)
  qed
  have 3: "parseLines ?ptp x2 = Parsed x3"
  proof (cases "sd_ptpMasterMAC s = []")
    case True
    then have "x3 = x2" using x sdp_ptp0 [OF p] by (simp add: x3_def x2_def x1_def)
    with True show ?thesis by simp
  next
    case False
    from sdp_ptp(1) [OF p False] have d: "0 \<le> sd_ptpDomain s" "sd_ptpDomain s < 2 ^ 31" by simp_all
    from parse_refclk [OF False sdp_ptp(2) [OF p] d, of x2] False d(1) show ?thesis by (simp add: x3_def)
  qed
  have 4: "parseLines [''a=mediaclk:'' @ sd_mediaClockType s] x3 = Parsed (x3\<lparr>sd_mediaClockType := sd_mediaClockType s\<rparr>)"
    by (simp only: parseLines.simps outcome.case parse_mediaclk)
  let ?x4 = "x3\<lparr>sd_mediaClockType := sd_mediaClockType s\<rparr>"
  have c4: "sd_customAttributes ?x4 = []" using x by (simp add: x3_def x2_def x1_def)
  have "parseLines (map custom_line (sd_customAttributes s)) ?x4 =
      Parsed (?x4\<lparr>sd_customAttributes := sd_customAttributes ?x4 @ sd_customAttributes s\<rparr>)"
    using sdp_custom [OF p] c4 by (intro parse_customs) auto
  then have 5: "parseLines (map custom_line (sd_customAttributes s)) ?x4 =
      Parsed (?x4\<lparr>sd_customAttributes := sd_customAttributes s\<rparr>)"
    unfolding c4 by simp
  have clk: "(if sd_mediaClockType s \<noteq> [] then [''a=mediaclk:'' @ sd_mediaClockType s] else []) =
      [''a=mediaclk:'' @ sd_mediaClockType s]" using sdp_clk(1) [OF p] by simp
  have "parseLines (generateAttributes s) x = Parsed (?x4\<lparr>sd_customAttributes := sd_customAttributes s\<rparr>)"
    unfolding generateAttributes_def custom_lines clk
    unfolding parseLines_append [OF 1] parseLines_append [OF 2] parseLines_append [OF 3] parseLines_append [OF 4] 5 ..
  then show ?thesis by (simp add: x3_def x2_def x1_def)
qed

lemma parse_generate:
  assumes p: "sdp_printable s"
  shows "parseString (generate now s) =
    Parsed (s\<lparr>sd_sessionID := if sd_sessionID s = 0 then now else sd_sessionID s\<rparr>)"
proof -
  let ?s' = "s\<lparr>sd_sessionID := if sd_sessionID s = 0 then now else sd_sessionID s\<rparr>"
  have lines: "splitLines (generate now s) = generate_lines now s"
    unfolding generate_def using generate_lines_ok [OF p] by (intro splitLines_text) (auto simp: line_ok_def)
  have "parseLines (generate_lines now s) sdp_default = Parsed ?s'"
    unfolding generate_lines_def append_assoc [symmetric]
    unfolding parseLines_append [OF parse_generated_head [OF p, unfolded append_assoc [symmetric]]]
    by (subst parse_generated_attributes [OF p]) (simp_all add: sdp_default_def)
  moreover have "sdp_isValid ?s'" using sdp_valid [OF p] unfolding sdp_isValid_iff by simp
  ultimately show ?thesis unfolding parseString_def lines by simp
qed

lemma custom_names: "custom_line kv \<noteq> [] \<and> take 2 (custom_line kv) = ''a=''"
  by (cases kv) (simp add: custom_line_def)

section \<open>Outcomes of a parse\<close>

lemma parseLine_thrown:
  assumes "parseLine l s = Thrown"
  shows "\<exists>v m. l = ''a=ts-refclk:'' @ v \<and> ptp_search v = Some m \<and> stoi (snd m) = None"
proof -
  obtain t e v where l: "l = t # e # v" using assms by (auto simp: parseLine_def split: list.splits)
  have line: "t = CHR ''a'' \<and> e = CHR ''='' \<and> parseAttributeLine v s = Thrown"
    using assms unfolding l parseLine_def list.case
    by (auto simp: parseOriginLine_def parseConnectionLine_def parseTimingLine_def parseMediaLine_def Let_def
        split: if_splits option.splits)
  obtain k w where kw: "split_attribute v = (k, w)" by (cases "split_attribute v")
  have attr: "k = ''ts-refclk'' \<and> parsePTPRefClockAttribute w s = Thrown"
    using line unfolding parseAttributeLine_def kw Let_def prod.case
    by (auto simp: parseRTPMapAttribute_def parsePTimeAttribute_def parseFrameCountAttribute_def Let_def
        parseSourceFilterAttribute_def parseMediaClockAttribute_def split: if_splits option.splits)
  then obtain m where m: "ptp_search w = Some m" "stoi (snd m) = None"
    by (auto simp: parsePTPRefClockAttribute_def split: option.splits prod.splits)
  have "CHR '':'' \<in> set v"
  proof (rule ccontr)
    assume "CHR '':'' \<notin> set v"
    then have "w = []" using kw by (simp add: split_attribute_def)
    with m show False by (simp add: ptp_match_at_def startsWith_def)
  qed
  then have k: "k = takeWhile (\<lambda>c. c \<noteq> CHR '':'') v" "w = tl (dropWhile (\<lambda>c. c \<noteq> CHR '':'') v)"
    "dropWhile (\<lambda>c. c \<noteq> CHR '':'') v \<noteq> []"
    using kw by (auto simp: split_attribute_def)
  have "hd (dropWhile (\<lambda>c. c \<noteq> CHR '':'') v) = CHR '':''" using hd_dropWhile [OF k(3)] by simp
  then have "v = k @ '':'' @ w" using k takeWhile_dropWhile_id [of "\<lambda>c. c \<noteq> CHR '':''" v]
    by (metis append_Cons append_Nil list.collapse)
  with line attr l m have "l = ''a=ts-refclk:'' @ w \<and> ptp_search w = Some m \<and> stoi (snd m) = None" by simp
  then show ?thesis by blast
qed

lemma parseLines_thrown: "parseLines ls s = Thrown \<Longrightarrow> \<exists>l \<in> set ls. \<exists>s'. parseLine l s' = Thrown"
  by (induction ls s rule: parseLines.induct) (auto split: outcome.splits)

definition domain_text :: string where
  "domain_text = ''a=ts-refclk:ptp=IEEE1588-2008:00:domain-nmbr=4294967296'' @ nl"

lemma domain_thrown: "parseString domain_text = Thrown"
proof -
  let ?w = "''ptp=IEEE1588-2008:'' @ ''00'' @ '':domain-nmbr='' @ ''4294967296''"
  have lines: "splitLines domain_text = [''a='' @ ''ts-refclk'' @ '':'' @ ?w]"
    using splitLines_text [of "[''a='' @ ''ts-refclk'' @ '':'' @ ?w]"] by (simp add: domain_text_def)
  have "ptp_match_at ?w = Some (''00'', ''4294967296'')"
    by (rule ptp_match_generated) (simp_all add: mac_char_def is_xdigit_def digit_value_def is_digit_def)
  then have "ptp_search ?w = Some (''00'', ''4294967296'')" by simp
  moreover have "stoi ''4294967296'' = None"
    by (simp add: stoi_def is_space_def is_digit_def digits_nat_def digit_value_def Let_def)
  ultimately have "parsePTPRefClockAttribute ?w s = Thrown" for s
    unfolding parsePTPRefClockAttribute_def by simp
  then have "parseLine (''a='' @ ''ts-refclk'' @ '':'' @ ?w) s = Thrown" for s
    using split_attr [of "''ts-refclk''" ?w] parseLine_a [of "''ts-refclk'' @ '':'' @ ?w" s]
    by (simp add: parseAttributeLine_def)
  then show ?thesis by (simp only: parseString_def lines parseLines.simps outcome.case)
qed

text \<open>
  What a caller of the parser gets: a session only if it is valid, with the violations of an
  invalid one refused; and the only way an exception leaves the parser is a PTP reference clock
  attribute whose domain number does not fit an int, which is not a refusal.
\<close>

theorem sdp_parse_outcomes:
  "(parseString text = Parsed s \<longrightarrow> sdp_isValid s \<and> sd_port s \<noteq> 0 \<and> sd_sampleRate s \<noteq> 0 \<and> sd_numChannels s \<noteq> 0) \<and>
   (parseString text = Thrown \<longrightarrow>
     (\<exists>v m. ''a=ts-refclk:'' @ v \<in> set (splitLines text) \<and> ptp_search v = Some m \<and> stoi (snd m) = None)) \<and>
   parseString domain_text = Thrown"
proof (intro conjI impI)
  assume "parseString text = Parsed s"
  then have "sdp_isValid s" by (simp add: parseString_def split: outcome.splits if_splits)
  then show "sdp_isValid s" "sd_port s \<noteq> 0" "sd_sampleRate s \<noteq> 0" "sd_numChannels s \<noteq> 0"
    by (simp_all add: sdp_isValid_iff)
next
  assume "parseString text = Thrown"
  then have "parseLines (splitLines text) sdp_default = Thrown"
    by (simp add: parseString_def split: outcome.splits if_splits)
  then obtain l s' where "l \<in> set (splitLines text)" "parseLine l s' = Thrown" using parseLines_thrown by blast
  then show "\<exists>v m. ''a=ts-refclk:'' @ v \<in> set (splitLines text) \<and> ptp_search v = Some m \<and> stoi (snd m) = None"
    using parseLine_thrown by metis
next
  show "parseString domain_text = Thrown" by (rule domain_thrown)
qed

lemma sdp_parse_outcomes_witness:
  "\<exists>v m. ''a=ts-refclk:'' @ v \<in> set (splitLines domain_text) \<and> ptp_search v = Some m \<and> stoi (snd m) = None"
  using sdp_parse_outcomes [of domain_text undefined] by simp

section \<open>Round trips\<close>

text \<open>
  C10. Parsing the generated text of a session gives the session back, every field of it, with the
  time of the call as session identifier where the session had none.
\<close>

theorem sdp_roundtrip:
  assumes "sdp_printable s"
  shows "parseString (generate now s) =
    Parsed (s\<lparr>sd_sessionID := if sd_sessionID s = 0 then now else sd_sessionID s\<rparr>)"
  by (rule parse_generate [OF assms])

definition example_session :: sdp_session where
  "example_session = (createDefaultTxSession 7 ''Studio A'' ''10.0.0.1'' ''239.1.1.1'' 5004 2 48000 ''L24'')
     \<lparr>sd_ptpMasterMAC := ''00-1D-C1-FF-FE-12'', sd_customAttributes := [(''clock-domain'', ''PTPv2 0''), (''x'', [])]\<rparr>"

lemma example_printable: "sdp_printable example_session"
  unfolding sdp_printable_def sdp_isValid_iff
  by (simp add: example_session_def createDefaultTxSession_def sdp_default_def token_def is_space_def trim_def line_ok_def
      mac_char_def is_xdigit_def digit_value_def directions_def smap_ok_def reserved_def less_char_def)

lemma example_text_length: "length (generate 9 (example_session\<lparr>sd_port := w\<rparr>)) \<le> 690"
proof -
  have n: "length (show_nat k) \<le> 20" if "k < 10 ^ 20" for k using length_show_nat_le [OF that] by simp
  have "unat w < 2 ^ 16" using unsigned_less [where w = w and 'a = nat] by simp
  then have "length (show_nat (unat w)) \<le> 20" by (intro n) simp
  with n [of 7] n [of 0] n [of 32] n [of 96] n [of 48000] n [of 2] n [of 1] n [of 48] show ?thesis
    by (simp add: generate_def generate_lines_def generateOriginLine_def generateConnectionLine_def
        generateMediaLine_def generateAttributes_def example_session_def createDefaultTxSession_def sdp_default_def nl_def
        show_int_def)
qed

lemma sdp_roundtrip_witness:
  "parseString (generate 9 example_session) = Parsed example_session \<and> sd_sessionID example_session = 7"
  using sdp_roundtrip [OF example_printable, of 9] by (simp add: example_session_def createDefaultTxSession_def)

text \<open>
  A stream description published as an SDP text and imported from it again describes the same
  stream: name, addresses, port, TTL, rate, channels, payload type, timing and PTP clock are those
  of the original. A DoP stream, and one of unknown encoding, comes back as L24.
\<close>

theorem sdp_stream_transfer:
  assumes "sdp_printable (fromStreamInfo now i)" and "now \<noteq> 0"
  obtains s where "parseString (generate later (fromStreamInfo now i)) = Parsed s"
    and "toStreamInfo random fresh s = fresh\<lparr>si_id := generate_stream_id random, si_name := si_name i,
      si_description := si_description i,
      si_source := (si_source fresh)\<lparr>na_ip := na_ip (si_source i), na_port := 0\<rparr>,
      si_multicast := si_multicast i,
      si_encoding := (if si_encoding i = L16 then L16 else L24),
      si_sampleRate := si_sampleRate i, si_numChannels := si_numChannels i,
      si_payloadType := si_payloadType i, si_ptime := si_ptime i, si_framecount := si_framecount i,
      si_ptp := (si_ptp i)\<lparr>pc_enabled := True\<rparr>\<rparr>"
proof -
  let ?s = "fromStreamInfo now i"
  have "parseString (generate later ?s) = Parsed ?s"
    using parse_generate [OF assms(1), of later] assms(2) by (simp add: fromStreamInfo_def)
  moreover have "0 \<le> pc_domain (si_ptp i)"
    using sdp_ptp0 [OF assms(1)] sdp_ptp(1) [OF assms(1)]
    by (cases "pc_masterMAC (si_ptp i) = []") (simp_all add: fromStreamInfo_def)
  then have "toStreamInfo random fresh ?s = fresh\<lparr>si_id := generate_stream_id random, si_name := si_name i,
      si_description := si_description i,
      si_source := (si_source fresh)\<lparr>na_ip := na_ip (si_source i), na_port := 0\<rparr>,
      si_multicast := si_multicast i,
      si_encoding := (if si_encoding i = L16 then L16 else L24),
      si_sampleRate := si_sampleRate i, si_numChannels := si_numChannels i,
      si_payloadType := si_payloadType i, si_ptime := si_ptime i, si_framecount := si_framecount i,
      si_ptp := (si_ptp i)\<lparr>pc_enabled := True\<rparr>\<rparr>"
    by (cases i; cases "si_ptp i"; cases "si_multicast i"; cases "si_encoding i")
      (simp_all add: toStreamInfo_def fromStreamInfo_def)
  ultimately show thesis by (rule that)
qed

definition example_info :: stream_info where
  "example_info = \<lparr>si_id = null_id, si_name = ''Booth'', si_description = ''on air'',
     si_source = \<lparr>na_ip = ''10.0.0.1'', na_port = 5004, na_ttl = 32\<rparr>,
     si_multicast = \<lparr>na_ip = ''239.1.1.1'', na_port = 5004, na_ttl = 15\<rparr>, si_encoding = DoP,
     si_sampleRate = 96000, si_numChannels = 8, si_payloadType = 97, si_ptime = 1000, si_framecount = 96,
     si_jitterBufferDepth = 0, si_ptp = \<lparr>pc_domain = 0, pc_masterMAC = [], pc_enabled = False\<rparr>,
     si_stats = stats_zero, si_isActive = False, si_isConnected = False\<rparr>"

lemma example_info_printable: "sdp_printable (fromStreamInfo 5 example_info)"
  unfolding sdp_printable_def sdp_isValid_iff
  by (simp add: example_info_def fromStreamInfo_def sdp_default_def token_def is_space_def trim_def line_ok_def
      directions_def smap_ok_def)

lemma sdp_stream_transfer_witness:
  "\<exists>s. parseString (generate 9 (fromStreamInfo 5 example_info)) = Parsed s \<and>
     toStreamInfo [] example_info s = example_info\<lparr>si_id := generate_stream_id [],
       si_source := (si_source example_info)\<lparr>na_port := 0\<rparr>, si_encoding := L24,
       si_ptp := (si_ptp example_info)\<lparr>pc_enabled := True\<rparr>\<rparr>"
proof (rule sdp_stream_transfer [OF example_info_printable, of 9 "[]" example_info])
  show "(5 :: u64) \<noteq> 0" by simp
next
  fix s
  assume "parseString (generate 9 (fromStreamInfo 5 example_info)) = Parsed s"
    and "toStreamInfo [] example_info s = example_info\<lparr>si_id := generate_stream_id [],
      si_name := si_name example_info, si_description := si_description example_info,
      si_source := (si_source example_info)\<lparr>na_ip := na_ip (si_source example_info), na_port := 0\<rparr>,
      si_multicast := si_multicast example_info,
      si_encoding := (if si_encoding example_info = L16 then L16 else L24),
      si_sampleRate := si_sampleRate example_info, si_numChannels := si_numChannels example_info,
      si_payloadType := si_payloadType example_info, si_ptime := si_ptime example_info,
      si_framecount := si_framecount example_info,
      si_ptp := (si_ptp example_info)\<lparr>pc_enabled := True\<rparr>\<rparr>"
  then show ?thesis by (intro exI [of _ s]) (simp add: example_info_def)
qed

text \<open>
  The default origin has its two type fields swapped: a session built by
  \<open>fromStreamInfo\<close> is announced with the origin line "o=- ... IP4 IN address", where SDP asks for
  "IN IP4", while \<open>createDefaultTxSession\<close> announces "IN IP4".
\<close>

theorem sdp_origin_order:
  "generateOriginLine t (fromStreamInfo now i) =
     ''o=- '' @ show_nat (unat (if now = 0 then t else now)) @ '' 0 IP4 IN '' @ na_ip (si_source i) \<and>
   generateOriginLine t (createDefaultTxSession now n src mc p ch sr enc) =
     ''o=- '' @ show_nat (unat (if now = 0 then t else now)) @ '' 0 IN IP4 '' @ src"
  by (simp_all add: generateOriginLine_def fromStreamInfo_def createDefaultTxSession_def sdp_default_def
      show_nat.simps digit_char_def)

end
