(* ===== verification/Rtp_Receiver.thy ===== *)
theory Rtp_Receiver
  imports Ring_Buffer Jitter_Buffer Channel_Mapper Audio_Codec Rtp_Packet Sdp_Session
begin

text \<open>
  \<open>NetworkEngine/RTP/RTPReceiver.h/.cpp\<close>: the receive thread puts validated packets into the
  jitter buffer, the consume thread takes them out in sequence order, decodes them and writes
  each stream channel to the ring of its device channel. One call of \<open>processPacket\<close> and one
  round of the paced loop are one step each. How long the loop sleeps
  between rounds is in Rtp_Pacing; logging is left out, clock readings are arguments.
\<close>

type_synonym device_channels = "f32 spsc list"

record receiver =
  rx_sdp :: sdp_session
  rx_mapping :: channel_mapping
  rx_jitter :: jitter_buffer
  rx_socket :: rtp_socket
  rx_packetIntervalUs :: u64
  rx_prefillComplete :: bool
  rx_running :: bool
  rx_expectedSequenceNumber :: u32
  rx_stats :: stats
  rx_lastSequenceNumber :: u16
  rx_lastTimestamp :: u32
  rx_connected :: bool
  rx_lastPacketTimeNs :: int
  rx_firstTimestamp :: u32
  rx_firstTimestampSet :: bool
  rx_audioBufferSize :: nat
  rx_resolvedInterfaceIP :: string

definition kPrefillPacketCount :: u64 where "kPrefillPacketCount = 6"

section \<open>Construction, start and stop\<close>

definition packet_interval_us :: "sdp_session \<Rightarrow> u64" where
  "packet_interval_us sdp =
     (if sd_ptime sdp > 0 then ucast (sd_ptime sdp * 1000)
      else if sd_framecount sdp > 0 \<and> sd_sampleRate sdp > 0
        then (ucast (sd_framecount sdp) * 1000000) div ucast (sd_sampleRate sdp)
      else 1000)"

text \<open>\<open>lookup\<close> is \<open>getInterfaceIPAddress\<close>, which asks the operating system.\<close>

definition resolve_interface :: "(string \<Rightarrow> string) \<Rightarrow> string \<Rightarrow> string" where
  "resolve_interface lookup networkInterface =
     (if networkInterface = [] then []
      else if list_all (\<lambda>c. c = CHR ''.'' \<or> is_digit c) networkInterface then networkInterface
      else lookup networkInterface)"

definition rx_new ::
    "(string \<Rightarrow> string) \<Rightarrow> sdp_session \<Rightarrow> channel_mapping \<Rightarrow> u64 \<Rightarrow> string \<Rightarrow> receiver" where
  "rx_new lookup sdp mapping jitterBufferDepth networkInterface =
     \<lparr>rx_sdp = sdp, rx_mapping = mapping,
      rx_jitter = jb_new (if jitterBufferDepth > 0 then jitterBufferDepth else DEFAULT_BUFFER_SIZE),
      rx_socket = socket_new, rx_packetIntervalUs = packet_interval_us sdp,
      rx_prefillComplete = False, rx_running = False, rx_expectedSequenceNumber = 0,
      rx_stats = stats_zero, rx_lastSequenceNumber = 0, rx_lastTimestamp = 0, rx_connected = False,
      rx_lastPacketTimeNs = 0, rx_firstTimestamp = 0, rx_firstTimestampSet = False,
      rx_audioBufferSize = 512 * unat (sd_numChannels sdp),
      rx_resolvedInterfaceIP = resolve_interface lookup networkInterface\<rparr>"

definition rx_start :: "open_results \<Rightarrow> receiver \<times> kernel \<Rightarrow> bool \<times> receiver \<times> kernel" where
  "rx_start r st =
     (let (rx, k) = st; sdp = rx_sdp rx
      in if rx_running rx \<or> isOpen (rx_socket rx) then (False, rx, k)
         else if sd_connectionAddress sdp = [] \<or> sd_port sdp = 0 then (False, rx, k)
         else if sd_numChannels sdp = 0 \<or> sd_numChannels sdp > 128 then (False, rx, k)
         else
           let iface = (if rx_resolvedInterfaceIP rx = [] then None else Some (rx_resolvedInterfaceIP rx));
               (ok, s', k') = openReceiver r (sd_connectionAddress sdp) (sd_port sdp) iface (rx_socket rx, k)
           in if \<not> ok then (False, rx\<lparr>rx_socket := s'\<rparr>, k')
              else (True, rx\<lparr>rx_socket := s', rx_jitter := jb_reset (rx_jitter rx),
                     rx_expectedSequenceNumber := 0, rx_prefillComplete := False,
                     rx_running := True\<rparr>, k'))"

definition rx_stop :: "receiver \<times> kernel \<Rightarrow> receiver \<times> kernel" where
  "rx_stop st =
     (let (rx, k) = st
      in if \<not> rx_running rx then (rx, k)
         else let (s', k') = socket_close (rx_socket rx, k)
              in (rx\<lparr>rx_running := False, rx_socket := s', rx_connected := False\<rparr>, k'))"

definition rx_resetStatistics :: "receiver \<Rightarrow> receiver" where
  "rx_resetStatistics rx =
     rx\<lparr>rx_stats := (rx_stats rx)\<lparr>st_packetsReceived := 0, st_packetsLost := 0,
          st_malformedPackets := 0, st_outOfOrderPackets := 0, st_underruns := 0, st_overruns := 0,
          st_jitterNs := 0, st_latencyNs := 0, st_bytesReceived := 0, st_bytesSent := 0\<rparr>,
        rx_lastSequenceNumber := 0, rx_lastTimestamp := 0, rx_expectedSequenceNumber := 0,
        rx_firstTimestampSet := False, rx_firstTimestamp := 0,
        rx_jitter := jb_reset (rx_jitter rx)\<rparr>"

definition rx_isConnected :: "int \<Rightarrow> receiver \<Rightarrow> bool" where
  "rx_isConnected nowNs rx =
     (if \<not> rx_connected rx then False
      else if rx_lastPacketTimeNs rx = 0 then False
      else nowNs - rx_lastPacketTimeNs rx < 1000000000)"

text \<open>The elapsed time is not negative on a steady clock, so \<open>div\<close> truncates as C does.\<close>

definition rx_getTimeSinceLastPacket :: "int \<Rightarrow> receiver \<Rightarrow> int" where
  "rx_getTimeSinceLastPacket nowNs rx =
     (if \<not> rx_connected rx then -1
      else if rx_lastPacketTimeNs rx = 0 then -1
      else (nowNs - rx_lastPacketTimeNs rx) div 1000000)"

definition rx_updateMapping ::
    "open_results \<Rightarrow> channel_mapping \<Rightarrow> receiver \<times> kernel \<Rightarrow> bool \<times> receiver \<times> kernel" where
  "rx_updateMapping r newMapping st =
     (let (rx, k) = st
      in if cm_start newMapping + unat (sd_numChannels (rx_sdp rx)) > 128 then (False, rx, k)
         else
           let wasRunning = rx_running rx;
               (rx1, k1) = (if wasRunning then rx_stop (rx, k) else (rx, k));
               rx2 = rx1\<lparr>rx_mapping := newMapping\<rparr>
           in if wasRunning then rx_start r (rx2, k1) else (True, rx2, k1))"

section \<open>The receive thread\<close>

definition rx_validatePacket :: "receiver \<Rightarrow> rtp_packet \<Rightarrow> bool" where
  "rx_validatePacket rx p =
     (if rh_version (rp_header p) \<noteq> 2 then False
      else if ucast (rh_payloadType (rp_header p)) \<noteq> sd_payloadType (rx_sdp rx) then False
      else if length (rp_payload p) = 0 \<or> length (rp_payload p) > 1500 then False
      else True)"

definition rx_updateStats :: "u16 \<Rightarrow> nat \<Rightarrow> receiver \<Rightarrow> receiver" where
  "rx_updateStats sequenceNumber payloadSize rx =
     (let st = rx_stats rx;
          st1 = (if st_packetsReceived st > 0
                 then let expected = rx_lastSequenceNumber rx + 1
                      in if sequenceNumber \<noteq> expected
                         then let gap = sint (sequenceNumber - expected)
                              in if gap > 0
                                 then st\<lparr>st_packetsLost := st_packetsLost st + of_int gap\<rparr>
                                 else st\<lparr>st_outOfOrderPackets := st_outOfOrderPackets st + 1\<rparr>
                         else st
                 else st)
      in rx\<lparr>rx_lastSequenceNumber := sequenceNumber,
            rx_stats := st1\<lparr>st_packetsReceived := st_packetsReceived st1 + 1,
              st_bytesReceived := st_bytesReceived st1 + of_nat payloadSize\<rparr>\<rparr>)"

definition rx_presentationTime :: "u32 \<Rightarrow> receiver \<Rightarrow> u64 \<times> receiver" where
  "rx_presentationTime timestamp rx =
     (if sd_sampleRate (rx_sdp rx) > 0
      then if rx_firstTimestampSet rx
           then let delta = timestamp - rx_firstTimestamp rx
                in ((ucast delta * 1000000000) div ucast (sd_sampleRate (rx_sdp rx)), rx)
           else (0, rx\<lparr>rx_firstTimestamp := timestamp, rx_firstTimestampSet := True\<rparr>)
      else (0, rx))"

definition count_malformed :: "receiver \<Rightarrow> receiver" where
  "count_malformed rx =
     rx\<lparr>rx_stats := (rx_stats rx)\<lparr>st_malformedPackets := st_malformedPackets (rx_stats rx) + 1\<rparr>\<rparr>"

definition rx_processPacket :: "int \<Rightarrow> u64 \<Rightarrow> rtp_packet \<Rightarrow> receiver \<Rightarrow> receiver" where
  "rx_processPacket nowNs arrivalTime p rx =
     (if \<not> rx_validatePacket rx p then count_malformed rx
      else if rp_payload p = [] then count_malformed rx
      else
        let sequenceNumber = rh_sequenceNumber (rp_header p);
            rx1 = (if \<not> rx_connected rx
                   then rx\<lparr>rx_connected := True, rx_expectedSequenceNumber := ucast sequenceNumber\<rparr>
                   else rx);
            rx2 = rx_updateStats sequenceNumber (length (rp_payload p))
                    (rx1\<lparr>rx_lastPacketTimeNs := nowNs\<rparr>);
            (presentationTime, rx3) = rx_presentationTime (rh_timestamp (rp_header p)) rx2;
            (added, jb) = addPacket arrivalTime (rp_payload p) (ucast sequenceNumber)
                            presentationTime (rx_jitter rx3);
            rx4 = rx3\<lparr>rx_jitter := jb\<rparr>
        in if \<not> added
           then rx4\<lparr>rx_stats := (rx_stats rx4)\<lparr>st_overruns := st_overruns (rx_stats rx4) + 1\<rparr>\<rparr>
           else rx4)"

section \<open>The consume thread\<close>

text \<open>
  The de-interleaving loop over the stream channels: each channel is extracted and written to
  its device ring as one block; the flag tells whether some ring was short of room.
\<close>

fun map_channels ::
    "nat list \<Rightarrow> nat \<Rightarrow> nat \<Rightarrow> f32 list \<Rightarrow> nat \<Rightarrow> device_channels \<Rightarrow> bool \<Rightarrow> device_channels \<times> bool" where
  "map_channels [] start nch audio frameCount devs short = (devs, short)"
| "map_channels (c # cs) start nch audio frameCount devs short =
     (let channelBuffer = map (\<lambda>frame. audio ! (frame * nch + c)) [0..<frameCount];
          (written, ring) = spsc_write channelBuffer (devs ! (start + c))
      in map_channels cs start nch audio frameCount (devs[start + c := ring])
           (short \<or> written < frameCount))"

definition mapChannelsToDevice ::
    "f32 list \<Rightarrow> nat \<Rightarrow> receiver \<times> device_channels \<Rightarrow> receiver \<times> device_channels" where
  "mapChannelsToDevice interleavedAudio frameCount st =
     (let (rx, devs) = st; nch = unat (sd_numChannels (rx_sdp rx)); start = cm_start (rx_mapping rx)
      in if start + nch > 128 then (rx, devs)
         else if frameCount > 4096 then (rx, devs)
         else let (devs', short) = map_channels [0..<nch] start nch interleavedAudio frameCount devs False
              in (if short
                  then rx\<lparr>rx_stats := (rx_stats rx)\<lparr>st_underruns := st_underruns (rx_stats rx) + 1\<rparr>\<rparr>
                  else rx, devs'))"

definition rx_l24_sample :: "u8 \<Rightarrow> u8 \<Rightarrow> u8 \<Rightarrow> f32" where
  "rx_l24_sample b0 b1 b2 =
     (let rawSample = push_bit 24 (ucast b0) OR push_bit 16 (ucast b1) OR push_bit 8 (ucast b2) :: u32;
          pcmSample = signed_drop_bit 8 rawSample
      in f32_div (f32_of_int (sint pcmSample)) (Fin 8388608))"

text \<open>
  \<open>decodeL16\<close> and \<open>decodeL24\<close> differ in the bytes per sample and the conversion. Here
  \<open>numChannels\<close> is not 0: \<open>start\<close> checked it.
\<close>

definition rx_decode ::
    "nat \<Rightarrow> (u8 list \<Rightarrow> nat \<Rightarrow> f32) \<Rightarrow> u8 list \<Rightarrow> receiver \<times> device_channels \<Rightarrow> receiver \<times> device_channels" where
  "rx_decode bytesPerSample sample payload st =
     (let (rx, devs) = st;
          nch = unat (sd_numChannels (rx_sdp rx));
          frameCount = length payload div (bytesPerSample * nch);
          totalSamples = frameCount * nch
      in if frameCount = 0 \<or> frameCount > 512 then (rx, devs)
         else if totalSamples > rx_audioBufferSize rx then (count_malformed rx, devs)
         else mapChannelsToDevice (map (\<lambda>i. sample payload (i * bytesPerSample)) [0..<totalSamples])
                frameCount (rx, devs))"

definition decodeL16 :: "u8 list \<Rightarrow> receiver \<times> device_channels \<Rightarrow> receiver \<times> device_channels" where
  "decodeL16 = rx_decode 2 (\<lambda>payload offset. l16_sample (payload ! offset) (payload ! (offset + 1)))"

definition decodeL24 :: "u8 list \<Rightarrow> receiver \<times> device_channels \<Rightarrow> receiver \<times> device_channels" where
  "decodeL24 = rx_decode 3 (\<lambda>payload offset. rx_l24_sample (payload ! offset)
     (payload ! (offset + 1)) (payload ! (offset + 2)))"

definition rx_play :: "u8 list \<Rightarrow> receiver \<times> device_channels \<Rightarrow> receiver \<times> device_channels" where
  "rx_play payload st =
     (if sd_encoding (rx_sdp (fst st)) = ''L16'' then decodeL16 payload st
      else if sd_encoding (rx_sdp (fst st)) = ''L24'' then decodeL24 payload st
      else st)"

text \<open>The pre-fill wait and one round of the paced loop.\<close>

definition rx_prefill :: "receiver \<Rightarrow> receiver" where
  "rx_prefill rx =
     (if getBufferedPacketCount (rx_jitter rx) \<ge> kPrefillPacketCount
      then rx\<lparr>rx_prefillComplete := True\<rparr> else rx)"

definition rx_consume :: "receiver \<times> device_channels \<Rightarrow> receiver \<times> device_channels" where
  "rx_consume st =
     (let (rx, devs) = st;
          expectedSeq = rx_expectedSequenceNumber rx;
          (got, jb) = getNextPacket 1500 expectedSeq (rx_jitter rx);
          rx1 = rx\<lparr>rx_jitter := jb\<rparr>
      in case got of
           Some (payload, _) \<Rightarrow>
             rx_play payload (rx1\<lparr>rx_expectedSequenceNumber := (expectedSeq + 1) AND 0xFFFF\<rparr>, devs)
         | None \<Rightarrow>
             (if getBufferedPacketCount jb > 0
              then (rx1\<lparr>rx_expectedSequenceNumber := (expectedSeq + 1) AND 0xFFFF,
                      rx_stats := (rx_stats rx1)\<lparr>st_packetsLost := st_packetsLost (rx_stats rx1) + 1\<rparr>\<rparr>, devs)
              else (rx1\<lparr>rx_stats := (rx_stats rx1)\<lparr>st_underruns := st_underruns (rx_stats rx1) + 1\<rparr>\<rparr>, devs)))"

section \<open>Writing the channels\<close>

definition devs_wf :: "device_channels \<Rightarrow> bool" where
  "devs_wf devs \<longleftrightarrow> length devs = 128 \<and> (\<forall>d < 128. spsc_wf (devs ! d))"

definition ring_room :: "'a spsc \<Rightarrow> nat" where
  "ring_room s = spsc_capacity s - length (spsc_contents s)"

definition channel_samples :: "f32 list \<Rightarrow> nat \<Rightarrow> nat \<Rightarrow> nat \<Rightarrow> f32 list" where
  "channel_samples audio nch frames c = map (\<lambda>f. audio ! (f * nch + c)) [0..<frames]"

lemma length_channel_samples [simp]: "length (channel_samples audio nch frames c) = frames"
  by (simp add: channel_samples_def)

text \<open>What one device ring gets: as much of its channel as it has room for.\<close>

definition ring_gets :: "nat list \<Rightarrow> nat \<Rightarrow> nat \<Rightarrow> f32 list \<Rightarrow> nat \<Rightarrow> nat \<Rightarrow> f32 spsc \<Rightarrow> f32 list" where
  "ring_gets cs start nch audio frames d s =
     (if start \<le> d \<and> d - start \<in> set cs
      then take (ring_room s) (channel_samples audio nch frames (d - start)) else [])"

lemma map_channels_effect:
  assumes "devs_wf devs" "distinct cs" "\<forall>c \<in> set cs. start + c < 128"
    and "map_channels cs start nch audio frames devs short = (devs', short')"
  shows "devs_wf devs' \<and>
    (\<forall>d < 128. spsc_contents (devs' ! d) =
       spsc_contents (devs ! d) @ ring_gets cs start nch audio frames d (devs ! d) \<and>
       spsc_capacity (devs' ! d) = spsc_capacity (devs ! d)) \<and>
    (short' \<longleftrightarrow> short \<or> (\<exists>c \<in> set cs. ring_room (devs ! (start + c)) < frames))"
  using assms
proof (induction cs arbitrary: devs short)
  case Nil
  then show ?case by (simp add: ring_gets_def)
next
  case (Cons c cs)
  let ?d = "start + c"
  have d: "?d < 128" "length devs = 128" "spsc_wf (devs ! ?d)"
    using Cons.prems(1,3) by (simp_all add: devs_wf_def)
  obtain w ring where w: "spsc_write (channel_samples audio nch frames c) (devs ! ?d) = (w, ring)"
    by fastforce
  note ws = spsc_write_step [OF d(3) w]
  define devs1 where "devs1 = devs[?d := ring]"
  have wf1: "devs_wf devs1"
    using Cons.prems(1) ws d(1) by (auto simp: devs_wf_def devs1_def nth_list_update)
  have rest: "map_channels cs start nch audio frames devs1 (short \<or> w < frames) = (devs', short')"
    using Cons.prems(4) w by (simp add: devs1_def channel_samples_def Let_def)
  have c: "c \<notin> set cs" "distinct cs" using Cons.prems(2) by simp_all
  note IH = Cons.IH [OF wf1 c(2) _ rest]
  have d1: "devs1 ! e = (if e = ?d then ring else devs ! e)" if "e < 128" for e
    using that d by (simp add: devs1_def)
  have wl: "w = min frames (ring_room (devs ! ?d))" using ws by (simp add: ring_room_def)
  have "spsc_contents (devs' ! e) = spsc_contents (devs ! e) @
      ring_gets (c # cs) start nch audio frames e (devs ! e) \<and>
      spsc_capacity (devs' ! e) = spsc_capacity (devs ! e)" if e: "e < 128" for e
  proof (cases "e = ?d")
    case True
    have "ring_gets cs start nch audio frames e (devs1 ! e) = []" using c(1) True by (simp add: ring_gets_def)
    moreover have "take w (channel_samples audio nch frames c) =
        take (ring_room (devs ! ?d)) (channel_samples audio nch frames c)"
      unfolding wl by (simp add: min_def)
    ultimately show ?thesis using IH Cons.prems(3) ws True e d1 [OF e] by (simp add: ring_gets_def)
  next
    case False
    then have "ring_gets cs start nch audio frames e (devs1 ! e) =
        ring_gets (c # cs) start nch audio frames e (devs ! e)"
      using d1 [OF e] by (auto simp: ring_gets_def)
    then show ?thesis using IH Cons.prems(3) e d1 [OF e] False by simp
  qed
  moreover have "devs1 ! (start + c') = devs ! (start + c')" if "c' \<in> set cs" for c'
  proof -
    have "c' \<noteq> c" using that c(1) by metis
    then show ?thesis by (simp add: devs1_def)
  qed
  then have "short' \<longleftrightarrow> short \<or> (\<exists>c' \<in> set (c # cs). ring_room (devs ! (start + c')) < frames)"
    using IH Cons.prems(3) wl by (auto simp: min_less_iff_disj)
  ultimately show ?case using IH Cons.prems(3) by simp
qed

section \<open>Decoding\<close>

lemma rx_l24_sample_eq: "rx_l24_sample b0 b1 b2 = l24_sample b0 b1 b2"
proof -
  let ?raw = "push_bit 16 (ucast b0) OR push_bit 8 (ucast b1) OR ucast b2 :: u32"
  let ?hi = "push_bit 24 (ucast b0) OR push_bit 16 (ucast b1) OR push_bit 8 (ucast b2) :: u32"
  have raw: "bit ?raw k \<longleftrightarrow> (if k < 8 then bit b2 k else if k < 16 then bit b1 (k - 8)
      else if k < 24 then bit b0 (k - 16) else False)" for k
  proof -
    consider "k < 8" | "8 \<le> k" "k < 16" | "16 \<le> k" "k < 24" | "24 \<le> k" by linarith
    then show ?thesis
      by cases (auto simp: bit_or_iff bit_push_bit_iff bit_ucast_iff dest: bit_imp_le_length)
  qed
  have hi: "bit ?hi k \<longleftrightarrow> 8 \<le> k \<and> bit ?raw (k - 8)" if "k < 32" for k
    using that by (auto simp: bit_or_iff bit_push_bit_iff bit_ucast_iff dest!: le_Suc_ex)
  have p23: "(0x800000 :: u32) = push_bit 23 1" by simp
  have s: "?raw AND 0x800000 \<noteq> 0 \<longleftrightarrow> bit ?raw 23"
    unfolding p23 by (auto simp: bit_iff_and_push_bit_not_eq_0)
  have m: "(0xFF000000 :: u32) = push_bit 24 (mask 8)" by (simp add: mask_eq_exp_minus_1)
  have "signed_drop_bit 8 ?hi = (if ?raw AND 0x800000 \<noteq> 0 then ?raw OR 0xFF000000 else ?raw)"
  proof (rule bit_word_eqI)
    fix k assume k: "k < LENGTH(32)"
    have l: "bit (signed_drop_bit 8 ?hi) k \<longleftrightarrow> bit ?raw (if k < 24 then k else 23)"
      using k hi by (auto simp: bit_signed_drop_bit_iff)
    have r: "bit (if ?raw AND 0x800000 \<noteq> 0 then ?raw OR 0xFF000000 else ?raw) k \<longleftrightarrow>
        (if k < 24 then bit ?raw k else bit ?raw 23)"
    proof (cases "k < 24")
      case True
      then show ?thesis unfolding m by (simp add: bit_or_iff bit_push_bit_iff)
    next
      case False
      then have "k - 24 < 8" "\<not> bit ?raw k" using k by (simp_all add: raw)
      with False k s show ?thesis unfolding m by (simp add: bit_or_iff bit_push_bit_iff bit_mask_iff)
    qed
    show "bit (signed_drop_bit 8 ?hi) k =
        bit (if ?raw AND 0x800000 \<noteq> 0 then ?raw OR 0xFF000000 else ?raw) k"
      unfolding l r by simp
  qed
  then show ?thesis by (simp only: rx_l24_sample_def l24_sample_def Let_def)
qed

lemma l16_nth:
  "length ws = n \<Longrightarrow> i < n \<Longrightarrow> concat (map l16_bytes ws) ! (i * 2) = ucast (signed_drop_bit 8 (ws ! i)) \<and>
     concat (map l16_bytes ws) ! Suc (i * 2) = ucast (ws ! i)"
proof (induction ws arbitrary: n i)
  case Nil
  then show ?case by simp
next
  case (Cons w ws)
  then show ?case by (cases i) (simp_all add: l16_bytes_def)
qed

lemma l24_nth:
  "i < length is \<Longrightarrow> concat (map (\<lambda>i. l24_bytes (f i)) is) ! (i * 3) = ucast (signed_drop_bit 16 (f (is ! i))) \<and>
     concat (map (\<lambda>i. l24_bytes (f i)) is) ! Suc (i * 3) = ucast (signed_drop_bit 8 (f (is ! i))) \<and>
     concat (map (\<lambda>i. l24_bytes (f i)) is) ! Suc (Suc (i * 3)) = ucast (f (is ! i))"
proof (induction "is" arbitrary: i)
  case Nil
  then show ?case by simp
next
  case (Cons w ws)
  then show ?case by (cases i) (simp_all add: l24_bytes_def)
qed

lemma length_l16: "length (concat (map l16_bytes ws)) = 2 * length ws"
  by (induction ws) (simp_all add: l16_bytes_def)

lemma length_l24: "length (concat (map (\<lambda>i. l24_bytes (f i)) is)) = 3 * length is"
  by (induction "is") (simp_all add: l24_bytes_def)

text \<open>The receiver's configuration, which decoding never changes.\<close>

definition rx_config :: "receiver \<Rightarrow> sdp_session \<times> channel_mapping \<times> nat" where
  "rx_config rx = (rx_sdp rx, rx_mapping rx, rx_audioBufferSize rx)"

definition rx_ready :: "receiver \<Rightarrow> bool" where
  "rx_ready rx \<longleftrightarrow> 0 < unat (sd_numChannels (rx_sdp rx)) \<and>
     cm_start (rx_mapping rx) + unat (sd_numChannels (rx_sdp rx)) \<le> 128 \<and>
     rx_audioBufferSize rx = 512 * unat (sd_numChannels (rx_sdp rx))"

lemma rx_decode_effect:
  assumes "rx_ready rx" "devs_wf devs" "0 < bps"
    and "length payload = bps * (frames * unat (sd_numChannels (rx_sdp rx)))" "0 < frames" "frames \<le> 512"
  shows "\<exists>devs'. snd (rx_decode bps sample payload (rx, devs)) = devs' \<and> devs_wf devs' \<and>
    (\<forall>d < 128. spsc_capacity (devs' ! d) = spsc_capacity (devs ! d) \<and>
      spsc_contents (devs' ! d) = spsc_contents (devs ! d) @
       ring_gets [0..<unat (sd_numChannels (rx_sdp rx))] (cm_start (rx_mapping rx))
         (unat (sd_numChannels (rx_sdp rx)))
         (map (\<lambda>i. sample payload (i * bps)) [0..<frames * unat (sd_numChannels (rx_sdp rx))]) frames d (devs ! d))"
proof -
  let ?n = "unat (sd_numChannels (rx_sdp rx))" let ?start = "cm_start (rx_mapping rx)"
  let ?audio = "map (\<lambda>i. sample payload (i * bps)) [0..<frames * ?n]"
  have n: "0 < ?n" "?start + ?n \<le> 128" "rx_audioBufferSize rx = 512 * ?n"
    using assms(1) by (simp_all add: rx_ready_def)
  have f: "length payload div (bps * ?n) = frames"
    using assms(3,4) n(1) by (simp add: mult.left_commute [of bps frames] mult.assoc [symmetric])
  have le: "frames * ?n \<le> 512 * ?n" using assms(6) by simp
  obtain devs' short where m: "map_channels [0..<?n] ?start ?n ?audio frames devs False = (devs', short)"
    by fastforce
  have "snd (rx_decode bps sample payload (rx, devs)) = devs'"
    using f assms(5,6) n le m by (simp add: rx_decode_def mapChannelsToDevice_def Let_def)
  with map_channels_effect [OF assms(2) _ _ m] n(2) show ?thesis by auto
qed

definition rx_channels :: "receiver \<Rightarrow> nat" where
  "rx_channels rx = unat (sd_numChannels (rx_sdp rx))"

definition devices_got :: "receiver \<Rightarrow> f32 list \<Rightarrow> nat \<Rightarrow> device_channels \<Rightarrow> device_channels \<Rightarrow> bool" where
  "devices_got rx audio frames devs devs' \<longleftrightarrow>
     (\<forall>d < 128. spsc_capacity (devs' ! d) = spsc_capacity (devs ! d) \<and>
        spsc_contents (devs' ! d) = spsc_contents (devs ! d) @
        ring_gets [0..<rx_channels rx] (cm_start (rx_mapping rx)) (rx_channels rx) audio frames d (devs ! d))"

lemma decodeL16_effect:
  assumes "rx_ready rx" "devs_wf devs" "length ws = frames * rx_channels rx" "0 < frames" "frames \<le> 512"
  shows "devs_wf (snd (decodeL16 (concat (map l16_bytes ws)) (rx, devs))) \<and>
    devices_got rx (map (\<lambda>w. Fin (of_int (sint w) / 2 ^ 15)) ws) frames devs
      (snd (decodeL16 (concat (map l16_bytes ws)) (rx, devs)))"
proof -
  let ?p = "concat (map l16_bytes ws)"
  have audio: "map (\<lambda>i. l16_sample (?p ! (i * 2)) (?p ! (i * 2 + 1))) [0..<frames * rx_channels rx] =
      map (\<lambda>w. Fin (of_int (sint w) / 2 ^ 15)) ws"
    by (rule nth_equalityI) (simp_all add: assms(3) l16_nth [OF assms(3)] l16_sample_bytes)
  have len: "length ?p = 2 * (frames * unat (sd_numChannels (rx_sdp rx)))"
    using assms(3) by (simp only: length_l16 rx_channels_def)
  show ?thesis
    using rx_decode_effect [OF assms(1,2) _ len assms(4,5),
        of "\<lambda>payload offset. l16_sample (payload ! offset) (payload ! (offset + 1))"] audio
    by (simp only: decodeL16_def devices_got_def rx_channels_def) simp
qed

lemma decodeL24_effect:
  assumes "rx_ready rx" "devs_wf devs" "length is = frames * rx_channels rx" "0 < frames" "frames \<le> 512"
    and "\<forall>i \<in> set is. - (2 ^ 23) \<le> i \<and> i < 2 ^ 23"
  shows "devs_wf (snd (decodeL24 (concat (map (\<lambda>i. l24_bytes (of_int i)) is)) (rx, devs))) \<and>
    devices_got rx (map (\<lambda>i. Fin (of_int i / 2 ^ 23)) is) frames devs
      (snd (decodeL24 (concat (map (\<lambda>i. l24_bytes (of_int i)) is)) (rx, devs)))"
proof -
  let ?p = "concat (map (\<lambda>i. l24_bytes (of_int i)) is)"
  have "l24_sample (?p ! (k * 3)) (?p ! (k * 3 + 1)) (?p ! (k * 3 + 2)) = Fin (of_int (is ! k) / 2 ^ 23)"
    if "k < length is" for k
    using l24_nth [OF that, of of_int] l24_sample_bytes [of "is ! k"] assms(6) that by simp
  then have audio: "map (\<lambda>i. rx_l24_sample (?p ! (i * 3)) (?p ! (i * 3 + 1)) (?p ! (i * 3 + 2)))
      [0..<frames * rx_channels rx] = map (\<lambda>i. Fin (of_int i / 2 ^ 23)) is"
    by (intro nth_equalityI) (simp_all add: assms(3) rx_l24_sample_eq)
  have len: "length ?p = 3 * (frames * unat (sd_numChannels (rx_sdp rx)))"
    using assms(3) by (simp only: length_l24 rx_channels_def)
  show ?thesis
    using rx_decode_effect [OF assms(1,2) _ len assms(4,5), of "\<lambda>payload offset. rx_l24_sample
        (payload ! offset) (payload ! (offset + 1)) (payload ! (offset + 2))"] audio
    by (simp only: decodeL24_def devices_got_def rx_channels_def) simp
qed

end
