(* ===== verification/Rtp_Playout.thy ===== *)
theory Rtp_Playout
  imports Rtp_Receiver
begin

text \<open>
  What a receiver plays. Arrivals and rounds of the consumer are run as sequences of the steps
  of Rtp_Receiver: in which order the payloads reach the device rings, what is lost, what the
  counters say, and what resetting the statistics does to a running stream.
\<close>

section \<open>From arrival order to playing order\<close>

definition pk_seq :: "rtp_packet \<Rightarrow> u16" where "pk_seq p = rh_sequenceNumber (rp_header p)"

text \<open>The payloads a jitter buffer holds, by 16-bit sequence number, and nothing else.\<close>

definition jb_holds :: "jitter_buffer \<Rightarrow> (u16 \<Rightarrow> u8 list option) \<Rightarrow> bool" where
  "jb_holds jb held \<longleftrightarrow> jb_wf jb \<and> (\<forall>s. map_option fst (jb_stored jb (ucast s)) = held s) \<and>
     (\<forall>k. jb_stored jb k \<noteq> None \<longrightarrow> (\<exists>s \<in> dom held. k = ucast s))"

lemma jb_size_dvd16: "jb_wf jb \<Longrightarrow> jb_bufferSize jb dvd 2 ^ LENGTH(16)"
  using le_imp_power_dvd [of _ "LENGTH(16)" "2 :: nat"] unfolding jb_wf_def by (elim conjE exE) simp

lemma unat_ucast16: "unat (ucast (s :: u16) :: u32) = unat s"
  by (transfer; simp add: take_bit_eq_mod)

lemma ucast16_eq: "(ucast (s :: u16) :: u32) = ucast s' \<longleftrightarrow> s = s'"
  by (metis unat_ucast16 word_unat_eq_iff)

lemma holds_free:
  assumes "jb_holds jb held" "dom held \<subseteq> seq_window base n" "n \<le> jb_bufferSize jb"
    and "s \<in> seq_window base n" "held s = None"
  shows "sl_state (jb_buffer jb ! getIndex jb (ucast s)) = EMPTY"
proof (rule jb_stored_empty)
  show wf: "jb_wf jb" using assms(1) by (simp add: jb_holds_def)
  fix k assume "jb_stored jb k \<noteq> None"
  then obtain s' where s': "s' \<in> dom held" "k = ucast s'" using assms(1) unfolding jb_holds_def by blast
  show "unat k mod jb_bufferSize jb \<noteq> unat (ucast s :: u32) mod jb_bufferSize jb"
  proof
    assume "unat k mod jb_bufferSize jb = unat (ucast s :: u32) mod jb_bufferSize jb"
    then have "s' = s"
      using seq_window_inj [of s' base n s, OF _ assms(4,3) jb_size_dvd16 [OF wf]] s' assms(2)
      by (simp only: unat_ucast16) blast
    with s'(1) assms(5) show False by auto
  qed
qed

lemma holds_upd:
  assumes "jb_holds jb held" "jb_wf jb'" "jb_stored jb' = (jb_stored jb)(ucast s := v)"
  shows "jb_holds jb' (held(s := map_option fst v))"
  unfolding jb_holds_def assms(3)
proof (intro conjI allI impI)
  show "jb_wf jb'" by (rule assms(2))
  show "map_option fst (((jb_stored jb)(ucast s := v)) (ucast s')) = (held(s := map_option fst v)) s'" for s'
    using assms(1) by (simp add: jb_holds_def ucast16_eq)
  show "\<exists>s' \<in> dom (held(s := map_option fst v)). k = ucast s'"
    if k: "((jb_stored jb)(ucast s := v)) k \<noteq> None" for k
  proof (cases "k = ucast s")
    case True
    with k have "s \<in> dom (held(s := map_option fst v))" by auto
    with True show ?thesis by blast
  next
    case False
    with k have "jb_stored jb k \<noteq> None" by simp
    then obtain s' where "s' \<in> dom held" "k = ucast s'" using assms(1) unfolding jb_holds_def by blast
    with False show ?thesis by (intro bexI [of _ s']) auto
  qed
qed

text \<open>What no step of the receiver changes while it runs.\<close>

lemma rx_processPacket_stores:
  assumes "jb_holds (rx_jitter rx) held" "rx_connected rx" "rx_validatePacket rx p"
    and "sl_state (jb_buffer (rx_jitter rx) ! getIndex (rx_jitter rx) (ucast (pk_seq p))) = EMPTY"
    and "rx' = rx_processPacket nowNs arrival p rx"
  shows "jb_holds (rx_jitter rx') (held(pk_seq p \<mapsto> rp_payload p)) \<and>
    jb_bufferSize (rx_jitter rx') = jb_bufferSize (rx_jitter rx) \<and> rx_connected rx' \<and>
    rx_expectedSequenceNumber rx' = rx_expectedSequenceNumber rx \<and> rx_config rx' = rx_config rx"
proof -
  let ?jb = "rx_jitter rx"
  have wf: "jb_wf ?jb" using assms(1) by (simp add: jb_holds_def)
  have p: "rp_payload p \<noteq> []" "length (rp_payload p) \<le> 1500"
    using assms(3) by (auto simp: rx_validatePacket_def split: if_splits)
  define rx2 where "rx2 = rx_updateStats (pk_seq p) (length (rp_payload p)) (rx\<lparr>rx_lastPacketTimeNs := nowNs\<rparr>)"
  obtain t rx3 where t: "rx_presentationTime (rh_timestamp (rp_header p)) rx2 = (t, rx3)" by fastforce
  have u: "rx_jitter rx2 = ?jb \<and> rx_connected rx2 \<and>
      rx_expectedSequenceNumber rx2 = rx_expectedSequenceNumber rx \<and> rx_config rx2 = rx_config rx"
    using assms(2) by (simp add: rx2_def rx_updateStats_def Let_def rx_config_def)
  have u3: "rx_jitter rx3 = ?jb \<and> rx_connected rx3 \<and>
      rx_expectedSequenceNumber rx3 = rx_expectedSequenceNumber rx \<and> rx_config rx3 = rx_config rx"
    using u t by (auto simp: rx_presentationTime_def Let_def rx_config_def split: if_splits)
  obtain jb' where a: "addPacket arrival (rp_payload p) (ucast (pk_seq p)) t ?jb = (True, jb')" "jb_wf jb'"
    "jb_bufferSize jb' = jb_bufferSize ?jb"
    "jb_stored jb' = (jb_stored ?jb)(ucast (pk_seq p) \<mapsto> (take 1500 (rp_payload p), t))"
    by (rule addPacket_stored [OF wf assms(4)])
  have "rx' = rx3\<lparr>rx_jitter := jb'\<rparr>"
    using assms(2,3) p t a(1) u3 unfolding assms(5) rx2_def
    by (simp add: rx_processPacket_def Let_def pk_seq_def)
  with u3 a holds_upd [OF assms(1) a(2,4)] p(2) show ?thesis by (simp add: rx_config_def)
qed

lemma rx_validate_config: "rx_config rx = rx_config rx' \<Longrightarrow> rx_validatePacket rx p = rx_validatePacket rx' p"
  by (simp add: rx_validatePacket_def rx_config_def)

fun rx_process_all :: "(int \<times> u64 \<times> rtp_packet) list \<Rightarrow> receiver \<Rightarrow> receiver" where
  "rx_process_all [] rx = rx"
| "rx_process_all ((nowNs, arrival, p) # ps) rx = rx_process_all ps (rx_processPacket nowNs arrival p rx)"

definition arrived :: "(int \<times> u64 \<times> rtp_packet) list \<Rightarrow> u16 \<Rightarrow> u8 list option" where
  "arrived ps = map_of (map (\<lambda>(nowNs, arrival, p). (pk_seq p, rp_payload p)) ps)"

lemma arrived_dom: "dom (arrived ps) = (\<lambda>(nowNs, arrival, p). pk_seq p) ` set ps"
  by (force simp: arrived_def dom_map_of_conv_image_fst)

lemma rx_process_all_stores:
  assumes "jb_holds (rx_jitter rx) held" "rx_connected rx" "\<forall>(_, _, p) \<in> set ps. rx_validatePacket rx p"
    and "distinct (map (\<lambda>(nowNs, arrival, p). pk_seq p) ps)" "n \<le> jb_bufferSize (rx_jitter rx)"
    and "dom held \<subseteq> seq_window base n" "dom (arrived ps) \<subseteq> seq_window base n - dom held"
    and "rx' = rx_process_all ps rx"
  shows "jb_holds (rx_jitter rx') (held ++ arrived ps) \<and>
    jb_bufferSize (rx_jitter rx') = jb_bufferSize (rx_jitter rx) \<and>
    rx_expectedSequenceNumber rx' = rx_expectedSequenceNumber rx \<and> rx_config rx' = rx_config rx"
  using assms
proof (induction ps rx arbitrary: held rule: rx_process_all.induct)
  case (1 rx)
  then show ?case by (simp add: arrived_def)
next
  case (2 nowNs arrival p ps rx)
  let ?rx1 = "rx_processPacket nowNs arrival p rx"
  have ar: "arrived ((nowNs, arrival, p) # ps) = (arrived ps)(pk_seq p \<mapsto> rp_payload p)"
    by (simp add: arrived_def)
  have s: "pk_seq p \<in> seq_window base n" "held (pk_seq p) = None" using "2.prems"(7) by (auto simp: ar)
  have nd: "pk_seq p \<notin> dom (arrived ps)" using "2.prems"(4) by (auto simp: arrived_dom)
  have v: "rx_validatePacket rx p" using "2.prems"(3) by simp
  note step = rx_processPacket_stores [OF "2.prems"(1,2) v
      holds_free [OF "2.prems"(1,6,5) s] refl, of nowNs arrival]
  have c: "rx_config ?rx1 = rx_config rx" using step by simp
  have d: "dom (held(pk_seq p \<mapsto> rp_payload p)) \<subseteq> seq_window base n" using s(1) "2.prems"(6) by auto
  have e: "dom (arrived ps) \<subseteq> seq_window base n - dom (held(pk_seq p \<mapsto> rp_payload p))"
    using "2.prems"(7) nd unfolding ar dom_fun_upd by auto
  have v': "\<forall>(_, _, p) \<in> set ps. rx_validatePacket ?rx1 p"
    using "2.prems"(3) rx_validate_config [OF c] by auto
  have "held(pk_seq p \<mapsto> rp_payload p) ++ arrived ps = held ++ arrived ((nowNs, arrival, p) # ps)"
    unfolding ar using nd by (auto simp: map_add_def fun_eq_iff split: option.splits)
  then show ?case
    using "2.IH" [of "held(pk_seq p \<mapsto> rp_payload p)"] step v' d e "2.prems"(4,5,8)
    by (simp del: fun_upd_apply)
qed

text \<open>Playing a payload changes only the counters of the receiver.\<close>

definition rx_core :: "receiver \<Rightarrow> receiver" where
  "rx_core rx = rx\<lparr>rx_stats := stats_zero\<rparr>"

lemma rx_core_fields:
  assumes "rx_core rx' = rx_core rx"
  shows "rx_jitter rx' = rx_jitter rx" "rx_expectedSequenceNumber rx' = rx_expectedSequenceNumber rx"
    "rx_config rx' = rx_config rx"
  using assms by (cases rx; cases rx'; simp add: rx_core_def rx_config_def)+

lemma map_channels_core: "rx_core (fst (mapChannelsToDevice audio frames (rx, devs))) = rx_core rx"
  by (simp add: mapChannelsToDevice_def rx_core_def Let_def split: prod.split)

lemma rx_decode_core: "rx_core (fst (rx_decode bps sample payload (rx, devs))) = rx_core rx"
  by (simp add: rx_decode_def map_channels_core Let_def) (simp add: rx_core_def count_malformed_def)

lemma rx_play_core: "rx_core (fst (rx_play payload (rx, devs))) = rx_core rx"
  by (simp add: rx_play_def decodeL16_def decodeL24_def rx_decode_core)

lemmas rx_play_keeps = rx_core_fields [OF rx_play_core]

lemma rx_play_devs:
  assumes "rx_config rx = rx_config rx'"
  shows "snd (rx_play payload (rx, devs)) = snd (rx_play payload (rx', devs))"
  using assms
  by (simp add: rx_play_def decodeL16_def decodeL24_def rx_decode_def mapChannelsToDevice_def
      rx_config_def Let_def split: prod.splits)

lemma next_seq: "(ucast (s :: u16) + 1) AND 0xFFFF = (ucast (s + 1) :: u32)"
proof -
  have m: "(0xFFFF :: u32) = mask 16" by (simp add: mask_eq_exp_minus_1)
  have "unat (s + 1) = (unat s + 1) mod 2 ^ 16" by (simp add: unat_word_ariths)
  moreover have "unat (ucast s + 1 :: u32) = unat s + 1"
    using unsigned_less [of s, where ?'a = nat] by (simp add: unat_word_ariths unat_ucast16)
  ultimately show ?thesis unfolding m word_unat_eq_iff unat_and_mask unat_ucast16 by simp
qed

lemma holds_buffered:
  assumes "jb_holds jb held" "held s \<noteq> None"
  shows "0 < getBufferedPacketCount jb"
proof -
  have wf: "jb_wf jb" using assms(1) by (simp add: jb_holds_def)
  have "map_option fst (jb_stored jb (ucast s)) \<noteq> None" using assms unfolding jb_holds_def by metis
  then have "jb_stored jb (ucast s) \<noteq> None" by auto
  then have "sl_state (jb_buffer jb ! getIndex jb (ucast s)) = READY"
    by (auto simp: jb_stored_def Let_def split: if_splits)
  then have "jb_buffer jb ! getIndex jb (ucast s) \<in> set (filter (\<lambda>sl. sl_state sl = READY) (jb_buffer jb))"
    using getIndex_less(2) [OF wf] by simp
  then have "0 < ready_count jb" unfolding ready_count_def by (metis length_pos_if_in_set)
  moreover have "ready_count jb < 2 ^ 64" using ready_count_le [OF wf] jb_size_le [OF wf] by simp
  ultimately show ?thesis
    using wf by (simp add: getBufferedPacketCount_def jb_wf_def word_less_nat_alt unat_of_nat)
qed

lemma rx_consume_hit:
  assumes "jb_holds (rx_jitter rx) held" "held s = Some payload" "rx_expectedSequenceNumber rx = ucast s"
    and "st' = rx_consume (rx, devs)"
  shows "jb_holds (rx_jitter (fst st')) (held(s := None)) \<and>
    jb_bufferSize (rx_jitter (fst st')) = jb_bufferSize (rx_jitter rx) \<and>
    rx_expectedSequenceNumber (fst st') = ucast (s + 1) \<and> rx_config (fst st') = rx_config rx \<and>
    snd st' = snd (rx_play payload (rx, devs))"
proof -
  let ?jb = "rx_jitter rx"
  have wf: "jb_wf ?jb" using assms(1) by (simp add: jb_holds_def)
  obtain t where t: "jb_stored ?jb (ucast s) = Some (payload, t)"
  proof -
    have "map_option fst (jb_stored ?jb (ucast s)) = Some payload" using assms(1,2) by (simp add: jb_holds_def)
    then show thesis using that by (cases "jb_stored ?jb (ucast s)") auto
  qed
  note f = fetch_stored [OF wf t]
  let ?jb' = "jb_release (getIndex ?jb (ucast s)) ?jb\<lparr>jb_expectedSequenceNumber := ucast s + 1\<rparr>"
  let ?rx1 = "rx\<lparr>rx_jitter := ?jb', rx_expectedSequenceNumber := ucast (s + 1)\<rparr>"
  have st': "st' = rx_play payload (?rx1, devs)"
  proof -
    have g: "getNextPacket 1500 (ucast s) ?jb = (Some (payload, t), ?jb')" using f(2) [of 1500] f(5) by simp
    show ?thesis unfolding assms(4) rx_consume_def Let_def prod.case assms(3) g option.case next_seq
      by (rule refl)
  qed
  have "jb_wf ?jb'" by (rule jb_release_wf(2) [OF wf f(3)])
  moreover have "jb_stored ?jb' = (jb_stored ?jb)(ucast s := None)"
    using jb_release_stored [OF wf f(3)] f(4) by simp
  ultimately have "jb_holds ?jb' (held(s := map_option fst (None :: (u8 list \<times> u64) option)))"
    by (rule holds_upd [OF assms(1)])
  moreover have "rx_config ?rx1 = rx_config rx" by (simp add: rx_config_def)
  moreover have "jb_bufferSize ?jb' = jb_bufferSize ?jb" by (simp add: jb_release_def jb_set_slot_def)
  ultimately show ?thesis
    unfolding st' rx_play_keeps using rx_play_devs [of ?rx1 rx] by simp
qed

lemma rx_consume_miss:
  fixes s s' :: u16
  assumes "jb_holds (rx_jitter rx) held" "held s' \<noteq> None" "rx_expectedSequenceNumber rx = ucast s"
    and "sl_state (jb_buffer (rx_jitter rx) ! getIndex (rx_jitter rx) (ucast s)) = EMPTY"
    and "st' = rx_consume (rx, devs)"
  shows "rx_jitter (fst st') = rx_jitter rx \<and> rx_expectedSequenceNumber (fst st') = ucast (s + 1) \<and>
    rx_config (fst st') = rx_config rx \<and> snd st' = devs"
  using holds_buffered [OF assms(1,2)] assms(3,4)
  by (simp add: assms(5) rx_consume_def fetch_cases(2) next_seq rx_config_def)

fun rx_consume_n :: "nat \<Rightarrow> receiver \<times> device_channels \<Rightarrow> receiver \<times> device_channels" where
  "rx_consume_n 0 st = st"
| "rx_consume_n (Suc n) st = rx_consume_n n (rx_consume st)"

fun playout :: "receiver \<Rightarrow> u8 list list \<Rightarrow> device_channels \<Rightarrow> device_channels" where
  "playout rx [] devs = devs"
| "playout rx (payload # ps) devs = playout rx ps (snd (rx_play payload (rx, devs)))"

lemma playout_config: "rx_config rx = rx_config rx' \<Longrightarrow> playout rx ps devs = playout rx' ps devs"
proof (induction ps arbitrary: devs)
  case Nil
  then show ?case by simp
next
  case (Cons p ps)
  from Cons.IH [OF Cons.prems] show ?case by (simp add: rx_play_devs [OF Cons.prems, of p devs])
qed

definition in_order :: "(u16 \<Rightarrow> u8 list option) \<Rightarrow> u16 \<Rightarrow> nat \<Rightarrow> u8 list list" where
  "in_order held base n =
     concat (map (\<lambda>i. case held (base + of_nat i) of None \<Rightarrow> [] | Some p \<Rightarrow> [p]) [0..<n])"

lemma in_order_Suc:
  "in_order held base (Suc n) = (case held base of None \<Rightarrow> [] | Some p \<Rightarrow> [p]) @ in_order held (base + 1) n"
proof -
  have "[0..<Suc n] = 0 # map Suc [0..<n]" unfolding map_Suc_upt by (rule upt_conv_Cons) simp
  then show ?thesis
    by (simp add: in_order_def comp_def add.assoc del: upt_Suc)
qed

lemma in_order_cong:
  "(\<And>i. i < n \<Longrightarrow> f (base + of_nat i) = g (base + of_nat i)) \<Longrightarrow> in_order f base n = in_order g base n"
  unfolding in_order_def by (rule arg_cong [where f = concat]) (rule map_cong, simp_all)

lemma window_next:
  fixes base :: u16
  assumes "Suc n \<le> m" "m dvd 2 ^ LENGTH(16)" "i < n"
  shows "base + 1 + of_nat i \<noteq> base"
proof
  assume eq: "base + 1 + of_nat i = base"
  have "base + of_nat (Suc i) = base" using eq by (simp add: add.assoc)
  then have "(unat base + Suc i) mod m = (unat base + 0) mod m"
    using unat_plus_of_nat_mod [OF assms(2), of base "Suc i"] by simp
  then show False using mod_window_inj [of "unat base" "Suc i" m 0] assms(1,3) by simp
qed

lemma rx_consume_n_effect:
  assumes "jb_holds (rx_jitter rx) held" "dom held \<subseteq> seq_window base n" "n \<le> jb_bufferSize (rx_jitter rx)"
    and "rx_expectedSequenceNumber rx = ucast base" "0 < n \<Longrightarrow> held (base + of_nat (n - 1)) \<noteq> None"
    and "st' = rx_consume_n n (rx, devs)"
  shows "snd st' = playout rx (in_order held base n) devs \<and>
    rx_expectedSequenceNumber (fst st') = ucast (base + of_nat n) \<and>
    jb_holds (rx_jitter (fst st')) Map.empty"
  using assms
proof (induction n arbitrary: rx held base devs)
  case 0
  then have "held = Map.empty" by (simp add: seq_window_def)
  with 0 show ?case by (simp add: in_order_def)
next
  case (Suc n)
  let ?st1 = "rx_consume (rx, devs)" let ?rx1 = "fst ?st1" let ?held = "held(base := None)"
  have wf: "jb_wf (rx_jitter rx)" using Suc.prems(1) by (simp add: jb_holds_def)
  note nx = window_next [OF Suc.prems(3) jb_size_dvd16 [OF wf], of _ base]
  have last: "held (base + of_nat n) \<noteq> None" using Suc.prems(5) by simp
  have one: "jb_holds (rx_jitter ?rx1) ?held \<and>
      jb_bufferSize (rx_jitter ?rx1) = jb_bufferSize (rx_jitter rx) \<and>
      rx_expectedSequenceNumber ?rx1 = ucast (base + 1) \<and> rx_config ?rx1 = rx_config rx \<and>
      snd ?st1 = playout rx (case held base of None \<Rightarrow> [] | Some p \<Rightarrow> [p]) devs"
  proof (cases "held base")
    case None
    have "base \<in> seq_window base (Suc n)" by (simp add: seq_window_Suc)
    from rx_consume_miss [OF Suc.prems(1) last Suc.prems(4)
        holds_free [OF Suc.prems(1,2,3) this None] refl, of devs] None Suc.prems(1)
    show ?thesis by (simp add: fun_upd_idem)
  next
    case (Some p)
    with rx_consume_hit [OF Suc.prems(1) Some Suc.prems(4) refl, of devs] show ?thesis by simp
  qed
  have dom: "dom ?held \<subseteq> seq_window (base + 1) n"
    using Suc.prems(2) by (auto simp: seq_window_Suc)
  have last': "?held (base + 1 + of_nat (n - 1)) \<noteq> None" if "0 < n"
  proof -
    have "base + 1 + of_nat (n - 1) = base + of_nat n" using that by (cases n) (simp_all add: add.assoc)
    with last nx [of "n - 1"] that show ?thesis by simp
  qed
  have cong: "in_order ?held (base + 1) n = in_order held (base + 1) n"
    by (rule in_order_cong) (use nx in simp)
  have st': "st' = rx_consume_n n (?rx1, snd ?st1)" using Suc.prems(6) by simp
  have le: "n \<le> jb_bufferSize (rx_jitter ?rx1)" using one Suc.prems(3) by simp
  note IH = Suc.IH [OF conjunct1 [OF one] dom le _ last' st']
  have "playout rx (in_order held base (Suc n)) devs =
      playout rx (in_order held (base + 1) n) (snd ?st1)"
    unfolding in_order_Suc using one by (cases "held base") simp_all
  also have "\<dots> = playout ?rx1 (in_order held (base + 1) n) (snd ?st1)"
    by (rule playout_config) (simp add: one)
  finally show ?case using IH one unfolding cong by (simp add: add.assoc del: fun_upd_apply)
qed

lemma rx_in_order:
  assumes "jb_wf (rx_jitter rx)" "\<And>k. jb_stored (rx_jitter rx) k = None" "rx_connected rx"
    and "rx_expectedSequenceNumber rx = ucast base"
    and "\<forall>(_, _, p) \<in> set ps. rx_validatePacket rx p"
    and "distinct (map (\<lambda>(_, _, p). pk_seq p) ps)"
    and "dom (arrived ps) \<subseteq> seq_window base n" "0 < n" "n \<le> jb_bufferSize (rx_jitter rx)"
    and "base + of_nat (n - 1) \<in> dom (arrived ps)"
  shows "snd (rx_consume_n n (rx_process_all ps rx, devs)) =
      playout rx (in_order (arrived ps) base n) devs \<and>
    rx_expectedSequenceNumber (fst (rx_consume_n n (rx_process_all ps rx, devs))) =
      ucast (base + of_nat n) \<and>
    (\<forall>k. jb_stored (rx_jitter (fst (rx_consume_n n (rx_process_all ps rx, devs)))) k = None)"
proof -
  have h: "jb_holds (rx_jitter rx) Map.empty" using assms(1,2) by (simp add: jb_holds_def)
  note a = rx_process_all_stores [OF h assms(3,5,6,9) _ _ refl, of base]
  have a: "jb_holds (rx_jitter (rx_process_all ps rx)) (arrived ps)"
    "jb_bufferSize (rx_jitter (rx_process_all ps rx)) = jb_bufferSize (rx_jitter rx)"
    "rx_expectedSequenceNumber (rx_process_all ps rx) = ucast base"
    "rx_config (rx_process_all ps rx) = rx_config rx"
    using a assms(4,7) by simp_all
  have le: "n \<le> jb_bufferSize (rx_jitter (rx_process_all ps rx))" using a(2) assms(9) by simp
  have last: "arrived ps (base + of_nat (n - 1)) \<noteq> None" using assms(10) by auto
  have "(\<forall>k. jb_stored jb k = None)" if "jb_holds jb Map.empty" for jb
    using that unfolding jb_holds_def by (metis domIff dom_empty empty_iff)
  then show ?thesis
    using rx_consume_n_effect [OF a(1) assms(7) le a(3) last refl, of devs] playout_config [OF a(4)]
    by simp
qed

text \<open>
  C3. Playing in order. Packets of one window of 16-bit sequence numbers (with wrap-around),
  no longer than the jitter buffer, arrive in any order, some of them never, on a connected
  receiver that expects the first number. After as many rounds of the consumer as the window
  is long, the payloads that arrived have been played exactly once each, in the order of their
  numbers, lost ones are skipped, the buffer is empty and the next number is expected. The
  last number of the window has arrived: on an empty buffer the consumer waits.
\<close>

theorem rx_plays_in_order:
  assumes "jb_wf (rx_jitter rx)" "\<And>k. jb_stored (rx_jitter rx) k = None" "rx_connected rx"
    and "rx_expectedSequenceNumber rx = ucast base"
    and "\<forall>(_, _, p) \<in> set ps. rx_validatePacket rx p"
    and "distinct (map (\<lambda>(_, _, p). pk_seq p) ps)"
    and "dom (arrived ps) \<subseteq> seq_window base n" "0 < n" "n \<le> jb_bufferSize (rx_jitter rx)"
    and "base + of_nat (n - 1) \<in> dom (arrived ps)"
  shows "snd (rx_consume_n n (rx_process_all ps rx, devs)) =
      playout rx (in_order (arrived ps) base n) devs \<and>
    rx_expectedSequenceNumber (fst (rx_consume_n n (rx_process_all ps rx, devs))) =
      ucast (base + of_nat n) \<and>
    (\<forall>k. jb_stored (rx_jitter (fst (rx_consume_n n (rx_process_all ps rx, devs)))) k = None)"
  using assms by (rule rx_in_order)

section \<open>Statistics reset while the stream runs\<close>

lemma jb_reset_stored: "jb_wf jb \<Longrightarrow> jb_stored (jb_reset jb) k = None"
  using getIndex_less(2) [of jb k]
  by (simp add: jb_stored_def jb_reset_def Let_def getIndex_def)

lemma holds_empty_count:
  assumes "jb_holds jb Map.empty"
  shows "getBufferedPacketCount jb = 0"
proof -
  have wf: "jb_wf jb" using assms by (simp add: jb_holds_def)
  have none: "jb_stored jb k = None" for k
    using assms unfolding jb_holds_def by (metis domIff dom_empty empty_iff)
  have "sl_state sl \<noteq> READY" if sl: "sl \<in> set (jb_buffer jb)" for sl
  proof
    assume r: "sl_state sl = READY"
    obtain i where i: "i < length (jb_buffer jb)" "jb_buffer jb ! i = sl"
      using sl unfolding in_set_conv_nth by blast
    then have "unat (sl_sequenceNumber sl) mod jb_bufferSize jb = i"
      using wf r by (auto simp: jb_wf_def slot_ok_def)
    then have "jb_stored jb (sl_sequenceNumber sl) \<noteq> None"
      using i r by (simp add: jb_stored_def Let_def getIndex_mod [OF wf])
    with none show False by simp
  qed
  then have "filter (\<lambda>sl. sl_state sl = READY) (jb_buffer jb) = []" by (simp add: filter_empty_conv)
  then show ?thesis using wf by (simp add: getBufferedPacketCount_def jb_wf_def ready_count_def)
qed

text \<open>A number that is not stored: whatever occupies its slot is dropped.\<close>

definition evict :: "nat \<Rightarrow> u16 \<Rightarrow> (u16 \<Rightarrow> u8 list option) \<Rightarrow> u16 \<Rightarrow> u8 list option" where
  "evict m e held s = (if unat s mod m = unat e mod m then None else held s)"

lemma evict_holds:
  assumes "jb_holds jb held" "held e = None"
  shows "\<exists>jb'. getNextPacket 1500 (ucast e) jb = (None, jb') \<and>
    jb_holds jb' (evict (jb_bufferSize jb) e held) \<and> jb_bufferSize jb' = jb_bufferSize jb"
proof -
  let ?sl = "jb_buffer jb ! getIndex jb (ucast e)" let ?m = "jb_bufferSize jb"
  have wf: "jb_wf jb" using assms(1) by (simp add: jb_holds_def)
  have st: "jb_stored jb (ucast e) = None"
  proof -
    have "map_option fst (jb_stored jb (ucast e)) = None" using assms by (simp add: jb_holds_def)
    then show ?thesis by simp
  qed
  have slot: "jb_stored jb (ucast s) \<noteq> None \<Longrightarrow> unat s mod ?m = unat e mod ?m \<Longrightarrow>
      sl_state ?sl = READY \<and> sl_sequenceNumber ?sl = ucast s" for s :: u16
    by (simp add: jb_stored_def Let_def getIndex_mod [OF wf] unat_ucast16 split: if_splits)
  have h: "map_option fst (jb_stored jb (ucast s)) = held s" for s using assms(1) by (simp add: jb_holds_def)
  show ?thesis
  proof (cases "sl_state ?sl = READY")
    case False
    have "evict ?m e held s = held s" for s
      using slot [of s] False h [of s] by (cases "held s") (auto simp: evict_def)
    then have "evict ?m e held = held" ..
    with False assms(1) show ?thesis by (simp add: fetch_cases(2))
  next
    case True
    have res: "unat (sl_sequenceNumber ?sl) mod ?m = unat e mod ?m"
      using slot_ok_at [OF wf, of "ucast e"] True by (simp add: slot_ok_def getIndex_mod [OF wf] unat_ucast16)
    then have idx: "getIndex jb (sl_sequenceNumber ?sl) = getIndex jb (ucast e)"
      by (simp add: getIndex_mod [OF wf] unat_ucast16)
    then have "jb_stored jb (sl_sequenceNumber ?sl) \<noteq> None" using True by (simp add: jb_stored_def Let_def)
    then obtain s :: u16 where s: "sl_sequenceNumber ?sl = ucast s" using assms(1) unfolding jb_holds_def by blast
    have ev: "evict ?m e held = held(s := map_option fst (None :: (u8 list \<times> u64) option))"
    proof
      fix s'
      show "evict ?m e held s' = (held(s := map_option fst (None :: (u8 list \<times> u64) option))) s'"
      proof (cases "s' = s")
        case True
        with res s show ?thesis by (simp add: evict_def unat_ucast16)
      next
        case False
        then have "unat s' mod ?m = unat e mod ?m \<Longrightarrow> held s' = None"
          using slot [of s'] s h [of s'] by (cases "held s'") (auto simp: ucast16_eq)
        with False show ?thesis by (simp add: evict_def)
      qed
    qed
    show ?thesis
      using fetch_cases(4) [OF True st, of 1500] jb_release_wf(1) [OF wf True]
        holds_upd [OF assms(1) jb_release_wf(1) [OF wf True], of s None]
        jb_release_stored [OF wf True] unfolding ev s by (simp add: jb_release_def jb_set_slot_def)
  qed
qed

lemma rx_consume_evicts:
  fixes e :: u16
  assumes "jb_holds (rx_jitter rx) held" "held e = None" "rx_expectedSequenceNumber rx = ucast e"
    and "st' = rx_consume (rx, devs)" "held' = evict (jb_bufferSize (rx_jitter rx)) e held"
  shows "jb_holds (rx_jitter (fst st')) held' \<and>
    jb_bufferSize (rx_jitter (fst st')) = jb_bufferSize (rx_jitter rx) \<and>
    rx_connected (fst st') = rx_connected rx \<and> rx_config (fst st') = rx_config rx \<and> snd st' = devs \<and>
    rx_expectedSequenceNumber (fst st') = (if held' = Map.empty then ucast e else ucast (e + 1))"
proof -
  obtain jb' where jb': "getNextPacket 1500 (ucast e) (rx_jitter rx) = (None, jb')"
    "jb_holds jb' held'" "jb_bufferSize jb' = jb_bufferSize (rx_jitter rx)"
    using evict_holds [OF assms(1,2)] assms(5) by blast
  have "getBufferedPacketCount jb' > 0 \<longleftrightarrow> held' \<noteq> Map.empty"
  proof
    assume "held' \<noteq> Map.empty"
    then obtain s where "held' s \<noteq> None" by fastforce
    then show "getBufferedPacketCount jb' > 0" by (rule holds_buffered [OF jb'(2)])
  qed (use holds_empty_count jb'(2) in auto)
  with jb'(1,3) assms(3) show ?thesis
    using jb'(2) by (cases "held' = Map.empty") (simp_all add: assms(4) rx_consume_def next_seq rx_config_def)
qed

text \<open>
  The receive thread and the consumer of a running receiver, in any order: an arrival is one run of
  \<open>processPacket\<close> with its clock readings, a round is one turn of the consumer's loop.
\<close>

datatype rx_event = Arrival int u64 rtp_packet | Round

fun rx_interleave :: "rx_event list \<Rightarrow> receiver \<times> device_channels \<Rightarrow> receiver \<times> device_channels" where
  "rx_interleave [] st = st"
| "rx_interleave (Arrival nowNs arrival p # evs) (rx, devs) = rx_interleave evs (rx_processPacket nowNs arrival p rx, devs)"
| "rx_interleave (Round # evs) st = rx_interleave evs (rx_consume st)"

fun arrivals :: "rx_event list \<Rightarrow> rtp_packet list" where
  "arrivals [] = []"
| "arrivals (Arrival nowNs arrival p # evs) = p # arrivals evs"
| "arrivals (Round # evs) = arrivals evs"

text \<open>
  The consumer is never \<open>m\<close> arrivals behind: \<open>q\<close> counts the arrivals no round has answered yet; a round
  without a waiting arrival does not count in advance.
\<close>

fun keeps_up :: "nat \<Rightarrow> nat \<Rightarrow> rx_event list \<Rightarrow> bool" where
  "keeps_up m q [] \<longleftrightarrow> True"
| "keeps_up m q (Arrival nowNs arrival p # evs) \<longleftrightarrow> q + 1 < m \<and> keeps_up m (q + 1) evs"
| "keeps_up m q (Round # evs) \<longleftrightarrow> keeps_up m (q - 1) evs"

text \<open>
  The next arrival is \<open>D\<close> numbers ahead of the expected one, which is at least the buffer's size, and so
  is every packet held. Beyond the distance \<open>C\<close>, which leaves the remainder 1, the slot of the last arrival
  is taken; so the consumer, which is \<open>q\<close> arrivals behind, brings the distance back to \<open>C\<close>.
\<close>

definition lagging :: "nat \<Rightarrow> nat \<Rightarrow> nat \<Rightarrow> nat \<Rightarrow> u16 \<Rightarrow> (u16 \<Rightarrow> u8 list option) \<Rightarrow> bool" where
  "lagging m C q D e held \<longleftrightarrow> m \<le> D \<and> D \<le> C + q \<and> q < m \<and>
     dom held \<subseteq> (\<lambda>j. e + of_nat j) ` {m..<D} \<and>
     (D \<le> C \<or> (\<exists>s \<in> dom held. unat s mod m = (unat e + (D - 1)) mod m))"

lemma jb_size_gt1: "jb_wf jb \<Longrightarrow> 1 < jb_bufferSize jb"
  using one_less_power [of "2 :: nat"] unfolding jb_wf_def by (elim conjE exE) force

lemma residue_offset:
  fixes e :: u16
  assumes "m dvd 2 ^ 16"
  shows "unat (e + of_nat j) mod m = unat e mod m \<longleftrightarrow> j mod m = 0"
proof -
  have "m dvd 2 ^ LENGTH(16)" using assms by simp
  then have "unat (e + of_nat j) mod m = (unat e + j) mod m" by (rule unat_plus_of_nat_mod)
  moreover have "(a + n) mod m = a mod m \<longleftrightarrow> n mod m = 0" for a n :: nat
    by (metis mod_eq_dvd_iff_nat le_add1 add_diff_cancel_left' mod_eq_0_iff_dvd)
  ultimately show ?thesis by simp
qed

text \<open>When the last arrival's slot is the one the consumer is at, the distance is back at \<open>C\<close>.\<close>

lemma remainder_one:
  fixes m C D q :: nat
  assumes "D \<le> C + q" "q < m" "C mod m = 1" "(D - 1) mod m = 0" "0 < D"
  shows "D \<le> C"
proof (rule ccontr)
  assume "\<not> D \<le> C"
  then have "C \<le> D - 1" "0 < C" using assms(3) by (auto intro: gr0I)
  moreover have "(C - 1) mod m = (D - 1) mod m"
    using assms(3,4) dvd_minus_mod [of m C] by (simp add: mod_0_imp_dvd)
  ultimately have "m dvd (D - 1) - (C - 1)" by (metis mod_eq_dvd_iff_nat diff_le_self le_trans)
  moreover have "(D - 1) - (C - 1) = D - C" "0 < D - C" using \<open>\<not> D \<le> C\<close> \<open>0 < C\<close> by simp_all
  ultimately have "m \<le> D - C" by (metis dvd_imp_le)
  with assms(1,2) show False by simp
qed

lemma lagging_arrival:
  assumes "lagging m C q D e held" "q + 1 < m" "m dvd 2 ^ 16" "cur = e + of_nat D"
    and "held' = (if \<exists>s \<in> dom held. unat s mod m = unat cur mod m then held else held(cur \<mapsto> p))"
  shows "lagging m C (q + 1) (D + 1) e held'"
proof -
  have d: "m dvd 2 ^ LENGTH(16)" using assms(3) by simp
  have "unat cur mod m = (unat e + D) mod m" unfolding assms(4) by (rule unat_plus_of_nat_mod [OF d])
  then have last: "\<exists>s \<in> dom held'. unat s mod m = (unat e + D) mod m" using assms(5) by auto
  have "{m..<D + 1} = insert D {m..<D}" using assms(1) by (auto simp: lagging_def)
  then have "insert cur (dom held) \<subseteq> (\<lambda>j. e + of_nat j) ` {m..<D + 1}" using assms(1,4) by (auto simp: lagging_def)
  moreover have "dom held' \<subseteq> insert cur (dom held)" by (auto simp: assms(5))
  ultimately have "dom held' \<subseteq> (\<lambda>j. e + of_nat j) ` {m..<D + 1}" by (rule subset_trans [rotated])
  with assms(1,2) last show ?thesis by (simp add: lagging_def)
qed

lemma lagging_unexpected:
  assumes "lagging m C q D e held" "0 < m" "C + m \<le> 2 ^ 16 + 1"
  shows "held e = None"
proof (rule ccontr)
  assume "held e \<noteq> None"
  then have "e \<in> dom held" by (simp add: domIff)
  then obtain j where j: "e = e + of_nat j" "m \<le> j" "j < D" using assms(1) by (force simp: lagging_def)
  have "j < 2 ^ 16" using j assms by (simp add: lagging_def)
  then have "unat (of_nat j :: u16) = j" by (simp add: unat_of_nat)
  moreover have "(of_nat j :: u16) = 0" using j(1) by simp
  ultimately show False using j(2) assms(2) by simp
qed

lemma lagging_round:
  assumes "lagging m C q D e held" "1 < m" "m dvd 2 ^ 16" "C mod m = 1" "held' = evict m e held"
  shows "\<exists>D'. lagging m C (q - 1) D' (if held' = Map.empty then e else e + 1) held' \<and>
    (if held' = Map.empty then e else e + 1) + of_nat D' = e + (of_nat D :: u16)"
proof -
  have D: "m \<le> D" "D \<le> C + q" "q < m" using assms(1) by (simp_all add: lagging_def)
  have at: "D \<le> C" if "s \<in> dom held" "s \<notin> dom held'" "unat s mod m = (unat e + (D - 1)) mod m" for s
  proof -
    have "unat s mod m = unat e mod m" using that(1,2) by (auto simp: assms(5) evict_def split: if_splits)
    then have "(D - 1) mod m = 0"
      using that(3) residue_offset [OF assms(3), of e "D - 1"] unat_plus_of_nat_mod [of m e "D - 1"] assms(3) by simp
    then show "D \<le> C" using remainder_one [OF D(2,3) assms(4)] D(1) assms(2) by simp
  qed
  show ?thesis
  proof (cases "held' = Map.empty")
    case True
    have "dom held' = {}" using True by simp
    then have "D \<le> C" using assms(1) at unfolding lagging_def by blast
    with True D show ?thesis by (intro exI [of _ D]) (simp add: lagging_def)
  next
    case False
    have in': "\<exists>j. m \<le> j \<and> j < D - 1 \<and> s = e + 1 + of_nat j" if s: "s \<in> dom held'" for s
    proof -
      have "s \<in> dom held" "unat s mod m \<noteq> unat e mod m" using s by (auto simp: assms(5) evict_def split: if_splits)
      then obtain j where j: "m \<le> j" "j < D" "s = e + of_nat j" "j mod m \<noteq> 0"
        using assms(1) residue_offset [OF assms(3), of e] by (force simp: lagging_def)
      then have "j \<noteq> m" by auto
      with j have "m \<le> j - 1" "j - 1 < D - 1" "s = e + 1 + of_nat (j - 1)" by (auto simp: of_nat_diff)
      then show ?thesis by blast
    qed
    obtain s0 where "s0 \<in> dom held'" using False by fastforce
    from in' [OF this] have D1: "m \<le> D - 1" by auto
    have last: "D - 1 \<le> C \<or> (\<exists>s \<in> dom held'. unat s mod m = (unat (e + 1) + (D - 1 - 1)) mod m)"
    proof (cases "D \<le> C")
      case False
      then obtain s where s: "s \<in> dom held" "unat s mod m = (unat e + (D - 1)) mod m"
        using assms(1) by (auto simp: lagging_def)
      with at False have "s \<in> dom held'" by blast
      moreover have "(unat (e + 1) + (D - 1 - 1)) mod m = (unat e + (D - 1)) mod m"
      proof -
        have d: "m dvd 2 ^ LENGTH(16)" using assms(3) by simp
        obtain n where n: "D - 1 = Suc n" using D1 assms(2) by (cases "D - 1") auto
        have "(unat (e + 1) + n) mod m = (unat e + Suc n) mod m"
          unfolding unat_plus_of_nat_mod [OF d, symmetric] by (simp add: ac_simps)
        then show ?thesis unfolding n by simp
      qed
      ultimately show ?thesis using s(2) by auto
    qed (rule disjI1, arith)
    have "D - 1 \<le> C + (q - 1)" using D(2) by simp
    then have "lagging m C (q - 1) (D - 1) (e + 1) held'"
      using D1 D(3) in' last unfolding lagging_def by force
    moreover have "e + 1 + of_nat (D - 1) = e + of_nat D" using D(1) assms(2) by (simp add: of_nat_diff)
    ultimately show ?thesis using False by auto
  qed
qed

text \<open>A packet whose slot is taken is dropped.\<close>

lemma rx_processPacket_drops:
  assumes "jb_holds (rx_jitter rx) held" "rx_connected rx" "rx_validatePacket rx p"
    and "sl_state (jb_buffer (rx_jitter rx) ! getIndex (rx_jitter rx) (ucast (pk_seq p))) \<noteq> EMPTY"
    and "rx' = rx_processPacket nowNs arrival p rx"
  shows "jb_holds (rx_jitter rx') held \<and>
    jb_bufferSize (rx_jitter rx') = jb_bufferSize (rx_jitter rx) \<and> rx_connected rx' \<and>
    rx_expectedSequenceNumber rx' = rx_expectedSequenceNumber rx \<and> rx_config rx' = rx_config rx"
proof -
  let ?jb = "rx_jitter rx"
  have p: "rp_payload p \<noteq> []" using assms(3) by (auto simp: rx_validatePacket_def split: if_splits)
  define rx2 where "rx2 = rx_updateStats (pk_seq p) (length (rp_payload p)) (rx\<lparr>rx_lastPacketTimeNs := nowNs\<rparr>)"
  obtain t rx3 where t: "rx_presentationTime (rh_timestamp (rp_header p)) rx2 = (t, rx3)" by fastforce
  have u: "rx_jitter rx2 = ?jb \<and> rx_connected rx2 \<and>
      rx_expectedSequenceNumber rx2 = rx_expectedSequenceNumber rx \<and> rx_config rx2 = rx_config rx"
    using assms(2) by (simp add: rx2_def rx_updateStats_def Let_def rx_config_def)
  have u3: "rx_jitter rx3 = ?jb \<and> rx_connected rx3 \<and>
      rx_expectedSequenceNumber rx3 = rx_expectedSequenceNumber rx \<and> rx_config rx3 = rx_config rx"
    using u t by (auto simp: rx_presentationTime_def Let_def rx_config_def split: if_splits)
  let ?jb' = "?jb\<lparr>jb_droppedPackets := jb_droppedPackets ?jb + 1\<rparr>"
  have a: "addPacket arrival (rp_payload p) (ucast (pk_seq p)) t ?jb = (False, ?jb')"
    using assms(4) by (simp add: addPacket_def Let_def)
  have "rx' = rx3\<lparr>rx_jitter := ?jb', rx_stats := (rx_stats rx3)\<lparr>st_overruns := st_overruns (rx_stats rx3) + 1\<rparr>\<rparr>"
    using assms(2,3) p t a u3 unfolding assms(5) rx2_def
    by (simp add: rx_processPacket_def Let_def pk_seq_def)
  moreover have "jb_holds ?jb' held" using assms(1) by (simp add: jb_holds_def jb_wf_def ready_count_def)
  ultimately show ?thesis using u3 by (simp add: rx_config_def)
qed

text \<open>Either way, the packet's slot is taken afterwards and nothing else is.\<close>

lemma rx_arrival_held:
  assumes "jb_holds (rx_jitter rx) held" "rx_connected rx" "rx_validatePacket rx p"
    and "rx' = rx_processPacket nowNs arrival p rx" "m = jb_bufferSize (rx_jitter rx)"
    and "held' = (if \<exists>s \<in> dom held. unat s mod m = unat (pk_seq p) mod m then held else held(pk_seq p \<mapsto> rp_payload p))"
  shows "jb_holds (rx_jitter rx') held' \<and> jb_bufferSize (rx_jitter rx') = m \<and> rx_connected rx' \<and>
    rx_expectedSequenceNumber rx' = rx_expectedSequenceNumber rx \<and> rx_config rx' = rx_config rx"
proof -
  let ?jb = "rx_jitter rx" let ?sl = "jb_buffer ?jb ! getIndex ?jb (ucast (pk_seq p))"
  have wf: "jb_wf ?jb" using assms(1) by (simp add: jb_holds_def)
  have taken: "sl_state ?sl \<noteq> EMPTY \<longleftrightarrow> (\<exists>s \<in> dom held. unat s mod m = unat (pk_seq p) mod m)"
  proof
    assume "sl_state ?sl \<noteq> EMPTY"
    show "\<exists>s \<in> dom held. unat s mod m = unat (pk_seq p) mod m"
    proof (rule ccontr)
      assume none: "\<not> (\<exists>s \<in> dom held. unat s mod m = unat (pk_seq p) mod m)"
      have "sl_state ?sl = EMPTY"
      proof (rule jb_stored_empty [OF wf])
        fix k assume "jb_stored ?jb k \<noteq> None"
        then obtain s :: u16 where "s \<in> dom held" "k = ucast s" using assms(1) unfolding jb_holds_def by blast
        with none show "unat k mod jb_bufferSize ?jb \<noteq> unat (ucast (pk_seq p) :: u32) mod jb_bufferSize ?jb"
          by (simp add: unat_ucast16 assms(5))
      qed
      with \<open>sl_state ?sl \<noteq> EMPTY\<close> show False by contradiction
    qed
  next
    assume "\<exists>s \<in> dom held. unat s mod m = unat (pk_seq p) mod m"
    then obtain s where s: "held s \<noteq> None" "unat s mod m = unat (pk_seq p) mod m" by blast
    have "map_option fst (jb_stored ?jb (ucast s)) \<noteq> None" using s(1) assms(1) unfolding jb_holds_def by metis
    then have "jb_stored ?jb (ucast s) \<noteq> None" by auto
    then have "sl_state (jb_buffer ?jb ! getIndex ?jb (ucast s)) = READY"
      by (auto simp: jb_stored_def Let_def split: if_splits)
    then show "sl_state ?sl \<noteq> EMPTY" using s(2) by (simp add: getIndex_mod [OF wf] unat_ucast16 assms(5))
  qed
  show ?thesis
  proof (cases "sl_state ?sl = EMPTY")
    case True
    with taken have "held' = held(pk_seq p \<mapsto> rp_payload p)" using assms(6) by metis
    with rx_processPacket_stores [OF assms(1-3) True assms(4)] show ?thesis by (simp add: assms(5))
  next
    case False
    with taken have "held' = held" using assms(6) by metis
    with rx_processPacket_drops [OF assms(1-3) False assms(4)] show ?thesis by (simp add: assms(5))
  qed
qed

lemma upt_shift: "map (\<lambda>i. (cur :: u16) + of_nat i) [0..<Suc n] = cur # map (\<lambda>i. cur + 1 + of_nat i) [0..<n]"
proof -
  have "[0..<Suc n] = 0 # map Suc [0..<n]" unfolding map_Suc_upt by (rule upt_conv_Cons) simp
  then show ?thesis by (simp add: comp_def add.assoc del: upt_Suc)
qed

lemma rx_interleave_silent:
  assumes "jb_holds (rx_jitter rx) held" "rx_connected rx" "rx_expectedSequenceNumber rx = ucast e"
    and "m = jb_bufferSize (rx_jitter rx)" "lagging m C q D e held" "C mod m = 1" "C + m \<le> 2 ^ 16 + 1"
    and "cur = e + of_nat D" "keeps_up m q evs" "\<forall>p \<in> set (arrivals evs). rx_validatePacket rx p"
    and "map pk_seq (arrivals evs) = map (\<lambda>i. cur + of_nat i) [0..<length (arrivals evs)]"
  shows "snd (rx_interleave evs (rx, devs)) = devs"
  using assms
proof (induction evs arbitrary: rx held e q D cur)
  case Nil
  then show ?case by simp
next
  case (Cons ev evs)
  have wf: "jb_wf (rx_jitter rx)" using Cons.prems(1) by (simp add: jb_holds_def)
  have m: "1 < m" "m dvd 2 ^ 16"
    using jb_size_gt1 [OF wf] jb_size_dvd16 [OF wf] by (simp_all add: Cons.prems(4))
  show ?case
  proof (cases ev)
    case (Arrival nowNs arrival p)
    let ?rx1 = "rx_processPacket nowNs arrival p rx"
    have seq: "pk_seq p = cur" "map pk_seq (arrivals evs) = map (\<lambda>i. cur + 1 + of_nat i) [0..<length (arrivals evs)]"
      using Cons.prems(11) unfolding Arrival arrivals.simps list.size(4) add_0_right add_Suc_right upt_shift by simp_all
    have v: "rx_validatePacket rx p" using Cons.prems(10) Arrival by simp
    define held' where "held' = (if \<exists>s \<in> dom held. unat s mod m = unat cur mod m then held else held(cur \<mapsto> rp_payload p))"
    note h = rx_arrival_held [OF Cons.prems(1,2) v refl Cons.prems(4), of held' nowNs arrival, unfolded seq(1), OF held'_def]
    have k: "q + 1 < m" "keeps_up m (q + 1) evs" using Cons.prems(9) Arrival by simp_all
    have l: "lagging m C (q + 1) (D + 1) e held'" by (rule lagging_arrival [OF Cons.prems(5) k(1) m(2) Cons.prems(8) held'_def])
    have v': "\<forall>p \<in> set (arrivals evs). rx_validatePacket ?rx1 p"
      using Cons.prems(10) rx_validate_config [of ?rx1 rx] h Arrival by auto
    have "snd (rx_interleave evs (?rx1, devs)) = devs"
      by (rule Cons.IH [of _ held' e "q + 1" "D + 1" "cur + 1"])
        (use h Cons.prems(3,6,7,8) l k(2) v' seq(2) in \<open>simp_all add: add.assoc\<close>)
    then show ?thesis by (simp add: Arrival)
  next
    case Round
    define held' where "held' = evict m e held"
    define e' where "e' = (if held' = Map.empty then e else e + 1)"
    let ?st = "rx_consume (rx, devs)"
    have none: "held e = None" using lagging_unexpected [OF Cons.prems(5) _ Cons.prems(7)] m by simp
    note cs = rx_consume_evicts [OF Cons.prems(1) none Cons.prems(3) refl, of held' devs, folded Cons.prems(4), OF held'_def]
    obtain D' where D': "lagging m C (q - 1) D' e' held'" "e' + of_nat D' = e + of_nat D"
      using lagging_round [OF Cons.prems(5) m Cons.prems(6) held'_def] unfolding e'_def by blast
    have c: "rx_config (fst ?st) = rx_config rx" using cs by simp
    have v': "\<forall>p \<in> set (arrivals evs). rx_validatePacket (fst ?st) p"
      using Cons.prems(10) rx_validate_config [OF c] Round by auto
    have "snd (rx_interleave evs (fst ?st, devs)) = devs"
      by (rule Cons.IH [of _ held' e' "q - 1" D' cur])
        (use cs Cons.prems D' v' Round in \<open>simp_all add: e'_def\<close>)
    moreover have "snd ?st = devs" using cs by simp
    ultimately show ?thesis by (simp add: Round) (metis prod.collapse)
  qed
qed

text \<open>
  C26. Resetting the statistics of a running receiver silences it. resetStatistics() sets the
  expected number to 0 while connected_ stays set, so the number is never taken from the stream
  again: the consumer lags behind the arrivals by at least what the jitter buffer holds, and every
  packet is evicted or dropped before its number is asked for. However many consecutive valid packets follow, and
  however their arrivals and the rounds of the consumer are interleaved, none is ever played, as
  long as the consumer is never a whole buffer of arrivals behind; the next number is, at the reset, at least
  the buffer's size above 0 and twice the size below the wrap to 0. Each arrival and each round is one step.
\<close>

theorem rx_reset_silences:
  assumes "jb_wf (rx_jitter rx)" "rx_connected rx" "m = jb_bufferSize (rx_jitter rx)"
    and "\<forall>p \<in> set (arrivals evs). rx_validatePacket rx p"
    and "map pk_seq (arrivals evs) = map (\<lambda>i. cur + of_nat i) [0..<length (arrivals evs)]"
    and "m \<le> unat cur" "unat cur + 2 * m \<le> 2 ^ 16" "keeps_up m 0 evs"
  shows "snd (rx_interleave evs (rx_resetStatistics rx, devs)) = devs"
proof -
  let ?rx0 = "rx_resetStatistics rx"
  have j: "rx_jitter ?rx0 = jb_reset (rx_jitter rx)" "rx_connected ?rx0"
    "rx_expectedSequenceNumber ?rx0 = ucast (0 :: u16)" "rx_config ?rx0 = rx_config rx"
    using assms(2) by (simp_all add: rx_resetStatistics_def rx_config_def)
  have h: "jb_holds (rx_jitter ?rx0) Map.empty"
    using jb_reset_wf [OF assms(1)] jb_reset_stored [OF assms(1)] by (simp add: jb_holds_def j)
  have m1: "1 < m" using jb_size_gt1 [OF assms(1)] by (simp add: assms(3))
  define k where "k = (unat cur + m - 2) div m"
  have "m * k \<le> unat cur + m - 2" unfolding k_def by (rule times_div_less_eq_dividend)
  moreover have "unat cur + m - 2 < m * k + m"
    using dividend_less_times_div [of m "unat cur + m - 2"] m1 by (simp add: k_def add.commute)
  ultimately have C: "unat cur \<le> m * k + 1" "m * k + 1 + m \<le> 2 ^ 16 + 1"
    using assms(6,7) m1 by simp_all
  have C1: "(m * k + 1) mod m = 1" unfolding mod_mult_self4 using m1 by simp
  have s: "m = jb_bufferSize (rx_jitter ?rx0)" using jb_reset_wf [OF assms(1)] by (simp add: j assms(3))
  have l: "lagging m (m * k + 1) 0 (unat cur) 0 Map.empty" using assms(6) C(1) m1 by (simp add: lagging_def)
  have v: "\<forall>p \<in> set (arrivals evs). rx_validatePacket ?rx0 p"
    using assms(4) rx_validate_config [OF j(4)] by auto
  have c: "cur = 0 + of_nat (unat cur)" by simp
  show ?thesis by (rule rx_interleave_silent [OF h j(2,3) s l C1 C(2) c assms(8) v assms(5)])
qed

section \<open>A concrete stream\<close>

definition stream_mapping :: channel_mapping where
  "stream_mapping = \<lparr>cm_streamID = null_id, cm_streamName = ''Main'', cm_streamChannelCount = 2,
     cm_streamChannelOffset = 0, cm_deviceChannelStart = 4, cm_deviceChannelCount = 2, cm_channelMap = []\<rparr>"

definition example_receiver :: "u16 \<Rightarrow> receiver" where
  "example_receiver base = (rx_new (\<lambda>_. []) sdp_default stream_mapping 32 [])
     \<lparr>rx_connected := True, rx_expectedSequenceNumber := ucast base\<rparr>"

definition example_stream_packet :: "u16 \<Rightarrow> u8 list \<Rightarrow> rtp_packet" where
  "example_stream_packet s payload = \<lparr>rp_header = (rp_header rtp_packet_new)\<lparr>rh_sequenceNumber := s\<rparr>,
     rp_payload = payload\<rparr>"

lemma example_jitter:
  "jb_wf (rx_jitter (example_receiver base))" "jb_stored (rx_jitter (example_receiver base)) k = None"
  "rx_connected (example_receiver base)" "rx_expectedSequenceNumber (example_receiver base) = ucast base"
  by (simp_all add: example_receiver_def rx_new_def jb_wf_new jb_new_stored)

lemma example_size: "jb_bufferSize (rx_jitter (example_receiver base)) = 32"
proof -
  have "buffer_size_of 32 = 32"
    by (simp add: buffer_size_of_def nextPowerOf2_def MIN_BUFFER_SIZE_def MAX_BUFFER_SIZE_def)
  then show ?thesis by (simp add: example_receiver_def rx_new_def jb_new_def Let_def)
qed

lemma example_valid:
  "0 < length payload \<Longrightarrow> length payload \<le> 1500 \<Longrightarrow>
     rx_validatePacket (example_receiver base) (example_stream_packet s payload)"
  by (simp add: rx_validatePacket_def example_receiver_def rx_new_def example_stream_packet_def
      rtp_packet_new_def PT_AES67_L16_def sdp_default_def)

lemma rx_plays_in_order_witness:
  "\<forall>devs. snd (rx_consume_n 3 (rx_process_all
     [(9, 9, example_stream_packet 1 [5, 6]), (8, 8, example_stream_packet 0xFFFF [1, 2])]
     (example_receiver 0xFFFF), devs)) =
   playout (example_receiver 0xFFFF) [[1, 2], [5, 6]] devs"
proof
  fix devs
  let ?ps = "[(9, 9, example_stream_packet 1 [5, 6]), (8, 8, example_stream_packet 0xFFFF [1, 2])]
    :: (int \<times> u64 \<times> rtp_packet) list"
  let ?rx = "example_receiver 0xFFFF"
  have ar: "arrived ?ps = [1 \<mapsto> [5, 6], 0xFFFF \<mapsto> [1, 2]]"
    by (simp add: arrived_def pk_seq_def example_stream_packet_def fun_upd_twist)
  have z: "(65536 :: u16) = 0" "(65537 :: u16) = 1" by (simp_all add: word_unat_eq_iff)
  have "seq_window (0xFFFF :: u16) 3 = {0xFFFF, 65536, 65537}"
    by (simp add: seq_window_def lessThan_nat_numeral lessThan_Suc insert_commute)
  then have w: "seq_window (0xFFFF :: u16) 3 = {0xFFFF, 0, 1}" unfolding z .
  have "snd (rx_consume_n 3 (rx_process_all ?ps ?rx, devs)) =
      playout ?rx (in_order (arrived ?ps) 0xFFFF 3) devs"
    by (rule rx_plays_in_order [THEN conjunct1])
      (simp_all add: example_jitter example_size example_valid ar w pk_seq_def, simp_all add: example_stream_packet_def)
  also have "in_order (arrived ?ps) 0xFFFF 3 = [[1, 2], [5, 6]]"
    by (simp add: in_order_def ar upt_conv_Cons)
  finally show "snd (rx_consume_n 3 (rx_process_all ?ps ?rx, devs)) = playout ?rx [[1, 2], [5, 6]] devs" .
qed

lemma rx_reset_silences_witness:
  "\<forall>devs. snd (rx_interleave [Arrival 1 1 (example_stream_packet 500 [5, 6]), Arrival 2 2 (example_stream_packet 501 [7, 8]),
       Round, Round, Round, Arrival 3 3 (example_stream_packet 502 [9, 9]), Round]
     (rx_resetStatistics (example_receiver 500), devs)) = devs"
proof
  fix devs
  let ?evs = "[Arrival 1 1 (example_stream_packet 500 [5, 6]), Arrival 2 2 (example_stream_packet 501 [7, 8]),
    Round, Round, Round, Arrival 3 3 (example_stream_packet 502 [9, 9]), Round]"
  show "snd (rx_interleave ?evs (rx_resetStatistics (example_receiver 500), devs)) = devs"
    by (rule rx_reset_silences [where cur = 500 and m = 32])
      (simp_all add: example_jitter example_size example_valid, simp_all add: pk_seq_def example_stream_packet_def)
qed




section \<open>Statistics and the presentation time\<close>

definition rx_lost :: "receiver \<Rightarrow> u64" where "rx_lost rx = st_packetsLost (rx_stats rx)"

definition rx_late :: "receiver \<Rightarrow> u64" where "rx_late rx = st_outOfOrderPackets (rx_stats rx)"

text \<open>
  Loss accounting. A packet with the next number changes neither counter; a forward gap of
  \<open>g\<close> numbers counts \<open>g\<close> lost packets, a late or repeated one counts as out of order. But the
  last number is also overwritten by a late packet: when \<open>n+2\<close> overtakes \<open>n+1\<close>, the four
  arrivals \<open>n, n+2, n+1, n+3\<close>, none of which is lost, count two losses.
\<close>

theorem rx_loss_accounting:
  assumes "0 < st_packetsReceived (rx_stats rx)" "st_packetsReceived (rx_stats rx) < 2 ^ 63"
    and "rx_lastSequenceNumber rx = n" "0 < g" "g < 2 ^ 15"
  shows "rx_lost (rx_updateStats (n + 1) sz rx) = rx_lost rx \<and> rx_late (rx_updateStats (n + 1) sz rx) = rx_late rx \<and>
    rx_lost (rx_updateStats (n + 1 + of_nat g) sz rx) = rx_lost rx + of_nat g \<and>
    rx_late (rx_updateStats (n + 1 - of_nat g) sz rx) = rx_late rx + 1 \<and>
    rx_lost (rx_updateStats (n + 3) sz (rx_updateStats (n + 1) sz (rx_updateStats (n + 2) sz rx))) = rx_lost rx + 2"
proof -
  have si: "sint (of_int i :: u16) = i" if "- (2 ^ 15) \<le> i" "i < 2 ^ 15" for i
  proof -
    have "sint (of_int i :: u16) = signed_take_bit (LENGTH(16) - 1) i" by (rule sint_sbintrunc')
    also have "\<dots> = i" by (rule signed_take_bit_int_eq_self) (use that in simp_all)
    finally show ?thesis .
  qed
  have gp: "sint (of_nat g :: u16) = int g" and gm: "sint (- of_nat g :: u16) = - int g"
    using si [of "int g"] si [of "- int g"] assms(5) by simp_all
  have g1: "sint (1 :: u16) = 1" and g2: "sint (- 2 :: u16) = - 2"
    using si [of 1] si [of "- 2"] by simp_all
  have nz: "(of_nat g :: u16) \<noteq> 0" using gp assms(4) by auto
  let ?r = "st_packetsReceived (rx_stats rx)"
  have "unat (?r + 1) = unat ?r + 1" "unat (?r + 2) = unat ?r + 2"
    using assms(2) by (simp_all add: word_less_nat_alt unat_word_ariths)
  then have pos: "0 < ?r + 1" "0 < ?r + 2" by (simp_all add: word_less_nat_alt)
  have d: "n + 1 + of_nat g - (n + 1) = of_nat g" "n + 1 - of_nat g - (n + 1) = - of_nat g"
    "n + 2 - (n + 1) = 1" "n + 1 - (n + 2 + 1) = - 2" "n + 3 - (n + 1 + 1) = 1" by simp_all
  have upd: "rx_lost (rx_updateStats s sz r) = (if 0 < st_packetsReceived (rx_stats r) \<and>
        0 < sint (s - (rx_lastSequenceNumber r + 1))
      then rx_lost r + of_int (sint (s - (rx_lastSequenceNumber r + 1))) else rx_lost r)"
    "rx_late (rx_updateStats s sz r) = (if 0 < st_packetsReceived (rx_stats r) \<and>
        s \<noteq> rx_lastSequenceNumber r + 1 \<and> sint (s - (rx_lastSequenceNumber r + 1)) \<le> 0
      then rx_late r + 1 else rx_late r)"
    "rx_lastSequenceNumber (rx_updateStats s sz r) = s"
    "st_packetsReceived (rx_stats (rx_updateStats s sz r)) = st_packetsReceived (rx_stats r) + 1" for s sz r
    by (auto simp: rx_updateStats_def rx_lost_def rx_late_def Let_def)
  have "rx_lost (rx_updateStats (n + 1) sz rx) = rx_lost rx \<and> rx_late (rx_updateStats (n + 1) sz rx) = rx_late rx"
    by (simp add: upd assms(3))
  moreover have "rx_lost (rx_updateStats (n + 1 + of_nat g) sz rx) = rx_lost rx + of_nat g"
    unfolding upd(1) assms(3) d(1) gp using assms(1,4) by simp
  moreover have "rx_late (rx_updateStats (n + 1 - of_nat g) sz rx) = rx_late rx + 1"
    unfolding upd(2) assms(3) d(2) gm using assms(1,4) nz by simp
  moreover have "rx_lost (rx_updateStats (n + 3) sz (rx_updateStats (n + 1) sz (rx_updateStats (n + 2) sz rx))) =
      rx_lost rx + 2"
    unfolding upd(1,3,4) assms(3) d g1 g2 using assms(1) pos by (simp add: add.commute)
  ultimately show ?thesis by simp
qed

lemma rx_loss_accounting_witness:
  "let rx = rx_updateStats 0xFFFF 10 (example_receiver 0)
   in rx_lost (rx_updateStats 2 10 (rx_updateStats 0 10 (rx_updateStats 1 10 rx))) = 2"
proof -
  let ?rx = "rx_updateStats 0xFFFF 10 (example_receiver 0)"
  have "rx_lost (rx_updateStats (0xFFFF + 3) 10 (rx_updateStats (0xFFFF + 1) 10
      (rx_updateStats (0xFFFF + 2) 10 ?rx))) = rx_lost ?rx + 2"
    by (rule rx_loss_accounting [of ?rx _ 1, THEN conjunct2, THEN conjunct2, THEN conjunct2, THEN conjunct2])
      (simp_all add: rx_updateStats_def example_receiver_def rx_new_def stats_zero_def)
  moreover have "rx_lost ?rx = 0"
    by (simp add: rx_lost_def rx_updateStats_def example_receiver_def rx_new_def stats_zero_def)
  moreover have "(0xFFFF + 3 :: u16) = 2" "(0xFFFF + 1 :: u16) = 0" "(0xFFFF + 2 :: u16) = 1"
    by (simp_all add: word_unat_eq_iff)
  ultimately show ?thesis unfolding Let_def by (simp only: add_0)
qed

text \<open>
  Presentation times are exact. After the first packet, whose time is 0, the time of a packet
  is the distance of its timestamp from the first one, taken around the 32-bit wrap, scaled to
  nanoseconds and rounded down: the 64-bit product never overflows, whatever the rate.
\<close>

theorem rx_presentation_exact:
  assumes "0 < sd_sampleRate (rx_sdp rx)" "rx_firstTimestampSet rx"
    and "timestamp = rx_firstTimestamp rx + of_nat d" "d < 2 ^ 32"
  shows "unat (fst (rx_presentationTime timestamp rx)) =
      d * 1000000000 div unat (sd_sampleRate (rx_sdp rx)) \<and>
    fst (rx_presentationTime t0 (rx\<lparr>rx_firstTimestampSet := False\<rparr>)) = 0 \<and>
    rx_firstTimestamp (snd (rx_presentationTime t0 (rx\<lparr>rx_firstTimestampSet := False\<rparr>))) = t0"
proof -
  have d: "timestamp - rx_firstTimestamp rx = of_nat d" using assms(3) by simp
  have u: "unat (ucast (of_nat d :: u32) :: u64) = d"
    using assms(4) by (simp add: unat_of_nat unsigned_ucast_eq take_bit_eq_mod)
  have "d * 1000000000 < 2 ^ 64" using assms(4) by simp
  then have "unat (ucast (of_nat d :: u32) * 1000000000 :: u64) = d * 1000000000"
    by (simp add: unat_word_ariths u)
  moreover have "unat (ucast (sd_sampleRate (rx_sdp rx)) :: u64) = unat (sd_sampleRate (rx_sdp rx))"
    using unsigned_less [of "sd_sampleRate (rx_sdp rx)", where ?'a = nat] by (simp add: unsigned_ucast_eq take_bit_eq_mod)
  ultimately show ?thesis using assms(1,2) by (simp add: rx_presentationTime_def d unat_div)
qed

lemma rx_presentation_exact_witness:
  "unat (fst (rx_presentationTime 47 ((example_receiver 0)\<lparr>rx_firstTimestamp := - 1,
     rx_firstTimestampSet := True\<rparr>))) = 1000000"
proof -
  let ?rx = "(example_receiver 0)\<lparr>rx_firstTimestamp := - 1, rx_firstTimestampSet := True\<rparr>"
  have "unat (fst (rx_presentationTime 47 ?rx)) = 48 * 1000000000 div unat (sd_sampleRate (rx_sdp ?rx))"
    by (rule rx_presentation_exact [of ?rx 47 48, THEN conjunct1])
      (simp_all add: example_receiver_def rx_new_def sdp_default_def)
  then show ?thesis by (simp add: example_receiver_def rx_new_def sdp_default_def)
qed

definition rx_fixed :: "receiver \<Rightarrow> sdp_session \<times> channel_mapping \<times> rtp_socket \<times> u64 \<times> bool \<times> nat" where
  "rx_fixed rx = (rx_sdp rx, rx_mapping rx, rx_socket rx, rx_packetIntervalUs rx, rx_running rx,
     rx_audioBufferSize rx)"

text \<open>
  The receive thread on every branch. An invalid packet changes the malformed counter and
  nothing else. A valid one connects the receiver, which takes the first number as the expected
  one, and is counted as received; if its slot is free it is stored under its number, otherwise
  it is dropped, counted as an overrun, and what is stored stays as it was. Configuration,
  socket, mapping and the running flag never change.
\<close>

theorem rx_process_branches:
  assumes "jb_wf (rx_jitter rx)"
    and "free \<longleftrightarrow> sl_state (jb_buffer (rx_jitter rx) ! getIndex (rx_jitter rx) (ucast (pk_seq p))) = EMPTY"
    and "rx' = rx_processPacket nowNs arrival p rx"
  shows "rx_fixed rx' = rx_fixed rx \<and>
    (if \<not> rx_validatePacket rx p
     then rx' = rx\<lparr>rx_stats := (rx_stats rx)\<lparr>st_malformedPackets := st_malformedPackets (rx_stats rx) + 1\<rparr>\<rparr>
     else jb_wf (rx_jitter rx') \<and> rx_connected rx' \<and> rx_lastPacketTimeNs rx' = nowNs \<and>
       rx_expectedSequenceNumber rx' =
         (if rx_connected rx then rx_expectedSequenceNumber rx else ucast (pk_seq p)) \<and>
       st_packetsReceived (rx_stats rx') = st_packetsReceived (rx_stats rx) + 1 \<and>
       st_malformedPackets (rx_stats rx') = st_malformedPackets (rx_stats rx) \<and>
       st_overruns (rx_stats rx') = st_overruns (rx_stats rx) + (if free then 0 else 1) \<and>
       (if free then \<exists>t. jb_stored (rx_jitter rx') = (jb_stored (rx_jitter rx))(ucast (pk_seq p) \<mapsto> (rp_payload p, t))
        else jb_stored (rx_jitter rx') = jb_stored (rx_jitter rx)))"
proof (cases "rx_validatePacket rx p")
  case False
  then show ?thesis by (simp add: assms(3) rx_processPacket_def count_malformed_def rx_fixed_def)
next
  case True
  let ?jb = "rx_jitter rx"
  have p: "rp_payload p \<noteq> []" "length (rp_payload p) \<le> 1500"
    using True by (auto simp: rx_validatePacket_def split: if_splits)
  define rx1 where "rx1 = (if \<not> rx_connected rx
    then rx\<lparr>rx_connected := True, rx_expectedSequenceNumber := ucast (pk_seq p)\<rparr> else rx)"
  define rx2 where "rx2 = rx_updateStats (pk_seq p) (length (rp_payload p)) (rx1\<lparr>rx_lastPacketTimeNs := nowNs\<rparr>)"
  obtain t rx3 where t: "rx_presentationTime (rh_timestamp (rp_header p)) rx2 = (t, rx3)" by fastforce
  obtain added jb' where a: "addPacket arrival (rp_payload p) (ucast (pk_seq p)) t ?jb = (added, jb')" by fastforce
  define ok where "ok r \<longleftrightarrow> rx_fixed r = rx_fixed rx \<and> rx_jitter r = ?jb \<and> rx_connected r \<and>
      rx_lastPacketTimeNs r = nowNs \<and> st_packetsReceived (rx_stats r) = st_packetsReceived (rx_stats rx) + 1 \<and>
      st_malformedPackets (rx_stats r) = st_malformedPackets (rx_stats rx) \<and>
      st_overruns (rx_stats r) = st_overruns (rx_stats rx) \<and>
      rx_expectedSequenceNumber r = (if rx_connected rx then rx_expectedSequenceNumber rx else ucast (pk_seq p))" for r
  have "ok rx2" by (auto simp: ok_def rx2_def rx1_def rx_updateStats_def rx_fixed_def Let_def)
  then have ok3: "ok rx3" using t by (auto simp: ok_def rx_presentationTime_def rx_fixed_def split: if_splits)
  have rx': "rx' = (if added then rx3\<lparr>rx_jitter := jb'\<rparr> else rx3\<lparr>rx_jitter := jb',
      rx_stats := (rx_stats rx3)\<lparr>st_overruns := st_overruns (rx_stats rx3) + 1\<rparr>\<rparr>)"
  proof -
    have "rx_jitter rx3 = ?jb" using ok3 by (simp add: ok_def)
    then show ?thesis
      using True p(1) t a unfolding assms(3) rx_processPacket_def rx2_def rx1_def pk_seq_def
      by (simp add: Let_def)
  qed
  show ?thesis
  proof (cases free)
    case True
    with assms(2) have e: "sl_state (jb_buffer ?jb ! getIndex ?jb (ucast (pk_seq p))) = EMPTY" by simp
    have "added \<and> jb_wf jb' \<and> jb_stored jb' = (jb_stored ?jb)(ucast (pk_seq p) \<mapsto> (rp_payload p, t))"
      by (rule addPacket_stored [OF assms(1) e, of arrival "rp_payload p" t]) (use a p(2) in simp)
    then show ?thesis using True ok3 \<open>rx_validatePacket rx p\<close>
      by (auto simp: rx' ok_def rx_fixed_def)
  next
    case False
    with assms(2) have "sl_state (jb_buffer ?jb ! getIndex ?jb (ucast (pk_seq p))) \<noteq> EMPTY" by simp
    from addPacket_refused [OF this, of arrival "rp_payload p" t] a
    have "\<not> added" "jb' = ?jb\<lparr>jb_droppedPackets := jb_droppedPackets ?jb + 1\<rparr>" by simp_all
    moreover have "jb_wf (?jb\<lparr>jb_droppedPackets := x\<rparr>)" for x
      using assms(1) by (simp add: jb_wf_def ready_count_def)
    ultimately show ?thesis using False ok3 \<open>rx_validatePacket rx p\<close>
      by (auto simp: rx' ok_def rx_fixed_def)
  qed
qed

lemma rx_process_branches_witness:
  "\<exists>t. jb_stored (rx_jitter (rx_processPacket 1 1 (example_stream_packet 7 [5, 6]) (example_receiver 7))) =
     [7 \<mapsto> ([5, 6], t)]"
proof -
  let ?p = "example_stream_packet 7 [5, 6]" let ?rx = "example_receiver 7"
  let ?free = "sl_state (jb_buffer (rx_jitter ?rx) ! getIndex (rx_jitter ?rx) (ucast (pk_seq ?p))) = EMPTY"
  have e: "?free" by (rule jb_stored_empty) (simp_all add: example_jitter)
  have v: "rx_validatePacket ?rx ?p" by (simp add: example_valid)
  have s: "pk_seq ?p = 7" "rp_payload ?p = [5, 6]" by (simp_all add: pk_seq_def example_stream_packet_def)
  have none: "jb_stored (rx_jitter ?rx) = Map.empty" using example_jitter(2) by auto
  show ?thesis
    using rx_process_branches [where p = ?p and nowNs = 1 and arrival = 1 and rx = ?rx, OF example_jitter(1) refl refl]
      e v by (simp add: s none)
qed

end
