(* ===== verification/Rtp_Transmitter.thy ===== *)
theory Rtp_Transmitter
  imports Rtp_Receiver
begin

text \<open>
  \<open>NetworkEngine/RTP/RTPTransmitter.h/.cpp\<close>: every millisecond the transmit thread reads one
  packet of frames from the device rings, interleaves, encodes and sends it. One round of the
  loop is one step; whether \<open>sendmsg\<close> succeeds is an argument. Reading or writing past the end
  of a vector is the outcome None.
\<close>

record transmitter =
  tx_sdp :: sdp_session
  tx_mapping :: channel_mapping
  tx_networkInterface :: string
  tx_socket :: rtp_socket
  tx_running :: bool
  tx_stats :: stats
  tx_sequenceNumber :: u16
  tx_timestamp :: u32
  tx_ssrc :: u32
  tx_packetIntervalUs :: u64
  tx_audioBuffer :: "f32 list"
  tx_payloadBufferSize :: nat

section \<open>Construction, start and stop\<close>

definition tx_new :: "u32 \<Rightarrow> sdp_session \<Rightarrow> channel_mapping \<Rightarrow> string \<Rightarrow> transmitter" where
  "tx_new randomSsrc sdp mapping networkInterface =
     \<lparr>tx_sdp = sdp, tx_mapping = mapping, tx_networkInterface = networkInterface,
      tx_socket = socket_new, tx_running = False, tx_stats = stats_zero,
      tx_sequenceNumber = 0, tx_timestamp = 0, tx_ssrc = randomSsrc, tx_packetIntervalUs = 1000,
      tx_audioBuffer = replicate (512 * unat (sd_numChannels sdp)) (Fin 0),
      tx_payloadBufferSize = 12 + 3 * unat (sd_numChannels sdp) * 512\<rparr>"

definition tx_start :: "open_results \<Rightarrow> transmitter \<times> kernel \<Rightarrow> bool \<times> transmitter \<times> kernel" where
  "tx_start r st =
     (let (tx, k) = st; sdp = tx_sdp tx
      in if tx_running tx \<or> isOpen (tx_socket tx) then (False, tx, k)
         else if sd_connectionAddress sdp = [] \<or> sd_port sdp = 0 then (False, tx, k)
         else if sd_numChannels sdp = 0 \<or> sd_numChannels sdp > 128 then (False, tx, k)
         else
           let iface = (if tx_networkInterface tx = [] then None else Some (tx_networkInterface tx));
               (ok, s', k') = openTransmitter r (sd_connectionAddress sdp) (sd_port sdp) iface (tx_socket tx, k)
           in if \<not> ok then (False, tx\<lparr>tx_socket := s'\<rparr>, k')
              else (True, tx\<lparr>tx_socket := s', tx_timestamp := 0, tx_sequenceNumber := 0,
                     tx_running := True\<rparr>, k'))"

definition tx_stop :: "transmitter \<times> kernel \<Rightarrow> transmitter \<times> kernel" where
  "tx_stop st =
     (let (tx, k) = st
      in if \<not> tx_running tx then (tx, k)
         else let (s', k') = socket_close (tx_socket tx, k)
              in (tx\<lparr>tx_running := False, tx_socket := s'\<rparr>, k'))"

definition tx_resetStatistics :: "transmitter \<Rightarrow> transmitter" where
  "tx_resetStatistics tx =
     tx\<lparr>tx_stats := (tx_stats tx)\<lparr>st_packetsReceived := 0, st_packetsLost := 0,
          st_malformedPackets := 0, st_outOfOrderPackets := 0, st_underruns := 0, st_overruns := 0,
          st_jitterNs := 0, st_latencyNs := 0, st_bytesReceived := 0, st_bytesSent := 0\<rparr>\<rparr>"

definition tx_updateMapping ::
    "open_results \<Rightarrow> channel_mapping \<Rightarrow> transmitter \<times> kernel \<Rightarrow> bool \<times> transmitter \<times> kernel" where
  "tx_updateMapping r newMapping st =
     (let (tx, k) = st
      in if cm_start newMapping + unat (sd_numChannels (tx_sdp tx)) > 128 then (False, tx, k)
         else
           let wasRunning = tx_running tx;
               (tx1, k1) = (if wasRunning then tx_stop (tx, k) else (tx, k));
               tx2 = tx1\<lparr>tx_mapping := newMapping\<rparr>
           in if wasRunning then tx_start r (tx2, k1) else (True, tx2, k1))"

section \<open>The transmit thread\<close>

fun interleave_channel :: "nat \<Rightarrow> nat \<Rightarrow> nat \<Rightarrow> f32 list \<Rightarrow> f32 list \<Rightarrow> f32 list" where
  "interleave_channel nch c frame [] audio = audio"
| "interleave_channel nch c frame (x # xs) audio =
     interleave_channel nch c (Suc frame) xs (audio[frame * nch + c := x])"

fun read_channels ::
    "nat list \<Rightarrow> nat \<Rightarrow> nat \<Rightarrow> nat \<Rightarrow> f32 list \<Rightarrow> device_channels \<Rightarrow> bool \<Rightarrow> f32 list \<times> device_channels \<times> bool" where
  "read_channels [] start nch frameCount audio devs hadUnderrun = (audio, devs, hadUnderrun)"
| "read_channels (c # cs) start nch frameCount audio devs hadUnderrun =
     (let (got, ring) = spsc_read frameCount (devs ! (start + c));
          channelBuffer = got @ replicate (frameCount - length got) (Fin 0)
      in read_channels cs start nch frameCount (interleave_channel nch c 0 channelBuffer audio)
           (devs[start + c := ring]) (hadUnderrun \<or> length got < frameCount))"

definition readDeviceChannels ::
    "nat \<Rightarrow> transmitter \<times> device_channels \<Rightarrow> bool \<times> transmitter \<times> device_channels" where
  "readDeviceChannels frameCount st =
     (let (tx, devs) = st; nch = unat (sd_numChannels (tx_sdp tx)); start = cm_start (tx_mapping tx)
      in if start + nch > 128 then (False, tx, devs)
         else if frameCount > 512 then (False, tx, devs)
         else let (audio, devs', hadUnderrun) =
                  read_channels [0..<nch] start nch frameCount (tx_audioBuffer tx) devs False
              in (\<not> hadUnderrun, tx\<lparr>tx_audioBuffer := audio\<rparr>, devs'))"

text \<open>\<open>encodeL16\<close> and \<open>encodeL24\<close> read \<open>frameCount * numChannels\<close> samples of the audio vector.\<close>

definition tx_encodeL16 :: "nat \<Rightarrow> transmitter \<Rightarrow> u8 list option" where
  "tx_encodeL16 frameCount tx =
     (let total = frameCount * unat (sd_numChannels (tx_sdp tx))
      in if total > length (tx_audioBuffer tx) \<or> total * 2 > tx_payloadBufferSize tx then None
         else Some (l16_encode (take total (tx_audioBuffer tx))))"

definition tx_encodeL24 :: "nat \<Rightarrow> transmitter \<Rightarrow> u8 list option" where
  "tx_encodeL24 frameCount tx =
     (let total = frameCount * unat (sd_numChannels (tx_sdp tx))
      in if total > length (tx_audioBuffer tx) \<or> total * 3 > tx_payloadBufferSize tx then None
         else Some (l24_encode (take total (tx_audioBuffer tx))))"

definition tx_packet :: "u8 list \<Rightarrow> u32 \<Rightarrow> transmitter \<Rightarrow> rtp_packet" where
  "tx_packet payload timestamp tx =
     \<lparr>rp_header = \<lparr>rh_cc = 0, rh_extension = 0, rh_padding = 0, rh_version = 2,
        rh_payloadType = ucast (sd_payloadType (tx_sdp tx)), rh_marker = 0,
        rh_sequenceNumber = tx_sequenceNumber tx, rh_timestamp = timestamp, rh_ssrc = tx_ssrc tx\<rparr>,
      rp_payload = payload\<rparr>"

definition sendPacket :: "bool \<Rightarrow> u8 list \<Rightarrow> u32 \<Rightarrow> transmitter \<Rightarrow> transmitter \<times> u8 list option" where
  "sendPacket sent payload timestamp tx =
     (if \<not> isOpen (tx_socket tx) \<or> payload = [] then (tx, None)
      else
        let datagram = socket_send (tx_packet payload timestamp tx) (tx_socket tx);
            tx1 = tx\<lparr>tx_sequenceNumber := tx_sequenceNumber tx + 1\<rparr>
        in if datagram = None \<or> \<not> sent
           then (tx1\<lparr>tx_stats := (tx_stats tx1)\<lparr>st_malformedPackets := st_malformedPackets (tx_stats tx1) + 1\<rparr>\<rparr>, None)
           else (tx1, datagram))"

text \<open>One round of \<open>transmitLoop\<close>.\<close>

definition tx_round ::
    "bool \<Rightarrow> transmitter \<times> device_channels \<Rightarrow> (transmitter \<times> device_channels \<times> u8 list option) option" where
  "tx_round sent st =
     (let samplesPerPacket = unat (sd_framecount (tx_sdp (fst st)));
          (_, tx, devs) = readDeviceChannels samplesPerPacket st;
          finish = (\<lambda>payload.
            let (tx1, datagram) = sendPacket sent payload (tx_timestamp tx) tx
            in (tx1\<lparr>tx_timestamp := tx_timestamp tx1 + of_nat samplesPerPacket,
                  tx_stats := (tx_stats tx1)\<lparr>st_bytesSent := st_bytesSent (tx_stats tx1) + of_nat (length payload)\<rparr>\<rparr>,
                devs, datagram))
      in if sd_encoding (tx_sdp tx) = ''L16'' then map_option finish (tx_encodeL16 samplesPerPacket tx)
         else if sd_encoding (tx_sdp tx) = ''L24'' then map_option finish (tx_encodeL24 samplesPerPacket tx)
         else Some (tx, devs, None))"

fun tx_rounds ::
    "bool list \<Rightarrow> transmitter \<times> device_channels \<Rightarrow> (transmitter \<times> device_channels \<times> u8 list option list) option" where
  "tx_rounds [] st = Some (fst st, snd st, [])"
| "tx_rounds (sent # ss) st =
     (case tx_round sent st of None \<Rightarrow> None
      | Some (tx, devs, d) \<Rightarrow>
          (case tx_rounds ss (tx, devs) of None \<Rightarrow> None
           | Some (tx', devs', ds) \<Rightarrow> Some (tx', devs', d # ds)))"

section \<open>Interleaving\<close>

lemma length_interleave [simp]: "length (interleave_channel nch c frame xs audio) = length audio"
  by (induction nch c frame xs audio rule: interleave_channel.induct) simp_all

lemma frame_index:
  fixes f g c d n :: nat
  assumes "c < n" "d < n"
  shows "f * n + c = g * n + d \<longleftrightarrow> f = g \<and> c = d"
proof
  assume "f * n + c = g * n + d"
  then have "(f * n + c) div n = (g * n + d) div n" "(f * n + c) mod n = (g * n + d) mod n" by simp_all
  with assms show "f = g \<and> c = d" by simp
qed simp

lemma frame_bound:
  fixes f c n m :: nat
  assumes "f < m" "c < n"
  shows "f * n + c < m * n"
proof -
  have "f * n + c < Suc f * n" using assms(2) by simp
  also have "\<dots> \<le> m * n" using assms(1) by (intro mult_le_mono1) simp
  finally show ?thesis .
qed

lemma interleave_nth:
  assumes "c < nch" "c' < nch" "(frame + length xs) * nch \<le> length audio"
  shows "interleave_channel nch c frame xs audio ! (f * nch + c') =
    (if c' = c \<and> frame \<le> f \<and> f < frame + length xs then xs ! (f - frame) else audio ! (f * nch + c'))"
  using assms
proof (induction nch c frame xs audio rule: interleave_channel.induct)
  case (1 nch c frame audio)
  then show ?case by auto
next
  case (2 nch c frame x xs audio)
  let ?audio = "audio[frame * nch + c := x]"
  have len: "frame * nch + c < length audio"
    using frame_bound [of frame "frame + length (x # xs)" c nch] "2.prems" by simp
  have "(Suc frame + length xs) * nch \<le> length ?audio" using "2.prems"(3) by simp
  note IH = "2.IH" [OF "2.prems"(1,2) this]
  have a: "?audio ! (f * nch + c') = (if f = frame \<and> c' = c then x else audio ! (f * nch + c'))"
    using len frame_index [OF "2.prems"(1,2), of frame f] by (auto simp: nth_list_update)
  show ?case
  proof (cases "c' = c \<and> frame \<le> f \<and> f < frame + length (x # xs)")
    case True
    then show ?thesis using IH a by (cases "f = frame") (auto simp: nth_Cons')
  next
    case False
    then show ?thesis using IH a by auto
  qed
qed

text \<open>What one round takes from a ring: silence where it runs out.\<close>

definition frame_samples :: "nat \<Rightarrow> f32 spsc \<Rightarrow> f32 list" where
  "frame_samples fc s = take fc (spsc_contents s) @ replicate (fc - spsc_available s) (Fin 0)"

lemma length_frame_samples [simp]: "length (frame_samples fc s) = fc"
  by (simp add: frame_samples_def)

lemma read_channels_effect:
  assumes "devs_wf devs" "distinct cs" "set cs \<subseteq> {..<nch}" "start + nch \<le> 128" "fc * nch \<le> length audio"
    and "read_channels cs start nch fc audio devs u = (audio', devs', u')"
  shows "devs_wf devs' \<and> length audio' = length audio \<and>
    (\<forall>f c. c < nch \<longrightarrow> audio' ! (f * nch + c) =
       (if c \<in> set cs \<and> f < fc then frame_samples fc (devs ! (start + c)) ! f else audio ! (f * nch + c))) \<and>
    (\<forall>d < 128. spsc_contents (devs' ! d) =
       drop (if start \<le> d \<and> d - start \<in> set cs then fc else 0) (spsc_contents (devs ! d)) \<and>
       spsc_capacity (devs' ! d) = spsc_capacity (devs ! d)) \<and>
    (u' \<longleftrightarrow> u \<or> (\<exists>c \<in> set cs. spsc_available (devs ! (start + c)) < fc))"
  using assms
proof (induction cs arbitrary: audio devs u)
  case Nil
  then show ?case by simp
next
  case (Cons c cs)
  let ?d = "start + c"
  have cn: "c < nch" "c \<notin> set cs" "distinct cs" "set cs \<subseteq> {..<nch}" using Cons.prems(2,3) by simp_all
  have d: "?d < 128" "length devs = 128" "spsc_wf (devs ! ?d)"
    using Cons.prems(1,4) cn(1) by (simp_all add: devs_wf_def)
  obtain got ring where r: "spsc_read fc (devs ! ?d) = (got, ring)" by fastforce
  note rs = spsc_read_step [OF d(3) r]
  have buf: "got @ replicate (fc - length got) (Fin 0) = frame_samples fc (devs ! ?d)"
    by (simp add: rs(1) frame_samples_def)
  define devs1 where "devs1 = devs[?d := ring]"
  define audio1 where "audio1 = interleave_channel nch c 0 (frame_samples fc (devs ! ?d)) audio"
  have rest: "read_channels cs start nch fc audio1 devs1 (u \<or> length got < fc) = (audio', devs', u')"
    using Cons.prems(6) r by (simp add: devs1_def audio1_def buf Let_def)
  have d1: "devs1 ! e = (if e = ?d then ring else devs ! e)" if "e < 128" for e
    using that d by (simp add: devs1_def)
  have "length devs1 = 128" using d(2) by (simp add: devs1_def)
  then have wf1: "devs_wf devs1" using Cons.prems(1) d1 rs(2) by (simp add: devs_wf_def)
  have len1: "fc * nch \<le> length audio1" using Cons.prems(5) by (simp add: audio1_def)
  note IH = Cons.IH [OF wf1 cn(3,4) Cons.prems(4) len1 rest]
  have a1: "audio1 ! (f * nch + c') = (if c' = c \<and> f < fc then frame_samples fc (devs ! ?d) ! f
      else audio ! (f * nch + c'))" if "c' < nch" for f c'
    using interleave_nth [OF cn(1) that, of 0 "frame_samples fc (devs ! ?d)" audio f] Cons.prems(5)
    by (simp add: audio1_def)
  have other: "devs1 ! (start + c') = devs ! (start + c')" if "c' \<in> set cs" for c'
  proof -
    have "c' \<noteq> c" using that cn(2) by metis
    then show ?thesis by (simp add: devs1_def)
  qed
  have "length got < fc \<longleftrightarrow> spsc_available (devs ! ?d) < fc" by (auto simp: rs(1))
  then have "u' \<longleftrightarrow> u \<or> (\<exists>c' \<in> set (c # cs). spsc_available (devs ! (start + c')) < fc)"
    using IH other by auto
  moreover have "audio' ! (f * nch + c') = (if c' \<in> set (c # cs) \<and> f < fc
      then frame_samples fc (devs ! (start + c')) ! f else audio ! (f * nch + c'))" if "c' < nch" for f c'
    using IH a1 [OF that, of f] other [of c'] that cn(2) by (cases "c' = c") auto
  moreover have "spsc_contents (devs' ! e) =
      drop (if start \<le> e \<and> e - start \<in> set (c # cs) then fc else 0) (spsc_contents (devs ! e)) \<and>
      spsc_capacity (devs' ! e) = spsc_capacity (devs ! e)" if "e < 128" for e
    using IH d1 [OF that] that rs(3,4) cn(2) by (cases "e = ?d") auto
  ultimately show ?case using IH by (simp add: audio1_def)
qed

section \<open>What a round sends\<close>

definition tx_ready :: "transmitter \<Rightarrow> bool" where
  "tx_ready tx \<longleftrightarrow> 0 < unat (sd_numChannels (tx_sdp tx)) \<and>
     cm_start (tx_mapping tx) + unat (sd_numChannels (tx_sdp tx)) \<le> 128 \<and>
     0 < unat (sd_framecount (tx_sdp tx)) \<and> unat (sd_framecount (tx_sdp tx)) \<le> 512 \<and>
     sd_encoding (tx_sdp tx) \<in> {''L16'', ''L24''} \<and>
     isOpen (tx_socket tx) \<and> \<not> sk_isReceiver (tx_socket tx) \<and>
     length (tx_audioBuffer tx) = 512 * unat (sd_numChannels (tx_sdp tx)) \<and>
     tx_payloadBufferSize tx = 12 + 3 * unat (sd_numChannels (tx_sdp tx)) * 512"

definition tx_frames :: "transmitter \<Rightarrow> nat" where "tx_frames tx = unat (sd_framecount (tx_sdp tx))"

definition tx_channels :: "transmitter \<Rightarrow> nat" where "tx_channels tx = unat (sd_numChannels (tx_sdp tx))"

text \<open>The interleaved samples of the next packet, read off the rings.\<close>

definition tx_samples :: "transmitter \<Rightarrow> device_channels \<Rightarrow> f32 list" where
  "tx_samples tx devs = map (\<lambda>i. frame_samples (tx_frames tx)
     (devs ! (cm_start (tx_mapping tx) + i mod tx_channels tx)) ! (i div tx_channels tx))
     [0..<tx_frames tx * tx_channels tx]"

definition tx_payload :: "transmitter \<Rightarrow> device_channels \<Rightarrow> u8 list" where
  "tx_payload tx devs = (if sd_encoding (tx_sdp tx) = ''L16'' then l16_encode else l24_encode) (tx_samples tx devs)"

definition rings_drained :: "transmitter \<Rightarrow> device_channels \<Rightarrow> device_channels \<Rightarrow> bool" where
  "rings_drained tx devs devs' \<longleftrightarrow> (\<forall>d < 128. spsc_contents (devs' ! d) =
     drop (if cm_start (tx_mapping tx) \<le> d \<and> d < cm_start (tx_mapping tx) + tx_channels tx then tx_frames tx else 0)
       (spsc_contents (devs ! d)))"

lemma readDeviceChannels_effect:
  assumes "tx_ready tx" "devs_wf devs" "readDeviceChannels (tx_frames tx) (tx, devs) = (b, tx', devs')"
  shows "\<exists>audio. tx' = tx\<lparr>tx_audioBuffer := audio\<rparr> \<and> length audio = length (tx_audioBuffer tx) \<and>
    take (tx_frames tx * tx_channels tx) audio = tx_samples tx devs \<and> devs_wf devs' \<and> rings_drained tx devs devs' \<and>
    (b \<longleftrightarrow> (\<forall>c < tx_channels tx. tx_frames tx \<le> spsc_available (devs ! (cm_start (tx_mapping tx) + c))))"
proof -
  let ?n = "tx_channels tx" let ?fc = "tx_frames tx" let ?start = "cm_start (tx_mapping tx)"
  have n: "0 < ?n" "?start + ?n \<le> 128" "?fc \<le> 512" "length (tx_audioBuffer tx) = 512 * ?n"
    using assms(1) by (simp_all add: tx_ready_def tx_channels_def tx_frames_def)
  obtain audio u where r: "read_channels [0..<?n] ?start ?n ?fc (tx_audioBuffer tx) devs False = (audio, devs', u)"
    "tx' = tx\<lparr>tx_audioBuffer := audio\<rparr>" "b \<longleftrightarrow> \<not> u"
    using assms(3) n by (auto simp: readDeviceChannels_def tx_channels_def Let_def split: prod.splits)
  have fit: "?fc * ?n \<le> length (tx_audioBuffer tx)" using n by simp
  have sub: "set [0..<?n] \<subseteq> {..<?n}" by auto
  note e = read_channels_effect [OF assms(2) distinct_upt sub n(2) fit r(1)]
  have len: "length audio = length (tx_audioBuffer tx)" using e by auto
  have nth: "audio ! i = frame_samples ?fc (devs ! (?start + i mod ?n)) ! (i div ?n)" if "i < ?fc * ?n" for i
  proof -
    have f: "i div ?n < ?fc" using that by (simp add: less_mult_imp_div_less)
    have c: "i mod ?n < ?n" using n(1) by simp
    from e [THEN conjunct2, THEN conjunct2, THEN conjunct1, rule_format, OF c, of "i div ?n"] f c
    show ?thesis by simp
  qed
  have "take (?fc * ?n) audio = tx_samples tx devs"
    using len fit nth by (intro nth_equalityI) (simp_all add: tx_samples_def)
  moreover have "rings_drained tx devs devs'" using e by (auto simp: rings_drained_def less_diff_conv2)
  moreover have "\<not> u \<longleftrightarrow> (\<forall>c < ?n. ?fc \<le> spsc_available (devs ! (?start + c)))" using e by (auto simp: not_less)
  ultimately show ?thesis using r e len by auto
qed

lemma length_tx_samples [simp]: "length (tx_samples tx devs) = tx_frames tx * tx_channels tx"
  by (simp add: tx_samples_def)

lemma length_l16_encode [simp]: "length (l16_encode xs) = 2 * length xs"
  by (induction xs) (simp_all add: l16_encode_def l16_bytes_def)

lemma length_l24_encode [simp]: "length (l24_encode xs) = 3 * length xs"
  by (induction xs) (simp_all add: l24_encode_def l24_bytes_def)

text \<open>Configuration, which no round changes.\<close>

definition tx_config :: "transmitter \<Rightarrow> sdp_session \<times> channel_mapping \<times> rtp_socket \<times> u32 \<times> nat \<times> nat" where
  "tx_config tx = (tx_sdp tx, tx_mapping tx, tx_socket tx, tx_ssrc tx, length (tx_audioBuffer tx),
     tx_payloadBufferSize tx)"

lemma tx_config_ready: "tx_config tx' = tx_config tx \<Longrightarrow> tx_ready tx' = tx_ready tx"
  by (simp add: tx_config_def tx_ready_def)

definition tx_datagram :: "transmitter \<Rightarrow> device_channels \<Rightarrow> u8 list" where
  "tx_datagram tx devs =
     header_memory (toNetworkOrder (rp_header (tx_packet (tx_payload tx devs) (tx_timestamp tx) tx))) @ tx_payload tx devs"

lemma tx_round_effect:
  assumes "tx_ready tx" "devs_wf devs"
  shows "\<exists>tx' devs'. tx_round sent (tx, devs) = Some (tx', devs', if sent then Some (tx_datagram tx devs) else None) \<and>
    tx_config tx' = tx_config tx \<and> devs_wf devs' \<and> rings_drained tx devs devs' \<and>
    tx_sequenceNumber tx' = tx_sequenceNumber tx + 1 \<and>
    tx_timestamp tx' = tx_timestamp tx + of_nat (tx_frames tx) \<and>
    st_bytesSent (tx_stats tx') = st_bytesSent (tx_stats tx) + of_nat (length (tx_payload tx devs)) \<and>
    st_malformedPackets (tx_stats tx') = st_malformedPackets (tx_stats tx) + (if sent then 0 else 1)"
proof -
  let ?fc = "tx_frames tx" let ?n = "tx_channels tx"
  obtain b tx1 devs' where r: "readDeviceChannels ?fc (tx, devs) = (b, tx1, devs')"
    by (cases "readDeviceChannels ?fc (tx, devs)")
  from readDeviceChannels_effect [OF assms r] obtain audio where a:
    "tx1 = tx\<lparr>tx_audioBuffer := audio\<rparr>" "length audio = length (tx_audioBuffer tx)"
    "take (?fc * ?n) audio = tx_samples tx devs" "devs_wf devs'" "rings_drained tx devs devs'" by blast
  have c: "0 < ?n" "0 < ?fc" "?fc \<le> 512" "length (tx_audioBuffer tx) = 512 * ?n"
    "tx_payloadBufferSize tx = 12 + 3 * ?n * 512" "isOpen (tx_socket tx)" "\<not> sk_isReceiver (tx_socket tx)"
    using assms(1) by (simp_all add: tx_ready_def tx_frames_def tx_channels_def)
  have fit: "?fc * ?n \<le> 512 * ?n" using c(3) by simp
  have fit16: "?fc * ?n * 2 \<le> 12 + 3 * ?n * 512" and fit24: "?fc * ?n * 3 \<le> 12 + 3 * ?n * 512"
    using fit by linarith+
  have ne: "tx_payload tx devs \<noteq> []"
    using c(1,2) by (simp add: tx_payload_def flip: length_greater_0_conv)
  have enc: "sd_encoding (tx_sdp tx) = ''L16'' \<Longrightarrow> tx_encodeL16 ?fc tx1 = Some (tx_payload tx devs)"
    "sd_encoding (tx_sdp tx) \<noteq> ''L16'' \<Longrightarrow> tx_encodeL24 ?fc tx1 = Some (tx_payload tx devs)"
    using a(2,3) c(3,4,5) fit fit16 fit24
    by (simp_all add: not_less tx_encodeL16_def tx_encodeL24_def tx_payload_def a(1) tx_channels_def Let_def)
  have sk: "sk_fd (tx_socket tx) \<ge> 0" using c(6) by (simp add: isOpen_def)
  define tx2 where "tx2 = (if sent then tx1\<lparr>tx_sequenceNumber := tx_sequenceNumber tx + 1\<rparr>
      else tx1\<lparr>tx_sequenceNumber := tx_sequenceNumber tx + 1, tx_stats := (tx_stats tx)\<lparr>st_malformedPackets :=
        st_malformedPackets (tx_stats tx) + 1\<rparr>\<rparr>)"
  have send: "sendPacket sent (tx_payload tx devs) (tx_timestamp tx1) tx1 =
     (tx2, if sent then Some (tx_datagram tx devs) else None)"
    using c(6,7) ne sk by (simp add: tx2_def sendPacket_def socket_send_def Let_def a(1) tx_datagram_def tx_packet_def)
  have e: "sd_encoding (tx_sdp tx) = ''L16'' \<or> sd_encoding (tx_sdp tx) = ''L24''"
    using assms(1) by (simp add: tx_ready_def)
  define finish where "finish payload = (let (tx2, datagram) = sendPacket sent payload (tx_timestamp tx1) tx1
      in (tx2\<lparr>tx_timestamp := tx_timestamp tx2 + of_nat ?fc,
            tx_stats := (tx_stats tx2)\<lparr>st_bytesSent := st_bytesSent (tx_stats tx2) + of_nat (length payload)\<rparr>\<rparr>,
          devs', datagram))" for payload
  have "tx_round sent (tx, devs) = Some (finish (tx_payload tx devs))"
  proof -
    have r': "readDeviceChannels (unat (sd_framecount (tx_sdp tx))) (tx, devs) = (b, tx1, devs')"
      using r by (simp add: tx_frames_def)
    have "tx_sdp tx1 = tx_sdp tx" by (simp add: a(1))
    then show ?thesis
      using e enc unfolding tx_round_def Let_def fst_conv r' prod.case finish_def
      by (auto simp: tx_frames_def)
  qed
  moreover have "tx_config tx2 = tx_config tx \<and> tx_sequenceNumber tx2 = tx_sequenceNumber tx + 1 \<and>
      tx_timestamp tx2 = tx_timestamp tx \<and> st_bytesSent (tx_stats tx2) = st_bytesSent (tx_stats tx) \<and>
      st_malformedPackets (tx_stats tx2) = st_malformedPackets (tx_stats tx) + (if sent then 0 else 1)"
    using a(2) by (simp add: tx2_def a(1) tx_config_def)
  ultimately show ?thesis
    using a(4,5) unfolding finish_def send by (simp add: tx_config_def)
qed

section \<open>The stream\<close>

definition block :: "nat \<Rightarrow> nat \<Rightarrow> f32 list \<Rightarrow> f32 list" where
  "block fc i xs = take fc (drop (i * fc) xs) @ replicate (fc - (length xs - i * fc)) (Fin 0)"

text \<open>The samples of the packet that round \<open>i\<close> sends, read off the rings before round 0.\<close>

definition tx_block :: "transmitter \<Rightarrow> device_channels \<Rightarrow> nat \<Rightarrow> f32 list" where
  "tx_block tx devs i = map (\<lambda>j. block (tx_frames tx) i
     (spsc_contents (devs ! (cm_start (tx_mapping tx) + j mod tx_channels tx))) ! (j div tx_channels tx))
     [0..<tx_frames tx * tx_channels tx]"

lemma tx_block_0: "tx_block tx devs 0 = tx_samples tx devs"
  by (simp add: tx_block_def tx_samples_def block_def frame_samples_def)

lemma block_drop: "block fc i (drop fc xs) = block fc (Suc i) xs"
  by (simp add: block_def add.commute)

lemma tx_block_Suc:
  assumes "tx_ready tx" "rings_drained tx devs devs'"
  shows "tx_block tx devs' i = tx_block tx devs (Suc i)"
  unfolding tx_block_def
proof (rule map_cong [OF refl])
  fix j assume "j \<in> set [0..<tx_frames tx * tx_channels tx]"
  have n: "j mod tx_channels tx < tx_channels tx" "cm_start (tx_mapping tx) + tx_channels tx \<le> 128"
    using assms(1) by (simp_all add: tx_ready_def tx_channels_def)
  let ?d = "cm_start (tx_mapping tx) + j mod tx_channels tx"
  have "spsc_contents (devs' ! ?d) = drop (tx_frames tx) (spsc_contents (devs ! ?d))"
    using assms(2) n by (simp add: rings_drained_def)
  then show "block (tx_frames tx) i (spsc_contents (devs' ! ?d)) ! (j div tx_channels tx) =
      block (tx_frames tx) (Suc i) (spsc_contents (devs ! ?d)) ! (j div tx_channels tx)"
    by (simp only: block_drop)
qed

definition tx_encode :: "transmitter \<Rightarrow> f32 list \<Rightarrow> u8 list" where
  "tx_encode tx = (if sd_encoding (tx_sdp tx) = ''L16'' then l16_encode else l24_encode)"

text \<open>The datagram of round \<open>i\<close>.\<close>

definition tx_nth_datagram :: "transmitter \<Rightarrow> device_channels \<Rightarrow> nat \<Rightarrow> u8 list" where
  "tx_nth_datagram tx devs i =
     header_memory (toNetworkOrder (rp_header (tx_packet [] (tx_timestamp tx + of_nat (i * tx_frames tx))
       (tx\<lparr>tx_sequenceNumber := tx_sequenceNumber tx + of_nat i\<rparr>)))) @ tx_encode tx (tx_block tx devs i)"

lemma tx_nth_datagram_0: "tx_nth_datagram tx devs 0 = tx_datagram tx devs"
  by (simp add: tx_nth_datagram_def tx_datagram_def tx_packet_def tx_encode_def tx_payload_def tx_block_0)

lemma tx_nth_datagram_Suc:
  assumes "tx_ready tx" "rings_drained tx devs devs'" "tx_config tx' = tx_config tx"
    and "tx_sequenceNumber tx' = tx_sequenceNumber tx + 1" "tx_timestamp tx' = tx_timestamp tx + of_nat (tx_frames tx)"
  shows "tx_nth_datagram tx' devs' i = tx_nth_datagram tx devs (Suc i)"
proof -
  have c: "tx_sdp tx' = tx_sdp tx" "tx_mapping tx' = tx_mapping tx" "tx_ssrc tx' = tx_ssrc tx"
    using assms(3) by (simp_all add: tx_config_def)
  have "tx_block tx' devs' i = tx_block tx devs' i" by (simp add: tx_block_def tx_frames_def tx_channels_def c)
  then show ?thesis
    using tx_block_Suc [OF assms(1,2), of i] assms(4,5)
    by (simp add: tx_nth_datagram_def tx_packet_def tx_encode_def tx_frames_def c algebra_simps)
qed

lemma tx_rounds_effect:
  assumes "tx_ready tx" "devs_wf devs"
  shows "\<exists>tx' devs'. tx_rounds ss (tx, devs) = Some (tx', devs',
      map (\<lambda>i. if ss ! i then Some (tx_nth_datagram tx devs i) else None) [0..<length ss]) \<and>
    tx_config tx' = tx_config tx \<and> tx_sequenceNumber tx' = tx_sequenceNumber tx + of_nat (length ss) \<and>
    tx_timestamp tx' = tx_timestamp tx + of_nat (length ss * tx_frames tx)"
  using assms
proof (induction ss arbitrary: tx devs)
  case Nil
  then show ?case by simp
next
  case (Cons sent ss)
  from tx_round_effect [OF Cons.prems, of sent] obtain tx1 devs1 where one:
    "tx_round sent (tx, devs) = Some (tx1, devs1, if sent then Some (tx_datagram tx devs) else None)"
    "tx_config tx1 = tx_config tx" "devs_wf devs1" "rings_drained tx devs devs1"
    "tx_sequenceNumber tx1 = tx_sequenceNumber tx + 1"
    "tx_timestamp tx1 = tx_timestamp tx + of_nat (tx_frames tx)" by blast
  have fr: "tx_frames tx1 = tx_frames tx" using one(2) by (simp add: tx_config_def tx_frames_def)
  have rd: "tx_ready tx1" using Cons.prems(1) tx_config_ready [OF one(2)] by simp
  from Cons.IH [OF rd one(3)] obtain tx2 devs2 where rest:
    "tx_rounds ss (tx1, devs1) = Some (tx2, devs2,
      map (\<lambda>i. if ss ! i then Some (tx_nth_datagram tx1 devs1 i) else None) [0..<length ss])"
    "tx_config tx2 = tx_config tx1" "tx_sequenceNumber tx2 = tx_sequenceNumber tx1 + of_nat (length ss)"
    "tx_timestamp tx2 = tx_timestamp tx1 + of_nat (length ss * tx_frames tx1)" by blast
  have l: "[0..<length (sent # ss)] = 0 # map Suc [0..<length ss]"
    unfolding map_Suc_upt list.size(4) by (simp add: upt_conv_Cons [symmetric] upt_rec)
  have "map (\<lambda>i. if (sent # ss) ! i then Some (tx_nth_datagram tx devs i) else None) [0..<length (sent # ss)] =
      (if sent then Some (tx_datagram tx devs) else None) #
      map (\<lambda>i. if ss ! i then Some (tx_nth_datagram tx1 devs1 i) else None) [0..<length ss]"
    unfolding l using tx_nth_datagram_Suc [OF Cons.prems(1) one(4,2,5,6)]
    by (simp add: tx_nth_datagram_0 comp_def)
  then show ?case
    using one(1,2,5,6) rest fr by (simp add: algebra_simps del: upt_Suc)
qed

text \<open>
  C9. The transmitted stream. A started transmitter with 1 to 512 frames per packet emits one
  packet every round, whatever the rings hold: packet \<open>i\<close> has sequence number \<open>s + i\<close> and
  timestamp \<open>t + i * framecount\<close> (both wrap) and carries the \<open>i\<close>-th block of frames of the mapped
  device rings, interleaved and encoded, with silence where a ring has run dry. A failed send
  loses that packet only: numbers, timestamps and samples move on.
\<close>

theorem tx_stream:
  assumes "tx_ready tx" "devs_wf devs"
  shows "\<exists>tx' devs'. tx_rounds ss (tx, devs) = Some (tx', devs',
      map (\<lambda>i. if ss ! i then Some (tx_nth_datagram tx devs i) else None) [0..<length ss]) \<and>
    tx_config tx' = tx_config tx \<and> tx_sequenceNumber tx' = tx_sequenceNumber tx + of_nat (length ss) \<and>
    tx_timestamp tx' = tx_timestamp tx + of_nat (length ss * tx_frames tx)"
  using assms by (rule tx_rounds_effect)

section \<open>Properties\<close>

definition example_transmitter :: "string \<Rightarrow> u32 \<Rightarrow> transmitter" where
  "example_transmitter enc frames = (tx_new 77 (sdp_default\<lparr>sd_encoding := enc, sd_framecount := frames\<rparr>)
     \<lparr>cm_streamID = null_id, cm_streamName = ''Out'', cm_streamChannelCount = 2, cm_streamChannelOffset = 0,
      cm_deviceChannelStart = 126, cm_deviceChannelCount = 2, cm_channelMap = []\<rparr> [])
     \<lparr>tx_socket := socket_new\<lparr>sk_fd := 5\<rparr>, tx_sequenceNumber := 0xFFFF\<rparr>"

lemma example_tx_ready: "enc \<in> {''L16'', ''L24''} \<Longrightarrow> 0 < frames \<Longrightarrow> frames \<le> 512 \<Longrightarrow> tx_ready (example_transmitter enc frames)"
  by (auto simp: tx_ready_def example_transmitter_def tx_new_def sdp_default_def socket_new_def isOpen_def
      cm_start_def word_less_nat_alt word_le_nat_alt)

definition silent_devs :: device_channels where
  "silent_devs = replicate 128 (spsc_new (Fin 0) 480)"

lemma silent_devs_wf: "devs_wf silent_devs"
  by (simp add: devs_wf_def silent_devs_def spsc_new_wf)

lemma tx_stream_witness:
  "\<exists>tx' devs' d. tx_rounds [False, True] (example_transmitter ''L16'' 48, silent_devs) = Some (tx', devs', [None, Some d]) \<and>
     tx_sequenceNumber tx' = 1 \<and> tx_timestamp tx' = 96"
proof -
  have z: "(65537 :: u16) = 1" by (simp add: word_unat_eq_iff)
  have r: "tx_ready (example_transmitter ''L16'' 48)" by (rule example_tx_ready) simp_all
  have s: "tx_sequenceNumber (example_transmitter ''L16'' 48) = 0xFFFF" "tx_timestamp (example_transmitter ''L16'' 48) = 0"
    "tx_frames (example_transmitter ''L16'' 48) = 48"
    by (simp_all add: example_transmitter_def tx_new_def tx_frames_def)
  from tx_stream [OF r silent_devs_wf, of "[False, True]"] show ?thesis
    by (auto simp: s upt_conv_Cons z)
qed

text \<open>
  A packet length the vectors do not hold. start() does not check framecount, and for more
  than 512 frames readDeviceChannels refuses while the encoder still runs over framecount times
  numChannels samples: the round reads past the end of the audio vector.
\<close>

theorem tx_framecount_overrun:
  assumes "512 < tx_frames tx" "0 < tx_channels tx" "sd_encoding (tx_sdp tx) \<in> {''L16'', ''L24''}"
    and "length (tx_audioBuffer tx) = 512 * tx_channels tx"
  shows "tx_round sent (tx, devs) = None \<and>
    (sd_connectionAddress (tx_sdp tx) \<noteq> [] \<and> sd_port (tx_sdp tx) \<noteq> 0 \<and> tx_channels tx \<le> 128 \<and>
     \<not> tx_running tx \<and> \<not> isOpen (tx_socket tx) \<and>
     fst (openTransmitter r (sd_connectionAddress (tx_sdp tx)) (sd_port (tx_sdp tx))
       (if tx_networkInterface tx = [] then None else Some (tx_networkInterface tx)) (tx_socket tx, k)) \<longrightarrow>
     fst (tx_start r (tx, k)))"
proof
  have "512 * tx_channels tx < tx_frames tx * tx_channels tx" using assms(1,2) by (rule mult_less_mono1)
  moreover have "readDeviceChannels (tx_frames tx) (tx, devs) = (False, tx, devs)"
    using assms(1) by (simp add: readDeviceChannels_def Let_def)
  ultimately show "tx_round sent (tx, devs) = None"
    using assms(3,4) by (auto simp: tx_round_def tx_encodeL16_def tx_encodeL24_def Let_def tx_frames_def tx_channels_def)
  show "sd_connectionAddress (tx_sdp tx) \<noteq> [] \<and> sd_port (tx_sdp tx) \<noteq> 0 \<and> tx_channels tx \<le> 128 \<and>
     \<not> tx_running tx \<and> \<not> isOpen (tx_socket tx) \<and>
     fst (openTransmitter r (sd_connectionAddress (tx_sdp tx)) (sd_port (tx_sdp tx))
       (if tx_networkInterface tx = [] then None else Some (tx_networkInterface tx)) (tx_socket tx, k)) \<longrightarrow>
     fst (tx_start r (tx, k))"
    using assms(2) by (auto simp: tx_start_def tx_channels_def Let_def word_less_nat_alt split: prod.splits)
qed

lemma tx_framecount_overrun_witness:
  "tx_round True (example_transmitter ''L24'' 960, silent_devs) = None"
  by (rule tx_framecount_overrun [THEN conjunct1])
    (simp_all add: example_transmitter_def tx_new_def tx_frames_def tx_channels_def sdp_default_def)

end
