(* ===== verification/Audio_Path.thy ===== *)
theory Audio_Path
  imports Rtp_Playout Rtp_Transmitter "HOL-Library.Multiset"
begin

text \<open>
  The transmitter and the receiver composed: from the rings of the sending device over the wire
  and the jitter buffer to the rings of the receiving device.
\<close>

section \<open>One packet\<close>





section \<open>A sequence of packets\<close>





section \<open>From one ring to the other\<close>



lemma length_tx_block [simp]: "length (tx_block tx devs i) = tx_frames tx * tx_channels tx"
  by (simp add: tx_block_def)













end
