(* ===== verification/Io_Handler.thy ===== *)
theory Io_Handler
  imports Rtp_Transmitter
begin

text \<open>
  \<open>Driver/AES67IOHandler.cpp\<close> and \<open>NetworkEngine/RTSafeStreamInterface.h\<close>: the callbacks of
  the audio thread. Input moves from the rings the receivers fill to the client's interleaved
  buffer, output from the client's frames to the rings the transmitters drain. A sample buffer
  is a list of floats; a null pointer is \<open>None\<close>.
\<close>

section \<open>The interface shared with the network side\<close>

record io_interface =
  io_inputBuffers :: device_channels
  io_outputBuffers :: device_channels
  io_inputUnderruns :: u64
  io_outputUnderruns :: u64
  io_ioRunning :: bool

definition recordInputUnderrun :: "io_interface \<Rightarrow> io_interface" where
  "recordInputUnderrun io = io\<lparr>io_inputUnderruns := io_inputUnderruns io + 1\<rparr>"

definition recordOutputOverrun :: "io_interface \<Rightarrow> io_interface" where
  "recordOutputOverrun io = io\<lparr>io_outputUnderruns := io_outputUnderruns io + 1\<rparr>"

section \<open>The handler\<close>

record io_handler =
  ih_channelCount :: u32
  ih_bytesPerSample :: u32
  ih_bytesPerFrame :: u32

definition io_handler_new :: "u32 \<Rightarrow> u32 \<Rightarrow> io_handler" where
  "io_handler_new channelCount bytesPerSample = \<lparr>ih_channelCount = channelCount,
     ih_bytesPerSample = bytesPerSample, ih_bytesPerFrame = channelCount * bytesPerSample\<rparr>"

text \<open>\<open>memset\<close> with 0 of the first \<open>n\<close> floats.\<close>

definition zero_floats :: "nat \<Rightarrow> f32 list \<Rightarrow> f32 list" where
  "zero_floats n out = replicate (min n (length out)) (Fin 0) @ drop n out"

definition processInput :: "f32 list \<Rightarrow> u32 \<Rightarrow> u32 \<Rightarrow> io_interface \<Rightarrow> f32 list \<times> io_interface" where
  "processInput outputData frameCount channelCount io =
     (if frameCount > 4096 then (zero_floats (unat (frameCount * channelCount)) outputData, io)
      else
        let (out, rings, hadUnderrun) =
              read_channels [0..<unat channelCount] 0 (unat channelCount) (unat frameCount) outputData
                (io_inputBuffers io) False;
            io1 = io\<lparr>io_inputBuffers := rings\<rparr>
        in (out, if hadUnderrun then recordInputUnderrun io1 else io1))"

definition processOutput :: "f32 list \<Rightarrow> u32 \<Rightarrow> u32 \<Rightarrow> io_interface \<Rightarrow> io_interface" where
  "processOutput inputData frameCount channelCount io =
     (if frameCount > 4096 then io
      else
        let (rings, hadOverrun) =
              map_channels [0..<unat channelCount] 0 (unat channelCount) inputData (unat frameCount)
                (io_outputBuffers io) False;
            io1 = io\<lparr>io_outputBuffers := rings\<rparr>
        in if hadOverrun then recordOutputOverrun io1 else io1)"

definition OnReadClientInput ::
    "io_handler \<Rightarrow> f32 list option \<Rightarrow> u32 \<Rightarrow> io_interface \<Rightarrow> f32 list option \<times> io_interface" where
  "OnReadClientInput h bytes bytesCount io =
     (case bytes of None \<Rightarrow> (None, io)
      | Some out \<Rightarrow>
          let frameCount = (if ih_bytesPerFrame h > 0 then bytesCount div ih_bytesPerFrame h else 0)
          in if frameCount = 0 \<or> ih_channelCount h \<noteq> 128
             then (Some (zero_floats (unat bytesCount div 4) out), io)
             else let (out', io') = processInput out frameCount (ih_channelCount h) io in (Some out', io'))"

definition OnWriteClientOutput ::
    "f32 list option \<Rightarrow> u32 \<Rightarrow> u32 \<Rightarrow> io_interface \<Rightarrow> io_interface" where
  "OnWriteClientOutput frames frameCount channelCount io =
     (case frames of None \<Rightarrow> io
      | Some xs \<Rightarrow> if channelCount \<noteq> 128 then io else processOutput xs frameCount channelCount io)"

section \<open>Reading\<close>

lemma unat_128 [simp]: "unat (128 :: u32) = 128" and unat_512 [simp]: "unat (512 :: u32) = 512"
  by simp_all

lemma length_zero_floats [simp]: "length (zero_floats n out) = length out"
  by (simp add: zero_floats_def)

lemma zero_floats_all: "length out \<le> n \<Longrightarrow> zero_floats n out = replicate (length out) (Fin 0)"
  by (simp add: zero_floats_def)

lemma word_le_4096: "\<not> frameCount > (4096 :: u32) \<longleftrightarrow> unat frameCount \<le> 4096"
  by (simp add: not_less word_le_nat_alt)

lemma processInput_effect:
  assumes "devs_wf (io_inputBuffers io)" "unat frameCount \<le> 4096" "unat frameCount * 128 \<le> length out"
    and "processInput out frameCount 128 io = (out', io')"
  shows "length out' = length out \<and>
    (\<forall>c < 128. \<forall>f. out' ! (f * 128 + c) =
       (if f < unat frameCount then frame_samples (unat frameCount) (io_inputBuffers io ! c) ! f
        else out ! (f * 128 + c))) \<and>
    devs_wf (io_inputBuffers io') \<and>
    (\<forall>c < 128. spsc_contents (io_inputBuffers io' ! c) = drop (unat frameCount) (spsc_contents (io_inputBuffers io ! c)) \<and>
       spsc_capacity (io_inputBuffers io' ! c) = spsc_capacity (io_inputBuffers io ! c)) \<and>
    io_inputUnderruns io' = io_inputUnderruns io +
      (if \<exists>c < 128. spsc_available (io_inputBuffers io ! c) < unat frameCount then 1 else 0) \<and>
    io_outputBuffers io' = io_outputBuffers io \<and> io_outputUnderruns io' = io_outputUnderruns io"
proof -
  obtain audio rings u where r: "read_channels [0..<128] 0 128 (unat frameCount) out (io_inputBuffers io) False =
      (audio, rings, u)" by (metis prod_cases3)
  have e: "out' = audio" "io' = (if u then recordInputUnderrun (io\<lparr>io_inputBuffers := rings\<rparr>)
      else io\<lparr>io_inputBuffers := rings\<rparr>)"
    using assms(4) r word_le_4096 [of frameCount] assms(2) by (simp_all add: processInput_def Let_def)
  have sub: "set [0..<128 :: nat] \<subseteq> {..<128}" by auto
  note fx = read_channels_effect [OF assms(1) distinct_upt sub _ assms(3) r, simplified]
  have "u \<longleftrightarrow> (\<exists>c < 128. spsc_available (io_inputBuffers io ! c) < unat frameCount)"
    using fx by auto
  with fx show ?thesis by (auto simp: e recordInputUnderrun_def)
qed

text \<open>
  C20. The audio thread reads a buffer of up to 4096 frames: every frame of every one of the 128
  channels gets the next sample of its ring, or silence where the ring has run dry; each ring is
  drained by that many samples, and one underrun is counted if any ring was short. A request of
  another channel count, of no whole frame or of more than 4096 frames gets silence and leaves the
  rings alone.
\<close>

theorem io_read_client:
  assumes "devs_wf (io_inputBuffers io)" "length out * 4 = unat bytesCount"
    and "OnReadClientInput (io_handler_new channels 4) (Some out) bytesCount io = (res, io')"
  shows "(if channels \<noteq> 128 \<or> length out < 128 \<or> 4096 < length out div 128
     then res = Some (zero_floats (if channels = 128 \<and> 4096 < length out div 128
            then length out div 128 * 128 else length out) out) \<and> io' = io
     else \<exists>out'. res = Some out' \<and> length out' = length out \<and>
       (\<forall>c < 128. \<forall>f < length out div 128.
          out' ! (f * 128 + c) = frame_samples (length out div 128) (io_inputBuffers io ! c) ! f) \<and>
       (\<forall>c < 128. spsc_contents (io_inputBuffers io' ! c) =
          drop (length out div 128) (spsc_contents (io_inputBuffers io ! c))) \<and>
       devs_wf (io_inputBuffers io') \<and> io_outputBuffers io' = io_outputBuffers io \<and>
       io_inputUnderruns io' = io_inputUnderruns io +
         (if \<exists>c < 128. spsc_available (io_inputBuffers io ! c) < length out div 128 then 1 else 0))"
proof (cases "channels = 128")
  case False
  have "unat bytesCount div 4 = length out" using assms(2) by simp
  with False assms(3) show ?thesis by (simp add: OnReadClientInput_def io_handler_new_def Let_def split: if_splits)
next
  case ch: True
  let ?fc = "bytesCount div 512" let ?n = "length out div 128"
  have fc: "unat ?fc = ?n" using assms(2) by (simp add: unat_div)
  have pos: "0 < (512 :: u32)" by (simp add: word_less_nat_alt)
  have zero: "?fc = 0 \<longleftrightarrow> length out < 128" using fc by (simp add: unat_eq_0 [symmetric] div_eq_0_iff)
  have big: "?fc > 4096 \<longleftrightarrow> 4096 < ?n" using fc by (simp add: word_less_nat_alt)
  have prod: "unat (?fc * 128) = ?n * 128"
  proof -
    have "?n * 128 \<le> length out" by simp
    also have "\<dots> \<le> unat bytesCount" using assms(2) by simp
    also have "\<dots> < 2 ^ LENGTH(32)" by (rule unsigned_less)
    finally have "?n * 128 < 2 ^ LENGTH(32)" .
    then show ?thesis unfolding unat_word_ariths(2) fc unat_128 by (rule mod_less)
  qed
  have run: "(res, io') = (if ?fc = 0 then (Some (zero_floats (length out) out), io)
      else let (out', io') = processInput out ?fc 128 io in (Some out', io'))"
    using assms(3) pos unfolding ch OnReadClientInput_def io_handler_new_def
    by (simp add: Let_def assms(2) [symmetric] split: if_splits)
  consider "length out < 128" | "128 \<le> length out" "4096 < ?n" | "128 \<le> length out" "?n \<le> 4096" by linarith
  then show ?thesis
  proof cases
    case 1
    then have "?n = 0" by simp
    with 1 run ch zero show ?thesis by simp
  next
    case 2
    then show ?thesis using run ch zero big prod by (simp add: processInput_def not_less)
  next
    case 3
    obtain out' io1 where p: "processInput out ?fc 128 io = (out', io1)" by fastforce
    have fit: "unat ?fc * 128 \<le> length out" unfolding fc by simp
    have le: "unat ?fc \<le> 4096" using 3 fc by simp
    have eqs: "res = Some out'" "io' = io1" using run p 3 zero by (simp_all add: not_less split: if_splits)
    show ?thesis using processInput_effect [OF assms(1) le fit p] 3 ch unfolding fc eqs by auto
  qed
qed

section \<open>Writing\<close>

lemma processOutput_effect:
  assumes "devs_wf (io_outputBuffers io)" "unat frameCount \<le> 4096"
  shows "devs_wf (io_outputBuffers (processOutput xs frameCount 128 io)) \<and>
    (\<forall>c < 128. spsc_contents (io_outputBuffers (processOutput xs frameCount 128 io) ! c) =
       spsc_contents (io_outputBuffers io ! c) @
       take (ring_room (io_outputBuffers io ! c)) (channel_samples xs 128 (unat frameCount) c)) \<and>
    io_inputBuffers (processOutput xs frameCount 128 io) = io_inputBuffers io \<and>
    io_outputUnderruns (processOutput xs frameCount 128 io) = io_outputUnderruns io +
      (if \<exists>c < 128. ring_room (io_outputBuffers io ! c) < unat frameCount then 1 else 0)"
proof -
  obtain rings short where r: "map_channels [0..<128] 0 128 xs (unat frameCount) (io_outputBuffers io) False =
      (rings, short)" by fastforce
  have "\<forall>c \<in> set [0..<128]. 0 + c < 128" by simp
  note fx = map_channels_effect [OF assms(1) distinct_upt this r, simplified]
  have s: "short \<longleftrightarrow> (\<exists>c < 128. ring_room (io_outputBuffers io ! c) < unat frameCount)" using fx by auto
  have p: "processOutput xs frameCount 128 io = (if short then recordOutputOverrun (io\<lparr>io_outputBuffers := rings\<rparr>)
      else io\<lparr>io_outputBuffers := rings\<rparr>)"
    using r word_le_4096 [of frameCount] assms(2) by (simp add: processOutput_def)
  show ?thesis unfolding p s [symmetric] using fx by (auto simp: recordOutputOverrun_def ring_gets_def)
qed

text \<open>
  The audio thread hands over up to 4096 frames of 128 channels: every ring is appended the
  samples of its channel, as many as it has room for, and one overrun is counted if any ring was
  short. Frames of another channel count are dropped, and so is a larger buffer, without a trace
  in the counters.
\<close>

theorem io_write_client:
  assumes "devs_wf (io_outputBuffers io)"
  shows "(if channels \<noteq> 128 \<or> 4096 < unat frameCount
     then OnWriteClientOutput (Some xs) frameCount channels io = io
     else devs_wf (io_outputBuffers (OnWriteClientOutput (Some xs) frameCount channels io)) \<and>
       (\<forall>c < 128. spsc_contents (io_outputBuffers (OnWriteClientOutput (Some xs) frameCount channels io) ! c) =
          spsc_contents (io_outputBuffers io ! c) @
          take (ring_room (io_outputBuffers io ! c)) (channel_samples xs 128 (unat frameCount) c)) \<and>
       io_outputUnderruns (OnWriteClientOutput (Some xs) frameCount channels io) = io_outputUnderruns io +
         (if \<exists>c < 128. ring_room (io_outputBuffers io ! c) < unat frameCount then 1 else 0))"
proof (cases "channels \<noteq> 128 \<or> 4096 < unat frameCount")
  case True
  then have "channels = 128 \<Longrightarrow> frameCount > 4096" by (simp add: word_less_nat_alt)
  then have "OnWriteClientOutput (Some xs) frameCount channels io = io"
    by (cases "channels = 128") (simp_all add: OnWriteClientOutput_def processOutput_def)
  with True show ?thesis by simp
next
  case False
  then have "OnWriteClientOutput (Some xs) frameCount channels io = processOutput xs frameCount 128 io"
    "unat frameCount \<le> 4096" by (simp_all add: OnWriteClientOutput_def)
  then show ?thesis using processOutput_effect [OF assms, of frameCount xs] False by simp
qed

definition quiet_io :: io_interface where
  "quiet_io = \<lparr>io_inputBuffers = silent_devs, io_outputBuffers = silent_devs, io_inputUnderruns = 0,
     io_outputUnderruns = 0, io_ioRunning = True\<rparr>"

lemma silent_ring:
  assumes "c < 128"
  shows "spsc_contents (silent_devs ! c) = []" "ring_room (silent_devs ! c) = 480" "spsc_available (silent_devs ! c) = 0"
proof -
  have d: "silent_devs ! c = spsc_new (Fin 0) 480" using assms by (simp add: silent_devs_def)
  show "spsc_contents (silent_devs ! c) = []" unfolding d by (rule spsc_new_contents)
  then show "spsc_available (silent_devs ! c) = 0" using length_spsc_contents [of "silent_devs ! c"] by simp
  then show "ring_room (silent_devs ! c) = 480" by (simp add: ring_room_def d) (simp add: spsc_new_def spsc_capacity_def)
qed

lemma io_read_client_witness:
  "\<exists>out io'. OnReadClientInput (io_handler_new 128 4) (Some (replicate 256 (Fin 1))) 1024 quiet_io = (Some out, io') \<and>
     out ! 131 = Fin 0 \<and> io_inputUnderruns io' = 1"
proof -
  obtain res io' where r: "OnReadClientInput (io_handler_new 128 4) (Some (replicate 256 (Fin 1))) 1024 quiet_io = (res, io')"
    by fastforce
  have wf: "devs_wf (io_inputBuffers quiet_io)" using silent_devs_wf by (simp add: quiet_io_def)
  have short: "\<exists>c < 128. spsc_available (silent_devs ! c) < 2" by (rule exI [of _ 0]) (simp add: silent_ring)
  have "\<exists>out. res = Some out \<and> (\<forall>c < 128. \<forall>f < 2. out ! (f * 128 + c) = frame_samples 2 (silent_devs ! c) ! f) \<and>
      io_inputUnderruns io' = 1"
    using io_read_client [OF wf _ r] short by (simp add: quiet_io_def) metis
  then obtain out where out: "res = Some out" "io_inputUnderruns io' = 1"
    "\<forall>c < 128. \<forall>f < 2. out ! (f * 128 + c) = frame_samples 2 (silent_devs ! c) ! f" by blast
  have "out ! (1 * 128 + 3) = frame_samples 2 (silent_devs ! 3) ! 1"
    by (rule out(3) [rule_format]) simp_all
  then have "out ! 131 = Fin 0" by (simp add: frame_samples_def silent_ring)
  with r out show ?thesis by blast
qed

lemma io_write_client_witness:
  "spsc_contents (io_outputBuffers (OnWriteClientOutput (Some (map (\<lambda>i. Fin (of_nat i)) [0..<256])) 2 128 quiet_io) ! 3) =
     [Fin 3, Fin 131] \<and>
   io_outputUnderruns (OnWriteClientOutput (Some (map (\<lambda>i. Fin (of_nat i)) [0..<256])) 2 128 quiet_io) = 0"
proof -
  have wf: "devs_wf (io_outputBuffers quiet_io)" using silent_devs_wf by (simp add: quiet_io_def)
  have "\<not> (\<exists>c < 128. ring_room (silent_devs ! c) < unat (2 :: u32))" by (auto simp: silent_ring)
  moreover have "channel_samples (map (\<lambda>i. Fin (of_nat i)) [0..<256]) 128 2 3 = [Fin 3, Fin 131]"
    by (simp add: channel_samples_def upt_rec)
  ultimately show ?thesis
    using io_write_client [OF wf, of 128 2 "map (\<lambda>i. Fin (of_nat i)) [0..<256]"]
    by (auto simp: quiet_io_def silent_ring)
qed

end
