(* ===== verification/Driver_Path.thy ===== *)
theory Driver_Path
  imports Audio_Path Io_Handler
begin

text \<open>
  Two devices composed: the client of one writes frames, its transmitter sends them, the
  receiver of the other plays them and the client of that device reads them.
\<close>

lemma take_all_room: "length xs \<le> n \<Longrightarrow> take n xs = xs"
  by simp




end
