(* ===== verification/Stream_Manager.thy ===== *)
theory Stream_Manager
  imports Rtp_Transmitter Sdp_Parser
begin

text \<open>
  \<open>NetworkEngine/StreamManager.cpp\<close>: the table of streams and what it drives: the channel mapper,
  one receiver or transmitter per stream, the callbacks and the saved configuration. Every
  public operation holds the mutex for its whole body, so it is one function on the state.
  Answers of the operating system, random bytes and the clock are in a record of their own.
\<close>

section \<open>State\<close>

record managed_stream =
  ms_sdp :: sdp_session
  ms_mapping :: channel_mapping
  ms_receiver :: "receiver option"
  ms_transmitter :: "transmitter option"
  ms_info :: stream_info
  ms_isTransmit :: bool

text \<open>\<open>StreamConfig.h\<close>: what is saved of a stream.\<close>

record persisted_config =
  pv_sdp :: sdp_session
  pv_mapping :: channel_mapping
  pv_enabled :: bool
  pv_description :: string
  pv_createdTimestamp :: u64
  pv_modifiedTimestamp :: u64
  pv_jitterBufferDepth :: u64
  pv_networkInterface :: string

datatype stream_event = Added stream_info | Removed stream_info | StatusChanged stream_info

record stream_manager =
  sm_mapper :: mapper
  sm_streams :: "(stream_id \<times> managed_stream) list"
  sm_autoSaveEnabled :: bool
  sm_ioActive :: bool
  sm_deviceSampleRate :: rat
  sm_kernel :: kernel
  sm_saved :: "persisted_config list option"   \<comment> \<open>what \<open>saveConfig\<close> wrote last\<close>
  sm_events :: "stream_event list"             \<comment> \<open>the callbacks invoked so far\<close>

record sm_env =
  en_random :: "u8 list"                       \<comment> \<open>for \<open>StreamID::generate\<close>\<close>
  en_fresh :: stream_info                      \<comment> \<open>a \<open>StreamInfo\<close> as it is created\<close>
  en_open :: "stream_id \<Rightarrow> open_results"       \<comment> \<open>the kernel's answers when a stream starts\<close>
  en_lookup :: "string \<Rightarrow> string"
  en_ssrc :: u32
  en_now :: u64
  en_saves :: bool                             \<comment> \<open>whether \<open>saveConfig\<close> can write\<close>
  en_primaryInterface :: string
  en_hasMulticastRoute :: bool

definition sm_new :: "kernel \<Rightarrow> stream_manager" where
  "sm_new k = \<lparr>sm_mapper = mapper_new, sm_streams = [], sm_autoSaveEnabled = True, sm_ioActive = False,
     sm_deviceSampleRate = 48000, sm_kernel = k, sm_saved = None, sm_events = []\<rparr>"

section \<open>Validation\<close>

definition rate_mismatch :: "u32 \<Rightarrow> rat \<Rightarrow> bool" where
  "rate_mismatch r deviceRate \<longleftrightarrow> \<bar>f64_round (of_nat (unat r) - deviceRate)\<bar> > f64_round (1 / 10)"

text \<open>\<open>static_cast<int>\<close> of a double in range drops the fraction.\<close>

definition f64_int :: "rat \<Rightarrow> int" where
  "f64_int x = (if 0 \<le> x then \<lfloor>x\<rfloor> else \<lceil>x\<rceil>)"

text \<open>Each check gives its answer and the error text it sets, None when it leaves it alone.\<close>

definition validateSampleRate :: "sdp_session \<Rightarrow> stream_manager \<Rightarrow> bool \<times> string option" where
  "validateSampleRate sdp s =
     (if rate_mismatch (sd_sampleRate sdp) (sm_deviceSampleRate s)
      then (False, Some (''Sample rate mismatch: stream='' @ show_int (sint (sd_sampleRate sdp)) @
             '' Hz, device='' @ show_int (f64_int (sm_deviceSampleRate s)) @ '' Hz''))
      else (True, None))"

definition validateChannelAvailability :: "u16 \<Rightarrow> stream_manager \<Rightarrow> bool \<times> string option" where
  "validateChannelAvailability numChannels s =
     (let n = unat numChannels; available = getAvailableChannelCount (sm_mapper s)
      in if n = 0 \<or> n > 128 then (False, Some (''Invalid channel count: '' @ show_nat n @ '' (must be 1-128)''))
         else if n > available
         then (False, Some (''Insufficient channels: need '' @ show_nat n @ '', have '' @ show_nat available))
         else (True, None))"

definition getMulticastRouteCommand :: "string \<Rightarrow> string" where
  "getMulticastRouteCommand interfaceName =
     ''sudo route add -net 239.0.0.0/8 -interface '' @ (if interfaceName = [] then ''en0'' else interfaceName)"

definition validateNetworkConfig :: "sm_env \<Rightarrow> sdp_session \<Rightarrow> bool \<times> string option" where
  "validateNetworkConfig e sdp =
     (if sd_connectionAddress sdp = [] then (False, Some ''Missing multicast IP address'')
      else if take 4 (sd_connectionAddress sdp) \<noteq> ''239.''
      then (False, Some (''Invalid multicast IP: '' @ sd_connectionAddress sdp @ '' (AES67 requires 239.x.x.x)''))
      else if sd_port sdp = 0 then (False, Some ''Invalid port: 0'')
      else if \<not> en_hasMulticastRoute e
      then (True, Some (''WARNING: Multicast routing not configured. Audio may not flow.'' @ nl @
             ''To fix, run: '' @ getMulticastRouteCommand
               (if en_primaryInterface e = [] then ''en0'' else en_primaryInterface e) @ nl @
             ''Stream will be added but may not receive traffic.''))
      else (True, None))"

definition canAddStream :: "sm_env \<Rightarrow> sdp_session \<Rightarrow> stream_manager \<Rightarrow> bool \<times> string option" where
  "canAddStream e sdp s =
     (let (rateOk, err1) = validateSampleRate sdp s
      in if \<not> rateOk then (False, err1)
         else let (chOk, err2) = validateChannelAvailability (sd_numChannels sdp) s
              in if \<not> chOk then (False, err2) else validateNetworkConfig e sdp)"

definition getAddStreamError :: "sm_env \<Rightarrow> sdp_session \<Rightarrow> stream_manager \<Rightarrow> string" where
  "getAddStreamError e sdp s = (case snd (canAddStream e sdp s) of None \<Rightarrow> [] | Some err \<Rightarrow> err)"

section \<open>Saving and callbacks\<close>

definition sm_notify :: "stream_event \<Rightarrow> stream_manager \<Rightarrow> stream_manager" where
  "sm_notify ev s = s\<lparr>sm_events := sm_events s @ [ev]\<rparr>"

definition createConfig :: "u64 \<Rightarrow> sdp_session \<Rightarrow> channel_mapping \<Rightarrow> string \<Rightarrow> persisted_config" where
  "createConfig now sdp mapping description =
     \<lparr>pv_sdp = sdp, pv_mapping = mapping, pv_enabled = True, pv_description = description,
      pv_createdTimestamp = now, pv_modifiedTimestamp = now, pv_jitterBufferDepth = 0, pv_networkInterface = []\<rparr>"

definition persisted_isValid :: "persisted_config \<Rightarrow> bool" where
  "persisted_isValid c \<longleftrightarrow> sdp_isValid (pv_sdp c) \<and> cm_isValid (pv_mapping c)"

definition saveAllStreams :: "sm_env \<Rightarrow> stream_manager \<Rightarrow> bool \<times> stream_manager" where
  "saveAllStreams e s =
     (let configs = map (\<lambda>(_, ms). createConfig (en_now e) (ms_sdp ms) (ms_mapping ms) (si_description (ms_info ms)))
            (sm_streams s)
      in if en_saves e then (True, s\<lparr>sm_saved := Some configs\<rparr>) else (False, s))"

definition autoSaveIfEnabled :: "sm_env \<Rightarrow> stream_manager \<Rightarrow> stream_manager" where
  "autoSaveIfEnabled e s = (if sm_autoSaveEnabled s then snd (saveAllStreams e s) else s)"

section \<open>Streams\<close>

definition encoding_of :: "string \<Rightarrow> audio_encoding" where
  "encoding_of e = (if e = ''L16'' then L16 else if e = ''L24'' then L24 else UnknownEncoding)"

definition stream_info_of :: "stream_info \<Rightarrow> stream_id \<Rightarrow> sdp_session \<Rightarrow> stream_info" where
  "stream_info_of fresh i sdp =
     fresh\<lparr>si_id := i, si_name := sd_sessionName sdp, si_description := sd_sessionInfo sdp,
       si_source := (si_source fresh)\<lparr>na_ip := sd_sourceAddress sdp, na_port := sd_port sdp\<rparr>,
       si_multicast := \<lparr>na_ip = sd_connectionAddress sdp, na_port = sd_port sdp, na_ttl = sd_ttl sdp\<rparr>,
       si_encoding := encoding_of (sd_encoding sdp), si_sampleRate := sd_sampleRate sdp,
       si_numChannels := sd_numChannels sdp, si_payloadType := sd_payloadType sdp, si_ptime := sd_ptime sdp,
       si_framecount := sd_framecount sdp, si_ptp := (si_ptp fresh)\<lparr>pc_domain := sd_ptpDomain sdp\<rparr>,
       si_isActive := True, si_isConnected := False\<rparr>"

definition complete_mapping :: "stream_id \<Rightarrow> string \<Rightarrow> u16 \<Rightarrow> channel_mapping \<Rightarrow> channel_mapping" where
  "complete_mapping i name n m =
     m\<lparr>cm_streamID := i, cm_streamName := name, cm_streamChannelCount := n, cm_deviceChannelCount := n\<rparr>"

text \<open>
  The table entry of a new stream, its receiver or transmitter started if I/O is active. None if
  it does not start; the object is destroyed then, which leaves the kernel as the failed start did.
\<close>

definition start_if_active ::
    "bool \<Rightarrow> open_results \<Rightarrow> managed_stream \<Rightarrow> kernel \<Rightarrow> managed_stream option \<times> kernel" where
  "start_if_active active r ms k =
     (if \<not> active then (Some ms, k)
      else case ms_receiver ms of
        Some rx \<Rightarrow> let (ok, rx', k') = rx_start r (rx, k)
                   in (if ok then Some (ms\<lparr>ms_receiver := Some rx'\<rparr>) else None, k')
      | None \<Rightarrow> (case ms_transmitter ms of
          Some tx \<Rightarrow> let (ok, tx', k') = tx_start r (tx, k)
                     in (if ok then Some (ms\<lparr>ms_transmitter := Some tx'\<rparr>) else None, k')
        | None \<Rightarrow> (Some ms, k)))"

definition sm_install :: "sm_env \<Rightarrow> stream_id \<Rightarrow> managed_stream \<Rightarrow> stream_manager \<Rightarrow> stream_manager" where
  "sm_install e i ms s =
     autoSaveIfEnabled e (sm_notify (Added (ms_info ms)) (s\<lparr>sm_streams := smap_put i ms (sm_streams s)\<rparr>))"

definition sm_addStream_mapped ::
    "sm_env \<Rightarrow> sdp_session \<Rightarrow> channel_mapping \<Rightarrow> stream_manager \<Rightarrow> stream_id \<times> stream_manager" where
  "sm_addStream_mapped e sdp mapping s =
     (if \<not> fst (canAddStream e sdp s) then (null_id, s)
      else
        let i = generate_stream_id (en_random e)
        in if map_of (sm_streams s) i \<noteq> None then (null_id, s)
           else
             let m = complete_mapping i (sd_sessionName sdp) (sd_numChannels sdp) mapping;
                 (added, mp) = addMapping m (sm_mapper s)
             in if \<not> added then (null_id, s)
                else
                  let ms = \<lparr>ms_sdp = sdp, ms_mapping = m,
                        ms_receiver = Some (rx_new (en_lookup e) sdp m 0 []), ms_transmitter = None,
                        ms_info = stream_info_of (en_fresh e) i sdp, ms_isTransmit = False\<rparr>;
                      (started, k) = start_if_active (sm_ioActive s) (en_open e i) ms (sm_kernel s);
                      s1 = s\<lparr>sm_mapper := mp, sm_kernel := k\<rparr>
                  in case started of
                       None \<Rightarrow> (null_id, s1\<lparr>sm_mapper := snd (removeMapping i mp)\<rparr>)
                     | Some ms' \<Rightarrow> (i, sm_install e i ms' s1))"

text \<open>The overload without a mapping; the identifier of the default mapping is replaced.\<close>

definition sm_addStream :: "sm_env \<Rightarrow> sdp_session \<Rightarrow> stream_manager \<Rightarrow> stream_id \<times> stream_manager" where
  "sm_addStream e sdp s =
     (case createDefaultMapping null_id (sd_sessionName sdp) (sd_numChannels sdp) (sm_mapper s) of
        None \<Rightarrow> (null_id, s)
      | Some m \<Rightarrow> sm_addStream_mapped e sdp m s)"

definition importSDPFile ::
    "sm_env \<Rightarrow> string option \<Rightarrow> stream_manager \<Rightarrow> (stream_id \<times> stream_manager) outcome" where
  "importSDPFile e content s =
     (case content of
        None \<Rightarrow> Parsed (null_id, s)
      | Some text \<Rightarrow> (case parseString text of
            Parsed sdp \<Rightarrow> Parsed (sm_addStream e sdp s)
          | Refused \<Rightarrow> Parsed (null_id, s)
          | Thrown \<Rightarrow> Thrown))"

text \<open>The session of a transmit stream; the sample rate is converted from double.\<close>

definition tx_session :: "sm_env \<Rightarrow> string \<Rightarrow> string \<Rightarrow> u16 \<Rightarrow> u16 \<Rightarrow> rat \<Rightarrow> sdp_session" where
  "tx_session e name multicastIP port numChannels deviceRate =
     sdp_default\<lparr>sd_sessionName := name, sd_connectionAddress := multicastIP, sd_port := port,
       sd_numChannels := numChannels, sd_sampleRate := of_int (f64_int deviceRate), sd_encoding := ''L24'',
       sd_payloadType := 97, sd_sessionID := en_now e, sd_sessionVersion := 1\<rparr>"

definition createTxStream ::
    "sm_env \<Rightarrow> string \<Rightarrow> string \<Rightarrow> u16 \<Rightarrow> u16 \<Rightarrow> channel_mapping \<Rightarrow> stream_manager \<Rightarrow> stream_id \<times> stream_manager" where
  "createTxStream e name multicastIP port numChannels mapping s =
     (let sdp = tx_session e name multicastIP port numChannels (sm_deviceSampleRate s)
      in if \<not> fst (canAddStream e sdp s) then (null_id, s)
         else
           let i = generate_stream_id (en_random e);
               m = complete_mapping i name numChannels mapping;
               (added, mp) = addMapping m (sm_mapper s)
           in if \<not> added then (null_id, s)
              else
                let fresh = en_fresh e;
                    info = fresh\<lparr>si_id := i, si_name := name,
                      si_multicast := (si_multicast fresh)\<lparr>na_ip := multicastIP, na_port := port\<rparr>,
                      si_encoding := L24, si_sampleRate := sd_sampleRate sdp, si_numChannels := numChannels,
                      si_payloadType := sd_payloadType sdp, si_isActive := True\<rparr>;
                    ms = \<lparr>ms_sdp = sdp, ms_mapping = m, ms_receiver = None,
                      ms_transmitter = Some (tx_new (en_ssrc e) sdp m []), ms_info = info, ms_isTransmit = True\<rparr>;
                    (started, k) = start_if_active (sm_ioActive s) (en_open e i) ms (sm_kernel s);
                    s1 = s\<lparr>sm_mapper := mp, sm_kernel := k\<rparr>
                in case started of
                     None \<Rightarrow> (null_id, s1\<lparr>sm_mapper := snd (removeMapping i mp)\<rparr>)
                   | Some ms' \<Rightarrow> (i, sm_install e i ms' s1))"

definition stop_managed :: "managed_stream \<times> kernel \<Rightarrow> managed_stream \<times> kernel" where
  "stop_managed st =
     (let (ms, k) = st;
          (rx, k1) = (case ms_receiver ms of None \<Rightarrow> (None, k)
             | Some r \<Rightarrow> let (r', k') = rx_stop (r, k) in (Some r', k'));
          (tx, k2) = (case ms_transmitter ms of None \<Rightarrow> (None, k1)
             | Some t \<Rightarrow> let (t', k') = tx_stop (t, k1) in (Some t', k'))
      in (ms\<lparr>ms_receiver := rx, ms_transmitter := tx\<rparr>, k2))"

definition start_managed :: "open_results \<Rightarrow> managed_stream \<times> kernel \<Rightarrow> managed_stream \<times> kernel" where
  "start_managed r st =
     (let (ms, k) = st;
          (rx, k1) = (case ms_receiver ms of None \<Rightarrow> (None, k)
             | Some x \<Rightarrow> let (_, x', k') = rx_start r (x, k) in (Some x', k'));
          (tx, k2) = (case ms_transmitter ms of None \<Rightarrow> (None, k1)
             | Some t \<Rightarrow> let (_, t', k') = tx_start r (t, k1) in (Some t', k'))
      in (ms\<lparr>ms_receiver := rx, ms_transmitter := tx\<rparr>, k2))"

text \<open>A loop over the table that changes the entries and the kernel.\<close>

fun for_streams ::
    "(stream_id \<Rightarrow> managed_stream \<times> kernel \<Rightarrow> managed_stream \<times> kernel) \<Rightarrow> (stream_id \<times> managed_stream) list \<Rightarrow>
     kernel \<Rightarrow> (stream_id \<times> managed_stream) list \<times> kernel" where
  "for_streams g [] k = ([], k)"
| "for_streams g ((i, ms) # rest) k =
     (let (ms', k1) = g i (ms, k); (rest', k2) = for_streams g rest k1 in ((i, ms') # rest', k2))"

definition sm_removeStream :: "sm_env \<Rightarrow> stream_id \<Rightarrow> stream_manager \<Rightarrow> bool \<times> stream_manager" where
  "sm_removeStream e i s =
     (case map_of (sm_streams s) i of
        None \<Rightarrow> (False, s)
      | Some ms \<Rightarrow>
          let (_, k) = stop_managed (ms, sm_kernel s);
              s1 = s\<lparr>sm_kernel := k, sm_mapper := snd (removeMapping i (sm_mapper s)),
                sm_streams := smap_del i (sm_streams s)\<rparr>
          in (True, autoSaveIfEnabled e (sm_notify (Removed (ms_info ms)) s1)))"

definition removeAllStreams :: "stream_manager \<Rightarrow> stream_manager" where
  "removeAllStreams s =
     (let (_, k) = for_streams (\<lambda>_. stop_managed) (sm_streams s) (sm_kernel s)
      in s\<lparr>sm_kernel := k, sm_events := sm_events s @ map (\<lambda>(_, ms). Removed (ms_info ms)) (sm_streams s),
           sm_streams := [], sm_mapper := clearAll (sm_mapper s)\<rparr>)"

text \<open>The text an export writes, None when the stream is unknown or the file does not open.\<close>

definition exportSDPFile :: "u64 \<Rightarrow> bool \<Rightarrow> stream_id \<Rightarrow> stream_manager \<Rightarrow> string option" where
  "exportSDPFile now opens i s =
     (case map_of (sm_streams s) i of
        None \<Rightarrow> None
      | Some ms \<Rightarrow>
          let text = generate now (ms_sdp ms) in if text = [] then None else if opens then Some text else None)"

definition sm_updateMapping ::
    "sm_env \<Rightarrow> stream_id \<Rightarrow> channel_mapping \<Rightarrow> stream_manager \<Rightarrow> bool \<times> stream_manager" where
  "sm_updateMapping e i newMapping s =
     (case map_of (sm_streams s) i of
        None \<Rightarrow> (False, s)
      | Some ms \<Rightarrow>
          let m = newMapping\<lparr>cm_streamID := i, cm_streamName := cm_streamName (ms_mapping ms),
                cm_streamChannelCount := sd_numChannels (ms_sdp ms)\<rparr>;
              (ok, mp) = updateMapping m (sm_mapper s)
          in if \<not> ok then (False, s)
             else
               let ms1 = ms\<lparr>ms_mapping := m\<rparr>;
                   (updated, ms2, k) = (case ms_receiver ms of
                      Some rx \<Rightarrow> let (u, rx', k') = rx_updateMapping (en_open e i) m (rx, sm_kernel s)
                                 in (u, ms1\<lparr>ms_receiver := Some rx'\<rparr>, k')
                    | None \<Rightarrow> (case ms_transmitter ms of
                        Some tx \<Rightarrow> let (u, tx', k') = tx_updateMapping (en_open e i) m (tx, sm_kernel s)
                                   in (u, ms1\<lparr>ms_transmitter := Some tx'\<rparr>, k')
                      | None \<Rightarrow> (False, ms1, sm_kernel s)));
                   s1 = s\<lparr>sm_mapper := mp, sm_streams := smap_put i ms2 (sm_streams s), sm_kernel := k\<rparr>
               in (updated, if updated then autoSaveIfEnabled e (sm_notify (StatusChanged (ms_info ms2)) s1) else s1))"

section \<open>Queries\<close>

definition sm_getMapping :: "stream_id \<Rightarrow> stream_manager \<Rightarrow> channel_mapping option" where
  "sm_getMapping i s = getMapping i (sm_mapper s)"

definition sm_getAllMappings :: "stream_manager \<Rightarrow> channel_mapping list" where
  "sm_getAllMappings s = getAllMappings (sm_mapper s)"

definition getActiveStreams :: "stream_manager \<Rightarrow> stream_info list" where
  "getActiveStreams s = filter si_isActive (map (\<lambda>(_, ms). ms_info ms) (sm_streams s))"

definition getStreamInfo :: "stream_id \<Rightarrow> stream_manager \<Rightarrow> stream_info option" where
  "getStreamInfo i s = map_option ms_info (map_of (sm_streams s) i)"

definition hasStream :: "stream_id \<Rightarrow> stream_manager \<Rightarrow> bool" where
  "hasStream i s \<longleftrightarrow> map_of (sm_streams s) i \<noteq> None"

definition getStreamCount :: "stream_manager \<Rightarrow> nat" where
  "getStreamCount s = length (sm_streams s)"

section \<open>Device state\<close>

definition setIOActive :: "sm_env \<Rightarrow> bool \<Rightarrow> stream_manager \<Rightarrow> stream_manager" where
  "setIOActive e active s =
     (if sm_ioActive s = active then s
      else
        let (streams, k) = for_streams (if active then (\<lambda>i. start_managed (en_open e i)) else (\<lambda>_. stop_managed))
              (sm_streams s) (sm_kernel s)
        in s\<lparr>sm_ioActive := active, sm_streams := streams, sm_kernel := k\<rparr>)"

definition setAutoSave :: "bool \<Rightarrow> stream_manager \<Rightarrow> stream_manager" where
  "setAutoSave enabled s = s\<lparr>sm_autoSaveEnabled := enabled\<rparr>"

definition setDeviceSampleRate :: "rat \<Rightarrow> stream_manager \<Rightarrow> bool \<times> stream_manager" where
  "setDeviceSampleRate sampleRate s =
     (if sampleRate < 44100 \<or> sampleRate > 384000 then (False, s)
      else if list_ex (\<lambda>(_, ms). rate_mismatch (sd_sampleRate (ms_sdp ms)) sampleRate) (sm_streams s) then (False, s)
      else (True, s\<lparr>sm_deviceSampleRate := sampleRate\<rparr>))"

section \<open>Saved streams\<close>

text \<open>The entry of a saved stream. One directed outwards becomes a transmitter.\<close>

definition loaded_stream :: "sm_env \<Rightarrow> persisted_config \<Rightarrow> managed_stream" where
  "loaded_stream e c =
     (let tx = (sd_direction (pv_sdp c) = ''sendonly'' \<or> sd_direction (pv_sdp c) = ''sendrecv'')
      in \<lparr>ms_sdp = pv_sdp c, ms_mapping = pv_mapping c,
          ms_receiver = (if tx then None else Some (rx_new (en_lookup e) (pv_sdp c) (pv_mapping c)
            (pv_jitterBufferDepth c) (pv_networkInterface c))),
          ms_transmitter = (if tx then Some (tx_new (en_ssrc e) (pv_sdp c) (pv_mapping c)
            (pv_networkInterface c)) else None),
          ms_info = stream_info_of (en_fresh e) (cm_streamID (pv_mapping c)) (pv_sdp c), ms_isTransmit = tx\<rparr>)"

text \<open>One saved configuration: whether it was loaded.\<close>

definition load_config :: "sm_env \<Rightarrow> persisted_config \<Rightarrow> stream_manager \<Rightarrow> bool \<times> stream_manager" where
  "load_config e c s =
     (if \<not> pv_enabled c then (False, s)
      else if \<not> persisted_isValid c then (False, s)
      else if \<not> fst (canAddStream e (pv_sdp c) s) then (False, s)
      else
        let i = cm_streamID (pv_mapping c)
        in if map_of (sm_streams s) i \<noteq> None then (False, s)
           else
             let (added, mp) = addMapping (pv_mapping c) (sm_mapper s)
             in if \<not> added then (False, s)
                else
                  let ms = loaded_stream e c;
                      (started, k) = start_if_active (sm_ioActive s) (en_open e i) ms (sm_kernel s);
                      s1 = s\<lparr>sm_mapper := mp, sm_kernel := k\<rparr>
                  in case started of
                       None \<Rightarrow> (False, s1\<lparr>sm_mapper := snd (removeMapping i mp)\<rparr>)
                     | Some ms' \<Rightarrow> (True, sm_notify (Added (ms_info ms')) (s1\<lparr>sm_streams := smap_put i ms' (sm_streams s1)\<rparr>)))"

fun load_configs :: "sm_env \<Rightarrow> persisted_config list \<Rightarrow> stream_manager \<Rightarrow> nat \<times> stream_manager" where
  "load_configs e [] s = (0, s)"
| "load_configs e (c # cs) s =
     (let (ok, s1) = load_config e c s; (n, s2) = load_configs e cs s1 in (if ok then n + 1 else n, s2))"

text \<open>\<open>configs\<close> is the result of \<open>loadConfig\<close>.\<close>

definition loadSavedStreams :: "sm_env \<Rightarrow> persisted_config list option \<Rightarrow> stream_manager \<Rightarrow> bool \<times> stream_manager" where
  "loadSavedStreams e configs s =
     (case configs of
        None \<Rightarrow> (False, s)
      | Some cs \<Rightarrow> let (n, s') = load_configs e cs s in (n > 0, s'))"

end
