(* ===== verification/Net_Interfaces.thy ===== *)
theory Net_Interfaces
  imports Text_Lib
begin

text \<open>
  \<open>NetworkEngine/NetworkUtils.cpp\<close>: the functions that choose among the interfaces the operating
  system lists. The list is what \<open>getifaddrs\<close> delivers, restricted to the IPv4 entries every
  function filters for; \<open>isIPv4\<close> is \<open>inet_pton\<close>.
\<close>

record net_interface =
  nif_name :: string
  nif_up :: bool
  nif_running :: bool
  nif_loopback :: bool
  nif_ip :: string
  nif_addr :: u32

definition getNetworkInterfaces :: "net_interface list \<Rightarrow> string list" where
  "getNetworkInterfaces ifs = map nif_name ifs"

text \<open>\<open>name.substr(0, 2)\<close> and \<open>name[2]\<close>, which is the terminating zero of a name of two characters.\<close>

definition ethernet_name :: "string \<Rightarrow> bool" where
  "ethernet_name name \<longleftrightarrow> take 2 name = ''en'' \<and> 2 < length name \<and> is_digit (name ! 2)"

text \<open>The loop, with the backup found so far.\<close>

fun primary_scan :: "string \<Rightarrow> net_interface list \<Rightarrow> string" where
  "primary_scan backup [] = backup"
| "primary_scan backup (i # ifs) =
     (if ethernet_name (nif_name i)
      then if nif_up i \<and> nif_running i then nif_name i
           else primary_scan (if backup = [] then nif_name i else backup) ifs
      else primary_scan backup ifs)"

definition getPrimaryEthernetInterface :: "net_interface list \<Rightarrow> string" where
  "getPrimaryEthernetInterface ifs = primary_scan [] ifs"

definition getInterfaceIP :: "net_interface list \<Rightarrow> string \<Rightarrow> string" where
  "getInterfaceIP ifs name = (case find (\<lambda>i. nif_name i = name) ifs of None \<Rightarrow> [] | Some i \<Rightarrow> nif_ip i)"

definition resolveInterfaceToIP :: "(string \<Rightarrow> bool) \<Rightarrow> net_interface list \<Rightarrow> string \<Rightarrow> string" where
  "resolveInterfaceToIP isIPv4 ifs spec =
     (if spec = []
      then let primaryIface = getPrimaryEthernetInterface ifs
           in if primaryIface \<noteq> [] then getInterfaceIP ifs primaryIface else []
      else if isIPv4 spec then spec
      else getInterfaceIP ifs spec)"

definition getActiveInterfacesWithIPs :: "net_interface list \<Rightarrow> (string \<times> string) list" where
  "getActiveInterfacesWithIPs ifs =
     map (\<lambda>i. (nif_name i, nif_ip i)) (filter (\<lambda>i. \<not> nif_loopback i \<and> nif_up i) ifs)"

section \<open>Multicast and sockets\<close>

text \<open>
  The request of a group membership. \<open>inet_addr\<close> gives INADDR_NONE for what is no address,
  \<open>if_nametoindex\<close> gives 0 for what is no interface; both, and \<open>inet_aton\<close>, are the system's.
\<close>

record address_queries =
  aq_inet_addr :: "string \<Rightarrow> u32"
  aq_inet_aton :: "string \<Rightarrow> u32 option"
  aq_if_nametoindex :: "string \<Rightarrow> u32"

record ip_mreqn =
  imr_multiaddr :: u32
  imr_address :: u32
  imr_ifindex :: u32

definition group_request :: "address_queries \<Rightarrow> net_interface list \<Rightarrow> string \<Rightarrow> string \<Rightarrow> ip_mreqn option" where
  "group_request q ifs multicastAddr interfaceName =
     (let group = aq_inet_addr q multicastAddr
      in if group = 0xFFFFFFFF then None
         else let index = aq_if_nametoindex q interfaceName
              in Some \<lparr>imr_multiaddr = group,
                   imr_address =
                     (if index \<noteq> 0 then 0
                      else case aq_inet_aton q interfaceName of
                          Some a \<Rightarrow> a
                        | None \<Rightarrow> (case find (\<lambda>i. nif_name i = interfaceName) ifs of None \<Rightarrow> 0 | Some i \<Rightarrow> nif_addr i)),
                   imr_ifindex = index\<rparr>)"

text \<open>The answer of \<open>setsockopt\<close> is a function of the request.\<close>

definition joinMulticastGroup ::
    "(ip_mreqn \<Rightarrow> bool) \<Rightarrow> address_queries \<Rightarrow> net_interface list \<Rightarrow> string \<Rightarrow> string \<Rightarrow> bool" where
  "joinMulticastGroup setsockopt q ifs multicastAddr interfaceName =
     (case group_request q ifs multicastAddr interfaceName of None \<Rightarrow> False | Some r \<Rightarrow> setsockopt r)"

definition leaveMulticastGroup ::
    "(ip_mreqn \<Rightarrow> bool) \<Rightarrow> address_queries \<Rightarrow> net_interface list \<Rightarrow> string \<Rightarrow> string \<Rightarrow> bool" where
  "leaveMulticastGroup setsockopt q ifs multicastAddr interfaceName =
     (case group_request q ifs multicastAddr interfaceName of None \<Rightarrow> False | Some r \<Rightarrow> setsockopt r)"

text \<open>An \<open>int\<close> is its bits here.\<close>

definition tos_value :: "u32 \<Rightarrow> u32" where
  "tos_value dscpValue = push_bit 2 (dscpValue AND 0x3F)"

definition setQoSTrafficClass :: "(u32 \<Rightarrow> bool) \<Rightarrow> u32 \<Rightarrow> bool" where
  "setQoSTrafficClass setsockopt dscpValue = setsockopt (tos_value dscpValue)"

text \<open>SO_BINDTODEVICE first; where that fails, IP_BOUND_IF with the index of the interface.\<close>

definition bindToInterface :: "(string \<Rightarrow> bool) \<Rightarrow> (u32 \<Rightarrow> bool) \<Rightarrow> address_queries \<Rightarrow> string \<Rightarrow> bool" where
  "bindToInterface bindtodevice bound_if q interfaceName =
     (bindtodevice interfaceName \<or>
      (let if_index = aq_if_nametoindex q interfaceName in if_index \<noteq> 0 \<and> bound_if if_index))"

definition isValidMulticastAddress :: "address_queries \<Rightarrow> string \<Rightarrow> bool" where
  "isValidMulticastAddress q addr =
     (case aq_inet_aton q addr of None \<Rightarrow> False | Some ip \<Rightarrow> 0xE0000000 \<le> ip \<and> ip \<le> 0xEFFFFFFF)"

text \<open>The lines the routing table command printed; none when it could not be started.\<close>

definition hasMulticastRoute :: "string list option \<Rightarrow> string \<Rightarrow> bool" where
  "hasMulticastRoute lines interfaceName =
     (case lines of
        None \<Rightarrow> False
      | Some ls \<Rightarrow> if interfaceName \<noteq> [] then list_ex (occurs_in interfaceName) ls else ls \<noteq> [])"

section \<open>The primary interface\<close>

lemma primary_scan_eq:
  "primary_scan b ifs =
     (case find (\<lambda>i. ethernet_name (nif_name i) \<and> nif_up i \<and> nif_running i) ifs of
        Some i \<Rightarrow> nif_name i
      | None \<Rightarrow> (if b \<noteq> [] then b
          else (case find (\<lambda>i. ethernet_name (nif_name i)) ifs of Some i \<Rightarrow> nif_name i | None \<Rightarrow> [])))"
  by (induction b ifs rule: primary_scan.induct) (auto simp: ethernet_name_def split: option.splits)

end
