(* ===== verification/Stream_Config.thy ===== *)
theory Stream_Config
  imports Stream_Manager Net_Interfaces
begin

text \<open>
  \<open>NetworkEngine/StreamConfig.cpp\<close>: the file of saved streams. The text is written line by line;
  it is read with regular expressions and counters of brackets and braces, not with a JSON
  parser. \<open>std::regex_search\<close> is the leftmost position at which a matcher succeeds; none of the
  patterns used needs to backtrack. \<open>std::stoull\<close> and \<open>std::stoi\<close> throw on numbers out of range, so
  reading has the outcomes of Sdp_Parser: a value, nothing (\<open>std::nullopt\<close>), or an exception.
\<close>

section \<open>Writing\<close>

fun escape_char :: "char \<Rightarrow> string" where
  "escape_char c =
     (if c = CHR 0x22 then [CHR 0x5C, CHR 0x22]
      else if c = CHR 0x5C then [CHR 0x5C, CHR 0x5C]
      else if c = CHR 0x0A then [CHR 0x5C, CHR ''n'']
      else if c = CHR 0x0D then [CHR 0x5C, CHR ''r'']
      else if c = CHR 0x09 then [CHR 0x5C, CHR ''t'']
      else [c])"

definition escapeJSON :: "string \<Rightarrow> string" where
  "escapeJSON s = concat (map escape_char s)"

definition quoted :: "string \<Rightarrow> string" where
  "quoted s = [CHR 0x22] @ s @ [CHR 0x22]"

text \<open>One line \<open>"key": value\<close>, and an object of such lines at some indentation.\<close>

definition json_field :: "string \<Rightarrow> string \<Rightarrow> string" where
  "json_field key v = quoted key @ '': '' @ v"

fun json_lines :: "string \<Rightarrow> (string \<times> string) list \<Rightarrow> string" where
  "json_lines pad [] = []"
| "json_lines pad [(k, v)] = pad @ json_field k v @ nl"
| "json_lines pad ((k, v) # fs) = pad @ json_field k v @ '','' @ nl @ json_lines pad fs"

definition json_object :: "nat \<Rightarrow> (string \<times> string) list \<Rightarrow> string" where
  "json_object indent fs =
     ''{'' @ nl @ json_lines (replicate (indent + 2) CHR '' '') fs @ replicate indent CHR '' '' @ ''}''"

definition json_text :: "string \<Rightarrow> string" where
  "json_text s = quoted (escapeJSON s)"

definition json_bool :: "bool \<Rightarrow> string" where
  "json_bool b = (if b then ''true'' else ''false'')"

definition sdp_fields :: "sdp_session \<Rightarrow> (string \<times> string) list" where
  "sdp_fields sdp =
     [(''sessionName'', json_text (sd_sessionName sdp)),
      (''sessionInfo'', json_text (sd_sessionInfo sdp)),
      (''sessionID'', show_nat (unat (sd_sessionID sdp))),
      (''sessionVersion'', show_nat (unat (sd_sessionVersion sdp))),
      (''originUsername'', json_text (sd_originUsername sdp)),
      (''originAddress'', json_text (sd_originAddress sdp)),
      (''connectionAddress'', json_text (sd_connectionAddress sdp)),
      (''ttl'', show_nat (unat (sd_ttl sdp))),
      (''port'', show_nat (unat (sd_port sdp))),
      (''payloadType'', show_nat (unat (sd_payloadType sdp))),
      (''encoding'', json_text (sd_encoding sdp)),
      (''sampleRate'', show_nat (unat (sd_sampleRate sdp))),
      (''numChannels'', show_nat (unat (sd_numChannels sdp))),
      (''ptime'', show_nat (unat (sd_ptime sdp))),
      (''framecount'', show_nat (unat (sd_framecount sdp))),
      (''sourceAddress'', json_text (sd_sourceAddress sdp)),
      (''ptpDomain'', show_int (sd_ptpDomain sdp)),
      (''ptpMasterMAC'', json_text (sd_ptpMasterMAC sdp)),
      (''mediaClockType'', json_text (sd_mediaClockType sdp)),
      (''direction'', json_text (sd_direction sdp))]"

definition sdpToJSON :: "sdp_session \<Rightarrow> string" where
  "sdpToJSON sdp = json_object 6 (sdp_fields sdp)"

fun json_ints :: "int list \<Rightarrow> string" where
  "json_ints [] = []"
| "json_ints [i] = show_int i"
| "json_ints (i # is) = show_int i @ '', '' @ json_ints is"

definition mapping_fields :: "channel_mapping \<Rightarrow> (string \<times> string) list" where
  "mapping_fields m =
     [(''streamID'', quoted (stream_id_toString (cm_streamID m))),
      (''streamName'', json_text (cm_streamName m)),
      (''streamChannelCount'', show_nat (unat (cm_streamChannelCount m))),
      (''streamChannelOffset'', show_nat (unat (cm_streamChannelOffset m))),
      (''deviceChannelStart'', show_nat (unat (cm_deviceChannelStart m))),
      (''deviceChannelCount'', show_nat (unat (cm_deviceChannelCount m))),
      (''channelMap'', ''['' @ json_ints (cm_channelMap m) @ '']'')]"

definition mappingToJSON :: "channel_mapping \<Rightarrow> string" where
  "mappingToJSON m = json_object 6 (mapping_fields m)"

definition config_fields :: "persisted_config \<Rightarrow> (string \<times> string) list" where
  "config_fields c =
     [(''enabled'', json_bool (pv_enabled c)),
      (''description'', json_text (pv_description c)),
      (''createdTimestamp'', show_nat (unat (pv_createdTimestamp c))),
      (''modifiedTimestamp'', show_nat (unat (pv_modifiedTimestamp c))),
      (''jitterBufferDepth'', show_nat (unat (pv_jitterBufferDepth c))),
      (''networkInterface'', json_text (pv_networkInterface c)),
      (''sdp'', sdpToJSON (pv_sdp c)),
      (''mapping'', mappingToJSON (pv_mapping c))]"

definition configToJSON :: "persisted_config \<Rightarrow> string" where
  "configToJSON c = json_object 4 (config_fields c)"

fun json_streams :: "persisted_config list \<Rightarrow> string" where
  "json_streams [] = []"
| "json_streams [c] = ''    '' @ configToJSON c"
| "json_streams (c # cs) = ''    '' @ configToJSON c @ '','' @ nl @ json_streams cs"

definition toJSON :: "persisted_config list \<Rightarrow> string" where
  "toJSON cs =
     ''{'' @ nl @ ''  '' @ json_field ''version'' (quoted ''1.0'') @ '','' @ nl @
     ''  '' @ quoted ''streams'' @ '': ['' @ nl @ json_streams cs @ nl @ ''  ]'' @ nl @ ''}''"

section \<open>Searching\<close>

fun re_search :: "(string \<Rightarrow> 'a option) \<Rightarrow> string \<Rightarrow> 'a option" where
  "re_search f [] = f []"
| "re_search f (c # cs) = (case f (c # cs) of Some x \<Rightarrow> Some x | None \<Rightarrow> re_search f cs)"

text \<open>\<open>"field"\s*:\s*\<close>; the rest of the text after it.\<close>

definition field_at :: "string \<Rightarrow> string \<Rightarrow> string option" where
  "field_at field s =
     (if take (length field + 2) s = quoted field
      then case dropWhile is_space (drop (length field + 2) s) of
          c # r \<Rightarrow> if c = CHR '':'' then Some (dropWhile is_space r) else None
        | [] \<Rightarrow> None
      else None)"

definition search_field :: "string \<Rightarrow> (string \<Rightarrow> 'a option) \<Rightarrow> string \<Rightarrow> 'a option" where
  "search_field field value json =
     re_search (\<lambda>s. case field_at field s of None \<Rightarrow> None | Some r \<Rightarrow> value r) json"

text \<open>The values: \<open>"([^"]*)"\<close>, \<open>(\d+)\<close>, \<open>(-?\d+)\<close>, \<open>(true|false)\<close>, \<open>[([^\]]*)]\<close>.\<close>

definition string_value :: "string \<Rightarrow> string option" where
  "string_value s =
     (case s of c # r \<Rightarrow> if c = CHR 0x22 \<and> CHR 0x22 \<in> set r then Some (takeWhile (\<lambda>x. x \<noteq> CHR 0x22) r) else None
      | [] \<Rightarrow> None)"

definition digits_value :: "string \<Rightarrow> string option" where
  "digits_value s = (let ds = takeWhile is_digit s in if ds = [] then None else Some ds)"

definition int_value :: "string \<Rightarrow> string option" where
  "int_value s =
     (case s of c # r \<Rightarrow> if c = CHR ''-'' then map_option ((#) c) (digits_value r) else digits_value s
      | [] \<Rightarrow> None)"

definition bool_value :: "string \<Rightarrow> bool option" where
  "bool_value s = (if take 4 s = ''true'' then Some True else if take 5 s = ''false'' then Some False else None)"

definition array_value :: "string \<Rightarrow> string option" where
  "array_value s =
     (case s of c # r \<Rightarrow> if c = CHR ''['' \<and> CHR '']'' \<in> set r then Some (takeWhile (\<lambda>x. x \<noteq> CHR '']'') r) else None
      | [] \<Rightarrow> None)"

text \<open>
  \<open>{([^}]+(?:{[^}]+})?[^}]*)}\<close>: the first part takes everything up to the first closing brace, and
  the optional group cannot start there.
\<close>

definition object_value :: "string \<Rightarrow> string option" where
  "object_value s =
     (case s of c # r \<Rightarrow>
        let body = takeWhile (\<lambda>x. x \<noteq> CHR ''}'') r
        in if c = CHR ''{'' \<and> body \<noteq> [] \<and> CHR ''}'' \<in> set r then Some body else None
      | [] \<Rightarrow> None)"

definition extractStringField :: "string \<Rightarrow> string \<Rightarrow> string outcome" where
  "extractStringField json field =
     (case search_field field string_value json of None \<Rightarrow> Refused | Some v \<Rightarrow> Parsed v)"

definition extractUInt64Field :: "string \<Rightarrow> string \<Rightarrow> u64 outcome" where
  "extractUInt64Field json field =
     (case search_field field digits_value json of
        None \<Rightarrow> Refused
      | Some ds \<Rightarrow> (case stoull ds of None \<Rightarrow> Thrown | Some v \<Rightarrow> Parsed v))"

definition extractUInt32Field :: "string \<Rightarrow> string \<Rightarrow> u32 outcome" where
  "extractUInt32Field json field = map_outcome ucast (extractUInt64Field json field)"

definition extractUInt16Field :: "string \<Rightarrow> string \<Rightarrow> u16 outcome" where
  "extractUInt16Field json field = map_outcome ucast (extractUInt64Field json field)"

definition extractUInt8Field :: "string \<Rightarrow> string \<Rightarrow> u8 outcome" where
  "extractUInt8Field json field = map_outcome ucast (extractUInt64Field json field)"

definition extractBoolField :: "string \<Rightarrow> string \<Rightarrow> bool outcome" where
  "extractBoolField json field =
     (case search_field field bool_value json of None \<Rightarrow> Refused | Some v \<Rightarrow> Parsed v)"

definition extractIntField :: "string \<Rightarrow> string \<Rightarrow> int outcome" where
  "extractIntField json field =
     (case search_field field int_value json of
        None \<Rightarrow> Refused
      | Some ds \<Rightarrow> (case stoi ds of None \<Rightarrow> Thrown | Some v \<Rightarrow> Parsed v))"

section \<open>Reading\<close>

text \<open>\<open>if (auto val = extract(...)) x.field = *val;\<close> and the sequence of such statements.\<close>

fun set_field :: "'v outcome \<Rightarrow> ('v \<Rightarrow> 's \<Rightarrow> 's) \<Rightarrow> 's \<Rightarrow> 's outcome" where
  "set_field (Parsed v) upd s = Parsed (upd v s)"
| "set_field Refused upd s = Parsed s"
| "set_field Thrown upd s = Thrown"

fun field_steps :: "('s \<Rightarrow> 's outcome) list \<Rightarrow> 's \<Rightarrow> 's outcome" where
  "field_steps [] s = Parsed s"
| "field_steps (f # fs) s =
     (case f s of Parsed s' \<Rightarrow> field_steps fs s' | Refused \<Rightarrow> Refused | Thrown \<Rightarrow> Thrown)"

definition sdpFromJSON :: "string \<Rightarrow> sdp_session outcome" where
  "sdpFromJSON json = field_steps
     [set_field (extractStringField json ''sessionName'') (\<lambda>v. sd_sessionName_update (\<lambda>_. v)),
      set_field (extractStringField json ''sessionInfo'') (\<lambda>v. sd_sessionInfo_update (\<lambda>_. v)),
      set_field (extractUInt64Field json ''sessionID'') (\<lambda>v. sd_sessionID_update (\<lambda>_. v)),
      set_field (extractUInt64Field json ''sessionVersion'') (\<lambda>v. sd_sessionVersion_update (\<lambda>_. v)),
      set_field (extractStringField json ''originUsername'') (\<lambda>v. sd_originUsername_update (\<lambda>_. v)),
      set_field (extractStringField json ''originAddress'') (\<lambda>v. sd_originAddress_update (\<lambda>_. v)),
      set_field (extractStringField json ''connectionAddress'') (\<lambda>v. sd_connectionAddress_update (\<lambda>_. v)),
      set_field (extractUInt8Field json ''ttl'') (\<lambda>v. sd_ttl_update (\<lambda>_. v)),
      set_field (extractUInt16Field json ''port'') (\<lambda>v. sd_port_update (\<lambda>_. v)),
      set_field (extractUInt8Field json ''payloadType'') (\<lambda>v. sd_payloadType_update (\<lambda>_. v)),
      set_field (extractStringField json ''encoding'') (\<lambda>v. sd_encoding_update (\<lambda>_. v)),
      set_field (extractUInt32Field json ''sampleRate'') (\<lambda>v. sd_sampleRate_update (\<lambda>_. v)),
      set_field (extractUInt16Field json ''numChannels'') (\<lambda>v. sd_numChannels_update (\<lambda>_. v)),
      set_field (extractUInt32Field json ''ptime'') (\<lambda>v. sd_ptime_update (\<lambda>_. v)),
      set_field (extractUInt32Field json ''framecount'') (\<lambda>v. sd_framecount_update (\<lambda>_. v)),
      set_field (extractStringField json ''sourceAddress'') (\<lambda>v. sd_sourceAddress_update (\<lambda>_. v)),
      set_field (extractIntField json ''ptpDomain'') (\<lambda>v. sd_ptpDomain_update (\<lambda>_. v)),
      set_field (extractStringField json ''ptpMasterMAC'') (\<lambda>v. sd_ptpMasterMAC_update (\<lambda>_. v)),
      set_field (extractStringField json ''mediaClockType'') (\<lambda>v. sd_mediaClockType_update (\<lambda>_. v)),
      set_field (extractStringField json ''direction'') (\<lambda>v. sd_direction_update (\<lambda>_. v))]
     sdp_default"

text \<open>The numbers \<open>(-?\d+)\<close> of the array, from left to right, each through \<open>std::stoi\<close>.\<close>

function array_numbers :: "string \<Rightarrow> int list outcome" where
  "array_numbers s =
     (case s of
        [] \<Rightarrow> Parsed []
      | c # r \<Rightarrow>
          (case int_value s of
             None \<Rightarrow> array_numbers r
           | Some ds \<Rightarrow>
               (case stoi ds of
                  None \<Rightarrow> Thrown
                | Some v \<Rightarrow> map_outcome ((#) v) (array_numbers (drop (length ds - 1) r)))))"
  by pat_completeness auto
termination by (relation "measure length") auto

declare array_numbers.simps [simp del]

definition mapping_default :: channel_mapping where
  "mapping_default = \<lparr>cm_streamID = null_id, cm_streamName = [], cm_streamChannelCount = 0,
     cm_streamChannelOffset = 0, cm_deviceChannelStart = 0, cm_deviceChannelCount = 0, cm_channelMap = []\<rparr>"

definition id_of_text :: "string outcome \<Rightarrow> stream_id outcome" where
  "id_of_text t =
     (case t of Parsed v \<Rightarrow> (case parse_stream_id v of None \<Rightarrow> Thrown | Some i \<Rightarrow> Parsed i)
      | Refused \<Rightarrow> Refused | Thrown \<Rightarrow> Thrown)"

definition mappingFromJSON :: "string \<Rightarrow> channel_mapping outcome" where
  "mappingFromJSON json = field_steps
     [set_field (id_of_text (extractStringField json ''streamID'')) (\<lambda>v. cm_streamID_update (\<lambda>_. v)),
      set_field (extractStringField json ''streamName'') (\<lambda>v. cm_streamName_update (\<lambda>_. v)),
      set_field (extractUInt16Field json ''streamChannelCount'') (\<lambda>v. cm_streamChannelCount_update (\<lambda>_. v)),
      set_field (extractUInt16Field json ''streamChannelOffset'') (\<lambda>v. cm_streamChannelOffset_update (\<lambda>_. v)),
      set_field (extractUInt16Field json ''deviceChannelStart'') (\<lambda>v. cm_deviceChannelStart_update (\<lambda>_. v)),
      set_field (extractUInt16Field json ''deviceChannelCount'') (\<lambda>v. cm_deviceChannelCount_update (\<lambda>_. v)),
      set_field (case search_field ''channelMap'' array_value json of None \<Rightarrow> Refused | Some a \<Rightarrow> array_numbers a)
        (\<lambda>v. cm_channelMap_update (\<lambda>_. v))]
     mapping_default"

record net_query =
  nq_isIPv4 :: "string \<Rightarrow> bool"
  nq_interfaces :: "net_interface list"

text \<open>The interface of a stream: the field, resolved to an address where that is possible.\<close>

definition resolve_interface_field :: "net_query \<Rightarrow> string outcome \<Rightarrow> string" where
  "resolve_interface_field q iface =
     (let auto = resolveInterfaceToIP (nq_isIPv4 q) (nq_interfaces q) []
      in case iface of
           Parsed spec \<Rightarrow>
             if spec = ''auto'' \<or> spec = [] then auto
             else if \<not> nq_isIPv4 q spec
             then let resolved = getInterfaceIP (nq_interfaces q) spec in if resolved \<noteq> [] then resolved else spec
             else spec
         | _ \<Rightarrow> auto)"

definition config_default :: persisted_config where
  "config_default = \<lparr>pv_sdp = sdp_default, pv_mapping = mapping_default, pv_enabled = True, pv_description = [],
     pv_createdTimestamp = 0, pv_modifiedTimestamp = 0, pv_jitterBufferDepth = 0, pv_networkInterface = []\<rparr>"

text \<open>A sub-object that is missing leaves the default; one that is refused refuses the whole.\<close>

definition sub_object :: "string \<Rightarrow> string \<Rightarrow> (string \<Rightarrow> 'v outcome) \<Rightarrow> ('v \<Rightarrow> 's \<Rightarrow> 's) \<Rightarrow> 's \<Rightarrow> 's outcome" where
  "sub_object json field read upd s =
     (case search_field field object_value json of
        None \<Rightarrow> Parsed s
      | Some body \<Rightarrow> map_outcome (\<lambda>v. upd v s) (read (''{'' @ body @ ''}'')))"

definition configFromJSON :: "net_query \<Rightarrow> string \<Rightarrow> persisted_config outcome" where
  "configFromJSON q json =
     (case field_steps
        [set_field (extractBoolField json ''enabled'') (\<lambda>v. pv_enabled_update (\<lambda>_. v)),
         set_field (extractStringField json ''description'') (\<lambda>v. pv_description_update (\<lambda>_. v)),
         set_field (extractUInt64Field json ''createdTimestamp'') (\<lambda>v. pv_createdTimestamp_update (\<lambda>_. v)),
         set_field (extractUInt64Field json ''modifiedTimestamp'') (\<lambda>v. pv_modifiedTimestamp_update (\<lambda>_. v)),
         set_field (extractUInt64Field json ''jitterBufferDepth'') (\<lambda>v. pv_jitterBufferDepth_update (\<lambda>_. v)),
         set_field (Parsed (resolve_interface_field q (extractStringField json ''networkInterface'')))
           (\<lambda>v. pv_networkInterface_update (\<lambda>_. v)),
         sub_object json ''sdp'' sdpFromJSON (\<lambda>v. pv_sdp_update (\<lambda>_. v)),
         sub_object json ''mapping'' mappingFromJSON (\<lambda>v. pv_mapping_update (\<lambda>_. v))]
        config_default of
        Parsed c \<Rightarrow> if persisted_isValid c then Parsed c else Refused
      | Refused \<Rightarrow> Refused
      | Thrown \<Rightarrow> Thrown)"

text \<open>
  The text between an opening bracket and the one that closes it, counting brackets, those
  inside strings included; \<open>depth\<close> is the count after the opening bracket.
\<close>

fun bracket_body :: "nat \<Rightarrow> string \<Rightarrow> string option" where
  "bracket_body depth [] = None"
| "bracket_body depth (c # cs) =
     (if c = CHR '']'' \<and> depth = 1 then Some []
      else map_option ((#) c) (bracket_body
        (if c = CHR ''['' then depth + 1 else if c = CHR '']'' then depth - 1 else depth) cs))"

text \<open>The objects of the array: the text is cut after each brace that closes an outermost one.\<close>

fun split_objects :: "int \<Rightarrow> string \<Rightarrow> string \<Rightarrow> string list" where
  "split_objects depth cur [] = []"
| "split_objects depth cur (c # cs) =
     (if c = CHR ''{'' then split_objects (depth + 1) (cur @ [c]) cs
      else if c = CHR ''}''
      then if depth - 1 = 0 then (cur @ [c]) # split_objects 0 [] cs else split_objects (depth - 1) (cur @ [c]) cs
      else split_objects depth (cur @ [c]) cs)"

text \<open>Objects that are refused are left out.\<close>

fun read_objects :: "net_query \<Rightarrow> string list \<Rightarrow> persisted_config list outcome" where
  "read_objects q [] = Parsed []"
| "read_objects q (obj # objs) =
     (case configFromJSON q obj of
        Parsed c \<Rightarrow> map_outcome ((#) c) (read_objects q objs)
      | Refused \<Rightarrow> read_objects q objs
      | Thrown \<Rightarrow> Thrown)"

definition after_text :: "string \<Rightarrow> string \<Rightarrow> string option" where
  "after_text w = re_search (\<lambda>s. if take (length w) s = w then Some (drop (length w) s) else None)"

definition fromJSON :: "net_query \<Rightarrow> string \<Rightarrow> persisted_config list outcome" where
  "fromJSON q json =
     (case after_text (quoted ''streams'') json of
        None \<Rightarrow> Refused
      | Some s1 \<Rightarrow>
          (case after_text ''['' s1 of
             None \<Rightarrow> Refused
           | Some s2 \<Rightarrow>
               (case bracket_body 1 s2 of
                  None \<Rightarrow> Refused
                | Some streamsContent \<Rightarrow> read_objects q (split_objects 0 [] streamsContent))))"

section \<open>The configuration file\<close>

text \<open>
  The regular files by path, and what the operating system answers: whether the directory of the
  file is there or can be made, and whether a file can be opened for writing or copied.
\<close>

record config_store =
  cf_path :: string
  cf_files :: "string \<Rightarrow> string option"

record store_results =
  str_directory :: bool
  str_write :: bool
  str_copy :: bool

definition systemPath :: string where
  "systemPath = ''/Library/Application Support/AES67Driver/streams.json''"

text \<open>\<open>envPath\<close> is AES67_CONFIG_PATH, \<open>home\<close> is HOME or the home directory of the user.\<close>

definition getConfigSearchPaths :: "string option \<Rightarrow> string option \<Rightarrow> string list" where
  "getConfigSearchPaths envPath home =
     (case envPath of Some p \<Rightarrow> if p \<noteq> [] then [p] else [] | None \<Rightarrow> []) @
     (case home of Some h \<Rightarrow> if h \<noteq> [] then [h @ systemPath] else [] | None \<Rightarrow> []) @
     [systemPath]"

definition findExistingConfig :: "string option \<Rightarrow> string option \<Rightarrow> (string \<Rightarrow> string option) \<Rightarrow> string" where
  "findExistingConfig envPath home files =
     (case find (\<lambda>p. files p \<noteq> None) (getConfigSearchPaths envPath home) of None \<Rightarrow> [] | Some p \<Rightarrow> p)"

definition config_new :: "string option \<Rightarrow> string option \<Rightarrow> (string \<Rightarrow> string option) \<Rightarrow> config_store" where
  "config_new envPath home files =
     (let existing = findExistingConfig envPath home files
      in \<lparr>cf_path = (if existing \<noteq> [] then existing else systemPath), cf_files = files\<rparr>)"

definition setConfigPath :: "string \<Rightarrow> config_store \<Rightarrow> config_store" where
  "setConfigPath path st = st\<lparr>cf_path := path\<rparr>"

text \<open>Whether the directory could be made present; without a slash there is none.\<close>

definition ensureConfigDirectoryExists :: "store_results \<Rightarrow> config_store \<Rightarrow> bool" where
  "ensureConfigDirectoryExists r st \<longleftrightarrow> CHR ''/'' \<in> set (cf_path st) \<and> str_directory r"

definition saveConfig :: "store_results \<Rightarrow> persisted_config list \<Rightarrow> config_store \<Rightarrow> bool \<times> config_store" where
  "saveConfig r configs st =
     (if \<not> ensureConfigDirectoryExists r st then (False, st)
      else
        let json = toJSON configs
        in if json = [] then (False, st)
           else if \<not> str_write r then (False, st)
           else (True, st\<lparr>cf_files := (cf_files st)(cf_path st \<mapsto> json)\<rparr>))"

text \<open>A file that is not understood is copied to a backup and removed.\<close>

definition loadConfig ::
    "store_results \<Rightarrow> net_query \<Rightarrow> config_store \<Rightarrow> persisted_config list option outcome \<times> config_store" where
  "loadConfig r q st =
     (case cf_files st (cf_path st) of
        None \<Rightarrow> (Parsed None, st)
      | Some json \<Rightarrow>
          (case fromJSON q json of
             Parsed cs \<Rightarrow> (Parsed (Some cs), st)
           | Thrown \<Rightarrow> (Thrown, st)
           | Refused \<Rightarrow>
               let files = (if str_copy r then (cf_files st)(cf_path st @ ''.bak'' \<mapsto> json) else cf_files st)
               in (Parsed None, st\<lparr>cf_files := files(cf_path st := None)\<rparr>)))"

end
