(* ===== verification/Stream_Config_Roundtrip.thy ===== *)
theory Stream_Config_Roundtrip
  imports Stream_Config Sdp_Roundtrip
begin

text \<open>
  What the reader of the configuration file makes of what the writer wrote. The searches of the
  reader skip everything that is not the field they look for; so the fields of an object are read
  back as long as its texts need no escape and hold no bracket or brace (\<open>config_storable\<close>). A text
  with an opening bracket that is not closed makes the reader lose the end of the array.
\<close>

section \<open>Searching a text of fields\<close>

definition field_name :: "string \<Rightarrow> bool" where
  "field_name k \<longleftrightarrow> k \<noteq> [] \<and> CHR 0x22 \<notin> set k \<and> hd k \<noteq> CHR '','' \<and> hd k \<noteq> CHR '':'' \<and> hd k \<noteq> CHR 0x0A"

text \<open>No field \<open>k\<close> begins in the first text when the second follows it.\<close>

fun misses :: "string \<Rightarrow> string \<Rightarrow> string \<Rightarrow> bool" where
  "misses k [] r \<longleftrightarrow> True"
| "misses k (c # w) r \<longleftrightarrow> field_at k (c # w @ r) = None \<and> misses k w r"

lemma misses_append: "misses k (a @ b) r \<longleftrightarrow> misses k a (b @ r) \<and> misses k b r"
  by (induction a) auto

lemma search_misses: "misses k w r \<Longrightarrow> search_field k val (w @ r) = search_field k val r"
  by (induction w) (auto simp: search_field_def)

lemma field_at_noquote: "c \<noteq> CHR 0x22 \<Longrightarrow> field_at k (c # s) = None"
  by (simp add: field_at_def quoted_def)

lemma misses_noquote: "CHR 0x22 \<notin> set w \<Longrightarrow> misses k w r"
  by (induction w) (auto simp: field_at_noquote)

lemma quoted_prefix:
  assumes "CHR 0x22 \<notin> set s" "CHR 0x22 \<notin> set k"
  shows "take (length k + 2) (quoted s @ r) = quoted k \<longleftrightarrow> s = k"
proof
  assume "take (length k + 2) (quoted s @ r) = quoted k"
  then have "quoted s @ r = quoted k @ drop (length k + 2) (quoted s @ r)"
    by (metis append_take_drop_id)
  then have "s @ CHR 0x22 # r = k @ CHR 0x22 # drop (length k + 2) (quoted s @ r)"
    by (simp add: quoted_def)
  then have "takeWhile (\<lambda>x. x \<noteq> CHR 0x22) (s @ CHR 0x22 # r) =
      takeWhile (\<lambda>x. x \<noteq> CHR 0x22) (k @ CHR 0x22 # drop (length k + 2) (quoted s @ r))" by simp
  then show "s = k" using takeWhile_sep [OF assms(1)] takeWhile_sep [OF assms(2)] by simp
qed (simp add: quoted_def)

lemma field_at_quoted:
  assumes "CHR 0x22 \<notin> set s" "CHR 0x22 \<notin> set k"
  shows "field_at k (quoted s @ r) =
    (if s = k then case dropWhile is_space r of c # r' \<Rightarrow> if c = CHR '':'' then Some (dropWhile is_space r') else None
       | [] \<Rightarrow> None else None)"
  using quoted_prefix [OF assms, of r] by (simp add: field_at_def) (simp add: quoted_def)

definition no_colon :: "string \<Rightarrow> bool" where
  "no_colon r \<longleftrightarrow> (\<forall>r'. dropWhile is_space r \<noteq> CHR '':'' # r')"

lemma misses_quoted:
  assumes s: "CHR 0x22 \<notin> set s" and k: "field_name k" and r: "r \<noteq> []" "hd r \<noteq> hd k" and miss: "s \<noteq> k \<or> no_colon r"
  shows "misses k (quoted s) r"
proof -
  have q: "CHR 0x22 \<notin> set k" "k \<noteq> []" using k by (simp_all add: field_name_def)
  have "field_at k (quoted s @ r) = None"
    using miss unfolding field_at_quoted [OF s q(1)] no_colon_def by (auto split: list.splits)
  moreover have "field_at k (CHR 0x22 # r) = None"
  proof -
    obtain c r' where "r = c # r'" using r(1) by (cases r) auto
    moreover obtain d k' where "k = d # k'" using q(2) by (cases k) auto
    ultimately show ?thesis using r(2) by (simp add: field_at_def quoted_def)
  qed
  ultimately show ?thesis
    using misses_noquote [OF s] by (simp add: quoted_def misses_append)
qed

lemma search_hit:
  assumes "CHR 0x22 \<notin> set k" "v \<noteq> []" "\<not> is_space (hd v)" "val (v @ r) = Some x"
  shows "search_field k val (json_field k v @ r) = Some x"
proof -
  have "field_at k (quoted k @ '': '' @ v @ r) = Some (v @ r)"
    using assms(2,3) unfolding field_at_quoted [OF assms(1,1)] by (cases v) (simp_all add: is_space_def)
  with assms(4) show ?thesis
    by (simp add: search_field_def json_field_def) (simp add: quoted_def)
qed

text \<open>What follows a value: a comma, or the end of a line with no colon after it.\<close>

definition sep :: "string \<Rightarrow> bool" where
  "sep r \<longleftrightarrow> r \<noteq> [] \<and> (hd r = CHR '','' \<or> hd r = CHR 0x0A) \<and> no_colon r"

lemma sep_comma: "sep (CHR '','' # r)" by (simp add: sep_def no_colon_def is_space_def)

lemma sep_nl: "no_colon r \<Longrightarrow> sep (CHR 0x0A # r)"
  by (simp add: sep_def no_colon_def is_space_def)

definition skips :: "string \<Rightarrow> string \<Rightarrow> bool" where
  "skips k w \<longleftrightarrow> (\<forall>r. sep r \<longrightarrow> misses k w r)"

lemma skips_noquote: "CHR 0x22 \<notin> set w \<Longrightarrow> skips k w"
  by (simp add: skips_def misses_noquote)

lemma skips_quoted: "CHR 0x22 \<notin> set s \<Longrightarrow> field_name k \<Longrightarrow> skips k (quoted s)"
  unfolding skips_def by (intro allI impI misses_quoted) (auto simp: sep_def field_name_def)

lemma misses_field:
  assumes "field_name k" "field_name k'" "k' \<noteq> k" "skips k v" "sep r"
  shows "misses k (json_field k' v) r"
proof -
  have "misses k (quoted k') ('': '' @ v @ r)"
    by (rule misses_quoted) (use assms in \<open>auto simp: field_name_def\<close>)
  moreover have "misses k '': '' (v @ r)" by (rule misses_noquote) simp
  ultimately show ?thesis using assms(4,5) by (simp add: json_field_def misses_append skips_def)
qed

lemma field_text: "json_lines pad ((k, v) # fs) = pad @ json_field k v @ (if fs = [] then nl else CHR '','' # nl @ json_lines pad fs)"
  by (cases fs) auto

lemma search_lines:
  assumes "map_of fs k = Some v" "field_name k" "CHR 0x22 \<notin> set pad" "no_colon r"
    and others: "\<forall>(k', v') \<in> set fs. field_name k' \<and> (k' \<noteq> k \<longrightarrow> skips k v')"
    and val: "v \<noteq> []" "\<not> is_space (hd v)" "\<And>t. sep t \<Longrightarrow> val (v @ t) = Some x"
  shows "search_field k val (json_lines pad fs @ r) = Some x"
  using assms(1) others
proof (induction fs)
  case (Cons f fs)
  obtain k' v' where f: "f = (k', v')" by fastforce
  let ?t = "(if fs = [] then nl else CHR '','' # nl @ json_lines pad fs) @ r"
  have t: "sep ?t" using sep_comma sep_nl [OF assms(4)] by (simp add: nl_def)
  have split: "search_field k val (json_lines pad (f # fs) @ r) = search_field k val (json_field k' v' @ ?t)"
    unfolding f field_text by (simp add: search_misses [OF misses_noquote [OF assms(3)]])
  show ?case
  proof (cases "k' = k")
    case True
    then have "v' = v" using Cons.prems(1) f by simp
    with True search_hit [OF _ val(1,2), of k val ?t x] val(3) [OF t] assms(2) split show ?thesis
      by (simp add: field_name_def)
  next
    case False
    have "misses k (json_field k' v') ?t"
      using misses_field [OF assms(2) _ False _ t] Cons.prems(2) False f by auto
    then have s: "search_field k val (json_lines pad (f # fs) @ r) = search_field k val ?t"
      using split search_misses by metis
    have m: "map_of fs k = Some v" using Cons.prems(1) False f by simp
    then have "fs \<noteq> []" by auto
    moreover have "search_field k val (CHR '','' # nl @ json_lines pad fs @ r) = search_field k val (json_lines pad fs @ r)"
      using search_misses [OF misses_noquote [of "CHR '','' # nl"], of k val "json_lines pad fs @ r"] by (simp add: nl_def)
    ultimately show ?thesis using s Cons.IH [OF m] Cons.prems(2) by simp
  qed
qed simp

lemma skips_lines:
  assumes "field_name k" "CHR 0x22 \<notin> set pad" "no_colon r" "\<forall>(k', v) \<in> set fs. field_name k' \<and> k' \<noteq> k \<and> skips k v"
  shows "misses k (json_lines pad fs) r"
  using assms(4)
proof (induction fs)
  case (Cons f fs)
  obtain k' v where f: "f = (k', v)" by fastforce
  let ?t = "if fs = [] then nl else CHR '','' # nl @ json_lines pad fs"
  have "sep (?t @ r)" using sep_comma sep_nl [OF assms(3)] by (simp add: nl_def)
  then have "misses k (json_field k' v) (?t @ r)"
    using misses_field [OF assms(1)] Cons.prems f by auto
  moreover have "misses k ?t r"
    using Cons misses_noquote [of nl k r] misses_noquote [of "CHR '','' # nl" k "json_lines pad fs @ r"]
    by (auto simp: nl_def misses_append simp flip: append_Cons)
  ultimately show ?case
    unfolding f field_text using misses_noquote [OF assms(2)] by (simp add: misses_append)
qed simp

lemma no_colon_close: "no_colon (replicate n CHR '' '' @ CHR ''}'' # r)"
  by (induction n) (simp_all add: no_colon_def is_space_def)

lemma object_text: "json_object i fs = (''{'' @ nl) @ json_lines (replicate (i + 2) CHR '' '') fs @ (replicate i CHR '' '' @ ''}'')"
  by (simp add: json_object_def)

lemma search_object:
  assumes "map_of fs k = Some v" "field_name k" "CHR 0x22 \<notin> set w"
    and others: "\<forall>(k', v') \<in> set fs. field_name k' \<and> (k' \<noteq> k \<longrightarrow> skips k v')"
    and val: "v \<noteq> []" "\<not> is_space (hd v)" "\<And>t. sep t \<Longrightarrow> val (v @ t) = Some x"
  shows "search_field k val (w @ json_object i fs @ r) = Some x"
proof -
  have "search_field k val (w @ json_object i fs @ r) =
      search_field k val (json_lines (replicate (i + 2) CHR '' '') fs @ replicate i CHR '' '' @ ''}'' @ r)"
    using search_misses [OF misses_noquote [of "w @ ''{'' @ nl"]] assms(3) by (simp add: object_text nl_def)
  also have "\<dots> = Some x"
    using search_lines [where k = k and v = v, OF assms(1,2) _ _ others val(1,2), of "replicate (i + 2) CHR '' ''"
      "replicate i CHR '' '' @ ''}'' @ r" val x] val(3) no_colon_close by simp
  finally show ?thesis .
qed

lemma skips_object:
  assumes "field_name k" "\<forall>(k', v) \<in> set fs. field_name k' \<and> k' \<noteq> k \<and> skips k v"
  shows "skips k (json_object i fs)"
  unfolding skips_def
proof (intro allI impI)
  fix r
  have "misses k (json_lines (replicate (i + 2) CHR '' '') fs) (replicate i CHR '' '' @ CHR ''}'' # r)"
    by (rule skips_lines [OF assms(1) _ _ assms(2)]) (use no_colon_close in auto)
  then show "misses k (json_object i fs) r"
    using misses_noquote [of "''{'' @ nl"] misses_noquote [of "replicate i CHR '' '' @ ''}''"]
    by (simp add: object_text misses_append nl_def)
qed

section \<open>Values\<close>

definition plain :: "string \<Rightarrow> bool" where
  "plain s \<longleftrightarrow> (\<forall>c \<in> set s. c \<notin> {CHR 0x22, CHR 0x5C, CHR 0x0A, CHR 0x0D, CHR 0x09, CHR ''['', CHR '']'', CHR ''{'', CHR ''}''})"

lemma escape_plain: "plain s \<Longrightarrow> escapeJSON s = s"
  by (induction s) (simp_all add: plain_def escapeJSON_def)

lemma plain_quote: "plain s \<Longrightarrow> CHR 0x22 \<notin> set s"
  by (auto simp: plain_def)

lemma json_text_plain: "plain s \<Longrightarrow> json_text s = quoted s"
  by (simp add: json_text_def escape_plain)

lemma string_value_quoted: "CHR 0x22 \<notin> set s \<Longrightarrow> string_value (quoted s @ t) = Some s"
  using takeWhile_sep [of "CHR 0x22" s t] by (simp add: string_value_def quoted_def)

lemma sep_not_digit: "sep t \<Longrightarrow> takeWhile is_digit t = []"
  by (cases t) (auto simp: sep_def is_digit_def)

lemma digits_value_show: "sep t \<Longrightarrow> digits_value (show_nat n @ t) = Some (show_nat n)"
  using show_nat_digits [of n] by (simp add: digits_value_def sep_not_digit Let_def)

lemma hd_show_nat: "is_digit (hd (show_nat n))"
  using show_nat_digits [of n] by (cases "show_nat n") auto

lemma show_nat_hd: "\<not> is_space (hd (show_nat n))" "hd (show_nat n) \<noteq> CHR ''-''"
  using is_digit_not_special [OF hd_show_nat] by auto

lemma int_value_digits: "hd s \<noteq> CHR ''-'' \<Longrightarrow> s \<noteq> [] \<Longrightarrow> int_value s = digits_value s"
  by (cases s) (simp_all add: int_value_def)

lemma show_int_cases: "show_int i = (if i < 0 then [CHR ''-''] else []) @ show_nat (nat \<bar>i\<bar>)"
  by (simp add: show_int_def)

lemma int_value_show_gen:
  assumes "takeWhile is_digit t = []"
  shows "int_value (show_int i @ t) = Some (show_int i)"
proof -
  have d: "digits_value (show_nat n @ t) = Some (show_nat n)" for n
    using show_nat_digits [of n] assms by (simp add: digits_value_def Let_def)
  have "int_value (show_nat n @ t) = Some (show_nat n)" for n
    using int_value_digits [of "show_nat n @ t"] show_nat_hd(2) [of n] d by simp
  then show ?thesis using d by (simp add: show_int_def) (simp add: int_value_def)
qed

lemma stoi_minus:
  assumes "0 < n" "n \<le> 2 ^ 31"
  shows "stoi (CHR ''-'' # show_nat n) = Some (- int n)"
proof -
  have t: "takeWhile is_digit (show_nat n) = show_nat n" using show_nat_digits [of n] by simp
  show ?thesis
    using assms by (simp add: stoi_def Let_def is_space_def digits_show_nat t)
qed

lemma stoi_show_int:
  assumes "- (2 ^ 31) \<le> i" "i < 2 ^ 31"
  shows "stoi (show_int i) = Some i"
proof (cases "i < 0")
  case True
  then show ?thesis using stoi_minus [of "nat (- i)"] assms(1) by (simp add: show_int_def)
next
  case False
  then show ?thesis using stoi_show_nat [of "nat i"] assms(2) by (simp add: show_int_def)
qed

lemma show_nat_no: "\<not> is_digit c \<Longrightarrow> c \<notin> set (show_nat n)"
  using show_nat_digits by blast

lemma show_int_no: "\<not> is_digit c \<Longrightarrow> c \<noteq> CHR ''-'' \<Longrightarrow> c \<notin> set (show_int i)"
  using show_nat_no by (auto simp: show_int_def)

lemma bool_value_json: "bool_value (json_bool b @ t) = Some b"
  by (simp add: bool_value_def json_bool_def)

lemma show_int_ne: "show_int i \<noteq> []" "\<not> is_space (hd (show_int i))"
  using show_nat_hd(1) by (auto simp: show_int_def is_space_def)

section \<open>Extracting a field of an object\<close>

definition flat_fields :: "(string \<times> string) list \<Rightarrow> bool" where
  "flat_fields fs \<longleftrightarrow> (\<forall>(k, v) \<in> set fs. field_name k \<and> (\<forall>k'. field_name k' \<longrightarrow> skips k' v))"

lemma flat_search:
  assumes "flat_fields fs" "map_of fs k = Some v" "CHR 0x22 \<notin> set w"
    and "v \<noteq> []" "\<not> is_space (hd v)" "\<And>t. sep t \<Longrightarrow> val (v @ t) = Some x"
  shows "search_field k val (w @ json_object i fs @ r) = Some x"
proof -
  have "(k, v) \<in> set fs" using assms(2) by (rule map_of_SomeD)
  then have "field_name k" using assms(1) by (auto simp: flat_fields_def)
  with assms show ?thesis by (intro search_object) (auto simp: flat_fields_def)
qed

text \<open>Texts in which a field can be looked up; the field's text is given by a list.\<close>

definition finds :: "string \<Rightarrow> (string \<times> string) list \<Rightarrow> bool" where
  "finds json fs \<longleftrightarrow> (\<exists>w i r. json = w @ json_object i fs @ r \<and> CHR 0x22 \<notin> set w) \<and>
     (\<forall>(k, v) \<in> set fs. field_name k) \<and>
     (\<forall>k v. map_of fs k = Some v \<longrightarrow> (\<forall>(k', v') \<in> set fs. k' \<noteq> k \<longrightarrow> skips k v'))"

lemma finds_search:
  assumes "finds json fs" "map_of fs k = Some v" "v \<noteq> []" "\<not> is_space (hd v)" "\<And>t. sep t \<Longrightarrow> val (v @ t) = Some x"
  shows "search_field k val json = Some x"
proof -
  obtain w i r where j: "json = w @ json_object i fs @ r" "CHR 0x22 \<notin> set w" using assms(1) unfolding finds_def by blast
  have "(k, v) \<in> set fs" using assms(2) by (rule map_of_SomeD)
  then have "field_name k" using assms(1) by (auto simp: finds_def)
  moreover have "\<forall>(k', v') \<in> set fs. field_name k' \<and> (k' \<noteq> k \<longrightarrow> skips k v')"
    using assms(1,2) unfolding finds_def by blast
  ultimately show ?thesis unfolding j(1)
    using search_object [OF assms(2) _ j(2) _ assms(3,4), of val x i r] assms(5) by blast
qed

lemma extract_string:
  assumes "finds json fs" "map_of fs k = Some (json_text s)" "plain s"
  shows "extractStringField json k = Parsed s"
proof -
  have "search_field k string_value json = Some s"
    by (rule finds_search [OF assms(1,2)])
      (simp_all add: json_text_plain assms(3) string_value_quoted plain_quote, simp_all add: quoted_def is_space_def)
  then show ?thesis by (simp add: extractStringField_def)
qed

lemma extract_id:
  assumes "finds json fs" "map_of fs k = Some (quoted s)" "CHR 0x22 \<notin> set s"
  shows "extractStringField json k = Parsed s"
proof -
  have "search_field k string_value json = Some s"
    by (rule finds_search [OF assms(1,2)])
      (simp_all add: assms(3) string_value_quoted, simp_all add: quoted_def is_space_def)
  then show ?thesis by (simp add: extractStringField_def)
qed

lemma search_digits:
  assumes "finds json fs" "map_of fs k = Some (show_nat n)"
  shows "search_field k digits_value json = Some (show_nat n)"
  by (rule finds_search [OF assms]) (simp_all add: digits_value_show show_nat_hd)

lemma extract_u64:
  assumes "finds json fs" "map_of fs k = Some (show_nat (unat (n :: u64)))"
  shows "extractUInt64Field json k = Parsed n"
  using search_digits [OF assms] by (simp add: extractUInt64Field_def stoull_unat)

lemma extract_small:
  assumes "finds json fs" "map_of fs k = Some (show_nat (unat (n :: 'a::len word)))" "LENGTH('a) \<le> 64"
  shows "map_outcome ucast (extractUInt64Field json k) = Parsed n"
proof -
  have "ucast (ucast n :: u64) = n" using assms(3) by transfer (simp add: take_bit_take_bit min_def)
  then show ?thesis
    using search_digits [OF assms(1,2)] by (simp add: extractUInt64Field_def stoull_unat assms(3))
qed

lemma extract_u32: "finds json fs \<Longrightarrow> map_of fs k = Some (show_nat (unat (n :: u32))) \<Longrightarrow> extractUInt32Field json k = Parsed n"
  and extract_u16: "finds json fs \<Longrightarrow> map_of fs k = Some (show_nat (unat (n' :: u16))) \<Longrightarrow> extractUInt16Field json k = Parsed n'"
  and extract_u8: "finds json fs \<Longrightarrow> map_of fs k = Some (show_nat (unat (n'' :: u8))) \<Longrightarrow> extractUInt8Field json k = Parsed n''"
  by (simp_all add: extractUInt32Field_def extractUInt16Field_def extractUInt8Field_def extract_small)

lemma extract_int:
  assumes "finds json fs" "map_of fs k = Some (show_int i)" "- (2 ^ 31) \<le> i" "i < 2 ^ 31"
  shows "extractIntField json k = Parsed i"
proof -
  have "search_field k int_value json = Some (show_int i)"
    by (rule finds_search [OF assms(1,2)]) (simp_all add: int_value_show_gen sep_not_digit show_int_ne)
  then show ?thesis using assms(3,4) by (simp add: extractIntField_def stoi_show_int)
qed

lemma extract_bool:
  assumes "finds json fs" "map_of fs k = Some (json_bool b)"
  shows "extractBoolField json k = Parsed b"
proof -
  have "search_field k bool_value json = Some b"
    by (rule finds_search [OF assms]) (simp_all add: bool_value_json, simp_all add: json_bool_def is_space_def)
  then show ?thesis by (simp add: extractBoolField_def)
qed

section \<open>The session\<close>

text \<open>A session whose texts need no escape and whose numbers are in range.\<close>

definition sdp_storable :: "sdp_session \<Rightarrow> bool" where
  "sdp_storable s \<longleftrightarrow>
     (\<forall>w \<in> {sd_sessionName s, sd_sessionInfo s, sd_originUsername s, sd_originAddress s, sd_connectionAddress s,
        sd_encoding s, sd_sourceAddress s, sd_ptpMasterMAC s, sd_mediaClockType s, sd_direction s}. plain w) \<and>
     - (2 ^ 31) \<le> sd_ptpDomain s \<and> sd_ptpDomain s < 2 ^ 31"

text \<open>What comes back: the fields that are not written have their defaults.\<close>

definition stored_sdp :: "sdp_session \<Rightarrow> sdp_session" where
  "stored_sdp s = s\<lparr>sd_originAddressType := sd_originAddressType sdp_default,
     sd_originNetworkType := sd_originNetworkType sdp_default, sd_connectionType := sd_connectionType sdp_default,
     sd_connectionNetwork := sd_connectionNetwork sdp_default, sd_timeStart := sd_timeStart sdp_default,
     sd_timeStop := sd_timeStop sdp_default, sd_mediaType := sd_mediaType sdp_default,
     sd_transport := sd_transport sdp_default, sd_customAttributes := sd_customAttributes sdp_default\<rparr>"

lemma finds_flat:
  assumes "flat_fields fs" "CHR 0x22 \<notin> set w"
  shows "finds (w @ json_object i fs @ r) fs"
proof -
  have "field_name k" if "map_of fs k = Some v" for k v
    using map_of_SomeD [OF that] assms(1) by (auto simp: flat_fields_def)
  then have "\<forall>k v. map_of fs k = Some v \<longrightarrow> (\<forall>(k', v') \<in> set fs. k' \<noteq> k \<longrightarrow> skips k v')"
    using assms(1) by (auto simp: flat_fields_def)
  with assms show ?thesis unfolding finds_def by (auto simp: flat_fields_def)
qed

lemma skips_text: "plain s \<Longrightarrow> field_name k \<Longrightarrow> skips k (json_text s)"
  by (simp add: json_text_plain skips_quoted plain_quote)

lemma skips_nat: "skips k (show_nat n)"
  by (rule skips_noquote) (simp add: show_nat_no is_digit_def)

lemma skips_int: "skips k (show_int i)"
  by (rule skips_noquote) (simp add: show_int_no is_digit_def)

lemma sdp_flat: "sdp_storable s \<Longrightarrow> flat_fields (sdp_fields s)"
  by (simp add: flat_fields_def sdp_fields_def skips_text skips_nat skips_int sdp_storable_def) (simp add: field_name_def)

lemma sdp_read:
  assumes "finds json (sdp_fields s)" "sdp_storable s"
  shows "sdpFromJSON json = Parsed (stored_sdp s)"
proof -
  have p: "plain (sd_sessionName s)" "plain (sd_sessionInfo s)" "plain (sd_originUsername s)" "plain (sd_originAddress s)"
    "plain (sd_connectionAddress s)" "plain (sd_encoding s)" "plain (sd_sourceAddress s)" "plain (sd_ptpMasterMAC s)"
    "plain (sd_mediaClockType s)" "plain (sd_direction s)" "- (2 ^ 31) \<le> sd_ptpDomain s" "sd_ptpDomain s < 2 ^ 31"
    using assms(2) by (simp_all add: sdp_storable_def)
  have str: "extractStringField json ''sessionName'' = Parsed (sd_sessionName s)"
    "extractStringField json ''sessionInfo'' = Parsed (sd_sessionInfo s)"
    "extractStringField json ''originUsername'' = Parsed (sd_originUsername s)"
    "extractStringField json ''originAddress'' = Parsed (sd_originAddress s)"
    "extractStringField json ''connectionAddress'' = Parsed (sd_connectionAddress s)"
    "extractStringField json ''encoding'' = Parsed (sd_encoding s)"
    "extractStringField json ''sourceAddress'' = Parsed (sd_sourceAddress s)"
    "extractStringField json ''ptpMasterMAC'' = Parsed (sd_ptpMasterMAC s)"
    "extractStringField json ''mediaClockType'' = Parsed (sd_mediaClockType s)"
    "extractStringField json ''direction'' = Parsed (sd_direction s)"
    by (rule extract_string [OF assms(1)]; simp add: sdp_fields_def p)+
  have u64: "extractUInt64Field json ''sessionID'' = Parsed (sd_sessionID s)"
    "extractUInt64Field json ''sessionVersion'' = Parsed (sd_sessionVersion s)"
    by (rule extract_u64 [OF assms(1)]; simp add: sdp_fields_def p)+
  have u32: "extractUInt32Field json ''sampleRate'' = Parsed (sd_sampleRate s)"
    "extractUInt32Field json ''ptime'' = Parsed (sd_ptime s)"
    "extractUInt32Field json ''framecount'' = Parsed (sd_framecount s)"
    by (rule extract_u32 [OF assms(1)]; simp add: sdp_fields_def p)+
  have u16: "extractUInt16Field json ''port'' = Parsed (sd_port s)"
    "extractUInt16Field json ''numChannels'' = Parsed (sd_numChannels s)"
    by (rule extract_u16 [OF assms(1)]; simp add: sdp_fields_def p)+
  have u8: "extractUInt8Field json ''ttl'' = Parsed (sd_ttl s)"
    "extractUInt8Field json ''payloadType'' = Parsed (sd_payloadType s)"
    by (rule extract_u8 [OF assms(1)]; simp add: sdp_fields_def p)+
  have int: "extractIntField json ''ptpDomain'' = Parsed (sd_ptpDomain s)"
    by (rule extract_int [OF assms(1)]) (use p in \<open>simp_all add: sdp_fields_def\<close>)
  show ?thesis
    by (simp add: sdpFromJSON_def str u64 u32 u16 u8 int stored_sdp_def)
qed

section \<open>The mapping\<close>

definition int_ok :: "int \<Rightarrow> bool" where
  "int_ok i \<longleftrightarrow> - (2 ^ 31) \<le> i \<and> i < 2 ^ 31"

definition mapping_storable :: "channel_mapping \<Rightarrow> bool" where
  "mapping_storable m \<longleftrightarrow> uuid_ok (cm_streamID m) \<and> plain (cm_streamName m) \<and> (\<forall>i \<in> set (cm_channelMap m). int_ok i)"

lemma digit_char_set: "d < 16 \<Longrightarrow> digit_char d \<in> set ''0123456789abcdef''"
  unfolding digit_char_def by (rule nth_mem) simp

lemma id_chars: "c \<in> set (stream_id_toString i) \<Longrightarrow> c \<in> set ''0123456789abcdef-''"
proof -
  have "c \<in> set ''0123456789abcdef-''" if "c \<in> set (hex_byte b)" for b
    using that digit_char_set [OF unat_u8_div(1), of b] digit_char_set [OF unat_u8_div(2), of b]
    by (auto simp: hex_byte_def)
  then show "c \<in> set (stream_id_toString i) \<Longrightarrow> c \<in> set ''0123456789abcdef-''"
    by (auto simp: stream_id_toString_def simp del: set_simps) (auto split: if_splits)
qed

lemma id_plain: "plain (stream_id_toString i)"
  using id_chars by (fastforce simp: plain_def)

lemma drop_spaces_numbers: "array_numbers (CHR '' '' # r) = array_numbers r"
  by (subst array_numbers.simps) (simp add: int_value_def digits_value_def is_digit_def)

lemma drop_comma_numbers: "array_numbers (CHR '','' # r) = array_numbers r"
  by (subst array_numbers.simps) (simp add: int_value_def digits_value_def is_digit_def)

lemma array_numbers_show:
  assumes "int_ok i" "takeWhile is_digit t = []"
  shows "array_numbers (show_int i @ t) = map_outcome ((#) i) (array_numbers t)"
proof -
  obtain c r where c: "show_int i = c # r" using show_int_ne by (cases "show_int i") auto
  have iv: "int_value (c # r @ t) = Some (c # r)" using int_value_show_gen [OF assms(2), of i] c by simp
  have st: "stoi (c # r) = Some i" using stoi_show_int [of i] assms(1) c by (simp add: int_ok_def)
  show ?thesis unfolding c append_Cons by (subst array_numbers.simps) (simp add: iv st)
qed

lemma array_numbers_ints: "\<forall>i \<in> set is. int_ok i \<Longrightarrow> array_numbers (json_ints is) = Parsed is"
proof (induction "is" rule: json_ints.induct)
  case 1
  then show ?case by (simp add: array_numbers.simps [of "[]"])
next
  case (2 i)
  then show ?case using array_numbers_show [of i "[]"] by (simp add: array_numbers.simps [of "[]"])
next
  case (3 i v va)
  have "array_numbers (show_int i @ '', '' @ json_ints (v # va)) = map_outcome ((#) i) (array_numbers ('', '' @ json_ints (v # va)))"
    by (rule array_numbers_show) (use 3 in \<open>simp_all add: is_digit_def\<close>)
  with 3 show ?case by (simp add: drop_comma_numbers drop_spaces_numbers)
qed

lemma json_ints_chars: "c \<in> set (json_ints is) \<Longrightarrow> is_digit c \<or> c \<in> set ''-, ''"
proof (induction "is" rule: json_ints.induct)
  case (2 i)
  then show ?case using show_int_no [of c i] by auto
next
  case (3 i v va)
  then show ?case using show_int_no [of c i] by auto
qed simp

lemma json_ints_no: "\<not> is_digit c \<Longrightarrow> c \<notin> set ''-, '' \<Longrightarrow> c \<notin> set (json_ints is)"
  using json_ints_chars by blast

lemma mapping_flat: "mapping_storable m \<Longrightarrow> flat_fields (mapping_fields m)"
proof -
  assume m: "mapping_storable m"
  have "skips k (''['' @ json_ints is @ '']'')" for k "is"
    by (rule skips_noquote) (simp add: json_ints_no is_digit_def)
  moreover have "field_name k \<Longrightarrow> skips k (quoted (stream_id_toString i))" for k i
    by (rule skips_quoted [OF plain_quote [OF id_plain]])
  ultimately show ?thesis using m
    by (simp add: flat_fields_def mapping_fields_def skips_text skips_nat mapping_storable_def) (simp add: field_name_def)
qed

lemma array_value_json: "CHR '']'' \<notin> set w \<Longrightarrow> array_value (''['' @ w @ '']'' @ t) = Some w"
  using takeWhile_sep [of "CHR '']''" w t] by (simp add: array_value_def)

lemma mapping_read:
  assumes "finds json (mapping_fields m)" "mapping_storable m"
  shows "mappingFromJSON json = Parsed m"
proof -
  have p: "uuid_ok (cm_streamID m)" "plain (cm_streamName m)" "\<forall>i \<in> set (cm_channelMap m). int_ok i"
    using assms(2) by (simp_all add: mapping_storable_def)
  have i: "extractStringField json ''streamID'' = Parsed (stream_id_toString (cm_streamID m))"
    by (rule extract_id [OF assms(1)]) (simp_all add: mapping_fields_def plain_quote id_plain)
  have n: "extractStringField json ''streamName'' = Parsed (cm_streamName m)"
    by (rule extract_string [OF assms(1)]; simp add: mapping_fields_def p)
  have u: "extractUInt16Field json ''streamChannelCount'' = Parsed (cm_streamChannelCount m)"
    "extractUInt16Field json ''streamChannelOffset'' = Parsed (cm_streamChannelOffset m)"
    "extractUInt16Field json ''deviceChannelStart'' = Parsed (cm_deviceChannelStart m)"
    "extractUInt16Field json ''deviceChannelCount'' = Parsed (cm_deviceChannelCount m)"
    by (rule extract_u16 [OF assms(1)]; simp add: mapping_fields_def)+
  have a: "search_field ''channelMap'' array_value json = Some (json_ints (cm_channelMap m))"
  proof (rule finds_search [OF assms(1)])
    show "map_of (mapping_fields m) ''channelMap'' = Some (''['' @ json_ints (cm_channelMap m) @ '']'')"
      by (simp add: mapping_fields_def)
    show "array_value ((''['' @ json_ints (cm_channelMap m) @ '']'') @ t) = Some (json_ints (cm_channelMap m))" for t
      using array_value_json [of "json_ints (cm_channelMap m)" t] by (simp add: json_ints_no is_digit_def)
  qed (simp_all add: is_space_def)
  show ?thesis
    using p by (cases m) (simp add: mappingFromJSON_def i n u a id_of_text_def parse_toString array_numbers_ints)
qed

section \<open>Braces\<close>

definition nobrace :: "string \<Rightarrow> bool" where
  "nobrace w \<longleftrightarrow> CHR ''{'' \<notin> set w \<and> CHR ''}'' \<notin> set w"

lemma nobrace_append: "nobrace (a @ b) \<longleftrightarrow> nobrace a \<and> nobrace b"
  by (auto simp: nobrace_def)

lemma nobrace_text: "plain s \<Longrightarrow> nobrace (json_text s)"
  by (auto simp: json_text_plain quoted_def nobrace_def plain_def)

lemma nobrace_nat: "nobrace (show_nat n)"
  by (simp add: nobrace_def show_nat_no is_digit_def)

lemma nobrace_int: "nobrace (show_int n)"
  by (simp add: nobrace_def show_int_no is_digit_def)

lemma nobrace_simps: "nobrace []" "nobrace (c # w) \<longleftrightarrow> c \<noteq> CHR ''{'' \<and> c \<noteq> CHR ''}'' \<and> nobrace w"
  by (auto simp: nobrace_def)

lemma nobrace_lines:
  assumes "nobrace pad" "\<forall>(k, v) \<in> set fs. nobrace k \<and> nobrace v"
  shows "nobrace (json_lines pad fs)"
  using assms
  by (induction pad fs rule: json_lines.induct)
    (auto simp: nobrace_append nobrace_simps json_field_def quoted_def nl_def)

lemma sdp_nobrace: "sdp_storable s \<Longrightarrow> nobrace (json_lines (replicate n CHR '' '') (sdp_fields s))"
  by (rule nobrace_lines)
    (simp_all add: sdp_fields_def sdp_storable_def nobrace_text nobrace_nat nobrace_int nobrace_simps, simp add: nobrace_def)

lemma mapping_nobrace: "mapping_storable m \<Longrightarrow> nobrace (json_lines (replicate n CHR '' '') (mapping_fields m))"
proof (rule nobrace_lines)
  assume m: "mapping_storable m"
  have "nobrace (quoted (stream_id_toString (cm_streamID m)))"
    using id_plain [of "cm_streamID m"] by (auto simp: quoted_def nobrace_def plain_def)
  moreover have "nobrace (''['' @ json_ints (cm_channelMap m) @ '']'')"
    by (simp add: nobrace_def json_ints_no is_digit_def)
  ultimately show "\<forall>(k, v) \<in> set (mapping_fields m). nobrace k \<and> nobrace v"
    using m by (simp add: mapping_fields_def mapping_storable_def nobrace_text nobrace_nat nobrace_simps)
qed (simp add: nobrace_def)

definition object_body :: "nat \<Rightarrow> (string \<times> string) list \<Rightarrow> string" where
  "object_body i fs = nl @ json_lines (replicate (i + 2) CHR '' '') fs @ replicate i CHR '' ''"

lemma object_braces: "json_object i fs = ''{'' @ object_body i fs @ ''}''"
  by (simp add: json_object_def object_body_def)

lemma object_body_nobrace: "nobrace (json_lines (replicate (i + 2) CHR '' '') fs) \<Longrightarrow> nobrace (object_body i fs)"
  by (auto simp: object_body_def nobrace_append nl_def nobrace_simps) (simp add: nobrace_def)

lemma object_value_json:
  assumes "nobrace (object_body i fs)"
  shows "object_value (json_object i fs @ t) = Some (object_body i fs)"
proof -
  have "CHR ''}'' \<notin> set (object_body i fs)" "object_body i fs \<noteq> []"
    using assms by (simp_all add: nobrace_def object_body_def nl_def)
  then show ?thesis using takeWhile_sep [of "CHR ''}''" "object_body i fs" t]
    by (simp add: object_value_def object_braces)
qed

section \<open>One configuration\<close>

definition config_storable :: "persisted_config \<Rightarrow> bool" where
  "config_storable c \<longleftrightarrow> sdp_storable (pv_sdp c) \<and> mapping_storable (pv_mapping c) \<and> plain (pv_description c) \<and>
     plain (pv_networkInterface c) \<and> persisted_isValid c"

definition stored_config :: "net_query \<Rightarrow> persisted_config \<Rightarrow> persisted_config" where
  "stored_config q c = c\<lparr>pv_sdp := stored_sdp (pv_sdp c),
     pv_networkInterface := resolve_interface_field q (Parsed (pv_networkInterface c))\<rparr>"

lemma stored_sdp_valid: "sdp_isValid (stored_sdp s) = sdp_isValid s"
  by (simp add: sdp_isValid_iff stored_sdp_def)

lemma skips_sdp:
  assumes "sdp_storable s" "field_name k" "k \<notin> fst ` set (sdp_fields s)"
  shows "skips k (sdpToJSON s)"
  unfolding sdpToJSON_def
proof (rule skips_object [OF assms(2)])
  show "\<forall>(k', v) \<in> set (sdp_fields s). field_name k' \<and> k' \<noteq> k \<and> skips k v"
    using sdp_flat [OF assms(1)] assms(2,3) by (force simp: flat_fields_def)
qed

lemma skips_mapping:
  assumes "mapping_storable m" "field_name k" "k \<notin> fst ` set (mapping_fields m)"
  shows "skips k (mappingToJSON m)"
  unfolding mappingToJSON_def
proof (rule skips_object [OF assms(2)])
  show "\<forall>(k', v) \<in> set (mapping_fields m). field_name k' \<and> k' \<noteq> k \<and> skips k v"
    using mapping_flat [OF assms(1)] assms(2,3) by (force simp: flat_fields_def)
qed

lemma config_finds:
  assumes "config_storable c" "CHR 0x22 \<notin> set w"
  shows "finds (w @ configToJSON c) (config_fields c)"
proof -
  define KS where "KS = {''enabled'', ''description'', ''createdTimestamp'', ''modifiedTimestamp'', ''jitterBufferDepth'',
    ''networkInterface'', ''sdp'', ''mapping''}"
  have p: "sdp_storable (pv_sdp c)" "mapping_storable (pv_mapping c)" "plain (pv_description c)" "plain (pv_networkInterface c)"
    using assms(1) by (simp_all add: config_storable_def)
  have names: "field_name k" if "k \<in> KS" for k using that by (auto simp: field_name_def KS_def)
  have s: "skips k (sdpToJSON (pv_sdp c))" if "k \<in> KS" for k
    using skips_sdp [OF p(1) names [OF that]] that by (auto simp: sdp_fields_def KS_def)
  have m: "skips k (mappingToJSON (pv_mapping c))" if "k \<in> KS" for k
    using skips_mapping [OF p(2) names [OF that]] that by (auto simp: mapping_fields_def KS_def)
  have b: "skips k (json_bool x)" for k x by (rule skips_noquote) (simp add: json_bool_def)
  have keys: "k \<in> KS" if "(k, v) \<in> set (config_fields c)" for k v
    using that by (auto simp: config_fields_def KS_def)
  have all: "\<forall>(k', v) \<in> set (config_fields c). skips k v" if k: "k \<in> KS" for k
    by (simp add: config_fields_def s [OF k] m [OF k] b skips_text [OF p(3) names [OF k]]
        skips_text [OF p(4) names [OF k]] skips_nat)
  have "k \<in> KS" if "map_of (config_fields c) k = Some v" for k v
    using keys map_of_SomeD [OF that] by blast
  then have "\<forall>k v. map_of (config_fields c) k = Some v \<longrightarrow> (\<forall>(k', v') \<in> set (config_fields c). k' \<noteq> k \<longrightarrow> skips k v')"
    using all by blast
  moreover have "\<forall>(k, v) \<in> set (config_fields c). field_name k"
    using names keys by blast
  moreover have "\<exists>w' i r. w @ configToJSON c = w' @ json_object i (config_fields c) @ r \<and> CHR 0x22 \<notin> set w'"
    using assms(2) by (metis append_Nil2 configToJSON_def)
  ultimately show ?thesis unfolding finds_def by blast
qed

lemma hd_object: "json_object i fs \<noteq> []" "\<not> is_space (hd (json_object i fs))"
  by (simp_all add: json_object_def is_space_def)

lemma sub_object_read:
  assumes "finds json fs" "map_of fs k = Some (json_object 6 fs')" "nobrace (object_body 6 fs')"
    and "read (json_object 6 fs') = Parsed v"
  shows "sub_object json k read upd s = Parsed (upd v s)"
proof -
  have "search_field k object_value json = Some (object_body 6 fs')"
    by (rule finds_search [OF assms(1,2)]) (simp_all add: hd_object object_value_json [OF assms(3)])
  then show ?thesis using assms(4) by (simp add: sub_object_def object_braces)
qed

lemma config_read:
  assumes "config_storable c" "CHR 0x22 \<notin> set w"
  shows "configFromJSON q (w @ configToJSON c) = Parsed (stored_config q c)"
proof -
  let ?j = "w @ configToJSON c"
  note f = config_finds [OF assms]
  have p: "sdp_storable (pv_sdp c)" "mapping_storable (pv_mapping c)" "plain (pv_description c)" "plain (pv_networkInterface c)"
    using assms(1) by (simp_all add: config_storable_def)
  have b: "extractBoolField ?j ''enabled'' = Parsed (pv_enabled c)"
    by (rule extract_bool [OF f]) (simp add: config_fields_def)
  have s: "extractStringField ?j ''description'' = Parsed (pv_description c)"
    "extractStringField ?j ''networkInterface'' = Parsed (pv_networkInterface c)"
    by (rule extract_string [OF f]; simp add: config_fields_def p)+
  have u: "extractUInt64Field ?j ''createdTimestamp'' = Parsed (pv_createdTimestamp c)"
    "extractUInt64Field ?j ''modifiedTimestamp'' = Parsed (pv_modifiedTimestamp c)"
    "extractUInt64Field ?j ''jitterBufferDepth'' = Parsed (pv_jitterBufferDepth c)"
    by (rule extract_u64 [OF f]; simp add: config_fields_def)+
  have "finds (json_object 6 (sdp_fields (pv_sdp c))) (sdp_fields (pv_sdp c))"
    using finds_flat [OF sdp_flat [OF p(1)], of "[]" 6 "[]"] by simp
  then have sd: "sub_object ?j ''sdp'' sdpFromJSON upd x = Parsed (upd (stored_sdp (pv_sdp c)) x)" for upd and x :: persisted_config
    by (intro sub_object_read [OF f _ object_body_nobrace [OF sdp_nobrace [OF p(1)]]] sdp_read [OF _ p(1)])
      (simp_all add: config_fields_def sdpToJSON_def)
  have "finds (json_object 6 (mapping_fields (pv_mapping c))) (mapping_fields (pv_mapping c))"
    using finds_flat [OF mapping_flat [OF p(2)], of "[]" 6 "[]"] by simp
  then have mp: "sub_object ?j ''mapping'' mappingFromJSON upd x = Parsed (upd (pv_mapping c) x)" for upd and x :: persisted_config
    by (intro sub_object_read [OF f _ object_body_nobrace [OF mapping_nobrace [OF p(2)]]] mapping_read [OF _ p(2)])
      (simp_all add: config_fields_def mappingToJSON_def)
  have v: "persisted_isValid (stored_config q c)"
    using assms(1) by (simp add: config_storable_def persisted_isValid_def stored_config_def stored_sdp_valid)
  have "configFromJSON q ?j = (case Parsed (stored_config q c) of Parsed c \<Rightarrow> if persisted_isValid c then Parsed c else Refused
      | Refused \<Rightarrow> Refused | Thrown \<Rightarrow> Thrown)"
    unfolding configFromJSON_def by (simp add: b s u sd mp) (cases c; simp add: stored_config_def config_default_def)
  with v show ?thesis by simp
qed

section \<open>The whole file\<close>

lemma split_nobrace: "nobrace w \<Longrightarrow> split_objects d cur (w @ r) = split_objects d (cur @ w) r"
  by (induction w arbitrary: cur) (auto simp: nobrace_def)

lemma split_flat:
  assumes "nobrace (object_body i fs)" "0 < d"
  shows "split_objects d cur (json_object i fs @ r) = split_objects d (cur @ json_object i fs) r"
  using split_nobrace [OF assms(1), of "d + 1" "cur @ ''{''" "CHR ''}'' # r"] assms(2) by (simp add: object_braces)

lemma config_text:
  assumes "config_storable c"
  shows "\<exists>a b e. configToJSON c = CHR ''{'' # a @ sdpToJSON (pv_sdp c) @ b @ mappingToJSON (pv_mapping c) @ e @ ''}'' \<and>
    nobrace a \<and> nobrace b \<and> nobrace e"
proof -
  let ?pad = "replicate 6 CHR '' ''"
  have p: "plain (pv_description c)" "plain (pv_networkInterface c)" using assms by (simp_all add: config_storable_def)
  let ?a = "nl @ ?pad @ json_field ''enabled'' (json_bool (pv_enabled c)) @ '','' @ nl @
    ?pad @ json_field ''description'' (json_text (pv_description c)) @ '','' @ nl @
    ?pad @ json_field ''createdTimestamp'' (show_nat (unat (pv_createdTimestamp c))) @ '','' @ nl @
    ?pad @ json_field ''modifiedTimestamp'' (show_nat (unat (pv_modifiedTimestamp c))) @ '','' @ nl @
    ?pad @ json_field ''jitterBufferDepth'' (show_nat (unat (pv_jitterBufferDepth c))) @ '','' @ nl @
    ?pad @ json_field ''networkInterface'' (json_text (pv_networkInterface c)) @ '','' @ nl @
    ?pad @ quoted ''sdp'' @ '': ''"
  let ?b = "'','' @ nl @ ?pad @ quoted ''mapping'' @ '': ''"
  have sp: "nobrace (replicate n CHR '' '')" for n by (simp add: nobrace_def)
  let ?e = "nl @ replicate 4 CHR '' ''"
  have q: "nobrace (quoted w)" if "nobrace w" for w using that by (simp add: quoted_def nobrace_append nobrace_simps)
  have "configToJSON c = CHR ''{'' # ?a @ sdpToJSON (pv_sdp c) @ ?b @ mappingToJSON (pv_mapping c) @ ?e @ ''}''"
    by (simp add: configToJSON_def json_object_def config_fields_def json_field_def del: replicate.simps)
  moreover have "nobrace ?a"
    using nobrace_text [OF p(1)] nobrace_text [OF p(2)]
    by (simp add: nobrace_append json_field_def q sp nobrace_nat nobrace_simps nl_def json_bool_def del: replicate.simps)
  moreover have "nobrace ?b" "nobrace ?e" by (simp_all add: nobrace_append q sp nobrace_simps nl_def del: replicate.simps)
  ultimately show ?thesis by blast
qed

lemma split_config:
  assumes "config_storable c" "nobrace w"
  shows "split_objects 0 [] (w @ configToJSON c @ r) = (w @ configToJSON c) # split_objects 0 [] r"
proof -
  obtain a b e where t: "configToJSON c = CHR ''{'' # a @ sdpToJSON (pv_sdp c) @ b @ mappingToJSON (pv_mapping c) @ e @ ''}''"
    "nobrace a" "nobrace b" "nobrace e" using config_text [OF assms(1)] by blast
  have o': "nobrace (object_body 6 (sdp_fields (pv_sdp c)))" "nobrace (object_body 6 (mapping_fields (pv_mapping c)))"
    using assms(1) by (simp_all add: config_storable_def object_body_nobrace sdp_nobrace mapping_nobrace)
  show ?thesis unfolding t(1)
    by (simp add: split_nobrace t(2-4) assms(2) sdpToJSON_def mappingToJSON_def split_flat o')
qed

lemma no_quote_sep: "CHR 0x22 \<notin> set w \<Longrightarrow> CHR 0x22 \<notin> set (w @ ''    '')"
  by simp

lemma split_streams:
  assumes "list_all config_storable cs" "nobrace w" "CHR 0x22 \<notin> set w" "nobrace t"
  shows "read_objects q (split_objects 0 [] (w @ json_streams cs @ t)) = Parsed (map (stored_config q) cs)"
  using assms(1-3)
proof (induction cs arbitrary: w rule: json_streams.induct)
  case 1
  have "split_objects 0 [] (w @ t) = []"
    using split_nobrace [of "w @ t" 0 "[]" "[]"] 1 assms(4) by (simp add: nobrace_append)
  then show ?case by simp
next
  case (2 c)
  have "split_objects 0 [] t = []" using split_nobrace [OF assms(4), of 0 "[]" "[]"] by simp
  moreover have "nobrace (w @ ''    '')" "CHR 0x22 \<notin> set (w @ ''    '')" using 2 by (simp_all add: nobrace_append nobrace_simps)
  ultimately show ?case
    using split_config [of c "w @ ''    ''" t] config_read [of c "w @ ''    ''" q] 2(1) by simp
next
  case (3 c d cs)
  have w: "nobrace (w @ ''    '')" "CHR 0x22 \<notin> set (w @ ''    '')" using 3 by (simp_all add: nobrace_append nobrace_simps)
  have n: "nobrace ('','' @ nl)" "CHR 0x22 \<notin> set ('','' @ nl)" by (simp_all add: nobrace_simps nl_def)
  have "read_objects q (split_objects 0 [] (('','' @ nl) @ json_streams (d # cs) @ t)) = Parsed (map (stored_config q) (d # cs))"
    by (rule "3.IH") (use 3 n in simp_all)
  then show ?case
    using split_config [OF _ w(1), of c "('','' @ nl) @ json_streams (d # cs) @ t"] config_read [OF _ w(2), of c q] 3(2) by simp
qed

section \<open>Brackets\<close>

text \<open>The text leaves the bracket counter higher by \<open>n\<close> and does not end the scan.\<close>

definition shifts :: "nat \<Rightarrow> string \<Rightarrow> bool" where
  "shifts n w \<longleftrightarrow> (\<forall>d r. 1 \<le> d \<longrightarrow> bracket_body d (w @ r) = map_option ((@) w) (bracket_body (d + n) r))"

lemma shifts_append: "shifts n a \<Longrightarrow> shifts m b \<Longrightarrow> shifts (n + m) (a @ b)"
  by (auto simp: shifts_def map_option_case add.assoc split: option.splits)

lemma shifts_Nil: "shifts 0 []"
  by (simp add: shifts_def map_option_case split: option.splits)

lemma shifts_Cons: "c \<noteq> CHR '']'' \<Longrightarrow> shifts (if c = CHR ''['' then 1 else 0) [c]"
  by (simp add: shifts_def map_option_case split: option.splits)

lemma shifts_noclose: "CHR '']'' \<notin> set w \<Longrightarrow> \<exists>n. shifts n w \<and> (n = 0 \<longleftrightarrow> CHR ''['' \<notin> set w)"
proof (induction w)
  case Nil
  then show ?case using shifts_Nil by auto
next
  case (Cons c w)
  then obtain n where "shifts n w" "n = 0 \<longleftrightarrow> CHR ''['' \<notin> set w" by auto
  moreover have "shifts ((if c = CHR ''['' then 1 else 0) + n) ([c] @ w)"
    using shifts_append [OF shifts_Cons \<open>shifts n w\<close>, of c] Cons.prems by auto
  ultimately show ?case
    by (intro exI [of _ "(if c = CHR ''['' then 1 else 0) + n"]) auto
qed

lemma shifts_flat: "CHR '']'' \<notin> set w \<Longrightarrow> CHR ''['' \<notin> set w \<Longrightarrow> shifts 0 w"
  using shifts_noclose by auto

lemma shifts_array: "CHR '']'' \<notin> set w \<Longrightarrow> CHR ''['' \<notin> set w \<Longrightarrow> shifts 0 (''['' @ w @ '']'')"
proof -
  assume w: "CHR '']'' \<notin> set w" "CHR ''['' \<notin> set w"
  have "bracket_body d (''['' @ w @ '']'' @ r) = map_option ((@) (''['' @ w @ '']'')) (bracket_body d r)" if "1 \<le> d" for d r
    using shifts_flat [OF w] that by (simp add: shifts_def map_option_case split: option.splits)
  then show ?thesis by (simp add: shifts_def)
qed

text \<open>Texts that keep the counter level, and texts that raise it, possibly by nothing.\<close>

definition rises :: "bool \<Rightarrow> string \<Rightarrow> bool" where
  "rises strict w \<longleftrightarrow> (\<exists>n. shifts n w \<and> (strict \<longrightarrow> 0 < n))"

lemma rises_append: "rises a v \<Longrightarrow> rises b w \<Longrightarrow> rises (a \<or> b) (v @ w)"
  unfolding rises_def using shifts_append by fastforce

lemma rises_weak: "rises a w \<Longrightarrow> rises False w"
  by (auto simp: rises_def)

lemma rises_flat: "CHR '']'' \<notin> set w \<Longrightarrow> rises (CHR ''['' \<in> set w) w"
  unfolding rises_def using shifts_noclose by fastforce

lemma shifts_lines:
  assumes "shifts 0 pad" "\<forall>(k, v) \<in> set fs. shifts 0 (quoted k) \<and> shifts 0 v"
  shows "shifts 0 (json_lines pad fs)"
  using assms(2)
proof (induction fs)
  case Nil
  then show ?case using shifts_Nil by simp
next
  case (Cons f fs)
  obtain k v where f: "f = (k, v)" by fastforce
  have "shifts 0 (if fs = [] then nl else CHR '','' # nl @ json_lines pad fs)"
    using Cons shifts_append [OF shifts_flat [of "CHR '','' # nl"], of 0 "json_lines pad fs"] shifts_flat [of nl]
    by (auto simp: nl_def)
  moreover have "shifts 0 (json_field k v)"
    using Cons.prems f shifts_append [of 0 "quoted k" 0 "'': '' @ v"] shifts_append [OF shifts_flat [of "'': ''"], of 0 v]
    by (simp add: json_field_def)
  ultimately show ?case
    unfolding f field_text using shifts_append [OF assms(1)] shifts_append [of 0 "json_field k v"] by fastforce
qed

lemma rises_lines:
  assumes "shifts 0 pad" "\<forall>(k, v) \<in> set fs. shifts 0 (quoted k) \<and> rises (k = key) v"
  shows "rises (key \<in> fst ` set fs) (json_lines pad fs)"
  using assms(2)
proof (induction fs)
  case Nil
  then show ?case using shifts_Nil by (auto simp: rises_def)
next
  case (Cons f fs)
  obtain k v where f: "f = (k, v)" by fastforce
  have z: "rises False w" if "shifts 0 w" for w using that by (auto simp: rises_def)
  have t: "rises (key \<in> fst ` set fs) (if fs = [] then nl else CHR '','' # nl @ json_lines pad fs)"
    using Cons rises_append [OF rises_flat [of "CHR '','' # nl"], of _ "json_lines pad fs"] rises_flat [of nl]
    by (auto simp: nl_def)
  have "rises (k = key) (json_field k v)"
    using Cons.prems f rises_append [OF z, of "quoted k" _ "'': '' @ v"] rises_append [OF rises_flat [of "'': ''"], of _ v]
    by (simp add: json_field_def)
  from rises_append [OF z [OF assms(1)] rises_append [OF this t]]
  show ?case unfolding f field_text by (simp add: eq_commute)
qed

lemma shifts_spaces: "shifts 0 (replicate n CHR '' '')"
  by (rule shifts_flat) auto

lemma shifts_object:
  assumes "\<forall>(k, v) \<in> set fs. shifts 0 (quoted k) \<and> shifts 0 v"
  shows "shifts 0 (json_object i fs)"
  using shifts_append [OF shifts_flat [of "''{'' @ nl"] shifts_append [OF shifts_lines [OF shifts_spaces assms, of "i + 2"]
      shifts_append [OF shifts_spaces [of i] shifts_flat [of "''}''"]]]]
  by (simp add: json_object_def nl_def)

lemma rises_object:
  assumes "\<forall>(k, v) \<in> set fs. shifts 0 (quoted k) \<and> rises (k = key) v"
  shows "rises (key \<in> fst ` set fs) (json_object i fs)"
  using rises_append [OF rises_flat [of "''{'' @ nl"] rises_append [OF rises_lines [OF shifts_spaces assms, of "i + 2"]
      rises_append [OF rises_flat [of "replicate i CHR '' ''"] rises_flat [of "''}''"]]]]
  by (simp add: json_object_def nl_def)

lemma shifts_text: "plain s \<Longrightarrow> shifts 0 (json_text s)"
  by (rule shifts_flat) (auto simp: json_text_plain quoted_def plain_def)

lemma shifts_nat: "shifts 0 (show_nat n)"
  by (rule shifts_flat) (simp_all add: show_nat_no is_digit_def)

lemma shifts_int: "shifts 0 (show_int n)"
  by (rule shifts_flat) (simp_all add: show_int_no is_digit_def)

lemma shifts_ints: "shifts 0 (''['' @ json_ints is @ '']'')"
  by (rule shifts_array) (simp_all add: json_ints_no is_digit_def)

lemma shifts_id: "shifts 0 (quoted (stream_id_toString i))"
  using id_plain [of i] by (intro shifts_flat) (auto simp: quoted_def plain_def)

lemma shifts_bool: "shifts 0 (json_bool b)"
  by (rule shifts_flat) (auto simp: json_bool_def)

lemma shifts_key: "CHR '']'' \<notin> set k \<Longrightarrow> CHR ''['' \<notin> set k \<Longrightarrow> shifts 0 (quoted k)"
  by (rule shifts_flat) (auto simp: quoted_def)

lemma shifts_config: "config_storable c \<Longrightarrow> shifts 0 (configToJSON c)"
proof -
  assume c: "config_storable c"
  have "shifts 0 (sdpToJSON (pv_sdp c))" unfolding sdpToJSON_def
    by (rule shifts_object)
      (use c in \<open>simp add: sdp_fields_def shifts_text shifts_nat shifts_int shifts_key config_storable_def sdp_storable_def\<close>)
  moreover have "shifts 0 (mappingToJSON (pv_mapping c))" unfolding mappingToJSON_def
    by (rule shifts_object)
      (use c shifts_ints in \<open>simp add: mapping_fields_def shifts_text shifts_nat shifts_id shifts_key config_storable_def
        mapping_storable_def\<close>)
  ultimately show ?thesis unfolding configToJSON_def
    by (intro shifts_object)
      (use c in \<open>simp add: config_fields_def shifts_text shifts_nat shifts_bool shifts_key config_storable_def\<close>)
qed

lemma shifts_streams: "list_all config_storable cs \<Longrightarrow> shifts 0 (json_streams cs)"
proof (induction cs rule: json_streams.induct)
  case 1
  then show ?case using shifts_Nil by simp
next
  case (2 c)
  then show ?case using shifts_append [OF shifts_flat [of "''    ''"] shifts_config] by simp
next
  case (3 c d cs)
  then show ?case
    using shifts_append [OF shifts_flat [of "''    ''"] shifts_append [OF shifts_config [of c]
        shifts_append [OF shifts_flat [of "'','' @ nl"], of 0 "json_streams (d # cs)"]]] by (simp add: nl_def)
qed

lemma toJSON_array: "\<exists>s1. after_text (quoted ''streams'') (toJSON cs) = Some s1 \<and>
    after_text ''['' s1 = Some (nl @ json_streams cs @ nl @ ''  ]'' @ nl @ ''}'')"
  by (simp add: toJSON_def after_text_def json_field_def quoted_def nl_def)

lemma file_roundtrip:
  assumes "list_all config_storable cs"
  shows "fromJSON q (toJSON cs) = Parsed (map (stored_config q) cs)"
proof -
  obtain s1 where s1: "after_text (quoted ''streams'') (toJSON cs) = Some s1"
    "after_text ''['' s1 = Some (nl @ json_streams cs @ nl @ ''  ]'' @ nl @ ''}'')" using toJSON_array by blast
  have "shifts 0 (nl @ json_streams cs @ nl @ ''  '')"
    using shifts_append [OF shifts_flat [of nl] shifts_append [OF shifts_streams [OF assms] shifts_flat [of "nl @ ''  ''"]]]
    by (simp add: nl_def)
  then have "bracket_body 1 ((nl @ json_streams cs @ nl @ ''  '') @ '']'' @ nl @ ''}'') = Some (nl @ json_streams cs @ nl @ ''  '')"
    unfolding shifts_def by simp
  moreover have "read_objects q (split_objects 0 [] (nl @ json_streams cs @ nl @ ''  '')) = Parsed (map (stored_config q) cs)"
    by (rule split_streams [OF assms]) (simp_all add: nl_def nobrace_simps)
  ultimately show ?thesis by (simp add: fromJSON_def s1)
qed

section \<open>An unbalanced bracket\<close>

definition noclose :: "string \<Rightarrow> bool" where
  "noclose s \<longleftrightarrow> CHR '']'' \<notin> set s"

definition texts_noclose :: "persisted_config \<Rightarrow> bool" where
  "texts_noclose c \<longleftrightarrow> list_all noclose [pv_description c, pv_networkInterface c, cm_streamName (pv_mapping c),
     sd_sessionName (pv_sdp c), sd_sessionInfo (pv_sdp c), sd_originUsername (pv_sdp c), sd_originAddress (pv_sdp c),
     sd_connectionAddress (pv_sdp c), sd_encoding (pv_sdp c), sd_sourceAddress (pv_sdp c), sd_ptpMasterMAC (pv_sdp c),
     sd_mediaClockType (pv_sdp c), sd_direction (pv_sdp c)]"

lemma escape_brackets: "CHR '']'' \<in> set (escapeJSON s) \<longleftrightarrow> CHR '']'' \<in> set s" "CHR ''['' \<in> set (escapeJSON s) \<longleftrightarrow> CHR ''['' \<in> set s"
  by (auto simp: escapeJSON_def split: if_splits)

lemma rises_text: "noclose s \<Longrightarrow> rises (CHR ''['' \<in> set s) (json_text s)"
  using rises_flat [of "json_text s"] by (simp add: json_text_def quoted_def noclose_def escape_brackets)

lemma rises_text_weak: "noclose s \<Longrightarrow> rises False (json_text s)"
  using rises_text rises_weak by blast

lemma rises_level: "shifts 0 w \<Longrightarrow> rises False w"
  by (auto simp: rises_def)

lemma rises_config:
  assumes "texts_noclose c"
  shows "rises (CHR ''['' \<in> set (sd_sessionName (pv_sdp c))) (configToJSON c)"
proof -
  note r = rises_level [OF shifts_nat] rises_level [OF shifts_int] rises_level [OF shifts_ints] rises_level [OF shifts_id]
    rises_level [OF shifts_bool] rises_text_weak shifts_key
  let ?b = "CHR ''['' \<in> set (sd_sessionName (pv_sdp c))"
  have p: "noclose (pv_description c)" "noclose (pv_networkInterface c)" "noclose (cm_streamName (pv_mapping c))"
     "noclose (sd_sessionName (pv_sdp c))" "noclose (sd_sessionInfo (pv_sdp c))" "noclose (sd_originUsername (pv_sdp c))"
     "noclose (sd_originAddress (pv_sdp c))" "noclose (sd_connectionAddress (pv_sdp c))" "noclose (sd_encoding (pv_sdp c))"
     "noclose (sd_sourceAddress (pv_sdp c))" "noclose (sd_ptpMasterMAC (pv_sdp c))"
     "noclose (sd_mediaClockType (pv_sdp c))" "noclose (sd_direction (pv_sdp c))"
    using assms by (simp_all add: texts_noclose_def)
  have m: "rises False (mappingToJSON (pv_mapping c))"
    using rises_object [of "mapping_fields (pv_mapping c)" "[]" 6] r(3)
    by (simp add: mappingToJSON_def mapping_fields_def r p)
  define k1 :: string where "k1 = (if ?b then ''sessionName'' else [])"
  have "rises (k1 \<in> fst ` set (sdp_fields (pv_sdp c))) (json_object 6 (sdp_fields (pv_sdp c)))"
    by (rule rises_object; cases ?b) (use rises_text [OF p(4)] in \<open>simp_all add: sdp_fields_def k1_def r p\<close>)
  then have s: "rises ?b (sdpToJSON (pv_sdp c))"
    by (cases ?b) (simp_all add: sdpToJSON_def k1_def sdp_fields_def)
  define k2 :: string where "k2 = (if ?b then ''sdp'' else [])"
  have "rises (k2 \<in> fst ` set (config_fields c)) (json_object 4 (config_fields c))"
    by (rule rises_object; cases ?b) (use s m in \<open>simp_all add: config_fields_def k2_def r p\<close>)
  then show ?thesis by (cases ?b) (simp_all add: configToJSON_def k2_def config_fields_def)
qed

lemma rises_streams:
  assumes "list_all texts_noclose cs"
  shows "rises (\<exists>c \<in> set cs. CHR ''['' \<in> set (sd_sessionName (pv_sdp c))) (json_streams cs)"
  using assms
proof (induction cs rule: json_streams.induct)
  case 1
  then show ?case using shifts_Nil by (auto simp: rises_def)
next
  case (2 c)
  then show ?case using rises_append [OF rises_flat [of "''    ''"] rises_config] by simp
next
  case (3 c d cs)
  then show ?case
    using rises_append [OF rises_flat [of "''    ''"] rises_append [OF rises_config [of c]
        rises_append [OF rises_flat [of "'','' @ nl"] "3.IH"]]] by (simp add: nl_def)
qed

lemma open_bracket_refused:
  assumes "list_all texts_noclose cs" "\<exists>c \<in> set cs. CHR ''['' \<in> set (sd_sessionName (pv_sdp c))"
  shows "fromJSON q (toJSON cs) = Refused"
proof -
  obtain s1 where s1: "after_text (quoted ''streams'') (toJSON cs) = Some s1"
    "after_text ''['' s1 = Some (nl @ json_streams cs @ nl @ ''  ]'' @ nl @ ''}'')" using toJSON_array by blast
  obtain n where n: "shifts n (json_streams cs)" "0 < n" using rises_streams [OF assms(1)] assms(2) by (auto simp: rises_def)
  have "shifts n (nl @ json_streams cs @ nl @ ''  '')"
    using shifts_append [OF shifts_flat [of nl] shifts_append [OF n(1) shifts_flat [of "nl @ ''  ''"]]] by (simp add: nl_def)
  then have "bracket_body 1 ((nl @ json_streams cs @ nl @ ''  '') @ '']'' @ nl @ ''}'') =
      map_option ((@) (nl @ json_streams cs @ nl @ ''  '')) (bracket_body (1 + n) ('']'' @ nl @ ''}''))"
    unfolding shifts_def by blast
  also have "\<dots> = None" using n(2) by (simp add: nl_def)
  finally show ?thesis by (simp add: fromJSON_def s1)
qed

end
