(* ===== verification/Stream_Table.thy ===== *)
theory Stream_Table
  imports Stream_Manager
begin

text \<open>
  The invariant of the stream manager: mapper, stream table and the endpoints of the streams agree, streams hold
  disjoint device channels, and nothing runs while I/O is inactive. Every public operation keeps it as long as mappings are
  sequential and have their stream's channel count; what holds without that is in Stream_Calls.
\<close>

section \<open>The mapper's table\<close>

lemma addMapping_get:
  assumes "mapper_wf mp" "addMapping m mp = (True, mp')"
  shows "getMapping i mp' = (if i = cm_streamID m then Some m else getMapping i mp)"
  using assms by (auto simp: addMapping_def validate_iff getMapping_def mapper_wf_def map_of_smap_put
      split: if_splits)

lemma updateMapping_get:
  assumes "mapper_wf mp" "updateMapping m mp = (True, mp')"
  shows "getMapping i mp' = (if i = cm_streamID m then Some m else getMapping i mp)"
  using assms by (auto simp: updateMapping_def validate_iff getMapping_def mapper_wf_def map_of_smap_put
      Let_def split: if_splits)

lemma removeMapping_get:
  "getMapping i (snd (removeMapping j mp)) = (if i = j then None else getMapping i mp)"
  by (auto simp: removeMapping_def getMapping_def map_of_smap_del split: option.split)

lemma mapper_wf_entry:
  "mapper_wf mp \<Longrightarrow> getMapping i mp = Some m \<Longrightarrow> cm_streamID m = i \<and> cm_isValid m \<and> cm_channelMap m = []"
  by (auto simp: mapper_wf_def getMapping_def dest: map_of_SomeD)

lemma mapper_wf_disjoint:
  assumes "mapper_wf mp" "getMapping i mp = Some m" "getMapping j mp = Some m'" "i \<noteq> j"
  shows "{cm_start m ..< cm_start m + cm_count m} \<inter> {cm_start m' ..< cm_start m' + cm_count m'} = {}"
proof -
  have "ch \<notin> {cm_start m' ..< cm_start m' + cm_count m'}" if "ch \<in> {cm_start m ..< cm_start m + cm_count m}" for ch
  proof
    assume ch': "ch \<in> {cm_start m' ..< cm_start m' + cm_count m'}"
    note e = mapper_wf_entry [OF assms(1,2)] mapper_wf_entry [OF assms(1,3)]
    have "containsDeviceChannel m (int ch)" "containsDeviceChannel m' (int ch)" "ch < 128"
      using e that ch' by (auto simp: containsDeviceChannel_def cm_isValid_iff)
    then have "getStreamForDeviceChannel (int ch) mp = Some i" "getStreamForDeviceChannel (int ch) mp = Some j"
      using mapper_wf_owner [OF assms(1), of "int ch"] assms(2,3) by auto
    with assms(4) show False by simp
  qed
  then show ?thesis by blast
qed

lemma addMapping_valid: "addMapping m mp = (True, mp') \<Longrightarrow> cm_isValid m"
  by (auto simp: addMapping_def validate_iff split: if_splits)

section \<open>Receivers and transmitters keep their session and mapping\<close>

lemma rx_start_static:
  assumes "rx_start r (rx, k) = (ok, rx', k')"
  shows "rx_sdp rx' = rx_sdp rx \<and> rx_mapping rx' = rx_mapping rx"
  using assms by (auto simp: rx_start_def Let_def split: if_splits prod.splits)

lemma rx_stop_static:
  assumes "rx_stop (rx, k) = (rx', k')"
  shows "rx_sdp rx' = rx_sdp rx \<and> rx_mapping rx' = rx_mapping rx \<and> \<not> rx_running rx'"
  using assms by (auto simp: rx_stop_def Let_def split: if_splits prod.splits)

lemma tx_start_static:
  assumes "tx_start r (tx, k) = (ok, tx', k')"
  shows "tx_sdp tx' = tx_sdp tx \<and> tx_mapping tx' = tx_mapping tx"
  using assms by (auto simp: tx_start_def Let_def split: if_splits prod.splits)

lemma tx_stop_static:
  assumes "tx_stop (tx, k) = (tx', k')"
  shows "tx_sdp tx' = tx_sdp tx \<and> tx_mapping tx' = tx_mapping tx \<and> \<not> tx_running tx'"
  using assms by (auto simp: tx_stop_def Let_def split: if_splits prod.splits)

lemma rx_updateMapping_static:
  assumes "rx_updateMapping r m (rx, k) = (ok, rx', k')" "cm_start m + unat (sd_numChannels (rx_sdp rx)) \<le> 128"
  shows "rx_sdp rx' = rx_sdp rx \<and> rx_mapping rx' = m \<and> (rx_running rx' \<longrightarrow> rx_running rx)"
proof (cases "rx_running rx")
  case True
  obtain rx1 k1 where s: "rx_stop (rx, k) = (rx1, k1)" by fastforce
  with assms True have "rx_start r (rx1\<lparr>rx_mapping := m\<rparr>, k1) = (ok, rx', k')"
    by (simp add: rx_updateMapping_def Let_def)
  from rx_start_static [OF this] rx_stop_static [OF s] True show ?thesis by simp
next
  case False
  with assms show ?thesis by (auto simp: rx_updateMapping_def Let_def)
qed

lemma tx_updateMapping_static:
  assumes "tx_updateMapping r m (tx, k) = (ok, tx', k')" "cm_start m + unat (sd_numChannels (tx_sdp tx)) \<le> 128"
  shows "tx_sdp tx' = tx_sdp tx \<and> tx_mapping tx' = m \<and> (tx_running tx' \<longrightarrow> tx_running tx)"
proof (cases "tx_running tx")
  case True
  obtain tx1 k1 where s: "tx_stop (tx, k) = (tx1, k1)" by fastforce
  with assms True have "tx_start r (tx1\<lparr>tx_mapping := m\<rparr>, k1) = (ok, tx', k')"
    by (simp add: tx_updateMapping_def Let_def)
  from tx_start_static [OF this] tx_stop_static [OF s] True show ?thesis by simp
next
  case False
  with assms show ?thesis by (auto simp: tx_updateMapping_def Let_def)
qed

section \<open>The invariant of the stream table\<close>

text \<open>A stream has one endpoint of its direction, with the session and the mapping of the table.\<close>

definition ms_rx :: "managed_stream \<Rightarrow> (sdp_session \<times> channel_mapping) option" where
  "ms_rx ms = map_option (\<lambda>rx. (rx_sdp rx, rx_mapping rx)) (ms_receiver ms)"

definition ms_tx :: "managed_stream \<Rightarrow> (sdp_session \<times> channel_mapping) option" where
  "ms_tx ms = map_option (\<lambda>tx. (tx_sdp tx, tx_mapping tx)) (ms_transmitter ms)"

definition ms_running :: "managed_stream \<Rightarrow> bool" where
  "ms_running ms \<longleftrightarrow> (\<exists>rx. ms_receiver ms = Some rx \<and> rx_running rx) \<or>
     (\<exists>tx. ms_transmitter ms = Some tx \<and> tx_running tx)"

definition endpoint_ok :: "managed_stream \<Rightarrow> bool" where
  "endpoint_ok ms \<longleftrightarrow>
     ms_rx ms = (if ms_isTransmit ms then None else Some (ms_sdp ms, ms_mapping ms)) \<and>
     ms_tx ms = (if ms_isTransmit ms then Some (ms_sdp ms, ms_mapping ms) else None)"

definition network_ok :: "sdp_session \<Rightarrow> bool" where
  "network_ok sdp \<longleftrightarrow> take 4 (sd_connectionAddress sdp) = ''239.'' \<and> sd_port sdp \<noteq> 0"

definition stream_ok :: "bool \<Rightarrow> rat \<Rightarrow> managed_stream \<Rightarrow> bool" where
  "stream_ok active rate ms \<longleftrightarrow> endpoint_ok ms \<and>
     cm_deviceChannelCount (ms_mapping ms) = sd_numChannels (ms_sdp ms) \<and>
     \<not> rate_mismatch (sd_sampleRate (ms_sdp ms)) rate \<and> network_ok (ms_sdp ms) \<and> (ms_running ms \<longrightarrow> active)"

definition table_inv :: "mapper \<Rightarrow> (stream_id \<times> managed_stream) list \<Rightarrow> bool \<Rightarrow> rat \<Rightarrow> bool" where
  "table_inv mp ss active rate \<longleftrightarrow> mapper_wf mp \<and> smap_ok ss \<and>
     (\<forall>i. getMapping i mp = map_option ms_mapping (map_of ss i)) \<and>
     (\<forall>i ms. map_of ss i = Some ms \<longrightarrow> stream_ok active rate ms)"

definition sm_inv :: "stream_manager \<Rightarrow> bool" where
  "sm_inv s \<longleftrightarrow> table_inv (sm_mapper s) (sm_streams s) (sm_ioActive s) (sm_deviceSampleRate s)"

definition same_stream :: "managed_stream \<Rightarrow> managed_stream \<Rightarrow> bool" where
  "same_stream ms ms' \<longleftrightarrow> ms_sdp ms' = ms_sdp ms \<and> ms_mapping ms' = ms_mapping ms \<and> ms_info ms' = ms_info ms \<and>
     ms_isTransmit ms' = ms_isTransmit ms \<and> ms_rx ms' = ms_rx ms \<and> ms_tx ms' = ms_tx ms"

lemma same_endpoint_ok: "same_stream ms ms' \<Longrightarrow> endpoint_ok ms' = endpoint_ok ms"
  by (simp add: same_stream_def endpoint_ok_def)

lemma start_if_active_same:
  assumes "start_if_active active r ms k = (Some ms', k')"
  shows "same_stream ms ms' \<and> (ms_running ms' \<longrightarrow> active \<or> ms_running ms)"
proof (cases active)
  case True
  show ?thesis
  proof (cases "ms_receiver ms")
    case (Some rx)
    obtain ok rx' k1 where s: "rx_start r (rx, k) = (ok, rx', k1)" by (metis prod_cases3)
    with assms True Some have "ms' = ms\<lparr>ms_receiver := Some rx'\<rparr>"
      by (simp add: start_if_active_def split: if_splits)
    with rx_start_static [OF s] Some True show ?thesis by (simp add: same_stream_def ms_rx_def ms_tx_def)
  next
    case None
    show ?thesis
    proof (cases "ms_transmitter ms")
      case (Some tx)
      obtain ok tx' k1 where s: "tx_start r (tx, k) = (ok, tx', k1)" by (metis prod_cases3)
      with assms True Some None have "ms' = ms\<lparr>ms_transmitter := Some tx'\<rparr>"
        by (simp add: start_if_active_def split: if_splits)
      with tx_start_static [OF s] Some None True show ?thesis by (simp add: same_stream_def ms_rx_def ms_tx_def)
    qed (use assms True None in \<open>simp add: start_if_active_def same_stream_def\<close>)
  qed
qed (use assms in \<open>auto simp: start_if_active_def same_stream_def\<close>)

lemma start_managed_same:
  assumes "start_managed r (ms, k) = (ms', k')"
  shows "same_stream ms ms'"
  using assms
  by (auto simp: start_managed_def same_stream_def ms_rx_def ms_tx_def Let_def rx_start_static tx_start_static
      split: option.splits prod.splits)

lemma stop_managed_same:
  assumes "stop_managed (ms, k) = (ms', k')"
  shows "same_stream ms ms' \<and> \<not> ms_running ms'"
  using assms
  by (auto simp: stop_managed_def same_stream_def ms_rx_def ms_tx_def ms_running_def Let_def
      dest: rx_stop_static tx_stop_static split: option.splits prod.splits)

lemma for_streams_map_of:
  assumes "for_streams g ss k = (ss', k')" and g: "\<And>i ms k ms' k'. g i (ms, k) = (ms', k') \<Longrightarrow> P ms ms'"
  shows "map fst ss' = map fst ss \<and> rel_option P (map_of ss i) (map_of ss' i)"
  using assms(1)
proof (induction ss arbitrary: k ss' k')
  case (Cons p rest)
  obtain j ms where p: "p = (j, ms)" by fastforce
  obtain ms1 k1 where 1: "g j (ms, k) = (ms1, k1)" by fastforce
  obtain rest2 k2 where 2: "for_streams g rest k1 = (rest2, k2)" by fastforce
  from Cons.prems p 1 2 have "ss' = (j, ms1) # rest2" by simp
  with Cons.IH [OF 2] g [OF 1] p show ?case by simp
qed simp

section \<open>Every operation keeps the invariant\<close>

lemma table_inv_put:
  assumes inv: "table_inv mp ss active rate" and ok: "stream_ok active rate ms"
    and wf: "mapper_wf mp'" and get: "\<And>j. getMapping j mp' = (if j = i then Some (ms_mapping ms) else getMapping j mp)"
  shows "table_inv mp' (smap_put i ms ss) active rate"
  using assms by (auto simp: table_inv_def map_of_smap_put smap_ok_put)

lemma table_inv_del:
  assumes "table_inv mp ss active rate"
  shows "table_inv (snd (removeMapping i mp)) (smap_del i ss) active rate"
  using assms by (auto simp: table_inv_def removeMapping_wf removeMapping_get smap_ok_del map_of_smap_del split: if_splits)

lemma table_inv_get: "table_inv mp ss active rate \<Longrightarrow> getMapping i mp = map_option ms_mapping (map_of ss i)"
  by (simp add: table_inv_def)

text \<open>Adding a stream, as all three ways of adding do it: the mapping, the start, the entry.\<close>

lemma table_inv_add:
  assumes inv: "table_inv mp ss active rate" and fresh: "map_of ss (cm_streamID m) = None"
    and add: "addMapping m mp = (True, mp')" and map: "cm_channelMap m = []"
    and ms: "stream_ok active rate ms" "ms_mapping ms = m" "\<not> ms_running ms"
    and start: "start_if_active active r ms k = (st, k')"
  shows "case st of None \<Rightarrow> table_inv (snd (removeMapping (cm_streamID m) mp')) ss active rate
    | Some ms' \<Rightarrow> table_inv mp' (smap_put (cm_streamID m) ms' ss) active rate"
proof -
  have wf: "mapper_wf mp" using inv by (simp add: table_inv_def)
  have g: "getMapping (cm_streamID m) mp = None" using inv fresh by (simp add: table_inv_get)
  have wf': "mapper_wf mp'" using addMapping_wf [OF wf map g] add by simp
  note get = addMapping_get [OF wf add]
  show ?thesis
  proof (cases st)
    case None
    have "getMapping j (snd (removeMapping (cm_streamID m) mp')) = getMapping j mp" for j
      using get g by (simp add: removeMapping_get)
    then show ?thesis using inv None removeMapping_wf [OF wf'] by (simp add: table_inv_def)
  next
    case (Some ms')
    with start_if_active_same [of active r ms k ms' k'] start ms(3)
    have s: "same_stream ms ms'" "ms_running ms' \<longrightarrow> active" by simp_all
    then have "stream_ok active rate ms'" "ms_mapping ms' = m"
      using ms(1,2) by (simp_all add: stream_ok_def same_endpoint_ok) (simp_all add: same_stream_def)
    with table_inv_put [OF inv _ wf', of ms' "cm_streamID m"] get Some show ?thesis by simp
  qed
qed

lemma sm_install_fields [simp]:
  "sm_mapper (sm_install e i ms s) = sm_mapper s" "sm_streams (sm_install e i ms s) = smap_put i ms (sm_streams s)"
  "sm_ioActive (sm_install e i ms s) = sm_ioActive s"
  "sm_deviceSampleRate (sm_install e i ms s) = sm_deviceSampleRate s" "sm_kernel (sm_install e i ms s) = sm_kernel s"
  by (simp_all add: sm_install_def autoSaveIfEnabled_def saveAllStreams_def sm_notify_def Let_def)

lemma canAddStream_ok:
  assumes "fst (canAddStream e sdp s)"
  shows "\<not> rate_mismatch (sd_sampleRate sdp) (sm_deviceSampleRate s) \<and> network_ok sdp \<and>
    0 < sd_numChannels sdp \<and> unat (sd_numChannels sdp) \<le> getAvailableChannelCount (sm_mapper s)"
proof -
  have "sd_numChannels sdp \<noteq> 0" if "unat (sd_numChannels sdp) \<noteq> 0" using that by auto
  then show ?thesis using assms
    by (auto simp: canAddStream_def validateSampleRate_def validateChannelAvailability_def
        validateNetworkConfig_def network_ok_def Let_def word_gt_0 split: if_splits)
qed

lemma addStream_mapped_inv:
  assumes "sm_inv s" "cm_channelMap mapping = []"
  shows "sm_inv (snd (sm_addStream_mapped e sdp mapping s))"
proof -
  let ?i = "generate_stream_id (en_random e)"
  define m where "m = complete_mapping ?i (sd_sessionName sdp) (sd_numChannels sdp) mapping"
  define ms where "ms = \<lparr>ms_sdp = sdp, ms_mapping = m, ms_receiver = Some (rx_new (en_lookup e) sdp m 0 []),
    ms_transmitter = None, ms_info = stream_info_of (en_fresh e) ?i sdp, ms_isTransmit = False\<rparr>"
  have i: "cm_streamID m = ?i" "cm_channelMap m = []" "ms_mapping ms = m"
    using assms(2) by (simp_all add: m_def ms_def complete_mapping_def)
  obtain added mp where a: "addMapping m (sm_mapper s) = (added, mp)" by fastforce
  obtain st k where st: "start_if_active (sm_ioActive s) (en_open e ?i) ms (sm_kernel s) = (st, k)" by fastforce
  show ?thesis
  proof (cases "fst (canAddStream e sdp s) \<and> map_of (sm_streams s) ?i = None \<and> added")
    case True
    then have "stream_ok (sm_ioActive s) (sm_deviceSampleRate s) ms" "\<not> ms_running ms"
      using canAddStream_ok [of e sdp s]
      by (simp_all add: ms_def stream_ok_def endpoint_ok_def ms_rx_def ms_tx_def rx_new_def m_def
          complete_mapping_def ms_running_def)
    with table_inv_add [OF _ _ _ _ _ _ _ st, of "sm_mapper s" "sm_streams s" "sm_deviceSampleRate s" m mp] True a assms
    have "case st of None \<Rightarrow> table_inv (snd (removeMapping ?i mp)) (sm_streams s) (sm_ioActive s) (sm_deviceSampleRate s)
      | Some ms' \<Rightarrow> table_inv mp (smap_put ?i ms' (sm_streams s)) (sm_ioActive s) (sm_deviceSampleRate s)"
      by (simp add: sm_inv_def i cong: option.case_cong)
    then show ?thesis using True a st
      by (auto simp: sm_addStream_mapped_def Let_def m_def [symmetric] ms_def [symmetric] sm_inv_def
          split: option.splits)
  next
    case False
    with a assms(1) show ?thesis by (auto simp: sm_addStream_mapped_def Let_def m_def)
  qed
qed

lemma createDefaultMapping_seq: "createDefaultMapping i name n mp = Some m \<Longrightarrow> cm_channelMap m = []"
  by (auto simp: createDefaultMapping_def split: option.splits)

lemma addStream_inv: "sm_inv s \<Longrightarrow> sm_inv (snd (sm_addStream e sdp s))"
  by (auto simp: sm_addStream_def addStream_mapped_inv createDefaultMapping_seq split: option.split)

lemma importSDPFile_inv: "sm_inv s \<Longrightarrow> importSDPFile e content s = Parsed (i, s') \<Longrightarrow> sm_inv s'"
  using addStream_inv by (auto simp: importSDPFile_def split: option.splits outcome.splits) (metis snd_conv)

lemma createTxStream_inv:
  assumes "sm_inv s" "cm_channelMap mapping = []" "map_of (sm_streams s) (generate_stream_id (en_random e)) = None"
  shows "sm_inv (snd (createTxStream e name ip port n mapping s))"
proof -
  let ?i = "generate_stream_id (en_random e)"
  define sdp where "sdp = tx_session e name ip port n (sm_deviceSampleRate s)"
  define m where "m = complete_mapping ?i name n mapping"
  define info where "info = (en_fresh e)\<lparr>si_id := ?i, si_name := name,
    si_multicast := (si_multicast (en_fresh e))\<lparr>na_ip := ip, na_port := port\<rparr>, si_encoding := L24,
    si_sampleRate := sd_sampleRate sdp, si_numChannels := n, si_payloadType := sd_payloadType sdp, si_isActive := True\<rparr>"
  define ms where "ms = \<lparr>ms_sdp = sdp, ms_mapping = m, ms_receiver = None,
    ms_transmitter = Some (tx_new (en_ssrc e) sdp m []), ms_info = info, ms_isTransmit = True\<rparr>"
  have i: "cm_streamID m = ?i" "cm_channelMap m = []" "ms_mapping ms = m"
    using assms(2) by (simp_all add: m_def ms_def complete_mapping_def)
  obtain added mp where a: "addMapping m (sm_mapper s) = (added, mp)" by fastforce
  obtain st k where st: "start_if_active (sm_ioActive s) (en_open e ?i) ms (sm_kernel s) = (st, k)" by fastforce
  show ?thesis
  proof (cases "fst (canAddStream e sdp s) \<and> added")
    case True
    then have "stream_ok (sm_ioActive s) (sm_deviceSampleRate s) ms" "\<not> ms_running ms"
      using canAddStream_ok [of e sdp s]
      by (simp_all add: ms_def stream_ok_def endpoint_ok_def ms_rx_def ms_tx_def tx_new_def m_def
          complete_mapping_def ms_running_def) (simp add: sdp_def tx_session_def)
    with table_inv_add [OF _ _ _ _ _ _ _ st, of "sm_mapper s" "sm_streams s" "sm_deviceSampleRate s" m mp] True a assms
    have "case st of None \<Rightarrow> table_inv (snd (removeMapping ?i mp)) (sm_streams s) (sm_ioActive s) (sm_deviceSampleRate s)
      | Some ms' \<Rightarrow> table_inv mp (smap_put ?i ms' (sm_streams s)) (sm_ioActive s) (sm_deviceSampleRate s)"
      by (simp add: sm_inv_def i cong: option.case_cong)
    then show ?thesis using True a st
      by (auto simp: createTxStream_def Let_def sdp_def [symmetric] m_def [symmetric] info_def [symmetric]
          ms_def [symmetric] sm_inv_def split: option.splits)
  next
    case False
    with a assms(1) show ?thesis
      by (auto simp: createTxStream_def Let_def sdp_def [symmetric] m_def [symmetric])
  qed
qed

lemma sm_inv_autosave: "sm_inv (autoSaveIfEnabled e (sm_notify ev s)) = sm_inv s"
  by (simp add: sm_inv_def autoSaveIfEnabled_def saveAllStreams_def sm_notify_def Let_def)

lemma removeStream_inv:
  assumes "sm_inv s"
  shows "sm_inv (snd (sm_removeStream e i s))"
proof (cases "map_of (sm_streams s) i")
  case (Some ms)
  obtain ms' k where "stop_managed (ms, sm_kernel s) = (ms', k)" by fastforce
  with assms Some show ?thesis
    by (simp add: sm_removeStream_def Let_def sm_inv_autosave) (simp add: sm_inv_def table_inv_del)
qed (use assms in \<open>simp add: sm_removeStream_def\<close>)

lemma removeAllStreams_inv: "sm_inv s \<Longrightarrow> sm_inv (removeAllStreams s)"
  by (auto simp: removeAllStreams_def sm_inv_def table_inv_def Let_def smap_ok_def getMapping_def clearAll_def
      mapper_wf_length mapper_wf_clearAll [unfolded clearAll_def] split: prod.splits)

text \<open>The new mapping names as many device channels as the stream has.\<close>

lemma updateMapping_inv:
  assumes "sm_inv s" "cm_channelMap new = []"
    and "\<And>ms. map_of (sm_streams s) i = Some ms \<Longrightarrow> cm_deviceChannelCount new = sd_numChannels (ms_sdp ms)"
  shows "sm_inv (snd (sm_updateMapping e i new s))"
proof (cases "map_of (sm_streams s) i")
  case (Some ms)
  define m where "m = new\<lparr>cm_streamID := i, cm_streamName := cm_streamName (ms_mapping ms),
    cm_streamChannelCount := sd_numChannels (ms_sdp ms)\<rparr>"
  have inv: "table_inv (sm_mapper s) (sm_streams s) (sm_ioActive s) (sm_deviceSampleRate s)"
    using assms(1) by (simp add: sm_inv_def)
  then have wf: "mapper_wf (sm_mapper s)" and ms: "stream_ok (sm_ioActive s) (sm_deviceSampleRate s) ms"
    using Some by (auto simp: table_inv_def)
  obtain ok mp where u: "updateMapping m (sm_mapper s) = (ok, mp)" by fastforce
  have cnt: "cm_deviceChannelCount m = sd_numChannels (ms_sdp ms)" using assms(3) [OF Some] by (simp add: m_def)
  show ?thesis
  proof (cases ok)
    case True
    then have um: "updateMapping m (sm_mapper s) = (True, mp)" using u by simp
    have wf': "mapper_wf mp" using updateMapping_wf [OF wf, of m] um assms(2) by (simp add: m_def)
    note get = updateMapping_get [OF wf um]
    have "cm_isValid m" using um by (auto simp: updateMapping_def validate_iff split: if_splits)
    then have fits: "cm_start m + unat (sd_numChannels (ms_sdp ms)) \<le> 128"
      using cnt by (simp add: cm_isValid_iff cm_count_def)
    have put: "table_inv mp (smap_put i ms2 (sm_streams s)) (sm_ioActive s) (sm_deviceSampleRate s)"
      if "stream_ok (sm_ioActive s) (sm_deviceSampleRate s) ms2" "ms_mapping ms2 = m" for ms2
      by (rule table_inv_put [OF inv that(1) wf']) (use get that(2) in \<open>simp add: m_def\<close>)
    show ?thesis
    proof (cases "ms_isTransmit ms")
      case False
      then obtain rx where rx: "ms_receiver ms = Some rx" "rx_sdp rx = ms_sdp ms" "ms_transmitter ms = None"
        using ms by (auto simp: stream_ok_def endpoint_ok_def ms_rx_def ms_tx_def)
      obtain b rx' k where r: "rx_updateMapping (en_open e i) m (rx, sm_kernel s) = (b, rx', k)" by (metis prod_cases3)
      have st: "rx_sdp rx' = rx_sdp rx" "rx_mapping rx' = m" "rx_running rx' \<longrightarrow> rx_running rx"
        using rx_updateMapping_static [OF r] fits rx(2) by auto
      have "stream_ok (sm_ioActive s) (sm_deviceSampleRate s) (ms\<lparr>ms_mapping := m, ms_receiver := Some rx'\<rparr>)"
        using ms st rx cnt False by (auto simp: stream_ok_def endpoint_ok_def ms_rx_def ms_tx_def ms_running_def)
      from put [OF this] show ?thesis using Some um rx(1) r
        by (simp add: sm_updateMapping_def Let_def m_def [symmetric] sm_inv_autosave) (simp add: sm_inv_def)
    next
      case True
      then obtain tx where tx: "ms_transmitter ms = Some tx" "tx_sdp tx = ms_sdp ms" "ms_receiver ms = None"
        using ms by (auto simp: stream_ok_def endpoint_ok_def ms_rx_def ms_tx_def)
      obtain b tx' k where r: "tx_updateMapping (en_open e i) m (tx, sm_kernel s) = (b, tx', k)" by (metis prod_cases3)
      have st: "tx_sdp tx' = tx_sdp tx" "tx_mapping tx' = m" "tx_running tx' \<longrightarrow> tx_running tx"
        using tx_updateMapping_static [OF r] fits tx(2) by auto
      have "stream_ok (sm_ioActive s) (sm_deviceSampleRate s) (ms\<lparr>ms_mapping := m, ms_transmitter := Some tx'\<rparr>)"
        using ms st tx cnt True by (auto simp: stream_ok_def endpoint_ok_def ms_rx_def ms_tx_def ms_running_def)
      from put [OF this] show ?thesis using Some um tx(1,3) r
        by (simp add: sm_updateMapping_def Let_def m_def [symmetric] sm_inv_autosave) (simp add: sm_inv_def)
    qed
  next
    case False
    with Some u assms(1) show ?thesis by (simp add: sm_updateMapping_def Let_def m_def [symmetric])
  qed
qed (use assms in \<open>simp add: sm_updateMapping_def\<close>)

lemma setDeviceSampleRate_inv:
  assumes "sm_inv s"
  shows "sm_inv (snd (setDeviceSampleRate rate s))"
proof -
  have "\<not> rate_mismatch (sd_sampleRate (ms_sdp ms)) rate"
    if "\<not> list_ex (\<lambda>(_, ms). rate_mismatch (sd_sampleRate (ms_sdp ms)) rate) (sm_streams s)"
      "map_of (sm_streams s) i = Some ms" for i ms
    using that map_of_SomeD [OF that(2)] by (auto simp: list_ex_iff)
  with assms show ?thesis by (auto simp: setDeviceSampleRate_def sm_inv_def table_inv_def stream_ok_def)
qed

lemma setIOActive_inv:
  assumes "sm_inv s"
  shows "sm_inv (setIOActive e active s)"
proof (cases "sm_ioActive s = active")
  case False
  define g where "g = (if active then (\<lambda>i. start_managed (en_open e i)) else (\<lambda>_. stop_managed))"
  define P where "P = (\<lambda>ms ms'. same_stream ms ms' \<and> (ms_running ms' \<longrightarrow> active))"
  obtain ss k where f: "for_streams g (sm_streams s) (sm_kernel s) = (ss, k)" by fastforce
  have g: "P ms ms'" if "g i (ms, k) = (ms', k')" for i ms k ms' k'
    using that start_managed_same stop_managed_same by (cases active) (auto simp: g_def P_def)
  have m: "map fst ss = map fst (sm_streams s) \<and> rel_option P (map_of (sm_streams s) i) (map_of ss i)" for i
    by (rule for_streams_map_of [OF f]) (rule g)
  have s': "setIOActive e active s = s\<lparr>sm_ioActive := active, sm_streams := ss, sm_kernel := k\<rparr>"
    using False f by (simp add: setIOActive_def g_def [symmetric])
  have ok: "stream_ok active (sm_deviceSampleRate s) ms'"
    if "P ms ms'" "stream_ok (sm_ioActive s) (sm_deviceSampleRate s) ms" for ms ms'
  proof -
    have "same_stream ms ms'" "ms_running ms' \<longrightarrow> active" using that(1) by (simp_all add: P_def)
    with that(2) show ?thesis
      by (simp add: stream_ok_def same_endpoint_ok) (simp add: same_stream_def)
  qed
  have mp: "map_option ms_mapping (map_of ss i) = map_option ms_mapping (map_of (sm_streams s) i)" for i
    using m [of i] by (cases "map_of ss i"; cases "map_of (sm_streams s) i") (auto simp: P_def same_stream_def)
  have "stream_ok active (sm_deviceSampleRate s) ms'" if s1: "map_of ss i = Some ms'" for i ms'
  proof -
    obtain ms where "map_of (sm_streams s) i = Some ms" "P ms ms'"
      using m [of i] s1 by (cases "map_of (sm_streams s) i") auto
    with ok assms show ?thesis by (auto simp: sm_inv_def table_inv_def)
  qed
  with assms m mp show ?thesis by (simp add: s' sm_inv_def table_inv_def smap_ok_def)
qed (use assms in \<open>simp add: setIOActive_def\<close>)

lemma saveAllStreams_inv: "sm_inv s \<Longrightarrow> sm_inv (snd (saveAllStreams e s))"
  by (simp add: sm_inv_def saveAllStreams_def)

lemma setAutoSave_inv: "sm_inv s \<Longrightarrow> sm_inv (setAutoSave enabled s)"
  by (simp add: sm_inv_def setAutoSave_def)

text \<open>A saved configuration whose mapping is sequential and has the session's channel count.\<close>

definition config_ok :: "persisted_config \<Rightarrow> bool" where
  "config_ok c \<longleftrightarrow> cm_channelMap (pv_mapping c) = [] \<and> cm_deviceChannelCount (pv_mapping c) = sd_numChannels (pv_sdp c)"

lemma load_config_inv:
  assumes "sm_inv s" "config_ok c"
  shows "sm_inv (snd (load_config e c s))"
proof -
  define m where "m = pv_mapping c"
  define ms where "ms = loaded_stream e c"
  let ?i = "cm_streamID m"
  have i: "ms_mapping ms = m" "ms_sdp ms = pv_sdp c" "cm_channelMap m = []" "\<not> ms_running ms"
    using assms(2) by (simp_all add: ms_def m_def loaded_stream_def Let_def config_ok_def ms_running_def rx_new_def tx_new_def)
  obtain added mp where a: "addMapping m (sm_mapper s) = (added, mp)" by fastforce
  obtain st k where st: "start_if_active (sm_ioActive s) (en_open e ?i) ms (sm_kernel s) = (st, k)" by fastforce
  show ?thesis
  proof (cases "pv_enabled c \<and> persisted_isValid c \<and> fst (canAddStream e (pv_sdp c) s) \<and>
      map_of (sm_streams s) ?i = None \<and> added")
    case True
    have "endpoint_ok ms"
      by (simp add: ms_def loaded_stream_def Let_def endpoint_ok_def ms_rx_def ms_tx_def rx_new_def tx_new_def)
    then have "stream_ok (sm_ioActive s) (sm_deviceSampleRate s) ms"
      using canAddStream_ok [of e "pv_sdp c" s] True i assms(2) by (simp add: stream_ok_def config_ok_def m_def)
    with table_inv_add [OF _ _ _ _ _ _ _ st, of "sm_mapper s" "sm_streams s" "sm_deviceSampleRate s" m mp] True a assms i
    have "case st of None \<Rightarrow> table_inv (snd (removeMapping ?i mp)) (sm_streams s) (sm_ioActive s) (sm_deviceSampleRate s)
      | Some ms' \<Rightarrow> table_inv mp (smap_put ?i ms' (sm_streams s)) (sm_ioActive s) (sm_deviceSampleRate s)"
      by (simp add: sm_inv_def cong: option.case_cong)
    then show ?thesis using True a st
      by (auto simp: load_config_def Let_def m_def [symmetric] ms_def [symmetric] sm_inv_def sm_notify_def
          split: option.splits)
  next
    case False
    with a assms(1) show ?thesis by (auto simp: load_config_def Let_def m_def [symmetric])
  qed
qed

lemma load_configs_inv:
  "sm_inv s \<Longrightarrow> list_all config_ok cs \<Longrightarrow> sm_inv (snd (load_configs e cs s))"
proof (induction e cs s rule: load_configs.induct)
  case (2 e c cs s)
  obtain ok s1 where 1: "load_config e c s = (ok, s1)" by fastforce
  have "sm_inv s1" using load_config_inv [of s c e] 2 1 by simp
  with 2 1 show ?case by (auto split: prod.splits)
qed simp

section \<open>The table and the mapper list the same streams\<close>

lemma smap_eqI:
  assumes "smap_ok xs" "smap_ok ys" "map_of xs = map_of ys"
  shows "xs = ys"
proof (rule map_sorted_distinct_set_unique)
  show e: "set xs = set ys" using assms by (simp add: smap_ok_def map_of_inject_set)
  show "inj_on fst (set xs \<union> set ys)" using assms(1) e by (simp add: smap_ok_def distinct_map)
qed (use assms in \<open>simp_all add: smap_ok_def\<close>)

lemma table_inv_mappings:
  assumes "table_inv mp ss active rate"
  shows "mp_mappings mp = map (\<lambda>(i, ms). (i, ms_mapping ms)) ss"
proof (rule smap_eqI)
  show "smap_ok (mp_mappings mp)" using assms by (simp add: table_inv_def mapper_wf_def)
  have f: "map fst (map (\<lambda>(i, ms). (i, ms_mapping ms)) ss) = map fst ss" by (induction ss) auto
  show "smap_ok (map (\<lambda>(i, ms). (i, ms_mapping ms)) ss)"
    unfolding smap_ok_def f using assms by (simp add: table_inv_def smap_ok_def)
  show "map_of (mp_mappings mp) = map_of (map (\<lambda>(i, ms). (i, ms_mapping ms)) ss)"
    using assms by (simp add: fun_eq_iff table_inv_def getMapping_def map_of_map)
qed

section \<open>Reachable states\<close>

definition sm_start :: "stream_manager \<Rightarrow> bool" where
  "sm_start s \<longleftrightarrow> (\<exists>k. s = sm_new k)"

text \<open>
  The calls whose mappings are sequential and have the stream's channel count, saved ones included. Stream_Calls has
  the calls with any arguments.
\<close>

inductive plain_step :: "stream_manager \<Rightarrow> stream_manager \<Rightarrow> bool" where
  "plain_step s (snd (sm_addStream e sdp s))"
| "cm_channelMap m = [] \<Longrightarrow> plain_step s (snd (sm_addStream_mapped e sdp m s))"
| "importSDPFile e content s = Parsed (i, s') \<Longrightarrow> plain_step s s'"
| "cm_channelMap m = [] \<Longrightarrow> map_of (sm_streams s) (generate_stream_id (en_random e)) = None \<Longrightarrow>
     plain_step s (snd (createTxStream e name ip port n m s))"
| "plain_step s (snd (sm_removeStream e i s))"
| "plain_step s (removeAllStreams s)"
| "cm_channelMap m = [] \<Longrightarrow>
     (\<And>ms. map_of (sm_streams s) i = Some ms \<Longrightarrow> cm_deviceChannelCount m = sd_numChannels (ms_sdp ms)) \<Longrightarrow>
     plain_step s (snd (sm_updateMapping e i m s))"
| "plain_step s (setIOActive e active s)"
| "plain_step s (snd (setDeviceSampleRate rate s))"
| "plain_step s (setAutoSave enabled s)"
| "(\<And>cs. configs = Some cs \<Longrightarrow> list_all config_ok cs) \<Longrightarrow> plain_step s (snd (loadSavedStreams e configs s))"
| "plain_step s (snd (saveAllStreams e s))"

inductive_cases plain_stepE: "plain_step s t"

interpretation plain_sys: invariant_system sm_start plain_step sm_inv
proof (unfold_locales, goal_cases)
  case (1 s)
  then show ?case
    using mapper_wf_new
    by (auto simp: sm_start_def sm_new_def sm_inv_def table_inv_def smap_ok_def getMapping_def mapper_new_def)
next
  case (2 s t)
  note inv = addStream_inv addStream_mapped_inv importSDPFile_inv createTxStream_inv removeStream_inv
    removeAllStreams_inv updateMapping_inv setIOActive_inv setDeviceSampleRate_inv setAutoSave_inv
    saveAllStreams_inv
  have load: "sm_inv (snd (loadSavedStreams e configs s))"
    if "\<And>cs. configs = Some cs \<Longrightarrow> list_all config_ok cs" for e configs
  proof (cases configs)
    case (Some cs)
    with load_configs_inv [OF 2(1) that [OF Some], of e] show ?thesis
      by (auto simp: loadSavedStreams_def split: prod.splits)
  qed (use 2(1) in \<open>simp add: loadSavedStreams_def\<close>)
  from 2(2) show ?case
    by (rule plain_stepE) (use 2(1) load in \<open>auto intro: inv\<close>)
qed

text \<open>The device channels an endpoint of the stream reads or writes.\<close>

definition device_range :: "managed_stream \<Rightarrow> nat set" where
  "device_range ms = {cm_start (ms_mapping ms) ..< cm_start (ms_mapping ms) + unat (sd_numChannels (ms_sdp ms))}"

end
