(* ===== verification/Stream_Calls.thy ===== *)
theory Stream_Calls
  imports Stream_Table
begin

text \<open>
  All calls of the stream manager, with any arguments: mappings with a custom channel map or another channel count than
  the stream's, saved configurations of any content. What still holds then of the mapper, the table and the
  endpoints; and what a failed addition may change.
\<close>

section \<open>The channel array\<close>

text \<open>A channel is free or held by a stream that has a mapping.\<close>

definition owners_known :: "mapper \<Rightarrow> bool" where
  "owners_known mp \<longleftrightarrow> length (mp_owners mp) = 128 \<and> (\<forall>ow \<in> set (mp_owners mp). isNull ow \<or> getMapping ow mp \<noteq> None)"

lemma assign_all:
  "length (foldl (\<lambda>ow ch. if P ch then ow[f ch := x] else ow) ow chs) = length ow \<and>
   (\<forall>j < length ow. foldl (\<lambda>ow ch. if P ch then ow[f ch := x] else ow) ow chs ! j =
      (if \<exists>ch \<in> set chs. P ch \<and> f ch = j then x else ow ! j))"
  by (induction chs arbitrary: ow) (auto simp: nth_list_update)

lemma updateOwners_nth:
  assumes "length (mp_owners mp) = 128"
  shows "length (mp_owners (updateDeviceChannelOwners m mp)) = 128"
    "ch < 128 \<Longrightarrow> mp_owners (updateDeviceChannelOwners m mp) ! ch =
       (if containsDeviceChannel m (int ch) then cm_streamID m else mp_owners mp ! ch)"
proof -
  have range: "length (foldl (\<lambda>ow ch. ow[ch := x]) ow chs) = length ow \<and>
      (\<forall>j < length ow. foldl (\<lambda>ow ch. ow[ch := x]) ow chs ! j = (if j \<in> set chs then x else ow ! j))"
    for x :: stream_id and ow and chs :: "nat list"
    using assign_all [of "\<lambda>_. True" "\<lambda>ch. ch" x ow chs] by simp
  have listed: "length (foldl (\<lambda>ow ch. if 0 \<le> ch \<and> ch < int kMaxDeviceChannels then ow[nat ch := x] else ow) ow chs) = length ow \<and>
      (\<forall>j < length ow. foldl (\<lambda>ow ch. if 0 \<le> ch \<and> ch < int kMaxDeviceChannels then ow[nat ch := x] else ow) ow chs ! j =
         (if \<exists>ch \<in> set chs. (0 \<le> ch \<and> ch < int kMaxDeviceChannels) \<and> nat ch = j then x else ow ! j))"
    for x :: stream_id and ow and chs :: "int list"
    by (rule assign_all)
  show "length (mp_owners (updateDeviceChannelOwners m mp)) = 128"
    using assms by (simp add: updateDeviceChannelOwners_def range [THEN conjunct1] listed [THEN conjunct1])
  assume "ch < 128"
  moreover have "(\<exists>c \<in> set (cm_channelMap m). (0 \<le> c \<and> c < int kMaxDeviceChannels) \<and> nat c = ch) \<longleftrightarrow> int ch \<in> set (cm_channelMap m)"
    if "ch < 128" using that by (auto simp: kMaxDeviceChannels_def intro!: bexI [of _ "int ch"])
  ultimately show "mp_owners (updateDeviceChannelOwners m mp) ! ch =
      (if containsDeviceChannel m (int ch) then cm_streamID m else mp_owners mp ! ch)"
    using assms range [of "cm_streamID m" "mp_owners mp" "[cm_start m ..< cm_start m + cm_count m]"]
      listed [of "cm_streamID m" "mp_owners mp" "cm_channelMap m"]
    by (auto simp: updateDeviceChannelOwners_def containsDeviceChannel_def)
qed

lemma updateOwners_known:
  assumes "length (mp_owners mp) = 128" "\<forall>ow \<in> set (mp_owners mp). isNull ow \<or> getMapping ow mp \<noteq> None"
    "getMapping (cm_streamID m) mp \<noteq> None"
  shows "owners_known (updateDeviceChannelOwners m mp)"
  unfolding owners_known_def
proof (intro conjI ballI)
  show l: "length (mp_owners (updateDeviceChannelOwners m mp)) = 128" by (rule updateOwners_nth(1) [OF assms(1)])
  have g: "getMapping j (updateDeviceChannelOwners m mp) = getMapping j mp" for j by (simp add: getMapping_def)
  fix ow assume "ow \<in> set (mp_owners (updateDeviceChannelOwners m mp))"
  then obtain ch where ch: "ch < 128" "ow = mp_owners (updateDeviceChannelOwners m mp) ! ch" unfolding in_set_conv_nth l by blast
  show "isNull ow \<or> getMapping ow (updateDeviceChannelOwners m mp) \<noteq> None"
    using ch assms nth_mem [of ch "mp_owners mp"] by (auto simp: updateOwners_nth(2) [OF assms(1) ch(1)] g)
qed

lemma addMapping_sound:
  assumes "smap_ok (mp_mappings mp)" "owners_known mp" "addMapping m mp = (True, mp')"
  shows "smap_ok (mp_mappings mp')" "owners_known mp'" "cm_isValid m"
    "getMapping j mp' = (if j = cm_streamID m then Some m else getMapping j mp)"
proof -
  let ?mp = "mp\<lparr>mp_mappings := smap_put (cm_streamID m) m (mp_mappings mp)\<rparr>"
  have e: "mp' = updateDeviceChannelOwners m ?mp" and "cm_isValid m"
    using assms(3) by (auto simp: addMapping_def validate_iff split: if_splits)
  then show "cm_isValid m" by simp
  show "smap_ok (mp_mappings mp')" using assms(1) by (simp add: e smap_ok_put)
  show "getMapping j mp' = (if j = cm_streamID m then Some m else getMapping j mp)"
    using assms(1) by (simp add: e getMapping_def map_of_smap_put)
  have "getMapping j ?mp = (if j = cm_streamID m then Some m else getMapping j mp)" for j
    using assms(1) by (simp add: getMapping_def map_of_smap_put)
  then show "owners_known mp'" using assms(2) unfolding e by (intro updateOwners_known) (auto simp: owners_known_def)
qed

lemma updateMapping_sound:
  assumes "smap_ok (mp_mappings mp)" "owners_known mp" "updateMapping m mp = (True, mp')"
  shows "smap_ok (mp_mappings mp')" "owners_known mp'" "cm_isValid m"
    "getMapping j mp' = (if j = cm_streamID m then Some m else getMapping j mp)"
proof -
  let ?c = "clearDeviceChannelOwners (cm_streamID m) mp"
  let ?mp = "?c\<lparr>mp_mappings := smap_put (cm_streamID m) m (mp_mappings ?c)\<rparr>"
  have e: "mp' = updateDeviceChannelOwners m ?mp" and "cm_isValid m"
    using assms(3) by (auto simp: updateMapping_def validate_iff Let_def split: if_splits)
  then show "cm_isValid m" by simp
  show "smap_ok (mp_mappings mp')" using assms(1) by (simp add: e smap_ok_put)
  have g: "getMapping j ?mp = (if j = cm_streamID m then Some m else getMapping j mp)" for j
    using assms(1) by (simp add: getMapping_def map_of_smap_put)
  then show "getMapping j mp' = (if j = cm_streamID m then Some m else getMapping j mp)" by (simp add: e getMapping_def)
  show "owners_known mp'" using assms(2) g unfolding e
    by (intro updateOwners_known) (auto simp: owners_known_def clearDeviceChannelOwners_def)
qed

lemma removeMapping_sound:
  assumes "smap_ok (mp_mappings mp)" "owners_known mp"
  shows "smap_ok (mp_mappings (snd (removeMapping i mp)))" "owners_known (snd (removeMapping i mp))"
proof -
  show "smap_ok (mp_mappings (snd (removeMapping i mp)))"
    using assms(1) by (simp add: removeMapping_def smap_ok_del split: option.split)
  show "owners_known (snd (removeMapping i mp))"
  proof (cases "map_of (mp_mappings mp) i")
    case (Some m)
    then have "mp_owners (snd (removeMapping i mp)) = map (\<lambda>ow. if ow = i then null_id else ow) (mp_owners mp)"
      by (simp add: removeMapping_def clearDeviceChannelOwners_def)
    with assms(2) show ?thesis by (auto simp: owners_known_def removeMapping_get)
  qed (use assms(2) in \<open>simp add: removeMapping_def\<close>)
qed

text \<open>A mapping that was added and taken away again: only the channels of its custom map are touched.\<close>

lemma rollback_owner:
  assumes "owners_known mp" "smap_ok (mp_mappings mp)" "addMapping m mp = (True, mp')"
    "getMapping (cm_streamID m) mp = None" "ch \<notin> set (cm_channelMap m)"
  shows "getStreamForDeviceChannel ch (snd (removeMapping (cm_streamID m) mp')) = getStreamForDeviceChannel ch mp"
proof (cases "ch < 0 \<or> int kMaxDeviceChannels \<le> ch")
  case True
  then show ?thesis by (simp add: getStreamForDeviceChannel_def)
next
  case False
  then have ch: "nat ch < 128" "int (nat ch) = ch" by (auto simp: kMaxDeviceChannels_def)
  let ?i = "cm_streamID m" let ?mp = "mp\<lparr>mp_mappings := smap_put ?i m (mp_mappings mp)\<rparr>"
  have l: "length (mp_owners ?mp) = 128" "length (mp_owners mp) = 128" using assms(1) by (simp_all add: owners_known_def)
  have e: "mp' = updateDeviceChannelOwners m ?mp" and v: "cm_isValid m"
    and free: "isOverlapWithStream m null_id mp = Some False"
    using assms(3) by (auto simp: addMapping_def validate_iff split: if_splits)
  have nn: "\<not> isNull ?i" using v by (simp add: cm_isValid_iff)
  have "map_of (mp_mappings mp') ?i = Some m" using assms(2) by (simp add: e map_of_smap_put)
  then have o': "mp_owners (snd (removeMapping ?i mp')) ! nat ch = (if mp_owners mp' ! nat ch = ?i then null_id else mp_owners mp' ! nat ch)"
    using ch(1) updateOwners_nth(1) [OF l(1), of m] by (simp add: removeMapping_def clearDeviceChannelOwners_def e)
  have n: "mp_owners mp' ! nat ch = (if containsDeviceChannel m ch then ?i else mp_owners mp ! nat ch)"
    using updateOwners_nth(2) [OF l(1) ch(1), of m] ch(2) by (simp add: e)
  have mem: "mp_owners mp ! nat ch \<in> set (mp_owners mp)" using ch(1) l(2) by simp
  have old: "mp_owners mp ! nat ch \<noteq> ?i" using mem assms(1,4) nn unfolding owners_known_def by metis
  have "isNull (mp_owners mp ! nat ch)" if c: "containsDeviceChannel m ch"
  proof -
    have "cm_channelMap m = []" using c assms(5) by (auto simp: containsDeviceChannel_def split: if_splits)
    with c have "cm_start m \<le> nat ch \<and> nat ch < cm_start m + cm_count m" by (auto simp: containsDeviceChannel_def)
    with free show ?thesis unfolding isOverlap_False by force
  qed
  with o' n old False show ?thesis by (auto simp: getStreamForDeviceChannel_def Let_def)
qed

section \<open>What always holds of the table\<close>

text \<open>
  The endpoint of the direction, with the session of the table. Its mapping is that of the table unless the endpoint
  refused the last one: it wants room for all channels of the stream, whatever number the mapping names.
\<close>

definition right_endpoint :: "managed_stream \<Rightarrow> bool" where
  "right_endpoint ms \<longleftrightarrow>
     map_option fst (ms_rx ms) = (if ms_isTransmit ms then None else Some (ms_sdp ms)) \<and>
     map_option fst (ms_tx ms) = (if ms_isTransmit ms then Some (ms_sdp ms) else None)"

definition stream_sound :: "bool \<Rightarrow> rat \<Rightarrow> stream_id \<Rightarrow> managed_stream \<Rightarrow> bool" where
  "stream_sound active rate i ms \<longleftrightarrow> right_endpoint ms \<and> cm_streamID (ms_mapping ms) = i \<and> cm_isValid (ms_mapping ms) \<and>
     \<not> rate_mismatch (sd_sampleRate (ms_sdp ms)) rate \<and> network_ok (ms_sdp ms) \<and> (ms_running ms \<longrightarrow> active)"

definition table_sound :: "mapper \<Rightarrow> (stream_id \<times> managed_stream) list \<Rightarrow> bool \<Rightarrow> rat \<Rightarrow> bool" where
  "table_sound mp ss active rate \<longleftrightarrow> smap_ok (mp_mappings mp) \<and> owners_known mp \<and> smap_ok ss \<and>
     (\<forall>i. getMapping i mp = map_option ms_mapping (map_of ss i)) \<and>
     (\<forall>i ms. map_of ss i = Some ms \<longrightarrow> stream_sound active rate i ms)"

definition sm_sound :: "stream_manager \<Rightarrow> bool" where
  "sm_sound s \<longleftrightarrow> table_sound (sm_mapper s) (sm_streams s) (sm_ioActive s) (sm_deviceSampleRate s)"

lemma same_right_endpoint: "same_stream ms ms' \<Longrightarrow> right_endpoint ms' = right_endpoint ms"
  by (simp add: same_stream_def right_endpoint_def)

lemma same_stream_sound:
  assumes "same_stream ms ms'" "stream_sound active rate i ms" "ms_running ms' \<longrightarrow> active'"
  shows "stream_sound active' rate i ms'"
  using assms same_right_endpoint [OF assms(1)] by (simp add: stream_sound_def same_stream_def)

lemma table_sound_get: "table_sound mp ss active rate \<Longrightarrow> getMapping i mp = map_option ms_mapping (map_of ss i)"
  by (simp add: table_sound_def)

lemma table_sound_put:
  assumes "table_sound mp ss active rate" "stream_sound active rate i ms" "smap_ok (mp_mappings mp')" "owners_known mp'"
    and "\<And>j. getMapping j mp' = (if j = i then Some (ms_mapping ms) else getMapping j mp)"
  shows "table_sound mp' (smap_put i ms ss) active rate"
  using assms by (auto simp: table_sound_def map_of_smap_put smap_ok_put)

lemma table_sound_del:
  assumes "table_sound mp ss active rate"
  shows "table_sound (snd (removeMapping i mp)) (smap_del i ss) active rate"
  using assms by (auto simp: table_sound_def removeMapping_sound removeMapping_get smap_ok_del map_of_smap_del split: if_splits)

text \<open>All three ways of adding.\<close>

lemma table_sound_add:
  assumes inv: "table_sound mp ss active rate" and fresh: "map_of ss (cm_streamID m) = None"
    and add: "addMapping m mp = (True, mp')"
    and ms: "stream_sound active rate (cm_streamID m) ms" "ms_mapping ms = m" "\<not> ms_running ms"
    and start: "start_if_active active r ms k = (st, k')"
  shows "case st of None \<Rightarrow> table_sound (snd (removeMapping (cm_streamID m) mp')) ss active rate
    | Some ms' \<Rightarrow> table_sound mp' (smap_put (cm_streamID m) ms' ss) active rate"
proof -
  have wf: "smap_ok (mp_mappings mp)" "owners_known mp" using inv by (simp_all add: table_sound_def)
  note new = addMapping_sound [OF wf add]
  show ?thesis
  proof (cases st)
    case None
    have "getMapping j (snd (removeMapping (cm_streamID m) mp')) = getMapping j mp" for j
      using new(4) inv fresh by (simp add: removeMapping_get table_sound_get)
    then show ?thesis using inv None removeMapping_sound [OF new(1,2)] by (simp add: table_sound_def)
  next
    case (Some ms')
    with start_if_active_same [of active r ms k ms' k'] start ms(3)
    have s: "same_stream ms ms'" "ms_running ms' \<longrightarrow> active" by simp_all
    have "stream_sound active rate (cm_streamID m) ms'" by (rule same_stream_sound [OF s(1) ms(1) s(2)])
    moreover have "ms_mapping ms' = m" using s(1) ms(2) by (simp add: same_stream_def)
    ultimately show ?thesis using table_sound_put [OF inv _ new(1,2), of "cm_streamID m" ms'] new(4) Some by simp
  qed
qed

section \<open>Every call keeps it\<close>

lemma addStream_mapped_sound:
  assumes "sm_sound s"
  shows "sm_sound (snd (sm_addStream_mapped e sdp mapping s))"
proof -
  let ?i = "generate_stream_id (en_random e)"
  define m where "m = complete_mapping ?i (sd_sessionName sdp) (sd_numChannels sdp) mapping"
  define ms where "ms = \<lparr>ms_sdp = sdp, ms_mapping = m, ms_receiver = Some (rx_new (en_lookup e) sdp m 0 []),
    ms_transmitter = None, ms_info = stream_info_of (en_fresh e) ?i sdp, ms_isTransmit = False\<rparr>"
  have i: "cm_streamID m = ?i" "ms_mapping ms = m" by (simp_all add: m_def ms_def complete_mapping_def)
  obtain added mp where a: "addMapping m (sm_mapper s) = (added, mp)" by fastforce
  obtain st k where st: "start_if_active (sm_ioActive s) (en_open e ?i) ms (sm_kernel s) = (st, k)" by fastforce
  show ?thesis
  proof (cases "fst (canAddStream e sdp s) \<and> map_of (sm_streams s) ?i = None \<and> added")
    case True
    then have "stream_sound (sm_ioActive s) (sm_deviceSampleRate s) (cm_streamID m) ms" "\<not> ms_running ms"
      using canAddStream_ok [of e sdp s] addMapping_valid [of m "sm_mapper s" mp] a
      by (simp_all add: ms_def stream_sound_def right_endpoint_def ms_rx_def ms_tx_def rx_new_def ms_running_def)
    with table_sound_add [OF _ _ _ _ _ _ st, of "sm_mapper s" "sm_streams s" "sm_deviceSampleRate s" m mp] True a assms i
    have "case st of None \<Rightarrow> table_sound (snd (removeMapping ?i mp)) (sm_streams s) (sm_ioActive s) (sm_deviceSampleRate s)
      | Some ms' \<Rightarrow> table_sound mp (smap_put ?i ms' (sm_streams s)) (sm_ioActive s) (sm_deviceSampleRate s)"
      by (simp add: sm_sound_def i cong: option.case_cong)
    then show ?thesis using True a st
      by (auto simp: sm_addStream_mapped_def Let_def m_def [symmetric] ms_def [symmetric] sm_sound_def
          split: option.splits)
  next
    case False
    with a assms(1) show ?thesis by (auto simp: sm_addStream_mapped_def Let_def m_def)
  qed
qed

lemma addStream_sound: "sm_sound s \<Longrightarrow> sm_sound (snd (sm_addStream e sdp s))"
  by (auto simp: sm_addStream_def addStream_mapped_sound split: option.split)

lemma importSDPFile_sound: "sm_sound s \<Longrightarrow> importSDPFile e content s = Parsed (i, s') \<Longrightarrow> sm_sound s'"
  using addStream_sound by (auto simp: importSDPFile_def split: option.splits outcome.splits) (metis snd_conv)

lemma createTxStream_sound:
  assumes "sm_sound s" "map_of (sm_streams s) (generate_stream_id (en_random e)) = None"
  shows "sm_sound (snd (createTxStream e name ip port n mapping s))"
proof -
  let ?i = "generate_stream_id (en_random e)"
  define sdp where "sdp = tx_session e name ip port n (sm_deviceSampleRate s)"
  define m where "m = complete_mapping ?i name n mapping"
  define info where "info = (en_fresh e)\<lparr>si_id := ?i, si_name := name,
    si_multicast := (si_multicast (en_fresh e))\<lparr>na_ip := ip, na_port := port\<rparr>, si_encoding := L24,
    si_sampleRate := sd_sampleRate sdp, si_numChannels := n, si_payloadType := sd_payloadType sdp, si_isActive := True\<rparr>"
  define ms where "ms = \<lparr>ms_sdp = sdp, ms_mapping = m, ms_receiver = None,
    ms_transmitter = Some (tx_new (en_ssrc e) sdp m []), ms_info = info, ms_isTransmit = True\<rparr>"
  note defs = sdp_def [symmetric] m_def [symmetric] info_def [symmetric] ms_def [symmetric]
  have i: "cm_streamID m = ?i" "ms_mapping ms = m" by (simp_all add: m_def ms_def complete_mapping_def)
  obtain added mp where a: "addMapping m (sm_mapper s) = (added, mp)" by fastforce
  obtain st k where st: "start_if_active (sm_ioActive s) (en_open e ?i) ms (sm_kernel s) = (st, k)" by fastforce
  show ?thesis
  proof (cases "fst (canAddStream e sdp s) \<and> added")
    case True
    then have "stream_sound (sm_ioActive s) (sm_deviceSampleRate s) (cm_streamID m) ms" "\<not> ms_running ms"
      using canAddStream_ok [of e sdp s] addMapping_valid [of m "sm_mapper s" mp] a
      by (simp_all add: ms_def stream_sound_def right_endpoint_def ms_rx_def ms_tx_def tx_new_def ms_running_def)
    with table_sound_add [OF _ _ _ _ _ _ st, of "sm_mapper s" "sm_streams s" "sm_deviceSampleRate s" m mp] True a assms i
    have "case st of None \<Rightarrow> table_sound (snd (removeMapping ?i mp)) (sm_streams s) (sm_ioActive s) (sm_deviceSampleRate s)
      | Some ms' \<Rightarrow> table_sound mp (smap_put ?i ms' (sm_streams s)) (sm_ioActive s) (sm_deviceSampleRate s)"
      by (simp add: sm_sound_def i cong: option.case_cong)
    then show ?thesis using True a st
      by (auto simp: createTxStream_def Let_def defs sm_sound_def split: option.splits)
  next
    case False
    with a assms(1) show ?thesis by (auto simp: createTxStream_def Let_def defs)
  qed
qed

lemma sm_sound_autosave: "sm_sound (autoSaveIfEnabled e (sm_notify ev s)) = sm_sound s"
  by (simp add: sm_sound_def autoSaveIfEnabled_def saveAllStreams_def sm_notify_def Let_def)

lemma removeStream_sound:
  assumes "sm_sound s"
  shows "sm_sound (snd (sm_removeStream e i s))"
proof (cases "map_of (sm_streams s) i")
  case (Some ms)
  obtain ms' k where "stop_managed (ms, sm_kernel s) = (ms', k)" by fastforce
  with assms Some show ?thesis
    by (simp add: sm_removeStream_def Let_def sm_sound_autosave) (simp add: sm_sound_def table_sound_del)
qed (use assms in \<open>simp add: sm_removeStream_def\<close>)

lemma removeAllStreams_sound: "sm_sound s \<Longrightarrow> sm_sound (removeAllStreams s)"
  by (auto simp: removeAllStreams_def sm_sound_def table_sound_def Let_def smap_ok_def getMapping_def clearAll_def
      owners_known_def split: prod.splits)

text \<open>An endpoint keeps its session whether it takes the mapping or refuses it.\<close>

lemma rx_updateMapping_sdp:
  "rx_updateMapping r m (rx, k) = (ok, rx', k') \<Longrightarrow> rx_sdp rx' = rx_sdp rx \<and> (rx_running rx' \<longrightarrow> rx_running rx)"
  by (auto simp: rx_updateMapping_def Let_def split: if_splits prod.splits dest!: rx_start_static rx_stop_static)

lemma tx_updateMapping_sdp:
  "tx_updateMapping r m (tx, k) = (ok, tx', k') \<Longrightarrow> tx_sdp tx' = tx_sdp tx \<and> (tx_running tx' \<longrightarrow> tx_running tx)"
  by (auto simp: tx_updateMapping_def Let_def split: if_splits prod.splits dest!: tx_start_static tx_stop_static)

lemma updateMapping_call_sound:
  assumes "sm_sound s"
  shows "sm_sound (snd (sm_updateMapping e i new s))"
proof (cases "map_of (sm_streams s) i")
  case (Some ms)
  define m where "m = new\<lparr>cm_streamID := i, cm_streamName := cm_streamName (ms_mapping ms),
    cm_streamChannelCount := sd_numChannels (ms_sdp ms)\<rparr>"
  have inv: "table_sound (sm_mapper s) (sm_streams s) (sm_ioActive s) (sm_deviceSampleRate s)"
    using assms(1) by (simp add: sm_sound_def)
  then have wf: "smap_ok (mp_mappings (sm_mapper s))" "owners_known (sm_mapper s)"
    and ms: "stream_sound (sm_ioActive s) (sm_deviceSampleRate s) i ms"
    using Some by (auto simp: table_sound_def)
  obtain ok mp where u: "updateMapping m (sm_mapper s) = (ok, mp)" by fastforce
  show ?thesis
  proof (cases ok)
    case True
    then have um: "updateMapping m (sm_mapper s) = (True, mp)" using u by simp
    note upd = updateMapping_sound [OF wf um]
    have mi: "cm_streamID m = i" by (simp add: m_def)
    have put: "table_sound mp (smap_put i ms2 (sm_streams s)) (sm_ioActive s) (sm_deviceSampleRate s)"
      if "stream_sound (sm_ioActive s) (sm_deviceSampleRate s) i ms2" "ms_mapping ms2 = m" for ms2
      by (rule table_sound_put [OF inv that(1) upd(1,2)]) (use upd(4) that(2) in \<open>simp add: mi\<close>)
    show ?thesis
    proof (cases "ms_isTransmit ms")
      case False
      then obtain rx where rx: "ms_receiver ms = Some rx" "rx_sdp rx = ms_sdp ms" "ms_transmitter ms = None"
        using ms by (auto simp: stream_sound_def right_endpoint_def ms_rx_def ms_tx_def)
      obtain b rx' k where r: "rx_updateMapping (en_open e i) m (rx, sm_kernel s) = (b, rx', k)" by (metis prod_cases3)
      have "stream_sound (sm_ioActive s) (sm_deviceSampleRate s) i (ms\<lparr>ms_mapping := m, ms_receiver := Some rx'\<rparr>)"
        using ms rx rx_updateMapping_sdp [OF r] False upd(3) mi
        by (auto simp: stream_sound_def right_endpoint_def ms_rx_def ms_tx_def ms_running_def)
      from put [OF this] show ?thesis using Some um rx(1) r
        by (simp add: sm_updateMapping_def Let_def m_def [symmetric] sm_sound_autosave) (simp add: sm_sound_def)
    next
      case True
      then obtain tx where tx: "ms_transmitter ms = Some tx" "tx_sdp tx = ms_sdp ms" "ms_receiver ms = None"
        using ms by (auto simp: stream_sound_def right_endpoint_def ms_rx_def ms_tx_def)
      obtain b tx' k where r: "tx_updateMapping (en_open e i) m (tx, sm_kernel s) = (b, tx', k)" by (metis prod_cases3)
      have "stream_sound (sm_ioActive s) (sm_deviceSampleRate s) i (ms\<lparr>ms_mapping := m, ms_transmitter := Some tx'\<rparr>)"
        using ms tx tx_updateMapping_sdp [OF r] True upd(3) mi
        by (auto simp: stream_sound_def right_endpoint_def ms_rx_def ms_tx_def ms_running_def)
      from put [OF this] show ?thesis using Some um tx(1,3) r
        by (simp add: sm_updateMapping_def Let_def m_def [symmetric] sm_sound_autosave) (simp add: sm_sound_def)
    qed
  next
    case False
    with Some u assms(1) show ?thesis by (simp add: sm_updateMapping_def Let_def m_def [symmetric])
  qed
qed (use assms in \<open>simp add: sm_updateMapping_def\<close>)

lemma setDeviceSampleRate_sound:
  assumes "sm_sound s"
  shows "sm_sound (snd (setDeviceSampleRate rate s))"
proof -
  have "\<not> rate_mismatch (sd_sampleRate (ms_sdp ms)) rate"
    if "\<not> list_ex (\<lambda>(_, ms). rate_mismatch (sd_sampleRate (ms_sdp ms)) rate) (sm_streams s)"
      "map_of (sm_streams s) i = Some ms" for i ms
    using that map_of_SomeD [OF that(2)] by (auto simp: list_ex_iff)
  with assms show ?thesis by (auto simp: setDeviceSampleRate_def sm_sound_def table_sound_def stream_sound_def)
qed

lemma setIOActive_sound:
  assumes "sm_sound s"
  shows "sm_sound (setIOActive e active s)"
proof (cases "sm_ioActive s = active")
  case False
  define g where "g = (if active then (\<lambda>i. start_managed (en_open e i)) else (\<lambda>_. stop_managed))"
  define P where "P = (\<lambda>ms ms'. same_stream ms ms' \<and> (ms_running ms' \<longrightarrow> active))"
  obtain ss k where f: "for_streams g (sm_streams s) (sm_kernel s) = (ss, k)" by fastforce
  have g: "P ms ms'" if "g i (ms, k) = (ms', k')" for i ms k ms' k'
    using that start_managed_same stop_managed_same by (cases active) (auto simp: g_def P_def)
  have m: "map fst ss = map fst (sm_streams s) \<and> rel_option P (map_of (sm_streams s) i) (map_of ss i)" for i
    by (rule for_streams_map_of [OF f]) (rule g)
  have s': "setIOActive e active s = s\<lparr>sm_ioActive := active, sm_streams := ss, sm_kernel := k\<rparr>"
    using False f by (simp add: setIOActive_def g_def [symmetric])
  have mp: "map_option ms_mapping (map_of ss i) = map_option ms_mapping (map_of (sm_streams s) i)" for i
    using m [of i] by (cases "map_of ss i"; cases "map_of (sm_streams s) i") (auto simp: P_def same_stream_def)
  have "stream_sound active (sm_deviceSampleRate s) i ms'" if s1: "map_of ss i = Some ms'" for i ms'
  proof -
    obtain ms where ms: "map_of (sm_streams s) i = Some ms" "P ms ms'"
      using m [of i] s1 by (cases "map_of (sm_streams s) i") auto
    then have "stream_sound (sm_ioActive s) (sm_deviceSampleRate s) i ms" using assms by (auto simp: sm_sound_def table_sound_def)
    with ms(2) show ?thesis using same_stream_sound by (auto simp: P_def)
  qed
  with assms m mp show ?thesis by (simp add: s' sm_sound_def table_sound_def smap_ok_def)
qed (use assms in \<open>simp add: setIOActive_def\<close>)

lemma saveAllStreams_sound: "sm_sound s \<Longrightarrow> sm_sound (snd (saveAllStreams e s))"
  by (simp add: sm_sound_def saveAllStreams_def)

lemma setAutoSave_sound: "sm_sound s \<Longrightarrow> sm_sound (setAutoSave enabled s)"
  by (simp add: sm_sound_def setAutoSave_def)

lemma load_config_sound:
  assumes "sm_sound s"
  shows "sm_sound (snd (load_config e c s))"
proof -
  define m where "m = pv_mapping c"
  define ms where "ms = loaded_stream e c"
  let ?i = "cm_streamID m"
  have i: "ms_mapping ms = m" "ms_sdp ms = pv_sdp c" "\<not> ms_running ms" "right_endpoint ms"
    by (simp_all add: ms_def m_def loaded_stream_def Let_def ms_running_def rx_new_def tx_new_def right_endpoint_def ms_rx_def ms_tx_def)
  obtain added mp where a: "addMapping m (sm_mapper s) = (added, mp)" by fastforce
  obtain st k where st: "start_if_active (sm_ioActive s) (en_open e ?i) ms (sm_kernel s) = (st, k)" by fastforce
  show ?thesis
  proof (cases "pv_enabled c \<and> persisted_isValid c \<and> fst (canAddStream e (pv_sdp c) s) \<and>
      map_of (sm_streams s) ?i = None \<and> added")
    case True
    then have "stream_sound (sm_ioActive s) (sm_deviceSampleRate s) ?i ms"
      using canAddStream_ok [of e "pv_sdp c" s] addMapping_valid [of m "sm_mapper s" mp] a i by (simp add: stream_sound_def)
    with table_sound_add [OF _ _ _ _ _ _ st, of "sm_mapper s" "sm_streams s" "sm_deviceSampleRate s" m mp] True a assms i
    have "case st of None \<Rightarrow> table_sound (snd (removeMapping ?i mp)) (sm_streams s) (sm_ioActive s) (sm_deviceSampleRate s)
      | Some ms' \<Rightarrow> table_sound mp (smap_put ?i ms' (sm_streams s)) (sm_ioActive s) (sm_deviceSampleRate s)"
      by (simp add: sm_sound_def cong: option.case_cong)
    then show ?thesis using True a st
      by (auto simp: load_config_def Let_def m_def [symmetric] ms_def [symmetric] sm_sound_def sm_notify_def
          split: option.splits)
  next
    case False
    with a assms(1) show ?thesis by (auto simp: load_config_def Let_def m_def [symmetric])
  qed
qed

lemma load_configs_sound: "sm_sound s \<Longrightarrow> sm_sound (snd (load_configs e cs s))"
proof (induction e cs s rule: load_configs.induct)
  case (2 e c cs s)
  obtain ok s1 where 1: "load_config e c s = (ok, s1)" by fastforce
  have "sm_sound s1" using load_config_sound [of s e c] 2 1 by simp
  with 2 1 show ?case by (auto split: prod.splits)
qed simp

lemma loadSavedStreams_sound: "sm_sound s \<Longrightarrow> sm_sound (snd (loadSavedStreams e configs s))"
  using load_configs_sound by (auto simp: loadSavedStreams_def split: option.split prod.splits) (metis snd_conv)

section \<open>Reachable states\<close>

text \<open>
  Every public call that changes the state, with any arguments. Of the random identifiers only that of a transmit
  stream is taken to be unused: addStream and the loading of saved streams check it.
\<close>

inductive sm_step :: "stream_manager \<Rightarrow> stream_manager \<Rightarrow> bool" where
  "sm_step s (snd (sm_addStream e sdp s))"
| "sm_step s (snd (sm_addStream_mapped e sdp m s))"
| "importSDPFile e content s = Parsed (i, s') \<Longrightarrow> sm_step s s'"
| "map_of (sm_streams s) (generate_stream_id (en_random e)) = None \<Longrightarrow>
     sm_step s (snd (createTxStream e name ip port n m s))"
| "sm_step s (snd (sm_removeStream e i s))"
| "sm_step s (removeAllStreams s)"
| "sm_step s (snd (sm_updateMapping e i m s))"
| "sm_step s (setIOActive e active s)"
| "sm_step s (snd (setDeviceSampleRate rate s))"
| "sm_step s (setAutoSave enabled s)"
| "sm_step s (snd (loadSavedStreams e configs s))"
| "sm_step s (snd (saveAllStreams e s))"

inductive_cases sm_stepE: "sm_step s t"

interpretation manager_sys: invariant_system sm_start sm_step sm_sound
proof (unfold_locales, goal_cases)
  case (1 s)
  then show ?case
    by (auto simp: sm_start_def sm_new_def sm_sound_def table_sound_def smap_ok_def getMapping_def mapper_new_def
        owners_known_def kMaxDeviceChannels_def)
next
  case (2 s t)
  note inv = addStream_sound addStream_mapped_sound importSDPFile_sound createTxStream_sound removeStream_sound
    removeAllStreams_sound updateMapping_call_sound setIOActive_sound setDeviceSampleRate_sound setAutoSave_sound
    loadSavedStreams_sound saveAllStreams_sound
  from 2(2) show ?case by (rule sm_stepE) (use 2(1) in \<open>auto intro: inv\<close>)
qed

text \<open>The sequential calls are among them, and their invariant is the stronger one.\<close>

lemma plain_is_step: "plain_step s t \<Longrightarrow> sm_step s t"
  by (erule plain_stepE) (auto intro: sm_step.intros)

lemma plain_reach: "reach sm_start plain_step s \<Longrightarrow> reach sm_start sm_step s"
  by (induction rule: reach.induct) (auto intro: reach_start reach_step plain_is_step)

lemma sm_inv_sound:
  assumes "sm_inv s"
  shows "sm_sound s"
proof -
  let ?mp = "sm_mapper s"
  have inv: "table_inv ?mp (sm_streams s) (sm_ioActive s) (sm_deviceSampleRate s)" using assms by (simp add: sm_inv_def)
  then have wf: "mapper_wf ?mp" by (simp add: table_inv_def)
  have "isNull ow \<or> getMapping ow ?mp \<noteq> None" if ow: "ow \<in> set (mp_owners ?mp)" for ow
  proof -
    obtain ch where "ch < 128" "mp_owners ?mp ! ch = ow" using ow mapper_wf_length [OF wf] unfolding in_set_conv_nth by auto
    with wf show ?thesis unfolding mapper_wf_def owner_spec_def getMapping_def by fastforce
  qed
  then have "owners_known ?mp" using mapper_wf_length [OF wf] by (simp add: owners_known_def)
  moreover have "stream_sound (sm_ioActive s) (sm_deviceSampleRate s) i ms" if ms: "map_of (sm_streams s) i = Some ms" for i ms
  proof -
    have "stream_ok (sm_ioActive s) (sm_deviceSampleRate s) ms" "getMapping i ?mp = Some (ms_mapping ms)"
      using inv ms by (auto simp: table_inv_def)
    with mapper_wf_entry [OF wf this(2)] show ?thesis by (auto simp: stream_ok_def stream_sound_def endpoint_ok_def right_endpoint_def)
  qed
  ultimately show ?thesis using inv by (simp add: sm_sound_def table_sound_def table_inv_def mapper_wf_def)
qed

end
