(* ===== verification/Stream_Lifecycle.thy ===== *)
theory Stream_Lifecycle
  imports Stream_Calls
begin

text \<open>
  What adding, saving, loading and remapping do to a manager in a reachable state, and the properties of the stream
  manager. The steps \<open>sm_step\<close> are all calls; with \<open>plain_step\<close> every mapping is sequential and has the stream's channel count.
\<close>

section \<open>A failed addition\<close>

definition kernel_ok :: "open_results \<Rightarrow> kernel \<Rightarrow> bool" where
  "kernel_ok r k \<longleftrightarrow> or_socket r \<notin> kn_fds k \<and> (\<forall>m \<in> kn_members k. fst m \<in> kn_fds k) \<and> or_socket r \<ge> -1"

lemma rx_start_fails:
  assumes "rx_start r (rx, k) = (False, rx', k')" "kernel_ok r k"
  shows "k' = k"
proof -
  let ?ip = "sd_connectionAddress (rx_sdp rx)" and ?port = "sd_port (rx_sdp rx)"
  define iface where "iface = (if rx_resolvedInterfaceIP rx = [] then None else Some (rx_resolvedInterfaceIP rx))"
  obtain ok s1 k1 where o': "openReceiver r ?ip ?port iface (rx_socket rx, k) = (ok, s1, k1)" by (metis prod_cases3)
  have "\<not> ok \<Longrightarrow> k1 = k"
    using socket_open_effect [of r k ?ip ?port iface "rx_socket rx"] assms(2) o' by (simp add: kernel_ok_def)
  with assms(1) o' show ?thesis
    by (auto simp: rx_start_def Let_def iface_def [symmetric] split: if_splits)
qed

lemma tx_start_fails:
  assumes "tx_start r (tx, k) = (False, tx', k')" "kernel_ok r k"
  shows "k' = k"
proof -
  let ?ip = "sd_connectionAddress (tx_sdp tx)" and ?port = "sd_port (tx_sdp tx)"
  define iface where "iface = (if tx_networkInterface tx = [] then None else Some (tx_networkInterface tx))"
  obtain ok s1 k1 where o': "openTransmitter r ?ip ?port iface (tx_socket tx, k) = (ok, s1, k1)" by (metis prod_cases3)
  have "\<not> ok \<Longrightarrow> k1 = k"
    using socket_open_effect [of r k ?ip ?port iface "tx_socket tx"] assms(2) o' by (simp add: kernel_ok_def)
  with assms(1) o' show ?thesis
    by (auto simp: tx_start_def Let_def iface_def [symmetric] split: if_splits)
qed

lemma start_if_active_fails:
  assumes "start_if_active active r ms k = (None, k')" "kernel_ok r k"
  shows "k' = k"
  using assms rx_start_fails [OF _ assms(2)] tx_start_fails [OF _ assms(2)]
  by (auto simp: start_if_active_def split: if_splits option.splits prod.splits)

text \<open>Two states agree in everything a client of the manager can observe, but for the owners of the channels given.\<close>

definition sm_same :: "int set \<Rightarrow> stream_manager \<Rightarrow> stream_manager \<Rightarrow> bool" where
  "sm_same chs s s' \<longleftrightarrow> sm_streams s' = sm_streams s \<and> sm_kernel s' = sm_kernel s \<and> sm_saved s' = sm_saved s \<and>
     sm_events s' = sm_events s \<and> sm_ioActive s' = sm_ioActive s \<and> sm_autoSaveEnabled s' = sm_autoSaveEnabled s \<and>
     sm_deviceSampleRate s' = sm_deviceSampleRate s \<and>
     (\<forall>i. getMapping i (sm_mapper s') = getMapping i (sm_mapper s)) \<and>
     (\<forall>ch. ch \<notin> chs \<longrightarrow> getStreamForDeviceChannel ch (sm_mapper s') = getStreamForDeviceChannel ch (sm_mapper s))"

lemma sm_same_refl [simp]: "sm_same chs s s" by (simp add: sm_same_def)

lemma rollback_same:
  assumes "sm_sound s" "addMapping m (sm_mapper s) = (True, mp)" "getMapping (cm_streamID m) (sm_mapper s) = None"
  shows "sm_same (set (cm_channelMap m)) s (s\<lparr>sm_mapper := snd (removeMapping (cm_streamID m) mp)\<rparr>)"
proof -
  have wf: "smap_ok (mp_mappings (sm_mapper s))" "owners_known (sm_mapper s)"
    using assms(1) by (simp_all add: sm_sound_def table_sound_def)
  have "getMapping i (snd (removeMapping (cm_streamID m) mp)) = getMapping i (sm_mapper s)" for i
    using addMapping_sound(4) [OF wf assms(2)] assms(3) by (simp add: removeMapping_get)
  then show ?thesis using rollback_owner [OF wf(2,1) assms(2,3)] by (simp add: sm_same_def)
qed

lemma null_generate_rejected:
  "addMapping m mp = (True, mp') \<Longrightarrow> cm_streamID m \<noteq> null_id"
  using addMapping_valid [of m mp mp'] null_id_isNull by (auto simp: cm_isValid_iff simp del: null_id_isNull)

lemma addStream_mapped_fails:
  assumes "sm_sound s" "sm_addStream_mapped e sdp mapping s = (null_id, s')"
    "kernel_ok (en_open e (generate_stream_id (en_random e))) (sm_kernel s)"
  shows "sm_same (set (cm_channelMap mapping)) s s'"
proof -
  let ?i = "generate_stream_id (en_random e)"
  define m where "m = complete_mapping ?i (sd_sessionName sdp) (sd_numChannels sdp) mapping"
  define ms where "ms = \<lparr>ms_sdp = sdp, ms_mapping = m, ms_receiver = Some (rx_new (en_lookup e) sdp m 0 []),
    ms_transmitter = None, ms_info = stream_info_of (en_fresh e) ?i sdp, ms_isTransmit = False\<rparr>"
  have i: "cm_streamID m = ?i" "cm_channelMap m = cm_channelMap mapping" by (simp_all add: m_def complete_mapping_def)
  obtain added mp where a: "addMapping m (sm_mapper s) = (added, mp)" by fastforce
  obtain st k where st: "start_if_active (sm_ioActive s) (en_open e ?i) ms (sm_kernel s) = (st, k)" by fastforce
  show ?thesis
  proof (cases "fst (canAddStream e sdp s) \<and> map_of (sm_streams s) ?i = None \<and> added")
    case True
    then have am: "addMapping m (sm_mapper s) = (True, mp)" using a by simp
    have "?i \<noteq> null_id" using null_generate_rejected [OF am] i by simp
    then have "st = None" using assms(2) True a st
      by (cases st) (auto simp: sm_addStream_mapped_def Let_def m_def [symmetric] ms_def [symmetric])
    then have k: "k = sm_kernel s" using start_if_active_fails st assms(3) by simp
    have "s' = s\<lparr>sm_mapper := snd (removeMapping ?i mp)\<rparr>"
      using assms(2) True a st \<open>st = None\<close> k
      by (simp add: sm_addStream_mapped_def Let_def m_def [symmetric] ms_def [symmetric])
    moreover have "getMapping ?i (sm_mapper s) = None"
      using assms(1) True by (simp add: sm_sound_def table_sound_get)
    ultimately show ?thesis using rollback_same [OF assms(1) am] i by simp
  next
    case False
    with assms(2) a have "s' = s" by (auto simp: sm_addStream_mapped_def Let_def m_def [symmetric] split: if_splits)
    then show ?thesis by simp
  qed
qed

lemma addStream_fails:
  assumes "sm_sound s" "sm_addStream e sdp s = (null_id, s')"
    "kernel_ok (en_open e (generate_stream_id (en_random e))) (sm_kernel s)"
  shows "sm_same {} s s'"
proof (cases "createDefaultMapping null_id (sd_sessionName sdp) (sd_numChannels sdp) (sm_mapper s)")
  case (Some m)
  with assms(2) have "sm_addStream_mapped e sdp m s = (null_id, s')" by (simp add: sm_addStream_def)
  from addStream_mapped_fails [OF assms(1) this assms(3)] createDefaultMapping_seq [OF Some] show ?thesis by simp
qed (use assms(2) in \<open>simp add: sm_addStream_def\<close>)

lemma createTxStream_fails:
  assumes "sm_sound s" "createTxStream e name ip port n mapping s = (null_id, s')"
    "map_of (sm_streams s) (generate_stream_id (en_random e)) = None"
    "kernel_ok (en_open e (generate_stream_id (en_random e))) (sm_kernel s)"
  shows "sm_same (set (cm_channelMap mapping)) s s'"
proof -
  let ?i = "generate_stream_id (en_random e)"
  define sdp where "sdp = tx_session e name ip port n (sm_deviceSampleRate s)"
  define m where "m = complete_mapping ?i name n mapping"
  define info where "info = (en_fresh e)\<lparr>si_id := ?i, si_name := name,
    si_multicast := (si_multicast (en_fresh e))\<lparr>na_ip := ip, na_port := port\<rparr>, si_encoding := L24,
    si_sampleRate := sd_sampleRate sdp, si_numChannels := n, si_payloadType := sd_payloadType sdp, si_isActive := True\<rparr>"
  define ms where "ms = \<lparr>ms_sdp = sdp, ms_mapping = m, ms_receiver = None,
    ms_transmitter = Some (tx_new (en_ssrc e) sdp m []), ms_info = info, ms_isTransmit = True\<rparr>"
  note defs = sdp_def [symmetric] m_def [symmetric] info_def [symmetric] ms_def [symmetric]
  have i: "cm_streamID m = ?i" "cm_channelMap m = cm_channelMap mapping" by (simp_all add: m_def complete_mapping_def)
  obtain added mp where a: "addMapping m (sm_mapper s) = (added, mp)" by fastforce
  obtain st k where st: "start_if_active (sm_ioActive s) (en_open e ?i) ms (sm_kernel s) = (st, k)" by fastforce
  show ?thesis
  proof (cases "fst (canAddStream e sdp s) \<and> added")
    case True
    then have am: "addMapping m (sm_mapper s) = (True, mp)" using a by simp
    have "?i \<noteq> null_id" using null_generate_rejected [OF am] i by simp
    then have "st = None" using assms(2) True a st
      by (cases st) (auto simp: createTxStream_def Let_def defs)
    then have k: "k = sm_kernel s" using start_if_active_fails st assms(4) by simp
    have "s' = s\<lparr>sm_mapper := snd (removeMapping ?i mp)\<rparr>"
      using assms(2) True a st \<open>st = None\<close> k by (simp add: createTxStream_def Let_def defs)
    moreover have "getMapping ?i (sm_mapper s) = None"
      using assms(1,3) by (simp add: sm_sound_def table_sound_get)
    ultimately show ?thesis using rollback_same [OF assms(1) am] i by simp
  next
    case False
    with assms(2) a have "s' = s" by (auto simp: createTxStream_def Let_def defs split: if_splits)
    then show ?thesis by simp
  qed
qed

section \<open>Saving and loading\<close>

lemma free_range_available:
  assumes "mapper_wf mp" "isOverlapWithStream m null_id mp = Some False"
  shows "cm_count m \<le> getAvailableChannelCount mp"
proof -
  have l: "length (mp_owners mp) = 128" using assms(1) by (rule mapper_wf_length)
  have "{cm_start m ..< cm_start m + cm_count m} \<subseteq> {ch. ch < 128 \<and> isNull (mp_owners mp ! ch)}"
    using assms(2) l by (auto simp: isOverlap_False)
  then have "card {cm_start m ..< cm_start m + cm_count m} \<le> card {ch. ch < 128 \<and> isNull (mp_owners mp ! ch)}"
    by (intro card_mono) auto
  also have "\<dots> = getAvailableChannelCount mp"
    by (simp add: getAvailableChannelCount_def getUnassignedDeviceChannels_def kMaxDeviceChannels_def
        distinct_length_filter Collect_conj_eq Int_commute lessThan_def atLeast0LessThan)
  finally show ?thesis by simp
qed

lemma disjoint_no_overlap:
  assumes "mapper_wf mp" "cm_isValid m"
    and d: "\<And>j m'. getMapping j mp = Some m' \<Longrightarrow>
      {cm_start m ..< cm_start m + cm_count m} \<inter> {cm_start m' ..< cm_start m' + cm_count m'} = {}"
  shows "isOverlapWithStream m null_id mp = Some False"
  unfolding isOverlap_False
proof (intro allI impI, elim conjE)
  fix ch assume ch: "cm_start m \<le> ch" "ch < cm_start m + cm_count m"
  have l: "ch < 128" using ch assms(2) by (simp add: cm_isValid_iff)
  have "isNull (mp_owners mp ! ch)"
  proof (rule ccontr)
    assume "\<not> isNull (mp_owners mp ! ch)"
    with assms(1) l obtain m' where m': "map_of (mp_mappings mp) (mp_owners mp ! ch) = Some m'" "containsDeviceChannel m' (int ch)"
      unfolding mapper_wf_def owner_spec_def by blast
    then have g: "getMapping (mp_owners mp ! ch) mp = Some m'" by (simp add: getMapping_def)
    with mapper_wf_entry [OF assms(1) g] m'(2) have "ch \<in> {cm_start m' ..< cm_start m' + cm_count m'}"
      by (auto simp: containsDeviceChannel_def)
    with d [OF g] ch show False by auto
  qed
  with l mapper_wf_length [OF assms(1)]
  show "ch < length (mp_owners mp) \<and> (isNull (mp_owners mp ! ch) \<or> mp_owners mp ! ch = null_id)" by simp
qed

definition saved_config :: "u64 \<Rightarrow> managed_stream \<Rightarrow> persisted_config" where
  "saved_config now ms = createConfig now (ms_sdp ms) (ms_mapping ms) (si_description (ms_info ms))"

definition reloaded ::
    "sm_env \<Rightarrow> (managed_stream \<Rightarrow> persisted_config) \<Rightarrow> stream_id \<times> managed_stream \<Rightarrow> stream_id \<times> managed_stream" where
  "reloaded e cfg p = (fst p, loaded_stream e (cfg (snd p)))"

text \<open>The configurations saved of streams keep what adding them again looks at.\<close>

definition faithful_cfg :: "(managed_stream \<Rightarrow> persisted_config) \<Rightarrow> bool" where
  "faithful_cfg cfg \<longleftrightarrow> (\<forall>ms. pv_enabled (cfg ms) \<and> pv_mapping (cfg ms) = ms_mapping ms \<and>
     sd_sampleRate (pv_sdp (cfg ms)) = sd_sampleRate (ms_sdp ms) \<and>
     sd_numChannels (pv_sdp (cfg ms)) = sd_numChannels (ms_sdp ms) \<and>
     sd_connectionAddress (pv_sdp (cfg ms)) = sd_connectionAddress (ms_sdp ms) \<and>
     sd_port (pv_sdp (cfg ms)) = sd_port (ms_sdp ms) \<and> sdp_isValid (pv_sdp (cfg ms)) = sdp_isValid (ms_sdp ms))"

lemma faithful_saved: "faithful_cfg (saved_config now)"
  by (simp add: faithful_cfg_def saved_config_def createConfig_def)

definition reloadable :: "stream_id \<times> managed_stream \<Rightarrow> bool" where
  "reloadable p \<longleftrightarrow> sdp_isValid (ms_sdp (snd p))"

lemma loaded_stream_fields [simp]:
  "ms_sdp (loaded_stream e c) = pv_sdp c" "ms_mapping (loaded_stream e c) = pv_mapping c"
  "ms_isTransmit (loaded_stream e c) = (sd_direction (pv_sdp c) = ''sendonly'' \<or> sd_direction (pv_sdp c) = ''sendrecv'')"
  by (simp_all add: loaded_stream_def Let_def)

lemma canAddStream_iff:
  "fst (canAddStream e sdp s) \<longleftrightarrow> \<not> rate_mismatch (sd_sampleRate sdp) (sm_deviceSampleRate s) \<and> network_ok sdp \<and>
    sd_numChannels sdp \<noteq> 0 \<and> unat (sd_numChannels sdp) \<le> 128 \<and>
    unat (sd_numChannels sdp) \<le> getAvailableChannelCount (sm_mapper s)"
  using unat_gt_0 [of "sd_numChannels sdp"]
  by (auto simp: canAddStream_def validateSampleRate_def validateChannelAvailability_def
      validateNetworkConfig_def network_ok_def Let_def)

text \<open>Whether the entries can be added, one after the other, to a table that holds smaller keys.\<close>

definition addable :: "stream_manager \<Rightarrow> (stream_id \<times> managed_stream) list \<Rightarrow> bool" where
  "addable s ss \<longleftrightarrow> smap_ok (sm_streams s @ ss) \<and>
     (\<forall>(i, ms) \<in> set ss. cm_streamID (ms_mapping ms) = i \<and> cm_isValid (ms_mapping ms) \<and>
        cm_channelMap (ms_mapping ms) = [] \<and> cm_deviceChannelCount (ms_mapping ms) = sd_numChannels (ms_sdp ms) \<and>
        \<not> rate_mismatch (sd_sampleRate (ms_sdp ms)) (sm_deviceSampleRate s) \<and> network_ok (ms_sdp ms)) \<and>
     (\<forall>p \<in> set (sm_streams s @ ss). \<forall>q \<in> set ss. fst p \<noteq> fst q \<longrightarrow>
        device_range (snd p) \<inter> device_range (snd q) = {})"

lemma load_one:
  assumes cfg: "faithful_cfg cfg" and inv: "sm_inv s" and io: "\<not> sm_ioActive s" and add: "addable s (p # ss)"
  shows "\<exists>s'. load_config e (cfg (snd p)) s = (reloadable p, s') \<and> sm_inv s' \<and> \<not> sm_ioActive s' \<and>
    addable s' ss \<and> sm_kernel s' = sm_kernel s \<and>
    sm_streams s' = sm_streams s @ (if reloadable p then [reloaded e cfg p] else [])"
proof -
  obtain i ms where p: "p = (i, ms)" by fastforce
  let ?m = "ms_mapping ms"
  have m: "cm_streamID ?m = i" "cm_isValid ?m" "cm_channelMap ?m = []"
      "cm_deviceChannelCount ?m = sd_numChannels (ms_sdp ms)"
      "\<not> rate_mismatch (sd_sampleRate (ms_sdp ms)) (sm_deviceSampleRate s)" "network_ok (ms_sdp ms)"
    using add by (simp_all add: addable_def p)
  have keys: "\<forall>j \<in> set (map fst (sm_streams s)). j < i"
  proof
    fix j assume j: "j \<in> set (map fst (sm_streams s))"
    have "smap_ok (sm_streams s @ (i, ms) # ss)" using add by (simp add: addable_def p)
    then have "sorted (map fst (sm_streams s) @ [i])" "i \<notin> set (map fst (sm_streams s))"
      by (auto simp: smap_ok_def sorted_append)
    with j show "j < i" by (auto simp: sorted_append order_less_le)
  qed
  then have fresh: "map_of (sm_streams s) i = None" by (auto simp: map_of_eq_None_iff)
  have tab: "table_inv (sm_mapper s) (sm_streams s) (sm_ioActive s) (sm_deviceSampleRate s)"
    using inv by (simp add: sm_inv_def)
  have wf: "mapper_wf (sm_mapper s)" using tab by (simp add: table_inv_def)
  have disj: "\<forall>q \<in> set (sm_streams s @ p # ss). fst q \<noteq> i \<longrightarrow> device_range (snd q) \<inter> device_range ms = {}"
    using add unfolding addable_def p by auto
  have rng: "device_range ms = {cm_start ?m ..< cm_start ?m + cm_count ?m}"
    using m(4) by (simp add: device_range_def cm_count_def)
  have free: "isOverlapWithStream ?m null_id (sm_mapper s) = Some False"
  proof (rule disjoint_no_overlap [OF wf m(2)])
    fix j m' assume "getMapping j (sm_mapper s) = Some m'"
    then obtain ms' where ms': "map_of (sm_streams s) j = Some ms'" "m' = ms_mapping ms'"
      using tab by (auto simp: table_inv_get)
    then have "(j, ms') \<in> set (sm_streams s)" "j \<noteq> i" using fresh by (auto dest: map_of_SomeD)
    then have "device_range ms' \<inter> device_range ms = {}"
      using disj [rule_format, of "(j, ms')"] by simp
    moreover have "device_range ms' = {cm_start m' ..< cm_start m' + cm_count m'}"
      using tab ms' by (auto simp: table_inv_def stream_ok_def device_range_def cm_count_def)
    ultimately show "{cm_start ?m ..< cm_start ?m + cm_count ?m} \<inter> {cm_start m' ..< cm_start m' + cm_count m'} = {}"
      using rng by blast
  qed
  then obtain mp where am: "addMapping ?m (sm_mapper s) = (True, mp)"
    using m(2) by (simp add: addMapping_def validate_iff)
  have n: "unat (sd_numChannels (ms_sdp ms)) = cm_count ?m" using m(4) by (simp add: cm_count_def)
  have c: "pv_enabled (cfg ms)" "pv_mapping (cfg ms) = ?m" "sd_sampleRate (pv_sdp (cfg ms)) = sd_sampleRate (ms_sdp ms)"
    "sd_numChannels (pv_sdp (cfg ms)) = sd_numChannels (ms_sdp ms)" "sd_port (pv_sdp (cfg ms)) = sd_port (ms_sdp ms)"
    "sd_connectionAddress (pv_sdp (cfg ms)) = sd_connectionAddress (ms_sdp ms)"
    "sdp_isValid (pv_sdp (cfg ms)) = sdp_isValid (ms_sdp ms)"
    using cfg by (simp_all add: faithful_cfg_def)
  have "fst (canAddStream e (pv_sdp (cfg ms)) s)"
    using m free_range_available [OF wf free] m(2) c
    by (auto simp: canAddStream_iff n cm_isValid_iff network_ok_def simp flip: n)
  then have l: "load_config e (cfg ms) s =
      (if reloadable p then (True, sm_notify (Added (ms_info (loaded_stream e (cfg ms))))
           (s\<lparr>sm_mapper := mp, sm_kernel := sm_kernel s,
              sm_streams := smap_put i (loaded_stream e (cfg ms)) (sm_streams s)\<rparr>))
       else (False, s))"
    using m am fresh io c
    by (simp add: load_config_def Let_def persisted_isValid_def reloadable_def p start_if_active_def)
  define s' where "s' = snd (load_config e (cfg ms) s)"
  have inv': "sm_inv s'" unfolding s'_def
    by (rule load_config_inv [OF inv]) (simp add: config_ok_def c m)
  have s': "sm_streams s' = sm_streams s @ (if reloadable p then [reloaded e cfg p] else [])"
      "sm_kernel s' = sm_kernel s" "sm_ioActive s' = sm_ioActive s" "sm_deviceSampleRate s' = sm_deviceSampleRate s"
    using l smap_put_last [OF keys [unfolded list.set_map]] by (simp_all add: s'_def sm_notify_def reloaded_def p)
  have r: "device_range (snd (reloaded e cfg p)) = device_range ms" "fst (reloaded e cfg p) = i"
    by (simp_all add: reloaded_def p device_range_def c)
  have "addable s' ss"
    using add r unfolding addable_def s' p
    by (auto simp: smap_ok_def sorted_append)
  with inv' s' io l show ?thesis by (intro exI [of _ s']) (simp add: s'_def p)
qed

lemma load_all:
  assumes cfg: "faithful_cfg cfg" and "sm_inv s" "\<not> sm_ioActive s" "addable s ss"
  shows "\<exists>s'. load_configs e (map (\<lambda>p. cfg (snd p)) ss) s = (length (filter reloadable ss), s') \<and>
    sm_streams s' = sm_streams s @ map (reloaded e cfg) (filter reloadable ss) \<and> sm_kernel s' = sm_kernel s"
  using assms(2-4)
proof (induction ss arbitrary: s)
  case (Cons p ss)
  from load_one [OF cfg Cons.prems, of e] obtain s1 where 1:
    "load_config e (cfg (snd p)) s = (reloadable p, s1)" "sm_inv s1" "\<not> sm_ioActive s1" "addable s1 ss"
    "sm_kernel s1 = sm_kernel s" "sm_streams s1 = sm_streams s @ (if reloadable p then [reloaded e cfg p] else [])"
    by blast
  from Cons.IH [OF 1(2-4)] obtain s2 where
    "load_configs e (map (\<lambda>p. cfg (snd p)) ss) s1 = (length (filter reloadable ss), s2)"
    "sm_streams s2 = sm_streams s1 @ map (reloaded e cfg) (filter reloadable ss)" "sm_kernel s2 = sm_kernel s1"
    by blast
  with 1 show ?case by simp
qed simp

text \<open>The mappings a restart brings back: sequential, of the stream's channel count, and the streams apart.\<close>

definition tidy :: "stream_manager \<Rightarrow> bool" where
  "tidy s \<longleftrightarrow>
     (\<forall>(i, ms) \<in> set (sm_streams s). cm_channelMap (ms_mapping ms) = [] \<and>
        cm_deviceChannelCount (ms_mapping ms) = sd_numChannels (ms_sdp ms)) \<and>
     (\<forall>(i, ms) \<in> set (sm_streams s). \<forall>(j, ms') \<in> set (sm_streams s). i \<noteq> j \<longrightarrow> device_range ms \<inter> device_range ms' = {})"

lemma plain_tidy:
  assumes "sm_inv s"
  shows "tidy s"
proof -
  have tab: "table_inv (sm_mapper s) (sm_streams s) (sm_ioActive s) (sm_deviceSampleRate s)"
    using assms by (simp add: sm_inv_def)
  have wf: "mapper_wf (sm_mapper s)" using tab by (simp add: table_inv_def)
  have ok: "stream_ok (sm_ioActive s) (sm_deviceSampleRate s) ms" "getMapping i (sm_mapper s) = Some (ms_mapping ms)"
    if "(i, ms) \<in> set (sm_streams s)" for i ms
  proof -
    have "map_of (sm_streams s) i = Some ms" using tab that by (simp add: table_inv_def smap_ok_def)
    then show "stream_ok (sm_ioActive s) (sm_deviceSampleRate s) ms" "getMapping i (sm_mapper s) = Some (ms_mapping ms)"
      using tab by (auto simp: table_inv_def)
  qed
  have rng: "device_range ms = {cm_start (ms_mapping ms) ..< cm_start (ms_mapping ms) + cm_count (ms_mapping ms)}"
    if "(i, ms) \<in> set (sm_streams s)" for i ms
    using ok(1) [OF that] by (simp add: stream_ok_def device_range_def cm_count_def)
  have "device_range ms \<inter> device_range ms' = {}"
    if "(i, ms) \<in> set (sm_streams s)" "(j, ms') \<in> set (sm_streams s)" "i \<noteq> j" for i j ms ms'
    using mapper_wf_disjoint [OF wf ok(2) [OF that(1)] ok(2) [OF that(2)] that(3)] rng [OF that(1)] rng [OF that(2)] by simp
  moreover have "cm_channelMap (ms_mapping ms) = [] \<and> cm_deviceChannelCount (ms_mapping ms) = sd_numChannels (ms_sdp ms)"
    if "(i, ms) \<in> set (sm_streams s)" for i ms
    using mapper_wf_entry [OF wf ok(2) [OF that]] ok(1) [OF that] by (simp add: stream_ok_def)
  ultimately show ?thesis unfolding tidy_def by blast
qed

lemma addable_new:
  assumes "sm_sound s" "tidy s"
  shows "addable ((sm_new k)\<lparr>sm_deviceSampleRate := sm_deviceSampleRate s\<rparr>) (sm_streams s)"
proof -
  have tab: "table_sound (sm_mapper s) (sm_streams s) (sm_ioActive s) (sm_deviceSampleRate s)"
    using assms(1) by (simp add: sm_sound_def)
  have "stream_sound (sm_ioActive s) (sm_deviceSampleRate s) i ms" if "(i, ms) \<in> set (sm_streams s)" for i ms
  proof -
    have "map_of (sm_streams s) i = Some ms" using tab that by (simp add: table_sound_def smap_ok_def)
    then show ?thesis using tab by (auto simp: table_sound_def)
  qed
  moreover have "smap_ok (sm_streams s)" using tab by (simp add: table_sound_def)
  ultimately show ?thesis using assms(2)
    by (fastforce simp: addable_def sm_new_def stream_sound_def tidy_def)
qed

lemma new_rate_inv: "sm_inv ((sm_new k)\<lparr>sm_deviceSampleRate := rate\<rparr>)"
  using mapper_wf_new by (simp add: sm_new_def sm_inv_def table_inv_def smap_ok_def getMapping_def mapper_new_def)

lemma load_saved:
  assumes "sm_sound s" "tidy s" "faithful_cfg cfg"
  shows "\<exists>s'. load_configs e (map (\<lambda>p. cfg (snd p)) (sm_streams s)) ((sm_new k)\<lparr>sm_deviceSampleRate := sm_deviceSampleRate s\<rparr>) =
      (length (filter reloadable (sm_streams s)), s') \<and>
    sm_streams s' = map (reloaded e cfg) (filter reloadable (sm_streams s)) \<and> sm_kernel s' = k"
  using load_all [OF assms(3) new_rate_inv [where k = k and rate = "sm_deviceSampleRate s"] _ addable_new [OF assms(1,2)], of e]
  by (simp add: sm_new_def)

lemma save_load:
  assumes "sm_sound s" "tidy s" "en_saves e"
  shows "\<exists>cs s'. sm_saved (snd (saveAllStreams e s)) = Some cs \<and>
    load_configs e' cs ((sm_new k)\<lparr>sm_deviceSampleRate := sm_deviceSampleRate s\<rparr>) =
      (length (filter reloadable (sm_streams s)), s') \<and>
    sm_streams s' = map (reloaded e' (saved_config (en_now e))) (filter reloadable (sm_streams s)) \<and> sm_kernel s' = k"
proof -
  have "sm_saved (snd (saveAllStreams e s)) = Some (map (\<lambda>p. saved_config (en_now e) (snd p)) (sm_streams s))"
    using assms(3) by (simp add: saveAllStreams_def saved_config_def case_prod_beta)
  then show ?thesis using load_saved [OF assms(1,2) faithful_saved, of e' "en_now e" k] by simp
qed

section \<open>Shrinking a mapping\<close>

lemma shrink_releases:
  assumes inv: "sm_inv s" and ms: "map_of (sm_streams s) i = Some ms" "\<not> ms_running ms"
    and new: "new = (ms_mapping ms)\<lparr>cm_deviceChannelCount := 1\<rparr>"
  shows "\<exists>s' ms'. sm_updateMapping e i new s = (True, s') \<and> map_of (sm_streams s') i = Some ms' \<and> endpoint_ok ms' \<and>
    device_range ms' = device_range ms \<and>
    (\<forall>ch \<in> device_range ms. ch \<noteq> cm_start (ms_mapping ms) \<longrightarrow> getStreamForDeviceChannel (int ch) (sm_mapper s') = None)"
proof -
  have tab: "table_inv (sm_mapper s) (sm_streams s) (sm_ioActive s) (sm_deviceSampleRate s)"
    using inv by (simp add: sm_inv_def)
  then have wf: "mapper_wf (sm_mapper s)" and ok: "smap_ok (sm_streams s)" "endpoint_ok ms"
    "cm_deviceChannelCount (ms_mapping ms) = sd_numChannels (ms_sdp ms)"
    and get0: "getMapping i (sm_mapper s) = Some (ms_mapping ms)"
    using ms by (auto simp: table_inv_def stream_ok_def)
  note entry = mapper_wf_entry [OF wf get0]
  define m where "m = new\<lparr>cm_streamID := i, cm_streamName := cm_streamName (ms_mapping ms),
    cm_streamChannelCount := sd_numChannels (ms_sdp ms)\<rparr>"
  have m: "cm_streamID m = i" "cm_start m = cm_start (ms_mapping ms)" "cm_count m = 1" "cm_channelMap m = []"
    using entry by (simp_all add: m_def new cm_start_def cm_count_def)
  have pos: "0 < cm_count (ms_mapping ms)" "cm_start (ms_mapping ms) + cm_count (ms_mapping ms) \<le> 128"
    using entry by (simp_all add: cm_isValid_iff)
  then have nz: "sd_numChannels (ms_sdp ms) \<noteq> 0" using ok(3) by (auto simp: cm_count_def)
  have valid: "cm_isValid m" using entry m pos nz by (auto simp: cm_isValid_iff m_def)
  have own: "mp_owners (sm_mapper s) ! ch = i" if "ch = cm_start m" for ch
  proof -
    have "ch < 128" "containsDeviceChannel (ms_mapping ms) (int ch)" "\<not> isNull i"
      using that m(2) pos entry by (auto simp: containsDeviceChannel_def cm_isValid_iff)
    with wf get0 show ?thesis unfolding mapper_wf_def owner_spec_def getMapping_def by blast
  qed
  have "isOverlapWithStream m i (sm_mapper s) = Some False"
    using own pos m(2,3) mapper_wf_length [OF wf] by (auto simp: isOverlap_False less_Suc_eq)
  then obtain mp where um: "updateMapping m (sm_mapper s) = (True, mp)"
    using valid m(1) by (simp add: updateMapping_def validate_iff Let_def)
  have wf': "mapper_wf mp" using updateMapping_wf [OF wf m(4)] um by simp
  note get = updateMapping_get [OF wf um, unfolded m(1)]
  have free: "getStreamForDeviceChannel (int ch) mp = None"
    if ch: "ch \<in> device_range ms" "ch \<noteq> cm_start (ms_mapping ms)" for ch
  proof (rule ccontr)
    assume "getStreamForDeviceChannel (int ch) mp \<noteq> None"
    then obtain j where j: "getStreamForDeviceChannel (int ch) mp = Some j" by blast
    have c: "ch \<in> {cm_start (ms_mapping ms) ..< cm_start (ms_mapping ms) + cm_count (ms_mapping ms)}"
      using ch(1) ok(3) by (simp add: device_range_def cm_count_def)
    then have "ch < 128" using pos by simp
    then obtain m' where m': "getMapping j mp = Some m'" "containsDeviceChannel m' (int ch)"
      using mapper_wf_owner [OF wf', of "int ch" j] j by auto
    show False
    proof (cases "j = i")
      case True
      with m' get m ch(2) show False by (auto simp: containsDeviceChannel_def)
    next
      case False
      then have "getMapping j (sm_mapper s) = Some m'" using m' get by simp
      with mapper_wf_disjoint [OF wf this get0 False] mapper_wf_entry [OF wf this] m'(2) c
      show False by (auto simp: containsDeviceChannel_def)
    qed
  qed
  have fits: "cm_start m + unat (sd_numChannels (ms_sdp ms)) \<le> 128"
    using pos ok(3) m(2) by (simp add: cm_count_def)
  have "\<exists>ms'. sm_updateMapping e i new s = (True, autoSaveIfEnabled e (sm_notify (StatusChanged (ms_info ms'))
      (s\<lparr>sm_mapper := mp, sm_streams := smap_put i ms' (sm_streams s), sm_kernel := sm_kernel s\<rparr>))) \<and>
      endpoint_ok ms' \<and> device_range ms' = device_range ms"
  proof (cases "ms_isTransmit ms")
    case False
    then obtain rx where rx: "ms_receiver ms = Some rx" "rx_sdp rx = ms_sdp ms" "ms_transmitter ms = None" "\<not> rx_running rx"
      using ok(2) ms(2) by (auto simp: endpoint_ok_def ms_rx_def ms_tx_def ms_running_def)
    have "rx_updateMapping (en_open e i) m (rx, sm_kernel s) = (True, rx\<lparr>rx_mapping := m\<rparr>, sm_kernel s)"
      using rx fits by (simp add: rx_updateMapping_def Let_def)
    moreover have "endpoint_ok (ms\<lparr>ms_mapping := m, ms_receiver := Some (rx\<lparr>rx_mapping := m\<rparr>)\<rparr>)"
      using rx False by (simp add: endpoint_ok_def ms_rx_def ms_tx_def)
    ultimately show ?thesis using ms(1) um rx m(2)
      by (intro exI [of _ "ms\<lparr>ms_mapping := m, ms_receiver := Some (rx\<lparr>rx_mapping := m\<rparr>)\<rparr>"])
        (simp add: sm_updateMapping_def Let_def m_def [symmetric] device_range_def)
  next
    case True
    then obtain tx where tx: "ms_transmitter ms = Some tx" "tx_sdp tx = ms_sdp ms" "ms_receiver ms = None" "\<not> tx_running tx"
      using ok(2) ms(2) by (auto simp: endpoint_ok_def ms_rx_def ms_tx_def ms_running_def)
    have "tx_updateMapping (en_open e i) m (tx, sm_kernel s) = (True, tx\<lparr>tx_mapping := m\<rparr>, sm_kernel s)"
      using tx fits by (simp add: tx_updateMapping_def Let_def)
    moreover have "endpoint_ok (ms\<lparr>ms_mapping := m, ms_transmitter := Some (tx\<lparr>tx_mapping := m\<rparr>)\<rparr>)"
      using tx True by (simp add: endpoint_ok_def ms_rx_def ms_tx_def)
    ultimately show ?thesis using ms(1) um tx m(2)
      by (intro exI [of _ "ms\<lparr>ms_mapping := m, ms_transmitter := Some (tx\<lparr>tx_mapping := m\<rparr>)\<rparr>"])
        (simp add: sm_updateMapping_def Let_def m_def [symmetric] device_range_def)
  qed
  then obtain ms' where u: "sm_updateMapping e i new s = (True, autoSaveIfEnabled e (sm_notify (StatusChanged (ms_info ms'))
      (s\<lparr>sm_mapper := mp, sm_streams := smap_put i ms' (sm_streams s), sm_kernel := sm_kernel s\<rparr>)))"
      "endpoint_ok ms'" "device_range ms' = device_range ms" by blast
  have a: "sm_streams (autoSaveIfEnabled e (sm_notify ev s0)) = sm_streams s0"
    "sm_mapper (autoSaveIfEnabled e (sm_notify ev s0)) = sm_mapper s0" for ev s0
    by (simp_all add: autoSaveIfEnabled_def saveAllStreams_def sm_notify_def Let_def)
  show ?thesis using u free ok(1) by (simp add: a map_of_smap_put)
qed

section \<open>A transmit stream after a restart\<close>

lemma createTxStream_entry:
  assumes "sm_sound s" "createTxStream e name ip port n mapping s = (i, s')" "i \<noteq> null_id"
  shows "\<exists>ms. map_of (sm_streams s') i = Some ms \<and> ms_isTransmit ms \<and>
    ms_sdp ms = tx_session e name ip port n (sm_deviceSampleRate s)"
proof -
  define sdp where "sdp = tx_session e name ip port n (sm_deviceSampleRate s)"
  define m where "m = complete_mapping (generate_stream_id (en_random e)) name n mapping"
  define info where "info = (en_fresh e)\<lparr>si_id := generate_stream_id (en_random e), si_name := name,
    si_multicast := (si_multicast (en_fresh e))\<lparr>na_ip := ip, na_port := port\<rparr>, si_encoding := L24,
    si_sampleRate := sd_sampleRate sdp, si_numChannels := n, si_payloadType := sd_payloadType sdp, si_isActive := True\<rparr>"
  define ms where "ms = \<lparr>ms_sdp = sdp, ms_mapping = m, ms_receiver = None,
    ms_transmitter = Some (tx_new (en_ssrc e) sdp m []), ms_info = info, ms_isTransmit = True\<rparr>"
  note defs = sdp_def [symmetric] m_def [symmetric] info_def [symmetric] ms_def [symmetric]
  obtain added mp where a: "addMapping m (sm_mapper s) = (added, mp)" by fastforce
  obtain st k where st: "start_if_active (sm_ioActive s) (en_open e (generate_stream_id (en_random e))) ms (sm_kernel s) = (st, k)" by fastforce
  have "\<exists>ms'. st = Some ms' \<and> s' = sm_install e i ms' (s\<lparr>sm_mapper := mp, sm_kernel := k\<rparr>)"
    using assms(2,3) a st by (auto simp: createTxStream_def Let_def defs split: if_splits option.splits)
  then obtain ms' where ms': "st = Some ms'" "s' = sm_install e i ms' (s\<lparr>sm_mapper := mp, sm_kernel := k\<rparr>)" by blast
  have "same_stream ms ms'" using start_if_active_same st ms'(1) by blast
  then have "ms_isTransmit ms'" "ms_sdp ms' = sdp" by (simp_all add: same_stream_def ms_def)
  moreover have "smap_ok (sm_streams s)" using assms(1) by (simp add: sm_sound_def table_sound_def)
  ultimately show ?thesis using ms'(2) by (simp add: map_of_smap_put sdp_def)
qed

lemma tx_reload_receives:
  assumes "sm_sound s" "createTxStream e name ip port n mapping s = (i, s')" "i \<noteq> null_id"
  shows "\<exists>ms rx. map_of (sm_streams s') i = Some ms \<and> ms_isTransmit ms \<and>
    ms_receiver (loaded_stream e' (saved_config now ms)) = Some rx \<and>
    ms_transmitter (loaded_stream e' (saved_config now ms)) = None \<and>
    sd_connectionAddress (rx_sdp rx) = ip"
proof -
  from createTxStream_entry [OF assms] obtain ms where ms: "map_of (sm_streams s') i = Some ms" "ms_isTransmit ms"
    "ms_sdp ms = tx_session e name ip port n (sm_deviceSampleRate s)" by blast
  then show ?thesis
    by (intro exI [of _ ms])
      (simp add: loaded_stream_def saved_config_def createConfig_def tx_session_def sdp_default_def rx_new_def)
qed

definition manager_info :: stream_info where
  "manager_info = \<lparr>si_id = null_id, si_name = [], si_description = [],
     si_source = \<lparr>na_ip = [], na_port = 0, na_ttl = 32\<rparr>, si_multicast = \<lparr>na_ip = [], na_port = 0, na_ttl = 32\<rparr>,
     si_encoding = UnknownEncoding, si_sampleRate = 0, si_numChannels = 0, si_payloadType = 0, si_ptime = 0,
     si_framecount = 0, si_jitterBufferDepth = 0, si_ptp = \<lparr>pc_domain = 0, pc_masterMAC = [], pc_enabled = True\<rparr>,
     si_stats = stats_zero, si_isActive = False, si_isConnected = False\<rparr>"

definition manager_kernel :: kernel where
  "manager_kernel = \<lparr>kn_fds = {0, 1, 2}, kn_members = {}\<rparr>"

definition manager_env :: "u8 \<Rightarrow> sm_env" where
  "manager_env b = \<lparr>en_random = b # replicate 15 0, en_fresh = manager_info,
     en_open = (\<lambda>_. \<lparr>or_socket = 3, or_reuseaddr = True, or_reuseport = True, or_bind = False,
       or_multicast_ttl = True, or_multicast_if = True, or_add_membership = True\<rparr>),
     en_lookup = (\<lambda>_. []), en_ssrc = 9, en_now = 7, en_saves = True, en_primaryInterface = ''en0'',
     en_hasMulticastRoute = True\<rparr>"

definition manager_session :: "u16 \<Rightarrow> sdp_session" where
  "manager_session n = sdp_default\<lparr>sd_sessionName := ''s'', sd_connectionAddress := ''239.1.1.1'', sd_numChannels := n\<rparr>"

lemma f64_round_nonneg: "0 \<le> x \<Longrightarrow> 0 \<le> f64_round x"
  using round_half_even_bounds(2) [of 0 "x / pow2 (max (binade x - 52) (- 1074))"]
  by (simp add: f64_round_def Let_def divide_nonneg_pos mult_nonneg_nonneg less_imp_le)

lemma rate_mismatch_self: "\<not> rate_mismatch r (of_nat (unat r))"
proof -
  have z: "f64_round 0 = 0" by (simp add: f64_round_def)
  have "\<not> f64_round (1 / 10) < 0" using f64_round_nonneg [of "1 / 10"] by simp
  then show ?thesis by (simp add: rate_mismatch_def z)
qed

lemma manager_can_add: "0 < n \<Longrightarrow> n \<le> 128 \<Longrightarrow> fst (canAddStream e (manager_session n) (sm_new k))"
proof -
  assume n: "0 < n" "n \<le> 128"
  have "getAvailableChannelCount mapper_new = 128" by code_simp
  moreover have "\<not> rate_mismatch 48000 48000" using rate_mismatch_self [of 48000] by simp
  moreover have "unat n \<le> 128" using n(2) by (simp add: word_le_nat_alt)
  ultimately show ?thesis using n(1)
    by (simp add: canAddStream_iff manager_session_def sdp_default_def sm_new_def network_ok_def word_gt_0)
qed

definition manager_id :: stream_id where
  "manager_id = StreamID (1 # replicate 5 0 @ [0x40, 0, 0x80] @ replicate 7 0)"

lemma manager_generate: "generate_stream_id (en_random (manager_env 1)) = manager_id" by code_simp

definition manager_mapping :: "stream_id \<Rightarrow> channel_mapping" where
  "manager_mapping i = \<lparr>cm_streamID = i, cm_streamName = ''s'', cm_streamChannelCount = 3, cm_streamChannelOffset = 0,
     cm_deviceChannelStart = 0, cm_deviceChannelCount = 3, cm_channelMap = []\<rparr>"

lemma manager_add: "fst (addMapping (manager_mapping manager_id) mapper_new)" by code_simp

lemma manager_default: "createDefaultMapping null_id ''s'' 3 mapper_new = Some (manager_mapping null_id)" by code_simp

lemma manager_not_null: "manager_id \<noteq> null_id" by code_simp

definition one_stream :: stream_manager where
  "one_stream = snd (sm_addStream (manager_env 1) (manager_session 3) (sm_new manager_kernel))"

lemma one_stream_streams:
  "\<exists>ms. sm_streams one_stream = [(manager_id, ms)] \<and> ms_sdp ms = manager_session 3 \<and> ms_mapping ms = manager_mapping manager_id \<and>
     \<not> ms_isTransmit ms \<and> \<not> ms_running ms"
proof -
  have s: "sd_sessionName (manager_session 3) = ''s''" "sd_numChannels (manager_session 3) = 3"
    by (simp_all add: manager_session_def)
  have m: "complete_mapping manager_id ''s'' 3 (manager_mapping null_id) = manager_mapping manager_id"
    by (simp add: complete_mapping_def manager_mapping_def)
  obtain mp where a: "addMapping (manager_mapping manager_id) mapper_new = (True, mp)"
    using manager_add by (metis prod.collapse)
  have n: "sm_mapper (sm_new k) = mapper_new" "sm_streams (sm_new k) = []" "\<not> sm_ioActive (sm_new k)" for k
    by (simp_all add: sm_new_def)
  show ?thesis
    using manager_can_add [of 3 "manager_env 1" manager_kernel]
    by (simp add: one_stream_def sm_addStream_def s n manager_default sm_addStream_mapped_def Let_def manager_generate m a
        start_if_active_def ms_running_def rx_new_def)
qed

lemma new_plain_reach: "reach sm_start plain_step (sm_new k)"
  by (rule reach_start) (auto simp: sm_start_def)

lemma one_stream_plain_reach: "reach sm_start plain_step one_stream"
  unfolding one_stream_def
  by (rule reach_step [OF new_plain_reach]) (rule plain_step.intros(1))

lemmas new_reach = plain_reach [OF new_plain_reach]

lemmas one_stream_reach = plain_reach [OF one_stream_plain_reach]

lemma one_stream_tidy: "tidy one_stream"
  by (rule plain_tidy) (rule plain_sys.reach_inv [OF one_stream_plain_reach])

lemma io_active_reach: "reach sm_start sm_step (setIOActive (manager_env 1) True (sm_new manager_kernel))"
  by (rule reach_step [OF new_reach]) (rule sm_step.intros(8))

section \<open>Streams with sequential mappings\<close>

lemma plain_isolated:
  assumes "reach sm_start plain_step s"
  shows "(\<forall>i ms. map_of (sm_streams s) i = Some ms \<longrightarrow> endpoint_ok ms \<and> device_range ms \<subseteq> {..<128}) \<and>
    (\<forall>i j ms ms'. map_of (sm_streams s) i = Some ms \<and> map_of (sm_streams s) j = Some ms' \<and> i \<noteq> j \<longrightarrow>
        device_range ms \<inter> device_range ms' = {}) \<and>
    getUsedChannelCount (sm_mapper s) = (\<Sum>(i, ms) \<leftarrow> sm_streams s. unat (sd_numChannels (ms_sdp ms)))"
proof -
  have inv: "table_inv (sm_mapper s) (sm_streams s) (sm_ioActive s) (sm_deviceSampleRate s)"
    using plain_sys.reach_inv [OF assms] by (simp add: sm_inv_def)
  then have wf: "mapper_wf (sm_mapper s)" by (simp add: table_inv_def)
  have ok: "stream_ok (sm_ioActive s) (sm_deviceSampleRate s) ms" "getMapping i (sm_mapper s) = Some (ms_mapping ms)"
    if "map_of (sm_streams s) i = Some ms" for i ms
    using inv that by (auto simp: table_inv_def)
  have rng: "device_range ms = {cm_start (ms_mapping ms) ..< cm_start (ms_mapping ms) + cm_count (ms_mapping ms)}"
    if "map_of (sm_streams s) i = Some ms" for i ms
    using ok(1) [OF that] by (simp add: device_range_def cm_count_def stream_ok_def)
  have sub: "device_range ms \<subseteq> {..<128}" if "map_of (sm_streams s) i = Some ms" for i ms
    using rng [OF that] mapper_wf_entry [OF wf ok(2) [OF that]] by (auto simp: cm_isValid_iff)
  have "device_range ms \<inter> device_range ms' = {}"
    if "map_of (sm_streams s) i = Some ms" "map_of (sm_streams s) j = Some ms'" "i \<noteq> j" for i j ms ms'
    using mapper_wf_disjoint [OF wf ok(2) [OF that(1)] ok(2) [OF that(2)] that(3)] rng that(1,2) by simp
  moreover have "getUsedChannelCount (sm_mapper s) = (\<Sum>(i, ms) \<leftarrow> sm_streams s. unat (sd_numChannels (ms_sdp ms)))"
  proof -
    have "map cm_count (getAllMappings (sm_mapper s)) = map (\<lambda>(i, ms). cm_count (ms_mapping ms)) (sm_streams s)"
      by (simp add: getAllMappings_def table_inv_mappings [OF inv] comp_def case_prod_beta)
    also have "\<dots> = map (\<lambda>(i, ms). unat (sd_numChannels (ms_sdp ms))) (sm_streams s)"
      using inv by (auto simp: table_inv_def smap_ok_def stream_ok_def cm_count_def)
    finally show ?thesis using used_count_sum [OF wf] by simp
  qed
  ultimately show ?thesis using ok sub unfolding stream_ok_def by blast
qed

section \<open>Properties\<close>

text \<open>
  C5. Streams are kept apart. After any calls with any arguments (streams added, imported, created, remapped, loaded and removed,
  I/O switched, the rate changed): mapper and table list the same mappings; each is valid and carries the stream's
  identifier; the stream has the one endpoint of its direction with its session; its rate is the device's; nothing
  runs unless I/O is active; and a channel is held by streams of the table only. If moreover every mapping given, a saved one included, is
  sequential and has the stream's channel count, then the endpoint has the mapping of the table, the stream's device
  channels lie within the 128 and are disjoint from those of every other stream, receivers and transmitters alike, and
  the number of used channels is the sum of the channel counts. The generated identifier of a transmit stream is not in use.
\<close>

theorem streams_isolated:
  assumes "reach sm_start sm_step s"
  shows "(\<forall>i ms. map_of (sm_streams s) i = Some ms \<longrightarrow>
        getMapping i (sm_mapper s) = Some (ms_mapping ms) \<and> cm_streamID (ms_mapping ms) = i \<and> cm_isValid (ms_mapping ms) \<and>
        right_endpoint ms \<and> \<not> rate_mismatch (sd_sampleRate (ms_sdp ms)) (sm_deviceSampleRate s) \<and>
        (ms_running ms \<longrightarrow> sm_ioActive s)) \<and>
    (\<forall>ch i. getStreamForDeviceChannel ch (sm_mapper s) = Some i \<longrightarrow> map_of (sm_streams s) i \<noteq> None) \<and>
    (reach sm_start plain_step s \<longrightarrow>
      (\<forall>i ms. map_of (sm_streams s) i = Some ms \<longrightarrow> endpoint_ok ms \<and> device_range ms \<subseteq> {..<128}) \<and>
      (\<forall>i j ms ms'. map_of (sm_streams s) i = Some ms \<and> map_of (sm_streams s) j = Some ms' \<and> i \<noteq> j \<longrightarrow>
          device_range ms \<inter> device_range ms' = {}) \<and>
      getUsedChannelCount (sm_mapper s) = (\<Sum>(i, ms) \<leftarrow> sm_streams s. unat (sd_numChannels (ms_sdp ms))))"
proof -
  have inv: "table_sound (sm_mapper s) (sm_streams s) (sm_ioActive s) (sm_deviceSampleRate s)"
    using manager_sys.reach_inv [OF assms] by (simp add: sm_sound_def)
  have "map_of (sm_streams s) i \<noteq> None" if "getStreamForDeviceChannel ch (sm_mapper s) = Some i" for ch i
  proof -
    have "i \<in> set (mp_owners (sm_mapper s))" "\<not> isNull i"
      using inv that by (auto simp: getStreamForDeviceChannel_def table_sound_def owners_known_def kMaxDeviceChannels_def
          Let_def split: if_splits)
    then have "getMapping i (sm_mapper s) \<noteq> None" using inv by (auto simp: table_sound_def owners_known_def)
    then show ?thesis using table_sound_get [OF inv, of i] by auto
  qed
  then show ?thesis using inv plain_isolated [of s] by (simp add: table_sound_def stream_sound_def)
qed

lemma streams_isolated_witness: "getUsedChannelCount (sm_mapper one_stream) = 3 \<and>
    getMapping manager_id (sm_mapper one_stream) = Some (manager_mapping manager_id)"
  using streams_isolated [OF one_stream_reach] one_stream_plain_reach one_stream_streams by (auto simp: manager_session_def)

text \<open>
  C16. Adding is all or nothing, but for a custom channel map. When addStream or createTxStream fails, in any reachable state,
  for any mapping and at whichever of its steps (validation, mapping, opening the socket, binding, joining the group), then
  table, mappings, the descriptors and memberships of the kernel, the saved configuration and the events are those
  before the call, and so is the owner of every channel the custom map of the mapping does not list; without a custom map that is
  every channel, as it is for the addStream that is given none. (The channels a custom map lists are taken from their owners and freed by the rollback.) The
  descriptor is a new one, as socket() guarantees, and the identifier is not in use.
\<close>

theorem failed_add_rolls_back:
  assumes "reach sm_start sm_step s"
    and "kernel_ok (en_open e (generate_stream_id (en_random e))) (sm_kernel s)"
    and "map_of (sm_streams s) (generate_stream_id (en_random e)) = None"
  shows "(\<forall>s'. sm_addStream_mapped e sdp mapping s = (null_id, s') \<longrightarrow> sm_same (set (cm_channelMap mapping)) s s') \<and>
    (\<forall>s'. sm_addStream e sdp s = (null_id, s') \<longrightarrow> sm_same {} s s') \<and>
    (\<forall>s'. createTxStream e name ip port n mapping s = (null_id, s') \<longrightarrow> sm_same (set (cm_channelMap mapping)) s s')"
  using addStream_mapped_fails [OF manager_sys.reach_inv [OF assms(1)] _ assms(2)]
    addStream_fails [OF manager_sys.reach_inv [OF assms(1)] _ assms(2)]
    createTxStream_fails [OF manager_sys.reach_inv [OF assms(1)] _ assms(3,2)] by blast

lemma failed_add_rolls_back_witness:
  "let s = setIOActive (manager_env 1) True (sm_new manager_kernel);
       r = sm_addStream_mapped (manager_env 1) (manager_session 3) (manager_mapping null_id) s
   in sm_ioActive s \<and> fst r = null_id \<and> sm_same {} s (snd r)"
proof -
  define s where "s = setIOActive (manager_env 1) True (sm_new manager_kernel)"
  have s: "sm_streams s = []" "sm_kernel s = manager_kernel" "sm_ioActive s" "sm_mapper s = mapper_new"
      "sm_deviceSampleRate s = 48000"
    by (simp_all add: s_def setIOActive_def sm_new_def)
  have c: "fst (canAddStream (manager_env 1) (manager_session 3) s)"
    using manager_can_add [of 3 "manager_env 1" manager_kernel] s by (simp add: canAddStream_iff sm_new_def)
  have m: "complete_mapping manager_id ''s'' 3 (manager_mapping null_id) = manager_mapping manager_id"
    by (simp add: complete_mapping_def manager_mapping_def)
  have d: "sd_sessionName (manager_session 3) = ''s''" "sd_numChannels (manager_session 3) = 3"
    "sd_connectionAddress (manager_session 3) = ''239.1.1.1''" "sd_port (manager_session 3) = 5004"
    by (simp_all add: manager_session_def sdp_default_def)
  obtain mp where a: "addMapping (manager_mapping manager_id) mapper_new = (True, mp)"
    using manager_add by (metis prod.collapse)
  have e: "\<not> or_bind (en_open (manager_env 1) manager_id)" "\<not> or_socket (en_open (manager_env 1) manager_id) < 0"
    "or_reuseaddr (en_open (manager_env 1) manager_id)" "or_reuseport (en_open (manager_env 1) manager_id)"
    by (simp_all add: manager_env_def)
  have r: "fst (sm_addStream_mapped (manager_env 1) (manager_session 3) (manager_mapping null_id) s) = null_id"
    using c e by (simp add: sm_addStream_mapped_def Let_def manager_generate s d m a start_if_active_def rx_start_def
        rx_new_def openReceiver_def isOpen_def socket_new_def)
  have "kernel_ok (en_open (manager_env 1) (generate_stream_id (en_random (manager_env 1)))) (sm_kernel s)"
    by (simp add: kernel_ok_def s manager_env_def manager_kernel_def)
  moreover have "cm_channelMap (manager_mapping null_id) = []" by (simp add: manager_mapping_def)
  ultimately have "sm_same {} s (snd (sm_addStream_mapped (manager_env 1) (manager_session 3) (manager_mapping null_id) s))"
    using failed_add_rolls_back [OF io_active_reach, of "manager_env 1" "manager_session 3" "manager_mapping null_id"] s
      r unfolding s_def [symmetric] by (auto simp: prod_eq_iff)
  then show ?thesis using r s(3) unfolding s_def [symmetric] by (simp add: Let_def)
qed

text \<open>
  Streams survive a restart. Loading, into a new manager of the same rate, the configurations that saveAllStreams
  writes brings back exactly the streams whose session is valid, in the same order, with their identifiers, sessions
  and mappings, as dormant endpoints, provided the mappings are sequential, have the streams' channel counts and keep
  the streams apart; the sockets are not touched. Streams that addStream accepted although their
  session has no name or an unknown encoding are not brought back.
\<close>

theorem save_load_restores:
  assumes "reach sm_start sm_step s" "tidy s" "en_saves e"
  shows "\<exists>cs s'. sm_saved (snd (saveAllStreams e s)) = Some cs \<and>
    load_configs e' cs ((sm_new k)\<lparr>sm_deviceSampleRate := sm_deviceSampleRate s\<rparr>) =
      (length (filter reloadable (sm_streams s)), s') \<and>
    sm_streams s' = map (reloaded e' (saved_config (en_now e))) (filter reloadable (sm_streams s)) \<and> sm_kernel s' = k"
  by (rule save_load [OF manager_sys.reach_inv [OF assms(1)] assms(2,3)])

lemma save_load_restores_witness:
  "\<exists>cs s'. sm_saved (snd (saveAllStreams (manager_env 1) one_stream)) = Some cs \<and>
     fst (load_configs (manager_env 2) cs ((sm_new manager_kernel)\<lparr>sm_deviceSampleRate := sm_deviceSampleRate one_stream\<rparr>)) = 1"
proof -
  have "en_saves (manager_env 1)" by (simp add: manager_env_def)
  moreover have "sdp_isValid (manager_session 3)" by (simp add: sdp_isValid_iff manager_session_def sdp_default_def)
  ultimately show ?thesis
    using save_load_restores [OF one_stream_reach one_stream_tidy, of "manager_env 1" "manager_env 2" manager_kernel] one_stream_streams
    by (fastforce simp: reloadable_def)
qed

text \<open>
  C39. A transmit stream comes back as a receiver. The session createTxStream builds has no direction of its own, so it
  is that of the default, recvonly; the configuration saved of it is loaded as a receiver of its own group.
\<close>

theorem tx_reloads_as_receiver:
  assumes "reach sm_start sm_step s" "createTxStream e name ip port n mapping s = (i, s')" "i \<noteq> null_id"
  shows "\<exists>ms rx. map_of (sm_streams s') i = Some ms \<and> ms_isTransmit ms \<and>
    ms_receiver (loaded_stream e' (saved_config now ms)) = Some rx \<and>
    ms_transmitter (loaded_stream e' (saved_config now ms)) = None \<and>
    sd_connectionAddress (rx_sdp rx) = ip"
  by (rule tx_reload_receives [OF manager_sys.reach_inv [OF assms(1)] assms(2,3)])

lemma tx_reloads_as_receiver_witness:
  "\<exists>s' ms. createTxStream (manager_env 1) ''s'' ''239.1.1.1'' 5004 3 (manager_mapping null_id) (sm_new manager_kernel) =
      (manager_id, s') \<and> map_of (sm_streams s') manager_id = Some ms \<and> ms_isTransmit ms"
proof -
  let ?s = "sm_new manager_kernel"
  have m: "complete_mapping manager_id ''s'' 3 (manager_mapping null_id) = manager_mapping manager_id"
    by (simp add: complete_mapping_def manager_mapping_def)
  obtain mp where a: "addMapping (manager_mapping manager_id) mapper_new = (True, mp)"
    using manager_add by (metis prod.collapse)
  have n: "sm_mapper ?s = mapper_new" "\<not> sm_ioActive ?s" "sm_deviceSampleRate ?s = 48000" by (simp_all add: sm_new_def)
  have "fst (canAddStream (manager_env 1) (tx_session (manager_env 1) ''s'' ''239.1.1.1'' 5004 3 48000) ?s)"
    using manager_can_add [of 3 "manager_env 1" manager_kernel]
    by (simp add: canAddStream_iff tx_session_def manager_session_def sdp_default_def network_ok_def f64_int_def)
  then have "fst (createTxStream (manager_env 1) ''s'' ''239.1.1.1'' 5004 3 (manager_mapping null_id) ?s) = manager_id"
    by (simp add: createTxStream_def Let_def n manager_generate m a start_if_active_def)
  then obtain s' where "createTxStream (manager_env 1) ''s'' ''239.1.1.1'' 5004 3 (manager_mapping null_id) ?s = (manager_id, s')"
    by (metis prod.collapse)
  with tx_reloads_as_receiver [OF new_reach this manager_not_null] show ?thesis by blast
qed

text \<open>
  updateMapping takes the number of device channels from the caller. With a number below the stream's channel count
  it succeeds, and the channels behind it are free for other streams while the endpoint still uses all of them.
\<close>

theorem shrunk_mapping_releases_channels:
  assumes "reach sm_start plain_step s" "map_of (sm_streams s) i = Some ms" "\<not> ms_running ms"
    and "new = (ms_mapping ms)\<lparr>cm_deviceChannelCount := 1\<rparr>"
  shows "\<exists>s' ms'. sm_updateMapping e i new s = (True, s') \<and> map_of (sm_streams s') i = Some ms' \<and> endpoint_ok ms' \<and>
    device_range ms' = device_range ms \<and>
    (\<forall>ch \<in> device_range ms. ch \<noteq> cm_start (ms_mapping ms) \<longrightarrow> getStreamForDeviceChannel (int ch) (sm_mapper s') = None)"
  by (rule shrink_releases [OF plain_sys.reach_inv [OF assms(1)] assms(2-4)])

lemma shrunk_mapping_releases_channels_witness:
  "\<exists>s' ms'. sm_updateMapping (manager_env 1) manager_id ((manager_mapping manager_id)\<lparr>cm_deviceChannelCount := 1\<rparr>) one_stream = (True, s') \<and>
     map_of (sm_streams s') manager_id = Some ms' \<and> device_range ms' = {0, 1, 2} \<and>
     getStreamForDeviceChannel 2 (sm_mapper s') = None"
proof -
  obtain ms where ms: "sm_streams one_stream = [(manager_id, ms)]" "ms_sdp ms = manager_session 3"
    "ms_mapping ms = manager_mapping manager_id" "\<not> ms_running ms" using one_stream_streams by blast
  have mo: "map_of (sm_streams one_stream) manager_id = Some ms" by (simp add: ms)
  have d: "device_range ms = {0, 1, 2}"
    by (auto simp: device_range_def ms manager_mapping_def manager_session_def cm_start_def)
  have "cm_start (ms_mapping ms) = 0" by (simp add: ms manager_mapping_def cm_start_def)
  with shrunk_mapping_releases_channels [OF one_stream_plain_reach mo ms(4) refl, of "manager_env 1"] d ms(3)
  show ?thesis by (metis insertCI of_nat_numeral zero_neq_numeral)
qed

end
