(* ===== verification/Stream_Restart.thy ===== *)
theory Stream_Restart
  imports Stream_Config_Roundtrip Stream_Lifecycle
begin

text \<open>
  The configuration file across a restart: saving writes the text, a new process reads it, and a
  new stream manager loads what was read.
\<close>

section \<open>Saving and loading\<close>

lemma toJSON_nonempty: "toJSON cs \<noteq> []"
  by (simp add: toJSON_def)

lemma save_writes:
  assumes "CHR ''/'' \<in> set (cf_path st)" "str_directory r" "str_write r"
  shows "saveConfig r cs st = (True, st\<lparr>cf_files := (cf_files st)(cf_path st \<mapsto> toJSON cs)\<rparr>)"
  using assms by (simp add: saveConfig_def ensureConfigDirectoryExists_def toJSON_nonempty)

lemma save_then_load:
  assumes "list_all config_storable cs" "saveConfig r cs st = (True, st')"
  shows "loadConfig r' q st' = (Parsed (Some (map (stored_config q) cs)), st')"
proof -
  have "st' = st\<lparr>cf_files := (cf_files st)(cf_path st \<mapsto> toJSON cs)\<rparr>"
    using assms(2) by (auto simp: saveConfig_def Let_def split: if_splits)
  then show ?thesis by (simp add: loadConfig_def file_roundtrip [OF assms(1)])
qed

lemma save_then_lose:
  assumes "list_all texts_noclose cs" "c \<in> set cs" "CHR ''['' \<in> set (sd_sessionName (pv_sdp c))"
    and "saveConfig r cs st = (True, st')"
  shows "fst (loadConfig r' q st') = Parsed None \<and> cf_files (snd (loadConfig r' q st')) (cf_path st) = None"
proof -
  have "st' = st\<lparr>cf_files := (cf_files st)(cf_path st \<mapsto> toJSON cs)\<rparr>"
    using assms(4) by (auto simp: saveConfig_def Let_def split: if_splits)
  moreover have "fromJSON q (toJSON cs) = Refused" using open_bracket_refused [OF assms(1)] assms(2,3) by blast
  ultimately show ?thesis by (simp add: loadConfig_def)
qed

lemma faithful_stored: "faithful_cfg (\<lambda>ms. stored_config q (saved_config now ms))"
  by (simp add: faithful_cfg_def stored_config_def saved_config_def createConfig_def stored_sdp_valid)
    (simp add: stored_sdp_def)

lemma storable_reloadable: "config_storable (saved_config now (snd p)) \<Longrightarrow> reloadable p"
  by (simp add: config_storable_def persisted_isValid_def saved_config_def createConfig_def reloadable_def)

lemma restart_loads:
  assumes inv: "sm_sound s" "tidy s" and e: "en_saves e"
    and st: "CHR ''/'' \<in> set (cf_path st)" "str_directory r" "str_write r"
    and plain: "\<forall>(i, ms) \<in> set (sm_streams s). config_storable (saved_config (en_now e) ms)"
  shows "\<exists>saved st' loaded s'. sm_saved (snd (saveAllStreams e s)) = Some saved \<and> saveConfig r saved st = (True, st') \<and>
    loadConfig r' q st' = (Parsed (Some loaded), st') \<and>
    load_configs e' loaded ((sm_new k)\<lparr>sm_deviceSampleRate := sm_deviceSampleRate s\<rparr>) = (length (sm_streams s), s') \<and>
    sm_streams s' = map (reloaded e' (\<lambda>ms. stored_config q (saved_config (en_now e) ms))) (sm_streams s) \<and>
    sm_kernel s' = k"
proof -
  define saved where "saved = map (\<lambda>p. saved_config (en_now e) (snd p)) (sm_streams s)"
  have "sm_saved (snd (saveAllStreams e s)) = Some saved"
    using e by (simp add: saveAllStreams_def saved_config_def case_prod_beta saved_def)
  moreover obtain st' where st': "saveConfig r saved st = (True, st')" using save_writes [OF st] by blast
  moreover have "loadConfig r' q st' = (Parsed (Some (map (stored_config q) saved)), st')"
    by (rule save_then_load [OF _ st']) (use plain in \<open>auto simp: saved_def list_all_iff\<close>)
  moreover have "filter reloadable (sm_streams s) = sm_streams s"
    using plain storable_reloadable by (fastforce intro: filter_True)
  ultimately show ?thesis
    using load_saved [OF inv faithful_stored, of e' q "en_now e" k] by (auto simp: saved_def comp_def)
qed

section \<open>A stored stream\<close>

definition config_files :: config_store where
  "config_files = \<lparr>cf_path = ''/streams.json'', cf_files = (\<lambda>_. None)\<rparr>"

definition all_succeeds :: store_results where
  "all_succeeds = \<lparr>str_directory = True, str_write = True, str_copy = False\<rparr>"

definition no_interfaces :: net_query where
  "no_interfaces = \<lparr>nq_isIPv4 = (\<lambda>_. False), nq_interfaces = []\<rparr>"

definition named_config :: "string \<Rightarrow> persisted_config" where
  "named_config name = createConfig 7 ((manager_session 3)\<lparr>sd_sessionName := name\<rparr>) (manager_mapping manager_id) ''studio''"

lemma manager_storable: "config_storable (createConfig now (manager_session 3) (manager_mapping manager_id) [])"
proof -
  have "sdp_storable (manager_session 3)" by (simp add: sdp_storable_def manager_session_def sdp_default_def plain_def)
  moreover have "mapping_storable (manager_mapping manager_id)"
    by (simp add: mapping_storable_def manager_mapping_def plain_def uuid_ok_def manager_id_def)
  moreover have "cm_isValid (manager_mapping manager_id)" by code_simp
  moreover have "sdp_isValid (manager_session 3)" by (simp add: sdp_isValid_iff manager_session_def sdp_default_def)
  ultimately show ?thesis by (simp add: config_storable_def createConfig_def persisted_isValid_def plain_def)
qed

lemma named_storable: "plain name \<Longrightarrow> name \<noteq> [] \<Longrightarrow> config_storable (named_config name)"
  using manager_storable [of 7]
  by (simp add: config_storable_def createConfig_def named_config_def persisted_isValid_def sdp_storable_def plain_def sdp_isValid_iff)

lemma one_stream_info:
  "\<exists>ms. sm_streams one_stream = [(manager_id, ms)] \<and> si_description (ms_info ms) = []"
proof -
  have s: "sd_sessionName (manager_session 3) = ''s''" "sd_numChannels (manager_session 3) = 3"
    by (simp_all add: manager_session_def)
  have m: "complete_mapping manager_id ''s'' 3 (manager_mapping null_id) = manager_mapping manager_id"
    by (simp add: complete_mapping_def manager_mapping_def)
  obtain mp where a: "addMapping (manager_mapping manager_id) mapper_new = (True, mp)"
    using manager_add by (metis prod.collapse)
  have n: "sm_mapper (sm_new k) = mapper_new" "sm_streams (sm_new k) = []" "\<not> sm_ioActive (sm_new k)" for k
    by (simp_all add: sm_new_def)
  have d: "sd_sessionInfo (manager_session 3) = []" "si_description (en_fresh (manager_env 1)) = []"
    by (simp_all add: manager_session_def sdp_default_def manager_env_def manager_info_def)
  show ?thesis
    using manager_can_add [of 3 "manager_env 1" manager_kernel]
    by (simp add: one_stream_def sm_addStream_def s n manager_default sm_addStream_mapped_def Let_def manager_generate m a
        start_if_active_def ms_running_def rx_new_def stream_info_of_def d)
qed

section \<open>Properties\<close>

text \<open>
  C34. The configuration file is read back. What saveConfig writes, loadConfig reads: the same configurations in the same
  order, the interface of each resolved on the reading host and the session's fields that have no line in the file at
  their defaults; the file stays. The texts must hold no quote, backslash, control character, bracket or brace.
\<close>

theorem config_file_roundtrip:
  assumes "list_all config_storable cs" "saveConfig r cs st = (True, st')"
  shows "loadConfig r' q st' = (Parsed (Some (map (stored_config q) cs)), st')"
  by (rule save_then_load [OF assms])

lemma config_file_roundtrip_witness:
  "\<exists>st'. saveConfig all_succeeds [named_config ''Mic 1'', named_config ''x''] config_files = (True, st') \<and>
    loadConfig all_succeeds no_interfaces st' =
      (Parsed (Some [stored_config no_interfaces (named_config ''Mic 1''), stored_config no_interfaces (named_config ''x'')]), st')"
proof -
  have "\<exists>st'. saveConfig all_succeeds [named_config ''Mic 1'', named_config ''x''] config_files = (True, st')"
    using save_writes [of config_files all_succeeds] by (simp add: all_succeeds_def config_files_def)
  moreover have "list_all config_storable [named_config ''Mic 1'', named_config ''x'']"
    by (simp add: named_storable plain_def)
  ultimately show ?thesis using config_file_roundtrip [of _ all_succeeds config_files _ all_succeeds no_interfaces] by fastforce
qed

text \<open>
  A stream name that opens a bracket loses every saved stream. The reader counts brackets inside strings as well: when
  no text closes one and the name of some stream opens one, the array has no end for it, loadConfig reports no
  configuration and removes the file.
\<close>

theorem open_bracket_loses_config:
  assumes "list_all texts_noclose cs" "c \<in> set cs" "CHR ''['' \<in> set (sd_sessionName (pv_sdp c))"
    and "saveConfig r cs st = (True, st')"
  shows "fst (loadConfig r' q st') = Parsed None \<and> cf_files (snd (loadConfig r' q st')) (cf_path st) = None"
  by (rule save_then_lose [OF assms])

lemma open_bracket_loses_config_witness:
  "\<exists>st'. saveConfig all_succeeds [named_config ''x'', named_config ''Hall [A''] config_files = (True, st') \<and>
    fst (loadConfig all_succeeds no_interfaces st') = Parsed None"
proof -
  have "\<exists>st'. saveConfig all_succeeds [named_config ''x'', named_config ''Hall [A''] config_files = (True, st')"
    using save_writes [of config_files all_succeeds] by (simp add: all_succeeds_def config_files_def)
  moreover have "list_all texts_noclose [named_config ''x'', named_config ''Hall [A'']"
    by (simp add: texts_noclose_def noclose_def named_config_def createConfig_def manager_session_def sdp_default_def
        manager_mapping_def)
  moreover have "CHR ''['' \<in> set (sd_sessionName (pv_sdp (named_config ''Hall [A'')))"
    by (simp add: named_config_def createConfig_def)
  ultimately show ?thesis
    using open_bracket_loses_config [of "[named_config ''x'', named_config ''Hall [A'']" "named_config ''Hall [A''"
        all_succeeds config_files _ all_succeeds no_interfaces] by fastforce
qed

text \<open>
  C15. Streams survive a restart. Take a manager after any calls whose streams have sequential mappings with the streams'
  channel counts and keep apart from each other (\<open>tidy\<close>), and whose texts can all be stored. Saving them, writing
  the file, reading it in a new process and loading the configurations into a new manager of the same rate brings
  back every stream, in the same order, with its identifier, mapping and stored session, as a dormant endpoint; no
  socket is opened. Every manager that was only given such mappings is tidy. A stream
  remapped to fewer channels than it has may be refused: the load wants as many free channels as the stream has.
\<close>

theorem restart_restores:
  assumes "reach sm_start sm_step s" "tidy s" "en_saves e"
    and "CHR ''/'' \<in> set (cf_path st)" "str_directory r" "str_write r"
    and "\<forall>(i, ms) \<in> set (sm_streams s). config_storable (saved_config (en_now e) ms)"
  shows "\<exists>saved st' loaded s'. sm_saved (snd (saveAllStreams e s)) = Some saved \<and> saveConfig r saved st = (True, st') \<and>
    loadConfig r' q st' = (Parsed (Some loaded), st') \<and>
    load_configs e' loaded ((sm_new k)\<lparr>sm_deviceSampleRate := sm_deviceSampleRate s\<rparr>) = (length (sm_streams s), s') \<and>
    sm_streams s' = map (reloaded e' (\<lambda>ms. stored_config q (saved_config (en_now e) ms))) (sm_streams s) \<and>
    sm_kernel s' = k"
  by (rule restart_loads [OF manager_sys.reach_inv [OF assms(1)] assms(2-7)])

lemma restart_restores_witness:
  "\<exists>saved st' loaded. sm_saved (snd (saveAllStreams (manager_env 1) one_stream)) = Some saved \<and>
     saveConfig all_succeeds saved config_files = (True, st') \<and>
     loadConfig all_succeeds no_interfaces st' = (Parsed (Some loaded), st') \<and>
     fst (load_configs (manager_env 2) loaded
       ((sm_new manager_kernel)\<lparr>sm_deviceSampleRate := sm_deviceSampleRate one_stream\<rparr>)) = 1"
proof -
  have e: "en_saves (manager_env 1)" by (simp add: manager_env_def)
  obtain ms where ms: "sm_streams one_stream = [(manager_id, ms)]" "ms_sdp ms = manager_session 3"
    "ms_mapping ms = manager_mapping manager_id" "si_description (ms_info ms) = []"
    using one_stream_streams one_stream_info by auto
  then have "\<forall>(i, ms) \<in> set (sm_streams one_stream). config_storable (saved_config (en_now (manager_env 1)) ms)"
    by (simp add: saved_config_def manager_storable)
  moreover have "CHR ''/'' \<in> set (cf_path config_files)" "str_directory all_succeeds" "str_write all_succeeds"
    by (simp_all add: config_files_def all_succeeds_def)
  ultimately show ?thesis
    using restart_restores [OF one_stream_reach one_stream_tidy e, of config_files all_succeeds all_succeeds no_interfaces "manager_env 2"
        manager_kernel] ms(1) by fastforce
qed

end
