(* ===== verification/Net_Detection.thy ===== *)
theory Net_Detection
  imports Net_Interfaces
begin

text \<open>
  \<open>NetworkEngine/NetworkInterfaceDetection.cpp\<close>: the choice of the interface PTP runs on. Every
  function walks the list \<open>getifaddrs\<close> gives, here with the entries of every family.
\<close>

datatype if_address = NoAddress | IPv4 string | LinkLayer | OtherFamily

record if_entry =
  ie_name :: string
  ie_address :: if_address
  ie_up :: bool
  ie_running :: bool
  ie_loopback :: bool
  ie_multicast :: bool

fun ipv4 :: "if_address \<Rightarrow> string option" where
  "ipv4 (IPv4 ip) = Some ip"
| "ipv4 _ = None"

text \<open>\<open>s.substr(0, n) == w\<close>.\<close>

definition substr_is :: "nat \<Rightarrow> string \<Rightarrow> string \<Rightarrow> bool" where
  "substr_is n w s \<longleftrightarrow> take n s = w"

definition link_local :: "string \<Rightarrow> bool" where
  "link_local ip \<longleftrightarrow> substr_is 7 ''169.254'' ip"

definition primary_name :: "string \<Rightarrow> bool" where
  "primary_name name \<longleftrightarrow> substr_is 2 ''en'' name \<or> substr_is 4 ''eth'' name \<or> substr_is 4 ''thun'' name \<or> substr_is 3 ''usb'' name"

definition detect_primary :: "if_entry list \<Rightarrow> string" where
  "detect_primary ifs =
     (case find (\<lambda>i. ie_up i \<and> ie_running i \<and> \<not> ie_loopback i \<and> primary_name (ie_name i) \<and>
           (case ipv4 (ie_address i) of None \<Rightarrow> False | Some ip \<Rightarrow> \<not> link_local ip)) ifs of
        None \<Rightarrow> [] | Some i \<Rightarrow> ie_name i)"

text \<open>A name is added unless it is there.\<close>

fun add_names :: "string list \<Rightarrow> string list \<Rightarrow> string list" where
  "add_names acc [] = acc"
| "add_names acc (n # ns) = add_names (if n \<in> set acc then acc else acc @ [n]) ns"

definition getAllInterfaces :: "if_entry list \<Rightarrow> string list" where
  "getAllInterfaces ifs = add_names [] (map ie_name (filter (\<lambda>i. ipv4 (ie_address i) \<noteq> None) ifs))"

definition isInterfaceActive :: "if_entry list \<Rightarrow> string \<Rightarrow> bool" where
  "isInterfaceActive ifs name \<longleftrightarrow> list_ex (\<lambda>i. ie_name i = name \<and> ie_up i \<and> ie_running i) ifs"

definition isEthernetInterface :: "if_entry list \<Rightarrow> string \<Rightarrow> bool" where
  "isEthernetInterface ifs name \<longleftrightarrow> list_ex (\<lambda>i. ie_name i = name \<and> ie_address i = LinkLayer) ifs"

definition getInterfaceIPAddress :: "if_entry list \<Rightarrow> string \<Rightarrow> string" where
  "getInterfaceIPAddress ifs name =
     (case List.map_filter (\<lambda>i. if ie_name i = name then ipv4 (ie_address i) else None) ifs of
        [] \<Rightarrow> [] | ip # _ \<Rightarrow> ip)"

definition supportsMulticast :: "if_entry list \<Rightarrow> string \<Rightarrow> bool" where
  "supportsMulticast ifs name \<longleftrightarrow> list_ex (\<lambda>i. ie_name i = name \<and> ie_multicast i) ifs"

definition multicast_capable :: "if_entry \<Rightarrow> bool" where
  "multicast_capable i \<longleftrightarrow>
     (case ipv4 (ie_address i) of
        None \<Rightarrow> False
      | Some ip \<Rightarrow> ie_up i \<and> ie_running i \<and> ie_multicast i \<and> \<not> ie_loopback i \<and> \<not> link_local ip)"

definition getMulticastCapableInterfaces :: "if_entry list \<Rightarrow> string list" where
  "getMulticastCapableInterfaces ifs = add_names [] (map ie_name (filter multicast_capable ifs))"

definition to_lower :: "char \<Rightarrow> char" where
  "to_lower c = (if (65 :: nat) \<le> of_char c \<and> of_char c \<le> (90 :: nat) then char_of (of_char c + (32 :: nat)) else c)"

definition audio_name :: "string \<Rightarrow> bool" where
  "audio_name iface =
     (let lowerName = map to_lower iface
      in occurs_in ''aes67'' lowerName \<or> occurs_in ''audio'' lowerName \<or> occurs_in ''ravenna'' lowerName \<or>
         occurs_in ''dante'' lowerName)"

definition other_ethernet_name :: "string \<Rightarrow> bool" where
  "other_ethernet_name iface \<longleftrightarrow> substr_is 3 ''eth'' iface \<or> substr_is 4 ''thun'' iface \<or> substr_is 3 ''usb'' iface"

definition detectPTPInterface :: "if_entry list \<Rightarrow> string" where
  "detectPTPInterface ifs =
     (let interfaces = getMulticastCapableInterfaces ifs
      in if interfaces = [] then ''en0''
         else case find audio_name interfaces of
             Some iface \<Rightarrow> iface
           | None \<Rightarrow>
               (case find (substr_is 2 ''en'') interfaces of
                  Some iface \<Rightarrow> iface
                | None \<Rightarrow> (case find other_ethernet_name interfaces of Some iface \<Rightarrow> iface | None \<Rightarrow> hd interfaces)))"

section \<open>The choice\<close>

lemma add_names_set: "set (add_names acc ns) = set acc \<union> set ns"
  by (induction acc ns rule: add_names.induct) auto

lemma add_names_distinct: "distinct acc \<Longrightarrow> distinct (add_names acc ns)"
  by (induction acc ns rule: add_names.induct) auto

lemma capable_names: "set (getMulticastCapableInterfaces ifs) = ie_name ` {i \<in> set ifs. multicast_capable i}"
  by (auto simp: getMulticastCapableInterfaces_def add_names_set)

text \<open>How much an interface is preferred, by its name.\<close>

definition ptp_rank :: "string \<Rightarrow> nat" where
  "ptp_rank n = (if audio_name n then 3 else if substr_is 2 ''en'' n then 2 else if other_ethernet_name n then 1 else 0)"

lemma find_in: "find P xs = Some x \<Longrightarrow> x \<in> set xs \<and> P x"
  by (induction xs) (auto split: if_splits)

lemma find_none: "find P xs = None \<Longrightarrow> x \<in> set xs \<Longrightarrow> \<not> P x"
  by (induction xs) (auto split: if_splits)

lemma detect_in:
  assumes "i \<in> set ifs" "multicast_capable i"
  shows "detectPTPInterface ifs \<in> set (getMulticastCapableInterfaces ifs) \<and>
    ptp_rank (ie_name i) \<le> ptp_rank (detectPTPInterface ifs)"
proof -
  let ?is = "getMulticastCapableInterfaces ifs"
  have n: "ie_name i \<in> set ?is" using assms by (auto simp: capable_names)
  then have ne: "?is \<noteq> []" by auto
  show ?thesis
  proof (cases "find audio_name ?is")
    case (Some a)
    then show ?thesis using find_in [OF Some] ne by (simp add: detectPTPInterface_def ptp_rank_def)
  next
    case None
    note no_audio = find_none [OF None]
    show ?thesis
    proof (cases "find (substr_is 2 ''en'') ?is")
      case (Some a)
      then show ?thesis using find_in [OF Some] no_audio n ne None by (simp add: detectPTPInterface_def ptp_rank_def)
    next
      case en: None
      note no_en = find_none [OF en]
      show ?thesis
      proof (cases "find other_ethernet_name ?is")
        case (Some a)
        then show ?thesis using find_in [OF Some] no_audio no_en n ne None en
          by (simp add: detectPTPInterface_def ptp_rank_def)
      next
        case o: None
        show ?thesis using no_audio no_en find_none [OF o] n ne None en o
          by (simp add: detectPTPInterface_def ptp_rank_def)
      qed
    qed
  qed
qed

section \<open>Properties\<close>

text \<open>
  PTP gets the best interface there is. Whenever some interface is up, running, not the loopback, capable of
  multicast and has an address outside 169.254, detectPTPInterface names such an interface, and none of them has a
  name that ranks above it (audio names, then en, then other Ethernet names).
\<close>

theorem ptp_interface_best:
  assumes "i \<in> set ifs" "multicast_capable i"
  shows "\<exists>j \<in> set ifs. multicast_capable j \<and> ie_name j = detectPTPInterface ifs \<and>
    (\<forall>k \<in> set ifs. multicast_capable k \<longrightarrow> ptp_rank (ie_name k) \<le> ptp_rank (detectPTPInterface ifs))"
proof -
  have "detectPTPInterface ifs \<in> ie_name ` {i \<in> set ifs. multicast_capable i}"
    using detect_in [OF assms] by (simp add: capable_names)
  then show ?thesis using detect_in by force
qed

definition plain_interface :: "string \<Rightarrow> string \<Rightarrow> if_entry" where
  "plain_interface name ip = \<lparr>ie_name = name, ie_address = IPv4 ip, ie_up = True, ie_running = True, ie_loopback = False,
     ie_multicast = True\<rparr>"

lemma ptp_interface_best_witness:
  "detectPTPInterface [plain_interface ''lo0'' ''127.0.0.1'', plain_interface ''usb1'' ''10.0.0.7'',
     plain_interface ''en4'' ''169.254.1.1'', plain_interface ''eth0'' ''10.0.0.8''] = ''usb1'' \<and>
   ptp_rank ''lo0'' \<le> ptp_rank ''usb1''"
proof -
  let ?l = "plain_interface ''lo0'' ''127.0.0.1''"
  let ?ifs = "[?l, plain_interface ''usb1'' ''10.0.0.7'', plain_interface ''en4'' ''169.254.1.1'', plain_interface ''eth0'' ''10.0.0.8'']"
  have d: "detectPTPInterface ?ifs = ''usb1''" by code_simp
  have l: "?l \<in> set ?ifs" by simp
  have c: "multicast_capable ?l" by code_simp
  have "\<forall>k \<in> set ?ifs. multicast_capable k \<longrightarrow> ptp_rank (ie_name k) \<le> ptp_rank (detectPTPInterface ?ifs)"
    using ptp_interface_best [OF l c] by blast
  then have "ptp_rank (ie_name ?l) \<le> ptp_rank (detectPTPInterface ?ifs)" using l c by blast
  then show ?thesis using d by (simp add: plain_interface_def)
qed

text \<open>The primary interface is never one named \<open>eth0\<close>: four characters are compared with three.\<close>

lemma eth_never_primary: "detect_primary [plain_interface (''eth'' @ [c]) ip] = []"
  by (simp add: detect_primary_def plain_interface_def primary_name_def substr_is_def)

end
