(* ===== verification/Ptp_Message.thy ===== *)
theory Ptp_Message
  imports Core_Types
begin

text \<open>
  The PTP data of \<open>NetworkEngine/PTP/PTPSlave.h\<close> and the message parsing of \<open>PTPSlave.cpp\<close>:
  timestamps, identities, the common header. A received message is the list of its bytes;
  \<open>int64_t\<close> fields keep their 64 bits and are read with \<open>sint\<close>.
\<close>

section \<open>Timestamps and identities\<close>

datatype ptp_message_type = MSync | MDelay_Req | MPdelay_Req | MPdelay_Resp | MFollow_Up | MDelay_Resp
  | MPdelay_Resp_FU | MAnnounce | MSignaling | MManagement

record ptp_timestamp =
  pts_secondsHi :: u16
  pts_secondsLo :: u32
  pts_nanoseconds :: u32

definition timestamp_zero :: ptp_timestamp where
  "timestamp_zero = \<lparr>pts_secondsHi = 0, pts_secondsLo = 0, pts_nanoseconds = 0\<rparr>"

definition timestamp_of_ns :: "u64 \<Rightarrow> ptp_timestamp" where
  "timestamp_of_ns totalNs =
     (let totalSec = totalNs div 1000000000
      in \<lparr>pts_secondsHi = ucast (drop_bit 32 totalSec AND 0xFFFF),
          pts_secondsLo = ucast (totalSec AND 0xFFFFFFFF),
          pts_nanoseconds = ucast (totalNs mod 1000000000)\<rparr>)"

definition toNanoseconds :: "ptp_timestamp \<Rightarrow> u64" where
  "toNanoseconds t =
     (let totalSec = push_bit 32 (ucast (pts_secondsHi t)) OR ucast (pts_secondsLo t) :: u64
      in totalSec * 1000000000 + ucast (pts_nanoseconds t))"

definition ts_isZero :: "ptp_timestamp \<Rightarrow> bool" where
  "ts_isZero t \<longleftrightarrow> pts_secondsHi t = 0 \<and> pts_secondsLo t = 0 \<and> pts_nanoseconds t = 0"

text \<open>A clock identity is an array of 8 bytes.\<close>

type_synonym clock_identity = "u8 list"

definition clock_id_toString :: "clock_identity \<Rightarrow> string" where
  "clock_id_toString i = join_with CHR '':'' (map hex_byte i)"

definition fromMAC :: "u8 list \<Rightarrow> clock_identity" where
  "fromMAC mac = [mac ! 0, mac ! 1, mac ! 2, 0xFF, 0xFE, mac ! 3, mac ! 4, mac ! 5]"

record ptp_port_identity =
  ppi_clockIdentity :: clock_identity
  ppi_portNumber :: u16

section \<open>Messages\<close>

record ptp_header =
  ph_transportAndType :: u8
  ph_versionPTP :: u8
  ph_messageLength :: u16
  ph_domainNumber :: u8
  ph_reserved1 :: u8
  ph_flagField :: u16
  ph_correctionField :: u64     \<comment> \<open>\<open>int64_t\<close>\<close>
  ph_reserved2 :: u32
  ph_sourcePortIdentity :: ptp_port_identity
  ph_sequenceId :: u16
  ph_controlField :: u8
  ph_logMessageInterval :: u8   \<comment> \<open>\<open>int8_t\<close>\<close>

definition message_type_of :: "u8 \<Rightarrow> ptp_message_type option" where
  "message_type_of b =
     (if b = 0x00 then Some MSync else if b = 0x01 then Some MDelay_Req
      else if b = 0x02 then Some MPdelay_Req else if b = 0x03 then Some MPdelay_Resp
      else if b = 0x08 then Some MFollow_Up else if b = 0x09 then Some MDelay_Resp
      else if b = 0x0A then Some MPdelay_Resp_FU else if b = 0x0B then Some MAnnounce
      else if b = 0x0C then Some MSignaling else if b = 0x0D then Some MManagement else None)"

definition getMessageType :: "ptp_header \<Rightarrow> ptp_message_type option" where
  "getMessageType h = message_type_of (ph_transportAndType h AND 0x0F)"

definition be16_at :: "u8 list \<Rightarrow> nat \<Rightarrow> u16" where
  "be16_at data i = push_bit 8 (ucast (data ! i)) OR ucast (data ! (i + 1))"

definition be32_at :: "u8 list \<Rightarrow> nat \<Rightarrow> u32" where
  "be32_at data i = push_bit 24 (ucast (data ! i)) OR push_bit 16 (ucast (data ! (i + 1))) OR
     push_bit 8 (ucast (data ! (i + 2))) OR ucast (data ! (i + 3))"

definition parseTimestamp :: "u8 list \<Rightarrow> nat \<Rightarrow> ptp_timestamp" where
  "parseTimestamp data i = \<lparr>pts_secondsHi = be16_at data i, pts_secondsLo = be32_at data (i + 2),
     pts_nanoseconds = be32_at data (i + 6)\<rparr>"

definition parseClockIdentity :: "u8 list \<Rightarrow> nat \<Rightarrow> clock_identity" where
  "parseClockIdentity data i = map (\<lambda>k. data ! (i + k)) [0..<8]"

definition parsePortIdentity :: "u8 list \<Rightarrow> nat \<Rightarrow> ptp_port_identity" where
  "parsePortIdentity data i = \<lparr>ppi_clockIdentity = parseClockIdentity data i,
     ppi_portNumber = be16_at data (i + 8)\<rparr>"

text \<open>The byte-wise loops of the correction field and of the reserved field.\<close>

definition shift_in :: "u8 list \<Rightarrow> nat \<Rightarrow> nat \<Rightarrow> 'a::len word" where
  "shift_in data i n = foldl (\<lambda>w k. push_bit 8 w OR ucast (data ! (i + k))) 0 [0..<n]"

definition parseHeader :: "u8 list \<Rightarrow> ptp_header option" where
  "parseHeader data =
     (if length data < 34 then None
      else if data ! 1 AND 0x0F \<noteq> 2 then None
      else Some \<lparr>ph_transportAndType = data ! 0, ph_versionPTP = data ! 1 AND 0x0F,
        ph_messageLength = be16_at data 2, ph_domainNumber = data ! 4, ph_reserved1 = data ! 5,
        ph_flagField = be16_at data 6, ph_correctionField = shift_in data 8 8,
        ph_reserved2 = shift_in data 16 4, ph_sourcePortIdentity = parsePortIdentity data 20,
        ph_sequenceId = be16_at data 30, ph_controlField = data ! 32, ph_logMessageInterval = data ! 33\<rparr>)"

text \<open>The message that \<open>sendDelayReq\<close> builds; the domain is cast to one byte.\<close>

definition delay_req_message :: "int \<Rightarrow> ptp_port_identity \<Rightarrow> u16 \<Rightarrow> u8 list" where
  "delay_req_message domain self seqId =
     [0x01, 2, 0, 44, of_int domain, 0, 0, 0] @ replicate 12 0 @
     map (\<lambda>i. ppi_clockIdentity self ! i) [0..<8] @
     [ucast (drop_bit 8 (ppi_portNumber self) AND 0xFF), ucast (ppi_portNumber self AND 0xFF),
      ucast (drop_bit 8 seqId AND 0xFF), ucast (seqId AND 0xFF), 1, 0x7F] @ replicate 10 0"

section \<open>Round trips\<close>

lemma timestamp_roundtrip: "toNanoseconds (timestamp_of_ns w) = w"
proof -
  let ?s = "w div 1000000000"
  have split: "push_bit 32 (ucast (ucast (drop_bit 32 ?s AND 0xFFFF) :: u16)) OR
      ucast (ucast (?s AND 0xFFFFFFFF) :: u32) = ?s"
  proof (rule bit_word_eqI)
    fix k assume "k < LENGTH(64)"
    have "unat ?s < 2 ^ 48"
    proof -
      have "unat w < 2 ^ 64" using unsigned_less [of w] by simp
      then show ?thesis by (simp add: unat_div)
    qed
    have high: "\<not> bit ?s j" if "48 \<le> j" for j
    proof
      assume "bit ?s j"
      then have "bit (unat ?s) j" by (simp add: bit_unsigned_iff)
      moreover have "unat ?s < 2 ^ j"
        using \<open>unat ?s < 2 ^ 48\<close> power_increasing [OF that, of "2 :: nat"] by simp
      ultimately show False by (simp add: bit_iff_odd)
    qed
    have m16: "(0xFFFF :: u64) = mask 16" and m32: "(0xFFFFFFFF :: u64) = mask 32"
      by (simp_all add: mask_eq_exp_minus_1)
    show "bit (push_bit 32 (ucast (ucast (drop_bit 32 ?s AND 0xFFFF) :: u16)) OR
        ucast (ucast (?s AND 0xFFFFFFFF) :: u32) :: u64) k = bit ?s k"
      unfolding m16 m32 using high [of k] \<open>k < LENGTH(64)\<close>
      by (cases "k < 32"; cases "k < 48") (auto simp: bit_or_iff bit_push_bit_iff bit_ucast_iff bit_and_iff bit_mask_iff bit_drop_bit_eq not_le)
  qed
  have ns: "ucast (ucast (w mod 1000000000) :: u32) = w mod 1000000000"
  proof -
    have "unat (w mod 1000000000) < 2 ^ 32"
    proof -
      have "unat w mod 1000000000 < 1000000000" by simp
      then show ?thesis by (simp add: unat_mod)
    qed
    then show ?thesis by (simp add: word_unat_eq_iff unsigned_ucast_eq unsigned_take_bit_eq take_bit_nat_eq_self)
  qed
  show ?thesis
    unfolding toNanoseconds_def timestamp_of_ns_def Let_def ptp_timestamp.select_convs split ns
    by (rule div_mult_mod_eq)
qed

lemma be16_bytes: "ucast (drop_bit 8 w AND 0xFF) = (a :: u8) \<Longrightarrow> ucast (w AND 0xFF) = (b :: u8) \<Longrightarrow>
   push_bit 8 (ucast a) OR ucast b = (w :: u16)"
proof -
  have m: "(0xFF :: u16) = mask 8" by (simp add: mask_eq_exp_minus_1)
  assume "ucast (drop_bit 8 w AND 0xFF) = a" "ucast (w AND 0xFF) = b"
  then show ?thesis
    unfolding m by (intro bit_word_eqI) (auto simp: bit_or_iff bit_push_bit_iff bit_ucast_iff bit_and_iff bit_mask_iff
        bit_drop_bit_eq not_less dest: bit_imp_le_length)
qed

lemma delay_req_parses:
  assumes "length (ppi_clockIdentity self) = 8"
  shows "(\<exists>h. parseHeader (delay_req_message domain self seqId) = Some h \<and>
     getMessageType h = Some MDelay_Req \<and> ph_versionPTP h = 2 \<and>
     unat (ph_messageLength h) = length (delay_req_message domain self seqId) \<and>
     ph_domainNumber h = of_int domain \<and> ph_flagField h = 0 \<and> ph_correctionField h = 0 \<and>
     ph_sourcePortIdentity h = self \<and> ph_sequenceId h = seqId \<and> ph_controlField h = 1) \<and>
   parseTimestamp (delay_req_message domain self seqId) 34 = timestamp_zero \<and>
   toNanoseconds (timestamp_of_ns w) = w"
proof -
  obtain i0 i1 i2 i3 i4 i5 i6 i7 where i: "ppi_clockIdentity self = [i0, i1, i2, i3, i4, i5, i6, i7]"
    using assms by (auto simp: length_Suc_conv numeral_eq_Suc)
  define pn where "pn = ppi_portNumber self"
  have self: "self = \<lparr>ppi_clockIdentity = [i0, i1, i2, i3, i4, i5, i6, i7], ppi_portNumber = pn\<rparr>"
    using i by (simp add: pn_def)
  have m: "delay_req_message domain self seqId = [0x01, 2, 0, 44, of_int domain, 0, 0, 0, 0, 0, 0, 0, 0, 0, 0, 0, 0, 0, 0, 0,
      i0, i1, i2, i3, i4, i5, i6, i7, ucast (drop_bit 8 pn AND 0xFF), ucast (pn AND 0xFF),
      ucast (drop_bit 8 seqId AND 0xFF), ucast (seqId AND 0xFF),
      1, 0x7F, 0, 0, 0, 0, 0, 0, 0, 0, 0, 0]"
    unfolding self by (simp add: delay_req_message_def numeral_eq_Suc upt_rec)
  have port: "parsePortIdentity (delay_req_message domain self seqId) 20 = self"
    using be16_bytes [OF refl refl, of pn]
    unfolding m parsePortIdentity_def parseClockIdentity_def be16_at_def by (simp add: upt_rec self)
  show ?thesis
    using be16_bytes [OF refl refl, of seqId] timestamp_roundtrip [of w] port
    unfolding m by (simp add: parseHeader_def getMessageType_def message_type_of_def be16_at_def be32_at_def shift_in_def
        parseTimestamp_def timestamp_zero_def upt_rec)
qed

text \<open>
  The Delay_Req a slave sends reads back as what it is: a version 2 Delay_Req of 44 bytes with
  the slave's own port identity and sequence number, its domain, no flags and no correction. And a
  time in nanoseconds survives the conversion to a PTP timestamp and back, for all 64-bit values.
\<close>

theorem delay_req_roundtrip:
  assumes "length (ppi_clockIdentity self) = 8"
  shows "(\<exists>h. parseHeader (delay_req_message domain self seqId) = Some h \<and>
     getMessageType h = Some MDelay_Req \<and> ph_versionPTP h = 2 \<and>
     unat (ph_messageLength h) = length (delay_req_message domain self seqId) \<and>
     ph_domainNumber h = of_int domain \<and> ph_flagField h = 0 \<and> ph_correctionField h = 0 \<and>
     ph_sourcePortIdentity h = self \<and> ph_sequenceId h = seqId \<and> ph_controlField h = 1) \<and>
   parseTimestamp (delay_req_message domain self seqId) 34 = timestamp_zero \<and>
   toNanoseconds (timestamp_of_ns w) = w"
  by (rule delay_req_parses [OF assms])

lemma delay_req_roundtrip_witness:
  "\<exists>h. parseHeader (delay_req_message 0 \<lparr>ppi_clockIdentity = [1, 2, 3, 0xFF, 0xFE, 4, 5, 6], ppi_portNumber = 1\<rparr> 0x1234) = Some h \<and>
     ph_sequenceId h = 0x1234"
  using delay_req_roundtrip [of "\<lparr>ppi_clockIdentity = [1, 2, 3, 0xFF, 0xFE, 4, 5, 6], ppi_portNumber = 1\<rparr>" 0 "0x1234" 0]
  by auto

end
