(* ===== verification/Ptp_Slave.thy ===== *)
theory Ptp_Slave
  imports Ptp_Message Audio_Codec "HOL-Library.Signed_Division"
begin

text \<open>
  The slave of \<open>NetworkEngine/PTP/PTPSlave.cpp\<close>: its state, the message handlers, the transmission
  of Delay_Req and the computation of offset, delay, drift and lock.

  Every function that locks a mutex takes the list of the mutexes its thread holds already. A
  \<open>std::mutex\<close> is not recursive: locking one that the thread holds does not return (\<open>Blocked\<close>).
  A signed 64-bit operation whose result does not fit is undefined (\<open>Overflow\<close>). Kernel
  results, the system clock and the steady clock (nanoseconds) are arguments; a double is the
  rational it stands for, rounded after each operation.
\<close>

section \<open>Outcomes\<close>

datatype 'a run = Done 'a | Blocked | Overflow

fun and_then :: "'a run \<Rightarrow> ('a \<Rightarrow> 'b run) \<Rightarrow> 'b run" where
  "and_then (Done x) k = k x"
| "and_then Blocked k = Blocked"
| "and_then Overflow k = Overflow"

definition i64 :: "int \<Rightarrow> int run" where
  "i64 v = (if - (2 ^ 63) \<le> v \<and> v < 2 ^ 63 then Done v else Overflow)"

datatype ptp_mutex = SyncMutex | DelayMutex | MasterMutex | CallbackMutex

definition acquire :: "ptp_mutex \<Rightarrow> ptp_mutex list \<Rightarrow> (ptp_mutex list \<Rightarrow> 'a run) \<Rightarrow> 'a run" where
  "acquire m held body = (if m \<in> set held then Blocked else body (m # held))"

section \<open>State\<close>

record ptp_announce =
  pa_masterPortId :: ptp_port_identity
  pa_grandmasterIdentity :: clock_identity
  pa_clockClass :: u8
  pa_clockAccuracy :: u8
  pa_variance :: u16
  pa_priority1 :: u8
  pa_priority2 :: u8
  pa_stepsRemoved :: u16
  pa_timeSource :: u8
  pa_logAnnounceInterval :: u8
  pa_lastReceived :: int

record ptp_slave_config =
  psc_domain :: int
  psc_interfaceName :: string
  psc_delayReqIntervalMs :: int
  psc_announceTimeoutMultiplier :: int
  psc_announceIntervalMs :: int
  psc_twoStepOnly :: bool

record ptp_measurement =
  pm_offsetFromMasterNs :: int
  pm_meanPathDelayNs :: int
  pm_frequencyDriftPpb :: rat
  pm_grandmasterID :: clock_identity
  pm_clockClass :: u8
  pm_clockAccuracy :: u8
  pm_valid :: bool

record ptp_slave =
  ps_config :: ptp_slave_config
  ps_eventSocket :: int
  ps_generalSocket :: int
  ps_selfPortId :: ptp_port_identity
  ps_running :: bool
  ps_hasCallback :: bool
  ps_measurements :: "(ptp_measurement \<times> bool) list"
    \<comment> \<open>passed to the callback so far, with what \<open>isLocked\<close> then says\<close>
  ps_currentMaster :: ptp_announce
  ps_hasMaster :: bool
  ps_lastSyncSequenceId :: u16
  ps_t2 :: u64
  ps_waitingForFollowUp :: bool
  ps_syncOrigin :: ptp_timestamp
  ps_syncCorrection :: u64                      \<comment> \<open>\<open>int64_t\<close>\<close>
  ps_t1 :: ptp_timestamp
  ps_delayReqSequenceId :: u16
  ps_t3 :: u64
  ps_waitingForDelayResp :: bool
  ps_t4 :: ptp_timestamp
  ps_offsetNs :: int
  ps_pathDelayNs :: int
  ps_drift :: rat
  ps_locked :: bool
  ps_clockClass :: u8
  ps_clockAccuracy :: u8
  ps_grandmaster :: clock_identity
  ps_offsetHistory :: "int list"
  ps_offsetIndex :: nat
  ps_offsetCount :: nat
  ps_delayHistory :: "int list"
  ps_delayIndex :: nat
  ps_delayCount :: nat
  ps_good :: int                                \<comment> \<open>\<open>consecutiveGoodMeasurements_\<close>\<close>
  ps_lastDriftTime :: u64
  ps_lastDriftOffset :: int
  ps_syncCount :: u32
  ps_followUpCount :: u32
  ps_delayReqSentCount :: u32
  ps_delayRespCount :: u32
  ps_announceCount :: u32
  ps_domainMismatchCount :: u32

text \<open>The constructor; the members it leaves uninitialised are taken from \<open>garbage\<close>.\<close>

definition ptp_new :: "ptp_announce \<Rightarrow> ptp_slave_config \<Rightarrow> ptp_slave" where
  "ptp_new garbage config = \<lparr>ps_config = config, ps_eventSocket = -1, ps_generalSocket = -1,
     ps_selfPortId = \<lparr>ppi_clockIdentity = replicate 8 0, ppi_portNumber = 0\<rparr>, ps_running = False,
     ps_hasCallback = False, ps_measurements = [], ps_currentMaster = garbage, ps_hasMaster = False,
     ps_lastSyncSequenceId = 0, ps_t2 = 0, ps_waitingForFollowUp = False, ps_syncOrigin = timestamp_zero,
     ps_syncCorrection = 0, ps_t1 = timestamp_zero, ps_delayReqSequenceId = 0, ps_t3 = 0,
     ps_waitingForDelayResp = False, ps_t4 = timestamp_zero, ps_offsetNs = 0, ps_pathDelayNs = 0,
     ps_drift = 0, ps_locked = False, ps_clockClass = 255, ps_clockAccuracy = 0xFE,
     ps_grandmaster = replicate 8 0, ps_offsetHistory = replicate 8 0, ps_offsetIndex = 0,
     ps_offsetCount = 0, ps_delayHistory = replicate 8 0, ps_delayIndex = 0, ps_delayCount = 0,
     ps_good = 0, ps_lastDriftTime = 0, ps_lastDriftOffset = 0, ps_syncCount = 0, ps_followUpCount = 0,
     ps_delayReqSentCount = 0, ps_delayRespCount = 0, ps_announceCount = 0, ps_domainMismatchCount = 0\<rparr>"

section \<open>Lifecycle\<close>

text \<open>\<open>sockets\<close> is what \<open>createSockets\<close> opened, \<open>mac\<close> the address of the interface if it was found.\<close>

definition ptp_start :: "u8 list option \<Rightarrow> u64 \<Rightarrow> (int \<times> int) option \<Rightarrow> ptp_slave \<Rightarrow> bool \<times> ptp_slave" where
  "ptp_start mac now sockets s =
     (if ps_running s then (False, s)
      else
        let identity = (case mac of Some m \<Rightarrow> fromMAC m
              | None \<Rightarrow> map (\<lambda>i. ucast (drop_bit (8 * i) now AND 0xFF)) [0..<8]);
            s1 = s\<lparr>ps_selfPortId := \<lparr>ppi_clockIdentity = identity, ppi_portNumber = 1\<rparr>\<rparr>
        in case sockets of
             None \<Rightarrow> (False, s1)
           | Some (event, general) \<Rightarrow>
               (True, s1\<lparr>ps_eventSocket := event, ps_generalSocket := general,
                  ps_hasMaster := False, ps_locked := False, ps_waitingForFollowUp := False,
                  ps_waitingForDelayResp := False, ps_good := 0, ps_offsetCount := 0, ps_offsetIndex := 0,
                  ps_delayCount := 0, ps_delayIndex := 0, ps_lastDriftTime := 0, ps_syncCount := 0,
                  ps_followUpCount := 0, ps_delayReqSentCount := 0, ps_delayRespCount := 0,
                  ps_announceCount := 0, ps_domainMismatchCount := 0, ps_running := True\<rparr>))"

definition closeSockets :: "ptp_slave \<Rightarrow> ptp_slave" where
  "closeSockets s =
     s\<lparr>ps_eventSocket := (if ps_eventSocket s \<ge> 0 then -1 else ps_eventSocket s),
       ps_generalSocket := (if ps_generalSocket s \<ge> 0 then -1 else ps_generalSocket s)\<rparr>"

definition ptp_stop :: "ptp_slave \<Rightarrow> ptp_slave" where
  "ptp_stop s =
     (if \<not> ps_running s then s else (closeSockets (s\<lparr>ps_running := False\<rparr>))\<lparr>ps_locked := False\<rparr>)"

definition getGrandmasterID :: "ptp_slave \<Rightarrow> string" where
  "getGrandmasterID s = (if ps_hasMaster s then clock_id_toString (ps_grandmaster s) else [])"

definition setMeasurementCallback :: "bool \<Rightarrow> ptp_slave \<Rightarrow> ptp_slave" where
  "setMeasurementCallback given s = s\<lparr>ps_hasCallback := given\<rparr>"

text \<open>The fields of \<open>PTPDiagnostics\<close> the slave fills in.\<close>

record ptp_diagnostics =
  pd_isConnected :: bool
  pd_isLocked :: bool
  pd_masterClockID :: string
  pd_clockClass :: int
  pd_clockAccuracy :: int
  pd_offsetNs :: int
  pd_currentOffset :: rat
  pd_frequencyOffset :: rat
  pd_currentDomain :: int
  pd_sync :: int
  pd_followUp :: int
  pd_delayReq :: int
  pd_delayResp :: int
  pd_announce :: int
  pd_domainMismatch :: int

definition updateDiagnostics :: "ptp_slave \<Rightarrow> ptp_diagnostics \<Rightarrow> ptp_diagnostics" where
  "updateDiagnostics s d =
     (let d1 = d\<lparr>pd_isLocked := ps_locked s, pd_currentOffset := f64_round (of_int (ps_offsetNs s)),
            pd_offsetNs := ps_offsetNs s, pd_frequencyOffset := f64_round (ps_drift s / 1000),
            pd_currentDomain := psc_domain (ps_config s), pd_sync := sint (ps_syncCount s),
            pd_followUp := sint (ps_followUpCount s), pd_delayReq := sint (ps_delayReqSentCount s),
            pd_delayResp := sint (ps_delayRespCount s), pd_announce := sint (ps_announceCount s),
            pd_domainMismatch := sint (ps_domainMismatchCount s), pd_isConnected := ps_hasMaster s\<rparr>
      in if ps_hasMaster s
         then d1\<lparr>pd_masterClockID := clock_id_toString (ps_grandmaster s),
                pd_clockClass := int (unat (pa_clockClass (ps_currentMaster s))),
                pd_clockAccuracy := int (unat (pa_clockAccuracy (ps_currentMaster s)))\<rparr>
         else d1\<lparr>pd_masterClockID := []\<rparr>)"

section \<open>Offset and delay\<close>

definition sync_times :: "ptp_mutex list \<Rightarrow> ptp_slave \<Rightarrow> (int \<times> int) option run" where
  "sync_times held s = acquire SyncMutex held (\<lambda>_.
     Done (if ps_waitingForFollowUp s then None
           else if ts_isZero (ps_t1 s) then None
           else Some (sint (toNanoseconds (ps_t1 s)), sint (ps_t2 s))))"

definition delay_times :: "ptp_mutex list \<Rightarrow> ptp_slave \<Rightarrow> (int \<times> int) option run" where
  "delay_times held s = acquire DelayMutex held (\<lambda>_.
     Done (if \<not> ps_waitingForDelayResp s \<and> ps_t3 s \<noteq> 0 \<and> \<not> ts_isZero (ps_t4 s)
           then Some (sint (ps_t3 s), sint (toNanoseconds (ps_t4 s))) else None))"

text \<open>The path delay is the smallest of the last eight measured ones.\<close>

definition filter_delay :: "int \<Rightarrow> ptp_slave \<Rightarrow> ptp_slave" where
  "filter_delay delay s =
     (if delay \<ge> 0
      then
        let h = (ps_delayHistory s)[ps_delayIndex s := delay];
            count = (if ps_delayCount s < 8 then ps_delayCount s + 1 else ps_delayCount s)
        in s\<lparr>ps_delayHistory := h, ps_delayIndex := (ps_delayIndex s + 1) mod 8, ps_delayCount := count,
             ps_pathDelayNs := foldl min delay (take count h)\<rparr>
      else s)"

definition raw_offset :: "int \<Rightarrow> int \<Rightarrow> (int \<times> int) option \<Rightarrow> ptp_slave \<Rightarrow> (int \<times> ptp_slave) run" where
  "raw_offset t1 t2 delayTimes s =
     (case delayTimes of
        Some (t3, t4) \<Rightarrow>
          and_then (i64 (t2 - t1)) (\<lambda>ms2slave. and_then (i64 (t4 - t3)) (\<lambda>slave2m.
          and_then (i64 (ms2slave - slave2m)) (\<lambda>d. and_then (i64 (ms2slave + slave2m)) (\<lambda>p.
            Done (d sdiv 2, filter_delay (p sdiv 2) s)))))
      | None \<Rightarrow>
          and_then (i64 (t2 - t1)) (\<lambda>d. and_then (i64 (d - ps_pathDelayNs s)) (\<lambda>offset. Done (offset, s))))"

fun sum_i64 :: "int list \<Rightarrow> int \<Rightarrow> int run" where
  "sum_i64 [] acc = Done acc"
| "sum_i64 (x # xs) acc = and_then (i64 (acc + x)) (sum_i64 xs)"

text \<open>The offset is the average of the last eight measured ones.\<close>

definition filter_offset :: "int \<Rightarrow> ptp_slave \<Rightarrow> (int \<times> ptp_slave) run" where
  "filter_offset offset s =
     (let h = (ps_offsetHistory s)[ps_offsetIndex s := offset];
          count = (if ps_offsetCount s < 8 then ps_offsetCount s + 1 else ps_offsetCount s);
          s1 = s\<lparr>ps_offsetHistory := h, ps_offsetIndex := (ps_offsetIndex s + 1) mod 8, ps_offsetCount := count\<rparr>
      in and_then (sum_i64 (take count h) 0) (\<lambda>sum.
           Done (sum sdiv int count, s1\<lparr>ps_offsetNs := sum sdiv int count\<rparr>)))"

definition smoothed_drift :: "rat \<Rightarrow> int \<Rightarrow> u64 \<Rightarrow> rat" where
  "smoothed_drift prevDrift dOffset dt =
     (let drift = f64_round (f64_round (f64_round (of_int dOffset) / f64_round (of_nat (unat dt))) * 1000000000)
      in f64_round (f64_round (prevDrift * f64_round (9 / 10)) + f64_round (drift * f64_round (1 / 10))))"

definition estimate_drift :: "u64 \<Rightarrow> int \<Rightarrow> ptp_slave \<Rightarrow> ptp_slave run" where
  "estimate_drift now filtered s =
     (if ps_lastDriftTime s \<noteq> 0
      then
        let dt = now - ps_lastDriftTime s
        in if dt > 500000000
           then and_then (i64 (filtered - ps_lastDriftOffset s)) (\<lambda>dOffset.
             Done (s\<lparr>ps_drift := smoothed_drift (ps_drift s) dOffset dt, ps_lastDriftTime := now,
               ps_lastDriftOffset := filtered\<rparr>))
           else Done s
      else Done (s\<lparr>ps_lastDriftTime := now, ps_lastDriftOffset := filtered\<rparr>))"

definition detect_lock :: "int \<Rightarrow> ptp_slave \<Rightarrow> ptp_slave run" where
  "detect_lock filtered s =
     and_then (i64 \<bar>filtered\<bar>) (\<lambda>magnitude.
       let good = (if magnitude < 10000000
                   then (if ps_good s < 16 then ps_good s + 1 else ps_good s)
                   else max 0 (ps_good s - 1))
       in Done (s\<lparr>ps_good := good, ps_locked := (good \<ge> 8)\<rparr>))"

definition notify :: "ptp_mutex list \<Rightarrow> int \<Rightarrow> ptp_slave \<Rightarrow> ptp_slave run" where
  "notify held filtered s =
     acquire CallbackMutex held (\<lambda>held1.
       if \<not> ps_hasCallback s then Done s
       else acquire MasterMutex held1 (\<lambda>_.
         Done (s\<lparr>ps_measurements := ps_measurements s @
           [(\<lparr>pm_offsetFromMasterNs = filtered, pm_meanPathDelayNs = ps_pathDelayNs s,
             pm_frequencyDriftPpb = ps_drift s, pm_grandmasterID = ps_grandmaster s,
             pm_clockClass = ps_clockClass s, pm_clockAccuracy = ps_clockAccuracy s, pm_valid = True\<rparr>, ps_locked s)]\<rparr>)))"

definition calculateOffsetAndDelay :: "ptp_mutex list \<Rightarrow> u64 \<Rightarrow> ptp_slave \<Rightarrow> ptp_slave run" where
  "calculateOffsetAndDelay held now s =
     and_then (sync_times held s) (\<lambda>syncTimes.
       case syncTimes of
         None \<Rightarrow> Done s
       | Some (t1, t2) \<Rightarrow>
           and_then (delay_times held s) (\<lambda>delayTimes.
           and_then (raw_offset t1 t2 delayTimes s) (\<lambda>(offset, s1).
           and_then (filter_offset offset s1) (\<lambda>(filtered, s2).
           and_then (estimate_drift now filtered s2) (\<lambda>s3.
           and_then (detect_lock filtered s3) (\<lambda>s4. notify held filtered s4))))))"

section \<open>Message handlers\<close>

text \<open>The handlers run on the receive thread, which holds no mutex when it calls them.\<close>

definition handleSync :: "ptp_header \<Rightarrow> u8 list \<Rightarrow> u64 \<Rightarrow> u64 \<Rightarrow> ptp_slave \<Rightarrow> ptp_slave run" where
  "handleSync header data receiveTime now s =
     (if length data < 44 then Done s
      else
        let s1 = s\<lparr>ps_syncCount := ps_syncCount s + 1\<rparr>;
            isTwoStep = (ph_flagField header AND 0x0200 \<noteq> 0)
        in acquire SyncMutex [] (\<lambda>held.
             let s2 = s1\<lparr>ps_t2 := receiveTime, ps_lastSyncSequenceId := ph_sequenceId header,
                   ps_syncCorrection := ph_correctionField header\<rparr>
             in if isTwoStep
                then Done (s2\<lparr>ps_waitingForFollowUp := True, ps_syncOrigin := parseTimestamp data 34\<rparr>)
                else calculateOffsetAndDelay held now
                       (s2\<lparr>ps_t1 := parseTimestamp data 34, ps_waitingForFollowUp := False\<rparr>)))"

definition handleFollowUp :: "ptp_header \<Rightarrow> u8 list \<Rightarrow> u64 \<Rightarrow> ptp_slave \<Rightarrow> ptp_slave run" where
  "handleFollowUp header data now s =
     (if length data < 44 then Done s
      else
        let s1 = s\<lparr>ps_followUpCount := ps_followUpCount s + 1\<rparr>
        in acquire SyncMutex [] (\<lambda>held.
             if \<not> ps_waitingForFollowUp s1 then Done s1
             else if ph_sequenceId header \<noteq> ps_lastSyncSequenceId s1 then Done s1
             else
               and_then (i64 (sint (ps_syncCorrection s1) + sint (ph_correctionField header))) (\<lambda>fixed.
                 let correctionNs = fixed div 2 ^ 16;
                     t1Ns = toNanoseconds (parseTimestamp data 34) + of_int correctionNs
                 in calculateOffsetAndDelay held now
                      (s1\<lparr>ps_t1 := timestamp_of_ns t1Ns, ps_waitingForFollowUp := False\<rparr>))))"

definition handleDelayResp :: "ptp_header \<Rightarrow> u8 list \<Rightarrow> u64 \<Rightarrow> ptp_slave \<Rightarrow> ptp_slave run" where
  "handleDelayResp header data now s =
     (if length data < 54 then Done s
      else
        let s1 = s\<lparr>ps_delayRespCount := ps_delayRespCount s + 1\<rparr>
        in acquire DelayMutex [] (\<lambda>held.
             if \<not> ps_waitingForDelayResp s1 then Done s1
             else if ph_sequenceId header \<noteq> ps_delayReqSequenceId s1 then Done s1
             else if parsePortIdentity data 44 \<noteq> ps_selfPortId s1 then Done s1
             else
               let correctionNs = sint (ph_correctionField header) div 2 ^ 16;
                   t4Ns = toNanoseconds (parseTimestamp data 34) + of_int correctionNs
               in calculateOffsetAndDelay held now
                    (s1\<lparr>ps_t4 := timestamp_of_ns t4Ns, ps_waitingForDelayResp := False\<rparr>)))"

definition parse_announce :: "ptp_header \<Rightarrow> u8 list \<Rightarrow> int \<Rightarrow> ptp_announce" where
  "parse_announce header data steadyNow =
     \<lparr>pa_masterPortId = ph_sourcePortIdentity header, pa_grandmasterIdentity = parseClockIdentity data 53,
      pa_clockClass = data ! 48, pa_clockAccuracy = data ! 49, pa_variance = be16_at data 50,
      pa_priority1 = data ! 47, pa_priority2 = data ! 52, pa_stepsRemoved = be16_at data 61,
      pa_timeSource = data ! 63, pa_logAnnounceInterval = ph_logMessageInterval header,
      pa_lastReceived = steadyNow\<rparr>"

definition isBetter :: "ptp_announce \<Rightarrow> ptp_announce \<Rightarrow> bool" where
  "isBetter a current =
     (if pa_priority1 a < pa_priority1 current then True
      else if pa_priority1 a = pa_priority1 current
      then (if pa_clockClass a < pa_clockClass current then True
            else if pa_clockClass a = pa_clockClass current then pa_priority2 a < pa_priority2 current
            else False)
      else False)"

definition adopt_master :: "ptp_announce \<Rightarrow> ptp_slave \<Rightarrow> ptp_slave" where
  "adopt_master a s =
     s\<lparr>ps_currentMaster := a, ps_grandmaster := pa_grandmasterIdentity a, ps_clockClass := pa_clockClass a,
       ps_clockAccuracy := pa_clockAccuracy a\<rparr>"

definition handleAnnounce :: "ptp_header \<Rightarrow> u8 list \<Rightarrow> int \<Rightarrow> ptp_slave \<Rightarrow> ptp_slave run" where
  "handleAnnounce header data steadyNow s =
     (if length data < 64 then Done s
      else
        let s1 = s\<lparr>ps_announceCount := ps_announceCount s + 1\<rparr>;
            a = parse_announce header data steadyNow
        in acquire MasterMutex [] (\<lambda>_.
             if \<not> ps_hasMaster s1 then Done ((adopt_master a s1)\<lparr>ps_hasMaster := True\<rparr>)
             else if isBetter a (ps_currentMaster s1)
             then Done ((adopt_master a s1)\<lparr>ps_locked := False, ps_good := 0\<rparr>)
             else if pa_grandmasterIdentity a = ps_grandmaster s1
             then Done (s1\<lparr>ps_currentMaster := (ps_currentMaster s1)\<lparr>pa_lastReceived := steadyNow\<rparr>\<rparr>)
             else Done s1))"

section \<open>Threads\<close>

text \<open>
  One round of the receive thread: a datagram on the event socket with its receive time, one on
  the general socket, then the announce timeout. \<open>int\<close> products do not overflow for sane settings.
\<close>

definition on_event_message :: "u8 list \<Rightarrow> u64 \<Rightarrow> u64 \<Rightarrow> ptp_slave \<Rightarrow> ptp_slave run" where
  "on_event_message data receiveTime now s =
     (case parseHeader data of
        None \<Rightarrow> Done s
      | Some header \<Rightarrow>
          if int (unat (ph_domainNumber header)) \<noteq> psc_domain (ps_config s)
          then Done (s\<lparr>ps_domainMismatchCount := ps_domainMismatchCount s + 1\<rparr>)
          else if getMessageType header = Some MSync then handleSync header data receiveTime now s
          else if getMessageType header = Some MDelay_Resp then handleDelayResp header data now s
          else Done s)"

definition on_general_message :: "u8 list \<Rightarrow> u64 \<Rightarrow> int \<Rightarrow> ptp_slave \<Rightarrow> ptp_slave run" where
  "on_general_message data now steadyNow s =
     (case parseHeader data of
        None \<Rightarrow> Done s
      | Some header \<Rightarrow>
          if int (unat (ph_domainNumber header)) \<noteq> psc_domain (ps_config s)
          then Done (s\<lparr>ps_domainMismatchCount := ps_domainMismatchCount s + 1\<rparr>)
          else if getMessageType header = Some MFollow_Up then handleFollowUp header data now s
          else if getMessageType header = Some MAnnounce then handleAnnounce header data steadyNow s
          else Done s)"

definition announce_timeout :: "int \<Rightarrow> ptp_slave \<Rightarrow> ptp_slave run" where
  "announce_timeout steadyNow s =
     acquire MasterMutex [] (\<lambda>_.
       if ps_hasMaster s \<and>
          (steadyNow - pa_lastReceived (ps_currentMaster s)) sdiv 1000000 >
            psc_announceIntervalMs (ps_config s) * psc_announceTimeoutMultiplier (ps_config s)
       then Done (s\<lparr>ps_hasMaster := False, ps_locked := False, ps_good := 0\<rparr>)
       else Done s)"

definition receive_round ::
    "(u8 list \<times> u64) option \<Rightarrow> u8 list option \<Rightarrow> u64 \<Rightarrow> int \<Rightarrow> ptp_slave \<Rightarrow> ptp_slave run" where
  "receive_round event general now steadyNow s =
     (if event = None \<and> general = None then Done s
      else
        and_then (case event of None \<Rightarrow> Done s | Some (data, t) \<Rightarrow> on_event_message data t now s) (\<lambda>s1.
        and_then (case general of None \<Rightarrow> Done s1 | Some data \<Rightarrow> on_general_message data now steadyNow s1) (\<lambda>s2.
        announce_timeout steadyNow s2)))"

text \<open>\<open>sent\<close> tells whether \<open>sendto\<close> succeeded; the result has the datagram it was given.\<close>

definition sendDelayReq :: "u64 \<Rightarrow> bool \<Rightarrow> ptp_slave \<Rightarrow> bool \<times> ptp_slave \<times> u8 list option" where
  "sendDelayReq t3 sent s =
     (if ps_eventSocket s < 0 then (False, s, None)
      else
        let seqId = ps_delayReqSequenceId s;
            s1 = s\<lparr>ps_delayReqSequenceId := seqId + 1\<rparr>;
            msg = delay_req_message (psc_domain (ps_config s)) (ps_selfPortId s) seqId
        in if \<not> sent then (False, s1, Some msg)
           else (True, s1\<lparr>ps_t3 := t3, ps_waitingForDelayResp := True,
                   ps_delayReqSentCount := ps_delayReqSentCount s1 + 1\<rparr>, Some msg))"

definition delay_req_round :: "u64 \<Rightarrow> bool \<Rightarrow> ptp_slave \<Rightarrow> ptp_slave" where
  "delay_req_round t3 sent s =
     (if ps_hasMaster s \<and> 0 < sint (ps_syncCount s) then fst (snd (sendDelayReq t3 sent s)) else s)"

lemma and_then_Done: "and_then m k = Done y \<longleftrightarrow> (\<exists>x. m = Done x \<and> k x = Done y)"
  by (cases m) auto

lemma i64_Done: "i64 v = Done w \<longleftrightarrow> w = v \<and> - (2 ^ 63) \<le> v \<and> v < 2 ^ 63"
  by (auto simp: i64_def)

lemma i64_ok: "- (2 ^ 63) \<le> v \<Longrightarrow> v < 2 ^ 63 \<Longrightarrow> i64 v = Done v"
  by (simp add: i64_def)

lemma acquire_held [simp]: "m \<in> set held \<Longrightarrow> acquire m held k = Blocked"
  and acquire_free [simp]: "m \<notin> set held \<Longrightarrow> acquire m held k = k (m # held)"
  by (simp_all add: acquire_def)

section \<open>The computation never runs\<close>

lemma calculate_sync_held [simp]: "SyncMutex \<in> set held \<Longrightarrow> calculateOffsetAndDelay held now s = Blocked"
  by (simp add: calculateOffsetAndDelay_def sync_times_def)

lemma calculate_delay_held:
  "calculateOffsetAndDelay [DelayMutex] now s =
     (if ps_waitingForFollowUp s \<or> ts_isZero (ps_t1 s) then Done s else Blocked)"
  by (simp add: calculateOffsetAndDelay_def sync_times_def delay_times_def)

text \<open>What no step of a slave that does not hang changes: everything the computation yields.\<close>

definition unmeasured :: "ptp_slave \<Rightarrow> ptp_slave \<Rightarrow> bool" where
  "unmeasured s s' \<longleftrightarrow> ps_offsetNs s' = ps_offsetNs s \<and> ps_pathDelayNs s' = ps_pathDelayNs s \<and>
     ps_drift s' = ps_drift s \<and> ps_measurements s' = ps_measurements s \<and>
     ps_offsetCount s' = ps_offsetCount s \<and> (ps_locked s' \<longrightarrow> ps_locked s)"

lemma unmeasured_refl [simp]: "unmeasured s s"
  by (simp add: unmeasured_def)

lemma unmeasured_trans: "unmeasured s s1 \<Longrightarrow> unmeasured s1 s2 \<Longrightarrow> unmeasured s s2"
  by (simp add: unmeasured_def)

lemma handleSync_unmeasured: "handleSync h d t now s = Done s' \<Longrightarrow> unmeasured s s'"
  by (auto simp: handleSync_def Let_def unmeasured_def split: if_splits)

lemma handleFollowUp_unmeasured: "handleFollowUp h d now s = Done s' \<Longrightarrow> unmeasured s s'"
  by (auto simp: handleFollowUp_def Let_def and_then_Done unmeasured_def split: if_splits)

lemma handleDelayResp_unmeasured: "handleDelayResp h d now s = Done s' \<Longrightarrow> unmeasured s s'"
  by (auto simp: handleDelayResp_def Let_def calculate_delay_held unmeasured_def split: if_splits)

lemma handleAnnounce_unmeasured: "handleAnnounce h d st s = Done s' \<Longrightarrow> unmeasured s s'"
  by (auto simp: handleAnnounce_def Let_def adopt_master_def unmeasured_def split: if_splits)

lemma on_event_unmeasured: "on_event_message d t now s = Done s' \<Longrightarrow> unmeasured s s'"
  by (auto simp: on_event_message_def unmeasured_def [of s "s\<lparr>ps_domainMismatchCount := c\<rparr>" for c]
      dest: handleSync_unmeasured handleDelayResp_unmeasured split: option.splits if_splits)

lemma on_general_unmeasured: "on_general_message d now st s = Done s' \<Longrightarrow> unmeasured s s'"
  by (auto simp: on_general_message_def unmeasured_def [of s "s\<lparr>ps_domainMismatchCount := c\<rparr>" for c]
      dest: handleFollowUp_unmeasured handleAnnounce_unmeasured split: option.splits if_splits)

lemma announce_timeout_unmeasured: "announce_timeout st s = Done s' \<Longrightarrow> unmeasured s s'"
  by (auto simp: announce_timeout_def unmeasured_def split: if_splits)

lemma receive_round_unmeasured:
  assumes "receive_round event general now st s = Done s'"
  shows "unmeasured s s'"
proof (cases "event = None \<and> general = None")
  case True
  with assms show ?thesis by (simp add: receive_round_def)
next
  case False
  then obtain s1 s2 where r: "(case event of None \<Rightarrow> Done s | Some (data, t) \<Rightarrow> on_event_message data t now s) = Done s1"
    "(case general of None \<Rightarrow> Done s1 | Some data \<Rightarrow> on_general_message data now st s1) = Done s2"
    "announce_timeout st s2 = Done s'"
    using assms by (auto simp: receive_round_def and_then_Done)
  have "unmeasured s s1" using r(1) by (cases event) (auto dest: on_event_unmeasured)
  moreover have "unmeasured s1 s2" using r(2) by (cases general) (auto dest: on_general_unmeasured)
  ultimately show ?thesis using announce_timeout_unmeasured [OF r(3)] by (blast intro: unmeasured_trans)
qed

lemma delay_req_unmeasured: "unmeasured s (delay_req_round t3 sent s)"
  by (simp add: delay_req_round_def sendDelayReq_def Let_def unmeasured_def)

text \<open>Rounds of the two threads of a running slave, in the order in which they happen.\<close>

datatype ptp_event = Receive "(u8 list \<times> u64) option" "u8 list option" u64 int | Request u64 bool

fun ptp_step :: "ptp_event \<Rightarrow> ptp_slave \<Rightarrow> ptp_slave run" where
  "ptp_step (Receive event general now steadyNow) s = receive_round event general now steadyNow s"
| "ptp_step (Request t3 sent) s = Done (delay_req_round t3 sent s)"

fun ptp_run :: "ptp_event list \<Rightarrow> ptp_slave \<Rightarrow> ptp_slave run" where
  "ptp_run [] s = Done s"
| "ptp_run (e # es) s = and_then (ptp_step e s) (ptp_run es)"

lemma ptp_run_unmeasured: "ptp_run es s = Done s' \<Longrightarrow> unmeasured s s'"
proof (induction es arbitrary: s)
  case Nil
  then show ?case by simp
next
  case (Cons e es)
  then obtain s1 where s1: "ptp_step e s = Done s1" "ptp_run es s1 = Done s'" by (auto simp: and_then_Done)
  have "unmeasured s s1" using s1(1) delay_req_unmeasured by (cases e) (auto dest: receive_round_unmeasured)
  with Cons.IH [OF s1(2)] show ?case by (rule unmeasured_trans [rotated])
qed

lemma announce_timeout_cases:
  "\<exists>b. announce_timeout st s = Done (if b then s\<lparr>ps_hasMaster := False, ps_locked := False, ps_good := 0\<rparr> else s)"
proof -
  have "announce_timeout st s = Done (if ps_hasMaster s \<and>
          (st - pa_lastReceived (ps_currentMaster s)) sdiv 1000000 >
            psc_announceIntervalMs (ps_config s) * psc_announceTimeoutMultiplier (ps_config s)
       then s\<lparr>ps_hasMaster := False, ps_locked := False, ps_good := 0\<rparr> else s)"
    by (simp add: announce_timeout_def)
  then show ?thesis by (rule exI)
qed

lemma sync_then_follow_up:
  assumes sync: "parseHeader d1 = Some h1" "getMessageType h1 = Some MSync" "44 \<le> length d1"
      "ph_flagField h1 AND 0x0200 \<noteq> 0" "int (unat (ph_domainNumber h1)) = psc_domain (ps_config s)"
    and follow: "parseHeader d2 = Some h2" "getMessageType h2 = Some MFollow_Up" "44 \<le> length d2"
      "ph_sequenceId h2 = ph_sequenceId h1" "int (unat (ph_domainNumber h2)) = psc_domain (ps_config s)"
  shows "ptp_run [Receive (Some (d1, t2)) None now1 st1, Receive None (Some d2) now2 st2] s =
    (if - (2 ^ 63) \<le> sint (ph_correctionField h1) + sint (ph_correctionField h2) \<and>
        sint (ph_correctionField h1) + sint (ph_correctionField h2) < 2 ^ 63 then Blocked else Overflow)"
proof -
  let ?c = "sint (ph_correctionField h1) + sint (ph_correctionField h2)"
  define s1 where "s1 = s\<lparr>ps_syncCount := ps_syncCount s + 1, ps_t2 := t2, ps_lastSyncSequenceId := ph_sequenceId h1,
    ps_syncCorrection := ph_correctionField h1, ps_waitingForFollowUp := True, ps_syncOrigin := parseTimestamp d1 34\<rparr>"
  have 1: "on_event_message d1 t2 now1 s = Done s1"
    using sync by (simp add: on_event_message_def handleSync_def s1_def Let_def)
  obtain b where b: "announce_timeout st1 s1 =
      Done (if b then s1\<lparr>ps_hasMaster := False, ps_locked := False, ps_good := 0\<rparr> else s1)"
    using announce_timeout_cases by blast
  define s2 where "s2 = (if b then s1\<lparr>ps_hasMaster := False, ps_locked := False, ps_good := 0\<rparr> else s1)"
  have 2: "announce_timeout st1 s1 = Done s2" using b by (simp add: s2_def)
  have keep: "ps_waitingForFollowUp s2" "ps_config s2 = ps_config s"
    "ps_lastSyncSequenceId s2 = ph_sequenceId h1" "ps_syncCorrection s2 = ph_correctionField h1"
    by (simp_all add: s2_def s1_def)
  have 3: "on_general_message d2 now2 st2 s2 = (if - (2 ^ 63) \<le> ?c \<and> ?c < 2 ^ 63 then Blocked else Overflow)"
    using follow keep by (simp add: on_general_message_def handleFollowUp_def i64_def Let_def)
  show ?thesis by (simp add: receive_round_def 1 2 3)
qed


section \<open>Measuring\<close>

lemma ts_isZero_of_ns: "ts_isZero (timestamp_of_ns w) \<longleftrightarrow> w = 0"
proof
  assume z: "ts_isZero (timestamp_of_ns w)"
  have "toNanoseconds (timestamp_of_ns w) = 0" using z by (simp add: ts_isZero_def toNanoseconds_def)
  then show "w = 0" by (simp add: timestamp_roundtrip)
qed (simp add: ts_isZero_def timestamp_of_ns_def)

lemma sum_i64_ok:
  fixes B acc :: int
  assumes "\<forall>x \<in> set xs. \<bar>x\<bar> \<le> B" "\<bar>acc\<bar> + int (length xs) * B < 2 ^ 63"
  shows "sum_i64 xs acc = Done (acc + sum_list xs)"
  using assms
proof (induction xs arbitrary: acc)
  case Nil
  then show ?case by simp
next
  case (Cons x xs)
  have B: "0 \<le> B" "\<bar>x\<bar> \<le> B" using Cons.prems(1) by auto
  have e: "int (length (x # xs)) * B = B + int (length xs) * B" by (simp add: algebra_simps)
  have nn: "0 \<le> int (length xs) * B" using B(1) by simp
  have "\<bar>acc + x\<bar> + int (length xs) * B < 2 ^ 63" using Cons.prems(2) B e by linarith
  moreover from this nn have "i64 (acc + x) = Done (acc + x)" by (intro i64_ok) linarith+
  ultimately show ?case using Cons.IH [of "acc + x"] Cons.prems(1) by simp
qed

lemma sum_list_bound:
  fixes B :: int
  shows "\<forall>x \<in> set xs. \<bar>x\<bar> \<le> B \<Longrightarrow> \<bar>sum_list xs\<bar> \<le> int (length xs) * B"
  by (induction xs) (auto simp: algebra_simps)

lemma sdiv_bound:
  fixes a B :: int
  assumes "\<bar>a\<bar> \<le> n * B" "0 < n"
  shows "\<bar>a sdiv n\<bar> \<le> B"
proof -
  have "a sdiv n = sgn a * (\<bar>a\<bar> div n)" using assms(2) by (simp add: signed_divide_int_def)
  moreover have "0 \<le> \<bar>a\<bar> div n" using assms(2) by (simp add: pos_imp_zdiv_nonneg_iff)
  ultimately have "\<bar>a sdiv n\<bar> = \<bar>a\<bar> div n" by (cases "a = 0") (simp_all add: abs_mult abs_sgn_eq)
  also have "\<dots> \<le> n * B div n" using assms by (intro zdiv_mono1) simp_all
  also have "\<dots> = B" using assms(2) by simp
  finally show ?thesis .
qed

lemma sdiv_mult_self:
  fixes x n :: int
  assumes "0 < n"
  shows "(n * x) sdiv n = x"
  using assms by (simp add: signed_divide_int_def abs_mult sgn_mult) (metis sgn_mult_abs)

lemma foldl_min:
  fixes x :: int
  shows "foldl min x xs = Min (insert x (set xs))"
proof (induction xs arbitrary: x)
  case Nil
  then show ?case by simp
next
  case (Cons a xs)
  then show ?case by (cases "xs = []") (simp_all add: Min_insert min.assoc min.left_commute)
qed

end
