(* ===== verification/Ptp_Sync.thy ===== *)
theory Ptp_Sync
  imports Ptp_Slave
begin

text \<open>
  What the PTP slave does: the computation of offset and delay is exact and bounded, the lock has
  hysteresis, the best master is chosen; but the handlers call the computation while they hold
  the mutex it locks, so that the regular exchange of messages hangs the receive thread.
\<close>

text \<open>Well-formed filters: a ring of eight entries, filled from the front.\<close>

definition ring_ok :: "int list \<Rightarrow> nat \<Rightarrow> nat \<Rightarrow> bool" where
  "ring_ok h i n \<longleftrightarrow> length h = 8 \<and> i < 8 \<and> n \<le> 8 \<and> (n < 8 \<longrightarrow> i = n) \<and> (\<forall>x \<in> set h. \<bar>x\<bar> \<le> 2 ^ 59)"

definition filters_ok :: "ptp_slave \<Rightarrow> bool" where
  "filters_ok s \<longleftrightarrow> ring_ok (ps_offsetHistory s) (ps_offsetIndex s) (ps_offsetCount s) \<and>
     ring_ok (ps_delayHistory s) (ps_delayIndex s) (ps_delayCount s) \<and> \<bar>ps_lastDriftOffset s\<bar> \<le> 2 ^ 59"

definition push_recent :: "int list \<Rightarrow> nat \<Rightarrow> nat \<Rightarrow> int \<Rightarrow> int list" where
  "push_recent h i n x = take (if n < 8 then n + 1 else n) (h[i := x])"

lemma ring_ok_push:
  assumes "ring_ok h i n" "\<bar>x\<bar> \<le> 2 ^ 59"
  shows "ring_ok (h[i := x]) ((i + 1) mod 8) (if n < 8 then n + 1 else n)"
    and "length (push_recent h i n x) = (if n < 8 then n + 1 else 8)"
    and "x \<in> set (push_recent h i n x)"
    and "\<forall>y \<in> set (push_recent h i n x). \<bar>y\<bar> \<le> 2 ^ 59"
    and "set (push_recent h i n x) \<subseteq> insert x (set (take n h))"
proof -
  have r: "length h = 8" "i < 8" "n \<le> 8" "n < 8 \<Longrightarrow> i = n" "\<forall>x \<in> set h. \<bar>x\<bar> \<le> 2 ^ 59"
    using assms(1) by (auto simp: ring_ok_def)
  have all: "\<forall>y \<in> set (h[i := x]). \<bar>y\<bar> \<le> 2 ^ 59" using r(5) assms(2) set_update_subset_insert [of h i x] by blast
  then show "\<forall>y \<in> set (push_recent h i n x). \<bar>y\<bar> \<le> 2 ^ 59"
    by (auto simp: push_recent_def dest: in_set_takeD)
  show "ring_ok (h[i := x]) ((i + 1) mod 8) (if n < 8 then n + 1 else n)"
    using r all by (cases "n < 8"; cases "n = 7") (auto simp: ring_ok_def)
  show "length (push_recent h i n x) = (if n < 8 then n + 1 else 8)" using r by (simp add: push_recent_def)
  have "(push_recent h i n x) ! i = x" using r by (auto simp: push_recent_def)
  moreover have "i < length (push_recent h i n x)" using r by (auto simp: push_recent_def)
  ultimately show "x \<in> set (push_recent h i n x)" using nth_mem by fastforce
  show "set (push_recent h i n x) \<subseteq> insert x (set (take n h))"
  proof (cases "n < 8")
    case True
    then have "push_recent h i n x = take n h @ [x]"
      using r by (simp add: push_recent_def take_Suc_conv_app_nth)
    then show ?thesis by simp
  next
    case False
    then show ?thesis using r set_update_subset_insert [of h i x] by (simp add: push_recent_def)
  qed
qed

definition average :: "int list \<Rightarrow> int" where
  "average xs = sum_list xs sdiv int (length xs)"

lemma average_const:
  assumes "xs \<noteq> []" "\<forall>y \<in> set xs. y = x"
  shows "average xs = x"
proof -
  have "sum_list xs = int (length xs) * x" using assms(2) by (induction xs) (auto simp: algebra_simps)
  then show ?thesis using assms(1) sdiv_mult_self [of "int (length xs)" x] by (simp add: average_def)
qed

lemma average_bound: "xs \<noteq> [] \<Longrightarrow> \<forall>x \<in> set xs. \<bar>x\<bar> \<le> B \<Longrightarrow> \<bar>average xs\<bar> \<le> B"
  unfolding average_def by (rule sdiv_bound) (simp_all add: sum_list_bound)

lemma filter_offset_ok:
  assumes "ring_ok (ps_offsetHistory s) (ps_offsetIndex s) (ps_offsetCount s)" "\<bar>x\<bar> \<le> 2 ^ 59"
  defines "recent \<equiv> push_recent (ps_offsetHistory s) (ps_offsetIndex s) (ps_offsetCount s) x"
  shows "filter_offset x s = Done (average recent,
    s\<lparr>ps_offsetHistory := (ps_offsetHistory s)[ps_offsetIndex s := x],
      ps_offsetIndex := (ps_offsetIndex s + 1) mod 8,
      ps_offsetCount := (if ps_offsetCount s < 8 then ps_offsetCount s + 1 else ps_offsetCount s),
      ps_offsetNs := average recent\<rparr>)"
proof -
  note p = ring_ok_push [OF assms(1,2), folded recent_def]
  let ?n = "if ps_offsetCount s < 8 then ps_offsetCount s + 1 else ps_offsetCount s"
  have n: "ps_offsetCount s \<le> 8" using assms(1) by (simp add: ring_ok_def)
  have len: "length recent = ?n" using p(2) n by simp
  have "int (length recent) * 2 ^ 59 \<le> 8 * 2 ^ 59" unfolding len using n by simp
  then have "sum_i64 recent 0 = Done (sum_list recent)" using sum_i64_ok [OF p(4), of 0] by simp
  then show ?thesis
    unfolding filter_offset_def Let_def average_def len
    by (simp add: recent_def push_recent_def)
qed

lemma filter_delay_ok:
  assumes "ring_ok (ps_delayHistory s) (ps_delayIndex s) (ps_delayCount s)" "0 \<le> d" "d \<le> 2 ^ 59"
  defines "recent \<equiv> push_recent (ps_delayHistory s) (ps_delayIndex s) (ps_delayCount s) d"
  shows "filter_delay d s =
    s\<lparr>ps_delayHistory := (ps_delayHistory s)[ps_delayIndex s := d], ps_delayIndex := (ps_delayIndex s + 1) mod 8,
      ps_delayCount := (if ps_delayCount s < 8 then ps_delayCount s + 1 else ps_delayCount s),
      ps_pathDelayNs := Min (set recent)\<rparr>"
proof -
  have "\<bar>d\<bar> \<le> 2 ^ 59" using assms(2,3) by simp
  note p = ring_ok_push [OF assms(1) this, folded recent_def]
  have "foldl min d recent = Min (set recent)" using p(3) by (simp add: foldl_min insert_absorb)
  then show ?thesis using assms(2) by (simp add: filter_delay_def recent_def push_recent_def Let_def)
qed

text \<open>What the rest of a measurement leaves alone and what it sets.\<close>

definition after_filter :: "int \<Rightarrow> ptp_slave \<Rightarrow> ptp_slave \<Rightarrow> bool" where
  "after_filter x s s' \<longleftrightarrow>
     ps_offsetNs s' = ps_offsetNs s \<and> ps_pathDelayNs s' = ps_pathDelayNs s \<and>
     ps_offsetHistory s' = ps_offsetHistory s \<and> ps_offsetIndex s' = ps_offsetIndex s \<and> ps_offsetCount s' = ps_offsetCount s \<and>
     ps_delayHistory s' = ps_delayHistory s \<and> ps_delayIndex s' = ps_delayIndex s \<and> ps_delayCount s' = ps_delayCount s \<and>
     ps_lastDriftOffset s' \<in> {ps_lastDriftOffset s, x} \<and>
     ps_good s' = (if \<bar>x\<bar> < 10000000 then (if ps_good s < 16 then ps_good s + 1 else ps_good s) else max 0 (ps_good s - 1)) \<and>
     (ps_locked s' \<longleftrightarrow> 8 \<le> ps_good s') \<and>
     map (\<lambda>m. pm_offsetFromMasterNs (fst m)) (ps_measurements s') =
       map (\<lambda>m. pm_offsetFromMasterNs (fst m)) (ps_measurements s) @ (if ps_hasCallback s then [x] else [])"

lemma finish_measurement:
  assumes "\<bar>x\<bar> \<le> 2 ^ 59" "\<bar>ps_lastDriftOffset s\<bar> \<le> 2 ^ 59"
  shows "\<exists>s'. and_then (estimate_drift now x s) (\<lambda>s3. and_then (detect_lock x s3) (\<lambda>s4. notify [] x s4)) = Done s' \<and>
    after_filter x s s'"
proof -
  have "i64 (x - ps_lastDriftOffset s) = Done (x - ps_lastDriftOffset s)" using assms by (intro i64_ok) (simp_all add: abs_le_iff)
  then have "estimate_drift now x s \<in> {Done s, Done (s\<lparr>ps_lastDriftTime := now, ps_lastDriftOffset := x\<rparr>),
      Done (s\<lparr>ps_drift := smoothed_drift (ps_drift s) (x - ps_lastDriftOffset s) (now - ps_lastDriftTime s),
        ps_lastDriftTime := now, ps_lastDriftOffset := x\<rparr>)}"
    by (simp add: estimate_drift_def Let_def)
  then obtain s3 where s3: "estimate_drift now x s = Done s3"
    "s3 = s \<or> s3 = s\<lparr>ps_lastDriftTime := now, ps_lastDriftOffset := x\<rparr> \<or>
     (\<exists>d. s3 = s\<lparr>ps_drift := d, ps_lastDriftTime := now, ps_lastDriftOffset := x\<rparr>)"
    by blast
  have a: "i64 \<bar>x\<bar> = Done \<bar>x\<bar>" using assms(1) by (intro i64_ok) simp_all
  define good where "good = (if \<bar>x\<bar> < 10000000 then (if ps_good s < 16 then ps_good s + 1 else ps_good s) else max 0 (ps_good s - 1))"
  have same: "ps_offsetNs s3 = ps_offsetNs s" "ps_pathDelayNs s3 = ps_pathDelayNs s"
    "ps_offsetHistory s3 = ps_offsetHistory s" "ps_offsetIndex s3 = ps_offsetIndex s" "ps_offsetCount s3 = ps_offsetCount s"
    "ps_delayHistory s3 = ps_delayHistory s" "ps_delayIndex s3 = ps_delayIndex s" "ps_delayCount s3 = ps_delayCount s"
    "ps_good s3 = ps_good s" "ps_measurements s3 = ps_measurements s" "ps_hasCallback s3 = ps_hasCallback s"
    "ps_lastDriftOffset s3 = ps_lastDriftOffset s \<or> ps_lastDriftOffset s3 = x"
    using s3(2) by (elim disjE exE; simp)+
  have "detect_lock x s3 = Done (s3\<lparr>ps_good := good, ps_locked := (good \<ge> 8)\<rparr>)"
    by (simp add: detect_lock_def a good_def same Let_def)
  moreover have "\<exists>s'. notify [] x (s3\<lparr>ps_good := good, ps_locked := (good \<ge> 8)\<rparr>) = Done s' \<and> after_filter x s s'"
    using same by (simp add: notify_def after_filter_def good_def [symmetric])
  ultimately show ?thesis by (simp add: s3(1))
qed


lemma measurement_effect:
  assumes ok: "filters_ok s" and pending: "\<not> ps_waitingForFollowUp s" "\<not> ps_waitingForDelayResp s"
    and t1: "ps_t1 s = timestamp_of_ns a" "a \<noteq> 0" and t4: "ps_t4 s = timestamp_of_ns b" "b \<noteq> 0" and t3: "ps_t3 s \<noteq> 0"
    and link: "sint (ps_t2 s) = sint a + delay + off" "sint b = sint (ps_t3 s) + delay - off"
    and range: "0 \<le> delay" "delay \<le> 2 ^ 59" "\<bar>off\<bar> \<le> 2 ^ 59"
  defines "recent \<equiv> push_recent (ps_offsetHistory s) (ps_offsetIndex s) (ps_offsetCount s) off"
    and "delays \<equiv> push_recent (ps_delayHistory s) (ps_delayIndex s) (ps_delayCount s) delay"
  shows "\<exists>s'. calculateOffsetAndDelay [] now s = Done s' \<and> filters_ok s' \<and>
    ps_offsetNs s' = average recent \<and> ps_pathDelayNs s' = Min (set delays) \<and>
    ps_good s' = (if \<bar>average recent\<bar> < 10000000 then (if ps_good s < 16 then ps_good s + 1 else ps_good s)
      else max 0 (ps_good s - 1)) \<and>
    (ps_locked s' \<longleftrightarrow> 8 \<le> ps_good s') \<and>
    map (\<lambda>m. pm_offsetFromMasterNs (fst m)) (ps_measurements s') =
      map (\<lambda>m. pm_offsetFromMasterNs (fst m)) (ps_measurements s) @ (if ps_hasCallback s then [average recent] else [])"
proof -
  have oh: "ring_ok (ps_offsetHistory s) (ps_offsetIndex s) (ps_offsetCount s)"
    and dh: "ring_ok (ps_delayHistory s) (ps_delayIndex s) (ps_delayCount s)"
    and dr: "\<bar>ps_lastDriftOffset s\<bar> \<le> 2 ^ 59" using ok by (simp_all add: filters_ok_def)
  have sync: "sync_times [] s = Done (Some (sint a, sint (ps_t2 s)))"
    using pending t1 by (simp add: sync_times_def ts_isZero_of_ns timestamp_roundtrip)
  have dly: "delay_times [] s = Done (Some (sint (ps_t3 s), sint b))"
    using pending t4 t3 by (simp add: delay_times_def ts_isZero_of_ns timestamp_roundtrip)
  define s1 where "s1 = filter_delay delay s"
  have "sint (ps_t2 s) - sint a = delay + off" "sint b - sint (ps_t3 s) = delay - off" using link by simp_all
  moreover have "i64 (delay + off) = Done (delay + off)" "i64 (delay - off) = Done (delay - off)"
    "i64 (2 * off) = Done (2 * off)" "i64 (2 * delay) = Done (2 * delay)"
    using range by (simp_all add: i64_def abs_le_iff)
  moreover have "(2 * off) sdiv 2 = off" "(2 * delay) sdiv 2 = delay" by (simp_all add: sdiv_mult_self)
  ultimately have raw: "raw_offset (sint a) (sint (ps_t2 s)) (Some (sint (ps_t3 s), sint b)) s = Done (off, s1)"
    by (simp add: raw_offset_def s1_def)
  note fd = filter_delay_ok [OF dh range(1,2), folded delays_def s1_def]
  have "\<bar>delay\<bar> \<le> 2 ^ 59" using range by simp
  note dp = ring_ok_push [OF dh this, folded delays_def]
  have oh1: "ring_ok (ps_offsetHistory s1) (ps_offsetIndex s1) (ps_offsetCount s1)" using oh by (simp add: fd)
  obtain s2 where s2: "filter_offset off s1 = Done (average recent, s2)"
    "s2 = s1\<lparr>ps_offsetHistory := (ps_offsetHistory s1)[ps_offsetIndex s1 := off],
      ps_offsetIndex := (ps_offsetIndex s1 + 1) mod 8,
      ps_offsetCount := (if ps_offsetCount s1 < 8 then ps_offsetCount s1 + 1 else ps_offsetCount s1),
      ps_offsetNs := average recent\<rparr>"
    using filter_offset_ok [OF oh1 range(3)] by (simp add: fd recent_def)
  note op = ring_ok_push [OF oh range(3), folded recent_def]
  have "recent \<noteq> []" using op(3) by auto
  then have avg: "\<bar>average recent\<bar> \<le> 2 ^ 59" using op(4) by (rule average_bound)
  have dr2: "\<bar>ps_lastDriftOffset s2\<bar> \<le> 2 ^ 59" using dr by (simp add: s2(2) fd)
  obtain s' where s': "and_then (estimate_drift now (average recent) s2)
      (\<lambda>s3. and_then (detect_lock (average recent) s3) (\<lambda>s4. notify [] (average recent) s4)) = Done s'"
    "after_filter (average recent) s2 s'"
    using finish_measurement [OF avg dr2] by blast
  have run: "calculateOffsetAndDelay [] now s = Done s'"
    using s'(1) by (simp add: calculateOffsetAndDelay_def sync dly raw s2(1))
  note f = s'(2) [unfolded after_filter_def]
  have f2: "ps_offsetHistory s2 = (ps_offsetHistory s)[ps_offsetIndex s := off]"
    "ps_offsetIndex s2 = (ps_offsetIndex s + 1) mod 8"
    "ps_offsetCount s2 = (if ps_offsetCount s < 8 then ps_offsetCount s + 1 else ps_offsetCount s)"
    "ps_delayHistory s2 = (ps_delayHistory s)[ps_delayIndex s := delay]"
    "ps_delayIndex s2 = (ps_delayIndex s + 1) mod 8"
    "ps_delayCount s2 = (if ps_delayCount s < 8 then ps_delayCount s + 1 else ps_delayCount s)"
    "ps_offsetNs s2 = average recent" "ps_pathDelayNs s2 = Min (set delays)" "ps_good s2 = ps_good s"
    "ps_measurements s2 = ps_measurements s" "ps_hasCallback s2 = ps_hasCallback s"
    "ps_lastDriftOffset s2 = ps_lastDriftOffset s"
    by (simp_all add: s2(2) fd)
  have "ring_ok (ps_offsetHistory s') (ps_offsetIndex s') (ps_offsetCount s')" using op(1) f f2 by simp
  moreover have "ring_ok (ps_delayHistory s') (ps_delayIndex s') (ps_delayCount s')" using dp(1) f f2 by simp
  moreover have "\<bar>ps_lastDriftOffset s'\<bar> \<le> 2 ^ 59" using avg dr2 f by auto
  ultimately have "filters_ok s'" by (simp add: filters_ok_def)
  with run f f2 show ?thesis by simp
qed

section \<open>Lock detection\<close>

fun lock_run :: "int list \<Rightarrow> ptp_slave \<Rightarrow> ptp_slave run" where
  "lock_run [] s = Done s"
| "lock_run (x # xs) s = and_then (detect_lock x s) (lock_run xs)"

definition lock_ok :: "ptp_slave \<Rightarrow> bool" where
  "lock_ok s \<longleftrightarrow> 0 \<le> ps_good s \<and> ps_good s \<le> 16 \<and> (ps_locked s \<longleftrightarrow> 8 \<le> ps_good s)"

lemma detect_lock_step:
  assumes "lock_ok s" "\<bar>x\<bar> < 2 ^ 63"
  shows "\<exists>s'. detect_lock x s = Done s' \<and> lock_ok s' \<and>
    ps_good s' = (if \<bar>x\<bar> < 10000000 then min 16 (ps_good s + 1) else max 0 (ps_good s - 1))"
proof -
  have "i64 \<bar>x\<bar> = Done \<bar>x\<bar>" using assms(2) by (intro i64_ok) simp_all
  then show ?thesis using assms(1) by (auto simp: detect_lock_def lock_ok_def Let_def)
qed

lemma lock_run_good:
  assumes "lock_ok s" "\<forall>x \<in> set xs. \<bar>x\<bar> < 10000000"
  shows "\<exists>s'. lock_run xs s = Done s' \<and> lock_ok s' \<and> ps_good s' = min 16 (ps_good s + int (length xs))"
  using assms
proof (induction xs arbitrary: s)
  case Nil
  then show ?case by (simp add: lock_ok_def)
next
  case (Cons x xs)
  have x: "\<bar>x\<bar> < 10000000" using Cons.prems(2) by simp
  then have "\<bar>x\<bar> < 2 ^ 63" by simp
  from detect_lock_step [OF Cons.prems(1) this] x obtain s1
    where s1: "detect_lock x s = Done s1" "lock_ok s1" "ps_good s1 = min 16 (ps_good s + 1)" by auto
  from Cons.IH [OF s1(2)] Cons.prems(2) obtain s'
    where "lock_run xs s1 = Done s'" "lock_ok s'" "ps_good s' = min 16 (ps_good s1 + int (length xs))" by auto
  with s1 show ?case by auto
qed

lemma lock_run_bad:
  assumes "lock_ok s" "\<forall>x \<in> set xs. 10000000 \<le> \<bar>x\<bar> \<and> \<bar>x\<bar> < 2 ^ 63"
  shows "\<exists>s'. lock_run xs s = Done s' \<and> lock_ok s' \<and> ps_good s' = max 0 (ps_good s - int (length xs))"
  using assms
proof (induction xs arbitrary: s)
  case Nil
  then show ?case by (simp add: lock_ok_def)
next
  case (Cons x xs)
  have x: "10000000 \<le> \<bar>x\<bar>" "\<bar>x\<bar> < 2 ^ 63" using Cons.prems(2) by simp_all
  from detect_lock_step [OF Cons.prems(1) x(2)] x(1) obtain s1
    where s1: "detect_lock x s = Done s1" "lock_ok s1" "ps_good s1 = max 0 (ps_good s - 1)" by auto
  from Cons.IH [OF s1(2)] Cons.prems(2) obtain s'
    where "lock_run xs s1 = Done s'" "lock_ok s'" "ps_good s' = max 0 (ps_good s1 - int (length xs))" by auto
  with s1 show ?case by auto
qed

text \<open>
  Hysteresis of the lock. The counter of good measurements stays between 0 and 16 and the slave
  is locked exactly from 8 on: eight offsets below 10 ms in a row lock a slave that starts from
  nothing, and once sixteen have been seen it takes nine bad ones to lose the lock.
\<close>

theorem ptp_lock_hysteresis:
  assumes "lock_ok s" "lock_run xs s = Done s'"
    and "(\<forall>x \<in> set xs. \<bar>x\<bar> < 10000000) \<or> (\<forall>x \<in> set xs. 10000000 \<le> \<bar>x\<bar> \<and> \<bar>x\<bar> < 2 ^ 63)"
  shows "lock_ok s' \<and>
    ((\<forall>x \<in> set xs. \<bar>x\<bar> < 10000000) \<longrightarrow>
       (ps_locked s' \<longleftrightarrow> 8 \<le> ps_good s + int (length xs)) \<and> ps_good s' = min 16 (ps_good s + int (length xs))) \<and>
    ((\<forall>x \<in> set xs. 10000000 \<le> \<bar>x\<bar>) \<longrightarrow> (ps_locked s' \<longleftrightarrow> int (length xs) \<le> ps_good s - 8))"
  using assms(3)
proof
  assume g: "\<forall>x \<in> set xs. \<bar>x\<bar> < 10000000"
  from lock_run_good [OF assms(1) this] assms(2)
  have s': "lock_ok s'" "ps_good s' = min 16 (ps_good s + int (length xs))" by auto
  have "(\<forall>x \<in> set xs. 10000000 \<le> \<bar>x\<bar>) \<Longrightarrow> xs = []" using g by (cases xs) auto
  with s' assms(1) show ?thesis by (auto simp: lock_ok_def)
next
  assume b: "\<forall>x \<in> set xs. 10000000 \<le> \<bar>x\<bar> \<and> \<bar>x\<bar> < 2 ^ 63"
  from lock_run_bad [OF assms(1) this] assms(2)
  have s': "lock_ok s'" "ps_good s' = max 0 (ps_good s - int (length xs))" by auto
  have "(\<forall>x \<in> set xs. \<bar>x\<bar> < 10000000) \<Longrightarrow> xs = []" using b by (cases xs) auto
  with s' assms(1) show ?thesis by (auto simp: lock_ok_def)
qed

section \<open>Choice of the master\<close>

definition announce_key :: "ptp_announce \<Rightarrow> nat" where
  "announce_key a = unat (pa_priority1 a) * 65536 + unat (pa_clockClass a) * 256 + unat (pa_priority2 a)"

lemma byte_order:
  fixes x y a b :: nat
  assumes "a < 256" "b < 256"
  shows "x * 256 + a < y * 256 + b \<longleftrightarrow> x < y \<or> x = y \<and> a < b"
    and "x * 256 + a = y * 256 + b \<longleftrightarrow> x = y \<and> a = b"
proof -
  consider "x < y" | "x = y" | "y < x" by linarith
  then have "(x * 256 + a < y * 256 + b \<longleftrightarrow> x < y \<or> x = y \<and> a < b) \<and> (x * 256 + a = y * 256 + b \<longleftrightarrow> x = y \<and> a = b)"
    using assms by cases auto
  then show "x * 256 + a < y * 256 + b \<longleftrightarrow> x < y \<or> x = y \<and> a < b"
    "x * 256 + a = y * 256 + b \<longleftrightarrow> x = y \<and> a = b" by blast+
qed

lemma isBetter_key: "isBetter a b \<longleftrightarrow> announce_key a < announce_key b"
proof -
  have u: "unat w < 256" for w :: u8 using unsigned_less [of w] by simp
  let ?p = "unat (pa_priority1 a)" and ?q = "unat (pa_priority1 b)"
  let ?c = "unat (pa_clockClass a)" and ?d = "unat (pa_clockClass b)"
  have k: "announce_key x = (unat (pa_priority1 x) * 256 + unat (pa_clockClass x)) * 256 + unat (pa_priority2 x)" for x
    by (simp add: announce_key_def algebra_simps)
  have eq: "?p * 256 + ?c = ?q * 256 + ?d \<longleftrightarrow> ?p = ?q \<and> ?c = ?d"
    by (rule byte_order(2) [OF u u])
  have "announce_key a < announce_key b \<longleftrightarrow> ?p < ?q \<or> ?p = ?q \<and> (?c < ?d \<or> ?c = ?d \<and> unat (pa_priority2 a) < unat (pa_priority2 b))"
    unfolding k byte_order(1) [OF u u] eq by blast
  then show ?thesis by (auto simp: isBetter_def word_less_nat_alt word_unat_eq_iff)
qed

text \<open>Announce messages one after the other: header, bytes, time of arrival.\<close>

fun announce_run :: "(ptp_header \<times> u8 list \<times> int) list \<Rightarrow> ptp_slave \<Rightarrow> ptp_slave run" where
  "announce_run [] s = Done s"
| "announce_run ((h, d, t) # ms) s = and_then (handleAnnounce h d t s) (announce_run ms)"

definition announced :: "ptp_header \<times> u8 list \<times> int \<Rightarrow> ptp_announce" where
  "announced = (\<lambda>(h, d, t). parse_announce h d t)"

definition same_master :: "ptp_announce \<Rightarrow> ptp_announce \<Rightarrow> bool" where
  "same_master a b \<longleftrightarrow> a\<lparr>pa_lastReceived := 0\<rparr> = b\<lparr>pa_lastReceived := 0\<rparr>"

lemma same_master_key: "same_master a b \<Longrightarrow> announce_key a = announce_key b \<and>
    pa_grandmasterIdentity a = pa_grandmasterIdentity b"
  unfolding same_master_def by (cases a; cases b) (simp add: announce_key_def)

definition master_of :: "ptp_slave \<Rightarrow> ptp_announce \<Rightarrow> bool" where
  "master_of s a \<longleftrightarrow> ps_hasMaster s \<and> same_master (ps_currentMaster s) a \<and>
     ps_grandmaster s = pa_grandmasterIdentity a \<and> ps_clockClass s = pa_clockClass a \<and>
     ps_clockAccuracy s = pa_clockAccuracy a"

lemma handleAnnounce_first:
  assumes "64 \<le> length d" "\<not> ps_hasMaster s"
  shows "\<exists>s'. handleAnnounce h d t s = Done s' \<and> master_of s' (parse_announce h d t)"
  using assms by (simp add: handleAnnounce_def adopt_master_def master_of_def same_master_def Let_def)

lemma handleAnnounce_next:
  assumes "64 \<le> length d" "master_of s a"
  shows "\<exists>s'. handleAnnounce h d t s = Done s' \<and>
    master_of s' (if announce_key (parse_announce h d t) < announce_key a then parse_announce h d t else a)"
proof -
  have m: "ps_hasMaster s" "announce_key (ps_currentMaster s) = announce_key a"
    using assms(2) same_master_key by (auto simp: master_of_def)
  show ?thesis
    using assms m by (auto simp: handleAnnounce_def adopt_master_def master_of_def same_master_def isBetter_key Let_def)
qed

lemma announce_run_min:
  assumes "\<forall>(h, d, t) \<in> set ms. 64 \<le> length d" "master_of s a"
  shows "\<exists>s' b. announce_run ms s = Done s' \<and> master_of s' b \<and> b \<in> insert a (set (map announced ms)) \<and>
    (\<forall>c \<in> insert a (set (map announced ms)). announce_key b \<le> announce_key c)"
  using assms
proof (induction ms arbitrary: s a)
  case Nil
  then show ?case by auto
next
  case (Cons m ms)
  obtain h d t where m: "m = (h, d, t)" by (cases m)
  let ?x = "parse_announce h d t"
  let ?a = "if announce_key ?x < announce_key a then ?x else a"
  have "64 \<le> length d" using Cons.prems(1) m by simp
  from handleAnnounce_next [OF this Cons.prems(2)] obtain s1
    where s1: "handleAnnounce h d t s = Done s1" "master_of s1 ?a" by blast
  have "\<forall>(h, d, t) \<in> set ms. 64 \<le> length d" using Cons.prems(1) by simp
  from Cons.IH [OF this s1(2)] obtain s' b where b: "announce_run ms s1 = Done s'" "master_of s' b"
    "b \<in> insert ?a (set (map announced ms))" "\<forall>c \<in> insert ?a (set (map announced ms)). announce_key b \<le> announce_key c"
    by blast
  have x: "announced m = ?x" by (simp add: announced_def m)
  have "b \<in> insert a (set (map announced (m # ms)))" using b(3) x by (auto split: if_splits)
  moreover have "announce_key b \<le> announce_key c" if "c \<in> insert a (set (map announced (m # ms)))" for c
  proof -
    have "announce_key b \<le> announce_key ?a" using b(4) by blast
    then have "announce_key b \<le> announce_key a" "announce_key b \<le> announce_key ?x" by (auto split: if_splits)
    with that b(4) x show ?thesis by auto
  qed
  ultimately show ?case using s1(1) b(1,2) by (auto simp: m)
qed

text \<open>
  C30. Choice of the master. Of all masters announced since the slave had none, the current one has
  the least (priority1, class, priority2), and the quality reported to the clients is the one it
  announced then: a master that later announces a worse quality keeps the better entry.
\<close>

theorem ptp_master_is_best:
  assumes "ms \<noteq> []" "\<forall>(h, d, t) \<in> set ms. 64 \<le> length d" "\<not> ps_hasMaster s"
  shows "\<exists>s' best. announce_run ms s = Done s' \<and> master_of s' best \<and> best \<in> set (map announced ms) \<and>
    (\<forall>a \<in> set (map announced ms). announce_key best \<le> announce_key a)"
proof -
  obtain h d t ms' where ms: "ms = (h, d, t) # ms'" using assms(1) by (cases ms) auto
  have "64 \<le> length d" using assms(2) ms by simp
  from handleAnnounce_first [OF this assms(3)] obtain s1
    where s1: "handleAnnounce h d t s = Done s1" "master_of s1 (parse_announce h d t)" by blast
  have "\<forall>(h, d, t) \<in> set ms'. 64 \<le> length d" using assms(2) ms by simp
  from announce_run_min [OF this s1(2)] s1(1) show ?thesis by (auto simp: ms announced_def)
qed

section \<open>What the slave does with its messages\<close>

text \<open>
  C11. A started slave never measures anything: whatever rounds its two threads run, in which no
  thread hangs, it is not locked afterwards, its offset, delay and drift are what they were before it was
  started and no measurement has been reported.
\<close>

theorem ptp_never_measures:
  assumes "ptp_start mac t sockets s0 = (True, s)" "ptp_run es s = Done s'"
  shows "\<not> ps_locked s' \<and> ps_offsetNs s' = ps_offsetNs s0 \<and> ps_pathDelayNs s' = ps_pathDelayNs s0 \<and>
    ps_drift s' = ps_drift s0 \<and> ps_measurements s' = ps_measurements s0"
proof -
  have "\<not> ps_locked s \<and> ps_offsetNs s = ps_offsetNs s0 \<and> ps_pathDelayNs s = ps_pathDelayNs s0 \<and>
      ps_drift s = ps_drift s0 \<and> ps_measurements s = ps_measurements s0"
    using assms(1) by (auto simp: ptp_start_def Let_def split: if_splits option.splits)
  with ptp_run_unmeasured [OF assms(2)] show ?thesis by (auto simp: unmeasured_def)
qed

text \<open>
  C12. The regular exchange hangs the slave: a two-step Sync and the Follow_Up that belongs to it, both with correction field 0, make
  the receive thread lock the sync mutex a second time, in the computation it calls while it
  holds it; no announcement or other state prevents that.
\<close>

theorem ptp_exchange_blocks:
  assumes "parseHeader d1 = Some h1" "getMessageType h1 = Some MSync" "44 \<le> length d1"
      "ph_flagField h1 AND 0x0200 \<noteq> 0" "int (unat (ph_domainNumber h1)) = psc_domain (ps_config s)"
    and "parseHeader d2 = Some h2" "getMessageType h2 = Some MFollow_Up" "44 \<le> length d2"
      "ph_sequenceId h2 = ph_sequenceId h1" "int (unat (ph_domainNumber h2)) = psc_domain (ps_config s)"
    and "ph_correctionField h1 = 0" "ph_correctionField h2 = 0"
  shows "ptp_run (Receive (Some (d1, t2)) None now1 st1 # Receive None (Some d2) now2 st2 # es) s = Blocked"
proof -
  have "ptp_run [Receive (Some (d1, t2)) None now1 st1, Receive None (Some d2) now2 st2] s = Blocked"
    using sync_then_follow_up [OF assms(1-10)] assms(11,12) by simp
  then show ?thesis
    by (cases "receive_round (Some (d1, t2)) None now1 st1 s") (auto simp: and_then_Done split: if_splits elim: and_then.elims)
qed

text \<open>
  The answer to a Delay_Req is never accepted: the slave compares the sequence number of a
  Delay_Resp with the number it will use next, not with the one it sent, so a response to the
  message just sent changes nothing but the counter, and the slave goes on waiting.
\<close>

theorem ptp_delay_resp_ignored:
  assumes "length (ppi_clockIdentity (ps_selfPortId s)) = 8"
    and "sendDelayReq t3 True s = (True, s1, Some msg)" "parseHeader msg = Some hm"
    and "ph_sequenceId h = ph_sequenceId hm"
  shows "\<exists>c. handleDelayResp h data now s1 = Done (s1\<lparr>ps_delayRespCount := c\<rparr>) \<and> ps_waitingForDelayResp s1"
proof -
  have msg: "msg = delay_req_message (psc_domain (ps_config s)) (ps_selfPortId s) (ps_delayReqSequenceId s)"
    and s1: "ps_delayReqSequenceId s1 = ps_delayReqSequenceId s + 1" "ps_waitingForDelayResp s1"
    using assms(2) by (auto simp: sendDelayReq_def Let_def split: if_splits)
  have "ph_sequenceId hm = ps_delayReqSequenceId s"
    using delay_req_parses [OF assms(1), of "psc_domain (ps_config s)" "ps_delayReqSequenceId s" 0] assms(3) msg by auto
  then have "ph_sequenceId h \<noteq> ps_delayReqSequenceId s1" using assms(4) s1(1) by simp
  then have "handleDelayResp h data now s1 =
      Done (s1\<lparr>ps_delayRespCount := (if length data < 54 then ps_delayRespCount s1 else ps_delayRespCount s1 + 1)\<rparr>)"
    by (cases "length data < 54") (simp_all add: handleDelayResp_def Let_def)
  with s1(2) show ?thesis by blast
qed

text \<open>
  C13. The computation itself, run by a thread that holds no mutex, is right: if master and slave
  clock differ by \<open>off\<close> and the path takes \<open>delay\<close> both ways, the measured pair is exactly
  (\<open>off\<close>, \<open>delay\<close>); the published offset is the average of the last eight offsets, hence
  \<open>off\<close> itself when they agree, the published delay the least of the last eight delays, and
  no step of the arithmetic overflows for offsets and delays up to 2^59 ns.
\<close>

theorem ptp_measurement_exact:
  assumes "filters_ok s" "\<not> ps_waitingForFollowUp s" "\<not> ps_waitingForDelayResp s"
    and "ps_t1 s = timestamp_of_ns a" "a \<noteq> 0" "ps_t4 s = timestamp_of_ns b" "b \<noteq> 0" "ps_t3 s \<noteq> 0"
    and "sint (ps_t2 s) = sint a + delay + off" "sint b = sint (ps_t3 s) + delay - off"
    and "0 \<le> delay" "delay \<le> 2 ^ 59" "\<bar>off\<bar> \<le> 2 ^ 59"
  shows "\<exists>s'. calculateOffsetAndDelay [] now s = Done s' \<and> filters_ok s' \<and>
    ps_offsetNs s' = average (push_recent (ps_offsetHistory s) (ps_offsetIndex s) (ps_offsetCount s) off) \<and>
    ((\<forall>x \<in> set (take (ps_offsetCount s) (ps_offsetHistory s)). x = off) \<longrightarrow> ps_offsetNs s' = off) \<and>
    ps_pathDelayNs s' = Min (set (push_recent (ps_delayHistory s) (ps_delayIndex s) (ps_delayCount s) delay)) \<and>
    (ps_locked s' \<longleftrightarrow> 8 \<le> ps_good s') \<and>
    map (\<lambda>m. pm_offsetFromMasterNs (fst m)) (ps_measurements s') =
      map (\<lambda>m. pm_offsetFromMasterNs (fst m)) (ps_measurements s) @ (if ps_hasCallback s then [ps_offsetNs s'] else [])"
proof -
  let ?r = "push_recent (ps_offsetHistory s) (ps_offsetIndex s) (ps_offsetCount s) off"
  have oh: "ring_ok (ps_offsetHistory s) (ps_offsetIndex s) (ps_offsetCount s)" using assms(1) by (simp add: filters_ok_def)
  note p = ring_ok_push [OF oh assms(13)]
  have ne: "?r \<noteq> []" using p(3) by auto
  have "average ?r = off" if "\<forall>x \<in> set (take (ps_offsetCount s) (ps_offsetHistory s)). x = off"
    by (rule average_const [OF ne]) (use p(5) that in blast)
  with measurement_effect [OF assms, of now] show ?thesis by auto
qed

section \<open>Examples\<close>

definition example_announce :: ptp_announce where
  "example_announce = \<lparr>pa_masterPortId = \<lparr>ppi_clockIdentity = [], ppi_portNumber = 0\<rparr>, pa_grandmasterIdentity = [],
     pa_clockClass = 0, pa_clockAccuracy = 0, pa_variance = 0, pa_priority1 = 0, pa_priority2 = 0,
     pa_stepsRemoved = 0, pa_timeSource = 0, pa_logAnnounceInterval = 0, pa_lastReceived = 0\<rparr>"

definition example_slave :: ptp_slave where
  "example_slave = ptp_new example_announce \<lparr>psc_domain = 0, psc_interfaceName = ''en0'', psc_delayReqIntervalMs = 1000,
     psc_announceTimeoutMultiplier = 3, psc_announceIntervalMs = 1000, psc_twoStepOnly = True\<rparr>"

definition started_slave :: ptp_slave where
  "started_slave = snd (ptp_start (Some [1, 2, 3, 4, 5, 6]) 0 (Some (7, 8)) example_slave)"

definition ptp_bytes :: "u8 \<Rightarrow> u8 \<Rightarrow> u8 list" where
  "ptp_bytes t f = [t, 2, 0, 44, 0, 0, f] @ replicate 37 0"

lemma length_ptp_bytes [simp]: "length (ptp_bytes t f) = 44"
  by (simp add: ptp_bytes_def)

lemma parse_ptp_bytes:
  "\<exists>h. parseHeader (ptp_bytes t f) = Some h \<and> ph_transportAndType h = t \<and> ph_domainNumber h = 0 \<and>
     ph_sequenceId h = 0 \<and> ph_correctionField h = 0 \<and> ph_flagField h = push_bit 8 (ucast f)"
  by (simp add: parseHeader_def ptp_bytes_def be16_at_def shift_in_def numeral_eq_Suc upt_rec)

lemma ptp_never_measures_witness:
  "\<exists>s'. ptp_run [Receive (Some (ptp_bytes 0 2, 5)) None 0 0, Request 9 True] started_slave = Done s' \<and>
     \<not> ps_locked s' \<and> ps_offsetNs s' = 0 \<and> ps_measurements s' = []"
proof -
  obtain h where h: "parseHeader (ptp_bytes 0 2) = Some h" "ph_transportAndType h = 0" "ph_domainNumber h = 0"
    "ph_flagField h = push_bit 8 2" using parse_ptp_bytes [of 0 2] by auto
  have st: "ptp_start (Some [1, 2, 3, 4, 5, 6]) 0 (Some (7, 8)) example_slave = (True, started_slave)"
    by (simp add: started_slave_def ptp_start_def example_slave_def ptp_new_def Let_def)
  have "\<exists>s1. receive_round (Some (ptp_bytes 0 2, 5)) None 0 0 started_slave = Done s1"
    using h by (simp add: receive_round_def on_event_message_def getMessageType_def message_type_of_def handleSync_def
        announce_timeout_def Let_def started_slave_def ptp_start_def example_slave_def ptp_new_def)
  then obtain s' where "ptp_run [Receive (Some (ptp_bytes 0 2, 5)) None 0 0, Request 9 True] started_slave = Done s'" by auto
  with ptp_never_measures [OF st this] show ?thesis by (simp add: example_slave_def ptp_new_def)
qed

lemma ptp_exchange_blocks_witness:
  "ptp_run [Receive (Some (ptp_bytes 0 2, 5)) None 0 0, Receive None (Some (ptp_bytes 8 0)) 0 0] started_slave = Blocked"
proof -
  obtain h1 where h1: "parseHeader (ptp_bytes 0 2) = Some h1" "ph_transportAndType h1 = 0" "ph_domainNumber h1 = 0"
    "ph_flagField h1 = push_bit 8 2" "ph_sequenceId h1 = 0" "ph_correctionField h1 = 0" using parse_ptp_bytes [of 0 2] by auto
  obtain h2 where h2: "parseHeader (ptp_bytes 8 0) = Some h2" "ph_transportAndType h2 = 8" "ph_domainNumber h2 = 0"
    "ph_sequenceId h2 = 0" "ph_correctionField h2 = 0" using parse_ptp_bytes [of 8 0] by auto
  have d: "psc_domain (ps_config started_slave) = 0"
    by (simp add: started_slave_def ptp_start_def example_slave_def ptp_new_def Let_def)
  show ?thesis
    by (rule ptp_exchange_blocks [OF h1(1) _ _ _ _ h2(1)])
      (use h1 h2 d in \<open>simp_all add: getMessageType_def message_type_of_def\<close>)
qed

lemma ptp_delay_resp_ignored_witness:
  "\<exists>s1 msg hm c. sendDelayReq 9 True started_slave = (True, s1, Some msg) \<and> parseHeader msg = Some hm \<and>
     handleDelayResp hm (replicate 54 0) 0 s1 = Done (s1\<lparr>ps_delayRespCount := c\<rparr>) \<and> ps_waitingForDelayResp s1"
proof -
  have id: "length (ppi_clockIdentity (ps_selfPortId started_slave)) = 8"
    by (simp add: started_slave_def ptp_start_def fromMAC_def example_slave_def ptp_new_def Let_def)
  obtain s1 msg where s: "sendDelayReq 9 True started_slave = (True, s1, Some msg)"
    by (simp add: sendDelayReq_def started_slave_def ptp_start_def example_slave_def ptp_new_def Let_def)
  then have "msg = delay_req_message (psc_domain (ps_config started_slave)) (ps_selfPortId started_slave) (ps_delayReqSequenceId started_slave)"
    by (auto simp: sendDelayReq_def Let_def split: if_splits)
  then obtain hm where hm: "parseHeader msg = Some hm" using delay_req_parses [OF id] by blast
  from ptp_delay_resp_ignored [OF id s hm refl, of "replicate 54 0" 0] s hm show ?thesis by blast
qed

definition measuring_slave :: ptp_slave where
  "measuring_slave = example_slave\<lparr>ps_t1 := timestamp_of_ns 1000, ps_t2 := 1400, ps_t3 := 5000, ps_t4 := timestamp_of_ns 5200\<rparr>"

lemma ptp_measurement_exact_witness:
  "\<exists>s'. calculateOffsetAndDelay [] 0 measuring_slave = Done s' \<and> ps_offsetNs s' = 100 \<and> ps_pathDelayNs s' = 300"
proof -
  have "filters_ok measuring_slave"
    by (simp add: filters_ok_def ring_ok_def measuring_slave_def example_slave_def ptp_new_def)
  moreover have "push_recent (replicate 8 0) 0 0 x = [x]" for x by (simp add: push_recent_def numeral_eq_Suc)
  ultimately show ?thesis using ptp_measurement_exact [of measuring_slave 1000 5200 300 100 0]
    by (auto simp: measuring_slave_def example_slave_def ptp_new_def)
qed

lemma ptp_lock_hysteresis_witness:
  "\<exists>s'. lock_run (replicate 8 5) example_slave = Done s' \<and> ps_locked s'"
proof -
  have ok: "lock_ok example_slave" by (simp add: lock_ok_def example_slave_def ptp_new_def)
  obtain s' where s': "lock_run (replicate 8 5) example_slave = Done s'"
    using lock_run_good [OF ok, of "replicate 8 5"] by auto
  have "ps_good example_slave = 0" by (simp add: example_slave_def ptp_new_def)
  with ptp_lock_hysteresis [OF ok s'] s' show ?thesis by simp
qed

definition announce_bytes :: "u8 \<Rightarrow> u8 list" where
  "announce_bytes p = replicate 47 0 @ [p] @ replicate 16 0"

lemma ptp_master_is_best_witness:
  "\<forall>h. \<exists>s'. announce_run [(h, announce_bytes 128, 0), (h, announce_bytes 100, 1), (h, announce_bytes 200, 2)] example_slave = Done s' \<and>
     pa_priority1 (ps_currentMaster s') = 100"
proof
  fix h :: ptp_header
  let ?ms = "[(h, announce_bytes 128, 0), (h, announce_bytes 100, 1), (h, announce_bytes 200, 2)]"
  have p: "pa_priority1 (parse_announce h (announce_bytes p) t) = p" "pa_clockClass (parse_announce h (announce_bytes p) t) = 0"
    "pa_priority2 (parse_announce h (announce_bytes p) t) = 0" for p t
    by (simp_all add: parse_announce_def announce_bytes_def nth_append)
  have "\<not> ps_hasMaster example_slave" by (simp add: example_slave_def ptp_new_def)
  from ptp_master_is_best [OF _ _ this, of ?ms] obtain s' best where
    b: "announce_run ?ms example_slave = Done s'" "master_of s' best" "best \<in> set (map announced ?ms)"
    "\<forall>a \<in> set (map announced ?ms). announce_key best \<le> announce_key a"
    by (auto simp: announce_bytes_def)
  have key: "announce_key (parse_announce h (announce_bytes p) t) = unat p * 65536" for p t
    by (simp add: announce_key_def p)
  have "announced (h, announce_bytes 100, 1) \<in> set (map announced ?ms)" by simp
  with b(4) have "announce_key best \<le> announce_key (announced (h, announce_bytes 100, 1))" by blast
  then have le: "announce_key best \<le> 100 * 65536" by (simp add: announced_def key)
  have "best = announced (h, announce_bytes 100, 1)"
    using b(3) le by (auto simp: announced_def key)
  moreover have "pa_priority1 (ps_currentMaster s') = pa_priority1 best"
    using b(2) unfolding master_of_def same_master_def by (cases "ps_currentMaster s'"; cases best) simp
  ultimately show "\<exists>s'. announce_run ?ms example_slave = Done s' \<and> pa_priority1 (ps_currentMaster s') = 100"
    using b(1) by (auto simp: announced_def p)
qed

end
