(* ===== verification/Ptp_Interface.thy ===== *)
theory Ptp_Interface
  imports Ptp_Sync
begin

text \<open>
  \<open>NetworkEngine/PTP/PTPDInterface.cpp\<close>: the bridge between the slave and the clocks, with its
  fallback to a stub when the slave cannot open its sockets.
\<close>

record ptpd_interface =
  pi_masterOffset :: int                         \<comment> \<open>\<open>PTPState\<close>\<close>
  pi_drift :: rat
  pi_isLocked :: bool
  pi_clockClass :: int
  pi_clockAccuracy :: int
  pi_offsetNs :: u64
  pi_diagnostics :: ptp_diagnostics
  pi_running :: bool
  pi_stubMode :: bool
  pi_domain :: int
  pi_interfaceName :: string
  pi_slave :: "ptp_slave option"

definition diagnostics_default :: ptp_diagnostics where
  "diagnostics_default = \<lparr>pd_isConnected = False, pd_isLocked = False, pd_masterClockID = [], pd_clockClass = 248,
     pd_clockAccuracy = 254, pd_offsetNs = 0, pd_currentOffset = 0, pd_frequencyOffset = 0, pd_currentDomain = 0,
     pd_sync = 0, pd_followUp = 0, pd_delayReq = 0, pd_delayResp = 0, pd_announce = 0, pd_domainMismatch = 0\<rparr>"

definition ptpd_new :: "bool \<Rightarrow> ptpd_interface" where
  "ptpd_new useStub = \<lparr>pi_masterOffset = 0, pi_drift = 0, pi_isLocked = False, pi_clockClass = 248,
     pi_clockAccuracy = 0xFE, pi_offsetNs = 0, pi_diagnostics = diagnostics_default, pi_running = False,
     pi_stubMode = useStub, pi_domain = 0, pi_interfaceName = [], pi_slave = None\<rparr>"

definition setDomain :: "int \<Rightarrow> ptpd_interface \<Rightarrow> ptpd_interface" where
  "setDomain domain s = s\<lparr>pi_domain := domain\<rparr>"

definition slave_config :: "int \<Rightarrow> string \<Rightarrow> ptp_slave_config" where
  "slave_config domain interfaceName = \<lparr>psc_domain = domain, psc_interfaceName = interfaceName,
     psc_delayReqIntervalMs = 1000, psc_announceTimeoutMultiplier = 3, psc_announceIntervalMs = 1000,
     psc_twoStepOnly = True\<rparr>"

text \<open>What the slave constructor leaves uninitialised is \<open>garbage\<close>.\<close>

definition ptpd_init :: "ptp_announce \<Rightarrow> string \<Rightarrow> ptpd_interface \<Rightarrow> bool \<times> ptpd_interface" where
  "ptpd_init garbage interfaceName s =
     (let s1 = s\<lparr>pi_interfaceName := interfaceName\<rparr>
      in if pi_stubMode s1 then (True, s1)
         else (True, s1\<lparr>pi_slave :=
                Some (setMeasurementCallback True (ptp_new garbage (slave_config (pi_domain s1) interfaceName)))\<rparr>))"

text \<open>What the system answers when a slave starts: the address of the interface, the time, the sockets.\<close>

record slave_answers =
  sa_mac :: "u8 list option"
  sa_now :: u64
  sa_sockets :: "(int \<times> int) option"

definition ptpd_stub :: "string \<Rightarrow> ptpd_interface \<Rightarrow> ptpd_interface" where
  "ptpd_stub masterID s =
     s\<lparr>pi_isLocked := False, pi_clockClass := 255,
       pi_diagnostics := (pi_diagnostics s)\<lparr>pd_isLocked := False, pd_masterClockID := masterID\<rparr>\<rparr>"

definition ptpd_start :: "slave_answers \<Rightarrow> ptpd_interface \<Rightarrow> ptpd_interface" where
  "ptpd_start a s =
     (if pi_running s then s
      else
        let s1 = s\<lparr>pi_running := True, pi_diagnostics := (pi_diagnostics s)\<lparr>pd_isConnected := True\<rparr>\<rparr>
        in if pi_stubMode s1 then ptpd_stub ''STUB-LOCAL-CLOCK (NOT SYNCHRONIZED)'' s1
           else case pi_slave s1 of
               None \<Rightarrow> s1
             | Some slave \<Rightarrow>
                 (case ptp_start (sa_mac a) (sa_now a) (sa_sockets a) slave of
                    (started, slave1) \<Rightarrow>
                      let s2 = s1\<lparr>pi_slave := Some slave1\<rparr>
                      in if started then s2
                         else ptpd_stub ''STUB-LOCAL-CLOCK (PTP START FAILED)'' (s2\<lparr>pi_stubMode := True\<rparr>)))"

definition ptpd_stop :: "ptpd_interface \<Rightarrow> ptpd_interface" where
  "ptpd_stop s =
     (if \<not> pi_running s then s
      else s\<lparr>pi_running := False, pi_slave := map_option ptp_stop (pi_slave s), pi_isLocked := False,
             pi_diagnostics := (pi_diagnostics s)\<lparr>pd_isConnected := False, pd_isLocked := False\<rparr>\<rparr>)"

definition getDiagnostics :: "ptpd_interface \<Rightarrow> ptpd_interface" where
  "getDiagnostics s =
     (case pi_slave s of
        None \<Rightarrow> s
      | Some slave \<Rightarrow>
          if pi_stubMode s then s else s\<lparr>pi_diagnostics := updateDiagnostics slave (pi_diagnostics s)\<rparr>)"

text \<open>\<open>slaveLocked\<close> is what \<open>ptpSlave_->isLocked()\<close> says when the callback runs.\<close>

definition onPTPMeasurement :: "ptp_measurement \<Rightarrow> bool \<Rightarrow> ptpd_interface \<Rightarrow> ptpd_interface run" where
  "onPTPMeasurement m slaveLocked s =
     and_then (i64 \<bar>pm_offsetFromMasterNs m\<bar>) (\<lambda>magnitude.
       Done (s\<lparr>pi_masterOffset := pm_offsetFromMasterNs m, pi_drift := pm_frequencyDriftPpb m,
         pi_offsetNs := of_int magnitude, pi_clockClass := int (unat (pm_clockClass m)),
         pi_clockAccuracy := int (unat (pm_clockAccuracy m)), pi_isLocked := slaveLocked,
         pi_diagnostics := (pi_diagnostics s)\<lparr>pd_isLocked := slaveLocked,
           pd_currentOffset := f64_round (of_int (pm_offsetFromMasterNs m)),
           pd_offsetNs := pm_offsetFromMasterNs m, pd_frequencyOffset := f64_round (pm_frequencyDriftPpb m / 1000),
           pd_masterClockID := clock_id_toString (pm_grandmasterID m),
           pd_clockClass := int (unat (pm_clockClass m)), pd_clockAccuracy := int (unat (pm_clockAccuracy m))\<rparr>\<rparr>))"

fun deliver :: "(ptp_measurement \<times> bool) list \<Rightarrow> ptpd_interface \<Rightarrow> ptpd_interface run" where
  "deliver [] s = Done s"
| "deliver ((m, slaveLocked) # ms) s =
     and_then (if pm_valid m then onPTPMeasurement m slaveLocked s else Done s) (deliver ms)"

text \<open>A round of one of the threads of a running slave, with the measurements it reports.\<close>

definition ptpd_round :: "ptp_event \<Rightarrow> ptpd_interface \<Rightarrow> ptpd_interface run" where
  "ptpd_round e s =
     (case pi_slave s of
        None \<Rightarrow> Done s
      | Some slave \<Rightarrow>
          if \<not> ps_running slave then Done s
          else and_then (ptp_step e slave) (\<lambda>slave1.
            deliver (drop (length (ps_measurements slave)) (ps_measurements slave1)) (s\<lparr>pi_slave := Some slave1\<rparr>)))"

section \<open>Nothing is measured\<close>

text \<open>Neither the interface nor its slave is locked, and no offset was published.\<close>

definition ptpd_idle :: "ptpd_interface \<Rightarrow> bool" where
  "ptpd_idle s \<longleftrightarrow> \<not> pi_isLocked s \<and> pi_masterOffset s = 0 \<and>
     (case pi_slave s of None \<Rightarrow> True | Some slave \<Rightarrow> \<not> ps_locked slave)"

lemma ptp_step_unmeasured: "ptp_step e s = Done s' \<Longrightarrow> unmeasured s s'"
  using ptp_run_unmeasured [of "[e]" s s'] by simp

lemma ptpd_new_idle: "ptpd_idle (setDomain d (ptpd_new b))"
  by (simp add: ptpd_idle_def ptpd_new_def setDomain_def)

lemma ptpd_init_idle: "ptpd_idle s \<Longrightarrow> ptpd_idle (snd (ptpd_init g name s))"
  by (simp add: ptpd_idle_def ptpd_init_def Let_def ptp_new_def setMeasurementCallback_def)

lemma ptpd_start_idle: "ptpd_idle s \<Longrightarrow> ptpd_idle (ptpd_start a s)"
  by (auto simp: ptpd_idle_def ptpd_start_def ptpd_stub_def ptp_start_def Let_def split: option.splits)

lemma ptpd_stop_idle: "ptpd_idle s \<Longrightarrow> ptpd_idle (ptpd_stop s)"
  by (auto simp: ptpd_idle_def ptpd_stop_def ptp_stop_def split: option.splits)

lemma ptpd_round_idle: "ptpd_idle s \<Longrightarrow> ptpd_round e s = Done s' \<Longrightarrow> ptpd_idle s'"
  by (auto simp: ptpd_idle_def ptpd_round_def and_then_Done unmeasured_def split: option.splits if_splits
      dest!: ptp_step_unmeasured)

end
