(* ===== verification/Double_Precision.thy ===== *)
theory Double_Precision
  imports Audio_Codec
begin

text \<open>
  The error of double precision rounding, as the clock code uses it: a relative error of \<open>2^-53\<close> for
  every operation, integers up to \<open>2^53\<close> exact, monotone bounds by integers.
\<close>

lemma round_half_even_close: "\<bar>of_int (round_half_even x) - x\<bar> \<le> 1 / 2"
  using floor_correct [of x] by (auto simp: round_half_even_def Let_def abs_le_iff)

lemma f64_error: "\<bar>f64_round x - x\<bar> \<le> \<bar>x\<bar> / 2 ^ 53 + 1 / 2 ^ 1075"
proof (cases "x = 0")
  case True
  then show ?thesis by (simp add: f64_round_def)
next
  case False
  define e where "e = max (binade x - 52) (- 1074)"
  have p: "0 < pow2 e" by simp
  have "f64_round x - x = (of_int (round_half_even (x / pow2 e)) - x / pow2 e) * pow2 e"
    using False by (simp add: f64_round_def Let_def e_def left_diff_distrib)
  then have "\<bar>f64_round x - x\<bar> \<le> 1 / 2 * pow2 e"
    using round_half_even_close [of "x / pow2 e"] by (simp add: abs_mult mult_right_mono less_imp_le)
  also have "\<dots> \<le> \<bar>x\<bar> / 2 ^ 53 + 1 / 2 ^ 1075"
  proof (cases "- 1074 \<le> binade x - 52")
    case True
    have "pow2 (binade x) = pow2 (binade x - 52) * 2 ^ 52" using pow2_add_nat [of "binade x - 52" 52] by simp
    then have "pow2 e * 2 ^ 52 \<le> \<bar>x\<bar>" using binade_bounds(1) [OF False] True by (simp add: e_def)
    then have "1 / 2 * pow2 e \<le> \<bar>x\<bar> / 2 ^ 53" by simp
    also have "\<dots> \<le> \<bar>x\<bar> / 2 ^ 53 + 1 / 2 ^ 1075" by simp
    finally show ?thesis .
  next
    case False
    then have "pow2 e = 1 / 2 ^ 1074" by (simp add: e_def pow2_def)
    then have "1 / 2 * pow2 e = 1 / 2 ^ 1075" by (simp add: power_Suc [of 2 1074, symmetric] del: power_Suc)
    moreover have "0 \<le> \<bar>x\<bar> / 2 ^ 53" by simp
    ultimately show ?thesis by linarith
  qed
  finally show ?thesis .
qed

lemma f64_exact:
  assumes "\<bar>n\<bar> \<le> 2 ^ 53"
  shows "f64_round (of_int n) = of_int n"
proof (cases "n = 0")
  case True
  then show ?thesis by (simp add: f64_round_def)
next
  case False
  define x :: rat where "x = of_int n"
  have nz: "x \<noteq> 0" using False by (simp add: x_def)
  have a: "\<bar>x\<bar> \<le> 2 ^ 53" using assms unfolding x_def
    by (metis of_int_abs of_int_le_iff of_int_numeral of_int_power)
  define e where "e = max (binade x - 52) (- 1074)"
  have "binade x \<le> 53"
    by (rule binade_le [OF nz]) (use a in \<open>simp add: pow2_def\<close>)
  show ?thesis
  proof (cases "e \<le> 0")
    case True
    have "pow2 e * 2 ^ nat (- e) = 1" using pow2_add_nat [of e "nat (- e)"] True by simp
    then have "x / pow2 e = of_int (n * 2 ^ nat (- e))" by (simp add: x_def field_simps)
    moreover have "round_half_even (of_int m) = m" for m by (simp add: round_half_even_def)
    ultimately have "f64_round x = of_int (n * 2 ^ nat (- e)) * pow2 e"
      using nz by (simp only: f64_round_def Let_def e_def if_False)
    then show ?thesis using \<open>pow2 e * 2 ^ nat (- e) = 1\<close> by (simp add: x_def mult.assoc mult.commute)
  next
    case False
    then have "binade x = 53" using \<open>binade x \<le> 53\<close> by (simp add: e_def)
    then have "\<bar>x\<bar> = 2 ^ 53" using binade_bounds(1) [OF nz] a by (simp add: pow2_def)
    then have "x = of_int (2 * (sgn n * 2 ^ 52))" "e = 1" using \<open>binade x = 53\<close>
      by (auto simp: x_def e_def abs_if sgn_if split: if_splits)
    then have q: "x / pow2 e = of_int (sgn n * 2 ^ 52)" "of_int (sgn n * 2 ^ 52) * pow2 e = x" by (simp_all add: pow2_def)
    have "round_half_even (of_int m) = m" for m by (simp add: round_half_even_def)
    then have "f64_round x = of_int (sgn n * 2 ^ 52) * pow2 e"
      using nz q(1) by (simp only: f64_round_def Let_def e_def if_False)
    then show ?thesis using q(2) by (simp add: x_def)
  qed
qed

lemma f64_of_nat: "n \<le> 2 ^ 53 \<Longrightarrow> f64_round (of_nat n) = of_nat n"
  using f64_exact [of "int n"] by simp

lemma f64_0 [simp]: "f64_round 0 = 0"
  by (simp add: f64_round_def)

lemma f64_1 [simp]: "f64_round 1 = 1"
  using f64_exact [of 1] by simp

text \<open>Rounding stays on its side of an integer.\<close>

lemma unit_grid: "e \<le> 0 \<Longrightarrow> \<exists>k. of_int n = of_int k * pow2 e"
proof -
  assume "e \<le> 0"
  then have "pow2 e * 2 ^ nat (- e) = 1" using pow2_add_nat [of e "nat (- e)"] by simp
  then have "of_int n = of_int (n * 2 ^ nat (- e)) * pow2 e" by (simp add: mult.assoc mult.commute)
  then show ?thesis by blast
qed

lemma f64_large:
  assumes "x \<noteq> 0" "0 < max (binade x - 52) (- 1074)"
  shows "0 < x \<Longrightarrow> 2 ^ 53 \<le> f64_round x" "x < 0 \<Longrightarrow> f64_round x \<le> - (2 ^ 53)"
proof -
  define e where "e = binade x - 52"
  have m: "max (binade x - 52) (- 1074) = e" "0 < e" using assms(2) by (simp_all add: e_def)
  have r: "f64_round x = of_int (round_half_even (x / pow2 e)) * pow2 e"
    using assms(1) m by (simp add: f64_round_def Let_def)
  have p: "0 < pow2 e" "2 \<le> pow2 e" using pow2_mono [of 1 e] m(2) by (simp_all add: pow2_def)
  have "pow2 (binade x) = 2 ^ 52 * pow2 e" using pow2_add_nat [of e 52] by (simp add: e_def)
  then have b: "2 ^ 52 * pow2 e \<le> \<bar>x\<bar>" using binade_bounds(1) [OF assms(1)] by simp
  show "2 ^ 53 \<le> f64_round x" if "0 < x"
  proof -
    have "of_int (2 ^ 52) \<le> x / pow2 e" using b that p(1) by (simp add: pos_le_divide_eq)
    then have "2 ^ 52 \<le> round_half_even (x / pow2 e)" by (rule round_half_even_bounds(2))
    then have "(2 ^ 52 :: rat) \<le> of_int (round_half_even (x / pow2 e))"
      by (metis of_int_le_iff of_int_numeral of_int_power)
    then have "(2 ^ 52 :: rat) * 2 \<le> f64_round x" unfolding r using p(2) by (intro mult_mono) simp_all
    then show ?thesis by simp
  qed
  show "f64_round x \<le> - (2 ^ 53)" if "x < 0"
  proof -
    have "x / pow2 e \<le> of_int (- (2 ^ 52))" using b that p(1) by (simp add: pos_divide_le_eq)
    then have "round_half_even (x / pow2 e) \<le> - (2 ^ 52)" by (rule round_half_even_bounds(1))
    then have "of_int (round_half_even (x / pow2 e)) \<le> (- (2 ^ 52) :: rat)"
      by (metis of_int_le_iff of_int_minus of_int_numeral of_int_power)
    then have "(2 ^ 52 :: rat) * 2 \<le> - of_int (round_half_even (x / pow2 e)) * pow2 e" using p(2) by (intro mult_mono) simp_all
    then show ?thesis unfolding r by simp
  qed
qed

lemma f64_between:
  assumes "\<bar>n\<bar> \<le> 2 ^ 53"
  shows "x \<le> of_int n \<Longrightarrow> f64_round x \<le> of_int n" "of_int n \<le> x \<Longrightarrow> of_int n \<le> f64_round x"
proof -
  have a: "\<bar>of_int n :: rat\<bar> \<le> 2 ^ 53" using assms
    by (metis of_int_abs of_int_le_iff of_int_numeral of_int_power)
  have "(x \<le> of_int n \<longrightarrow> f64_round x \<le> of_int n) \<and> (of_int n \<le> x \<longrightarrow> of_int n \<le> f64_round x)"
  proof (cases "x = 0")
    case True
    then show ?thesis by simp
  next
    case nz: False
    define e where "e = max (binade x - 52) (- 1074)"
    have r: "f64_round x = of_int (round_half_even (x / pow2 e)) * pow2 e"
      using nz by (simp add: f64_round_def Let_def e_def)
    show ?thesis
    proof (cases "e \<le> 0")
      case True
      then obtain k where k: "of_int n = of_int k * pow2 e" using unit_grid by blast
      have p: "0 < pow2 e" by simp
      have "x \<le> of_int n \<longleftrightarrow> x / pow2 e \<le> of_int k" "of_int n \<le> x \<longleftrightarrow> of_int k \<le> x / pow2 e"
        unfolding k using p by (simp_all only: pos_divide_le_eq pos_le_divide_eq)
      moreover have "of_int (round_half_even (x / pow2 e)) * pow2 e \<le> of_int k * pow2 e" if "x / pow2 e \<le> of_int k"
        using round_half_even_bounds(1) [OF that] p by simp
      moreover have "of_int k * pow2 e \<le> of_int (round_half_even (x / pow2 e)) * pow2 e" if "of_int k \<le> x / pow2 e"
        using round_half_even_bounds(2) [OF that] p by simp
      ultimately show ?thesis unfolding r k by blast
    next
      case False
      then have e: "0 < max (binade x - 52) (- 1074)" by (simp add: e_def)
      show ?thesis
      proof (cases "0 < x")
        case True
        have "binade x > 52" using e by simp
        then have "2 ^ 53 \<le> x" using binade_bounds(1) [OF nz] pow2_mono [of 53 "binade x"] True by (simp add: pow2_def)
        then show ?thesis
          using f64_large(1) [OF nz e True] a f64_exact [OF assms] by (cases "x = of_int n") (auto simp: abs_le_iff)
      next
        case False
        have "binade x > 52" using e by simp
        then have "x \<le> - (2 ^ 53)" using binade_bounds(1) [OF nz] pow2_mono [of 53 "binade x"] False by (simp add: pow2_def)
        then show ?thesis
          using f64_large(2) [OF nz e] False nz a f64_exact [OF assms] by (cases "x = of_int n") (auto simp: abs_le_iff)
      qed
    qed
  qed
  then show "x \<le> of_int n \<Longrightarrow> f64_round x \<le> of_int n" "of_int n \<le> x \<Longrightarrow> of_int n \<le> f64_round x" by blast+
qed

lemma f64_nonneg: "0 \<le> x \<Longrightarrow> 0 \<le> f64_round x"
  using f64_between(2) [of 0 x] by simp

text \<open>The relative error of values that are not tiny.\<close>

lemma f64_close:
  assumes "1 / 10 ^ 20 \<le> x"
  shows "x - x / 10 ^ 15 \<le> f64_round x" "f64_round x \<le> x + x / 10 ^ 15"
proof -
  have "\<bar>x\<bar> = x" using assms by (intro abs_of_nonneg) (rule order_trans [rotated], assumption, simp)
  then have e: "\<bar>f64_round x - x\<bar> \<le> x / 2 ^ 53 + 1 / 2 ^ 1075" using f64_error [of x] by simp
  have "1 / 2 ^ 1075 \<le> (1 / 10 ^ 20) / (10 ^ 16 :: rat)" by simp
  also have "\<dots> \<le> x / 10 ^ 16" by (rule divide_right_mono [OF assms]) simp
  finally have t: "1 / 2 ^ 1075 \<le> x / 10 ^ 16" .
  have "x / 2 ^ 53 + x / 10 ^ 16 \<le> x / 10 ^ 15" using assms by (simp add: field_simps)
  with t have "x / 2 ^ 53 + 1 / 2 ^ 1075 \<le> x / 10 ^ 15" by linarith
  with e have "\<bar>f64_round x - x\<bar> \<le> x / 10 ^ 15" by (rule order_trans)
  then show "x - x / 10 ^ 15 \<le> f64_round x" "f64_round x \<le> x + x / 10 ^ 15" unfolding abs_le_iff by linarith+
qed

section \<open>Double operations\<close>

definition d_add :: "rat \<Rightarrow> rat \<Rightarrow> rat" where "d_add x y = f64_round (x + y)"
definition d_sub :: "rat \<Rightarrow> rat \<Rightarrow> rat" where "d_sub x y = f64_round (x - y)"
definition d_mult :: "rat \<Rightarrow> rat \<Rightarrow> rat" where "d_mult x y = f64_round (x * y)"
definition d_div :: "rat \<Rightarrow> rat \<Rightarrow> rat" where "d_div x y = f64_round (x / y)"

definition d_clamp :: "rat \<Rightarrow> rat \<Rightarrow> rat \<Rightarrow> rat" where
  "d_clamp v lo hi = (if v < lo then lo else if hi < v then hi else v)"

definition d_of_int :: "int \<Rightarrow> rat" where "d_of_int n = f64_round (of_int n)"

lemma d_clamp_bounds: "lo \<le> hi \<Longrightarrow> lo \<le> d_clamp v lo hi \<and> d_clamp v lo hi \<le> hi"
  by (simp add: d_clamp_def)

end
