(* ===== verification/Phase_Locked_Loop.thy ===== *)
theory Phase_Locked_Loop
  imports Double_Precision Ptp_Slave
begin

text \<open>
  \<open>NetworkEngine/PTP/PhaseLockedLoop\<close>: the loop that turns pairs of local and PTP time into a
  frequency correction. Doubles are rationals, rounded after every operation; no value the loop
  computes from its default settings overflows them. A signed 64-bit difference that does not
  fit is undefined (\<open>Overflow\<close>).
\<close>

section \<open>The loop\<close>

record phase_locked_loop =
  pll_bandwidth :: rat
  pll_damping :: rat
  pll_proportionalGain :: rat
  pll_integralGain :: rat
  pll_accumulator :: rat
  pll_correction :: rat
  pll_lastPhaseError :: rat
  pll_lastLocalTime :: u64
  pll_lastRemoteTime :: u64
  pll_lastSampleCount :: u64
  pll_lastSampleRate :: u32
  pll_lockCount :: int
  pll_lockThreshold :: int

text \<open>\<open>M_PI\<close> is the double nearest to \<open>\<pi>\<close>.\<close>

definition m_pi :: rat where "m_pi = 884279719003555 / 281474976710656"

definition pll_new :: "rat \<Rightarrow> rat \<Rightarrow> phase_locked_loop" where
  "pll_new bandwidth damping =
     (let omega_n = d_mult (d_mult 2 m_pi) bandwidth;
          omega_n_squared = d_mult omega_n omega_n
      in \<lparr>pll_bandwidth = bandwidth, pll_damping = damping,
          pll_proportionalGain = d_mult (d_mult 2 damping) omega_n, pll_integralGain = omega_n_squared,
          pll_accumulator = 0, pll_correction = 0, pll_lastPhaseError = 0, pll_lastLocalTime = 0,
          pll_lastRemoteTime = 0, pll_lastSampleCount = 0, pll_lastSampleRate = 48000, pll_lockCount = 0,
          pll_lockThreshold = 10\<rparr>)"

definition max_correction :: rat where "max_correction = f64_round (1 / 1000)"
definition min_correction :: rat where "min_correction = - f64_round (1 / 1000)"
definition nano :: rat where "nano = f64_round (1 / 1000000000)"
definition smoothing_factor :: rat where "smoothing_factor = f64_round (1 / 10)"

definition pll_delta :: "u64 \<Rightarrow> phase_locked_loop \<Rightarrow> rat" where
  "pll_delta localTime p = d_mult (f64_round (of_nat (unat (localTime - pll_lastLocalTime p)))) nano"

definition pll_reference :: "u64 \<Rightarrow> u64 \<Rightarrow> u64 \<Rightarrow> u32 \<Rightarrow> phase_locked_loop \<Rightarrow> phase_locked_loop" where
  "pll_reference localTime remoteTime sampleCount sampleRate p =
     p\<lparr>pll_lastLocalTime := localTime, pll_lastRemoteTime := remoteTime, pll_lastSampleCount := sampleCount,
       pll_lastSampleRate := sampleRate\<rparr>"

definition pll_count :: "rat \<Rightarrow> int \<Rightarrow> int" where
  "pll_count phaseError lockCount =
     (if \<bar>phaseError\<bar> < 1000000 then (if lockCount < 100 then lockCount + 1 else lockCount)
      else if lockCount > 0 then max 0 (lockCount - 2) else lockCount)"

definition pll_filter :: "rat \<Rightarrow> rat \<Rightarrow> phase_locked_loop \<Rightarrow> phase_locked_loop" where
  "pll_filter phaseError deltaTime p =
     (let normalizedError = d_mult phaseError nano;
          proportionalTerm = d_mult (pll_proportionalGain p) normalizedError;
          accumulator = d_clamp (d_add (pll_accumulator p) (d_mult normalizedError deltaTime)) (- 1) 1;
          integralTerm = d_mult (pll_integralGain p) accumulator;
          newCorrection = d_add proportionalTerm integralTerm;
          correction = d_clamp
            (d_add (d_mult (pll_correction p) (d_sub 1 smoothing_factor)) (d_mult newCorrection smoothing_factor))
            min_correction max_correction
      in p\<lparr>pll_accumulator := accumulator, pll_correction := correction\<rparr>)"

definition pll_update :: "u64 \<Rightarrow> u64 \<Rightarrow> u64 \<Rightarrow> u32 \<Rightarrow> phase_locked_loop \<Rightarrow> phase_locked_loop run" where
  "pll_update localTime remoteTime sampleCount sampleRate p =
     (if pll_lastLocalTime p = 0 then Done (pll_reference localTime remoteTime sampleCount sampleRate p)
      else and_then (i64 (sint remoteTime - sint localTime)) (\<lambda>difference.
        let phaseError = d_of_int difference;
            deltaTime = pll_delta localTime p
        in if deltaTime \<le> 0 \<or> deltaTime > 10 then Done p
           else
             let p1 = pll_reference localTime remoteTime sampleCount sampleRate (pll_filter phaseError deltaTime p)
             in Done (p1\<lparr>pll_lockCount := pll_count phaseError (pll_lockCount p1), pll_lastPhaseError := phaseError\<rparr>)))"

definition pll_reset :: "phase_locked_loop \<Rightarrow> phase_locked_loop" where
  "pll_reset p = p\<lparr>pll_accumulator := 0, pll_correction := 0, pll_lastPhaseError := 0, pll_lastLocalTime := 0,
     pll_lastRemoteTime := 0, pll_lastSampleCount := 0, pll_lastSampleRate := 48000, pll_lockCount := 0\<rparr>"

definition pll_isLocked :: "phase_locked_loop \<Rightarrow> bool" where
  "pll_isLocked p \<longleftrightarrow> pll_lockCount p > 10"

definition getLockQuality :: "phase_locked_loop \<Rightarrow> int" where
  "getLockQuality p = min 100 ((pll_lockCount p * 100) div 100)"

definition getDriftRatio :: "phase_locked_loop \<Rightarrow> rat" where
  "getDriftRatio p = d_add 1 (pll_correction p)"

definition getAdjustedSampleRate_for :: "u32 \<Rightarrow> phase_locked_loop \<Rightarrow> rat" where
  "getAdjustedSampleRate_for nominalRate p = d_mult (f64_round (of_nat (unat nominalRate))) (d_add 1 (pll_correction p))"

definition getAdjustedSampleRate :: "phase_locked_loop \<Rightarrow> rat" where
  "getAdjustedSampleRate p = getAdjustedSampleRate_for (pll_lastSampleRate p) p"

definition setLockThreshold :: "int \<Rightarrow> phase_locked_loop \<Rightarrow> phase_locked_loop" where
  "setLockThreshold threshold p = p\<lparr>pll_lockThreshold := threshold\<rparr>"

text \<open>Updates and resets in the order in which they take the mutex.\<close>

datatype pll_call = Update u64 u64 u64 u32 | Reset | Threshold int

fun pll_do :: "pll_call \<Rightarrow> phase_locked_loop \<Rightarrow> phase_locked_loop run" where
  "pll_do (Update localTime remoteTime sampleCount sampleRate) p = pll_update localTime remoteTime sampleCount sampleRate p"
| "pll_do Reset p = Done (pll_reset p)"
| "pll_do (Threshold t) p = Done (setLockThreshold t p)"

fun pll_run :: "pll_call list \<Rightarrow> phase_locked_loop \<Rightarrow> phase_locked_loop run" where
  "pll_run [] p = Done p"
| "pll_run (c # cs) p = and_then (pll_do c p) (pll_run cs)"

section \<open>Bounds\<close>

definition pll_inv :: "phase_locked_loop \<Rightarrow> bool" where
  "pll_inv p \<longleftrightarrow> \<bar>pll_accumulator p\<bar> \<le> 1 \<and> \<bar>pll_correction p\<bar> \<le> max_correction \<and> 0 \<le> pll_lockCount p \<and>
     pll_lockCount p \<le> 100"

lemma max_correction_le: "max_correction \<le> 1 / 1000 + 1 / 10 ^ 18"
  using f64_close(2) [of "1 / 1000"] by (simp add: max_correction_def)

lemma max_correction_nonneg: "0 \<le> max_correction"
  by (simp add: max_correction_def f64_nonneg)

lemma min_correction: "min_correction = - max_correction"
  by (simp add: min_correction_def max_correction_def)

lemma pll_filter_inv: "pll_inv p \<Longrightarrow> pll_inv (pll_filter e d p)"
proof -
  assume "pll_inv p"
  moreover have "\<bar>d_clamp v (- 1) 1\<bar> \<le> 1" for v :: rat by (auto simp: d_clamp_def abs_le_iff)
  moreover have "\<bar>d_clamp v min_correction max_correction\<bar> \<le> max_correction" for v
    using max_correction_nonneg by (auto simp: d_clamp_def min_correction abs_le_iff)
  ultimately show ?thesis by (simp add: pll_inv_def pll_filter_def Let_def)
qed

lemma pll_update_inv: "pll_inv p \<Longrightarrow> pll_update l r n sr p = Done p' \<Longrightarrow> pll_inv p'"
proof -
  assume p: "pll_inv p" and u: "pll_update l r n sr p = Done p'"
  have ref: "pll_inv (pll_reference l r n sr q) = pll_inv q" for q
    by (simp add: pll_reference_def pll_inv_def)
  have count: "pll_inv (q\<lparr>pll_lockCount := pll_count e (pll_lockCount q), pll_lastPhaseError := e'\<rparr>)" if "pll_inv q" for q e e'
    using that by (auto simp: pll_inv_def pll_count_def)
  show ?thesis
    using u p count pll_filter_inv [OF p]
    by (auto simp: pll_update_def and_then_Done ref Let_def split: if_splits)
qed

lemma pll_do_inv: "pll_inv p \<Longrightarrow> pll_do c p = Done p' \<Longrightarrow> pll_inv p'"
proof (cases c)
  case (Update l r n sr)
  then show "pll_inv p \<Longrightarrow> pll_do c p = Done p' \<Longrightarrow> pll_inv p'" by (simp add: pll_update_inv)
qed (auto simp: pll_reset_def pll_inv_def setLockThreshold_def max_correction_nonneg)

lemma pll_new_inv: "pll_inv (pll_new b d)"
  by (simp add: pll_new_def pll_inv_def Let_def max_correction_nonneg)

lemma pll_run_inv: "pll_inv p \<Longrightarrow> pll_run cs p = Done p' \<Longrightarrow> pll_inv p'"
  by (induction cs arbitrary: p) (auto simp: and_then_Done dest: pll_do_inv)

lemma drift_ratio_close:
  assumes "pll_inv p"
  shows "\<bar>getDriftRatio p - 1\<bar> \<le> 1001 / 1000000"
proof -
  define c where "c = pll_correction p"
  have "\<bar>c\<bar> \<le> 1 / 1000 + 1 / 10 ^ 18" using assms max_correction_le unfolding pll_inv_def c_def by linarith
  then have c: "c \<le> 1 / 1000 + 1 / 10 ^ 18" "- c \<le> 1 / 1000 + 1 / 10 ^ 18" unfolding abs_le_iff by auto
  have "1 / 10 ^ 20 \<le> 1 + c" using c(2) by simp
  note f = f64_close [OF this]
  have "(1 + c) / 10 ^ 15 \<le> 2 / 10 ^ 15" using c(1) by simp
  moreover have "0 \<le> 1 + c" using c(2) by simp
  ultimately have "f64_round (1 + c) \<le> 1 + c + 2 / 10 ^ 15" "1 + c - 2 / 10 ^ 15 \<le> f64_round (1 + c)"
    using f by linarith+
  then show ?thesis unfolding getDriftRatio_def d_add_def c_def [symmetric] abs_le_iff using c by simp
qed

section \<open>Time steps\<close>

lemma nano_bounds: "999999999999999 / 10 ^ 24 \<le> nano" "nano \<le> 1000000000000001 / 10 ^ 24"
  using f64_close [of "1 / 1000000000"] by (simp_all add: nano_def)

lemma delta_late:
  assumes "10 ^ 10 < unat (localTime - pll_lastLocalTime p)"
  shows "10 < pll_delta localTime p"
proof -
  define D :: rat where "D = of_nat (unat (localTime - pll_lastLocalTime p))"
  define a where "a = f64_round D"
  have "of_nat (10 ^ 10 + 1) \<le> D" using assms unfolding D_def of_nat_le_iff by simp
  then have D: "10000000001 \<le> D" by simp
  have "D - D / 10 ^ 15 \<le> a" unfolding a_def by (rule f64_close(1)) (use D in simp)
  then have a: "100000000009 / 10 \<le> a" using D by simp
  have x: "100000000009 / 10 * (999999999999999 / 10 ^ 24) \<le> a * nano"
    by (rule mult_mono [OF a nano_bounds(1)]) (use a in simp_all)
  have "a * nano - a * nano / 10 ^ 15 \<le> f64_round (a * nano)" by (rule f64_close(1)) (use x in simp)
  moreover have "10 < y - y / 10 ^ 15" if "100000000009 / 10 * (999999999999999 / 10 ^ 24) \<le> y" for y :: rat
    using that by simp
  note this [OF x]
  ultimately show ?thesis unfolding pll_delta_def d_mult_def a_def D_def by linarith
qed

lemma delta_regular:
  assumes "0 < unat (localTime - pll_lastLocalTime p)" "unat (localTime - pll_lastLocalTime p) < 10 ^ 10"
  shows "0 < pll_delta localTime p \<and> pll_delta localTime p \<le> 10"
proof -
  define n where "n = unat (localTime - pll_lastLocalTime p)"
  define D :: rat where "D = of_nat n"
  have n: "1 \<le> n" "n \<le> 9999999999" using assms by (simp_all add: n_def)
  have D: "1 \<le> D" "D \<le> 9999999999" using n of_nat_le_iff [of 1 n] of_nat_le_iff [of n 9999999999]
    unfolding D_def by simp_all
  have e: "f64_round D = D" using n unfolding D_def by (intro f64_of_nat) simp
  have lo: "1 * (999999999999999 / 10 ^ 24) \<le> D * nano"
    by (rule mult_mono [OF D(1) nano_bounds(1)]) (use D in simp_all)
  have "0 \<le> nano" using nano_bounds(1) by (rule order_trans [rotated]) simp
  then have hi: "D * nano \<le> 9999999999 * (1000000000000001 / 10 ^ 24)"
    by (intro mult_mono [OF D(2) nano_bounds(2)]) simp_all
  have "f64_round (D * nano) \<le> 10" using f64_between(1) [of 10 "D * nano"] hi by simp
  moreover have "D * nano - D * nano / 10 ^ 15 \<le> f64_round (D * nano)" by (rule f64_close(1)) (use lo in simp)
  moreover have "0 < y - y / 10 ^ 15" if "1 * (999999999999999 / 10 ^ 24) \<le> y" for y :: rat using that by simp
  note this [OF lo]
  ultimately have "0 < f64_round (D * nano) \<and> f64_round (D * nano) \<le> 10" by linarith
  then show ?thesis by (simp add: pll_delta_def d_mult_def n_def [symmetric] D_def [symmetric] e)
qed

section \<open>Behaviour over many updates\<close>

text \<open>A measurement: local time, PTP time, sample count and rate.\<close>

type_synonym measurement = "u64 \<times> u64 \<times> u64 \<times> u32"

definition update_call :: "measurement \<Rightarrow> pll_call" where
  "update_call m = (case m of (l, r, n, sr) \<Rightarrow> Update l r n sr)"

definition local_of :: "measurement \<Rightarrow> nat" where "local_of m = unat (fst m)"

definition ahead :: "measurement \<Rightarrow> int" where "ahead m = int (unat (fst (snd m))) - int (unat (fst m))"

text \<open>The times of a measurement fit into 63 bits, as those of this century do.\<close>

definition sane :: "measurement \<Rightarrow> bool" where
  "sane m \<longleftrightarrow> unat (fst m) < 2 ^ 63 \<and> unat (fst (snd m)) < 2 ^ 63"

lemma sint_small: "unat (w :: u64) < 2 ^ 63 \<Longrightarrow> sint w = int (unat w)"
proof -
  assume "unat w < 2 ^ 63"
  then have "uint w < 2 ^ 63" by (simp add: uint_nat del: of_nat_unat)
  then have "signed_take_bit 63 (uint w) = uint w" using uint_ge_0 [of w] by (intro signed_take_bit_int_eq_self) linarith+
  then show ?thesis by (simp add: sint_uint)
qed

lemma sane_difference:
  "sane (l, r, n, sr) \<Longrightarrow> i64 (sint r - sint l) = Done (ahead (l, r, n, sr))"
proof -
  assume "sane (l, r, n, sr)"
  then have "unat l < 2 ^ 63" "unat r < 2 ^ 63" by (simp_all add: sane_def)
  then have "int (unat l) < int (2 ^ 63)" "int (unat r) < int (2 ^ 63)" by (simp_all only: of_nat_less_iff)
  moreover have "0 \<le> int (unat l)" "0 \<le> int (unat r)" by simp_all
  ultimately have "- int (2 ^ 63) \<le> int (unat r) - int (unat l)" "int (unat r) - int (unat l) < int (2 ^ 63)" by linarith+
  then have "- (2 ^ 63) \<le> int (unat r) - int (unat l)" "int (unat r) - int (unat l) < 2 ^ 63"
    by (simp_all only: of_nat_power of_nat_numeral)
  with \<open>unat l < 2 ^ 63\<close> \<open>unat r < 2 ^ 63\<close> show ?thesis by (simp only: sint_small i64_def ahead_def fst_conv snd_conv simp_thms if_True)
qed

lemma unat_step: "unat b \<le> unat a \<Longrightarrow> unat (a - b :: u64) = unat a - unat b"
  by (simp add: unat_sub word_le_nat_alt)

lemma pll_update_late:
  assumes "sane (l, r, n, sr)" "pll_lastLocalTime p \<noteq> 0" "unat (pll_lastLocalTime p) + 10 ^ 10 < unat l"
  shows "pll_update l r n sr p = Done p"
proof -
  have "10 < pll_delta l p"
    by (rule delta_late) (use assms(3) in \<open>simp add: unat_step\<close>)
  then show ?thesis using assms(1,2) by (simp add: pll_update_def sane_difference Let_def)
qed

lemma pll_stuck:
  assumes "pll_lastLocalTime p \<noteq> 0"
    and "\<forall>m \<in> set ms. sane m \<and> unat (pll_lastLocalTime p) + 10 ^ 10 < local_of m"
  shows "pll_run (map update_call ms) p = Done p"
  using assms(2)
proof (induction ms)
  case Nil
  then show ?case by simp
next
  case (Cons m ms)
  obtain l r n sr where m: "m = (l, r, n, sr)" by (metis prod_cases4)
  with Cons assms(1) show ?case
    by (simp add: update_call_def local_of_def pll_update_late)
qed

text \<open>Consecutive measurements follow each other within ten seconds.\<close>

fun regular :: "nat \<Rightarrow> measurement list \<Rightarrow> bool" where
  "regular t [] \<longleftrightarrow> True"
| "regular t (m # ms) \<longleftrightarrow> sane m \<and> t < local_of m \<and> local_of m < t + 10 ^ 10 \<and> regular (local_of m) ms"

lemma pll_update_regular:
  assumes "sane (l, r, n, sr)" "pll_lastLocalTime p \<noteq> 0"
    and "unat (pll_lastLocalTime p) < unat l" "unat l < unat (pll_lastLocalTime p) + 10 ^ 10"
  shows "\<exists>p'. pll_update l r n sr p = Done p' \<and> pll_lastLocalTime p' = l \<and>
    pll_lockCount p' = pll_count (d_of_int (ahead (l, r, n, sr))) (pll_lockCount p)"
proof -
  have "0 < pll_delta l p \<and> pll_delta l p \<le> 10"
    by (rule delta_regular) (use assms(3,4) in \<open>simp_all add: unat_step\<close>)
  then show ?thesis using assms(1,2)
    by (simp add: pll_update_def sane_difference Let_def pll_reference_def pll_filter_def)
qed

lemma count_near: "\<bar>e\<bar> < 10 ^ 6 \<Longrightarrow> pll_count (d_of_int e) k = (if k < 100 then k + 1 else k)"
proof -
  assume e: "\<bar>e\<bar> < 10 ^ 6"
  then have "d_of_int e = of_int e" unfolding d_of_int_def by (intro f64_exact) simp
  moreover have "\<bar>of_int e :: rat\<bar> < 10 ^ 6" using e
    by (metis of_int_abs of_int_less_iff of_int_numeral of_int_power)
  ultimately show ?thesis by (simp add: pll_count_def)
qed

lemma count_far: "10 ^ 6 \<le> \<bar>e\<bar> \<Longrightarrow> pll_count (d_of_int e) k \<le> max 0 k"
proof -
  assume e: "10 ^ 6 \<le> \<bar>e\<bar>"
  have "1000000 \<le> \<bar>d_of_int e\<bar>"
  proof (cases "0 \<le> e")
    case True
    then have "of_int 1000000 \<le> (of_int e :: rat)" using e unfolding of_int_le_iff by simp
    then have "of_int 1000000 \<le> d_of_int e" unfolding d_of_int_def by (intro f64_between(2)) simp_all
    then show ?thesis by simp
  next
    case False
    then have "of_int e \<le> (of_int (- 1000000) :: rat)" using e unfolding of_int_le_iff by simp
    then have "d_of_int e \<le> of_int (- 1000000)" unfolding d_of_int_def by (intro f64_between(1)) simp_all
    then show ?thesis by simp
  qed
  then show ?thesis by (auto simp: pll_count_def)
qed

lemma pll_run_regular:
  assumes "regular (unat (pll_lastLocalTime p)) ms" "pll_lastLocalTime p \<noteq> 0"
  shows "\<exists>p'. pll_run (map update_call ms) p = Done p' \<and>
    pll_lockCount p' = foldl (\<lambda>k m. pll_count (d_of_int (ahead m)) k) (pll_lockCount p) ms"
  using assms
proof (induction ms arbitrary: p)
  case Nil
  then show ?case by simp
next
  case (Cons m ms)
  obtain l r n sr where m: "m = (l, r, n, sr)" by (metis prod_cases4)
  obtain p1 where p1: "pll_update l r n sr p = Done p1" "pll_lastLocalTime p1 = l"
    "pll_lockCount p1 = pll_count (d_of_int (ahead m)) (pll_lockCount p)"
    using pll_update_regular [of l r n sr p] Cons.prems by (auto simp: m local_of_def)
  have "l \<noteq> 0" using Cons.prems by (auto simp: m local_of_def)
  then show ?case using Cons.IH [of p1] Cons.prems p1 by (simp add: m update_call_def local_of_def)
qed

lemma foldl_near:
  "\<forall>m \<in> set ms. \<bar>ahead m\<bar> < 10 ^ 6 \<Longrightarrow> 0 \<le> k \<Longrightarrow> k \<le> 100 \<Longrightarrow>
   foldl (\<lambda>k m. pll_count (d_of_int (ahead m)) k) k ms = min 100 (k + int (length ms))"
  by (induction ms arbitrary: k) (auto simp: count_near)

lemma foldl_far:
  "\<forall>m \<in> set ms. 10 ^ 6 \<le> \<bar>ahead m\<bar> \<Longrightarrow> k \<le> 10 \<Longrightarrow>
   foldl (\<lambda>k m. pll_count (d_of_int (ahead m)) k) k ms \<le> 10"
proof (induction ms arbitrary: k)
  case (Cons m ms)
  then show ?case using count_far [of "ahead m" k] by fastforce
qed simp

section \<open>Properties\<close>

text \<open>
  The corrections of the loop are bounded. After any updates and resets from a new loop, whatever times they carry, the
  frequency correction is within 1000 ppm, the integrator within one second, the counter of good phases within
  0 to 100, and the drift ratio within 1001 ppm of 1.
\<close>

theorem pll_bounded:
  assumes "pll_run cs (pll_new bandwidth damping) = Done p"
  shows "\<bar>pll_correction p\<bar> \<le> max_correction \<and> \<bar>pll_accumulator p\<bar> \<le> 1 \<and>
    0 \<le> getLockQuality p \<and> getLockQuality p \<le> 100 \<and> \<bar>getDriftRatio p - 1\<bar> \<le> 1001 / 1000000"
  using pll_run_inv [OF pll_new_inv assms] drift_ratio_close [OF pll_run_inv [OF pll_new_inv assms]]
  by (simp add: pll_inv_def getLockQuality_def)

definition first_measurement :: pll_call where "first_measurement = Update 1000 1000 0 48000"

lemma pll_bounded_witness:
  "\<exists>p. pll_run [first_measurement, Reset, Threshold 3] (pll_new 1 (f64_round (707 / 1000))) = Done p \<and>
    \<bar>getDriftRatio p - 1\<bar> \<le> 1001 / 1000000"
proof -
  have "\<exists>p. pll_run [first_measurement, Reset, Threshold 3] (pll_new 1 (f64_round (707 / 1000))) = Done p"
    by (simp add: first_measurement_def pll_update_def pll_new_def Let_def)
  then show ?thesis using pll_bounded by blast
qed

text \<open>
  The loop locks on steady input. When updates follow each other within ten seconds and every phase is within a
  millisecond, eleven of them lock the loop and every further one keeps it locked.
\<close>

theorem pll_locks:
  assumes "pll_lastLocalTime p \<noteq> 0" "0 \<le> pll_lockCount p" "pll_lockCount p \<le> 100"
    and "regular (unat (pll_lastLocalTime p)) ms" "\<forall>m \<in> set ms. \<bar>ahead m\<bar> < 10 ^ 6" "11 \<le> length ms"
  shows "\<exists>p'. pll_run (map update_call ms) p = Done p' \<and> pll_isLocked p'"
proof -
  obtain p' where p': "pll_run (map update_call ms) p = Done p'"
    "pll_lockCount p' = foldl (\<lambda>k m. pll_count (d_of_int (ahead m)) k) (pll_lockCount p) ms"
    using pll_run_regular [OF assms(4,1)] by blast
  then have "pll_lockCount p' = min 100 (pll_lockCount p + int (length ms))"
    using foldl_near [OF assms(5,2,3)] by simp
  then show ?thesis using p'(1) assms(2,6) by (auto simp: pll_isLocked_def)
qed

definition ticks :: "nat \<Rightarrow> measurement list" where
  "ticks n = map (\<lambda>i. (1000 + of_nat (Suc i) * 1000000000, 1005 + of_nat (Suc i) * 1000000000, 0, 48000)) [0..<n]"

definition started_loop :: phase_locked_loop where
  "started_loop = pll_reference 1000 1000 0 48000 (pll_new 1 (f64_round (707 / 1000)))"

lemma started_loop: "pll_lastLocalTime started_loop = 1000" "pll_lockCount started_loop = 0"
  by (simp_all add: started_loop_def pll_reference_def pll_new_def Let_def)

lemma pll_locks_witness:
  "\<exists>p'. pll_run (map update_call (ticks 11)) started_loop = Done p' \<and> pll_isLocked p'"
proof -
  have "regular 1000 (ticks 11)" by (simp add: ticks_def upt_rec sane_def local_of_def)
  moreover have "\<forall>m \<in> set (ticks 11). \<bar>ahead m\<bar> < 10 ^ 6" by (simp add: ticks_def upt_rec ahead_def)
  moreover have "11 \<le> length (ticks 11)" by (simp add: ticks_def)
  ultimately show ?thesis using pll_locks [of started_loop "ticks 11"] by (simp add: started_loop)
qed

text \<open>
  A gap of more than ten seconds stops the loop for good. The time of the last update stays where it was when an
  update is skipped, so every later update is skipped as well: the correction, the lock and all other state stay
  as they are whatever is measured, until the loop is reset.
\<close>

theorem pll_stuck_after_gap:
  assumes "pll_lastLocalTime p \<noteq> 0"
    and "\<forall>m \<in> set ms. sane m \<and> unat (pll_lastLocalTime p) + 10 ^ 10 < local_of m"
  shows "pll_run (map update_call ms) p = Done p"
  by (rule pll_stuck [OF assms])

lemma pll_stuck_after_gap_witness:
  "pll_run (map update_call (map (\<lambda>i. (20000000000 + of_nat i, 20000000000, 0, 48000)) [0..<3])) started_loop = Done started_loop"
  by (rule pll_stuck_after_gap) (simp_all add: started_loop upt_rec sane_def local_of_def)

text \<open>
  A constant offset of the time scales prevents the lock. PTP time is TAI, the local time UTC; while the two differ by a
  millisecond or more in every update, the loop never locks, however stable the clocks are.
\<close>

theorem pll_offset_never_locks:
  assumes "pll_lastLocalTime p \<noteq> 0" "pll_lockCount p \<le> 10"
    and "regular (unat (pll_lastLocalTime p)) ms" "\<forall>m \<in> set ms. 10 ^ 6 \<le> \<bar>ahead m\<bar>"
  shows "\<exists>p'. pll_run (map update_call ms) p = Done p' \<and> \<not> pll_isLocked p'"
  using pll_run_regular [OF assms(3,1)] foldl_far [OF assms(4,2)] by (force simp: pll_isLocked_def)

lemma pll_offset_never_locks_witness:
  "\<exists>p'. pll_run (map update_call (map (\<lambda>(l, r, m). (l, r + 37000000000, m)) (ticks 20))) started_loop = Done p' \<and>
    \<not> pll_isLocked p'"
proof -
  let ?ms = "map (\<lambda>(l, r, m). (l, r + 37000000000, m)) (ticks 20)"
  have "regular 1000 ?ms" by (simp add: ticks_def upt_rec sane_def local_of_def)
  moreover have "\<forall>m \<in> set ?ms. 10 ^ 6 \<le> \<bar>ahead m\<bar>" by (simp add: ticks_def upt_rec ahead_def)
  ultimately show ?thesis using pll_offset_never_locks [of started_loop ?ms] by (simp add: started_loop)
qed

end
