(* ===== verification/Ptp_Clock.thy ===== *)
theory Ptp_Clock
  imports Ptp_Interface Phase_Locked_Loop Net_Detection Sdp_Session
begin

text \<open>
  \<open>NetworkEngine/PTP/PTPClock.cpp\<close>: a clock per PTP domain with its media clock references, and the
  manager of the clocks. \<open>now\<close> is the system clock in nanoseconds, \<open>env\<close> what the system answers when a clock is
  made or started. Undefined arithmetic (a signed difference that does not fit, a quotient by zero
  converted to an integer) is the outcome \<open>Overflow\<close>. A clock in the map and the
  \<open>shared_ptr\<close>s to it are the same object; the model keeps it in the map.
\<close>

section \<open>State\<close>

record media_reference =
  mcr_rtpTimestamp :: u32
  mcr_ptpTime :: u64
  mcr_localTime :: u64
  mcr_sampleRate :: u32
  mcr_valid :: bool

definition no_reference :: media_reference where
  "no_reference = \<lparr>mcr_rtpTimestamp = 0, mcr_ptpTime = 0, mcr_localTime = 0, mcr_sampleRate = 48000, mcr_valid = False\<rparr>"

record ptp_clock =
  pk_domain :: int
  pk_running :: bool
  pk_ptpd :: "ptpd_interface option"
  pk_pll :: phase_locked_loop
  pk_current :: media_reference
  pk_previous :: media_reference
  pk_mediaClockOffset :: int
  pk_history :: "media_reference list"
  pk_interface :: string

record clock_env =
  ce_interfaces :: "if_entry list"
  ce_garbage :: ptp_announce
  ce_answers :: slave_answers

definition ptp_clock_new :: "clock_env \<Rightarrow> int \<Rightarrow> ptp_clock" where
  "ptp_clock_new e domain =
     (let detected = detectPTPInterface (ce_interfaces e);
          name = (if detected = [] \<or> \<not> isInterfaceActive (ce_interfaces e) detected then ''en0'' else detected);
          (ok, ptpd) = ptpd_init (ce_garbage e) name (setDomain domain (ptpd_new False))
      in \<lparr>pk_domain = domain, pk_running = False, pk_ptpd = (if \<not> ok then None else Some ptpd),
          pk_pll = pll_new 1 (f64_round (707 / 1000)), pk_current = no_reference, pk_previous = no_reference,
          pk_mediaClockOffset = 0, pk_history = [], pk_interface = name\<rparr>)"

section \<open>Control and time\<close>

definition clock_start :: "clock_env \<Rightarrow> ptp_clock \<Rightarrow> bool \<times> ptp_clock" where
  "clock_start e c =
     (if pk_running c then (False, c)
      else (True, c\<lparr>pk_running := True, pk_ptpd := map_option (ptpd_start (ce_answers e)) (pk_ptpd c)\<rparr>))"

definition clock_stop :: "ptp_clock \<Rightarrow> ptp_clock" where
  "clock_stop c =
     (if \<not> pk_running c then c
      else c\<lparr>pk_running := False, pk_ptpd := map_option ptpd_stop (pk_ptpd c)\<rparr>)"

definition getTime :: "u64 \<Rightarrow> ptp_clock \<Rightarrow> u64" where
  "getTime now c =
     (case pk_ptpd c of
        None \<Rightarrow> now
      | Some p \<Rightarrow> if pi_isLocked p then now + of_int (pi_masterOffset p) else now)"

definition getTimeMicroseconds :: "u64 \<Rightarrow> ptp_clock \<Rightarrow> u64" where
  "getTimeMicroseconds now c = getTime now c div 1000"

definition clock_isLocked :: "ptp_clock \<Rightarrow> bool" where
  "clock_isLocked c \<longleftrightarrow> (case pk_ptpd c of None \<Rightarrow> False | Some p \<Rightarrow> pi_isLocked p)"

definition clock_getOffsetNs :: "ptp_clock \<Rightarrow> int" where
  "clock_getOffsetNs c = (case pk_ptpd c of None \<Rightarrow> 0 | Some p \<Rightarrow> pi_masterOffset p)"

text \<open>Reading the master asks for the diagnostics, which refreshes them.\<close>

definition getMasterClockID :: "ptp_clock \<Rightarrow> string \<times> ptp_clock" where
  "getMasterClockID c =
     (case pk_ptpd c of
        None \<Rightarrow> ([], c)
      | Some p \<Rightarrow> let p1 = getDiagnostics p in (pd_masterClockID (pi_diagnostics p1), c\<lparr>pk_ptpd := Some p1\<rparr>))"

definition getClockClass :: "ptp_clock \<Rightarrow> u8" where
  "getClockClass c = (case pk_ptpd c of None \<Rightarrow> 248 | Some p \<Rightarrow> of_int (pi_clockClass p))"

definition getClockAccuracy :: "ptp_clock \<Rightarrow> u8" where
  "getClockAccuracy c = (case pk_ptpd c of None \<Rightarrow> 0xFE | Some p \<Rightarrow> of_int (pi_clockAccuracy p))"

definition setNetworkInterface :: "clock_env \<Rightarrow> string \<Rightarrow> ptp_clock \<Rightarrow> bool \<times> ptp_clock" where
  "setNetworkInterface e name c =
     (if \<not> isInterfaceActive (ce_interfaces e) name then (False, c)
      else
        let wasRunning = pk_running c;
            c1 = (if wasRunning then clock_stop c else c)\<lparr>pk_interface := name\<rparr>;
            initialised = map_option (ptpd_init (ce_garbage e) name) (pk_ptpd c1);
            c2 = c1\<lparr>pk_ptpd := map_option snd initialised\<rparr>
        in if (case initialised of None \<Rightarrow> False | Some (ok, _) \<Rightarrow> \<not> ok) then (False, c2)
           else (True, if wasRunning then snd (clock_start e c2) else c2))"

section \<open>Media clock\<close>

definition rtpTimestampDifference :: "u32 \<Rightarrow> u32 \<Rightarrow> int" where
  "rtpTimestampDifference ts1 ts2 =
     (let diff = ts1 - ts2
      in if diff > 0x80000000 then - int (unat (0 - diff)) else int (unat diff))"

definition nsPerSample :: "u32 \<Rightarrow> rat" where
  "nsPerSample sampleRate = d_div 1000000000 (f64_round (of_nat (unat sampleRate)))"

text \<open>Truncation towards zero; the values converted are below \<open>2^62\<close>. A rate of zero gives an infinity or a NaN.\<close>

definition d_trunc :: "rat \<Rightarrow> int" where
  "d_trunc x = (if 0 \<le> x then \<lfloor>x\<rfloor> else \<lceil>x\<rceil>)"

definition samples_to_ns :: "int \<Rightarrow> u32 \<Rightarrow> rat run" where
  "samples_to_ns rtpDiff sampleRate =
     (if sampleRate = 0 then Overflow else Done (d_mult (d_of_int rtpDiff) (nsPerSample sampleRate)))"

definition push_history :: "media_reference \<Rightarrow> media_reference list \<Rightarrow> media_reference list" where
  "push_history r h = (let h1 = h @ [r] in drop (length h1 - 16) h1)"

definition recordMediaClockReference :: "u64 \<Rightarrow> u32 \<Rightarrow> u64 \<Rightarrow> u32 \<Rightarrow> ptp_clock \<Rightarrow> ptp_clock run" where
  "recordMediaClockReference now rtpTimestamp ptpArrivalTime sampleRate c =
     (let newRef = \<lparr>mcr_rtpTimestamp = rtpTimestamp, mcr_ptpTime = ptpArrivalTime, mcr_localTime = now,
            mcr_sampleRate = sampleRate, mcr_valid = True\<rparr>;
          previous = pk_current c;
          c1 = c\<lparr>pk_previous := previous, pk_current := newRef, pk_history := push_history newRef (pk_history c)\<rparr>
      in if \<not> mcr_valid previous then Done c1
         else
           let rtpDiff = rtpTimestampDifference rtpTimestamp (mcr_rtpTimestamp previous)
           in and_then (samples_to_ns rtpDiff sampleRate) (\<lambda>expected.
              and_then (i64 (sint ptpArrivalTime - sint (mcr_ptpTime previous))) (\<lambda>actual.
              and_then (i64 (d_trunc expected - actual)) (\<lambda>offsetError.
              and_then (i64 \<bar>actual\<bar>) (\<lambda>magnitude.
              and_then (if magnitude > 100000000 then pll_update now ptpArrivalTime (of_int rtpDiff) sampleRate (pk_pll c1)
                        else Done (pk_pll c1)) (\<lambda>pll.
                Done (c1\<lparr>pk_pll := pll, pk_mediaClockOffset := offsetError\<rparr>)))))))"

definition rtpTimestampToPTPTime :: "u64 \<Rightarrow> u32 \<Rightarrow> u32 \<Rightarrow> ptp_clock \<Rightarrow> u64 run" where
  "rtpTimestampToPTPTime now rtpTimestamp sampleRate c =
     (if \<not> mcr_valid (pk_current c) then Done (getTime now c)
      else
        let rtpDiff = rtpTimestampDifference rtpTimestamp (mcr_rtpTimestamp (pk_current c))
        in and_then (samples_to_ns rtpDiff sampleRate) (\<lambda>timeDiff.
             let timeDiffNs = (if pll_isLocked (pk_pll c)
                   then d_mult timeDiff (d_add 1 (pll_correction (pk_pll c))) else timeDiff)
             in and_then (i64 (sint (mcr_ptpTime (pk_current c)) + d_trunc timeDiffNs)) (\<lambda>presentationTime.
                  Done (if presentationTime < 0 then mcr_ptpTime (pk_current c) else of_int presentationTime))))"

definition max_ratio :: rat where "max_ratio = d_add 1 (d_div 100 1000000)"
definition min_ratio :: rat where "min_ratio = d_sub 1 (d_div 100 1000000)"

text \<open>\<open>std::max(minRatio, std::min(maxRatio, ratio))\<close>.\<close>

definition clamp_ratio :: "rat \<Rightarrow> rat" where
  "clamp_ratio ratio = (let r = (if ratio < max_ratio then ratio else max_ratio) in if min_ratio < r then r else min_ratio)"

definition getClockDriftRatio :: "ptp_clock \<Rightarrow> rat run" where
  "getClockDriftRatio c =
     (if pll_isLocked (pk_pll c) then Done (clamp_ratio (d_add 1 (pll_correction (pk_pll c))))
      else if length (pk_history c) \<ge> 2
      then
        let oldest = hd (pk_history c); newest = last (pk_history c)
        in and_then (i64 (sint (mcr_localTime newest) - sint (mcr_localTime oldest))) (\<lambda>localTimeDiff.
           and_then (i64 (sint (mcr_ptpTime newest) - sint (mcr_ptpTime oldest))) (\<lambda>ptpTimeDiff.
             if localTimeDiff > 100000000 then Done (clamp_ratio (d_div (d_of_int ptpTimeDiff) (d_of_int localTimeDiff)))
             else Done 1))
      else Done 1)"

definition updatePLL :: "u64 \<Rightarrow> u64 \<Rightarrow> u64 \<Rightarrow> u32 \<Rightarrow> ptp_clock \<Rightarrow> ptp_clock run" where
  "updatePLL localTime ptpTime sampleCount sampleRate c =
     and_then (pll_update localTime ptpTime sampleCount sampleRate (pk_pll c)) (\<lambda>p. Done (c\<lparr>pk_pll := p\<rparr>))"

definition isMediaClockLocked :: "u64 \<Rightarrow> ptp_clock \<Rightarrow> bool" where
  "isMediaClockLocked now c \<longleftrightarrow>
     mcr_valid (pk_current c) \<and> now - mcr_localTime (pk_current c) \<le> 5000000000 \<and>
     (clock_isLocked c \<longrightarrow> pll_isLocked (pk_pll c))"

section \<open>The manager\<close>

record clock_manager =
  cmg_clocks :: "(int \<times> ptp_clock) list"
  cmg_enabled :: bool

definition clock_manager_new :: clock_manager where
  "clock_manager_new = \<lparr>cmg_clocks = [], cmg_enabled = True\<rparr>"

definition setPTPEnabled :: "bool \<Rightarrow> clock_manager \<Rightarrow> clock_manager" where
  "setPTPEnabled enabled m = m\<lparr>cmg_enabled := enabled\<rparr>"

definition put_clock :: "int \<Rightarrow> ptp_clock \<Rightarrow> clock_manager \<Rightarrow> clock_manager" where
  "put_clock domain c m = m\<lparr>cmg_clocks := smap_put domain c (cmg_clocks m)\<rparr>"

definition getClockForDomain :: "clock_env \<Rightarrow> int \<Rightarrow> clock_manager \<Rightarrow> ptp_clock \<times> clock_manager" where
  "getClockForDomain e domain m =
     (case map_of (cmg_clocks m) domain of
        Some c \<Rightarrow> (c, m)
      | None \<Rightarrow> let c = snd (clock_start e (ptp_clock_new e domain)) in (c, put_clock domain c m))"

definition removeClock :: "int \<Rightarrow> clock_manager \<Rightarrow> clock_manager" where
  "removeClock domain m = m\<lparr>cmg_clocks := smap_del domain (cmg_clocks m)\<rparr>"

definition getActiveDomains :: "clock_manager \<Rightarrow> int list" where
  "getActiveDomains m = map fst (cmg_clocks m)"

definition getTimeForDomain :: "u64 \<Rightarrow> int \<Rightarrow> clock_manager \<Rightarrow> u64" where
  "getTimeForDomain now domain m =
     (if \<not> cmg_enabled m then now
      else case map_of (cmg_clocks m) domain of
          None \<Rightarrow> now
        | Some c \<Rightarrow> if clock_isLocked c then getTime now c else now)"

definition getTimeForStream :: "u64 \<Rightarrow> sdp_session \<Rightarrow> clock_manager \<Rightarrow> u64" where
  "getTimeForStream now sdp m =
     (if \<not> cmg_enabled m then now else getTimeForDomain now (sd_ptpDomain sdp) m)"

definition cm_recordMediaClockReference ::
    "clock_env \<Rightarrow> u64 \<Rightarrow> int \<Rightarrow> u32 \<Rightarrow> u64 \<Rightarrow> u32 \<Rightarrow> clock_manager \<Rightarrow> clock_manager run" where
  "cm_recordMediaClockReference e now domain rtpTimestamp ptpArrivalTime sampleRate m =
     (if \<not> cmg_enabled m then Done m
      else case getClockForDomain e domain m of
          (c, m1) \<Rightarrow> and_then (recordMediaClockReference now rtpTimestamp ptpArrivalTime sampleRate c) (\<lambda>c1.
            Done (put_clock domain c1 m1)))"

definition cm_rtpTimestampToPTPTime :: "u64 \<Rightarrow> int \<Rightarrow> u32 \<Rightarrow> u32 \<Rightarrow> clock_manager \<Rightarrow> u64 run" where
  "cm_rtpTimestampToPTPTime now domain rtpTimestamp sampleRate m =
     (if \<not> cmg_enabled m then Done now
      else case map_of (cmg_clocks m) domain of
          None \<Rightarrow> Done now
        | Some c \<Rightarrow> rtpTimestampToPTPTime now rtpTimestamp sampleRate c)"

definition cm_getClockDriftRatio :: "int \<Rightarrow> clock_manager \<Rightarrow> rat run" where
  "cm_getClockDriftRatio domain m =
     (if \<not> cmg_enabled m then Done 1
      else case map_of (cmg_clocks m) domain of None \<Rightarrow> Done 1 | Some c \<Rightarrow> getClockDriftRatio c)"

end
