(* ===== verification/Ptp_Time.thy ===== *)
theory Ptp_Time
  imports Ptp_Clock
begin

text \<open>
  What the clocks of Ptp_Clock do over many calls: an invariant of the manager, kept by every call
  and every round of a slave; the accuracy of the media clock; the bounds of the drift ratio.
\<close>

section \<open>What happens to the clocks\<close>

definition clock_round :: "ptp_event \<Rightarrow> ptp_clock \<Rightarrow> ptp_clock run" where
  "clock_round e c =
     (case pk_ptpd c of
        None \<Rightarrow> Done c
      | Some p \<Rightarrow> and_then (ptpd_round e p) (\<lambda>p1. Done (c\<lparr>pk_ptpd := Some p1\<rparr>)))"

definition on_clock :: "int \<Rightarrow> (ptp_clock \<Rightarrow> ptp_clock run) \<Rightarrow> clock_manager \<Rightarrow> clock_manager run" where
  "on_clock domain f m =
     (case map_of (cmg_clocks m) domain of
        None \<Rightarrow> Done m
      | Some c \<Rightarrow> and_then (f c) (\<lambda>c1. Done (put_clock domain c1 m)))"

text \<open>Calls of the manager and of its clocks, and rounds of the threads of their slaves.\<close>

datatype clock_call = Enable bool | Get clock_env int | Remove int | Record clock_env u64 int u32 u64 u32
  | Round int ptp_event | SetInterface clock_env int string | Start clock_env int | Stop int
  | UpdateLoop int u64 u64 u64 u32 | AskMaster int

fun cm_do :: "clock_call \<Rightarrow> clock_manager \<Rightarrow> clock_manager run" where
  "cm_do (Enable b) m = Done (setPTPEnabled b m)"
| "cm_do (Get e d) m = Done (snd (getClockForDomain e d m))"
| "cm_do (Remove d) m = Done (removeClock d m)"
| "cm_do (Record e now d rtp ptp rate) m = cm_recordMediaClockReference e now d rtp ptp rate m"
| "cm_do (Round d ev) m = on_clock d (clock_round ev) m"
| "cm_do (SetInterface e d name) m = on_clock d (\<lambda>c. Done (snd (setNetworkInterface e name c))) m"
| "cm_do (Start e d) m = on_clock d (\<lambda>c. Done (snd (clock_start e c))) m"
| "cm_do (Stop d) m = on_clock d (\<lambda>c. Done (clock_stop c)) m"
| "cm_do (UpdateLoop d l r n rate) m = on_clock d (updatePLL l r n rate) m"
| "cm_do (AskMaster d) m = on_clock d (\<lambda>c. Done (snd (getMasterClockID c))) m"

inductive cm_step :: "clock_manager \<Rightarrow> clock_manager \<Rightarrow> bool" where
  "cm_do call m = Done m' \<Longrightarrow> cm_step m m'"

inductive_cases cm_stepE: "cm_step m m'"

definition cmg_start :: "clock_manager \<Rightarrow> bool" where
  "cmg_start m \<longleftrightarrow> m = clock_manager_new"

section \<open>The invariant\<close>

text \<open>
  Of every clock: neither its interface nor its slave is locked and no offset was published; its
  loop is bounded; the history has at most sixteen references, the last one being the current one.
\<close>

definition clock_inv :: "ptp_clock \<Rightarrow> bool" where
  "clock_inv c \<longleftrightarrow> (case pk_ptpd c of None \<Rightarrow> True | Some p \<Rightarrow> ptpd_idle p) \<and> pll_inv (pk_pll c) \<and>
     length (pk_history c) \<le> 16 \<and> (mcr_valid (pk_current c) \<longrightarrow> pk_history c \<noteq> [] \<and> last (pk_history c) = pk_current c)"

definition cm_inv :: "clock_manager \<Rightarrow> bool" where
  "cm_inv m \<longleftrightarrow> smap_ok (cmg_clocks m) \<and> (\<forall>d c. map_of (cmg_clocks m) d = Some c \<longrightarrow> clock_inv c)"

lemma getDiagnostics_idle: "ptpd_idle p \<Longrightarrow> ptpd_idle (getDiagnostics p)"
  by (auto simp: ptpd_idle_def getDiagnostics_def split: option.splits)

lemma clock_new_inv: "clock_inv (ptp_clock_new e d)"
proof -
  define n where "n = (if detectPTPInterface (ce_interfaces e) = [] \<or>
    \<not> isInterfaceActive (ce_interfaces e) (detectPTPInterface (ce_interfaces e)) then ''en0'' else detectPTPInterface (ce_interfaces e))"
  obtain ok p where p: "ptpd_init (ce_garbage e) n (setDomain d (ptpd_new False)) = (ok, p)" by fastforce
  have "ptpd_idle p" using ptpd_init_idle [OF ptpd_new_idle, of "ce_garbage e" n d False] by (simp add: p)
  then show ?thesis
    by (simp add: ptp_clock_new_def Let_def n_def [symmetric] p clock_inv_def pll_new_inv no_reference_def)
qed

lemma clock_start_inv: "clock_inv c \<Longrightarrow> clock_inv (snd (clock_start e c))"
  by (auto simp: clock_inv_def clock_start_def ptpd_start_idle split: option.splits)

lemma clock_stop_inv: "clock_inv c \<Longrightarrow> clock_inv (clock_stop c)"
  by (auto simp: clock_inv_def clock_stop_def ptpd_stop_idle split: option.splits)

lemma clock_set_inv:
  assumes "clock_inv c"
  shows "clock_inv (snd (setNetworkInterface e name c))"
proof -
  define c1 where "c1 = (if pk_running c then clock_stop c else c)\<lparr>pk_interface := name\<rparr>"
  have "clock_inv (c1)" using assms clock_stop_inv [OF assms] by (simp add: c1_def clock_inv_def)
  then have "clock_inv (c1\<lparr>pk_ptpd := map_option snd (map_option (ptpd_init (ce_garbage e) name) (pk_ptpd c1))\<rparr>)"
    by (auto simp: clock_inv_def ptpd_init_idle split: option.splits)
  moreover define c2 where "c2 = c1\<lparr>pk_ptpd := map_option snd (map_option (ptpd_init (ce_garbage e) name) (pk_ptpd c1))\<rparr>"
  moreover have "snd (setNetworkInterface e name c) \<in> {c, c2, snd (clock_start e c2)}"
    unfolding setNetworkInterface_def Let_def c1_def [symmetric] c2_def [symmetric] by simp
  ultimately show ?thesis using assms clock_start_inv by auto
qed

lemma push_history_last: "push_history r h \<noteq> [] \<and> last (push_history r h) = r \<and> length (push_history r h) \<le> 16"
  by (simp add: push_history_def Let_def)

lemma clock_record_inv:
  assumes "clock_inv c" "recordMediaClockReference now rtp ptp rate c = Done c'"
  shows "clock_inv c'"
proof -
  define c1 where "c1 = c\<lparr>pk_previous := pk_current c, pk_current := \<lparr>mcr_rtpTimestamp = rtp, mcr_ptpTime = ptp, mcr_localTime = now,
            mcr_sampleRate = rate, mcr_valid = True\<rparr>, pk_history := push_history \<lparr>mcr_rtpTimestamp = rtp, mcr_ptpTime = ptp,
            mcr_localTime = now, mcr_sampleRate = rate, mcr_valid = True\<rparr> (pk_history c)\<rparr>"
  have c1: "clock_inv c1" using assms(1) push_history_last by (simp add: c1_def clock_inv_def)
  show ?thesis
  proof (cases "mcr_valid (pk_current c)")
    case False
    then show ?thesis using assms(2) c1 unfolding recordMediaClockReference_def Let_def c1_def [symmetric] by simp
  next
    case True
    then obtain pll x and magnitude :: int where c': "c' = c1\<lparr>pk_pll := pll, pk_mediaClockOffset := x\<rparr>"
      and "(if magnitude > 100000000 then pll_update now ptp (of_int (rtpTimestampDifference rtp (mcr_rtpTimestamp (pk_current c))))
          rate (pk_pll c1) else Done (pk_pll c1)) = Done pll"
      using assms(2) unfolding recordMediaClockReference_def Let_def c1_def [symmetric] by (auto simp: and_then_Done)
    then have "pll_inv pll" using c1 by (auto simp: clock_inv_def dest: pll_update_inv split: if_splits)
    then show ?thesis using c1 by (simp add: c' clock_inv_def)
  qed
qed

lemma clock_round_inv: "clock_inv c \<Longrightarrow> clock_round ev c = Done c' \<Longrightarrow> clock_inv c'"
  by (auto simp: clock_inv_def clock_round_def and_then_Done split: option.splits dest: ptpd_round_idle)

lemma clock_update_inv: "clock_inv c \<Longrightarrow> updatePLL l r n sr c = Done c' \<Longrightarrow> clock_inv c'"
  by (auto simp: clock_inv_def updatePLL_def and_then_Done dest: pll_update_inv)

lemma clock_master_inv: "clock_inv c \<Longrightarrow> clock_inv (snd (getMasterClockID c))"
  by (auto simp: clock_inv_def getMasterClockID_def Let_def getDiagnostics_idle split: option.splits)

lemma put_clock_inv: "cm_inv m \<Longrightarrow> clock_inv c \<Longrightarrow> cm_inv (put_clock d c m)"
  by (auto simp: cm_inv_def put_clock_def smap_ok_put map_of_smap_put split: if_splits)

lemma get_clock_inv:
  assumes "cm_inv m"
  shows "clock_inv (fst (getClockForDomain e d m)) \<and> cm_inv (snd (getClockForDomain e d m))"
proof (cases "map_of (cmg_clocks m) d")
  case None
  then show ?thesis
    using put_clock_inv [OF assms clock_start_inv [OF clock_new_inv [of e d], of e]] clock_start_inv [OF clock_new_inv [of e d], of e]
    by (simp add: getClockForDomain_def Let_def)
next
  case (Some c)
  then show ?thesis using assms by (simp add: getClockForDomain_def cm_inv_def)
qed

lemma on_clock_inv:
  assumes "cm_inv m" "\<And>c c'. clock_inv c \<Longrightarrow> f c = Done c' \<Longrightarrow> clock_inv c'" "on_clock d f m = Done m'"
  shows "cm_inv m'"
proof (cases "map_of (cmg_clocks m) d")
  case None
  then show ?thesis using assms(1,3) by (simp add: on_clock_def)
next
  case (Some c)
  then obtain c' where "f c = Done c'" "m' = put_clock d c' m"
    using assms(3) by (auto simp: on_clock_def and_then_Done)
  moreover have "clock_inv c" using assms(1) Some by (simp add: cm_inv_def)
  ultimately show ?thesis using assms(2) put_clock_inv [OF assms(1)] by blast
qed

lemma on_clock_total:
  assumes "cm_inv m" "\<And>c. clock_inv c \<Longrightarrow> clock_inv (g c)" "on_clock d (\<lambda>c. Done (g c)) m = Done m'"
  shows "cm_inv m'"
  using on_clock_inv [OF assms(1) _ assms(3)] assms(2) by blast

lemma cm_do_inv:
  assumes "cm_inv m" "cm_do call m = Done m'"
  shows "cm_inv m'"
proof (cases call)
  case (Record e now d rtp ptp rate)
  show ?thesis
  proof (cases "cmg_enabled m")
    case True
    obtain c m1 where g: "getClockForDomain e d m = (c, m1)" by fastforce
    then obtain c1 where "recordMediaClockReference now rtp ptp rate c = Done c1" "m' = put_clock d c1 m1"
      using assms(2) True Record by (auto simp: cm_recordMediaClockReference_def and_then_Done)
    then show ?thesis using get_clock_inv [OF assms(1), of e d] clock_record_inv put_clock_inv by (auto simp: g)
  next
    case False
    then show ?thesis using assms Record by (simp add: cm_recordMediaClockReference_def)
  qed
next
  case (Get e d)
  then show ?thesis using get_clock_inv [OF assms(1), of e d] assms(2) by auto
next
  case (Round d ev)
  then show ?thesis using on_clock_inv [OF assms(1) clock_round_inv] assms(2) by simp
next
  case (SetInterface e d name)
  then show ?thesis using on_clock_total [OF assms(1) clock_set_inv] assms(2) by simp
next
  case (Start e d)
  then show ?thesis using on_clock_total [OF assms(1) clock_start_inv] assms(2) by simp
next
  case (Stop d)
  then show ?thesis using on_clock_total [OF assms(1) clock_stop_inv] assms(2) by simp
next
  case (UpdateLoop d l r n sr)
  then show ?thesis using on_clock_inv [OF assms(1) clock_update_inv] assms(2) by simp
next
  case (AskMaster d)
  then show ?thesis using on_clock_total [OF assms(1) clock_master_inv] assms(2) by simp
qed (use assms in \<open>auto simp: setPTPEnabled_def removeClock_def cm_inv_def smap_ok_del map_of_smap_del split: if_splits\<close>)

interpretation ptp_sys: invariant_system cmg_start cm_step cm_inv
proof (unfold_locales, goal_cases)
  case (1 s)
  then show ?case by (simp add: cmg_start_def clock_manager_new_def cm_inv_def smap_ok_def)
next
  case (2 s t)
  from 2(2,1) show ?case by (cases rule: cm_step.cases) (rule cm_do_inv)
qed

section \<open>Timestamps\<close>

lemma unat_of_int_mod: "unat (of_int k :: u32) = nat (k mod 2 ^ 32)"
  by (simp add: unat_eq_nat_uint uint_word_of_int)

lemma rtp_difference:
  assumes "- (2 ^ 31) < k" "k \<le> 2 ^ 31"
  shows "rtpTimestampDifference (a + of_int k) a = k"
proof (cases "0 \<le> k")
  case True
  then have "unat (of_int k :: u32) = nat k" using assms by (simp add: unat_of_int_mod)
  moreover have "\<not> (of_int k :: u32) > 0x80000000"
    using assms True by (simp add: word_less_nat_alt unat_of_int_mod)
  ultimately show ?thesis using True by (simp add: rtpTimestampDifference_def)
next
  case False
  then have "k mod 2 ^ 32 = k + 2 ^ 32" using assms mod_pos_pos_trivial [of "k + 2 ^ 32" "2 ^ 32"] by simp
  then have g: "(of_int k :: u32) > 0x80000000"
    using assms False by (simp add: word_less_nat_alt unat_of_int_mod)
  have "0 - of_int k = (of_int (- k) :: u32)" by simp
  moreover have "unat (of_int (- k) :: u32) = nat (- k)" using assms False unfolding unat_of_int_mod by simp
  ultimately have "unat (0 - of_int k :: u32) = nat (- k)" by simp
  then show ?thesis using g False by (simp add: rtpTimestampDifference_def)
qed

lemma rtp_difference_range: "\<bar>rtpTimestampDifference a b\<bar> \<le> 2 ^ 31"
proof -
  define w where "w = a - b"
  have "unat (0 - w) = (if w = 0 then 0 else 2 ^ 32 - unat w)" using unat_sub_if' [of 0 w] by (auto simp: unat_eq_0)
  moreover have "unat w < 2 ^ 32" using unsigned_less [where w = w and 'a = nat] by simp
  moreover define u v where "u = unat w" and "v = unat (0 - w)"
  ultimately have uv: "2147483648 < u \<Longrightarrow> v \<le> 2147483648" by (cases "w = 0") auto
  have "rtpTimestampDifference a b = (if 2147483648 < u then - int v else int u)"
    by (simp add: rtpTimestampDifference_def Let_def w_def [symmetric] u_def v_def word_less_nat_alt)
  then show ?thesis using uv by auto
qed

lemma d_trunc_close: "\<bar>of_int (d_trunc x) - x\<bar> < 1"
proof (cases "0 \<le> x")
  case True
  then show ?thesis using floor_correct [of x] unfolding d_trunc_def abs_less_iff by (simp only: if_True) linarith
next
  case False
  then show ?thesis using ceiling_correct [of x] unfolding d_trunc_def abs_less_iff by (simp only: if_False) linarith
qed

lemma samples_to_ns_close:
  assumes "8000 \<le> unat rate" "\<bar>n\<bar> \<le> 2 ^ 31"
  shows "\<exists>t. samples_to_ns n rate = Done t \<and> \<bar>t - of_int n * 1000000000 / of_nat (unat rate)\<bar> < 1 / 10 \<and>
    \<bar>of_int n * 1000000000 / of_nat (unat rate)\<bar> \<le> (2 ^ 31 * 125000 :: rat)"
proof -
  define r :: rat where "r = of_nat (unat rate)"
  define x where "x = 1000000000 / r"
  define y where "y = f64_round x"
  define N :: rat where "N = of_int n"
  have nz: "rate \<noteq> 0" using assms(1) by auto
  have "of_nat 8000 \<le> r" unfolding r_def of_nat_le_iff using assms(1) .
  then have r: "8000 \<le> r" by simp
  have "unat rate < 2 ^ 32" using unsigned_less [where w = rate and 'a = nat] by simp
  then have "unat rate \<le> 2 ^ 53" by simp
  then have fr: "f64_round r = r" unfolding r_def by (rule f64_of_nat)
  have x: "0 \<le> x" "x \<le> 125000" using r by (simp_all add: x_def field_simps)
  have N: "\<bar>N\<bar> \<le> 2 ^ 31" using assms(2) unfolding N_def
    by (metis of_int_abs of_int_le_iff of_int_numeral of_int_power)
  have fn: "d_of_int n = N" unfolding d_of_int_def N_def by (rule f64_exact) (use assms(2) in simp)
  have ey: "\<bar>y - x\<bar> \<le> x / 2 ^ 53 + 1 / 2 ^ 1075" using f64_error [of x] x by (simp add: y_def)
  moreover have "x / 2 ^ 53 \<le> 125000 / 2 ^ 53" by (rule divide_right_mono [OF x(2)]) simp
  moreover have "125000 / 2 ^ 53 + 1 / 2 ^ 1075 \<le> 1 / (2 ^ 36 :: rat)" by simp
  ultimately have e1: "\<bar>y - x\<bar> \<le> 1 / 2 ^ 36" by linarith
  have p: "\<bar>N * y - N * x\<bar> \<le> 2 ^ 31 * (1 / 2 ^ 36)"
    unfolding right_diff_distrib [symmetric] abs_mult by (rule mult_mono [OF N e1]) simp_all
  have nx: "\<bar>N * x\<bar> \<le> 2 ^ 31 * 125000" unfolding abs_mult by (rule mult_mono [OF N]) (use x in simp_all)
  have "\<bar>N * y - N * x\<bar> \<le> 1" using p by (rule order_trans) simp
  then have "\<bar>N * y\<bar> \<le> 2 ^ 31 * 125000 + 1" using nx by linarith
  then have "\<bar>N * y\<bar> / 2 ^ 53 \<le> (2 ^ 31 * 125000 + 1) / 2 ^ 53" by (rule divide_right_mono) simp
  then have "\<bar>N * y\<bar> / 2 ^ 53 + 1 / 2 ^ 1075 \<le> (2 ^ 31 * 125000 + 1) / 2 ^ 53 + 1 / 2 ^ 1075" by simp
  also have "\<dots> \<le> 1 / 25" by simp
  finally have "\<bar>f64_round (N * y) - N * y\<bar> \<le> 1 / 25" using f64_error [of "N * y"] by linarith
  moreover have "\<bar>N * y - N * x\<bar> \<le> 1 / 32" using p by simp
  ultimately have "\<bar>f64_round (N * y) - N * x\<bar> < 1 / 10" by linarith
  moreover have "samples_to_ns n rate = Done (f64_round (N * y))"
    using nz by (simp add: samples_to_ns_def nsPerSample_def d_div_def d_mult_def fn fr [unfolded r_def, simplified] y_def x_def r_def)
  moreover have "N * x = of_int n * 1000000000 / of_nat (unat rate)" by (simp add: N_def x_def r_def)
  ultimately show ?thesis using nx by simp
qed

lemma media_time:
  assumes "mcr_valid (pk_current c)" "\<not> pll_isLocked (pk_pll c)" "8000 \<le> unat rate"
    and "3 * 10 ^ 14 \<le> unat (mcr_ptpTime (pk_current c))" "unat (mcr_ptpTime (pk_current c)) < 2 ^ 62"
  shows "\<exists>t. rtpTimestampToPTPTime now rtp rate c = Done t \<and>
    \<bar>of_nat (unat t) - (of_nat (unat (mcr_ptpTime (pk_current c))) +
      of_int (rtpTimestampDifference rtp (mcr_rtpTimestamp (pk_current c))) * 1000000000 / of_nat (unat rate))\<bar> < (11 / 10 :: rat)"
proof -
  define n where "n = rtpTimestampDifference rtp (mcr_rtpTimestamp (pk_current c))"
  define ref where "ref = unat (mcr_ptpTime (pk_current c))"
  define x where "x = of_int n * 1000000000 / (of_nat (unat rate) :: rat)"
  obtain t where t: "samples_to_ns n rate = Done t" "\<bar>t - x\<bar> < 1 / 10" "\<bar>x\<bar> \<le> 2 ^ 31 * 125000"
    using samples_to_ns_close [OF assms(3), of n] rtp_difference_range by (auto simp: n_def x_def)
  define k where "k = d_trunc t"
  have k: "\<bar>of_int k - x\<bar> < 11 / 10" using d_trunc_close [of t] t(2) unfolding k_def by linarith
  have "\<bar>of_int k :: rat\<bar> \<le> \<bar>of_int k - x\<bar> + \<bar>x\<bar>" by linarith
  also have "\<dots> < 11 / 10 + 2 ^ 31 * 125000" using k t(3) by (rule add_less_le_mono)
  also have "\<dots> \<le> of_int 300000000000000" by simp
  finally have kb: "\<bar>of_int k :: rat\<bar> < of_int 300000000000000" .
  then have kb: "\<bar>k\<bar> < 300000000000000" unfolding of_int_abs [symmetric] of_int_less_iff .
  have r: "3 * 10 ^ 14 \<le> ref" "ref < 2 ^ 62" using assms(4,5) by (simp_all add: ref_def)
  then have rz: "300000000000000 \<le> int ref" "int ref < 4611686018427387904" by simp_all
  have s: "sint (mcr_ptpTime (pk_current c)) = int ref" using r(2) by (simp add: ref_def sint_small)
  have i: "i64 (int ref + k) = Done (int ref + k)" by (rule i64_ok) (use rz kb in simp_all)
  have "0 \<le> int ref + k" "int ref + k < 2 ^ 64" using rz kb by simp_all
  then have u: "unat (of_int (int ref + k) :: u64) = nat (int ref + k)"
    by (simp only: unat_eq_nat_uint uint_word_of_int) simp
  have "rtpTimestampToPTPTime now rtp rate c = Done (of_int (int ref + k))"
    using assms(1,2) \<open>0 \<le> int ref + k\<close>
    by (simp add: rtpTimestampToPTPTime_def n_def [symmetric] t(1) k_def [symmetric] s i del: of_int_add)
  moreover have "of_nat (unat (of_int (int ref + k) :: u64)) = (of_nat ref + of_int k :: rat)"
    unfolding u of_nat_nat [OF \<open>0 \<le> int ref + k\<close>] by simp
  ultimately show ?thesis using k by (simp add: n_def x_def ref_def)
qed

lemma ratio_bounds: "max_ratio \<le> 10001 / 10000 + 1 / 10 ^ 9" "9999 / 10000 - 1 / 10 ^ 9 \<le> min_ratio" "min_ratio \<le> max_ratio"
proof -
  define q where "q = f64_round (1 / 10000)"
  have q: "q \<le> 1 / 10000 + 1 / 10 ^ 18" "1 / 10000 - 1 / 10 ^ 18 \<le> q"
    using f64_close [of "1 / 10000"] by (simp_all add: q_def)
  have m: "max_ratio = f64_round (1 + q)" "min_ratio = f64_round (1 - q)"
    by (simp_all add: max_ratio_def min_ratio_def d_add_def d_sub_def d_div_def q_def)
  have "f64_round (1 + q) \<le> 1 + q + (1 + q) / 10 ^ 15" by (rule f64_close(2)) (use q in simp)
  moreover have "(1 + q) / 10 ^ 15 \<le> 2 / 10 ^ 15" using q(1) by simp
  ultimately have "f64_round (1 + q) \<le> 1 + q + 2 / 10 ^ 15" by linarith
  then show "max_ratio \<le> 10001 / 10000 + 1 / 10 ^ 9" unfolding m using q(1) by simp
  have "1 - q - (1 - q) / 10 ^ 15 \<le> f64_round (1 - q)" by (rule f64_close(1)) (use q in simp)
  moreover have "(1 - q) / 10 ^ 15 \<le> 2 / 10 ^ 15" using q(2) by simp
  ultimately have "1 - q - 2 / 10 ^ 15 \<le> f64_round (1 - q)" by linarith
  then show "9999 / 10000 - 1 / 10 ^ 9 \<le> min_ratio" unfolding m using q(1) by simp
  have "0 \<le> q" using q(2) by simp
  then have "min_ratio \<le> of_int 1" unfolding m by (intro f64_between(1)) simp_all
  moreover have "of_int 1 \<le> max_ratio" unfolding m using \<open>0 \<le> q\<close> by (intro f64_between(2)) simp_all
  ultimately show "min_ratio \<le> max_ratio" by simp
qed

lemma clamp_ratio_bounds: "min_ratio \<le> clamp_ratio r \<and> clamp_ratio r \<le> max_ratio"
  using ratio_bounds(3) by (auto simp: clamp_ratio_def Let_def)

lemma drift_ratio_bounds: "getClockDriftRatio c = Done r \<Longrightarrow> \<bar>r - 1\<bar> \<le> 101 / 1000000"
proof -
  assume "getClockDriftRatio c = Done r"
  then have "r = 1 \<or> (\<exists>x. r = clamp_ratio x)"
    by (auto simp: getClockDriftRatio_def Let_def and_then_Done split: if_splits)
  moreover have "\<bar>clamp_ratio x - 1\<bar> \<le> 101 / 1000000" for x
  proof -
    have "clamp_ratio x \<le> 10001 / 10000 + 1 / 10 ^ 9" "9999 / 10000 - 1 / 10 ^ 9 \<le> clamp_ratio x"
      using clamp_ratio_bounds [of x] ratio_bounds(1,2) by linarith+
    then show ?thesis unfolding abs_le_iff by simp
  qed
  ultimately show ?thesis by auto
qed

section \<open>References at packet rate\<close>

type_synonym arrival = "u64 \<times> u32 \<times> u64 \<times> u32"

fun record_run :: "arrival list \<Rightarrow> ptp_clock \<Rightarrow> ptp_clock run" where
  "record_run [] c = Done c"
| "record_run ((now, rtp, ptp, rate) # as) c = and_then (recordMediaClockReference now rtp ptp rate c) (record_run as)"

text \<open>Each arrival is within 100 ms of the one before.\<close>

fun dense :: "u64 \<Rightarrow> arrival list \<Rightarrow> bool" where
  "dense t [] \<longleftrightarrow> True"
| "dense t ((now, rtp, ptp, rate) # as) \<longleftrightarrow> \<bar>sint ptp - sint t\<bar> \<le> 100000000 \<and> dense ptp as"

lemma record_dense:
  assumes "recordMediaClockReference now rtp ptp rate c = Done c'" "\<bar>sint ptp - sint (mcr_ptpTime (pk_current c))\<bar> \<le> 100000000"
  shows "pk_pll c' = pk_pll c \<and> mcr_ptpTime (pk_current c') = ptp"
  using assms by (auto simp: recordMediaClockReference_def Let_def and_then_Done i64_Done split: if_splits)

lemma record_run_dense:
  "record_run as c = Done c' \<Longrightarrow> dense (mcr_ptpTime (pk_current c)) as \<Longrightarrow> pk_pll c' = pk_pll c"
proof (induction as arbitrary: c)
  case Nil
  then show ?case by simp
next
  case (Cons a as)
  obtain now rtp ptp rate where a: "a = (now, rtp, ptp, rate)" by (metis prod_cases4)
  with Cons.prems obtain c1 where "recordMediaClockReference now rtp ptp rate c = Done c1" "record_run as c1 = Done c'"
    by (auto simp: and_then_Done)
  moreover from this(1) have "pk_pll c1 = pk_pll c \<and> mcr_ptpTime (pk_current c1) = ptp"
    using record_dense Cons.prems(2) by (simp add: a)
  ultimately show ?case using Cons.IH [of c1] Cons.prems(2) by (simp add: a)
qed

lemma idle_time: "clock_inv c \<Longrightarrow> getTime now c = now \<and> \<not> clock_isLocked c \<and> clock_getOffsetNs c = 0"
  by (auto simp: clock_inv_def ptpd_idle_def getTime_def clock_isLocked_def clock_getOffsetNs_def split: option.splits)

section \<open>Properties\<close>

text \<open>
  C33. No PTP time ever reaches the driver. Whatever is called on the manager and its clocks, with whatever interfaces and
  sockets, and whatever messages the slaves receive in rounds that return: no clock is locked or has an offset, and
  the time of every domain and stream is the local system clock. (The rounds that would measure do not return.)
\<close>

theorem ptp_time_is_local:
  assumes "reach cmg_start cm_step m"
  shows "getTimeForDomain now d m = now \<and> getTimeForStream now sdp m = now \<and>
    (\<forall>d' c. map_of (cmg_clocks m) d' = Some c \<longrightarrow> \<not> clock_isLocked c \<and> clock_getOffsetNs c = 0 \<and> getTime now c = now)"
  using ptp_sys.reach_inv [OF assms] idle_time
  by (auto simp: cm_inv_def getTimeForDomain_def getTimeForStream_def split: option.splits)

definition clock_env_example :: clock_env where
  "clock_env_example = \<lparr>ce_interfaces = [plain_interface ''en0'' ''10.0.0.7''], ce_garbage = example_announce,
     ce_answers = \<lparr>sa_mac = None, sa_now = 5, sa_sockets = Some (3, 4)\<rparr>\<rparr>"

definition one_clock :: clock_manager where
  "one_clock = snd (getClockForDomain clock_env_example 0 clock_manager_new)"

lemma one_clock_reach: "reach cmg_start cm_step one_clock"
proof -
  have "cm_step clock_manager_new one_clock"
    by (rule cm_step.intros [where call = "Get clock_env_example 0"]) (simp add: one_clock_def)
  then show ?thesis by (rule reach_step [rotated]) (simp add: reach_start cmg_start_def)
qed

lemma ptp_time_is_local_witness: "getActiveDomains one_clock = [0] \<and> getTimeForDomain 77 0 one_clock = 77"
  using ptp_time_is_local [OF one_clock_reach]
  by (simp add: one_clock_def getClockForDomain_def clock_manager_new_def Let_def put_clock_def getActiveDomains_def)

text \<open>
  C32. The media clock is accurate to a nanosecond. With a reference, a loop that is not locked and a rate of at least 8 kHz,
  the PTP time of an RTP timestamp is that of the reference plus the signed distance of the timestamps in seconds,
  within 1.1 ns, wherever the 32-bit timestamp wrapped in between.
\<close>

theorem media_time_accurate:
  assumes "mcr_valid (pk_current c)" "\<not> pll_isLocked (pk_pll c)" "8000 \<le> unat rate"
    and "3 * 10 ^ 14 \<le> unat (mcr_ptpTime (pk_current c))" "unat (mcr_ptpTime (pk_current c)) < 2 ^ 62"
    and "rtp = mcr_rtpTimestamp (pk_current c) + of_int k" "- (2 ^ 31) < k" "k \<le> 2 ^ 31"
  shows "\<exists>t. rtpTimestampToPTPTime now rtp rate c = Done t \<and>
    \<bar>of_nat (unat t) - (of_nat (unat (mcr_ptpTime (pk_current c))) + of_int k * 1000000000 / of_nat (unat rate))\<bar> < (11 / 10 :: rat)"
  using media_time [OF assms(1-5), of now rtp] unfolding assms(6) rtp_difference [OF assms(7,8)] .

definition referenced_clock :: ptp_clock where
  "referenced_clock = (ptp_clock_new clock_env_example 0)\<lparr>pk_current :=
     \<lparr>mcr_rtpTimestamp = 0xFFFFFFF0, mcr_ptpTime = 1700000000000000000, mcr_localTime = 0, mcr_sampleRate = 48000, mcr_valid = True\<rparr>\<rparr>"

lemma media_time_accurate_witness:
  "\<exists>t. rtpTimestampToPTPTime 0 0x20 48000 referenced_clock = Done t \<and>
    \<bar>of_nat (unat t) - (1700000000000000000 + 1000000 :: rat)\<bar> < 11 / 10"
proof -
  have l: "\<not> pll_isLocked (pk_pll referenced_clock)"
    by (simp add: referenced_clock_def ptp_clock_new_def Let_def pll_isLocked_def pll_new_def case_prod_beta)
  have c: "pk_current referenced_clock = \<lparr>mcr_rtpTimestamp = 0xFFFFFFF0, mcr_ptpTime = 1700000000000000000, mcr_localTime = 0,
     mcr_sampleRate = 48000, mcr_valid = True\<rparr>" by (simp add: referenced_clock_def)
  have k: "(0x20 :: u32) = 0xFFFFFFF0 + of_int 48" by simp
  show ?thesis using media_time_accurate [of referenced_clock 48000 "0x20" 48 0] l by (simp add: c k)
qed

text \<open>
  References at packet rate never reach the loop. It is updated only when two consecutive references are more than
  100 ms of PTP time apart; recorded for every packet, as the interface says, they never are, and the loop stays
  as it was: it does not lock and corrects nothing.
\<close>

theorem packets_never_update_loop:
  assumes "record_run as c = Done c'" "dense (mcr_ptpTime (pk_current c)) as"
  shows "pk_pll c' = pk_pll c"
  by (rule record_run_dense [OF assms])

lemma packets_never_update_loop_witness:
  "\<exists>c'. record_run [(1, 0x20, 1700000000001000000, 48000)] referenced_clock = Done c' \<and> pk_pll c' = pk_pll referenced_clock"
proof -
  have c: "pk_current referenced_clock = \<lparr>mcr_rtpTimestamp = 0xFFFFFFF0, mcr_ptpTime = 1700000000000000000, mcr_localTime = 0,
     mcr_sampleRate = 48000, mcr_valid = True\<rparr>" by (simp add: referenced_clock_def)
  obtain t where t: "samples_to_ns 48 48000 = Done t" "\<bar>t - 1000000\<bar> < 1 / 10" using samples_to_ns_close [of 48000 48] by auto
  have "rtpTimestampDifference 0x20 0xFFFFFFF0 = 48" by code_simp
  moreover have s: "sint (1700000000001000000 :: u64) - sint (1700000000000000000 :: u64) = 1000000" by simp
  moreover have "\<exists>x. i64 (d_trunc t - 1000000) = Done x"
  proof -
    have "\<bar>of_int (d_trunc t) - 1000000 :: rat\<bar> < of_int 2" using d_trunc_close [of t] t(2) by linarith
    then have "\<bar>d_trunc t - 1000000\<bar> < 2" by (metis of_int_abs of_int_diff of_int_less_iff of_int_numeral)
    then show ?thesis by (simp add: i64_def)
  qed
  ultimately have "\<exists>c'. record_run [(1, 0x20, 1700000000001000000, 48000)] referenced_clock = Done c'"
    by (auto simp: recordMediaClockReference_def Let_def c t(1) i64_ok)
  moreover have "dense (mcr_ptpTime (pk_current referenced_clock)) [(1, 0x20, 1700000000001000000, 48000)]"
    by (simp add: c)
  ultimately show ?thesis using packets_never_update_loop by blast
qed

end
