(* ===== verification/Ptp_Sockets.thy ===== *)
theory Ptp_Sockets
  imports Ptp_Slave Rtp_Packet
begin

text \<open>
  The sockets of \<open>NetworkEngine/PTP/PTPSlave.cpp\<close>: the event socket on port 319, the general socket on port 320, both members of
  the PTP group, and the hardware address of the interface. Answers of the kernel and the interface list are arguments;
  options whose result the code ignores are left out.
\<close>

section \<open>Interfaces\<close>

datatype ptp_if_address = NoAddress | Inet u32 | Link "u8 list" | OtherFamily

record ptp_if_entry =
  ie_name :: string
  ie_addr :: ptp_if_address

text \<open>\<open>None\<close>: \<open>getifaddrs\<close> failed.\<close>

fun mac_scan :: "string \<Rightarrow> ptp_if_entry list \<Rightarrow> u8 list option" where
  "mac_scan name [] = None"
| "mac_scan name (i # ifs) =
     (case ie_addr i of
        Link m \<Rightarrow> if ie_name i = name \<and> length m = 6 then Some m else mac_scan name ifs
      | _ \<Rightarrow> mac_scan name ifs)"

definition getInterfaceMAC :: "string \<Rightarrow> ptp_if_entry list option \<Rightarrow> u8 list option" where
  "getInterfaceMAC name ifaddrs = (case ifaddrs of None \<Rightarrow> None | Some ifs \<Rightarrow> mac_scan name ifs)"

text \<open>The address of the interface, and \<open>INADDR_ANY\<close> when it is not found.\<close>

fun inet_scan :: "string \<Rightarrow> ptp_if_entry list \<Rightarrow> u32" where
  "inet_scan name [] = 0"
| "inet_scan name (i # ifs) =
     (case ie_addr i of Inet a \<Rightarrow> if ie_name i = name then a else inet_scan name ifs | _ \<Rightarrow> inet_scan name ifs)"

definition multicast_interface :: "string \<Rightarrow> ptp_if_entry list option \<Rightarrow> u32" where
  "multicast_interface name ifaddrs = (case ifaddrs of None \<Rightarrow> 0 | Some ifs \<Rightarrow> inet_scan name ifs)"

section \<open>Opening and closing\<close>

record ptp_socket_results =
  pr_event :: int
  pr_event_bind :: bool
  pr_event_member :: bool
  pr_general :: int
  pr_general_bind :: bool
  pr_general_member :: bool

definition closeSockets_on :: "ptp_slave \<times> kernel \<Rightarrow> ptp_slave \<times> kernel" where
  "closeSockets_on st =
     (let (s, k) = st;
          k1 = (if ps_eventSocket s \<ge> 0 then kn_close (ps_eventSocket s) k else k);
          k2 = (if ps_generalSocket s \<ge> 0 then kn_close (ps_generalSocket s) k1 else k1)
      in (closeSockets s, k2))"

text \<open>\<open>ntoa\<close> writes an address as text, as the kernel's table of memberships has it.\<close>

definition createSockets ::
    "(u32 \<Rightarrow> string) \<Rightarrow> ptp_socket_results \<Rightarrow> ptp_if_entry list option \<Rightarrow> ptp_slave \<times> kernel \<Rightarrow> bool \<times> ptp_slave \<times> kernel" where
  "createSockets ntoa r ifaddrs st =
     (let (s, k) = st;
          iface = Some (ntoa (multicast_interface (psc_interfaceName (ps_config s)) ifaddrs));
          join = (\<lambda>fd k. k\<lparr>kn_members := insert (fd, ''224.0.1.129'', iface) (kn_members k)\<rparr>);
          s1 = s\<lparr>ps_eventSocket := pr_event r\<rparr>; k1 = kn_open (pr_event r) k
      in if pr_event r < 0 then (False, s1, k1)
         else if \<not> pr_event_bind r then (False, closeSockets_on (s1, k1))
         else if \<not> pr_event_member r then (False, closeSockets_on (s1, k1))
         else
           let k2 = join (pr_event r) k1; s2 = s1\<lparr>ps_generalSocket := pr_general r\<rparr>; k3 = kn_open (pr_general r) k2
           in if pr_general r < 0 then (False, closeSockets_on (s2, k3))
              else if \<not> pr_general_bind r then (False, closeSockets_on (s2, k3))
              else if \<not> pr_general_member r then (False, closeSockets_on (s2, k3))
              else (True, s2, join (pr_general r) k3))"

text \<open>Starting and stopping with the sockets.\<close>

definition ptp_start_on ::
    "(u32 \<Rightarrow> string) \<Rightarrow> ptp_socket_results \<Rightarrow> ptp_if_entry list option \<Rightarrow> ptp_if_entry list option \<Rightarrow> u64 \<Rightarrow> ptp_slave \<times> kernel \<Rightarrow>
     bool \<times> ptp_slave \<times> kernel" where
  "ptp_start_on ntoa r macs ifaddrs now st =
     (let (s, k) = st
      in if ps_running s then (False, s, k)
         else
           let (created, s1, k1) = createSockets ntoa r ifaddrs (s, k);
               (ok, s2) = ptp_start (getInterfaceMAC (psc_interfaceName (ps_config s)) macs) now
                 (if created then Some (ps_eventSocket s1, ps_generalSocket s1) else None)
                 (s\<lparr>ps_eventSocket := ps_eventSocket s1, ps_generalSocket := ps_generalSocket s1\<rparr>)
           in (ok, s2, k1))"

definition ptp_stop_on :: "ptp_slave \<times> kernel \<Rightarrow> ptp_slave \<times> kernel" where
  "ptp_stop_on st = (if ps_running (fst st) then (ptp_stop (fst st), snd (closeSockets_on st)) else st)"

section \<open>Effects\<close>

definition fresh_results :: "ptp_socket_results \<Rightarrow> kernel \<Rightarrow> bool" where
  "fresh_results r k \<longleftrightarrow> pr_event r \<notin> kn_fds k \<and> pr_general r \<notin> kn_fds k \<and> (pr_event r = pr_general r \<longrightarrow> pr_event r < 0) \<and>
     pr_event r \<ge> -1 \<and> pr_general r \<ge> -1 \<and> (\<forall>m \<in> kn_members k. fst m \<in> kn_fds k)"

lemma close_opened:
  assumes "fd \<notin> kn_fds k" "\<forall>m \<in> kn_members k. fst m \<in> kn_fds k" "0 \<le> fd"
  shows "kn_close fd (kn_open fd k) = k" "kn_close fd ((kn_open fd k)\<lparr>kn_members := insert (fd, x) (kn_members k)\<rparr>) = k"
proof -
  have m: "{m \<in> kn_members k. fst m \<noteq> fd} = kn_members k" using assms by auto
  have m': "{m \<in> insert (fd, x) (kn_members k). fst m \<noteq> fd} = kn_members k" using assms by auto
  show "kn_close fd (kn_open fd k) = k" using assms m by (simp add: kn_close_def kn_open_def)
  show "kn_close fd ((kn_open fd k)\<lparr>kn_members := insert (fd, x) (kn_members k)\<rparr>) = k"
    using assms m' by (simp add: kn_close_def kn_open_def)
qed

text \<open>The kernel after both sockets were opened and joined, and after both were closed again.\<close>

lemma close_both:
  assumes "fresh_results r k" "0 \<le> pr_event r" "0 \<le> pr_general r"
    and k1: "k1 = (kn_open (pr_event r) k)\<lparr>kn_members := insert (pr_event r, x) (kn_members k)\<rparr>"
  shows "kn_close (pr_general r) (kn_close (pr_event r) (kn_open (pr_general r) k1)) = k"
    "kn_close (pr_general r) (kn_close (pr_event r)
      ((kn_open (pr_general r) k1)\<lparr>kn_members := insert (pr_general r, y) (kn_members k1)\<rparr>)) = k"
    "kn_close (pr_event r) k1 = k"
proof -
  have f: "pr_event r \<notin> kn_fds k" "pr_general r \<notin> kn_fds k" "pr_event r \<noteq> pr_general r" "\<forall>m \<in> kn_members k. fst m \<in> kn_fds k"
    using assms(1-3) by (auto simp: fresh_results_def)
  have fds: "kn_fds k1 = insert (pr_event r) (kn_fds k)" "kn_members k1 = insert (pr_event r, x) (kn_members k)"
    using assms(2) by (simp_all add: k1 kn_open_def)
  have comm: "kn_close a (kn_close b k) = kn_close b (kn_close a k)" for a b and k :: kernel
  proof -
    have "kn_fds k - {b} - {a} = kn_fds k - {a} - {b}" by blast
    moreover have "{m \<in> {m \<in> kn_members k. fst m \<noteq> b}. fst m \<noteq> a} = {m \<in> {m \<in> kn_members k. fst m \<noteq> a}. fst m \<noteq> b}" by blast
    ultimately show ?thesis unfolding kn_close_def by simp
  qed
  show e: "kn_close (pr_event r) k1 = k"
    unfolding k1 by (rule close_opened(2) [OF f(1,4) assms(2)])
  have g: "pr_general r \<notin> kn_fds k1" "\<forall>m \<in> kn_members k1. fst m \<in> kn_fds k1" using f by (auto simp: fds)
  show "kn_close (pr_general r) (kn_close (pr_event r) (kn_open (pr_general r) k1)) = k"
    unfolding comm [of "pr_general r"] close_opened(1) [OF g assms(3)] by (rule e)
  show "kn_close (pr_general r) (kn_close (pr_event r)
      ((kn_open (pr_general r) k1)\<lparr>kn_members := insert (pr_general r, y) (kn_members k1)\<rparr>)) = k"
    unfolding comm [of "pr_general r"] close_opened(2) [OF g assms(3)] by (rule e)
qed

lemma create_effect:
  assumes "fresh_results r k" "ps_eventSocket s = -1" "ps_generalSocket s = -1"
    "createSockets ntoa r ifaddrs (s, k) = (ok, s', k')"
  shows "if ok then ps_eventSocket s' = pr_event r \<and> ps_generalSocket s' = pr_general r \<and> 0 \<le> pr_event r \<and> 0 \<le> pr_general r \<and>
      kn_fds k' = {pr_event r, pr_general r} \<union> kn_fds k \<and> snd (closeSockets_on (s', k')) = k
    else ps_eventSocket s' = -1 \<and> ps_generalSocket s' = -1 \<and> k' = k"
proof -
  define iface where "iface = Some (ntoa (multicast_interface (psc_interfaceName (ps_config s)) ifaddrs))"
  define k1 where "k1 = (kn_open (pr_event r) k)\<lparr>kn_members := insert (pr_event r, ''224.0.1.129'', iface) (kn_members k)\<rparr>"
  have m: "kn_members (kn_open fd k0) = kn_members k0" for fd and k0 :: kernel by (simp add: kn_open_def)
  have ge: "pr_event r \<ge> -1" "pr_general r \<ge> -1" using assms(1) by (simp_all add: fresh_results_def)
  note f = assms(1) [unfolded fresh_results_def]
  show ?thesis
  proof (cases "0 \<le> pr_event r")
    case False
    then have "pr_event r = -1" using ge by simp
    then show ?thesis using assms(2-4) by (auto simp: createSockets_def Let_def kn_open_def)
  next
    case e: True
    have c1: "kn_close (pr_event r) (kn_open (pr_event r) k) = k" using f e by (intro close_opened(1)) auto
    show ?thesis
    proof (cases "pr_event_bind r \<and> pr_event_member r")
      case False
      then have "createSockets ntoa r ifaddrs (s, k) = (False, closeSockets_on (s\<lparr>ps_eventSocket := pr_event r\<rparr>, kn_open (pr_event r) k))"
        using e by (auto simp: createSockets_def Let_def)
      then show ?thesis using assms(2-4) e c1
        by (auto simp: Let_def closeSockets_on_def closeSockets_def)
    next
      case b: True
      have c: "createSockets ntoa r ifaddrs (s, k) =
          (let s2 = s\<lparr>ps_eventSocket := pr_event r, ps_generalSocket := pr_general r\<rparr>; k3 = kn_open (pr_general r) k1
           in if pr_general r < 0 \<or> \<not> pr_general_bind r \<or> \<not> pr_general_member r then (False, closeSockets_on (s2, k3))
              else (True, s2, k3\<lparr>kn_members := insert (pr_general r, ''224.0.1.129'', iface) (kn_members k3)\<rparr>))"
        using b e by (simp add: createSockets_def Let_def iface_def [symmetric] k1_def m)
      show ?thesis
      proof (cases "0 \<le> pr_general r")
        case False
        then have "pr_general r = -1" using ge by simp
        have "kn_close (pr_event r) k1 = k"
          unfolding k1_def using f e by (intro close_opened(2)) auto
        then show ?thesis using assms(4) c e \<open>pr_general r = -1\<close>
          by (auto simp: Let_def closeSockets_on_def closeSockets_def kn_open_def)
      next
        case g: True
        note cb = close_both [OF assms(1) e g k1_def]
        have fds: "kn_fds (kn_open (pr_general r) k1) = {pr_event r, pr_general r} \<union> kn_fds k"
          using e g by (auto simp: k1_def kn_open_def)
        show ?thesis
        proof (cases "pr_general_bind r \<and> pr_general_member r")
          case True
          then show ?thesis using assms(4) c e g cb(2) [of "(''224.0.1.129'', iface)"] fds m
            by (auto simp: Let_def closeSockets_on_def)
        next
          case False
          then show ?thesis using assms(4) c e g cb(1)
            by (auto simp: Let_def closeSockets_on_def closeSockets_def)
        qed
      qed
    qed
  qed
qed

section \<open>Properties\<close>

text \<open>
  C31. Starting the slave is all or nothing, and stopping undoes it. Whichever system call fails, no socket and no membership
  stays behind and the slave does not run; when all succeed both sockets are open, and stopping gives the kernel back exactly
  as it was.
\<close>

theorem ptp_sockets_restored:
  assumes "fresh_results r k" "ps_eventSocket s = -1" "ps_generalSocket s = -1" "\<not> ps_running s"
    "ptp_start_on ntoa r macs ifaddrs now (s, k) = (ok, s', k')"
  shows "if ok then ps_running s' \<and> kn_fds k' = {pr_event r, pr_general r} \<union> kn_fds k \<and> snd (ptp_stop_on (s', k')) = k \<and>
      ps_eventSocket (fst (ptp_stop_on (s', k'))) = -1 \<and> ps_generalSocket (fst (ptp_stop_on (s', k'))) = -1
    else \<not> ps_running s' \<and> ps_eventSocket s' = -1 \<and> ps_generalSocket s' = -1 \<and> k' = k"
proof -
  obtain created s1 k1 where c: "createSockets ntoa r ifaddrs (s, k) = (created, s1, k1)" by (metis prod_cases3)
  note e = create_effect [OF assms(1-3) c]
  show ?thesis
  proof (cases created)
    case True
    with e assms(4,5) c show ?thesis
      by (auto simp: ptp_start_on_def Let_def ptp_start_def ptp_stop_on_def ptp_stop_def closeSockets_on_def closeSockets_def)
  next
    case False
    with e assms(4,5) c show ?thesis by (auto simp: ptp_start_on_def Let_def ptp_start_def)
  qed
qed

definition socket_results :: ptp_socket_results where
  "socket_results = \<lparr>pr_event = 3, pr_event_bind = True, pr_event_member = True, pr_general = 4, pr_general_bind = True,
     pr_general_member = False\<rparr>"

definition plain_kernel :: kernel where "plain_kernel = \<lparr>kn_fds = {0, 1, 2}, kn_members = {}\<rparr>"

lemma ptp_sockets_restored_witness:
  "\<forall>garbage config. let s = ptp_new garbage config; (ok, s', k') = ptp_start_on (\<lambda>_. ''0.0.0.0'') socket_results None None 0 (s, plain_kernel)
   in \<not> ok \<and> k' = plain_kernel"
proof (intro allI)
  fix garbage config
  let ?s = "ptp_new garbage config"
  obtain ok s' k' where e: "ptp_start_on (\<lambda>_. ''0.0.0.0'') socket_results None None 0 (?s, plain_kernel) = (ok, s', k')"
    by (metis prod_cases3)
  have s: "ps_eventSocket ?s = -1" "ps_generalSocket ?s = -1" "\<not> ps_running ?s" by (simp_all add: ptp_new_def)
  have f: "fresh_results socket_results plain_kernel" by (simp add: fresh_results_def socket_results_def plain_kernel_def)
  have "fst (ptp_start_on (\<lambda>_. ''0.0.0.0'') socket_results None None 0 (?s, plain_kernel)) = False"
    by (simp add: ptp_start_on_def createSockets_def Let_def socket_results_def s closeSockets_on_def closeSockets_def ptp_start_def)
  with ptp_sockets_restored [OF f s e] e
  show "let s = ?s; (ok, s', k') = ptp_start_on (\<lambda>_. ''0.0.0.0'') socket_results None None 0 (s, plain_kernel) in \<not> ok \<and> k' = plain_kernel"
    by (simp add: Let_def)
qed

end
