(* ===== verification/Sap_Listener.thy ===== *)
theory Sap_Listener
  imports Sdp_Roundtrip Rtp_Packet
begin

text \<open>
  \<open>NetworkEngine/Discovery/SAPListener.cpp\<close>: the socket of the listener, the announcements it accepts
  and the list of discovered streams. A datagram is the list of its bytes; results of the kernel are
  arguments.
\<close>

section \<open>Announcements\<close>

record sap_announcement =
  an_sessionDescription :: string
  an_sourceAddress :: string
  an_sessionName :: string
  an_multicastAddress :: string
  an_port :: int
  an_ptpDomain :: int

definition announcement_new :: "string \<Rightarrow> sap_announcement" where
  "announcement_new source = \<lparr>an_sessionDescription = [], an_sourceAddress = source, an_sessionName = [],
     an_multicastAddress = [], an_port = 0, an_ptpDomain = 0\<rparr>"

text \<open>The bytes as characters.\<close>

definition text_of :: "u8 list \<Rightarrow> string" where
  "text_of = map (\<lambda>b. char_of (unat b))"

text \<open>The text after the header, of a datagram the listener takes for an announcement.\<close>

definition sap_payload :: "u8 list \<Rightarrow> string option" where
  "sap_payload data =
     (if length data < 4 \<or> length data > 4096 then None
      else
        let sapHeader = data ! 0; version = drop_bit 5 sapHeader AND 7; typeBit = drop_bit 2 sapHeader AND 1;
            encrypted = drop_bit 1 sapHeader AND 1; compressed = sapHeader AND 1;
            payloadStart = 8 + unat (data ! 1) * 4
        in if version \<noteq> 1 then None
           else if typeBit \<noteq> 0 then None
           else if encrypted \<noteq> 0 \<or> compressed \<noteq> 0 then None
           else if payloadStart \<ge> length data then None
           else if length data - payloadStart < 5 then None
           else let sdpContent = text_of (drop payloadStart data)
                in if occurs_in ''v=0'' sdpContent then Some sdpContent else None)"

text \<open>What follows the first blank, and what follows the last one.\<close>

definition after_blank :: "string \<Rightarrow> string option" where
  "after_blank s = (case dropWhile (\<lambda>c. c \<noteq> CHR '' '') s of [] \<Rightarrow> None | _ # r \<Rightarrow> Some r)"

definition after_last_blank :: "string \<Rightarrow> string" where
  "after_last_blank s = rev (takeWhile (\<lambda>c. c \<noteq> CHR '' '') (rev s))"

definition sap_line :: "string \<Rightarrow> sap_announcement \<Rightarrow> sap_announcement" where
  "sap_line line a =
     (if take 2 line = ''s='' then a\<lparr>an_sessionName := drop 2 line\<rparr>
      else if take 2 line = ''c=''
      then (if CHR '' '' \<in> set line then a\<lparr>an_multicastAddress := after_last_blank line\<rparr> else a)
      else if take 2 line = ''m=''
      then (case after_blank (drop 2 line) of
              None \<Rightarrow> a
            | Some r \<Rightarrow>
                (case after_blank r of
                   None \<Rightarrow> a
                 | Some _ \<Rightarrow>
                     a\<lparr>an_port := (case stoi (takeWhile (\<lambda>c. c \<noteq> CHR '' '') r) of None \<Rightarrow> 0 | Some p \<Rightarrow> p)\<rparr>))
      else a)"

text \<open>The lines, the last one only when it is not empty.\<close>

definition parseSDPInfo :: "string \<Rightarrow> sap_announcement \<Rightarrow> sap_announcement" where
  "parseSDPInfo sdp a = fold sap_line (map drop_cr (getline_all CHR 0x0A sdp)) a"

definition parseSAPAnnouncement :: "u8 list \<Rightarrow> string \<Rightarrow> sap_announcement" where
  "parseSAPAnnouncement data sourceAddress =
     (let a = announcement_new sourceAddress
      in case sap_payload data of
           None \<Rightarrow> a
         | Some sdpContent \<Rightarrow> parseSDPInfo sdpContent (a\<lparr>an_sessionDescription := sdpContent\<rparr>))"

section \<open>The listener\<close>

record sap_listener =
  sl_running :: bool
  sl_sockFd :: int
  sl_callbacks :: nat
  sl_discovered :: "sap_announcement list"
  sl_notified :: "(nat \<times> sap_announcement) list"    \<comment> \<open>the calls of the callbacks so far\<close>

definition sap_new :: sap_listener where
  "sap_new = \<lparr>sl_running = False, sl_sockFd = -1, sl_callbacks = 0, sl_discovered = [], sl_notified = []\<rparr>"

text \<open>A failure closes the descriptor and leaves its number in the member.\<close>

definition sap_initialize :: "open_results \<Rightarrow> sap_listener \<times> kernel \<Rightarrow> bool \<times> sap_listener \<times> kernel" where
  "sap_initialize r st =
     (let (l, k) = st; fd = or_socket r; l1 = l\<lparr>sl_sockFd := fd\<rparr>; k1 = kn_open fd k
      in if fd < 0 then (False, l1, k1)
         else if \<not> or_reuseaddr r \<or> \<not> or_bind r \<or> \<not> or_add_membership r then (False, l1, kn_close fd k1)
         else (True, l1, k1\<lparr>kn_members := insert (fd, ''224.2.127.254'', None) (kn_members k1)\<rparr>))"

definition sap_start :: "sap_listener \<Rightarrow> bool \<times> sap_listener" where
  "sap_start l = (if sl_running l then (False, l) else (True, l\<lparr>sl_running := True\<rparr>))"

definition sap_stop :: "sap_listener \<times> kernel \<Rightarrow> sap_listener \<times> kernel" where
  "sap_stop st =
     (let (l, k) = st
      in if \<not> sl_running l then (l, k)
         else
           let l1 = l\<lparr>sl_running := False\<rparr>
           in if sl_sockFd l \<ge> 0 then (l1\<lparr>sl_sockFd := -1\<rparr>, kn_close (sl_sockFd l) k) else (l1, k))"

definition registerAnnouncementCallback :: "sap_listener \<Rightarrow> sap_listener" where
  "registerAnnouncementCallback l = l\<lparr>sl_callbacks := sl_callbacks l + 1\<rparr>"

definition same_announcer :: "sap_announcement \<Rightarrow> sap_announcement \<Rightarrow> bool" where
  "same_announcer x y \<longleftrightarrow> an_sessionName x = an_sessionName y \<and> an_sourceAddress x = an_sourceAddress y"

definition store_announcement :: "sap_announcement \<Rightarrow> sap_announcement list \<Rightarrow> sap_announcement list" where
  "store_announcement a ds =
     (if list_ex (\<lambda>e. same_announcer e a) ds then ds
      else let ds1 = ds @ [a] in if length ds1 > 50 then tl ds1 else ds1)"

text \<open>One datagram, of which the buffer takes 2047 bytes; an empty one is skipped.\<close>

definition sap_receive :: "u8 list \<times> string \<Rightarrow> sap_listener \<Rightarrow> sap_listener" where
  "sap_receive datagram l =
     (let data = take 2047 (fst datagram)
      in if data = [] then l
         else
           let a = parseSAPAnnouncement data (snd datagram)
           in if an_sessionDescription a = [] then l
              else l\<lparr>sl_discovered := store_announcement a (sl_discovered l),
                     sl_notified := sl_notified l @ map (\<lambda>i. (i, a)) [0..<sl_callbacks l]\<rparr>)"

section \<open>The list of streams\<close>

lemma sap_line_keeps [simp]: "an_sessionDescription (sap_line l a) = an_sessionDescription a"
    "an_sourceAddress (sap_line l a) = an_sourceAddress a"
  by (simp_all add: sap_line_def split: option.split)

lemma parseSDPInfo_keeps [simp]: "an_sessionDescription (parseSDPInfo sdp a) = an_sessionDescription a"
    "an_sourceAddress (parseSDPInfo sdp a) = an_sourceAddress a"
proof -
  have "an_sessionDescription (fold sap_line ls a) = an_sessionDescription a \<and>
      an_sourceAddress (fold sap_line ls a) = an_sourceAddress a" for ls
    by (induction ls arbitrary: a) simp_all
  then show "an_sessionDescription (parseSDPInfo sdp a) = an_sessionDescription a"
    "an_sourceAddress (parseSDPInfo sdp a) = an_sourceAddress a" by (simp_all add: parseSDPInfo_def)
qed

definition streams_inv :: "(u8 list \<times> string) set \<Rightarrow> sap_announcement list \<Rightarrow> bool" where
  "streams_inv received ds \<longleftrightarrow> length ds \<le> 50 \<and> distinct (map (\<lambda>a. (an_sessionName a, an_sourceAddress a)) ds) \<and>
     (\<forall>a \<in> set ds. \<exists>(data, source) \<in> received. a = parseSAPAnnouncement (take 2047 data) source \<and>
        sap_payload (take 2047 data) = Some (an_sessionDescription a))"

lemma store_inv:
  assumes "streams_inv R ds" "(data, source) \<in> R" "a = parseSAPAnnouncement (take 2047 data) source"
    "an_sessionDescription a \<noteq> []"
  shows "streams_inv R (store_announcement a ds)"
proof -
  have p: "sap_payload (take 2047 data) = Some (an_sessionDescription a)"
    using assms(3,4) by (auto simp: parseSAPAnnouncement_def announcement_new_def Let_def split: option.splits)
  show ?thesis
  proof (cases "list_ex (\<lambda>e. same_announcer e a) ds")
    case True
    then show ?thesis using assms(1) by (simp add: store_announcement_def)
  next
    case False
    then have new: "(an_sessionName a, an_sourceAddress a) \<notin> (\<lambda>a. (an_sessionName a, an_sourceAddress a)) ` set ds"
      by (auto simp: list_ex_iff same_announcer_def)
    define ds1 where "ds1 = ds @ [a]"
    have d: "distinct (map (\<lambda>a. (an_sessionName a, an_sourceAddress a)) ds1)" "length ds1 \<le> 51"
      using assms(1) new by (simp_all add: streams_inv_def ds1_def)
    have m: "\<forall>b \<in> set ds1. \<exists>(data, source) \<in> R. b = parseSAPAnnouncement (take 2047 data) source \<and>
        sap_payload (take 2047 data) = Some (an_sessionDescription b)"
      using assms p by (auto simp: streams_inv_def ds1_def)
    have t: "set (tl ds1) \<subseteq> set ds1" by (cases ds1) auto
    have "distinct (map (\<lambda>a. (an_sessionName a, an_sourceAddress a)) (tl ds1))"
      using d(1) by (simp add: map_tl distinct_tl)
    then show ?thesis using False d m t
      by (auto simp: store_announcement_def ds1_def [symmetric] streams_inv_def Let_def)
  qed
qed

lemma receive_inv:
  assumes "streams_inv R (sl_discovered l)"
  shows "streams_inv (insert d R) (sl_discovered (sap_receive d l))"
proof -
  have w: "streams_inv (insert d R) (sl_discovered l)" using assms by (auto simp: streams_inv_def)
  obtain data source where d: "d = (data, source)" by fastforce
  show ?thesis
    using store_inv [OF w, of data source] w by (auto simp: sap_receive_def Let_def d)
qed

lemma receive_all_inv: "streams_inv R (sl_discovered l) \<Longrightarrow>
  streams_inv (set ds \<union> R) (sl_discovered (fold sap_receive ds l))"
  by (induction ds arbitrary: R l) (force dest: receive_inv simp: insert_commute)+

section \<open>Announcing a generated description\<close>

definition bytes_of :: "string \<Rightarrow> u8 list" where
  "bytes_of = map (\<lambda>c. of_nat (of_char c))"

lemma text_bytes: "text_of (bytes_of s) = s"
proof -
  have "char_of (unat (of_nat (of_char c) :: u8)) = c" for c :: char
  proof -
    have "(of_char c :: nat) < 256" using of_char_mod_256 [of c, where 'a = nat] by (metis mod_less_divisor zero_less_numeral)
    then show ?thesis by (simp add: unat_of_nat take_bit_eq_mod)
  qed
  then show ?thesis by (simp add: text_of_def bytes_of_def map_idI)
qed

text \<open>An announcement of version 1: authentication data of \<open>auth\<close> words, then the text.\<close>

definition sap_packet :: "u8 \<Rightarrow> u8 list \<Rightarrow> u8 list \<Rightarrow> string \<Rightarrow> u8 list" where
  "sap_packet auth header authentication text = [0x20, auth] @ header @ authentication @ bytes_of text"

lemma sap_packet_payload:
  assumes "length header = 6" "length authentication = 4 * unat auth" "length (sap_packet auth header authentication text) \<le> 4096"
    and "occurs_in ''v=0'' text" "5 \<le> length text"
  shows "sap_payload (sap_packet auth header authentication text) = Some text"
proof -
  define p where "p = sap_packet auth header authentication text"
  have l: "length p = 8 + 4 * unat auth + length text" using assms(1,2) by (simp add: p_def sap_packet_def bytes_of_def)
  have "length ([0x20, auth] @ header @ authentication) = 8 + unat auth * 4" using assms(1,2) by simp
  then have "drop (8 + unat auth * 4) (([0x20, auth] @ header @ authentication) @ bytes_of text) = bytes_of text"
    by (metis append_eq_conv_conj)
  then have "drop (8 + unat auth * 4) p = bytes_of text" by (simp add: p_def sap_packet_def)
  moreover have "p ! 0 = 0x20" "p ! 1 = auth" by (simp_all add: p_def sap_packet_def)
  ultimately show ?thesis
    using assms(3-5) l unfolding p_def [symmetric] sap_payload_def Let_def by (auto simp: text_bytes)
qed

lemma takeWhile_blank: "CHR '' '' \<notin> set a \<Longrightarrow> takeWhile (\<lambda>c. c \<noteq> CHR '' '') (a @ CHR '' '' # b) = a"
  by (induction a) auto

lemma after_last_blank_append: "CHR '' '' \<notin> set b \<Longrightarrow> after_last_blank (a @ CHR '' '' # b) = b"
  using takeWhile_blank [of "rev b" "rev a"] by (simp add: after_last_blank_def)

lemma after_blank_append: "CHR '' '' \<notin> set a \<Longrightarrow> after_blank (a @ CHR '' '' # b) = Some b"
  by (induction a) (auto simp: after_blank_def)

definition connection_text :: "sdp_session \<Rightarrow> string" where
  "connection_text s = sd_connectionAddress s @ ''/'' @ show_nat (unat (sd_ttl s))"

lemma sap_line_session: "sap_line (''s='' @ w) a = a\<lparr>an_sessionName := w\<rparr>"
  by (simp add: sap_line_def)

lemma sap_line_connection:
  assumes "sdp_printable s"
  shows "sap_line (generateConnectionLine s) a = a\<lparr>an_multicastAddress := connection_text s\<rparr>"
proof -
  have "CHR '' '' \<notin> set (connection_text s)"
    using token_no_blank [OF sdp_tok(7) [OF assms]] token_no_blank [OF token_show_nat]
    by (simp add: connection_text_def)
  moreover have "generateConnectionLine s =
      (''c='' @ sd_connectionType s @ '' '' @ sd_connectionNetwork s) @ CHR '' '' # connection_text s"
    using sdp_conn(2) [OF assms] by (simp add: generateConnectionLine_def connection_text_def)
  ultimately show ?thesis by (simp add: sap_line_def after_last_blank_append del: append_assoc) (simp add: sap_line_def after_last_blank_append [of _ "''c='' @ sd_connectionType s @ '' '' @ sd_connectionNetwork s", simplified])
qed

lemma sap_line_media:
  assumes "sdp_printable s"
  shows "sap_line (generateMediaLine s) a = a\<lparr>an_port := int (unat (sd_port s))\<rparr>"
proof -
  have m: "CHR '' '' \<notin> set (sd_mediaType s)" using token_no_blank [OF sdp_tok(8) [OF assms]] .
  have p: "CHR '' '' \<notin> set (show_nat n)" for n using token_no_blank [OF token_show_nat] .
  have "stoi (show_nat (unat (sd_port s))) = Some (int (unat (sd_port s)))"
    using stoi_unat [of "sd_port s"] by simp
  then show ?thesis
    by (simp add: sap_line_def generateMediaLine_def after_blank_append [OF m] after_blank_append [OF p] takeWhile_blank [OF p])
qed

lemma attribute_lines: "l \<in> set (generateAttributes s) \<Longrightarrow> take 2 l = ''a=''"
  by (auto simp: generateAttributes_def split: if_splits)

lemma fold_other: "\<forall>l \<in> set ls. take 2 l \<notin> {''s='', ''c='', ''m=''} \<Longrightarrow> fold sap_line ls a = a"
  by (induction ls) (simp_all add: sap_line_def)

lemma parse_generated_info:
  assumes "sdp_printable s"
  shows "parseSDPInfo (generate now s) a = a\<lparr>an_sessionName := sd_sessionName s, an_multicastAddress := connection_text s,
     an_port := int (unat (sd_port s))\<rparr>"
proof -
  have ok: "\<forall>l \<in> set (generate_lines now s). line_ok l" by (rule generate_lines_ok [OF assms])
  then have "splitLines (generate now s) = generate_lines now s"
    unfolding generate_def by (intro splitLines_text) (auto simp: line_ok_def)
  then have "parseSDPInfo (generate now s) a = fold sap_line (generate_lines now s) a"
    by (simp add: parseSDPInfo_def splitLines_def)
  moreover have "take 2 (generateOriginLine now s) = ''o=''" by (simp add: generateOriginLine_def)
  moreover have "fold sap_line (generateAttributes s) b = b" for b
    by (rule fold_other) (auto dest: attribute_lines)
  ultimately show ?thesis
    by (simp add: generate_lines_def sap_line_session [simplified] sap_line_connection [OF assms] sap_line_media [OF assms] sap_line_def [of "CHR ''v'' # _"]
        sap_line_def [of "generateOriginLine now s"] sap_line_def [of "CHR ''t'' # _"] sap_line_def [of "CHR ''i'' # _"])
qed

lemma generated_version: "occurs_in ''v=0'' (generate now s)" "5 \<le> length (generate now s)"
proof -
  have g: "\<exists>r. generate now s = ''v=0'' @ nl @ r" by (simp add: generate_def generate_lines_def)
  then show "occurs_in ''v=0'' (generate now s)" using occurs_in_append [of "''v=0''" "[]"] by auto
  obtain r where r: "generate now s = ''v=0'' @ nl @ r" using g by blast
  have "r \<noteq> []" using r by (auto simp: generate_def generate_lines_def nl_def)
  then show "5 \<le> length (generate now s)" unfolding r by (cases r) (simp_all add: nl_def)
qed

definition sap_announced :: "u64 \<Rightarrow> sdp_session \<Rightarrow> string \<Rightarrow> sap_announcement" where
  "sap_announced now s source = \<lparr>an_sessionDescription = generate now s, an_sourceAddress = source,
     an_sessionName = sd_sessionName s, an_multicastAddress = connection_text s, an_port = int (unat (sd_port s)),
     an_ptpDomain = 0\<rparr>"

lemma parse_announced:
  assumes "sdp_printable s" "length header = 6" "length authentication = 4 * unat auth"
    "p = sap_packet auth header authentication (generate now s)" "length p \<le> 2047"
  shows "parseSAPAnnouncement (take 2047 p) source = sap_announced now s source"
proof -
  have "sap_payload p = Some (generate now s)"
    unfolding assms(4) by (rule sap_packet_payload) (use assms generated_version in simp_all)
  then show ?thesis
    using assms(5) parse_generated_info [OF assms(1)]
    by (simp add: parseSAPAnnouncement_def Let_def announcement_new_def sap_announced_def)
qed

lemma receive_announced:
  assumes "sdp_printable s" "length header = 6" "length authentication = 4 * unat auth"
    "p = sap_packet auth header authentication (generate now s)" "length p \<le> 2047"
  shows "sap_receive (p, source) l = l\<lparr>sl_discovered := store_announcement (sap_announced now s source) (sl_discovered l),
    sl_notified := sl_notified l @ map (\<lambda>i. (i, sap_announced now s source)) [0..<sl_callbacks l]\<rparr>"
proof -
  have "p \<noteq> []" using assms(4) by (simp add: sap_packet_def)
  moreover have "generate now s \<noteq> []" by (simp add: generate_def generate_lines_def)
  ultimately show ?thesis using parse_announced [OF assms]
    by (simp add: sap_receive_def Let_def sap_announced_def)
qed

section \<open>Properties\<close>

text \<open>
  The list of discovered streams. Whatever datagrams arrive at a new listener, the list has at most fifty streams, no two
  of the same name and source, and each is what some received datagram announces, with the text of that datagram.
\<close>

theorem sap_discovered:
  assumes "l = fold sap_receive ds sap_new"
  shows "length (sl_discovered l) \<le> 50 \<and>
    distinct (map (\<lambda>a. (an_sessionName a, an_sourceAddress a)) (sl_discovered l)) \<and>
    (\<forall>a \<in> set (sl_discovered l). \<exists>(data, source) \<in> set ds. a = parseSAPAnnouncement (take 2047 data) source \<and>
       sap_payload (take 2047 data) = Some (an_sessionDescription a))"
  using receive_all_inv [of "{}" sap_new ds] assms by (simp add: streams_inv_def sap_new_def)

definition example_announcement :: "u8 list" where
  "example_announcement = sap_packet 1 [0, 0, 10, 0, 0, 1] [1, 2, 3, 4] (generate 9 example_session)"

lemma example_length: "length (sap_packet auth header authentication (generate 9 (example_session\<lparr>sd_port := w\<rparr>))) \<le>
    700 + length header + length authentication"
  using example_text_length [of w] by (simp add: sap_packet_def bytes_of_def)

lemma example_announcement_length: "length example_announcement \<le> 2047"
  using example_length [of 1 "[0, 0, 10, 0, 0, 1]" "[1, 2, 3, 4]" 5004]
  by (simp add: example_announcement_def example_session_def createDefaultTxSession_def sdp_default_def)

lemma sap_discovered_witness:
  "length (sl_discovered (fold sap_receive [([0x20, 0], ''10.0.0.1''), (example_announcement, ''10.0.0.1'')] sap_new)) \<le> 50"
  using sap_discovered by blast

text \<open>
  C37. A stream announced with the text the driver itself generates is discovered and can be imported. Whatever the header and the
  authentication data of a datagram of at most 2047 bytes are (the listener reads no more): when no stream of that name and source is listed
  yet, the session joins the end of the list with its name, its port and its text, from which the parser gets the session back, and the
  oldest of fifty streams makes room; when one is listed, the list stays as it is, old address and port included. All callbacks are
  told either way. The address of the announcement still has the TTL appended.
\<close>

theorem sap_announces_session:
  assumes "sdp_printable s" "length header = 6" "length authentication = 4 * unat auth"
    "p = sap_packet auth header authentication (generate now s)" "length p \<le> 2047" "l' = sap_receive (p, source) l"
  shows "\<exists>a. an_sessionName a = sd_sessionName s \<and> an_port a = int (unat (sd_port s)) \<and> an_sourceAddress a = source \<and>
    an_multicastAddress a = sd_connectionAddress s @ ''/'' @ show_nat (unat (sd_ttl s)) \<and>
    parseString (an_sessionDescription a) = Parsed (s\<lparr>sd_sessionID := if sd_sessionID s = 0 then now else sd_sessionID s\<rparr>) \<and>
    sl_discovered l' =
      (if \<exists>e \<in> set (sl_discovered l). an_sessionName e = sd_sessionName s \<and> an_sourceAddress e = source then sl_discovered l
       else (if length (sl_discovered l) < 50 then sl_discovered l else tl (sl_discovered l)) @ [a]) \<and>
    sl_notified l' = sl_notified l @ map (\<lambda>i. (i, a)) [0..<sl_callbacks l]"
proof -
  define a where "a = sap_announced now s source"
  have f: "an_sessionName a = sd_sessionName s" "an_sourceAddress a = source" by (simp_all add: a_def sap_announced_def)
  have s: "store_announcement a ds =
      (if \<exists>e \<in> set ds. an_sessionName e = sd_sessionName s \<and> an_sourceAddress e = source then ds
       else (if length ds < 50 then ds else tl ds) @ [a])" for ds
    by (cases ds) (auto simp: store_announcement_def same_announcer_def list_ex_iff Let_def f)
  show ?thesis
    using receive_announced [OF assms(1-5), of source l] s
    by (intro exI [of _ a]) (simp add: assms(6) parse_generate [OF assms(1)] a_def sap_announced_def connection_text_def)
qed

lemma sap_announces_session_witness:
  "\<exists>a. an_sessionName a = ''Studio A'' \<and> an_multicastAddress a = ''239.1.1.1/32'' \<and>
    sl_discovered (sap_receive (example_announcement, ''10.0.0.1'') sap_new) = [a]"
proof -
  have "example_announcement = sap_packet 1 [0, 0, 10, 0, 0, 1] [1, 2, 3, 4] (generate 9 example_session)"
    by (simp add: example_announcement_def)
  from sap_announces_session [OF example_printable _ _ this example_announcement_length refl, of "''10.0.0.1''" sap_new]
  obtain a where a: "an_sessionName a = sd_sessionName example_session"
    "an_multicastAddress a = sd_connectionAddress example_session @ ''/'' @ show_nat (unat (sd_ttl example_session))"
    "sl_discovered (sap_receive (example_announcement, ''10.0.0.1'') sap_new) = [a]"
    by (auto simp: sap_new_def)
  have "show_nat 32 = ''32''" by code_simp
  then show ?thesis using a by (auto simp: example_session_def createDefaultTxSession_def)
qed

text \<open>
  An announcement of a known stream changes nothing in the list. When name and source are those of an entry, the entry
  stays as it was first seen, although the new text may announce another address, port or format.
\<close>

theorem sap_updates_ignored:
  assumes "e \<in> set (sl_discovered l)" "an_sessionName e = an_sessionName (parseSAPAnnouncement (take 2047 data) source)"
    "an_sourceAddress e = source"
  shows "sl_discovered (sap_receive (data, source) l) = sl_discovered l"
proof -
  have "an_sourceAddress (parseSAPAnnouncement d source) = source" for d
    by (simp add: parseSAPAnnouncement_def announcement_new_def Let_def split: option.splits)
  then have "list_ex (\<lambda>x. same_announcer x (parseSAPAnnouncement (take 2047 data) source)) (sl_discovered l)"
    using assms by (auto simp: list_ex_iff same_announcer_def)
  then show ?thesis by (simp add: sap_receive_def Let_def store_announcement_def)
qed

lemma sap_updates_ignored_witness:
  "let l = sap_receive (example_announcement, ''10.0.0.1'') sap_new;
       p = sap_packet 0 (replicate 6 0) [] (generate 9 (example_session\<lparr>sd_port := 6000\<rparr>))
   in sl_discovered (sap_receive (p, ''10.0.0.1'') l) = sl_discovered l"
proof -
  have e: "example_announcement = sap_packet 1 [0, 0, 10, 0, 0, 1] [1, 2, 3, 4] (generate 9 example_session)"
    by (simp add: example_announcement_def)
  let ?p = "sap_packet 0 (replicate 6 0) [] (generate 9 (example_session\<lparr>sd_port := 6000\<rparr>))"
  have pr: "sdp_printable (example_session\<lparr>sd_port := 6000\<rparr>)"
    using example_printable by (simp add: sdp_printable_def sdp_isValid_iff split: if_splits)
  have "length ?p \<le> 2047" using example_length [of 0 "replicate 6 0" "[]" 6000] by simp
  then have p: "parseSAPAnnouncement (take 2047 ?p) ''10.0.0.1'' = sap_announced 9 (example_session\<lparr>sd_port := 6000\<rparr>) ''10.0.0.1''"
    by (intro parse_announced [OF pr]) simp_all
  have l: "sl_discovered (sap_receive (example_announcement, ''10.0.0.1'') sap_new) = [sap_announced 9 example_session ''10.0.0.1'']"
    using receive_announced [OF example_printable _ _ e example_announcement_length, of "''10.0.0.1''" sap_new]
    by (simp add: sap_new_def store_announcement_def)
  then show ?thesis
    using sap_updates_ignored [of "sap_announced 9 example_session ''10.0.0.1''" "sap_receive (example_announcement, ''10.0.0.1'') sap_new"
        ?p "''10.0.0.1''"] p by (simp add: Let_def sap_announced_def)
qed

text \<open>
  A listener whose initialisation failed closes a descriptor that is no longer its own. The number stays in the member
  after it was closed; when the system has given it to another socket, starting and stopping the listener closes
  that socket.
\<close>

theorem sap_closes_foreign_descriptor:
  assumes "sap_initialize r (l, k) = (False, l1, k1)" "0 \<le> or_socket r" "\<not> sl_running l"
    and "or_socket r \<in> kn_fds k2"
  shows "or_socket r \<notin> kn_fds k1 \<and> kn_fds (snd (sap_stop (snd (sap_start l1), k2))) = kn_fds k2 - {or_socket r}"
  using assms by (auto simp: sap_initialize_def sap_start_def sap_stop_def kn_close_def Let_def split: if_splits)

lemma sap_closes_foreign_descriptor_witness:
  "let r = \<lparr>or_socket = 3, or_reuseaddr = True, or_reuseport = True, or_bind = False, or_multicast_ttl = True,
         or_multicast_if = True, or_add_membership = True\<rparr>;
       k = \<lparr>kn_fds = {0, 1, 2}, kn_members = {}\<rparr>;
       (ok, l1, k1) = sap_initialize r (sap_new, k)
   in \<not> ok \<and> kn_fds (snd (sap_stop (snd (sap_start l1), kn_open 3 k1))) = {0, 1, 2}"
proof -
  let ?r = "\<lparr>or_socket = 3, or_reuseaddr = True, or_reuseport = True, or_bind = False, or_multicast_ttl = True,
         or_multicast_if = True, or_add_membership = True\<rparr>"
  let ?k = "\<lparr>kn_fds = {0, 1, 2}, kn_members = {}\<rparr>"
  obtain l1 k1 where i: "sap_initialize ?r (sap_new, ?k) = (False, l1, k1)" "kn_fds k1 = {0, 1, 2}"
    by (simp add: sap_initialize_def Let_def kn_open_def kn_close_def)
  have "or_socket ?r \<in> kn_fds (kn_open 3 k1)" by (simp add: kn_open_def)
  from sap_closes_foreign_descriptor [OF i(1) _ _ this] i show ?thesis
    by (auto simp: Let_def kn_open_def sap_new_def)
qed

end
