(* ===== verification/Rtsp_Client.thy ===== *)
theory Rtsp_Client
  imports Sdp_Roundtrip
begin

text \<open>
  \<open>NetworkEngine/Discovery/RTSPClient.cpp\<close>. The peer is the function \<open>recv\<close> of the number of the call: the
  bytes that call delivers, none when it fails, times out or the peer has closed. Reading the
  headers goes on for as long as bytes come; a call that does not return has the value \<open>None\<close>.
  Exceptions of \<open>std::stoi\<close> and \<open>std::stoul\<close> leave the operation (\<open>Thrown\<close>); the memory for a body is taken to be there.
\<close>

section \<open>Text\<close>

definition crlf :: string where "crlf = [CHR 0x0D, CHR 0x0A]"

text \<open>What stands before and after the first occurrence.\<close>

fun split_at_text :: "string \<Rightarrow> string \<Rightarrow> (string \<times> string) option" where
  "split_at_text w s =
     (if take (length w) s = w then Some ([], drop (length w) s)
      else case s of [] \<Rightarrow> None | c # cs \<Rightarrow> map_option (\<lambda>(a, b). (c # a, b)) (split_at_text w cs))"

declare split_at_text.simps [simp del]

definition is_blank :: "char \<Rightarrow> bool" where
  "is_blank c \<longleftrightarrow> c = CHR '' '' \<or> c = CHR 0x09"

section \<open>Reading a response\<close>

text \<open>The Content-Length that stands before the end of the headers, 0 without one.\<close>

definition content_length :: "string \<Rightarrow> string \<Rightarrow> u64 outcome" where
  "content_length head response =
     (case split_at_text ''Content-Length:'' response of
        None \<Rightarrow> Parsed 0
      | Some (before, r) \<Rightarrow>
          if length before < length head
          then case split_at_text crlf r of
              None \<Rightarrow> Parsed 0
            | Some (v, _) \<Rightarrow>
                let clStr = dropWhile is_blank v
                in if clStr = [] then Parsed 0 else (case stoull clStr of None \<Rightarrow> Thrown | Some n \<Rightarrow> Parsed n)
          else Parsed 0)"

partial_function (option) read_headers ::
    "(nat \<Rightarrow> string) \<Rightarrow> nat \<Rightarrow> string \<Rightarrow> ((string \<times> string \<times> u64) outcome \<times> nat) option" where
  "read_headers recv k response =
     (let bytes = recv k
      in if bytes = [] then Some (Refused, Suc k)
         else
           let r = response @ bytes
           in case split_at_text (crlf @ crlf) r of
                None \<Rightarrow> read_headers recv (Suc k) r
              | Some (head, _) \<Rightarrow>
                  Some (case content_length head r of
                      Parsed n \<Rightarrow> Parsed (head, r, n) | Refused \<Rightarrow> Refused | Thrown \<Rightarrow> Thrown, Suc k))"

function read_body :: "(nat \<Rightarrow> string) \<Rightarrow> nat \<Rightarrow> nat \<Rightarrow> nat \<Rightarrow> string \<Rightarrow> string \<times> nat" where
  "read_body recv contentLength k currentBodySize response =
     (if currentBodySize \<ge> contentLength then (response, k)
      else
        let bytes = recv k
        in if bytes = [] then (response, Suc k)
           else read_body recv contentLength (Suc k) (currentBodySize + length bytes) (response @ bytes))"
  by pat_completeness auto
termination
  by (relation "measure (\<lambda>(recv, contentLength, k, currentBodySize, response). contentLength - currentBodySize)")
     (auto simp: diff_less_mono2 simp flip: length_greater_0_conv)

declare read_body.simps [simp del]

definition readResponse :: "(nat \<Rightarrow> string) \<Rightarrow> (string outcome \<times> nat) option" where
  "readResponse recv =
     map_option (\<lambda>(r, k). case r of
         Parsed (head, response, n) \<Rightarrow>
           if 0 < n
           then case read_body recv (unat n) k (length response - (length head + 4)) response of (r, k) \<Rightarrow> (Parsed r, k)
           else (Parsed response, k)
       | Refused \<Rightarrow> (Refused, k) | Thrown \<Rightarrow> (Thrown, k))
       (read_headers recv 0 [])"

section \<open>Parsing a response\<close>

record rtsp_response =
  rr_statusCode :: int
  rr_statusMessage :: string
  rr_headers :: "(string \<times> string) list"
  rr_body :: string

definition isSuccess :: "rtsp_response \<Rightarrow> bool" where
  "isSuccess r \<longleftrightarrow> rr_statusCode r \<ge> 200 \<and> rr_statusCode r < 300"

text \<open>
  \<open>stream >> value\<close> for an \<open>int\<close>: the value, and the rest of the stream unless it failed; without digits the value is 0,
  out of range the nearest one.
\<close>

definition read_int :: "string \<Rightarrow> int \<times> string option" where
  "read_int s =
     (let t = dropWhile is_space s;
          neg = (case t of c # _ \<Rightarrow> c = CHR ''-'' | [] \<Rightarrow> False);
          u = (case t of c # r \<Rightarrow> if c = CHR ''-'' \<or> c = CHR ''+'' then r else t | [] \<Rightarrow> []);
          ds = takeWhile is_digit u;
          v = (if neg then - int (digits_nat 10 ds) else int (digits_nat 10 ds))
      in if ds = [] then (0, None)
         else if v < - (2 ^ 31) then (- (2 ^ 31), None)
         else if 2 ^ 31 \<le> v then (2 ^ 31 - 1, None)
         else (v, Some (dropWhile is_digit u)))"

definition parse_status :: "string \<Rightarrow> int \<times> string" where
  "parse_status line =
     (let t = dropWhile is_space line;
          (code, rest) = read_int (dropWhile (\<lambda>c. \<not> is_space c) t)
      in (code, case rest of None \<Rightarrow> [] | Some m \<Rightarrow> (case m of c # m' \<Rightarrow> if c = CHR '' '' then m' else m | [] \<Rightarrow> [])))"

definition trim_blanks :: "string \<Rightarrow> string" where
  "trim_blanks v =
     (if \<forall>c \<in> set v. is_blank c then v else rev (dropWhile is_blank (rev (dropWhile is_blank v))))"

definition add_header :: "string \<Rightarrow> (string \<times> string) list \<Rightarrow> (string \<times> string) list" where
  "add_header line hs =
     (if CHR '':'' \<in> set line
      then let key = takeWhile (\<lambda>c. c \<noteq> CHR '':'') line
           in smap_put key (trim_blanks (drop (Suc (length key)) line)) hs
      else hs)"

text \<open>\<open>std::getline\<close>: the line and the rest.\<close>

definition next_line :: "string \<Rightarrow> string \<times> string" where
  "next_line s = (let line = takeWhile (\<lambda>c. c \<noteq> CHR 0x0A) s in (line, drop (Suc (length line)) s))"

function parse_headers :: "string \<Rightarrow> (string \<times> string) list \<Rightarrow> (string \<times> string) list \<times> string" where
  "parse_headers s hs =
     (if s = [] then (hs, [])
      else if fst (next_line s) = [CHR 0x0D] \<or> fst (next_line s) = [] then (hs, snd (next_line s))
      else parse_headers (snd (next_line s)) (add_header (drop_cr (fst (next_line s))) hs))"
  by pat_completeness auto
termination
  by (relation "measure (length \<circ> fst)") (auto simp: next_line_def Let_def)

declare parse_headers.simps [simp del]

text \<open>A body that is announced longer than it came is filled with zero bytes.\<close>

definition parseResponse :: "string \<Rightarrow> rtsp_response outcome" where
  "parseResponse responseStr =
     (if responseStr = [] then Refused
      else
        let (line, rest) = next_line responseStr;
            (code, message) = parse_status (drop_cr line);
            (hs, remaining) = parse_headers rest [];
            response = (\<lambda>body. \<lparr>rr_statusCode = code, rr_statusMessage = message, rr_headers = hs, rr_body = body\<rparr>)
        in case map_of hs ''Content-Length'' of
             None \<Rightarrow> Parsed (response remaining)
           | Some v \<Rightarrow>
               (case stoull v of
                  None \<Rightarrow> Thrown
                | Some n \<Rightarrow> Parsed (response (take (unat n) remaining @ replicate (unat n - length remaining) CHR 0x00))))"

section \<open>The client\<close>

record rtsp_client =
  rc_url :: string
  rc_host :: string
  rc_port :: u16
  rc_basePath :: string
  rc_socket :: int
  rc_timeoutMs :: int
  rc_cseq :: int
  rc_sessionID :: string
  rc_userAgent :: string
  rc_lastResponse :: rtsp_response
  rc_sent :: "string list"       \<comment> \<open>the requests given to \<open>send\<close> so far\<close>

definition no_response :: rtsp_response where
  "no_response = \<lparr>rr_statusCode = 0, rr_statusMessage = [], rr_headers = [], rr_body = []\<rparr>"

text \<open>Host, port and path of a URL; \<open>Refused\<close> leaves them as they were.\<close>

definition parseURL :: "string \<Rightarrow> (string \<times> u16 \<times> string) outcome" where
  "parseURL url =
     (if take 7 url \<noteq> ''rtsp://'' then Refused
      else
        let r = drop 7 url;
            hostPort = takeWhile (\<lambda>c. c \<noteq> CHR ''/'') r;
            path = (if CHR ''/'' \<in> set r then drop (length hostPort) r else ''/'')
        in if CHR '':'' \<in> set hostPort
           then let host = takeWhile (\<lambda>c. c \<noteq> CHR '':'') hostPort
                in case stoi (drop (Suc (length host)) hostPort) of
                     None \<Rightarrow> Thrown | Some p \<Rightarrow> Parsed (host, of_int p, path)
           else Parsed (hostPort, 554, path))"

definition rtsp_new :: "string \<Rightarrow> rtsp_client outcome" where
  "rtsp_new url =
     (let c = (\<lambda>host port path. \<lparr>rc_url = url, rc_host = host, rc_port = port, rc_basePath = path, rc_socket = -1,
            rc_timeoutMs = 5000, rc_cseq = 1, rc_sessionID = [], rc_userAgent = ''AES67Driver/1.0'',
            rc_lastResponse = no_response, rc_sent = []\<rparr>)
      in case parseURL url of
           Parsed (host, port, path) \<Rightarrow> Parsed (c host port path) | Refused \<Rightarrow> Parsed (c [] 554 []) | Thrown \<Rightarrow> Thrown)"

definition setTimeout :: "int \<Rightarrow> rtsp_client \<Rightarrow> rtsp_client" where
  "setTimeout ms c = c\<lparr>rc_timeoutMs := ms\<rparr>"

definition setUserAgent :: "string \<Rightarrow> rtsp_client \<Rightarrow> rtsp_client" where
  "setUserAgent agent c = c\<lparr>rc_userAgent := agent\<rparr>"

text \<open>What the network answers during one operation.\<close>

record rtsp_net =
  rn_resolves :: bool
  rn_socket :: int
  rn_connects :: bool
  rn_sends :: bool
  rn_recv :: "nat \<Rightarrow> string"

definition rtsp_connect :: "rtsp_net \<Rightarrow> rtsp_client \<Rightarrow> bool \<times> rtsp_client" where
  "rtsp_connect net c =
     (if rc_socket c \<ge> 0 then (True, c)
      else if \<not> rn_resolves net then (False, c)
      else if rn_socket net < 0 then (False, c\<lparr>rc_socket := rn_socket net\<rparr>)
      else if \<not> rn_connects net then (False, c\<lparr>rc_socket := -1\<rparr>)
      else (True, c\<lparr>rc_socket := rn_socket net\<rparr>))"

definition rtsp_disconnect :: "rtsp_client \<Rightarrow> rtsp_client" where
  "rtsp_disconnect c = c\<lparr>rc_socket := (if rc_socket c \<ge> 0 then -1 else rc_socket c), rc_sessionID := []\<rparr>"

definition request_text :: "rtsp_client \<Rightarrow> string \<Rightarrow> string \<Rightarrow> (string \<times> string) list \<Rightarrow> string \<Rightarrow> string" where
  "request_text c rmethod path headers body =
     rmethod @ '' '' @ (if rmethod = ''DESCRIBE'' then rc_url c else path) @ '' RTSP/1.0'' @ crlf @
     ''CSeq: '' @ show_int (rc_cseq c) @ crlf @ ''User-Agent: '' @ rc_userAgent c @ crlf @
     concat (map (\<lambda>(key, v). key @ '': '' @ v @ crlf) headers) @
     (if body \<noteq> [] then ''Content-Length: '' @ show_nat (length body) @ crlf @ ''Content-Type: application/sdp'' @ crlf
      else []) @ crlf @ body"

definition sendRequest ::
    "rtsp_net \<Rightarrow> string \<Rightarrow> string \<Rightarrow> (string \<times> string) list \<Rightarrow> string \<Rightarrow> rtsp_client \<Rightarrow>
     (rtsp_response outcome \<times> rtsp_client) option" where
  "sendRequest net rmethod path headers body c =
     (if rc_socket c < 0 then Some (Refused, c)
      else
        let c1 = c\<lparr>rc_cseq := rc_cseq c + 1, rc_sent := rc_sent c @ [request_text c rmethod path headers body]\<rparr>
        in if \<not> rn_sends net then Some (Refused, c1)
           else map_option (\<lambda>(r, _). case r of
               Parsed text \<Rightarrow>
                 (case parseResponse text of
                    Parsed response \<Rightarrow> (Parsed response, c1\<lparr>rc_lastResponse := response\<rparr>)
                  | Refused \<Rightarrow> (Refused, c1) | Thrown \<Rightarrow> (Thrown, c1))
             | Refused \<Rightarrow> (Refused, c1) | Thrown \<Rightarrow> (Thrown, c1)) (readResponse (rn_recv net)))"

definition succeeds :: "rtsp_response outcome \<Rightarrow> bool outcome" where
  "succeeds r = (case r of Parsed response \<Rightarrow> Parsed (isSuccess response) | Refused \<Rightarrow> Parsed False | Thrown \<Rightarrow> Thrown)"

definition describe :: "rtsp_net \<Rightarrow> string \<Rightarrow> rtsp_client \<Rightarrow> (sdp_session outcome \<times> rtsp_client) option" where
  "describe net path c =
     (let (connected, c1) = rtsp_connect net c
      in if \<not> connected then Some (Refused, c1)
         else map_option (\<lambda>(r, c2). case r of
             Parsed response \<Rightarrow> (if isSuccess response then parseString (rr_body response) else Refused, c2)
           | Refused \<Rightarrow> (Refused, c2) | Thrown \<Rightarrow> (Thrown, c2))
           (sendRequest net ''DESCRIBE'' path (smap_put ''Accept'' ''application/sdp'' []) [] c1))"

definition rtsp_setup :: "rtsp_net \<Rightarrow> string \<Rightarrow> u16 \<Rightarrow> rtsp_client \<Rightarrow> (bool outcome \<times> rtsp_client) option" where
  "rtsp_setup net path clientPort c =
     (let (connected, c1) = rtsp_connect net c;
          transport = ''RTP/AVP;unicast;client_port='' @ show_nat (unat clientPort) @ ''-'' @ show_nat (unat clientPort + 1)
      in if \<not> connected then Some (Parsed False, c1)
         else map_option (\<lambda>(r, c2). case r of
             Parsed response \<Rightarrow>
               if \<not> isSuccess response then (Parsed False, c2)
               else (Parsed True, case map_of (rr_headers response) ''Session'' of
                   None \<Rightarrow> c2 | Some v \<Rightarrow> c2\<lparr>rc_sessionID := takeWhile (\<lambda>x. x \<noteq> CHR '';'') v\<rparr>)
           | Refused \<Rightarrow> (Parsed False, c2) | Thrown \<Rightarrow> (Thrown, c2))
           (sendRequest net ''SETUP'' path (smap_put ''Transport'' transport []) [] c1))"

text \<open>The operations that need a session.\<close>

definition session_request ::
    "rtsp_net \<Rightarrow> string \<Rightarrow> string \<Rightarrow> (string \<times> string) list \<Rightarrow> rtsp_client \<Rightarrow> (rtsp_response outcome \<times> rtsp_client) option" where
  "session_request net rmethod path extra c =
     (let (connected, c1) = rtsp_connect net c
      in if \<not> connected \<or> rc_sessionID c1 = [] then Some (Refused, c1)
         else sendRequest net rmethod path (extra @ [(''Session'', rc_sessionID c1)]) [] c1)"

definition play :: "rtsp_net \<Rightarrow> string \<Rightarrow> rtsp_client \<Rightarrow> (bool outcome \<times> rtsp_client) option" where
  "play net path c = map_option (\<lambda>(r, c2). (succeeds r, c2)) (session_request net ''PLAY'' path [(''Range'', ''npt=0.000-'')] c)"

definition pause :: "rtsp_net \<Rightarrow> string \<Rightarrow> rtsp_client \<Rightarrow> (bool outcome \<times> rtsp_client) option" where
  "pause net path c = map_option (\<lambda>(r, c2). (succeeds r, c2)) (session_request net ''PAUSE'' path [] c)"

definition teardown :: "rtsp_net \<Rightarrow> string \<Rightarrow> rtsp_client \<Rightarrow> (bool outcome \<times> rtsp_client) option" where
  "teardown net path c =
     (let (connected, c1) = rtsp_connect net c
      in if \<not> connected \<or> rc_sessionID c1 = [] then Some (Parsed False, c1)
         else map_option (\<lambda>(r, c2). case r of
             Thrown \<Rightarrow> (Thrown, c2) | _ \<Rightarrow> (succeeds r, c2\<lparr>rc_sessionID := []\<rparr>))
           (sendRequest net ''TEARDOWN'' path [(''Session'', rc_sessionID c1)] [] c1))"

section \<open>The first occurrence\<close>

lemma split_at_text_Some: "split_at_text w s = Some (a, b) \<Longrightarrow> s = a @ w @ b"
proof (induction s arbitrary: a b)
  case Nil
  then show ?case by (subst (asm) split_at_text.simps) (auto split: if_splits)
next
  case (Cons c cs)
  show ?case
  proof (cases "take (length w) (c # cs) = w")
    case True
    then have "a = []" "b = drop (length w) (c # cs)"
      using Cons.prems by (subst (asm) split_at_text.simps, simp)+
    with True show ?thesis by (metis append_Nil append_take_drop_id)
  next
    case False
    with Cons.prems obtain a' where "split_at_text w cs = Some (a', b)" "a = c # a'"
      by (subst (asm) split_at_text.simps) auto
    with Cons.IH show ?thesis by simp
  qed
qed

lemma split_at_text_append: "split_at_text w s = Some (a, b) \<Longrightarrow> split_at_text w (s @ t) = Some (a, b @ t)"
proof (induction s arbitrary: a b)
  case Nil
  then have "w = []" "a = []" "b = []" by (subst (asm) split_at_text.simps; auto split: if_splits)+
  then show ?case by (subst split_at_text.simps) simp
next
  case (Cons c cs)
  show ?case
  proof (cases "take (length w) (c # cs) = w")
    case True
    then have ab: "a = []" "b = drop (length w) (c # cs)"
      using Cons.prems by (subst (asm) split_at_text.simps, simp)+
    have "length w \<le> length (c # cs)" using True by (metis nat_le_linear take_all)
    then have "take (length w) ((c # cs) @ t) = w" "drop (length w) ((c # cs) @ t) = b @ t"
      using True ab by (simp_all only: take_append drop_append) simp_all
    with ab(1) show ?thesis by (subst split_at_text.simps) simp
  next
    case False
    with Cons.prems obtain a' where a': "split_at_text w cs = Some (a', b)" "a = c # a'"
      by (subst (asm) split_at_text.simps) auto
    have "take (length w) ((c # cs) @ t) \<noteq> w"
    proof
      assume t: "take (length w) ((c # cs) @ t) = w"
      from split_at_text_Some [OF a'(1)] have "length w \<le> length (c # cs)" by simp
      then have "take (length w) ((c # cs) @ t) = take (length w) (c # cs)" by (simp only: take_append) simp
      with t False show False by simp
    qed
    with Cons.IH [OF a'(1)] a'(2) show ?thesis by (subst split_at_text.simps) simp
  qed
qed

text \<open>Before the text is complete it is not found.\<close>

lemma split_at_text_early:
  assumes "split_at_text w (s @ t) = Some (a, b)" "length s < length a + length w"
  shows "split_at_text w s = None"
proof (rule ccontr)
  assume "split_at_text w s \<noteq> None"
  then obtain a' b' where s: "split_at_text w s = Some (a', b')" by auto
  from split_at_text_append [OF this, of t] assms(1) have "a = a'" by simp
  with split_at_text_Some [OF s] assms(2) show False by simp
qed

section \<open>Reading\<close>

abbreviation header_end :: string where "header_end \<equiv> crlf @ crlf"

definition bytes_received :: "(nat \<Rightarrow> string) \<Rightarrow> nat \<Rightarrow> string" where
  "bytes_received recv m = concat (map recv [0..<m])"

lemma received_simps [simp]: "bytes_received recv 0 = []" "bytes_received recv (Suc m) = bytes_received recv m @ recv m"
  by (simp_all add: bytes_received_def)

lemma read_headers_stop:
  assumes "recv k = [] \<or> split_at_text header_end (r @ recv k) \<noteq> None"
  shows "read_headers recv k r \<noteq> None"
  using assms by (subst read_headers.simps) (auto simp: Let_def split: option.split)

lemma read_headers_step:
  assumes "recv k \<noteq> []" "split_at_text header_end (r @ recv k) = None"
  shows "read_headers recv k r = read_headers recv (Suc k) (r @ recv k)"
  using assms by (subst read_headers.simps) (simp add: Let_def)

lemma read_headers_returns:
  assumes "recv m = [] \<or> split_at_text header_end (bytes_received recv (Suc m)) \<noteq> None" "k \<le> m"
  shows "read_headers recv k (bytes_received recv k) \<noteq> None"
  using assms(2)
proof (induction "m - k" arbitrary: k)
  case 0
  then have "k = m" by simp
  with assms(1) show ?case by (intro read_headers_stop) simp
next
  case (Suc d)
  show ?case
  proof (cases "recv k = [] \<or> split_at_text header_end (bytes_received recv k @ recv k) \<noteq> None")
    case True
    then show ?thesis by (rule read_headers_stop)
  next
    case False
    then have "read_headers recv k (bytes_received recv k) = read_headers recv (Suc k) (bytes_received recv (Suc k))"
      
      using read_headers_step [of recv k "bytes_received recv k"] by (auto simp del: not_None_eq)
    with Suc(1) [of "Suc k"] Suc(2,3) show ?thesis by simp
  qed
qed

lemma read_headers_ends:
  assumes "read_headers recv k r = Some y"
  shows "r = bytes_received recv k \<longrightarrow> (\<exists>m. recv m = [] \<or> split_at_text header_end (bytes_received recv (Suc m)) \<noteq> None)"
proof (rule read_headers.raw_induct [OF _ assms])
  fix f :: "(nat \<Rightarrow> string) \<Rightarrow> nat \<Rightarrow> string \<Rightarrow> ((string \<times> string \<times> u64) outcome \<times> nat) option"
  fix recv k r y
  assume IH: "\<And>recv k r y. f recv k r = Some y \<Longrightarrow>
      r = bytes_received recv k \<longrightarrow> (\<exists>m. recv m = [] \<or> split_at_text header_end (bytes_received recv (Suc m)) \<noteq> None)"
    and y: "(let bytes = recv k
      in if bytes = [] then Some (Refused, Suc k)
         else let r = r @ bytes
           in case split_at_text header_end r of None \<Rightarrow> f recv (Suc k) r
              | Some (head, _) \<Rightarrow> Some (case content_length head r of
                  Parsed n \<Rightarrow> Parsed (head, r, n) | Refused \<Rightarrow> Refused | Thrown \<Rightarrow> Thrown, Suc k)) = Some y"
  show "r = bytes_received recv k \<longrightarrow> (\<exists>m. recv m = [] \<or> split_at_text header_end (bytes_received recv (Suc m)) \<noteq> None)"
  proof (cases "recv k = [] \<or> split_at_text header_end (r @ recv k) \<noteq> None")
    case True
    then show ?thesis by auto
  next
    case False
    then have "recv k \<noteq> []" "split_at_text header_end (r @ recv k) = None" by (simp_all only: de_Morgan_disj not_not simp_thms)
    with y have "f recv (Suc k) (r @ recv k) = Some y" by (simp add: Let_def)
    from IH [OF this] show ?thesis by auto
  qed
qed

lemma readResponse_returns:
  "readResponse recv \<noteq> None \<longleftrightarrow> (\<exists>m. recv m = [] \<or> split_at_text header_end (bytes_received recv (Suc m)) \<noteq> None)"
proof
  assume "readResponse recv \<noteq> None"
  then obtain y where "read_headers recv 0 [] = Some y" by (auto simp: readResponse_def)
  from read_headers_ends [OF this]
  show "\<exists>m. recv m = [] \<or> split_at_text header_end (bytes_received recv (Suc m)) \<noteq> None" by simp
next
  assume "\<exists>m. recv m = [] \<or> split_at_text header_end (bytes_received recv (Suc m)) \<noteq> None"
  then obtain m where m: "recv m = [] \<or> split_at_text header_end (bytes_received recv (Suc m)) \<noteq> None" ..
  have "read_headers recv 0 [] \<noteq> None" using read_headers_returns [OF m, of 0] by simp
  then show "readResponse recv \<noteq> None" by (auto simp: readResponse_def)
qed

section \<open>A whole response\<close>

lemma unat_of_nat64: "n < 2 ^ 64 \<Longrightarrow> unat (of_nat n :: u64) = n"
  by (simp add: unat_of_nat take_bit_eq_mod)

lemma content_length_append:
  assumes "content_length head s = Parsed n" "n \<noteq> 0"
  shows "content_length head (s @ t) = Parsed n"
  using assms
  by (auto simp: content_length_def Let_def split_at_text_append split: option.splits if_splits)

lemma read_body_all:
  assumes "\<And>i. i < m \<Longrightarrow> recv i \<noteq> []" "k \<le> m" "length (bytes_received recv m) = h + n"
    "h \<le> length (bytes_received recv k)"
  shows "read_body recv n k (length (bytes_received recv k) - h) (bytes_received recv k) = (bytes_received recv m, m)"
  using assms(2,4)
proof (induction "m - k" arbitrary: k)
  case 0
  then have "k = m" by simp
  then show ?case using assms(3) by (subst read_body.simps) simp
next
  case (Suc d)
  then have k: "k < m" by simp
  have "length (bytes_received recv k) < length (bytes_received recv m)"
  proof -
    have "[0..<m] = [0..<k] @ k # [Suc k..<m]" using k by (metis upt_add_eq_append upt_conv_Cons zero_le less_imp_le le_add_diff_inverse)
    then have "bytes_received recv m = bytes_received recv k @ recv k @ concat (map recv [Suc k..<m])" by (simp add: bytes_received_def)
    with assms(1) [OF k] show ?thesis by simp
  qed
  then have "\<not> n \<le> length (bytes_received recv k) - h" using Suc.prems assms(3) by simp
  then have "read_body recv n k (length (bytes_received recv k) - h) (bytes_received recv k) =
      read_body recv n (Suc k) (length (bytes_received recv (Suc k)) - h) (bytes_received recv (Suc k))"
    using assms(1) [OF k] Suc.prems by (subst read_body.simps) (simp add: Let_def)
  with Suc(1) [of "Suc k"] Suc(2,3,4) k show ?case by simp
qed

lemma read_headers_all:
  assumes "\<And>i. i < m \<Longrightarrow> recv i \<noteq> []" "bytes_received recv m = head @ header_end @ body"
    "split_at_text header_end (head @ header_end) = Some (head, [])"
    "content_length head (head @ header_end) = Parsed n" "n = of_nat (length body)" "length body < 2 ^ 64"
    and "k \<le> m" "k = 0 \<or> length (bytes_received recv (k - 1)) < length head + 4" "length (bytes_received recv k) < length head + 4"
  shows "\<exists>j. k < j \<and> j \<le> m \<and> length head + 4 \<le> length (bytes_received recv j) \<and>
    read_headers recv k (bytes_received recv k) = Some (Parsed (head, bytes_received recv j, n), j)"
  using assms(7-9)
proof (induction "m - k" arbitrary: k)
  case 0
  then have "k = m" by simp
  with assms(2) 0 show ?case by (simp add: crlf_def)
next
  case (Suc d)
  then have k: "k < m" "recv k \<noteq> []" using assms(1) by auto
  have "[0..<m] = [0..<Suc k] @ [Suc k..<m]" using k(1) by (metis Suc_leI le_add_diff_inverse upt_add_eq_append zero_le)
  then obtain t where t: "head @ header_end @ body = bytes_received recv (Suc k) @ t"
    using assms(2) by (metis concat_append map_append bytes_received_def)
  show ?case
  proof (cases "length (bytes_received recv (Suc k)) < length head + 4")
    case True
    have "split_at_text header_end (bytes_received recv (Suc k) @ t) = Some (head, body)"
      using split_at_text_append [OF assms(3), of body] t by simp
    then have "split_at_text header_end (bytes_received recv (Suc k)) = None"
      by (rule split_at_text_early) (use True in \<open>simp add: crlf_def\<close>)
    then have "read_headers recv k (bytes_received recv k) = read_headers recv (Suc k) (bytes_received recv (Suc k))"
      using k(2) by (simp add: read_headers_step)
    moreover have "\<exists>j. Suc k < j \<and> j \<le> m \<and> length head + 4 \<le> length (bytes_received recv j) \<and>
        read_headers recv (Suc k) (bytes_received recv (Suc k)) = Some (Parsed (head, bytes_received recv j, n), j)"
      using Suc(2) True Suc.prems k by (intro Suc(1)) auto
    ultimately show ?thesis using Suc_lessD by metis
  next
    case False
    define b where "b = drop (length head + 4) (bytes_received recv (Suc k))"
    have r: "bytes_received recv (Suc k) = head @ header_end @ b"
    proof -
      have "take (length head + 4) (bytes_received recv (Suc k)) = take (length head + 4) (bytes_received recv (Suc k) @ t)" using False by simp
      also have "\<dots> = head @ header_end" unfolding t [symmetric] by (simp add: crlf_def)
      finally show ?thesis by (metis append_take_drop_id b_def append_assoc)
    qed
    have s: "split_at_text header_end (bytes_received recv (Suc k)) = Some (head, b)"
      using split_at_text_append [OF assms(3), of b] r by simp
    have c: "content_length head (bytes_received recv (Suc k)) = Parsed n"
    proof (cases "n = 0")
      case True
      then have "length body = 0" using assms(5,6) by (metis unat_0 unat_of_nat64)
      then have "b = []" using r t by simp
      then show ?thesis using r assms(4) by simp
    next
      case False
      then show ?thesis using content_length_append [OF assms(4) False, of b] r by simp
    qed
    have "read_headers recv k (bytes_received recv k) = Some (Parsed (head, bytes_received recv (Suc k), n), Suc k)"
      using k(2) s c by (subst read_headers.simps) (simp add: Let_def)
    then show ?thesis using False k(1) by (intro exI [of _ "Suc k"]) simp
  qed
qed

lemma readResponse_whole:
  assumes "\<And>i. i < m \<Longrightarrow> recv i \<noteq> []" "bytes_received recv m = head @ header_end @ body"
    "split_at_text header_end (head @ header_end) = Some (head, [])"
    "content_length head (head @ header_end) = Parsed (of_nat (length body))" "length body < 2 ^ 64"
  shows "\<exists>j \<le> m. readResponse recv = Some (Parsed (head @ header_end @ body), j)"
proof -
  from read_headers_all [OF assms(1-4) refl assms(5), of 0]
  obtain j where j: "j \<le> m" "length head + 4 \<le> length (bytes_received recv j)"
    "read_headers recv 0 [] = Some (Parsed (head, bytes_received recv j, of_nat (length body)), j)"
    by auto
  have u: "unat (of_nat (length body) :: u64) = length body" using assms(5) by (rule unat_of_nat64)
  have l: "length (bytes_received recv m) = length head + 4 + length body" using assms(2) by (simp add: crlf_def)
  show ?thesis
  proof (cases "length body = 0")
    case True
    have "length (bytes_received recv j) \<le> length (bytes_received recv m)"
      using j(1) by (induction m) (auto simp: le_Suc_eq)
    moreover have "\<exists>t. bytes_received recv m = bytes_received recv j @ t"
      using j(1) by (induction m) (auto simp: le_Suc_eq)
    ultimately have "bytes_received recv j = bytes_received recv m" using l j(2) True by auto
    then show ?thesis using j assms(2) True by (auto simp: readResponse_def)
  next
    case False
    have "read_body recv (length body) j (length (bytes_received recv j) - (length head + 4)) (bytes_received recv j) = (bytes_received recv m, m)"
      using assms(1) j(1,2) l by (intro read_body_all) auto
    moreover have "0 < (of_nat (length body) :: u64)" using False u by (simp add: word_greater_zero_iff flip: unat_eq_0)
    ultimately show ?thesis using j(3) u assms(2) by (intro exI [of _ m]) (simp add: readResponse_def)
  qed
qed

section \<open>Describing a stream\<close>

text \<open>
  The head of an answer, up to the blank line: its lines, joined. One with a body has a status line, any header lines, the length
  of the body under the name \<open>Content-Length\<close> (spelled so; the first and the last one), and any header lines again.
\<close>

definition lines_text :: "string list \<Rightarrow> string" where
  "lines_text ls = concat (map (\<lambda>l. l @ crlf) ls)"

definition rtsp_head :: "string list \<Rightarrow> string" where
  "rtsp_head ls = lines_text (butlast ls) @ last ls"

definition status_line :: "nat \<Rightarrow> string \<Rightarrow> string" where
  "status_line code reason = ''RTSP/1.0 '' @ show_nat code @ '' '' @ reason"

definition length_line :: "string \<Rightarrow> nat \<Rightarrow> string" where
  "length_line blanks n = ''Content-Length:'' @ blanks @ show_nat n"

definition plain_line :: "string \<Rightarrow> bool" where
  "plain_line l \<longleftrightarrow> l \<noteq> [] \<and> CHR 0x0D \<notin> set l \<and> CHR 0x0A \<notin> set l"

definition header_key :: "string \<Rightarrow> string" where
  "header_key l = takeWhile (\<lambda>c. c \<noteq> CHR '':'') l"

definition answer_lines :: "nat \<Rightarrow> string \<Rightarrow> string list \<Rightarrow> string \<Rightarrow> nat \<Rightarrow> string list \<Rightarrow> string list" where
  "answer_lines code reason before blanks n after = status_line code reason # before @ length_line blanks n # after"

definition answer_ok :: "nat \<Rightarrow> string \<Rightarrow> string list \<Rightarrow> string \<Rightarrow> string list \<Rightarrow> bool" where
  "answer_ok code reason before blanks after \<longleftrightarrow> 200 \<le> code \<and> code < 300 \<and>
     CHR 0x0D \<notin> set reason \<and> CHR 0x0A \<notin> set reason \<and> split_at_text ''Content-Length:'' reason = None \<and>
     list_all (\<lambda>l. plain_line l \<and> split_at_text ''Content-Length:'' l = None) before \<and> list_all is_blank blanks \<and>
     list_all (\<lambda>l. plain_line l \<and> header_key l \<noteq> ''Content-Length'') after"

lemma split_at_text_skip:
  assumes "hd w \<notin> set s" "w \<noteq> []"
  shows "split_at_text w (s @ t) = map_option (\<lambda>(a, b). (s @ a, b)) (split_at_text w t)"
  using assms(1)
proof (induction s)
  case Nil
  then show ?case by (cases "split_at_text w t") auto
next
  case (Cons c s)
  from Cons.prems assms(2) have "take (length w) (c # s @ t) \<noteq> w" by (cases w) auto
  with Cons show ?case by (subst split_at_text.simps) (cases "split_at_text w t", auto)
qed

lemma split_at_text_here: "split_at_text w (w @ t) = Some ([], t)"
  by (subst split_at_text.simps) simp

lemma digits_not_special:
  assumes "c \<in> set (show_nat n)"
  shows "c \<noteq> CHR 0x0D" "c \<noteq> CHR 0x0A" "c \<noteq> CHR ''C''" "c \<noteq> CHR '':''" "\<not> is_blank c"
  using show_nat_digits [of n] assms by (auto simp: is_digit_def is_blank_def)

lemma end_line:
  assumes "CHR 0x0D \<notin> set l" "rest \<noteq> []" "hd rest \<noteq> CHR 0x0D"
  shows "split_at_text header_end (l @ crlf @ rest) =
    map_option (\<lambda>(a, b). (l @ crlf @ a, b)) (split_at_text header_end rest)"
proof -
  obtain c r where r: "rest = c # r" "c \<noteq> CHR 0x0D" using assms(2,3) by (cases rest) auto
  have "split_at_text header_end (crlf @ rest) = map_option (\<lambda>(a, b). (crlf @ a, b)) (split_at_text header_end rest)"
    using r by (simp add: crlf_def split_at_text.simps [of _ "CHR 0x0D # _"] split_at_text.simps [of _ "CHR 0x0A # _"]
        option.map_comp o_def case_prod_unfold)
  moreover have "split_at_text header_end (l @ crlf @ rest) =
      map_option (\<lambda>(a, b). (l @ a, b)) (split_at_text header_end (crlf @ rest))"
    using assms(1) by (intro split_at_text_skip) (simp_all add: crlf_def)
  ultimately show ?thesis by (simp add: option.map_comp o_def case_prod_unfold)
qed

lemma end_last: "CHR 0x0D \<notin> set l \<Longrightarrow> split_at_text header_end (l @ header_end) = Some (l, [])"
  using split_at_text_skip [of header_end l header_end] split_at_text_here [of header_end "[]"] by (simp add: crlf_def)

lemma lines_simps [simp]: "lines_text [] = []" "lines_text (l # ls) = l @ crlf @ lines_text ls"
  "lines_text (ls @ ls') = lines_text ls @ lines_text ls'"
  by (simp_all add: lines_text_def)

lemma head_end: "ls \<noteq> [] \<Longrightarrow> rtsp_head ls @ header_end = lines_text ls @ crlf"
proof -
  assume "ls \<noteq> []"
  then have "lines_text ls = lines_text (butlast ls @ [last ls])" by simp
  then show ?thesis by (simp add: rtsp_head_def del: append_butlast_last_id)
qed

lemma head_split:
  assumes "\<forall>l \<in> set ls. plain_line l" "ls \<noteq> []"
  shows "split_at_text header_end (rtsp_head ls @ header_end) = Some (rtsp_head ls, [])"
  using assms
proof (induction ls)
  case Nil
  then show ?case by simp
next
  case (Cons l ls)
  have l: "CHR 0x0D \<notin> set l" using Cons.prems(1) by (simp add: plain_line_def)
  show ?case
  proof (cases "ls = []")
    case True
    then show ?thesis using end_last [OF l] by (simp add: rtsp_head_def)
  next
    case False
    then obtain x xs where ls: "ls = x # xs" by (cases ls) auto
    have h: "rtsp_head (l # ls) = l @ crlf @ rtsp_head ls" using False by (simp add: rtsp_head_def)
    have "plain_line x" using Cons.prems(1) ls by simp
    moreover have "\<exists>r. rtsp_head ls = x @ r" unfolding ls by (cases xs) (simp_all add: rtsp_head_def)
    ultimately have r: "rtsp_head ls @ header_end \<noteq> []" "hd (rtsp_head ls @ header_end) \<noteq> CHR 0x0D"
      by (cases x; auto simp: plain_line_def)+
    from end_line [OF l r] Cons show ?thesis using False by (simp add: h)
  qed
qed

lemma split_at_text_barrier:
  assumes "split_at_text w s = None" "c \<notin> set w" "w \<noteq> []"
  shows "split_at_text w (s @ c # t) = map_option (\<lambda>(a, b). (s @ c # a, b)) (split_at_text w t)"
  using assms(1)
proof (induction s)
  case Nil
  have "take (length w) (c # t) \<noteq> w" using assms(2,3) by (cases w) auto
  then show ?case by (subst split_at_text.simps) simp
next
  case (Cons x s)
  have n: "take (length w) (x # s) \<noteq> w" "split_at_text w s = None"
    using Cons.prems by (subst (asm) split_at_text.simps, simp split: if_splits)+
  have "take (length w) ((x # s) @ c # t) \<noteq> w"
  proof (cases "length w \<le> length (x # s)")
    case True
    then have "take (length w) ((x # s) @ c # t) = take (length w) (x # s)" by (simp only: take_append) simp
    with n(1) show ?thesis by simp
  next
    case False
    then have "c \<in> set (take (length w) ((x # s) @ c # t))" using assms(3) by (simp add: take_append take_Cons')
    with assms(2) show ?thesis by metis
  qed
  then show ?case using Cons.IH [OF n(2)] by (subst split_at_text.simps) (cases "split_at_text w t", auto)
qed

lemma split_lines:
  assumes "\<forall>l \<in> set ls. split_at_text ''Content-Length:'' l = None"
  shows "split_at_text ''Content-Length:'' (lines_text ls @ t) =
    map_option (\<lambda>(a, b). (lines_text ls @ a, b)) (split_at_text ''Content-Length:'' t)"
  using assms
proof (induction ls)
  case Nil
  then show ?case by (cases "split_at_text ''Content-Length:'' t") auto
next
  case (Cons l ls)
  have e: "split_at_text ''Content-Length:'' [] = None" by (simp add: split_at_text.simps [of _ "[]"])
  have "split_at_text ''Content-Length:'' (l @ CHR 0x0D # [] @ CHR 0x0A # lines_text ls @ t) =
      map_option (\<lambda>(a, b). (l @ CHR 0x0D # a, b)) (split_at_text ''Content-Length:'' ([] @ CHR 0x0A # lines_text ls @ t))"
    by (rule split_at_text_barrier) (use Cons.prems in simp_all)
  also have "split_at_text ''Content-Length:'' ([] @ CHR 0x0A # lines_text ls @ t) =
      map_option (\<lambda>(a, b). ([] @ CHR 0x0A # a, b)) (split_at_text ''Content-Length:'' (lines_text ls @ t))"
    by (rule split_at_text_barrier [OF e]) simp_all
  finally show ?case using Cons by (simp add: crlf_def option.map_comp o_def case_prod_unfold)
qed

lemma status_plain:
  assumes "answer_ok code reason before blanks after"
  shows "plain_line (status_line code reason)" "split_at_text ''Content-Length:'' (status_line code reason) = None"
proof -
  have d: "CHR 0x0D \<notin> set (show_nat code)" "CHR 0x0A \<notin> set (show_nat code)"
    using digits_not_special(1,2) by blast+
  then show "plain_line (status_line code reason)" using assms by (simp add: plain_line_def status_line_def answer_ok_def)
  have "hd ''Content-Length:'' \<notin> set (''RTSP/1.0 '' @ show_nat code @ '' '')" using digits_not_special(3) by auto
  from split_at_text_skip [OF this, of reason] assms
  show "split_at_text ''Content-Length:'' (status_line code reason) = None" by (simp add: status_line_def answer_ok_def)
qed

lemma length_plain:
  assumes "list_all is_blank blanks"
  shows "plain_line (length_line blanks n)"
proof -
  have "CHR 0x0D \<notin> set (show_nat n)" "CHR 0x0A \<notin> set (show_nat n)" using digits_not_special(1,2) by blast+
  moreover have "\<not> is_blank CHR 0x0D" "\<not> is_blank CHR 0x0A" by (simp_all add: is_blank_def)
  then have "CHR 0x0D \<notin> set blanks" "CHR 0x0A \<notin> set blanks" using assms unfolding list_all_iff by metis+
  ultimately show ?thesis by (simp add: plain_line_def length_line_def)
qed

lemma answer_plain:
  assumes "answer_ok code reason before blanks after"
  shows "\<forall>l \<in> set (answer_lines code reason before blanks n after). plain_line l"
  using status_plain(1) [OF assms] length_plain [of blanks n] assms
  by (auto simp: answer_lines_def answer_ok_def list_all_iff)

lemma drop_blanks: "list_all is_blank blanks \<Longrightarrow> dropWhile is_blank (blanks @ show_nat n) = show_nat n"
proof -
  assume b: "list_all is_blank blanks"
  obtain c r where c: "show_nat n = c # r" using show_nat_not_Nil by (cases "show_nat n") auto
  then have "\<not> is_blank c" using digits_not_special(5) [of c n] by simp
  with b c show ?thesis by (simp add: list_all_iff dropWhile_append2)
qed

lemma answer_content_length:
  assumes ok: "answer_ok code reason before blanks after" and "n < 2 ^ 64"
    and ls: "ls = answer_lines code reason before blanks n after"
  shows "content_length (rtsp_head ls) (rtsp_head ls @ header_end) = Parsed (of_nat n)"
proof -
  let ?pre = "lines_text (status_line code reason # before)"
  define tail where "tail = lines_text after @ crlf"
  have t: "rtsp_head ls @ header_end = ?pre @ ''Content-Length:'' @ blanks @ show_nat n @ crlf @ tail"
    using head_end [of ls] by (simp add: ls answer_lines_def tail_def length_line_def)
  have "\<forall>l \<in> set (status_line code reason # before). split_at_text ''Content-Length:'' l = None"
    using ok status_plain(2) [OF ok] by (simp add: answer_ok_def list_all_iff)
  note sl = split_lines [OF this]
  have s: "split_at_text ''Content-Length:'' (rtsp_head ls @ header_end) =
      Some (?pre, blanks @ show_nat n @ crlf @ tail)"
    unfolding t sl split_at_text_here by simp
  have "plain_line (length_line blanks n)" using ok by (intro length_plain) (simp add: answer_ok_def)
  then have "hd crlf \<notin> set (blanks @ show_nat n)" by (simp add: plain_line_def length_line_def crlf_def)
  from split_at_text_skip [OF this, of "crlf @ tail"] have v: "split_at_text crlf (blanks @ show_nat n @ crlf @ tail) = Some (blanks @ show_nat n, tail)"
    by (simp add: split_at_text_here) (simp add: crlf_def)
  have b: "dropWhile is_blank (blanks @ show_nat n) = show_nat n" using ok by (intro drop_blanks) (simp add: answer_ok_def)
  have st: "stoull (show_nat n) = Some (of_nat n)" using assms(2) by (simp add: stoull_show_nat)
  have "length (rtsp_head ls) + 4 = length (rtsp_head ls @ header_end)" by (simp add: crlf_def)
  also have "\<dots> \<ge> length ?pre + 17 + 2" unfolding t by (simp add: crlf_def tail_def)
  finally have l: "length ?pre < length (rtsp_head ls)" by simp
  show ?thesis
    unfolding content_length_def s option.case case_prod_conv v Let_def b using l st by simp
qed

lemma next_line_crlf: "CHR 0x0A \<notin> set l \<Longrightarrow> next_line (l @ crlf @ s) = (l @ [CHR 0x0D], s)"
proof -
  assume "CHR 0x0A \<notin> set l"
  then have "takeWhile (\<lambda>c. c \<noteq> CHR 0x0A) (l @ crlf @ s) = l @ [CHR 0x0D]"
    by (subst takeWhile_append2) (auto simp: crlf_def)
  then show ?thesis by (simp add: next_line_def crlf_def)
qed

lemma parse_headers_line:
  assumes "CHR 0x0A \<notin> set l" "l \<noteq> []"
  shows "parse_headers (l @ crlf @ s) hs = parse_headers s (add_header l hs)"
  using assms by (subst parse_headers.simps) (simp add: next_line_crlf drop_cr_def)

lemma parse_headers_end: "parse_headers (crlf @ s) hs = (hs, s)"
  using next_line_crlf [of "[]" s] by (subst parse_headers.simps) (simp add: crlf_def)

lemma parse_headers_lines:
  "\<forall>l \<in> set ls. plain_line l \<Longrightarrow> parse_headers (lines_text ls @ s) hs = parse_headers s (fold add_header ls hs)"
  by (induction ls arbitrary: hs) (simp_all add: plain_line_def parse_headers_line)

lemma add_header_ok: "smap_ok hs \<Longrightarrow> smap_ok (add_header l hs)"
  by (simp add: add_header_def Let_def smap_ok_put)

lemma fold_header_ok: "smap_ok hs \<Longrightarrow> smap_ok (fold add_header ls hs)"
  by (induction ls arbitrary: hs) (simp_all add: add_header_ok)

lemma fold_header_other:
  "smap_ok hs \<Longrightarrow> \<forall>l \<in> set ls. header_key l \<noteq> k \<Longrightarrow> map_of (fold add_header ls hs) k = map_of hs k"
proof (induction ls arbitrary: hs)
  case (Cons l ls)
  have "map_of (add_header l hs) k = map_of hs k"
    using Cons.prems by (auto simp: add_header_def Let_def map_of_smap_put header_key_def)
  with Cons show ?case by (simp add: add_header_ok)
qed simp

lemma length_header:
  assumes "list_all is_blank blanks"
  shows "add_header (length_line blanks n) hs = smap_put ''Content-Length'' (show_nat n) hs"
proof -
  have k: "takeWhile (\<lambda>c. c \<noteq> CHR '':'') (length_line blanks n) = ''Content-Length''" by (simp add: length_line_def)
  have nb: "show_nat n \<noteq> []" "\<not> is_blank (last (show_nat n))"
    using show_nat_not_Nil digits_not_special(5) [of "last (show_nat n)" n] by simp_all
  then have "dropWhile is_blank (rev (show_nat n)) = rev (show_nat n)"
    by (cases "rev (show_nat n)") (auto simp: last_conv_nth hd_rev [symmetric])
  moreover have c: "(\<forall>c \<in> set (blanks @ show_nat n). is_blank c) = False" using nb by auto
  ultimately have "trim_blanks (blanks @ show_nat n) = show_nat n"
    unfolding trim_blanks_def drop_blanks [OF assms] c by simp
  moreover have "CHR '':'' \<in> set (length_line blanks n)" by (simp add: length_line_def)
  ultimately show ?thesis unfolding add_header_def Let_def k by (simp add: length_line_def)
qed

lemma parse_status_line:
  assumes "code < 300"
  shows "parse_status (status_line code reason) = (int code, reason)"
proof -
  have sp: "\<not> is_space c" if "c \<in> set (show_nat code)" for c
    using show_nat_digits [of code] that by (auto simp: is_digit_def is_space_def Let_def)
  obtain c r where c: "show_nat code = c # r" using show_nat_not_Nil by (cases "show_nat code") auto
  have "is_digit c" "\<not> is_space c" using show_nat_digits [of code] sp by (simp_all add: c)
  then have nn: "c \<noteq> CHR ''-''" "c \<noteq> CHR ''+''" by (auto simp: is_digit_def)
  have dr: "dropWhile (\<lambda>c. \<not> is_space c) (dropWhile is_space (status_line code reason)) = CHR '' '' # show_nat code @ '' '' @ reason"
    by (simp add: status_line_def is_space_def)
  have tk: "takeWhile is_digit (show_nat code @ '' '' @ reason) = show_nat code"
    "dropWhile is_digit (show_nat code @ '' '' @ reason) = '' '' @ reason"
    using show_nat_digits [of code] by (simp_all add: takeWhile_append2 dropWhile_append2 is_digit_def)
  have "read_int (CHR '' '' # show_nat code @ '' '' @ reason) = (int code, Some ('' '' @ reason))"
  proof -
    have d: "dropWhile is_space (CHR '' '' # show_nat code @ '' '' @ reason) = show_nat code @ '' '' @ reason"
      using \<open>\<not> is_space c\<close> by (simp add: c) (simp add: is_space_def)
    have u: "(case show_nat code @ '' '' @ reason of c # r \<Rightarrow> if c = CHR ''-'' \<or> c = CHR ''+'' then r else show_nat code @ '' '' @ reason | [] \<Rightarrow> []) =
        show_nat code @ '' '' @ reason" "(case show_nat code @ '' '' @ reason of c # _ \<Rightarrow> c = CHR ''-'' | [] \<Rightarrow> False) = False"
      using nn by (simp_all add: c)
    show ?thesis unfolding read_int_def d Let_def u tk using assms by (simp add: digits_show_nat show_nat_not_Nil)
  qed
  then show ?thesis unfolding parse_status_def Let_def dr by simp
qed

lemma parse_answer:
  assumes ok: "answer_ok code reason before blanks after" and n: "n = length body" "n < 2 ^ 64"
    and ls: "ls = answer_lines code reason before blanks n after"
  shows "\<exists>r. parseResponse (rtsp_head ls @ header_end @ body) = Parsed r \<and> isSuccess r \<and> rr_body r = body"
proof -
  let ?rest = "before @ length_line blanks n # after" let ?st = "status_line code reason"
  have t: "rtsp_head ls @ header_end @ body = ?st @ crlf @ lines_text ?rest @ crlf @ body"
    using head_end [of ls] by (simp add: ls answer_lines_def flip: append_assoc)
  have pl: "plain_line ?st" "\<forall>l \<in> set ?rest. plain_line l"
    using answer_plain [OF ok, of n] by (simp_all add: answer_lines_def)
  have nl: "next_line (rtsp_head ls @ header_end @ body) = (?st @ [CHR 0x0D], lines_text ?rest @ crlf @ body)"
    unfolding t by (rule next_line_crlf) (use pl(1) in \<open>simp add: plain_line_def\<close>)
  have d: "drop_cr (?st @ [CHR 0x0D]) = ?st" by (simp add: drop_cr_def)
  have st: "parse_status ?st = (int code, reason)" using ok by (intro parse_status_line) (simp add: answer_ok_def)
  define hs where "hs = fold add_header ?rest []"
  have p: "parse_headers (lines_text ?rest @ crlf @ body) [] = (hs, body)"
    unfolding parse_headers_lines [OF pl(2)] hs_def by (rule parse_headers_end)
  have m: "map_of hs ''Content-Length'' = Some (show_nat n)"
  proof -
    have s: "smap_ok (fold add_header before [])" by (rule fold_header_ok) (simp add: smap_ok_def)
    have b: "list_all is_blank blanks" "\<forall>l \<in> set after. header_key l \<noteq> ''Content-Length''"
      using ok by (simp_all add: answer_ok_def list_all_iff)
    have "map_of hs ''Content-Length'' = map_of (smap_put ''Content-Length'' (show_nat n) (fold add_header before [])) ''Content-Length''"
      unfolding hs_def fold_append comp_apply fold_Cons length_header [OF b(1)]
      by (rule fold_header_other) (use s b(2) in \<open>simp_all add: smap_ok_put\<close>)
    then show ?thesis using s by (simp add: map_of_smap_put)
  qed
  have ne: "rtsp_head ls @ header_end @ body \<noteq> []" by (simp add: crlf_def)
  have sl: "stoull (show_nat n) = Some (of_nat n)" using n(2) by (rule stoull_show_nat)
  show ?thesis
    unfolding parseResponse_def nl Let_def case_prod_conv d st p m
    using ne sl ok n by (simp add: unat_of_nat64 isSuccess_def answer_ok_def)
qed

lemma describe_answered:
  assumes "fst (rtsp_connect net c)" "rn_sends net" "answer_ok code reason before blanks after"
    "length text < 2 ^ 64" "ls = answer_lines code reason before blanks (length text) after"
    "\<And>i. i < m \<Longrightarrow> rn_recv net i \<noteq> []" "bytes_received (rn_recv net) m = rtsp_head ls @ header_end @ text"
  shows "\<exists>c'. describe net path c = Some (parseString text, c')"
proof -
  have ls: "ls \<noteq> []" by (simp add: assms(5) answer_lines_def)
  have pl: "\<forall>l \<in> set ls. plain_line l" unfolding assms(5) by (rule answer_plain [OF assms(3)])
  obtain j where r: "readResponse (rn_recv net) = Some (Parsed (rtsp_head ls @ header_end @ text), j)"
    using readResponse_whole [OF assms(6,7) head_split [OF pl ls] answer_content_length [OF assms(3,4,5)] assms(4)] by auto
  obtain resp where p: "parseResponse (rtsp_head ls @ header_end @ text) = Parsed resp" "isSuccess resp" "rr_body resp = text"
    using parse_answer [OF assms(3) refl assms(4,5)] by auto
  obtain c1 where c1: "rtsp_connect net c = (True, c1)" using assms(1) by (metis prod.collapse)
  have "rc_socket c1 \<ge> 0" using c1 by (auto simp: rtsp_connect_def split: if_splits)
  then show ?thesis
    using assms(2) r p c1 by (simp add: describe_def sendRequest_def Let_def)
qed

text \<open>
  C36. Reading a response returns exactly when the peer lets it: some call of \<open>recv\<close> delivers nothing, or the blank line
  that ends the headers arrives. There is no bound on the time or on the bytes; against a peer that keeps sending
  header bytes, the call never returns.
\<close>

theorem rtsp_read_returns:
  "readResponse recv \<noteq> None \<longleftrightarrow> (\<exists>m. recv m = [] \<or> split_at_text header_end (bytes_received recv (Suc m)) \<noteq> None)"
  by (rule readResponse_returns)

lemma rtsp_read_returns_witness: "readResponse (\<lambda>_. ''A'') = None"
proof -
  have a: "set (bytes_received (\<lambda>_. ''A'') m) \<subseteq> {CHR ''A''}" for m by (induction m) simp_all
  have "split_at_text header_end (bytes_received (\<lambda>_. ''A'') m) = None" for m
  proof (rule ccontr)
    assume "split_at_text header_end (bytes_received (\<lambda>_. ''A'') m) \<noteq> None"
    then obtain x y where "split_at_text header_end (bytes_received (\<lambda>_. ''A'') m) = Some (x, y)" by fast
    from split_at_text_Some [OF this] have "CHR 0x0D \<in> set (bytes_received (\<lambda>_. ''A'') m)" by (simp add: crlf_def)
    moreover have "CHR 0x0D \<notin> {CHR ''A''}" by simp
    ultimately show False using a [of m] by blast
  qed
  then show ?thesis using rtsp_read_returns [of "\<lambda>_. ''A''"] by (simp del: received_simps not_None_eq)
qed

text \<open>
  C35. A stream described by its RTSP server is imported. When the client is connected or can connect, and the request is
  sent, then however TCP cuts the answer into pieces, describe returns what the SDP parser makes of the body, for every answer with
  a status between 200 and 299 and any header lines, among which a line \<open>Content-Length:\<close> gives the size of the body; a body the
  driver generated for a printable session gives that session back. The name of that header must be spelled so (the code compares
  the characters), stand in no line before it and in no later header.
\<close>

theorem rtsp_describes_session:
  assumes "fst (rtsp_connect net c)" "rn_sends net" "answer_ok code reason before blanks after" "length text < 2 ^ 64"
    "\<And>i. i < m \<Longrightarrow> rn_recv net i \<noteq> []"
    "bytes_received (rn_recv net) m = rtsp_head (answer_lines code reason before blanks (length text) after) @ header_end @ text"
  shows "(\<exists>c'. describe net path c = Some (parseString text, c')) \<and>
    (\<forall>s now. sdp_printable s \<and> text = generate now s \<longrightarrow>
       (\<exists>c'. describe net path c = Some (Parsed (s\<lparr>sd_sessionID := if sd_sessionID s = 0 then now else sd_sessionID s\<rparr>), c')))"
proof -
  obtain c' where c': "describe net path c = Some (parseString text, c')"
    using describe_answered [OF assms(1-4) refl assms(5,6)] by blast
  then show ?thesis using parse_generate by auto
qed

text \<open>An answer that comes in two pieces, and a connected client.\<close>

definition example_lines :: "string list" where
  "example_lines = answer_lines 200 ''OK'' [''CSeq: 1'', ''Content-Type: application/sdp''] '' '' (length (generate 9 example_session)) [''Server: x'']"

definition example_answer :: string where
  "example_answer = rtsp_head example_lines @ header_end @ generate 9 example_session"

definition example_net :: rtsp_net where
  "example_net = \<lparr>rn_resolves = True, rn_socket = 3, rn_connects = True, rn_sends = True,
     rn_recv = (\<lambda>i. if i = 0 then take 10 example_answer else if i = 1 then drop 10 example_answer else [])\<rparr>"

definition example_client :: rtsp_client where
  "example_client = \<lparr>rc_url = ''rtsp://10.0.0.1/by-name/Studio'', rc_host = ''10.0.0.1'', rc_port = 554, rc_basePath = ''/by-name/Studio'',
     rc_socket = 3, rc_timeoutMs = 5000, rc_cseq = 1, rc_sessionID = [], rc_userAgent = ''AES67Driver/1.0'',
     rc_lastResponse = no_response, rc_sent = []\<rparr>"

lemma example_answer_ok: "answer_ok 200 ''OK'' [''CSeq: 1'', ''Content-Type: application/sdp''] '' '' [''Server: x'']"
  by code_simp

lemma example_answer_length: "10 < length example_answer"
  by (simp add: example_answer_def example_lines_def answer_lines_def rtsp_head_def status_line_def)

lemma rtsp_describes_session_witness: "\<exists>c'. describe example_net ''/'' example_client = Some (Parsed example_session, c')"
proof -
  have n: "rn_recv example_net i \<noteq> []" if "i < 2" for i
    using that example_answer_length by (auto simp: example_net_def)
  have r: "bytes_received (rn_recv example_net) 2 = example_answer"
    by (simp add: numeral_2_eq_2 example_net_def)
  have l: "length (generate 9 example_session) < 2 ^ 64"
    using example_text_length [of 5004] by (simp add: example_session_def createDefaultTxSession_def sdp_default_def)
  have c: "fst (rtsp_connect example_net example_client)" "rn_sends example_net"
    by (simp_all add: rtsp_connect_def example_client_def example_net_def)
  have s: "example_session\<lparr>sd_sessionID := if sd_sessionID example_session = 0 then 9 else sd_sessionID example_session\<rparr> = example_session"
    by (simp add: example_session_def createDefaultTxSession_def)
  show ?thesis
    using rtsp_describes_session [OF c example_answer_ok l n r [unfolded example_answer_def example_lines_def]]
      example_printable s by metis
qed

section \<open>Operations in sequence\<close>

datatype rtsp_op = Op_Describe string | Op_Setup string u16 | Op_Play string | Op_Pause string | Op_Teardown string

definition rtsp_do :: "rtsp_net \<times> rtsp_op \<Rightarrow> rtsp_client \<Rightarrow> (bool outcome \<times> rtsp_client) option" where
  "rtsp_do req c =
     (let net = fst req
      in case snd req of
           Op_Describe path \<Rightarrow> map_option (\<lambda>(r, c'). (case r of Parsed _ \<Rightarrow> Parsed True | Refused \<Rightarrow> Parsed False | Thrown \<Rightarrow> Thrown, c'))
             (describe net path c)
         | Op_Setup path clientPort \<Rightarrow> rtsp_setup net path clientPort c
         | Op_Play path \<Rightarrow> play net path c
         | Op_Pause path \<Rightarrow> pause net path c
         | Op_Teardown path \<Rightarrow> teardown net path c)"

fun rtsp_run :: "(rtsp_net \<times> rtsp_op) list \<Rightarrow> rtsp_client \<Rightarrow> (bool outcome list \<times> rtsp_client) option" where
  "rtsp_run [] c = Some ([], c)"
| "rtsp_run (req # reqs) c =
     Option.bind (rtsp_do req c) (\<lambda>(r, c'). map_option (\<lambda>(rs, c''). (r # rs, c'')) (rtsp_run reqs c'))"

lemma sendRequest_closed:
  assumes "rn_recv net 0 = []"
  shows "\<exists>c'. sendRequest net rmethod path headers body c = Some (Refused, c') \<and> rc_socket c' = rc_socket c"
proof -
  have "readResponse (rn_recv net) = Some (Refused, 1)"
    using assms by (simp add: readResponse_def read_headers.simps [of _ 0])
  then show ?thesis by (simp add: sendRequest_def Let_def)
qed

lemma rtsp_do_closed:
  assumes "rn_recv (fst req) 0 = []" "rc_socket c \<ge> 0"
  shows "\<exists>c'. rtsp_do req c = Some (Parsed False, c') \<and> rc_socket c' = rc_socket c"
proof -
  obtain net rop where req: "req = (net, rop)" by fastforce
  have s: "\<exists>c'. sendRequest net rmethod path headers body c = Some (Refused, c') \<and> rc_socket c' = rc_socket c"
    for rmethod path headers body using assms(1) by (intro sendRequest_closed) (simp add: req)
  show ?thesis
  proof (cases rop)
    case (Op_Describe path)
    obtain c' where "sendRequest net ''DESCRIBE'' path (smap_put ''Accept'' ''application/sdp'' []) [] c = Some (Refused, c')"
      "rc_socket c' = rc_socket c" using s by blast
    then show ?thesis using assms(2) by (simp add: req Op_Describe rtsp_do_def describe_def rtsp_connect_def Let_def)
  next
    case (Op_Setup path p)
    obtain c' where "sendRequest net ''SETUP'' path (smap_put ''Transport'' (''RTP/AVP;unicast;client_port='' @ show_nat (unat p) @ ''-'' @ show_nat (unat p + 1)) []) [] c =
        Some (Refused, c')" "rc_socket c' = rc_socket c" using s by blast
    then show ?thesis using assms(2) by (simp add: req Op_Setup rtsp_do_def rtsp_setup_def rtsp_connect_def Let_def)
  next
    case (Op_Play path)
    obtain c' where "sendRequest net ''PLAY'' path ([(''Range'', ''npt=0.000-'')] @ [(''Session'', rc_sessionID c)]) [] c =
        Some (Refused, c')" "rc_socket c' = rc_socket c" using s by blast
    then show ?thesis using assms(2)
      by (simp add: req Op_Play rtsp_do_def play_def session_request_def rtsp_connect_def Let_def succeeds_def)
  next
    case (Op_Pause path)
    obtain c' where "sendRequest net ''PAUSE'' path ([] @ [(''Session'', rc_sessionID c)]) [] c =
        Some (Refused, c')" "rc_socket c' = rc_socket c" using s by blast
    then show ?thesis using assms(2)
      by (simp add: req Op_Pause rtsp_do_def pause_def session_request_def rtsp_connect_def Let_def succeeds_def)
  next
    case (Op_Teardown path)
    obtain c' where "sendRequest net ''TEARDOWN'' path [(''Session'', rc_sessionID c)] [] c =
        Some (Refused, c')" "rc_socket c' = rc_socket c" using s by blast
    then show ?thesis using assms(2)
      by (simp add: req Op_Teardown rtsp_do_def teardown_def rtsp_connect_def Let_def succeeds_def)
  qed
qed

lemma rtsp_run_closed:
  assumes "rc_socket c \<ge> 0" "\<forall>req \<in> set reqs. rn_recv (fst req) 0 = []"
  shows "\<exists>c'. rtsp_run reqs c = Some (replicate (length reqs) (Parsed False), c') \<and> rc_socket c' = rc_socket c"
  using assms
proof (induction reqs arbitrary: c)
  case Nil
  then show ?case by simp
next
  case (Cons req reqs)
  from Cons.prems obtain c1 where c1: "rtsp_do req c = Some (Parsed False, c1)" "rc_socket c1 = rc_socket c"
    using rtsp_do_closed [of req c] by auto
  with Cons.IH [of c1] Cons.prems obtain c2 where
    "rtsp_run reqs c1 = Some (replicate (length reqs) (Parsed False), c2)" "rc_socket c2 = rc_socket c" by auto
  with c1 show ?case by simp
qed

text \<open>
  A client whose server closed the connection never connects again. A failed receive leaves the socket open, and an
  open socket counts as connected: however often and whatever it is asked from then on, every operation fails.
\<close>

theorem rtsp_never_reconnects:
  assumes "rc_socket c \<ge> 0" "\<forall>req \<in> set reqs. rn_recv (fst req) 0 = []"
  shows "\<exists>c'. rtsp_run reqs c = Some (replicate (length reqs) (Parsed False), c') \<and> rc_socket c' = rc_socket c"
  by (rule rtsp_run_closed [OF assms])

lemma rtsp_never_reconnects_witness:
  "let net = example_net\<lparr>rn_recv := \<lambda>_. []\<rparr>
   in \<exists>c'. rtsp_run [(net, Op_Describe ''/''), (net, Op_Play ''/'')] example_client = Some ([Parsed False, Parsed False], c')"
  using rtsp_never_reconnects [of example_client "[(example_net\<lparr>rn_recv := \<lambda>_. []\<rparr>, Op_Describe ''/''), (example_net\<lparr>rn_recv := \<lambda>_. []\<rparr>, Op_Play ''/'')]"]
  by (auto simp: example_client_def)

end
