(* ===== verification/Audio_Device.thy ===== *)
theory Audio_Device
  imports Stream_Lifecycle Io_Handler Double_Precision
begin

text \<open>
  \<open>Driver/AES67Device.cpp\<close>: the device that Core Audio sees. It owns the 128 rings of each direction, the flag
  and the counters shared with the audio thread, and the stream manager. What the \<open>aspl\<close> framework does with the two
  stream objects is not part of it: they are what the driver last asked of them.
\<close>

section \<open>State\<close>

datatype os_status = NoError | UnsupportedOperation | BadObject

record aspl_stream =
  as_active :: "bool option"          \<comment> \<open>None before the first \<open>SetIsActive\<close>\<close>
  as_sampleRate :: rat

record audio_device =
  dv_io :: io_interface
  dv_inputStream :: "aspl_stream option"
  dv_outputStream :: "aspl_stream option"
  dv_handler :: "io_handler option"
  dv_manager :: "stream_manager option"
  dv_sampleRate :: rat
  dv_bufferSize :: u32

definition supportedSampleRates :: "rat list" where
  "supportedSampleRates = [44100, 48000, 88200, 96000, 176400, 192000, 352800, 384000]"

definition supportedBufferSizes :: "u32 list" where
  "supportedBufferSizes = [16, 32, 48, 64, 128, 192, 288, 480]"

section \<open>The size of the rings\<close>

text \<open>\<open>while (ring < minSize) ring <<= 1\<close>: the bit can be shifted out, then the loop does not end.\<close>

partial_function (option) power_above :: "u64 \<Rightarrow> u64 \<Rightarrow> u64 option" where
  "power_above minSize ring = (if ring < minSize then power_above minSize (push_bit 1 ring) else Some ring)"

definition min_ring_size :: "rat \<Rightarrow> rat \<Rightarrow> int" where
  "min_ring_size sampleRate latencyMs = f64_int (f64_round (f64_round (sampleRate * latencyMs) / 1000))"

definition CalculateRingBufferSize :: "rat \<Rightarrow> rat \<Rightarrow> u64 option" where
  "CalculateRingBufferSize sampleRate latencyMs =
     map_option (\<lambda>ring. min (max ring 512) 8192) (power_above (of_int (min_ring_size sampleRate latencyMs)) 1)"

section \<open>Operations\<close>

definition device_new :: "audio_device option" where
  "device_new = map_option (\<lambda>ring.
     let rings = replicate 128 (spsc_new (Fin 0) (unat ring))
     in \<lparr>dv_io = \<lparr>io_inputBuffers = rings, io_outputBuffers = rings, io_inputUnderruns = 0, io_outputUnderruns = 0,
           io_ioRunning = False\<rparr>,
         dv_inputStream = None, dv_outputStream = None, dv_handler = None, dv_manager = None,
         dv_sampleRate = 48000, dv_bufferSize = 64\<rparr>) (CalculateRingBufferSize 384000 3)"

definition InitializeStreams :: "audio_device \<Rightarrow> audio_device" where
  "InitializeStreams d =
     (let st = \<lparr>as_active = None, as_sampleRate = dv_sampleRate d\<rparr>
      in d\<lparr>dv_inputStream := Some st, dv_outputStream := Some st\<rparr>)"

definition InitializeIOHandler :: "audio_device \<Rightarrow> audio_device" where
  "InitializeIOHandler d = d\<lparr>dv_handler := Some (io_handler_new 128 4)\<rparr>"

definition test_rx_session :: sdp_session where
  "test_rx_session = sdp_default\<lparr>sd_sessionName := ''Test AES67 Stream'',
     sd_sessionInfo := ''Hard-coded test stream for driver development'', sd_connectionAddress := ''239.1.1.1'',
     sd_port := 5004, sd_numChannels := 8, sd_sampleRate := 48000, sd_encoding := ''L24'', sd_payloadType := 97,
     sd_ptime := 1, sd_framecount := 48, sd_ptpDomain := 0, sd_sessionID := 123456, sd_sessionVersion := 1,
     sd_sourceAddress := ''0.0.0.0''\<rparr>"

definition test_tx_mapping :: channel_mapping where
  "test_tx_mapping = \<lparr>cm_streamID = null_id, cm_streamName = [], cm_streamChannelCount = 8, cm_streamChannelOffset = 0,
     cm_deviceChannelStart = 8, cm_deviceChannelCount = 8, cm_channelMap = []\<rparr>"

text \<open>The streams added when nothing was loaded; each addition has its own random bytes and answers of the system.\<close>

definition add_test_streams :: "sm_env \<Rightarrow> sm_env \<Rightarrow> stream_manager \<Rightarrow> stream_manager" where
  "add_test_streams e1 e2 m =
     snd (createTxStream e2 ''Test AES67 TX Stream'' ''239.1.1.2'' 5004 8 test_tx_mapping
       (snd (sm_addStream e1 test_rx_session m)))"

text \<open>\<open>configs\<close> is what \<open>loadConfig\<close> read.\<close>

definition device_Initialize ::
    "sm_env \<Rightarrow> sm_env \<Rightarrow> sm_env \<Rightarrow> persisted_config list option \<Rightarrow> kernel \<Rightarrow> audio_device \<Rightarrow> audio_device" where
  "device_Initialize e e1 e2 configs k d =
     (let d1 = InitializeIOHandler (InitializeStreams d);
          m = snd (setDeviceSampleRate (dv_sampleRate d1) (sm_new k));
          (loadedSavedStreams, m1) = loadSavedStreams e configs m
      in d1\<lparr>dv_manager := Some (if loadedSavedStreams then m1 else add_test_streams e1 e2 m1)\<rparr>)"

definition near_rate :: "rat \<Rightarrow> rat \<Rightarrow> bool" where
  "near_rate x y \<longleftrightarrow> \<bar>f64_round (x - y)\<bar> < f64_round (1 / 10)"

definition set_format_rate :: "rat \<Rightarrow> aspl_stream option \<Rightarrow> aspl_stream option" where
  "set_format_rate rate = map_option (\<lambda>st. st\<lparr>as_sampleRate := rate\<rparr>)"

definition SetSampleRate :: "rat \<Rightarrow> audio_device \<Rightarrow> os_status \<times> audio_device" where
  "SetSampleRate sampleRate d =
     (if \<not> list_ex (near_rate sampleRate) supportedSampleRates then (UnsupportedOperation, d)
      else if io_ioRunning (dv_io d) then (BadObject, d)
      else (NoError, d\<lparr>dv_sampleRate := sampleRate,
              dv_manager := map_option (\<lambda>m. snd (setDeviceSampleRate sampleRate m)) (dv_manager d),
              dv_inputStream := set_format_rate sampleRate (dv_inputStream d),
              dv_outputStream := set_format_rate sampleRate (dv_outputStream d)\<rparr>))"

definition SetBufferSize :: "u32 \<Rightarrow> audio_device \<Rightarrow> os_status \<times> audio_device" where
  "SetBufferSize bufferSize d =
     (if \<not> list_ex ((=) bufferSize) supportedBufferSizes then (UnsupportedOperation, d)
      else (NoError, d\<lparr>dv_bufferSize := bufferSize\<rparr>))"

definition set_active :: "bool \<Rightarrow> aspl_stream option \<Rightarrow> aspl_stream option" where
  "set_active active = map_option (\<lambda>st. st\<lparr>as_active := Some active\<rparr>)"

text \<open>The call of the framework's implementation that follows is not part of the state.\<close>

definition StartIOImpl :: "sm_env \<Rightarrow> u32 \<Rightarrow> audio_device \<Rightarrow> audio_device" where
  "StartIOImpl e startCount d =
     (if startCount = 0
      then d\<lparr>dv_inputStream := set_active True (dv_inputStream d), dv_outputStream := set_active True (dv_outputStream d),
             dv_io := (dv_io d)\<lparr>io_ioRunning := True\<rparr>, dv_manager := map_option (setIOActive e True) (dv_manager d)\<rparr>
      else d)"

definition StopIOImpl :: "sm_env \<Rightarrow> u32 \<Rightarrow> audio_device \<Rightarrow> audio_device" where
  "StopIOImpl e startCount d =
     (if startCount = 0
      then d\<lparr>dv_inputStream := set_active False (dv_inputStream d), dv_outputStream := set_active False (dv_outputStream d),
             dv_manager := map_option (setIOActive e False) (dv_manager d), dv_io := (dv_io d)\<lparr>io_ioRunning := False\<rparr>\<rparr>
      else d)"

definition ResetStatistics :: "audio_device \<Rightarrow> audio_device" where
  "ResetStatistics d = d\<lparr>dv_io := (dv_io d)\<lparr>io_inputUnderruns := 0, io_outputUnderruns := 0\<rparr>\<rparr>"

section \<open>The size of the rings is a power of two\<close>

lemma power_above_loop:
  assumes "unat minSize \<le> 2 ^ k" "j \<le> k" "k < 64"
  shows "\<exists>i. j \<le> i \<and> i \<le> k \<and> power_above minSize (2 ^ j) = Some (2 ^ i) \<and> unat minSize \<le> 2 ^ i"
  using assms(2)
proof (induction "k - j" arbitrary: j)
  case 0
  then have "j = k" by simp
  moreover have "unat (2 ^ k :: u64) = 2 ^ k" using unat_pow2 [where 'a = 64] assms(3) by simp
  then have "\<not> (2 ^ k :: u64) < minSize" using assms(1) by (simp add: word_less_nat_alt)
  ultimately show ?case using assms(1) by (subst power_above.simps) auto
next
  case (Suc n)
  have u: "unat (2 ^ j :: u64) = 2 ^ j" using unat_pow2 [where 'a = 64] Suc.prems assms(3) by simp
  show ?case
  proof (cases "(2 ^ j :: u64) < minSize")
    case True
    have "power_above minSize (2 ^ j) = power_above minSize (2 ^ Suc j)"
      using True by (subst power_above.simps) (simp add: push_bit_eq_mult mult.commute)
    moreover have "\<exists>i. Suc j \<le> i \<and> i \<le> k \<and> power_above minSize (2 ^ Suc j) = Some (2 ^ i) \<and> unat minSize \<le> 2 ^ i"
      using Suc by (intro Suc(1)) simp_all
    ultimately show ?thesis by (auto intro: Suc_leD)
  next
    case False
    then have "unat minSize \<le> 2 ^ j" using u by (simp add: word_less_nat_alt)
    then show ?thesis using False Suc.prems by (subst power_above.simps) auto
  qed
qed

lemma ring_size:
  assumes "0 \<le> min_ring_size r l" "min_ring_size r l \<le> 2 ^ 63"
  shows "\<exists>i. CalculateRingBufferSize r l = Some (2 ^ i) \<and> 9 \<le> i \<and> i \<le> 13 \<and>
    (min_ring_size r l \<le> 8192 \<longrightarrow> min_ring_size r l \<le> 2 ^ i)"
proof -
  define n :: u64 where "n = of_int (min_ring_size r l)"
  have n: "int (unat n) = min_ring_size r l"
    using assms by (simp add: n_def unsigned_of_int take_bit_eq_mod)
  have "int (unat n) \<le> int (2 ^ 63)" using assms(2) n by simp
  then have "unat n \<le> 2 ^ 63" by (simp only: of_nat_le_iff)
  from power_above_loop [OF this, of 0] obtain i where i: "i \<le> 63" "power_above n 1 = Some (2 ^ i)" "unat n \<le> 2 ^ i" by auto
  have w: "(2 ^ a :: u64) \<le> 2 ^ b \<longleftrightarrow> a \<le> b" if "a < 64" "b < 64" for a b
    using that unat_pow2 [where 'a = 64, of a] unat_pow2 [where 'a = 64, of b] by (simp add: word_le_nat_alt)
  define s :: u64 where "s = min (max (2 ^ i) 512) 8192"
  have s: "s = 2 ^ (min (max i 9) 13)"
    using w [of i 9] w [of i 13] w [of 9 i] w [of 13 i] i(1)
    by (auto simp: s_def min_def max_def split: if_splits)
  have c: "CalculateRingBufferSize r l = Some s"
    using i(2) by (simp add: CalculateRingBufferSize_def n_def [symmetric] s_def)
  have "min_ring_size r l \<le> 2 ^ (min (max i 9) 13)" if "min_ring_size r l \<le> 8192"
  proof (cases "i \<le> 13")
    case True
    have "(2 :: int) ^ i \<le> 2 ^ (min (max i 9) 13)" using True by (intro power_increasing) auto
    moreover have "min_ring_size r l \<le> 2 ^ i" using i(3) n by (metis of_nat_le_iff of_nat_numeral of_nat_power)
    ultimately show ?thesis by linarith
  next
    case False
    then have "min (max i 9) 13 = 13" by simp
    then show ?thesis using that by simp
  qed
  then show ?thesis using c s by (intro exI [of _ "min (max i 9) 13"]) auto
qed


section \<open>Adding to a manager that is not active\<close>

text \<open>A mapping whose channels no stream of the table has is accepted.\<close>

lemma mapping_accepted:
  assumes "sm_inv s" "cm_isValid m" "cm_channelMap m = []"
    "\<And>j ms. map_of (sm_streams s) j = Some ms \<Longrightarrow> device_range ms \<inter> {cm_start m ..< cm_start m + cm_count m} = {}"
  shows "\<exists>mp. addMapping m (sm_mapper s) = (True, mp) \<and> cm_count m \<le> getAvailableChannelCount (sm_mapper s)"
proof -
  have tab: "table_inv (sm_mapper s) (sm_streams s) (sm_ioActive s) (sm_deviceSampleRate s)"
    using assms(1) by (simp add: sm_inv_def)
  then have wf: "mapper_wf (sm_mapper s)" by (simp add: table_inv_def)
  have free: "isOverlapWithStream m null_id (sm_mapper s) = Some False"
  proof (rule disjoint_no_overlap [OF wf assms(2)])
    fix j m' assume "getMapping j (sm_mapper s) = Some m'"
    then obtain ms where ms: "map_of (sm_streams s) j = Some ms" "m' = ms_mapping ms"
      using tab by (auto simp: table_inv_get)
    then have "device_range ms = {cm_start m' ..< cm_start m' + cm_count m'}"
      using tab by (auto simp: table_inv_def stream_ok_def device_range_def cm_count_def)
    with assms(4) [OF ms(1)]
    show "{cm_start m ..< cm_start m + cm_count m} \<inter> {cm_start m' ..< cm_start m' + cm_count m'} = {}" by blast
  qed
  then show ?thesis using assms(2) free_range_available [OF wf free] by (simp add: addMapping_def validate_iff)
qed

lemma installed:
  assumes "smap_ok (sm_streams s)"
  shows "map_of (sm_streams (sm_install e i ms s)) j = (if j = i then Some ms else map_of (sm_streams s) j)"
  using assms by (simp add: map_of_smap_put)

text \<open>What the addition of a receiver and of a transmitter leaves behind.\<close>

definition holds_stream :: "bool \<Rightarrow> sdp_session \<Rightarrow> channel_mapping \<Rightarrow> managed_stream \<Rightarrow> bool" where
  "holds_stream transmit sdp m ms \<longleftrightarrow> ms_isTransmit ms = transmit \<and> ms_sdp ms = sdp \<and> ms_mapping ms = m"

definition grown :: "sm_env \<Rightarrow> stream_id \<Rightarrow> managed_stream \<Rightarrow> stream_manager \<Rightarrow> stream_manager \<Rightarrow> bool" where
  "grown e i ms s s' \<longleftrightarrow> sm_inv s' \<and> \<not> sm_ioActive s' \<and> sm_deviceSampleRate s' = sm_deviceSampleRate s \<and>
     sm_autoSaveEnabled s' = sm_autoSaveEnabled s \<and> sm_kernel s' = sm_kernel s \<and>
     sm_streams s' = smap_put i ms (sm_streams s) \<and>
     (sm_autoSaveEnabled s \<and> en_saves e \<longrightarrow> sm_saved s' = Some (map (\<lambda>(_, ms). saved_config (en_now e) ms) (sm_streams s')))"

lemma grown_install:
  assumes "sm_inv (sm_install e i ms (s\<lparr>sm_mapper := mp, sm_kernel := sm_kernel s\<rparr>))" "\<not> sm_ioActive s"
  shows "grown e i ms s (sm_install e i ms (s\<lparr>sm_mapper := mp, sm_kernel := sm_kernel s\<rparr>))"
  using assms
  by (simp add: grown_def sm_install_def autoSaveIfEnabled_def saveAllStreams_def sm_notify_def Let_def saved_config_def)

lemma add_receiver:
  assumes "sm_inv s" "\<not> sm_ioActive s" "fst (canAddStream e sdp s)" "cm_channelMap mapping = []"
    and i: "i = generate_stream_id (en_random e)" "map_of (sm_streams s) i = None"
    and m: "m = complete_mapping i (sd_sessionName sdp) (sd_numChannels sdp) mapping" "cm_isValid m"
    "\<And>j ms. map_of (sm_streams s) j = Some ms \<Longrightarrow> device_range ms \<inter> {cm_start m ..< cm_start m + cm_count m} = {}"
  shows "\<exists>ms. holds_stream False sdp m ms \<and> grown e i ms s (snd (sm_addStream_mapped e sdp mapping s))"
proof -
  have mm: "cm_channelMap m = []" using assms(4) by (simp add: m(1) complete_mapping_def)
  obtain mp where mp: "addMapping m (sm_mapper s) = (True, mp)"
    using mapping_accepted [OF assms(1) m(2) mm] m(3) by blast
  define ms where "ms = \<lparr>ms_sdp = sdp, ms_mapping = m, ms_receiver = Some (rx_new (en_lookup e) sdp m 0 []),
    ms_transmitter = None, ms_info = stream_info_of (en_fresh e) i sdp, ms_isTransmit = False\<rparr>"
  have "snd (sm_addStream_mapped e sdp mapping s) = sm_install e i ms (s\<lparr>sm_mapper := mp, sm_kernel := sm_kernel s\<rparr>)"
    using assms(2,3) i(2) mp
    by (simp add: sm_addStream_mapped_def Let_def i(1) [symmetric] m(1) [symmetric] start_if_active_def ms_def)
  moreover have "holds_stream False sdp m ms" by (simp add: holds_stream_def ms_def)
  ultimately show ?thesis
    using grown_install [OF _ assms(2), of e i ms mp] addStream_mapped_inv [OF assms(1,4), of e sdp] by metis
qed

lemma add_transmitter:
  assumes "sm_inv s" "\<not> sm_ioActive s" "sdp = tx_session e name ip port n (sm_deviceSampleRate s)"
    "fst (canAddStream e sdp s)" "cm_channelMap mapping = []"
    and i: "i = generate_stream_id (en_random e)" "map_of (sm_streams s) i = None"
    and m: "m = complete_mapping i name n mapping" "cm_isValid m"
    "\<And>j ms. map_of (sm_streams s) j = Some ms \<Longrightarrow> device_range ms \<inter> {cm_start m ..< cm_start m + cm_count m} = {}"
  shows "\<exists>ms. holds_stream True sdp m ms \<and> grown e i ms s (snd (createTxStream e name ip port n mapping s))"
proof -
  have mm: "cm_channelMap m = []" using assms(5) by (simp add: m(1) complete_mapping_def)
  obtain mp where mp: "addMapping m (sm_mapper s) = (True, mp)"
    using mapping_accepted [OF assms(1) m(2) mm] m(3) by blast
  define info where "info = (en_fresh e)\<lparr>si_id := i, si_name := name, si_multicast := (si_multicast (en_fresh e))\<lparr>na_ip := ip, na_port := port\<rparr>,
    si_encoding := L24, si_sampleRate := sd_sampleRate sdp, si_numChannels := n, si_payloadType := sd_payloadType sdp, si_isActive := True\<rparr>"
  define ms where "ms = \<lparr>ms_sdp = sdp, ms_mapping = m, ms_receiver = None,
    ms_transmitter = Some (tx_new (en_ssrc e) sdp m []), ms_info = info, ms_isTransmit = True\<rparr>"
  have "snd (createTxStream e name ip port n mapping s) = sm_install e i ms (s\<lparr>sm_mapper := mp, sm_kernel := sm_kernel s\<rparr>)"
    using assms(2,4) mp
    by (simp add: createTxStream_def Let_def assms(3) [symmetric] i(1) [symmetric] m(1) [symmetric] start_if_active_def
        info_def [symmetric] ms_def [symmetric])
  moreover have "holds_stream True sdp m ms" by (simp add: holds_stream_def ms_def)
  ultimately show ?thesis
    using grown_install [OF _ assms(2), of e i ms mp] createTxStream_inv [OF assms(1,5), of e name ip port n] i by metis
qed

section \<open>The test streams\<close>

lemma default_block: "findContiguousBlock 8 mapper_new = Some 0" by code_simp

lemma all_available: "getAvailableChannelCount mapper_new = 128" by code_simp

lemma rate_48000: "\<not> rate_mismatch 48000 48000" using rate_mismatch_self [of 48000] by simp

definition test_rx_mapping :: "stream_id \<Rightarrow> channel_mapping" where
  "test_rx_mapping i = \<lparr>cm_streamID = i, cm_streamName = ''Test AES67 Stream'', cm_streamChannelCount = 8,
     cm_streamChannelOffset = 0, cm_deviceChannelStart = 0, cm_deviceChannelCount = 8, cm_channelMap = []\<rparr>"

lemma test_mappings:
  assumes "\<not> isNull i"
  shows "cm_isValid (test_rx_mapping i)" "cm_isValid (complete_mapping i name 8 test_tx_mapping)"
    "cm_start (test_rx_mapping i) = 0" "cm_count (test_rx_mapping i) = 8"
    "cm_start (complete_mapping i name 8 test_tx_mapping) = 8" "cm_count (complete_mapping i name 8 test_tx_mapping) = 8"
  using assms by (simp_all add: cm_isValid_iff cm_start_def cm_count_def test_rx_mapping_def test_tx_mapping_def complete_mapping_def)

lemma test_streams:
  assumes "length (en_random e1) = 16" "length (en_random e2) = 16"
    and i: "i1 = generate_stream_id (en_random e1)" "i2 = generate_stream_id (en_random e2)" "i1 \<noteq> i2"
  shows "\<exists>rx tx s. add_test_streams e1 e2 (sm_new k) = s \<and> sm_inv s \<and> \<not> sm_ioActive s \<and> sm_deviceSampleRate s = 48000 \<and>
    sm_streams s = smap_put i2 tx [(i1, rx)] \<and> ms_sdp rx = test_rx_session \<and> \<not> ms_isTransmit rx \<and> device_range rx = {0..<8} \<and>
    sd_sessionName (ms_sdp tx) = ''Test AES67 TX Stream'' \<and> ms_isTransmit tx \<and> device_range tx = {8..<16} \<and>
    (en_saves e2 \<longrightarrow> sm_saved s = Some (map (\<lambda>(_, ms). saved_config (en_now e2) ms) (sm_streams s)))"
proof -
  have nn: "\<not> isNull i1" "\<not> isNull i2" using generate_not_null(2) assms(1,2) by (simp_all add: i)
  define s0 where "s0 = sm_new k"
  have s0: "sm_inv s0" "\<not> sm_ioActive s0" "sm_streams s0 = []" "sm_deviceSampleRate s0 = 48000" "sm_mapper s0 = mapper_new"
      "sm_autoSaveEnabled s0"
    using new_rate_inv [where k = k and rate = 48000] by (simp_all add: s0_def sm_new_def)
  define mapping where "mapping = \<lparr>cm_streamID = null_id, cm_streamName = ''Test AES67 Stream'', cm_streamChannelCount = 8,
     cm_streamChannelOffset = 0, cm_deviceChannelStart = 0, cm_deviceChannelCount = 8, cm_channelMap = []\<rparr>"
  have n: "sd_sessionName test_rx_session = ''Test AES67 Stream''" "sd_numChannels test_rx_session = 8"
    "sd_sampleRate test_rx_session = 48000" "network_ok test_rx_session"
    by (simp_all add: test_rx_session_def network_ok_def)
  have c1: "fst (canAddStream e1 test_rx_session s0)"
    using rate_48000 s0 all_available by (simp add: canAddStream_iff n)
  have m1: "test_rx_mapping i1 = complete_mapping i1 (sd_sessionName test_rx_session) (sd_numChannels test_rx_session) mapping"
    by (simp add: test_rx_mapping_def complete_mapping_def mapping_def n)
  have a: "sm_addStream e1 test_rx_session s0 = sm_addStream_mapped e1 test_rx_session mapping s0"
    using default_block s0 by (simp add: sm_addStream_def createDefaultMapping_def n mapping_def)
  obtain rx where rx: "holds_stream False test_rx_session (test_rx_mapping i1) rx"
      "grown e1 i1 rx s0 (snd (sm_addStream e1 test_rx_session s0))"
    using add_receiver [OF s0(1,2) c1, of mapping i1 "test_rx_mapping i1"] i(1) s0(3) m1 test_mappings(1) [OF nn(1)]
    unfolding a by (auto simp: mapping_def)
  define s1 where "s1 = snd (sm_addStream e1 test_rx_session s0)"
  have s1: "sm_inv s1" "\<not> sm_ioActive s1" "sm_streams s1 = [(i1, rx)]" "sm_deviceSampleRate s1 = 48000" "sm_autoSaveEnabled s1"
    using rx(2) s0 by (simp_all add: grown_def s1_def [symmetric])
  have r1: "device_range rx = {0..<8}"
    using rx(1) by (simp add: holds_stream_def device_range_def n test_mappings [OF nn(1)])
  define m2 where "m2 = complete_mapping i2 ''Test AES67 TX Stream'' 8 test_tx_mapping"
  define sdp2 where "sdp2 = tx_session e2 ''Test AES67 TX Stream'' ''239.1.1.2'' 5004 8 (sm_deviceSampleRate s1)"
  have d: "device_range ms \<inter> {cm_start m2 ..< cm_start m2 + cm_count m2} = {}" if "map_of (sm_streams s1) j = Some ms" for j ms
    using that r1 test_mappings(5,6) [OF nn(2)] by (auto simp: s1 m2_def split: if_splits)
  have m2: "cm_isValid m2" "cm_channelMap m2 = []" "cm_channelMap test_tx_mapping = []"
    using test_mappings(2) [OF nn(2)] by (simp_all add: m2_def complete_mapping_def test_tx_mapping_def)
  have n2: "network_ok sdp2" "sd_numChannels sdp2 = 8" "sd_sampleRate sdp2 = 48000" "sd_sessionName sdp2 = ''Test AES67 TX Stream''"
    by (simp_all add: sdp2_def tx_session_def network_ok_def s1 f64_int_def)
  have "8 \<le> getAvailableChannelCount (sm_mapper s1)"
    using mapping_accepted [OF s1(1) m2(1,2) d] test_mappings(6) [OF nn(2)] by (auto simp: m2_def)
  then have c2: "fst (canAddStream e2 sdp2 s1)"
    using rate_48000 s1(4) by (simp add: canAddStream_iff n2)
  have fresh: "map_of (sm_streams s1) i2 = None" using i(3) by (simp add: s1)
  obtain tx where tx: "holds_stream True sdp2 m2 tx"
      "grown e2 i2 tx s1 (snd (createTxStream e2 ''Test AES67 TX Stream'' ''239.1.1.2'' 5004 8 test_tx_mapping s1))"
    using add_transmitter [OF s1(1,2) sdp2_def c2 m2(3) i(2) fresh m2_def m2(1)] d by blast
  have "device_range tx = {8..<16}"
    using tx(1) by (simp add: holds_stream_def device_range_def n2 test_mappings [OF nn(2)] m2_def)
  then show ?thesis
    using tx rx(1) r1 s1(3-5) n2(4)
    by (intro exI [of _ rx] exI [of _ tx] exI [of _ "add_test_streams e1 e2 (sm_new k)"])
      (simp add: add_test_streams_def s0_def [symmetric] s1_def [symmetric] grown_def holds_stream_def)
qed


section \<open>Loading nothing\<close>

lemma load_config_skips:
  assumes "load_config e c s = (False, s')" "\<not> sm_ioActive s"
  shows "s' = s"
  using assms by (auto simp: load_config_def Let_def start_if_active_def split: if_splits prod.splits option.splits)

lemma load_configs_none:
  "load_configs e cs s = (0, s') \<Longrightarrow> \<not> sm_ioActive s \<Longrightarrow> s' = s"
proof (induction e cs s arbitrary: s' rule: load_configs.induct)
  case (2 e c cs s)
  obtain ok s1 n s2 where 1: "load_config e c s = (ok, s1)" "load_configs e cs s1 = (n, s2)" by (meson surj_pair)
  with 2(2) have ok: "\<not> ok" "n = 0" "s' = s2" by (auto split: if_splits)
  with load_config_skips [of e c s s1] 1(1) 2(3) have "s1 = s" by simp
  with 2(1) [OF 1(1) [symmetric] refl] 1 ok 2(3) show ?case by simp
qed simp

lemma load_wrong_rate:
  assumes "\<forall>c \<in> set cs. rate_mismatch (sd_sampleRate (pv_sdp c)) (sm_deviceSampleRate s)"
  shows "load_configs e cs s = (0, s)"
  using assms
proof (induction cs)
  case (Cons c cs)
  then have "load_config e c s = (False, s)" by (simp add: load_config_def canAddStream_iff)
  with Cons show ?case by simp
qed simp

section \<open>The constructed device\<close>

lemma min_size_384000: "min_ring_size 384000 3 = 1152"
proof -
  have "f64_round 1152000 = 1152000" "f64_round 1152 = 1152"
    using f64_exact [of 1152000] f64_exact [of 1152] by simp_all
  then show ?thesis by (simp add: min_ring_size_def f64_int_def)
qed

lemma ring_size_384000: "CalculateRingBufferSize 384000 3 = Some 2048"
proof -
  have "unat (1152 :: u64) \<le> 2 ^ 11" by simp
  from power_above_loop [OF this, of 0] obtain i where i: "i \<le> 11" "power_above 1152 1 = Some (2 ^ i)" "1152 \<le> (2 :: nat) ^ i" by auto
  have "i = 11"
  proof (rule ccontr)
    assume "i \<noteq> 11"
    then have "(2 :: nat) ^ i \<le> 2 ^ 10" using i(1) by (intro power_increasing) auto
    with i(3) show False by simp
  qed
  with i(2) show ?thesis by (simp add: CalculateRingBufferSize_def min_size_384000)
qed

definition fresh_device :: audio_device where
  "fresh_device = (let rings = replicate 128 (spsc_new (Fin 0) 2048)
     in \<lparr>dv_io = \<lparr>io_inputBuffers = rings, io_outputBuffers = rings, io_inputUnderruns = 0, io_outputUnderruns = 0, io_ioRunning = False\<rparr>,
         dv_inputStream = None, dv_outputStream = None, dv_handler = None, dv_manager = None,
         dv_sampleRate = 48000, dv_bufferSize = 64\<rparr>)"

lemma device_new_fresh: "device_new = Some fresh_device"
  by (simp add: device_new_def ring_size_384000 fresh_device_def)

lemma new_rate_48000: "setDeviceSampleRate 48000 (sm_new k) = (True, sm_new k)"
  by (simp add: setDeviceSampleRate_def sm_new_def)

lemma initialized:
  "device_Initialize e e1 e2 configs k fresh_device = fresh_device\<lparr>
     dv_inputStream := Some \<lparr>as_active = None, as_sampleRate = 48000\<rparr>,
     dv_outputStream := Some \<lparr>as_active = None, as_sampleRate = 48000\<rparr>,
     dv_handler := Some (io_handler_new 128 4),
     dv_manager := Some (if fst (loadSavedStreams e configs (sm_new k)) then snd (loadSavedStreams e configs (sm_new k))
       else add_test_streams e1 e2 (sm_new k))\<rparr>"
proof -
  have n: "snd (loadSavedStreams e configs (sm_new k)) = sm_new k" if "\<not> fst (loadSavedStreams e configs (sm_new k))"
  proof (cases configs)
    case (Some cs)
    obtain j s' where l: "load_configs e cs (sm_new k) = (j, s')" by fastforce
    with that Some have "j = 0" by (simp add: loadSavedStreams_def)
    with l load_configs_none [of e cs "sm_new k" s'] Some show ?thesis by (simp add: loadSavedStreams_def sm_new_def)
  qed (simp add: loadSavedStreams_def)
  have f: "dv_sampleRate fresh_device = 48000" by (simp add: fresh_device_def Let_def)
  obtain ok m1 where l: "loadSavedStreams e configs (sm_new k) = (ok, m1)" by fastforce
  show ?thesis using n l
    by (cases ok) (simp_all add: device_Initialize_def InitializeIOHandler_def InitializeStreams_def Let_def f new_rate_48000)
qed

section \<open>Reachable devices\<close>

definition device_start :: "audio_device \<Rightarrow> bool" where
  "device_start d \<longleftrightarrow> (\<exists>d0 e e1 e2 configs k. device_new = Some d0 \<and> d = device_Initialize e e1 e2 configs k d0 \<and>
     length (en_random e1) = 16 \<and> length (en_random e2) = 16 \<and>
     generate_stream_id (en_random e1) \<noteq> generate_stream_id (en_random e2))"

text \<open>The calls of Core Audio, and any use of the manager but its I/O switch, which the device keeps to itself.\<close>

inductive device_step :: "audio_device \<Rightarrow> audio_device \<Rightarrow> bool" where
  "device_step d (snd (SetSampleRate r d))"
| "device_step d (snd (SetBufferSize n d))"
| "device_step d (StartIOImpl e c d)"
| "device_step d (StopIOImpl e c d)"
| "device_step d (ResetStatistics d)"
| "dv_manager d = Some m \<Longrightarrow> sm_step m m' \<Longrightarrow> sm_ioActive m' = sm_ioActive m \<Longrightarrow>
     device_step d (d\<lparr>dv_manager := Some m'\<rparr>)"

inductive_cases device_stepE: "device_step d d'"

definition stream_follows :: "audio_device \<Rightarrow> aspl_stream option \<Rightarrow> bool" where
  "stream_follows d st \<longleftrightarrow> (\<exists>a. st = Some a \<and> as_sampleRate a = dv_sampleRate d \<and>
     (as_active a = Some True \<longleftrightarrow> io_ioRunning (dv_io d)))"

definition device_inv :: "audio_device \<Rightarrow> bool" where
  "device_inv d \<longleftrightarrow> list_ex (near_rate (dv_sampleRate d)) supportedSampleRates \<and>
     dv_bufferSize d \<in> set supportedBufferSizes \<and> stream_follows d (dv_inputStream d) \<and> stream_follows d (dv_outputStream d) \<and>
     (\<exists>m. dv_manager d = Some m \<and> sm_sound m \<and> sm_ioActive m = io_ioRunning (dv_io d))"

lemma near_self: "near_rate r r"
proof -
  have "0 < f64_round (1 / 10)" using f64_error [of "1 / 10"] unfolding abs_le_iff by simp
  then show ?thesis by (simp add: near_rate_def)
qed

lemma setIOActive_active [simp]: "sm_ioActive (setIOActive e a s) = a"
  by (auto simp: setIOActive_def Let_def split: prod.splits)

lemma setDeviceSampleRate_active [simp]: "sm_ioActive (snd (setDeviceSampleRate r s)) = sm_ioActive s"
  by (simp add: setDeviceSampleRate_def)

lemma start_device_inv:
  assumes "device_start d"
  shows "device_inv d"
proof -
  obtain e e1 e2 configs k where d: "d = device_Initialize e e1 e2 configs k fresh_device"
    and l: "length (en_random e1) = 16" "length (en_random e2) = 16"
      "generate_stream_id (en_random e1) \<noteq> generate_stream_id (en_random e2)"
    using assms by (auto simp: device_start_def device_new_fresh)
  define m where "m = (if fst (loadSavedStreams e configs (sm_new k)) then snd (loadSavedStreams e configs (sm_new k))
       else add_test_streams e1 e2 (sm_new k))"
  have i0: "sm_sound (sm_new k)" "\<not> sm_ioActive (sm_new k)"
    using sm_inv_sound [OF new_rate_inv [where k = k and rate = 48000]] by (simp_all add: sm_new_def)
  have a: "sm_sound (snd (loadSavedStreams e configs (sm_new k)))" by (rule loadSavedStreams_sound [OF i0(1)])
  have act: "sm_ioActive (snd (load_configs e cs s)) = sm_ioActive s" for e cs s
  proof (induction e cs s rule: load_configs.induct)
    case (2 e c cs s)
    have "sm_ioActive (snd (load_config e c s)) = sm_ioActive s"
      by (auto simp: load_config_def Let_def sm_notify_def split: prod.splits option.splits)
    with 2 show ?case by (auto split: prod.splits)
  qed simp
  have b: "\<not> sm_ioActive (snd (loadSavedStreams e configs (sm_new k)))"
    using i0(2) act by (auto simp: loadSavedStreams_def split: option.split prod.splits) (metis snd_conv)
  from test_streams [OF l(1,2) refl refl l(3), of k] have "sm_sound (add_test_streams e1 e2 (sm_new k))"
    "\<not> sm_ioActive (add_test_streams e1 e2 (sm_new k))" using sm_inv_sound by auto
  with a b have "sm_sound m" "\<not> sm_ioActive m" by (simp_all add: m_def)
  moreover have "list_ex (near_rate 48000) supportedSampleRates" using near_self by (simp add: supportedSampleRates_def)
  ultimately show ?thesis
    unfolding d initialized m_def [symmetric]
    by (simp add: device_inv_def stream_follows_def fresh_device_def Let_def supportedBufferSizes_def)
qed

lemma step_device_inv:
  assumes "device_inv d" "device_step d d'"
  shows "device_inv d'"
proof -
  obtain i out m where inv: "list_ex (near_rate (dv_sampleRate d)) supportedSampleRates"
    "dv_bufferSize d \<in> set supportedBufferSizes" "dv_inputStream d = Some i" "dv_outputStream d = Some out" "dv_manager d = Some m"
    "as_sampleRate i = dv_sampleRate d" "as_sampleRate out = dv_sampleRate d"
    "as_active i = Some True \<longleftrightarrow> io_ioRunning (dv_io d)" "as_active out = Some True \<longleftrightarrow> io_ioRunning (dv_io d)"
    "sm_sound m" "sm_ioActive m = io_ioRunning (dv_io d)"
    using assms(1) by (auto simp: device_inv_def stream_follows_def)
  from assms(2) show ?thesis
  proof (rule device_stepE)
    fix r assume "d' = snd (SetSampleRate r d)"
    then show ?thesis using inv setDeviceSampleRate_sound [OF inv(10), of r]
      by (simp add: SetSampleRate_def device_inv_def stream_follows_def set_format_rate_def)
  next
    fix n assume "d' = snd (SetBufferSize n d)"
    then show ?thesis using inv
      by (auto simp: SetBufferSize_def device_inv_def stream_follows_def list_ex_iff)
  next
    fix e c assume "d' = StartIOImpl e c d"
    then show ?thesis using inv setIOActive_sound [OF inv(10), of e True]
      by (simp add: StartIOImpl_def device_inv_def stream_follows_def set_active_def)
  next
    fix e c assume "d' = StopIOImpl e c d"
    then show ?thesis using inv setIOActive_sound [OF inv(10), of e False]
      by (simp add: StopIOImpl_def device_inv_def stream_follows_def set_active_def)
  next
    assume "d' = ResetStatistics d"
    then show ?thesis using inv by (simp add: ResetStatistics_def device_inv_def stream_follows_def)
  next
    fix m0 m' assume a: "d' = d\<lparr>dv_manager := Some m'\<rparr>" "dv_manager d = Some m0" "sm_step m0 m'" "sm_ioActive m' = sm_ioActive m0"
    then have "m0 = m" using inv(5) by simp
    with a have "sm_sound m'" using manager_sys.inv_step inv(10) by blast
    with a inv \<open>m0 = m\<close> show ?thesis by (simp add: device_inv_def stream_follows_def)
  qed
qed

interpretation device_sys: invariant_system device_start device_step device_inv
  by unfold_locales (fact start_device_inv, fact step_device_inv)


section \<open>Changing the rate\<close>

lemma refused_rate:
  assumes "map_of (sm_streams m) i = Some ms" "rate_mismatch (sd_sampleRate (ms_sdp ms)) r"
  shows "setDeviceSampleRate r m = (False, m)"
proof -
  have "(i, ms) \<in> set (sm_streams m)" using assms(1) by (rule map_of_SomeD)
  then show ?thesis using assms(2) by (auto simp: setDeviceSampleRate_def list_ex_iff)
qed

lemma desync:
  assumes "device_inv d" "\<not> io_ioRunning (dv_io d)" "dv_manager d = Some m" "map_of (sm_streams m) i = Some ms"
    "rate_mismatch (sd_sampleRate (ms_sdp ms)) r" "list_ex (near_rate r) supportedSampleRates"
  shows "\<exists>d'. SetSampleRate r d = (NoError, d') \<and> dv_sampleRate d' = r \<and> dv_manager d' = Some m \<and>
    \<not> rate_mismatch (sd_sampleRate (ms_sdp ms)) (sm_deviceSampleRate m)"
proof -
  have "sm_sound m" using assms(1,3) by (auto simp: device_inv_def)
  then have "stream_sound (sm_ioActive m) (sm_deviceSampleRate m) i ms" using assms(4) by (auto simp: sm_sound_def table_sound_def)
  with assms(2,3,6) refused_rate [OF assms(4,5)] show ?thesis by (simp add: SetSampleRate_def stream_sound_def)
qed

lemma min_size_bounds:
  assumes "0 \<le> r" "r \<le> 384000"
  shows "0 \<le> min_ring_size r 3" "min_ring_size r 3 \<le> 1152"
proof -
  have "0 \<le> f64_round (r * 3)" "f64_round (r * 3) \<le> 1152000"
    using f64_nonneg [of "r * 3"] f64_between(1) [of 1152000 "r * 3"] assms by simp_all
  then have "0 \<le> f64_round (f64_round (r * 3) / 1000)" "f64_round (f64_round (r * 3) / 1000) \<le> 1152"
    using f64_nonneg [of "f64_round (r * 3) / 1000"] f64_between(1) [of 1152 "f64_round (r * 3) / 1000"] by simp_all
  then show "0 \<le> min_ring_size r 3" "min_ring_size r 3 \<le> 1152"
    by (simp_all add: min_ring_size_def f64_int_def floor_le_iff)
qed

section \<open>A device with the test streams\<close>

definition device_env :: "u8 \<Rightarrow> sm_env" where
  "device_env b = manager_env b"

definition test_device :: audio_device where
  "test_device = device_Initialize (device_env 1) (device_env 1) (device_env 2) None manager_kernel fresh_device"

lemma device_ids: "length (en_random (device_env b)) = 16"
  "generate_stream_id (en_random (device_env 1)) \<noteq> generate_stream_id (en_random (device_env 2))"
proof -
  show "length (en_random (device_env b)) = 16" by (simp add: device_env_def manager_env_def)
  show "generate_stream_id (en_random (device_env 1)) \<noteq> generate_stream_id (en_random (device_env 2))"
    by (simp add: device_env_def manager_env_def generate_stream_id_def Let_def list_update_code)
qed

lemma test_device_start: "device_start test_device"
  unfolding device_start_def
  by (rule exI [of _ fresh_device], rule exI [of _ "device_env 1"], rule exI [of _ "device_env 1"],
      rule exI [of _ "device_env 2"], rule exI [of _ None], rule exI [of _ manager_kernel])
    (simp add: device_new_fresh device_ids test_device_def)

lemma test_device_reach: "reach device_start device_step test_device"
  by (rule reach_start) (rule test_device_start)

lemma test_device_manager:
  "dv_manager test_device = Some (add_test_streams (device_env 1) (device_env 2) (sm_new manager_kernel))"
  "\<not> io_ioRunning (dv_io test_device)" "dv_sampleRate test_device = 48000"
  unfolding test_device_def initialized
  by (simp_all add: loadSavedStreams_def fresh_device_def Let_def)

section \<open>Properties\<close>

text \<open>
  C18. A device is always well formed. However Core Audio and the user of the stream manager call it, its rate is a supported one
  within 0.1 Hz, its buffer size is one of the eight offered, both stream objects carry that rate and are active exactly while I/O runs,
  and the stream manager agrees with the device on whether I/O runs.
\<close>

theorem device_well_formed:
  assumes "reach device_start device_step d"
  shows "list_ex (near_rate (dv_sampleRate d)) supportedSampleRates \<and> dv_bufferSize d \<in> set supportedBufferSizes \<and>
    stream_follows d (dv_inputStream d) \<and> stream_follows d (dv_outputStream d) \<and>
    (\<exists>m. dv_manager d = Some m \<and> sm_ioActive m = io_ioRunning (dv_io d))"
  using device_sys.reach_inv [OF assms] by (auto simp: device_inv_def)

lemma device_well_formed_witness:
  "list_ex (near_rate (dv_sampleRate (StartIOImpl (device_env 1) 0 test_device))) supportedSampleRates \<and>
    stream_follows (StartIOImpl (device_env 1) 0 test_device) (dv_inputStream (StartIOImpl (device_env 1) 0 test_device))"
  using device_well_formed [OF reach_step [OF test_device_reach device_step.intros(3)]] by blast

text \<open>
  The device changes its rate behind the stream manager's back. While any stream has another rate, the manager refuses
  the new rate; the device ignores the refusal, reports success and announces the new rate to Core Audio, while manager and
  streams stay at the old one.
\<close>

theorem rate_change_desyncs:
  assumes "reach device_start device_step d" "\<not> io_ioRunning (dv_io d)" "dv_manager d = Some m"
    "map_of (sm_streams m) i = Some ms" "rate_mismatch (sd_sampleRate (ms_sdp ms)) r"
    "list_ex (near_rate r) supportedSampleRates"
  shows "\<exists>d'. SetSampleRate r d = (NoError, d') \<and> dv_sampleRate d' = r \<and> dv_manager d' = Some m \<and>
    \<not> rate_mismatch (sd_sampleRate (ms_sdp ms)) (sm_deviceSampleRate m)"
  by (rule desync [OF device_sys.reach_inv [OF assms(1)] assms(2-6)])

lemma rate_change_desyncs_witness:
  "\<exists>d'. SetSampleRate 96000 test_device = (NoError, d') \<and> dv_sampleRate d' = 96000 \<and> dv_manager d' = dv_manager test_device"
proof -
  obtain rx tx where s: "sm_streams (add_test_streams (device_env 1) (device_env 2) (sm_new manager_kernel)) =
      smap_put (generate_stream_id (en_random (device_env 2))) tx [(generate_stream_id (en_random (device_env 1)), rx)]"
    "ms_sdp rx = test_rx_session"
    using test_streams [OF device_ids(1) device_ids(1) refl refl device_ids(2), of manager_kernel] by blast
  have g: "map_of (sm_streams (add_test_streams (device_env 1) (device_env 2) (sm_new manager_kernel)))
      (generate_stream_id (en_random (device_env 1))) = Some rx"
    using device_ids(2) by (simp add: s map_of_smap_put smap_ok_def)
  have "f64_round (48000 - 96000) = - 48000" using f64_exact [of "- 48000"] by simp
  moreover have "f64_round (1 / 10) < 48000" using f64_error [of "1 / 10"] unfolding abs_le_iff by simp
  ultimately have "rate_mismatch (sd_sampleRate (ms_sdp rx)) 96000"
    by (simp add: s(2) test_rx_session_def rate_mismatch_def)
  moreover have "list_ex (near_rate 96000) supportedSampleRates" using near_self by (simp add: supportedSampleRates_def)
  ultimately show ?thesis
    using rate_change_desyncs [OF test_device_reach test_device_manager(2,1) g] test_device_manager(1) by auto
qed

text \<open>
  C17. A start with streams saved at another rate destroys the saved configuration. The device always starts at 48 kHz, so none of
  those streams is loaded, which counts as nothing saved: the two test streams are added, and adding them saves, which replaces
  everything the user had stored.
\<close>

theorem start_overwrites_saved_streams:
  assumes "device_new = Some d0" "\<forall>c \<in> set cs. rate_mismatch (sd_sampleRate (pv_sdp c)) 48000"
    "length (en_random e1) = 16" "length (en_random e2) = 16" "en_saves e2"
    "generate_stream_id (en_random e1) \<noteq> generate_stream_id (en_random e2)"
  shows "\<exists>m saved. dv_manager (device_Initialize e e1 e2 (Some cs) k d0) = Some m \<and> sm_saved m = Some saved \<and>
    (\<lambda>c. sd_sessionName (pv_sdp c)) ` set saved = {''Test AES67 Stream'', ''Test AES67 TX Stream''}"
proof -
  have d0: "d0 = fresh_device" using assms(1) by (simp add: device_new_fresh)
  have "loadSavedStreams e (Some cs) (sm_new k) = (False, sm_new k)"
    using assms(2) load_wrong_rate [of cs "sm_new k" e] by (simp add: loadSavedStreams_def sm_new_def)
  then have m: "dv_manager (device_Initialize e e1 e2 (Some cs) k d0) = Some (add_test_streams e1 e2 (sm_new k))"
    by (simp add: d0 initialized)
  define i1 where "i1 = generate_stream_id (en_random e1)"
  define i2 where "i2 = generate_stream_id (en_random e2)"
  obtain rx tx where s: "sm_streams (add_test_streams e1 e2 (sm_new k)) = smap_put i2 tx [(i1, rx)]"
    "ms_sdp rx = test_rx_session" "sd_sessionName (ms_sdp tx) = ''Test AES67 TX Stream''"
    "sm_saved (add_test_streams e1 e2 (sm_new k)) =
      Some (map (\<lambda>(_, ms). saved_config (en_now e2) ms) (sm_streams (add_test_streams e1 e2 (sm_new k))))"
    using test_streams [OF assms(3,4) refl refl assms(6), of k] assms(5) unfolding i1_def i2_def by metis
  have "set (smap_put i2 tx [(i1, rx)]) = {(i1, rx), (i2, tx)}" using assms(6) by (auto simp: i1_def i2_def)
  then show ?thesis using m s
    by (simp add: saved_config_def createConfig_def test_rx_session_def image_image case_prod_beta)
qed

lemma start_overwrites_saved_streams_witness:
  "\<exists>m saved. dv_manager (device_Initialize (device_env 1) (device_env 1) (device_env 2)
      (Some [createConfig 1 (test_rx_session\<lparr>sd_sampleRate := 96000\<rparr>) test_tx_mapping []]) manager_kernel fresh_device) = Some m \<and>
    sm_saved m = Some saved \<and> (\<lambda>c. sd_sessionName (pv_sdp c)) ` set saved = {''Test AES67 Stream'', ''Test AES67 TX Stream''}"
proof -
  have "f64_round (96000 - 48000) = 48000" using f64_exact [of 48000] by simp
  moreover have "f64_round (1 / 10) < 48000" using f64_error [of "1 / 10"] unfolding abs_le_iff by simp
  ultimately have "rate_mismatch 96000 48000" by (simp add: rate_mismatch_def)
  then have "\<forall>c \<in> set [createConfig 1 (test_rx_session\<lparr>sd_sampleRate := 96000\<rparr>) test_tx_mapping []].
      rate_mismatch (sd_sampleRate (pv_sdp c)) 48000" by (simp add: createConfig_def)
  moreover have "en_saves (device_env 2)" by (simp add: device_env_def manager_env_def)
  ultimately show ?thesis
    by (intro start_overwrites_saved_streams device_new_fresh device_ids)
qed

text \<open>
  A device that finds nothing saved has two streams: the test stream is received on the device channels 0 to 7 and the other
  one is sent from the channels 8 to 15, both at 48 kHz.
\<close>

theorem new_device_streams:
  assumes "device_new = Some d0" "length (en_random e1) = 16" "length (en_random e2) = 16"
    "generate_stream_id (en_random e1) \<noteq> generate_stream_id (en_random e2)"
  shows "\<exists>m rx tx. dv_manager (device_Initialize e e1 e2 None k d0) = Some m \<and> sm_deviceSampleRate m = 48000 \<and>
    set (sm_streams m) = {(generate_stream_id (en_random e1), rx), (generate_stream_id (en_random e2), tx)} \<and>
    \<not> ms_isTransmit rx \<and> device_range rx = {0..<8} \<and> ms_isTransmit tx \<and> device_range tx = {8..<16}"
proof -
  have m: "dv_manager (device_Initialize e e1 e2 None k d0) = Some (add_test_streams e1 e2 (sm_new k))"
    using assms(1) by (simp add: device_new_fresh initialized loadSavedStreams_def)
  define i1 where "i1 = generate_stream_id (en_random e1)"
  define i2 where "i2 = generate_stream_id (en_random e2)"
  obtain rx tx where s: "sm_streams (add_test_streams e1 e2 (sm_new k)) = smap_put i2 tx [(i1, rx)]"
    "\<not> ms_isTransmit rx" "device_range rx = {0..<8}" "ms_isTransmit tx" "device_range tx = {8..<16}"
    "sm_deviceSampleRate (add_test_streams e1 e2 (sm_new k)) = 48000"
    using test_streams [OF assms(2,3) refl refl assms(4), of k] unfolding i1_def i2_def by metis
  have "set (smap_put i2 tx [(i1, rx)]) = {(i1, rx), (i2, tx)}" using assms(4) by (auto simp: i1_def i2_def)
  then show ?thesis using m s unfolding i1_def i2_def by auto
qed

lemma new_device_streams_witness:
  "\<exists>m rx. dv_manager test_device = Some m \<and> (generate_stream_id (en_random (device_env 1)), rx) \<in> set (sm_streams m) \<and>
    device_range rx = {0..<8}"
  using new_device_streams [OF device_new_fresh device_ids(1) device_ids(1) device_ids(2), of "device_env 1" manager_kernel]
  unfolding test_device_def by fast

text \<open>
  The rings fit the rate. For every rate up to 384 kHz the computed size is a power of two between 512 and 8192 that holds
  three milliseconds of samples, and the computation ends.
\<close>

theorem ring_size_for_rate:
  assumes "0 \<le> r" "r \<le> 384000"
  shows "\<exists>i. CalculateRingBufferSize r 3 = Some (2 ^ i) \<and> 9 \<le> i \<and> i \<le> 13 \<and> min_ring_size r 3 \<le> 2 ^ i"
  using ring_size [of r 3] min_size_bounds [OF assms] by fastforce

lemma ring_size_for_rate_witness: "\<exists>i. CalculateRingBufferSize 48000 3 = Some (2 ^ i) \<and> 9 \<le> i"
  using ring_size_for_rate [of 48000] by auto


end
