(* ===== verification/Dop_Decoder.thy ===== *)
theory Dop_Decoder
  imports Prelude
begin

text \<open>
  \<open>NetworkEngine/DoPDecoder.cpp\<close>: DSD carried in 24-bit PCM samples, a marker and two bytes each. A buffer is the
  list of its bytes, a null pointer \<open>None\<close>.
\<close>

section \<open>Operations\<close>

definition dop_marker :: "nat \<Rightarrow> u8" where
  "dop_marker frame = (if frame mod 2 = 0 then 0x05 else 0xFA)"

definition isDoPStream :: "u8 list option \<Rightarrow> nat \<Rightarrow> bool" where
  "isDoPStream data sizeBytes =
     (case data of None \<Rightarrow> False
      | Some xs \<Rightarrow>
          if sizeBytes < 6 then False
          else let marker1 = xs ! 0; marker2 = xs ! 3
               in marker1 = 0x05 \<and> marker2 = 0xFA \<or> marker1 = 0xFA \<and> marker2 = 0x05)"

text \<open>One frame: the output and the index of its next byte.\<close>

definition dop_decode_frame :: "u8 list \<Rightarrow> nat \<Rightarrow> u8 list \<times> nat \<Rightarrow> u8 list \<times> nat" where
  "dop_decode_frame dop frame st =
     (let (dsd, dsdByteIndex) = st; dopOffset = frame * 3
      in (dsd[dsdByteIndex := dop ! (dopOffset + 1), dsdByteIndex + 1 := dop ! (dopOffset + 2)], dsdByteIndex + 2))"

definition dop_decode :: "u8 list option \<Rightarrow> nat \<Rightarrow> u8 list option \<Rightarrow> u8 list option" where
  "dop_decode dopData dopFrames dsdData =
     (case (dopData, dsdData) of
        (Some dop, Some dsd) \<Rightarrow>
          if dopFrames = 0 then dsdData else Some (fst (fold (dop_decode_frame dop) [0..<dopFrames] (dsd, 0)))
      | _ \<Rightarrow> dsdData)"

definition dop_encode_frame :: "u8 list \<Rightarrow> nat \<Rightarrow> u8 list \<times> nat \<Rightarrow> u8 list \<times> nat" where
  "dop_encode_frame dsd frame st =
     (let (dop, dsdByteIndex) = st; dopOffset = frame * 3
      in (dop[dopOffset := dop_marker frame, dopOffset + 1 := dsd ! dsdByteIndex, dopOffset + 2 := dsd ! (dsdByteIndex + 1)],
          dsdByteIndex + 2))"

definition dop_encode :: "u8 list option \<Rightarrow> nat \<Rightarrow> u8 list option \<Rightarrow> u8 list option" where
  "dop_encode dsdData dsdFrames dopData =
     (case (dsdData, dopData) of
        (Some dsd, Some dop) \<Rightarrow>
          if dsdFrames = 0 then dopData else Some (fst (fold (dop_encode_frame dsd) [0..<dsdFrames] (dop, 0)))
      | _ \<Rightarrow> dopData)"

definition getDoPSampleRate :: "u32 \<Rightarrow> u32" where
  "getDoPSampleRate dsdRate =
     (if dsdRate = 2822400 then 176400 else if dsdRate = 5644800 then 352800 else if dsdRate = 11289600 then 705600 else 0)"

definition getDSDRate :: "u32 \<Rightarrow> u32" where
  "getDSDRate dopSampleRate =
     (if dopSampleRate = 176400 then 2822400 else if dopSampleRate = 352800 then 5644800
      else if dopSampleRate = 705600 then 11289600 else 0)"

definition validateDoPMarkers :: "u8 list option \<Rightarrow> nat \<Rightarrow> bool" where
  "validateDoPMarkers dopData dopFrames =
     (case dopData of None \<Rightarrow> False
      | Some dop \<Rightarrow> dopFrames \<noteq> 0 \<and> list_all (\<lambda>frame. dop ! (frame * 3) = dop_marker frame) [0..<dopFrames])"

section \<open>What the loops write\<close>

lemma two_more: "2 \<le> length xs \<Longrightarrow> \<exists>a b r. xs = a # b # r"
  by (metis Suc_le_length_iff numeral_2_eq_2)

lemma three_more: "3 \<le> length xs \<Longrightarrow> \<exists>a b c r. xs = a # b # c # r"
  by (metis Suc_le_length_iff numeral_3_eq_3)

lemma encode_loop:
  assumes "3 * n \<le> length dop"
  shows "fold (dop_encode_frame dsd) [0..<n] (dop, 0) =
    (concat (map (\<lambda>k. [dop_marker k, dsd ! (2 * k), dsd ! (2 * k + 1)]) [0..<n]) @ drop (3 * n) dop, 2 * n)"
  using assms
proof (induction n)
  case (Suc n)
  define xs where "xs = concat (map (\<lambda>k. [dop_marker k, dsd ! (2 * k), dsd ! (2 * k + 1)]) [0..<n])"
  have l: "length xs = n * 3" by (simp add: xs_def length_concat comp_def sum_list_triv)
  have "3 \<le> length (drop (3 * n) dop)" using Suc.prems by simp
  from three_more [OF this] obtain a b c r where d: "drop (3 * n) dop = a # b # c # r" by blast
  have "drop (3 * Suc n) dop = drop 3 (drop (3 * n) dop)" by (simp add: add.commute)
  then have r: "drop (3 * Suc n) dop = r" by (simp add: d)
  have "fold (dop_encode_frame dsd) [0..<Suc n] (dop, 0) = dop_encode_frame dsd n (xs @ a # b # c # r, 2 * n)"
    using Suc by (simp add: xs_def d)
  also have "\<dots> = (xs @ [dop_marker n, dsd ! (2 * n), dsd ! (2 * n + 1)] @ r, 2 * Suc n)"
    by (simp add: dop_encode_frame_def Let_def l list_update_append)
  finally show ?case using r by (simp add: xs_def)
qed simp

lemma decode_loop:
  assumes "2 * n \<le> length dsd"
  shows "fold (dop_decode_frame dop) [0..<n] (dsd, 0) =
    (concat (map (\<lambda>k. [dop ! (k * 3 + 1), dop ! (k * 3 + 2)]) [0..<n]) @ drop (2 * n) dsd, 2 * n)"
  using assms
proof (induction n)
  case (Suc n)
  define xs where "xs = concat (map (\<lambda>k. [dop ! (k * 3 + 1), dop ! (k * 3 + 2)]) [0..<n])"
  have l: "length xs = 2 * n" by (simp add: xs_def length_concat comp_def sum_list_triv)
  have "2 \<le> length (drop (2 * n) dsd)" using Suc.prems by simp
  from two_more [OF this] obtain a b r where d: "drop (2 * n) dsd = a # b # r" by blast
  have "drop (2 * Suc n) dsd = drop 2 (drop (2 * n) dsd)" by (simp add: add.commute)
  then have r: "drop (2 * Suc n) dsd = r" by (simp add: d)
  have "fold (dop_decode_frame dop) [0..<Suc n] (dsd, 0) = dop_decode_frame dop n (xs @ a # b # r, 2 * n)"
    using Suc by (simp add: xs_def d)
  also have "\<dots> = (xs @ [dop ! (n * 3 + 1), dop ! (n * 3 + 2)] @ r, 2 * Suc n)"
    by (simp add: dop_decode_frame_def Let_def l list_update_append)
  finally show ?case using r by (simp add: xs_def)
qed simp

lemma nth_triples: "k < n \<Longrightarrow> j < 3 \<Longrightarrow>
  (concat (map (\<lambda>k. [f k, g k, h k]) [0..<n]) @ r) ! (k * 3 + j) = [f k, g k, h k] ! j"
proof (induction n)
  case (Suc n)
  have l: "length (concat (map (\<lambda>k. [f k, g k, h k]) [0..<n])) = n * 3" by (simp add: length_concat comp_def sum_list_triv)
  show ?case
  proof (cases "k < n")
    case True
    then have "k * 3 + j < n * 3" using Suc.prems by linarith
    with Suc True l show ?thesis by (simp add: nth_append)
  next
    case False
    then have "k = n" using Suc.prems by simp
    moreover have "j = 0 \<or> j = 1 \<or> j = 2" using Suc.prems by linarith
    ultimately show ?thesis using l by (auto simp: nth_append)
  qed
qed simp

lemma pairs_of: "2 * n \<le> length xs \<Longrightarrow> concat (map (\<lambda>k. [xs ! (2 * k), xs ! (2 * k + 1)]) [0..<n]) = take (2 * n) xs"
proof (induction n)
  case (Suc n)
  then have "take (2 * Suc n) xs = take (2 * n) xs @ [xs ! (2 * n), xs ! (2 * n + 1)]"
    by (simp add: take_Suc_conv_app_nth)
  with Suc show ?case by simp
qed simp

lemma encoded_markers:
  assumes "0 < n" "3 * n \<le> length dop"
  shows "\<exists>enc. dop_encode (Some dsd) n (Some dop) = Some enc \<and> length enc = length dop \<and>
    (\<forall>k < n. enc ! (k * 3) = dop_marker k \<and> enc ! (k * 3 + 1) = dsd ! (2 * k) \<and> enc ! (k * 3 + 2) = dsd ! (2 * k + 1))"
proof -
  let ?e = "concat (map (\<lambda>k. [dop_marker k, dsd ! (2 * k), dsd ! (2 * k + 1)]) [0..<n]) @ drop (3 * n) dop"
  have "dop_encode (Some dsd) n (Some dop) = Some ?e"
    using assms by (simp add: dop_encode_def encode_loop)
  moreover have "length ?e = length dop" using assms by (simp add: length_concat comp_def sum_list_triv)
  moreover have "?e ! (k * 3) = dop_marker k \<and> ?e ! (k * 3 + 1) = dsd ! (2 * k) \<and> ?e ! (k * 3 + 2) = dsd ! (2 * k + 1)"
    if "k < n" for k
    using nth_triples [OF that, of 0 dop_marker "\<lambda>k. dsd ! (2 * k)" "\<lambda>k. dsd ! (2 * k + 1)" "drop (3 * n) dop"]
      nth_triples [OF that, of 1 dop_marker "\<lambda>k. dsd ! (2 * k)" "\<lambda>k. dsd ! (2 * k + 1)" "drop (3 * n) dop"]
      nth_triples [OF that, of 2 dop_marker "\<lambda>k. dsd ! (2 * k)" "\<lambda>k. dsd ! (2 * k + 1)" "drop (3 * n) dop"] by simp
  ultimately show ?thesis by blast
qed

lemma dop_round:
  assumes "0 < n" "2 * n \<le> length dsd" "3 * n \<le> length dop" "2 * n \<le> length out"
  shows "\<exists>enc. dop_encode (Some dsd) n (Some dop) = Some enc \<and> validateDoPMarkers (Some enc) n \<and>
    (2 \<le> n \<longrightarrow> isDoPStream (Some enc) (3 * n)) \<and>
    dop_decode (Some enc) n (Some out) = Some (take (2 * n) dsd @ drop (2 * n) out)"
proof -
  obtain enc where enc: "dop_encode (Some dsd) n (Some dop) = Some enc" "length enc = length dop"
    "\<And>k. k < n \<Longrightarrow> enc ! (k * 3) = dop_marker k" "\<And>k. k < n \<Longrightarrow> enc ! (k * 3 + 1) = dsd ! (2 * k)"
    "\<And>k. k < n \<Longrightarrow> enc ! (k * 3 + 2) = dsd ! (2 * k + 1)"
    using encoded_markers [OF assms(1,3)] by blast
  have "isDoPStream (Some enc) (3 * n)" if "2 \<le> n"
    using enc(3) [of 0] enc(3) [of 1] that by (simp add: isDoPStream_def dop_marker_def Let_def)
  moreover have "validateDoPMarkers (Some enc) n"
    using enc(3) assms(1) by (simp add: validateDoPMarkers_def list_all_iff)
  moreover have "concat (map (\<lambda>k. [enc ! (k * 3 + 1), enc ! (k * 3 + 2)]) [0..<n]) =
      concat (map (\<lambda>k. [dsd ! (2 * k), dsd ! (2 * k + 1)]) [0..<n])"
    using enc(4,5) by (intro arg_cong [where f = concat] map_cong) auto
  ultimately show ?thesis using assms(1,4) enc(1) pairs_of [OF assms(2)]
    by (intro exI [of _ enc]) (simp add: dop_decode_def decode_loop)
qed

section \<open>Properties\<close>

text \<open>
  DSD survives DoP. Encoding frames into a buffer and decoding them again gives the bytes back and leaves the rest of
  the output buffer alone; what was encoded has the alternating markers and, from two frames on, is recognised.
\<close>

theorem dop_roundtrip:
  assumes "0 < n" "2 * n \<le> length dsd" "3 * n \<le> length dop" "2 * n \<le> length out"
  shows "\<exists>enc. dop_encode (Some dsd) n (Some dop) = Some enc \<and> validateDoPMarkers (Some enc) n \<and>
    (2 \<le> n \<longrightarrow> isDoPStream (Some enc) (3 * n)) \<and>
    dop_decode (Some enc) n (Some out) = Some (take (2 * n) dsd @ drop (2 * n) out)"
  by (rule dop_round [OF assms])

lemma dop_roundtrip_witness:
  "\<exists>enc. dop_encode (Some [1, 2, 3, 4]) 2 (Some (replicate 6 0)) = Some enc \<and> isDoPStream (Some enc) 6 \<and>
    dop_decode (Some enc) 2 (Some (replicate 5 9)) = Some [1, 2, 3, 4, 9]"
  using dop_roundtrip [of 2 "[1, 2, 3, 4]" "replicate 6 0" "replicate 5 9"] by (auto simp: numeral_eq_Suc)

end
