(* ===== verification/Error_Recovery.thy ===== *)
theory Error_Recovery
  imports Prelude
begin

text \<open>
  \<open>Shared/ErrorRecoveryManager.cpp\<close> and \<open>NetworkEngine/NetworkErrorHandler.cpp\<close>. Times are nanoseconds of the steady clock;
  what a recovery action answers is an argument of the report that runs it.
\<close>

section \<open>The recovery manager\<close>

datatype error_type = PTP_SYNC_LOSS | NETWORK_DISCONNECT | BUFFER_UNDERRUN | BUFFER_OVERRUN
  | STREAM_MISCONFIGURED | DEVICE_UNRESPONSIVE

datatype action_result = Action_True | Action_False | Action_Throws

record recovery_state =
  rs_lastAttempt :: int
  rs_attemptCount :: nat
  rs_inProgress :: bool

record recovery_manager =
  rm_actions :: "error_type \<rightharpoonup> recovery_state"
  rm_lastErrorTime :: int
  rm_attempts :: nat
  rm_autoRecovery :: bool
  rm_ran :: "(error_type \<times> int) list"      \<comment> \<open>the actions run so far and when\<close>

definition recovery_new :: "int \<Rightarrow> recovery_manager" where
  "recovery_new now = \<lparr>rm_actions = Map.empty, rm_lastErrorTime = now, rm_attempts = 0, rm_autoRecovery = True, rm_ran = []\<rparr>"

definition registerRecoveryAction :: "error_type \<Rightarrow> recovery_manager \<Rightarrow> recovery_manager" where
  "registerRecoveryAction t m =
     m\<lparr>rm_actions := (rm_actions m)(t \<mapsto> \<lparr>rs_lastAttempt = 0, rs_attemptCount = 0, rs_inProgress = False\<rparr>)\<rparr>"

definition recovery_cooldown :: int where "recovery_cooldown = 5 * 10 ^ 9"
definition max_recovery_attempts :: nat where "max_recovery_attempts = 3"

definition rm_reportError :: "int \<Rightarrow> action_result \<Rightarrow> error_type \<Rightarrow> recovery_manager \<Rightarrow> recovery_manager" where
  "rm_reportError now r t m =
     (let m1 = m\<lparr>rm_lastErrorTime := now\<rparr>
      in case rm_actions m t of
           None \<Rightarrow> m1
         | Some st \<Rightarrow>
             if \<not> rm_autoRecovery m then m1
             else if now - rs_lastAttempt st < recovery_cooldown then m1
             else if rs_attemptCount st \<ge> max_recovery_attempts then m1
             else
               let st1 = st\<lparr>rs_inProgress := True, rs_lastAttempt := now, rs_attemptCount := rs_attemptCount st + 1\<rparr>;
                   success = (r = Action_True);
                   st2 = (if success then st1\<lparr>rs_attemptCount := 0\<rparr> else st1)
               in m1\<lparr>rm_attempts := rm_attempts m + 1, rm_ran := rm_ran m @ [(t, now)],
                     rm_actions := (rm_actions m)(t \<mapsto> st2\<lparr>rs_inProgress := False\<rparr>)\<rparr>)"

definition getTimeSinceLastError :: "int \<Rightarrow> recovery_manager \<Rightarrow> int" where
  "getTimeSinceLastError now m = now - rm_lastErrorTime m"

definition error_types :: "error_type list" where
  "error_types = [PTP_SYNC_LOSS, NETWORK_DISCONNECT, BUFFER_UNDERRUN, BUFFER_OVERRUN, STREAM_MISCONFIGURED, DEVICE_UNRESPONSIVE]"

definition rm_isInRecovery :: "recovery_manager \<Rightarrow> bool" where
  "rm_isInRecovery m \<longleftrightarrow>
     list_ex (\<lambda>t. case rm_actions m t of None \<Rightarrow> False | Some st \<Rightarrow> rs_inProgress st) error_types"

definition rm_resetStatistics :: "recovery_manager \<Rightarrow> recovery_manager" where
  "rm_resetStatistics m = m\<lparr>rm_attempts := 0, rm_actions := (\<lambda>t. map_option (rs_attemptCount_update (\<lambda>_. 0)) (rm_actions m t))\<rparr>"

definition setAutoRecoveryEnabled :: "bool \<Rightarrow> recovery_manager \<Rightarrow> recovery_manager" where
  "setAutoRecoveryEnabled enabled m = m\<lparr>rm_autoRecovery := enabled\<rparr>"

section \<open>The network error handler\<close>

datatype network_error_type = SOCKET_ERROR | CONNECTION_TIMEOUT | PACKET_LOSS | MULTICAST_JOIN_FAILURE | INTERFACE_DOWN
  | INSUFFICIENT_BANDWIDTH | UNKNOWN_ERROR

record network_error =
  ne_type :: network_error_type
  ne_message :: string
  ne_source :: string
  ne_timestamp :: int
  ne_errorCode :: int

record error_handler =
  eh_callback :: bool                       \<comment> \<open>whether one is registered\<close>
  eh_total :: nat
  eh_recent :: nat
  eh_lastRecovery :: int
  eh_recoveryActive :: bool
  eh_recoveryStart :: int
  eh_reported :: "network_error list"       \<comment> \<open>what the callback was given so far\<close>
  eh_recoveries :: "int list"               \<comment> \<open>when recoveries ran\<close>

definition handler_new :: "int \<Rightarrow> error_handler" where
  "handler_new now = \<lparr>eh_callback = False, eh_total = 0, eh_recent = 0, eh_lastRecovery = now, eh_recoveryActive = False,
     eh_recoveryStart = now, eh_reported = [], eh_recoveries = []\<rparr>"

definition registerErrorHandler :: "error_handler \<Rightarrow> error_handler" where
  "registerErrorHandler h = h\<lparr>eh_callback := True\<rparr>"

definition attemptRecovery :: "int \<Rightarrow> error_handler \<Rightarrow> bool \<times> error_handler" where
  "attemptRecovery now h =
     (if eh_recoveryActive h then (False, h)
      else (True, h\<lparr>eh_recoveryActive := False, eh_recoveryStart := now, eh_recent := 0, eh_lastRecovery := now,
              eh_recoveries := eh_recoveries h @ [now]\<rparr>))"

text \<open>The difference is truncated to seconds before it is compared with the five seconds.\<close>

definition seconds_of :: "int \<Rightarrow> int" where
  "seconds_of ns = (if 0 \<le> ns then ns div 10 ^ 9 else - ((- ns) div 10 ^ 9))"

definition eh_reportError :: "int \<Rightarrow> network_error \<Rightarrow> error_handler \<Rightarrow> error_handler" where
  "eh_reportError now e h =
     (let h1 = h\<lparr>eh_total := eh_total h + 1, eh_recent := eh_recent h + 1\<rparr>;
          h2 = (if eh_recent h1 > 10 \<and> seconds_of (now - eh_lastRecovery h1) > 5 then snd (attemptRecovery now h1) else h1)
      in if eh_callback h2 then h2\<lparr>eh_reported := eh_reported h2 @ [e]\<rparr> else h2)"

definition eh_report ::
    "int \<Rightarrow> network_error_type \<Rightarrow> string \<Rightarrow> string \<Rightarrow> int \<Rightarrow> error_handler \<Rightarrow> error_handler" where
  "eh_report now t message source errorCode =
     eh_reportError now \<lparr>ne_type = t, ne_message = message, ne_source = source, ne_timestamp = now, ne_errorCode = errorCode\<rparr>"

definition eh_reset :: "error_handler \<Rightarrow> error_handler" where
  "eh_reset h = h\<lparr>eh_total := 0, eh_recent := 0\<rparr>"

section \<open>Invariants\<close>

definition spaced :: "int \<Rightarrow> int list \<Rightarrow> bool" where
  "spaced gap ts \<longleftrightarrow> sorted_wrt (\<lambda>a b. a + gap \<le> b) ts"

definition times_of :: "error_type \<Rightarrow> (error_type \<times> int) list \<Rightarrow> int list" where
  "times_of t xs = map snd (filter (\<lambda>p. fst p = t) xs)"

text \<open>No registration after the start: registering again forgets the last attempt.\<close>

inductive recovery_step :: "recovery_manager \<Rightarrow> recovery_manager \<Rightarrow> bool" where
  "recovery_step m (rm_reportError now r t m)"
| "recovery_step m (rm_resetStatistics m)"
| "recovery_step m (setAutoRecoveryEnabled enabled m)"

inductive_cases recovery_stepE: "recovery_step m m'"

definition recovery_start :: "recovery_manager \<Rightarrow> bool" where
  "recovery_start m \<longleftrightarrow> (\<exists>now ts. m = fold registerRecoveryAction ts (recovery_new now))"

definition entry_ok :: "recovery_state \<Rightarrow> int list \<Rightarrow> bool" where
  "entry_ok st ts \<longleftrightarrow> rs_attemptCount st \<le> 3 \<and> \<not> rs_inProgress st \<and> spaced recovery_cooldown ts \<and>
     (\<forall>x \<in> set ts. x \<le> rs_lastAttempt st)"

definition recovery_inv :: "recovery_manager \<Rightarrow> bool" where
  "recovery_inv m \<longleftrightarrow> (\<forall>t. (rm_actions m t = None \<longrightarrow> times_of t (rm_ran m) = []) \<and>
     (\<forall>st. rm_actions m t = Some st \<longrightarrow> entry_ok st (times_of t (rm_ran m))))"

lemma times_of_simps [simp]:
  "times_of t [] = []" "times_of t (xs @ [(t', x)]) = times_of t xs @ (if t' = t then [x] else [])"
  by (auto simp: times_of_def)

lemma start_recovery_inv: "recovery_start m \<Longrightarrow> recovery_inv m"
proof -
  have "recovery_inv (fold registerRecoveryAction ts m) \<and> rm_ran (fold registerRecoveryAction ts m) = []"
    if "recovery_inv m" "rm_ran m = []" for ts m
    using that
  proof (induction ts arbitrary: m)
    case (Cons t ts)
    have "recovery_inv (registerRecoveryAction t m)" "rm_ran (registerRecoveryAction t m) = []"
      using Cons.prems by (auto simp: recovery_inv_def registerRecoveryAction_def entry_ok_def spaced_def)
    with Cons.IH show ?case by simp
  qed simp
  moreover have "recovery_inv (recovery_new now)" "rm_ran (recovery_new now) = []" for now
    by (simp_all add: recovery_inv_def recovery_new_def)
  ultimately show "recovery_start m \<Longrightarrow> recovery_inv m" by (auto simp: recovery_start_def)
qed

lemma report_recovery_inv:
  assumes "recovery_inv m"
  shows "recovery_inv (rm_reportError now r t m)"
proof (cases "rm_actions m t")
  case None
  then have "rm_reportError now r t m = m\<lparr>rm_lastErrorTime := now\<rparr>" by (simp add: rm_reportError_def)
  with assms show ?thesis by (simp add: recovery_inv_def)
next
  case (Some st)
  have st: "entry_ok st (times_of t (rm_ran m))" using assms Some by (simp add: recovery_inv_def)
  show ?thesis
  proof (cases "rm_autoRecovery m \<and> \<not> now - rs_lastAttempt st < recovery_cooldown \<and> rs_attemptCount st < 3")
    case False
    with Some have "rm_reportError now r t m = m\<lparr>rm_lastErrorTime := now\<rparr>"
      by (auto simp: rm_reportError_def Let_def max_recovery_attempts_def)
    with assms show ?thesis by (simp add: recovery_inv_def)
  next
    case True
    have "spaced recovery_cooldown (times_of t (rm_ran m) @ [now])"
      using st True by (fastforce simp: spaced_def sorted_wrt_append entry_ok_def)
    moreover have "\<forall>x \<in> set (times_of t (rm_ran m)). x \<le> now"
      using st True by (fastforce simp: recovery_cooldown_def entry_ok_def)
    ultimately show ?thesis using assms True Some
      by (simp add: rm_reportError_def recovery_inv_def Let_def max_recovery_attempts_def entry_ok_def)
  qed
qed

interpretation recovery_sys: invariant_system recovery_start recovery_step recovery_inv
proof (unfold_locales, goal_cases)
  case (1 s)
  then show ?case by (rule start_recovery_inv)
next
  case (2 s t)
  from 2(2) show ?case
  proof (rule recovery_stepE)
    fix now r ty assume "t = rm_reportError now r ty s"
    with 2(1) report_recovery_inv show ?thesis by simp
  next
    assume "t = rm_resetStatistics s"
    with 2(1) show ?thesis by (auto simp: recovery_inv_def rm_resetStatistics_def entry_ok_def)
  next
    fix enabled assume "t = setAutoRecoveryEnabled enabled s"
    with 2(1) show ?thesis by (simp add: recovery_inv_def setAutoRecoveryEnabled_def)
  qed
qed

section \<open>Giving up\<close>

text \<open>Errors of one type that were reported, with their times and what the action answered.\<close>

definition rm_reports :: "error_type \<Rightarrow> (int \<times> action_result) list \<Rightarrow> recovery_manager \<Rightarrow> recovery_manager" where
  "rm_reports t = fold (\<lambda>(now, r). rm_reportError now r t)"

lemma exhausted_stays:
  assumes "rm_actions m t = Some st" "rs_attemptCount st \<ge> 3"
  shows "rm_ran (rm_reports t xs m) = rm_ran m \<and> rm_actions (rm_reports t xs m) = rm_actions m"
  using assms
proof (induction xs arbitrary: m)
  case (Cons x xs)
  obtain now r where x: "x = (now, r)" by fastforce
  have e: "rm_reportError now r t m = m\<lparr>rm_lastErrorTime := now\<rparr>"
    using Cons.prems by (simp add: rm_reportError_def Let_def max_recovery_attempts_def)
  have "rm_reports t (x # xs) m = rm_reports t xs (m\<lparr>rm_lastErrorTime := now\<rparr>)" by (simp add: rm_reports_def x e)
  with Cons.IH [of "m\<lparr>rm_lastErrorTime := now\<rparr>"] Cons.prems show ?case by simp
qed (simp add: rm_reports_def)

lemma failing_reports:
  assumes "rm_actions m t = Some st" "rs_attemptCount st + k = 3" "\<forall>(now, r) \<in> set xs. r \<noteq> Action_True"
  shows "length (rm_ran (rm_reports t xs m)) \<le> length (rm_ran m) + k"
  using assms
proof (induction xs arbitrary: m st k)
  case (Cons x xs)
  obtain now r where x: "x = (now, r)" "r \<noteq> Action_True" using Cons.prems(3) by (cases x) auto
  let ?m = "rm_reportError now r t m"
  have step: "rm_reports t (x # xs) m = rm_reports t xs ?m" by (simp add: rm_reports_def x)
  show ?case
  proof (cases "rm_autoRecovery m \<and> \<not> now - rs_lastAttempt st < recovery_cooldown \<and> rs_attemptCount st < 3")
    case True
    then obtain j where j: "k = Suc j" using Cons.prems(2) by (cases k) auto
    have "rm_actions ?m t = Some (st\<lparr>rs_inProgress := False, rs_lastAttempt := now, rs_attemptCount := rs_attemptCount st + 1\<rparr>)"
      "length (rm_ran ?m) = length (rm_ran m) + 1"
      using True Cons.prems(1) x(2) by (simp_all add: rm_reportError_def Let_def max_recovery_attempts_def)
    with Cons.IH [of ?m _ j] Cons.prems(2,3) j step show ?thesis by simp
  next
    case False
    then have "rm_actions ?m t = Some st" "rm_ran ?m = rm_ran m"
      using Cons.prems(1) by (auto simp: rm_reportError_def Let_def max_recovery_attempts_def)
    with Cons.IH [of ?m st k] Cons.prems(2,3) step show ?thesis by simp
  qed
qed (simp add: rm_reports_def)

section \<open>Reports to the network error handler\<close>

definition eh_reports :: "(int \<times> network_error) list \<Rightarrow> error_handler \<Rightarrow> error_handler" where
  "eh_reports = fold (\<lambda>(now, e). eh_reportError now e)"

lemma seconds_gap: "seconds_of d > 5 \<Longrightarrow> 6 * 10 ^ 9 \<le> d"
  by (auto simp: seconds_of_def split: if_splits)

definition handler_ok :: "error_handler \<Rightarrow> bool" where
  "handler_ok h \<longleftrightarrow> \<not> eh_recoveryActive h \<and> spaced (6 * 10 ^ 9) (eh_recoveries h) \<and>
     (\<forall>x \<in> set (eh_recoveries h). x \<le> eh_lastRecovery h)"

lemma report_handler:
  assumes "handler_ok h" "eh_callback h"
  shows "handler_ok (eh_reportError now e h) \<and> eh_callback (eh_reportError now e h) \<and>
    eh_reported (eh_reportError now e h) = eh_reported h @ [e] \<and> eh_total (eh_reportError now e h) = eh_total h + 1 \<and>
    11 * length (eh_recoveries (eh_reportError now e h)) + eh_recent (eh_reportError now e h) \<le>
      11 * length (eh_recoveries h) + eh_recent h + 1"
proof (cases "eh_recent h + 1 > 10 \<and> seconds_of (now - eh_lastRecovery h) > 5")
  case True
  have g: "6 * 10 ^ 9 \<le> now - eh_lastRecovery h" using True by (intro seconds_gap) simp
  then have "spaced (6 * 10 ^ 9) (eh_recoveries h @ [now])" "\<forall>x \<in> set (eh_recoveries h). x \<le> now"
    using assms(1) by (fastforce simp: spaced_def sorted_wrt_append handler_ok_def)+
  with True assms show ?thesis
    by (simp add: eh_reportError_def Let_def attemptRecovery_def handler_ok_def)
next
  case False
  then have "eh_reportError now e h = h\<lparr>eh_total := eh_total h + 1, eh_recent := eh_recent h + 1, eh_reported := eh_reported h @ [e]\<rparr>"
    using assms(2) by (auto simp: eh_reportError_def Let_def)
  with assms show ?thesis by (simp add: handler_ok_def)
qed

lemma reports_handler:
  assumes "handler_ok h" "eh_callback h"
  shows "handler_ok (eh_reports xs h) \<and> eh_reported (eh_reports xs h) = eh_reported h @ map snd xs \<and>
    eh_total (eh_reports xs h) = eh_total h + length xs \<and>
    11 * length (eh_recoveries (eh_reports xs h)) + eh_recent (eh_reports xs h) \<le>
      11 * length (eh_recoveries h) + eh_recent h + length xs"
  using assms
proof (induction xs arbitrary: h)
  case (Cons x xs)
  obtain now e where x: "x = (now, e)" by fastforce
  note r = report_handler [OF Cons.prems, of now e]
  then show ?case using Cons.IH [of "eh_reportError now e h"] by (simp add: eh_reports_def x)
qed (simp add: eh_reports_def)

section \<open>Properties\<close>

text \<open>
  Recovery is paced. Whatever errors are reported, at whatever times and with whatever results, two runs of the
  action of one type are at least five seconds apart, no type has more than three attempts counted, and none is marked as
  in progress between two reports.
\<close>

theorem recovery_paced:
  assumes "reach recovery_start recovery_step m"
  shows "spaced recovery_cooldown (times_of t (rm_ran m)) \<and> \<not> rm_isInRecovery m \<and>
    (\<forall>st. rm_actions m t = Some st \<longrightarrow> rs_attemptCount st \<le> 3)"
proof -
  note inv = recovery_sys.reach_inv [OF assms, unfolded recovery_inv_def, rule_format]
  have "\<not> rm_isInRecovery m"
    using inv by (auto simp: rm_isInRecovery_def list_ex_iff entry_ok_def split: option.splits)
  moreover have "spaced recovery_cooldown (times_of t (rm_ran m))"
    using inv [of t] by (cases "rm_actions m t") (simp_all add: spaced_def entry_ok_def)
  ultimately show ?thesis using inv [of t] by (simp add: entry_ok_def)
qed

definition example_manager :: recovery_manager where
  "example_manager = fold registerRecoveryAction [PTP_SYNC_LOSS] (recovery_new 0)"

lemma example_start: "recovery_start example_manager"
  unfolding recovery_start_def example_manager_def by blast

lemma recovery_paced_witness:
  "let m = rm_reportError (6 * 10 ^ 9) Action_False PTP_SYNC_LOSS (rm_reportError (5 * 10 ^ 9) Action_False PTP_SYNC_LOSS example_manager)
   in \<not> rm_isInRecovery m \<and> times_of PTP_SYNC_LOSS (rm_ran m) = [5 * 10 ^ 9]"
proof -
  have r0: "reach recovery_start recovery_step example_manager" by (rule reach_start) (rule example_start)
  have r: "reach recovery_start recovery_step (rm_reportError (6 * 10 ^ 9) Action_False PTP_SYNC_LOSS
      (rm_reportError (5 * 10 ^ 9) Action_False PTP_SYNC_LOSS example_manager))"
    by (rule reach_step [OF reach_step [OF r0]]) (rule recovery_step.intros)+
  show ?thesis using recovery_paced [OF r]
    by (simp add: Let_def example_manager_def rm_reportError_def recovery_new_def registerRecoveryAction_def
        recovery_cooldown_def max_recovery_attempts_def times_of_def)
qed

text \<open>
  After three failures in a row recovery is over for good. However many errors of a type follow and however much time passes,
  no more than three failing attempts are made, and only a success, which needs an attempt, or a reset of the statistics
  would allow another.
\<close>

theorem recovery_gives_up:
  assumes "rm_actions m t = Some st" "rs_attemptCount st = 0" "\<forall>(now, r) \<in> set xs. r \<noteq> Action_True"
  shows "length (rm_ran (rm_reports t xs m)) \<le> length (rm_ran m) + 3"
  using failing_reports [OF assms(1), of 3 xs] assms(2,3) by simp

lemma recovery_gives_up_witness:
  "length (rm_ran (rm_reports PTP_SYNC_LOSS (map (\<lambda>i. (int i * 10 ^ 10, Action_False)) [1..<50]) example_manager)) \<le> 3"
proof -
  have "rm_actions example_manager PTP_SYNC_LOSS = Some \<lparr>rs_lastAttempt = 0, rs_attemptCount = 0, rs_inProgress = False\<rparr>"
    "rm_ran example_manager = []"
    by (simp_all add: example_manager_def registerRecoveryAction_def recovery_new_def)
  then show ?thesis
    using recovery_gives_up [of example_manager PTP_SYNC_LOSS _ "map (\<lambda>i. (int i * 10 ^ 10, Action_False)) [1..<50]"] by simp
qed

text \<open>
  The network handler passes every error on and recovers rarely. The registered callback is given each error once and in
  order, each recovery follows at least eleven further errors, and two recoveries are at least six seconds apart, since the
  elapsed time is cut to whole seconds before it is compared with the cooldown of five.
\<close>

theorem handler_reports_all:
  "eh_reported (eh_reports xs (registerErrorHandler (handler_new now))) = map snd xs \<and>
   11 * length (eh_recoveries (eh_reports xs (registerErrorHandler (handler_new now)))) \<le> length xs \<and>
   spaced (6 * 10 ^ 9) (eh_recoveries (eh_reports xs (registerErrorHandler (handler_new now))))"
proof -
  have "handler_ok (registerErrorHandler (handler_new now))" "eh_callback (registerErrorHandler (handler_new now))"
    by (simp_all add: handler_ok_def registerErrorHandler_def handler_new_def spaced_def)
  from reports_handler [OF this, of xs] show ?thesis
    by (simp add: handler_ok_def registerErrorHandler_def handler_new_def)
qed

end
