(* ===== verification/Resource_Cleanup.thy ===== *)
theory Resource_Cleanup
  imports Rtp_Packet
begin

text \<open>
  \<open>Shared/ResourceCleanupManager.cpp\<close>: functions run at the end, and guards that close what they hold. A cleanup function
  is known by a number; running it may register further ones or throw.
\<close>

section \<open>The manager\<close>

datatype cleanup = Cleanup (cl_id: nat) (cl_throws: bool) (cl_registers: "cleanup list")

record cleanup_manager =
  cu_functions :: "cleanup list"
  cu_inProgress :: bool
  cu_ran :: "nat list"            \<comment> \<open>the functions run so far\<close>

definition cleanup_new :: cleanup_manager where
  "cleanup_new = \<lparr>cu_functions = [], cu_inProgress = False, cu_ran = []\<rparr>"

text \<open>An empty function is not registered.\<close>

definition registerCleanup :: "cleanup option \<Rightarrow> cleanup_manager \<Rightarrow> cleanup_manager" where
  "registerCleanup f m = (case f of None \<Rightarrow> m | Some c \<Rightarrow> m\<lparr>cu_functions := cu_functions m @ [c]\<rparr>)"

text \<open>What it registers goes to the member; an exception is caught.\<close>

definition run_cleanup :: "cleanup \<Rightarrow> cleanup_manager \<Rightarrow> cleanup_manager" where
  "run_cleanup c m = fold (\<lambda>c'. registerCleanup (Some c')) (cl_registers c) (m\<lparr>cu_ran := cu_ran m @ [cl_id c]\<rparr>)"

definition performCleanup :: "cleanup_manager \<Rightarrow> cleanup_manager" where
  "performCleanup m =
     (if cu_inProgress m then m
      else
        let localCleanupFunctions = cu_functions m; m1 = m\<lparr>cu_inProgress := True, cu_functions := []\<rparr>
        in (fold run_cleanup localCleanupFunctions m1)\<lparr>cu_inProgress := False\<rparr>)"

definition performCleanupAndReset :: "cleanup_manager \<Rightarrow> cleanup_manager" where
  "performCleanupAndReset m = (performCleanup m)\<lparr>cu_functions := []\<rparr>"

definition hasPendingCleanup :: "cleanup_manager \<Rightarrow> bool" where "hasPendingCleanup m \<longleftrightarrow> cu_functions m \<noteq> []"

definition getCleanupCount :: "cleanup_manager \<Rightarrow> nat" where "getCleanupCount m = length (cu_functions m)"

section \<open>Guards\<close>

record socket_guard =
  sg_fd :: int
  sg_active :: bool

definition guard_new :: "int \<Rightarrow> socket_guard" where "guard_new fd = \<lparr>sg_fd = fd, sg_active = True\<rparr>"

definition guard_release :: "socket_guard \<Rightarrow> socket_guard" where "guard_release g = g\<lparr>sg_active := False\<rparr>"

definition guard_close :: "socket_guard \<times> kernel \<Rightarrow> socket_guard \<times> kernel" where
  "guard_close st =
     (let (g, k) = st
      in if sg_active g \<and> sg_fd g \<ge> 0 then (g\<lparr>sg_fd := -1, sg_active := False\<rparr>, kn_close (sg_fd g) k) else (g, k))"

definition guard_destroy :: "socket_guard \<times> kernel \<Rightarrow> kernel" where
  "guard_destroy st = (if sg_active (fst st) then snd (guard_close st) else snd st)"

text \<open>
  A guard of a function, and one of a heap block. The state is what the cleanup changes; for the block it is the
  pointers given to the deleter so far.
\<close>

definition executeWithCleanup :: "(cleanup_manager \<Rightarrow> 'a \<times> cleanup_manager) \<Rightarrow> cleanup option \<Rightarrow> cleanup_manager \<Rightarrow> 'a \<times> cleanup_manager" where
  "executeWithCleanup func cleanup m = func (registerCleanup cleanup m)"

definition rg_new :: bool where "rg_new = True"

definition rg_release :: "bool \<Rightarrow> bool" where "rg_release active = False"

definition rg_cleanup :: "('s \<Rightarrow> 's) \<Rightarrow> bool \<times> 's \<Rightarrow> bool \<times> 's" where
  "rg_cleanup f st = (if fst st then (False, f (snd st)) else st)"

definition rg_destroy :: "('s \<Rightarrow> 's) \<Rightarrow> bool \<times> 's \<Rightarrow> 's" where
  "rg_destroy f st = (if fst st then f (snd st) else snd st)"

record memory_guard =
  mg_ptr :: "nat option"
  mg_active :: bool

definition mg_new :: "nat option \<Rightarrow> memory_guard" where "mg_new p = \<lparr>mg_ptr = p, mg_active = True\<rparr>"

definition mg_release :: "memory_guard \<Rightarrow> memory_guard" where "mg_release g = g\<lparr>mg_active := False\<rparr>"

definition mg_free :: "memory_guard \<times> nat list \<Rightarrow> memory_guard \<times> nat list" where
  "mg_free st =
     (case (mg_active (fst st), mg_ptr (fst st)) of
        (True, Some p) \<Rightarrow> ((fst st)\<lparr>mg_ptr := None, mg_active := False\<rparr>, snd st @ [p])
      | _ \<Rightarrow> st)"

definition mg_destroy :: "memory_guard \<times> nat list \<Rightarrow> nat list" where
  "mg_destroy st = (if mg_active (fst st) then snd (mg_free st) else snd st)"

section \<open>What runs\<close>

lemma run_cleanup_effect: "run_cleanup c m = m\<lparr>cu_ran := cu_ran m @ [cl_id c], cu_functions := cu_functions m @ cl_registers c\<rparr>"
proof -
  have "fold (\<lambda>c'. registerCleanup (Some c')) cs m = m\<lparr>cu_functions := cu_functions m @ cs\<rparr>" for cs and m :: cleanup_manager
    by (induction cs arbitrary: m) (simp_all add: registerCleanup_def)
  then show ?thesis by (simp add: run_cleanup_def)
qed

lemma run_all_effect: "fold run_cleanup cs m =
  m\<lparr>cu_ran := cu_ran m @ map cl_id cs, cu_functions := cu_functions m @ concat (map cl_registers cs)\<rparr>"
  by (induction cs arbitrary: m) (simp_all add: run_cleanup_effect)

text \<open>Everything registered is run once, in order; what was registered meanwhile waits for the next call.\<close>

lemma perform_runs_all:
  assumes "\<not> cu_inProgress m"
  shows "performCleanup m = m\<lparr>cu_ran := cu_ran m @ map cl_id (cu_functions m),
    cu_functions := concat (map cl_registers (cu_functions m))\<rparr>"
  using assms by (simp add: performCleanup_def Let_def run_all_effect)

text \<open>The variant that resets discards what was registered meanwhile without running it.\<close>

lemma reset_discards:
  assumes "\<not> cu_inProgress m"
  shows "\<not> hasPendingCleanup (performCleanupAndReset m) \<and>
    cu_ran (performCleanupAndReset m) = cu_ran m @ map cl_id (cu_functions m)"
  using perform_runs_all [OF assms] by (simp add: performCleanupAndReset_def hasPendingCleanup_def)

text \<open>A guard closes its descriptor once, however it is closed, destroyed or released.\<close>

lemma guard_closes_once:
  assumes "0 \<le> fd" "fd \<in> kn_fds k"
  shows "kn_fds (guard_destroy (guard_new fd, k)) = kn_fds k - {fd}"
    "guard_destroy (guard_close (guard_new fd, k)) = snd (guard_close (guard_new fd, k))"
    "guard_destroy (guard_release (guard_new fd), k) = k"
  using assms by (simp_all add: guard_destroy_def guard_close_def guard_new_def guard_release_def kn_close_def)

text \<open>
  Whatever calls a guard gets before it is destroyed, its cleanup runs exactly once if the first of them is not a release, and
  otherwise never; the same for the deleter of a block.
\<close>

datatype guard_call = G_Release | G_Cleanup

definition rg_call :: "('s \<Rightarrow> 's) \<Rightarrow> guard_call \<Rightarrow> bool \<times> 's \<Rightarrow> bool \<times> 's" where
  "rg_call f c st = (case c of G_Release \<Rightarrow> (rg_release (fst st), snd st) | G_Cleanup \<Rightarrow> rg_cleanup f st)"

definition mg_call :: "guard_call \<Rightarrow> memory_guard \<times> nat list \<Rightarrow> memory_guard \<times> nat list" where
  "mg_call c st = (case c of G_Release \<Rightarrow> (mg_release (fst st), snd st) | G_Cleanup \<Rightarrow> mg_free st)"

lemma released_guards:
  "fold (rg_call f) cs (False, s) = (False, s)"
  "\<not> mg_active g \<Longrightarrow> \<not> mg_active (fst (fold mg_call cs (g, l))) \<and> snd (fold mg_call cs (g, l)) = l"
proof -
  show "fold (rg_call f) cs (False, s) = (False, s)"
    by (induction cs) (auto simp: rg_call_def rg_release_def rg_cleanup_def split: guard_call.split)
  show "\<not> mg_active g \<Longrightarrow> \<not> mg_active (fst (fold mg_call cs (g, l))) \<and> snd (fold mg_call cs (g, l)) = l"
  proof (induction cs arbitrary: g)
    case (Cons c cs)
    then show ?case by (cases c) (simp_all add: mg_call_def mg_release_def mg_free_def)
  qed simp
qed

lemma guards_run_once:
  "rg_destroy f (fold (rg_call f) cs (rg_new, s)) = (if take 1 cs = [G_Release] then s else f s)"
  "mg_destroy (fold mg_call cs (mg_new (Some p), l)) = (if take 1 cs = [G_Release] then l else l @ [p])"
proof -
  show "rg_destroy f (fold (rg_call f) cs (rg_new, s)) = (if take 1 cs = [G_Release] then s else f s)"
  proof (cases cs)
    case (Cons c rest)
    then show ?thesis using released_guards(1) [of f rest]
      by (cases c) (simp_all add: rg_call_def rg_new_def rg_release_def rg_cleanup_def rg_destroy_def)
  qed (simp add: rg_destroy_def rg_new_def)
  show "mg_destroy (fold mg_call cs (mg_new (Some p), l)) = (if take 1 cs = [G_Release] then l else l @ [p])"
  proof (cases cs)
    case (Cons c rest)
    then show ?thesis using released_guards(2) [of _ rest]
      by (cases c) (simp_all add: mg_call_def mg_new_def mg_release_def mg_free_def mg_destroy_def)
  qed (simp add: mg_destroy_def mg_new_def mg_free_def)
qed

end
