(* ===== verification/Buffer_Monitor.thy ===== *)
theory Buffer_Monitor
  imports Double_Precision
begin

text \<open>
  \<open>NetworkEngine/RTP/BufferStatusMonitor.cpp\<close>: the fill level of a buffer and the events counted of it. Percentages are
  doubles, rounded after each operation; times are nanoseconds of the steady clock.
\<close>

section \<open>Operations\<close>

record buffer_monitor =
  bm_bufferSize :: u64
  bm_level :: u64
  bm_lastUpdate :: int
  bm_underruns :: u64
  bm_overruns :: u64
  bm_dangerEvents :: u64
  bm_lastWasUnderrun :: bool
  bm_lastWasOverrun :: bool
  bm_lastUnderrunEvent :: int
  bm_lastOverrunEvent :: int

definition monitor_new :: "int \<Rightarrow> u64 \<Rightarrow> buffer_monitor" where
  "monitor_new now bufferSize = \<lparr>bm_bufferSize = bufferSize, bm_level = 0, bm_lastUpdate = now, bm_underruns = 0,
     bm_overruns = 0, bm_dangerEvents = 0, bm_lastWasUnderrun = False, bm_lastWasOverrun = False,
     bm_lastUnderrunEvent = now, bm_lastOverrunEvent = now\<rparr>"

definition danger_low :: rat where "danger_low = f64_round (10 / 100)"
definition danger_high :: rat where "danger_high = f64_round (90 / 100)"
definition critical_low :: rat where "critical_low = f64_round (2 / 100)"
definition critical_high :: rat where "critical_high = f64_round (98 / 100)"
definition hysteresis :: int where "hysteresis = 100 * 10 ^ 6"

definition fill_percentage :: "u64 \<Rightarrow> u64 \<Rightarrow> rat" where
  "fill_percentage level bufferSize =
     (if bufferSize > 0
      then f64_round (f64_round (of_nat (unat level)) / f64_round (of_nat (unat bufferSize))) else 0)"

definition updateFillLevel :: "int \<Rightarrow> u64 \<Rightarrow> buffer_monitor \<Rightarrow> buffer_monitor" where
  "updateFillLevel now fillLevel m =
     (let m1 = m\<lparr>bm_level := fillLevel, bm_lastUpdate := now\<rparr>;
          fillPercent = fill_percentage fillLevel (bm_bufferSize m);
          m2 = (if fillPercent < critical_low
                then (if now - bm_lastUnderrunEvent m1 > hysteresis
                      then m1\<lparr>bm_underruns := bm_underruns m1 + 1, bm_lastUnderrunEvent := now, bm_lastWasUnderrun := True\<rparr>
                      else m1)
                else m1\<lparr>bm_lastWasUnderrun := False\<rparr>);
          m3 = (if fillPercent > critical_high
                then (if now - bm_lastOverrunEvent m2 > hysteresis
                      then m2\<lparr>bm_overruns := bm_overruns m2 + 1, bm_lastOverrunEvent := now, bm_lastWasOverrun := True\<rparr>
                      else m2)
                else m2\<lparr>bm_lastWasOverrun := False\<rparr>)
      in if fillPercent < danger_low \<or> fillPercent > danger_high
         then m3\<lparr>bm_dangerEvents := bm_dangerEvents m3 + 1\<rparr> else m3)"

definition getFillPercentage :: "buffer_monitor \<Rightarrow> rat" where
  "getFillPercentage m = fill_percentage (bm_level m) (bm_bufferSize m)"

definition isDangerous :: "buffer_monitor \<Rightarrow> bool" where
  "isDangerous m \<longleftrightarrow> getFillPercentage m < danger_low \<or> getFillPercentage m > danger_high"

definition isUnderrun :: "buffer_monitor \<Rightarrow> bool" where "isUnderrun m \<longleftrightarrow> getFillPercentage m < critical_low"

definition isOverrun :: "buffer_monitor \<Rightarrow> bool" where "isOverrun m \<longleftrightarrow> getFillPercentage m > critical_high"

definition getDangerZoneLow :: "buffer_monitor \<Rightarrow> int" where
  "getDangerZoneLow m = \<lfloor>f64_round (f64_round (of_nat (unat (bm_bufferSize m))) * danger_low)\<rfloor>"

definition getDangerZoneHigh :: "buffer_monitor \<Rightarrow> int" where
  "getDangerZoneHigh m = \<lfloor>f64_round (f64_round (of_nat (unat (bm_bufferSize m))) * danger_high)\<rfloor>"

definition bm_resetStatistics :: "int \<Rightarrow> buffer_monitor \<Rightarrow> buffer_monitor" where
  "bm_resetStatistics now m = m\<lparr>bm_underruns := 0, bm_overruns := 0, bm_dangerEvents := 0,
     bm_lastUnderrunEvent := now, bm_lastOverrunEvent := now\<rparr>"

section \<open>An empty buffer\<close>

definition bm_updates :: "(int \<times> u64) list \<Rightarrow> buffer_monitor \<Rightarrow> buffer_monitor" where
  "bm_updates = fold (\<lambda>(now, level). updateFillLevel now level)"

lemma empty_update:
  assumes "fill_percentage level (bm_bufferSize m) < critical_low" "hysteresis < now - bm_lastUnderrunEvent m"
  shows "bm_underruns (updateFillLevel now level m) = bm_underruns m + 1 \<and>
    bm_lastUnderrunEvent (updateFillLevel now level m) = now \<and> bm_bufferSize (updateFillLevel now level m) = bm_bufferSize m"
  using assms by (simp add: updateFillLevel_def Let_def)

lemma empty_updates:
  assumes "sorted_wrt (\<lambda>a b. fst a + hysteresis < fst b) ((bm_lastUnderrunEvent m, x) # xs)"
    "\<forall>(now, level) \<in> set xs. fill_percentage level (bm_bufferSize m) < critical_low"
  shows "bm_underruns (bm_updates xs m) = bm_underruns m + of_nat (length xs)"
  using assms
proof (induction xs arbitrary: m x)
  case (Cons y ys)
  obtain now level where y: "y = (now, level)" by fastforce
  have u: "bm_underruns (updateFillLevel now level m) = bm_underruns m + 1"
      "bm_lastUnderrunEvent (updateFillLevel now level m) = now" "bm_bufferSize (updateFillLevel now level m) = bm_bufferSize m"
    using empty_update [of level m now] Cons.prems by (auto simp: y)
  have "bm_underruns (bm_updates ys (updateFillLevel now level m)) = bm_underruns (updateFillLevel now level m) + of_nat (length ys)"
    using Cons.prems by (intro Cons.IH [where x = level]) (auto simp: u y)
  then show ?case by (simp add: bm_updates_def y u)
qed (simp add: bm_updates_def)

lemma thresholds: "0 < critical_low" "critical_low < danger_low" "danger_low < danger_high" "danger_high < critical_high"
  using f64_error [of "2 / 100"] f64_error [of "10 / 100"] f64_error [of "90 / 100"] f64_error [of "98 / 100"]
  unfolding critical_low_def danger_low_def danger_high_def critical_high_def abs_le_iff
  by simp_all

section \<open>Properties\<close>

text \<open>
  The answers of the monitor agree: a buffer in underrun or in overrun is also in danger, and never both.
\<close>

theorem monitor_consistent:
  "(isUnderrun m \<or> isOverrun m \<longrightarrow> isDangerous m) \<and> \<not> (isUnderrun m \<and> isOverrun m)"
  using thresholds by (auto simp: isUnderrun_def isOverrun_def isDangerous_def)

text \<open>
  One underrun that lasts is counted again and again. The pause of 100 ms after a counted event does not end with the
  event: a buffer that stays empty counts one underrun for each update that comes more than 100 ms after the last one counted.
\<close>

theorem lasting_underrun_recounted:
  assumes "sorted_wrt (\<lambda>a b. fst a + hysteresis < fst b) ((bm_lastUnderrunEvent m, 0) # xs)"
    "\<forall>(now, level) \<in> set xs. fill_percentage level (bm_bufferSize m) < critical_low"
  shows "bm_underruns (bm_updates xs m) = bm_underruns m + of_nat (length xs)"
  by (rule empty_updates [OF assms])

lemma lasting_underrun_recounted_witness:
  "bm_underruns (bm_updates [(200000000, 0), (400000000, 0), (600000000, 0)] (monitor_new 0 1024)) = 3"
proof -
  have "fill_percentage 0 1024 < critical_low"
    using thresholds(1) by (simp add: fill_percentage_def f64_round_def)
  then show ?thesis
    using lasting_underrun_recounted [of "monitor_new 0 1024" "[(200000000, 0), (400000000, 0), (600000000, 0)]"]
    by (simp add: monitor_new_def hysteresis_def)
qed

end
