(* ===== verification/Priority_Queue.thy ===== *)
theory Priority_Queue
  imports Prelude "HOL-Library.Multiset"
begin

text \<open>
  \<open>NetworkEngine/RTP/LockFreePriorityQueue.h\<close>: a binary heap in an array under a spin lock, its sequential
  behaviour against a multiset, and one producer and one consumer interleaved. A slot the code has moved from
  keeps its old value here; the code writes it before it reads it again.
\<close>

section \<open>The heap\<close>

record 'a pqueue =
  pq_heap :: "'a list"
  pq_heapSize :: nat

definition pq_new :: "'a \<Rightarrow> nat \<Rightarrow> 'a pqueue" where
  "pq_new d capacity = \<lparr>pq_heap = replicate capacity d, pq_heapSize = 0\<rparr>"

definition pq_swap :: "nat \<Rightarrow> nat \<Rightarrow> 'a list \<Rightarrow> 'a list" where
  "pq_swap i j h = (if i \<noteq> j then h[i := h ! j, j := h ! i] else h)"

function heapifyUp :: "('a \<Rightarrow> 'a \<Rightarrow> bool) \<Rightarrow> nat \<Rightarrow> 'a list \<Rightarrow> 'a list" where
  "heapifyUp cmp idx h =
     (if idx > 0
      then let parentIdx = (idx - 1) div 2
           in if \<not> cmp (h ! parentIdx) (h ! idx) then h
              else heapifyUp cmp parentIdx (pq_swap idx parentIdx h)
      else h)"
  by pat_completeness auto
termination by (relation "measure (\<lambda>(cmp, idx, h). idx)") auto

definition largest_child :: "('a \<Rightarrow> 'a \<Rightarrow> bool) \<Rightarrow> nat \<Rightarrow> nat \<Rightarrow> 'a list \<Rightarrow> nat" where
  "largest_child cmp currentSize idx h =
     (let leftChild = 2 * idx + 1; rightChild = 2 * idx + 2;
          largest = (if leftChild < currentSize \<and> cmp (h ! idx) (h ! leftChild) then leftChild else idx)
      in if rightChild < currentSize \<and> cmp (h ! largest) (h ! rightChild) then rightChild else largest)"

lemma largest_child_cases:
  "largest_child cmp n idx h = idx \<or>
   largest_child cmp n idx h \<in> {2 * idx + 1, 2 * idx + 2} \<and> largest_child cmp n idx h < n"
  by (simp add: largest_child_def Let_def)

function heapifyDown :: "('a \<Rightarrow> 'a \<Rightarrow> bool) \<Rightarrow> nat \<Rightarrow> nat \<Rightarrow> 'a list \<Rightarrow> 'a list" where
  "heapifyDown cmp currentSize idx h =
     (let largest = largest_child cmp currentSize idx h
      in if largest = idx then h else heapifyDown cmp currentSize largest (pq_swap idx largest h))"
  by pat_completeness auto
termination
proof (relation "measure (\<lambda>(cmp, n, idx, h). n - idx)")
  fix cmp :: "'a \<Rightarrow> 'a \<Rightarrow> bool" and n idx h largest
  assume "largest = largest_child cmp n idx h" "largest \<noteq> idx"
  with largest_child_cases [of cmp n idx h]
  show "((cmp, n, largest, pq_swap idx largest h), cmp, n, idx, h) \<in> measure (\<lambda>(cmp, n, idx, h). n - idx)" by auto
qed simp

declare heapifyUp.simps [simp del] heapifyDown.simps [simp del]

section \<open>Operations\<close>

definition pq_insert :: "('a \<Rightarrow> 'a \<Rightarrow> bool) \<Rightarrow> 'a \<Rightarrow> 'a pqueue \<Rightarrow> 'a pqueue" where
  "pq_insert cmp item q =
     (let idx = pq_heapSize q
      in q\<lparr>pq_heap := heapifyUp cmp idx ((pq_heap q)[idx := item]), pq_heapSize := idx + 1\<rparr>)"

definition pq_push :: "('a \<Rightarrow> 'a \<Rightarrow> bool) \<Rightarrow> 'a \<Rightarrow> 'a pqueue \<Rightarrow> bool \<times> 'a pqueue" where
  "pq_push cmp item q =
     (if pq_heapSize q \<ge> length (pq_heap q) then (False, q) else (True, pq_insert cmp item q))"

definition pq_take_root :: "'a pqueue \<Rightarrow> 'a pqueue" where
  "pq_take_root q = q\<lparr>pq_heap := (pq_heap q)[0 := pq_heap q ! (pq_heapSize q - 1)]\<rparr>"

definition pq_sift :: "('a \<Rightarrow> 'a \<Rightarrow> bool) \<Rightarrow> 'a pqueue \<Rightarrow> 'a pqueue" where
  "pq_sift cmp q = (if pq_heapSize q > 0 then q\<lparr>pq_heap := heapifyDown cmp (pq_heapSize q) 0 (pq_heap q)\<rparr> else q)"

definition pq_pop :: "('a \<Rightarrow> 'a \<Rightarrow> bool) \<Rightarrow> 'a pqueue \<Rightarrow> 'a option \<times> 'a pqueue" where
  "pq_pop cmp q =
     (if pq_heapSize q = 0 then (None, q)
      else (Some (pq_heap q ! 0),
            pq_sift cmp ((pq_take_root q)\<lparr>pq_heapSize := pq_heapSize q - 1\<rparr>)))"

definition pq_peek :: "'a pqueue \<Rightarrow> 'a option" where
  "pq_peek q = (if pq_heapSize q = 0 then None else Some (pq_heap q ! 0))"

definition pq_empty :: "'a pqueue \<Rightarrow> bool" where "pq_empty q \<longleftrightarrow> pq_heapSize q = 0"

section \<open>Order of the comparator\<close>

text \<open>What the heap needs of \<open>Compare\<close>: \<open>\<not> cmp a b\<close> reads \<open>a\<close> is not below \<open>b\<close>.\<close>

locale comparator =
  fixes cmp :: "'a \<Rightarrow> 'a \<Rightarrow> bool"
  assumes comp_asym: "cmp a b \<Longrightarrow> \<not> cmp b a"
    and not_below_trans: "\<not> cmp a b \<Longrightarrow> \<not> cmp b c \<Longrightarrow> \<not> cmp a c"

definition heap_ok :: "('a \<Rightarrow> 'a \<Rightarrow> bool) \<Rightarrow> nat \<Rightarrow> 'a list \<Rightarrow> bool" where
  "heap_ok cmp n h \<longleftrightarrow> (\<forall>i. 0 < i \<and> i < n \<longrightarrow> \<not> cmp (h ! ((i - 1) div 2)) (h ! i))"

definition pq_ok :: "('a \<Rightarrow> 'a \<Rightarrow> bool) \<Rightarrow> 'a pqueue \<Rightarrow> bool" where
  "pq_ok cmp q \<longleftrightarrow> pq_heapSize q \<le> length (pq_heap q) \<and> heap_ok cmp (pq_heapSize q) (pq_heap q)"

definition pq_items :: "'a pqueue \<Rightarrow> 'a multiset" where
  "pq_items q = mset (take (pq_heapSize q) (pq_heap q))"

definition up_ok :: "('a \<Rightarrow> 'a \<Rightarrow> bool) \<Rightarrow> nat \<Rightarrow> nat \<Rightarrow> 'a list \<Rightarrow> bool" where
  "up_ok cmp n k h \<longleftrightarrow>
     (\<forall>i. 0 < i \<and> i < n \<and> i \<noteq> k \<longrightarrow> \<not> cmp (h ! ((i - 1) div 2)) (h ! i)) \<and>
     (\<forall>i. 0 < k \<and> 0 < i \<and> i < n \<and> (i - 1) div 2 = k \<longrightarrow> \<not> cmp (h ! ((k - 1) div 2)) (h ! i))"

definition down_ok :: "('a \<Rightarrow> 'a \<Rightarrow> bool) \<Rightarrow> nat \<Rightarrow> nat \<Rightarrow> 'a list \<Rightarrow> bool" where
  "down_ok cmp n k h \<longleftrightarrow>
     (\<forall>i. 0 < i \<and> i < n \<and> (i - 1) div 2 \<noteq> k \<longrightarrow> \<not> cmp (h ! ((i - 1) div 2)) (h ! i)) \<and>
     (\<forall>i. 0 < k \<and> 0 < i \<and> i < n \<and> (i - 1) div 2 = k \<longrightarrow> \<not> cmp (h ! ((k - 1) div 2)) (h ! i))"

lemma pq_swap_nth:
  "i < length h \<Longrightarrow> j < length h \<Longrightarrow> pq_swap i j h ! m = (if m = i then h ! j else if m = j then h ! i else h ! m)"
  by (auto simp: pq_swap_def nth_list_update)

lemma pq_swap_props:
  assumes "i < n" "j < n" "n \<le> length h"
  shows "length (pq_swap i j h) = length h" "mset (take n (pq_swap i j h)) = mset (take n h)"
    "drop n (pq_swap i j h) = drop n h"
proof -
  show "length (pq_swap i j h) = length h" by (simp add: pq_swap_def)
  have "take n (pq_swap i j h) = (if i \<noteq> j then (take n h)[i := take n h ! j, j := take n h ! i] else take n h)"
    using assms by (simp add: pq_swap_def take_update_swap)
  then show "mset (take n (pq_swap i j h)) = mset (take n h)"
    using assms mset_swap [of j "take n h" i] by simp
  show "drop n (pq_swap i j h) = drop n h" using assms by (simp add: pq_swap_def)
qed

lemma heapifyUp_props:
  "k < n \<Longrightarrow> n \<le> length h \<Longrightarrow>
   length (heapifyUp cmp k h) = length h \<and> mset (take n (heapifyUp cmp k h)) = mset (take n h)"
proof (induction cmp k h rule: heapifyUp.induct)
  case (1 cmp k h)
  show ?case
  proof (cases "k > 0 \<and> cmp (h ! ((k - 1) div 2)) (h ! k)")
    case True
    have p: "(k - 1) div 2 < n" using 1(2) True by simp
    have "heapifyUp cmp k h = heapifyUp cmp ((k - 1) div 2) (pq_swap k ((k - 1) div 2) h)"
      using True by (subst heapifyUp.simps) (simp add: Let_def)
    with 1(1) [OF _ refl _ p] True 1(2,3) pq_swap_props [OF 1(2) p 1(3)] show ?thesis by simp
  next
    case False
    then have "heapifyUp cmp k h = h" by (subst heapifyUp.simps) (auto simp: Let_def)
    then show ?thesis by simp
  qed
qed

lemma heapifyDown_props:
  "k < n \<Longrightarrow> n \<le> length h \<Longrightarrow>
   length (heapifyDown cmp n k h) = length h \<and> mset (take n (heapifyDown cmp n k h)) = mset (take n h)"
proof (induction cmp n k h rule: heapifyDown.induct)
  case (1 cmp n k h)
  define l where "l = largest_child cmp n k h"
  show ?case
  proof (cases "l = k")
    case True
    then show ?thesis by (subst (1 2) heapifyDown.simps) (simp add: l_def)
  next
    case False
    then have l: "l < n" using largest_child_cases [of cmp n k h] by (auto simp: l_def)
    have "heapifyDown cmp n k h = heapifyDown cmp n l (pq_swap k l h)"
      using False by (subst heapifyDown.simps) (simp add: l_def [symmetric])
    with 1(1) [OF l_def False l] 1(2,3) pq_swap_props [OF 1(2) l 1(3)] show ?thesis by simp
  qed
qed

context comparator begin

lemma comp_irrefl: "\<not> cmp a a" using comp_asym by blast

lemma up_step:
  assumes "up_ok cmp n k h" "0 < k" "k < n" "n \<le> length h" "cmp (h ! ((k - 1) div 2)) (h ! k)"
  shows "up_ok cmp n ((k - 1) div 2) (pq_swap k ((k - 1) div 2) h)"
proof -
  define p where "p = (k - 1) div 2"
  have p: "p < k" "p < length h" "k < length h" using assms(2-4) by (auto simp: p_def)
  have k1: "(k - Suc 0) div 2 = p" by (simp add: p_def)
  note sw = pq_swap_nth [OF p(3,2)]
  have edge: "\<not> cmp (h ! ((i - 1) div 2)) (h ! i)" if "0 < i" "i < n" "i \<noteq> k" for i
    using assms(1) that by (simp add: up_ok_def)
  have below: "\<not> cmp (h ! p) (h ! i)" if "0 < i" "i < n" "(i - 1) div 2 = k" for i
    using assms(1,2) that by (simp add: up_ok_def p_def)
  have new: "\<not> cmp (h ! k) (h ! p)" using assms(5) comp_asym by (simp add: p_def)
  have a: "\<not> cmp (pq_swap k p h ! ((i - 1) div 2)) (pq_swap k p h ! i)" if i: "0 < i" "i < n" "i \<noteq> p" for i
  proof (cases "i = k")
    case True
    then show ?thesis using new p k1 by (simp add: sw)
  next
    case False
    note e = edge [OF i(1,2) False]
    consider "(i - 1) div 2 = p" | "(i - 1) div 2 = k" | "(i - 1) div 2 \<noteq> p" "(i - 1) div 2 \<noteq> k" by blast
    then show ?thesis
    proof cases
      case 1
      then have "\<not> cmp (h ! k) (h ! i)" using not_below_trans [OF new] e by simp
      then show ?thesis using 1 False i p by (simp add: sw)
    next
      case 2
      then show ?thesis using below [OF i(1,2) 2] False i p by (simp add: sw)
    next
      case 3
      then show ?thesis using e False i by (simp add: sw)
    qed
  qed
  have b: "\<not> cmp (pq_swap k p h ! ((p - 1) div 2)) (pq_swap k p h ! i)"
    if i: "0 < p" "0 < i" "i < n" "(i - 1) div 2 = p" for i
  proof -
    have pp: "(p - 1) div 2 < p" using i(1) by simp
    have e: "\<not> cmp (h ! ((p - 1) div 2)) (h ! p)" using edge [OF i(1)] p assms(3) by simp
    show ?thesis
    proof (cases "i = k")
      case True
      then show ?thesis using e pp p by (simp add: sw)
    next
      case False
      have "p < i" using i(2,4) by auto
      then show ?thesis using not_below_trans [OF e] edge [OF i(2,3) False] i(4) pp p False by (simp add: sw)
    qed
  qed
  from a b show ?thesis unfolding up_ok_def p_def [symmetric] by blast
qed

lemma heapifyUp_ok: "up_ok cmp n k h \<Longrightarrow> k < n \<Longrightarrow> n \<le> length h \<Longrightarrow> heap_ok cmp n (heapifyUp cmp k h)"
proof (induction k arbitrary: h rule: less_induct)
  case (less k)
  show ?case
  proof (cases "k > 0 \<and> cmp (h ! ((k - 1) div 2)) (h ! k)")
    case True
    then have p: "(k - 1) div 2 < k" "(k - 1) div 2 < n" using less(3) by auto
    have "heapifyUp cmp k h = heapifyUp cmp ((k - 1) div 2) (pq_swap k ((k - 1) div 2) h)"
      using True by (subst heapifyUp.simps) (simp add: Let_def)
    with less.IH [OF p(1) up_step [OF less(2) _ less(3,4)] p(2)] True less(4)
      pq_swap_props(1) [OF less(3) p(2) less(4)]
    show ?thesis by simp
  next
    case False
    then have "heapifyUp cmp k h = h" by (subst heapifyUp.simps) (auto simp: Let_def)
    with False less(2) show ?thesis unfolding up_ok_def heap_ok_def by (metis not_gr_zero)
  qed
qed

lemma largest_child_max:
  assumes "l = largest_child cmp n k h"
  shows "0 < i \<Longrightarrow> i < n \<Longrightarrow> (i - 1) div 2 = k \<Longrightarrow> \<not> cmp (h ! l) (h ! i)" "\<not> cmp (h ! l) (h ! k)"
proof -
  define m where "m = (if 2 * k + 1 < n \<and> cmp (h ! k) (h ! (2 * k + 1)) then 2 * k + 1 else k)"
  have l: "l = (if 2 * k + 2 < n \<and> cmp (h ! m) (h ! (2 * k + 2)) then 2 * k + 2 else m)"
    using assms by (simp add: largest_child_def Let_def m_def)
  have m: "\<not> cmp (h ! m) (h ! k)" "2 * k + 1 < n \<Longrightarrow> \<not> cmp (h ! m) (h ! (2 * k + 1))"
    using comp_asym comp_irrefl by (auto simp: m_def)
  have lm: "\<not> cmp (h ! l) (h ! m)" using comp_asym comp_irrefl by (auto simp: l)
  have r: "2 * k + 2 < n \<Longrightarrow> \<not> cmp (h ! l) (h ! (2 * k + 2))" using comp_irrefl by (auto simp: l)
  show "\<not> cmp (h ! l) (h ! k)" using not_below_trans [OF lm m(1)] .
  assume i: "0 < i" "i < n" "(i - 1) div 2 = k"
  then have "i = 2 * k + 1 \<or> i = 2 * k + 2" by auto
  then show "\<not> cmp (h ! l) (h ! i)" using i(2) r not_below_trans [OF lm m(2)] by auto
qed

lemma down_step:
  assumes "down_ok cmp n k h" "l = largest_child cmp n k h" "l \<noteq> k" "n \<le> length h"
  shows "down_ok cmp n l (pq_swap k l h)"
proof -
  have l: "k < l" "l < n" "(l - 1) div 2 = k" using largest_child_cases [of cmp n k h] assms(2,3) by auto
  then have len: "k < length h" "l < length h" using assms(4) by auto
  note sw = pq_swap_nth [OF len]
  have edge: "\<not> cmp (h ! ((i - 1) div 2)) (h ! i)" if "0 < i" "i < n" "(i - 1) div 2 \<noteq> k" for i
    using assms(1) that by (simp add: down_ok_def)
  have above: "\<not> cmp (h ! ((k - 1) div 2)) (h ! l)" if "0 < k"
    using assms(1) that l by (simp add: down_ok_def)
  note mx = largest_child_max [OF assms(2)]
  have a: "\<not> cmp (pq_swap k l h ! ((i - 1) div 2)) (pq_swap k l h ! i)"
    if i: "0 < i" "i < n" "(i - 1) div 2 \<noteq> l" for i
  proof (cases "(i - 1) div 2 = k")
    case True
    then have "i \<noteq> k" using i(1) by auto
    then show ?thesis using True mx(1) [OF i(1,2) True] mx(2) by (simp add: sw)
  next
    case False
    then have "i \<noteq> l" using l(3) by auto
    show ?thesis
    proof (cases "i = k")
      case True
      then show ?thesis using above i False l by (simp add: sw)
    next
      case ik: False
      then show ?thesis using edge [OF i(1,2) False] False i(3) \<open>i \<noteq> l\<close> by (simp add: sw)
    qed
  qed
  have b: "\<not> cmp (pq_swap k l h ! ((l - 1) div 2)) (pq_swap k l h ! i)"
    if i: "0 < i" "i < n" "(i - 1) div 2 = l" for i
  proof -
    have "l < i" using i by auto
    then show ?thesis using edge [OF i(1,2)] i(3) l by (simp add: sw)
  qed
  from a b show ?thesis unfolding down_ok_def by blast
qed

lemma heapifyDown_ok: "down_ok cmp n k h \<Longrightarrow> k < n \<Longrightarrow> n \<le> length h \<Longrightarrow> heap_ok cmp n (heapifyDown cmp n k h)"
proof (induction "n - k" arbitrary: k h rule: less_induct)
  case (less k)
  define l where "l = largest_child cmp n k h"
  show ?case
  proof (cases "l = k")
    case True
    then have "heapifyDown cmp n k h = h" by (subst heapifyDown.simps) (simp add: l_def)
    moreover have "heap_ok cmp n h"
      using less(2) largest_child_max(1) [OF l_def] True unfolding heap_ok_def down_ok_def by metis
    ultimately show ?thesis by simp
  next
    case False
    then have l: "k < l" "l < n" using largest_child_cases [of cmp n k h] by (auto simp: l_def)
    have "heapifyDown cmp n k h = heapifyDown cmp n l (pq_swap k l h)"
      using False by (subst heapifyDown.simps) (simp add: l_def [symmetric])
    moreover have "n \<le> length (pq_swap k l h)" using pq_swap_props(1) [OF less(3) l(2) less(4)] less(4) by simp
    moreover have "n - l < n - k" using l by simp
    ultimately show ?thesis using less.hyps [OF _ down_step [OF less(2) l_def False less(4)] l(2)] by simp
  qed
qed

lemma root_max: "heap_ok cmp n h \<Longrightarrow> i < n \<Longrightarrow> \<not> cmp (h ! 0) (h ! i)"
proof (induction i rule: less_induct)
  case (less i)
  show ?case
  proof (cases "i = 0")
    case True
    then show ?thesis using comp_irrefl by simp
  next
    case False
    then have "(i - 1) div 2 < i" "(i - 1) div 2 < n" using less(3) by auto
    then have "\<not> cmp (h ! 0) (h ! ((i - 1) div 2))" using less by simp
    moreover have "\<not> cmp (h ! ((i - 1) div 2)) (h ! i)" using less(2,3) False by (simp add: heap_ok_def)
    ultimately show ?thesis by (rule not_below_trans)
  qed
qed

text \<open>The operations keep the heap and act as insertion and removal of a maximum of a multiset.\<close>

lemma insert_ok:
  assumes "pq_ok cmp q" "pq_heapSize q < length (pq_heap q)"
  shows "pq_ok cmp (pq_insert cmp x q) \<and> pq_items (pq_insert cmp x q) = add_mset x (pq_items q) \<and>
    length (pq_heap (pq_insert cmp x q)) = length (pq_heap q)"
proof -
  define n where "n = pq_heapSize q"
  define h where "h = (pq_heap q)[n := x]"
  have n: "n < length h" "n < n + 1" "n + 1 \<le> length h" using assms(2) by (simp_all add: n_def h_def)
  have "up_ok cmp (n + 1) n h"
    using assms(1) unfolding up_ok_def pq_ok_def heap_ok_def n_def [symmetric] h_def by (auto simp: nth_list_update)
  from heapifyUp_ok [OF this n(2,3)] heapifyUp_props [OF n(2,3), of cmp]
  have "heap_ok cmp (n + 1) (heapifyUp cmp n h)" "length (heapifyUp cmp n h) = length h"
    "mset (take (n + 1) (heapifyUp cmp n h)) = mset (take (n + 1) h)" by auto
  moreover have "mset (take (n + 1) h) = add_mset x (mset (take n (pq_heap q)))"
    using n by (simp add: h_def take_Suc_conv_app_nth)
  ultimately show ?thesis using n by (simp add: pq_insert_def Let_def pq_ok_def pq_items_def n_def [symmetric] h_def [symmetric])
    (simp add: h_def)
qed

lemma sift_ok:
  assumes "pq_ok cmp q" "pq_heapSize q = Suc n"
  defines "q' \<equiv> pq_sift cmp ((pq_take_root q)\<lparr>pq_heapSize := n\<rparr>)"
  shows "pq_ok cmp q'" "pq_items q = add_mset (pq_heap q ! 0) (pq_items q')" "length (pq_heap q') = length (pq_heap q)"
    "pq_heapSize q' = n" "y \<in># pq_items q \<Longrightarrow> \<not> cmp (pq_heap q ! 0) y"
proof -
  define h where "h = (pq_heap q)[0 := pq_heap q ! n]"
  have len: "n < length (pq_heap q)" using assms(1,2) by (simp add: pq_ok_def)
  then have lh: "n \<le> length h" "length h = length (pq_heap q)" by (simp_all add: h_def)
  have hq: "heap_ok cmp (Suc n) (pq_heap q)" using assms(1,2) by (simp add: pq_ok_def)
  have q': "q' = (if n > 0 then q\<lparr>pq_heap := heapifyDown cmp n 0 h, pq_heapSize := n\<rparr> else q\<lparr>pq_heap := h, pq_heapSize := n\<rparr>)"
    by (simp add: q'_def pq_sift_def pq_take_root_def assms(2) h_def)
  show root: "\<not> cmp (pq_heap q ! 0) y" if "y \<in># pq_items q"
  proof -
    have "y \<in> set (take (Suc n) (pq_heap q))" using that assms(2) by (simp add: pq_items_def)
    then obtain i where "i < Suc n" "y = pq_heap q ! i" using len by (auto simp: in_set_conv_nth)
    then show ?thesis using root_max [OF hq] by simp
  qed
  show "pq_heapSize q' = n" by (simp add: q')
  have items: "pq_items q = add_mset (pq_heap q ! n) (mset (take n (pq_heap q)))"
    using assms(2) len by (simp add: pq_items_def take_Suc_conv_app_nth)
  show "pq_ok cmp q'" "pq_items q = add_mset (pq_heap q ! 0) (pq_items q')" "length (pq_heap q') = length (pq_heap q)"
  proof (atomize (full), cases "n = 0")
    case True
    then show "pq_ok cmp q' \<and> pq_items q = add_mset (pq_heap q ! 0) (pq_items q') \<and> length (pq_heap q') = length (pq_heap q)"
      using items lh by (simp add: q' pq_ok_def heap_ok_def pq_items_def)
  next
    case False
    then have n: "0 < n" by simp
    have "down_ok cmp n 0 h" using hq unfolding down_ok_def heap_ok_def h_def by (auto simp: nth_list_update)
    note d = heapifyDown_ok [OF this n lh(1)] heapifyDown_props [OF n lh(1), of cmp]
    have "pq_heap q ! 0 \<in># mset (take n (pq_heap q))"
      using n len by (simp add: in_set_conv_nth) (metis (no_types) nth_take)
    then have "pq_items q = add_mset (pq_heap q ! 0) (mset (take n h))"
      using n len items by (simp add: h_def take_update_swap mset_update)
    with d show "pq_ok cmp q' \<and> pq_items q = add_mset (pq_heap q ! 0) (pq_items q') \<and> length (pq_heap q') = length (pq_heap q)"
      using n lh by (simp add: q' pq_ok_def pq_items_def)
  qed
qed

lemma pop_ok:
  assumes "pq_ok cmp q"
  shows "case pq_pop cmp q of (None, q') \<Rightarrow> pq_items q = {#} \<and> q' = q
    | (Some x, q') \<Rightarrow> pq_ok cmp q' \<and> pq_items q = add_mset x (pq_items q') \<and> (\<forall>y \<in># pq_items q. \<not> cmp x y) \<and>
        length (pq_heap q') = length (pq_heap q)"
proof (cases "pq_heapSize q")
  case 0
  then show ?thesis by (simp add: pq_pop_def pq_items_def)
next
  case (Suc n)
  then show ?thesis using sift_ok [OF assms Suc] by (simp add: pq_pop_def)
qed

end

text \<open>The default comparator \<open>std::less\<close>.\<close>

definition std_less :: "'a::linorder \<Rightarrow> 'a \<Rightarrow> bool" where "std_less a b \<longleftrightarrow> a < b"

interpretation std: comparator std_less
  by unfold_locales (auto simp: std_less_def)

section \<open>Runs\<close>

datatype 'a pq_call = Push 'a | Pop
datatype 'a pq_answer = Pushed bool | Popped "'a option"

fun pq_run :: "('a \<Rightarrow> 'a \<Rightarrow> bool) \<Rightarrow> 'a pq_call list \<Rightarrow> 'a pqueue \<Rightarrow> 'a pq_answer list" where
  "pq_run cmp [] q = []"
| "pq_run cmp (Push x # cs) q = (let (ok, q') = pq_push cmp x q in Pushed ok # pq_run cmp cs q')"
| "pq_run cmp (Pop # cs) q = (let (r, q') = pq_pop cmp q in Popped r # pq_run cmp cs q')"

text \<open>The specification: a multiset of bounded size that gives its greatest element.\<close>

fun spec_run :: "nat \<Rightarrow> 'a::linorder pq_call list \<Rightarrow> 'a multiset \<Rightarrow> 'a pq_answer list" where
  "spec_run cap [] M = []"
| "spec_run cap (Push x # cs) M =
     (if size M < cap then Pushed True # spec_run cap cs (add_mset x M) else Pushed False # spec_run cap cs M)"
| "spec_run cap (Pop # cs) M =
     (if M = {#} then Popped None # spec_run cap cs M
      else Popped (Some (Max_mset M)) # spec_run cap cs (M - {#Max_mset M#}))"

lemma size_items: "pq_ok cmp q \<Longrightarrow> size (pq_items q) = pq_heapSize q"
  by (simp add: pq_ok_def pq_items_def)

lemma pop_max:
  assumes "pq_ok std_less q" "pq_pop std_less q = (Some x, q')"
  shows "pq_ok std_less q' \<and> pq_items q \<noteq> {#} \<and> x = Max_mset (pq_items q) \<and> pq_items q' = pq_items q - {#x#} \<and>
    length (pq_heap q') = length (pq_heap q)"
proof -
  have p: "pq_ok std_less q'" "pq_items q = add_mset x (pq_items q')" "\<forall>y \<in># pq_items q. \<not> std_less x y"
    "length (pq_heap q') = length (pq_heap q)" using std.pop_ok [OF assms(1)] assms(2) by simp_all
  have "Max_mset (pq_items q) = x"
    by (rule Max_eqI) (use p(2,3) in \<open>auto simp: std_less_def not_less\<close>)
  with p show ?thesis by simp
qed

lemma run_spec: "pq_ok std_less q \<Longrightarrow> pq_run std_less cs q = spec_run (length (pq_heap q)) cs (pq_items q)"
proof (induction cs arbitrary: q)
  case Nil
  show ?case by simp
next
  case (Cons c cs)
  note ok = \<open>pq_ok std_less q\<close>
  show ?case
  proof (cases c)
    case (Push x)
    show ?thesis
    proof (cases "pq_heapSize q < length (pq_heap q)")
      case True
      with std.insert_ok [OF ok True, of x] Cons.IH [of "pq_insert std_less x q"] show ?thesis
        by (simp add: Push pq_push_def size_items [OF ok])
    next
      case False
      then show ?thesis using Cons.IH [OF ok] by (simp add: Push pq_push_def size_items [OF ok])
    qed
  next
    case Pop
    obtain r q' where r: "pq_pop std_less q = (r, q')" by fastforce
    show ?thesis
    proof (cases r)
      case None
      then have "pq_items q = {#}" "q' = q" using std.pop_ok [OF ok] r by simp_all
      then show ?thesis using Cons.IH [OF ok] by (simp add: Pop r None)
    next
      case (Some x)
      then show ?thesis using pop_max [OF ok] r Cons.IH [of q'] by (simp add: Pop)
    qed
  qed
qed

lemma pq_new_ok: "pq_ok cmp (pq_new d cap)" "pq_items (pq_new d cap) = {#}" "length (pq_heap (pq_new d cap)) = cap"
  by (simp_all add: pq_ok_def pq_new_def heap_ok_def pq_items_def)

lemma spec_push_all: "size M + length xs \<le> cap \<Longrightarrow>
  spec_run cap (map Push xs @ cs) M = replicate (length xs) (Pushed True) @ spec_run cap cs (M + mset xs)"
  by (induction xs arbitrary: M) simp_all

lemma spec_pop_all: "spec_run cap (replicate (size M) Pop) M = map (Popped \<circ> Some) (rev (sorted_list_of_multiset M))"
proof (induction "size M" arbitrary: M)
  case 0
  then show ?case by simp
next
  case (Suc n)
  then have ne: "M \<noteq> {#}" by auto
  define x where "x = Max_mset M"
  have x: "x \<in># M" using ne by (simp add: x_def)
  then have "n = size (M - {#x#})" using Suc(2) by (simp add: size_Diff_singleton)
  from Suc(1) [OF this] this
  have ih: "spec_run cap (replicate n Pop) (M - {#x#}) = map (Popped \<circ> Some) (rev (sorted_list_of_multiset (M - {#x#})))" by simp
  have "sort (sorted_list_of_multiset M) = sorted_list_of_multiset (M - {#x#}) @ [x]"
  proof (rule properties_for_sort)
    show "sorted (sorted_list_of_multiset (M - {#x#}) @ [x])"
      using ne by (auto simp: sorted_append x_def dest!: in_diffD intro: Max_ge)
  qed (use x in simp)
  then have "sorted_list_of_multiset M = sorted_list_of_multiset (M - {#x#}) @ [x]"
    by (simp add: sorted_sort_id)
  with ih ne show ?case by (simp add: Suc(2) [symmetric] x_def [symmetric])
qed

section \<open>One producer and one consumer\<close>

text \<open>
  The size is read before the lock is taken. Between taking and clearing the flag a thread is alone with the array, so
  the work on the array is one step; the size is atomic and changes in a step of its own. \<open>pushed\<close> and \<open>popped\<close> are
  ghost records of the elements inserted and returned.
\<close>

datatype 'a push_pc = U_Idle | U_Checked 'a | U_Locked 'a | U_Stored 'a | U_Counted
datatype pop_pc = O_Idle | O_Checked | O_Locked | O_Taken | O_Counted | O_Sifted

record 'a pq_sys =
  pqs_queue :: "'a pqueue"
  pqs_flag :: bool
  pqs_push :: "'a push_pc"
  pqs_pop :: pop_pc
  pushed :: "'a multiset"
  popped :: "'a multiset"

inductive pq_push_step :: "('a \<Rightarrow> 'a \<Rightarrow> bool) \<Rightarrow> 'a pq_sys \<Rightarrow> 'a pq_sys \<Rightarrow> bool" for cmp where
  u_check: "pqs_push s = U_Idle \<Longrightarrow> pq_heapSize (pqs_queue s) < length (pq_heap (pqs_queue s)) \<Longrightarrow>
    pq_push_step cmp s (s\<lparr>pqs_push := U_Checked item\<rparr>)"
| u_lock: "pqs_push s = U_Checked item \<Longrightarrow> \<not> pqs_flag s \<Longrightarrow>
    pq_push_step cmp s (s\<lparr>pqs_flag := True, pqs_push := U_Locked item\<rparr>)"
| u_store: "pqs_push s = U_Locked item \<Longrightarrow> idx = pq_heapSize (pqs_queue s) \<Longrightarrow>
    pq_push_step cmp s (s\<lparr>pqs_queue := (pqs_queue s)\<lparr>pq_heap :=
      heapifyUp cmp idx ((pq_heap (pqs_queue s))[idx := item])\<rparr>, pqs_push := U_Stored item\<rparr>)"
| u_count: "pqs_push s = U_Stored item \<Longrightarrow>
    pq_push_step cmp s (s\<lparr>pqs_queue := (pqs_queue s)\<lparr>pq_heapSize := pq_heapSize (pqs_queue s) + 1\<rparr>,
      pqs_push := U_Counted, pushed := add_mset item (pushed s)\<rparr>)"
| u_unlock: "pqs_push s = U_Counted \<Longrightarrow> pq_push_step cmp s (s\<lparr>pqs_flag := False, pqs_push := U_Idle\<rparr>)"

inductive pq_pop_step :: "('a \<Rightarrow> 'a \<Rightarrow> bool) \<Rightarrow> 'a pq_sys \<Rightarrow> 'a pq_sys \<Rightarrow> bool" for cmp where
  o_check: "pqs_pop s = O_Idle \<Longrightarrow> pq_heapSize (pqs_queue s) \<noteq> 0 \<Longrightarrow> pq_pop_step cmp s (s\<lparr>pqs_pop := O_Checked\<rparr>)"
| o_lock: "pqs_pop s = O_Checked \<Longrightarrow> \<not> pqs_flag s \<Longrightarrow> pq_pop_step cmp s (s\<lparr>pqs_flag := True, pqs_pop := O_Locked\<rparr>)"
| o_gone: "pqs_pop s = O_Locked \<Longrightarrow> pq_heapSize (pqs_queue s) = 0 \<Longrightarrow>
    pq_pop_step cmp s (s\<lparr>pqs_flag := False, pqs_pop := O_Idle\<rparr>)"
| o_take: "pqs_pop s = O_Locked \<Longrightarrow> pq_heapSize (pqs_queue s) \<noteq> 0 \<Longrightarrow>
    pq_pop_step cmp s (s\<lparr>pqs_queue := pq_take_root (pqs_queue s), pqs_pop := O_Taken,
      popped := add_mset (pq_heap (pqs_queue s) ! 0) (popped s)\<rparr>)"
| o_count: "pqs_pop s = O_Taken \<Longrightarrow>
    pq_pop_step cmp s (s\<lparr>pqs_queue := (pqs_queue s)\<lparr>pq_heapSize := pq_heapSize (pqs_queue s) - 1\<rparr>, pqs_pop := O_Counted\<rparr>)"
| o_sift: "pqs_pop s = O_Counted \<Longrightarrow>
    pq_pop_step cmp s (s\<lparr>pqs_queue := pq_sift cmp (pqs_queue s), pqs_pop := O_Sifted\<rparr>)"
| o_unlock: "pqs_pop s = O_Sifted \<Longrightarrow> pq_pop_step cmp s (s\<lparr>pqs_flag := False, pqs_pop := O_Idle\<rparr>)"

definition pq_step :: "('a \<Rightarrow> 'a \<Rightarrow> bool) \<Rightarrow> 'a pq_sys \<Rightarrow> 'a pq_sys \<Rightarrow> bool" where
  "pq_step cmp s t \<longleftrightarrow> pq_push_step cmp s t \<or> pq_pop_step cmp s t"

definition pq_init :: "'a \<Rightarrow> nat \<Rightarrow> 'a pq_sys" where
  "pq_init d cap = \<lparr>pqs_queue = pq_new d cap, pqs_flag = False, pqs_push = U_Idle, pqs_pop = O_Idle, pushed = {#}, popped = {#}\<rparr>"

inductive_cases pq_push_stepE: "pq_push_step cmp s t"
inductive_cases pq_pop_stepE: "pq_pop_step cmp s t"

definition push_holds :: "'a push_pc \<Rightarrow> bool" where
  "push_holds pc \<longleftrightarrow> (case pc of U_Idle \<Rightarrow> False | U_Checked _ \<Rightarrow> False | _ \<Rightarrow> True)"

definition pop_holds :: "pop_pc \<Rightarrow> bool" where
  "pop_holds pc \<longleftrightarrow> pc \<notin> {O_Idle, O_Checked}"

text \<open>
  What holds of the queue depends on who is at work: while an element is stored but not counted the queue is the
  old one with the new element in the heap; while one is taken out the queue is one on the way through \<open>pop\<close>.
\<close>

definition queue_phase :: "('a \<Rightarrow> 'a \<Rightarrow> bool) \<Rightarrow> 'a pq_sys \<Rightarrow> bool" where
  "queue_phase cmp s \<longleftrightarrow>
     (case pqs_push s of
        U_Stored x \<Rightarrow> (\<exists>q. pq_ok cmp q \<and> pq_heapSize q < length (pq_heap q) \<and> pq_items q + popped s = pushed s \<and>
          (pqs_queue s)\<lparr>pq_heapSize := pq_heapSize q + 1\<rparr> = pq_insert cmp x q \<and> pq_heapSize (pqs_queue s) = pq_heapSize q)
      | _ \<Rightarrow>
        (case pqs_pop s of
           O_Taken \<Rightarrow> (\<exists>q n. pq_ok cmp q \<and> pq_heapSize q = Suc n \<and> pqs_queue s = pq_take_root q \<and>
             add_mset (pq_heap q ! 0) (pushed s) = pq_items q + popped s)
         | O_Counted \<Rightarrow> (\<exists>q n. pq_ok cmp q \<and> pq_heapSize q = Suc n \<and> pqs_queue s = (pq_take_root q)\<lparr>pq_heapSize := n\<rparr> \<and>
             add_mset (pq_heap q ! 0) (pushed s) = pq_items q + popped s)
         | _ \<Rightarrow> pq_ok cmp (pqs_queue s) \<and> pq_items (pqs_queue s) + popped s = pushed s))"

definition pq_sys_inv :: "('a \<Rightarrow> 'a \<Rightarrow> bool) \<Rightarrow> 'a pq_sys \<Rightarrow> bool" where
  "pq_sys_inv cmp s \<longleftrightarrow>
     pqs_flag s = (push_holds (pqs_push s) \<or> pop_holds (pqs_pop s)) \<and> \<not> (push_holds (pqs_push s) \<and> pop_holds (pqs_pop s)) \<and>
     (pqs_push s \<notin> {U_Idle, U_Counted} \<longrightarrow> pq_heapSize (pqs_queue s) < length (pq_heap (pqs_queue s))) \<and>
     (pqs_pop s \<in> {O_Checked, O_Locked, O_Taken} \<longrightarrow> pq_heapSize (pqs_queue s) \<noteq> 0) \<and> queue_phase cmp s"

lemma length_heapifyUp: "length (heapifyUp cmp k h) = length h"
  by (induction cmp k h rule: heapifyUp.induct) (subst heapifyUp.simps, simp add: Let_def pq_swap_def)

lemma length_heapifyDown: "length (heapifyDown cmp n k h) = length h"
  by (induction cmp n k h rule: heapifyDown.induct) (subst heapifyDown.simps, simp add: Let_def pq_swap_def)

lemma take_root_fields [simp]:
  "pq_heapSize (pq_take_root q) = pq_heapSize q" "length (pq_heap (pq_take_root q)) = length (pq_heap q)"
  by (simp_all add: pq_take_root_def)

lemma insert_size [simp]: "pq_heapSize (pq_insert cmp x q) = pq_heapSize q + 1"
  by (simp add: pq_insert_def Let_def)

lemma sift_fields [simp]: "pq_heapSize (pq_sift cmp q) = pq_heapSize q" "length (pq_heap (pq_sift cmp q)) = length (pq_heap q)"
  by (simp_all add: pq_sift_def length_heapifyDown)

lemma holds_simps [simp]:
  "\<not> push_holds U_Idle" "\<not> push_holds (U_Checked x)" "push_holds (U_Locked x)" "push_holds (U_Stored x)" "push_holds U_Counted"
  "\<not> pop_holds O_Idle" "\<not> pop_holds O_Checked" "pop_holds O_Locked" "pop_holds O_Taken" "pop_holds O_Counted" "pop_holds O_Sifted"
  by (simp_all add: push_holds_def pop_holds_def)

lemma not_pop_holds: "\<not> pop_holds pc \<longleftrightarrow> pc = O_Idle \<or> pc = O_Checked"
  by (auto simp: pop_holds_def)

lemma not_push_holds: "\<not> push_holds pc \<longleftrightarrow> pc = U_Idle \<or> (\<exists>x. pc = U_Checked x)"
  by (cases pc) auto

lemma phase_taken:
  "pq_sys_inv cmp s \<Longrightarrow> pqs_pop s = O_Taken \<Longrightarrow>
   \<exists>q n. pq_ok cmp q \<and> pq_heapSize q = Suc n \<and> pqs_queue s = pq_take_root q \<and>
     add_mset (pq_heap q ! 0) (pushed s) = pq_items q + popped s"
  by (cases "pqs_push s") (simp_all add: pq_sys_inv_def queue_phase_def)

lemma phase_counted:
  "pq_sys_inv cmp s \<Longrightarrow> pqs_pop s = O_Counted \<Longrightarrow>
   \<exists>q n. pq_ok cmp q \<and> pq_heapSize q = Suc n \<and> pqs_queue s = (pq_take_root q)\<lparr>pq_heapSize := n\<rparr> \<and>
     add_mset (pq_heap q ! 0) (pushed s) = pq_items q + popped s"
  by (cases "pqs_push s") (simp_all add: pq_sys_inv_def queue_phase_def)

lemma phase_quiet:
  "pq_sys_inv cmp s \<Longrightarrow> \<not> push_holds (pqs_push s) \<Longrightarrow> pqs_pop s \<noteq> O_Taken \<Longrightarrow> pqs_pop s \<noteq> O_Counted \<Longrightarrow>
   pq_ok cmp (pqs_queue s) \<and> pq_items (pqs_queue s) + popped s = pushed s"
  by (cases "pqs_push s"; cases "pqs_pop s") (simp_all add: pq_sys_inv_def queue_phase_def)

context comparator begin

lemma push_step_inv:
  assumes "pq_push_step cmp s t" "pq_sys_inv cmp s"
  shows "pq_sys_inv cmp t"
  using assms(1)
proof (cases rule: pq_push_step.cases)
  case (u_check item)
  then show ?thesis using assms(2) by (cases "pqs_pop s") (auto simp: pq_sys_inv_def queue_phase_def)
next
  case (u_lock item)
  then have "pqs_pop s = O_Idle \<or> pqs_pop s = O_Checked" using assms(2) by (simp add: pq_sys_inv_def not_pop_holds [symmetric])
  then show ?thesis using assms(2) u_lock by (auto simp: pq_sys_inv_def queue_phase_def)
next
  case (u_store item idx)
  then have p: "pqs_pop s = O_Idle \<or> pqs_pop s = O_Checked" using assms(2) by (simp add: pq_sys_inv_def not_pop_holds [symmetric])
  then have "pq_ok cmp (pqs_queue s)" "pq_items (pqs_queue s) + popped s = pushed s"
    "pq_heapSize (pqs_queue s) < length (pq_heap (pqs_queue s))"
    using assms(2) u_store by (auto simp: pq_sys_inv_def queue_phase_def)
  then show ?thesis using assms(2) u_store p
    by (auto simp: pq_sys_inv_def queue_phase_def pq_insert_def Let_def length_heapifyUp intro!: exI [of _ "pqs_queue s"])
next
  case (u_count item)
  then have p: "pqs_pop s = O_Idle \<or> pqs_pop s = O_Checked" using assms(2) by (simp add: pq_sys_inv_def not_pop_holds [symmetric])
  from assms(2) u_count obtain q where q: "pq_ok cmp q" "pq_heapSize q < length (pq_heap q)" "pq_items q + popped s = pushed s"
    "(pqs_queue s)\<lparr>pq_heapSize := pq_heapSize q + 1\<rparr> = pq_insert cmp item q" "pq_heapSize (pqs_queue s) = pq_heapSize q"
    by (auto simp: pq_sys_inv_def queue_phase_def)
  then show ?thesis using assms(2) u_count p insert_ok [OF q(1,2), of item]
    by (auto simp: pq_sys_inv_def queue_phase_def)
next
  case u_unlock
  then have p: "pqs_pop s = O_Idle \<or> pqs_pop s = O_Checked" using assms(2) by (simp add: pq_sys_inv_def not_pop_holds [symmetric])
  then show ?thesis using assms(2) u_unlock by (auto simp: pq_sys_inv_def queue_phase_def)
qed

lemma pop_step_inv:
  assumes "pq_pop_step cmp s t" "pq_sys_inv cmp s"
  shows "pq_sys_inv cmp t"
proof -
  have p: "pqs_push s = U_Idle \<or> (\<exists>x. pqs_push s = U_Checked x)" if "pop_holds (pqs_pop s) \<or> \<not> pqs_flag s"
    using assms(2) that by (auto simp: pq_sys_inv_def not_push_holds [symmetric])
  from assms(1) show ?thesis
  proof (cases rule: pq_pop_step.cases)
    case o_check
    then show ?thesis using assms(2) by (auto simp: pq_sys_inv_def queue_phase_def split: push_pc.splits)
  next
    case o_lock
    then show ?thesis using assms(2) p by (auto simp: pq_sys_inv_def queue_phase_def)
  next
    case o_gone
    then show ?thesis using assms(2) by (simp add: pq_sys_inv_def)
  next
    case o_take
    have ok: "pq_ok cmp (pqs_queue s)" "pq_items (pqs_queue s) + popped s = pushed s"
      using assms(2) p o_take by (auto simp: pq_sys_inv_def queue_phase_def)
    obtain n where "pq_heapSize (pqs_queue s) = Suc n" using o_take(3) not0_implies_Suc by blast
    with ok have "\<exists>q n. pq_ok cmp q \<and> pq_heapSize q = Suc n \<and> pq_take_root (pqs_queue s) = pq_take_root q \<and>
        add_mset (pq_heap q ! 0) (pushed s) = pq_items q + add_mset (pq_heap (pqs_queue s) ! 0) (popped s)"
      by (intro exI [of _ "pqs_queue s"] exI [of _ n]) (simp add: ok(2) [symmetric])
    then have "queue_phase cmp t" using p o_take(1,2) by (cases "pqs_push s") (simp_all add: queue_phase_def)
    then show ?thesis using assms(2) p o_take by (auto simp: pq_sys_inv_def)
  next
    case o_count
    obtain q n where q: "pq_ok cmp q" "pq_heapSize q = Suc n" "pqs_queue s = pq_take_root q"
      "add_mset (pq_heap q ! 0) (pushed s) = pq_items q + popped s"
      using phase_taken [OF assms(2) o_count(2)] by blast
    then show ?thesis using assms(2) p o_count
      by (auto simp: pq_sys_inv_def queue_phase_def intro!: exI [of _ q])
  next
    case o_sift
    obtain q n where q: "pq_ok cmp q" "pq_heapSize q = Suc n"
      "pqs_queue s = (pq_take_root q)\<lparr>pq_heapSize := n\<rparr>" "add_mset (pq_heap q ! 0) (pushed s) = pq_items q + popped s"
      using phase_counted [OF assms(2) o_sift(2)] by blast
    note so = sift_ok [OF q(1,2)]
    have "pq_items (pq_sift cmp (pqs_queue s)) + popped s = pushed s" using q(4) so(2) by (simp add: q(3))
    then show ?thesis using assms(2) p o_sift so(1,3) q(3)
      by (auto simp: pq_sys_inv_def queue_phase_def)
  next
    case o_unlock
    then show ?thesis using assms(2) p by (auto simp: pq_sys_inv_def queue_phase_def)
  qed
qed

lemma reachable_inv: "rtranclp (pq_step cmp) (pq_init d cap) s \<Longrightarrow> pq_sys_inv cmp s"
proof (induction rule: rtranclp_induct)
  case base
  show ?case by (simp add: pq_sys_inv_def pq_init_def queue_phase_def pq_new_ok)
next
  case (step s t)
  then show ?case using push_step_inv pop_step_inv by (auto simp: pq_step_def)
qed

end

section \<open>Properties\<close>

text \<open>
  C24. The heap is a bounded priority queue. Whatever is pushed and popped in whatever order, the answers are those of a
  multiset that accepts an element while it holds fewer than \<open>Capacity\<close> and gives its greatest one.
\<close>

theorem pq_run_refines: "pq_run std_less cs (pq_new d cap) = spec_run cap cs {#}"
  using run_spec [OF pq_new_ok(1), of cs d cap] by (simp add: pq_new_ok)

text \<open>
  Elements come out in order of priority. Pushing any elements that fit and popping as many again returns all of them,
  greatest first.
\<close>

theorem pq_sorts:
  assumes "length xs \<le> cap"
  shows "pq_run std_less (map Push xs @ replicate (length xs) Pop) (pq_new d cap) =
    replicate (length xs) (Pushed True) @ map (Popped \<circ> Some) (rev (sort xs))"
proof -
  have "spec_run cap (replicate (length xs) Pop) (mset xs) = map (Popped \<circ> Some) (rev (sort xs))"
    using spec_pop_all [of cap "mset xs"] by simp
  then show ?thesis
    using run_spec [OF pq_new_ok(1), of _ d cap] spec_push_all [of "{#}" xs cap "replicate (length xs) Pop"] assms
    by (simp add: pq_new_ok)
qed

lemma pq_sorts_witness:
  "pq_run std_less [Push 2, Push 7, Push 1, Pop, Pop, Pop] (pq_new 0 4) =
    [Pushed True, Pushed True, Pushed True, Popped (Some 7), Popped (Some 2), Popped (Some (1 :: nat))]"
  using pq_sorts [of "[2, 7, 1 :: nat]" 4 0] by (simp add: numeral_eq_Suc)

text \<open>
  C25. One producer and one consumer share the queue safely in every interleaving. The two never work on the array at once,
  an element is never stored behind the array although the size was read before the lock was taken, a pop that saw an
  element finds one, the element it takes has the greatest priority, and outside the lock the queue is a heap of what
  was pushed and not yet popped.
\<close>

theorem pq_threads_safe:
  assumes "comparator cmp" "rtranclp (pq_step cmp) (pq_init d cap) s"
  shows "\<not> (push_holds (pqs_push s) \<and> pop_holds (pqs_pop s)) \<and>
    (\<forall>x. pqs_push s = U_Locked x \<longrightarrow> pq_heapSize (pqs_queue s) < length (pq_heap (pqs_queue s))) \<and>
    (pqs_pop s = O_Locked \<longrightarrow> pq_heapSize (pqs_queue s) \<noteq> 0 \<and>
      (\<forall>y \<in># pq_items (pqs_queue s). \<not> cmp (pq_heap (pqs_queue s) ! 0) y)) \<and>
    (\<not> pqs_flag s \<longrightarrow> pq_ok cmp (pqs_queue s) \<and> pq_items (pqs_queue s) + popped s = pushed s)"
proof (intro conjI impI allI)
  note inv = comparator.reachable_inv [OF assms]
  show "\<not> (push_holds (pqs_push s) \<and> pop_holds (pqs_pop s))" using inv by (simp add: pq_sys_inv_def)
  show "pq_heapSize (pqs_queue s) < length (pq_heap (pqs_queue s))" if "pqs_push s = U_Locked x" for x
    using inv that by (simp add: pq_sys_inv_def)
  show "pq_ok cmp (pqs_queue s)" "pq_items (pqs_queue s) + popped s = pushed s" if f: "\<not> pqs_flag s"
  proof -
    have "\<not> push_holds (pqs_push s)" "\<not> pop_holds (pqs_pop s)" using inv f by (simp_all add: pq_sys_inv_def)
    moreover have "pqs_pop s \<noteq> O_Taken" "pqs_pop s \<noteq> O_Counted" using calculation(2) by auto
    ultimately show "pq_ok cmp (pqs_queue s)" "pq_items (pqs_queue s) + popped s = pushed s"
      using phase_quiet [OF inv] by simp_all
  qed
  assume l: "pqs_pop s = O_Locked"
  with inv have n: "pq_heapSize (pqs_queue s) \<noteq> 0" "\<not> push_holds (pqs_push s)" by (simp_all add: pq_sys_inv_def)
  have ok: "pq_ok cmp (pqs_queue s)" using phase_quiet [OF inv n(2)] l by simp
  obtain m where m: "pq_heapSize (pqs_queue s) = Suc m" using n(1) not0_implies_Suc by blast
  show "pq_heapSize (pqs_queue s) \<noteq> 0" by (rule n(1))
  show "\<forall>y \<in># pq_items (pqs_queue s). \<not> cmp (pq_heap (pqs_queue s) ! 0) y"
    using comparator.sift_ok(5) [OF assms(1) ok m] by blast
qed

lemma pq_threads_safe_witness:
  "\<exists>s. rtranclp (pq_step std_less) (pq_init 0 2) s \<and> pqs_push s = U_Locked (3 :: nat) \<and>
    pq_heapSize (pqs_queue s) < length (pq_heap (pqs_queue s))"
proof -
  let ?i = "pq_init 0 2 :: nat pq_sys"
  let ?a = "?i\<lparr>pqs_push := U_Checked 3\<rparr>"
  let ?b = "?a\<lparr>pqs_flag := True, pqs_push := U_Locked 3\<rparr>"
  have "pq_step std_less ?i ?a" unfolding pq_step_def by (rule disjI1, rule u_check) (simp_all add: pq_init_def pq_new_def)
  moreover have "pq_step std_less ?a ?b" unfolding pq_step_def by (rule disjI1, rule u_lock) (simp_all add: pq_init_def)
  ultimately have r: "rtranclp (pq_step std_less) ?i ?b" by (meson converse_rtranclp_into_rtranclp rtranclp.rtrancl_refl)
  have "pqs_push ?b = U_Locked 3" by simp
  with r pq_threads_safe [OF std.comparator_axioms r] show ?thesis by blast
qed

end
