(* ===== verification/Resampling.thy ===== *)
theory Resampling
  imports Double_Precision
begin

text \<open>
  \<open>NetworkEngine/Resampling\<close>: the linear resampler (\<open>Resampler.cpp\<close>; \<open>SampleRateAdapter.cpp\<close> has the same class under
  another name) and the adapter that uses it when the rates differ. Samples are single precision values; positions and
  weights are doubles, rounded after every operation (no fused multiply-add). Access before or behind the
  buffer is undefined (\<open>None\<close>). Rates are positive and finite.
\<close>

section \<open>Interpolation\<close>

fun ext_add :: "(rat \<Rightarrow> f32) \<Rightarrow> f32 \<Rightarrow> f32 \<Rightarrow> f32" where
  "ext_add r (Fin x) (Fin y) = r (x + y)"
| "ext_add r NaN _ = NaN"
| "ext_add r _ NaN = NaN"
| "ext_add r PInf NInf = NaN"
| "ext_add r NInf PInf = NaN"
| "ext_add r PInf _ = PInf"
| "ext_add r _ PInf = PInf"
| "ext_add r NInf _ = NInf"
| "ext_add r _ NInf = NInf"

definition f32_sub :: "f32 \<Rightarrow> f32 \<Rightarrow> f32" where
  "f32_sub a b = ext_add f32_round a (f32_neg b)"

text \<open>A weight is at least 0 and below 1.\<close>

fun weighted :: "rat \<Rightarrow> f32 \<Rightarrow> f32" where
  "weighted f (Fin x) = Fin (d_mult f x)"
| "weighted f NaN = NaN"
| "weighted f PInf = (if f = 0 then NaN else PInf)"
| "weighted f NInf = (if f = 0 then NaN else NInf)"

fun to_float :: "f32 \<Rightarrow> f32" where
  "to_float (Fin x) = f32_round x"
| "to_float v = v"

definition interpolate :: "rat \<Rightarrow> f32 \<Rightarrow> f32 \<Rightarrow> f32" where
  "interpolate fraction sample1 sample2 =
     to_float (ext_add (\<lambda>x. Fin (f64_round x)) sample1 (weighted fraction (f32_sub sample2 sample1)))"

section \<open>The resampler\<close>

record resampler =
  rs_channels :: nat
  rs_ratio :: rat
  rs_buffer :: "f32 list"
  rs_bufferPos :: int
  rs_lastSample :: "f32 list"

definition rs_bufferSize :: nat where "rs_bufferSize = 4096"

text \<open>\<open>new float[]\<close> leaves the buffer as it is found.\<close>

definition resampler_new :: "f32 list \<Rightarrow> rat \<Rightarrow> rat \<Rightarrow> nat \<Rightarrow> resampler" where
  "resampler_new garbage inputRate outputRate channels =
     \<lparr>rs_channels = channels, rs_ratio = d_div outputRate inputRate, rs_buffer = garbage, rs_bufferPos = 0,
      rs_lastSample = replicate channels (Fin 0)\<rparr>"

definition put_at :: "nat \<Rightarrow> 'a list \<Rightarrow> 'a list \<Rightarrow> 'a list" where
  "put_at k xs l = take k l @ xs @ drop (k + length xs) l"

fun rs_fill :: "f32 list \<Rightarrow> nat \<Rightarrow> nat \<Rightarrow> resampler \<Rightarrow> resampler option" where
  "rs_fill input i 0 r = Some r"
| "rs_fill input i (Suc n) r =
     (if rs_bufferPos r \<ge> int rs_bufferSize then Some r
      else if rs_bufferPos r < 0 then None
      else rs_fill input (i + 1) n
        (r\<lparr>rs_buffer := put_at (nat (rs_bufferPos r) * rs_channels r)
             (take (rs_channels r) (drop (i * rs_channels r) input)) (rs_buffer r),
           rs_bufferPos := rs_bufferPos r + 1\<rparr>))"

definition rs_frame :: "resampler \<Rightarrow> rat \<Rightarrow> f32 list" where
  "rs_frame r inputIndex =
     (let inputIndexInt = nat \<lfloor>inputIndex\<rfloor>;
          fraction = d_sub inputIndex (of_nat inputIndexInt)
      in map (\<lambda>ch.
           let sample1 = rs_buffer r ! (inputIndexInt * rs_channels r + ch);
               sample2 = (if int inputIndexInt + 1 < rs_bufferPos r
                          then rs_buffer r ! ((inputIndexInt + 1) * rs_channels r + ch) else rs_lastSample r ! ch)
           in interpolate fraction sample1 sample2) [0..<rs_channels r])"

fun rs_loop :: "resampler \<Rightarrow> nat \<Rightarrow> rat \<Rightarrow> f32 list list \<times> rat" where
  "rs_loop r 0 inputIndex = ([], inputIndex)"
| "rs_loop r (Suc n) inputIndex =
     (if inputIndex < of_int (rs_bufferPos r)
      then let (frames, index) = rs_loop r n (d_add inputIndex (d_div 1 (rs_ratio r)))
           in (rs_frame r inputIndex # frames, index)
      else ([], inputIndex))"

definition rs_keep_last :: "resampler \<Rightarrow> resampler" where
  "rs_keep_last r =
     (if rs_bufferPos r > 0
      then r\<lparr>rs_lastSample := map (\<lambda>ch. rs_buffer r ! (nat (rs_bufferPos r - 1) * rs_channels r + ch)) [0..<rs_channels r]\<rparr>
      else r)"

definition rs_shift :: "rat \<Rightarrow> resampler \<Rightarrow> resampler" where
  "rs_shift inputIndex r =
     (let remaining = rs_bufferPos r - \<lfloor>inputIndex\<rfloor>
      in r\<lparr>rs_buffer := (if remaining > 0
             then put_at 0 (take (nat remaining * rs_channels r) (drop (nat \<lfloor>inputIndex\<rfloor> * rs_channels r) (rs_buffer r))) (rs_buffer r)
             else rs_buffer r),
           rs_bufferPos := remaining\<rparr>)"

text \<open>The frames written to the output; their number is the result.\<close>

definition rs_process :: "f32 list \<Rightarrow> nat \<Rightarrow> nat \<Rightarrow> resampler \<Rightarrow> (f32 list list \<times> resampler) option" where
  "rs_process input inputFrames outputFrames r =
     (case rs_fill input 0 inputFrames r of
        None \<Rightarrow> None
      | Some r1 \<Rightarrow>
          (let (frames, index) = rs_loop r1 outputFrames 0
           in Some (frames, rs_shift index (rs_keep_last r1))))"

definition rs_getOutputSize :: "nat \<Rightarrow> resampler \<Rightarrow> int" where
  "rs_getOutputSize inputFrames r = \<lfloor>d_mult (of_nat inputFrames) (rs_ratio r)\<rfloor>"

definition rs_reset :: "resampler \<Rightarrow> resampler" where
  "rs_reset r = r\<lparr>rs_bufferPos := 0, rs_lastSample := replicate (rs_channels r) (Fin 0)\<rparr>"

section \<open>The adapter\<close>

record rate_adapter =
  sra_inputRate :: rat
  sra_outputRate :: rat
  sra_channels :: nat
  sra_resampler :: "resampler option"

definition sra_new :: "f32 list \<Rightarrow> rat \<Rightarrow> rat \<Rightarrow> nat \<Rightarrow> rate_adapter" where
  "sra_new garbage inputRate outputRate channels =
     (let needsConversion = \<bar>d_sub inputRate outputRate\<bar> > f64_round (1 / 10)
      in \<lparr>sra_inputRate = inputRate, sra_outputRate = outputRate, sra_channels = channels,
          sra_resampler = (if needsConversion then Some (resampler_new garbage inputRate outputRate channels) else None)\<rparr>)"

fun chunks :: "nat \<Rightarrow> nat \<Rightarrow> 'a list \<Rightarrow> 'a list list" where
  "chunks 0 c xs = []"
| "chunks (Suc n) c xs = take c xs # chunks n c (drop c xs)"

definition sra_process :: "f32 list \<Rightarrow> nat \<Rightarrow> nat \<Rightarrow> rate_adapter \<Rightarrow> (f32 list list \<times> rate_adapter) option" where
  "sra_process input inputFrames outputFrames a =
     (case sra_resampler a of
        None \<Rightarrow> Some (chunks (min inputFrames outputFrames) (sra_channels a) input, a)
      | Some r \<Rightarrow> map_option (\<lambda>(frames, r'). (frames, a\<lparr>sra_resampler := Some r'\<rparr>)) (rs_process input inputFrames outputFrames r))"

definition sra_getRatio :: "rate_adapter \<Rightarrow> rat" where
  "sra_getRatio a = (if sra_resampler a = None then 1 else d_div (sra_outputRate a) (sra_inputRate a))"

definition sra_reset :: "rate_adapter \<Rightarrow> rate_adapter" where
  "sra_reset a = a\<lparr>sra_resampler := map_option rs_reset (sra_resampler a)\<rparr>"

definition sra_isPassthrough :: "rate_adapter \<Rightarrow> bool" where "sra_isPassthrough a \<longleftrightarrow> sra_resampler a = None"

section \<open>Rounding of half integers and of single precision values\<close>

lemma f64_half:
  assumes "\<bar>n\<bar> \<le> 2 ^ 52"
  shows "f64_round (of_int n / 2) = of_int n / 2"
proof (cases "n = 0")
  case True
  then show ?thesis by simp
next
  case False
  define x :: rat where "x = of_int n / 2"
  define e where "e = max (binade x - 52) (- 1074)"
  have nz: "x \<noteq> 0" using False by (simp add: x_def)
  have "\<bar>of_int n :: rat\<bar> \<le> 2 ^ 52" using assms
    by (metis of_int_abs of_int_le_iff of_int_numeral of_int_power)
  then have "\<bar>x\<bar> < pow2 (51 + 1)" by (simp add: x_def pow2_def)
  from binade_le [OF nz this] have e: "e \<le> -1" by (simp add: e_def)
  define d where "d = nat (- e - 1)"
  have "pow2 e * 2 ^ Suc d = pow2 (e + int (Suc d))" by (rule pow2_add_nat [symmetric])
  also have "e + int (Suc d) = 0" using e by (simp add: d_def)
  finally have p: "pow2 e * (2 * 2 ^ d) = 1" by simp
  then have "x / pow2 e = of_int (n * 2 ^ d)" by (simp add: x_def field_simps)
  moreover have "round_half_even (of_int m) = m" for m by (simp add: round_half_even_def)
  ultimately have "f64_round x = of_int (n * 2 ^ d) * pow2 e"
    using nz by (simp only: f64_round_def Let_def e_def if_False)
  also have "\<dots> = x" using p by (simp add: x_def field_simps)
  finally show ?thesis by (simp add: x_def)
qed

lemma f64_of_f32:
  assumes "round_rat x = x"
  shows "f64_round x = x"
proof (cases "x = 0")
  case True
  then show ?thesis by simp
next
  case False
  define g where "g = max (binade x - 23) (- 149)"
  define e where "e = max (binade x - 52) (- 1074)"
  have "e \<le> g" by (auto simp: g_def e_def le_max_iff_disj)
  then have p: "pow2 g = pow2 e * 2 ^ nat (g - e)" using pow2_add_nat [of e "nat (g - e)"] by simp
  obtain k where "x = of_int k * pow2 g" using assms False by (metis round_rat_def quantum_def g_def)
  then have x: "x = of_int (k * 2 ^ nat (g - e)) * pow2 e" by (simp add: p)
  then have "x / pow2 e = of_int (k * 2 ^ nat (g - e))" by simp
  moreover have "round_half_even (of_int m) = m" for m by (simp add: round_half_even_def)
  ultimately have "f64_round x = of_int (k * 2 ^ nat (g - e)) * pow2 e"
    using False by (simp only: f64_round_def Let_def e_def if_False)
  then show ?thesis using x by (simp only:)
qed

text \<open>Samples as decoders produce them: representable and far from overflow.\<close>

definition sample_ok :: "f32 \<Rightarrow> bool" where
  "sample_ok s \<longleftrightarrow> (case s of Fin x \<Rightarrow> round_rat x = x \<and> \<bar>x\<bar> \<le> 2 ^ 20 | _ \<Rightarrow> False)"

lemma difference_finite:
  assumes "\<bar>x\<bar> \<le> 2 ^ 20" "\<bar>y\<bar> \<le> 2 ^ 20"
  shows "\<exists>d. f32_round (x - y) = Fin d"
proof (cases "x = y")
  case True
  then show ?thesis by (simp add: f32_round_def round_rat_def f32_max_def)
next
  case False
  have b: "\<bar>x - y\<bar> \<le> 2 ^ 21" using assms by (simp add: abs_le_iff)
  then have lt: "\<bar>x - y\<bar> < pow2 (21 + 1)" by (simp add: pow2_def)
  have nz: "x - y \<noteq> 0" using False by simp
  have "round_rat (x - y) \<le> 2 ^ 21" "- (2 ^ 21) \<le> round_rat (x - y)"
    using round_rat_le [OF nz lt, of 21 1] round_rat_le [OF nz lt, of 21 "-1"] b by (simp_all add: pow2_def abs_le_iff)
  then have "\<bar>round_rat (x - y)\<bar> \<le> 2 ^ 30" by (simp add: abs_le_iff)
  from f32_round_Fin [OF this] show ?thesis by blast
qed

lemma sub_finite: "sample_ok a \<Longrightarrow> sample_ok b \<Longrightarrow> \<exists>d. f32_sub a b = Fin d"
  using difference_finite by (auto simp: sample_ok_def f32_sub_def split: f32.splits)

lemma interpolate_0:
  assumes "sample_ok a" "sample_ok b"
  shows "interpolate 0 a b = a"
proof -
  obtain x where x: "a = Fin x" "round_rat x = x" "\<bar>x\<bar> \<le> 2 ^ 20" using assms(1) by (auto simp: sample_ok_def split: f32.splits)
  obtain d where d: "f32_sub b a = Fin d" using sub_finite [OF assms(2,1)] by blast
  have "f32_round x = Fin x" using x f32_round_Fin [of x] by (simp add: abs_le_iff)
  then show ?thesis unfolding interpolate_def d unfolding x(1) by (simp add: d_mult_def x(2) f64_of_f32)
qed

section \<open>One block\<close>

text \<open>Between blocks whose length the positions meet exactly, the buffer is empty.\<close>

definition rs_ready :: "nat \<Rightarrow> rat \<Rightarrow> resampler \<Rightarrow> bool" where
  "rs_ready c ratio r \<longleftrightarrow> 0 < c \<and> rs_channels r = c \<and> rs_ratio r = ratio \<and> length (rs_buffer r) = rs_bufferSize * c \<and>
     rs_bufferPos r = 0 \<and> length (rs_lastSample r) = c \<and> (\<forall>s \<in> set (rs_lastSample r). sample_ok s)"

text \<open>Whole frames of such samples; a block of the buffer's size at most.\<close>

definition frames_ok :: "nat \<Rightarrow> nat \<Rightarrow> f32 list \<Rightarrow> bool" where
  "frames_ok c n input \<longleftrightarrow> length input = n * c \<and> list_all sample_ok input"

definition block_ok :: "nat \<Rightarrow> nat \<Rightarrow> f32 list \<Rightarrow> bool" where
  "block_ok c n input \<longleftrightarrow> n \<le> rs_bufferSize \<and> length input = n * c \<and> (\<forall>s \<in> set input. sample_ok s)"

definition frame_at :: "nat \<Rightarrow> f32 list \<Rightarrow> nat \<Rightarrow> f32 list" where
  "frame_at c input i = take c (drop (i * c) input)"

lemma index_bound: "i < n \<Longrightarrow> ch < c \<Longrightarrow> i * c + ch < n * (c :: nat)"
proof -
  assume "i < n" "ch < c"
  then have "i * c + ch < Suc i * c" by simp
  also have "\<dots> \<le> n * c" using \<open>i < n\<close> by (intro mult_le_mono1) simp
  finally show ?thesis .
qed

lemma frame_at_nth: "length input = n * c \<Longrightarrow> i < n \<Longrightarrow> frame_at c input i = map (\<lambda>ch. input ! (i * c + ch)) [0..<c]"
proof (rule nth_equalityI)
  assume a: "length input = n * c" "i < n"
  have "Suc i * c \<le> n * c" using a(2) by (intro mult_le_mono1) simp
  then have l: "c \<le> length input - i * c" using a by simp
  then show "length (frame_at c input i) = length (map (\<lambda>ch. input ! (i * c + ch)) [0..<c])" by (simp add: frame_at_def)
  fix k assume "k < length (frame_at c input i)"
  then show "frame_at c input i ! k = map (\<lambda>ch. input ! (i * c + ch)) [0..<c] ! k"
    using l by (simp add: frame_at_def)
qed

lemma chunks_frames: "chunks n c input = map (frame_at c input) [0..<n]"
proof (induction n arbitrary: input)
  case 0
  show ?case by simp
next
  case (Suc n)
  have "frame_at c (drop c input) i = frame_at c input (Suc i)" for i by (simp add: frame_at_def add.commute)
  then show ?case by (simp add: Suc.IH map_upt_Suc frame_at_def del: upt_Suc)
qed

lemma fill_from:
  assumes "rs_channels r = c" "rs_bufferPos r = int i" "i + n \<le> rs_bufferSize" "length (rs_buffer r) = rs_bufferSize * c"
    "(i + n) * c \<le> length input" "take (i * c) (rs_buffer r) = take (i * c) input"
  shows "\<exists>b. rs_fill input i n r = Some (r\<lparr>rs_buffer := b, rs_bufferPos := int (i + n)\<rparr>) \<and>
    length b = rs_bufferSize * c \<and> take ((i + n) * c) b = take ((i + n) * c) input"
  using assms
proof (induction n arbitrary: i r)
  case 0
  then show ?case by (intro exI [of _ "rs_buffer r"]) simp
next
  case (Suc n)
  define x where "x = take c (drop (i * c) input)"
  define b where "b = put_at (i * c) x (rs_buffer r)"
  have le: "i * c + c \<le> length input"
    using Suc.prems(5) by (simp add: add_mult_distrib)
  then have lx: "length x = c" by (simp add: x_def)
  have "Suc i * c \<le> rs_bufferSize * c" using Suc.prems(3) by (intro mult_le_mono1) simp
  then have room: "i * c + c \<le> rs_bufferSize * c" by simp
  have lb: "length b = rs_bufferSize * c" using room Suc.prems(4) lx by (simp add: b_def put_at_def)
  have "take (Suc i * c) b = take (i * c) input @ x"
    using room le Suc.prems(4,6) lx by (simp add: b_def put_at_def add.commute)
  also have "\<dots> = take (Suc i * c) input" by (simp add: x_def take_add [symmetric] add.commute)
  finally have tb: "take (Suc i * c) b = take (Suc i * c) input" .
  let ?r = "r\<lparr>rs_buffer := b, rs_bufferPos := int (Suc i)\<rparr>"
  have s: "rs_fill input i (Suc n) r = rs_fill input (Suc i) n ?r"
    using Suc.prems(1-3) by (simp add: b_def x_def add.commute)
  have h: "rs_channels ?r = c" "rs_bufferPos ?r = int (Suc i)" "Suc i + n \<le> rs_bufferSize" "length (rs_buffer ?r) = rs_bufferSize * c"
    "(Suc i + n) * c \<le> length input" "take (Suc i * c) (rs_buffer ?r) = take (Suc i * c) input"
    using Suc.prems(1,3,5) lb tb by simp_all
  from Suc.IH [OF h] show ?case unfolding s by simp
qed

lemma fill_block:
  assumes "rs_ready c ratio r" "block_ok c n input"
  shows "\<exists>b. rs_fill input 0 n r = Some (r\<lparr>rs_buffer := b, rs_bufferPos := int n\<rparr>) \<and> length b = rs_bufferSize * c \<and>
    (\<forall>k < n * c. b ! k = input ! k)"
proof -
  have "\<exists>b. rs_fill input 0 n r = Some (r\<lparr>rs_buffer := b, rs_bufferPos := int (0 + n)\<rparr>) \<and>
    length b = rs_bufferSize * c \<and> take ((0 + n) * c) b = take ((0 + n) * c) input"
    by (rule fill_from) (use assms in \<open>simp_all add: rs_ready_def block_ok_def\<close>)
  then obtain b where b: "rs_fill input 0 n r = Some (r\<lparr>rs_buffer := b, rs_bufferPos := int n\<rparr>)" "length b = rs_bufferSize * c"
    "take (n * c) b = take (n * c) input" by auto
  have "b ! k = input ! k" if "k < n * c" for k
    using b(3) that by (metis nth_take)
  with b(1,2) show ?thesis by blast
qed

text \<open>A loop whose positions are known.\<close>

lemma loop_positions:
  assumes "\<And>h. h < H \<Longrightarrow> pos h < of_int (rs_bufferPos r)" "of_int (rs_bufferPos r) \<le> pos H"
    "\<And>h. h < H \<Longrightarrow> d_add (pos h) (d_div 1 (rs_ratio r)) = pos (Suc h)" "j \<le> H" "H - j \<le> m"
  shows "rs_loop r m (pos j) = (map (\<lambda>h. rs_frame r (pos h)) [j..<H], pos H)"
  using assms(4,5)
proof (induction m arbitrary: j)
  case 0
  then have "j = H" by simp
  then show ?case by simp
next
  case (Suc m)
  show ?case
  proof (cases "j = H")
    case True
    then show ?thesis using assms(2) by simp
  next
    case False
    then have j: "j < H" using Suc.prems(1) by simp
    then have "rs_loop r m (pos (Suc j)) = (map (\<lambda>h. rs_frame r (pos h)) [Suc j..<H], pos H)"
      using Suc.IH [of "Suc j"] Suc.prems by simp
    then show ?thesis using assms(1,3) [OF j] j by (simp add: upt_conv_Cons)
  qed
qed

definition next_frame :: "nat \<Rightarrow> nat \<Rightarrow> f32 list \<Rightarrow> f32 list \<Rightarrow> nat \<Rightarrow> f32 list" where
  "next_frame c n input prev i = (if i + 1 < n then frame_at c input (i + 1) else prev)"

definition halfway :: "f32 list \<Rightarrow> f32 list \<Rightarrow> f32 list" where
  "halfway a b = map2 (interpolate (1 / 2)) a b"

lemma frame_at_length: "length input = n * c \<Longrightarrow> i < n \<Longrightarrow> length (frame_at c input i) = c"
  using frame_at_nth [of input n c i] by simp

lemma frame_at_self: "length input = n * c \<Longrightarrow> i < n \<Longrightarrow> map (\<lambda>ch. frame_at c input i ! ch) [0..<c] = frame_at c input i"
  using frame_at_length [of input n c i] map_nth [of "frame_at c input i"] by simp

text \<open>\<open>filled\<close>: the block is in the buffer.\<close>

definition filled :: "nat \<Rightarrow> rat \<Rightarrow> nat \<Rightarrow> f32 list \<Rightarrow> resampler \<Rightarrow> f32 list \<Rightarrow> resampler \<Rightarrow> bool" where
  "filled c ratio n input r b r1 \<longleftrightarrow> rs_ready c ratio r \<and> block_ok c n input \<and>
     r1 = r\<lparr>rs_buffer := b, rs_bufferPos := int n\<rparr> \<and> length b = rs_bufferSize * c \<and> (\<forall>k < n * c. b ! k = input ! k)"

lemma filled_fields:
  assumes "filled c ratio n input r b r1"
  shows "rs_channels r1 = c" "rs_buffer r1 = b" "rs_bufferPos r1 = int n" "rs_lastSample r1 = rs_lastSample r" "rs_ratio r1 = ratio"
    "length (rs_lastSample r) = c" "length input = n * c" "length b = rs_bufferSize * c"
  using assms by (simp_all add: filled_def rs_ready_def block_ok_def)

lemma buffer_frame: "filled c ratio n input r b r1 \<Longrightarrow> i < n \<Longrightarrow> ch < c \<Longrightarrow> b ! (i * c + ch) = frame_at c input i ! ch"
  using index_bound [of i n ch c] by (simp add: filled_def block_ok_def frame_at_nth)

lemma frame_sample_ok: "filled c ratio n input r b r1 \<Longrightarrow> i < n \<Longrightarrow> ch < c \<Longrightarrow> sample_ok (frame_at c input i ! ch)"
  using index_bound [of i n ch c] by (simp add: filled_def block_ok_def frame_at_nth)

lemma next_sample_ok:
  "filled c ratio n input r b r1 \<Longrightarrow> i < n \<Longrightarrow> ch < c \<Longrightarrow>
   sample_ok (next_frame c n input (rs_lastSample r) i ! ch)"
  using frame_sample_ok [of c ratio n input r b r1 "i + 1" ch] by (simp add: next_frame_def filled_def rs_ready_def)

lemma second_sample: "filled c ratio n input r b r1 \<Longrightarrow> i < n \<Longrightarrow> ch < c \<Longrightarrow>
  (if int i + 1 < int n then b ! ((i + 1) * c + ch) else rs_lastSample r ! ch) = next_frame c n input (rs_lastSample r) i ! ch"
  using buffer_frame [of c ratio n input r b r1 "i + 1" ch] by (simp add: next_frame_def)

lemma frame_whole:
  assumes f: "filled c ratio n input r b r1" and i: "i < n"
  shows "rs_frame r1 (of_nat i) = frame_at c input i"
proof -
  have fl: "nat \<lfloor>of_nat i :: rat\<rfloor> = i" by simp
  have h: "d_sub (of_nat i) (of_nat i) = 0" by (simp add: d_sub_def)
  note c = filled_fields [OF f]
  have "rs_frame r1 (of_nat i) = map (\<lambda>ch. interpolate 0 (frame_at c input i ! ch) (next_frame c n input (rs_lastSample r) i ! ch)) [0..<c]"
    unfolding rs_frame_def c(1-5) Let_def fl h
    by (rule map_cong [OF refl]) (simp only: set_upt atLeastLessThan_iff buffer_frame [OF f i] second_sample [OF f i])
  also have "\<dots> = map (\<lambda>ch. frame_at c input i ! ch) [0..<c]"
    by (rule map_cong) (use frame_sample_ok [OF f i] next_sample_ok [OF f i] in \<open>simp_all add: interpolate_0\<close>)
  also have "\<dots> = frame_at c input i"
    by (rule frame_at_self [OF c(7) i])
  finally show ?thesis .
qed

lemma frame_half:
  assumes f: "filled c ratio n input r b r1" and i: "i < n"
  shows "rs_frame r1 (of_nat i + 1 / 2) = halfway (frame_at c input i) (next_frame c n input (rs_lastSample r) i)"
proof -
  note c = filled_fields [OF f]
  have fl: "nat \<lfloor>of_nat i + 1 / 2 :: rat\<rfloor> = i" by linarith
  have h: "d_sub (of_nat i + 1 / 2) (of_nat i) = 1 / 2" using f64_half [of 1] by (simp add: d_sub_def)
  have len: "length (frame_at c input i) = c" "length (next_frame c n input (rs_lastSample r) i) = c"
    using i c(6) frame_at_length [OF c(7), of i] frame_at_length [OF c(7), of "i + 1"] by (simp_all add: next_frame_def)
  have "rs_frame r1 (of_nat i + 1 / 2) =
      map (\<lambda>ch. interpolate (1 / 2) (frame_at c input i ! ch) (next_frame c n input (rs_lastSample r) i ! ch)) [0..<c]"
    unfolding rs_frame_def c(1-5) Let_def fl h
    by (rule map_cong [OF refl]) (simp only: set_upt atLeastLessThan_iff buffer_frame [OF f i] second_sample [OF f i])
  also have "\<dots> = halfway (frame_at c input i) (next_frame c n input (rs_lastSample r) i)"
    using len by (intro nth_equalityI) (simp_all add: halfway_def)
  finally show ?thesis .
qed

lemma after_block:
  assumes f: "filled c ratio n input r b r1" and i: "int n \<le> \<lfloor>index\<rfloor>"
  defines "r' \<equiv> rs_shift index (rs_keep_last r1)"
  shows "rs_bufferPos r' = int n - \<lfloor>index\<rfloor>" "rs_channels r' = c" "rs_ratio r' = ratio" "length (rs_buffer r') = rs_bufferSize * c"
    "rs_lastSample r' = (if n = 0 then rs_lastSample r else frame_at c input (n - 1))"
proof -
  note c = filled_fields [OF f]
  have k: "rs_lastSample (rs_keep_last r1) = (if n = 0 then rs_lastSample r else frame_at c input (n - 1))"
  proof (cases "n = 0")
    case False
    then have "map (\<lambda>ch. b ! ((n - 1) * c + ch)) [0..<c] = map (\<lambda>ch. frame_at c input (n - 1) ! ch) [0..<c]"
      using buffer_frame [OF f, of "n - 1"] by simp
    also have "\<dots> = frame_at c input (n - 1)" using False by (intro frame_at_self [OF c(7)]) simp
    finally show ?thesis using False by (simp add: rs_keep_last_def c nat_diff_distrib)
  qed (simp add: rs_keep_last_def c)
  have g: "rs_bufferPos (rs_keep_last r1) = int n" "rs_channels (rs_keep_last r1) = c" "rs_ratio (rs_keep_last r1) = ratio"
    "rs_buffer (rs_keep_last r1) = b" by (simp_all add: rs_keep_last_def c)
  show "rs_bufferPos r' = int n - \<lfloor>index\<rfloor>" "rs_channels r' = c" "rs_ratio r' = ratio" "length (rs_buffer r') = rs_bufferSize * c"
    "rs_lastSample r' = (if n = 0 then rs_lastSample r else frame_at c input (n - 1))"
    using i c(8) by (simp_all add: r'_def rs_shift_def Let_def g k)
qed

lemma process_block:
  assumes "rs_ready c ratio r" "block_ok c n input" "\<And>h. h < H \<Longrightarrow> pos h < of_nat n" "int n \<le> \<lfloor>pos H\<rfloor>" "pos 0 = 0"
    "\<And>h. h < H \<Longrightarrow> d_add (pos h) (d_div 1 ratio) = pos (Suc h)" "H \<le> m"
  shows "\<exists>r1 r'. rs_process input n m r = Some (map (\<lambda>h. rs_frame r1 (pos h)) [0..<H], r') \<and>
    (\<forall>i < n. rs_frame r1 (of_nat i) = frame_at c input i \<and>
       rs_frame r1 (of_nat i + 1 / 2) = halfway (frame_at c input i) (next_frame c n input (rs_lastSample r) i)) \<and>
    rs_bufferPos r' = int n - \<lfloor>pos H\<rfloor> \<and> rs_channels r' = c \<and> rs_ratio r' = ratio \<and> length (rs_buffer r') = rs_bufferSize * c \<and>
    rs_lastSample r' = (if n = 0 then rs_lastSample r else frame_at c input (n - 1))"
proof -
  obtain b where b: "rs_fill input 0 n r = Some (r\<lparr>rs_buffer := b, rs_bufferPos := int n\<rparr>)" "length b = rs_bufferSize * c"
    "\<And>k. k < n * c \<Longrightarrow> b ! k = input ! k" using fill_block [OF assms(1,2)] by blast
  define r1 where "r1 = r\<lparr>rs_buffer := b, rs_bufferPos := int n\<rparr>"
  have p: "of_int (rs_bufferPos r1) = (of_nat n :: rat)" "rs_ratio r1 = ratio" using assms(1) by (simp_all add: r1_def rs_ready_def)
  have "(of_nat n :: rat) \<le> pos H" using assms(4) by (simp add: le_floor_iff)
  then have l: "rs_loop r1 m (pos 0) = (map (\<lambda>h. rs_frame r1 (pos h)) [0..<H], pos H)"
    using assms(3,6,7) by (intro loop_positions) (simp_all add: p)
  have "rs_process input n m r = Some (map (\<lambda>h. rs_frame r1 (pos h)) [0..<H], rs_shift (pos H) (rs_keep_last r1))"
    using l by (simp add: rs_process_def b(1) r1_def [symmetric] assms(5))
  moreover have f: "filled c ratio n input r b r1" using assms(1,2) b by (simp add: filled_def r1_def)
  ultimately show ?thesis
    using frame_whole [OF f] frame_half [OF f] after_block [OF f assms(4)] by blast
qed

section \<open>Sequences of blocks\<close>

type_synonym rs_block = "f32 list \<times> nat \<times> nat"

fun rs_run :: "rs_block list \<Rightarrow> resampler \<Rightarrow> f32 list list list option" where
  "rs_run [] r = Some []"
| "rs_run ((input, n, m) # bs) r =
     (case rs_process input n m r of None \<Rightarrow> None | Some (frames, r') \<Rightarrow> map_option ((#) frames) (rs_run bs r'))"

fun sra_run :: "rs_block list \<Rightarrow> rate_adapter \<Rightarrow> f32 list list list option" where
  "sra_run [] a = Some []"
| "sra_run ((input, n, m) # bs) a =
     (case sra_process input n m a of None \<Rightarrow> None | Some (frames, a') \<Rightarrow> map_option ((#) frames) (sra_run bs a'))"

lemma ready_after:
  assumes "rs_ready c ratio r" "block_ok c n input" "rs_bufferPos r' = 0" "rs_channels r' = c" "rs_ratio r' = ratio"
    "length (rs_buffer r') = rs_bufferSize * c"
    "rs_lastSample r' = (if n = 0 then rs_lastSample r else frame_at c input (n - 1))"
  shows "rs_ready c ratio r'"
proof (cases "n = 0")
  case True
  then show ?thesis using assms by (simp add: rs_ready_def)
next
  case False
  have li: "length input = n * c" using assms(2) by (simp add: block_ok_def)
  have "length (frame_at c input (n - 1)) = c" by (rule frame_at_length [OF li]) (use False in simp)
  moreover have "set (frame_at c input (n - 1)) \<subseteq> set input"
    unfolding frame_at_def by (meson order_trans set_drop_subset set_take_subset)
  ultimately show ?thesis using assms False by (auto simp: rs_ready_def block_ok_def)
qed

lemma new_ready:
  "0 < c \<Longrightarrow> length garbage = rs_bufferSize * c \<Longrightarrow> rs_ready c (d_div outputRate inputRate) (resampler_new garbage inputRate outputRate c)"
  by (simp add: rs_ready_def resampler_new_def sample_ok_def round_rat_def)

lemma d_two [simp]: "d_div 1 2 = 1 / 2" "d_div 1 (1 / 2) = 2" "d_div 1 1 = 1"
  using f64_half [of 1] f64_exact [of 2] by (simp_all add: d_div_def)

lemma unit_block:
  assumes "rs_ready c 1 r" "block_ok c n input" "n \<le> m"
  shows "\<exists>r'. rs_process input n m r = Some (map (frame_at c input) [0..<n], r') \<and> rs_ready c 1 r'"
proof -
  have n: "n \<le> 4096" using assms(2) by (simp add: block_ok_def rs_bufferSize_def)
  have s: "d_add (of_nat h) (d_div 1 1) = of_nat (Suc h)" if "h < n" for h
    using that n f64_of_nat [of "Suc h"] by (simp add: d_add_def add.commute)
  obtain r1 r' where p: "rs_process input n m r = Some (map (\<lambda>h. rs_frame r1 (of_nat h)) [0..<n], r')"
    "\<forall>i < n. rs_frame r1 (of_nat i) = frame_at c input i" "rs_bufferPos r' = int n - \<lfloor>of_nat n :: rat\<rfloor>" "rs_channels r' = c"
    "rs_ratio r' = 1" "length (rs_buffer r') = rs_bufferSize * c"
    "rs_lastSample r' = (if n = 0 then rs_lastSample r else frame_at c input (n - 1))"
    using process_block [OF assms(1,2), of n of_nat m] s assms(3) by auto
  have "map (\<lambda>h. rs_frame r1 (of_nat h)) [0..<n] = map (frame_at c input) [0..<n]"
    using p(2) by simp
  moreover have "rs_ready c 1 r'" by (rule ready_after [OF assms(1,2) _ p(4-7)]) (simp add: p(3))
  ultimately show ?thesis using p(1) by simp
qed

lemma double_frames:
  "(\<And>i. i < n \<Longrightarrow> f (of_nat i) = a i) \<Longrightarrow> (\<And>i. i < n \<Longrightarrow> f (of_nat i + 1 / 2) = b i) \<Longrightarrow>
   map (\<lambda>h. f (of_nat h / 2 :: rat)) [0..<2 * n] = concat (map (\<lambda>i. [a i, b i]) [0..<n])"
proof (induction n)
  case 0
  show ?case by simp
next
  case (Suc n)
  have "[0..<2 * Suc n] = [0..<2 * n] @ [2 * n, Suc (2 * n)]" by (simp add: upt_conv_Cons numeral_2_eq_2)
  moreover have e: "(of_nat (2 * n) / 2 :: rat) = of_nat n" "(of_nat (Suc (2 * n)) / 2 :: rat) = of_nat n + 1 / 2" by (simp_all add: add_divide_distrib)
  moreover have "f (of_nat (2 * n) / 2) = a n" "f (of_nat (Suc (2 * n)) / 2) = b n" unfolding e using Suc.prems by simp_all
  moreover have "map (\<lambda>h. f (of_nat h / 2 :: rat)) [0..<2 * n] = concat (map (\<lambda>i. [a i, b i]) [0..<n])"
    by (rule Suc.IH) (use Suc.prems in simp_all)
  ultimately show ?case by (simp del: of_nat_Suc of_nat_mult)
qed

text \<open>Of a longer block, only what fills the buffer is looked at.\<close>

lemma fill_bounded:
  assumes "0 \<le> rs_bufferPos r"
  shows "rs_fill input i n r = rs_fill input i (min n (rs_bufferSize - nat (rs_bufferPos r))) r"
  using assms
proof (induction n arbitrary: i r)
  case (Suc n)
  show ?case
  proof (cases "rs_bufferPos r \<ge> int rs_bufferSize")
    case False
    then have "rs_bufferSize - nat (rs_bufferPos r) = Suc (rs_bufferSize - nat (rs_bufferPos r + 1))"
      using Suc.prems by (simp add: nat_add_distrib)
    with False Suc show ?thesis by simp
  qed simp
qed simp

lemma fill_take:
  assumes "i + n \<le> N" "rs_channels r = c"
  shows "rs_fill (take (N * c) input) i n r = rs_fill input i n r"
  using assms
proof (induction n arbitrary: i r)
  case (Suc n)
  have "Suc i * c \<le> N * c" using Suc.prems(1) by (intro mult_le_mono1) simp
  then have "take c (drop (i * c) (take (N * c) input)) = take c (drop (i * c) input)" by (simp add: drop_take)
  with Suc show ?case by simp
qed simp

lemma process_bounded:
  assumes "rs_bufferPos r = 0" "rs_channels r = c" "k = min n rs_bufferSize"
  shows "rs_process input n m r = rs_process (take (k * c) input) k m r"
proof -
  have "rs_fill input 0 n r = rs_fill (take (k * c) input) 0 k r"
    using fill_bounded [of r input 0 n] fill_take [of 0 k k r c input] assms by simp
  then show ?thesis by (simp add: rs_process_def)
qed

lemma frames_block:
  assumes "frames_ok c n input" "k \<le> n" "k \<le> rs_bufferSize"
  shows "block_ok c k (take (k * c) input)" "map (frame_at c (take (k * c) input)) [0..<k] = map (frame_at c input) [0..<k]"
proof -
  have "k * c \<le> n * c" using assms(2) by (rule mult_le_mono1)
  then show "block_ok c k (take (k * c) input)"
    using assms(1,3) by (auto simp: frames_ok_def block_ok_def list_all_iff dest: in_set_takeD)
  have "frame_at c (take (k * c) input) i = frame_at c input i" if "i < k" for i
  proof -
    have "Suc i * c \<le> k * c" using that by (intro mult_le_mono1) simp
    then show ?thesis by (simp add: frame_at_def drop_take)
  qed
  then show "map (frame_at c (take (k * c) input)) [0..<k] = map (frame_at c input) [0..<k]" by simp
qed

lemma rs_unit_run:
  "rs_ready c 1 r \<Longrightarrow> \<forall>(input, n, m) \<in> set bs. frames_ok c n input \<and> min n rs_bufferSize \<le> m \<Longrightarrow>
   rs_run bs r = Some (map (\<lambda>(input, n, m). map (frame_at c input) [0..<min n rs_bufferSize]) bs)"
proof (induction bs arbitrary: r)
  case Nil
  show ?case by simp
next
  case (Cons blk bs)
  obtain input n m where blk: "blk = (input, n, m)" by (metis prod_cases3)
  define k where "k = min n rs_bufferSize"
  have k: "frames_ok c n input" "k \<le> n" "k \<le> rs_bufferSize" "k \<le> m" using Cons.prems(2) by (simp_all add: blk k_def)
  note f = frames_block [OF k(1-3)]
  have "rs_bufferPos r = 0" "rs_channels r = c" using Cons.prems(1) by (simp_all add: rs_ready_def)
  note p = process_bounded [OF this k_def, of input m]
  obtain r' where r': "rs_process input n m r = Some (map (frame_at c input) [0..<k], r')" "rs_ready c 1 r'"
    using unit_block [OF Cons.prems(1) f(1) k(4)] unfolding f(2) p by blast
  then show ?case using Cons.IH [OF r'(2)] Cons.prems(2) by (simp add: blk k_def)
qed

lemma sra_through_run:
  "sra_resampler a = None \<Longrightarrow> sra_channels a = c \<Longrightarrow>
   sra_run bs a = Some (map (\<lambda>(input, n, m). map (frame_at c input) [0..<min n m]) bs)"
  by (induction bs) (auto simp: sra_process_def chunks_frames)

lemma double_block:
  assumes "rs_ready c 2 r" "block_ok c n input" "2 * n \<le> m"
  shows "\<exists>r'. rs_process input n m r =
      Some (concat (map (\<lambda>i. [frame_at c input i, halfway (frame_at c input i) (next_frame c n input (rs_lastSample r) i)]) [0..<n]), r') \<and>
    rs_ready c 2 r' \<and> rs_lastSample r' = (if n = 0 then rs_lastSample r else frame_at c input (n - 1))"
proof -
  have n: "n \<le> 4096" using assms(2) by (simp add: block_ok_def rs_bufferSize_def)
  have s: "d_add (of_nat h / 2) (d_div 1 2) = of_nat (Suc h) / 2" if "h < 2 * n" for h
  proof -
    have "f64_round (of_int (int (Suc h)) / 2) = of_int (int (Suc h)) / 2" by (rule f64_half) (use that n in simp)
    then show ?thesis by (simp add: d_add_def add_divide_distrib add.commute)
  qed
  have fl: "\<lfloor>of_nat (2 * n) / 2 :: rat\<rfloor> = int n" by simp
  have lt: "of_nat h / 2 < (of_nat n :: rat)" if "h < 2 * n" for h
  proof -
    have "(of_nat h :: rat) < of_nat (2 * n)" using that by (simp only: of_nat_less_iff)
    then show ?thesis by simp
  qed
  obtain r1 r' where p: "rs_process input n m r = Some (map (\<lambda>h. rs_frame r1 (of_nat h / 2)) [0..<2 * n], r')"
    "\<forall>i < n. rs_frame r1 (of_nat i) = frame_at c input i \<and>
       rs_frame r1 (of_nat i + 1 / 2) = halfway (frame_at c input i) (next_frame c n input (rs_lastSample r) i)"
    "rs_bufferPos r' = int n - \<lfloor>of_nat (2 * n) / 2 :: rat\<rfloor>" "rs_channels r' = c" "rs_ratio r' = 2" "length (rs_buffer r') = rs_bufferSize * c"
    "rs_lastSample r' = (if n = 0 then rs_lastSample r else frame_at c input (n - 1))"
    using process_block [OF assms(1,2), of "2 * n" "\<lambda>h. of_nat h / 2" m] s lt fl assms(3) by auto
  have "map (\<lambda>h. rs_frame r1 (of_nat h / 2)) [0..<2 * n] =
      concat (map (\<lambda>i. [frame_at c input i, halfway (frame_at c input i) (next_frame c n input (rs_lastSample r) i)]) [0..<n])"
    by (rule double_frames) (use p(2) in simp_all)
  moreover have "rs_ready c 2 r'" by (rule ready_after [OF assms(1,2) _ p(4-7)]) (simp add: p(3) fl)
  ultimately show ?thesis using p(1,7) by simp
qed

lemma half_block:
  assumes "rs_ready c (1 / 2) r" "block_ok c n input" "odd n" "n \<le> 2 * m"
  shows "\<exists>frames r'. rs_process input n m r = Some (frames, r') \<and> length frames = (n + 1) div 2 \<and> rs_bufferPos r' = - 1"
proof -
  obtain k where k: "n = 2 * k + 1" using assms(3) by (elim oddE)
  have n: "n \<le> 4096" using assms(2) by (simp add: block_ok_def rs_bufferSize_def)
  have s: "d_add (of_nat (2 * h)) (d_div 1 (1 / 2)) = of_nat (2 * Suc h)" if "h < Suc k" for h
    using that n k f64_of_nat [of "2 * Suc h"] by (simp add: d_add_def add.commute)
  have lt: "of_nat (2 * h) < (of_nat n :: rat)" if "h < Suc k" for h
    using that k by (simp only: of_nat_less_iff)
  have fl: "\<lfloor>of_nat (2 * Suc k) :: rat\<rfloor> = int n + 1" unfolding floor_of_nat using k by simp
  have "Suc k \<le> m" using assms(4) k by simp
  then obtain r1 r' where "rs_process input n m r = Some (map (\<lambda>h. rs_frame r1 (of_nat (2 * h))) [0..<Suc k], r')"
    "rs_bufferPos r' = int n - \<lfloor>of_nat (2 * Suc k) :: rat\<rfloor>"
    using process_block [OF assms(1,2), of "Suc k" "\<lambda>h. of_nat (2 * h)" m] s lt fl by (auto simp del: upt_Suc of_nat_Suc of_nat_mult)
  then show ?thesis using fl k by simp
qed

lemma process_undefined: "rs_process input n m r = None \<longleftrightarrow> rs_bufferPos r < 0 \<and> 0 < n"
proof -
  have "0 \<le> rs_bufferPos r \<Longrightarrow> rs_fill input i n r \<noteq> None" for i
    by (induction n arbitrary: i r) simp_all
  moreover have "rs_bufferPos r < 0 \<Longrightarrow> rs_fill input 0 n r = (if n = 0 then Some r else None)"
    by (cases n) (simp_all add: rs_bufferSize_def)
  ultimately have "rs_fill input 0 n r = None \<longleftrightarrow> rs_bufferPos r < 0 \<and> 0 < n" by (metis linorder_not_le neq0_conv option.distinct(1))
  moreover have "rs_process input n m r = None \<longleftrightarrow> rs_fill input 0 n r = None"
    by (simp add: rs_process_def case_prod_unfold Let_def split: option.split)
  ultimately show ?thesis by simp
qed

section \<open>Properties\<close>

text \<open>
  C28. At equal rates the resampler is the adapter's shortcut, up to its buffer. Blocks of whole frames are sent through it, of any
  number and length, their samples finite and at most \<open>2\<^sup>2\<^sup>0\<close>, with room in the output for what the resampler's buffer of 4096 frames
  takes of each. Interpolation returns the first 4096 frames of every block unchanged and drops the rest; the adapter, which needs no
  conversion, copies as many frames as there is room for. So the two agree when no block is longer than 4096 frames. Samples are
  compared as numbers: \<open>+0\<close> and \<open>-0\<close> are one value.
\<close>

theorem resampler_passthrough:
  assumes "0 < c" "0 < rate" "length garbage = rs_bufferSize * c"
    "\<forall>(input, n, m) \<in> set bs. frames_ok c n input \<and> min n rs_bufferSize \<le> m"
  shows "rs_run bs (resampler_new garbage rate rate c) =
      Some (map (\<lambda>(input, n, m). map (frame_at c input) [0..<min n rs_bufferSize]) bs) \<and>
    sra_run bs (sra_new garbage rate rate c) = Some (map (\<lambda>(input, n, m). map (frame_at c input) [0..<min n m]) bs) \<and>
    (list_all (\<lambda>(input, n, m). n \<le> rs_bufferSize) bs \<longrightarrow>
       rs_run bs (resampler_new garbage rate rate c) = sra_run bs (sra_new garbage rate rate c))"
proof -
  have "rs_ready c 1 (resampler_new garbage rate rate c)"
    using new_ready [OF assms(1,3), of rate rate] assms(2) by (simp add: d_div_def)
  then have rs: "rs_run bs (resampler_new garbage rate rate c) =
      Some (map (\<lambda>(input, n, m). map (frame_at c input) [0..<min n rs_bufferSize]) bs)"
    using assms(4) by (rule rs_unit_run)
  have "sra_resampler (sra_new garbage rate rate c) = None" "sra_channels (sra_new garbage rate rate c) = c"
    using f64_nonneg [of "1 / 10"] by (simp_all add: sra_new_def Let_def d_sub_def)
  then have sra: "sra_run bs (sra_new garbage rate rate c) = Some (map (\<lambda>(input, n, m). map (frame_at c input) [0..<min n m]) bs)"
    by (rule sra_through_run)
  have "map (\<lambda>(input, n, m). map (frame_at c input) [0..<min n rs_bufferSize]) bs = map (\<lambda>(input, n, m). map (frame_at c input) [0..<min n m]) bs"
    if "list_all (\<lambda>(input, n, m). n \<le> rs_bufferSize) bs"
  proof (rule map_cong [OF refl])
    fix blk assume blk: "blk \<in> set bs"
    obtain input n m where e: "blk = (input, n, m)" by (metis prod_cases3)
    have "n \<le> rs_bufferSize" "min n rs_bufferSize \<le> m" using that assms(4) blk by (auto simp: list_all_iff e)
    then show "(\<lambda>(input, n, m). map (frame_at c input) [0..<min n rs_bufferSize]) blk =
        (\<lambda>(input, n, m). map (frame_at c input) [0..<min n m]) blk" by (simp add: e min_def)
  qed
  with rs sra show ?thesis by auto
qed

definition silence :: "f32 list" where "silence = replicate 4096 (Fin 0)"

lemma sample_0 [simp]: "sample_ok (Fin 0)" by (simp add: sample_ok_def round_rat_def)

lemma sample_half [simp]: "sample_ok (Fin (1 / 2))"
  using round_rat_exact [of 1 "-1"] by (simp add: sample_ok_def pow2_def)

lemma silence_length [simp]: "length silence = rs_bufferSize * 1" by (simp add: silence_def rs_bufferSize_def)

lemma resampler_passthrough_witness:
  "rs_run [([Fin (1 / 2), Fin 0], 2, 5)] (resampler_new silence 48000 48000 1) = Some [[[Fin (1 / 2)], [Fin 0]]]"
  using resampler_passthrough [of 1 48000 silence "[([Fin (1 / 2), Fin 0], 2, 5)]"]
  by (simp add: frames_ok_def rs_bufferSize_def frame_at_def upt_conv_Cons)

text \<open>
  C29. Doubling the rate. Each frame of a block comes out unchanged and is followed by the frame halfway to the next one; but the last
  frame of a block is interpolated towards the last frame of the block \<^emph>\<open>before\<close>, not towards what follows.
\<close>

theorem upsampling_by_two:
  assumes "0 < c" "0 < rate" "length garbage = rs_bufferSize * c"
    "block_ok c n1 input1" "0 < n1" "2 * n1 \<le> m1" "block_ok c n2 input2" "2 * n2 \<le> m2"
  shows "rs_run [(input1, n1, m1), (input2, n2, m2)] (resampler_new garbage rate (2 * rate) c) = Some
    [concat (map (\<lambda>i. [frame_at c input1 i,
       halfway (frame_at c input1 i) (if i + 1 < n1 then frame_at c input1 (i + 1) else replicate c (Fin 0))]) [0..<n1]),
     concat (map (\<lambda>i. [frame_at c input2 i,
       halfway (frame_at c input2 i) (if i + 1 < n2 then frame_at c input2 (i + 1) else frame_at c input1 (n1 - 1))]) [0..<n2])]"
proof -
  let ?r = "resampler_new garbage rate (2 * rate) c"
  have r: "rs_ready c 2 ?r" using new_ready [OF assms(1,3), of "2 * rate" rate] assms(2) f64_exact [of 2] by (simp add: d_div_def)
  have l: "rs_lastSample ?r = replicate c (Fin 0)" by (simp add: resampler_new_def)
  obtain r1 where r1: "rs_process input1 n1 m1 ?r = Some (concat (map (\<lambda>i. [frame_at c input1 i,
       halfway (frame_at c input1 i) (next_frame c n1 input1 (replicate c (Fin 0)) i)]) [0..<n1]), r1)" "rs_ready c 2 r1"
    "rs_lastSample r1 = frame_at c input1 (n1 - 1)"
    using double_block [OF r assms(4,6)] assms(5) unfolding l by auto
  obtain r2 where r2: "rs_process input2 n2 m2 r1 = Some (concat (map (\<lambda>i. [frame_at c input2 i,
       halfway (frame_at c input2 i) (next_frame c n2 input2 (frame_at c input1 (n1 - 1)) i)]) [0..<n2]), r2)"
    using double_block [OF r1(2) assms(7,8)] unfolding r1(3) by auto
  show ?thesis using r1(1) r2 unfolding next_frame_def by (simp only: rs_run.simps option.case prod.case option.map)
qed

lemma upsampling_by_two_witness:
  "rs_run [([Fin (1 / 2)], 1, 2), ([Fin 0], 1, 2)] (resampler_new silence 48000 96000 1) =
    Some [[[Fin (1 / 2)], halfway [Fin (1 / 2)] [Fin 0]], [[Fin 0], halfway [Fin 0] [Fin (1 / 2)]]]"
  using upsampling_by_two [of 1 48000 silence 1 "[Fin (1 / 2)]" 2 1 "[Fin 0]" 2]
  by (simp add: block_ok_def rs_bufferSize_def frame_at_def)

text \<open>
  Halving the rate goes wrong on an odd block. The position ends one frame behind the block, the fill level becomes -1, and
  the next block that is sent through the adapter is written before the start of the buffer.
\<close>

theorem downsampling_underflow:
  assumes "0 < c" "length garbage = rs_bufferSize * c" "block_ok c n input" "odd n" "n \<le> 2 * m" "0 < n'"
  shows "(\<exists>frames. sra_run [(input, n, m)] (sra_new garbage 96000 48000 c) = Some [frames] \<and> length frames = (n + 1) div 2) \<and>
    sra_run [(input, n, m), (input', n', m')] (sra_new garbage 96000 48000 c) = None"
proof -
  let ?r = "resampler_new garbage 96000 48000 c"
  have "d_div 48000 96000 = 1 / 2" using f64_half [of 1] by (simp add: d_div_def)
  with new_ready [OF assms(1,2), of 48000 96000] have r: "rs_ready c (1 / 2) ?r" by (simp only:)
  obtain frames r' where p: "rs_process input n m ?r = Some (frames, r')" "length frames = (n + 1) div 2" "rs_bufferPos r' = - 1"
    using half_block [OF r assms(3-5)] by blast
  have "f64_round (1 / 10) \<le> 1" using f64_between(1) [of 1 "1 / 10"] by simp
  moreover have "d_sub 96000 48000 = 48000" using f64_exact [of 48000] by (simp add: d_sub_def)
  ultimately have a: "sra_resampler (sra_new garbage 96000 48000 c) = Some ?r" by (simp add: sra_new_def Let_def)
  have "rs_process input' n' m' r' = None" using process_undefined p(3) assms(6) by simp
  then show ?thesis using p(1,2) by (simp add: sra_process_def a)
qed

lemma downsampling_underflow_witness:
  "sra_run [([Fin (1 / 2)], 1, 4), ([Fin 0], 1, 4)] (sra_new silence 96000 48000 1) = None"
  using downsampling_underflow [of 1 silence 1 "[Fin (1 / 2)]" 4 1 "[Fin 0]" 4]
  by (simp add: block_ok_def rs_bufferSize_def)

end
