(* ===== verification/Clock_Control.thy ===== *)
theory Clock_Control
  imports Double_Precision
begin

text \<open>
  The controllers of \<open>NetworkEngine/Resampling\<close>: \<open>PIController\<close>, \<open>SmoothedPIController\<close> and \<open>ClockAdjustmentController\<close>, which
  turns the fill level of the jitter buffer into a rate ratio. Doubles are rationals, rounded after every operation (no fused
  multiply-add). The integral gain is not 0 and the fill level and the clock are arguments of an update.
\<close>

section \<open>Controllers\<close>

record pi_controller =
  pi_kp :: rat
  pi_ki :: rat
  pi_minOutput :: rat
  pi_maxOutput :: rat
  pi_integral :: rat
  pi_lastError :: rat
  pi_proportionalTerm :: rat
  pi_integralTerm :: rat

definition pi_new :: "rat \<Rightarrow> rat \<Rightarrow> rat \<Rightarrow> rat \<Rightarrow> pi_controller" where
  "pi_new kp ki minOutput maxOutput =
     \<lparr>pi_kp = kp, pi_ki = ki, pi_minOutput = minOutput, pi_maxOutput = maxOutput, pi_integral = 0, pi_lastError = 0,
      pi_proportionalTerm = 0, pi_integralTerm = 0\<rparr>"

definition pi_update :: "rat \<Rightarrow> rat \<Rightarrow> 'a pi_controller_scheme \<Rightarrow> rat \<times> 'a pi_controller_scheme" where
  "pi_update error deltaTime p =
     (let proportionalTerm = d_mult (pi_kp p) error;
          maxIntegral = d_div (pi_maxOutput p) (pi_ki p);
          minIntegral = d_div (pi_minOutput p) (pi_ki p);
          integral = d_clamp (d_add (pi_integral p) (d_mult error deltaTime)) minIntegral maxIntegral;
          integralTerm = d_mult (pi_ki p) integral;
          output = d_clamp (d_add proportionalTerm integralTerm) (pi_minOutput p) (pi_maxOutput p)
      in (output, p\<lparr>pi_integral := integral, pi_proportionalTerm := proportionalTerm, pi_integralTerm := integralTerm\<rparr>))"

definition pi_reset :: "'a pi_controller_scheme \<Rightarrow> 'a pi_controller_scheme" where
  "pi_reset p = p\<lparr>pi_integral := 0, pi_lastError := 0, pi_proportionalTerm := 0, pi_integralTerm := 0\<rparr>"

text \<open>The smoothed controller has the members of the plain one and a ring of past errors.\<close>

record smoothed_pi = pi_controller +
  sp_smoothingBuffer :: "rat list"
  sp_smoothingIndex :: nat
  sp_smoothingWindow :: nat

definition sp_new :: "rat \<Rightarrow> rat \<Rightarrow> rat \<Rightarrow> rat \<Rightarrow> nat \<Rightarrow> smoothed_pi" where
  "sp_new kp ki minOutput maxOutput smoothingWindow =
     pi_controller.extend (pi_new kp ki minOutput maxOutput)
       \<lparr>sp_smoothingBuffer = replicate smoothingWindow 0, sp_smoothingIndex = 0, sp_smoothingWindow = smoothingWindow\<rparr>"

definition applySmoothing :: "rat \<Rightarrow> smoothed_pi \<Rightarrow> rat \<times> smoothed_pi" where
  "applySmoothing error p =
     (if sp_smoothingWindow p = 0 then (error, p)
      else
        let buffer = (sp_smoothingBuffer p)[sp_smoothingIndex p := error];
            sum = foldl d_add 0 buffer
        in (d_div sum (d_of_int (int (length buffer))),
            p\<lparr>sp_smoothingBuffer := buffer, sp_smoothingIndex := (sp_smoothingIndex p + 1) mod sp_smoothingWindow p\<rparr>))"

definition sp_update :: "rat \<Rightarrow> rat \<Rightarrow> smoothed_pi \<Rightarrow> rat \<times> smoothed_pi" where
  "sp_update error deltaTime p = (let (smoothedError, p1) = applySmoothing error p in pi_update smoothedError deltaTime p1)"

definition sp_reset :: "smoothed_pi \<Rightarrow> smoothed_pi" where
  "sp_reset p = (pi_reset p)\<lparr>sp_smoothingBuffer := replicate (length (sp_smoothingBuffer p)) 0, sp_smoothingIndex := 0\<rparr>"

section \<open>The clock adjustment\<close>

record clock_adjustment =
  ca_piController :: smoothed_pi
  ca_targetFillRatio :: rat
  ca_currentRatio :: rat
  ca_targetBufferLevel :: nat
  ca_maxBufferLevel :: nat
  ca_lastUpdateTime :: int
  ca_lastError :: rat

definition limit :: rat where "limit = f64_round (1 / 100)"
definition MIN_RATIO :: rat where "MIN_RATIO = f64_round (99 / 100)"
definition MAX_RATIO :: rat where "MAX_RATIO = f64_round (101 / 100)"

text \<open>\<open>maxBufferSize\<close> is what the jitter buffer reports, \<open>now\<close> the steady clock in nanoseconds.\<close>

definition ca_new :: "nat \<Rightarrow> rat \<Rightarrow> rat \<Rightarrow> rat \<Rightarrow> int \<Rightarrow> clock_adjustment" where
  "ca_new maxBufferSize targetFillRatio kp ki now =
     \<lparr>ca_piController = sp_new kp ki (- limit) limit 5, ca_targetFillRatio = targetFillRatio, ca_currentRatio = 1,
      ca_targetBufferLevel = nat \<lfloor>d_mult (d_of_int (int maxBufferSize)) targetFillRatio\<rfloor>, ca_maxBufferLevel = maxBufferSize,
      ca_lastUpdateTime = now, ca_lastError = 0\<rparr>"

definition level_error :: "nat \<Rightarrow> nat \<Rightarrow> rat" where
  "level_error targetLevel currentLevel = d_of_int (int targetLevel - int currentLevel)"

definition ca_seconds :: "int \<Rightarrow> rat" where "ca_seconds ns = d_div (d_of_int ns) 1000000000"

definition updateClockAdjustment :: "nat \<Rightarrow> int \<Rightarrow> clock_adjustment \<Rightarrow> clock_adjustment" where
  "updateClockAdjustment currentBufferLevel now c =
     (let error = level_error (ca_targetBufferLevel c) currentBufferLevel;
          deltaTime = ca_seconds (now - ca_lastUpdateTime c);
          (adjustment, pi1) = sp_update error deltaTime (ca_piController c);
          ratio = d_add 1 adjustment;
          (ratio', pi2) =
            (if ratio < MIN_RATIO then (MIN_RATIO, if adjustment > 0 then sp_reset pi1 else pi1)
             else if ratio > MAX_RATIO then (MAX_RATIO, if adjustment < 0 then sp_reset pi1 else pi1)
             else (ratio, pi1))
      in c\<lparr>ca_piController := pi2, ca_currentRatio := ratio', ca_lastUpdateTime := now, ca_lastError := error\<rparr>)"

definition ca_reset :: "int \<Rightarrow> clock_adjustment \<Rightarrow> clock_adjustment" where
  "ca_reset now c =
     c\<lparr>ca_currentRatio := 1, ca_lastError := 0, ca_lastUpdateTime := now, ca_piController := sp_reset (ca_piController c)\<rparr>"

section \<open>Signs\<close>

text \<open>\<open>s\<close> is 1 or -1; no operation of the controllers leaves its side of zero.\<close>

definition on_side :: "rat \<Rightarrow> rat \<Rightarrow> bool" where "on_side s x \<longleftrightarrow> 0 \<le> s * x"

named_theorems sides

lemma side_f64 [sides]: "s = 1 \<or> s = -1 \<Longrightarrow> on_side s x \<Longrightarrow> on_side s (f64_round x)"
  using f64_nonneg [of x] f64_between(1) [of 0 x] by (auto simp: on_side_def)

lemma side_0 [simp]: "on_side s 0" by (simp add: on_side_def)

lemma side_add [sides]: "s = 1 \<or> s = -1 \<Longrightarrow> on_side s x \<Longrightarrow> on_side s y \<Longrightarrow> on_side s (d_add x y)"
  unfolding d_add_def by (rule side_f64) (auto simp: on_side_def)

lemma side_mult [sides]: "s = 1 \<or> s = -1 \<Longrightarrow> 0 \<le> x \<Longrightarrow> on_side s y \<Longrightarrow> on_side s (d_mult x y)"
  unfolding d_mult_def by (rule side_f64) (auto simp: on_side_def mult_nonneg_nonpos)

lemma side_mult2 [sides]: "s = 1 \<or> s = -1 \<Longrightarrow> 0 \<le> y \<Longrightarrow> on_side s x \<Longrightarrow> on_side s (d_mult x y)"
  unfolding d_mult_def by (rule side_f64) (auto simp: on_side_def mult_nonpos_nonneg)

lemma side_div [sides]: "s = 1 \<or> s = -1 \<Longrightarrow> 0 \<le> y \<Longrightarrow> on_side s x \<Longrightarrow> on_side s (d_div x y)"
  unfolding d_div_def by (rule side_f64) (auto simp: on_side_def divide_nonpos_nonneg)

lemma side_clamp [sides]: "s = 1 \<or> s = -1 \<Longrightarrow> lo \<le> 0 \<Longrightarrow> 0 \<le> hi \<Longrightarrow> on_side s x \<Longrightarrow> on_side s (d_clamp x lo hi)"
  by (auto simp: on_side_def d_clamp_def)

lemma side_sum: "s = 1 \<or> s = -1 \<Longrightarrow> on_side s a \<Longrightarrow> \<forall>x \<in> set xs. on_side s x \<Longrightarrow> on_side s (foldl d_add a xs)"
  by (induction xs arbitrary: a) (auto intro: sides)

lemma limit_pos: "0 \<le> limit" "limit \<le> 1"
  using f64_nonneg [of "1 / 100"] f64_between(1) [of 1 "1 / 100"] by (simp_all add: limit_def)

section \<open>The invariant\<close>

definition ca_ok :: "clock_adjustment \<Rightarrow> bool" where
  "ca_ok c \<longleftrightarrow>
     (let p = ca_piController c
      in 0 \<le> pi_kp p \<and> 0 < pi_ki p \<and> pi_minOutput p = - limit \<and> pi_maxOutput p = limit \<and>
         d_div (- limit) (pi_ki p) \<le> pi_integral p \<and> pi_integral p \<le> d_div limit (pi_ki p) \<and>
         length (sp_smoothingBuffer p) = 5 \<and> sp_smoothingWindow p = 5 \<and> sp_smoothingIndex p < 5 \<and>
         MIN_RATIO \<le> ca_currentRatio c \<and> ca_currentRatio c \<le> MAX_RATIO)"

lemma smoothing_fields:
  assumes "applySmoothing error p = (e, p')"
  shows "pi_kp p' = pi_kp p" "pi_ki p' = pi_ki p" "pi_minOutput p' = pi_minOutput p" "pi_maxOutput p' = pi_maxOutput p"
    "pi_integral p' = pi_integral p" "length (sp_smoothingBuffer p') = length (sp_smoothingBuffer p)"
    "sp_smoothingWindow p' = sp_smoothingWindow p"
    "0 < sp_smoothingWindow p \<Longrightarrow> sp_smoothingIndex p' < sp_smoothingWindow p"
  using assms by (auto simp: applySmoothing_def Let_def split: if_splits)

lemma pi_update_fields:
  assumes "pi_update e dt p = (out, p')"
  shows "pi_kp p' = pi_kp p" "pi_ki p' = pi_ki p" "pi_minOutput p' = pi_minOutput p" "pi_maxOutput p' = pi_maxOutput p"
    "pi_controller.more p' = pi_controller.more p"
    "pi_minOutput p \<le> pi_maxOutput p \<Longrightarrow> pi_minOutput p \<le> out \<and> out \<le> pi_maxOutput p"
    "d_div (pi_minOutput p) (pi_ki p) \<le> d_div (pi_maxOutput p) (pi_ki p) \<Longrightarrow>
       d_div (pi_minOutput p) (pi_ki p) \<le> pi_integral p' \<and> pi_integral p' \<le> d_div (pi_maxOutput p) (pi_ki p)"
  using assms by (auto simp: pi_update_def Let_def d_clamp_bounds)

text \<open>The branches that would reset the integrator are never taken: a ratio below 1 has a negative adjustment.\<close>

lemma ratio_side: "0 < adjustment \<Longrightarrow> MIN_RATIO \<le> d_add 1 adjustment" "adjustment < 0 \<Longrightarrow> d_add 1 adjustment \<le> MAX_RATIO"
proof -
  have m: "MIN_RATIO \<le> 1" "1 \<le> MAX_RATIO"
    using f64_between(1) [of 1 "99 / 100"] f64_between(2) [of 1 "101 / 100"] by (simp_all add: MIN_RATIO_def MAX_RATIO_def)
  show "0 < adjustment \<Longrightarrow> MIN_RATIO \<le> d_add 1 adjustment"
    using f64_between(2) [of 1 "1 + adjustment"] m(1) by (simp add: d_add_def)
  show "adjustment < 0 \<Longrightarrow> d_add 1 adjustment \<le> MAX_RATIO"
    using f64_between(1) [of 1 "1 + adjustment"] m(2) by (simp add: d_add_def)
qed

lemma update_simple:
  "updateClockAdjustment level now c =
     (let error = level_error (ca_targetBufferLevel c) level;
          (adjustment, p) = sp_update error (ca_seconds (now - ca_lastUpdateTime c)) (ca_piController c)
      in c\<lparr>ca_piController := p, ca_currentRatio := d_clamp (d_add 1 adjustment) MIN_RATIO MAX_RATIO, ca_lastUpdateTime := now,
           ca_lastError := error\<rparr>)"
proof -
  obtain adjustment p where a: "sp_update (level_error (ca_targetBufferLevel c) level) (ca_seconds (now - ca_lastUpdateTime c)) (ca_piController c) =
      (adjustment, p)" by fastforce
  have "d_add 1 adjustment < MIN_RATIO \<Longrightarrow> \<not> 0 < adjustment" "MAX_RATIO < d_add 1 adjustment \<Longrightarrow> \<not> adjustment < 0"
    using ratio_side [of adjustment] by auto
  then show ?thesis by (simp add: updateClockAdjustment_def Let_def a d_clamp_def)
qed

lemma update_ok:
  assumes "ca_ok c"
  shows "ca_ok (updateClockAdjustment level now c)"
proof -
  define error where "error = level_error (ca_targetBufferLevel c) level"
  obtain e p1 where s: "applySmoothing error (ca_piController c) = (e, p1)" by fastforce
  obtain adjustment p where u: "pi_update e (ca_seconds (now - ca_lastUpdateTime c)) p1 = (adjustment, p)" by fastforce
  note s' = smoothing_fields [OF s]
  note u' = pi_update_fields [OF u]
  have "updateClockAdjustment level now c =
      c\<lparr>ca_piController := p, ca_currentRatio := d_clamp (d_add 1 adjustment) MIN_RATIO MAX_RATIO, ca_lastUpdateTime := now,
        ca_lastError := error\<rparr>"
    by (simp add: update_simple sp_update_def Let_def error_def [symmetric] s u)
  moreover have "sp_smoothingBuffer p = sp_smoothingBuffer p1" "sp_smoothingIndex p = sp_smoothingIndex p1"
    "sp_smoothingWindow p = sp_smoothingWindow p1"
    using u by (auto simp: pi_update_def Let_def)
  moreover have "MIN_RATIO \<le> MAX_RATIO"
    using f64_between(1) [of 1 "99 / 100"] f64_between(2) [of 1 "101 / 100"] by (simp add: MIN_RATIO_def MAX_RATIO_def)
  moreover have "d_div (- limit) (pi_ki (ca_piController c)) \<le> d_div limit (pi_ki (ca_piController c))"
    using assms by (auto simp: ca_ok_def Let_def intro: order_trans)
  ultimately show ?thesis
    using assms s' u'(1-4,7) d_clamp_bounds [of MIN_RATIO MAX_RATIO] by (simp add: ca_ok_def Let_def)
qed

lemma ratio_limits: "MIN_RATIO \<le> 1" "1 \<le> MAX_RATIO"
  using f64_between(1) [of 1 "99 / 100"] f64_between(2) [of 1 "101 / 100"] by (simp_all add: MIN_RATIO_def MAX_RATIO_def)

lemma integral_limits: "0 < ki \<Longrightarrow> d_div (- limit) ki \<le> 0 \<and> 0 \<le> d_div limit ki"
  using side_div [of 1 ki limit] side_div [of "-1" ki "- limit"] limit_pos by (simp add: on_side_def)

lemma ca_new_ok: "0 \<le> kp \<Longrightarrow> 0 < ki \<Longrightarrow> ca_ok (ca_new maxBufferSize fill kp ki now)"
  using integral_limits [of ki] ratio_limits
  by (simp add: ca_ok_def ca_new_def sp_new_def pi_new_def Let_def pi_controller.extend_def)

lemma reset_ok: "ca_ok c \<Longrightarrow> ca_ok (ca_reset now c)"
  using integral_limits [of "pi_ki (ca_piController c)"] ratio_limits
  by (simp add: ca_ok_def ca_reset_def sp_reset_def pi_reset_def Let_def)

section \<open>Runs\<close>

text \<open>Each call comes with the nanoseconds since the last update; the steady clock does not go back.\<close>

datatype ca_call = Update nat nat | Reset nat

fun ca_step :: "ca_call \<Rightarrow> clock_adjustment \<Rightarrow> clock_adjustment" where
  "ca_step (Update level elapsed) c = updateClockAdjustment level (ca_lastUpdateTime c + int elapsed) c"
| "ca_step (Reset elapsed) c = ca_reset (ca_lastUpdateTime c + int elapsed) c"

definition ca_run :: "ca_call list \<Rightarrow> clock_adjustment \<Rightarrow> clock_adjustment" where
  "ca_run calls c = fold ca_step calls c"

lemma run_ok: "ca_ok c \<Longrightarrow> ca_ok (ca_run calls c)"
  unfolding ca_run_def
proof (induction calls arbitrary: c)
  case (Cons call calls)
  then show ?case by (cases call) (simp_all add: update_ok reset_ok)
qed simp

definition ca_side :: "rat \<Rightarrow> clock_adjustment \<Rightarrow> bool" where
  "ca_side s c \<longleftrightarrow> ca_ok c \<and> on_side s (pi_integral (ca_piController c)) \<and>
     (\<forall>x \<in> set (sp_smoothingBuffer (ca_piController c)). on_side s x) \<and> on_side s (ca_currentRatio c - 1)"

lemma level_side: "on_side 1 (level_error target level) \<longleftrightarrow> level \<le> target \<or> level_error target level = 0"
  "on_side (-1) (level_error target level) \<longleftrightarrow> target \<le> level \<or> level_error target level = 0"
proof -
  have "level \<le> target \<Longrightarrow> 0 \<le> level_error target level" "target \<le> level \<Longrightarrow> level_error target level \<le> 0"
    using f64_nonneg [of "of_int (int target - int level)"] f64_between(1) [of 0 "of_int (int target - int level)"]
    by (simp_all add: level_error_def d_of_int_def)
  then show "on_side 1 (level_error target level) \<longleftrightarrow> level \<le> target \<or> level_error target level = 0"
    "on_side (-1) (level_error target level) \<longleftrightarrow> target \<le> level \<or> level_error target level = 0"
    unfolding on_side_def by linarith+
qed

lemma update_side:
  assumes s: "s = 1 \<or> s = -1" and c: "ca_side s c" and e: "on_side s (level_error (ca_targetBufferLevel c) level)"
  shows "ca_side s (updateClockAdjustment level (ca_lastUpdateTime c + int elapsed) c)"
proof -
  define error where "error = level_error (ca_targetBufferLevel c) level"
  define dt where "dt = ca_seconds (int elapsed)"
  have dt: "0 \<le> dt" using f64_nonneg [of "of_nat elapsed"] f64_nonneg by (simp add: dt_def ca_seconds_def d_div_def d_of_int_def)
  obtain e1 p1 where sm: "applySmoothing error (ca_piController c) = (e1, p1)" by fastforce
  obtain adjustment p where u: "pi_update e1 dt p1 = (adjustment, p)" by fastforce
  note s' = smoothing_fields [OF sm]
  have ok: "0 \<le> pi_kp p1" "0 < pi_ki p1" "pi_minOutput p1 = - limit" "pi_maxOutput p1 = limit" "length (sp_smoothingBuffer (ca_piController c)) = 5"
    "sp_smoothingWindow (ca_piController c) = 5"
    using c s' by (simp_all add: ca_side_def ca_ok_def Let_def)
  have b: "\<forall>x \<in> set (sp_smoothingBuffer p1). on_side s x"
    using c e sm set_update_subset_insert [of "sp_smoothingBuffer (ca_piController c)" "sp_smoothingIndex (ca_piController c)" error]
    by (auto simp: ca_side_def applySmoothing_def Let_def ok(6) error_def)
  have "e1 = d_div (foldl d_add 0 (sp_smoothingBuffer p1)) (d_of_int 5)"
    using sm ok(5) by (auto simp: applySmoothing_def Let_def ok(6))
  moreover have "0 \<le> d_of_int 5" using f64_nonneg [of 5] by (simp add: d_of_int_def)
  ultimately have e1: "on_side s e1" using side_div [OF s] side_sum [OF s side_0 b] by simp
  have i: "on_side s (pi_integral p1)" using c s'(5) by (simp add: ca_side_def)
  note il = integral_limits [OF ok(2)]
  have int: "on_side s (pi_integral p)" and adj: "on_side s adjustment"
  proof -
    let ?integral = "d_clamp (d_add (pi_integral p1) (d_mult e1 dt)) (d_div (- limit) (pi_ki p1)) (d_div limit (pi_ki p1))"
    have n: "on_side s ?integral"
      using il by (intro side_clamp [OF s] side_add [OF s] side_mult2 [OF s] i e1 dt) simp_all
    have "on_side s (d_clamp (d_add (d_mult (pi_kp p1) e1) (d_mult (pi_ki p1) ?integral)) (- limit) limit)"
      using limit_pos ok(1,2) by (intro side_clamp [OF s] side_add [OF s] side_mult [OF s] n e1) simp_all
    moreover have "adjustment = d_clamp (d_add (d_mult (pi_kp p1) e1) (d_mult (pi_ki p1) ?integral)) (- limit) limit"
      "pi_integral p = ?integral"
      using u by (auto simp: pi_update_def Let_def ok(3,4))
    ultimately show "on_side s (pi_integral p)" "on_side s adjustment" using n by simp_all
  qed
  have "on_side s (d_clamp (d_add 1 adjustment) MIN_RATIO MAX_RATIO - 1)"
    using s adj ratio_limits f64_between(1,2) [of 1 "1 + adjustment"]
    by (auto simp: on_side_def d_clamp_def d_add_def)
  moreover have "sp_smoothingBuffer p = sp_smoothingBuffer p1" using u by (auto simp: pi_update_def Let_def)
  moreover have "updateClockAdjustment level (ca_lastUpdateTime c + int elapsed) c =
      c\<lparr>ca_piController := p, ca_currentRatio := d_clamp (d_add 1 adjustment) MIN_RATIO MAX_RATIO,
        ca_lastUpdateTime := ca_lastUpdateTime c + int elapsed, ca_lastError := error\<rparr>"
    by (simp add: update_simple sp_update_def Let_def error_def [symmetric] sm dt_def [symmetric] u)
  moreover have "ca_ok (updateClockAdjustment level (ca_lastUpdateTime c + int elapsed) c)"
    using c by (simp add: update_ok ca_side_def)
  ultimately show ?thesis using b int by (simp add: ca_side_def)
qed

lemma reset_side: "ca_side s c \<Longrightarrow> ca_side s (ca_reset now c)"
  using reset_ok [of c now] by (simp add: ca_side_def ca_reset_def sp_reset_def pi_reset_def)

lemma run_side:
  assumes "s = 1 \<or> s = -1"
  shows "ca_side s c \<Longrightarrow> \<forall>level elapsed. Update level elapsed \<in> set calls \<longrightarrow> on_side s (level_error (ca_targetBufferLevel c) level) \<Longrightarrow>
    ca_side s (ca_run calls c)"
  unfolding ca_run_def
proof (induction calls arbitrary: c)
  case (Cons call calls)
  have "ca_targetBufferLevel (ca_step call c) = ca_targetBufferLevel c"
    by (cases call) (simp_all add: update_simple ca_reset_def Let_def case_prod_unfold)
  moreover have "ca_side s (ca_step call c)"
  proof (cases call)
    case (Update level elapsed)
    then show ?thesis using update_side [OF assms Cons.prems(1)] Cons.prems(2) by simp
  next
    case (Reset elapsed)
    then show ?thesis using reset_side [OF Cons.prems(1)] by simp
  qed
  moreover have "\<forall>level elapsed. Update level elapsed \<in> set calls \<longrightarrow> on_side s (level_error (ca_targetBufferLevel c) level)"
    using Cons.prems(2) by auto
  ultimately show ?case using Cons.IH [of "ca_step call c"] by simp
qed simp

lemma new_side: "0 \<le> kp \<Longrightarrow> 0 < ki \<Longrightarrow> ca_side s (ca_new maxBufferSize fill kp ki now)"
  using ca_new_ok [of kp ki maxBufferSize fill now]
  by (simp add: ca_side_def) (simp add: ca_new_def sp_new_def pi_new_def pi_controller.extend_def)

section \<open>Properties\<close>

text \<open>
  The ratio stays within one percent and the integrator does not wind up, whatever fill levels are reported at whatever
  times, and the branches that would reset the integrator at the limits are never taken.
\<close>

theorem clock_ratio_bounded:
  assumes "0 \<le> kp" "0 < ki"
  shows "let c = ca_run calls (ca_new maxBufferSize fill kp ki now) in MIN_RATIO \<le> ca_currentRatio c \<and> ca_currentRatio c \<le> MAX_RATIO \<and>
    d_div (- limit) (pi_ki (ca_piController c)) \<le> pi_integral (ca_piController c) \<and>
    pi_integral (ca_piController c) \<le> d_div limit (pi_ki (ca_piController c)) \<and>
    ca_piController (updateClockAdjustment level time c) =
      snd (sp_update (level_error (ca_targetBufferLevel c) level) (ca_seconds (time - ca_lastUpdateTime c)) (ca_piController c))"
  using run_ok [OF ca_new_ok [OF assms(1,2)], of calls maxBufferSize fill now]
  by (simp add: ca_ok_def Let_def update_simple case_prod_unfold)

lemma clock_ratio_bounded_witness:
  "ca_currentRatio (ca_run [Update 0 1000000, Reset 0, Update 7 1000000] (ca_new 16 (1 / 2) 1 1 0)) \<le> MAX_RATIO"
  using clock_ratio_bounded [of 1 1 "[Update 0 1000000, Reset 0, Update 7 1000000]" 16 "1 / 2" 0] by (simp add: Let_def)

text \<open>
  The controller pushes the right way. While the buffer never holds more than the target the ratio is never below 1,
  while it never holds less the ratio is never above 1, and at the target it stays exactly 1.
\<close>

theorem clock_direction:
  assumes "0 \<le> kp" "0 < ki"
  shows "let c = ca_new maxBufferSize fill kp ki now in ((\<forall>level elapsed. Update level elapsed \<in> set calls \<longrightarrow> level \<le> ca_targetBufferLevel c) \<longrightarrow> 1 \<le> ca_currentRatio (ca_run calls c)) \<and>
    ((\<forall>level elapsed. Update level elapsed \<in> set calls \<longrightarrow> ca_targetBufferLevel c \<le> level) \<longrightarrow> ca_currentRatio (ca_run calls c) \<le> 1)"
proof -
  define c where "c = ca_new maxBufferSize fill kp ki now"
  have "1 \<le> ca_currentRatio (ca_run calls c)" if "\<forall>level elapsed. Update level elapsed \<in> set calls \<longrightarrow> level \<le> ca_targetBufferLevel c"
    using run_side [OF _ new_side [OF assms(1,2)], of 1 calls maxBufferSize fill now] that
    by (simp add: c_def [symmetric] ca_side_def on_side_def level_side(1) [unfolded on_side_def, simplified])
  moreover have "ca_currentRatio (ca_run calls c) \<le> 1" if "\<forall>level elapsed. Update level elapsed \<in> set calls \<longrightarrow> ca_targetBufferLevel c \<le> level"
    using run_side [OF _ new_side [OF assms(1,2)], of "-1" calls maxBufferSize fill now] that
    by (simp add: c_def [symmetric] ca_side_def on_side_def level_side(2) [unfolded on_side_def, simplified])
  ultimately show ?thesis by (simp add: c_def [symmetric] Let_def)
qed

lemma clock_direction_witness:
  "1 \<le> ca_currentRatio (ca_run [Update 0 1000000, Update 0 2000000] (ca_new 16 (1 / 2) 1 1 0))"
  using clock_direction [of 1 1 16 "1 / 2" 0 "[Update 0 1000000, Update 0 2000000]"] by (auto simp: Let_def)

end
