(* ===== verification/Rtp_Pacing.thy ===== *)
theory Rtp_Pacing
  imports Rtp_Receiver Double_Precision
begin

text \<open>
  The pacing of the consume thread of \<open>RTPReceiver\<close>: the absolute times it sleeps to and the adjustment of its interval by the
  fill level of the first mapped ring. Doubles are rationals, rounded after every operation (no fused multiply-add).
\<close>

section \<open>Pacing\<close>

record pacing =
  pa_nextConsumeTime :: int
  pa_rateAdjustment :: rat
  pa_packetsSinceRateCheck :: nat

definition kRateCheckIntervalPackets :: nat where "kRateCheckIntervalPackets = 48"
definition kMaxRateAdjustment :: rat where "kMaxRateAdjustment = f64_round (5 / 1000)"
definition kTargetFillRatio :: rat where "kTargetFillRatio = f64_round (1 / 2)"
definition kRateAdjustmentGain :: rat where "kRateAdjustmentGain = f64_round (1 / 10000)"

definition pacing_start :: "int \<Rightarrow> pacing" where
  "pacing_start nowUs = \<lparr>pa_nextConsumeTime = nowUs, pa_rateAdjustment = 0, pa_packetsSinceRateCheck = 0\<rparr>"

text \<open>In microseconds; the conversion to an integer drops the fraction.\<close>

definition adjusted_interval :: "receiver \<Rightarrow> pacing \<Rightarrow> int" where
  "adjusted_interval rx p =
     \<lfloor>d_mult (d_of_int (int (unat (rx_packetIntervalUs rx)))) (d_add 1 (pa_rateAdjustment p))\<rfloor>"

definition clamp_rate :: "rat \<Rightarrow> rat" where
  "clamp_rate r = (let r1 = (if r > kMaxRateAdjustment then kMaxRateAdjustment else r)
                   in if r1 < - kMaxRateAdjustment then - kMaxRateAdjustment else r1)"

definition fill_ratio :: "'a spsc \<Rightarrow> rat" where
  "fill_ratio ring = d_div (d_of_int (int (spsc_available ring))) (d_of_int (int (spsc_capacity ring)))"

definition rate_check :: "receiver \<times> device_channels \<Rightarrow> rat \<Rightarrow> rat" where
  "rate_check st rateAdjustment =
     (let deviceCh = cm_start (rx_mapping (fst st)); ring = snd st ! deviceCh
      in if deviceCh < 128 \<and> spsc_capacity ring > 0
         then clamp_rate (d_sub rateAdjustment (d_mult (d_sub (fill_ratio ring) kTargetFillRatio) kRateAdjustmentGain))
         else rateAdjustment)"

text \<open>One round: the next time is set with the interval in force, a packet is consumed, every 48th round the fill level is looked at.\<close>

definition pace_round :: "(receiver \<times> device_channels) \<times> pacing \<Rightarrow> (receiver \<times> device_channels) \<times> pacing" where
  "pace_round sp =
     (let (st, p) = sp;
          next' = pa_nextConsumeTime p + adjusted_interval (fst st) p;
          st' = rx_consume st;
          n = pa_packetsSinceRateCheck p + 1
      in if n \<ge> kRateCheckIntervalPackets
         then (st', \<lparr>pa_nextConsumeTime = next', pa_rateAdjustment = rate_check st' (pa_rateAdjustment p), pa_packetsSinceRateCheck = 0\<rparr>)
         else (st', p\<lparr>pa_nextConsumeTime := next', pa_packetsSinceRateCheck := n\<rparr>))"

text \<open>
  Between two rounds the receive thread fills the jitter buffer and the audio thread empties the rings: each function of the
  list is what the others did to the state before a round. The trace has the state after each round.
\<close>

type_synonym rx_world = "receiver \<times> device_channels"

fun pace_trace :: "(rx_world \<Rightarrow> rx_world) list \<Rightarrow> rx_world \<times> pacing \<Rightarrow> (rx_world \<times> pacing) list" where
  "pace_trace [] sp = []"
| "pace_trace (others # rest) sp =
     (let sp' = pace_round (others (fst sp), snd sp) in sp' # pace_trace rest sp')"

section \<open>Rounding around a half\<close>

lemma f64_half_between: "1 / 2 \<le> x \<Longrightarrow> 1 / 2 \<le> f64_round x" "x \<le> 1 / 2 \<Longrightarrow> f64_round x \<le> 1 / 2"
proof -
  have "(1 / 2 \<le> x \<longrightarrow> 1 / 2 \<le> f64_round x) \<and> (x \<le> 1 / 2 \<longrightarrow> f64_round x \<le> 1 / 2)"
  proof (cases "\<bar>x\<bar> < 1 \<and> x \<noteq> 0")
    case True
    then have nz: "x \<noteq> 0" and lt: "\<bar>x\<bar> < pow2 (-1 + 1)" by simp_all
    define e where "e = max (binade x - 52) (- 1074)"
    have e: "e \<le> -1" using binade_le [OF nz lt] by (simp add: e_def)
    have p: "0 < pow2 e" by simp
    define d where "d = nat (- e - 1)"
    have "pow2 e * 2 ^ Suc d = pow2 (e + int (Suc d))" by (rule pow2_add_nat [symmetric])
    also have "e + int (Suc d) = 0" using e by (simp add: d_def)
    finally have "1 / 2 = of_int (2 ^ d) * pow2 e" by (simp add: mult.commute mult.left_commute)
    then obtain k where k: "1 / 2 = of_int k * pow2 e" by blast
    have r: "f64_round x = of_int (round_half_even (x / pow2 e)) * pow2 e" using nz by (simp add: f64_round_def Let_def e_def)
    have "1 / 2 \<le> x \<longleftrightarrow> of_int k \<le> x / pow2 e" "x \<le> 1 / 2 \<longleftrightarrow> x / pow2 e \<le> of_int k"
      unfolding k using p by (simp_all only: pos_divide_le_eq pos_le_divide_eq)
    moreover have "of_int k * pow2 e \<le> of_int (round_half_even (x / pow2 e)) * pow2 e" if "of_int k \<le> x / pow2 e"
      using round_half_even_bounds(2) [OF that] p by simp
    moreover have "of_int (round_half_even (x / pow2 e)) * pow2 e \<le> of_int k * pow2 e" if "x / pow2 e \<le> of_int k"
      using round_half_even_bounds(1) [OF that] p by simp
    ultimately show ?thesis unfolding r k by blast
  next
    case False
    then consider "1 \<le> x" | "x \<le> 0" by (auto simp: abs_if split: if_splits)
    then show ?thesis
    proof cases
      case 1
      then have "1 \<le> f64_round x" using f64_between(2) [of 1 x] by simp
      then show ?thesis using 1 by simp
    next
      case 2
      then have "f64_round x \<le> 0" using f64_between(1) [of 0 x] by simp
      then show ?thesis using 2 by simp
    qed
  qed
  then show "1 / 2 \<le> x \<Longrightarrow> 1 / 2 \<le> f64_round x" "x \<le> 1 / 2 \<Longrightarrow> f64_round x \<le> 1 / 2" by blast+
qed

lemma target_half [simp]: "kTargetFillRatio = 1 / 2"
  using f64_half_between [of "1 / 2"] by (simp add: kTargetFillRatio_def)

lemma gain_pos: "0 \<le> kRateAdjustmentGain" unfolding kRateAdjustmentGain_def by (rule f64_nonneg) simp

lemma max_rate: "0 \<le> kMaxRateAdjustment" "kMaxRateAdjustment \<le> 1 / 2"
  unfolding kMaxRateAdjustment_def by (rule f64_nonneg, simp) (rule f64_half_between(2), simp)

section \<open>The adjustment\<close>

definition half_full :: "'a spsc \<Rightarrow> bool" where
  "half_full ring \<longleftrightarrow> spsc_capacity ring \<le> 2 * spsc_available ring"

definition half_empty :: "'a spsc \<Rightarrow> bool" where
  "half_empty ring \<longleftrightarrow> 2 * spsc_available ring \<le> spsc_capacity ring"

lemma fill_half:
  assumes "0 < spsc_capacity ring" "spsc_capacity ring \<le> 2 ^ 53" "spsc_available ring \<le> 2 ^ 53"
  shows "half_full ring \<Longrightarrow> 1 / 2 \<le> fill_ratio ring" "half_empty ring \<Longrightarrow> fill_ratio ring \<le> 1 / 2"
proof -
  have d: "d_of_int (int (spsc_available ring)) = of_nat (spsc_available ring)" "d_of_int (int (spsc_capacity ring)) = of_nat (spsc_capacity ring)"
    using f64_of_nat assms(2,3) by (simp_all add: d_of_int_def)
  have p: "(0 :: rat) < of_nat (spsc_capacity ring)" using assms(1) by simp
  show "1 / 2 \<le> fill_ratio ring" if "half_full ring"
  proof -
    have "(of_nat (spsc_capacity ring) :: rat) \<le> of_nat (2 * spsc_available ring)"
      using that by (simp only: half_full_def of_nat_le_iff)
    then show ?thesis unfolding fill_ratio_def d d_div_def using p by (intro f64_half_between) (simp add: field_simps)
  qed
  show "fill_ratio ring \<le> 1 / 2" if "half_empty ring"
  proof -
    have "of_nat (2 * spsc_available ring) \<le> (of_nat (spsc_capacity ring) :: rat)"
      using that by (simp only: half_empty_def of_nat_le_iff)
    then show ?thesis unfolding fill_ratio_def d d_div_def using p by (intro f64_half_between) (simp add: field_simps)
  qed
qed

lemma sign_f64: "0 \<le> x \<Longrightarrow> 0 \<le> f64_round x" "x \<le> 0 \<Longrightarrow> f64_round x \<le> 0"
  using f64_nonneg f64_between(1) [of 0 x] by simp_all

lemma clamp_rate_bounds: "- kMaxRateAdjustment \<le> clamp_rate r" "clamp_rate r \<le> kMaxRateAdjustment"
  "r \<le> 0 \<Longrightarrow> clamp_rate r \<le> 0" "0 \<le> r \<Longrightarrow> 0 \<le> clamp_rate r"
  using max_rate by (auto simp: clamp_rate_def Let_def)

lemma rate_check_sign:
  fixes st :: rx_world
  assumes "spsc_capacity ring \<le> 2 ^ 53" "spsc_available ring \<le> 2 ^ 53"
    and ring_def: "ring = snd st ! cm_start (rx_mapping (fst st))"
  shows "half_full ring \<Longrightarrow> r \<le> 0 \<Longrightarrow> rate_check st r \<le> 0" "half_empty ring \<Longrightarrow> 0 \<le> r \<Longrightarrow> 0 \<le> rate_check st r"
proof -
  show "rate_check st r \<le> 0" if "half_full ring" "r \<le> 0"
  proof (cases "0 < spsc_capacity ring")
    case True
    have "0 \<le> d_sub (fill_ratio ring) kTargetFillRatio"
      using fill_half(1) [OF True assms(1,2) that(1)] by (simp add: d_sub_def f64_nonneg)
    then have "0 \<le> d_mult (d_sub (fill_ratio ring) kTargetFillRatio) kRateAdjustmentGain"
      unfolding d_mult_def using gain_pos by (intro f64_nonneg mult_nonneg_nonneg)
    then have "d_sub r (d_mult (d_sub (fill_ratio ring) kTargetFillRatio) kRateAdjustmentGain) \<le> 0"
      unfolding d_sub_def using that(2) by (intro sign_f64) simp
    then show ?thesis using clamp_rate_bounds(3) that(2) by (simp add: rate_check_def Let_def ring_def [symmetric])
  next
    case False
    then show ?thesis using that(2) by (simp add: rate_check_def Let_def ring_def [symmetric])
  qed
  show "0 \<le> rate_check st r" if "half_empty ring" "0 \<le> r"
  proof (cases "0 < spsc_capacity ring")
    case True
    have "d_sub (fill_ratio ring) kTargetFillRatio \<le> 0"
      using fill_half(2) [OF True assms(1,2) that(1)] by (simp add: d_sub_def sign_f64)
    then have "d_mult (d_sub (fill_ratio ring) kTargetFillRatio) kRateAdjustmentGain \<le> 0"
      unfolding d_mult_def using gain_pos by (intro sign_f64 mult_nonpos_nonneg)
    then have "0 \<le> d_sub r (d_mult (d_sub (fill_ratio ring) kTargetFillRatio) kRateAdjustmentGain)"
      unfolding d_sub_def using that(2) by (intro sign_f64) simp
    then show ?thesis using clamp_rate_bounds(4) that(2) by (simp add: rate_check_def Let_def ring_def [symmetric])
  next
    case False
    then show ?thesis using that(2) by (simp add: rate_check_def Let_def ring_def [symmetric])
  qed
qed

text \<open>A word of microseconds below \<open>2^53\<close> is exact as a double.\<close>

lemma interval_sign:
  assumes "unat (rx_packetIntervalUs rx) \<le> 2 ^ 53" "- 1 \<le> pa_rateAdjustment p"
  shows "pa_rateAdjustment p \<le> 0 \<Longrightarrow> adjusted_interval rx p \<le> int (unat (rx_packetIntervalUs rx))"
    "0 \<le> pa_rateAdjustment p \<Longrightarrow> int (unat (rx_packetIntervalUs rx)) \<le> adjusted_interval rx p"
proof -
  define n where "n = unat (rx_packetIntervalUs rx)"
  have le: "n \<le> 2 ^ 53" using assms(1) unfolding n_def .
  then have n: "d_of_int (int n) = of_nat n" "\<bar>int n\<bar> \<le> 2 ^ 53" using f64_of_nat [OF le] by (simp_all add: d_of_int_def)
  show "adjusted_interval rx p \<le> int (unat (rx_packetIntervalUs rx))" if "pa_rateAdjustment p \<le> 0"
  proof -
    have "d_add 1 (pa_rateAdjustment p) \<le> 1" unfolding d_add_def using f64_between(1) [of 1 "1 + pa_rateAdjustment p"] that by simp
    then have "of_nat n * d_add 1 (pa_rateAdjustment p) \<le> of_int (int n)" using mult_left_mono [of "d_add 1 (pa_rateAdjustment p)" 1 "of_nat n"] by simp
    then have "d_mult (of_nat n) (d_add 1 (pa_rateAdjustment p)) \<le> of_int (int n)"
      unfolding d_mult_def by (rule f64_between(1) [OF n(2)])
    then show ?thesis unfolding adjusted_interval_def n_def [symmetric] n(1) by (metis floor_mono floor_of_int)
  qed
  show "int (unat (rx_packetIntervalUs rx)) \<le> adjusted_interval rx p" if "0 \<le> pa_rateAdjustment p"
  proof -
    have "1 \<le> d_add 1 (pa_rateAdjustment p)" unfolding d_add_def using f64_between(2) [of 1 "1 + pa_rateAdjustment p"] that by simp
    then have "of_int (int n) \<le> of_nat n * d_add 1 (pa_rateAdjustment p)" using mult_left_mono [of 1 "d_add 1 (pa_rateAdjustment p)" "of_nat n"] by simp
    then have "of_int (int n) \<le> d_mult (of_nat n) (d_add 1 (pa_rateAdjustment p))"
      unfolding d_mult_def by (rule f64_between(2) [OF n(2)])
    then show ?thesis unfolding adjusted_interval_def n_def [symmetric] n(1) by (metis floor_mono floor_of_int)
  qed
qed

section \<open>Runs\<close>

lemma round_fields:
  "snd (pace_round (st, p)) =
     \<lparr>pa_nextConsumeTime = pa_nextConsumeTime p + adjusted_interval (fst st) p,
      pa_rateAdjustment = (if pa_packetsSinceRateCheck p + 1 \<ge> kRateCheckIntervalPackets
        then rate_check (rx_consume st) (pa_rateAdjustment p) else pa_rateAdjustment p),
      pa_packetsSinceRateCheck = (if pa_packetsSinceRateCheck p + 1 \<ge> kRateCheckIntervalPackets then 0 else pa_packetsSinceRateCheck p + 1)\<rparr>"
  "fst (pace_round (st, p)) = rx_consume st"
  by (simp_all add: pace_round_def Let_def)

lemma rate_check_bounds: "- kMaxRateAdjustment \<le> r \<Longrightarrow> r \<le> kMaxRateAdjustment \<Longrightarrow>
  - kMaxRateAdjustment \<le> rate_check st r \<and> rate_check st r \<le> kMaxRateAdjustment"
  using clamp_rate_bounds by (simp add: rate_check_def Let_def)

text \<open>What a round leaves of the interval and the ring: the interval is the configured one throughout.\<close>

definition keeps_interval :: "u64 \<Rightarrow> (rx_world \<Rightarrow> rx_world) \<Rightarrow> bool" where
  "keeps_interval n other \<longleftrightarrow> (\<forall>st. rx_packetIntervalUs (fst st) = n \<longrightarrow> rx_packetIntervalUs (fst (other st)) = n)"

lemma decode_interval: "rx_packetIntervalUs (fst (rx_decode bps sample payload st)) = rx_packetIntervalUs (fst st)"
  by (cases st) (simp add: rx_decode_def mapChannelsToDevice_def count_malformed_def Let_def case_prod_unfold)

lemma consume_interval: "rx_packetIntervalUs (fst (rx_consume st)) = rx_packetIntervalUs (fst st)"
  by (cases st) (simp add: rx_consume_def rx_play_def decodeL16_def decodeL24_def decode_interval Let_def case_prod_unfold split: option.split)

text \<open>The interval a round adds, seen from outside.\<close>

fun intervals :: "int \<Rightarrow> (rx_world \<times> pacing) list \<Rightarrow> int list" where
  "intervals t [] = []"
| "intervals t (sp # sps) = (pa_nextConsumeTime (snd sp) - t) # intervals (pa_nextConsumeTime (snd sp)) sps"

definition ring_of :: "rx_world \<Rightarrow> f32 spsc" where
  "ring_of st = snd st ! cm_start (rx_mapping (fst st))"

definition sizes_ok :: "rx_world \<Rightarrow> bool" where
  "sizes_ok st \<longleftrightarrow> spsc_capacity (ring_of st) \<le> 2 ^ 53 \<and> spsc_available (ring_of st) \<le> 2 ^ 53"

lemma round_facts:
  assumes "rx_packetIntervalUs (fst st) = n" "\<forall>o' \<in> set (other # others). keeps_interval n o'" "pace_round (other st, p) = (st', p')"
  shows "rx_packetIntervalUs (fst (other st)) = n" "rx_packetIntervalUs (fst st') = n"
    "pa_nextConsumeTime p' = pa_nextConsumeTime p + adjusted_interval (fst (other st)) p"
    "pa_rateAdjustment p' = pa_rateAdjustment p \<or> pa_rateAdjustment p' = rate_check st' (pa_rateAdjustment p)"
    "pace_trace (other # others) (st, p) = (st', p') # pace_trace others (st', p')"
proof -
  have f: "p' = snd (pace_round (other st, p))" "st' = rx_consume (other st)" using assms(3) round_fields(2) [of "other st" p] by simp_all
  show "rx_packetIntervalUs (fst (other st)) = n" "rx_packetIntervalUs (fst st') = n"
    using assms(1,2) by (simp_all add: f(2) consume_interval keeps_interval_def del: split_paired_All)
  show "pa_nextConsumeTime p' = pa_nextConsumeTime p + adjusted_interval (fst (other st)) p"
    "pa_rateAdjustment p' = pa_rateAdjustment p \<or> pa_rateAdjustment p' = rate_check st' (pa_rateAdjustment p)"
    by (simp_all add: f round_fields)
  show "pace_trace (other # others) (st, p) = (st', p') # pace_trace others (st', p')" by (simp add: assms(3) Let_def)
qed

lemma trace_faster:
  assumes "unat n \<le> 2 ^ 53" "\<forall>other \<in> set others. keeps_interval n other" "rx_packetIntervalUs (fst st) = n"
    "- kMaxRateAdjustment \<le> pa_rateAdjustment p" "pa_rateAdjustment p \<le> 0"
    "\<forall>sp \<in> set (pace_trace others (st, p)). sizes_ok (fst sp) \<and> half_full (ring_of (fst sp))"
  shows "\<forall>d \<in> set (intervals (pa_nextConsumeTime p) (pace_trace others (st, p))). d \<le> int (unat n)"
  using assms(2-)
proof (induction others arbitrary: st p)
  case (Cons other others)
  obtain st' p' where pr: "pace_round (other st, p) = (st', p')" by fastforce
  note f = round_facts [OF Cons.prems(2,1) pr]
  have s: "sizes_ok st'" "half_full (ring_of st')"
    and rest: "\<forall>sp \<in> set (pace_trace others (st', p')). sizes_ok (fst sp) \<and> half_full (ring_of (fst sp))"
    using Cons.prems(5) unfolding f(5) by simp_all
  have "rate_check st' (pa_rateAdjustment p) \<le> 0"
    using rate_check_sign(1) [of "ring_of st'" st' "pa_rateAdjustment p"] s Cons.prems(4) by (simp add: sizes_ok_def ring_of_def)
  then have n: "pa_rateAdjustment p' \<le> 0" "- kMaxRateAdjustment \<le> pa_rateAdjustment p'"
    using f(4) Cons.prems(3,4) rate_check_bounds [of "pa_rateAdjustment p" st'] max_rate(1) by auto
  have "\<forall>d \<in> set (intervals (pa_nextConsumeTime p') (pace_trace others (st', p'))). d \<le> int (unat n)"
    by (rule Cons.IH [OF _ f(2) n(2,1) rest]) (use Cons.prems(1) in simp)
  moreover have "- 1 \<le> pa_rateAdjustment p" using Cons.prems(3) max_rate(2) by linarith
  then have "adjusted_interval (fst (other st)) p \<le> int (unat n)"
    using interval_sign(1) [of "fst (other st)" p] f(1) assms(1) Cons.prems(4) by simp
  ultimately show ?case unfolding f(5) by (simp add: f(3))
qed simp

lemma trace_slower:
  assumes "unat n \<le> 2 ^ 53" "\<forall>other \<in> set others. keeps_interval n other" "rx_packetIntervalUs (fst st) = n"
    "pa_rateAdjustment p \<le> kMaxRateAdjustment" "0 \<le> pa_rateAdjustment p"
    "\<forall>sp \<in> set (pace_trace others (st, p)). sizes_ok (fst sp) \<and> half_empty (ring_of (fst sp))"
  shows "\<forall>d \<in> set (intervals (pa_nextConsumeTime p) (pace_trace others (st, p))). int (unat n) \<le> d"
  using assms(2-)
proof (induction others arbitrary: st p)
  case (Cons other others)
  obtain st' p' where pr: "pace_round (other st, p) = (st', p')" by fastforce
  note f = round_facts [OF Cons.prems(2,1) pr]
  have s: "sizes_ok st'" "half_empty (ring_of st')"
    and rest: "\<forall>sp \<in> set (pace_trace others (st', p')). sizes_ok (fst sp) \<and> half_empty (ring_of (fst sp))"
    using Cons.prems(5) unfolding f(5) by simp_all
  have "0 \<le> rate_check st' (pa_rateAdjustment p)"
    using rate_check_sign(2) [of "ring_of st'" st' "pa_rateAdjustment p"] s Cons.prems(4) by (simp add: sizes_ok_def ring_of_def)
  then have n: "0 \<le> pa_rateAdjustment p'" "pa_rateAdjustment p' \<le> kMaxRateAdjustment"
    using f(4) Cons.prems(3,4) rate_check_bounds [of "pa_rateAdjustment p" st'] max_rate(1) by auto
  have "\<forall>d \<in> set (intervals (pa_nextConsumeTime p') (pace_trace others (st', p'))). int (unat n) \<le> d"
    by (rule Cons.IH [OF _ f(2) n(2,1) rest]) (use Cons.prems(1) in simp)
  moreover have "int (unat n) \<le> adjusted_interval (fst (other st)) p"
    using interval_sign(2) [of "fst (other st)" p] f(1) assms(1) Cons.prems(4) by simp
  ultimately show ?case unfolding f(5) by (simp add: f(3))
qed simp

section \<open>Property\<close>

text \<open>
  C14. The adaptive rate pushes the ring away from its target. A round of the consumer writes a packet to the rings; while the first
  ring is never less than half full, no interval between two rounds is longer than the nominal one, so the ring is filled at
  least as fast as before, and while it is never more than half full no interval is shorter. Whatever the receive thread and
  the audio thread do between the rounds, a deviation is not corrected.
\<close>

theorem pacing_feeds_back:
  assumes "rx_packetIntervalUs (fst st) = n" "unat n \<le> 2 ^ 53" "\<forall>other \<in> set others. keeps_interval n other"
    "\<forall>sp \<in> set (pace_trace others (st, pacing_start now)). sizes_ok (fst sp)"
  shows "((\<forall>sp \<in> set (pace_trace others (st, pacing_start now)). half_full (ring_of (fst sp))) \<longrightarrow>
      (\<forall>d \<in> set (intervals now (pace_trace others (st, pacing_start now))). d \<le> int (unat n))) \<and>
    ((\<forall>sp \<in> set (pace_trace others (st, pacing_start now)). half_empty (ring_of (fst sp))) \<longrightarrow>
      (\<forall>d \<in> set (intervals now (pace_trace others (st, pacing_start now))). int (unat n) \<le> d))"
  using trace_faster [OF assms(2,3,1), of "pacing_start now"] trace_slower [OF assms(2,3,1), of "pacing_start now"] assms(4) max_rate(1)
  by (simp add: pacing_start_def)

definition idle_world :: "sdp_session \<Rightarrow> channel_mapping \<Rightarrow> rx_world" where
  "idle_world sdp mapping =
     ((rx_new (\<lambda>_. []) sdp (mapping\<lparr>cm_deviceChannelStart := 0\<rparr>) 0 [])\<lparr>rx_packetIntervalUs := 1000\<rparr>, replicate 128 (spsc_new (Fin 0) 64))"

lemma pacing_feeds_back_witness:
  "\<forall>sdp mapping. list_all (\<lambda>d. 1000 \<le> d) (intervals 7 (pace_trace [id] (idle_world sdp mapping, pacing_start 7)))"
proof (intro allI)
  fix sdp mapping
  let ?st = "idle_world sdp mapping"
  have jb: "getNextPacket 1500 0 (jb_new d) = (None, jb_new d)" for d
  proof -
    have "jb_buffer (jb_new d) ! getIndex (jb_new d) 0 = empty_slot"
      using getIndex_less(2) [OF jb_wf_new, of d 0] by (simp add: jb_new_def Let_def)
    then show ?thesis by (simp add: getNextPacket_def Let_def empty_slot_def)
  qed
  have v: "getBufferedPacketCount (jb_new d) = 0" for d by (simp add: getBufferedPacketCount_def jb_new_def Let_def)
  have r: "ring_of (rx_consume ?st) = spsc_new (Fin 0) 64"
    by (simp add: idle_world_def rx_consume_def rx_new_def jb v Let_def ring_of_def cm_start_def)
  obtain st' p' where pr: "pace_round (?st, pacing_start 7) = (st', p')" by fastforce
  have st': "st' = rx_consume ?st" using pr round_fields(2) [of ?st "pacing_start 7"] by simp
  have tr: "pace_trace [id] (?st, pacing_start 7) = [(st', p')]" by (simp add: pr Let_def)
  have s: "sizes_ok st'" "half_empty (ring_of st')"
    by (simp_all add: st' sizes_ok_def half_empty_def r spsc_capacity_def spsc_available_def spsc_new_def getAvailableRead_def)
  have i: "rx_packetIntervalUs (fst ?st) = 1000" by (simp add: idle_world_def)
  have k: "\<forall>other \<in> set [id]. keeps_interval 1000 other" by (simp add: keeps_interval_def)
  have u: "unat (1000 :: u64) \<le> 2 ^ 53" by simp
  have "\<forall>d \<in> set (intervals 7 (pace_trace [id] (?st, pacing_start 7))). int (unat (1000 :: u64)) \<le> d"
    using pacing_feeds_back [OF i u k, of 7] s unfolding tr by simp
  then show "list_all (\<lambda>d. 1000 \<le> d) (intervals 7 (pace_trace [id] (?st, pacing_start 7)))" by (simp add: list_all_iff)
qed

end
