(* ===== verification/Log_Queue.thy ===== *)
theory Log_Queue
  imports Text_Lib "HOL-Library.Multiset"
begin

text \<open>
  \<open>Shared/NonBlockingLogger\<close>: any thread appends entries to a queue under a mutex; the writer thread, and whoever calls
  \<open>flush\<close>, take the whole queue under the mutex and write it to the file without it. Taking the queue and writing an entry are
  steps of their own. \<open>lg_accepted\<close> is a ghost record of the entries appended; the time stamp is an argument.
\<close>

section \<open>Entries\<close>

datatype log_level = DEBUG | INFO | WARNING | ERROR | CRITICAL

fun level_number :: "log_level \<Rightarrow> nat" where
  "level_number DEBUG = 0"
| "level_number INFO = 1"
| "level_number WARNING = 2"
| "level_number ERROR = 3"
| "level_number CRITICAL = 4"

fun levelToString :: "log_level \<Rightarrow> string" where
  "levelToString DEBUG = ''DEBUG''"
| "levelToString INFO = ''INFO''"
| "levelToString WARNING = ''WARNING''"
| "levelToString ERROR = ''ERROR''"
| "levelToString CRITICAL = ''CRITICAL''"

record log_entry =
  le_level :: log_level
  le_message :: string
  le_timestamp :: string

definition log_line :: "log_entry \<Rightarrow> string" where
  "log_line e = ''['' @ le_timestamp e @ ''] ['' @ levelToString (le_level e) @ ''] '' @ le_message e @ [CHR 0x0A]"

section \<open>The logger\<close>

datatype writer_pc =
    W_Check                          \<comment> \<open>at the head of the loop\<close>
  | W_Writing "log_entry list"       \<comment> \<open>the local queue\<close>
  | W_Final "log_entry list"         \<comment> \<open>the flush after the loop\<close>
  | W_Ended

record logger =
  lg_queue :: "log_entry list"
  lg_written :: "log_entry list"
  lg_writer :: writer_pc
  lg_flusher :: "log_entry list option"
  lg_stop :: bool
  lg_minLevel :: log_level
  lg_accepted :: "log_entry list"

definition logger_new :: logger where
  "logger_new = \<lparr>lg_queue = [], lg_written = [], lg_writer = W_Check, lg_flusher = None, lg_stop = False, lg_minLevel = INFO,
     lg_accepted = []\<rparr>"

definition log_file :: "logger \<Rightarrow> string" where "log_file s = concat (map log_line (lg_written s))"

definition log_call :: "log_level \<Rightarrow> string \<Rightarrow> string \<Rightarrow> logger \<Rightarrow> logger" where
  "log_call level message timestamp s =
     (if level_number level < level_number (lg_minLevel s) then s
      else let e = \<lparr>le_level = level, le_message = message, le_timestamp = timestamp\<rparr>
           in s\<lparr>lg_queue := lg_queue s @ [e], lg_accepted := lg_accepted s @ [e]\<rparr>)"

definition setLogLevel :: "log_level \<Rightarrow> logger \<Rightarrow> logger" where "setLogLevel level s = s\<lparr>lg_minLevel := level\<rparr>"

text \<open>
  The destructor stops and joins the writer before it flushes; \<open>shared\<close> says whether \<open>flush\<close> is called while the writer runs.
\<close>

inductive log_step :: "bool \<Rightarrow> logger \<Rightarrow> logger \<Rightarrow> bool" for shared where
  l_log: "log_step shared s (log_call level message timestamp s)"
| l_level: "log_step shared s (setLogLevel level s)"
| l_stop: "log_step shared s (s\<lparr>lg_stop := True\<rparr>)"
| w_take: "lg_writer s = W_Check \<Longrightarrow> \<not> lg_stop s \<Longrightarrow> log_step shared s (s\<lparr>lg_writer := W_Writing (lg_queue s), lg_queue := []\<rparr>)"
| w_write: "lg_writer s = W_Writing (e # es) \<Longrightarrow> log_step shared s (s\<lparr>lg_writer := W_Writing es, lg_written := lg_written s @ [e]\<rparr>)"
| w_again: "lg_writer s = W_Writing [] \<Longrightarrow> log_step shared s (s\<lparr>lg_writer := W_Check\<rparr>)"
| w_final: "lg_writer s = W_Check \<Longrightarrow> lg_stop s \<Longrightarrow> log_step shared s (s\<lparr>lg_writer := W_Final (lg_queue s), lg_queue := []\<rparr>)"
| w_last: "lg_writer s = W_Final (e # es) \<Longrightarrow> log_step shared s (s\<lparr>lg_writer := W_Final es, lg_written := lg_written s @ [e]\<rparr>)"
| w_end: "lg_writer s = W_Final [] \<Longrightarrow> log_step shared s (s\<lparr>lg_writer := W_Ended\<rparr>)"
| f_take: "lg_flusher s = None \<Longrightarrow> shared \<or> lg_writer s = W_Ended \<Longrightarrow>
    log_step shared s (s\<lparr>lg_flusher := Some (lg_queue s), lg_queue := []\<rparr>)"
| f_write: "lg_flusher s = Some (e # es) \<Longrightarrow> log_step shared s (s\<lparr>lg_flusher := Some es, lg_written := lg_written s @ [e]\<rparr>)"
| f_end: "lg_flusher s = Some [] \<Longrightarrow> log_step shared s (s\<lparr>lg_flusher := None\<rparr>)"

fun writer_has :: "writer_pc \<Rightarrow> log_entry list" where
  "writer_has W_Check = []"
| "writer_has (W_Writing es) = es"
| "writer_has (W_Final es) = es"
| "writer_has W_Ended = []"

definition flusher_has :: "logger \<Rightarrow> log_entry list" where
  "flusher_has s = (case lg_flusher s of None \<Rightarrow> [] | Some es \<Rightarrow> es)"

lemmas logger_ops = log_call_def setLogLevel_def flusher_has_def Let_def

lemma step_keeps:
  assumes "log_step shared s t"
    "mset (lg_written s) + mset (writer_has (lg_writer s)) + mset (flusher_has s) + mset (lg_queue s) = mset (lg_accepted s)"
  shows "mset (lg_written t) + mset (writer_has (lg_writer t)) + mset (flusher_has t) + mset (lg_queue t) = mset (lg_accepted t)"
  using assms by (cases rule: log_step.cases) (auto simp: logger_ops ac_simps)

definition fifo_inv :: "logger \<Rightarrow> bool" where
  "fifo_inv s \<longleftrightarrow> lg_written s @ writer_has (lg_writer s) @ flusher_has s @ lg_queue s = lg_accepted s \<and>
     (lg_flusher s \<noteq> None \<longrightarrow> lg_writer s = W_Ended)"

lemma step_fifo: "log_step False s t \<Longrightarrow> fifo_inv s \<Longrightarrow> fifo_inv t"
  by (cases rule: log_step.cases) (auto simp: fifo_inv_def logger_ops split: if_splits)

section \<open>Properties\<close>

text \<open>
  Nothing is lost or written twice, whoever flushes and however the threads interleave: every accepted entry is in the file, in
  the local queue of one thread or in the shared queue.
\<close>

theorem log_conserves:
  assumes "rtranclp (log_step shared) logger_new s"
  shows "mset (lg_written s) + mset (writer_has (lg_writer s)) + mset (flusher_has s) + mset (lg_queue s) = mset (lg_accepted s)"
  using assms
proof (induction rule: rtranclp_induct)
  case base
  show ?case by (simp add: logger_new_def flusher_has_def)
next
  case (step s t)
  from step_keeps [OF step.hyps(2) step.IH] show ?case .
qed

text \<open>
  C40. As long as only the destructor flushes, the file is in order: it holds the accepted entries in the order they were
  appended, up to those still queued, and after the destructor all of them.
\<close>

theorem log_fifo:
  assumes "rtranclp (log_step False) logger_new s"
  shows "lg_written s @ writer_has (lg_writer s) @ flusher_has s @ lg_queue s = lg_accepted s \<and>
    (lg_writer s = W_Ended \<and> lg_flusher s = None \<and> lg_queue s = [] \<longrightarrow> log_file s = concat (map log_line (lg_accepted s)))"
proof -
  have "fifo_inv s" using assms
  proof (induction rule: rtranclp_induct)
    case base
    show ?case by (simp add: fifo_inv_def logger_new_def flusher_has_def)
  next
    case (step s t)
    then show ?case using step_fifo by blast
  qed
  then show ?thesis by (auto simp: fifo_inv_def flusher_has_def log_file_def)
qed

definition say :: "string \<Rightarrow> log_entry" where "say m = \<lparr>le_level = ERROR, le_message = m, le_timestamp = ''t''\<rparr>"

definition one_line :: logger where
  "one_line = \<lparr>lg_queue = [], lg_written = [say ''a''], lg_writer = W_Ended, lg_flusher = None, lg_stop = True, lg_minLevel = INFO,
     lg_accepted = [say ''a'']\<rparr>"

lemma one_line_reachable: "rtranclp (log_step shared) logger_new one_line"
proof -
  let ?s1 = "log_call ERROR ''a'' ''t'' logger_new"
  let ?s2 = "?s1\<lparr>lg_stop := True\<rparr>"
  let ?s3 = "?s2\<lparr>lg_writer := W_Final (lg_queue ?s2), lg_queue := []\<rparr>"
  let ?s4 = "?s3\<lparr>lg_writer := W_Final [], lg_written := lg_written ?s3 @ [say ''a'']\<rparr>"
  let ?s5 = "?s4\<lparr>lg_writer := W_Ended\<rparr>"
  have 1: "log_step shared logger_new ?s1" by (rule l_log)
  have 2: "log_step shared ?s1 ?s2" by (rule l_stop)
  have 3: "log_step shared ?s2 ?s3" by (rule w_final) (simp_all add: logger_ops logger_new_def)
  have 4: "log_step shared ?s3 ?s4" by (rule w_last) (simp add: logger_ops logger_new_def say_def)
  have 5: "log_step shared ?s4 ?s5" by (rule w_end) simp
  note r = rtranclp.rtrancl_into_rtrancl [of "log_step shared" logger_new]
  have 0: "rtranclp (log_step shared) logger_new logger_new" by (rule rtranclp.rtrancl_refl)
  have "rtranclp (log_step shared) logger_new ?s5"
    by (rule r [OF r [OF r [OF r [OF r [OF 0 1] 2] 3] 4] 5])
  moreover have "?s5 = one_line" by (simp add: one_line_def logger_ops logger_new_def say_def)
  ultimately show ?thesis by simp
qed

lemma log_conserves_witness: "mset (lg_written one_line) + mset (writer_has (lg_writer one_line)) + mset (flusher_has one_line) +
    mset (lg_queue one_line) = {#say ''a''#}"
  using log_conserves [OF one_line_reachable [of True]] by (simp add: one_line_def)

lemma log_fifo_witness: "log_file one_line = log_line (say ''a'')"
  using log_fifo [OF one_line_reachable [of False]] by (simp add: one_line_def)

text \<open>
  A call of \<open>flush\<close> while the writer runs can reverse the log: two entries, the second of them accepted after the first, end up
  in the file in the other order, because the mutex protects the queue and not the file.
\<close>

theorem log_flush_reorders:
  "\<exists>s. rtranclp (log_step True) logger_new s \<and> lg_accepted s = [say ''a'', say ''b''] \<and> lg_written s = [say ''b'', say ''a'']"
proof -
  let ?s1 = "log_call ERROR ''a'' ''t'' logger_new"
  let ?s2 = "?s1\<lparr>lg_writer := W_Writing (lg_queue ?s1), lg_queue := []\<rparr>"
  let ?s3 = "log_call ERROR ''b'' ''t'' ?s2"
  let ?s4 = "?s3\<lparr>lg_flusher := Some (lg_queue ?s3), lg_queue := []\<rparr>"
  let ?s5 = "?s4\<lparr>lg_flusher := Some [], lg_written := lg_written ?s4 @ [say ''b'']\<rparr>"
  let ?s6 = "?s5\<lparr>lg_writer := W_Writing [], lg_written := lg_written ?s5 @ [say ''a'']\<rparr>"
  have 1: "log_step True logger_new ?s1" and 3: "log_step True ?s2 ?s3" by (rule l_log)+
  have 2: "log_step True ?s1 ?s2" by (rule w_take) (simp_all add: logger_ops logger_new_def)
  have 4: "log_step True ?s3 ?s4" by (rule f_take) (simp_all add: logger_ops logger_new_def)
  have 5: "log_step True ?s4 ?s5" by (rule f_write) (simp add: logger_ops logger_new_def say_def)
  have 6: "log_step True ?s5 ?s6" by (rule w_write) (simp add: logger_ops logger_new_def say_def)
  note r = rtranclp.rtrancl_into_rtrancl [of "log_step True" logger_new]
  have 0: "rtranclp (log_step True) logger_new logger_new" by (rule rtranclp.rtrancl_refl)
  have "rtranclp (log_step True) logger_new ?s6"
    by (rule r [OF r [OF r [OF r [OF r [OF r [OF 0 1] 2] 3] 4] 5] 6])
  moreover have "lg_accepted ?s6 = [say ''a'', say ''b'']" "lg_written ?s6 = [say ''b'', say ''a'']"
    by (simp_all add: logger_ops logger_new_def say_def)
  ultimately show ?thesis by (intro exI [of _ ?s6]) simp_all
qed

end
