(* ===== verification/Driver_Config.thy ===== *)
theory Driver_Config
  imports Text_Lib Double_Precision
begin

text \<open>
  \<open>Shared/Config.cpp\<close>: the device configuration, what \<open>load\<close> and \<open>save\<close> do with it, and the build number kept in a version
  file. The file system is a map from paths to contents, a set of directories and what the system answers to opening a
  file for writing and to \<open>mkdir\<close>.
\<close>

section \<open>Device configuration\<close>

record device_config =
  dc_sampleRate :: rat
  dc_bufferSize :: nat
  dc_ptpEnabled :: bool
  dc_sapDiscoveryEnabled :: bool
  dc_ringBufferSize :: nat
  dc_deviceName :: string
  dc_manufacturerName :: string
  dc_deviceUID :: string
  dc_configPath :: string
  dc_mappingsPath :: string

definition device_config_default :: device_config where
  "device_config_default =
     \<lparr>dc_sampleRate = 48000, dc_bufferSize = 64, dc_ptpEnabled = True, dc_sapDiscoveryEnabled = True, dc_ringBufferSize = 512,
      dc_deviceName = ''AES67 Device'', dc_manufacturerName = ''AES67 Driver'', dc_deviceUID = ''AES67-Device-001'',
      dc_configPath = ''/Library/Application Support/AES67Driver/config.json'',
      dc_mappingsPath = ''/Library/Application Support/AES67Driver/mappings.json''\<rparr>"

definition device_config_isValid :: "device_config \<Rightarrow> bool" where
  "device_config_isValid c \<longleftrightarrow> dc_sampleRate c > 0 \<and> dc_bufferSize c > 0 \<and> dc_ringBufferSize c > 0 \<and> dc_deviceName c \<noteq> [] \<and>
     dc_deviceUID c \<noteq> []"

section \<open>Files\<close>

record file_system =
  fs_files :: "string \<Rightarrow> string option"
  fs_directories :: "string set"
  fs_writable :: "string \<Rightarrow> bool"
  fs_mkdir :: "string \<Rightarrow> bool"

definition configDir :: string where "configDir = ''/Library/Application Support/AES67Driver''"
definition versionFile :: string where "versionFile = ''VERSION.txt''"

definition getConfigPath :: string where "getConfigPath = configDir @ ''/config.json''"
definition getMappingsPath :: string where "getMappingsPath = configDir @ ''/mappings.json''"
definition getLogsPath :: string where "getLogsPath = configDir @ ''/logs''"

definition ensureDirectoryExists :: "string \<Rightarrow> file_system \<Rightarrow> bool \<times> file_system" where
  "ensureDirectoryExists path fs =
     (if path \<in> fs_directories fs then (True, fs)
      else if fs_files fs path \<noteq> None then (False, fs)
      else if fs_mkdir fs path then (True, fs\<lparr>fs_directories := insert path (fs_directories fs)\<rparr>)
      else (False, fs))"

text \<open>Opening for writing truncates the file.\<close>

definition write_file :: "string \<Rightarrow> string \<Rightarrow> file_system \<Rightarrow> bool \<times> file_system" where
  "write_file path contents fs =
     (if fs_writable fs path then (True, fs\<lparr>fs_files := (fs_files fs)(path \<mapsto> contents)\<rparr>) else (False, fs))"

section \<open>Loading and saving\<close>

definition config_load :: "string \<Rightarrow> file_system \<Rightarrow> device_config \<Rightarrow> bool \<times> device_config" where
  "config_load path fs c = (fs_files fs path \<noteq> None, c)"

definition loadDefault :: "device_config \<Rightarrow> bool \<times> device_config" where "loadDefault c = (True, device_config_default)"

text \<open>
  A double on a stream: six significant digits without trailing zeros, with an exponent from a million on. Rates are
  at least 1 Hz.
\<close>

definition strip_zeros :: "string \<Rightarrow> string" where "strip_zeros s = rev (dropWhile (\<lambda>c. c = CHR ''0'') (rev s))"

definition pad_zeros :: "nat \<Rightarrow> string \<Rightarrow> string" where "pad_zeros k s = replicate (k - length s) (CHR ''0'') @ s"

definition with_point :: "nat \<Rightarrow> nat \<Rightarrow> string" where
  "with_point m k =
     (let fraction = strip_zeros (pad_zeros k (show_nat (m mod 10 ^ k)))
      in show_nat (m div 10 ^ k) @ (if fraction = [] then [] else CHR ''.'' # fraction))"

definition show_double :: "rat \<Rightarrow> string" where
  "show_double x =
     (let e = length (show_nat (nat \<lfloor>x\<rfloor>)) - 1;
          m = nat (round_half_even (x * 10 ^ 5 / 10 ^ e));
          (m1, e1) = (if m = 10 ^ 6 then (10 ^ 5, e + 1) else (m, e))
      in if e1 < 6 then with_point m1 (5 - e1)
         else with_point m1 5 @ ''e+'' @ pad_zeros 2 (show_nat e1))"

definition line :: "string \<Rightarrow> string" where "line s = s @ [CHR 0x0A]"

definition in_quotes :: "string \<Rightarrow> string" where "in_quotes s = CHR 0x22 # s @ [CHR 0x22]"

definition device_config_text :: "device_config \<Rightarrow> string" where
  "device_config_text c =
     line ''{'' @
     line (''  '' @ in_quotes ''deviceName'' @ '': '' @ in_quotes (dc_deviceName c) @ '','') @
     line (''  '' @ in_quotes ''sampleRate'' @ '': '' @ show_double (dc_sampleRate c) @ '','') @
     line (''  '' @ in_quotes ''bufferSize'' @ '': '' @ show_nat (dc_bufferSize c) @ '','') @
     line (''  '' @ in_quotes ''ptpEnabled'' @ '': '' @ (if dc_ptpEnabled c then ''true'' else ''false'')) @
     line ''}''"

definition config_save :: "string \<Rightarrow> device_config \<Rightarrow> file_system \<Rightarrow> bool \<times> file_system" where
  "config_save path c fs = write_file path (device_config_text c) (snd (ensureDirectoryExists configDir fs))"

section \<open>The build number\<close>

definition version_blank :: "char \<Rightarrow> bool" where
  "version_blank c \<longleftrightarrow> c = CHR '' '' \<or> c = CHR 0x09 \<or> c = CHR 0x0A \<or> c = CHR 0x0D"

definition trim_version :: "string \<Rightarrow> string" where
  "trim_version s = rev (dropWhile version_blank (rev (dropWhile version_blank s)))"

definition no_version :: string where "no_version = ''1.0.0-build.0''"

definition readVersionFile :: "file_system \<Rightarrow> string" where
  "readVersionFile fs =
     (case fs_files fs versionFile of
        None \<Rightarrow> no_version
      | Some contents \<Rightarrow>
          (let version = takeWhile (\<lambda>c. c \<noteq> CHR 0x0A) contents
           in if list_all version_blank version then no_version else trim_version version))"

text \<open>The text after the first occurrence of a pattern.\<close>

fun after_first :: "string \<Rightarrow> string \<Rightarrow> string option" where
  "after_first pat [] = (if pat = [] then Some [] else None)"
| "after_first pat (c # s) =
     (if take (length pat) (c # s) = pat then Some (drop (length pat) (c # s)) else after_first pat s)"

definition getBuildNumber :: "file_system \<Rightarrow> int" where
  "getBuildNumber fs =
     (case after_first ''build.'' (readVersionFile fs) of
        None \<Rightarrow> 0
      | Some buildStr \<Rightarrow> (case stoi buildStr of None \<Rightarrow> 0 | Some n \<Rightarrow> n))"

text \<open>\<open>None\<close>: the addition of \<open>int\<close> overflows.\<close>

definition incrementBuildNumber :: "file_system \<Rightarrow> file_system option" where
  "incrementBuildNumber fs =
     (let current = getBuildNumber fs
      in if current = 2 ^ 31 - 1 then None
         else Some (snd (write_file versionFile (''1.0.0-build.'' @ show_int (current + 1) @ [CHR 0x0A]) fs)))"

section \<open>Reading back\<close>

lemma digit_not_blank: "is_digit c \<Longrightarrow> \<not> version_blank c"
proof -
  have "\<not> is_digit CHR '' ''" "\<not> is_digit CHR 0x09" "\<not> is_digit CHR 0x0A" "\<not> is_digit CHR 0x0D" by code_simp+
  then show "is_digit c \<Longrightarrow> \<not> version_blank c" by (auto simp: version_blank_def)
qed

lemma read_back:
  assumes "fs_files fs versionFile = Some (''1.0.0-build.'' @ show_nat n @ [CHR 0x0A])"
  shows "readVersionFile fs = ''1.0.0-build.'' @ show_nat n"
proof -
  let ?v = "''1.0.0-build.'' @ show_nat n"
  have nl: "\<forall>c \<in> set (show_nat n). c \<noteq> CHR 0x0A" using show_nat_digits digit_not_blank by (auto simp: version_blank_def)
  then have "\<forall>c \<in> set ?v. c \<noteq> CHR 0x0A" by auto
  then have t: "takeWhile (\<lambda>c. c \<noteq> CHR 0x0A) (?v @ [CHR 0x0A]) = ?v"
    by (subst takeWhile_append2) auto
  obtain ds d where d: "show_nat n = ds @ [d]" by (metis show_nat_not_Nil rev_exhaust)
  then have "\<not> version_blank d" using show_nat_digits [of n] digit_not_blank by simp
  then have "trim_version ?v = ?v" by (simp add: trim_version_def d version_blank_def)
  moreover have "\<not> version_blank CHR ''1''" by (simp add: version_blank_def)
  ultimately show ?thesis using t assms by (simp add: readVersionFile_def)
qed

lemma build_number_of:
  assumes "fs_files fs versionFile = Some (''1.0.0-build.'' @ show_nat n @ [CHR 0x0A])" "n < 2 ^ 31"
  shows "getBuildNumber fs = int n"
  using stoi_show_nat [OF assms(2)] by (simp add: getBuildNumber_def read_back [OF assms(1)])

section \<open>Properties\<close>

text \<open>
  The build number counts. If the version file can be written, incrementing a number that is not negative and not the
  greatest \<open>int\<close> makes the next call read one more, whatever the file held before.
\<close>

theorem build_number_counts:
  assumes "0 \<le> getBuildNumber fs" "getBuildNumber fs < 2 ^ 31 - 1" "fs_writable fs versionFile"
  shows "\<exists>fs'. incrementBuildNumber fs = Some fs' \<and> getBuildNumber fs' = getBuildNumber fs + 1 \<and>
    readVersionFile fs' = ''1.0.0-build.'' @ show_int (getBuildNumber fs + 1)"
proof -
  define n where "n = nat (getBuildNumber fs + 1)"
  have n: "int n = getBuildNumber fs + 1" "n < 2 ^ 31" using assms(1,2) by (simp_all add: n_def)
  have s: "show_int (getBuildNumber fs + 1) = show_nat n" using assms(1) by (simp add: show_int_def n_def)
  obtain fs' where i: "incrementBuildNumber fs = Some fs'" "fs_files fs' versionFile = Some (''1.0.0-build.'' @ show_nat n @ [CHR 0x0A])"
    using assms(2,3) by (simp add: incrementBuildNumber_def Let_def write_file_def s)
  show ?thesis using i(1) build_number_of [OF i(2) n(2)] read_back [OF i(2)] n(1) s by simp
qed

definition empty_disk :: file_system where
  "empty_disk = \<lparr>fs_files = (\<lambda>_. None), fs_directories = {}, fs_writable = (\<lambda>_. True), fs_mkdir = (\<lambda>_. True)\<rparr>"

lemma build_number_counts_witness: "\<exists>fs'. incrementBuildNumber empty_disk = Some fs' \<and> getBuildNumber fs' = 1"
proof -
  have "getBuildNumber empty_disk = 0"
    by (simp add: getBuildNumber_def readVersionFile_def empty_disk_def no_version_def) code_simp
  then show ?thesis using build_number_counts [of empty_disk] by (auto simp: empty_disk_def)
qed

text \<open>
  A saved configuration is not restored. Loading the file that \<open>save\<close> just wrote succeeds and leaves the configuration as it is.
\<close>

theorem config_never_loaded:
  assumes "fs_writable fs path"
  shows "case config_save path saved fs of (ok, fs') \<Rightarrow> ok \<and> config_load path fs' current = (True, current)"
proof -
  have "fs_writable (snd (ensureDirectoryExists configDir fs)) path" using assms by (simp add: ensureDirectoryExists_def)
  then show ?thesis by (simp add: config_save_def write_file_def config_load_def)
qed

lemma config_never_loaded_witness:
  "case config_save getConfigPath (device_config_default\<lparr>dc_bufferSize := 128\<rparr>) empty_disk of (ok, fs') \<Rightarrow>
     ok \<and> config_load getConfigPath fs' device_config_default = (True, device_config_default)"
  by (rule config_never_loaded) (simp add: empty_disk_def)

end
