(* ===== verification/Stats_Report.thy ===== *)
theory Stats_Report
  imports Core_Types Double_Precision
begin

text \<open>
  What \<open>Shared/Types.cpp\<close> reports of the stream statistics: snapshots of the atomic counters, the loss percentage, the time since
  the last packet, and byte counts as text. Doubles are rounded rationals.
\<close>

section \<open>Snapshots\<close>

text \<open>
  The counters are loaded one after the other while other threads go on: \<open>h i\<close> is the state when load \<open>i\<close> happens.
\<close>

definition stats_snapshot :: "(nat \<Rightarrow> stats) \<Rightarrow> stats" where
  "stats_snapshot h =
     \<lparr>st_packetsReceived = st_packetsReceived (h 0), st_packetsLost = st_packetsLost (h 1),
      st_malformedPackets = st_malformedPackets (h 2), st_outOfOrderPackets = st_outOfOrderPackets (h 3),
      st_underruns = st_underruns (h 4), st_overruns = st_overruns (h 5), st_lastPacketTimeNs = st_lastPacketTimeNs (h 10),
      st_jitterNs = st_jitterNs (h 6), st_latencyNs = st_latencyNs (h 7), st_bytesReceived = st_bytesReceived (h 8),
      st_bytesSent = st_bytesSent (h 9)\<rparr>"

lemma snapshot_quiet: "(\<And>i. i \<le> 10 \<Longrightarrow> h i = s) \<Longrightarrow> stats_snapshot h = s"
  by (simp add: stats_snapshot_def)

definition counters :: "stats \<Rightarrow> u64 list" where
  "counters s = [st_packetsReceived s, st_packetsLost s, st_malformedPackets s, st_outOfOrderPackets s, st_underruns s, st_overruns s,
     st_jitterNs s, st_latencyNs s, st_bytesReceived s, st_bytesSent s, st_lastPacketTimeNs s]"

lemma snapshot_between:
  assumes "\<And>i j k. i \<le> j \<Longrightarrow> j \<le> 10 \<Longrightarrow> k < 11 \<Longrightarrow> counters (h i) ! k \<le> counters (h j) ! k" "k < 11"
  shows "counters (h 0) ! k \<le> counters (stats_snapshot h) ! k \<and> counters (stats_snapshot h) ! k \<le> counters (h 10) ! k"
proof -
  have "counters (stats_snapshot h) = map (\<lambda>k. counters (h k) ! k) [0..<11]"
    unfolding counters_def stats_snapshot_def by (simp add: upt_conv_Cons eval_nat_numeral)
  then have "counters (stats_snapshot h) ! k = counters (h k) ! k" using assms(2) by simp
  moreover have "counters (h 0) ! k \<le> counters (h k) ! k" by (rule assms(1)) (use assms(2) in simp_all)
  moreover have "counters (h k) ! k \<le> counters (h 10) ! k" by (rule assms(1)) (use assms(2) in simp_all)
  ultimately show ?thesis by simp
qed

section \<open>Loss and time\<close>

text \<open>\<open>None\<close>: the sum of the two counters wraps to 0 and the quotient is infinite.\<close>

definition loss_percent :: "stats \<Rightarrow> rat option" where
  "loss_percent s =
     (if st_packetsReceived s = 0 then Some 0
      else
        let sum = st_packetsReceived s + st_packetsLost s
        in if sum = 0 then None
           else Some (d_mult (d_div (d_of_int (uint (st_packetsLost s))) (d_of_int (uint sum))) 100))"

text \<open>The steady clock is not behind the time of a packet, so \<open>div\<close> truncates as C does.\<close>

definition stats_timeSinceLastPacketMs :: "int \<Rightarrow> stats \<Rightarrow> int" where
  "stats_timeSinceLastPacketMs nowNs s =
     (if st_lastPacketTimeNs s = 0 then -1 else (nowNs - sint (st_lastPacketTimeNs s)) div 1000000)"

section \<open>Byte counts\<close>

fun unit_of :: "nat \<Rightarrow> nat \<Rightarrow> rat \<Rightarrow> rat \<times> nat" where
  "unit_of 0 unitIndex amount = (amount, unitIndex)"
| "unit_of (Suc left) unitIndex amount =
     (if amount \<ge> 1024 then unit_of left (unitIndex + 1) (d_div amount 1024) else (amount, unitIndex))"

text \<open>Two digits after the point, correctly rounded.\<close>

definition show_fixed2 :: "rat \<Rightarrow> string" where
  "show_fixed2 x =
     (let n = nat (round_half_even (x * 100)); cents = show_nat (n mod 100)
      in show_nat (n div 100) @ ''.'' @ replicate (2 - length cents) (CHR ''0'') @ cents)"

definition formatBytes :: "u64 \<Rightarrow> string" where
  "formatBytes bytes =
     (let (amount, unitIndex) = unit_of 4 0 (d_of_int (uint bytes))
      in show_fixed2 amount @ '' '' @ [''B'', ''KB'', ''MB'', ''GB'', ''TB''] ! unitIndex)"

lemma unit_of_bound: "unit_of left i amount = (s, k) \<Longrightarrow> k \<le> i + left \<and> (s < 1024 \<or> k = i + left)"
  by (induction left arbitrary: i amount) (force split: if_splits)+

section \<open>Properties\<close>

text \<open>
  The loss percentage is a percentage: as long as both counters are below \<open>2^52\<close>, it is finite and between 0 and 100, and
  it is 0 when nothing was lost.
\<close>

theorem loss_percent_range:
  assumes "unat (st_packetsReceived s) \<le> 2 ^ 52" "unat (st_packetsLost s) \<le> 2 ^ 52"
  shows "\<exists>p. loss_percent s = Some p \<and> 0 \<le> p \<and> p \<le> 100 \<and> (st_packetsLost s = 0 \<longrightarrow> p = 0)"
proof (cases "st_packetsReceived s = 0")
  case True
  then show ?thesis by (simp add: loss_percent_def)
next
  case False
  define l r where "l = unat (st_packetsLost s)" and "r = unat (st_packetsReceived s)"
  have r: "0 < r" "r \<le> 2 ^ 52" "l \<le> 2 ^ 52" using False assms by (simp_all add: l_def r_def unat_gt_0)
  have u: "unat (st_packetsReceived s + st_packetsLost s) = r + l"
    using r by (simp add: unat_word_ariths l_def r_def)
  have ui: "uint (st_packetsReceived s + st_packetsLost s) = int (r + l)" "uint (st_packetsLost s) = int l"
    using u by (simp_all only: uint_nat l_def)
  have nz: "st_packetsReceived s + st_packetsLost s \<noteq> 0" using u r(1) by (metis add_gr_0 unat_0 less_irrefl)
  have d: "d_of_int (int l) = of_nat l" "d_of_int (int (r + l)) = of_nat (r + l)"
    using f64_of_nat [of l] f64_of_nat [of "r + l"] r by (simp_all add: d_of_int_def)
  define q where "q = d_div (of_nat l) (of_nat (r + l))"
  have q: "0 \<le> q" "q \<le> 1"
    unfolding q_def d_div_def using f64_between(1) [of 1 "of_nat l / of_nat (r + l)"] r(1) by (simp_all add: f64_nonneg)
  have "0 \<le> d_mult q 100" "d_mult q 100 \<le> 100"
    unfolding d_mult_def using q f64_between(1) [of 100 "q * 100"] by (simp_all add: f64_nonneg)
  moreover have "loss_percent s = Some (d_mult q 100)"
    using False nz by (simp add: loss_percent_def Let_def ui d q_def del: of_nat_add)
  moreover have "l = 0 \<Longrightarrow> d_mult q 100 = 0" by (simp add: q_def d_div_def d_mult_def)
  moreover have "st_packetsLost s = 0 \<longleftrightarrow> l = 0" by (simp add: l_def unat_eq_0)
  ultimately show ?thesis by blast
qed

lemma loss_percent_range_witness: "\<exists>p. loss_percent (stats_zero\<lparr>st_packetsReceived := 3, st_packetsLost := 1\<rparr>) = Some p \<and> p \<le> 100"
  using loss_percent_range [of "stats_zero\<lparr>st_packetsReceived := 3, st_packetsLost := 1\<rparr>"] by (auto simp: stats_zero_def)

end
