(* ===== verification/Stream_Sockets.thy ===== *)
theory Stream_Sockets
  imports Stream_Lifecycle "HOL-Library.Multiset"
begin

text \<open>
  The sockets of the streams against the kernel's descriptors and memberships, over every operation of
  \<open>NetworkEngine/StreamManager.cpp\<close>. The only thing assumed of the kernel is that \<open>socket()\<close> does not return
  a descriptor that is open.
\<close>

section \<open>One socket\<close>

text \<open>
  \<open>k0\<close> is the kernel before the driver: its memberships are still there, and none is of a closed descriptor.
\<close>

definition kernel_rel :: "kernel \<Rightarrow> kernel \<Rightarrow> bool" where
  "kernel_rel k0 k \<longleftrightarrow> (\<forall>m \<in> kn_members k. fst m \<in> kn_fds k) \<and> {m \<in> kn_members k. fst m \<in> kn_fds k0} = kn_members k0"

definition sock_fds :: "rtp_socket \<Rightarrow> int multiset" where
  "sock_fds s = (if isOpen s then {#sk_fd s#} else {#})"

text \<open>
  The open descriptors are those of this socket and those counted by \<open>C\<close>, each once; \<open>C\<close> counts at least those of \<open>k0\<close>.
\<close>

definition held :: "kernel \<Rightarrow> (int \<Rightarrow> nat) \<Rightarrow> int multiset \<Rightarrow> kernel \<Rightarrow> bool" where
  "held k0 C fds k \<longleftrightarrow> kernel_rel k0 k \<and> (\<forall>f. C f + count fds f = of_bool (f \<in> kn_fds k)) \<and> (\<forall>f \<in> kn_fds k0. 0 < C f)"

definition fresh_or_own :: "open_results \<Rightarrow> int multiset \<Rightarrow> kernel \<Rightarrow> bool" where
  "fresh_or_own r fds k \<longleftrightarrow> (0 \<le> or_socket r \<longrightarrow> or_socket r \<notin> kn_fds k \<or> or_socket r \<in># fds)"

lemma kernel_rel_open:
  assumes "kernel_rel k0 k" "fd \<notin> kn_fds k0" "0 \<le> fd"
  shows "kernel_rel k0 (kn_open fd k)" "kernel_rel k0 ((kn_open fd k)\<lparr>kn_members := insert (fd, x) (kn_members (kn_open fd k))\<rparr>)"
proof -
  have "{m \<in> insert (fd, x) (kn_members k). fst m \<in> kn_fds k0} = {m \<in> kn_members k. fst m \<in> kn_fds k0}" using assms(2) by auto
  with assms(1,3) show "kernel_rel k0 ((kn_open fd k)\<lparr>kn_members := insert (fd, x) (kn_members (kn_open fd k))\<rparr>)"
    unfolding kernel_rel_def kn_open_def by simp
  show "kernel_rel k0 (kn_open fd k)" using assms(1,3) by (simp add: kernel_rel_def kn_open_def)
qed

lemma kernel_rel_close:
  assumes "kernel_rel k0 k" "fd \<notin> kn_fds k0"
  shows "kernel_rel k0 (kn_close fd (k\<lparr>kn_members := kn_members k - {(fd, x)}\<rparr>))" "kernel_rel k0 (kn_close fd k)"
proof -
  have a: "{m \<in> {m \<in> kn_members k. fst m \<noteq> fd}. fst m \<in> kn_fds k0} = {m \<in> kn_members k. fst m \<in> kn_fds k0}" using assms(2) by auto
  have b: "{m \<in> kn_members k - {(fd, x)}. fst m \<noteq> fd} = {m \<in> kn_members k. fst m \<noteq> fd}" by auto
  show "kernel_rel k0 (kn_close fd k)" using assms(1) a by (simp add: kernel_rel_def kn_close_def)
  moreover have "kn_close fd (k\<lparr>kn_members := kn_members k - {(fd, x)}\<rparr>) = kn_close fd k"
    using b by (simp add: kn_close_def del: mem_Collect_eq Collect_conj_eq)
  ultimately show "kernel_rel k0 (kn_close fd (k\<lparr>kn_members := kn_members k - {(fd, x)}\<rparr>))" by simp
qed

lemma close_reopened:
  assumes "kernel_rel k0 k" "fd \<notin> kn_fds k" "0 \<le> fd"
  shows "kn_close fd (kn_open fd k) = k"
proof -
  have "{m \<in> kn_members k. fst m \<noteq> fd} = kn_members k" using assms(1,2) by (auto simp: kernel_rel_def)
  then show ?thesis using assms(2,3) by (simp add: kn_close_def kn_open_def)
qed

text \<open>What opening and closing do, the same for both kinds of socket.\<close>

definition opened :: "open_results \<Rightarrow> bool \<times> rtp_socket \<times> kernel \<Rightarrow> kernel \<Rightarrow> kernel \<Rightarrow> bool" where
  "opened r res k0 k \<longleftrightarrow> (let (b, s', k') = res in kernel_rel k0 k' \<and>
     (if b then 0 \<le> or_socket r \<and> sk_fd s' = or_socket r \<and> kn_fds k' = insert (or_socket r) (kn_fds k)
      else \<not> isOpen s' \<and> k' = k))"

lemma open_sockets:
  assumes "kernel_rel k0 k" "0 \<le> or_socket r \<Longrightarrow> or_socket r \<notin> kn_fds k" "kn_fds k0 \<subseteq> kn_fds k"
  shows "opened r (openReceiver r ip port iface (s, k)) k0 k" "opened r (openTransmitter r ip port iface (s, k)) k0 k"
proof -
  note rel = kernel_rel_open [OF assms(1), of "or_socket r"] and reopened = close_reopened [OF assms(1), of "or_socket r"]
  have n: "or_socket r \<notin> kn_fds k0" if "0 \<le> or_socket r" using assms(2,3) that by blast
  show "opened r (openReceiver r ip port iface (s, k)) k0 k"
  proof (cases "or_socket r < 0")
    case False
    then show ?thesis using rel(2) [of "(ip, iface)"] reopened assms(1,2) n
      by (simp add: opened_def openReceiver_def Let_def isOpen_def) (auto simp: kn_open_def)
  qed (use assms(1) in \<open>simp add: opened_def openReceiver_def kn_open_def Let_def isOpen_def\<close>)
  show "opened r (openTransmitter r ip port iface (s, k)) k0 k"
  proof (cases "or_socket r < 0")
    case False
    then show ?thesis using rel(1) reopened assms(1,2) n
      by (simp add: opened_def openTransmitter_def Let_def isOpen_def) (simp add: kn_open_def)
  qed (use assms(1) in \<open>simp add: opened_def openTransmitter_def kn_open_def Let_def isOpen_def\<close>)
qed

lemma held_subset: "held k0 C fds k \<Longrightarrow> kn_fds k0 \<subseteq> kn_fds k"
proof
  fix f assume "held k0 C fds k" "f \<in> kn_fds k0"
  then have "0 < (of_bool (f \<in> kn_fds k) :: nat)" unfolding held_def by (metis add_gr_0)
  then show "f \<in> kn_fds k" by (simp split: if_splits)
qed

lemma held_opened:
  assumes h: "held k0 C {#} k" and r: "0 \<le> or_socket r \<Longrightarrow> or_socket r \<notin> kn_fds k" and o: "opened r (b, s', k') k0 k"
  shows "held k0 C (sock_fds s') k' \<and> (isOpen s' \<longleftrightarrow> b) \<and> (\<forall>f. f \<in> kn_fds k' \<longrightarrow> f \<in> kn_fds k \<or> 0 \<le> f \<and> f = or_socket r) \<and>
    (\<not> b \<longrightarrow> k' = k)"
proof (cases b)
  case True
  with o have s: "0 \<le> or_socket r" "sk_fd s' = or_socket r" "kn_fds k' = insert (or_socket r) (kn_fds k)" "kernel_rel k0 k'"
    by (auto simp: opened_def)
  with r have f: "or_socket r \<notin> kn_fds k" by simp
  have "C f + count {#or_socket r#} f = of_bool (f \<in> kn_fds k')" for f
    using h f s(3) by (cases "f = or_socket r") (auto simp: held_def)
  then have "held k0 C {#or_socket r#} k'" using s h unfolding held_def by blast
  then show ?thesis using s True by (simp add: sock_fds_def isOpen_def)
next
  case False
  with o have "\<not> isOpen s'" "k' = k" by (auto simp: opened_def)
  then show ?thesis using h False by (simp add: sock_fds_def)
qed

lemma held_closed:
  assumes h: "held k0 C (sock_fds s) k" and c: "socket_close (s, k) = (s', k')"
  shows "held k0 C {#} k' \<and> \<not> isOpen s' \<and> kn_fds k' = kn_fds k - set_mset (sock_fds s)"
proof (cases "isOpen s")
  case True
  then have e: "C f + of_bool (f = sk_fd s) = of_bool (f \<in> kn_fds k)" for f
  proof -
    have "C f + count {#sk_fd s#} f = of_bool (f \<in> kn_fds k)" using h True by (simp only: held_def sock_fds_def if_True simp_thms)
    then show ?thesis by (cases "f = sk_fd s") simp_all
  qed
  have f: "C (sk_fd s) = 0" using e [of "sk_fd s"] by (cases "sk_fd s \<in> kn_fds k") simp_all
  then have "sk_fd s \<notin> kn_fds k0" using h by (force simp: held_def)
  then have "kernel_rel k0 k'" "kn_fds k' = kn_fds k - {sk_fd s}" "\<not> isOpen s'"
    using c True kernel_rel_close(1) [of k0 k "sk_fd s" "(fst (the (sk_multicast s)), sk_boundInterface s)"]
      kernel_rel_close(2) [of k0 k "sk_fd s"] h
    by (auto simp: socket_close_def Let_def isOpen_def held_def kn_close_def split: if_splits)
  moreover have "C f = of_bool (f \<in> kn_fds k - {sk_fd s})" for f
    using e [of f] f by (cases "f = sk_fd s") auto
  ultimately show ?thesis using h True by (simp add: held_def sock_fds_def)
next
  case False
  then show ?thesis using h c by (auto simp: socket_close_def isOpen_def sock_fds_def)
qed

section \<open>Receivers and transmitters\<close>

text \<open>
  A step of an endpoint: it holds its socket before and after, is running exactly while the socket is open, and every
  descriptor opened is the one the kernel gave.
\<close>

definition step_ok :: "kernel \<Rightarrow> (int \<Rightarrow> nat) \<Rightarrow> open_results \<Rightarrow> kernel \<Rightarrow> bool \<times> rtp_socket \<Rightarrow> kernel \<Rightarrow> bool" where
  "step_ok k0 C r k e' k' \<longleftrightarrow> held k0 C (sock_fds (snd e')) k' \<and> (fst e' \<longleftrightarrow> isOpen (snd e')) \<and>
     (\<forall>f \<in> kn_fds k'. f \<in> kn_fds k \<or> 0 \<le> f \<and> f = or_socket r)"

lemma closed_fds: "\<not> isOpen s \<Longrightarrow> sock_fds s = {#}" by (simp add: sock_fds_def)

lemma rx_start_step:
  assumes h: "held k0 C (sock_fds (rx_socket rx)) k" and run: "rx_running rx \<longleftrightarrow> isOpen (rx_socket rx)"
    and r: "fresh_or_own r (sock_fds (rx_socket rx)) k" and s: "rx_start r (rx, k) = (ok, rx', k')"
  shows "step_ok k0 C r k (rx_running rx', rx_socket rx') k'" "\<not> rx_running rx \<Longrightarrow> \<not> ok \<Longrightarrow> k' = k"
proof -
  let ?sdp = "rx_sdp rx"
  define iface where "iface = (if rx_resolvedInterfaceIP rx = [] then None else Some (rx_resolvedInterfaceIP rx))"
  obtain b s1 k1 where o': "openReceiver r (sd_connectionAddress ?sdp) (sd_port ?sdp) iface (rx_socket rx, k) = (b, s1, k1)"
    by (metis prod_cases3)
  have "step_ok k0 C r k (rx_running rx', rx_socket rx') k' \<and> (\<not> rx_running rx \<longrightarrow> \<not> ok \<longrightarrow> k' = k)"
  proof (cases "rx_running rx")
    case True
    then show ?thesis using h s run by (auto simp: rx_start_def Let_def step_ok_def)
  next
    case False
    then have c: "sock_fds (rx_socket rx) = {#}" "\<not> isOpen (rx_socket rx)" using run by (simp_all add: closed_fds)
    then have f: "0 \<le> or_socket r \<Longrightarrow> or_socket r \<notin> kn_fds k" using r by (simp add: fresh_or_own_def)
    have k: "kernel_rel k0 k" using h by (simp add: held_def)
    have h0: "held k0 C {#} k" using h c by simp
    have "held k0 C (sock_fds s1) k1 \<and> (isOpen s1 \<longleftrightarrow> b) \<and> (\<forall>f. f \<in> kn_fds k1 \<longrightarrow> f \<in> kn_fds k \<or> 0 \<le> f \<and> f = or_socket r) \<and>
        (\<not> b \<longrightarrow> k1 = k)"
      using held_opened [OF h0 f] open_sockets(1) [OF k f held_subset [OF h]] o' by metis
    then show ?thesis using s o' False c h
      by (auto simp: rx_start_def Let_def step_ok_def iface_def [symmetric] split: if_splits)
  qed
  then show "step_ok k0 C r k (rx_running rx', rx_socket rx') k'" "\<not> rx_running rx \<Longrightarrow> \<not> ok \<Longrightarrow> k' = k" by simp_all
qed

lemma tx_start_step:
  assumes h: "held k0 C (sock_fds (tx_socket tx)) k" and run: "tx_running tx \<longleftrightarrow> isOpen (tx_socket tx)"
    and r: "fresh_or_own r (sock_fds (tx_socket tx)) k" and s: "tx_start r (tx, k) = (ok, tx', k')"
  shows "step_ok k0 C r k (tx_running tx', tx_socket tx') k'" "\<not> tx_running tx \<Longrightarrow> \<not> ok \<Longrightarrow> k' = k"
proof -
  let ?sdp = "tx_sdp tx"
  define iface where "iface = (if tx_networkInterface tx = [] then None else Some (tx_networkInterface tx))"
  obtain b s1 k1 where o': "openTransmitter r (sd_connectionAddress ?sdp) (sd_port ?sdp) iface (tx_socket tx, k) = (b, s1, k1)"
    by (metis prod_cases3)
  have "step_ok k0 C r k (tx_running tx', tx_socket tx') k' \<and> (\<not> tx_running tx \<longrightarrow> \<not> ok \<longrightarrow> k' = k)"
  proof (cases "tx_running tx")
    case True
    then show ?thesis using h s run by (auto simp: tx_start_def Let_def step_ok_def)
  next
    case False
    then have c: "sock_fds (tx_socket tx) = {#}" "\<not> isOpen (tx_socket tx)" using run by (simp_all add: closed_fds)
    then have f: "0 \<le> or_socket r \<Longrightarrow> or_socket r \<notin> kn_fds k" using r by (simp add: fresh_or_own_def)
    have k: "kernel_rel k0 k" using h by (simp add: held_def)
    have h0: "held k0 C {#} k" using h c by simp
    have "held k0 C (sock_fds s1) k1 \<and> (isOpen s1 \<longleftrightarrow> b) \<and> (\<forall>f. f \<in> kn_fds k1 \<longrightarrow> f \<in> kn_fds k \<or> 0 \<le> f \<and> f = or_socket r) \<and>
        (\<not> b \<longrightarrow> k1 = k)"
      using held_opened [OF h0 f] open_sockets(2) [OF k f held_subset [OF h]] o' by metis
    then show ?thesis using s o' False c h
      by (auto simp: tx_start_def Let_def step_ok_def iface_def [symmetric] split: if_splits)
  qed
  then show "step_ok k0 C r k (tx_running tx', tx_socket tx') k'" "\<not> tx_running tx \<Longrightarrow> \<not> ok \<Longrightarrow> k' = k" by simp_all
qed

lemma rx_stop_step:
  assumes "held k0 C (sock_fds (rx_socket rx)) k" "rx_running rx \<longleftrightarrow> isOpen (rx_socket rx)" "rx_stop (rx, k) = (rx', k')"
  shows "held k0 C {#} k' \<and> \<not> rx_running rx' \<and> \<not> isOpen (rx_socket rx') \<and> kn_fds k' = kn_fds k - set_mset (sock_fds (rx_socket rx))"
  using assms held_closed [OF assms(1)] by (auto simp: rx_stop_def closed_fds split: if_splits prod.splits)

lemma tx_stop_step:
  assumes "held k0 C (sock_fds (tx_socket tx)) k" "tx_running tx \<longleftrightarrow> isOpen (tx_socket tx)" "tx_stop (tx, k) = (tx', k')"
  shows "held k0 C {#} k' \<and> \<not> tx_running tx' \<and> \<not> isOpen (tx_socket tx') \<and> kn_fds k' = kn_fds k - set_mset (sock_fds (tx_socket tx))"
  using assms held_closed [OF assms(1)] by (auto simp: tx_stop_def closed_fds split: if_splits prod.splits)

lemma step_ok_trans:
  assumes "step_ok k0 C r k1 e k2" "kn_fds k1 \<subseteq> kn_fds k"
  shows "step_ok k0 C r k e k2"
  using assms by (auto simp: step_ok_def)

lemma rx_updateMapping_step:
  assumes h: "held k0 C (sock_fds (rx_socket rx)) k" and run: "rx_running rx \<longleftrightarrow> isOpen (rx_socket rx)"
    and r: "fresh_or_own r (sock_fds (rx_socket rx)) k" and u: "rx_updateMapping r m (rx, k) = (ok, rx', k')"
  shows "step_ok k0 C r k (rx_running rx', rx_socket rx') k'"
proof (cases "rx_running rx \<and> \<not> cm_start m + unat (sd_numChannels (rx_sdp rx)) > 128")
  case True
  obtain rx1 k1 where st: "rx_stop (rx, k) = (rx1, k1)" by fastforce
  note stopped = rx_stop_step [OF h run st]
  have s: "rx_start r (rx1\<lparr>rx_mapping := m\<rparr>, k1) = (ok, rx', k')" using u st True by (simp add: rx_updateMapping_def Let_def)
  have "step_ok k0 C r k1 (rx_running rx', rx_socket rx') k'"
    by (rule rx_start_step(1) [OF _ _ _ s]) (use stopped r in \<open>auto simp: fresh_or_own_def closed_fds\<close>)
  then show ?thesis by (rule step_ok_trans) (use stopped in auto)
next
  case False
  then show ?thesis using u h run by (auto simp: rx_updateMapping_def Let_def step_ok_def split: if_splits)
qed

lemma tx_updateMapping_step:
  assumes h: "held k0 C (sock_fds (tx_socket tx)) k" and run: "tx_running tx \<longleftrightarrow> isOpen (tx_socket tx)"
    and r: "fresh_or_own r (sock_fds (tx_socket tx)) k" and u: "tx_updateMapping r m (tx, k) = (ok, tx', k')"
  shows "step_ok k0 C r k (tx_running tx', tx_socket tx') k'"
proof (cases "tx_running tx \<and> \<not> cm_start m + unat (sd_numChannels (tx_sdp tx)) > 128")
  case True
  obtain tx1 k1 where st: "tx_stop (tx, k) = (tx1, k1)" by fastforce
  note stopped = tx_stop_step [OF h run st]
  have s: "tx_start r (tx1\<lparr>tx_mapping := m\<rparr>, k1) = (ok, tx', k')" using u st True by (simp add: tx_updateMapping_def Let_def)
  have "step_ok k0 C r k1 (tx_running tx', tx_socket tx') k'"
    by (rule tx_start_step(1) [OF _ _ _ s]) (use stopped r in \<open>auto simp: fresh_or_own_def closed_fds\<close>)
  then show ?thesis by (rule step_ok_trans) (use stopped in auto)
next
  case False
  then show ?thesis using u h run by (auto simp: tx_updateMapping_def Let_def step_ok_def split: if_splits)
qed

section \<open>Streams\<close>

definition owned :: "managed_stream \<Rightarrow> int multiset" where
  "owned ms = (case ms_receiver ms of None \<Rightarrow> {#} | Some rx \<Rightarrow> sock_fds (rx_socket rx)) +
     (case ms_transmitter ms of None \<Rightarrow> {#} | Some tx \<Rightarrow> sock_fds (tx_socket tx))"

text \<open>A stream has one endpoint, which runs exactly while its socket is open.\<close>

definition ms_sound :: "managed_stream \<Rightarrow> bool" where
  "ms_sound ms \<longleftrightarrow> (ms_receiver ms = None \<or> ms_transmitter ms = None) \<and>
     (\<forall>rx. ms_receiver ms = Some rx \<longrightarrow> (rx_running rx \<longleftrightarrow> isOpen (rx_socket rx))) \<and>
     (\<forall>tx. ms_transmitter ms = Some tx \<longrightarrow> (tx_running tx \<longleftrightarrow> isOpen (tx_socket tx)))"

definition ms_step :: "kernel \<Rightarrow> (int \<Rightarrow> nat) \<Rightarrow> open_results \<Rightarrow> kernel \<Rightarrow> managed_stream \<Rightarrow> kernel \<Rightarrow> bool" where
  "ms_step k0 C r k ms' k' \<longleftrightarrow> held k0 C (owned ms') k' \<and> ms_sound ms' \<and>
     (\<forall>f \<in> kn_fds k'. f \<in> kn_fds k \<or> 0 \<le> f \<and> f = or_socket r)"

lemma ms_stepI:
  "step_ok k0 C r k (rx_running rx, rx_socket rx) k' \<Longrightarrow> ms_receiver ms = Some rx \<Longrightarrow> ms_transmitter ms = None \<Longrightarrow> ms_step k0 C r k ms k'"
  "step_ok k0 C r k (tx_running tx, tx_socket tx) k' \<Longrightarrow> ms_receiver ms = None \<Longrightarrow> ms_transmitter ms = Some tx \<Longrightarrow> ms_step k0 C r k ms k'"
  by (simp_all add: ms_step_def step_ok_def ms_sound_def owned_def)

lemma ms_cases:
  assumes "ms_sound ms"
  obtains (receiver) rx where "ms_receiver ms = Some rx" "ms_transmitter ms = None" "owned ms = sock_fds (rx_socket rx)"
      "rx_running rx \<longleftrightarrow> isOpen (rx_socket rx)"
    | (transmitter) tx where "ms_receiver ms = None" "ms_transmitter ms = Some tx" "owned ms = sock_fds (tx_socket tx)"
      "tx_running tx \<longleftrightarrow> isOpen (tx_socket tx)"
    | (none) "ms_receiver ms = None" "ms_transmitter ms = None" "owned ms = {#}"
  using assms by (cases "ms_receiver ms"; cases "ms_transmitter ms") (auto simp: ms_sound_def owned_def)

lemma stop_managed_step:
  assumes h: "held k0 C (owned ms) k" and s: "ms_sound ms" and c: "stop_managed (ms, k) = (ms', k')"
  shows "held k0 C {#} k' \<and> owned ms' = {#} \<and> ms_sound ms'"
  using s
proof (cases rule: ms_cases)
  case (receiver rx)
  obtain rx' k1 where r: "rx_stop (rx, k) = (rx', k1)" by fastforce
  have "ms' = ms\<lparr>ms_receiver := Some rx', ms_transmitter := None\<rparr>" "k' = k1" using c receiver r by (simp_all add: stop_managed_def)
  then show ?thesis using rx_stop_step [OF _ receiver(4) r] h receiver(3) by (simp add: owned_def ms_sound_def closed_fds)
next
  case (transmitter tx)
  obtain tx' k1 where r: "tx_stop (tx, k) = (tx', k1)" by fastforce
  have "ms' = ms\<lparr>ms_receiver := None, ms_transmitter := Some tx'\<rparr>" "k' = k1" using c transmitter r by (simp_all add: stop_managed_def)
  then show ?thesis using tx_stop_step [OF _ transmitter(4) r] h transmitter(3) by (simp add: owned_def ms_sound_def closed_fds)
next
  case none
  then show ?thesis using h c by (auto simp: stop_managed_def owned_def ms_sound_def)
qed

lemma start_managed_step:
  assumes h: "held k0 C (owned ms) k" and s: "ms_sound ms" and f: "fresh_or_own r (owned ms) k"
    and c: "start_managed r (ms, k) = (ms', k')"
  shows "ms_step k0 C r k ms' k'"
  using s
proof (cases rule: ms_cases)
  case (receiver rx)
  obtain b rx' k1 where r: "rx_start r (rx, k) = (b, rx', k1)" by (metis prod_cases3)
  have "ms' = ms\<lparr>ms_receiver := Some rx', ms_transmitter := None\<rparr>" "k' = k1" using c receiver r by (simp_all add: start_managed_def)
  then show ?thesis using rx_start_step(1) [OF _ receiver(4) _ r] h f receiver(3) by (intro ms_stepI(1) [of _ _ _ _ rx']) simp_all
next
  case (transmitter tx)
  obtain b tx' k1 where r: "tx_start r (tx, k) = (b, tx', k1)" by (metis prod_cases3)
  have "ms' = ms\<lparr>ms_receiver := None, ms_transmitter := Some tx'\<rparr>" "k' = k1" using c transmitter r by (simp_all add: start_managed_def)
  then show ?thesis using tx_start_step(1) [OF _ transmitter(4) _ r] h f transmitter(3) by (intro ms_stepI(2) [of _ _ _ _ tx']) simp_all
next
  case none
  then show ?thesis using h c by (auto simp: start_managed_def owned_def ms_sound_def ms_step_def)
qed

text \<open>A new stream.\<close>

lemma start_if_active_step:
  assumes h: "held k0 C {#} k" and s: "ms_sound ms" "owned ms = {#}" and f: "fresh_or_own r {#} k"
    and c: "start_if_active active r ms k = (res, k')"
  shows "case res of None \<Rightarrow> k' = k | Some ms' \<Rightarrow> ms_step k0 C r k ms' k'"
proof (cases active)
  case True
  from s(1) show ?thesis
  proof (cases rule: ms_cases)
    case (receiver rx)
    obtain b rx' k1 where r: "rx_start r (rx, k) = (b, rx', k1)" by (metis prod_cases3)
    note st = rx_start_step [OF _ receiver(4) _ r, of k0 C]
    have "\<not> rx_running rx" using receiver s(2) by (auto simp: sock_fds_def split: if_splits)
    then show ?thesis using st h f s(2) receiver c r True
      by (auto simp: start_if_active_def intro!: ms_stepI(1) split: if_splits)
  next
    case (transmitter tx)
    obtain b tx' k1 where r: "tx_start r (tx, k) = (b, tx', k1)" by (metis prod_cases3)
    note st = tx_start_step [OF _ transmitter(4) _ r, of k0 C]
    have "\<not> tx_running tx" using transmitter s(2) by (auto simp: sock_fds_def split: if_splits)
    then show ?thesis using st h f s(2) transmitter c r True
      by (auto simp: start_if_active_def intro!: ms_stepI(2) split: if_splits)
  next
    case none
    then show ?thesis using h s c True by (auto simp: start_if_active_def ms_step_def)
  qed
next
  case False
  then show ?thesis using h s c by (auto simp: start_if_active_def ms_step_def)
qed

section \<open>The table\<close>

definition held_fds :: "(stream_id \<times> managed_stream) list \<Rightarrow> int multiset" where
  "held_fds ss = (\<Sum>(i, ms)\<leftarrow>ss. owned ms)"

lemma held_fds_simps [simp]: "held_fds [] = {#}" "held_fds ((i, ms) # ss) = owned ms + held_fds ss"
  by (simp_all add: held_fds_def)

lemma held_split: "held k0 C (A + B) k \<Longrightarrow> held k0 (\<lambda>f. C f + count A f) B k"
  by (auto simp: held_def add.assoc)

lemma held_join:
  assumes "held k0 (\<lambda>f. C f + count A f) B k" "\<forall>f \<in> kn_fds k0. 0 < C f"
  shows "held k0 C (A + B) k"
  using assms by (simp add: held_def add.assoc)

lemma held_positive: "held k0 C A k \<Longrightarrow> \<forall>f \<in> kn_fds k0. 0 < C f"
  by (simp add: held_def)

lemma stop_all:
  assumes "held k0 C (held_fds ss) k" "\<forall>(i, ms) \<in> set ss. ms_sound ms" "for_streams (\<lambda>_. stop_managed) ss k = (ss', k')"
  shows "held k0 C {#} k' \<and> held_fds ss' = {#} \<and> (\<forall>(i, ms) \<in> set ss'. ms_sound ms) \<and> map fst ss' = map fst ss"
  using assms
proof (induction ss arbitrary: k ss' k')
  case (Cons p ss)
  obtain i ms where p: "p = (i, ms)" by fastforce
  obtain ms' k1 where g: "stop_managed (ms, k) = (ms', k1)" by fastforce
  obtain r k2 where rest: "for_streams (\<lambda>_. stop_managed) ss k1 = (r, k2)" by fastforce
  have e: "ss' = (i, ms') # r" "k' = k2" using Cons.prems(3) p g rest by simp_all
  have "held k0 (\<lambda>f. C f + count (held_fds ss) f) (owned ms) k"
    using Cons.prems(1) p by (intro held_split) (simp add: add.commute)
  from stop_managed_step [OF this _ g] have m: "held k0 (\<lambda>f. C f + count (held_fds ss) f) {#} k1" "owned ms' = {#}" "ms_sound ms'"
    using Cons.prems(2) p by auto
  have "held k0 C (held_fds ss) k1" using held_join [OF m(1) held_positive [OF Cons.prems(1)]] by simp
  from Cons.IH [OF this _ rest] show ?case using Cons.prems(2) m e p by auto
qed auto

lemma start_all:
  assumes "held k0 C (held_fds ss) k" "\<forall>(i, ms) \<in> set ss. ms_sound ms \<and> fresh_or_own (r i) (owned ms) k" "distinct (map fst ss)"
    "\<And>i j. i \<noteq> j \<Longrightarrow> 0 \<le> or_socket (r i) \<Longrightarrow> or_socket (r i) \<noteq> or_socket (r j)"
    "for_streams (\<lambda>i. start_managed (r i)) ss k = (ss', k')"
  shows "held k0 C (held_fds ss') k' \<and> (\<forall>(i, ms) \<in> set ss'. ms_sound ms) \<and> map fst ss' = map fst ss"
  using assms(1-3,5)
proof (induction ss arbitrary: k ss' k' C)
  case (Cons p ss)
  obtain i ms where p: "p = (i, ms)" by fastforce
  obtain ms' k1 where g: "start_managed (r i) (ms, k) = (ms', k1)" by fastforce
  obtain q k2 where rest: "for_streams (\<lambda>i. start_managed (r i)) ss k1 = (q, k2)" by fastforce
  have e: "ss' = (i, ms') # q" "k' = k2" using Cons.prems(4) p g rest by simp_all
  have pos: "\<forall>f \<in> kn_fds k0. 0 < C f" by (rule held_positive [OF Cons.prems(1)])
  have "held k0 (\<lambda>f. C f + count (held_fds ss) f) (owned ms) k"
    using Cons.prems(1) p by (intro held_split) (simp add: add.commute)
  from start_managed_step [OF this _ _ g] have m: "ms_step k0 (\<lambda>f. C f + count (held_fds ss) f) (r i) k ms' k1"
    using Cons.prems(2) p by auto
  then have h: "held k0 (\<lambda>f. C f + count (held_fds ss) f) (owned ms') k1" and snd: "ms_sound ms'"
    and fds: "\<forall>f \<in> kn_fds k1. f \<in> kn_fds k \<or> 0 \<le> f \<and> f = or_socket (r i)" by (simp_all add: ms_step_def)
  have "held k0 (\<lambda>f. C f + count (owned ms') f) (held_fds ss) k1"
    using held_split [OF held_join [OF h pos, unfolded add.commute [of "held_fds ss"]]] .
  moreover have "\<forall>(j, x) \<in> set ss. ms_sound x \<and> fresh_or_own (r j) (owned x) k1"
  proof (intro ballI, clarify)
    fix j x assume j: "(j, x) \<in> set ss"
    then have "j \<noteq> i" using Cons.prems(3) p by force
    moreover have "ms_sound x \<and> fresh_or_own (r j) (owned x) k" using Cons.prems(2) j by auto
    ultimately show "ms_sound x \<and> fresh_or_own (r j) (owned x) k1"
      using fds assms(4) [of j i] by (auto simp: fresh_or_own_def)
  qed
  ultimately have IH: "held k0 (\<lambda>f. C f + count (owned ms') f) (held_fds q) k2 \<and> (\<forall>(i, ms) \<in> set q. ms_sound ms) \<and> map fst q = map fst ss"
    using Cons.prems(3) p rest by (intro Cons.IH) simp_all
  then show ?case using held_join [OF conjunct1 [OF IH] pos] snd e p by auto
qed auto

lemma held_fds_del: "smap_ok ss \<Longrightarrow> map_of ss i = Some ms \<Longrightarrow> held_fds ss = owned ms + held_fds (smap_del i ss)"
proof (induction ss)
  case (Cons p ss)
  obtain j x where p: "p = (j, x)" by fastforce
  have ok: "smap_ok ss" "j \<notin> fst ` set ss" using Cons.prems(1) p by (auto simp: smap_ok_def)
  show ?case
  proof (cases "j = i")
    case True
    then have "filter (\<lambda>(k', _). k' \<noteq> i) ss = ss" using ok(2) by (auto simp: filter_id_conv image_iff)
    then show ?thesis using Cons.prems(2) p True by (simp add: smap_del_def)
  next
    case False
    then show ?thesis using Cons.IH [OF ok(1)] Cons.prems(2) p by (simp add: smap_del_def ac_simps)
  qed
qed simp

lemma held_fds_del_none: "map_of ss i = None \<Longrightarrow> smap_del i ss = ss"
  by (force simp: smap_del_def filter_id_conv map_of_eq_None_iff)

lemma held_fds_put: "smap_ok ss \<Longrightarrow> held_fds (smap_put i ms ss) = owned ms + held_fds (smap_del i ss)"
proof (induction i ms ss rule: smap_put.induct)
  case (2 i ms j x ss)
  have ok: "smap_ok ss" "\<forall>k \<in> fst ` set ss. j < k" using 2(2) by (auto simp: smap_ok_def less_le)
  have n: "smap_del i ss = ss" if "i \<le> j" using ok(2) that by (intro held_fds_del_none) (force simp: map_of_eq_None_iff)
  show ?case using 2(1) [OF _ _ ok(1)] n by (auto simp: smap_del_def ac_simps)
qed (simp_all add: smap_del_def)

section \<open>The manager\<close>

definition k0_count :: "kernel \<Rightarrow> int \<Rightarrow> nat" where "k0_count k0 f = of_bool (f \<in> kn_fds k0)"

definition sockets_inv :: "kernel \<Rightarrow> stream_manager \<Rightarrow> bool" where
  "sockets_inv k0 s \<longleftrightarrow> smap_ok (sm_streams s) \<and> (\<forall>(i, ms) \<in> set (sm_streams s). ms_sound ms) \<and>
     held k0 (k0_count k0) (held_fds (sm_streams s)) (sm_kernel s)"

text \<open>
  The kernel's answers to the calls of one operation: it does not return an open descriptor, except one that the
  same stream closes first, and no descriptor twice.
\<close>

definition owned_by :: "stream_id \<Rightarrow> stream_manager \<Rightarrow> int multiset" where
  "owned_by i s = (case map_of (sm_streams s) i of None \<Rightarrow> {#} | Some ms \<Rightarrow> owned ms)"

definition honest :: "sm_env \<Rightarrow> stream_manager \<Rightarrow> bool" where
  "honest e s \<longleftrightarrow> (\<forall>i. fresh_or_own (en_open e i) (owned_by i s) (sm_kernel s)) \<and>
     (\<forall>i j. i \<noteq> j \<longrightarrow> 0 \<le> or_socket (en_open e i) \<longrightarrow> or_socket (en_open e i) \<noteq> or_socket (en_open e j))"

lemma sockets_focus:
  assumes "sockets_inv k0 s"
  shows "held k0 (\<lambda>f. k0_count k0 f + count (held_fds (smap_del i (sm_streams s))) f) (owned_by i s) (sm_kernel s)"
    "map_of (sm_streams s) i = Some ms \<Longrightarrow> ms_sound ms"
proof -
  have h: "held k0 (k0_count k0) (held_fds (sm_streams s)) (sm_kernel s)" and ok: "smap_ok (sm_streams s)"
    using assms by (simp_all add: sockets_inv_def)
  have "held_fds (sm_streams s) = held_fds (smap_del i (sm_streams s)) + owned_by i s"
    using held_fds_del [OF ok] held_fds_del_none [of "sm_streams s" i]
    by (cases "map_of (sm_streams s) i") (simp_all add: owned_by_def add.commute)
  with h show "held k0 (\<lambda>f. k0_count k0 f + count (held_fds (smap_del i (sm_streams s))) f) (owned_by i s) (sm_kernel s)"
    by (intro held_split) simp
  show "map_of (sm_streams s) i = Some ms \<Longrightarrow> ms_sound ms"
    using assms by (auto simp: sockets_inv_def dest!: map_of_SomeD)
qed

lemma held_other:
  assumes "held k0 C A k"
  shows "f \<in> kn_fds k \<Longrightarrow> f \<notin># A \<Longrightarrow> 0 < C f" "0 < C f \<Longrightarrow> f \<in> kn_fds k \<and> f \<notin># A"
proof -
  have e: "C f + count A f = of_bool (f \<in> kn_fds k)" using assms unfolding held_def by blast
  show "f \<in> kn_fds k \<Longrightarrow> f \<notin># A \<Longrightarrow> 0 < C f" using e by (simp add: not_in_iff)
  show "0 < C f \<Longrightarrow> f \<in> kn_fds k \<and> f \<notin># A" using e by (cases "f \<in> kn_fds k") (auto simp: not_in_iff)
qed

lemma k0_positive: "\<forall>f \<in> kn_fds k0. 0 < k0_count k0 f"
  by (simp add: k0_count_def)

text \<open>An operation that replaces or inserts the entry of one stream.\<close>

lemma sockets_put:
  assumes inv: "sockets_inv k0 s" and hon: "honest e s"
    and step: "ms_step k0 (\<lambda>f. k0_count k0 f + count (held_fds (smap_del i (sm_streams s))) f) (en_open e i) (sm_kernel s) ms k"
    and t: "sm_streams t = smap_put i ms (sm_streams s)" "sm_kernel t = k"
  shows "sockets_inv k0 t" "honest e t"
proof -
  have ok: "smap_ok (sm_streams s)" and sound: "\<forall>(i, ms) \<in> set (sm_streams s). ms_sound ms" using inv by (simp_all add: sockets_inv_def)
  have h: "held k0 (\<lambda>f. k0_count k0 f + count (held_fds (smap_del i (sm_streams s))) f) (owned ms) k" "ms_sound ms"
    and fds: "\<forall>f \<in> kn_fds k. f \<in> kn_fds (sm_kernel s) \<or> 0 \<le> f \<and> f = or_socket (en_open e i)" using step by (simp_all add: ms_step_def)
  have "held k0 (k0_count k0) (held_fds (sm_streams t)) k"
    using held_join [OF h(1)] k0_positive by (simp add: t(1) held_fds_put [OF ok] add.commute)
  moreover have "\<forall>(j, x) \<in> set (sm_streams t). ms_sound x"
    using smap_put_set [OF ok] sound h(2) by (fastforce simp: t(1))
  ultimately show "sockets_inv k0 t" using t smap_ok_put [OF ok] by (simp add: sockets_inv_def)
  have m: "owned_by j t = (if j = i then owned ms else owned_by j s)" for j
    using t(1) ok by (simp add: owned_by_def map_of_smap_put)
  have "fresh_or_own (en_open e j) (owned_by j t) k" for j
  proof (cases "j = i")
    case True
    show ?thesis
    proof (cases "0 \<le> or_socket (en_open e i) \<and> or_socket (en_open e i) \<in> kn_fds k \<and> or_socket (en_open e i) \<notin># owned ms")
      case True': True
      then have "0 < k0_count k0 (or_socket (en_open e i)) + count (held_fds (smap_del i (sm_streams s))) (or_socket (en_open e i))"
        using held_other(1) [OF h(1)] by simp
      from held_other(2) [OF sockets_focus(1) [OF inv, of i] this]
      have "or_socket (en_open e i) \<in> kn_fds (sm_kernel s) \<and> or_socket (en_open e i) \<notin># owned_by i s" by simp
      then show ?thesis using hon True' by (auto simp: honest_def fresh_or_own_def)
    qed (use m True in \<open>auto simp: fresh_or_own_def\<close>)
  next
    case False
    have "fresh_or_own (en_open e j) (owned_by j s) (sm_kernel s)" using hon by (simp add: honest_def)
    moreover have "0 \<le> or_socket (en_open e j) \<Longrightarrow> or_socket (en_open e j) \<noteq> or_socket (en_open e i)"
      using hon False by (auto simp: honest_def)
    ultimately show ?thesis using fds m False by (auto simp: fresh_or_own_def)
  qed
  then show "honest e t" using hon t(2) by (simp add: honest_def)
qed

text \<open>States that differ in neither streams nor kernel.\<close>

lemma sockets_same:
  assumes "sm_streams t = sm_streams s" "sm_kernel t = sm_kernel s"
  shows "sockets_inv k0 t \<longleftrightarrow> sockets_inv k0 s" "honest e t \<longleftrightarrow> honest e s"
  using assms by (simp_all add: sockets_inv_def honest_def owned_by_def)

text \<open>A new stream that is started and put into the table, or dropped when it does not start.\<close>

lemma sockets_add:
  assumes inv: "sockets_inv k0 s" and hon: "honest e s" and new: "map_of (sm_streams s) i = None"
    and ms: "ms_sound ms \<and> owned ms = {#}" and st: "start_if_active a (en_open e i) ms (sm_kernel s) = (res, k)"
    and t: "sm_streams t = (case res of None \<Rightarrow> sm_streams s | Some ms' \<Rightarrow> smap_put i ms' (sm_streams s))" "sm_kernel t = k"
  shows "sockets_inv k0 t \<and> honest e t"
proof -
  let ?C = "\<lambda>f. k0_count k0 f + count (held_fds (smap_del i (sm_streams s))) f"
  have o: "owned_by i s = {#}" using new by (simp add: owned_by_def)
  have f: "fresh_or_own (en_open e i) {#} (sm_kernel s)" using hon o by (metis honest_def)
  have h: "held k0 ?C {#} (sm_kernel s)" using sockets_focus(1) [OF inv, of i] o by simp
  note r = start_if_active_step [OF h conjunct1 [OF ms] conjunct2 [OF ms] f st]
  show ?thesis
  proof (cases res)
    case None
    then show ?thesis using r t sockets_same [of t s] inv hon by simp
  next
    case (Some ms')
    then have "ms_step k0 ?C (en_open e i) (sm_kernel s) ms' k" using r by simp
    from sockets_put [OF inv hon this] t Some show ?thesis by simp
  qed
qed

lemma new_endpoints:
  "isOpen (rx_socket (rx_new l sdp m d n)) = False" "rx_running (rx_new l sdp m d n) = False"
  "isOpen (tx_socket (tx_new c sdp m n)) = False" "tx_running (tx_new c sdp m n) = False"
  by (simp_all add: rx_new_def tx_new_def socket_new_def isOpen_def)

lemma new_receiver: "ms_receiver ms = Some (rx_new l sdp m d n) \<Longrightarrow> ms_transmitter ms = None \<Longrightarrow> ms_sound ms \<and> owned ms = {#}"
  by (simp add: ms_sound_def owned_def new_endpoints closed_fds)

lemma new_transmitter: "ms_receiver ms = None \<Longrightarrow> ms_transmitter ms = Some (tx_new c sdp m n) \<Longrightarrow> ms_sound ms \<and> owned ms = {#}"
  by (simp add: ms_sound_def owned_def new_endpoints closed_fds)

text \<open>Every operation.\<close>

lemma sockets_addStream_mapped:
  assumes "sockets_inv k0 s" "honest e s"
  shows "sockets_inv k0 (snd (sm_addStream_mapped e sdp m s))"
proof -
  let ?i = "generate_stream_id (en_random e)"
  let ?m = "complete_mapping ?i (sd_sessionName sdp) (sd_numChannels sdp) m"
  define ms where "ms = \<lparr>ms_sdp = sdp, ms_mapping = ?m, ms_receiver = Some (rx_new (en_lookup e) sdp ?m 0 []),
    ms_transmitter = None, ms_info = stream_info_of (en_fresh e) ?i sdp, ms_isTransmit = False\<rparr>"
  obtain added mp where a: "addMapping ?m (sm_mapper s) = (added, mp)" by fastforce
  obtain res k where st: "start_if_active (sm_ioActive s) (en_open e ?i) ms (sm_kernel s) = (res, k)" by fastforce
  have ms: "ms_sound ms \<and> owned ms = {#}" by (rule new_receiver) (simp_all add: ms_def)
  show ?thesis
  proof (cases "fst (canAddStream e sdp s) \<and> map_of (sm_streams s) ?i = None \<and> added")
    case True
    then show ?thesis
      by (intro conjunct1 [OF sockets_add [OF assms _ ms st]])
         (simp_all add: sm_addStream_mapped_def a st Let_def ms_def [symmetric] split: option.split)
  next
    case False
    then have "snd (sm_addStream_mapped e sdp m s) = s" using a by (auto simp: sm_addStream_mapped_def Let_def)
    then show ?thesis using assms(1) by simp
  qed
qed

lemma sockets_addStream: "sockets_inv k0 s \<Longrightarrow> honest e s \<Longrightarrow> sockets_inv k0 (snd (sm_addStream e sdp s))"
  using sockets_addStream_mapped by (simp add: sm_addStream_def split: option.split)

lemma sockets_createTxStream:
  assumes "sockets_inv k0 s" "honest e s" "map_of (sm_streams s) (generate_stream_id (en_random e)) = None"
  shows "sockets_inv k0 (snd (createTxStream e name ip port n m s))"
proof -
  let ?i = "generate_stream_id (en_random e)"
  let ?m = "complete_mapping ?i name n m"
  let ?sdp = "tx_session e name ip port n (sm_deviceSampleRate s)"
  define ms where "ms = \<lparr>ms_sdp = ?sdp, ms_mapping = ?m, ms_receiver = None,
    ms_transmitter = Some (tx_new (en_ssrc e) ?sdp ?m []),
    ms_info = (en_fresh e)\<lparr>si_id := ?i, si_name := name,
      si_multicast := (si_multicast (en_fresh e))\<lparr>na_ip := ip, na_port := port\<rparr>,
      si_encoding := L24, si_sampleRate := sd_sampleRate ?sdp, si_numChannels := n,
      si_payloadType := sd_payloadType ?sdp, si_isActive := True\<rparr>, ms_isTransmit = True\<rparr>"
  obtain added mp where a: "addMapping ?m (sm_mapper s) = (added, mp)" by fastforce
  obtain res k where st: "start_if_active (sm_ioActive s) (en_open e ?i) ms (sm_kernel s) = (res, k)" by fastforce
  have ms: "ms_sound ms \<and> owned ms = {#}" by (rule new_transmitter) (simp_all add: ms_def)
  show ?thesis
  proof (cases "fst (canAddStream e ?sdp s) \<and> added")
    case True
    then show ?thesis
      by (intro conjunct1 [OF sockets_add [OF assms ms st]])
         (simp_all add: createTxStream_def a st Let_def ms_def [symmetric] split: option.split)
  next
    case False
    then have "snd (createTxStream e name ip port n m s) = s" using a by (auto simp: createTxStream_def Let_def)
    then show ?thesis using assms(1) by simp
  qed
qed

lemma sockets_load_config:
  assumes "sockets_inv k0 s" "honest e s"
  shows "sockets_inv k0 (snd (load_config e c s)) \<and> honest e (snd (load_config e c s))"
proof -
  let ?i = "cm_streamID (pv_mapping c)" and ?ms = "loaded_stream e c"
  obtain added mp where a: "addMapping (pv_mapping c) (sm_mapper s) = (added, mp)" by fastforce
  obtain res k where st: "start_if_active (sm_ioActive s) (en_open e ?i) ?ms (sm_kernel s) = (res, k)" by fastforce
  have ms: "ms_sound ?ms \<and> owned ?ms = {#}"
    by (simp add: loaded_stream_def Let_def ms_sound_def owned_def new_endpoints closed_fds)
  show ?thesis
  proof (cases "pv_enabled c \<and> persisted_isValid c \<and> fst (canAddStream e (pv_sdp c) s) \<and> map_of (sm_streams s) ?i = None \<and> added")
    case True
    then show ?thesis
      by (intro sockets_add [OF assms _ ms st]) (simp_all add: load_config_def a st Let_def sm_notify_def split: option.split)
  next
    case False
    then have "snd (load_config e c s) = s" using a by (auto simp: load_config_def Let_def)
    then show ?thesis using assms by simp
  qed
qed

lemma sockets_load_configs:
  "sockets_inv k0 s \<Longrightarrow> honest e s \<Longrightarrow> sockets_inv k0 (snd (load_configs e cs s))"
proof (induction cs arbitrary: s)
  case (Cons c cs)
  from Cons.IH [of "snd (load_config e c s)"] sockets_load_config [OF Cons.prems, of c]
  show ?case by (auto split: prod.splits)
qed simp

lemma sockets_loadSavedStreams:
  "sockets_inv k0 s \<Longrightarrow> honest e s \<Longrightarrow> sockets_inv k0 (snd (loadSavedStreams e configs s))"
  using sockets_load_configs by (auto simp: loadSavedStreams_def split: option.splits prod.splits) (metis snd_conv)

lemma sockets_removeStream:
  assumes inv: "sockets_inv k0 s"
  shows "sockets_inv k0 (snd (sm_removeStream e i s))"
proof (cases "map_of (sm_streams s) i")
  case (Some ms)
  obtain ms' k where g: "stop_managed (ms, sm_kernel s) = (ms', k)" by fastforce
  have ok: "smap_ok (sm_streams s)" and sound: "\<forall>(i, ms) \<in> set (sm_streams s). ms_sound ms" using inv by (simp_all add: sockets_inv_def)
  have "held k0 (\<lambda>f. k0_count k0 f + count (held_fds (smap_del i (sm_streams s))) f) {#} k"
    using stop_managed_step [OF _ _ g] sockets_focus(1) [OF inv, of i] sockets_focus(2) [OF inv Some] Some
    by (simp add: owned_by_def)
  from held_join [OF this k0_positive] have "held k0 (k0_count k0) (held_fds (smap_del i (sm_streams s))) k" by simp
  moreover have "\<forall>(j, x) \<in> set (smap_del i (sm_streams s)). ms_sound x" using sound by (auto simp: smap_del_def)
  moreover have "sm_streams (snd (sm_removeStream e i s)) = smap_del i (sm_streams s)" "sm_kernel (snd (sm_removeStream e i s)) = k"
    using Some g by (simp_all add: sm_removeStream_def autoSaveIfEnabled_def saveAllStreams_def sm_notify_def Let_def)
  ultimately show ?thesis using smap_ok_del [OF ok] by (simp add: sockets_inv_def)
qed (use inv in \<open>simp add: sm_removeStream_def\<close>)

lemma removeAll_kernel:
  assumes inv: "sockets_inv k0 s"
  shows "held k0 (k0_count k0) {#} (sm_kernel (removeAllStreams s))"
proof -
  obtain ss k where f: "for_streams (\<lambda>_. stop_managed) (sm_streams s) (sm_kernel s) = (ss, k)" by fastforce
  have "held k0 (k0_count k0) {#} k"
    using stop_all [OF _ _ f] inv by (simp add: sockets_inv_def)
  then show ?thesis using f by (simp add: removeAllStreams_def)
qed

lemma sockets_removeAllStreams: "sockets_inv k0 s \<Longrightarrow> sockets_inv k0 (removeAllStreams s)"
  using removeAll_kernel [of k0 s] by (simp add: sockets_inv_def removeAllStreams_def smap_ok_def split: prod.splits)

lemma sockets_updateMapping:
  assumes inv: "sockets_inv k0 s" and hon: "honest e s"
  shows "sockets_inv k0 (snd (sm_updateMapping e i m s))"
proof (cases "map_of (sm_streams s) i")
  case (Some ms)
  let ?m = "m\<lparr>cm_streamID := i, cm_streamName := cm_streamName (ms_mapping ms), cm_streamChannelCount := sd_numChannels (ms_sdp ms)\<rparr>"
  let ?C = "\<lambda>f. k0_count k0 f + count (held_fds (smap_del i (sm_streams s))) f"
  obtain ok mp where u: "updateMapping ?m (sm_mapper s) = (ok, mp)" by fastforce
  have h: "held k0 ?C (owned ms) (sm_kernel s)" using sockets_focus(1) [OF inv, of i] Some by (simp add: owned_by_def)
  have f: "fresh_or_own (en_open e i) (owned ms) (sm_kernel s)"
    using hon Some by (auto simp: honest_def owned_by_def dest!: spec [of _ i])
  note saved = sm_updateMapping_def Some u autoSaveIfEnabled_def saveAllStreams_def sm_notify_def Let_def
  show ?thesis
  proof (cases ok)
    case True
    from sockets_focus(2) [OF inv Some] show ?thesis
    proof (cases rule: ms_cases)
      case (receiver rx)
      obtain b rx' k where r: "rx_updateMapping (en_open e i) ?m (rx, sm_kernel s) = (b, rx', k)" by (metis prod_cases3)
      have "ms_step k0 ?C (en_open e i) (sm_kernel s) (ms\<lparr>ms_mapping := ?m, ms_receiver := Some rx'\<rparr>) k"
        by (rule ms_stepI(1) [OF rx_updateMapping_step [OF _ receiver(4) _ r]]) (use h f receiver in simp_all)
      then show ?thesis by (rule sockets_put(1) [OF inv hon]) (simp_all add: saved receiver True r)
    next
      case (transmitter tx)
      obtain b tx' k where r: "tx_updateMapping (en_open e i) ?m (tx, sm_kernel s) = (b, tx', k)" by (metis prod_cases3)
      have "ms_step k0 ?C (en_open e i) (sm_kernel s) (ms\<lparr>ms_mapping := ?m, ms_transmitter := Some tx'\<rparr>) k"
        by (rule ms_stepI(2) [OF tx_updateMapping_step [OF _ transmitter(4) _ r]]) (use h f transmitter in simp_all)
      then show ?thesis by (rule sockets_put(1) [OF inv hon]) (simp_all add: saved transmitter True r)
    next
      case none
      have "ms_step k0 ?C (en_open e i) (sm_kernel s) (ms\<lparr>ms_mapping := ?m\<rparr>) (sm_kernel s)"
        using h none by (simp add: ms_step_def owned_def ms_sound_def)
      then show ?thesis by (rule sockets_put(1) [OF inv hon]) (simp_all add: saved none True)
    qed
  next
    case False
    then show ?thesis using inv by (simp add: saved)
  qed
qed (use inv in \<open>simp add: sm_updateMapping_def\<close>)

lemma sockets_setIOActive:
  assumes inv: "sockets_inv k0 s" and hon: "honest e s"
  shows "sockets_inv k0 (setIOActive e active s)"
proof (cases "sm_ioActive s = active")
  case False
  let ?g = "if active then (\<lambda>i. start_managed (en_open e i)) else (\<lambda>_. stop_managed)"
  obtain ss k where f: "for_streams ?g (sm_streams s) (sm_kernel s) = (ss, k)" by fastforce
  have ok: "smap_ok (sm_streams s)" "\<forall>(i, ms) \<in> set (sm_streams s). ms_sound ms"
    "held k0 (k0_count k0) (held_fds (sm_streams s)) (sm_kernel s)" using inv by (simp_all add: sockets_inv_def)
  have "held k0 (k0_count k0) (held_fds ss) k \<and> (\<forall>(i, ms) \<in> set ss. ms_sound ms) \<and> map fst ss = map fst (sm_streams s)"
  proof (cases active)
    case True
    have "\<forall>(i, ms) \<in> set (sm_streams s). ms_sound ms \<and> fresh_or_own (en_open e i) (owned ms) (sm_kernel s)"
    proof (intro ballI, clarify)
      fix i ms assume m: "(i, ms) \<in> set (sm_streams s)"
      then have "map_of (sm_streams s) i = Some ms" using ok(1) by (simp add: smap_ok_def)
      moreover have "fresh_or_own (en_open e i) (owned_by i s) (sm_kernel s)" using hon by (simp add: honest_def)
      ultimately show "ms_sound ms \<and> fresh_or_own (en_open e i) (owned ms) (sm_kernel s)" using ok(2) m by (auto simp: owned_by_def)
    qed
    then show ?thesis using f True start_all [OF ok(3), of "en_open e" ss k] ok(1) hon
      by (simp add: smap_ok_def honest_def)
  next
    case False
    then show ?thesis using f stop_all [OF ok(3,2), of ss k] by simp
  qed
  then show ?thesis using False f ok(1) by (simp add: setIOActive_def sockets_inv_def smap_ok_def)
qed (use inv in \<open>simp add: setIOActive_def\<close>)

section \<open>Reachable states\<close>

text \<open>The operations of the manager while the kernel answers honestly.\<close>

inductive sockets_step :: "stream_manager \<Rightarrow> stream_manager \<Rightarrow> bool" where
  "honest e s \<Longrightarrow> sockets_step s (snd (sm_addStream e sdp s))"
| "honest e s \<Longrightarrow> sockets_step s (snd (sm_addStream_mapped e sdp m s))"
| "honest e s \<Longrightarrow> importSDPFile e content s = Parsed (i, s') \<Longrightarrow> sockets_step s s'"
| "honest e s \<Longrightarrow> map_of (sm_streams s) (generate_stream_id (en_random e)) = None \<Longrightarrow>
     sockets_step s (snd (createTxStream e name ip port n m s))"
| "sockets_step s (snd (sm_removeStream e i s))"
| "sockets_step s (removeAllStreams s)"
| "honest e s \<Longrightarrow> sockets_step s (snd (sm_updateMapping e i m s))"
| "honest e s \<Longrightarrow> sockets_step s (setIOActive e active s)"
| "sockets_step s (snd (setDeviceSampleRate rate s))"
| "sockets_step s (setAutoSave enabled s)"
| "honest e s \<Longrightarrow> sockets_step s (snd (loadSavedStreams e configs s))"
| "sockets_step s (snd (saveAllStreams e s))"

definition kernel_sound :: "kernel \<Rightarrow> bool" where
  "kernel_sound k \<longleftrightarrow> (\<forall>m \<in> kn_members k. fst m \<in> kn_fds k)"

definition sockets_start :: "kernel \<Rightarrow> stream_manager \<Rightarrow> bool" where
  "sockets_start k0 s \<longleftrightarrow> kernel_sound k0 \<and> s = sm_new k0"

lemma sockets_new: "kernel_sound k0 \<Longrightarrow> sockets_inv k0 (sm_new k0)"
  by (auto simp: sockets_inv_def sm_new_def smap_ok_def held_def kernel_rel_def kernel_sound_def k0_count_def)

lemma sockets_importSDPFile:
  "sockets_inv k0 s \<Longrightarrow> honest e s \<Longrightarrow> importSDPFile e content s = Parsed (i, s') \<Longrightarrow> sockets_inv k0 s'"
  using sockets_addStream [of k0 s e] by (auto simp: importSDPFile_def split: option.splits outcome.splits) (metis snd_conv)

lemma sockets_kept:
  assumes "sockets_inv k0 s" "sockets_step s t"
  shows "sockets_inv k0 t"
  using assms(2)
proof cases
  case (3 e content i)
  then show ?thesis using sockets_importSDPFile assms(1) by blast
next
  case (9 rate)
  then show ?thesis using assms(1) sockets_same(1) [of t s] by (simp add: setDeviceSampleRate_def)
next
  case (10 enabled)
  then show ?thesis using assms(1) sockets_same(1) [of t s] by (simp add: setAutoSave_def)
next
  case (12 e)
  then show ?thesis using assms(1) sockets_same(1) [of t s] by (simp add: saveAllStreams_def Let_def)
qed (use assms(1) in \<open>simp_all add: sockets_addStream sockets_addStream_mapped sockets_createTxStream sockets_removeStream
    sockets_removeAllStreams sockets_updateMapping sockets_setIOActive sockets_loadSavedStreams\<close>)

interpretation sockets_sys: invariant_system "sockets_start k0" sockets_step "sockets_inv k0" for k0
  by unfold_locales (auto simp: sockets_start_def sockets_new intro: sockets_kept)

lemma one_unit: "(a :: nat) + b = of_bool P \<Longrightarrow> 0 < b \<Longrightarrow> P \<and> a = 0"
  by (cases P) simp_all

lemma owned_disjoint:
  assumes inv: "sockets_inv k0 s" and i: "map_of (sm_streams s) i = Some a" and f: "f \<in># owned a"
  shows "f \<in> kn_fds (sm_kernel s)" "f \<notin> kn_fds k0" "map_of (sm_streams s) j = Some b \<Longrightarrow> f \<in># owned b \<Longrightarrow> j = i"
proof -
  let ?C = "\<lambda>f. k0_count k0 f + count (held_fds (smap_del i (sm_streams s))) f"
  have h: "held k0 ?C (owned a) (sm_kernel s)" using sockets_focus(1) [OF inv, of i] i by (simp add: owned_by_def)
  have "?C f + count (owned a) f = of_bool (f \<in> kn_fds (sm_kernel s))" using h unfolding held_def by blast
  then have c: "f \<in> kn_fds (sm_kernel s) \<and> ?C f = 0" by (rule one_unit) (simp add: f)
  then show "f \<in> kn_fds (sm_kernel s)" "f \<notin> kn_fds k0" by (auto simp: k0_count_def)
  assume j: "map_of (sm_streams s) j = Some b" "f \<in># owned b"
  show "j = i"
  proof (rule ccontr)
    assume "j \<noteq> i"
    then have "map_of (smap_del i (sm_streams s)) j = Some b" using j by (simp add: map_of_smap_del)
    moreover have "smap_ok (smap_del i (sm_streams s))" using inv by (simp add: sockets_inv_def smap_ok_del)
    ultimately have "f \<in># held_fds (smap_del i (sm_streams s))" using held_fds_del j(2) by (metis union_iff)
    then show False using c by (simp add: count_eq_zero_iff)
  qed
qed

lemma held_fds_member: "f \<in># held_fds ss \<Longrightarrow> \<exists>i ms. (i, ms) \<in> set ss \<and> f \<in># owned ms"
proof (induction ss)
  case (Cons p ss)
  then show ?case by (cases p) (metis held_fds_simps(2) list.set_intros union_iff)
qed simp

lemma kernel_restored: "held k0 (k0_count k0) {#} k \<Longrightarrow> k = k0"
proof -
  assume h: "held k0 (k0_count k0) {#} k"
  then have "k0_count k0 f = of_bool (f \<in> kn_fds k)" for f by (simp add: held_def)
  then have "f \<in> kn_fds k \<longleftrightarrow> f \<in> kn_fds k0" for f by (metis k0_count_def of_bool_eq_iff)
  then have fds: "kn_fds k = kn_fds k0" by blast
  moreover have "kn_members k = kn_members k0" using h fds by (auto simp: held_def kernel_rel_def)
  ultimately show ?thesis by simp
qed

text \<open>
  C6. No operation leaks, shares or closes a foreign socket. As long as \<open>socket()\<close> does not return an open descriptor, whatever
  is called on the stream manager (with identifiers for transmit streams that are not in use), including starts that fail at any step and remapping of running streams: the open
  descriptors are those from before and those of the streams, each stream has its own, a receiver or transmitter
  runs exactly while its socket is open, and removing all streams leaves the kernel, memberships included, as it was.
\<close>

theorem streams_own_sockets:
  assumes "reach (sockets_start k0) sockets_step s"
  shows "kn_fds (sm_kernel s) = kn_fds k0 \<union> {f. \<exists>i ms. map_of (sm_streams s) i = Some ms \<and> f \<in># owned ms} \<and>
    (\<forall>i a f. map_of (sm_streams s) i = Some a \<longrightarrow> f \<in># owned a \<longrightarrow>
       f \<notin> kn_fds k0 \<and> (\<forall>j b. map_of (sm_streams s) j = Some b \<longrightarrow> f \<in># owned b \<longrightarrow> j = i)) \<and>
    (\<forall>i ms. map_of (sm_streams s) i = Some ms \<longrightarrow> ms_sound ms) \<and>
    sm_kernel (removeAllStreams s) = k0"
proof -
  have inv: "sockets_inv k0 s" using assms by (rule sockets_sys.reach_inv)
  then have h: "held k0 (k0_count k0) (held_fds (sm_streams s)) (sm_kernel s)" and ok: "smap_ok (sm_streams s)"
    by (simp_all add: sockets_inv_def)
  have "f \<in> kn_fds k0 \<or> (\<exists>i ms. map_of (sm_streams s) i = Some ms \<and> f \<in># owned ms)" if "f \<in> kn_fds (sm_kernel s)" for f
  proof (cases "f \<in># held_fds (sm_streams s)")
    case True
    then show ?thesis using held_fds_member ok by (metis map_of_eq_Some_iff smap_ok_def)
  next
    case False
    then show ?thesis using held_other(1) [OF h that] by (simp add: k0_count_def)
  qed
  then have "kn_fds (sm_kernel s) = kn_fds k0 \<union> {f. \<exists>i ms. map_of (sm_streams s) i = Some ms \<and> f \<in># owned ms}"
    using held_subset [OF h] owned_disjoint(1) [OF inv] by blast
  then show ?thesis
    using owned_disjoint(2,3) [OF inv] sockets_focus(2) [OF inv] kernel_restored [OF removeAll_kernel [OF inv]] by blast
qed

text \<open>The kernel gives descriptor 3 to the one stream of the example.\<close>

definition socket_env :: sm_env where
  "socket_env = (manager_env 1)\<lparr>en_open := (\<lambda>i. \<lparr>or_socket = (if i = manager_id then 3 else -1), or_reuseaddr = True,
     or_reuseport = True, or_bind = True, or_multicast_ttl = True, or_multicast_if = True, or_add_membership = True\<rparr>)\<rparr>"

lemma streams_own_sockets_witness:
  "\<exists>s. sm_streams s \<noteq> [] \<and> kn_fds (sm_kernel s) = {0, 1, 2, 3} \<and> sm_kernel (removeAllStreams s) = manager_kernel"
proof -
  define s1 where "s1 = setIOActive socket_env True (sm_new manager_kernel)"
  define s2 where "s2 = snd (sm_addStream_mapped socket_env (manager_session 3) (manager_mapping null_id) s1)"
  have s: "sm_streams s1 = []" "sm_mapper s1 = mapper_new" "sm_kernel s1 = manager_kernel" "sm_ioActive s1"
      "sm_deviceSampleRate s1 = 48000"
    by (simp_all add: s1_def setIOActive_def sm_new_def)
  have hon: "honest socket_env (sm_new manager_kernel)" "honest socket_env s1"
    by (auto simp: honest_def fresh_or_own_def socket_env_def s manager_kernel_def sm_new_def)
  have "sockets_start manager_kernel (sm_new manager_kernel)" by (simp add: sockets_start_def kernel_sound_def manager_kernel_def)
  then have "reach (sockets_start manager_kernel) sockets_step (sm_new manager_kernel)" by (rule reach_start)
  then have "reach (sockets_start manager_kernel) sockets_step s1"
    unfolding s1_def by (rule reach_step) (rule sockets_step.intros(8) [OF hon(1)])
  then have r: "reach (sockets_start manager_kernel) sockets_step s2"
    unfolding s2_def by (rule reach_step) (rule sockets_step.intros(2) [OF hon(2)])
  have c: "fst (canAddStream socket_env (manager_session 3) s1)"
    using manager_can_add [of 3 socket_env manager_kernel] s by (simp add: canAddStream_iff sm_new_def)
  have m: "complete_mapping manager_id ''s'' 3 (manager_mapping null_id) = manager_mapping manager_id"
    by (simp add: complete_mapping_def manager_mapping_def)
  have d: "sd_sessionName (manager_session 3) = ''s''" "sd_numChannels (manager_session 3) = 3"
    "sd_connectionAddress (manager_session 3) = ''239.1.1.1''" "sd_port (manager_session 3) = 5004"
    by (simp_all add: manager_session_def sdp_default_def)
  obtain mp where a: "addMapping (manager_mapping manager_id) mapper_new = (True, mp)"
    using manager_add by (metis prod.collapse)
  have g: "generate_stream_id (en_random socket_env) = manager_id" using manager_generate by (simp add: socket_env_def)
  have o: "en_open socket_env manager_id = \<lparr>or_socket = 3, or_reuseaddr = True, or_reuseport = True, or_bind = True,
      or_multicast_ttl = True, or_multicast_if = True, or_add_membership = True\<rparr>" by (simp add: socket_env_def)
  have "sm_streams s2 \<noteq> [] \<and> kn_fds (sm_kernel s2) = {0, 1, 2, 3}"
    using c by (auto simp: s2_def sm_addStream_mapped_def Let_def g s d m a start_if_active_def rx_start_def o
        rx_new_def openReceiver_def isOpen_def socket_new_def kn_open_def manager_kernel_def)
  then show ?thesis using streams_own_sockets [OF r] by blast
qed

end
