(* ===== verification/Driver_Plugin.thy ===== *)
theory Driver_Plugin
  imports Audio_Device
begin

text \<open>
  What surrounds the device: its accessors and destructor (\<open>Driver/AES67Device.cpp\<close>), the plug-in that creates it
  (\<open>Driver/PlugInMain.cpp\<close>) and the priority of the network threads (\<open>Driver/AudioThreadPriority.cpp\<close>). The \<open>aspl\<close> framework
  and the Mach kernel are known by what they answer.
\<close>

section \<open>Accessors of the device\<close>

definition GetSampleRate :: "audio_device \<Rightarrow> rat" where "GetSampleRate d = dv_sampleRate d"

definition GetBufferSize :: "audio_device \<Rightarrow> u32" where "GetBufferSize d = dv_bufferSize d"

definition GetAvailableSampleRates :: "(rat \<times> rat) list" where
  "GetAvailableSampleRates = map (\<lambda>rate. (rate, rate)) supportedSampleRates"

definition GetAvailableBufferSizes :: "u32 list" where "GetAvailableBufferSizes = supportedBufferSizes"

definition GetDeviceName :: string where "GetDeviceName = ''AES67 Device''"
definition GetDeviceManufacturer :: string where "GetDeviceManufacturer = ''AES67 Driver''"
definition GetDeviceUID :: string where "GetDeviceUID = ''com.aes67.driver.device''"

definition OnSetSampleRate :: "rat \<Rightarrow> audio_device \<Rightarrow> os_status \<times> audio_device" where
  "OnSetSampleRate sampleRate d = SetSampleRate sampleRate d"

definition OnSetBufferSize :: "u32 \<Rightarrow> audio_device \<Rightarrow> os_status \<times> audio_device" where
  "OnSetBufferSize bufferSize d = SetBufferSize bufferSize d"

text \<open>Whether the warning is written that the rings should have another size; nothing is resized, and nobody calls it.\<close>

definition ResizeRingBuffers :: "rat \<Rightarrow> audio_device \<Rightarrow> bool option" where
  "ResizeRingBuffers sampleRate d =
     map_option (\<lambda>newSize. unat newSize \<noteq> rb_capacity (io_inputBuffers (dv_io d) ! 0)) (CalculateRingBufferSize sampleRate 3)"

text \<open>The body of the destructor; the members go afterwards, among them the manager, which removes its streams.\<close>

definition device_destroy :: "audio_device \<Rightarrow> audio_device" where
  "device_destroy d =
     d\<lparr>dv_inputStream := set_active False (dv_inputStream d), dv_outputStream := set_active False (dv_outputStream d),
       dv_io := (dv_io d)\<lparr>io_ioRunning := False\<rparr>, dv_manager := map_option removeAllStreams (dv_manager d)\<rparr>"

section \<open>The plug-in\<close>

text \<open>The devices added to the plug-in; None when a construction of the framework or an allocation throws.\<close>

record aes67_plugin =
  pg_manufacturer :: string
  pg_devices :: "audio_device list"

definition GetManufacturer :: string where "GetManufacturer = ''AES67 Driver Project''"

definition plugin_new ::
    "sm_env \<Rightarrow> sm_env \<Rightarrow> sm_env \<Rightarrow> persisted_config list option \<Rightarrow> kernel \<Rightarrow> aes67_plugin option" where
  "plugin_new e e1 e2 configs k =
     map_option (\<lambda>device. \<lparr>pg_manufacturer = GetManufacturer, pg_devices = [device_Initialize e e1 e2 configs k device]\<rparr>)
       device_new"

definition Create ::
    "bool \<Rightarrow> sm_env \<Rightarrow> sm_env \<Rightarrow> sm_env \<Rightarrow> persisted_config list option \<Rightarrow> kernel \<Rightarrow> aes67_plugin option" where
  "Create throws e e1 e2 configs k = (if throws then None else plugin_new e e1 e2 configs k)"

text \<open>The alternative entry does not catch the exception.\<close>

definition CreateDriver ::
    "bool \<Rightarrow> sm_env \<Rightarrow> sm_env \<Rightarrow> sm_env \<Rightarrow> persisted_config list option \<Rightarrow> kernel \<Rightarrow> unit + aes67_plugin option" where
  "CreateDriver throws e e1 e2 configs k = (if throws then Inl () else Inr (plugin_new e e1 e2 configs k))"

section \<open>Thread priority\<close>

text \<open>How a thread is scheduled, and the nice value of the process.\<close>

record scheduling =
  th_timeshare :: bool
  th_importance :: int
  th_affinity_tag :: int
  th_nice :: int

text \<open>The answers: whether each of the three requests succeeds, and whether the nice value may be set.\<close>

record priority_answers =
  an_extended :: bool
  an_precedence :: bool
  an_affinity :: bool
  an_nice :: bool

definition set_nice :: "bool \<Rightarrow> int \<Rightarrow> scheduling \<Rightarrow> scheduling" where
  "set_nice allowed n t = (if allowed then t\<lparr>th_nice := n\<rparr> else t)"

definition getRecommendedPriority :: int where "getRecommendedPriority = 63"

definition configureThreadForRealTime :: "priority_answers \<Rightarrow> scheduling \<Rightarrow> bool \<times> scheduling" where
  "configureThreadForRealTime a t =
     (if \<not> an_extended a then (False, set_nice (an_nice a) (-20) t)
      else
        let t1 = t\<lparr>th_timeshare := False\<rparr>
        in if \<not> an_precedence a then (False, t1)
           else
             let t2 = t1\<lparr>th_importance := 63\<rparr>
             in (an_affinity a, if an_affinity a then t2\<lparr>th_affinity_tag := 0\<rparr> else t2))"

definition configureForRealTime :: "priority_answers \<Rightarrow> scheduling \<Rightarrow> bool \<times> scheduling" where
  "configureForRealTime a t = configureThreadForRealTime a t"

definition restoreNormalPriority :: "priority_answers \<Rightarrow> scheduling \<Rightarrow> scheduling" where
  "restoreNormalPriority a t = set_nice (an_nice a) 0 (if an_extended a then t\<lparr>th_timeshare := True\<rparr> else t)"

section \<open>Properties\<close>

text \<open>
  When Core Audio gets a driver, it has exactly one device, which is well formed, and whatever happens to the device until it
  is destroyed, it is left without streams and without I/O, and its stream objects are inactive.
\<close>

theorem plugin_lifecycle:
  assumes "Create False e e1 e2 configs k = Some p" "length (en_random e1) = 16" "length (en_random e2) = 16"
    "generate_stream_id (en_random e1) \<noteq> generate_stream_id (en_random e2)"
  shows "\<exists>d. pg_devices p = [d] \<and> device_inv d \<and>
    (\<forall>d'. device_step\<^sup>*\<^sup>* d d' \<longrightarrow> device_inv d' \<and>
       (\<exists>m. dv_manager (device_destroy d') = Some m \<and> sm_sound m \<and> sm_streams m = []) \<and>
       \<not> io_ioRunning (dv_io (device_destroy d')) \<and>
       map_option as_active (dv_inputStream (device_destroy d')) = Some (Some False) \<and>
       map_option as_active (dv_outputStream (device_destroy d')) = Some (Some False))"
proof -
  obtain d0 where d0: "device_new = Some d0" "pg_devices p = [device_Initialize e e1 e2 configs k d0]"
    using assms(1) by (auto simp: Create_def plugin_new_def)
  let ?d = "device_Initialize e e1 e2 configs k d0"
  have "device_start ?d"
    unfolding device_start_def by (intro exI conjI, rule d0(1), rule refl, fact assms(2), fact assms(3), fact assms(4))
  then have d: "device_inv ?d" by (rule device_sys.inv_start)
  have "device_inv d' \<and> (\<exists>m. dv_manager (device_destroy d') = Some m \<and> sm_sound m \<and> sm_streams m = []) \<and>
       \<not> io_ioRunning (dv_io (device_destroy d')) \<and>
       map_option as_active (dv_inputStream (device_destroy d')) = Some (Some False) \<and>
       map_option as_active (dv_outputStream (device_destroy d')) = Some (Some False)"
    if "device_step\<^sup>*\<^sup>* ?d d'" for d'
  proof -
    have i: "device_inv d'" using device_sys.rtranclp_inv [OF that d] .
    then obtain m a b where m: "dv_manager d' = Some m" "sm_sound m" "dv_inputStream d' = Some a" "dv_outputStream d' = Some b"
      by (auto simp: device_inv_def stream_follows_def)
    moreover have "sm_streams (removeAllStreams m) = []" by (simp add: removeAllStreams_def split: prod.split)
    ultimately show ?thesis using i removeAllStreams_sound [OF m(2)]
      by (simp add: device_destroy_def set_active_def)
  qed
  then show ?thesis using d0(2) d by blast
qed

text \<open>Real-time scheduling is in force whenever the answer is success, and may be when it is failure.\<close>

lemma realtime_answer:
  "fst (configureThreadForRealTime a t) \<Longrightarrow> \<not> th_timeshare (snd (configureThreadForRealTime a t)) \<and>
     th_importance (snd (configureThreadForRealTime a t)) = getRecommendedPriority"
  "an_extended a \<Longrightarrow> an_precedence a \<Longrightarrow> \<not> an_affinity a \<Longrightarrow>
     configureThreadForRealTime a t = (False, t\<lparr>th_timeshare := False, th_importance := 63\<rparr>)"
  by (simp_all add: configureThreadForRealTime_def getRecommendedPriority_def Let_def split: if_splits)

text \<open>Restoring leaves the importance of the thread as it was raised.\<close>

lemma restore_keeps_importance:
  assumes "fst (configureForRealTime a t)"
  shows "th_importance (restoreNormalPriority a' (snd (configureForRealTime a t))) = 63"
  using realtime_answer(1) [of a t] assms
  by (simp add: restoreNormalPriority_def set_nice_def configureForRealTime_def getRecommendedPriority_def)

lemma plugin_lifecycle_witness:
  "\<exists>p. Create False (device_env 1) (device_env 1) (device_env 2) None manager_kernel = Some p \<and>
     (\<exists>d m. pg_devices p = [d] \<and> dv_manager (device_destroy d) = Some m \<and> sm_streams m = [])"
proof -
  let ?p = "\<lparr>pg_manufacturer = GetManufacturer, pg_devices = [test_device]\<rparr>"
  have c: "Create False (device_env 1) (device_env 1) (device_env 2) None manager_kernel = Some ?p"
    by (simp add: Create_def plugin_new_def device_new_fresh test_device_def)
  from plugin_lifecycle [OF c device_ids(1) device_ids(1) device_ids(2)]
  obtain d where "pg_devices ?p = [d]" "\<exists>m. dv_manager (device_destroy d) = Some m \<and> sm_sound m \<and> sm_streams m = []" by auto
  with c show ?thesis by blast
qed

end
