(* ===== verification/Spec2Isabelle.thy ===== *)
theory Spec2Isabelle
  imports Ring_Buffer Ring_Concurrent Jitter_Buffer Circular_Jitter_Buffer Packet_Pool Pool_Concurrent Packet_Pool_Variants Core_Types
    Channel_Mapper Audio_Codec Rtp_Packet Sdp_Roundtrip Rtp_Receiver Rtp_Playout Rtp_Transmitter Audio_Path Io_Handler Driver_Path Stream_Restart Net_Detection Ptp_Time Ptp_Sockets Sap_Listener Rtsp_Client Audio_Device Dop_Decoder Error_Recovery Resource_Cleanup Buffer_Monitor Priority_Queue Resampling Clock_Control Rtp_Pacing Log_Queue Driver_Config Stats_Report Stream_Sockets Driver_Plugin
begin

text \<open>
  Verification library of the AES67 macOS driver: an audio device of 128 input and 128 output channels whose channels travel
  over the network as RTP streams. Paths below are relative to the source tree.

  \<^bold>\<open>How the program works.\<close> Core Audio calls the I/O handler on its audio thread; it moves samples between the client and 256
  lock-free rings, one for each channel and direction. A transmitter per outgoing stream reads its rings once a packet
  time, encodes and sends RTP packets. A receiver per incoming stream has two threads: one puts validated packets into a
  jitter buffer, the other takes them out in sequence order, decodes them and writes the rings. The stream manager owns
  receivers, transmitters and the channel mapper, which gives each stream its own device channels, and saves the table to a
  file. Streams are described by SDP texts, which SAP announcements and RTSP servers deliver. A PTP slave measures the
  network time; clocks and a phase-locked loop turn it into media time.

  \<^bold>\<open>Buffers between threads.\<close> Ring_Buffer and Ring_Concurrent (Shared/RingBuffer.hpp, LockFreeRingBuffer.h): the rings as
  operations and as the single loads, copies and stores of producer and consumer in any interleaving; refinement of a bounded
  FIFO, no cell accessed by both at once. Jitter_Buffer and Circular_Jitter_Buffer (NetworkEngine/RTP): reordering of
  packets by sequence number against a map. Packet_Pool and Pool_Concurrent: the free list conserves its
  packets, also when any number of threads run their loads and exchanges in any order; Packet_Pool_Variants: two older pools,
  one of which loses this without the tag. Priority_Queue
  (LockFreePriorityQueue.h): a heap refines a bounded multiset, with one producer and one consumer under its lock.
  Buffer_Monitor: events counted of a fill level. The interfaces the clients rely on are locales of the Prelude
  (\<open>bounded_fifo\<close>, \<open>reorder_buffer\<close>, and \<open>invariant_system\<close> for whatever is proved of all reachable states) and of Priority_Queue (\<open>comparator\<close>), interpreted on the models in the theories of the
  buffers.

  \<^bold>\<open>Audio path.\<close> Audio_Codec (SimpleRTP.cpp, L16 and L24): single precision as a datatype with NaN, infinities and rounded
  rationals; the error of encoding and decoding. Rtp_Packet: headers, serialisation, sockets over a model of the kernel's
  descriptors and memberships. Rtp_Receiver, Rtp_Playout, Rtp_Pacing (RTPReceiver.cpp): the two threads as steps; packets
  of one window are played once, in order; what the counters say; what a reset does under any interleaving of arrivals and
  consumer rounds that keeps the consumer less than a buffer behind; the pacing. Rtp_Transmitter (RTPTransmitter.cpp). Io_Handler
  (AES67IOHandler.cpp). Audio_Path and Driver_Path compose them: from the client of one device to the client of another.
  Dop_Decoder, Resampling, Clock_Control: DSD over PCM, the linear resampler and its adapter, the controllers.

  \<^bold>\<open>Streams.\<close> Core_Types (Shared/Types): identifiers, addresses, counters; Stats_Report: what is reported of them. Sdp_Session,
  Sdp_Parser, Sdp_Roundtrip (SDPParser.cpp): parser, generator, and which sessions survive the two. Channel_Mapper
  (StreamChannelMapper.cpp): no two streams share a device channel while mappings are sequential. Stream_Manager holds the operations of
  StreamManager.cpp; Stream_Calls shows what every call with any arguments (\<open>sm_step\<close>: custom channel maps, any number of channels,
  any saved configuration) keeps of table, mapper and endpoints; Stream_Table shows the stronger invariant, with disjoint channels, of
  the calls whose mappings are sequential and have the stream's channel count (\<open>plain_step\<close>), which updateMapping does not enforce;
  Stream_Lifecycle has failed additions, saving and loading. Stream_Sockets: no operation leaks, shares or closes a foreign socket.
  Stream_Config, Stream_Config_Roundtrip, Stream_Restart (StreamConfig.cpp): the configuration file and a restart through it.
  Audio_Device (AES67Device.cpp): the device on top of all this; Driver_Plugin: the plug-in that creates it, its
  end, and the priority of threads.

  \<^bold>\<open>Network and time.\<close> Net_Interfaces, Net_Detection: choice of an interface. Sap_Listener, Rtsp_Client: discovery, from bytes
  to sessions. Ptp_Message, Ptp_Slave, Ptp_Sockets, Ptp_Sync (PTPSlave.cpp): messages, handlers, sockets and what both threads can
  do together, with a mutex locked twice as the outcome \<open>Blocked\<close>. Phase_Locked_Loop, Ptp_Interface, Ptp_Clock, Ptp_Time: the
  clocks; doubles are rationals rounded after each operation, with the error lemmas in Double_Precision. Neither single
  nor double precision distinguishes \<open>+0\<close> from \<open>-0\<close>: equalities of samples are equalities of numbers, not of bit patterns.

  \<^bold>\<open>Support.\<close> Prelude and Text_Lib hold the machine types, list, word and text lemmas all theories share. Error_Recovery,
  Resource_Cleanup, Log_Queue, Driver_Config: error handlers, cleanup, the logger as a queue between threads, configuration and
  build number.

  \<^bold>\<open>Conventions.\<close> Names of definitions are those of the code, prefixed where two classes share a name. State is a record and
  operations return the new one; what may be undefined (reads outside an array, signed overflow, division by zero) is \<open>None\<close>, an
  error or an outcome of its own. Machine integers keep their width. The answers of the operating system, clock readings and
  random bytes are arguments, so the theorems hold for all of them. Loops recurse on a list, on a count the code has, or with a
  measure; the two that need not end are partial functions with \<open>None\<close> for no result: \<open>readResponse\<close> of Rtsp_Client, which is shown to
  return exactly when some read delivers nothing (closed or timed out) or the blank line that ends the header arrives, so a
  peer that keeps sending header bytes holds it for ever, and \<open>power_above\<close> of Audio_Device, which is shown to return for the sizes the
  device asks for. Threads interleave sequentially consistent; that is justified for the rings by the absence of data races and
  elsewhere by the mutexes of the code; for the packet pool it is an assumption. The packet pool is safe for fewer than
  \<open>2 ^ 64\<close> changes of its head, after which the tag repeats.

  \<^bold>\<open>Not modelled.\<close> TemporalJitterBuffer and JitterBuffer.cpp do not compile (a capacity of 200 against a static assertion of the
  ring; members of a name that is an alias now). DebugLog.h writes texts to a file; the manager application is a
  user interface whose bridge sends notifications nobody receives. Tools, examples and tests exercise the parts above. The vendored
  ptpd is third-party code that the build does not use.
\<close>

end
